(* ===== verification/Prelude.thy ===== *)
theory Prelude
  imports Main "HOL-Library.Word" "HOL-Library.Multiset" "HOL-Library.Char_ord"
    "HOL-Library.List_Lexorder"
begin

text \<open>
  What the components share: the way a C run can fail (\<open>c_error\<close>) and the sequencing of
  fallible steps (\<open>ebind\<close>, \<open>c_assert\<close>), array accesses whose bounds are checked by the
  model (\<open>aget\<close>, \<open>aset\<close>), the C library's \<open>strcmp\<close>, the machine integers of the
  sources as names, and the lemma collections the component theories extend.
\<close>

section \<open>Machine integers\<close>

type_synonym u8 = "8 word"
type_synonym u16 = "16 word"
type_synonym u32 = "32 word"
type_synonym u64 = "64 word"
type_synonym bytes = "8 word list"

lemma unat_ucast_up:
  "LENGTH('a::len) \<le> LENGTH('b::len) \<Longrightarrow> unat (ucast (x :: 'a word) :: 'b word) = unat x"
  by (metis is_up.rep_eq uint_up_ucast unat_eq_nat_uint source_size target_size)

lemma unat_plus_exact:
  "unat x + unat y < 2 ^ LENGTH('a) \<Longrightarrow> unat (x + y :: 'a::len word) = unat x + unat y"
  using unat_add_lem by blast

lemma unat_times_exact:
  "unat x * unat y < 2 ^ LENGTH('a) \<Longrightarrow> unat (x * y :: 'a::len word) = unat x * unat y"
  using unat_mult_lem by blast

lemma unat_minus_exact: "y \<le> x \<Longrightarrow> unat (x - y :: 'a::len word) = unat x - unat y"
  by (simp add: unat_sub)

lemma negative_iff: "sint (w :: u64) < 0 \<longleftrightarrow> 2 ^ 63 \<le> unat w"
proof -
  have "unat w < 2 ^ LENGTH(64)" by (rule unsigned_less)
  then have "unat w div 2 ^ 63 \<in> {0, 1}" by auto
  then have "odd (unat w div 2 ^ 63) \<longleftrightarrow> 2 ^ 63 \<le> unat w" by (auto simp: div_eq_0_iff)
  moreover have "bit (unat w) 63 = bit w 63" by (simp add: bit_unsigned_iff)
  moreover have "bit w 63 \<longleftrightarrow> sint w < 0" using bit_last_iff [of w] by simp
  ultimately show ?thesis by (simp only: bit_iff_odd)
qed

section \<open>Fallible computations\<close>

text \<open>
  How a run of one of the programs stops early: a failed \<open>assert\<close>, a call of \<open>exit\<close> or
  \<open>abort\<close>, an arithmetic trap of the processor, an access outside an object (or through
  \<open>NULL\<close>), a read of a value nobody wrote, an operation C leaves undefined.
\<close>

datatype c_error =
    Assert_Failed
  | Exit_With nat
  | Abort
  | Arith_Trap
  | Bad_Access
  | Indeterminate
  | Undefined

type_synonym 'a result = "c_error + 'a"

fun ebind :: "'e + 'a \<Rightarrow> ('a \<Rightarrow> 'e + 'b) \<Rightarrow> 'e + 'b" where
  "ebind (Inl e) f = Inl e"
| "ebind (Inr x) f = f x"

definition c_assert :: "bool \<Rightarrow> unit result" where
  "c_assert b = (if b then Inr () else Inl Assert_Failed)"

lemma ebind_eq_Inr [simp]:
  "ebind m f = Inr y \<longleftrightarrow> (\<exists>x. m = Inr x \<and> f x = Inr y)"
  by (cases m) auto

lemma ebind_eq_Inl:
  "ebind m f = Inl e \<longleftrightarrow> m = Inl e \<or> (\<exists>x. m = Inr x \<and> f x = Inl e)"
  by (cases m) auto

lemma ebind_assoc: "ebind (ebind m f) g = ebind m (\<lambda>x. ebind (f x) g)"
  by (cases m) auto

lemma ebind_cong [fundef_cong]:
  "m = n \<Longrightarrow> (\<And>x. n = Inr x \<Longrightarrow> f x = g x) \<Longrightarrow> ebind m f = ebind n g"
  by (cases n) auto

lemma c_assert_Inr [simp]: "c_assert b = Inr u \<longleftrightarrow> b"
  by (cases u) (simp add: c_assert_def)

lemma c_assert_Inl [simp]: "c_assert b = Inl e \<longleftrightarrow> \<not> b \<and> e = Assert_Failed"
  by (auto simp: c_assert_def)

lemma c_assert_True [simp]: "c_assert True = Inr ()"
  by (simp add: c_assert_def)

section \<open>Checked array accesses\<close>

text \<open>C does not check an index; an access the object does not have is an error here.\<close>

definition aget :: "'a list \<Rightarrow> nat \<Rightarrow> 'a result" where
  "aget xs i = (if i < length xs then Inr (xs ! i) else Inl Bad_Access)"

definition aset :: "'a list \<Rightarrow> nat \<Rightarrow> 'a \<Rightarrow> 'a list result" where
  "aset xs i v = (if i < length xs then Inr (xs[i := v]) else Inl Bad_Access)"

lemma aget_Inr [simp]: "aget xs i = Inr v \<longleftrightarrow> i < length xs \<and> v = xs ! i"
  by (auto simp: aget_def)

lemma aset_Inr [simp]: "aset xs i v = Inr ys \<longleftrightarrow> i < length xs \<and> ys = xs[i := v]"
  by (auto simp: aset_def)

lemma aget_after_aset: "aset xs i v = Inr ys \<Longrightarrow> aget ys j = (if j = i then Inr v else aget xs j)"
  by (auto simp: aget_def)

section \<open>The C library's strcmp\<close>

text \<open>
  The sign of \<open>strcmp\<close>: the first differing bytes, compared as unsigned values, decide; a proper
  prefix is smaller. Strings hold no NUL, the lists end where the C string does.
\<close>

fun strcmp :: "string \<Rightarrow> string \<Rightarrow> int" where
  "strcmp [] [] = 0"
| "strcmp [] (_ # _) = -1"
| "strcmp (_ # _) [] = 1"
| "strcmp (a # as) (b # bs) =
     (if (of_char a :: nat) < of_char b then -1
      else if (of_char a :: nat) > of_char b then 1
      else strcmp as bs)"

lemma of_char_nat_eq_iff [simp]: "(of_char a :: nat) = of_char b \<longleftrightarrow> a = b"
  by simp

lemma char_less_nat_iff: "a < b \<longleftrightarrow> (of_char a :: nat) < of_char b"
  by (simp add: less_char_def)

lemma strcmp_neg_iff: "strcmp a b < 0 \<longleftrightarrow> a < b"
  by (induction a b rule: strcmp.induct) (auto simp: char_less_nat_iff)

lemma strcmp_eq_0_iff: "strcmp a b = 0 \<longleftrightarrow> a = b"
  by (induction a b rule: strcmp.induct) auto

lemma strcmp_pos_iff: "0 < strcmp a b \<longleftrightarrow> b < a"
proof -
  have "0 < strcmp a b \<longleftrightarrow> \<not> strcmp a b < 0 \<and> strcmp a b \<noteq> 0" by auto
  then show ?thesis using strcmp_neg_iff strcmp_eq_0_iff by (auto simp: not_less)
qed

lemmas strcmp_iffs = strcmp_neg_iff strcmp_eq_0_iff strcmp_pos_iff

text \<open>The string in a buffer ends at its first NUL.\<close>

definition c_string :: "bytes \<Rightarrow> string" where
  "c_string bs = map (\<lambda>b. char_of (unat b)) (takeWhile (\<lambda>b. b \<noteq> 0) bs)"

section \<open>Decimal output\<close>

text \<open>What \<open>printf\<close> writes for \<open>%d\<close> and \<open>%ld\<close>.\<close>

fun digits :: "nat \<Rightarrow> string" where
  "digits n = (if n < 10 then [char_of (48 + n)] else digits (n div 10) @ [char_of (48 + n mod 10)])"

declare digits.simps [simp del]

definition string_of_int :: "int \<Rightarrow> string" where
  "string_of_int i = (if i < 0 then CHR ''-'' # digits (nat (- i)) else digits (nat i))"

text \<open>Reading the digits back gives the number.\<close>

lemma digits_value: "foldl (\<lambda>n c. 10 * n + (of_char c - 48)) 0 (digits n) = (n :: nat)"
proof (induction n rule: digits.induct)
  case (1 n)
  have digit: "of_char (char_of (48 + k)) - 48 = k" if "k < 10" for k :: nat using that by simp
  show ?case
  proof (cases "n < 10")
    case True
    with digit [of n] show ?thesis by (simp add: digits.simps [of n])
  next
    case False
    with "1.IH" digit [of "n mod 10"] show ?thesis by (simp add: digits.simps [of n] del: of_char_of)
  qed
qed

lemma digits_inj [simp]: "digits m = digits n \<longleftrightarrow> m = n"
  by (metis digits_value)

section \<open>Collections of facts\<close>

text \<open>Equations that evaluate an operation on every branch, by component.\<close>

named_theorems tree_ops "operations of the directory tree"
named_theorems basic_ops "operations of the TeenyBASIC compiler"
named_theorems jvm_ops "operations of the virtual machine"
named_theorems mem_ops "operations on the simulated heap"

end
