(* ===== verification/DirTree.thy ===== *)
theory DirTree
  imports Prelude
begin

text \<open>
  The directory tree of \<open>pretest-wduan\<close> (\<open>src/directory_tree.c\<close>): its nodes, the insertion
  that keeps a directory's children sorted by name, the printed form, and the creation of the
  tree on disk as the sequence of file system calls the code makes.
\<close>

section \<open>Nodes\<close>

text \<open>
  \<open>node_t\<close> with its type tag and the casts to \<open>file_node_t\<close> and \<open>directory_node_t\<close>: the tag is
  the constructor. A file keeps \<open>size\<close> beside \<open>contents\<close>, as the struct does.
\<close>

datatype node =
    File_node (name: string) (size_of: nat) (contents: bytes)
  | Directory_node (name: string) (children: "node list")

definition is_directory_node :: "node \<Rightarrow> bool" where
  "is_directory_node n = (case n of Directory_node _ _ \<Rightarrow> True | File_node _ _ _ \<Rightarrow> False)"

text \<open>\<open>init_node\<close> replaces a \<open>NULL\<close> name by a copy of \<open>ROOT\<close>.\<close>

definition init_node :: "string option \<Rightarrow> string" where
  "init_node nm = (case nm of None \<Rightarrow> ''ROOT'' | Some s \<Rightarrow> s)"

definition init_file_node :: "string option \<Rightarrow> nat \<Rightarrow> bytes \<Rightarrow> node" where
  "init_file_node nm sz bs = File_node (init_node nm) sz bs"

definition init_directory_node :: "string option \<Rightarrow> node" where
  "init_directory_node nm = Directory_node (init_node nm) []"

section \<open>Insertion\<close>

text \<open>
  The loop of \<open>add_child_directory_tree\<close>: \<open>index\<close> runs from the last position down to 1 and
  swaps a child with its predecessor when it is the smaller of the two. The loop does not
  stop at the first pair in order.
\<close>

fun sift_down :: "nat \<Rightarrow> node list \<Rightarrow> node list" where
  "sift_down 0 cs = cs"
| "sift_down (Suc i) cs =
     (let cur = cs ! Suc i; previous = cs ! i
      in sift_down i
           (if strcmp (name cur) (name previous) < 0
            then cs[i := cur, Suc i := previous] else cs))"

definition add_child :: "node list \<Rightarrow> node \<Rightarrow> node list" where
  "add_child cs child = (let cs' = cs @ [child] in sift_down (length cs' - 1) cs')"

fun add_child_directory_tree :: "node \<Rightarrow> node \<Rightarrow> node result" where
  "add_child_directory_tree (Directory_node nm cs) child = Inr (Directory_node nm (add_child cs child))"
| "add_child_directory_tree (File_node _ _ _) child = Inl Bad_Access"

text \<open>The reference: the child goes behind every child whose name is not greater.\<close>

definition insert_after :: "node \<Rightarrow> node list \<Rightarrow> node list" where
  "insert_after c cs =
     takeWhile (\<lambda>x. name x \<le> name c) cs @ [c] @ dropWhile (\<lambda>x. name x \<le> name c) cs"

definition sorted_names :: "node list \<Rightarrow> bool" where
  "sorted_names cs = sorted (map name cs)"

lemma length_sift_down [simp]: "length (sift_down i cs) = length cs"
  by (induction i cs rule: sift_down.induct) (auto simp: Let_def)

lemma mset_swap_adjacent:
  "Suc i < length cs \<Longrightarrow> mset (cs[i := cs ! Suc i, Suc i := cs ! i]) = mset cs"
  by (rule mset_swap) auto

lemma mset_sift_down: "i < length cs \<Longrightarrow> mset (sift_down i cs) = mset cs"
  by (induction i cs rule: sift_down.induct) (auto simp: Let_def mset_swap_adjacent)

lemma mset_add_child [tree_ops]: "mset (add_child cs c) = add_mset c (mset cs)"
  by (simp add: add_child_def Let_def mset_sift_down)

lemma set_add_child [tree_ops]: "set (add_child cs c) = insert c (set cs)"
  using mset_add_child [of cs c] by (metis set_mset_add_mset_insert set_mset_mset)

lemma length_add_child [tree_ops]: "length (add_child cs c) = Suc (length cs)"
  by (simp add: add_child_def)

text \<open>Below the position where the child came to rest the children are in order, and nothing moves.\<close>

lemma sift_down_sorted_id:
  "i < length cs \<Longrightarrow> sorted_names (take (Suc i) cs) \<Longrightarrow> sift_down i cs = cs"
proof (induction i)
  case (Suc i)
  have "sorted (map name (take (Suc (Suc i)) cs))"
    using Suc.prems by (simp add: sorted_names_def)
  then have "map name (take (Suc (Suc i)) cs) ! i \<le> map name (take (Suc (Suc i)) cs) ! Suc i"
    by (rule sorted_nth_mono) (use Suc.prems in auto)
  then have "\<not> name (cs ! Suc i) < name (cs ! i)"
    using Suc.prems by simp
  moreover have "sorted_names (take (Suc i) cs)"
    using sorted_wrt_take [OF \<open>sorted (map name (take (Suc (Suc i)) cs))\<close>, of "Suc i"]
    by (simp add: sorted_names_def take_map min_def)
  ultimately show ?case using Suc by (simp add: strcmp_iffs Let_def)
qed simp

lemma sift_down_append:
  "sorted_names xs \<Longrightarrow> sift_down (length xs) (xs @ c # ys) = insert_after c xs @ ys"
proof (induction xs arbitrary: ys rule: rev_induct)
  case Nil
  then show ?case by (simp add: insert_after_def)
next
  case (snoc x xs)
  have sorted: "sorted_names xs" and above: "\<forall>y \<in> set xs. name y \<le> name x"
    using snoc.prems by (auto simp: sorted_names_def sorted_append)
  show ?case
  proof (cases "name c < name x")
    case True
    have "sift_down (length (xs @ [x])) ((xs @ [x]) @ c # ys)
        = sift_down (length xs) (xs @ c # x # ys)"
      using True by (simp add: strcmp_iffs Let_def nth_append list_update_append)
    also have "\<dots> = insert_after c xs @ x # ys"
      by (rule snoc.IH [OF sorted])
    also have "\<dots> = insert_after c (xs @ [x]) @ ys"
    proof -
      have x: "\<not> name x \<le> name c" using True by simp
      have "takeWhile (\<lambda>y. name y \<le> name c) (xs @ [x]) = takeWhile (\<lambda>y. name y \<le> name c) xs"
        using x by (simp add: takeWhile_tail)
      moreover have "dropWhile (\<lambda>y. name y \<le> name c) (xs @ [x])
          = dropWhile (\<lambda>y. name y \<le> name c) xs @ [x]"
        using x by (induction xs) auto
      ultimately show ?thesis by (simp add: insert_after_def)
    qed
    finally show ?thesis .
  next
    case False
    let ?all = "xs @ x # c # ys"
    have "sorted_names (take (Suc (Suc (length xs))) ?all)"
      using sorted above False
      by (force simp: sorted_names_def sorted_append not_less)
    then have "sift_down (Suc (length xs)) ?all = ?all"
      by (intro sift_down_sorted_id) auto
    moreover have "takeWhile (\<lambda>y. name y \<le> name c) (xs @ [x]) = xs @ [x]"
      using above False by (intro takeWhile_eq_all_conv [THEN iffD2]) force
    moreover have "dropWhile (\<lambda>y. name y \<le> name c) (xs @ [x]) = []"
      using above False by force
    ultimately show ?thesis by (simp add: insert_after_def)
  qed
qed

lemma add_child_insert_after: "sorted_names cs \<Longrightarrow> add_child cs c = insert_after c cs"
  using sift_down_append [of cs c "[]"] by (simp add: add_child_def)

lemma sorted_insert_after: "sorted_names cs \<Longrightarrow> sorted_names (insert_after c cs)"
proof (induction cs)
  case Nil
  then show ?case by (simp add: insert_after_def sorted_names_def)
next
  case (Cons x xs)
  then show ?case by (force simp: insert_after_def sorted_names_def dest: set_takeWhileD set_dropWhileD)
qed

lemma add_child_sorted: "sorted_names cs \<Longrightarrow> sorted_names (add_child cs c)"
  by (simp add: add_child_insert_after sorted_insert_after)

section \<open>Printing\<close>

text \<open>
  \<open>print_subtree\<close>: \<open>printf("%*s", (int) (4 * depth), "")\<close> pads to the width, whose conversion to
  \<open>int\<close> keeps 32 bits; a negative width pads by its magnitude. One line per node, in preorder.
\<close>

definition indent_width :: "nat \<Rightarrow> nat" where
  "indent_width depth = nat \<bar>sint (of_nat (4 * depth) :: u32)\<bar>"

fun print_subtree :: "node \<Rightarrow> nat \<Rightarrow> string"
and print_subtrees :: "node list \<Rightarrow> nat \<Rightarrow> string" where
  "print_subtree (File_node nm sz bs) depth =
     replicate (indent_width depth) CHR '' '' @ nm @ [CHR 0x0A]"
| "print_subtree (Directory_node nm cs) depth =
     replicate (indent_width depth) CHR '' '' @ nm @ [CHR 0x0A] @ print_subtrees cs (depth + 1)"
| "print_subtrees [] depth = []"
| "print_subtrees (c # cs) depth = print_subtree c depth @ print_subtrees cs depth"

definition print_directory_tree :: "node \<Rightarrow> string" where
  "print_directory_tree n = print_subtree n 0"

lemma indent_width_small: "depth < 2 ^ 29 \<Longrightarrow> indent_width depth = 4 * depth"
proof -
  assume "depth < 2 ^ 29"
  then have "4 * int depth < 2 ^ 31" by simp
  then have "sint (of_nat (4 * depth) :: u32) = 4 * int depth"
    by (subst signed_of_nat) (simp add: signed_take_bit_int_eq_self)
  then show ?thesis by (simp add: indent_width_def)
qed

section \<open>Creation on disk\<close>

text \<open>
  The part of the file system the code sees: the entries below the working directory, each at the list of
  names that leads to it. A path is resolved name by name: every name but the last must be a directory, a
  name or a path may be too long, and \<open>.\<close> and \<open>..\<close> are the directory itself and its parent. A path
  that is absolute or climbs out of the working directory is outside of the model, \<open>Undefined\<close>.
  \<open>mkdir\<close> needs an absent path, and the code ignores its result; \<open>fopen(path, "w")\<close> fails on a directory.
  The writes of an opened file are taken to succeed, as is \<open>fopen\<close> on a file that exists.
\<close>

datatype fs_entry = Fs_dir | Fs_file bytes
type_synonym fs = "string list \<Rightarrow> fs_entry option"

definition NAME_MAX :: nat where "NAME_MAX = 255"
definition PATH_MAX :: nat where "PATH_MAX = 4096"

definition dir_exists :: "fs \<Rightarrow> string list \<Rightarrow> bool" where
  "dir_exists d q = (q = [] \<or> d q = Some Fs_dir)"

fun path_parts :: "string \<Rightarrow> string list" where
  "path_parts [] = [[]]"
| "path_parts (c # p) =
     (if c = CHR ''/'' then [] # path_parts p else (c # hd (path_parts p)) # tl (path_parts p))"

fun walk :: "fs \<Rightarrow> string list \<Rightarrow> string list \<Rightarrow> string list option result" where
  "walk d cur [] = Inr (Some cur)"
| "walk d cur (nm # names) =
     (if \<not> dir_exists d cur \<or> NAME_MAX < length nm then Inr None
      else if nm = ''.'' then walk d cur names
      else if nm = ''..'' then (if cur = [] then Inl Undefined else walk d (butlast cur) names)
      else walk d (cur @ [nm]) names)"

definition resolve :: "string \<Rightarrow> fs \<Rightarrow> string list option result" where
  "resolve p d =
     (if p = [] \<or> PATH_MAX \<le> length p then Inr None
      else if hd p = CHR ''/'' then Inl Undefined
      else walk d [] (filter (\<lambda>nm. nm \<noteq> []) (path_parts p)))"

definition posix_mkdir :: "string \<Rightarrow> fs \<Rightarrow> fs result" where
  "posix_mkdir p d =
     ebind (resolve p d) (\<lambda>r. Inr (case r of
        None \<Rightarrow> d
      | Some q \<Rightarrow> if q \<noteq> [] \<and> d q = None then d(q \<mapsto> Fs_dir) else d))"

definition posix_write :: "string \<Rightarrow> bytes \<Rightarrow> fs \<Rightarrow> fs result" where
  "posix_write p bs d =
     ebind (resolve p d) (\<lambda>r. case r of
        None \<Rightarrow> Inl Assert_Failed
      | Some q \<Rightarrow>
          if dir_exists d q \<or> last p = CHR ''/'' then Inl Assert_Failed else Inr (d(q \<mapsto> Fs_file bs)))"

definition join_path :: "string \<Rightarrow> string \<Rightarrow> string" where
  "join_path path nm = (if length path \<noteq> 0 then path @ ''/'' @ nm else nm)"

fun create_tree :: "node \<Rightarrow> string \<Rightarrow> fs \<Rightarrow> fs result"
and create_trees :: "node list \<Rightarrow> string \<Rightarrow> fs \<Rightarrow> fs result" where
  "create_tree (Directory_node nm cs) path d =
     (let cur = join_path path nm in ebind (posix_mkdir cur d) (create_trees cs cur))"
| "create_tree (File_node nm sz bs) path d =
     (let cur = join_path path nm
      in if sz \<le> length bs then posix_write cur (take sz bs) d else Inl Bad_Access)"
| "create_trees [] cur d = Inr d"
| "create_trees (c # cs) cur d = ebind (create_tree c cur d) (create_trees cs cur)"

definition create_directory_tree :: "node \<Rightarrow> fs \<Rightarrow> fs result" where
  "create_directory_tree n d = create_tree n '''' d"

text \<open>The entries a tree stands for: every node at the names that lead to it, a directory before its children.\<close>

fun tree_entries :: "node \<Rightarrow> string list \<Rightarrow> (string list \<times> fs_entry) list" where
  "tree_entries (File_node nm sz bs) q = [(q @ [nm], Fs_file bs)]"
| "tree_entries (Directory_node nm cs) q =
     (q @ [nm], Fs_dir) # concat (map (\<lambda>c. tree_entries c (q @ [nm])) cs)"

text \<open>A name a file can have, and a tree of such names that are distinct among siblings.\<close>

definition ok_name :: "string \<Rightarrow> bool" where
  "ok_name s \<longleftrightarrow> s \<noteq> [] \<and> s \<noteq> ''.'' \<and> s \<noteq> ''..'' \<and> CHR ''/'' \<notin> set s \<and> CHR 0x00 \<notin> set s \<and> length s \<le> NAME_MAX"

fun ok_tree :: "node \<Rightarrow> bool" where
  "ok_tree (File_node nm sz bs) = (ok_name nm \<and> sz = length bs)"
| "ok_tree (Directory_node nm cs) =
     (ok_name nm \<and> distinct (map name cs) \<and> (\<forall>c \<in> set cs. ok_tree c))"

text \<open>The path as the code writes it, and whether all paths of a tree are short enough.\<close>

fun path_string :: "string list \<Rightarrow> string" where
  "path_string [] = []"
| "path_string [nm] = nm"
| "path_string (nm # q) = nm @ CHR ''/'' # path_string q"

definition short_paths :: "node \<Rightarrow> string list \<Rightarrow> bool" where
  "short_paths n q \<longleftrightarrow> (\<forall>(p, e) \<in> set (tree_entries n q). length (path_string p) < PATH_MAX)"

definition store_all :: "(string list \<times> fs_entry) list \<Rightarrow> fs \<Rightarrow> fs" where
  "store_all es d = fold (\<lambda>(p, e) f. f(p \<mapsto> e)) es d"

lemma store_all_simps [simp]:
  "store_all [] d = d"
  "store_all ((p, e) # es) d = store_all es (d(p \<mapsto> e))"
  "store_all (xs @ ys) d = store_all ys (store_all xs d)"
  by (simp_all add: store_all_def)

lemma store_all_other: "p \<notin> fst ` set es \<Longrightarrow> store_all es d p = d p"
  by (induction es arbitrary: d) auto

lemma store_all_at:
  "distinct (map fst es) \<Longrightarrow> (p, e) \<in> set es \<Longrightarrow> store_all es d p = Some e"
  by (induction es arbitrary: d) (auto simp: store_all_other image_iff)

text \<open>Paths of usable names.\<close>

abbreviation "ok_path q \<equiv> (\<forall>nm \<in> set q. ok_name nm)"

lemma path_parts_name: "CHR ''/'' \<notin> set nm \<Longrightarrow> path_parts nm = [nm]"
  by (induction nm) auto

lemma path_parts_slash: "CHR ''/'' \<notin> set nm \<Longrightarrow> path_parts (nm @ CHR ''/'' # p) = nm # path_parts p"
  by (induction nm) auto

lemma path_parts_string: "ok_path q \<Longrightarrow> q \<noteq> [] \<Longrightarrow> path_parts (path_string q) = q"
  by (induction q rule: path_string.induct) (auto simp: ok_name_def path_parts_name path_parts_slash)

lemma path_string_snoc: "ok_path q \<Longrightarrow> path_string (q @ [nm]) = join_path (path_string q) nm"
proof (induction q rule: path_string.induct)
  case (3 nm1 nm2 q)
  then show ?case by (cases q) (auto simp: join_path_def ok_name_def)
qed (auto simp: join_path_def ok_name_def)

lemma path_string_hd:
  assumes "ok_path q" "q \<noteq> []"
  shows "path_string q \<noteq> [] \<and> hd (path_string q) \<noteq> CHR ''/''"
proof -
  obtain nm q' where q: "q = nm # q'" using assms(2) by (cases q) auto
  then obtain c nm' where nm: "nm = c # nm'" using assms(1) by (cases nm) (auto simp: ok_name_def)
  have "c \<noteq> CHR ''/''" using assms(1) by (auto simp: q nm ok_name_def)
  then show ?thesis by (cases q') (simp_all add: q nm)
qed

lemma path_string_last: "ok_path q \<Longrightarrow> q \<noteq> [] \<Longrightarrow> last (path_string q) \<noteq> CHR ''/''"
proof (induction q rule: path_string.induct)
  case (2 nm)
  then have "nm \<noteq> []" "CHR ''/'' \<notin> set nm" by (simp_all add: ok_name_def)
  then have "last nm \<noteq> CHR ''/''" by (metis last_in_set)
  then show ?case by simp
next
  case (3 nm1 nm2 q)
  then show ?case using path_string_hd [of "nm2 # q"] by auto
qed simp

text \<open>Where every directory on the way exists, a path of usable names leads to where it says.\<close>

lemma walk_names:
  assumes "ok_path names" "\<forall>k < length names. dir_exists d (cur @ take k names)"
  shows "walk d cur names = Inr (Some (cur @ names))"
  using assms
proof (induction names arbitrary: cur)
  case (Cons nm names)
  have "dir_exists d cur" using Cons.prems(2) [rule_format, of 0] by simp
  moreover have "\<forall>k < length names. dir_exists d ((cur @ [nm]) @ take k names)"
    using Cons.prems(2) [rule_format, of "Suc _"] by simp
  then have "walk d (cur @ [nm]) names = Inr (Some ((cur @ [nm]) @ names))" using Cons by simp
  ultimately show ?case using Cons.prems(1) by (simp add: ok_name_def)
qed simp

definition dir_path :: "fs \<Rightarrow> string list \<Rightarrow> bool" where
  "dir_path d q \<longleftrightarrow> ok_path q \<and> (\<forall>k. dir_exists d (take k q))"

lemma resolve_below:
  assumes "dir_path d q" "ok_name nm" "length (path_string (q @ [nm])) < PATH_MAX"
  shows "resolve (join_path (path_string q) nm) d = Inr (Some (q @ [nm]))"
proof -
  let ?p = "path_string (q @ [nm])"
  have ok: "ok_path (q @ [nm])" using assms(1,2) by (simp add: dir_path_def)
  have "filter (\<lambda>nm. nm \<noteq> []) (path_parts ?p) = q @ [nm]"
    using path_parts_string [OF ok] ok by (auto simp: filter_id_conv ok_name_def)
  moreover have "\<forall>k < length (q @ [nm]). dir_exists d ([] @ take k (q @ [nm]))"
    using assms(1) by (simp add: dir_path_def)
  then have "walk d [] (q @ [nm]) = Inr (Some ([] @ q @ [nm]))" by (rule walk_names [OF ok])
  ultimately have "resolve ?p d = Inr (Some (q @ [nm]))"
    using path_string_hd [OF ok] assms(3) by (simp add: resolve_def)
  then show ?thesis using path_string_snoc [of q nm] assms(1) by (simp add: dir_path_def)
qed

lemma ok_tree_name: "ok_tree n \<Longrightarrow> ok_name (name n)"
  by (cases n) auto

lemma tree_entries_prefix: "(p, e) \<in> set (tree_entries n q) \<Longrightarrow> \<exists>rest. p = q @ name n # rest"
  by (induction n q arbitrary: p e rule: tree_entries.induct) fastforce+

lemma siblings_disjoint:
  "name a \<noteq> name b \<Longrightarrow> (p, e) \<in> set (tree_entries a q) \<Longrightarrow> (p, f) \<in> set (tree_entries b q) \<Longrightarrow> False"
  by (fastforce dest!: tree_entries_prefix)

lemma children_below: "(p, e) \<in> set (tree_entries c q) \<Longrightarrow> length q < length p"
  by (fastforce dest!: tree_entries_prefix)

lemma distinct_tree_entries: "ok_tree n \<Longrightarrow> distinct (map fst (tree_entries n q))"
proof (induction n q rule: tree_entries.induct)
  case (2 nm cs q)
  have "distinct (map fst (concat (map (\<lambda>c. tree_entries c (q @ [nm])) xs)))"
    if "set xs \<subseteq> set cs" "distinct (map name xs)" for xs
    using that
  proof (induction xs)
    case (Cons c xs)
    have "\<forall>x \<in> set xs. name c \<noteq> name x" using Cons.prems(2) by (auto simp: image_iff)
    then have "fst ` set (tree_entries c (q @ [nm])) \<inter>
        fst ` set (concat (map (\<lambda>c. tree_entries c (q @ [nm])) xs)) = {}"
      using siblings_disjoint by fastforce
    moreover have "distinct (map fst (tree_entries c (q @ [nm])))" using Cons.prems "2.IH" "2.prems" by auto
    ultimately show ?case using Cons by simp
  qed simp
  then have "distinct (map fst (concat (map (\<lambda>c. tree_entries c (q @ [nm])) cs)))" using "2.prems" by simp
  then show ?case using children_below by fastforce
qed simp

lemma dir_path_kept:
  assumes "dir_path d q" "\<And>p. length p \<le> length q \<Longrightarrow> d' p = d p"
  shows "dir_path d' q"
  using assms by (auto simp: dir_path_def dir_exists_def)

lemma dir_path_snoc: "dir_path d q \<Longrightarrow> ok_name nm \<Longrightarrow> d (q @ [nm]) = Some Fs_dir \<Longrightarrow> dir_path d (q @ [nm])"
  by (auto simp: dir_path_def dir_exists_def take_Cons')

lemma short_paths_simps:
  "short_paths (File_node nm sz bs) q \<longleftrightarrow> length (path_string (q @ [nm])) < PATH_MAX"
  "short_paths (Directory_node nm cs) q \<longleftrightarrow>
     length (path_string (q @ [nm])) < PATH_MAX \<and> (\<forall>c \<in> set cs. short_paths c (q @ [nm]))"
  by (auto simp: short_paths_def)

lemma create_tree_stores:
  "path = path_string q \<Longrightarrow> ok_tree n \<Longrightarrow> short_paths n q \<Longrightarrow> dir_path d q \<Longrightarrow>
   \<forall>(p, e) \<in> set (tree_entries n q). d p = None \<Longrightarrow>
   create_tree n path d = Inr (store_all (tree_entries n q) d)"
  "cur = path_string q \<Longrightarrow> \<forall>c \<in> set cs. ok_tree c \<and> short_paths c q \<Longrightarrow> distinct (map name cs) \<Longrightarrow> dir_path d q \<Longrightarrow>
   \<forall>(p, e) \<in> set (concat (map (\<lambda>c. tree_entries c q) cs)). d p = None \<Longrightarrow>
   create_trees cs cur d = Inr (store_all (concat (map (\<lambda>c. tree_entries c q) cs)) d)"
proof (induction n path d and cs cur d arbitrary: q and q rule: create_tree_create_trees.induct)
  case (1 nm cs path d)
  let ?cur = "join_path path nm" and ?q = "q @ [nm]" and ?d = "d(q @ [nm] \<mapsto> Fs_dir)"
  have nm: "ok_name nm" "length (path_string ?q) < PATH_MAX" "\<forall>c \<in> set cs. ok_tree c \<and> short_paths c ?q"
    using 1(3,4) by (simp_all add: short_paths_simps)
  have mk: "posix_mkdir ?cur d = Inr ?d"
    using resolve_below [OF 1(5) nm(1,2)] 1(2,6) by (simp add: posix_mkdir_def)
  have cur: "?cur = path_string ?q" using path_string_snoc [of q nm] 1(2,5) by (simp add: dir_path_def)
  have "dir_path ?d q" by (rule dir_path_kept [OF 1(5)]) auto
  then have dirs: "dir_path ?d ?q" by (rule dir_path_snoc) (simp_all add: nm)
  have "\<forall>(p, e) \<in> set (concat (map (\<lambda>c. tree_entries c ?q) cs)). ?d p = None"
    using 1(6) children_below by fastforce
  then have "create_trees cs ?cur ?d = Inr (store_all (concat (map (\<lambda>c. tree_entries c ?q) cs)) ?d)"
    by (intro 1(1) [OF refl mk cur nm(3) _ dirs]) (use 1(3) in simp)
  then show ?case by (simp add: Let_def mk)
next
  case (2 nm sz bs path d)
  then have nm: "ok_name nm" "length (path_string (q @ [nm])) < PATH_MAX" by (simp_all add: short_paths_simps)
  have "join_path path nm = path_string (q @ [nm])" using path_string_snoc [of q nm] 2(1,4) by (simp add: dir_path_def)
  moreover have "ok_path (q @ [nm])" using 2(4) nm by (simp add: dir_path_def)
  ultimately have "last (join_path path nm) \<noteq> CHR ''/''" using path_string_last [of "q @ [nm]"] by simp
  then show ?case using resolve_below [OF 2(4) nm] 2 by (simp add: Let_def posix_write_def dir_exists_def fun_eq_iff)
next
  case (4 c cs cur d)
  have step: "create_tree c cur d = Inr (store_all (tree_entries c q) d)"
    using "4.prems" by (intro "4.IH"(1)) auto
  let ?d = "store_all (tree_entries c q) d"
  have "dir_path ?d q"
    by (rule dir_path_kept [OF "4.prems"(4)]) (use children_below in \<open>fastforce intro!: store_all_other\<close>)
  moreover have "?d p = None" if x: "x \<in> set cs" "(p, e) \<in> set (tree_entries x q)" for p e x
  proof -
    have "name x \<noteq> name c" using "4.prems"(3) x(1) by (auto simp: image_iff)
    then have "p \<notin> fst ` set (tree_entries c q)" using siblings_disjoint x(2) by fastforce
    moreover have "(p, e) \<in> set (concat (map (\<lambda>c. tree_entries c q) (c # cs)))" using x by auto
    then have "d p = None" using "4.prems"(5) by blast
    ultimately show ?thesis by (simp add: store_all_other)
  qed
  ultimately have "create_trees cs cur ?d = Inr (store_all (concat (map (\<lambda>c. tree_entries c q) cs)) ?d)"
    using "4.prems" by (intro "4.IH"(2) [OF step]) auto
  then show ?case by (simp add: step)
qed simp

section \<open>Release\<close>

text \<open>
  \<open>free_directory_tree\<close> as the list of the heap blocks it passes to \<open>free\<close>, each named by the
  node it belongs to (the child indices from the root) and by what it is in that node.
\<close>

datatype node_block = Contents_block | Children_block | Name_block | Struct_block

fun free_directory_tree :: "node \<Rightarrow> nat list \<Rightarrow> (nat list \<times> node_block) list"
and free_children :: "node list \<Rightarrow> nat \<Rightarrow> nat list \<Rightarrow> (nat list \<times> node_block) list" where
  "free_directory_tree (File_node nm sz bs) at =
     [(at, Contents_block), (at, Name_block), (at, Struct_block)]"
| "free_directory_tree (Directory_node nm cs) at =
     free_children cs 0 at @ [(at, Children_block), (at, Name_block), (at, Struct_block)]"
| "free_children [] i at = []"
| "free_children (c # cs) i at = free_directory_tree c (at @ [i]) @ free_children cs (Suc i) at"

text \<open>The blocks a tree owns.\<close>

fun node_at :: "node \<Rightarrow> nat list \<Rightarrow> node option" where
  "node_at n [] = Some n"
| "node_at (File_node _ _ _) (i # is) = None"
| "node_at (Directory_node _ cs) (i # is) = (if i < length cs then node_at (cs ! i) is else None)"

fun owns :: "node \<Rightarrow> nat list \<times> node_block \<Rightarrow> bool" where
  "owns n (p, k) = (case node_at n p of
       None \<Rightarrow> False
     | Some (File_node _ _ _) \<Rightarrow> k \<noteq> Children_block
     | Some (Directory_node _ _) \<Rightarrow> k \<noteq> Contents_block)"

lemma free_tree_blocks:
  "set (free_directory_tree n at) = {(at @ p, k) | p k. owns n (p, k)}"
  "set (free_children cs i at) =
     {(at @ (i + j) # p, k) | j p k. j < length cs \<and> owns (cs ! j) (p, k)}"
proof (induction n at and cs i at rule: free_directory_tree_free_children.induct)
  case (1 nm sz bs at)
  show ?case
  proof (intro set_eqI iffI)
    fix x assume "x \<in> {(at @ p, k) | p k. owns (File_node nm sz bs) (p, k)}"
    then obtain p k where x: "x = (at @ p, k)" "owns (File_node nm sz bs) (p, k)" by auto
    then have "p = []" by (cases p) auto
    with x show "x \<in> set (free_directory_tree (File_node nm sz bs) at)"
      by (cases k) auto
  qed auto
next
  case (2 nm cs at)
  show ?case
  proof (intro set_eqI iffI)
    fix x assume "x \<in> {(at @ p, k) | p k. owns (Directory_node nm cs) (p, k)}"
    then obtain p k where x: "x = (at @ p, k)" "owns (Directory_node nm cs) (p, k)" by auto
    show "x \<in> set (free_directory_tree (Directory_node nm cs) at)"
    proof (cases p)
      case Nil
      with x show ?thesis by (cases k) auto
    next
      case (Cons j q)
      with x "2.IH" show ?thesis
        by (auto split: if_splits)
    qed
  next
    fix x assume "x \<in> set (free_directory_tree (Directory_node nm cs) at)"
    then consider "x \<in> set (free_children cs 0 at)" | k where "x = (at, k)" "k \<noteq> Contents_block"
      by auto
    then show "x \<in> {(at @ p, k) | p k. owns (Directory_node nm cs) (p, k)}"
    proof cases
      case 1
      then obtain j p k where "x = (at @ j # p, k)" "j < length cs" "owns (cs ! j) (p, k)"
        using "2.IH" by auto
      then show ?thesis
        by (intro CollectI exI [of _ "j # p"] exI [of _ k]) (simp add: owns.simps)
    next
      case 2
      then show ?thesis by auto
    qed
  qed
next
  case (4 c cs i at)
  show ?case
  proof (intro set_eqI iffI)
    fix x assume "x \<in> {(at @ (i + j) # p, k) | j p k. j < length (c # cs) \<and> owns ((c # cs) ! j) (p, k)}"
    then obtain j p k where x: "x = (at @ (i + j) # p, k)" "j < length (c # cs)"
      "owns ((c # cs) ! j) (p, k)" by auto
    then show "x \<in> set (free_children (c # cs) i at)"
      using "4.IH" by (cases j) auto
  next
    fix x assume "x \<in> set (free_children (c # cs) i at)"
    then consider p k where "x = (at @ i # p, k)" "owns c (p, k)"
      | j p k where "x = (at @ (Suc i + j) # p, k)" "j < length cs" "owns (cs ! j) (p, k)"
      using "4.IH" by auto
    then show "x \<in> {(at @ (i + j) # p, k) | j p k. j < length (c # cs) \<and> owns ((c # cs) ! j) (p, k)}"
    proof cases
      case (1 p k)
      then show ?thesis by (intro CollectI exI [of _ 0] exI [of _ p] exI [of _ k]) simp
    next
      case (2 j p k)
      then show ?thesis by (intro CollectI exI [of _ "Suc j"] exI [of _ p] exI [of _ k]) simp
    qed
  qed
qed simp

lemma distinct_free_tree:
  "distinct (free_directory_tree n at)"
  "distinct (free_children cs i at)"
  by (induction n at and cs i at rule: free_directory_tree_free_children.induct)
     (auto simp: free_tree_blocks)

section \<open>Properties\<close>

text \<open>\<open>add_child_directory_tree\<close> keeps a sorted directory sorted, adds exactly the child, and
  puts it behind every child whose name is not greater, although its loop does not stop early.\<close>

theorem add_child_directory_tree_sorted:
  assumes "sorted_names cs"
  shows "\<exists>cs'. add_child_directory_tree (Directory_node nm cs) c = Inr (Directory_node nm cs') \<and>
    cs' = insert_after c cs \<and> sorted_names cs' \<and> mset cs' = add_mset c (mset cs)"
  using assms by (simp add: add_child_insert_after [symmetric] add_child_sorted mset_add_child)

theorem add_child_directory_tree_sorted_witness:
  "\<exists>cs'. add_child_directory_tree (Directory_node ''d'' [File_node ''a'' 0 [], File_node ''c'' 0 []])
        (File_node ''b'' 0 []) = Inr (Directory_node ''d'' cs') \<and> map name cs' = [''a'', ''b'', ''c'']"
  using add_child_directory_tree_sorted
      [of "[File_node ''a'' 0 [], File_node ''c'' 0 []]" "''d''" "File_node ''b'' 0 []"]
  by (auto simp: sorted_names_def insert_after_def)

text \<open>C31: on an empty working directory, creating a tree whose names are usable (not empty, neither \<open>.\<close> nor
  \<open>..\<close>, without slash, at most 255 characters), distinct among siblings and lead to paths of less than
  4096 characters succeeds, and the file system then holds exactly the tree: every directory and every
  file with its contents at the names that lead to it, and nothing else.\<close>

theorem create_directory_tree_exact:
  assumes "ok_tree n" "short_paths n []"
  shows "\<exists>d. create_directory_tree n Map.empty = Inr d \<and>
    (\<forall>p e. d p = Some e \<longleftrightarrow> (p, e) \<in> set (tree_entries n []))"
proof (intro exI conjI allI)
  let ?d = "store_all (tree_entries n []) Map.empty"
  show "create_directory_tree n Map.empty = Inr ?d"
    unfolding create_directory_tree_def
    by (rule create_tree_stores(1)) (use assms in \<open>auto simp: dir_path_def dir_exists_def\<close>)
  show "?d p = Some e \<longleftrightarrow> (p, e) \<in> set (tree_entries n [])" for p e
  proof
    assume p: "?d p = Some e"
    then have "p \<in> fst ` set (tree_entries n [])" using store_all_other by fastforce
    then obtain e' where "(p, e') \<in> set (tree_entries n [])" by auto
    with p show "(p, e) \<in> set (tree_entries n [])"
      using store_all_at [OF distinct_tree_entries [OF assms(1), of "[]"], of p e'] by simp
  qed (rule store_all_at [OF distinct_tree_entries [OF assms(1)]])
qed

definition sample_tree :: node where
  "sample_tree = Directory_node ''r'' [File_node ''f'' 1 [7], Directory_node ''s'' [File_node ''f'' 2 [8, 9]]]"

theorem create_directory_tree_exact_witness:
  "\<exists>d. create_directory_tree sample_tree Map.empty = Inr d \<and> d [''r'', ''f''] = Some (Fs_file [7]) \<and>
     d [''r'', ''s'', ''f''] = Some (Fs_file [8, 9]) \<and> d [''r'', ''g''] = None"
proof -
  have "ok_tree sample_tree" "short_paths sample_tree []"
    by (simp_all add: sample_tree_def ok_name_def short_paths_def NAME_MAX_def PATH_MAX_def)
  from create_directory_tree_exact [OF this] obtain d where d:
    "create_directory_tree sample_tree Map.empty = Inr d"
    "\<And>p e. d p = Some e \<longleftrightarrow> (p, e) \<in> set (tree_entries sample_tree [])"
    by blast
  have "d [''r'', ''g''] = None" using d(2) [of "[''r'', ''g'']"] by (cases "d [''r'', ''g'']") (auto simp: sample_tree_def)
  moreover have "d [''r'', ''f''] = Some (Fs_file [7])" by (subst d(2)) (simp add: sample_tree_def)
  moreover have "d [''r'', ''s'', ''f''] = Some (Fs_file [8, 9])" by (subst d(2)) (simp add: sample_tree_def)
  ultimately show ?thesis using d(1) by blast
qed

text \<open>\<open>free_directory_tree\<close> passes every heap block of a tree to \<open>free\<close> exactly once, and
  nothing else.\<close>

theorem free_directory_tree_exact:
  "distinct (free_directory_tree n []) \<and>
   (\<forall>p k. (p, k) \<in> set (free_directory_tree n []) \<longleftrightarrow> owns n (p, k))"
  by (auto simp: distinct_free_tree free_tree_blocks simp del: owns.simps)

end
