(* ===== verification/TestTree.thy ===== *)
theory TestTree
  imports DirTree
begin

text \<open>
  The driver of \<open>pretest-wduan\<close> (\<open>src/test_tree.c\<close>): the binary search for a child, the
  insertion of a file at a path with the missing directories built on the way, and the loop over
  the input's lines. A directory is represented by its array of children.
\<close>

section \<open>Binary search\<close>

function get_child_between :: "node list \<Rightarrow> string \<Rightarrow> nat \<Rightarrow> nat \<Rightarrow> nat option" where
  "get_child_between cs nm left right =
     (if left < right then
        let mid = (left + right) div 2;
            cmp = strcmp nm (name (cs ! mid))
        in if cmp = 0 then Some mid
           else if cmp < 0 then get_child_between cs nm left mid
           else get_child_between cs nm (mid + 1) right
      else None)"
  by pat_completeness auto
termination
  by (relation "measure (\<lambda>(cs, nm, l, r). r - l)") auto

declare get_child_between.simps [simp del]

definition get_child_index :: "node list \<Rightarrow> string \<Rightarrow> nat option" where
  "get_child_index cs nm = get_child_between cs nm 0 (length cs)"

definition get_child :: "node list \<Rightarrow> string \<Rightarrow> node option" where
  "get_child cs nm = map_option (\<lambda>i. cs ! i) (get_child_index cs nm)"

lemma get_child_between_sound:
  "get_child_between cs nm l r = Some i \<Longrightarrow> r \<le> length cs \<Longrightarrow>
   i < r \<and> name (cs ! i) = nm"
proof (induction cs nm l r rule: get_child_between.induct)
  case (1 cs nm l r)
  let ?mid = "(l + r) div 2"
  from "1.prems"(1) have lr: "l < r"
    by (subst (asm) get_child_between.simps) (simp split: if_splits)
  from "1.prems"(1) lr
  consider (hit) "i = ?mid" "name (cs ! ?mid) = nm"
    | (low) "nm < name (cs ! ?mid)" "get_child_between cs nm l ?mid = Some i"
    | (high) "name (cs ! ?mid) < nm" "get_child_between cs nm (?mid + 1) r = Some i"
    by (subst (asm) get_child_between.simps)
       (auto simp: Let_def strcmp_iffs split: if_splits)
  then show ?case
  proof cases
    case low
    then have "i < ?mid \<and> name (cs ! i) = nm"
      using "1.IH"(1) [OF lr refl refl] "1.prems" lr by (simp add: strcmp_iffs less_imp_neq)
    with lr show ?thesis by auto
  next
    case high
    then show ?thesis
      using "1.IH"(2) [OF lr refl refl] "1.prems" lr by (simp add: strcmp_iffs less_imp_neq)
  qed (use lr in auto)
qed

lemma get_child_between_complete:
  "sorted_names cs \<Longrightarrow> r \<le> length cs \<Longrightarrow> get_child_between cs nm l r = None \<Longrightarrow>
   l \<le> i \<Longrightarrow> i < r \<Longrightarrow> name (cs ! i) \<noteq> nm"
proof (induction cs nm l r rule: get_child_between.induct)
  case (1 cs nm l r)
  let ?mid = "(l + r) div 2"
  have lr: "l < r" and mid: "?mid < r" "l \<le> ?mid" using "1.prems" by auto
  have le: "j \<le> k \<Longrightarrow> k < length cs \<Longrightarrow> name (cs ! j) \<le> name (cs ! k)" for j k
    using sorted_nth_mono [of "map name cs" j k] "1.prems"(1) by (simp add: sorted_names_def)
  from "1.prems"(3) lr
  consider (low) "nm < name (cs ! ?mid)" "get_child_between cs nm l ?mid = None"
    | (high) "name (cs ! ?mid) < nm" "get_child_between cs nm (?mid + 1) r = None"
    by (subst (asm) get_child_between.simps)
       (auto simp: Let_def strcmp_iffs split: if_splits)
  then show ?case
  proof cases
    case low
    show ?thesis
    proof (cases "i < ?mid")
      case True
      with low "1.IH"(1) [OF lr refl refl] "1.prems" mid show ?thesis
        by (auto simp: strcmp_iffs)
    next
      case False
      then have "name (cs ! ?mid) \<le> name (cs ! i)" using "1.prems" by (intro le) auto
      with low show ?thesis by auto
    qed
  next
    case high
    show ?thesis
    proof (cases "i \<le> ?mid")
      case True
      then have "name (cs ! i) \<le> name (cs ! ?mid)" using mid "1.prems" by (intro le) auto
      with high show ?thesis by auto
    next
      case False
      with high "1.IH"(2) [OF lr refl refl] "1.prems" mid show ?thesis
        by (auto simp: strcmp_iffs)
    qed
  qed
qed

lemma get_child_index_Some:
  "get_child_index cs nm = Some i \<Longrightarrow> i < length cs \<and> name (cs ! i) = nm"
  using get_child_between_sound [of cs nm 0 "length cs" i] by (simp add: get_child_index_def)

lemma get_child_index_None:
  "sorted_names cs \<Longrightarrow> get_child_index cs nm = None \<Longrightarrow> nm \<notin> name ` set cs"
proof
  assume "sorted_names cs" "get_child_index cs nm = None" "nm \<in> name ` set cs"
  then obtain i where "i < length cs" "name (cs ! i) = nm" by (auto simp: in_set_conv_nth)
  with get_child_between_complete [of cs "length cs" nm 0 i] \<open>sorted_names cs\<close>
    \<open>get_child_index cs nm = None\<close> show False by (simp add: get_child_index_def)
qed

section \<open>A directory as a table of names\<close>

text \<open>
  What \<open>add_file\<close> relies on: a search finds exactly the children inserted under other names. The
  table laws are stated once, for any search and insertion.
\<close>

locale name_table =
  fixes find :: "'t \<Rightarrow> string \<Rightarrow> node option"
    and ins :: "'t \<Rightarrow> node \<Rightarrow> 't"
    and emp :: "'t"
    and inv :: "'t \<Rightarrow> bool"
  assumes inv_emp: "inv emp"
    and find_emp: "find emp nm = None"
    and inv_ins: "inv t \<Longrightarrow> find t (name c) = None \<Longrightarrow> inv (ins t c)"
    and find_ins: "inv t \<Longrightarrow> find t (name c) = None \<Longrightarrow>
      find (ins t c) nm = (if nm = name c then Some c else find t nm)"
begin

lemma inserted_in_any_order:
  "distinct (map name cs) \<Longrightarrow> inv t \<Longrightarrow> (\<forall>c \<in> set cs. find t (name c) = None) \<Longrightarrow>
   inv (fold (\<lambda>c t. ins t c) cs t) \<and>
   find (fold (\<lambda>c t. ins t c) cs t) nm =
     (case map_of (map (\<lambda>c. (name c, c)) cs) nm of Some c \<Rightarrow> Some c | None \<Rightarrow> find t nm)"
proof (induction cs arbitrary: t)
  case (Cons c cs)
  have fresh: "find t (name c) = None" using Cons.prems by simp
  have rest: "\<forall>d \<in> set cs. find (ins t c) (name d) = None"
    using Cons.prems by (auto simp: find_ins [OF Cons.prems(2) fresh] image_iff)
  have none: "map_of (map (\<lambda>c. (name c, c)) cs) (name c) = None"
    using Cons.prems(1) by (auto simp: map_of_eq_None_iff image_iff)
  from Cons.IH [OF _ inv_ins [OF Cons.prems(2) fresh] rest] Cons.prems(1) none
  show ?case by (auto simp: find_ins [OF Cons.prems(2) fresh] split: option.splits)
qed simp

end

definition tidy_names :: "node list \<Rightarrow> bool" where
  "tidy_names cs = (sorted_names cs \<and> distinct (map name cs))"

lemma get_child_iff:
  "tidy_names cs \<Longrightarrow> get_child cs nm = Some c \<longleftrightarrow> c \<in> set cs \<and> name c = nm"
proof
  assume "get_child cs nm = Some c"
  then show "c \<in> set cs \<and> name c = nm"
    by (auto simp: get_child_def dest: get_child_index_Some)
next
  assume tidy: "tidy_names cs" and c: "c \<in> set cs \<and> name c = nm"
  show "get_child cs nm = Some c"
  proof (cases "get_child_index cs nm")
    case None
    with tidy c get_child_index_None show ?thesis by (auto simp: tidy_names_def)
  next
    case (Some i)
    then have "i < length cs" "name (cs ! i) = nm" by (auto dest: get_child_index_Some)
    then have "cs ! i = c"
      using tidy c by (auto simp: tidy_names_def distinct_map dest: inj_onD nth_mem)
    with Some show ?thesis by (simp add: get_child_def)
  qed
qed

lemma get_child_None_iff: "tidy_names cs \<Longrightarrow> get_child cs nm = None \<longleftrightarrow> nm \<notin> name ` set cs"
proof -
  assume tidy: "tidy_names cs"
  have "get_child cs nm = None \<longleftrightarrow> (\<forall>c. get_child cs nm \<noteq> Some c)" by auto
  then show ?thesis by (auto simp: get_child_iff [OF tidy])
qed

lemma tidy_names_nil [simp]: "tidy_names []"
  by (simp add: tidy_names_def sorted_names_def)

lemma tidy_add_child:
  "tidy_names cs \<Longrightarrow> name c \<notin> name ` set cs \<Longrightarrow> tidy_names (add_child cs c)"
proof -
  assume "tidy_names cs" "name c \<notin> name ` set cs"
  moreover have "mset (map name (add_child cs c)) = mset (map name (c # cs))"
    by (simp add: mset_add_child)
  then have "distinct (map name (add_child cs c)) = distinct (map name (c # cs))"
    by (rule mset_eq_imp_distinct_iff)
  ultimately show ?thesis by (simp add: tidy_names_def add_child_sorted)
qed

lemma get_child_add_child:
  assumes "tidy_names cs" "name c \<notin> name ` set cs"
  shows "get_child (add_child cs c) nm = (if nm = name c then Some c else get_child cs nm)"
proof -
  have "get_child (add_child cs c) nm = Some d \<longleftrightarrow>
      (if nm = name c then Some c else get_child cs nm) = Some d" for d
    using assms by (auto simp: get_child_iff tidy_add_child set_add_child image_iff)
  then show ?thesis by (metis not_Some_eq)
qed

interpretation directory: name_table get_child add_child "[]" tidy_names
  by unfold_locales
     (simp_all add: get_child_None_iff tidy_add_child get_child_add_child)

section \<open>Insertion of a file\<close>

text \<open>
  The loop of \<open>add_file\<close> follows the path down the tree; here it recurses into the directory and
  rebuilds its parents. A missing directory is created with its contents and then inserted: only
  its name matters for where it goes.
\<close>

definition path_head :: "string \<Rightarrow> string" where
  "path_head path = takeWhile (\<lambda>c. c \<noteq> CHR ''/'') path"

definition path_rest :: "string \<Rightarrow> string" where
  "path_rest path = dropWhile (\<lambda>c. c \<noteq> CHR ''/'') path"

lemma path_rest_shorter: "path_rest path \<noteq> [] \<Longrightarrow> length (tl (path_rest path)) < length path"
  using length_dropWhile_le [of "\<lambda>c. c \<noteq> CHR ''/''" path]
  by (cases "path_rest path") (auto simp: path_rest_def)

lemmas path_rest_shorter' = path_rest_shorter [unfolded length_tl One_nat_def]

function add_file :: "node list \<Rightarrow> string \<Rightarrow> bytes \<Rightarrow> node list result" where
  "add_file cs path content =
     (let part = path_head path; slash = path_rest path; child = get_child_index cs part
      in if slash = [] then
           (case child of
              Some _ \<Rightarrow> Inl Abort
            | None \<Rightarrow> Inr (add_child cs (init_file_node (Some part) (length content) content)))
         else
           (case child of
              None \<Rightarrow> ebind (add_file [] (tl slash) content)
                        (\<lambda>ds. Inr (add_child cs (Directory_node part ds)))
            | Some i \<Rightarrow>
                (case cs ! i of
                   File_node _ _ _ \<Rightarrow> Inl Assert_Failed
                 | Directory_node nm ds \<Rightarrow>
                     ebind (add_file ds (tl slash) content)
                       (\<lambda>ds'. Inr (cs[i := Directory_node nm ds'])))))"
  by pat_completeness auto
termination
  by (relation "measure (\<lambda>(cs, path, content). length path)") (auto simp: path_rest_shorter')

declare add_file.simps [simp del]

text \<open>\<open>main\<close>: every line is \<open>path:contents\<close>, the contents with the line's end.\<close>

definition bytes_of :: "string \<Rightarrow> bytes" where
  "bytes_of s = map of_char s"

definition add_line :: "node list \<Rightarrow> string \<Rightarrow> node list result" where
  "add_line cs line =
     (let colon = dropWhile (\<lambda>c. c \<noteq> CHR '':'') line
      in if colon = [] then Inl Assert_Failed
         else add_file cs (takeWhile (\<lambda>c. c \<noteq> CHR '':'') line) (bytes_of (tl colon)))"

fun add_lines :: "node list \<Rightarrow> string list \<Rightarrow> node list result" where
  "add_lines cs [] = Inr cs"
| "add_lines cs (line # lines) = ebind (add_line cs line) (\<lambda>cs'. add_lines cs' lines)"

section \<open>Invariant and lookup\<close>

fun tidy_node :: "node \<Rightarrow> bool" where
  "tidy_node (File_node _ _ _) = True"
| "tidy_node (Directory_node _ cs) = (tidy_names cs \<and> (\<forall>c \<in> set cs. tidy_node c))"

definition tidy :: "node list \<Rightarrow> bool" where
  "tidy cs = tidy_node (Directory_node '''' cs)"

lemma tidy_simps: "tidy cs \<longleftrightarrow> tidy_names cs \<and> (\<forall>c \<in> set cs. tidy_node c)"
  by (simp add: tidy_def)

lemma tidy_dir: "tidy_node (Directory_node nm ds) \<longleftrightarrow> tidy ds"
  by (simp add: tidy_simps)

function file_at :: "node list \<Rightarrow> string \<Rightarrow> bytes option" where
  "file_at cs path =
     (let part = path_head path; slash = path_rest path
      in case get_child cs part of
           None \<Rightarrow> None
         | Some (File_node _ _ bs) \<Rightarrow> if slash = [] then Some bs else None
         | Some (Directory_node _ ds) \<Rightarrow> if slash = [] then None else file_at ds (tl slash))"
  by pat_completeness auto
termination
  by (relation "measure (\<lambda>(cs, path). length path)") (auto simp: path_rest_shorter')

declare file_at.simps [simp del]

lemma path_eqI:
  "path_head p = path_head q \<Longrightarrow> path_rest p = path_rest q \<Longrightarrow> p = q"
proof -
  assume "path_head p = path_head q" "path_rest p = path_rest q"
  then have "path_head p @ path_rest p = path_head q @ path_rest q" by simp
  then show "p = q" by (simp add: path_head_def path_rest_def)
qed

lemma path_rest_hd: "path_rest p \<noteq> [] \<Longrightarrow> path_rest p = CHR ''/'' # tl (path_rest p)"
proof -
  assume ne: "path_rest p \<noteq> []"
  then have "hd (path_rest p) = CHR ''/''"
    unfolding path_rest_def using hd_dropWhile by blast
  with ne show ?thesis by (cases "path_rest p") simp_all
qed

lemma map_name_update: "i < length cs \<Longrightarrow> name d = name (cs ! i) \<Longrightarrow> map name (cs[i := d]) = map name cs"
  by (metis list_update_id map_update)

lemma tidy_names_update:
  "i < length cs \<Longrightarrow> name d = name (cs ! i) \<Longrightarrow> tidy_names (cs[i := d]) = tidy_names cs"
  by (simp add: tidy_names_def sorted_names_def map_name_update)

lemma get_child_update:
  assumes "tidy_names cs" "i < length cs" "name d = name (cs ! i)"
  shows "get_child (cs[i := d]) nm = (if nm = name d then Some d else get_child cs nm)"
proof -
  have tidy': "tidy_names (cs[i := d])" using assms by (simp add: tidy_names_update)
  have other: "c \<in> set (cs[i := d]) \<longleftrightarrow> c \<in> set cs" if "name c \<noteq> name d" for c
    using that assms by (auto simp: in_set_conv_nth nth_list_update)
  have here: "d \<in> set (cs[i := d])" using assms by (simp add: set_update_memI)
  have uniq: "c = d" if "c \<in> set (cs[i := d])" "name c = name d" for c
    using that here tidy' by (auto simp: tidy_names_def distinct_map dest: inj_onD)
  have "get_child (cs[i := d]) nm = Some c \<longleftrightarrow>
      (if nm = name d then Some d else get_child cs nm) = Some c" for c
    using here uniq other [of c] by (auto simp: get_child_iff [OF tidy'] get_child_iff [OF assms(1)])
  then show ?thesis by (metis not_Some_eq)
qed

text \<open>One step of \<open>add_file\<close>: the directory it works on changes under the path's head only.\<close>

lemma add_file_cases:
  assumes "add_file cs path content = Inr cs'" "tidy cs"
  obtains (leaf) "path_rest path = []" "path_head path \<notin> name ` set cs"
      "cs' = add_child cs (File_node (path_head path) (length content) content)"
  | (fresh) ds' where "path_rest path \<noteq> []" "path_head path \<notin> name ` set cs"
      "add_file [] (tl (path_rest path)) content = Inr ds'"
      "cs' = add_child cs (Directory_node (path_head path) ds')"
  | (old) i ds ds' where "path_rest path \<noteq> []" "i < length cs"
      "cs ! i = Directory_node (path_head path) ds"
      "add_file ds (tl (path_rest path)) content = Inr ds'"
      "cs' = cs[i := Directory_node (path_head path) ds']"
proof -
  have sorted: "sorted_names cs" using assms(2) by (simp add: tidy_simps tidy_names_def)
  note absent = get_child_index_None [OF sorted, of "path_head path"]
  show thesis
  proof (cases "get_child_index cs (path_head path)")
    case None
    show ?thesis
    proof (cases "path_rest path = []")
      case True
      with assms(1) None
      have "cs' = add_child cs (File_node (path_head path) (length content) content)"
        by (simp add: add_file.simps [of cs path] init_file_node_def init_node_def)
      with True absent None show ?thesis by (intro leaf) simp_all
    next
      case False
      with assms(1) None obtain ds' where "add_file [] (tl (path_rest path)) content = Inr ds'"
        "cs' = add_child cs (Directory_node (path_head path) ds')"
        by (auto simp: add_file.simps [of cs path])
      with False None absent show ?thesis by (intro fresh) simp_all
    qed
  next
    case (Some i)
    then have i: "i < length cs" "name (cs ! i) = path_head path"
      by (auto dest: get_child_index_Some)
    have ne: "path_rest path \<noteq> []"
      using assms(1) Some by (auto simp: add_file.simps [of cs path])
    show ?thesis
    proof (cases "cs ! i")
      case (Directory_node nm ds)
      with assms(1) Some ne obtain ds' where "add_file ds (tl (path_rest path)) content = Inr ds'"
        "cs' = cs[i := Directory_node nm ds']"
        by (auto simp: add_file.simps [of cs path])
      with Directory_node i ne show ?thesis by (intro old) simp_all
    next
      case (File_node nm sz bs)
      with assms(1) Some ne show ?thesis by (simp add: add_file.simps [of cs path])
    qed
  qed
qed

lemma tidy_add:
  "tidy cs \<Longrightarrow> tidy_node c \<Longrightarrow> name c \<notin> name ` set cs \<Longrightarrow> tidy (add_child cs c)"
  by (auto simp: tidy_simps tidy_add_child set_add_child)

lemma tidy_nil [simp]: "tidy []"
  by (simp add: tidy_simps tidy_names_def sorted_names_def)

lemma tidy_replace:
  assumes "tidy cs" "i < length cs" "cs ! i = Directory_node nm ds" "tidy ds'"
  shows "tidy (cs[i := Directory_node nm ds'])"
proof -
  have "c \<in> set (cs[i := Directory_node nm ds']) \<Longrightarrow> tidy_node c" for c
    using assms set_update_subset_insert [of cs i "Directory_node nm ds'"]
    by (auto simp: tidy_simps)
  then show ?thesis using assms tidy_names_update [of i cs "Directory_node nm ds'"]
    by (simp add: tidy_simps)
qed

lemma tidy_at: "tidy cs \<Longrightarrow> i < length cs \<Longrightarrow> cs ! i = Directory_node nm ds \<Longrightarrow> tidy ds"
  by (metis nth_mem tidy_dir tidy_simps)

lemma add_file_preserves_tidy:
  "add_file cs path content = Inr cs' \<Longrightarrow> tidy cs \<Longrightarrow> tidy cs'"
proof (induction "length path" arbitrary: cs path cs' rule: less_induct)
  case less
  from less.prems show ?case
  proof (cases rule: add_file_cases)
    case leaf
    with less.prems show ?thesis by (simp add: tidy_add)
  next
    case (fresh ds')
    then have "tidy ds'" using less.hyps [OF path_rest_shorter] tidy_nil by blast
    then have "tidy_node (Directory_node (path_head path) ds')" by (simp only: tidy_dir)
    with fresh less.prems show ?thesis by (simp add: tidy_add)
  next
    case (old i ds ds')
    then have "tidy ds'" using less.hyps [OF path_rest_shorter] tidy_at less.prems(2) by blast
    with old less.prems show ?thesis by (simp add: tidy_replace)
  qed
qed

lemma file_at_child:
  "get_child cs (path_head q) = c \<Longrightarrow>
   file_at cs q = (case c of
      None \<Rightarrow> None
    | Some (File_node _ _ bs) \<Rightarrow> if path_rest q = [] then Some bs else None
    | Some (Directory_node _ ds) \<Rightarrow> if path_rest q = [] then None else file_at ds (tl (path_rest q)))"
  by (simp add: file_at.simps [of cs q] Let_def)

lemma file_at_nil [simp]: "file_at [] q = None"
  by (subst file_at_child [of _ _ None]) (simp_all add: get_child_None_iff)

lemma path_rest_tl_eq:
  "path_rest p \<noteq> [] \<Longrightarrow> path_rest q \<noteq> [] \<Longrightarrow>
   tl (path_rest q) = tl (path_rest p) \<longleftrightarrow> path_rest q = path_rest p"
  using path_rest_hd [of p] path_rest_hd [of q] by metis

lemma file_at_after_add_file:
  "add_file cs p content = Inr cs' \<Longrightarrow> tidy cs \<Longrightarrow>
   file_at cs' q = (if q = p then Some content else file_at cs q)"
proof (induction "length p" arbitrary: cs p cs' q rule: less_induct)
  case less
  note names = less.prems(2) [unfolded tidy_simps]
  show ?case
  proof (cases "path_head q = path_head p")
    case other: False
    then have "q \<noteq> p" by auto
    moreover from less.prems have "get_child cs' (path_head q) = get_child cs (path_head q)"
      by (cases rule: add_file_cases)
         (use other names in \<open>simp_all add: get_child_add_child get_child_update\<close>)
    ultimately show ?thesis
      using file_at_child [of cs' q] file_at_child [of cs q] by simp
  next
    case same: True
    have q: "q = p \<longleftrightarrow> path_rest q = path_rest p"
      using path_eqI same by auto
    from less.prems show ?thesis
    proof (cases rule: add_file_cases)
      case leaf
      then have "get_child cs (path_head p) = None" "get_child cs' (path_head p) =
          Some (File_node (path_head p) (length content) content)"
        using names by (simp_all add: get_child_None_iff get_child_add_child)
      then have "file_at cs' q = (if path_rest q = [] then Some content else None)" "file_at cs q = None"
        using file_at_child [of cs' q] file_at_child [of cs q] same by simp_all
      with leaf(1) q show ?thesis by simp
    next
      case (fresh ds')
      then have g: "get_child cs (path_head p) = None" "get_child cs' (path_head p) =
          Some (Directory_node (path_head p) ds')"
        using names by (simp_all add: get_child_None_iff get_child_add_child)
      have "file_at ds' r = (if r = tl (path_rest p) then Some content else None)" for r
        using less.hyps [OF path_rest_shorter [OF fresh(1)] fresh(3), of r] by simp
      with g fresh(1) q same show ?thesis
        using file_at_child [OF g(1) [folded same]] file_at_child [OF g(2) [folded same]]
          path_rest_tl_eq [of p q] by simp
    next
      case (old i ds ds')
      then have g: "get_child cs (path_head p) = Some (Directory_node (path_head p) ds)"
        "get_child cs' (path_head p) = Some (Directory_node (path_head p) ds')"
        using names by (auto simp: get_child_iff get_child_update) (metis nth_mem)
      have "file_at ds' r = (if r = tl (path_rest p) then Some content else file_at ds r)" for r
        using less.hyps [OF path_rest_shorter [OF old(1)] old(4), of r]
          tidy_at [OF less.prems(2) old(2,3)] by simp
      with g old(1) q same show ?thesis
        using file_at_child [OF g(1) [folded same]] file_at_child [OF g(2) [folded same]]
          path_rest_tl_eq [of p q] by simp
    qed
  qed
qed

section \<open>Properties\<close>

text \<open>The binary search of \<open>get_child\<close> agrees with a linear search on every directory whose
  children are sorted with distinct names: it stops, finds the child of that name and misses none.\<close>

theorem get_child_is_linear_search:
  assumes "tidy_names cs"
  shows "get_child cs nm = find (\<lambda>c. name c = nm) cs"
proof -
  have "get_child cs nm = Some c \<longleftrightarrow> find (\<lambda>c. name c = nm) cs = Some c" for c
  proof
    assume "get_child cs nm = Some c"
    then have c: "c \<in> set cs" "name c = nm" by (simp_all add: get_child_iff assms)
    then obtain d where d: "find (\<lambda>c. name c = nm) cs = Some d"
      by (cases "find (\<lambda>c. name c = nm) cs") (auto simp: find_None_iff)
    then have "d \<in> set cs" "name d = nm" by (auto simp: find_Some_iff)
    then have "get_child cs nm = Some d" by (simp add: get_child_iff assms)
    with d \<open>get_child cs nm = Some c\<close> show "find (\<lambda>c. name c = nm) cs = Some c" by simp
  next
    assume "find (\<lambda>c. name c = nm) cs = Some c"
    then show "get_child cs nm = Some c" by (auto simp: get_child_iff assms find_Some_iff)
  qed
  then show ?thesis by (metis not_None_eq)
qed

theorem get_child_is_linear_search_witness:
  "get_child [File_node ''a'' 0 [], File_node ''c'' 0 []] ''c'' = Some (File_node ''c'' 0 [])"
  using get_child_is_linear_search [of "[File_node ''a'' 0 [], File_node ''c'' 0 []]" "''c''"]
  by (simp add: tidy_names_def sorted_names_def)

text \<open>C4: a successful \<open>add_file\<close> keeps every directory of the tree sorted without duplicates, makes
  the file readable at its path and leaves every other path as it was.\<close>

theorem add_file_then_lookup:
  assumes "tidy cs" "add_file cs path content = Inr cs'"
  shows "tidy cs' \<and> (\<forall>q. file_at cs' q = (if q = path then Some content else file_at cs q))"
  using assms add_file_preserves_tidy file_at_after_add_file by blast

theorem add_file_then_lookup_witness:
  "\<exists>cs'. add_file [] ''a/b'' [1] = Inr cs' \<and> tidy cs' \<and> file_at cs' ''a/b'' = Some [1] \<and>
     file_at cs' ''a/c'' = None"
proof -
  have "add_file [] ''a/b'' [1] = Inr [Directory_node ''a'' [File_node ''b'' 1 [1]]]"
    by code_simp
  from add_file_then_lookup [OF tidy_nil this] this show ?thesis by auto
qed

text \<open>\<open>add_file\<close> never overwrites: when it succeeds, no file was readable at the path before
  (a taken path is the abort, a path through a regular file the failed assertion).\<close>

theorem add_file_needs_a_free_path:
  assumes "tidy cs" "add_file cs path content = Inr cs'"
  shows "file_at cs path = None"
  using assms
proof (induction "length path" arbitrary: cs path cs' rule: less_induct)
  case less
  from less.prems(2,1) show ?case
  proof (cases rule: add_file_cases)
    case leaf
    then have "get_child cs (path_head path) = None"
      using less.prems(1) by (simp add: get_child_None_iff tidy_simps)
    then show ?thesis by (simp add: file_at_child)
  next
    case (fresh ds')
    then have "get_child cs (path_head path) = None"
      using less.prems(1) by (simp add: get_child_None_iff tidy_simps)
    then show ?thesis by (simp add: file_at_child)
  next
    case (old i ds ds')
    then have "get_child cs (path_head path) = Some (Directory_node (path_head path) ds)"
      using less.prems(1) nth_mem [OF old(2)] by (simp add: get_child_iff tidy_simps)
    moreover have "file_at ds (tl (path_rest path)) = None"
      using less.hyps [OF path_rest_shorter [OF old(1)] tidy_at [OF less.prems(1) old(2,3)] old(4)] .
    ultimately show ?thesis by (simp add: file_at_child)
  qed
qed

theorem add_file_needs_a_free_path_witness: "file_at [] ''a'' = None"
proof -
  have "add_file [] ''a'' [1] = Inr [File_node ''a'' 1 [1]]"
    by code_simp
  from add_file_needs_a_free_path [OF tidy_nil this] show ?thesis .
qed

end
