(* ===== verification/Fat16.thy ===== *)
theory Fat16
  imports TestTree
begin

unbundle bit_operations_syntax

text \<open>
  The FAT16 undelete tool of \<open>pretest-wduan\<close>: the on-disk structures and their arithmetic
  (\<open>include/fat16.h\<close>, \<open>src/fat16.c\<close>) and the walk over a disk image that builds the directory
  tree (\<open>src/recover.c\<close>). The disk is a list of bytes, the open file its read position.
\<close>

section \<open>On-disk structures\<close>

record bios_parameter_block =
  bytes_per_sector :: u16
  sectors_per_cluster :: u8
  reserved_sectors :: u16
  num_fats :: u8
  max_root_entries :: u16
  logical_sectors :: u16
  media_descriptor :: u8
  sectors_per_fat :: u16
  padding :: bytes
  volume_name :: bytes
  bpb_type :: bytes

record directory_entry =
  filename :: bytes
  extension :: bytes
  attribute :: u8
  reserved :: bytes
  high_size :: u16
  time :: bytes
  date :: bytes
  first_cluster :: u16
  file_size :: u32

text \<open>\<open>fread\<close> into a packed struct: the fields in order, integers little-endian (x86).\<close>

definition le16 :: "bytes \<Rightarrow> nat \<Rightarrow> u16" where
  "le16 bs i = ucast (bs ! i) OR push_bit 8 (ucast (bs ! (i + 1)))"

definition le32 :: "bytes \<Rightarrow> nat \<Rightarrow> u32" where
  "le32 bs i = ucast (bs ! i) OR push_bit 8 (ucast (bs ! (i + 1)))
     OR push_bit 16 (ucast (bs ! (i + 2))) OR push_bit 24 (ucast (bs ! (i + 3)))"

definition slice :: "bytes \<Rightarrow> nat \<Rightarrow> nat \<Rightarrow> bytes" where
  "slice bs i n = take n (drop i bs)"

definition decode_entry :: "bytes \<Rightarrow> directory_entry" where
  "decode_entry bs =
     \<lparr>filename = slice bs 0 8, extension = slice bs 8 3, attribute = bs ! 11,
      reserved = slice bs 12 8, high_size = le16 bs 20, time = slice bs 22 2,
      date = slice bs 24 2, first_cluster = le16 bs 26, file_size = le32 bs 28\<rparr>"

definition decode_bpb :: "bytes \<Rightarrow> bios_parameter_block" where
  "decode_bpb bs =
     \<lparr>bytes_per_sector = le16 bs 0, sectors_per_cluster = bs ! 2, reserved_sectors = le16 bs 3,
      num_fats = bs ! 5, max_root_entries = le16 bs 6, logical_sectors = le16 bs 8,
      media_descriptor = bs ! 10, sectors_per_fat = le16 bs 11, padding = slice bs 13 19,
      volume_name = slice bs 32 11, bpb_type = slice bs 43 8\<rparr>"

definition entry_size :: nat where "entry_size = 32"
definition bpb_size :: nat where "bpb_size = 51"

text \<open>The same layout written out, to state that reading inverts it.\<close>

definition put16 :: "u16 \<Rightarrow> bytes" where
  "put16 w = [ucast w, ucast (drop_bit 8 w)]"

definition put32 :: "u32 \<Rightarrow> bytes" where
  "put32 w = [ucast w, ucast (drop_bit 8 w), ucast (drop_bit 16 w), ucast (drop_bit 24 w)]"

definition encode_entry :: "directory_entry \<Rightarrow> bytes" where
  "encode_entry e = filename e @ extension e @ [attribute e] @ reserved e @ put16 (high_size e) @
     time e @ date e @ put16 (first_cluster e) @ put32 (file_size e)"

definition entry_sizes :: "directory_entry \<Rightarrow> bool" where
  "entry_sizes e = (length (filename e) = 8 \<and> length (extension e) = 3 \<and>
     length (reserved e) = 8 \<and> length (time e) = 2 \<and> length (date e) = 2)"

lemma bit_u16_bytes: "bit (w :: u16) n \<longleftrightarrow> n < 8 \<and> bit w n \<or> n \<ge> 8 \<and> n < 16 \<and> bit w n"
  using bit_imp_le_length [of w n] by auto

lemma bit_u8_imp: "bit (w :: u8) n \<Longrightarrow> n < 8"
  using bit_imp_le_length [of w n] by simp

lemma le16_put16: "bs ! i = ucast w \<Longrightarrow> bs ! (i + 1) = ucast (drop_bit 8 w) \<Longrightarrow> le16 bs i = w"
  unfolding le16_def
  by (rule bit_word_eqI)
     (auto simp: bit_simps not_less dest: bit_u8_imp)

lemma le32_put32:
  "bs ! i = ucast w \<Longrightarrow> bs ! (i + 1) = ucast (drop_bit 8 w) \<Longrightarrow>
   bs ! (i + 2) = ucast (drop_bit 16 w) \<Longrightarrow> bs ! (i + 3) = ucast (drop_bit 24 w) \<Longrightarrow> le32 bs i = w"
  unfolding le32_def
  apply (rule bit_word_eqI)
  subgoal for n
    by (cases "24 \<le> n"; cases "16 \<le> n") (auto simp: bit_simps not_less dest: bit_u8_imp)
  done

section \<open>Positions on the disk\<close>

definition get_root_directory_location :: "bios_parameter_block \<Rightarrow> u64" where
  "get_root_directory_location bpb =
     (let fat_sectors = ucast (num_fats bpb) * ucast (sectors_per_fat bpb) :: u64
      in (1 + ucast (reserved_sectors bpb) + fat_sectors) * ucast (bytes_per_sector bpb))"

definition get_offset_from_cluster :: "u64 \<Rightarrow> bios_parameter_block \<Rightarrow> u64" where
  "get_offset_from_cluster cluster bpb =
     get_root_directory_location bpb +
     ucast (max_root_entries bpb) * of_nat entry_size +
     (cluster - 2) * ucast (sectors_per_cluster bpb) * ucast (bytes_per_sector bpb)"

section \<open>Attributes and names\<close>

definition attr_hidden :: u8 where "attr_hidden = 0x2"
definition attr_system :: u8 where "attr_system = 0x4"
definition attr_volume_label :: u8 where "attr_volume_label = 0x8"
definition attr_subdirectory :: u8 where "attr_subdirectory = 0x10"
definition DELETED :: u8 where "DELETED = 0xE5"

lemmas attr_defs = attr_hidden_def attr_system_def attr_volume_label_def attr_subdirectory_def

definition is_directory :: "directory_entry \<Rightarrow> bool" where
  "is_directory e = ((attribute e AND attr_subdirectory) \<noteq> 0)"

definition is_hidden :: "directory_entry \<Rightarrow> bool" where
  "is_hidden e =
     (filename e ! 0 = 0x2E \<or> filename e ! 1 = 0x2E \<or> attribute e = 0 \<or>
      (attribute e AND (attr_hidden OR attr_system OR attr_volume_label)) \<noteq> 0)"

text \<open>
  \<open>get_file_name\<close> writes into a buffer of \<open>8 + 1 + 3 + 1\<close> bytes; \<open>full\<close> is the part written, its
  length is \<open>full_index\<close>, and a write past the buffer is an error.
\<close>

definition name_capacity :: nat where "name_capacity = 8 + 1 + 3 + 1"

definition put_char :: "bytes \<Rightarrow> u8 \<Rightarrow> bytes result" where
  "put_char full c = (if length full < name_capacity then Inr (full @ [c]) else Inl Bad_Access)"

fun copy_filename :: "bytes \<Rightarrow> bytes \<Rightarrow> bytes result" where
  "copy_filename [] full = Inr full"
| "copy_filename (c # cs) full =
     (if c = 0x20 then Inr full
      else ebind (put_char full (if c = DELETED then 0x3F else c)) (copy_filename cs))"

fun copy_extension :: "bytes \<Rightarrow> bytes \<Rightarrow> bytes result" where
  "copy_extension [] full = Inr full"
| "copy_extension (c # cs) full =
     (if c = 0x20 then Inr full else ebind (put_char full c) (copy_extension cs))"

definition get_file_name :: "directory_entry \<Rightarrow> bytes result" where
  "get_file_name e =
     ebind (copy_filename (filename e) []) (\<lambda>full.
     ebind (aget (extension e) 0) (\<lambda>e0.
     ebind (if e0 \<noteq> 0x20 then ebind (put_char full 0x2E) (copy_extension (extension e)) else Inr full)
       (\<lambda>full'. put_char full' 0)))"

text \<open>The name a FAT entry stands for: both parts up to the padding, a deleted entry's mark as \<open>?\<close>.\<close>

definition undelete_char :: "u8 \<Rightarrow> u8" where
  "undelete_char c = (if c = DELETED then 0x3F else c)"

definition short_name :: "directory_entry \<Rightarrow> bytes" where
  "short_name e =
     map undelete_char (takeWhile (\<lambda>c. c \<noteq> 0x20) (filename e)) @
     (if hd (extension e) = 0x20 then [] else 0x2E # takeWhile (\<lambda>c. c \<noteq> 0x20) (extension e))"

lemma copy_filename_eq:
  "length cs + length full < name_capacity \<Longrightarrow>
   copy_filename cs full = Inr (full @ map undelete_char (takeWhile (\<lambda>c. c \<noteq> 0x20) cs))"
  by (induction cs full rule: copy_filename.induct) (auto simp: put_char_def undelete_char_def)

lemma copy_extension_eq:
  "length cs + length full < name_capacity \<Longrightarrow>
   copy_extension cs full = Inr (full @ takeWhile (\<lambda>c. c \<noteq> 0x20) cs)"
  by (induction cs full rule: copy_extension.induct) (auto simp: put_char_def)

lemma get_file_name_eq:
  assumes "length (filename e) = 8" "length (extension e) = 3"
  shows "get_file_name e = Inr (short_name e @ [0])"
    and "length (short_name e) < name_capacity"
proof -
  let ?n = "map undelete_char (takeWhile (\<lambda>c. c \<noteq> 0x20) (filename e))"
  let ?x = "takeWhile (\<lambda>c. c \<noteq> 0x20) (extension e)"
  have n: "length ?n \<le> 8" and x: "length ?x \<le> 3"
    using length_takeWhile_le [of _ "filename e"] length_takeWhile_le [of _ "extension e"] assms
    by (metis length_map)+
  have ext: "aget (extension e) 0 = Inr (hd (extension e))"
    using assms by (cases "extension e") (auto simp: aget_def)
  have name: "copy_filename (filename e) [] = Inr ?n"
    using assms by (subst copy_filename_eq) (auto simp: name_capacity_def)
  have "copy_extension (extension e) (?n @ [0x2E]) = Inr (?n @ 0x2E # ?x)"
    using assms n by (subst copy_extension_eq) (auto simp: name_capacity_def)
  then show "get_file_name e = Inr (short_name e @ [0])"
    using n x name ext by (auto simp: get_file_name_def short_name_def put_char_def name_capacity_def)
  show "length (short_name e) < name_capacity"
    using n x by (auto simp: short_name_def name_capacity_def)
qed

text \<open>The layout roundtrip, and positions that do not wrap.\<close>

lemma decode_encode_entry: "entry_sizes e \<Longrightarrow> decode_entry (encode_entry e) = e"
proof -
  assume sizes: "entry_sizes e"
  then obtain f0 f1 f2 f3 f4 f5 f6 f7 x0 x1 x2 r0 r1 r2 r3 r4 r5 r6 r7 t0 t1 d0 d1 where
    l: "filename e = [f0, f1, f2, f3, f4, f5, f6, f7]" "extension e = [x0, x1, x2]"
       "reserved e = [r0, r1, r2, r3, r4, r5, r6, r7]" "time e = [t0, t1]" "date e = [d0, d1]"
    by (auto simp: entry_sizes_def eval_nat_numeral length_Suc_conv)
  then have le: "le16 (encode_entry e) 20 = high_size e" "le16 (encode_entry e) 26 = first_cluster e"
    "le32 (encode_entry e) 28 = file_size e"
    by (simp_all add: encode_entry_def put16_def put32_def le16_put16 le32_put32)
  then show ?thesis
    using l by (cases e) (simp add: decode_entry_def slice_def encode_entry_def put16_def put32_def)
qed

lemma length_encode_entry: "entry_sizes e \<Longrightarrow> length (encode_entry e) = entry_size"
  by (simp add: encode_entry_def entry_sizes_def put16_def put32_def entry_size_def)

definition root_location_nat :: "bios_parameter_block \<Rightarrow> nat" where
  "root_location_nat bpb =
     (1 + unat (reserved_sectors bpb) + unat (num_fats bpb) * unat (sectors_per_fat bpb))
       * unat (bytes_per_sector bpb)"

definition cluster_location_nat :: "nat \<Rightarrow> bios_parameter_block \<Rightarrow> nat" where
  "cluster_location_nat c bpb =
     root_location_nat bpb + 32 * unat (max_root_entries bpb)
       + (c - 2) * unat (sectors_per_cluster bpb) * unat (bytes_per_sector bpb)"

lemma u8_bound: "unat (x :: u8) \<le> 255"
proof -
  have "unat x < 2 ^ LENGTH(8)" by (rule unsigned_less)
  then show ?thesis by simp
qed

lemma u16_bound: "unat (x :: u16) \<le> 65535"
proof -
  have "unat x < 2 ^ LENGTH(16)" by (rule unsigned_less)
  then show ?thesis by simp
qed

lemma mult_bound: "a \<le> x \<Longrightarrow> b \<le> y \<Longrightarrow> a * b \<le> x * (y :: nat)"
  by (rule mult_le_mono)

lemma root_location_bound: "root_location_nat bpb \<le> 1099528404480"
proof -
  have "unat (num_fats bpb) * unat (sectors_per_fat bpb) \<le> 255 * 65535"
    by (intro mult_bound u8_bound u16_bound)
  then have "1 + unat (reserved_sectors bpb) + unat (num_fats bpb) * unat (sectors_per_fat bpb) \<le> 16777216"
    using u16_bound [of "reserved_sectors bpb"] by simp
  then have "root_location_nat bpb \<le> 16777216 * 65535"
    unfolding root_location_nat_def by (intro mult_bound u16_bound)
  then show ?thesis by simp
qed

lemma unat_root_location: "unat (get_root_directory_location bpb) = root_location_nat bpb"
proof -
  let ?f = "ucast (num_fats bpb) * ucast (sectors_per_fat bpb) :: u64"
  have fb: "unat (num_fats bpb) * unat (sectors_per_fat bpb) \<le> 255 * 65535"
    by (intro mult_bound u8_bound u16_bound)
  then have f: "unat ?f = unat (num_fats bpb) * unat (sectors_per_fat bpb)"
    by (subst unat_times_exact) (simp_all add: unat_ucast_up)
  have r: "unat (1 + ucast (reserved_sectors bpb) :: u64) = 1 + unat (reserved_sectors bpb)"
    using u16_bound [of "reserved_sectors bpb"] by (subst unat_plus_exact) (simp_all add: unat_ucast_up)
  have s: "unat (1 + ucast (reserved_sectors bpb) + ?f)
      = 1 + unat (reserved_sectors bpb) + unat (num_fats bpb) * unat (sectors_per_fat bpb)"
    using u16_bound [of "reserved_sectors bpb"] fb by (subst unat_plus_exact) (simp_all add: f r)
  show ?thesis
    using root_location_bound [of bpb]
    unfolding get_root_directory_location_def Let_def
    by (subst unat_times_exact) (simp_all add: s unat_ucast_up root_location_nat_def)
qed

lemma unat_cluster_location:
  assumes "2 \<le> c" "c < 65536"
  shows "unat (get_offset_from_cluster (of_nat c) bpb) = cluster_location_nat c bpb"
    and "cluster_location_nat c bpb < 2 ^ 42"
proof -
  have m: "unat (ucast (max_root_entries bpb) * of_nat entry_size :: u64) = 32 * unat (max_root_entries bpb)"
    using u16_bound [of "max_root_entries bpb"]
    by (subst unat_times_exact) (simp_all add: unat_ucast_up entry_size_def)
  have c: "unat (of_nat c - 2 :: u64) = c - 2"
    using assms by (subst unat_minus_exact) (simp_all add: word_le_nat_alt unat_of_nat)
  have b1: "(c - 2) * unat (sectors_per_cluster bpb) \<le> 65535 * 255"
    using assms by (intro mult_bound u8_bound) simp
  have b2: "(c - 2) * unat (sectors_per_cluster bpb) * unat (bytes_per_sector bpb) \<le> 65535 * 255 * 65535"
    by (rule mult_bound [OF b1 u16_bound])
  have k: "unat ((of_nat c - 2) * ucast (sectors_per_cluster bpb) :: u64)
      = (c - 2) * unat (sectors_per_cluster bpb)"
    using b1 by (subst unat_times_exact) (simp_all add: unat_ucast_up c)
  have l: "unat ((of_nat c - 2) * ucast (sectors_per_cluster bpb) * ucast (bytes_per_sector bpb) :: u64)
      = (c - 2) * unat (sectors_per_cluster bpb) * unat (bytes_per_sector bpb)"
    using b2 by (subst unat_times_exact) (simp_all add: unat_ucast_up k)
  have rm: "unat (get_root_directory_location bpb + ucast (max_root_entries bpb) * of_nat entry_size)
      = root_location_nat bpb + 32 * unat (max_root_entries bpb)"
    using root_location_bound [of bpb] u16_bound [of "max_root_entries bpb"]
    by (subst unat_plus_exact) (simp_all add: unat_root_location m)
  show "unat (get_offset_from_cluster (of_nat c) bpb) = cluster_location_nat c bpb"
    using root_location_bound [of bpb] u16_bound [of "max_root_entries bpb"] b2
    unfolding get_offset_from_cluster_def
    by (subst unat_plus_exact) (simp_all add: l rm cluster_location_nat_def)
  show "cluster_location_nat c bpb < 2 ^ 42"
    using root_location_bound [of bpb] u16_bound [of "max_root_entries bpb"] b2
    by (simp add: cluster_location_nat_def)
qed

section \<open>Properties\<close>

text \<open>\<open>get_file_name\<close> never writes past its 13-byte buffer, ends the buffer with a NUL, and
  stores both name parts up to their padding, with the deletion mark shown as a question mark.\<close>

theorem get_file_name_fits_buffer:
  assumes "entry_sizes e"
  shows "\<exists>buf. get_file_name e = Inr buf \<and> buf = short_name e @ [0] \<and> length buf \<le> name_capacity"
  using assms get_file_name_eq [of e] by (auto simp: entry_sizes_def)

definition sample_entry :: directory_entry where
  "sample_entry = \<lparr>filename = [0xE5, 0x42, 0x43, 0x44, 0x45, 0x46, 0x47, 0x48],
     extension = [0x54, 0x58, 0x54], attribute = 0x20, reserved = replicate 8 0, high_size = 0,
     time = [0, 0], date = [0, 0], first_cluster = 2, file_size = 3\<rparr>"

lemma sample_entry_sizes: "entry_sizes sample_entry"
  by (simp add: entry_sizes_def sample_entry_def)

theorem get_file_name_fits_buffer_witness:
  "\<exists>buf. get_file_name sample_entry = Inr buf \<and> c_string buf = ''?BCDEFGH.TXT''"
proof -
  have "c_string (short_name sample_entry @ [0]) = ''?BCDEFGH.TXT''" by code_simp
  with get_file_name_fits_buffer [OF sample_entry_sizes] show ?thesis by auto
qed

text \<open>Reading the 32 bytes of a directory entry recovers every field, integers in little-endian
  order.\<close>

theorem directory_entry_roundtrip:
  assumes "entry_sizes e"
  shows "length (encode_entry e) = entry_size \<and> decode_entry (encode_entry e) = e"
  using assms decode_encode_entry length_encode_entry by blast

theorem directory_entry_roundtrip_witness:
  "first_cluster (decode_entry (encode_entry sample_entry)) = 2"
  using directory_entry_roundtrip [OF sample_entry_sizes] by (simp add: sample_entry_def)

text \<open>For every cluster number a directory entry can hold from 2 on, the 64-bit offset of the
  cluster is the exact sum (no product or sum wraps), fits a file position, and the next cluster
  starts where this one ends.\<close>

theorem cluster_offset_exact:
  assumes "2 \<le> unat (c :: u16)"
  shows "unat (get_offset_from_cluster (ucast c) bpb) = cluster_location_nat (unat c) bpb \<and>
    unat (get_offset_from_cluster (ucast c) bpb) < 2 ^ 63 \<and>
    cluster_location_nat (Suc (unat c)) bpb = cluster_location_nat (unat c) bpb
      + unat (sectors_per_cluster bpb) * unat (bytes_per_sector bpb)"
proof -
  have c: "unat c < 65536" using u16_bound [of c] by simp
  have conv: "(ucast c :: u64) = of_nat (unat c)" by simp
  have "Suc (unat c) - 2 = Suc (unat c - 2)" using assms by simp
  then show ?thesis
    using unat_cluster_location [OF assms c, of bpb] unfolding conv
    by (simp add: cluster_location_nat_def algebra_simps)
qed

definition sample_bpb :: bios_parameter_block where
  "sample_bpb = \<lparr>bytes_per_sector = 32, sectors_per_cluster = 1, reserved_sectors = 0, num_fats = 0,
     max_root_entries = 2, logical_sectors = 0, media_descriptor = 0, sectors_per_fat = 0,
     padding = [], volume_name = [], bpb_type = []\<rparr>"

theorem cluster_offset_exact_witness:
  "unat (get_offset_from_cluster (ucast (3 :: u16)) sample_bpb) = 128"
  using cluster_offset_exact [of 3 sample_bpb]
  by (simp add: cluster_location_nat_def root_location_nat_def sample_bpb_def)

end
