(* ===== verification/Recover.thy ===== *)
theory Recover
  imports Fat16
begin

text \<open>
  \<open>src/recover.c\<close> of \<open>pretest-wduan\<close>: the recursive walk over a directory on the disk image.
  The open file is the image's bytes and a read position. A directory may refer back to itself, so
  the walk takes fuel: one unit per loop iteration and per recursive call; \<open>None\<close> is out of fuel.
  \<open>on_disk\<close> says which bytes of the image make a directory, without the functions of the code.
\<close>

section \<open>The walk\<close>

definition MASTER_BOOT_RECORD_SIZE :: nat where "MASTER_BOOT_RECORD_SIZE = 0x20B"

text \<open>\<open>fread(p, n, 1, disk)\<close>: \<open>Some\<close> where it returns 1; a record of size 0 makes it return 0.\<close>

definition fread_record :: "bytes \<Rightarrow> nat \<Rightarrow> nat \<Rightarrow> bytes option" where
  "fread_record disk pos n =
     (if 0 < n \<and> pos + n \<le> length disk then Some (slice disk pos n) else None)"

text \<open>\<open>fseek(disk, offset, SEEK_SET)\<close>: an offset that is negative as a \<open>long\<close> leaves the position.\<close>

definition fseek_set :: "u64 \<Rightarrow> nat \<Rightarrow> nat" where
  "fseek_set offset pos = (if unat offset < 2 ^ 63 then unat offset else pos)"

definition entry_position :: "directory_entry \<Rightarrow> bios_parameter_block \<Rightarrow> nat \<Rightarrow> nat" where
  "entry_position e bpb location =
     fseek_set (get_offset_from_cluster (ucast (first_cluster e)) bpb) location"

fun follow :: "nat \<Rightarrow> bytes \<Rightarrow> bios_parameter_block \<Rightarrow> nat \<Rightarrow> node list \<Rightarrow> node list result option" where
  "follow 0 disk bpb pos cs = None"
| "follow (Suc fuel) disk bpb pos cs =
     (case fread_record disk pos entry_size of
        None \<Rightarrow> Some (Inl Assert_Failed)
      | Some bs \<Rightarrow>
          (let entry = decode_entry bs; location = pos + entry_size
           in if is_hidden entry then follow fuel disk bpb location cs
              else case get_file_name entry of
                Inl err \<Rightarrow> Some (Inl err)
              | Inr file_name \<Rightarrow>
                  if hd file_name = 0 then Some (Inr cs)
                  else
                    (let offset = entry_position entry bpb location
                     in if is_directory entry then
                          (case follow fuel disk bpb offset [] of
                             None \<Rightarrow> None
                           | Some (Inl err) \<Rightarrow> Some (Inl err)
                           | Some (Inr ds) \<Rightarrow>
                               follow fuel disk bpb location
                                 (add_child cs (Directory_node (c_string file_name) ds)))
                        else
                          (case fread_record disk offset (unat (file_size entry)) of
                             None \<Rightarrow> Some (Inl Assert_Failed)
                           | Some data \<Rightarrow>
                               follow fuel disk bpb location
                                 (add_child cs
                                    (init_file_node (Some (c_string file_name))
                                       (unat (file_size entry)) data))))))"

definition recover :: "nat \<Rightarrow> bytes \<Rightarrow> node result option" where
  "recover fuel disk =
     (case fread_record disk MASTER_BOOT_RECORD_SIZE bpb_size of
        None \<Rightarrow> Some (Inl Assert_Failed)
      | Some bs \<Rightarrow>
          (let bpb = decode_bpb bs;
               location = fseek_set (get_root_directory_location bpb) (MASTER_BOOT_RECORD_SIZE + bpb_size)
           in map_option (map_sum id (\<lambda>cs. Directory_node (init_node None) cs))
                (follow fuel disk bpb location [])))"

declare follow.simps [simp del]

section \<open>Fuel\<close>

lemma follow_mono: "follow fuel disk bpb pos cs = Some r \<Longrightarrow> follow (fuel + k) disk bpb pos cs = Some r"
proof (induction fuel disk bpb pos cs arbitrary: r rule: follow.induct)
  case (1 disk bpb pos cs)
  then show ?case by (simp add: follow.simps)
next
  case (2 fuel disk bpb pos cs)
  show ?case
  proof (cases "fread_record disk pos entry_size")
    case None
    with "2.prems" show ?thesis by (simp add: follow.simps)
  next
    case (Some bs)
    note IH = "2.IH" [OF Some refl refl]
    let ?e = "decode_entry bs"
    show ?thesis
    proof (cases "is_hidden ?e")
      case True
      with "2.prems" Some IH(1) show ?thesis by (simp add: follow.simps Let_def)
    next
      case vis: False
      show ?thesis
      proof (cases "get_file_name ?e")
        case (Inl err)
        with "2.prems" Some vis show ?thesis by (simp add: follow.simps Let_def)
      next
        case (Inr nm)
        note IH' = IH(2-4) [OF vis Inr _ refl]
        show ?thesis
          using "2.prems" Some vis Inr IH'
          by (auto simp: follow.simps Let_def split: if_splits option.splits sum.splits)
      qed
    qed
  qed
qed

section \<open>Every directory that is built is sorted\<close>

fun sorted_tree :: "node \<Rightarrow> bool" where
  "sorted_tree (File_node _ _ _) = True"
| "sorted_tree (Directory_node _ cs) = (sorted_names cs \<and> (\<forall>c \<in> set cs. sorted_tree c))"

definition sorted_forest :: "node list \<Rightarrow> bool" where
  "sorted_forest cs = (sorted_names cs \<and> (\<forall>c \<in> set cs. sorted_tree c))"

lemma sorted_forest_add: "sorted_forest cs \<Longrightarrow> sorted_tree c \<Longrightarrow> sorted_forest (add_child cs c)"
  by (auto simp: sorted_forest_def add_child_sorted set_add_child)

lemma sorted_forest_nil [simp]: "sorted_forest []"
  by (simp add: sorted_forest_def sorted_names_def)

lemma follow_sorted_forest:
  "follow fuel disk bpb pos cs = Some (Inr cs') \<Longrightarrow> sorted_forest cs \<Longrightarrow> sorted_forest cs'"
proof (induction fuel disk bpb pos cs arbitrary: cs' rule: follow.induct)
  case (1 disk bpb pos cs)
  then show ?case by (simp add: follow.simps)
next
  case (2 fuel disk bpb pos cs)
  from "2.prems"(1) obtain bs where bs: "fread_record disk pos entry_size = Some bs"
    by (auto simp: follow.simps split: option.splits)
  note IH = "2.IH" [OF bs refl refl]
  let ?e = "decode_entry bs"
  show ?case
  proof (cases "is_hidden ?e")
    case True
    with "2.prems" bs IH(1) show ?thesis by (simp add: follow.simps Let_def)
  next
    case vis: False
    with "2.prems"(1) bs obtain nm where nm: "get_file_name ?e = Inr nm"
      by (auto simp: follow.simps Let_def split: sum.splits)
    note IH' = IH(2-4) [OF vis nm _ refl]
    show ?thesis
      using "2.prems" bs vis nm IH'
      by (auto simp: follow.simps Let_def init_file_node_def sorted_forest_add simp flip: sorted_forest_def
          split: if_splits option.splits sum.splits)
  qed
qed

section \<open>Directories on the disk\<close>

text \<open>What a FAT16 image holds, apart from the code that reads it: a directory is a row of records of 32 bytes;
a record is passed over (the entries of a directory for itself and its parent, those without an attribute and those marked
hidden, system or volume label), or names a file with its data, or names a directory, in the cluster it gives.\<close>

datatype item =
    Passed directory_entry
  | File directory_entry bytes bytes bytes
  | Folder directory_entry bytes bytes "item list"

definition record_at :: "bytes \<Rightarrow> nat \<Rightarrow> directory_entry \<Rightarrow> bool" where
  "record_at disk pos e \<longleftrightarrow> entry_sizes e \<and> take 32 (drop pos disk) = encode_entry e"

definition marked :: "directory_entry \<Rightarrow> bool" where
  "marked e \<longleftrightarrow> attribute e = 0 \<or> bit (attribute e) 1 \<or> bit (attribute e) 2 \<or> bit (attribute e) 3"

text \<open>The two parts of a name, in their fields filled up with blanks. The first byte of a deleted entry is \<open>0xE5\<close>, and is shown as a
question mark.\<close>

definition name_chars :: "bytes \<Rightarrow> bool" where
  "name_chars bs \<longleftrightarrow> 0 \<notin> set bs \<and> 0x20 \<notin> set bs \<and> 0x2E \<notin> set bs"

definition named :: "directory_entry \<Rightarrow> bytes \<Rightarrow> bytes \<Rightarrow> bool" where
  "named e base ext \<longleftrightarrow>
     filename e = base @ replicate (8 - length base) 0x20 \<and> extension e = ext @ replicate (3 - length ext) 0x20 \<and>
     base \<noteq> [] \<and> name_chars base \<and> name_chars ext \<and> 0xE5 \<notin> set (tl base)"

definition shown_name :: "bytes \<Rightarrow> bytes \<Rightarrow> string" where
  "shown_name base ext =
     map (\<lambda>c. char_of (unat c)) ((if hd base = 0xE5 then 0x3F else hd base) # tl base @ (if ext = [] then [] else 0x2E # ext))"

text \<open>The row ends with a record that is not marked and has a name that starts with NUL.\<close>

definition end_record :: "directory_entry \<Rightarrow> bool" where
  "end_record e \<longleftrightarrow> \<not> marked e \<and> filename e ! 0 = 0 \<and> filename e ! 1 \<noteq> 0x2E"

definition stored :: "bytes \<Rightarrow> nat \<Rightarrow> bytes \<Rightarrow> bool" where
  "stored disk pos data \<longleftrightarrow> take (length data) (drop pos disk) = data"

abbreviation "cluster_of e bpb \<equiv> cluster_location_nat (unat (first_cluster e)) bpb"

fun on_disk :: "bytes \<Rightarrow> bios_parameter_block \<Rightarrow> nat \<Rightarrow> item list \<Rightarrow> bool" where
  "on_disk disk bpb pos [] = (\<exists>e. record_at disk pos e \<and> end_record e)"
| "on_disk disk bpb pos (Passed e # items) =
     (record_at disk pos e \<and> (marked e \<or> filename e ! 0 = 0x2E) \<and> on_disk disk bpb (pos + 32) items)"
| "on_disk disk bpb pos (File e base ext data # items) =
     (record_at disk pos e \<and> \<not> marked e \<and> named e base ext \<and> \<not> bit (attribute e) 4 \<and> 2 \<le> unat (first_cluster e) \<and>
      unat (file_size e) = length data \<and> data \<noteq> [] \<and> stored disk (cluster_of e bpb) data \<and> on_disk disk bpb (pos + 32) items)"
| "on_disk disk bpb pos (Folder e base ext sub # items) =
     (record_at disk pos e \<and> \<not> marked e \<and> named e base ext \<and> bit (attribute e) 4 \<and> 2 \<le> unat (first_cluster e) \<and>
      on_disk disk bpb (cluster_of e bpb) sub \<and> on_disk disk bpb (pos + 32) items)"

text \<open>The tree of a directory: its files and directories at every level, in the order of their names, those with the same
name in the order of the records.\<close>

fun nodes_of :: "item list \<Rightarrow> node list" where
  "nodes_of [] = []"
| "nodes_of (Passed e # items) = nodes_of items"
| "nodes_of (File e base ext data # items) = File_node (shown_name base ext) (length data) data # nodes_of items"
| "nodes_of (Folder e base ext sub # items) =
     Directory_node (shown_name base ext) (sort_key name (nodes_of sub)) # nodes_of items"

text \<open>The number of records the walk reads, a bound for its fuel.\<close>

fun records :: "item list \<Rightarrow> nat" where
  "records [] = 1"
| "records (Passed e # items) = 1 + records items"
| "records (File e base ext data # items) = 1 + records items"
| "records (Folder e base ext sub # items) = 1 + records sub + records items"

text \<open>Reading a record, and what the code makes of its name and its attributes.\<close>

definition entry_at :: "bytes \<Rightarrow> nat \<Rightarrow> directory_entry option" where
  "entry_at disk pos = map_option decode_entry (fread_record disk pos entry_size)"

lemma entry_at_sizes:
  "entry_at disk pos = Some e \<Longrightarrow> length (filename e) = 8 \<and> length (extension e) = 3"
  by (auto simp: entry_at_def fread_record_def decode_entry_def slice_def entry_size_def split: if_splits)

lemma entry_at_file_name: "entry_at disk pos = Some e \<Longrightarrow> get_file_name e = Inr (short_name e @ [0])"
  using entry_at_sizes get_file_name_eq by blast

lemma c_string_nul: "c_string (bs @ [0]) = c_string bs"
  by (induction bs) (auto simp: c_string_def)

lemma entry_at_Some: "entry_at disk pos = Some e \<longleftrightarrow>
    (\<exists>bs. fread_record disk pos entry_size = Some bs \<and> e = decode_entry bs)"
  by (auto simp: entry_at_def)

lemma record_read:
  assumes "record_at disk pos e"
  shows "fread_record disk pos entry_size = Some (encode_entry e)" "decode_entry (encode_entry e) = e"
    "get_file_name e = Inr (short_name e @ [0])"
proof -
  have sizes: "entry_sizes e" and at: "take 32 (drop pos disk) = encode_entry e" using assms by (auto simp: record_at_def)
  have "length (take 32 (drop pos disk)) = 32" using at length_encode_entry [OF sizes] by (simp add: entry_size_def)
  then have "pos + 32 \<le> length disk" by (simp add: min_def split: if_splits)
  then show "fread_record disk pos entry_size = Some (encode_entry e)"
    using at by (simp add: fread_record_def entry_size_def slice_def)
  show "decode_entry (encode_entry e) = e" by (rule decode_encode_entry [OF sizes])
  show "get_file_name e = Inr (short_name e @ [0])" using sizes by (intro get_file_name_eq) (simp_all add: entry_sizes_def)
qed

lemma marked_bits: "marked e \<longleftrightarrow> attribute e = 0 \<or> attribute e AND (attr_hidden OR attr_system OR attr_volume_label) \<noteq> 0"
proof -
  have mask: "attr_hidden OR attr_system OR attr_volume_label = push_bit 1 (mask 3)" by code_simp
  have "x AND push_bit 1 (mask 3) = 0 \<longleftrightarrow> \<not> bit x 1 \<and> \<not> bit x 2 \<and> \<not> bit x 3" for x :: u8
  proof -
    have "bit (push_bit 1 (mask 3) :: u8) n \<longleftrightarrow> n < 8 \<and> 1 \<le> n \<and> n < 4" for n
      by (simp only: bit_push_bit_iff bit_mask_iff) auto
    then have "x AND push_bit 1 (mask 3) = 0 \<longleftrightarrow> (\<forall>n. bit x n \<longrightarrow> \<not> (1 \<le> n \<and> n < 4))"
      unfolding bit_eq_iff [of "x AND push_bit 1 (mask 3)"] bit_and_iff by (auto dest: bit_u8_imp)
    also have "\<dots> \<longleftrightarrow> (\<forall>n. n \<in> {1, 2, 3} \<longrightarrow> \<not> bit x n)"
    proof -
      have "1 \<le> n \<and> n < 4 \<longleftrightarrow> n \<in> {1, 2, 3}" for n :: nat by auto
      then show ?thesis by blast
    qed
    finally show ?thesis by auto
  qed
  then show ?thesis unfolding mask marked_def by auto
qed

lemma directory_bit: "is_directory e \<longleftrightarrow> bit (attribute e) 4"
  using and_exp_eq_0_iff_not_bit [of "attribute e" 4] by (simp add: is_directory_def attr_subdirectory_def)

lemma named_visible:
  assumes "named e base ext" "\<not> marked e"
  shows "\<not> is_hidden e"
proof -
  obtain c cs where base: "base = c # cs" using assms(1) by (cases base) (auto simp: named_def)
  then have "filename e ! 0 \<noteq> 0x2E" "filename e ! 1 \<noteq> 0x2E"
    using assms(1) by (cases cs; auto simp: named_def name_chars_def)+
  then show ?thesis using assms(2) unfolding marked_bits is_hidden_def by simp
qed

lemma named_short_name:
  assumes "named e base ext"
  shows "c_string (short_name e @ [0]) = shown_name base ext" "hd (short_name e @ [0]) \<noteq> 0"
proof -
  let ?b = "(if hd base = 0xE5 then 0x3F else hd base) # tl base" let ?x = "if ext = [] then [] else 0x2E # ext"
  obtain c cs where base: "base = c # cs" using assms by (cases base) (auto simp: named_def)
  have take: "takeWhile (\<lambda>c. c \<noteq> 0x20) (bs @ replicate n 0x20) = bs" if "name_chars bs" for bs :: bytes and n
    using that by (subst takeWhile_append2) (auto simp: name_chars_def takeWhile_eq_Nil_iff)
  have "map undelete_char base = ?b"
    using assms by (auto simp: base named_def undelete_char_def DELETED_def intro!: map_idI)
  then have b: "map undelete_char (takeWhile (\<lambda>c. c \<noteq> 0x20) (filename e)) = ?b"
    using assms take [of base] by (simp add: named_def)
  have "hd (extension e) = 0x20 \<longleftrightarrow> ext = []"
    using assms by (cases ext) (auto simp: named_def name_chars_def)
  then have x: "(if hd (extension e) = 0x20 then [] else 0x2E # takeWhile (\<lambda>c. c \<noteq> 0x20) (extension e)) = ?x"
    using assms take [of ext] by (simp add: named_def)
  have eq: "short_name e = ?b @ ?x" unfolding short_name_def b x by (rule refl)
  have nz: "0 \<notin> set (?b @ ?x)" using assms by (auto simp: named_def name_chars_def base)
  then have "takeWhile (\<lambda>b. b \<noteq> 0) ((?b @ ?x) @ [0]) = ?b @ ?x" by (subst takeWhile_append2) auto
  then show "c_string (short_name e @ [0]) = shown_name base ext" unfolding eq c_string_def shown_name_def by simp
  show "hd (short_name e @ [0]) \<noteq> 0" unfolding eq using nz by auto
qed

lemma cluster_position:
  assumes "2 \<le> unat (first_cluster e)"
  shows "entry_position e bpb location = cluster_of e bpb"
proof -
  have "unat (first_cluster e) < 65536" using u16_bound [of "first_cluster e"] by simp
  from unat_cluster_location [OF assms this, of bpb] show ?thesis by (simp add: entry_position_def fseek_set_def)
qed

text \<open>Adding nodes one after the other sorts them, and keeps the order of equal names.\<close>

lemma filter_insert_after:
  assumes "sorted_names cs"
  shows "filter (\<lambda>x. k = name x) (insert_after c cs) = filter (\<lambda>x. k = name x) cs @ (if k = name c then [c] else [])"
proof -
  let ?P = "\<lambda>x. name x \<le> name c"
  have cs: "cs = takeWhile ?P cs @ dropWhile ?P cs" by simp
  have "name c < name x" if "x \<in> set (dropWhile ?P cs)" for x
  proof -
    from that obtain y ys where d: "dropWhile ?P cs = y # ys" by (cases "dropWhile ?P cs") auto
    then have "\<not> ?P y" by (simp add: dropWhile_eq_Cons_conv)
    moreover have "sorted (map name (takeWhile ?P cs @ y # ys))" using assms cs d by (metis sorted_names_def)
    then have "name y \<le> name x" using that d by (auto simp: sorted_append)
    ultimately show ?thesis by simp
  qed
  then have "filter (\<lambda>x. name c = name x) (dropWhile ?P cs) = []" by (fastforce simp: filter_empty_conv)
  moreover have "filter Q cs = filter Q (takeWhile ?P cs) @ filter Q (dropWhile ?P cs)" for Q
    by (metis cs filter_append)
  ultimately show ?thesis by (auto simp: insert_after_def)
qed

lemma sort_key_cong:
  assumes "mset xs = mset ys" "\<And>k. filter (\<lambda>x. k = name x) xs = filter (\<lambda>x. k = name x) ys"
  shows "sort_key name xs = sort_key name ys"
proof (rule properties_for_sort_key)
  have "(\<lambda>x. k = name x) = (\<lambda>x. name x = k)" for k by auto
  then show "filter (\<lambda>x. name k = name x) (sort_key name ys) = filter (\<lambda>x. name k = name x) xs" for k
    using assms(2) [of "name k"] by (simp only: sort_key_stable)
qed (simp_all add: assms)

lemma sort_add_child:
  assumes "sorted_names cs"
  shows "sort_key name (add_child cs c @ ns) = sort_key name (cs @ c # ns)"
proof (rule sort_key_cong)
  show "mset (add_child cs c @ ns) = mset (cs @ c # ns)" using mset_add_child [of cs c] by simp
qed (simp add: filter_insert_after [OF assms] add_child_insert_after [OF assms])

lemma follow_on_disk:
  "on_disk disk bpb pos items \<Longrightarrow> records items \<le> fuel \<Longrightarrow> sorted_names cs \<Longrightarrow>
   follow fuel disk bpb pos cs = Some (Inr (sort_key name (cs @ nodes_of items)))"
proof (induction disk bpb pos items arbitrary: fuel cs rule: on_disk.induct)
  case (1 disk bpb pos)
  then obtain e where e: "record_at disk pos e" "end_record e" by auto
  obtain n where n: "fuel = Suc n" using 1(2) by (cases fuel) auto
  have "\<not> is_hidden e" using e(2) unfolding end_record_def marked_bits is_hidden_def by simp
  moreover have "hd (short_name e @ [0]) = 0"
    using e by (cases "filename e") (auto simp: end_record_def record_at_def entry_sizes_def short_name_def undelete_char_def DELETED_def)
  ultimately show ?case using record_read [OF e(1)] 1(3)
    by (simp add: n follow.simps Let_def sorted_names_def sort_key_id_if_sorted)
next
  case (2 disk bpb pos e items)
  then have e: "record_at disk pos e" "marked e \<or> filename e ! 0 = 0x2E" by auto
  obtain n where n: "fuel = Suc n" using 2(3) by (cases fuel) auto
  have "is_hidden e" using e(2) unfolding marked_bits is_hidden_def by auto
  moreover have "follow n disk bpb (pos + 32) cs = Some (Inr (sort_key name (cs @ nodes_of items)))" using 2 n by simp
  ultimately show ?case using record_read [OF e(1)] by (simp add: n follow.simps Let_def entry_size_def)
next
  case (3 disk bpb pos e base ext data items)
  then have e: "record_at disk pos e" "\<not> marked e" "named e base ext" "\<not> bit (attribute e) 4" "2 \<le> unat (first_cluster e)"
    "unat (file_size e) = length data" "data \<noteq> []" "stored disk (cluster_of e bpb) data" by auto
  obtain n where n: "fuel = Suc n" using 3(3) by (cases fuel) auto
  let ?node = "File_node (shown_name base ext) (length data) data"
  have "fread_record disk (cluster_of e bpb) (length data) = Some data"
  proof -
    have "length (take (length data) (drop (cluster_of e bpb) disk)) = length data" using e(8) by (simp add: stored_def)
    then have "cluster_of e bpb + length data \<le> length disk" using e(7) by (cases data) (auto simp: min_def split: if_splits)
    then show ?thesis using e(7,8) by (simp add: fread_record_def slice_def stored_def)
  qed
  moreover have "follow n disk bpb (pos + 32) (add_child cs ?node) = Some (Inr (sort_key name (add_child cs ?node @ nodes_of items)))"
    using 3 n by (simp add: add_child_sorted)
  moreover have "sort_key name (add_child cs ?node @ nodes_of items) = sort_key name (cs @ ?node # nodes_of items)"
    by (rule sort_add_child [OF 3(4)])
  ultimately show ?case
    using record_read [OF e(1)] named_visible [OF e(3,2)] named_short_name [OF e(3)] directory_bit [of e] cluster_position [OF e(5)] e(4,6)
    by (simp add: n follow.simps Let_def entry_size_def init_file_node_def init_node_def)
next
  case (4 disk bpb pos e base ext sub items)
  then have e: "record_at disk pos e" "\<not> marked e" "named e base ext" "bit (attribute e) 4" "2 \<le> unat (first_cluster e)" by auto
  obtain n where n: "fuel = Suc n" using 4(4) by (cases fuel) auto
  let ?node = "Directory_node (shown_name base ext) (sort_key name (nodes_of sub))"
  have "follow n disk bpb (cluster_of e bpb) [] = Some (Inr (sort_key name (nodes_of sub)))"
    using 4 n by (simp add: sorted_names_def)
  moreover have "follow n disk bpb (pos + 32) (add_child cs ?node) = Some (Inr (sort_key name (add_child cs ?node @ nodes_of items)))"
    using 4 n by (simp add: add_child_sorted)
  moreover have "sort_key name (add_child cs ?node @ nodes_of items) = sort_key name (cs @ ?node # nodes_of items)"
    by (rule sort_add_child [OF 4(5)])
  ultimately show ?case
    using record_read [OF e(1)] named_visible [OF e(3,2)] named_short_name [OF e(3)] directory_bit [of e] cluster_position [OF e(5)] e(4)
    by (simp add: n follow.simps Let_def entry_size_def)
qed

section \<open>Termination\<close>

text \<open>
  The directories a scan from position \<open>p\<close> can descend into, over all records of the image from
  \<open>p\<close> on, and the positions below which no directory comes round again.
\<close>

definition descends :: "bytes \<Rightarrow> bios_parameter_block \<Rightarrow> nat \<Rightarrow> nat \<Rightarrow> bool" where
  "descends disk bpb p q = (\<exists>k e. entry_at disk (p + entry_size * k) = Some e \<and> \<not> is_hidden e \<and>
     is_directory e \<and> q = entry_position e bpb (p + entry_size * k + entry_size))"

inductive loop_free :: "bytes \<Rightarrow> bios_parameter_block \<Rightarrow> nat \<Rightarrow> bool" for disk bpb where
  "(\<And>q. descends disk bpb p q \<Longrightarrow> loop_free disk bpb q) \<Longrightarrow> loop_free disk bpb p"

lemma descends_next: "descends disk bpb (p + entry_size) q \<Longrightarrow> descends disk bpb p q"
  unfolding descends_def
proof (elim exE conjE, goal_cases)
  case (1 k e)
  then show ?case by (intro exI [of _ "Suc k"] exI [of _ e]) (simp add: algebra_simps)
qed

lemma follow_scan_terminates:
  "(\<And>q. descends disk bpb p q \<Longrightarrow> \<forall>cs. \<exists>fuel r. follow fuel disk bpb q cs = Some r) \<Longrightarrow>
   \<exists>fuel r. follow fuel disk bpb p cs = Some r"
proof (induction "length disk - p" arbitrary: p cs rule: less_induct)
  case less
  show ?case
  proof (cases "fread_record disk p entry_size")
    case None
    then show ?thesis by (intro exI [of _ 1]) (simp add: follow.simps)
  next
    case (Some bs)
    let ?e = "decode_entry bs" and ?next = "p + entry_size"
    have "length disk - ?next < length disk - p"
      using Some by (auto simp: fread_record_def entry_size_def split: if_splits)
    then have next_stops: "\<exists>fuel r. follow fuel disk bpb ?next cs = Some r" for cs
      by (rule less.hyps) (use less.prems descends_next in blast)
    show ?thesis
    proof (cases "is_hidden ?e")
      case True
      then have "follow (Suc fuel) disk bpb p cs = follow fuel disk bpb ?next cs" for fuel
        using Some by (simp add: follow.simps Let_def)
      then show ?thesis using next_stops [of cs] by metis
    next
      case vis: False
      show ?thesis
      proof (cases "get_file_name ?e")
        case (Inl err)
        then show ?thesis using Some vis by (intro exI [of _ 1]) (simp add: follow.simps Let_def)
      next
        case (Inr nm)
        let ?q = "entry_position ?e bpb ?next"
        consider (stop) "hd nm = 0" | (dir) "hd nm \<noteq> 0" "is_directory ?e" | (leaf) "hd nm \<noteq> 0" "\<not> is_directory ?e"
          by blast
        then show ?thesis
        proof cases
          case stop
          then show ?thesis using Some vis Inr by (intro exI [of _ 1]) (simp add: follow.simps Let_def)
        next
          case dir
          have "descends disk bpb p ?q"
            unfolding descends_def using Some vis dir
            by (intro exI [of _ 0] exI [of _ ?e]) (simp add: entry_at_def)
          from less.prems [OF this] obtain f1 r1 where f1: "follow f1 disk bpb ?q [] = Some r1" by blast
          show ?thesis
          proof (cases r1)
            case (Inl err)
            then show ?thesis using Some vis Inr dir f1
              by (intro exI [of _ "Suc f1"]) (simp add: follow.simps Let_def)
          next
            case r1: (Inr ds)
            obtain f2 r2 where "follow f2 disk bpb ?next (add_child cs (Directory_node (c_string nm) ds)) = Some r2"
              using next_stops by blast
            then have "follow (f1 + f2) disk bpb ?next (add_child cs (Directory_node (c_string nm) ds)) = Some r2"
              by (metis follow_mono add.commute)
            moreover have "follow (f1 + f2) disk bpb ?q [] = Some (Inr ds)"
              using follow_mono [OF f1] r1 by simp
            ultimately show ?thesis using Some vis Inr dir
              by (intro exI [of _ "Suc (f1 + f2)"]) (simp add: follow.simps Let_def)
          qed
        next
          case leaf
          show ?thesis
          proof (cases "fread_record disk ?q (unat (file_size ?e))")
            case None
            then show ?thesis using Some vis Inr leaf
              by (intro exI [of _ 1]) (simp add: follow.simps Let_def)
          next
            case data: (Some d)
            obtain f2 r2 where "follow f2 disk bpb ?next
                (add_child cs (init_file_node (Some (c_string nm)) (unat (file_size ?e)) d)) = Some r2"
              using next_stops by blast
            then show ?thesis using Some vis Inr leaf data
              by (intro exI [of _ "Suc f2"]) (simp add: follow.simps Let_def)
          qed
        qed
      qed
    qed
  qed
qed

lemma follow_loop_free: "loop_free disk bpb p \<Longrightarrow> \<forall>cs. \<exists>fuel r. follow fuel disk bpb p cs = Some r"
proof (induction rule: loop_free.induct)
  case (1 p)
  then show ?case using follow_scan_terminates [of disk bpb p] by blast
qed

section \<open>Images the walk does not handle\<close>

lemma follow_zero_record:
  "fread_record disk pos entry_size = Some (replicate entry_size 0) \<Longrightarrow>
   follow (Suc fuel) disk bpb pos cs = follow fuel disk bpb (pos + entry_size) cs"
  by (simp add: follow.simps Let_def is_hidden_def decode_entry_def entry_size_def)

lemma follow_empty_file:
  "entry_at disk pos = Some e \<Longrightarrow> \<not> is_hidden e \<Longrightarrow> \<not> is_directory e \<Longrightarrow>
   hd (short_name e @ [0]) \<noteq> 0 \<Longrightarrow> file_size e = 0 \<Longrightarrow>
   follow (Suc fuel) disk bpb pos cs = Some (Inl Assert_Failed)"
  using entry_at_file_name [of disk pos e]
  by (auto simp: follow.simps Let_def entry_at_Some fread_record_def)

section \<open>Properties\<close>

text \<open>On an image where no directory contains itself through its subdirectories, the walk
  returns: some fuel gives a result, and every larger fuel gives the same one.\<close>

theorem follow_returns:
  assumes "loop_free disk bpb pos"
  shows "\<exists>fuel r. \<forall>k. follow (fuel + k) disk bpb pos cs = Some r"
  using follow_loop_free [OF assms] follow_mono by blast

text \<open>The image of the witnesses: a root directory at 32 with the directory \<open>A\<close> (cluster 2) and an
  end entry, the directory \<open>A\<close> at 96 with an end entry.\<close>

definition sample_dir_entry :: "u8 \<Rightarrow> u8 \<Rightarrow> u16 \<Rightarrow> u32 \<Rightarrow> directory_entry" where
  "sample_dir_entry c attr clus sz = \<lparr>filename = c # replicate 7 0x20,
     extension = replicate 3 0x20, attribute = attr, reserved = replicate 8 0, high_size = 0,
     time = [0, 0], date = [0, 0], first_cluster = clus, file_size = sz\<rparr>"

definition sample_disk :: bytes where
  "sample_disk = replicate 32 0 @ encode_entry (sample_dir_entry 0x41 0x10 2 0) @
     encode_entry (sample_dir_entry 0 0x20 0 0) @ encode_entry (sample_dir_entry 0 0x20 0 0)"

lemma sample_disk_entries:
  "entry_at sample_disk 32 = Some (sample_dir_entry 0x41 0x10 2 0)"
  "entry_at sample_disk 64 = Some (sample_dir_entry 0 0x20 0 0)"
  "entry_at sample_disk 96 = Some (sample_dir_entry 0 0x20 0 0)"
  "128 \<le> p \<Longrightarrow> entry_at sample_disk p = None"
proof -
  have len: "length sample_disk = 128" by (simp add: sample_disk_def encode_entry_def put16_def put32_def sample_dir_entry_def)
  have sizes: "entry_sizes (sample_dir_entry c a cl s)" for c a cl s
    by (simp add: entry_sizes_def sample_dir_entry_def)
  have el: "length (encode_entry (sample_dir_entry c a cl s)) = 32" for c a cl s
    using length_encode_entry [OF sizes, of c a cl s] by (simp add: entry_size_def)
  show "entry_at sample_disk 32 = Some (sample_dir_entry 0x41 0x10 2 0)"
    "entry_at sample_disk 64 = Some (sample_dir_entry 0 0x20 0 0)"
    "entry_at sample_disk 96 = Some (sample_dir_entry 0 0x20 0 0)"
    using len by (simp_all add: entry_at_def fread_record_def entry_size_def slice_def sample_disk_def
        el decode_encode_entry sizes)
  show "entry_at sample_disk p = None" if "128 \<le> p"
    using that len by (simp add: entry_at_def fread_record_def entry_size_def)
qed

lemma sample_disk_loop_free: "loop_free sample_disk sample_bpb 32"
proof (rule loop_free.intros)
  have here: "p + 32 * k = 32 \<or> p + 32 * k = 64 \<or> p + 32 * k = 96 \<or> 128 \<le> p + 32 * k"
    if "p = 32 \<or> p = 96" for p k :: nat
    using that by presburger
  have ends: "\<not> is_directory (sample_dir_entry 0 0x20 0 0)" by code_simp
  have offset: "entry_position (sample_dir_entry 0x41 0x10 2 0) sample_bpb l = 96" for l
  proof -
    have "unat (get_offset_from_cluster (ucast (2 :: u16)) sample_bpb) = 96" by code_simp
    then show ?thesis by (simp add: entry_position_def fseek_set_def sample_dir_entry_def)
  qed
  have none: "\<not> descends sample_disk sample_bpb 96 q" for q
  proof
    assume "descends sample_disk sample_bpb 96 q"
    then obtain k e where "entry_at sample_disk (96 + 32 * k) = Some e" "is_directory e"
      by (auto simp: descends_def entry_size_def)
    moreover have "96 + 32 * k = 96 \<or> 128 \<le> 96 + 32 * k" by presburger
    ultimately show False using ends by (auto simp: sample_disk_entries)
  qed
  fix q assume "descends sample_disk sample_bpb 32 q"
  then obtain k e where k: "entry_at sample_disk (32 + 32 * k) = Some e" "is_directory e"
      "q = entry_position e sample_bpb (32 + 32 * k + 32)"
    by (auto simp: descends_def entry_size_def)
  from here [of 32 k] k(1,2) ends have "e = sample_dir_entry 0x41 0x10 2 0"
    by (auto simp: sample_disk_entries)
  with k offset have "q = 96" by simp
  then show "loop_free sample_disk sample_bpb q" using none by (auto intro: loop_free.intros)
qed

theorem follow_returns_witness:
  "\<exists>fuel r. \<forall>k. follow (fuel + k) sample_disk sample_bpb 32 [] = Some r"
  by (rule follow_returns [OF sample_disk_loop_free])







text \<open>So \<open>main\<close> recovers an image: it reads the parameters behind the boot record, goes to the root directory and builds the
tree of what is there, below a root without a name.\<close>

theorem recover_builds_tree:
  assumes "0x20B + 51 \<le> length disk" "bpb = decode_bpb (take 51 (drop 0x20B disk))"
    "on_disk disk bpb (root_location_nat bpb) items" "records items \<le> fuel"
  shows "recover fuel disk = Some (Inr (Directory_node (init_node None) (sort_key name (nodes_of items))))"
proof -
  have "fread_record disk MASTER_BOOT_RECORD_SIZE bpb_size = Some (take 51 (drop 0x20B disk))"
    using assms(1) by (simp add: fread_record_def MASTER_BOOT_RECORD_SIZE_def bpb_size_def slice_def)
  moreover have "fseek_set (get_root_directory_location bpb) n = root_location_nat bpb" for n
    using root_location_bound [of bpb] by (simp add: fseek_set_def unat_root_location)
  ultimately show ?thesis
    using follow_on_disk [OF assms(3,4), of "[]"] assms(2) by (simp add: recover_def Let_def sorted_names_def)
qed

text \<open>An all-zero record, the end mark of a FAT directory, does not end the walk: its attribute
  byte is 0, so it counts as hidden and the loop reads on behind the directory.\<close>

theorem follow_reads_past_end_mark:
  assumes "fread_record disk pos entry_size = Some (replicate entry_size 0)"
  shows "follow (Suc fuel) disk bpb pos cs = follow fuel disk bpb (pos + entry_size) cs"
  by (rule follow_zero_record [OF assms])

theorem follow_reads_past_end_mark_witness:
  "follow 5 (replicate 64 0) sample_bpb 0 [] = follow 4 (replicate 64 0) sample_bpb 32 []"
proof -
  have "fread_record (replicate 64 0) 0 entry_size = Some (replicate entry_size 0)" by code_simp
  from follow_reads_past_end_mark [OF this, of 4 sample_bpb "[]"] show ?thesis
    by (simp add: entry_size_def)
qed

text \<open>A visible, empty regular file stops the whole recovery with a failed assertion, because
  \<open>fread\<close> of a record of size 0 returns 0.\<close>

theorem follow_aborts_on_empty_file:
  assumes "entry_at disk pos = Some e" "\<not> is_hidden e" "\<not> is_directory e"
    "hd (short_name e @ [0]) \<noteq> 0" "file_size e = 0"
  shows "follow (Suc fuel) disk bpb pos cs = Some (Inl Assert_Failed)"
  by (rule follow_empty_file [OF assms])

theorem follow_aborts_on_empty_file_witness:
  "follow 1 (encode_entry (sample_dir_entry 0x41 0x20 2 0)) sample_bpb 0 [] = Some (Inl Assert_Failed)"
proof -
  let ?e = "sample_dir_entry 0x41 0x20 2 0"
  have sizes: "entry_sizes ?e" by (simp add: entry_sizes_def sample_dir_entry_def)
  have at: "entry_at (encode_entry ?e) 0 = Some ?e"
    using length_encode_entry [OF sizes] decode_encode_entry [OF sizes]
    by (simp add: entry_at_def fread_record_def slice_def entry_size_def)
  have "\<not> is_hidden ?e" "\<not> is_directory ?e" "hd (short_name ?e @ [0]) \<noteq> 0" "file_size ?e = 0"
    by code_simp+
  from follow_aborts_on_empty_file [OF at this, of 0 sample_bpb "[]"] show ?thesis by simp
qed

end
