(* ===== verification/BasicAst.thy ===== *)
theory BasicAst
  imports Prelude
begin

text \<open>
  The abstract syntax of TeenyBASIC (\<open>project02b-wduan/include/ast.h\<close>, \<open>src/ast.c\<close>): the node
  types, the constructor functions with their \<open>NULL\<close> checks, the release of a tree and its printed
  form.
\<close>

section \<open>Nodes\<close>

text \<open>
  \<open>node_t\<close> with its type tag and the structs it is cast to. A \<open>value_t\<close> is an \<open>int64_t\<close>. A pointer
  that may be \<open>NULL\<close> (the missing \<open>ELSE\<close>, the result of a constructor) is an option.
\<close>

type_synonym value_t = u64

datatype ast =
    NUM value_t
  | BINARY_OP char ast ast
  | VAR char
  | SEQUENCE "ast list"
  | PRINT ast
  | LET char ast
  | IF ast ast "ast option"
  | WHILE ast ast

definition init_num_node :: "value_t \<Rightarrow> ast option" where
  "init_num_node v = Some (NUM v)"

definition init_binary_node :: "char \<Rightarrow> ast option \<Rightarrow> ast option \<Rightarrow> ast option" where
  "init_binary_node op left right =
     (case (left, right) of (Some l, Some r) \<Rightarrow> Some (BINARY_OP op l r) | _ \<Rightarrow> None)"

definition init_var_node :: "char \<Rightarrow> ast option" where
  "init_var_node name = (if name = CHR 0x00 then None else Some (VAR name))"

text \<open>\<open>statements\<close> is \<open>NULL\<close> only when there are none, so the list alone stands for both arguments.\<close>

definition init_sequence_node :: "ast list \<Rightarrow> ast option" where
  "init_sequence_node statements = Some (SEQUENCE statements)"

definition init_print_node :: "ast option \<Rightarrow> ast option" where
  "init_print_node expr = map_option PRINT expr"

definition init_let_node :: "char \<Rightarrow> ast option \<Rightarrow> ast option" where
  "init_let_node var val =
     (if var = CHR 0x00 then None else case val of None \<Rightarrow> None | Some v \<Rightarrow> Some (LET var v))"

definition init_if_node :: "ast option \<Rightarrow> ast option \<Rightarrow> ast option \<Rightarrow> ast option" where
  "init_if_node condition if_branch else_branch =
     (case (condition, if_branch) of
        (Some c, Some b) \<Rightarrow> Some (IF c b else_branch) | _ \<Rightarrow> None)"

definition init_while_node :: "ast option \<Rightarrow> ast option \<Rightarrow> ast option" where
  "init_while_node condition body =
     (case (condition, body) of (Some c, Some b) \<Rightarrow> Some (WHILE c b) | _ \<Rightarrow> None)"

lemmas init_node_defs [basic_ops] =
  init_num_node_def init_binary_node_def init_var_node_def init_sequence_node_def
  init_print_node_def init_let_node_def init_if_node_def init_while_node_def

section \<open>Release\<close>

text \<open>
  \<open>free_ast\<close>: the nodes in the order they are passed to \<open>free\<close>, each named by the path of child
  numbers that leads to it; the pointer array of a sequence is \<open>Statement_array\<close>.
\<close>

datatype ast_block = Node_struct "nat list" | Statement_array "nat list"

fun free_ast :: "ast \<Rightarrow> nat list \<Rightarrow> ast_block list"
and free_asts :: "ast list \<Rightarrow> nat \<Rightarrow> nat list \<Rightarrow> ast_block list" where
  "free_ast (NUM v) at = [Node_struct at]"
| "free_ast (BINARY_OP op l r) at = free_ast l (at @ [0]) @ free_ast r (at @ [1]) @ [Node_struct at]"
| "free_ast (VAR x) at = [Node_struct at]"
| "free_ast (SEQUENCE ss) at = free_asts ss 0 at @ [Statement_array at, Node_struct at]"
| "free_ast (PRINT e) at = free_ast e (at @ [0]) @ [Node_struct at]"
| "free_ast (LET x e) at = free_ast e (at @ [0]) @ [Node_struct at]"
| "free_ast (IF c b None) at = free_ast c (at @ [0]) @ free_ast b (at @ [1]) @ [Node_struct at]"
| "free_ast (IF c b (Some e)) at =
     free_ast c (at @ [0]) @ free_ast b (at @ [1]) @ free_ast e (at @ [2]) @ [Node_struct at]"
| "free_ast (WHILE c b) at = free_ast c (at @ [0]) @ free_ast b (at @ [1]) @ [Node_struct at]"
| "free_asts [] i at = []"
| "free_asts (s # ss) i at = free_ast s (at @ [i]) @ free_asts ss (Suc i) at"

fun block_path :: "ast_block \<Rightarrow> nat list" where
  "block_path (Node_struct p) = p"
| "block_path (Statement_array p) = p"

lemma free_ast_below:
  "b \<in> set (free_ast n at) \<Longrightarrow> \<exists>p. block_path b = at @ p"
  "b \<in> set (free_asts ns i at) \<Longrightarrow> \<exists>j p. i \<le> j \<and> block_path b = at @ j # p"
proof (induction n at and ns i at rule: free_ast_free_asts.induct)
  case (11 s ss i at)
  then show ?case by fastforce
qed fastforce+

lemma distinct_free_ast:
  "distinct (free_ast n at)"
  "distinct (free_asts ns i at)"
proof (induction n at and ns i at rule: free_ast_free_asts.induct)
  case (2 op l r at)
  then show ?case by (fastforce dest: free_ast_below)
next
  case (4 ss at)
  then show ?case by (fastforce dest: free_ast_below)
next
  case (7 c b at)
  then show ?case by (fastforce dest: free_ast_below)
next
  case (8 c b e at)
  then show ?case by (fastforce dest: free_ast_below)
next
  case (9 c b at)
  then show ?case by (fastforce dest: free_ast_below)
next
  case (11 s ss i at)
  then show ?case by (fastforce dest: free_ast_below)
qed (fastforce dest: free_ast_below)+

section \<open>Printing\<close>

text \<open>\<open>print_ast_indented\<close> writes to \<open>stderr\<close>; the text it writes is the result here.\<close>

definition print_indent :: "nat \<Rightarrow> string" where
  "print_indent indent = replicate indent (CHR 0x09)"

abbreviation nl :: string where "nl \<equiv> [CHR 0x0A]"

fun print_ast_indented :: "ast \<Rightarrow> nat \<Rightarrow> string"
and print_asts_indented :: "ast list \<Rightarrow> nat \<Rightarrow> string" where
  "print_ast_indented (NUM v) indent = string_of_int (sint v)"
| "print_ast_indented (BINARY_OP op l r) indent =
     op # ''('' @ print_ast_indented l indent @ '', '' @ print_ast_indented r indent @ '')''"
| "print_ast_indented (VAR x) indent = [x]"
| "print_ast_indented (SEQUENCE ss) indent = print_asts_indented ss indent"
| "print_ast_indented (PRINT e) indent =
     print_indent indent @ ''PRINT('' @ print_ast_indented e indent @ '')'' @ nl"
| "print_ast_indented (LET x e) indent =
     print_indent indent @ ''LET('' @ x # '', '' @ print_ast_indented e indent @ '')'' @ nl"
| "print_ast_indented (IF c b els) indent =
     print_indent indent @ ''IF('' @ print_ast_indented c indent @ '','' @ nl
       @ print_ast_indented b (indent + 1)
       @ (case els of None \<Rightarrow> []
          | Some e \<Rightarrow> print_indent indent @ '','' @ nl @ print_ast_indented e (indent + 1))
       @ print_indent indent @ '')'' @ nl"
| "print_ast_indented (WHILE c b) indent =
     print_indent indent @ ''WHILE('' @ print_ast_indented c indent @ '','' @ nl
       @ print_ast_indented b (indent + 1) @ print_indent indent @ '')'' @ nl"
| "print_asts_indented [] indent = []"
| "print_asts_indented (s # ss) indent = print_ast_indented s indent @ print_asts_indented ss indent"

definition print_ast :: "ast \<Rightarrow> string" where
  "print_ast n = print_ast_indented n 0"

section \<open>Well-formed programs\<close>

text \<open>The operators and names the comments of \<open>ast.h\<close> allow in each place.\<close>

definition arith_op :: "char \<Rightarrow> bool" where
  "arith_op c = (c = CHR ''+'' \<or> c = CHR ''-'' \<or> c = CHR ''*'' \<or> c = CHR ''/'')"

definition cond_op :: "char \<Rightarrow> bool" where
  "cond_op c = (c = CHR ''<'' \<or> c = CHR ''='' \<or> c = CHR ''>'')"

definition var_name :: "char \<Rightarrow> bool" where
  "var_name c = (65 \<le> (of_char c :: nat) \<and> (of_char c :: nat) \<le> 90)"

fun wf_expr :: "ast \<Rightarrow> bool" where
  "wf_expr (NUM v) = True"
| "wf_expr (VAR x) = var_name x"
| "wf_expr (BINARY_OP op l r) = (arith_op op \<and> wf_expr l \<and> wf_expr r)"
| "wf_expr _ = False"

fun wf_cond :: "ast \<Rightarrow> bool" where
  "wf_cond (BINARY_OP op l r) = (cond_op op \<and> wf_expr l \<and> wf_expr r)"
| "wf_cond _ = False"

fun wf_stmt :: "ast \<Rightarrow> bool" where
  "wf_stmt (SEQUENCE ss) = (\<forall>s \<in> set ss. wf_stmt s)"
| "wf_stmt (PRINT e) = wf_expr e"
| "wf_stmt (LET x e) = (var_name x \<and> wf_expr e)"
| "wf_stmt (IF c b None) = (wf_cond c \<and> wf_stmt b)"
| "wf_stmt (IF c b (Some e)) = (wf_cond c \<and> wf_stmt b \<and> wf_stmt e)"
| "wf_stmt (WHILE c b) = (wf_cond c \<and> wf_stmt b)"
| "wf_stmt _ = False"

end
