(* ===== verification/BasicCompile.thy ===== *)
theory BasicCompile
  imports BasicAst
begin

text \<open>
  The TeenyBASIC code generator (\<open>project02b-wduan/src/compile.c\<close>, \<open>src/compiler.c\<close>). Every
  \<open>printf\<close> of an assembly line is one instruction here, \<open>show_instr\<close> is the line it prints. The
  two label counters \<open>if_id\<close> and \<open>while_id\<close> are passed along. The only way the compiler stops early
  is an arithmetic trap while it folds a constant division.
\<close>

section \<open>Constant folding\<close>

record return_t =
  is_constant :: bool
  val :: value_t

definition const_ret :: "value_t \<Rightarrow> return_t" where
  "const_ret v = \<lparr>is_constant = True, val = v\<rparr>"

definition not_const_ret :: return_t where
  "not_const_ret = \<lparr>is_constant = False, val = 0\<rparr>"

text \<open>
  C's signed 64-bit operators as the compiler's own x86 code computes them: sums, differences and
  products wrap, a division truncates towards zero and traps on a zero divisor and on the one
  quotient that does not fit.
\<close>

definition signed_div :: "u64 \<Rightarrow> u64 \<Rightarrow> u64 result" where
  "signed_div a b =
     (if b = 0 \<or> (sint a = - (2 ^ 63) \<and> sint b = -1) then Inl Arith_Trap
      else Inr (word_of_int (sgn (sint a) * sgn (sint b) * (\<bar>sint a\<bar> div \<bar>sint b\<bar>))))"

fun fold_ast :: "ast \<Rightarrow> return_t result" where
  "fold_ast (NUM v) = Inr (const_ret v)"
| "fold_ast (BINARY_OP op l r) =
     ebind (fold_ast l) (\<lambda>left.
     ebind (fold_ast r) (\<lambda>right.
       if is_constant left \<and> is_constant right then
         (if op = CHR ''+'' then Inr (const_ret (val left + val right))
          else if op = CHR ''-'' then Inr (const_ret (val left - val right))
          else if op = CHR ''*'' then Inr (const_ret (val left * val right))
          else if op = CHR ''/'' then
            ebind (signed_div (val left) (val right)) (\<lambda>q. Inr (const_ret q))
          else Inr not_const_ret)
       else Inr not_const_ret))"
| "fold_ast _ = Inr not_const_ret"

section \<open>Powers of two\<close>

text \<open>The loop of \<open>is_power_of_two\<close> over the signed \<open>num\<close>; \<open>>>=\<close> is an arithmetic shift.\<close>

function power_loop :: "int \<Rightarrow> nat \<Rightarrow> nat \<Rightarrow> nat \<Rightarrow> nat" where
  "power_loop num cnt pw i =
     (if 0 < num then
        (let pw' = (if odd num then i else pw);
             cnt' = (if odd num then cnt + 1 else cnt)
         in if 1 < cnt' then 0 else power_loop (num div 2) cnt' pw' (i + 1))
      else pw)"
  by pat_completeness auto
termination
  by (relation "measure (\<lambda>(num, cnt, pw, i). nat num)") auto

declare power_loop.simps [simp del]

definition is_power_of_two :: "value_t \<Rightarrow> nat" where
  "is_power_of_two num = power_loop (sint num) 0 0 0"

lemma power_loop_one: "power_loop num 1 p i = (if 0 < num then 0 else p)"
proof (induction num "1 :: nat" p i rule: power_loop.induct)
  case (1 num p i)
  show ?case
  proof (cases "0 < num \<and> even num")
    case True
    then have "0 < num div 2" by auto
    with True "1" show ?thesis by (simp add: power_loop.simps [of num] Let_def)
  next
    case False
    then show ?thesis by (auto simp: power_loop.simps [of num] Let_def)
  qed
qed

lemma power_loop_zero:
  "power_loop num 0 0 i = p \<Longrightarrow> 0 < p \<Longrightarrow> i \<le> p \<and> num = 2 ^ (p - i)"
proof (induction "nat num" arbitrary: num i rule: less_induct)
  case less
  have pos: "0 < num" using less.prems by (auto simp: power_loop.simps [of num] split: if_splits)
  show ?case
  proof (cases "odd num")
    case True
    with less.prems pos have "power_loop (num div 2) 1 i (i + 1) = p"
      by (simp add: power_loop.simps [of num] Let_def)
    then have "\<not> 0 < num div 2" "p = i"
      using less.prems power_loop_one [of "num div 2" i "i + 1"] by (simp_all split: if_splits)
    with pos True show ?thesis by auto
  next
    case False
    with less.prems pos have "power_loop (num div 2) 0 0 (i + 1) = p"
      by (simp add: power_loop.simps [of num] Let_def)
    from less.hyps [OF _ this less.prems(2)] pos False
    have "i + 1 \<le> p" "num div 2 = 2 ^ (p - (i + 1))" by auto
    moreover from this have "num = 2 * 2 ^ (p - (i + 1))" using False by auto
    ultimately show ?thesis by (simp flip: power_Suc add: Suc_diff_Suc)
  qed
qed

lemma is_power_of_two_correct:
  assumes "is_power_of_two num \<noteq> 0"
  shows "is_power_of_two num < 63" and "num = 2 ^ is_power_of_two num"
proof -
  let ?p = "is_power_of_two num"
  have s: "sint num = 2 ^ ?p"
    using power_loop_zero [of "sint num" 0 ?p] assms by (simp add: is_power_of_two_def)
  have "sint num < 2 ^ 63" using sint_less [of num] by simp
  then have "(2 :: int) ^ ?p < 2 ^ 63" using s by simp
  then show "?p < 63" by (rule power_less_imp_less_exp [rotated]) simp
  have "word_of_int (sint num) = (word_of_int (2 ^ ?p) :: u64)" using s by simp
  then show "num = 2 ^ ?p" by simp
qed

section \<open>Instructions\<close>

datatype label = L_IF nat | L_ENDIF nat | L_WHILE nat | L_ENDWHILE nat

datatype instr =
    Mov_imm_rdi u64
  | Call_print_int
  | Push_rdi
  | Pop_r10
  | Addq_r10_rdi
  | Subq_r10_rdi
  | Imulq_r10_rdi
  | Shl_rdi nat
  | Movq_rdi_rax
  | Cqto
  | Idivq_r10
  | Movq_rax_rdi
  | Cmp_r10_rdi
  | Load_rdi int
  | Store_rdi int
  | Je label | Jl label | Jg label | Jne label | Jge label | Jle label | Jmp label
  | Label label
  | Push_rbp
  | Movq_rsp_rbp
  | Subq_rsp nat
  | Addq_rsp nat
  | Pop_rbp
  | Ret

fun show_label :: "label \<Rightarrow> string" where
  "show_label (L_IF n) = ''IF_'' @ string_of_int (int n)"
| "show_label (L_ENDIF n) = ''ENDIF_'' @ string_of_int (int n)"
| "show_label (L_WHILE n) = ''WHILE_'' @ string_of_int (int n)"
| "show_label (L_ENDWHILE n) = ''ENDWHILE_'' @ string_of_int (int n)"

fun show_instr :: "instr \<Rightarrow> string" where
  "show_instr (Mov_imm_rdi v) = ''movq $'' @ string_of_int (sint v) @ '', %rdi'' @ nl"
| "show_instr Call_print_int = ''call print_int'' @ nl"
| "show_instr Push_rdi = ''push %rdi'' @ nl"
| "show_instr Pop_r10 = ''pop %r10'' @ nl"
| "show_instr Addq_r10_rdi = ''addq %r10, %rdi'' @ nl"
| "show_instr Subq_r10_rdi = ''subq %r10, %rdi'' @ nl"
| "show_instr Imulq_r10_rdi = ''imulq %r10, %rdi'' @ nl"
| "show_instr (Shl_rdi n) = ''shl $'' @ string_of_int (int n) @ '', %rdi'' @ nl"
| "show_instr Movq_rdi_rax = ''movq %rdi, %rax'' @ nl"
| "show_instr Cqto = ''cqto'' @ nl"
| "show_instr Idivq_r10 = ''idivq %r10'' @ nl"
| "show_instr Movq_rax_rdi = ''movq %rax, %rdi'' @ nl"
| "show_instr Cmp_r10_rdi = ''cmp %r10, %rdi'' @ nl"
| "show_instr (Load_rdi off) = ''movq '' @ string_of_int off @ ''(%rbp), %rdi'' @ nl"
| "show_instr (Store_rdi off) = ''movq %rdi, '' @ string_of_int off @ ''(%rbp)'' @ nl"
| "show_instr (Je l) = ''je '' @ show_label l @ nl"
| "show_instr (Jl l) = ''jl '' @ show_label l @ nl"
| "show_instr (Jg l) = ''jg '' @ show_label l @ nl"
| "show_instr (Jne l) = ''jne '' @ show_label l @ nl"
| "show_instr (Jge l) = ''jge '' @ show_label l @ nl"
| "show_instr (Jle l) = ''jle '' @ show_label l @ nl"
| "show_instr (Jmp l) = ''jmp '' @ show_label l @ nl"
| "show_instr (Label l) = show_label l @ '':'' @ nl"
| "show_instr Push_rbp = ''push %rbp'' @ nl"
| "show_instr Movq_rsp_rbp = ''movq %rsp, %rbp'' @ nl"
| "show_instr (Subq_rsp n) = ''subq $'' @ string_of_int (int n) @ '', %rsp'' @ nl"
| "show_instr (Addq_rsp n) = ''addq $'' @ string_of_int (int n) @ '', %rsp'' @ nl"
| "show_instr Pop_rbp = ''pop %rbp'' @ nl"
| "show_instr Ret = ''    ret'' @ nl"

section \<open>Code generation\<close>

text \<open>The numbers of the labels are \<open>int32_t\<close> in the code; here they do not wrap. A program with \<open>2 ^ 31\<close> conditions, where they
would, has more than 20 GB of text.\<close>

type_synonym ids = "nat \<times> nat"  \<comment> \<open>\<open>if_id\<close>, \<open>while_id\<close>\<close>

text \<open>\<open>offset * -8\<close> with \<open>offset = name - 'A' + 1\<close>.\<close>

definition var_offset :: "char \<Rightarrow> int" where
  "var_offset x = (int (of_char x) - 65 + 1) * -8"

text \<open>The operator's code after both operands: left in \<open>%rdi\<close>, right in \<open>%r10\<close>.\<close>

definition op_code :: "char \<Rightarrow> ast \<Rightarrow> instr list" where
  "op_code op right =
     (if op = CHR ''+'' then [Addq_r10_rdi]
      else if op = CHR ''-'' then [Subq_r10_rdi]
      else if op = CHR ''*'' then
        (case right of
           NUM num \<Rightarrow>
             (let pw = is_power_of_two num
              in if pw \<noteq> 0 then [Shl_rdi pw] else [Imulq_r10_rdi])
         | _ \<Rightarrow> [Imulq_r10_rdi])
      else if op = CHR ''/'' then [Movq_rdi_rax, Cqto, Idivq_r10, Movq_rax_rdi]
      else [Cmp_r10_rdi])"

definition if_jump :: "char \<Rightarrow> nat \<Rightarrow> instr list" where
  "if_jump op n =
     (if op = CHR ''='' then [Je (L_IF n)]
      else if op = CHR ''<'' then [Jl (L_IF n)]
      else if op = CHR ''>'' then [Jg (L_IF n)]
      else [])"

definition while_jump :: "char \<Rightarrow> nat \<Rightarrow> instr list" where
  "while_jump op n =
     (if op = CHR ''='' then [Jne (L_ENDWHILE n)]
      else if op = CHR ''<'' then [Jge (L_ENDWHILE n)]
      else if op = CHR ''>'' then [Jle (L_ENDWHILE n)]
      else [])"

text \<open>\<open>condition->op\<close>: the condition of an \<open>IF\<close> or \<open>WHILE\<close> node is a \<open>binary_node_t\<close>.\<close>

fun condition_op :: "ast \<Rightarrow> char result" where
  "condition_op (BINARY_OP op l r) = Inr op"
| "condition_op _ = Inl Undefined"

fun compile_ast :: "ast \<Rightarrow> ids \<Rightarrow> (instr list \<times> ids) result"
and compile_seq :: "ast list \<Rightarrow> ids \<Rightarrow> (instr list \<times> ids) result" where
  "compile_ast node ids =
     ebind (fold_ast node) (\<lambda>ret.
       if is_constant ret then Inr ([Mov_imm_rdi (val ret)], ids)
       else (case node of
         NUM v \<Rightarrow> Inr ([Mov_imm_rdi v], ids)
       | PRINT e \<Rightarrow> ebind (compile_ast e ids) (\<lambda>(c, ids1). Inr (c @ [Call_print_int], ids1))
       | SEQUENCE ss \<Rightarrow> compile_seq ss ids
       | BINARY_OP op l r \<Rightarrow>
           ebind (compile_ast r ids) (\<lambda>(cr, ids1).
           ebind (compile_ast l ids1) (\<lambda>(cl, ids2).
             Inr (cr @ [Push_rdi] @ cl @ [Pop_r10] @ op_code op r, ids2)))
       | VAR x \<Rightarrow> Inr ([Load_rdi (var_offset x)], ids)
       | LET x e \<Rightarrow> ebind (compile_ast e ids) (\<lambda>(c, ids1). Inr (c @ [Store_rdi (var_offset x)], ids1))
       | IF cond thn els \<Rightarrow>
           ebind (compile_ast cond ids) (\<lambda>(cc, (if_id, while_id)).
           ebind (condition_op cond) (\<lambda>op.
           ebind (case els of None \<Rightarrow> Inr ([], (if_id + 1, while_id))
                            | Some e \<Rightarrow> compile_ast e (if_id + 1, while_id)) (\<lambda>(ce, ids2).
           ebind (compile_ast thn ids2) (\<lambda>(ct, ids3).
             Inr (cc @ if_jump op if_id @ ce @ [Jmp (L_ENDIF if_id), Label (L_IF if_id)] @ ct
                    @ [Jmp (L_ENDIF if_id), Label (L_ENDIF if_id)], ids3)))))
       | WHILE cond body \<Rightarrow>
           (let while_id = snd ids in
           ebind (compile_ast cond (fst ids, while_id + 1)) (\<lambda>(cc, ids1).
           ebind (condition_op cond) (\<lambda>op.
           ebind (compile_ast body ids1) (\<lambda>(cb, ids2).
             Inr ([Label (L_WHILE while_id)] @ cc @ while_jump op while_id @ cb
                    @ [Jmp (L_WHILE while_id), Label (L_ENDWHILE while_id)], ids2)))))))"
| "compile_seq [] ids = Inr ([], ids)"
| "compile_seq (s # ss) ids =
     ebind (compile_ast s ids) (\<lambda>(c, ids1).
     ebind (compile_seq ss ids1) (\<lambda>(cs, ids2). Inr (c @ cs, ids2)))"

declare compile_ast.simps [simp del]

section \<open>Whole programs\<close>

definition header_code :: "instr list" where
  "header_code = [Push_rbp, Movq_rsp_rbp, Subq_rsp (26 * 8)]"

definition footer_code :: "instr list" where
  "footer_code = [Addq_rsp (26 * 8), Pop_rbp, Ret]"

definition compile_program :: "ast \<Rightarrow> instr list result" where
  "compile_program n = ebind (compile_ast n (0, 0)) (\<lambda>(c, ids). Inr (header_code @ c @ footer_code))"

definition header_text :: string where
  "header_text = ''# The code section of the assembly file'' @ nl @ ''.text'' @ nl
     @ ''.globl basic_main'' @ nl @ ''basic_main:'' @ nl @ ''    # The main() function'' @ nl"

definition assembly_text :: "instr list \<Rightarrow> string" where
  "assembly_text code = header_text @ concat (map show_instr code)"

section \<open>The code of each node\<close>

lemma compile_const:
  "fold_ast n = Inr ret \<Longrightarrow> is_constant ret \<Longrightarrow> compile_ast n ids = Inr ([Mov_imm_rdi (val ret)], ids)"
  by (simp add: compile_ast.simps)

lemma fold_stmt [simp]:
  "fold_ast (VAR x) = Inr not_const_ret" "fold_ast (SEQUENCE ss) = Inr not_const_ret"
  "fold_ast (PRINT e) = Inr not_const_ret" "fold_ast (LET x e) = Inr not_const_ret"
  "fold_ast (IF c t els) = Inr not_const_ret" "fold_ast (WHILE c b) = Inr not_const_ret"
  "is_constant not_const_ret = False" "is_constant (const_ret v)" "val (const_ret v) = v"
  by (simp_all add: not_const_ret_def const_ret_def)

lemma fold_cond: "cond_op op \<Longrightarrow> fold_ast (BINARY_OP op l r) = Inr ret \<Longrightarrow> \<not> is_constant ret"
  by (auto simp: cond_op_def split: if_splits)

lemma fold_subexpr:
  "fold_ast (BINARY_OP op l r) = Inr ret \<Longrightarrow> \<exists>rl rr. fold_ast l = Inr rl \<and> fold_ast r = Inr rr"
  by auto

lemma compile_num [simp]: "compile_ast (NUM v) ids = Inr ([Mov_imm_rdi v], ids)"
  by (simp add: compile_ast.simps)

lemma compile_var [simp]: "compile_ast (VAR x) ids = Inr ([Load_rdi (var_offset x)], ids)"
  by (simp add: compile_ast.simps)

lemma compile_print [simp]:
  "compile_ast (PRINT e) ids = ebind (compile_ast e ids) (\<lambda>(c, ids1). Inr (c @ [Call_print_int], ids1))"
  by (simp add: compile_ast.simps [of "PRINT e"])

lemma compile_let [simp]:
  "compile_ast (LET x e) ids = ebind (compile_ast e ids) (\<lambda>(c, ids1). Inr (c @ [Store_rdi (var_offset x)], ids1))"
  by (simp add: compile_ast.simps [of "LET x e"])

lemma compile_sequence [simp]: "compile_ast (SEQUENCE ss) ids = compile_seq ss ids"
  by (simp add: compile_ast.simps [of "SEQUENCE ss"])

lemma compile_if [simp]:
  "compile_ast (IF cond thn els) ids =
     ebind (compile_ast cond ids) (\<lambda>(cc, (if_id, while_id)).
     ebind (condition_op cond) (\<lambda>op.
     ebind (case els of None \<Rightarrow> Inr ([], (if_id + 1, while_id))
                      | Some e \<Rightarrow> compile_ast e (if_id + 1, while_id)) (\<lambda>(ce, ids2).
     ebind (compile_ast thn ids2) (\<lambda>(ct, ids3).
       Inr (cc @ if_jump op if_id @ ce @ [Jmp (L_ENDIF if_id), Label (L_IF if_id)] @ ct
              @ [Jmp (L_ENDIF if_id), Label (L_ENDIF if_id)], ids3)))))"
  by (simp add: compile_ast.simps [of "IF cond thn els"])

lemma compile_while [simp]:
  "compile_ast (WHILE cond body) (if_id, while_id) =
     ebind (compile_ast cond (if_id, while_id + 1)) (\<lambda>(cc, ids1).
     ebind (condition_op cond) (\<lambda>op.
     ebind (compile_ast body ids1) (\<lambda>(cb, ids2).
       Inr ([Label (L_WHILE while_id)] @ cc @ while_jump op while_id @ cb
              @ [Jmp (L_WHILE while_id), Label (L_ENDWHILE while_id)], ids2))))"
  by (simp add: compile_ast.simps [of "WHILE cond body"])

lemma show_label_inj [simp]: "show_label k = show_label l \<longleftrightarrow> k = l"
  by (cases k; cases l) (simp_all add: string_of_int_def)

end
