(* ===== verification/X86.thy ===== *)
theory X86
  imports BasicCompile
begin

text \<open>
  The machine the TeenyBASIC compiler's output runs on: the x86-64 registers, flags and
  instructions the compiler emits, and the routine \<open>print_int\<close> of
  \<open>project02b-wduan/runtime/print_int.s\<close>. Memory is a map of aligned 64-bit cells. A call may
  leave anything below the stack pointer (\<open>scratch\<close>), and needs the stack aligned to 16 bytes.
\<close>

section \<open>Deterministic machines\<close>

text \<open>
  What any step function that yields an error or one next state has: runs from a state are
  prefixes of each other, and a run that gets stuck is the longest one.
\<close>

locale det_machine =
  fixes step :: "'s \<Rightarrow> 'e + 's"
begin

definition steps1 :: "'s \<Rightarrow> 's \<Rightarrow> bool" where
  "steps1 s t = (step s = Inr t)"

lemma confluent:
  "steps1\<^sup>*\<^sup>* s t \<Longrightarrow> steps1\<^sup>*\<^sup>* s u \<Longrightarrow> steps1\<^sup>*\<^sup>* t u \<or> steps1\<^sup>*\<^sup>* u t"
proof (induction rule: rtranclp_induct)
  case (step t v)
  then consider "steps1\<^sup>*\<^sup>* t u" | "steps1\<^sup>*\<^sup>* u t" by blast
  then show ?case
  proof cases
    case 1
    then show ?thesis
    proof (cases rule: converse_rtranclpE)
      case base
      with step.hyps show ?thesis by auto
    next
      case (step w)
      with \<open>steps1 t v\<close> have "w = v" by (simp add: steps1_def)
      with step show ?thesis by blast
    qed
  next
    case 2
    with step.hyps show ?thesis by (meson rtranclp.rtrancl_into_rtrancl)
  qed
qed blast

lemma stuck_unique:
  assumes "steps1\<^sup>*\<^sup>* s t" "step t = Inl e" "steps1\<^sup>*\<^sup>* s u" "step u = Inl f"
  shows "t = u"
proof -
  have stuck: "x = y" if "steps1\<^sup>*\<^sup>* x y" "step x = Inl g" for x y g
    using that by (cases rule: converse_rtranclpE) (auto simp: steps1_def)
  from confluent [OF assms(1,3)] stuck assms(2,4) show ?thesis by metis
qed

end

section \<open>State\<close>

record x86 =
  rdi :: u64
  rax :: u64
  rdx :: u64
  r10 :: u64
  rsp :: u64
  rbp :: u64
  flags :: "(bool \<times> bool \<times> bool) option"  \<comment> \<open>zero, sign and overflow flag, where defined\<close>
  mem :: "u64 \<Rightarrow> u64"
  out :: "u64 list"
  pc :: nat
  scratch :: "u64 \<Rightarrow> u64"

definition al8 :: "u64 \<Rightarrow> bool" where "al8 a = (uint a mod 8 = 0)"
definition al16 :: "u64 \<Rightarrow> bool" where "al16 a = (uint a mod 16 = 0)"

definition load :: "x86 \<Rightarrow> u64 \<Rightarrow> u64 result" where
  "load m a = (if al8 a then Inr (mem m a) else Inl Bad_Access)"

definition store :: "u64 \<Rightarrow> u64 \<Rightarrow> x86 \<Rightarrow> x86 result" where
  "store a v m = (if al8 a then Inr (m\<lparr>mem := (mem m)(a := v)\<rparr>) else Inl Bad_Access)"

definition sub_flags :: "u64 \<Rightarrow> u64 \<Rightarrow> bool \<times> bool \<times> bool" where
  "sub_flags a b = (a - b = 0, sint (a - b) < 0, sint (a - b) \<noteq> sint a - sint b)"

definition add_flags :: "u64 \<Rightarrow> u64 \<Rightarrow> bool \<times> bool \<times> bool" where
  "add_flags a b = (a + b = 0, sint (a + b) < 0, sint (a + b) \<noteq> sint a + sint b)"

fun find_label :: "instr list \<Rightarrow> label \<Rightarrow> nat option" where
  "find_label [] l = None"
| "find_label (i # is) l = (if i = Label l then Some 0 else map_option Suc (find_label is l))"

section \<open>Steps\<close>

definition jump :: "instr list \<Rightarrow> label \<Rightarrow> x86 \<Rightarrow> x86 result" where
  "jump P l m = (case find_label P l of None \<Rightarrow> Inl Undefined | Some i \<Rightarrow> Inr (m\<lparr>pc := i\<rparr>))"

definition jump_if :: "(bool \<Rightarrow> bool \<Rightarrow> bool \<Rightarrow> bool) \<Rightarrow> instr list \<Rightarrow> label \<Rightarrow> x86 \<Rightarrow> x86 result" where
  "jump_if c P l m = (case flags m of
       None \<Rightarrow> Inl Undefined
     | Some (z, s, v) \<Rightarrow> if c z s v then jump P l m else Inr (m\<lparr>pc := pc m + 1\<rparr>))"

text \<open>\<open>print_int\<close>: one line of output, and its canary values in the caller-saved registers.\<close>

definition print_int :: "x86 \<Rightarrow> x86 result" where
  "print_int m =
     (if al16 (rsp m) then
        Inr (m\<lparr>out := out m @ [rdi m], rax := 0x6A2CFE91073BD845, rdi := 0x03BAD7C14F2E6589,
          rdx := 0xEC364B2D5A7F9810, r10 := 0x47DC36501F89AEB2, flags := None,
          mem := (\<lambda>a. if a < rsp m then scratch m a else mem m a)\<rparr>)
      else Inl Undefined)"

text \<open>\<open>idivq\<close>: \<open>%rdx:%rax\<close> by the operand, truncating; trap on 0 and on a quotient out of range.\<close>

definition idiv_by :: "u64 \<Rightarrow> x86 \<Rightarrow> x86 result" where
  "idiv_by b m =
     (let n = sint (rdx m) * 2 ^ 64 + uint (rax m);
          d = sint b;
          q = sgn n * sgn d * (\<bar>n\<bar> div \<bar>d\<bar>)
      in if d = 0 \<or> q < - (2 ^ 63) \<or> 2 ^ 63 \<le> q then Inl Arith_Trap
         else Inr (m\<lparr>rax := word_of_int q, rdx := word_of_int (n - q * d), flags := None\<rparr>))"

definition next_pc :: "x86 \<Rightarrow> x86" where
  "next_pc m = m\<lparr>pc := pc m + 1\<rparr>"

fun exec_instr :: "instr list \<Rightarrow> instr \<Rightarrow> x86 \<Rightarrow> x86 result" where
  "exec_instr P (Mov_imm_rdi v) m = Inr (next_pc (m\<lparr>rdi := v\<rparr>))"
| "exec_instr P Call_print_int m = ebind (print_int m) (\<lambda>m. Inr (next_pc m))"
| "exec_instr P Push_rdi m =
     ebind (store (rsp m - 8) (rdi m) m) (\<lambda>m. Inr (next_pc (m\<lparr>rsp := rsp m - 8\<rparr>)))"
| "exec_instr P Pop_r10 m =
     ebind (load m (rsp m)) (\<lambda>v. Inr (next_pc (m\<lparr>r10 := v, rsp := rsp m + 8\<rparr>)))"
| "exec_instr P Addq_r10_rdi m =
     Inr (next_pc (m\<lparr>rdi := rdi m + r10 m, flags := Some (add_flags (rdi m) (r10 m))\<rparr>))"
| "exec_instr P Subq_r10_rdi m =
     Inr (next_pc (m\<lparr>rdi := rdi m - r10 m, flags := Some (sub_flags (rdi m) (r10 m))\<rparr>))"
| "exec_instr P Imulq_r10_rdi m = Inr (next_pc (m\<lparr>rdi := rdi m * r10 m, flags := None\<rparr>))"
| "exec_instr P (Shl_rdi n) m = Inr (next_pc (m\<lparr>rdi := push_bit (n mod 64) (rdi m), flags := None\<rparr>))"
| "exec_instr P Movq_rdi_rax m = Inr (next_pc (m\<lparr>rax := rdi m\<rparr>))"
| "exec_instr P Cqto m = Inr (next_pc (m\<lparr>rdx := (if sint (rax m) < 0 then -1 else 0)\<rparr>))"
| "exec_instr P Idivq_r10 m = ebind (idiv_by (r10 m) m) (\<lambda>m. Inr (next_pc m))"
| "exec_instr P Movq_rax_rdi m = Inr (next_pc (m\<lparr>rdi := rax m\<rparr>))"
| "exec_instr P Cmp_r10_rdi m = Inr (next_pc (m\<lparr>flags := Some (sub_flags (rdi m) (r10 m))\<rparr>))"
| "exec_instr P (Load_rdi off) m =
     ebind (load m (rbp m + word_of_int off)) (\<lambda>v. Inr (next_pc (m\<lparr>rdi := v\<rparr>)))"
| "exec_instr P (Store_rdi off) m =
     ebind (store (rbp m + word_of_int off) (rdi m) m) (\<lambda>m. Inr (next_pc m))"
| "exec_instr P (Je l) m = jump_if (\<lambda>z s v. z) P l m"
| "exec_instr P (Jl l) m = jump_if (\<lambda>z s v. s \<noteq> v) P l m"
| "exec_instr P (Jg l) m = jump_if (\<lambda>z s v. \<not> z \<and> s = v) P l m"
| "exec_instr P (Jne l) m = jump_if (\<lambda>z s v. \<not> z) P l m"
| "exec_instr P (Jge l) m = jump_if (\<lambda>z s v. s = v) P l m"
| "exec_instr P (Jle l) m = jump_if (\<lambda>z s v. z \<or> s \<noteq> v) P l m"
| "exec_instr P (Jmp l) m = jump P l m"
| "exec_instr P (Label l) m = Inr (next_pc m)"
| "exec_instr P Push_rbp m =
     ebind (store (rsp m - 8) (rbp m) m) (\<lambda>m. Inr (next_pc (m\<lparr>rsp := rsp m - 8\<rparr>)))"
| "exec_instr P Movq_rsp_rbp m = Inr (next_pc (m\<lparr>rbp := rsp m\<rparr>))"
| "exec_instr P (Subq_rsp n) m =
     Inr (next_pc (m\<lparr>rsp := rsp m - of_nat n, flags := Some (sub_flags (rsp m) (of_nat n))\<rparr>))"
| "exec_instr P (Addq_rsp n) m =
     Inr (next_pc (m\<lparr>rsp := rsp m + of_nat n, flags := Some (add_flags (rsp m) (of_nat n))\<rparr>))"
| "exec_instr P Pop_rbp m =
     ebind (load m (rsp m)) (\<lambda>v. Inr (next_pc (m\<lparr>rbp := v, rsp := rsp m + 8\<rparr>)))"
| "exec_instr P Ret m = Inl (Exit_With 0)"

text \<open>\<open>Ret\<close> gives control back to the caller: the run of the program ends there.\<close>

definition x86_step :: "instr list \<Rightarrow> x86 \<Rightarrow> x86 result" where
  "x86_step P m = (if pc m < length P then exec_instr P (P ! pc m) m else Inl Bad_Access)"

interpretation x86: det_machine "x86_step P" for P .

abbreviation exec1 :: "instr list \<Rightarrow> x86 \<Rightarrow> x86 \<Rightarrow> bool" where "exec1 P \<equiv> x86.steps1 P"
abbreviation exec :: "instr list \<Rightarrow> x86 \<Rightarrow> x86 \<Rightarrow> bool" where "exec P \<equiv> (x86.steps1 P)\<^sup>*\<^sup>*"

text \<open>For evaluation: run until the step function stops, with fuel.\<close>

fun x86_run :: "nat \<Rightarrow> instr list \<Rightarrow> x86 \<Rightarrow> x86 option" where
  "x86_run 0 P m = None"
| "x86_run (Suc n) P m = (case x86_step P m of Inl _ \<Rightarrow> Some m | Inr m' \<Rightarrow> x86_run n P m')"

lemma x86_run_exec:
  "x86_run n P m = Some m' \<Longrightarrow> exec P m m' \<and> (\<exists>e. x86_step P m' = Inl e)"
proof (induction n P m rule: x86_run.induct)
  case (2 n P m)
  show ?case
  proof (cases "x86_step P m")
    case (Inr m1)
    with 2 have "exec P m1 m'" "\<exists>e. x86_step P m' = Inl e" by auto
    moreover have "exec1 P m m1" using Inr by (simp add: x86.steps1_def)
    ultimately show ?thesis by (meson converse_rtranclp_into_rtranclp)
  qed (use 2 in auto)
qed simp

section \<open>Code in place\<close>

definition code_at :: "instr list \<Rightarrow> nat \<Rightarrow> instr list \<Rightarrow> bool" where
  "code_at P i c = (i + length c \<le> length P \<and> take (length c) (drop i P) = c)"

lemma code_at_nil [simp]: "code_at P i [] \<longleftrightarrow> i \<le> length P"
  by (simp add: code_at_def)

lemma code_at_Cons [simp]:
  "code_at P i (x # c) \<longleftrightarrow> i < length P \<and> P ! i = x \<and> code_at P (Suc i) c"
  by (cases "i < length P") (auto simp: code_at_def Cons_nth_drop_Suc [symmetric])

lemma code_at_append [simp]:
  "code_at P i (c @ d) \<longleftrightarrow> code_at P i c \<and> code_at P (i + length c) d"
proof (induction c arbitrary: i)
  case Nil
  then show ?case by (auto simp: code_at_def)
next
  case (Cons x c)
  then show ?case by auto
qed

lemma code_at_whole [simp]: "code_at P 0 P"
  by (simp add: code_at_def)

definition labels :: "instr list \<Rightarrow> label list" where
  "labels P = concat (map (\<lambda>i. case i of Label l \<Rightarrow> [l] | _ \<Rightarrow> []) P)"

lemma labels_simps [simp]:
  "labels [] = []"
  "labels (c @ d) = labels c @ labels d"
  "labels (Label l # c) = l # labels c"
  by (simp_all add: labels_def)

lemma labels_other [simp]: "\<forall>l. i \<noteq> Label l \<Longrightarrow> labels (i # c) = labels c"
  by (cases i) (auto simp: labels_def)

lemma find_label_at:
  "distinct (labels P) \<Longrightarrow> i < length P \<Longrightarrow> P ! i = Label l \<Longrightarrow> find_label P l = Some i"
proof (induction P arbitrary: i)
  case (Cons x P)
  show ?case
  proof (cases i)
    case 0
    with Cons.prems show ?thesis by simp
  next
    case (Suc j)
    have "l \<in> set (labels P)"
      using Cons.prems Suc by (fastforce simp: labels_def in_set_conv_nth)
    then have "x \<noteq> Label l" using Cons.prems by auto
    moreover have "distinct (labels P)"
      using Cons.prems by (cases x) simp_all
    ultimately show ?thesis using Cons Suc by simp
  qed
qed simp

section \<open>Flags, division and shifts as arithmetic\<close>

lemma sint_range: "- (2 ^ 63) \<le> sint (a :: u64) \<and> sint a < 2 ^ 63"
  using sint_ge [of a] sint_less [of a] by simp

lemma sint_word_of_int_range:
  "- (2 ^ 63) \<le> i \<Longrightarrow> i < 2 ^ 63 \<Longrightarrow> sint (word_of_int i :: u64) = i"
  by (simp add: signed_of_int signed_take_bit_int_eq_self)

lemma sint_of_int_mod: "sint (word_of_int k :: u64) = (k + 2 ^ 63) mod 2 ^ 64 - 2 ^ 63"
  by (simp add: signed_of_int signed_take_bit_eq_take_bit_shift take_bit_eq_mod)

lemma wrap_cases:
  assumes "- (2 ^ 64) \<le> x" "x < 2 ^ 64"
  shows "(x + 2 ^ 63) mod 2 ^ 64 - 2 ^ 63 = x \<or> (x + 2 ^ 63) mod 2 ^ 64 - 2 ^ 63 = x - 2 ^ 64
    \<or> (x + 2 ^ 63) mod 2 ^ 64 - 2 ^ 63 = (x :: int) + 2 ^ 64"
proof -
  consider "x + 2 ^ 63 < 0" | "0 \<le> x + 2 ^ 63" "x + 2 ^ 63 < 2 ^ 64" | "2 ^ 64 \<le> x + 2 ^ 63"
    by linarith
  then show ?thesis
  proof cases
    case 1
    have "(x + 2 ^ 63) mod 2 ^ 64 = (x + 2 ^ 63 + 2 ^ 64) mod 2 ^ 64" by (rule mod_add_self2 [symmetric])
    also have "\<dots> = x + 2 ^ 63 + 2 ^ 64" using 1 assms by (intro mod_pos_pos_trivial) simp_all
    finally show ?thesis by simp
  next
    case 2
    then show ?thesis by (simp add: mod_pos_pos_trivial)
  next
    case 3
    have "(x + 2 ^ 63) mod 2 ^ 64 = (x + 2 ^ 63 - 2 ^ 64) mod 2 ^ 64" by (rule minus_mod_self2 [symmetric])
    also have "\<dots> = x + 2 ^ 63 - 2 ^ 64" using 3 assms by (intro mod_pos_pos_trivial) simp_all
    finally show ?thesis by simp
  qed
qed

lemma sub_less_flag:
  "(sint (a - b) < 0) \<noteq> (sint (a - b) \<noteq> sint a - sint b) \<longleftrightarrow> sint (a :: u64) < sint b"
proof -
  have mod: "sint (a - b) = sint a - sint b \<or> sint (a - b) = sint a - sint b - 2 ^ 64
      \<or> sint (a - b) = sint a - sint b + 2 ^ 64"
  proof -
    have "a - b = word_of_int (sint a - sint b)" by simp
    then have "sint (a - b) = sint (word_of_int (sint a - sint b) :: u64)" by (rule arg_cong)
    also have "\<dots> = (sint a - sint b + 2 ^ 63) mod 2 ^ 64 - 2 ^ 63" by (rule sint_of_int_mod)
    finally show ?thesis
      using wrap_cases [of "sint a - sint b"] sint_range [of a] sint_range [of b] by auto
  qed
  show ?thesis
    using mod sint_range [of a] sint_range [of b] sint_range [of "a - b"] by (elim disjE) auto
qed

lemma sint_eq_iff: "sint (a :: u64) = sint b \<longleftrightarrow> a = b"
  by (metis signed_word_eqI)

end
