(* ===== verification/BasicSem.thy ===== *)
theory BasicSem
  imports X86
begin

text \<open>
  What a TeenyBASIC program means, independently of the compiler: expressions over the 26 variables
  with wrapping 64-bit arithmetic and truncating division, and a big-step relation for statements
  whose outcome is a final state or an arithmetic trap.
\<close>

section \<open>Expressions\<close>

type_synonym store = "char \<Rightarrow> u64"

definition arith :: "char \<Rightarrow> u64 \<Rightarrow> u64 \<Rightarrow> u64 result" where
  "arith op a b =
     (if op = CHR ''+'' then Inr (a + b)
      else if op = CHR ''-'' then Inr (a - b)
      else if op = CHR ''*'' then Inr (a * b)
      else if op = CHR ''/'' then signed_div a b
      else Inl Undefined)"

fun eval :: "ast \<Rightarrow> store \<Rightarrow> u64 result" where
  "eval (NUM v) s = Inr v"
| "eval (VAR x) s = Inr (s x)"
| "eval (BINARY_OP op l r) s = ebind (eval r s) (\<lambda>b. ebind (eval l s) (\<lambda>a. arith op a b))"
| "eval _ s = Inl Undefined"

definition compare :: "char \<Rightarrow> u64 \<Rightarrow> u64 \<Rightarrow> bool" where
  "compare op a b =
     (if op = CHR ''='' then a = b
      else if op = CHR ''<'' then sint a < sint b
      else op = CHR ''>'' \<and> sint b < sint a)"

fun eval_cond :: "ast \<Rightarrow> store \<Rightarrow> bool result" where
  "eval_cond (BINARY_OP op l r) s = ebind (eval r s) (\<lambda>b. ebind (eval l s) (\<lambda>a. Inr (compare op a b)))"
| "eval_cond _ s = Inl Undefined"

lemma eval_errors: "wf_expr e \<Longrightarrow> eval e s = Inl err \<Longrightarrow> err = Arith_Trap"
  by (induction e arbitrary: err)
     (auto simp: ebind_eq_Inl arith_def arith_op_def signed_div_def split: if_splits)

lemma eval_cond_errors: "wf_cond c \<Longrightarrow> eval_cond c s = Inl err \<Longrightarrow> err = Arith_Trap"
  by (cases c) (auto simp: ebind_eq_Inl dest: eval_errors)

text \<open>Folding computes what evaluation would.\<close>

lemma fold_ast_eval:
  "wf_expr e \<Longrightarrow> fold_ast e = Inr ret \<Longrightarrow> is_constant ret \<Longrightarrow> eval e s = Inr (val ret)"
proof (induction e arbitrary: ret)
  case (BINARY_OP op l r)
  then obtain vl vr where
    fl: "fold_ast l = Inr vl" "is_constant vl" and fr: "fold_ast r = Inr vr" "is_constant vr"
    by (auto split: if_splits)
  with BINARY_OP have "eval l s = Inr (val vl)" "eval r s = Inr (val vr)" by auto
  then show ?case using BINARY_OP.prems fl fr
    by (auto simp: arith_def arith_op_def split: if_splits)
qed (auto simp: not_const_ret_def)

section \<open>Statements\<close>

record basic_state =
  vars :: store
  printed :: "u64 list"

datatype outcome = Done basic_state | Trapped basic_state

inductive big_step :: "ast \<Rightarrow> basic_state \<Rightarrow> outcome \<Rightarrow> bool" where
  Print: "eval e (vars s) = Inr v \<Longrightarrow> big_step (PRINT e) s (Done (s\<lparr>printed := printed s @ [v]\<rparr>))"
| Print_trap: "eval e (vars s) = Inl err \<Longrightarrow> big_step (PRINT e) s (Trapped s)"
| Let: "eval e (vars s) = Inr v \<Longrightarrow> big_step (LET x e) s (Done (s\<lparr>vars := (vars s)(x := v)\<rparr>))"
| Let_trap: "eval e (vars s) = Inl err \<Longrightarrow> big_step (LET x e) s (Trapped s)"
| Seq_nil: "big_step (SEQUENCE []) s (Done s)"
| Seq_cons: "big_step n s (Done t) \<Longrightarrow> big_step (SEQUENCE ns) t r \<Longrightarrow> big_step (SEQUENCE (n # ns)) s r"
| Seq_trap: "big_step n s (Trapped t) \<Longrightarrow> big_step (SEQUENCE (n # ns)) s (Trapped t)"
| If_trap: "eval_cond c (vars s) = Inl err \<Longrightarrow> big_step (IF c thn els) s (Trapped s)"
| If_true: "eval_cond c (vars s) = Inr True \<Longrightarrow> big_step thn s r \<Longrightarrow> big_step (IF c thn els) s r"
| If_none: "eval_cond c (vars s) = Inr False \<Longrightarrow> big_step (IF c thn None) s (Done s)"
| If_false: "eval_cond c (vars s) = Inr False \<Longrightarrow> big_step e s r \<Longrightarrow> big_step (IF c thn (Some e)) s r"
| While_trap: "eval_cond c (vars s) = Inl err \<Longrightarrow> big_step (WHILE c b) s (Trapped s)"
| While_false: "eval_cond c (vars s) = Inr False \<Longrightarrow> big_step (WHILE c b) s (Done s)"
| While_true: "eval_cond c (vars s) = Inr True \<Longrightarrow> big_step b s (Done t) \<Longrightarrow>
    big_step (WHILE c b) t r \<Longrightarrow> big_step (WHILE c b) s r"
| While_body: "eval_cond c (vars s) = Inr True \<Longrightarrow> big_step b s (Trapped t) \<Longrightarrow>
    big_step (WHILE c b) s (Trapped t)"

inductive_cases big_step_PrintE: "big_step (PRINT e) s r"
inductive_cases big_step_LetE: "big_step (LET x e) s r"
inductive_cases big_step_NilE: "big_step (SEQUENCE []) s r"
inductive_cases big_step_ConsE: "big_step (SEQUENCE (n # ns)) s r"
inductive_cases big_step_IfE: "big_step (IF c thn els) s r"
inductive_cases big_step_WhileE: "big_step (WHILE c b) s r"

lemmas big_step_elims = big_step_PrintE big_step_LetE big_step_NilE big_step_ConsE big_step_IfE
  big_step_WhileE

lemma big_step_deterministic: "big_step n s r \<Longrightarrow> big_step n s r' \<Longrightarrow> r = r'"
proof (induction arbitrary: r' rule: big_step.induct)
  case (Print e s v)
  from Print.prems Print.hyps show ?case by (cases rule: big_step_PrintE) auto
next
  case (Print_trap e s err)
  from Print_trap.prems Print_trap.hyps show ?case by (cases rule: big_step_PrintE) auto
next
  case (Let e s v x)
  from Let.prems Let.hyps show ?case by (cases rule: big_step_LetE) auto
next
  case (Let_trap e s err x)
  from Let_trap.prems Let_trap.hyps show ?case by (cases rule: big_step_LetE) auto
next
  case (Seq_nil s)
  from Seq_nil.prems show ?case by (cases rule: big_step_NilE) auto
next
  case (Seq_cons n s t ns r)
  from Seq_cons.prems show ?case
    by (cases rule: big_step_ConsE) (use Seq_cons.IH in blast)+
next
  case (Seq_trap n s t ns)
  from Seq_trap.prems show ?case
    by (cases rule: big_step_ConsE) (use Seq_trap.IH in blast)+
next
  case (If_trap c s err thn els)
  from If_trap.prems If_trap.hyps show ?case by (cases rule: big_step_IfE) auto
next
  case (If_true c s thn r els)
  from If_true.prems show ?case
    by (cases rule: big_step_IfE) (use If_true.hyps(1) in \<open>auto intro: If_true.IH\<close>)
next
  case (If_none c s thn)
  from If_none.prems If_none.hyps show ?case by (cases rule: big_step_IfE) auto
next
  case (If_false c s e r thn)
  from If_false.prems show ?case
    by (cases rule: big_step_IfE) (use If_false.hyps(1) in \<open>auto intro: If_false.IH\<close>)
next
  case (While_trap c s err b)
  from While_trap.prems While_trap.hyps show ?case by (cases rule: big_step_WhileE) auto
next
  case (While_false c s b)
  from While_false.prems While_false.hyps show ?case by (cases rule: big_step_WhileE) auto
next
  case (While_true c s b t r)
  have same: "r = r'" if "big_step b s (Done t')" "big_step (WHILE c b) t' r'" for t'
    using While_true.IH(1) [OF that(1)] While_true.IH(2) that(2) by simp
  have diff: False if "big_step b s (Trapped t')" for t'
    using While_true.IH(1) [OF that] by simp
  from While_true.prems show ?case
    by (rule big_step_WhileE)
       (use While_true.hyps(1) in simp, use While_true.hyps(1) in simp, blast intro: same, blast dest: diff)
next
  case (While_body c s b t)
  have same: "t = t'" if "big_step b s (Trapped t')" for t'
    using While_body.IH [OF that] by simp
  have diff: False if "big_step b s (Done t')" for t'
    using While_body.IH [OF that] by simp
  from While_body.prems show ?case
    by (rule big_step_WhileE)
       (use While_body.hyps(1) in simp, use While_body.hyps(1) in simp, blast dest: diff, blast intro: same)
qed

section \<open>Labels\<close>

text \<open>The labels a piece of code defines have numbers between the counters before and after it.\<close>

fun label_in :: "ids \<Rightarrow> ids \<Rightarrow> label \<Rightarrow> bool" where
  "label_in (i, w) (i', w') (L_IF n) = (i \<le> n \<and> n < i')"
| "label_in (i, w) (i', w') (L_ENDIF n) = (i \<le> n \<and> n < i')"
| "label_in (i, w) (i', w') (L_WHILE n) = (w \<le> n \<and> n < w')"
| "label_in (i, w) (i', w') (L_ENDWHILE n) = (w \<le> n \<and> n < w')"

definition labels_fresh :: "ids \<Rightarrow> instr list \<Rightarrow> ids \<Rightarrow> bool" where
  "labels_fresh ids c ids' = (distinct (labels c) \<and> (\<forall>l \<in> set (labels c). label_in ids ids' l) \<and>
     fst ids \<le> fst ids' \<and> snd ids \<le> snd ids')"

lemma label_in_widen:
  "label_in a b l \<Longrightarrow> fst a' \<le> fst a \<Longrightarrow> snd a' \<le> snd a \<Longrightarrow> fst b \<le> fst b' \<Longrightarrow> snd b \<le> snd b' \<Longrightarrow>
   label_in a' b' l"
  by (cases l; cases a; cases b; cases a'; cases b') auto

lemma label_in_disjoint: "label_in a b l \<Longrightarrow> label_in b c l \<Longrightarrow> False"
  by (cases l; cases a; cases b; cases c) auto

lemma labels_fresh_append:
  assumes "labels_fresh a c b" "labels_fresh b d e"
  shows "labels_fresh a (c @ d) e"
proof -
  have "label_in a e l" if "l \<in> set (labels (c @ d))" for l
    using that assms by (auto simp: labels_fresh_def intro: label_in_widen)
  moreover have "set (labels c) \<inter> set (labels d) = {}"
    using assms label_in_disjoint [of a b _ e] by (auto simp: labels_fresh_def disjoint_iff)
  ultimately show ?thesis using assms by (simp add: labels_fresh_def)
qed

lemma labels_fresh_nil: "labels c = [] \<Longrightarrow> labels_fresh ids c ids"
  by (simp add: labels_fresh_def)

lemma labels_straight [simp]:
  "labels (op_code op r) = []" "labels (if_jump op n) = []" "labels (while_jump op n) = []"
  by (auto simp: op_code_def if_jump_def while_jump_def labels_def Let_def split: ast.splits)

lemma labels_single [simp]:
  "labels [Mov_imm_rdi v] = []" "labels (Push_rdi # c) = labels c" "labels (Pop_r10 # c) = labels c"
  "labels (Call_print_int # c) = labels c" "labels (Store_rdi off # c) = labels c"
  "labels (Load_rdi off # c) = labels c" "labels (Jmp l # c) = labels c"
  by (simp_all add: labels_def)

end
