(* ===== verification/BasicCorrect.thy ===== *)
theory BasicCorrect
  imports BasicSem
begin

text \<open>
  The correctness of the TeenyBASIC compiler: the labels of a program are distinct, the code of an
  expression leaves its value in \<open>%rdi\<close> and touches nothing above the stack pointer, the code of a
  statement simulates the statement, and a whole program keeps the calling convention that
  \<open>project02b-wduan/runtime/call_check.s\<close> checks.
\<close>

section \<open>Shapes of compiled code\<close>

lemma compile_binary_cases:
  assumes "compile_ast (BINARY_OP op l r) ids = Inr (c, ids')"
  obtains (folded) ret where "fold_ast (BINARY_OP op l r) = Inr ret" "is_constant ret"
      "c = [Mov_imm_rdi (val ret)]" "ids' = ids"
  | (code) ret cr ids1 cl where "fold_ast (BINARY_OP op l r) = Inr ret" "\<not> is_constant ret"
      "compile_ast r ids = Inr (cr, ids1)"
      "compile_ast l ids1 = Inr (cl, ids')" "c = cr @ [Push_rdi] @ cl @ [Pop_r10] @ op_code op r"
proof -
  obtain ret where ret: "fold_ast (BINARY_OP op l r) = Inr ret"
    using assms by (subst (asm) compile_ast.simps) (auto simp del: fold_ast.simps)
  show thesis
  proof (cases "is_constant ret")
    case True
    with assms compile_const [OF ret True, of ids] have "c = [Mov_imm_rdi (val ret)]" "ids' = ids"
      by (simp_all del: fold_ast.simps)
    with ret True show ?thesis by (intro folded)
  next
    case False
    from assms ret False obtain cr ids1 cl where "compile_ast r ids = Inr (cr, ids1)"
      "compile_ast l ids1 = Inr (cl, ids')" "c = cr @ [Push_rdi] @ cl @ [Pop_r10] @ op_code op r"
      by (auto simp del: fold_ast.simps simp: compile_ast.simps [of "BINARY_OP op l r"])
    with ret False show ?thesis by (rule code)
  qed
qed

lemma labels_fresh_if:
  assumes "labels_fresh (i + 1, w) (c @ d) (a, b)"
  shows "labels_fresh (i, w) (if_jump op i @ c @ [Jmp (L_ENDIF i), Label (L_IF i)] @ d
           @ [Jmp (L_ENDIF i), Label (L_ENDIF i)]) (a, b)"
proof -
  have in1: "label_in (i + 1, w) (a, b) l" if "l \<in> set (labels c) \<union> set (labels d)" for l
    using assms that by (auto simp: labels_fresh_def)
  have "L_IF i \<notin> set (labels c) \<union> set (labels d)" "L_ENDIF i \<notin> set (labels c) \<union> set (labels d)"
    using in1 by fastforce+
  moreover have "label_in (i, w) (a, b) l" if "l \<in> set (labels c) \<union> set (labels d)" for l
    by (rule label_in_widen [OF in1 [OF that]]) simp_all
  ultimately show ?thesis using assms by (auto simp: labels_fresh_def)
qed

lemma labels_fresh_while:
  assumes "labels_fresh (i, w + 1) (c @ d) (a, b)"
  shows "labels_fresh (i, w) ([Label (L_WHILE w)] @ c @ while_jump op w @ d
           @ [Jmp (L_WHILE w), Label (L_ENDWHILE w)]) (a, b)"
proof -
  have in1: "label_in (i, w + 1) (a, b) l" if "l \<in> set (labels c) \<union> set (labels d)" for l
    using assms that by (auto simp: labels_fresh_def)
  have "L_WHILE w \<notin> set (labels c) \<union> set (labels d)" "L_ENDWHILE w \<notin> set (labels c) \<union> set (labels d)"
    using in1 by fastforce+
  moreover have "label_in (i, w) (a, b) l" if "l \<in> set (labels c) \<union> set (labels d)" for l
    by (rule label_in_widen [OF in1 [OF that]]) simp_all
  ultimately show ?thesis using assms by (auto simp: labels_fresh_def)
qed

lemma compile_labels:
  "compile_ast n ids = Inr (c, ids') \<Longrightarrow> labels_fresh ids c ids'"
proof (induction n arbitrary: ids c ids')
  case (BINARY_OP op l r)
  from BINARY_OP.prems show ?case
  proof (cases rule: compile_binary_cases)
    case (folded ret)
    then show ?thesis by (simp add: labels_fresh_nil)
  next
    case (code ret cr ids1 cl)
    have "labels_fresh ids1 ([Push_rdi] @ cl @ [Pop_r10] @ op_code op r) ids'"
      using BINARY_OP.IH(1) [OF code(4)] by (simp add: labels_fresh_def)
    then show ?thesis
      using BINARY_OP.IH(2) [OF code(3)] code(5) labels_fresh_append by blast
  qed
next
  case (SEQUENCE ss)
  have "compile_seq ss ids = Inr (c, ids') \<Longrightarrow> (\<And>s. s \<in> set ss \<Longrightarrow>
      \<forall>ids c ids'. compile_ast s ids = Inr (c, ids') \<longrightarrow> labels_fresh ids c ids') \<Longrightarrow> labels_fresh ids c ids'"
  proof (induction ss arbitrary: ids c)
    case Nil
    then show ?case by (simp add: labels_fresh_nil)
  next
    case (Cons s ss)
    then obtain c1 ids1 c2 where "compile_ast s ids = Inr (c1, ids1)" "compile_seq ss ids1 = Inr (c2, ids')"
      "c = c1 @ c2" by auto
    moreover have "labels_fresh ids1 c2 ids'"
      by (rule Cons.IH [OF \<open>compile_seq ss ids1 = Inr (c2, ids')\<close>]) (use Cons.prems(2) [OF list.set_intros(2)] in blast)
    moreover have "labels_fresh ids c1 ids1"
      using Cons.prems(2) [OF list.set_intros(1)] \<open>compile_ast s ids = Inr (c1, ids1)\<close> by blast
    ultimately show ?case using labels_fresh_append by blast
  qed
  with SEQUENCE show ?case by simp
next
  case (PRINT e)
  then obtain ce where ce: "compile_ast e ids = Inr (ce, ids')" "c = ce @ [Call_print_int]" by auto
  with PRINT.IH [OF ce(1)] show ?case by (simp add: labels_fresh_def)
next
  case (LET x e)
  then obtain ce where ce: "compile_ast e ids = Inr (ce, ids')" "c = ce @ [Store_rdi (var_offset x)]" by auto
  with LET.IH [OF ce(1)] show ?case by (simp add: labels_fresh_def)
next
  case (IF cond thn els)
  then obtain cc i w op ce ids2 ct where
    cc: "compile_ast cond ids = Inr (cc, (i, w))" and
    ce: "(case els of None \<Rightarrow> Inr ([], (i + 1, w)) | Some e \<Rightarrow> compile_ast e (i + 1, w)) = Inr (ce, ids2)" and
    ct: "compile_ast thn ids2 = Inr (ct, ids')" and
    c: "c = cc @ if_jump op i @ ce @ [Jmp (L_ENDIF i), Label (L_IF i)] @ ct
              @ [Jmp (L_ENDIF i), Label (L_ENDIF i)]"
    by auto
  have "labels_fresh ids cc (i, w)" by (rule IF.IH(1) [OF cc])
  have e: "labels_fresh (i + 1, w) ce ids2"
    using ce IF.IH(3) by (cases els) (auto simp: labels_fresh_nil)
  have t: "labels_fresh ids2 ct ids'" by (rule IF.IH(2) [OF ct])
  have "labels_fresh (i + 1, w) (ce @ ct) ids'" by (rule labels_fresh_append [OF e t])
  then have "labels_fresh (i, w) (if_jump op i @ ce @ [Jmp (L_ENDIF i), Label (L_IF i)] @ ct
              @ [Jmp (L_ENDIF i), Label (L_ENDIF i)]) ids'"
    by (cases ids') (metis labels_fresh_if)
  with \<open>labels_fresh ids cc (i, w)\<close> show ?case unfolding c by (rule labels_fresh_append)
next
  case (WHILE cond body)
  obtain i w where ids: "ids = (i, w)" by (cases ids)
  from WHILE.prems obtain cc ids1 op cb where
    cc: "compile_ast cond (i, w + 1) = Inr (cc, ids1)" and
    cb: "compile_ast body ids1 = Inr (cb, ids')" and
    c: "c = [Label (L_WHILE w)] @ cc @ while_jump op w @ cb @ [Jmp (L_WHILE w), Label (L_ENDWHILE w)]"
    unfolding ids by auto
  have "labels_fresh (i, w + 1) (cc @ cb) ids'"
    by (rule labels_fresh_append [OF WHILE.IH(1) [OF cc] WHILE.IH(2) [OF cb]])
  then show ?case unfolding c ids
    by (cases ids') (metis labels_fresh_while)
qed (auto simp: labels_fresh_nil labels_def labels_fresh_def)

section \<open>Single steps\<close>

lemma exec_step:
  "pc m < length P \<Longrightarrow> exec_instr P (P ! pc m) m = Inr m' \<Longrightarrow> exec P m' m'' \<Longrightarrow> exec P m m''"
  by (rule converse_rtranclp_into_rtranclp) (simp_all add: x86.steps1_def x86_step_def)

lemma exec_trans: "exec P m m' \<Longrightarrow> exec P m' m'' \<Longrightarrow> exec P m m''"
  by (rule rtranclp_trans)

lemma al8_minus: "al8 a \<Longrightarrow> al8 (a - 8)"
proof -
  assume "al8 a"
  then have "(uint a - 8) mod 2 ^ 64 mod 8 = 0" by (simp add: al8_def mod_mod_cancel)
  then show ?thesis by (simp add: al8_def uint_word_ariths)
qed

lemma al16_al8: "al16 a \<Longrightarrow> al8 a"
  unfolding al16_def al8_def by presburger

lemma idiv_cqto:
  assumes "rax m = a" "rdx m = (if sint a < 0 then -1 else 0)"
  shows "idiv_by b m = (case signed_div a b of Inl e \<Rightarrow> Inl e
     | Inr q \<Rightarrow> Inr (m\<lparr>rax := q, rdx := word_of_int (sint a - sgn (sint a) * sgn (sint b) * (\<bar>sint a\<bar> div \<bar>sint b\<bar>) * sint b),
          flags := None\<rparr>))"
proof -
  have ua: "uint a = (if sint a < 0 then sint a + 2 ^ 64 else sint a)"
  proof -
    have "uint a = sint a mod 2 ^ 64" by (simp add: uint_sint take_bit_eq_mod)
    moreover have "sint a mod 2 ^ 64 = sint a + 2 ^ 64" if "sint a < 0"
    proof -
      have "sint a mod 2 ^ 64 = (sint a + 2 ^ 64) mod 2 ^ 64" by (rule mod_add_self2 [symmetric])
      also have "\<dots> = sint a + 2 ^ 64" using that sint_range [of a] by (intro mod_pos_pos_trivial) simp_all
      finally show ?thesis .
    qed
    moreover have "sint a mod 2 ^ 64 = sint a" if "\<not> sint a < 0"
      using that sint_range [of a] by (intro mod_pos_pos_trivial) simp_all
    ultimately show ?thesis by simp
  qed
  have n: "sint (rdx m) * 2 ^ 64 + uint (rax m) = sint a" using assms ua by simp
  let ?q = "sgn (sint a) * sgn (sint b) * (\<bar>sint a\<bar> div \<bar>sint b\<bar>)"
  have range: "?q < - (2 ^ 63) \<or> 2 ^ 63 \<le> ?q \<longleftrightarrow> sint a = - (2 ^ 63) \<and> sint b = -1" if "sint b \<noteq> 0"
  proof
    assume "?q < - (2 ^ 63) \<or> 2 ^ 63 \<le> ?q"
    moreover have le: "\<bar>sint a\<bar> div \<bar>sint b\<bar> \<le> \<bar>sint a\<bar>"
      using zdiv_mono2 [of "\<bar>sint a\<bar>" 1 "\<bar>sint b\<bar>"] that by simp
    moreover have "0 \<le> \<bar>sint a\<bar> div \<bar>sint b\<bar>" using that by (simp add: pos_imp_zdiv_nonneg_iff)
    ultimately have big: "2 ^ 63 \<le> \<bar>sint a\<bar> div \<bar>sint b\<bar>" "0 < sgn (sint a) * sgn (sint b)"
      using sint_range [of a] by (auto simp: sgn_if split: if_splits)
    then have a: "sint a = - (2 ^ 63)" using le sint_range [of a] by auto
    have "\<bar>sint b\<bar> = 1"
    proof (rule ccontr)
      assume "\<bar>sint b\<bar> \<noteq> 1"
      then have "2 \<le> \<bar>sint b\<bar>" using that by linarith
      then have "\<bar>sint a\<bar> div \<bar>sint b\<bar> \<le> \<bar>sint a\<bar> div 2" by (intro zdiv_mono2) simp_all
      with big a show False by simp
    qed
    with a big(2) show "sint a = - (2 ^ 63) \<and> sint b = -1" by (auto simp: sgn_if split: if_splits)
  qed simp
  have "sint b = 0 \<longleftrightarrow> b = 0" using sint_eq_iff [of b 0] by simp
  then have trap: "(sint b = 0 \<or> ?q < - (2 ^ 63) \<or> 2 ^ 63 \<le> ?q) \<longleftrightarrow> b = 0 \<or> (sint a = - (2 ^ 63) \<and> sint b = -1)"
    using range by blast
  show ?thesis unfolding idiv_by_def n Let_def signed_div_def trap
    by (cases "b = 0 \<or> (sint a = - (2 ^ 63) \<and> sint b = -1)") (simp_all only: if_True if_False sum.case)
qed

section \<open>Expressions\<close>

text \<open>The number of stack slots an expression's code pushes at most.\<close>

fun need :: "ast \<Rightarrow> nat" where
  "need (BINARY_OP op l r) = max (need r) (Suc (need l))"
| "need _ = 0"

definition va :: "x86 \<Rightarrow> char \<Rightarrow> u64" where
  "va m x = rbp m + word_of_int (var_offset x)"

text \<open>The variables lie in their slots, the slots above the stack pointer.\<close>

definition vars_at :: "store \<Rightarrow> x86 \<Rightarrow> bool" where
  "vars_at s m = (\<forall>x. var_name x \<longrightarrow> mem m (va m x) = s x \<and> rsp m \<le> va m x \<and> al8 (va m x))"

definition same_frame :: "x86 \<Rightarrow> x86 \<Rightarrow> bool" where
  "same_frame m m' = (rsp m' = rsp m \<and> rbp m' = rbp m \<and> out m' = out m \<and> scratch m' = scratch m \<and>
     (\<forall>a. rsp m \<le> a \<longrightarrow> mem m' a = mem m a))"

definition room :: "store \<Rightarrow> nat \<Rightarrow> x86 \<Rightarrow> bool" where
  "room s k m = (vars_at s m \<and> al8 (rsp m) \<and> 8 * k \<le> unat (rsp m))"

definition computes :: "instr list \<Rightarrow> x86 \<Rightarrow> nat \<Rightarrow> u64 \<Rightarrow> bool" where
  "computes P m n v = (\<exists>m'. exec P m m' \<and> pc m' = pc m + n \<and> rdi m' = v \<and> same_frame m m')"

definition traps :: "instr list \<Rightarrow> x86 \<Rightarrow> bool" where
  "traps P m = (\<exists>m'. exec P m m' \<and> x86_step P m' = Inl Arith_Trap \<and> out m' = out m)"

definition expr_spec :: "instr list \<Rightarrow> store \<Rightarrow> ast \<Rightarrow> instr list \<Rightarrow> bool" where
  "expr_spec P s e c = (\<forall>m. code_at P (pc m) c \<longrightarrow> room s (need e) m \<longrightarrow>
     (case eval e s of Inr v \<Rightarrow> computes P m (length c) v | Inl _ \<Rightarrow> traps P m))"

lemma same_frame_trans: "same_frame a b \<Longrightarrow> same_frame b c \<Longrightarrow> same_frame a c"
  by (simp add: same_frame_def)

lemma room_frame: "room s k m \<Longrightarrow> same_frame m m' \<Longrightarrow> room s k m'"
  by (simp add: room_def same_frame_def vars_at_def va_def)

lemma room_le: "room s k m \<Longrightarrow> j \<le> k \<Longrightarrow> room s j m"
  by (simp add: room_def)

lemma traps_step: "exec P m m' \<Longrightarrow> traps P m' \<Longrightarrow> out m' = out m \<Longrightarrow> traps P m"
  unfolding traps_def by (metis exec_trans)

lemma exec_1: "pc m < length P \<Longrightarrow> exec_instr P (P ! pc m) m = Inr m' \<Longrightarrow> exec P m m'"
  by (rule exec_step) (assumption, assumption, rule rtranclp.rtrancl_refl)

lemma push_slot:
  assumes "8 * Suc k \<le> unat r"
  shows "8 * k \<le> unat (r - 8 :: u64)" "r - 8 < r"
proof -
  have "8 \<le> r" using assms by (simp add: word_le_nat_alt)
  then show "r - 8 < r" "8 * k \<le> unat (r - 8)"
    using assms by (simp_all add: word_less_nat_alt unat_sub)
qed

lemma room_push:
  assumes "room s (Suc k) m"
  shows "room s k (next_pc (m\<lparr>mem := (mem m)(rsp m - 8 := v), rsp := rsp m - 8\<rparr>))"
proof -
  have r: "8 * k \<le> unat (rsp m - 8)" "rsp m - 8 < rsp m"
    using push_slot [of k "rsp m"] assms by (simp_all add: room_def)
  then have "x \<noteq> rsp m - 8 \<and> rsp m - 8 \<le> x" if "rsp m \<le> x" for x using that by auto
  then show ?thesis
    using assms r(1) al8_minus by (simp add: room_def vars_at_def next_pc_def va_def)
qed

lemma operands:
  assumes r: "expr_spec P s r cr" and l: "expr_spec P s l cl"
    and code: "code_at P (pc m) (cr @ [Push_rdi] @ cl @ [Pop_r10])"
    and room: "room s (max (need r) (Suc (need l))) m"
  shows "case ebind (eval r s) (\<lambda>b. ebind (eval l s) (\<lambda>a. Inr (a, b))) of
      Inr (a, b) \<Rightarrow> \<exists>m'. exec P m m' \<and> pc m' = pc m + length (cr @ [Push_rdi] @ cl @ [Pop_r10]) \<and>
        rdi m' = a \<and> r10 m' = b \<and> same_frame m m'
    | Inl _ \<Rightarrow> traps P m"
proof (cases "eval r s")
  case (Inl err)
  then show ?thesis
    using r code room_le [OF room, of "need r"] by (simp add: expr_spec_def)
next
  case (Inr b)
  then obtain m1 where m1: "exec P m m1" "pc m1 = pc m + length cr" "rdi m1 = b" "same_frame m m1"
    using r code room_le [OF room, of "need r"] by (auto simp: expr_spec_def computes_def)
  let ?m2 = "next_pc (m1\<lparr>mem := (mem m1)(rsp m1 - 8 := b), rsp := rsp m1 - 8\<rparr>)"
  have room1: "room s (Suc (need l)) m1" using room_frame [OF room_le [OF room] m1(4)] by simp
  have al: "al8 (rsp m1 - 8)" "rsp m1 - 8 < rsp m1"
    using room1 al8_minus push_slot(2) by (auto simp: room_def)
  have "exec P m1 ?m2"
    by (rule exec_1) (use code m1 al in \<open>simp_all add: store_def\<close>)
  with m1 have m2: "exec P m ?m2" by (blast intro: exec_trans)
  have room2: "room s (need l) ?m2" by (rule room_push [OF room1])
  have code2: "code_at P (pc ?m2) cl" using code m1(2) by (simp add: next_pc_def)
  show ?thesis
  proof (cases "eval l s")
    case (Inl err)
    then have "traps P ?m2" using l room2 code2 by (simp add: expr_spec_def)
    moreover have "out ?m2 = out m" using m1(4) by (simp add: same_frame_def next_pc_def)
    ultimately have "traps P m" using traps_step [OF m2] by blast
    with Inl Inr show ?thesis by simp
  next
    case a: (Inr a)
    then obtain m3 where m3: "exec P ?m2 m3" "pc m3 = pc ?m2 + length cl" "rdi m3 = a" "same_frame ?m2 m3"
      using l room2 code2 by (auto simp: expr_spec_def computes_def)
    let ?m4 = "next_pc (m3\<lparr>r10 := mem m3 (rsp m3), rsp := rsp m3 + 8\<rparr>)"
    have sp: "rsp m3 = rsp m1 - 8" "mem m3 (rsp m3) = b"
      using m3(4) by (simp_all add: same_frame_def next_pc_def)
    have "exec P m3 ?m4"
      by (rule exec_1) (use code m1(2) m3(2) sp(1) al(1) in \<open>simp_all add: load_def next_pc_def\<close>)
    with m2 m3(1) have "exec P m ?m4" by (blast intro: exec_trans)
    moreover have "same_frame m1 ?m4"
      using m3(4) sp(1) al(2) by (auto simp: same_frame_def next_pc_def)
    then have "same_frame m ?m4" using m1(4) same_frame_trans by blast
    ultimately have "exec P m ?m4 \<and> pc ?m4 = pc m + length (cr @ [Push_rdi] @ cl @ [Pop_r10]) \<and>
        rdi ?m4 = a \<and> r10 ?m4 = b \<and> same_frame m ?m4"
      using m1(2) m3 sp(2) by (simp add: next_pc_def)
    with a Inr show ?thesis by auto
  qed
qed

lemma op_code_correct:
  assumes op: "arith_op op" and code: "code_at P (pc m) (op_code op r)"
    and right: "\<And>v. r = NUM v \<Longrightarrow> r10 m = v"
  shows "case arith op (rdi m) (r10 m) of
      Inr v \<Rightarrow> \<exists>m'. exec P m m' \<and> pc m' = pc m + length (op_code op r) \<and> rdi m' = v \<and> same_frame m m'
    | Inl _ \<Rightarrow> traps P m"
proof -
  consider "op = CHR ''+''" | "op = CHR ''-''" | "op = CHR ''*''" | "op = CHR ''/''"
    using op by (auto simp: arith_op_def)
  then show ?thesis
  proof cases
    case 1
    let ?m = "next_pc (m\<lparr>rdi := rdi m + r10 m, flags := Some (add_flags (rdi m) (r10 m))\<rparr>)"
    have "exec P m ?m" by (rule exec_1) (use code 1 in \<open>simp_all add: op_code_def\<close>)
    then show ?thesis using 1
      by (auto simp: arith_def op_code_def next_pc_def same_frame_def intro!: exI [of _ ?m])
  next
    case 2
    let ?m = "next_pc (m\<lparr>rdi := rdi m - r10 m, flags := Some (sub_flags (rdi m) (r10 m))\<rparr>)"
    have "exec P m ?m" by (rule exec_1) (use code 2 in \<open>simp_all add: op_code_def\<close>)
    then show ?thesis using 2
      by (auto simp: arith_def op_code_def next_pc_def same_frame_def intro!: exI [of _ ?m])
  next
    case 3
    have "\<exists>i. op_code op r = [i] \<and> exec_instr P i m = Inr (next_pc (m\<lparr>rdi := rdi m * r10 m, flags := None\<rparr>))"
    proof (cases "\<exists>v. r = NUM v \<and> is_power_of_two v \<noteq> 0")
      case True
      then obtain v where v: "r = NUM v" "is_power_of_two v \<noteq> 0" by blast
      have "push_bit (is_power_of_two v mod 64) (rdi m) = rdi m * v"
        using is_power_of_two_correct [OF v(2)] by (simp add: push_bit_eq_mult)
      with v right [OF v(1)] 3 show ?thesis by (simp add: op_code_def)
    next
      case False
      then have "op_code op r = [Imulq_r10_rdi]" using 3 by (auto simp: op_code_def split: ast.splits)
      then show ?thesis by simp
    qed
    then obtain i where i: "op_code op r = [i]"
      "exec_instr P i m = Inr (next_pc (m\<lparr>rdi := rdi m * r10 m, flags := None\<rparr>))" by blast
    have "exec P m (next_pc (m\<lparr>rdi := rdi m * r10 m, flags := None\<rparr>))"
      by (rule exec_1) (use code i in simp_all)
    with 3 i(1) show ?thesis
      by (auto simp: arith_def next_pc_def same_frame_def intro!: exI [of _ "next_pc (m\<lparr>rdi := rdi m * r10 m, flags := None\<rparr>)"])
  next
    case 4
    let ?m1 = "next_pc (m\<lparr>rax := rdi m\<rparr>)"
    let ?m2 = "next_pc (?m1\<lparr>rdx := (if sint (rdi m) < 0 then -1 else 0)\<rparr>)"
    have code': "code_at P (pc m) [Movq_rdi_rax, Cqto, Idivq_r10, Movq_rax_rdi]"
      using code 4 by (simp add: op_code_def)
    have "exec P m ?m1" by (rule exec_1) (use code' in simp_all)
    moreover have "exec P ?m1 ?m2" by (rule exec_1) (use code' in \<open>simp_all add: next_pc_def\<close>)
    ultimately have m2: "exec P m ?m2" by (rule exec_trans)
    have pc2: "pc ?m2 = pc m + 2" and same2: "out ?m2 = out m" by (simp_all add: next_pc_def)
    have div: "idiv_by (r10 m) ?m2 = (case signed_div (rdi m) (r10 m) of Inl e \<Rightarrow> Inl e
        | Inr q \<Rightarrow> Inr (?m2\<lparr>rax := q, rdx := word_of_int (sint (rdi m) - sgn (sint (rdi m)) * sgn (sint (r10 m))
            * (\<bar>sint (rdi m)\<bar> div \<bar>sint (r10 m)\<bar>) * sint (r10 m)), flags := None\<rparr>))"
      by (rule idiv_cqto) (simp_all add: next_pc_def)
    have r10: "r10 ?m2 = r10 m" by (simp add: next_pc_def)
    show ?thesis
    proof (cases "signed_div (rdi m) (r10 m)")
      case (Inl e)
      then have e: "e = Arith_Trap" by (auto simp: signed_div_def Let_def split: if_splits)
      have "x86_step P ?m2 = Inl Arith_Trap"
        using code' pc2 div Inl e r10 by (simp add: x86_step_def numeral_2_eq_2)
      then have "traps P m" using m2 same2 unfolding traps_def by blast
      with 4 Inl show ?thesis by (simp add: arith_def)
    next
      case (Inr q)
      with div obtain d where d: "idiv_by (r10 m) ?m2 = Inr (?m2\<lparr>rax := q, rdx := d, flags := None\<rparr>)"
        by simp
      let ?m3 = "next_pc (?m2\<lparr>rax := q, rdx := d, flags := None\<rparr>)"
      let ?m4 = "next_pc (?m3\<lparr>rdi := q\<rparr>)"
      have "exec P ?m2 ?m3"
        by (rule exec_1) (use code' pc2 d r10 in \<open>simp_all add: numeral_2_eq_2\<close>)
      moreover have "exec P ?m3 ?m4"
        by (rule exec_1) (use code' in \<open>simp_all add: next_pc_def numeral_2_eq_2 numeral_3_eq_3\<close>)
      ultimately have "exec P m ?m4" using m2 by (blast intro: exec_trans)
      with 4 Inr show ?thesis
        by (auto simp: arith_def op_code_def next_pc_def same_frame_def intro!: exI [of _ ?m4])
    qed
  qed
qed

lemma expr_correct:
  "wf_expr e \<Longrightarrow> compile_ast e ids = Inr (c, ids') \<Longrightarrow> expr_spec P s e c"
proof (induction e arbitrary: ids c ids')
  case (NUM v)
  then have c: "c = [Mov_imm_rdi v]" by simp
  have "computes P m 1 v" if "code_at P (pc m) c" for m
  proof -
    have "exec P m (next_pc (m\<lparr>rdi := v\<rparr>))" by (rule exec_1) (use that c in simp_all)
    then show ?thesis unfolding computes_def
      by (intro exI [of _ "next_pc (m\<lparr>rdi := v\<rparr>)"]) (simp add: next_pc_def same_frame_def)
  qed
  then show ?case by (simp add: expr_spec_def c)
next
  case (VAR x)
  then have c: "c = [Load_rdi (var_offset x)]" by simp
  have "computes P m 1 (s x)" if "code_at P (pc m) c" "vars_at s m" for m
  proof -
    have "exec P m (next_pc (m\<lparr>rdi := s x\<rparr>))"
      by (rule exec_1) (use that c VAR.prems in \<open>simp_all add: load_def vars_at_def va_def\<close>)
    then show ?thesis unfolding computes_def
      by (intro exI [of _ "next_pc (m\<lparr>rdi := s x\<rparr>)"]) (simp add: next_pc_def same_frame_def)
  qed
  then show ?case by (simp add: expr_spec_def c room_def)
next
  case (BINARY_OP op l r)
  from BINARY_OP.prems(2) show ?case
  proof (cases rule: compile_binary_cases)
    case (folded ret)
    have "eval (BINARY_OP op l r) s = Inr (val ret)"
      by (rule fold_ast_eval [OF BINARY_OP.prems(1) folded(1,2)])
    moreover have "computes P m 1 (val ret)" if "code_at P (pc m) c" for m
    proof -
      have "exec P m (next_pc (m\<lparr>rdi := val ret\<rparr>))" by (rule exec_1) (use that folded(3) in simp_all)
      then show ?thesis unfolding computes_def
        by (intro exI [of _ "next_pc (m\<lparr>rdi := val ret\<rparr>)"]) (simp add: next_pc_def same_frame_def)
    qed
    ultimately show ?thesis
      unfolding expr_spec_def \<open>eval (BINARY_OP op l r) s = _\<close> by (simp add: folded(3) del: code_at_Cons)
  next
    case (code ret cr ids1 cl)
    have r: "expr_spec P s r cr" and l: "expr_spec P s l cl"
      using BINARY_OP code(3,4) by auto
    let ?pre = "cr @ [Push_rdi] @ cl @ [Pop_r10]"
    show ?thesis unfolding expr_spec_def
    proof (intro allI impI)
      fix m
      assume at: "code_at P (pc m) c" and room: "room s (need (BINARY_OP op l r)) m"
      have pre: "code_at P (pc m) ?pre" and post: "code_at P (pc m + length ?pre) (op_code op r)"
        using at code(5) by (simp_all add: add.assoc)
      note ops = operands [OF r l pre room [simplified need.simps]]
      show "case eval (BINARY_OP op l r) s of Inr v \<Rightarrow> computes P m (length c) v | Inl _ \<Rightarrow> traps P m"
      proof (cases "ebind (eval r s) (\<lambda>b. ebind (eval l s) (\<lambda>a. Inr (a, b)))")
        case (Inl err)
        then have "eval (BINARY_OP op l r) s = Inl err" by (auto simp: ebind_eq_Inl)
        with ops Inl show ?thesis by simp
      next
        case (Inr ab)
        then obtain a b where ab: "eval r s = Inr b" "eval l s = Inr a" "ab = (a, b)" by auto
        then have ev: "eval (BINARY_OP op l r) s = arith op a b" by simp
        from ops Inr ab obtain m1 where m1: "exec P m m1" "pc m1 = pc m + length ?pre" "rdi m1 = a"
          "r10 m1 = b" "same_frame m m1" by auto
        have out: "out m1 = out m" using m1(5) by (simp add: same_frame_def)
        have "\<And>v. r = NUM v \<Longrightarrow> r10 m1 = v" using ab m1 by simp
        from op_code_correct [OF _ _ this, of op P] BINARY_OP.prems(1) post m1
        have "case arith op a b of Inr v \<Rightarrow> \<exists>m'. exec P m1 m' \<and> pc m' = pc m1 + length (op_code op r) \<and>
            rdi m' = v \<and> same_frame m1 m' | Inl _ \<Rightarrow> traps P m1" by simp
        then show ?thesis unfolding ev computes_def
          using m1 code(5) traps_step [OF m1(1) _ out]
          by (cases "arith op a b") (auto intro: exec_trans same_frame_trans)
      qed
    qed
  qed
qed simp_all

end
