(* ===== verification/BasicProgram.thy ===== *)
theory BasicProgram
  imports BasicCorrect
begin

text \<open>
  From expressions to programs: the code of a condition sets the flags of its comparison, the code
  of a statement simulates the statement's big step (labels, jumps, the variables' slots, calls of
  \<open>print_int\<close>), and \<open>basic_main\<close> gives its caller back the stack, the base pointer and every cell
  above the stack, which is what \<open>project02b-wduan/runtime/call_check.s\<close> looks at.
\<close>

section \<open>Conditions and jumps\<close>

lemma compare_flags:
  "sub_flags x y = (z, s, v) \<Longrightarrow> z \<longleftrightarrow> x = y"
  "sub_flags x y = (z, s, v) \<Longrightarrow> s \<noteq> v \<longleftrightarrow> sint x < sint y"
  using sub_less_flag [of x y] by (auto simp: sub_flags_def)

lemma cond_correct:
  assumes wf: "wf_cond (BINARY_OP op l r)" and comp: "compile_ast (BINARY_OP op l r) ids = Inr (c, ids')"
    and at: "code_at P (pc m) c" and room: "room s (need (BINARY_OP op l r)) m"
  shows "case eval_cond (BINARY_OP op l r) s of
      Inr b \<Rightarrow> \<exists>m' x y. exec P m m' \<and> pc m' = pc m + length c \<and> same_frame m m' \<and>
        flags m' = Some (sub_flags x y) \<and> b = compare op x y
    | Inl _ \<Rightarrow> traps P m"
  using comp
proof (cases rule: compile_binary_cases)
  case (folded ret)
  then show ?thesis using fold_cond [OF _ folded(1)] wf by simp
next
  case (code ret cr ids1 cl)
  have r: "expr_spec P s r cr" and l: "expr_spec P s l cl"
    using wf expr_correct [OF _ code(3)] expr_correct [OF _ code(4)] by auto
  let ?pre = "cr @ [Push_rdi] @ cl @ [Pop_r10]"
  have op: "op_code op r = [Cmp_r10_rdi]" using wf by (auto simp: op_code_def cond_op_def)
  have pre: "code_at P (pc m) ?pre" and post: "code_at P (pc m + length ?pre) [Cmp_r10_rdi]"
    using at code(5) op by (simp_all add: add.assoc)
  note ops = operands [OF r l pre room [simplified need.simps]]
  show ?thesis
  proof (cases "ebind (eval r s) (\<lambda>b. ebind (eval l s) (\<lambda>a. Inr (a, b)))")
    case (Inl err)
    then have "eval_cond (BINARY_OP op l r) s = Inl err" by (auto simp: ebind_eq_Inl)
    with ops Inl show ?thesis by simp
  next
    case (Inr ab)
    then obtain a b where ab: "eval r s = Inr b" "eval l s = Inr a" "ab = (a, b)" by auto
    from ops Inr ab obtain m1 where m1: "exec P m m1" "pc m1 = pc m + length ?pre" "rdi m1 = a"
      "r10 m1 = b" "same_frame m m1" by auto
    let ?m2 = "next_pc (m1\<lparr>flags := Some (sub_flags a b)\<rparr>)"
    have "exec P m1 ?m2" by (rule exec_1) (use post m1 in simp_all)
    with m1(1) have "exec P m ?m2" by (rule exec_trans)
    moreover have "pc ?m2 = pc m + length c" "same_frame m ?m2" "flags ?m2 = Some (sub_flags a b)"
      using m1 code(5) op by (simp_all add: next_pc_def same_frame_def)
    ultimately show ?thesis using ab by auto
  qed
qed

lemma exec_pc: "x86_step P m = Inr (m\<lparr>pc := k\<rparr>) \<Longrightarrow> exec P m (m\<lparr>pc := k\<rparr>)"
  by (rule r_into_rtranclp) (simp add: x86.steps1_def)

lemma exec_jmp:
  "pc m < length P \<Longrightarrow> P ! pc m = Jmp l \<Longrightarrow> find_label P l = Some k \<Longrightarrow> exec P m (m\<lparr>pc := k\<rparr>)"
  by (rule exec_pc) (simp add: x86_step_def jump_def)

lemma exec_label:
  "pc m < length P \<Longrightarrow> P ! pc m = Label l \<Longrightarrow> exec P m (m\<lparr>pc := Suc (pc m)\<rparr>)"
  by (rule exec_pc) (simp add: x86_step_def next_pc_def)

lemma compare_less: "compare op x y \<longleftrightarrow> (op = CHR ''='' \<and> x = y) \<or> (op = CHR ''<'' \<and> sint x < sint y)
    \<or> (op = CHR ''>'' \<and> x \<noteq> y \<and> \<not> sint x < sint y)"
  using sint_eq_iff [of x y] by (auto simp: compare_def)

lemma cond_op_cases:
  assumes "cond_op op"
  obtains (eq) "op = CHR ''=''" | (lt) "op = CHR ''<''" | (gt) "op = CHR ''>''"
  using assms unfolding cond_op_def by blast

lemma jump_if_correct:
  assumes "flags m = Some (sub_flags x y)" "find_label P l = Some k"
    "\<And>z s v. z = (x = y) \<Longrightarrow> (s \<noteq> v) = (sint x < sint y) \<Longrightarrow> c z s v = b"
  shows "jump_if c P l m = Inr (m\<lparr>pc := (if b then k else pc m + 1)\<rparr>)"
proof -
  obtain z s v where f: "sub_flags x y = (z, s, v)" by (cases "sub_flags x y")
  have "c z s v = b" by (rule assms(3)) (use compare_flags [OF f] in simp_all)
  with assms(1,2) f show ?thesis by (simp add: jump_if_def jump_def)
qed

lemma if_jump_correct:
  assumes op: "cond_op op" and at: "code_at P (pc m) (if_jump op i)"
    and fl: "flags m = Some (sub_flags x y)" and lab: "find_label P (L_IF i) = Some k"
  shows "exec P m (m\<lparr>pc := (if compare op x y then k else pc m + length (if_jump op i))\<rparr>)"
proof (rule exec_pc)
  note jump = jump_if_correct [OF fl lab, where b = "compare op x y"]
  show "x86_step P m = Inr (m\<lparr>pc := (if compare op x y then k else pc m + length (if_jump op i))\<rparr>)"
    using op
  proof (cases rule: cond_op_cases)
    case eq
    have "jump_if (\<lambda>z s v. z) P (L_IF i) m = Inr (m\<lparr>pc := (if compare op x y then k else pc m + 1)\<rparr>)"
      by (rule jump) (simp add: compare_less eq)
    with at eq show ?thesis by (simp add: x86_step_def if_jump_def)
  next
    case lt
    have "jump_if (\<lambda>z s v. s \<noteq> v) P (L_IF i) m = Inr (m\<lparr>pc := (if compare op x y then k else pc m + 1)\<rparr>)"
      by (rule jump) (simp add: compare_less lt)
    with at lt show ?thesis by (simp add: x86_step_def if_jump_def)
  next
    case gt
    have "jump_if (\<lambda>z s v. \<not> z \<and> s = v) P (L_IF i) m = Inr (m\<lparr>pc := (if compare op x y then k else pc m + 1)\<rparr>)"
      by (rule jump) (auto simp: compare_less gt)
    with at gt show ?thesis by (simp add: x86_step_def if_jump_def)
  qed
qed

lemma while_jump_correct:
  assumes op: "cond_op op" and at: "code_at P (pc m) (while_jump op i)"
    and fl: "flags m = Some (sub_flags x y)" and lab: "find_label P (L_ENDWHILE i) = Some k"
  shows "exec P m (m\<lparr>pc := (if compare op x y then pc m + length (while_jump op i) else k)\<rparr>)"
proof (rule exec_pc)
  note jump = jump_if_correct [OF fl lab, where b = "\<not> compare op x y"]
  show "x86_step P m = Inr (m\<lparr>pc := (if compare op x y then pc m + length (while_jump op i) else k)\<rparr>)"
    using op
  proof (cases rule: cond_op_cases)
    case eq
    have "jump_if (\<lambda>z s v. \<not> z) P (L_ENDWHILE i) m = Inr (m\<lparr>pc := (if \<not> compare op x y then k else pc m + 1)\<rparr>)"
      by (rule jump) (simp add: compare_less eq)
    with at eq show ?thesis by (simp add: x86_step_def while_jump_def)
  next
    case lt
    have "jump_if (\<lambda>z s v. s = v) P (L_ENDWHILE i) m = Inr (m\<lparr>pc := (if \<not> compare op x y then k else pc m + 1)\<rparr>)"
      by (rule jump) (auto simp: compare_less lt)
    with at lt show ?thesis by (simp add: x86_step_def while_jump_def)
  next
    case gt
    have "jump_if (\<lambda>z s v. z \<or> s \<noteq> v) P (L_ENDWHILE i) m = Inr (m\<lparr>pc := (if \<not> compare op x y then k else pc m + 1)\<rparr>)"
      by (rule jump) (auto simp: compare_less gt)
    with at gt show ?thesis by (simp add: x86_step_def while_jump_def)
  qed
qed

section \<open>The variables' slots\<close>

definition slot :: "char \<Rightarrow> nat" where
  "slot x = 8 * (of_char x - 64)"

lemma slot_bounds: "var_name x \<Longrightarrow> 8 \<le> slot x \<and> slot x \<le> 208"
  unfolding slot_def var_name_def by arith

lemma slot_inj: "var_name x \<Longrightarrow> var_name y \<Longrightarrow> slot x = slot y \<Longrightarrow> x = y"
proof -
  assume "var_name x" "var_name y" "slot x = slot y"
  then have "(of_char x :: nat) = of_char y" unfolding slot_def var_name_def by arith
  then show ?thesis by simp
qed

lemma va_slot: "var_name x \<Longrightarrow> va m x = rbp m - of_nat (slot x)"
proof -
  assume "var_name x"
  then have "var_offset x = - int (slot x)"
    by (simp add: var_offset_def slot_def var_name_def of_nat_diff)
  then show ?thesis by (simp add: va_def)
qed

lemma unat_va:
  assumes "var_name x" "208 \<le> unat (rbp m)"
  shows "unat (va m x) = unat (rbp m) - slot x"
proof -
  have s: "unat (of_nat (slot x) :: u64) = slot x"
    using slot_bounds [OF assms(1)] by (simp add: unat_of_nat take_bit_nat_eq_self)
  moreover have "(of_nat (slot x) :: u64) \<le> rbp m"
    using s slot_bounds [OF assms(1)] assms(2) by (simp add: word_le_nat_alt)
  ultimately show ?thesis using va_slot [OF assms(1)] by (simp add: unat_minus_exact)
qed

lemma va_inj:
  assumes "var_name x" "var_name y" "208 \<le> unat (rbp m)" "va m x = va m y"
  shows "x = y"
proof -
  have "unat (rbp m) - slot x = unat (rbp m) - slot y"
    using assms unat_va [of x m] unat_va [of y m] by simp
  then have "slot x = slot y"
    using slot_bounds [OF assms(1)] slot_bounds [OF assms(2)] assms(3) by arith
  with assms show ?thesis using slot_inj by blast
qed

lemma va_below_rbp: "var_name x \<Longrightarrow> 208 \<le> unat (rbp m) \<Longrightarrow> va m x < rbp m"
  using unat_va [of x m] slot_bounds [of x] by (simp add: word_less_nat_alt)

section \<open>Statements\<close>

fun stack_need :: "ast \<Rightarrow> nat"
and stack_needs :: "ast list \<Rightarrow> nat" where
  "stack_need (PRINT e) = need e"
| "stack_need (LET x e) = need e"
| "stack_need (SEQUENCE ss) = stack_needs ss"
| "stack_need (IF c b None) = max (need c) (stack_need b)"
| "stack_need (IF c b (Some e)) = max (need c) (max (stack_need b) (stack_need e))"
| "stack_need (WHILE c b) = max (need c) (stack_need b)"
| "stack_need _ = 0"
| "stack_needs [] = 0"
| "stack_needs (s # ss) = max (stack_need s) (stack_needs ss)"

text \<open>\<open>frame pre k st m\<close>: the machine holds the state \<open>st\<close>, with \<open>k\<close> slots free below the stack pointer
and \<open>pre\<close> printed before the program started.\<close>

definition frame :: "u64 list \<Rightarrow> nat \<Rightarrow> basic_state \<Rightarrow> x86 \<Rightarrow> bool" where
  "frame pre k st m = (room (vars st) k m \<and> al16 (rsp m) \<and> unat (rbp m) = unat (rsp m) + 208 \<and>
     out m = pre @ printed st)"

definition same_caller :: "x86 \<Rightarrow> x86 \<Rightarrow> bool" where
  "same_caller m m' = (rsp m' = rsp m \<and> rbp m' = rbp m \<and> (\<forall>a. rbp m \<le> a \<longrightarrow> mem m' a = mem m a))"

definition reaches :: "instr list \<Rightarrow> u64 list \<Rightarrow> nat \<Rightarrow> x86 \<Rightarrow> nat \<Rightarrow> outcome \<Rightarrow> bool" where
  "reaches P pre k m tgt r = (case r of
       Done t \<Rightarrow> \<exists>m'. exec P m m' \<and> pc m' = tgt \<and> frame pre k t m' \<and> same_caller m m'
     | Trapped t \<Rightarrow> \<exists>m'. exec P m m' \<and> x86_step P m' = Inl Arith_Trap \<and> out m' = pre @ printed t)"

lemma frame_pc [simp]: "frame pre k st (m\<lparr>pc := i\<rparr>) = frame pre k st m"
  by (simp add: frame_def room_def vars_at_def va_def)

lemma same_caller_pc [simp]: "same_caller m (m'\<lparr>pc := i\<rparr>) = same_caller m m'"
  by (simp add: same_caller_def)

lemma same_caller_trans: "same_caller a b \<Longrightarrow> same_caller b c \<Longrightarrow> same_caller a c"
  by (simp add: same_caller_def)

lemma same_caller_refl [simp]: "same_caller m m"
  by (simp add: same_caller_def)

lemma frame_same: "frame pre k st m \<Longrightarrow> same_frame m m' \<Longrightarrow> frame pre k st m'"
  using room_frame by (auto simp: frame_def same_frame_def)

lemma frame_rsp_le: "frame pre k st m \<Longrightarrow> rsp m \<le> rbp m"
  by (simp add: frame_def word_le_nat_alt)

lemma same_frame_caller: "frame pre k st m \<Longrightarrow> same_frame m m' \<Longrightarrow> same_caller m m'"
  using frame_rsp_le [of pre k st m] by (auto simp: same_frame_def same_caller_def)

lemma reaches_exec:
  "exec P m m1 \<Longrightarrow> same_caller m m1 \<Longrightarrow> reaches P pre k m1 tgt r \<Longrightarrow> reaches P pre k m tgt r"
  by (cases r) (auto simp: reaches_def intro: exec_trans same_caller_trans)

lemma reaches_done:
  "exec P m m1 \<Longrightarrow> same_caller m m1 \<Longrightarrow> frame pre k t m1 \<Longrightarrow> pc m1 = tgt \<Longrightarrow> reaches P pre k m tgt (Done t)"
  by (auto simp: reaches_def)

lemma reaches_seq:
  assumes "reaches P pre k m t1 (Done st)"
    "\<And>m1. pc m1 = t1 \<Longrightarrow> frame pre k st m1 \<Longrightarrow> reaches P pre k m1 t2 r"
  shows "reaches P pre k m t2 r"
proof -
  from assms(1) obtain m1 where "exec P m m1" "pc m1 = t1" "frame pre k st m1" "same_caller m m1"
    by (auto simp: reaches_def)
  with assms(2) show ?thesis by (blast intro: reaches_exec)
qed

lemma reaches_tail:
  assumes "reaches P pre k m t1 r" "\<And>m1. pc m1 = t1 \<Longrightarrow> exec P m1 (m1\<lparr>pc := t2\<rparr>)"
  shows "reaches P pre k m t2 r"
proof (cases r)
  case (Done st)
  with assms(1) obtain m1 where m1: "exec P m m1" "pc m1 = t1" "frame pre k st m1" "same_caller m m1"
    by (auto simp: reaches_def)
  have "exec P m (m1\<lparr>pc := t2\<rparr>)" using assms(2) m1(1,2) by (blast intro: exec_trans)
  then show ?thesis unfolding Done by (rule reaches_done) (use m1 in simp_all)
qed (use assms(1) in \<open>simp add: reaches_def\<close>)

lemma traps_reaches: "traps P m \<Longrightarrow> frame pre k st m \<Longrightarrow> reaches P pre k m tgt (Trapped st)"
  by (auto simp: traps_def reaches_def frame_def)

text \<open>An expression whose value an instruction \<open>i\<close> consumes: \<open>PRINT\<close> and \<open>LET\<close>.\<close>

lemma expr_stmt:
  assumes "wf_expr e" "compile_ast e ids = Inr (c, ids')" "code_at P (pc m) c" "frame pre k st m" "need e \<le> k"
    "eval e (vars st) = Inr v"
  obtains m1 where "exec P m m1" "pc m1 = pc m + length c" "rdi m1 = v" "frame pre k st m1" "same_caller m m1"
proof -
  have "room (vars st) (need e) m" using assms(4,5) room_le by (auto simp: frame_def)
  with expr_correct [OF assms(1,2), of P "vars st"] assms(3,6) have "computes P m (length c) v"
    by (auto simp: expr_spec_def)
  then obtain m1 where "exec P m m1" "pc m1 = pc m + length c" "rdi m1 = v" "same_frame m m1"
    by (auto simp: computes_def)
  with that frame_same [OF assms(4)] same_frame_caller [OF assms(4)] show thesis by blast
qed

lemma expr_trap:
  assumes "wf_expr e" "compile_ast e ids = Inr (c, ids')" "code_at P (pc m) c" "frame pre k st m" "need e \<le> k"
    "eval e (vars st) = Inl err"
  shows "reaches P pre k m tgt (Trapped st)"
proof -
  have "room (vars st) (need e) m" using assms(4,5) room_le by (auto simp: frame_def)
  with expr_correct [OF assms(1,2), of P "vars st"] assms(3,6) have "traps P m"
    by (auto simp: expr_spec_def)
  with assms(4) show ?thesis using traps_reaches by blast
qed

lemma store_frame:
  assumes fr: "frame pre k st m" and x: "var_name x"
  shows "frame pre k (st\<lparr>vars := (vars st)(x := v)\<rparr>) (m\<lparr>mem := (mem m)(va m x := v)\<rparr>)"
    "same_caller m (m\<lparr>mem := (mem m)(va m x := v)\<rparr>)"
proof -
  have b: "208 \<le> unat (rbp m)" using fr by (simp add: frame_def)
  have va: "va (m\<lparr>mem := f\<rparr>) y = va m y" for y f by (simp add: va_def)
  have "va m y = va m x \<longleftrightarrow> y = x" if "var_name y" for y using va_inj [OF that x b] by blast
  then show "frame pre k (st\<lparr>vars := (vars st)(x := v)\<rparr>) (m\<lparr>mem := (mem m)(va m x := v)\<rparr>)"
    using fr by (auto simp: frame_def room_def vars_at_def va)
  show "same_caller m (m\<lparr>mem := (mem m)(va m x := v)\<rparr>)"
    using va_below_rbp [OF x b] by (auto simp: same_caller_def)
qed

lemma print_frame:
  assumes fr: "frame pre k st m"
  obtains m1 where "print_int m = Inr m1" "frame pre k (st\<lparr>printed := printed st @ [rdi m]\<rparr>) m1"
    "same_caller m m1" "pc m1 = pc m"
proof -
  define m1 where "m1 = m\<lparr>out := out m @ [rdi m], rax := 0x6A2CFE91073BD845, rdi := 0x03BAD7C14F2E6589,
          rdx := 0xEC364B2D5A7F9810, r10 := 0x47DC36501F89AEB2, flags := None,
          mem := (\<lambda>a. if a < rsp m then scratch m a else mem m a)\<rparr>"
  have "print_int m = Inr m1" using fr by (simp add: print_int_def frame_def m1_def)
  moreover have va: "va m1 y = va m y" for y by (simp add: va_def m1_def)
  have "frame pre k (st\<lparr>printed := printed st @ [rdi m]\<rparr>) m1"
    using fr by (auto simp: frame_def room_def vars_at_def va) (auto simp: m1_def)
  moreover have "same_caller m m1" using frame_rsp_le [OF fr] by (auto simp: same_caller_def m1_def)
  moreover have "pc m1 = pc m" by (simp add: m1_def)
  ultimately show thesis by (rule that)
qed

lemma find_code_label:
  "distinct (labels P) \<Longrightarrow> code_at P i (Label l # c) \<Longrightarrow> find_label P l = Some i"
  by (rule find_label_at) simp_all

lemma wf_cond_op: "wf_cond c \<Longrightarrow> condition_op c = Inr op \<Longrightarrow> cond_op op"
  by (cases c) auto

lemma cond_stmt:
  assumes wf: "wf_cond c" and comp: "compile_ast c ids = Inr (cc, ids')" and op: "condition_op c = Inr op"
    and at: "code_at P (pc m) cc" and fr: "frame pre k st m" and k: "need c \<le> k"
    and ev: "eval_cond c (vars st) = Inr b"
  obtains m1 x y where "exec P m m1" "pc m1 = pc m + length cc" "frame pre k st m1" "same_caller m m1"
    "flags m1 = Some (sub_flags x y)" "b = compare op x y"
proof -
  obtain l r where c: "c = BINARY_OP op l r" using wf op by (cases c) auto
  have "room (vars st) (need c) m" using fr k room_le by (auto simp: frame_def)
  from cond_correct [OF wf [unfolded c] comp [unfolded c] at this [unfolded c]] ev
  obtain m1 x y where "exec P m m1" "pc m1 = pc m + length cc" "same_frame m m1"
    "flags m1 = Some (sub_flags x y)" "b = compare op x y" by (auto simp: c)
  with that frame_same [OF fr] same_frame_caller [OF fr] show thesis by blast
qed

lemma cond_trap:
  assumes wf: "wf_cond c" and comp: "compile_ast c ids = Inr (cc, ids')"
    and at: "code_at P (pc m) cc" and fr: "frame pre k st m" and k: "need c \<le> k"
    and ev: "eval_cond c (vars st) = Inl err"
  shows "reaches P pre k m tgt (Trapped st)"
proof -
  obtain op l r where c: "c = BINARY_OP op l r" using wf by (cases c) auto
  have "room (vars st) (need c) m" using fr k room_le by (auto simp: frame_def)
  from cond_correct [OF wf [unfolded c] comp [unfolded c] at this [unfolded c]] ev
  have "traps P m" by (auto simp: c)
  with fr show ?thesis using traps_reaches by blast
qed

lemma compile_if_cases:
  assumes "compile_ast (IF c thn els) (i0, w0) = Inr (code, ids')"
  obtains cc i w op ce ids2 ct where "compile_ast c (i0, w0) = Inr (cc, (i, w))" "condition_op c = Inr op"
    "(case els of None \<Rightarrow> Inr ([], (i + 1, w)) | Some e \<Rightarrow> compile_ast e (i + 1, w)) = Inr (ce, ids2)"
    "compile_ast thn ids2 = Inr (ct, ids')"
    "code = cc @ if_jump op i @ ce @ [Jmp (L_ENDIF i), Label (L_IF i)] @ ct
              @ [Jmp (L_ENDIF i), Label (L_ENDIF i)]"
  using assms by (simp only: compile_if ebind_eq_Inr) (auto simp del: append_Cons append_assoc)

lemma compile_while_cases:
  assumes "compile_ast (WHILE c body) (i, w) = Inr (code, ids')"
  obtains cc ids1 op cb where "compile_ast c (i, w + 1) = Inr (cc, ids1)" "condition_op c = Inr op"
    "compile_ast body ids1 = Inr (cb, ids')"
    "code = [Label (L_WHILE w)] @ cc @ while_jump op w @ cb @ [Jmp (L_WHILE w), Label (L_ENDWHILE w)]"
  using assms by (simp only: compile_while ebind_eq_Inr) (auto simp del: append_Cons append_assoc)

text \<open>The two places an \<open>IF\<close>'s code goes to after its condition.\<close>

lemma if_code:
  assumes d: "distinct (labels P)"
    and at: "code_at P i0 (cc @ if_jump op i @ ce @ [Jmp (L_ENDIF i), Label (L_IF i)] @ ct
              @ [Jmp (L_ENDIF i), Label (L_ENDIF i)])"
  defines "j \<equiv> i0 + length cc" and "e \<equiv> i0 + length cc + length (if_jump op i)"
  defines "t \<equiv> e + length ce + 2"
  shows "code_at P i0 cc" "code_at P j (if_jump op i)" "code_at P e ce" "code_at P t ct"
    "find_label P (L_IF i) = Some (t - 1)" "t - 1 < length P" "P ! (t - 1) = Label (L_IF i)"
    "pc m = t + length ct \<Longrightarrow> exec P m (m\<lparr>pc := t + length ct + 2\<rparr>)"
    "pc m = e + length ce \<Longrightarrow> exec P m (m\<lparr>pc := t + length ct + 2\<rparr>)"
proof -
  show parts: "code_at P i0 cc" "code_at P j (if_jump op i)" "code_at P e ce" "code_at P t ct"
    "t - 1 < length P" "P ! (t - 1) = Label (L_IF i)"
    using at by (simp_all add: j_def e_def t_def numeral_2_eq_2 add.assoc)
  have jmps: "code_at P (e + length ce) [Jmp (L_ENDIF i), Label (L_IF i)]"
      "code_at P (t + length ct) [Jmp (L_ENDIF i), Label (L_ENDIF i)]"
    using at by (simp_all add: j_def e_def t_def numeral_2_eq_2 add.assoc)
  show "find_label P (L_IF i) = Some (t - 1)"
    using find_label_at [OF d] parts by simp
  have "code_at P (Suc (t + length ct)) [Label (L_ENDIF i)]" using jmps(2) by simp
  then have end_if: "find_label P (L_ENDIF i) = Some (Suc (t + length ct))" by (rule find_code_label [OF d])
  have to_end: "exec P m (m\<lparr>pc := t + length ct + 2\<rparr>)"
    if "pc m < length P" "P ! pc m = Jmp (L_ENDIF i)" for m
  proof -
    let ?m = "m\<lparr>pc := Suc (t + length ct)\<rparr>"
    have "exec P m ?m" by (rule exec_jmp [OF that end_if])
    moreover have "exec P ?m (?m\<lparr>pc := Suc (pc ?m)\<rparr>)" by (rule exec_label) (use jmps(2) in simp_all)
    ultimately have "exec P m (?m\<lparr>pc := Suc (pc ?m)\<rparr>)" by (rule exec_trans)
    then show ?thesis by simp
  qed
  show "pc m = t + length ct \<Longrightarrow> exec P m (m\<lparr>pc := t + length ct + 2\<rparr>)"
    by (rule to_end) (use jmps(2) in simp_all)
  show "pc m = e + length ce \<Longrightarrow> exec P m (m\<lparr>pc := t + length ct + 2\<rparr>)"
    by (rule to_end) (use jmps(1) in simp_all)
qed

text \<open>Likewise for a \<open>WHILE\<close>.\<close>

lemma while_code:
  assumes d: "distinct (labels P)"
    and at: "code_at P i0 ([Label (L_WHILE w)] @ cc @ while_jump op w @ cb @ [Jmp (L_WHILE w), Label (L_ENDWHILE w)])"
  defines "j \<equiv> i0 + 1 + length cc" and "b \<equiv> i0 + 1 + length cc + length (while_jump op w)"
  defines "e \<equiv> b + length cb + 1"
  shows "code_at P (i0 + 1) cc" "code_at P j (while_jump op w)" "code_at P b cb"
    "find_label P (L_ENDWHILE w) = Some e"
    "pc m = i0 \<Longrightarrow> exec P m (m\<lparr>pc := i0 + 1\<rparr>)"
    "pc m = b + length cb \<Longrightarrow> exec P m (m\<lparr>pc := i0\<rparr>)"
    "pc m = e \<Longrightarrow> exec P m (m\<lparr>pc := e + 1\<rparr>)"
proof -
  show "code_at P (i0 + 1) cc" "code_at P j (while_jump op w)" "code_at P b cb"
    using at by (simp_all add: j_def b_def add.assoc)
  have tail: "code_at P (b + length cb) [Jmp (L_WHILE w), Label (L_ENDWHILE w)]"
    using at by (simp add: b_def add.assoc)
  then have lab: "code_at P e [Label (L_ENDWHILE w)]" by (simp add: e_def)
  then show "find_label P (L_ENDWHILE w) = Some e" by (rule find_code_label [OF d])
  have start: "find_label P (L_WHILE w) = Some i0"     by (rule find_code_label [OF d at [unfolded append_Cons append_Nil]])
  show "pc m = i0 \<Longrightarrow> exec P m (m\<lparr>pc := i0 + 1\<rparr>)"
    using exec_label [of m P "L_WHILE w"] at by simp
  show "pc m = b + length cb \<Longrightarrow> exec P m (m\<lparr>pc := i0\<rparr>)"
    by (rule exec_jmp [OF _ _ start]) (use tail in simp_all)
  show "pc m = e \<Longrightarrow> exec P m (m\<lparr>pc := e + 1\<rparr>)"
    using exec_label [of m P "L_ENDWHILE w"] lab by simp
qed

definition fits :: "ast \<Rightarrow> nat \<Rightarrow> bool" where
  "fits n k = (wf_stmt n \<and> stack_need n \<le> k)"

lemma fits_simps [simp]:
  "fits (PRINT e) k \<longleftrightarrow> wf_expr e \<and> need e \<le> k"
  "fits (LET x e) k \<longleftrightarrow> var_name x \<and> wf_expr e \<and> need e \<le> k"
  "fits (SEQUENCE []) k"
  "fits (SEQUENCE (n # ns)) k \<longleftrightarrow> fits n k \<and> fits (SEQUENCE ns) k"
  "fits (IF c b None) k \<longleftrightarrow> wf_cond c \<and> need c \<le> k \<and> fits b k"
  "fits (IF c b (Some e)) k \<longleftrightarrow> wf_cond c \<and> need c \<le> k \<and> fits b k \<and> fits e k"
  "fits (WHILE c b) k \<longleftrightarrow> wf_cond c \<and> need c \<le> k \<and> fits b k"
  by (auto simp: fits_def)

lemma fits_if: "fits (IF c b els) k \<Longrightarrow> wf_cond c \<and> need c \<le> k \<and> fits b k"
  by (cases els) auto

lemma print_stmt:
  assumes wf: "wf_expr e" "need e \<le> k" and comp: "compile_ast e ids = Inr (ce, ids')"
    and at: "code_at P (pc m) (ce @ [Call_print_int])" and fr: "frame pre k st m"
    and ev: "eval e (vars st) = Inr v"
  shows "reaches P pre k m (pc m + length ce + 1) (Done (st\<lparr>printed := printed st @ [v]\<rparr>))"
proof -
  obtain m1 where m1: "exec P m m1" "pc m1 = pc m + length ce" "rdi m1 = v" "frame pre k st m1"
    "same_caller m m1"
    by (rule expr_stmt [OF wf(1) comp _ fr wf(2) ev]) (use at in auto)
  obtain m2 where m2: "print_int m1 = Inr m2" "frame pre k (st\<lparr>printed := printed st @ [rdi m1]\<rparr>) m2"
    "same_caller m1 m2" "pc m2 = pc m1" by (rule print_frame [OF m1(4)])
  have "exec P m1 (m2\<lparr>pc := Suc (pc m2)\<rparr>)"
    by (rule exec_1) (use at m1(2) m2(1) in \<open>simp_all add: next_pc_def\<close>)
  with m1(1) have "exec P m (m2\<lparr>pc := Suc (pc m2)\<rparr>)" by (rule exec_trans)
  then show ?thesis
    by (rule reaches_done) (use m1 m2 same_caller_trans [OF m1(5) m2(3)] in simp_all)
qed

lemma let_stmt:
  assumes wf: "wf_expr e" "need e \<le> k" and x: "var_name x" and comp: "compile_ast e ids = Inr (ce, ids')"
    and at: "code_at P (pc m) (ce @ [Store_rdi (var_offset x)])" and fr: "frame pre k st m"
    and ev: "eval e (vars st) = Inr v"
  shows "reaches P pre k m (pc m + length ce + 1) (Done (st\<lparr>vars := (vars st)(x := v)\<rparr>))"
proof -
  obtain m1 where m1: "exec P m m1" "pc m1 = pc m + length ce" "rdi m1 = v" "frame pre k st m1"
    "same_caller m m1"
    by (rule expr_stmt [OF wf(1) comp _ fr wf(2) ev]) (use at in auto)
  let ?m2 = "m1\<lparr>mem := (mem m1)(va m1 x := v)\<rparr>"
  have fr: "frame pre k (st\<lparr>vars := (vars st)(x := v)\<rparr>) ?m2" "same_caller m1 ?m2"
    by (rule store_frame [OF m1(4) x])+
  have "al8 (va m1 x)" using m1(4) x by (auto simp: frame_def room_def vars_at_def)
  then have st: "store (rbp m1 + word_of_int (var_offset x)) v m1 = Inr ?m2"
    by (simp add: store_def va_def)
  have "exec P m1 (?m2\<lparr>pc := Suc (pc m1)\<rparr>)"
    by (rule exec_1) (use at m1(2,3) st in \<open>simp_all add: next_pc_def\<close>)
  with m1(1) have "exec P m (?m2\<lparr>pc := Suc (pc m1)\<rparr>)" by (rule exec_trans)
  then show ?thesis
    by (rule reaches_done) (use m1 fr same_caller_trans [OF m1(5) fr(2)] in simp_all)
qed

text \<open>An \<open>IF\<close> runs its condition, and then the branch the condition selects; both end behind the code.\<close>

definition if_text :: "instr list \<Rightarrow> char \<Rightarrow> nat \<Rightarrow> instr list \<Rightarrow> instr list \<Rightarrow> instr list" where
  "if_text cc op i ce ct = cc @ if_jump op i @ ce @ [Jmp (L_ENDIF i), Label (L_IF i)] @ ct
     @ [Jmp (L_ENDIF i), Label (L_ENDIF i)]"

lemma if_then:
  assumes d: "distinct (labels P)" and wf: "wf_cond c0" "need c0 \<le> k"
    and cc: "compile_ast c0 ids = Inr (cc, ids1)" and op: "condition_op c0 = Inr op"
    and at: "code_at P (pc m) (if_text cc op i ce ct)" and fr: "frame pre k st m"
    and ev: "eval_cond c0 (vars st) = Inr True"
    and thn: "\<And>m1. code_at P (pc m1) ct \<Longrightarrow> frame pre k st m1 \<Longrightarrow> reaches P pre k m1 (pc m1 + length ct) r"
  shows "reaches P pre k m (pc m + length (if_text cc op i ce ct)) r"
proof -
  let ?t = "pc m + length cc + length (if_jump op i) + length ce + 2"
  note code = if_code [OF d at [unfolded if_text_def]]
  obtain m1 x y where m1: "exec P m m1" "pc m1 = pc m + length cc" "frame pre k st m1" "same_caller m m1"
    "flags m1 = Some (sub_flags x y)" "compare op x y"
    by (rule cond_stmt [OF wf(1) cc op code(1) fr wf(2) ev]) simp
  have "exec P m1 (m1\<lparr>pc := ?t - 1\<rparr>)"
    using if_jump_correct [OF wf_cond_op [OF wf(1) op] _ m1(5) code(5)] code(2) m1(2,6) by simp
  moreover have "exec P (m1\<lparr>pc := ?t - 1\<rparr>) (m1\<lparr>pc := ?t\<rparr>)"
    using exec_label [of "m1\<lparr>pc := ?t - 1\<rparr>" P "L_IF i"] code(6,7) by simp
  ultimately have m2: "exec P m (m1\<lparr>pc := ?t\<rparr>)" using m1(1) by (blast intro: exec_trans)
  have "reaches P pre k (m1\<lparr>pc := ?t\<rparr>) (?t + length ct) r"
    using thn [of "m1\<lparr>pc := ?t\<rparr>"] code(4) m1(3) by simp
  then have "reaches P pre k (m1\<lparr>pc := ?t\<rparr>) (?t + length ct + 2) r"
    by (rule reaches_tail) (rule code(8))
  then have "reaches P pre k m (?t + length ct + 2) r" by (rule reaches_exec [OF m2, rotated]) (use m1(4) in simp_all)
  then show ?thesis by (simp add: if_text_def add.assoc)
qed

lemma if_else:
  assumes d: "distinct (labels P)" and wf: "wf_cond c0" "need c0 \<le> k"
    and cc: "compile_ast c0 ids = Inr (cc, ids1)" and op: "condition_op c0 = Inr op"
    and at: "code_at P (pc m) (if_text cc op i ce ct)" and fr: "frame pre k st m"
    and ev: "eval_cond c0 (vars st) = Inr False"
    and els: "\<And>m1. code_at P (pc m1) ce \<Longrightarrow> frame pre k st m1 \<Longrightarrow> reaches P pre k m1 (pc m1 + length ce) r"
  shows "reaches P pre k m (pc m + length (if_text cc op i ce ct)) r"
proof -
  let ?e = "pc m + length cc + length (if_jump op i)"
  let ?t = "?e + length ce + 2"
  note code = if_code [OF d at [unfolded if_text_def]]
  obtain m1 x y where m1: "exec P m m1" "pc m1 = pc m + length cc" "frame pre k st m1" "same_caller m m1"
    "flags m1 = Some (sub_flags x y)" "\<not> compare op x y"
    by (rule cond_stmt [OF wf(1) cc op code(1) fr wf(2) ev]) simp
  have "exec P m1 (m1\<lparr>pc := ?e\<rparr>)"
    using if_jump_correct [OF wf_cond_op [OF wf(1) op] _ m1(5) code(5)] code(2) m1(2,6) by simp
  with m1(1) have m2: "exec P m (m1\<lparr>pc := ?e\<rparr>)" by (rule exec_trans)
  have "reaches P pre k (m1\<lparr>pc := ?e\<rparr>) (?e + length ce) r"
    using els [of "m1\<lparr>pc := ?e\<rparr>"] code(3) m1(3) by simp
  then have "reaches P pre k (m1\<lparr>pc := ?e\<rparr>) (?t + length ct + 2) r"
    by (rule reaches_tail) (rule code(9))
  then have "reaches P pre k m (?t + length ct + 2) r" by (rule reaches_exec [OF m2, rotated]) (use m1(4) in simp_all)
  then show ?thesis by (simp add: if_text_def add.assoc)
qed

text \<open>A \<open>WHILE\<close> passes its label, runs its condition, and enters the body or leaves.\<close>

definition while_text :: "nat \<Rightarrow> instr list \<Rightarrow> char \<Rightarrow> instr list \<Rightarrow> instr list" where
  "while_text w cc op cb =
     [Label (L_WHILE w)] @ cc @ while_jump op w @ cb @ [Jmp (L_WHILE w), Label (L_ENDWHILE w)]"

lemma while_test:
  assumes d: "distinct (labels P)" and wf: "wf_cond c0" "need c0 \<le> k"
    and cc: "compile_ast c0 ids = Inr (cc, ids1)" and op: "condition_op c0 = Inr op"
    and at: "code_at P (pc m) (while_text w cc op cb)" and fr: "frame pre k st m"
    and ev: "eval_cond c0 (vars st) = Inr b"
  obtains m1 where "exec P m m1" "frame pre k st m1" "same_caller m m1"
    "pc m1 = (if b then pc m + 1 + length cc + length (while_jump op w) else pc m + length (while_text w cc op cb))"
proof -
  let ?b = "pc m + 1 + length cc + length (while_jump op w)"
  let ?e = "?b + length cb + 1"
  note code = while_code [OF d at [unfolded while_text_def]]
  obtain m1 x y where m1: "exec P (m\<lparr>pc := pc m + 1\<rparr>) m1" "pc m1 = pc m + 1 + length cc" "frame pre k st m1"
    "same_caller (m\<lparr>pc := pc m + 1\<rparr>) m1" "flags m1 = Some (sub_flags x y)" "b = compare op x y"
    by (rule cond_stmt [OF wf(1) cc op, of P "m\<lparr>pc := pc m + 1\<rparr>" pre k st b])
       (use fr wf ev code(1) in auto)
  have "exec P m1 (m1\<lparr>pc := (if b then ?b else ?e)\<rparr>)"
    using while_jump_correct [OF wf_cond_op [OF wf(1) op] _ m1(5) code(4)] code(2) m1(2,6)
    by (cases b) (simp_all add: add.assoc)
  moreover have "exec P (m1\<lparr>pc := ?e\<rparr>) (m1\<lparr>pc := ?e + 1\<rparr>)"
    using code(7) [of "m1\<lparr>pc := ?e\<rparr>"] by simp
  ultimately have "exec P m (m1\<lparr>pc := (if b then ?b else ?e + 1)\<rparr>)"
    using code(5) [of m] m1(1) by (cases b) (auto intro: exec_trans)
  moreover have "same_caller m (m1\<lparr>pc := (if b then ?b else ?e + 1)\<rparr>)"
    using m1(4) by (simp add: same_caller_def)
  ultimately show thesis using m1(3)
    by (intro that [of "m1\<lparr>pc := (if b then ?b else ?e + 1)\<rparr>"]) (simp_all add: while_text_def)
qed

lemma while_body:
  assumes d: "distinct (labels P)" and wf: "wf_cond c0" "need c0 \<le> k"
    and cc: "compile_ast c0 ids = Inr (cc, ids1)" and op: "condition_op c0 = Inr op"
    and at: "code_at P (pc m) (while_text w cc op cb)" and fr: "frame pre k st m"
    and ev: "eval_cond c0 (vars st) = Inr True"
    and body: "\<And>m1. code_at P (pc m1) cb \<Longrightarrow> frame pre k st m1 \<Longrightarrow> reaches P pre k m1 (pc m1 + length cb) r"
  shows "reaches P pre k m (pc m) r"
proof -
  let ?b = "pc m + 1 + length cc + length (while_jump op w)"
  note code = while_code [OF d at [unfolded while_text_def]]
  obtain m1 where m1: "exec P m m1" "frame pre k st m1" "same_caller m m1" "pc m1 = ?b"
    by (rule while_test [OF d wf cc op at fr ev]) simp
  have "reaches P pre k m1 (?b + length cb) r" using body [of m1] code(3) m1 by simp
  then have "reaches P pre k m1 (pc m) r" by (rule reaches_tail) (rule code(6))
  with m1(1,3) show ?thesis by (rule reaches_exec)
qed

lemma while_trap:
  assumes d: "distinct (labels P)" and wf: "wf_cond c0" "need c0 \<le> k"
    and cc: "compile_ast c0 ids = Inr (cc, ids1)"
    and at: "code_at P (pc m) (while_text w cc op cb)" and fr: "frame pre k st m"
    and ev: "eval_cond c0 (vars st) = Inl err"
  shows "reaches P pre k m tgt (Trapped st)"
proof -
  note code = while_code [OF d at [unfolded while_text_def]]
  have "reaches P pre k (m\<lparr>pc := pc m + 1\<rparr>) tgt (Trapped st)"
    by (rule cond_trap [OF wf(1) cc _ _ wf(2) ev]) (use fr code(1) in simp_all)
  then show ?thesis by (rule reaches_exec [OF code(5) [OF refl], rotated]) simp
qed

lemma stmt_correct:
  assumes d: "distinct (labels P)"
  shows "big_step n st r \<Longrightarrow> fits n k \<Longrightarrow> compile_ast n ids = Inr (c, ids') \<Longrightarrow> code_at P (pc m) c \<Longrightarrow>
    frame pre k st m \<Longrightarrow> reaches P pre k m (pc m + length c) r"
proof (induction arbitrary: m ids ids' c rule: big_step.induct)
  case (Print e st v)
  then obtain ce where "compile_ast e ids = Inr (ce, ids')" "c = ce @ [Call_print_int]" by auto
  with Print show ?case using print_stmt [of e k ids ce ids' P m pre st v] by simp
next
  case (Let e st v x)
  then obtain ce where "compile_ast e ids = Inr (ce, ids')" "c = ce @ [Store_rdi (var_offset x)]" by auto
  with Let show ?case using let_stmt [of e k x ids ce ids' P m pre st v] by simp
next
  case (Seq_cons n st t ns r)
  from Seq_cons.prems(2) obtain c1 ids1 c2 where c: "compile_ast n ids = Inr (c1, ids1)"
    "compile_ast (SEQUENCE ns) ids1 = Inr (c2, ids')" "c = c1 @ c2" by auto
  have "reaches P pre k m (pc m + length c1) (Done t)"
    by (rule Seq_cons.IH(1) [OF _ c(1)]) (use Seq_cons.prems c(3) in simp_all)
  then show ?case
  proof (rule reaches_seq)
    fix m1 assume m1: "pc m1 = pc m + length c1" "frame pre k t m1"
    have "reaches P pre k m1 (pc m1 + length c2) r"
      by (rule Seq_cons.IH(2) [OF _ c(2)]) (use Seq_cons.prems c(3) m1 in simp_all)
    with m1 c(3) show "reaches P pre k m1 (pc m + length c) r" by (simp add: add.assoc)
  qed
next
  case (Seq_trap n st t ns)
  from Seq_trap.prems(2) obtain c1 ids1 c2 where c: "compile_ast n ids = Inr (c1, ids1)" "c = c1 @ c2" by auto
  have "reaches P pre k m (pc m + length c1) (Trapped t)"
    by (rule Seq_trap.IH [OF _ c(1)]) (use Seq_trap.prems c(2) in simp_all)
  then show ?case by (simp add: reaches_def)
next
  case (If_trap c0 st err thn els)
  obtain i0 w0 where ids: "ids = (i0, w0)" by (cases ids)
  from If_trap.prems(2) [unfolded ids] obtain cc i w rest where
    "compile_ast c0 (i0, w0) = Inr (cc, (i, w))" "c = cc @ rest" by (rule compile_if_cases) blast
  note cc = this
  show ?case
    by (rule cond_trap [OF _ cc(1) _ If_trap.prems(4) _ If_trap.hyps])
       (use If_trap.prems(3) fits_if [OF If_trap.prems(1)] cc(2) in simp_all)
next
  case (If_true c0 st thn r els)
  obtain i0 w0 where ids: "ids = (i0, w0)" by (cases ids)
  from If_true.prems(2) [unfolded ids] obtain cc i w op ce ids2 ct where
    cc: "compile_ast c0 (i0, w0) = Inr (cc, (i, w))" and op: "condition_op c0 = Inr op"
    and ct: "compile_ast thn ids2 = Inr (ct, ids')" and c: "c = if_text cc op i ce ct"
    by (rule compile_if_cases) (auto simp only: if_text_def)
  note fits = fits_if [OF If_true.prems(1)]
  show ?case unfolding c
    by (rule if_then [OF d _ _ cc op If_true.prems(3) [unfolded c] If_true.prems(4) If_true.hyps(1)])
       (use fits If_true.IH [OF _ ct] in simp_all)
next
  case (If_none c0 st thn)
  obtain i0 w0 where ids: "ids = (i0, w0)" by (cases ids)
  from If_none.prems(2) [unfolded ids] obtain cc i w op ce ids2 ct where
    cc: "compile_ast c0 (i0, w0) = Inr (cc, (i, w))" and op: "condition_op c0 = Inr op"
    and ce: "ce = []" and c: "c = if_text cc op i ce ct"
    by (rule compile_if_cases) (auto simp only: if_text_def option.case sum.inject prod.inject)
  note fits = fits_if [OF If_none.prems(1)]
  show ?case unfolding c
    by (rule if_else [OF d _ _ cc op If_none.prems(3) [unfolded c] If_none.prems(4) If_none.hyps(1)])
       (use fits ce in \<open>auto simp: reaches_def\<close>)
next
  case (If_false c0 st e r thn)
  obtain i0 w0 where ids: "ids = (i0, w0)" by (cases ids)
  from If_false.prems(2) [unfolded ids] obtain cc i w op ce ids2 ct where
    cc: "compile_ast c0 (i0, w0) = Inr (cc, (i, w))" and op: "condition_op c0 = Inr op"
    and ce: "compile_ast e (i + 1, w) = Inr (ce, ids2)" and c: "c = if_text cc op i ce ct"
    by (rule compile_if_cases) (auto simp only: if_text_def option.case)
  note fits = fits_if [OF If_false.prems(1)]
  show ?case unfolding c
    by (rule if_else [OF d _ _ cc op If_false.prems(3) [unfolded c] If_false.prems(4) If_false.hyps(1)])
       (use fits If_false.prems(1) If_false.IH [OF _ ce] in simp_all)
next
  case (While_trap c0 st err b)
  obtain i w where ids: "ids = (i, w)" by (cases ids)
  from While_trap.prems(2) [unfolded ids] obtain cc ids1 op cb where
    cc: "compile_ast c0 (i, w + 1) = Inr (cc, ids1)" and c: "c = while_text w cc op cb"
    by (rule compile_while_cases) (auto simp only: while_text_def)
  show ?case
    by (rule while_trap [OF d _ _ cc While_trap.prems(3) [unfolded c] While_trap.prems(4) While_trap.hyps])
       (use While_trap.prems(1) in simp_all)
next
  case (While_false c0 st b)
  obtain i w where ids: "ids = (i, w)" by (cases ids)
  from While_false.prems(2) [unfolded ids] obtain cc ids1 op cb where
    cc: "compile_ast c0 (i, w + 1) = Inr (cc, ids1)" and op: "condition_op c0 = Inr op"
    and c: "c = while_text w cc op cb"
    by (rule compile_while_cases) (auto simp only: while_text_def)
  obtain m1 where "exec P m m1" "frame pre k st m1" "same_caller m m1" "pc m1 = pc m + length c"
    by (rule while_test [OF d _ _ cc op While_false.prems(3) [unfolded c] While_false.prems(4) While_false.hyps])
       (use While_false.prems(1) c in simp_all)
  then show ?case by (intro reaches_done)
next
  case (While_true c0 st b t r)
  obtain i w where ids: "ids = (i, w)" by (cases ids)
  from While_true.prems(2) [unfolded ids] obtain cc ids1 op cb where
    cc: "compile_ast c0 (i, w + 1) = Inr (cc, ids1)" and op: "condition_op c0 = Inr op"
    and cb: "compile_ast b ids1 = Inr (cb, ids')" and c: "c = while_text w cc op cb"
    by (rule compile_while_cases) (auto simp only: while_text_def)
  have "reaches P pre k m (pc m) (Done t)"
    by (rule while_body [OF d _ _ cc op While_true.prems(3) [unfolded c] While_true.prems(4) While_true.hyps(1)])
       (use While_true.prems(1) While_true.IH(1) [OF _ cb] in simp_all)
  then show ?case
  proof (rule reaches_seq)
    fix m3 assume m3: "pc m3 = pc m" "frame pre k t m3"
    show "reaches P pre k m3 (pc m + length c) r"
      using While_true.IH(2) [OF While_true.prems(1,2), of m3] While_true.prems(3) m3 by simp
  qed
next
  case (While_body c0 st b t)
  obtain i w where ids: "ids = (i, w)" by (cases ids)
  from While_body.prems(2) [unfolded ids] obtain cc ids1 op cb where
    cc: "compile_ast c0 (i, w + 1) = Inr (cc, ids1)" and op: "condition_op c0 = Inr op"
    and cb: "compile_ast b ids1 = Inr (cb, ids')" and c: "c = while_text w cc op cb"
    by (rule compile_while_cases) (auto simp only: while_text_def)
  have "reaches P pre k m (pc m) (Trapped t)"
    by (rule while_body [OF d _ _ cc op While_body.prems(3) [unfolded c] While_body.prems(4) While_body.hyps(1)])
       (use While_body.prems(1) While_body.IH [OF _ cb] in simp_all)
  then show ?case by (simp add: reaches_def)
next
  case (Print_trap e st err)
  then show ?case by (auto intro: expr_trap)
next
  case (Let_trap e st err x)
  then show ?case by (auto intro: expr_trap)
qed (auto simp: reaches_def)

section \<open>Whole programs\<close>

text \<open>
  The machine as \<open>call basic_main\<close> leaves it: the return address on a stack that was aligned to 16
  bytes, and room below for \<open>%rbp\<close>, the 26 variables and \<open>k\<close> pushed operands.
\<close>

definition called :: "nat \<Rightarrow> x86 \<Rightarrow> bool" where
  "called k m = (pc m = 0 \<and> al16 (rsp m + 8) \<and> 8 * k + 216 \<le> unat (rsp m))"

text \<open>The variables start out with what the stack held.\<close>

definition initial_state :: "x86 \<Rightarrow> basic_state" where
  "initial_state m = \<lparr>vars = (\<lambda>x. mem m (rsp m - 8 + word_of_int (var_offset x))), printed = []\<rparr>"

lemma al16_sub: "al16 a \<Longrightarrow> n mod 16 = 0 \<Longrightarrow> al16 (a - word_of_int n)"
proof -
  assume a: "al16 a" "n mod 16 = 0"
  have "uint (a - word_of_int n) = (uint a - n) mod 2 ^ 64"
    by (simp add: uint_word_ariths uint_word_of_int mod_diff_right_eq)
  then have "uint (a - word_of_int n) mod 16 = (uint a - n) mod 16" by (simp add: mod_mod_cancel)
  also have "\<dots> = 0" using a by (simp add: al16_def mod_diff_eq [symmetric])
  finally show ?thesis by (simp add: al16_def)
qed

lemma al8_sub: "al8 a \<Longrightarrow> al8 (a - of_nat (8 * n))"
proof (induction n)
  case (Suc n)
  have "a - of_nat (8 * Suc n) = a - of_nat (8 * n) - 8" by (simp add: algebra_simps)
  then show ?case using al8_minus [OF Suc.IH [OF Suc.prems]] by (simp only:)
qed simp

lemma slot_al8: "al8 (rbp m) \<Longrightarrow> var_name x \<Longrightarrow> al8 (va m x)"
  unfolding va_slot slot_def by (rule al8_sub)

lemma header_exec:
  assumes call: "called k m" and at: "code_at P 0 header_code"
  obtains m1 where "exec P m m1" "pc m1 = 3" "frame (out m) k (initial_state m) m1"
    "rbp m1 = rsp m - 8" "mem m1 = (mem m)(rsp m - 8 := rbp m)"
proof -
  let ?sp = "rsp m - 8"
  let ?m1 = "next_pc (m\<lparr>mem := (mem m)(?sp := rbp m), rsp := ?sp\<rparr>)"
  let ?m2 = "next_pc (?m1\<lparr>rbp := ?sp\<rparr>)"
  let ?m3 = "next_pc (?m2\<lparr>rsp := ?sp - of_nat (26 * 8), flags := Some (sub_flags ?sp (of_nat (26 * 8)))\<rparr>)"
  have al: "al16 ?sp" "al16 (?sp - 208)"
    using al16_sub [of "rsp m + 8" 16] al16_sub [of "rsp m + 8" 224] call by (simp_all add: called_def)
  have code: "code_at P 0 [Push_rbp, Movq_rsp_rbp, Subq_rsp (26 * 8)]" "pc m = 0"
    using at call by (simp_all only: header_code_def called_def)
  have "exec P m ?m1" by (rule exec_1) (use code al16_al8 [OF al(1)] in \<open>simp_all add: store_def\<close>)
  moreover have "exec P ?m1 ?m2" by (rule exec_1) (use code in \<open>simp_all add: next_pc_def\<close>)
  moreover have "exec P ?m2 ?m3"
    by (rule exec_1) (use code in \<open>simp_all add: next_pc_def numeral_2_eq_2\<close>)
  ultimately have ex: "exec P m ?m3" by (blast intro: exec_trans)
  have sp: "unat ?sp = unat (rsp m) - 8"
    using call unat_minus_exact [of 8 "rsp m"] by (simp add: called_def word_le_nat_alt)
  then have sp2: "unat (?sp - 208) = unat (rsp m) - 216"
    using call sp unat_minus_exact [of 216 "rsp m"] by (simp add: called_def word_le_nat_alt)
  have "208 \<le> unat ?sp" using call sp unfolding called_def by arith
  then have bp: "rbp ?m3 = ?sp" "rsp ?m3 = ?sp - 208" "208 \<le> unat (rbp ?m3)"
    by (simp_all add: next_pc_def)
  have v: "mem ?m3 (va ?m3 x) = mem m (?sp + word_of_int (var_offset x)) \<and> rsp ?m3 \<le> va ?m3 x \<and> al8 (va ?m3 x)"
    if "var_name x" for x
  proof -
    have "va ?m3 x < ?sp" using va_below_rbp [OF that bp(3)] bp(1) by simp
    then have "mem ?m3 (va ?m3 x) = mem m (va ?m3 x)" by (auto simp: next_pc_def)
    moreover have "unat (va ?m3 x) = unat ?sp - slot x" using unat_va [OF that bp(3)] bp(1) by simp
    then have "rsp ?m3 \<le> va ?m3 x"
      using slot_bounds [OF that] sp call unfolding word_le_nat_alt bp(2) sp2 called_def by arith
    moreover have "al8 (va ?m3 x)" using slot_al8 [OF _ that, of ?m3] al16_al8 [OF al(1)] bp(1) by simp
    ultimately show ?thesis unfolding va_def bp(1) by blast
  qed
  have "vars_at (vars (initial_state m)) ?m3"
    unfolding vars_at_def initial_state_def basic_state.simps using v by blast
  moreover have "al8 (rsp ?m3)" "al16 (rsp ?m3)" unfolding bp(2) using al(2) al16_al8 by blast+
  moreover have "8 * k \<le> unat (rsp ?m3)" "unat (rbp ?m3) = unat (rsp ?m3) + 208"
    unfolding bp(1,2) sp sp2 using call called_def by auto
  moreover have "out ?m3 = out m @ printed (initial_state m)" by (simp add: next_pc_def initial_state_def)
  ultimately have "frame (out m) k (initial_state m) ?m3" unfolding frame_def room_def by blast
  note fr = this
  show thesis
    by (rule that [OF ex _ fr]) (use call in \<open>simp_all add: next_pc_def called_def\<close>)
qed

lemma footer_exec:
  assumes at: "code_at P (pc m) footer_code" and fr: "frame pre k st m" and saved: "mem m (rbp m) = b"
    and al: "al8 (rbp m)"
  obtains m1 where "exec P m m1" "x86_step P m1 = Inl (Exit_With 0)" "rsp m1 = rbp m + 8" "rbp m1 = b"
    "mem m1 = mem m" "out m1 = pre @ printed st"
proof -
  let ?m1 = "next_pc (m\<lparr>rsp := rsp m + of_nat (26 * 8), flags := Some (add_flags (rsp m) (of_nat (26 * 8)))\<rparr>)"
  let ?m2 = "next_pc (?m1\<lparr>rbp := b, rsp := rsp ?m1 + 8\<rparr>)"
  have code: "code_at P (pc m) [Addq_rsp (26 * 8), Pop_rbp, Ret]"
    using at by (simp only: footer_code_def)
  have "unat (rbp m) < 2 ^ LENGTH(64)" by (rule unsigned_less)
  then have "unat (rsp m + 208) = unat (rsp m) + 208"
    using fr unat_plus_exact [of "rsp m" 208] by (simp add: frame_def)
  then have sp: "rsp m + 208 = rbp m" using fr by (intro word_unat_eq_iff [THEN iffD2]) (simp add: frame_def)
  have "exec P m ?m1" by (rule exec_1) (use code in simp_all)
  moreover have "exec P ?m1 ?m2"
    by (rule exec_1) (use code saved al sp in \<open>simp_all add: next_pc_def load_def\<close>)
  ultimately have "exec P m ?m2" by (rule exec_trans)
  moreover have "x86_step P ?m2 = Inl (Exit_With 0)"
    using code by (simp add: x86_step_def next_pc_def)
  ultimately show thesis
    using fr sp by (intro that [of ?m2]) (simp_all add: next_pc_def frame_def)
qed

text \<open>What the caller of \<open>basic_main\<close> finds when it returns; \<open>call_check.s\<close> compares the same registers
and the memory from the return address up.\<close>

definition returned :: "x86 \<Rightarrow> u64 list \<Rightarrow> x86 \<Rightarrow> bool" where
  "returned m vs m' = (rsp m' = rsp m \<and> rbp m' = rbp m \<and> (\<forall>a. rsp m \<le> a \<longrightarrow> mem m' a = mem m a) \<and>
     out m' = out m @ vs)"

lemma compile_program_distinct:
  assumes "compile_program n = Inr P"
  shows "distinct (labels P)"
proof -
  obtain c ids where c: "compile_ast n (0, 0) = Inr (c, ids)" "P = header_code @ c @ footer_code"
    using assms by (auto simp: compile_program_def)
  have "labels P = labels c" by (simp add: c header_code_def footer_code_def labels_def)
  with compile_labels [OF c(1)] show ?thesis by (simp add: labels_fresh_def)
qed

lemma program_done:
  assumes wf: "wf_stmt n" and comp: "compile_program n = Inr P" and call: "called (stack_need n) m"
    and run: "big_step n (initial_state m) (Done t)"
  shows "\<exists>m'. exec P m m' \<and> x86_step P m' = Inl (Exit_With 0) \<and> returned m (printed t) m'"
proof -
  obtain c ids where c: "compile_ast n (0, 0) = Inr (c, ids)" "P = header_code @ c @ footer_code"
    using comp by (auto simp: compile_program_def)
  have len: "length header_code = 3" by (simp add: header_code_def)
  have at: "code_at P 0 header_code" "code_at P 3 c" "code_at P (3 + length c) footer_code"
    using code_at_whole [of P] len unfolding c(2) by (simp_all only: code_at_append add_0)
  obtain m1 where m1: "exec P m m1" "pc m1 = 3" "frame (out m) (stack_need n) (initial_state m) m1"
    "rbp m1 = rsp m - 8" "mem m1 = (mem m)(rsp m - 8 := rbp m)"
    by (rule header_exec [OF call at(1)])
  have "reaches P (out m) (stack_need n) m1 (pc m1 + length c) (Done t)"
    by (rule stmt_correct [OF compile_program_distinct [OF comp] run _ c(1)])
       (use m1 at(2) wf in \<open>simp_all add: fits_def\<close>)
  then obtain m2 where m2: "exec P m1 m2" "pc m2 = 3 + length c" "frame (out m) (stack_need n) t m2"
    "same_caller m1 m2" using m1(2) by (auto simp: reaches_def)
  have bp: "rbp m2 = rsp m - 8" and saved: "mem m2 (rbp m2) = rbp m"
    using m2(4) m1(4,5) by (auto simp: same_caller_def)
  have "al8 (rbp m2)"
    using al16_sub [of "rsp m + 8" 16] call bp al16_al8 by (simp add: called_def)
  note al = this
  obtain m3 where m3: "exec P m2 m3" "x86_step P m3 = Inl (Exit_With 0)" "rsp m3 = rbp m2 + 8"
    "rbp m3 = rbp m" "mem m3 = mem m2" "out m3 = out m @ printed t"
    by (rule footer_exec [OF _ m2(3) saved al]) (use at(3) m2(2) in simp)
  have "mem m3 a = mem m a" if "rsp m \<le> a" for a
  proof -
    have "unat (rsp m - 8) < unat (rsp m)" using call unat_minus_exact [of 8 "rsp m"]
      by (simp add: called_def word_le_nat_alt)
    then have "rsp m - 8 < a" using that by (simp add: word_less_nat_alt word_le_nat_alt)
    then have "mem m2 a = mem m1 a" "mem m1 a = mem m a"
      using m2(4) m1(4,5) by (auto simp: same_caller_def)
    with m3(5) show ?thesis by simp
  qed
  with m3 bp have "returned m (printed t) m3" by (simp add: returned_def)
  with m3(1,2) m1(1) m2(1) show ?thesis by (blast intro: exec_trans)
qed

lemma program_trapped:
  assumes wf: "wf_stmt n" and comp: "compile_program n = Inr P" and call: "called (stack_need n) m"
    and run: "big_step n (initial_state m) (Trapped t)"
  shows "\<exists>m'. exec P m m' \<and> x86_step P m' = Inl Arith_Trap \<and> out m' = out m @ printed t"
proof -
  obtain c ids where c: "compile_ast n (0, 0) = Inr (c, ids)" "P = header_code @ c @ footer_code"
    using comp by (auto simp: compile_program_def)
  have len: "length header_code = 3" by (simp add: header_code_def)
  have at: "code_at P 0 header_code" "code_at P 3 c"
    using code_at_whole [of P] len unfolding c(2) by (simp_all only: code_at_append add_0)
  obtain m1 where m1: "exec P m m1" "pc m1 = 3" "frame (out m) (stack_need n) (initial_state m) m1"
    by (rule header_exec [OF call at(1)])
  have "reaches P (out m) (stack_need n) m1 (pc m1 + length c) (Trapped t)"
    by (rule stmt_correct [OF compile_program_distinct [OF comp] run _ c(1)])
       (use m1 at(2) wf in \<open>simp_all add: fits_def\<close>)
  then show ?thesis using m1(1) by (auto simp: reaches_def intro: exec_trans)
qed

section \<open>Properties\<close>

definition sample_basic :: ast where
  "sample_basic = SEQUENCE [LET (CHR ''A'') (NUM 1),
     WHILE (BINARY_OP (CHR ''>'') (VAR (CHR ''A'')) (NUM 0))
       (SEQUENCE [PRINT (BINARY_OP (CHR ''*'') (VAR (CHR ''A'')) (NUM 4)),
                  LET (CHR ''A'') (BINARY_OP (CHR ''-'') (VAR (CHR ''A'')) (NUM 1))])]"

definition sample_machine :: x86 where
  "sample_machine = \<lparr>rdi = 0, rax = 0, rdx = 0, r10 = 0, rsp = 4088, rbp = 7, flags = None, mem = (\<lambda>_. 0),
     out = [], pc = 0, scratch = (\<lambda>_. 0)\<rparr>"

lemma sample_code: "\<exists>P. compile_program sample_basic = Inr P"
proof -
  have "\<not> Sum_Type.isl (compile_program sample_basic)" by code_simp
  then show ?thesis by (cases "compile_program sample_basic") auto
qed

lemma sample_called: "called (stack_need sample_basic) sample_machine" by code_simp

lemma sample_wf: "wf_stmt sample_basic"
  by (simp add: sample_basic_def cond_op_def arith_op_def var_name_def)

lemma sample_run:
  "\<exists>t. big_step sample_basic (initial_state sample_machine) (Done t) \<and> printed t = [4]"
  unfolding sample_basic_def
  apply (rule exI)
  apply (rule conjI)
   apply (rule big_step.Seq_cons)
    apply (rule big_step.Let, simp)
   apply (rule big_step.Seq_cons)
    apply (rule big_step.While_true)
      apply (simp add: compare_def)
     apply (rule big_step.Seq_cons)
      apply (rule big_step.Print, simp add: arith_def)
     apply (rule big_step.Seq_cons)
      apply (rule big_step.Let, simp add: arith_def)
     apply (rule big_step.Seq_nil)
    apply (rule big_step.While_false)
    apply (simp add: compare_def)
   apply (rule big_step.Seq_nil)
  apply (simp add: initial_state_def)
  done

text \<open>C1: the compiler is correct. When a well-formed program runs to an end, the code that \<open>compile_ast\<close>
emits between \<open>header\<close> and \<open>footer\<close>, called with room for its variables and operands on an aligned
stack, reaches its \<open>ret\<close>; it has printed what the program prints, in order, and the caller finds the
stack pointer, \<open>%rbp\<close> and all memory from the return address up unchanged. There is no other way for
the code to stop.\<close>

theorem compiled_program_correct:
  assumes "wf_stmt n" "compile_program n = Inr P" "called (stack_need n) m"
    "big_step n (initial_state m) (Done t)"
  shows "\<exists>m'. exec P m m' \<and> x86_step P m' = Inl (Exit_With 0) \<and> returned m (printed t) m' \<and>
    (\<forall>m'' e. exec P m m'' \<and> x86_step P m'' = Inl e \<longrightarrow> m'' = m')"
  using program_done [OF assms] x86.stuck_unique by blast

lemma compiled_program_correct_witness:
  "\<exists>P m'. compile_program sample_basic = Inr P \<and> exec P sample_machine m' \<and>
    x86_step P m' = Inl (Exit_With 0) \<and> returned sample_machine [4] m'"
proof -
  obtain P where P: "compile_program sample_basic = Inr P" using sample_code by blast
  obtain t where t: "big_step sample_basic (initial_state sample_machine) (Done t)" "printed t = [4]"
    using sample_run by blast
  from compiled_program_correct [OF sample_wf P sample_called t(1)] P t(2) show ?thesis by auto
qed

text \<open>C25: a division the machine cannot do (by zero, or the smallest value by -1) stops the compiled code
at the same point as the program: the processor traps, and everything printed before is out.\<close>

theorem compiled_program_traps:
  assumes "wf_stmt n" "compile_program n = Inr P" "called (stack_need n) m"
    "big_step n (initial_state m) (Trapped t)"
  shows "\<exists>m'. exec P m m' \<and> x86_step P m' = Inl Arith_Trap \<and> out m' = out m @ printed t \<and>
    (\<forall>m'' e. exec P m m'' \<and> x86_step P m'' = Inl e \<longrightarrow> m'' = m')"
  using program_trapped [OF assms] x86.stuck_unique by blast

definition sample_trap :: ast where
  "sample_trap = SEQUENCE [PRINT (NUM 3), LET (CHR ''A'') (NUM 0),
     PRINT (BINARY_OP (CHR ''/'') (NUM 8) (VAR (CHR ''A'')))]"

lemma compiled_program_traps_witness:
  "\<exists>P m'. compile_program sample_trap = Inr P \<and> exec P sample_machine m' \<and>
    x86_step P m' = Inl Arith_Trap \<and> out m' = [3]"
proof -
  have "\<not> Sum_Type.isl (compile_program sample_trap)" by code_simp
  then obtain P where P: "compile_program sample_trap = Inr P"
    by (cases "compile_program sample_trap") auto
  have wf: "wf_stmt sample_trap" by (simp add: sample_trap_def arith_op_def var_name_def)
  have call: "called (stack_need sample_trap) sample_machine" by code_simp
  obtain t where t: "big_step sample_trap (initial_state sample_machine) (Trapped t)" "printed t = [3]"
  proof -
    have "big_step sample_trap (initial_state sample_machine)
        (Trapped ((initial_state sample_machine)\<lparr>printed := [3], vars := (vars (initial_state sample_machine))(CHR ''A'' := 0)\<rparr>))"
      unfolding sample_trap_def
      by (rule big_step.Seq_cons [OF big_step.Print [OF eval.simps(1)]],
          rule big_step.Seq_cons [OF big_step.Let [OF eval.simps(1)]], rule big_step.Seq_trap)
         (use big_step.Print_trap [of "BINARY_OP (CHR ''/'') (NUM 8) (VAR (CHR ''A''))"
            "(initial_state sample_machine)\<lparr>printed := [3], vars := (vars (initial_state sample_machine))(CHR ''A'' := 0)\<rparr>"]
          in \<open>simp add: arith_def signed_div_def initial_state_def\<close>)
    with that show thesis by simp
  qed
  from compiled_program_traps [OF wf P call t(1)] P t(2) show ?thesis by (auto simp: sample_machine_def)
qed

text \<open>The label lines of a compiled program are pairwise different as printed, so the assembler can
resolve every jump to one place; nested and successive \<open>IF\<close> and \<open>WHILE\<close> never share a number.\<close>

theorem compiled_labels_distinct:
  assumes "compile_program n = Inr P"
  shows "distinct (map show_label (labels P))"
  using compile_program_distinct [OF assms] by (simp add: distinct_map inj_on_def)

lemma compiled_labels_distinct_witness:
  "\<exists>P. compile_program sample_basic = Inr P \<and> distinct (map show_label (labels P))"
  using sample_code compiled_labels_distinct by blast

definition dead_division :: ast where
  "dead_division = IF (BINARY_OP (CHR ''>'') (NUM 1) (NUM 2))
     (PRINT (BINARY_OP (CHR ''/'') (NUM 1) (NUM 0))) None"

text \<open>The compiler itself divides when both operands are constants, whether or not the statement can
run: the program \<open>IF 1 > 2 PRINT 1 / 0 END IF\<close> never divides, and compiling it traps.\<close>

theorem compiler_traps_on_dead_division:
  "wf_stmt dead_division \<and> big_step dead_division s (Done s) \<and> compile_program dead_division = Inl Arith_Trap"
proof (intro conjI)
  show "wf_stmt dead_division" by (simp add: dead_division_def cond_op_def arith_op_def)
  show "big_step dead_division s (Done s)"
    unfolding dead_division_def by (rule big_step.If_none) (simp add: compare_def)
  show "compile_program dead_division = Inl Arith_Trap" by code_simp
qed

end
