(* ===== verification/BasicParser.thy ===== *)
theory BasicParser
  imports BasicAst
begin

text \<open>
  The TeenyBASIC parser (\<open>project02b-wduan/src/parser.c\<close>): a recursive-descent parser over a seekable
  stream. The stream is the file's contents and a position; a pointer result is an option. The
  grammar functions call each other without a decreasing argument, so they carry fuel and return
  \<open>None\<close> when it runs out; \<open>parse\<close> gives them enough.
\<close>

section \<open>Characters\<close>

definition NUL :: char where "NUL = CHR 0x00"

definition isspace :: "char \<Rightarrow> bool" where
  "isspace c = (c = CHR '' '' \<or> (9 \<le> (of_char c :: nat) \<and> (of_char c :: nat) \<le> 13))"

definition is_variable_name :: "char \<Rightarrow> bool" where
  "is_variable_name c = (65 \<le> (of_char c :: nat) \<and> (of_char c :: nat) \<le> 90)"
definition is_open_paren :: "char \<Rightarrow> bool" where "is_open_paren c = (c = CHR ''('')"
definition is_close_paren :: "char \<Rightarrow> bool" where "is_close_paren c = (c = CHR '')'')"
definition is_factor_op :: "char \<Rightarrow> bool" where "is_factor_op c = (c = CHR ''*'' \<or> c = CHR ''/'')"
definition is_term_op :: "char \<Rightarrow> bool" where "is_term_op c = (c = CHR ''+'' \<or> c = CHR ''-'')"
definition is_comparison_op :: "char \<Rightarrow> bool" where
  "is_comparison_op c = (c = CHR ''<'' \<or> c = CHR ''='' \<or> c = CHR ''>'')"
definition is_operator :: "char \<Rightarrow> bool" where
  "is_operator c = (is_open_paren c \<or> is_close_paren c \<or> is_factor_op c \<or> is_term_op c \<or> is_comparison_op c)"
definition is_comment_start :: "char \<Rightarrow> bool" where "is_comment_start c = (c = CHR ''#'')"

lemmas char_class_defs [basic_ops] = isspace_def is_variable_name_def is_open_paren_def is_close_paren_def
  is_factor_op_def is_term_op_def is_comparison_op_def is_operator_def is_comment_start_def

section \<open>Tokens\<close>

definition MAX_KEYWORD_LENGTH :: nat where "MAX_KEYWORD_LENGTH = 100"

function advance :: "string \<Rightarrow> nat \<Rightarrow> char \<times> nat" where
  "advance inp pos =
     (if pos < length inp then
        (if isspace (inp ! pos) then advance inp (pos + 1) else (inp ! pos, pos + 1))
      else (NUL, pos))"
  by pat_completeness auto
termination by (relation "measure (\<lambda>(inp, pos). length inp - pos)") auto

declare advance.simps [simp del]

definition try_advance :: "string \<Rightarrow> nat \<Rightarrow> (char \<Rightarrow> bool) \<Rightarrow> char \<times> nat" where
  "try_advance inp pos predicate =
     (let (c, pos') = advance inp pos
      in if c \<noteq> NUL \<and> \<not> predicate c then (NUL, pos' - 1) else (c, pos'))"

text \<open>The buffer becomes a C string: what follows a NUL byte of the file is not seen.\<close>

definition c_token :: "string \<Rightarrow> string" where
  "c_token buffer = takeWhile (\<lambda>c. c \<noteq> NUL) buffer"

function until_separator :: "string \<Rightarrow> nat \<Rightarrow> string \<Rightarrow> string option \<times> nat" where
  "until_separator inp pos buffer =
     (if MAX_KEYWORD_LENGTH < length buffer then (None, pos)
      else if length inp \<le> pos then
        (if buffer \<noteq> [] then (Some (c_token buffer), pos) else (None, pos))
      else if is_operator (inp ! pos) \<and> buffer \<noteq> [] then (Some (c_token buffer), pos)
      else if isspace (inp ! pos) then
        (if buffer \<noteq> [] then (Some (c_token buffer), pos + 1) else until_separator inp (pos + 1) buffer)
      else until_separator inp (pos + 1) (buffer @ [inp ! pos]))"
  by pat_completeness auto
termination by (relation "measure (\<lambda>(inp, pos, buffer). length inp - pos)") auto

declare until_separator.simps [simp del]

definition advance_until_separator :: "string \<Rightarrow> nat \<Rightarrow> string option \<times> nat" where
  "advance_until_separator inp pos = until_separator inp pos []"

definition at_end :: "string \<Rightarrow> nat \<Rightarrow> bool" where
  "at_end inp pos = (fst (advance inp pos) = NUL)"

function skip_line :: "string \<Rightarrow> nat \<Rightarrow> nat" where
  "skip_line inp pos =
     (if pos < length inp then (if inp ! pos = CHR 0x0A then pos + 1 else skip_line inp (pos + 1)) else pos)"
  by pat_completeness auto
termination by (relation "measure (\<lambda>(inp, pos). length inp - pos)") auto

declare skip_line.simps [simp del]

lemma skip_line_ge: "pos \<le> skip_line inp pos"
  by (induction inp pos rule: skip_line.induct) (subst skip_line.simps, auto)

section \<open>Numbers\<close>

text \<open>C's \<open>strtol\<close> with base 0: the value, the unread rest, and whether \<open>errno\<close> was set.\<close>

definition digit_value :: "char \<Rightarrow> nat option" where
  "digit_value c = (let n = of_char c in
     if 48 \<le> n \<and> n \<le> 57 then Some (n - 48)
     else if 97 \<le> n \<and> n \<le> 122 then Some (n - 87)
     else if 65 \<le> n \<and> n \<le> 90 then Some (n - 55) else None)"

definition is_digit :: "nat \<Rightarrow> char \<Rightarrow> bool" where
  "is_digit base c = (case digit_value c of None \<Rightarrow> False | Some d \<Rightarrow> d < base)"

fun read_digits :: "nat \<Rightarrow> int \<Rightarrow> string \<Rightarrow> int \<times> string" where
  "read_digits base n [] = (n, [])"
| "read_digits base n (c # s) =
     (if is_digit base c then read_digits base (n * int base + int (the (digit_value c))) s else (n, c # s))"

definition number_base :: "string \<Rightarrow> nat \<times> string" where
  "number_base s =
     (if 3 \<le> length s \<and> s ! 0 = CHR ''0'' \<and> (s ! 1 = CHR ''x'' \<or> s ! 1 = CHR ''X'') \<and> is_digit 16 (s ! 2)
      then (16, drop 2 s)
      else if s \<noteq> [] \<and> hd s = CHR ''0'' then (8, s) else (10, s))"

definition strtol :: "string \<Rightarrow> int \<times> string \<times> bool" where
  "strtol s =
     (let neg = (s \<noteq> [] \<and> hd s = CHR ''-'');
          s1 = (if s \<noteq> [] \<and> (hd s = CHR ''-'' \<or> hd s = CHR ''+'') then tl s else s);
          (base, s2) = number_base s1
      in if s2 = [] \<or> \<not> is_digit base (hd s2) then (0, s, False)
         else (let (n, rest) = read_digits base 0 s2;
                   v = (if neg then - n else n)
               in if v < - (2 ^ 63) then (- (2 ^ 63), rest, True)
                  else if 2 ^ 63 \<le> v then (2 ^ 63 - 1, rest, True)
                  else (v, rest, False)))"

definition num :: "string \<Rightarrow> nat \<Rightarrow> ast option \<times> nat" where
  "num inp pos =
     (case advance_until_separator inp pos of
        (None, pos') \<Rightarrow> (None, pos')
      | (Some num_string, pos') \<Rightarrow>
          (let (v, num_end, errno) = strtol num_string
           in if errno \<or> num_end \<noteq> [] then (None, pos') else (init_num_node (word_of_int v), pos')))"

section \<open>Expressions\<close>

type_synonym parsed = "(ast option \<times> nat) option"

fun factor :: "string \<Rightarrow> nat \<Rightarrow> nat \<Rightarrow> parsed"
and term' :: "string \<Rightarrow> nat \<Rightarrow> nat \<Rightarrow> parsed"
and term_loop :: "string \<Rightarrow> nat \<Rightarrow> ast option \<Rightarrow> nat \<Rightarrow> parsed"
and expression :: "string \<Rightarrow> nat \<Rightarrow> nat \<Rightarrow> parsed"
and expression_loop :: "string \<Rightarrow> nat \<Rightarrow> ast option \<Rightarrow> nat \<Rightarrow> parsed" where
  "factor inp 0 pos = None"
| "factor inp (Suc fuel) pos =
     (let (open_paren, pos1) = try_advance inp pos is_open_paren
      in if open_paren \<noteq> NUL then
           (case expression inp fuel pos1 of
              None \<Rightarrow> None
            | Some (node, pos2) \<Rightarrow>
                (let (close, pos3) = try_advance inp pos2 is_close_paren
                 in if close = NUL then Some (None, pos3) else Some (node, pos3)))
         else
           (let (var, pos2) = try_advance inp pos1 is_variable_name
            in if var \<noteq> NUL then Some (init_var_node var, pos2) else Some (num inp pos2)))"
| "term' inp 0 pos = None"
| "term' inp (Suc fuel) pos =
     (case factor inp fuel pos of
        None \<Rightarrow> None
      | Some (result, pos1) \<Rightarrow> term_loop inp fuel result pos1)"
| "term_loop inp 0 result pos = None"
| "term_loop inp (Suc fuel) result pos =
     (let (next, pos1) = try_advance inp pos is_factor_op
      in if next = NUL then Some (result, pos1)
         else (case factor inp fuel pos1 of
             None \<Rightarrow> None
           | Some (right, pos2) \<Rightarrow> term_loop inp fuel (init_binary_node next result right) pos2))"
| "expression inp 0 pos = None"
| "expression inp (Suc fuel) pos =
     (case term' inp fuel pos of
        None \<Rightarrow> None
      | Some (result, pos1) \<Rightarrow> expression_loop inp fuel result pos1)"
| "expression_loop inp 0 result pos = None"
| "expression_loop inp (Suc fuel) result pos =
     (let (next, pos1) = try_advance inp pos is_term_op
      in if next = NUL then Some (result, pos1)
         else (case term' inp fuel pos1 of
             None \<Rightarrow> None
           | Some (right, pos2) \<Rightarrow> expression_loop inp fuel (init_binary_node next result right) pos2))"

definition comparison :: "string \<Rightarrow> nat \<Rightarrow> nat \<Rightarrow> parsed" where
  "comparison inp fuel pos =
     (case expression inp fuel pos of
        None \<Rightarrow> None
      | Some (left, pos1) \<Rightarrow>
          (let (op, pos2) = try_advance inp pos1 is_comparison_op
           in case expression inp fuel pos2 of
                None \<Rightarrow> None
              | Some (right, pos3) \<Rightarrow> Some (init_binary_node op left right, pos3)))"

section \<open>Positions\<close>

lemma advance_bounds:
  "advance inp pos = (c, pos') \<Longrightarrow> c \<noteq> NUL \<Longrightarrow> pos < pos' \<and> pos' \<le> length inp"
  "advance inp pos = (c, pos') \<Longrightarrow> pos \<le> pos' \<and> (pos \<le> length inp \<longrightarrow> pos' \<le> length inp)"
proof (induction inp pos rule: advance.induct)
  case (1 inp pos)
  { case 1
    then show ?case using "1.IH" by (subst (asm) advance.simps) (auto split: if_splits)
  next
    case 2
    then show ?case using "1.IH" by (subst (asm) advance.simps) (auto split: if_splits)
  }
qed

lemma try_advance_bounds:
  assumes "try_advance inp pos p = (c, pos')"
  shows "pos \<le> pos'" "pos \<le> length inp \<Longrightarrow> pos' \<le> length inp" "c \<noteq> NUL \<Longrightarrow> pos < pos' \<and> pos' \<le> length inp \<and> p c"
proof -
  obtain d q where d: "advance inp pos = (d, q)" by (cases "advance inp pos")
  note b = advance_bounds [OF d]
  from assms d have cases: "if d \<noteq> NUL \<and> \<not> p d then c = NUL \<and> pos' = q - 1 else c = d \<and> pos' = q"
    by (simp add: try_advance_def Let_def split: if_splits)
  then show "pos \<le> pos'" "pos \<le> length inp \<Longrightarrow> pos' \<le> length inp"
    "c \<noteq> NUL \<Longrightarrow> pos < pos' \<and> pos' \<le> length inp \<and> p c"
    using b by (auto split: if_splits)
qed

lemma until_separator_bounds:
  "until_separator inp pos buffer = (t, pos') \<Longrightarrow>
     pos \<le> pos' \<and> (pos \<le> length inp \<longrightarrow> pos' \<le> length inp) \<and>
     (t \<noteq> None \<longrightarrow> buffer = [] \<longrightarrow> pos < pos' \<and> pos' \<le> length inp)"
proof (induction inp pos buffer rule: until_separator.induct)
  case (1 inp pos buffer)
  show ?case
    using "1.prems" "1.IH" by (subst (asm) until_separator.simps) (auto split: if_splits)
qed

lemma separator_bounds:
  assumes "advance_until_separator inp pos = (t, pos')"
  shows "pos \<le> pos'" "pos \<le> length inp \<Longrightarrow> pos' \<le> length inp"
    "t \<noteq> None \<Longrightarrow> pos < pos' \<and> pos' \<le> length inp"
  using until_separator_bounds [of inp pos "[]"] assms by (auto simp: advance_until_separator_def)

text \<open>The loop that skips comment lines in \<open>statement\<close>.\<close>

function skip_comments :: "string \<Rightarrow> nat \<Rightarrow> nat" where
  "skip_comments inp pos =
     (let (c, pos1) = try_advance inp pos is_comment_start
      in if c \<noteq> NUL then skip_comments inp (skip_line inp pos1) else pos1)"
  by pat_completeness auto
termination
proof (relation "measure (\<lambda>(inp, pos). length inp - pos)")
  fix inp pos x c pos1
  assume "x = try_advance inp pos is_comment_start" "(c, pos1) = x" "c \<noteq> NUL"
  then have "try_advance inp pos is_comment_start = (c, pos1)" "c \<noteq> NUL" by simp_all
  then have "pos < pos1" "pos1 \<le> length inp" using try_advance_bounds(3) by blast+
  then show "((inp, skip_line inp pos1), (inp, pos)) \<in> measure (\<lambda>(inp, pos). length inp - pos)"
    using skip_line_ge [of pos1 inp] by auto
qed simp

declare skip_comments.simps [simp del]

section \<open>Statements\<close>

type_synonym parsed_stmt = "((ast option \<times> bool) \<times> nat) option"  \<comment> \<open>the node, \<open>*end\<close>, the position\<close>

text \<open>\<open>next\<close> is not \<open>NULL\<close> and equal to the keyword.\<close>

definition is_word :: "string option \<Rightarrow> string \<Rightarrow> bool" where
  "is_word next w = (case next of None \<Rightarrow> False | Some s \<Rightarrow> strcmp s w = 0)"

definition parse_print :: "string \<Rightarrow> nat \<Rightarrow> nat \<Rightarrow> parsed_stmt" where
  "parse_print inp fuel pos =
     (case expression inp fuel pos of
        None \<Rightarrow> None
      | Some (e, pos1) \<Rightarrow> Some ((init_print_node e, False), pos1))"

definition parse_let :: "string \<Rightarrow> nat \<Rightarrow> nat \<Rightarrow> parsed_stmt" where
  "parse_let inp fuel pos =
     (let (var, pos1) = advance inp pos
      in if \<not> is_variable_name var then Some ((None, False), pos1)
         else (let (eq, pos2) = advance inp pos1
               in if eq \<noteq> CHR ''='' then Some ((None, False), pos2)
                  else (case expression inp fuel pos2 of
                      None \<Rightarrow> None
                    | Some (e, pos3) \<Rightarrow> Some ((init_let_node var e, False), pos3))))"

text \<open>\<open>END\<close> and the keyword that closes the block; then the node.\<close>

definition parse_end :: "string \<Rightarrow> string option \<Rightarrow> string \<Rightarrow> ast option \<Rightarrow> nat \<Rightarrow> parsed_stmt" where
  "parse_end inp next keyword node pos =
     (if \<not> is_word next ''END'' then Some ((None, False), pos)
      else (let (next2, pos1) = advance_until_separator inp pos
            in if \<not> is_word next2 keyword then Some ((None, False), pos1)
               else Some ((node, False), pos1)))"

fun statement :: "string \<Rightarrow> nat \<Rightarrow> nat \<Rightarrow> parsed_stmt"
and sequence_loop :: "string \<Rightarrow> nat \<Rightarrow> ast list \<Rightarrow> nat \<Rightarrow> parsed"
and sequence :: "string \<Rightarrow> nat \<Rightarrow> nat \<Rightarrow> parsed" where
  "statement inp 0 pos = None"
| "statement inp (Suc fuel) pos =
     (let start = skip_comments inp pos;
          (next, pos1) = advance_until_separator inp start
      in if next = None then Some ((None, True), pos1)
         else if is_word next ''ELSE'' then Some ((None, True), start)
         else if is_word next ''END'' then
           (let (next2, pos2) = advance_until_separator inp pos1
            in if \<not> (is_word next2 ''IF'' \<or> is_word next2 ''WHILE'') then Some ((None, False), pos2)
               else Some ((None, True), start))
         else if is_word next ''PRINT'' then parse_print inp fuel pos1
         else if is_word next ''LET'' then parse_let inp fuel pos1
         else if is_word next ''IF'' then
           (case comparison inp fuel pos1 of None \<Rightarrow> None | Some (condition, pos2) \<Rightarrow>
           (case sequence inp fuel pos2 of None \<Rightarrow> None | Some (if_branch, pos3) \<Rightarrow>
             (let (next2, pos4) = advance_until_separator inp pos3
              in if is_word next2 ''ELSE'' then
                   (case sequence inp fuel pos4 of None \<Rightarrow> None | Some (else_branch, pos5) \<Rightarrow>
                     (let (next3, pos6) = advance_until_separator inp pos5
                      in parse_end inp next3 ''IF'' (init_if_node condition if_branch else_branch) pos6))
                 else parse_end inp next2 ''IF'' (init_if_node condition if_branch None) pos4)))
         else if is_word next ''WHILE'' then
           (case comparison inp fuel pos1 of None \<Rightarrow> None | Some (condition, pos2) \<Rightarrow>
           (case sequence inp fuel pos2 of None \<Rightarrow> None | Some (body, pos3) \<Rightarrow>
             (let (next2, pos4) = advance_until_separator inp pos3
              in parse_end inp next2 ''WHILE'' (init_while_node condition body) pos4)))
         else Some ((None, False), pos1))"
| "sequence_loop inp 0 statements pos = None"
| "sequence_loop inp (Suc fuel) statements pos =
     (case statement inp fuel pos of
        None \<Rightarrow> None
      | Some ((next, end), pos1) \<Rightarrow>
          if end then
            (case statements of
               [s] \<Rightarrow> Some (Some s, pos1)
             | _ \<Rightarrow> Some (init_sequence_node statements, pos1))
          else (case next of
              None \<Rightarrow> Some (None, pos1)
            | Some s \<Rightarrow> sequence_loop inp fuel (statements @ [s]) pos1))"
| "sequence inp 0 pos = None"
| "sequence inp (Suc fuel) pos = sequence_loop inp fuel [] pos"

definition parse_fuel :: "nat \<Rightarrow> nat" where
  "parse_fuel n = 4 * n + 7"

definition parse :: "string \<Rightarrow> ast option" where
  "parse inp =
     (case sequence inp (parse_fuel (length inp)) 0 of
        None \<Rightarrow> None
      | Some (ast, pos) \<Rightarrow> if at_end inp pos then ast else None)"

section \<open>Enough fuel, well-formed results\<close>

text \<open>
  \<open>parses inp pos W r\<close>: a parse function called at \<open>pos\<close> returned, at a position that is neither before
  \<open>pos\<close> nor past the end of the input, with a node (or \<open>NULL\<close>) that satisfies \<open>W\<close>.
\<close>

definition parses :: "string \<Rightarrow> nat \<Rightarrow> ('a \<Rightarrow> nat \<Rightarrow> bool) \<Rightarrow> ('a \<times> nat) option \<Rightarrow> bool" where
  "parses inp pos W r = (\<exists>x pos'. r = Some (x, pos') \<and> pos \<le> pos' \<and> pos' \<le> length inp \<and> W x pos')"

abbreviation expr_node :: "ast option \<Rightarrow> nat \<Rightarrow> bool" where
  "expr_node r p \<equiv> pred_option wf_expr r"

lemma parsesI: "r = Some (x, p) \<Longrightarrow> pos \<le> p \<Longrightarrow> p \<le> length inp \<Longrightarrow> W x p \<Longrightarrow> parses inp pos W r"
  by (auto simp: parses_def)

lemma parsesE:
  assumes "parses inp pos W r"
  obtains x p where "r = Some (x, p)" "pos \<le> p" "p \<le> length inp" "W x p"
  using assms by (auto simp: parses_def)

lemma parses_later: "parses inp q W r \<Longrightarrow> pos \<le> q \<Longrightarrow> parses inp pos W r"
  by (auto simp: parses_def)

lemma parses_mono: "parses inp pos W r \<Longrightarrow> (\<And>x p. W x p \<Longrightarrow> V x p) \<Longrightarrow> parses inp pos V r"
  by (auto simp: parses_def)

lemma num_parses:
  assumes "pos \<le> length inp"
  shows "parses inp pos expr_node (Some (num inp pos))"
proof -
  obtain t q where t: "advance_until_separator inp pos = (t, q)" by (cases "advance_until_separator inp pos")
  have "num inp pos = (fst (num inp pos), q) \<and> pred_option wf_expr (fst (num inp pos))"
    by (auto simp: num_def t init_num_node_def Let_def split: option.splits prod.splits)
  with separator_bounds(1,2) [OF t] assms show ?thesis by (intro parsesI) auto
qed

lemma binary_expr:
  "arith_op op \<Longrightarrow> pred_option wf_expr l \<Longrightarrow> pred_option wf_expr r \<Longrightarrow> pred_option wf_expr (init_binary_node op l r)"
  by (cases l; cases r) (simp_all add: init_binary_node_def)

lemma factor_step:
  assumes pos: "pos \<le> length inp"
    and e: "\<And>q. pos < q \<Longrightarrow> q \<le> length inp \<Longrightarrow> parses inp q expr_node (expression inp fuel q)"
  shows "parses inp pos expr_node (factor inp (Suc fuel) pos)"
proof -
  obtain c p1 where c: "try_advance inp pos is_open_paren = (c, p1)" by (cases "try_advance inp pos is_open_paren")
  note b1 = try_advance_bounds [OF c]
  show ?thesis
  proof (cases "c = NUL")
    case True
    obtain v p2 where v: "try_advance inp p1 is_variable_name = (v, p2)"
      by (cases "try_advance inp p1 is_variable_name")
    note b2 = try_advance_bounds [OF v]
    show ?thesis
    proof (cases "v = NUL")
      case no_var: True
      have "parses inp pos expr_node (Some (num inp p2))"
        using parses_later [OF num_parses, of p2 inp pos] b1 b2 pos by simp
      with no_var True c v show ?thesis by simp
    next
      case False
      with b2 have "wf_expr (VAR v)" by (simp add: is_variable_name_def var_name_def)
      then have "pred_option wf_expr (init_var_node v)" by (simp add: init_var_node_def)
      with False True c v b1 b2 pos show ?thesis
        by (intro parsesI [where x = "init_var_node v" and p = p2]) simp_all
    qed
  next
    case False
    then obtain n p2 where n: "expression inp fuel p1 = Some (n, p2)" "p1 \<le> p2" "p2 \<le> length inp"
      "pred_option wf_expr n" using b1 e [of p1] by (auto elim: parsesE)
    obtain d p3 where d: "try_advance inp p2 is_close_paren = (d, p3)" by (cases "try_advance inp p2 is_close_paren")
    have "factor inp (Suc fuel) pos = Some (if d = NUL then None else n, p3)"
      using c False n d by simp
    then show ?thesis
      by (rule parsesI) (use b1 n try_advance_bounds [OF d] in auto)
  qed
qed

lemma term_loop_step:
  assumes pos: "pos \<le> length inp" and r: "pred_option wf_expr r"
    and f: "\<And>q. pos < q \<Longrightarrow> q \<le> length inp \<Longrightarrow> parses inp q expr_node (factor inp fuel q)"
    and t: "\<And>q r. pos < q \<Longrightarrow> q \<le> length inp \<Longrightarrow> pred_option wf_expr r \<Longrightarrow>
      parses inp q expr_node (term_loop inp fuel r q)"
  shows "parses inp pos expr_node (term_loop inp (Suc fuel) r pos)"
proof -
  obtain c p1 where c: "try_advance inp pos is_factor_op = (c, p1)" by (cases "try_advance inp pos is_factor_op")
  note b1 = try_advance_bounds [OF c]
  show ?thesis
  proof (cases "c = NUL")
    case True
    with c b1 pos r show ?thesis by (intro parsesI) auto
  next
    case False
    then obtain n p2 where n: "factor inp fuel p1 = Some (n, p2)" "p1 \<le> p2" "p2 \<le> length inp"
      "pred_option wf_expr n" using b1 f [of p1] by (auto elim: parsesE)
    have "arith_op c" using b1 False by (auto simp: is_factor_op_def arith_op_def)
    from t [OF _ n(3) binary_expr [OF this r n(4)]] b1 False n(2)
    have tail: "parses inp p2 expr_node (term_loop inp fuel (init_binary_node c r n) p2)" by simp
    have "parses inp pos expr_node (term_loop inp fuel (init_binary_node c r n) p2)"
      by (rule parses_later [OF tail]) (use b1 False n(2) in simp)
    with c False n(1) show ?thesis by simp
  qed
qed

lemma expression_loop_step:
  assumes pos: "pos \<le> length inp" and r: "pred_option wf_expr r"
    and f: "\<And>q. pos < q \<Longrightarrow> q \<le> length inp \<Longrightarrow> parses inp q expr_node (term' inp fuel q)"
    and t: "\<And>q r. pos < q \<Longrightarrow> q \<le> length inp \<Longrightarrow> pred_option wf_expr r \<Longrightarrow>
      parses inp q expr_node (expression_loop inp fuel r q)"
  shows "parses inp pos expr_node (expression_loop inp (Suc fuel) r pos)"
proof -
  obtain c p1 where c: "try_advance inp pos is_term_op = (c, p1)" by (cases "try_advance inp pos is_term_op")
  note b1 = try_advance_bounds [OF c]
  show ?thesis
  proof (cases "c = NUL")
    case True
    with c b1 pos r show ?thesis by (intro parsesI) auto
  next
    case False
    then obtain n p2 where n: "term' inp fuel p1 = Some (n, p2)" "p1 \<le> p2" "p2 \<le> length inp"
      "pred_option wf_expr n" using b1 f [of p1] by (auto elim: parsesE)
    have "arith_op c" using b1 False by (auto simp: is_term_op_def arith_op_def)
    from t [OF _ n(3) binary_expr [OF this r n(4)]] b1 False n(2)
    have tail: "parses inp p2 expr_node (expression_loop inp fuel (init_binary_node c r n) p2)" by simp
    have "parses inp pos expr_node (expression_loop inp fuel (init_binary_node c r n) p2)"
      by (rule parses_later [OF tail]) (use b1 False n(2) in simp)
    with c False n(1) show ?thesis by simp
  qed
qed

lemma term_step:
  assumes "parses inp pos expr_node (factor inp fuel pos)"
    and "\<And>q r. pos \<le> q \<Longrightarrow> q \<le> length inp \<Longrightarrow> pred_option wf_expr r \<Longrightarrow>
      parses inp q expr_node (term_loop inp fuel r q)"
  shows "parses inp pos expr_node (term' inp (Suc fuel) pos)"
proof -
  from assms(1) obtain x p where "factor inp fuel pos = Some (x, p)" "pos \<le> p" "p \<le> length inp" "pred_option wf_expr x"
    by (rule parsesE)
  with parses_later [OF assms(2)] show ?thesis by simp
qed

lemma expression_step:
  assumes "parses inp pos expr_node (term' inp fuel pos)"
    and "\<And>q r. pos \<le> q \<Longrightarrow> q \<le> length inp \<Longrightarrow> pred_option wf_expr r \<Longrightarrow>
      parses inp q expr_node (expression_loop inp fuel r q)"
  shows "parses inp pos expr_node (expression inp (Suc fuel) pos)"
proof -
  from assms(1) obtain x p where "term' inp fuel pos = Some (x, p)" "pos \<le> p" "p \<le> length inp" "pred_option wf_expr x"
    by (rule parsesE)
  with parses_later [OF assms(2)] show ?thesis by simp
qed

text \<open>Three calls at most nest for each character that is consumed.\<close>

lemma expression_levels:
  "(\<forall>pos. pos \<le> length inp \<longrightarrow> 3 * (length inp - pos) + 1 \<le> fuel \<longrightarrow> parses inp pos expr_node (factor inp fuel pos)) \<and>
   (\<forall>pos. pos \<le> length inp \<longrightarrow> 3 * (length inp - pos) + 2 \<le> fuel \<longrightarrow> parses inp pos expr_node (term' inp fuel pos)) \<and>
   (\<forall>pos r. pos \<le> length inp \<longrightarrow> pred_option wf_expr r \<longrightarrow> 3 * (length inp - pos) + 1 \<le> fuel \<longrightarrow>
      parses inp pos expr_node (term_loop inp fuel r pos)) \<and>
   (\<forall>pos. pos \<le> length inp \<longrightarrow> 3 * (length inp - pos) + 3 \<le> fuel \<longrightarrow> parses inp pos expr_node (expression inp fuel pos)) \<and>
   (\<forall>pos r. pos \<le> length inp \<longrightarrow> pred_option wf_expr r \<longrightarrow> 3 * (length inp - pos) + 1 \<le> fuel \<longrightarrow>
      parses inp pos expr_node (expression_loop inp fuel r pos))"
proof (induction fuel)
  case (Suc fuel)
  show ?case
    by (intro conjI allI impI;
        rule factor_step term_step term_loop_step expression_step expression_loop_step; use Suc in force)
qed simp

lemma expression_parses:
  "pos \<le> length inp \<Longrightarrow> 3 * (length inp - pos) + 3 \<le> fuel \<Longrightarrow> parses inp pos expr_node (expression inp fuel pos)"
  using expression_levels [of inp fuel] by blast

section \<open>Statements: progress and shape\<close>

text \<open>What a parsed program satisfies: a condition's operator may be missing (the NUL character).\<close>

fun parsed_cond :: "ast \<Rightarrow> bool" where
  "parsed_cond (BINARY_OP op l r) = ((cond_op op \<or> op = NUL) \<and> wf_expr l \<and> wf_expr r)"
| "parsed_cond _ = False"

fun wf_parsed :: "ast \<Rightarrow> bool" where
  "wf_parsed (SEQUENCE ss) = (\<forall>s \<in> set ss. wf_parsed s)"
| "wf_parsed (PRINT e) = wf_expr e"
| "wf_parsed (LET x e) = (var_name x \<and> wf_expr e)"
| "wf_parsed (IF c b None) = (parsed_cond c \<and> wf_parsed b)"
| "wf_parsed (IF c b (Some e)) = (parsed_cond c \<and> wf_parsed b \<and> wf_parsed e)"
| "wf_parsed (WHILE c b) = (parsed_cond c \<and> wf_parsed b)"
| "wf_parsed _ = False"

abbreviation seq_node :: "ast option \<Rightarrow> nat \<Rightarrow> bool" where
  "seq_node r p \<equiv> pred_option wf_parsed r"

text \<open>A statement that is not the end of its sequence has consumed something.\<close>

abbreviation stmt_node :: "nat \<Rightarrow> ast option \<times> bool \<Rightarrow> nat \<Rightarrow> bool" where
  "stmt_node pos r p \<equiv> pred_option wf_parsed (fst r) \<and> (\<not> snd r \<longrightarrow> pos < p)"

lemma some_false [simp]: "Ex Not"
  by (rule exI [of _ False]) simp

lemma comparison_parses:
  assumes "pos \<le> length inp" "3 * (length inp - pos) + 3 \<le> fuel"
  shows "parses inp pos (\<lambda>r p. pred_option parsed_cond r) (comparison inp fuel pos)"
proof -
  obtain l p1 where l: "expression inp fuel pos = Some (l, p1)" "pos \<le> p1" "p1 \<le> length inp" "pred_option wf_expr l"
    by (rule parsesE [OF expression_parses [OF assms]])
  obtain op p2 where op: "try_advance inp p1 is_comparison_op = (op, p2)"
    by (cases "try_advance inp p1 is_comparison_op")
  note b = try_advance_bounds [OF op]
  have "p2 \<le> length inp" "3 * (length inp - p2) + 3 \<le> fuel" using b l assms by auto
  then obtain r p3 where r: "expression inp fuel p2 = Some (r, p3)" "p2 \<le> p3" "p3 \<le> length inp" "pred_option wf_expr r"
    by (rule parsesE [OF expression_parses])
  have "cond_op op \<or> op = NUL" using b by (auto simp: is_comparison_op_def cond_op_def)
  then have "pred_option parsed_cond (init_binary_node op l r)"
    using l(4) r(4) by (cases l; cases r) (simp_all add: init_binary_node_def)
  with l op r b show ?thesis
    by (intro parsesI [where x = "init_binary_node op l r" and p = p3]) (simp_all add: comparison_def)
qed

lemma skip_comments_bounds: "pos \<le> length inp \<Longrightarrow> pos \<le> skip_comments inp pos \<and> skip_comments inp pos \<le> length inp"
proof (induction inp pos rule: skip_comments.induct)
  case (1 inp pos)
  obtain c p1 where c: "try_advance inp pos is_comment_start = (c, p1)"
    by (cases "try_advance inp pos is_comment_start")
  note b = try_advance_bounds [OF c]
  have line: "skip_line inp q \<le> length inp" if "q \<le> length inp" for q
    using that by (induction inp q rule: skip_line.induct) (subst skip_line.simps, auto)
  show ?case
  proof (cases "c = NUL")
    case True
    with c b "1.prems" show ?thesis by (subst (1 2) skip_comments.simps) simp
  next
    case False
    with "1.IH" [OF c [symmetric] refl False] b line [of p1] skip_line_ge [of p1 inp] c show ?thesis
      by (subst (1 2) skip_comments.simps) auto
  qed
qed

lemma parse_end_parses:
  assumes "q \<le> length inp" "pred_option wf_parsed node" "pos < q"
  shows "parses inp pos (stmt_node pos) (parse_end inp next keyword node q)"
proof -
  obtain n2 p1 where n: "advance_until_separator inp q = (n2, p1)" by (cases "advance_until_separator inp q")
  have "q \<le> p1" "p1 \<le> length inp" using separator_bounds(1,2) [OF n] assms(1) by auto
  with assms n show ?thesis by (simp add: parse_end_def parses_def)
qed

lemma print_parses:
  assumes "parses inp q expr_node (expression inp fuel q)" "pos < q"
  shows "parses inp pos (stmt_node pos) (parse_print inp fuel q)"
proof -
  from assms(1) obtain e p where "expression inp fuel q = Some (e, p)" "q \<le> p" "p \<le> length inp" "pred_option wf_expr e"
    by (rule parsesE)
  with assms(2) show ?thesis by (cases e) (simp_all add: parse_print_def parses_def init_print_node_def)
qed

lemma let_parses:
  assumes e: "\<And>p. pos < p \<Longrightarrow> p \<le> length inp \<Longrightarrow> parses inp p expr_node (expression inp fuel p)"
    and q: "pos < q" "q \<le> length inp"
  shows "parses inp pos (stmt_node pos) (parse_let inp fuel q)"
proof -
  obtain v p1 where v: "advance inp q = (v, p1)" by (cases "advance inp q")
  obtain c p2 where c: "advance inp p1 = (c, p2)" by (cases "advance inp p1")
  have b: "q \<le> p1" "p1 \<le> length inp" "p1 \<le> p2" "p2 \<le> length inp"
    using advance_bounds(2) [OF v] advance_bounds(2) [OF c] q by auto
  obtain x p3 where x: "expression inp fuel p2 = Some (x, p3)" "p2 \<le> p3" "p3 \<le> length inp" "pred_option wf_expr x"
    by (rule parsesE [OF e [of p2]]) (use b q in auto)
  have "pred_option wf_parsed (init_let_node v x)" if "is_variable_name v"
    using that x(4) by (cases x) (auto simp: init_let_node_def is_variable_name_def var_name_def)
  then show ?thesis using b q x v c by (simp add: parse_let_def parses_def)
qed

lemma if_node: "pred_option parsed_cond c \<Longrightarrow> pred_option wf_parsed t \<Longrightarrow> pred_option wf_parsed e \<Longrightarrow>
    pred_option wf_parsed (init_if_node c t e)"
  by (cases c; cases t; cases e) (simp_all add: init_if_node_def)

lemma while_node: "pred_option parsed_cond c \<Longrightarrow> pred_option wf_parsed b \<Longrightarrow> pred_option wf_parsed (init_while_node c b)"
  by (cases c; cases b) (simp_all add: init_while_node_def)


lemma if_parses:
  assumes c: "\<And>p. pos < p \<Longrightarrow> p \<le> length inp \<Longrightarrow> parses inp p (\<lambda>r p. pred_option parsed_cond r) (comparison inp fuel p)"
    and s: "\<And>p. pos < p \<Longrightarrow> p \<le> length inp \<Longrightarrow> parses inp p seq_node (sequence inp fuel p)"
    and q: "pos < q" "q \<le> length inp"
  shows "parses inp pos (stmt_node pos)
    (case comparison inp fuel q of None \<Rightarrow> None | Some (condition, pos2) \<Rightarrow>
     (case sequence inp fuel pos2 of None \<Rightarrow> None | Some (if_branch, pos3) \<Rightarrow>
       (let (next2, pos4) = advance_until_separator inp pos3
        in if is_word next2 ''ELSE'' then
             (case sequence inp fuel pos4 of None \<Rightarrow> None | Some (else_branch, pos5) \<Rightarrow>
               (let (next3, pos6) = advance_until_separator inp pos5
                in parse_end inp next3 ''IF'' (init_if_node condition if_branch else_branch) pos6))
           else parse_end inp next2 ''IF'' (init_if_node condition if_branch None) pos4)))"
proof -
  obtain cn p2 where cn: "comparison inp fuel q = Some (cn, p2)" "q \<le> p2" "p2 \<le> length inp" "pred_option parsed_cond cn"
    by (rule parsesE [OF c [OF q]])
  obtain t p3 where t: "sequence inp fuel p2 = Some (t, p3)" "p2 \<le> p3" "p3 \<le> length inp" "pred_option wf_parsed t"
    by (rule parsesE [OF s [of p2]]) (use q cn in auto)
  obtain n2 p4 where n2: "advance_until_separator inp p3 = (n2, p4)" by (cases "advance_until_separator inp p3")
  have b4: "p3 \<le> p4" "p4 \<le> length inp" using separator_bounds(1,2) [OF n2] t by auto
  obtain e p5 where e: "sequence inp fuel p4 = Some (e, p5)" "p4 \<le> p5" "p5 \<le> length inp" "pred_option wf_parsed e"
    by (rule parsesE [OF s [of p4]]) (use q cn t b4 in auto)
  obtain n3 p6 where n3: "advance_until_separator inp p5 = (n3, p6)" by (cases "advance_until_separator inp p5")
  have b6: "p5 \<le> p6" "p6 \<le> length inp" using separator_bounds(1,2) [OF n3] e by auto
  have "parses inp pos (stmt_node pos) (parse_end inp n3 ''IF'' (init_if_node cn t e) p6)"
    "parses inp pos (stmt_node pos) (parse_end inp n2 ''IF'' (init_if_node cn t None) p4)"
    using if_node [OF cn(4) t(4)] e(4) b4 b6 q cn(2) t(2) e(2) by (intro parse_end_parses; simp)+
  with cn(1) t(1) n2 e(1) n3 show ?thesis by simp
qed

lemma while_parses:
  assumes c: "\<And>p. pos < p \<Longrightarrow> p \<le> length inp \<Longrightarrow> parses inp p (\<lambda>r p. pred_option parsed_cond r) (comparison inp fuel p)"
    and s: "\<And>p. pos < p \<Longrightarrow> p \<le> length inp \<Longrightarrow> parses inp p seq_node (sequence inp fuel p)"
    and q: "pos < q" "q \<le> length inp"
  shows "parses inp pos (stmt_node pos)
    (case comparison inp fuel q of None \<Rightarrow> None | Some (condition, pos2) \<Rightarrow>
     (case sequence inp fuel pos2 of None \<Rightarrow> None | Some (body, pos3) \<Rightarrow>
       (let (next2, pos4) = advance_until_separator inp pos3
        in parse_end inp next2 ''WHILE'' (init_while_node condition body) pos4)))"
proof -
  obtain cn p2 where cn: "comparison inp fuel q = Some (cn, p2)" "q \<le> p2" "p2 \<le> length inp" "pred_option parsed_cond cn"
    by (rule parsesE [OF c [OF q]])
  obtain t p3 where t: "sequence inp fuel p2 = Some (t, p3)" "p2 \<le> p3" "p3 \<le> length inp" "pred_option wf_parsed t"
    by (rule parsesE [OF s [of p2]]) (use q cn in auto)
  obtain n2 p4 where n2: "advance_until_separator inp p3 = (n2, p4)" by (cases "advance_until_separator inp p3")
  have "p3 \<le> p4" "p4 \<le> length inp" using separator_bounds(1,2) [OF n2] t by auto
  then have "parses inp pos (stmt_node pos) (parse_end inp n2 ''WHILE'' (init_while_node cn t) p4)"
    using while_node [OF cn(4) t(4)] q cn(2) t(2) by (intro parse_end_parses) simp_all
  with cn(1) t(1) n2 show ?thesis by simp
qed

lemma statement_step:
  assumes pos: "pos \<le> length inp"
    and e: "\<And>p. pos < p \<Longrightarrow> p \<le> length inp \<Longrightarrow> parses inp p expr_node (expression inp fuel p)"
    and c: "\<And>p. pos < p \<Longrightarrow> p \<le> length inp \<Longrightarrow> parses inp p (\<lambda>r p. pred_option parsed_cond r) (comparison inp fuel p)"
    and s: "\<And>p. pos < p \<Longrightarrow> p \<le> length inp \<Longrightarrow> parses inp p seq_node (sequence inp fuel p)"
  shows "parses inp pos (stmt_node pos) (statement inp (Suc fuel) pos)"
proof -
  let ?start = "skip_comments inp pos"
  have b0: "pos \<le> ?start" "?start \<le> length inp" using skip_comments_bounds [OF pos] by auto
  obtain n p1 where n: "advance_until_separator inp ?start = (n, p1)" by (cases "advance_until_separator inp ?start")
  have b1: "?start \<le> p1" "p1 \<le> length inp" using separator_bounds(1,2) [OF n] b0 by auto
  obtain n2 p2 where n2: "advance_until_separator inp p1 = (n2, p2)" by (cases "advance_until_separator inp p1")
  have b2: "p1 \<le> p2" "p2 \<le> length inp" using separator_bounds(1,2) [OF n2] b1 by auto
  show ?thesis
  proof (cases "n = None")
    case True
    then show ?thesis using n b0 b1 by (simp add: parses_def)
  next
    case False
    then have p1: "pos < p1" using separator_bounds(3) [OF n] b0 by auto
    note parts = if_parses [OF c s p1 b1(2)] while_parses [OF c s p1 b1(2)] let_parses [OF e p1 b1(2)]
      print_parses [OF e [OF p1 b1(2)] p1]
    have stop: "parses inp pos (stmt_node pos) (Some ((None, True), ?start))"
      "parses inp pos (stmt_node pos) (Some ((None, False), p2))"
      "parses inp pos (stmt_node pos) (Some ((None, False), p1))"
      using b0 b1 b2 p1 by (simp_all add: parses_def)
    show ?thesis unfolding statement.simps Let_def n n2 prod.case
      using False parts [unfolded Let_def] stop by (simp only: if_False split: if_split) blast
  qed
qed

lemma sequence_loop_step:
  assumes pos: "pos \<le> length inp" and acc: "\<forall>s \<in> set acc. wf_parsed s"
    and st: "parses inp pos (stmt_node pos) (statement inp fuel pos)"
    and loop: "\<And>q acc. pos < q \<Longrightarrow> q \<le> length inp \<Longrightarrow> \<forall>s \<in> set acc. wf_parsed s \<Longrightarrow>
      parses inp q seq_node (sequence_loop inp fuel acc q)"
  shows "parses inp pos seq_node (sequence_loop inp (Suc fuel) acc pos)"
proof -
  obtain n e p where n: "statement inp fuel pos = Some ((n, e), p)" "pos \<le> p" "p \<le> length inp"
    "pred_option wf_parsed n" "\<not> e \<longrightarrow> pos < p"
    using st by (auto elim!: parsesE)
  show ?thesis
  proof (cases "e \<or> n = None")
    case True
    have "\<exists>r. sequence_loop inp (Suc fuel) acc pos = Some (r, p) \<and> pred_option wf_parsed r"
      using True n(1) acc by (auto simp: init_sequence_node_def split: list.splits)
    with n(2,3) show ?thesis by (auto simp: parses_def)
  next
    case False
    then obtain s where s: "n = Some s" by auto
    have "parses inp p seq_node (sequence_loop inp fuel (acc @ [s]) p)"
      by (rule loop) (use n False s acc in auto)
    then have "parses inp pos seq_node (sequence_loop inp fuel (acc @ [s]) p)"
      using n(2) by (rule parses_later)
    with n(1) False s show ?thesis by simp
  qed
qed

text \<open>Four calls at most nest for each character, and the constant covers the last ones.\<close>

lemma statement_levels:
  "(\<forall>pos. pos \<le> length inp \<longrightarrow> 4 * (length inp - pos) + 5 \<le> fuel \<longrightarrow>
      parses inp pos (stmt_node pos) (statement inp fuel pos)) \<and>
   (\<forall>pos acc. pos \<le> length inp \<longrightarrow> (\<forall>s \<in> set acc. wf_parsed s) \<longrightarrow> 4 * (length inp - pos) + 6 \<le> fuel \<longrightarrow>
      parses inp pos seq_node (sequence_loop inp fuel acc pos)) \<and>
   (\<forall>pos. pos \<le> length inp \<longrightarrow> parse_fuel (length inp - pos) \<le> fuel \<longrightarrow>
      parses inp pos seq_node (sequence inp fuel pos))"
proof (induction fuel)
  case 0
  then show ?case by (simp add: parse_fuel_def)
next
  case (Suc fuel)
  show ?case
  proof (intro conjI allI impI)
    fix pos assume pos: "pos \<le> length inp" "4 * (length inp - pos) + 5 \<le> Suc fuel"
    have "3 * (length inp - p) + 3 \<le> fuel" "parse_fuel (length inp - p) \<le> fuel"
      if "pos < p" "p \<le> length inp" for p
      using that pos by (auto simp: parse_fuel_def)
    then show "parses inp pos (stmt_node pos) (statement inp (Suc fuel) pos)"
      using Suc.IH by (intro statement_step pos(1) expression_parses comparison_parses) blast+
  next
    fix pos acc assume pos: "pos \<le> length inp" "4 * (length inp - pos) + 6 \<le> Suc fuel" and acc: "\<forall>s \<in> set acc. wf_parsed s"
    have "4 * (length inp - p) + 6 \<le> fuel" if "pos < p" "p \<le> length inp" for p using that pos by auto
    moreover have "4 * (length inp - pos) + 5 \<le> fuel" using pos by simp
    ultimately show "parses inp pos seq_node (sequence_loop inp (Suc fuel) acc pos)"
      using Suc.IH pos(1) acc by (intro sequence_loop_step) blast+
  next
    fix pos assume "pos \<le> length inp" "parse_fuel (length inp - pos) \<le> Suc fuel"
    then show "parses inp pos seq_node (sequence inp (Suc fuel) pos)"
      using Suc.IH by (simp add: parse_fuel_def)
  qed
qed

lemma sequence_parses: "parses inp 0 seq_node (sequence inp (parse_fuel (length inp)) 0)"
  using statement_levels [of inp "parse_fuel (length inp)"] by auto

end
