(* ===== verification/BasicMain.thy ===== *)
theory BasicMain
  imports BasicProgram BasicParser
begin

text \<open>
  The compiler's \<open>main\<close> (\<open>project02b-wduan/src/compiler.c\<close>) over the parser and the code generator,
  and what the parser promises them.
\<close>

section \<open>The program\<close>

text \<open>\<open>fopen path\<close> is the contents of the file or nothing; the result is what goes to \<open>stdout\<close> and
\<open>stderr\<close> and the exit status.\<close>

definition usage :: "string \<Rightarrow> string" where
  "usage program = ''USAGE: '' @ program @ '' <program file>'' @ nl"

definition header :: string where
  "header = assembly_text header_code"

definition footer :: string where
  "footer = concat (map show_instr footer_code)"

definition compiler_main :: "string list \<Rightarrow> (string \<Rightarrow> string option) \<Rightarrow> (string \<times> string \<times> nat) result" where
  "compiler_main argv fopen =
     (if length argv \<noteq> 2 then Inr ([], usage (argv ! 0), 1)
      else (case fopen (argv ! 1) of
          None \<Rightarrow> Inr ([], usage (argv ! 0), 1)
        | Some program \<Rightarrow>
            (case parse program of
               None \<Rightarrow> Inr (header, ''Parse error'' @ nl, 2)
             | Some ast \<Rightarrow>
                 ebind (compile_ast ast (0, 0)) (\<lambda>(code, ids).
                   Inr (header @ concat (map show_instr code) @ footer, print_ast ast, 0)))))"

section \<open>The compiler stops only on a trap\<close>

lemma signed_div_errors:
  "signed_div a b = Inl e \<longleftrightarrow> e = Arith_Trap \<and> (b = 0 \<or> (sint a = - (2 ^ 63) \<and> sint b = -1))"
  by (auto simp: signed_div_def)

lemma fold_errors: "fold_ast n = Inl e \<Longrightarrow> e = Arith_Trap"
  by (induction n rule: fold_ast.induct)
     (auto simp: ebind_eq_Inl signed_div_errors split: if_splits)

lemma parsed_cond_op: "parsed_cond c \<Longrightarrow> \<exists>op. condition_op c = Inr op"
  by (cases c) auto

lemma parsed_cond_compiles:
  assumes "\<And>ids. compile_ast l ids = Inl e \<Longrightarrow> e = Arith_Trap" "\<And>ids. compile_ast r ids = Inl e \<Longrightarrow> e = Arith_Trap"
    "compile_ast (BINARY_OP op l r) ids = Inl e"
  shows "e = Arith_Trap"
  using assms(3) unfolding compile_ast.simps [of "BINARY_OP op l r"]
  by (auto simp: ebind_eq_Inl signed_div_errors split: if_splits dest: fold_errors assms(1,2))

lemma compile_errors_expr: "wf_expr n \<Longrightarrow> compile_ast n ids = Inl e \<Longrightarrow> e = Arith_Trap"
proof (induction n arbitrary: ids)
  case (BINARY_OP op l r)
  then show ?case using parsed_cond_compiles [of l e r op ids] by auto
qed auto

lemma compile_errors_cond: "parsed_cond n \<Longrightarrow> compile_ast n ids = Inl e \<Longrightarrow> e = Arith_Trap"
  by (cases n) (auto intro: parsed_cond_compiles dest: compile_errors_expr)

lemma compile_errors: "wf_parsed n \<Longrightarrow> compile_ast n ids = Inl e \<Longrightarrow> e = Arith_Trap"
proof (induction n arbitrary: ids)
  case (SEQUENCE ss)
  have "e = Arith_Trap" if "compile_seq ss ids = Inl e"
    "\<And>s ids. s \<in> set ss \<Longrightarrow> compile_ast s ids = Inl e \<Longrightarrow> e = Arith_Trap" for ss ids
    using that
  proof (induction ss arbitrary: ids)
    case (Cons s ss)
    from Cons.prems(1) consider "compile_ast s ids = Inl e" | ids1 where "compile_seq ss ids1 = Inl e"
      by (auto simp: ebind_eq_Inl)
    then show ?case
    proof cases
      case 1
      then show ?thesis by (rule Cons.prems(2) [OF list.set_intros(1)])
    next
      case 2
      then show ?thesis by (rule Cons.IH) (rule Cons.prems(2) [OF list.set_intros(2)])
    qed
  qed simp
  then show ?case using SEQUENCE.IH SEQUENCE.prems unfolding compile_sequence wf_parsed.simps by blast
next
  case (PRINT x)
  then show ?case by (auto simp: ebind_eq_Inl dest: compile_errors_expr)
next
  case (LET x v)
  then show ?case by (auto simp: ebind_eq_Inl dest: compile_errors_expr)
next
  case (IF c b els)
  have wf: "parsed_cond c" "wf_parsed b" using IF.prems(1) by (cases els; simp)+
  obtain op where "condition_op c = Inr op" using parsed_cond_op [OF wf(1)] by blast
  with IF.prems(2) show ?case
    using wf IF.IH(2) IF.IH(3) IF.prems(1)
    by (cases els) (auto simp: ebind_eq_Inl dest: compile_errors_cond [OF wf(1)])
next
  case (WHILE c b)
  obtain i w where ids: "ids = (i, w)" by (cases ids)
  have wf: "parsed_cond c" "wf_parsed b" using WHILE.prems(1) by simp_all
  obtain op where "condition_op c = Inr op" using parsed_cond_op [OF wf(1)] by blast
  with WHILE.prems(2) show ?case unfolding ids
    using wf WHILE.IH(2) compile_errors_cond [OF wf(1)] by (auto simp: ebind_eq_Inl)
qed auto

lemma parse_wf: "parse inp = Some n \<Longrightarrow> wf_parsed n"
  using sequence_parses [of inp] by (auto simp: parse_def parses_def split: if_splits)

lemma main_text:
  "compile_ast n (0, 0) = Inr (c, ids) \<Longrightarrow>
   compile_program n = Inr (header_code @ c @ footer_code) \<and>
   header @ concat (map show_instr c) @ footer = assembly_text (header_code @ c @ footer_code)"
  by (simp add: compile_program_def header_def footer_def assembly_text_def)

section \<open>Properties\<close>

text \<open>C26: the parser returns on every input, with the fuel \<open>parse\<close> gives it, at a position inside the
file. In a tree it returns names are capital letters, arithmetic operators and statements are in their place,
and a condition compares two expressions by one of its three operators or by none at all: the
operator may be the character NUL, which \<open>ast.h\<close> does not list.\<close>

theorem parser_returns:
  "\<exists>r pos. sequence inp (parse_fuel (length inp)) 0 = Some (r, pos) \<and> pos \<le> length inp \<and>
     pred_option wf_parsed r \<and> parse inp = (if at_end inp pos then r else None)"
proof -
  obtain r pos where "sequence inp (parse_fuel (length inp)) 0 = Some (r, pos)" "pos \<le> length inp"
    "pred_option wf_parsed r" by (rule parsesE [OF sequence_parses])
  then show ?thesis by (intro exI [of _ r] exI [of _ pos]) (simp add: parse_def)
qed

text \<open>The outcome of the compiler on any command line with one argument: status 1 exactly when the
file cannot be opened, 2 exactly when it does not parse, 0 with the assembly text of the compiled
program, or a trap while it folds a constant division.\<close>

theorem compiler_main_outcome:
  "case compiler_main [program, path] fopen of
     Inl e \<Rightarrow> e = Arith_Trap
   | Inr (stdout, stderr, status) \<Rightarrow>
       status \<in> {0, 1, 2} \<and>
       (status = 1 \<longleftrightarrow> fopen path = None) \<and>
       (status = 2 \<longleftrightarrow> (\<exists>src. fopen path = Some src \<and> parse src = None)) \<and>
       (status = 0 \<longleftrightarrow> (\<exists>src n P. fopen path = Some src \<and> parse src = Some n \<and>
          compile_program n = Inr P \<and> stdout = assembly_text P \<and> stderr = print_ast n))"
proof (cases "fopen path")
  case None
  then show ?thesis by (simp add: compiler_main_def)
next
  case src: (Some src)
  show ?thesis
  proof (cases "parse src")
    case None
    with src show ?thesis by (simp add: compiler_main_def)
  next
    case n: (Some n)
    show ?thesis
    proof (cases "compile_ast n (0, 0)")
      case (Inl e)
      with n src show ?thesis using compile_errors [OF parse_wf [OF n]] by (auto simp: compiler_main_def)
    next
      case (Inr r)
      obtain c ids where "r = (c, ids)" by (cases r)
      with Inr n src main_text [of n c ids] show ?thesis by (auto simp: compiler_main_def)
    qed
  qed
qed

text \<open>\<open>ast.h\<close> says a condition's operator is less, equal or greater; the parser accepts a
condition without one, and the code it leads to runs the loop body without any test.\<close>

theorem parser_accepts_missing_operator:
  "parse ''WHILE 1 2 PRINT 3 END WHILE'' = Some (WHILE (BINARY_OP NUL (NUM 1) (NUM 2)) (PRINT (NUM 3))) \<and>
   compile_ast (WHILE (BINARY_OP NUL (NUM 1) (NUM 2)) (PRINT (NUM 3))) (0, 0) =
     Inr ([Label (L_WHILE 0), Mov_imm_rdi 2, Push_rdi, Mov_imm_rdi 1, Pop_r10, Cmp_r10_rdi,
           Mov_imm_rdi 3, Call_print_int, Jmp (L_WHILE 0), Label (L_ENDWHILE 0)], (0, 1))"
  by code_simp

text \<open>An error inside an \<open>ELSE\<close> branch is lost: the branch comes back as \<open>NULL\<close>, which
\<open>init_if_node\<close> takes for a missing \<open>ELSE\<close>, and the program is accepted without it.\<close>

theorem parser_drops_else_error:
  "parse ''IF 1 = 2 PRINT 1 ELSE BOGUS END IF'' =
     Some (IF (BINARY_OP (CHR ''='') (NUM 1) (NUM 2)) (PRINT (NUM 1)) None) \<and>
   parse ''BOGUS'' = None"
  by code_simp

end
