(* ===== verification/ClassFile.thy ===== *)
theory ClassFile
  imports Prelude
begin

text \<open>
  The class-file reader of TeenyJVM (\<open>project01-wduan/read_class.c\<close>, \<open>class_file.h\<close>): big-endian
  integers, the constant pool, the methods with their code, and the look-ups the machine does in
  them. A stream is the file's bytes and a position; every \<open>assert\<close> is a branch. Operands of \<open>|\<close>
  are read left to right, the order the code relies on.
\<close>

unbundle bit_operations_syntax

section \<open>Data\<close>

datatype cp_info =
    CONSTANT_Utf8 bytes
  | CONSTANT_Integer u32
  | CONSTANT_Class u16
  | CONSTANT_Fieldref u16 u16       \<comment> \<open>class, name and type\<close>
  | CONSTANT_Methodref u16 u16
  | CONSTANT_NameAndType u16 u16    \<comment> \<open>name, descriptor\<close>

record code_t =
  max_stack :: u16
  max_locals :: u16
  code_length :: u32
  code :: bytes

record method_t =
  method_name :: string
  descriptor :: string
  method_code :: code_t

record class_file_t =
  constant_pool :: "cp_info list"
  methods :: "method_t list"

definition CLASS_MAGIC :: u32 where "CLASS_MAGIC = 0xCAFEBABE"
definition IS_STATIC :: u16 where "IS_STATIC = 0x0008"

section \<open>Reading integers\<close>

type_synonym 'a reader = "bytes \<Rightarrow> nat \<Rightarrow> ('a \<times> nat) result"

definition read_u1 :: "u8 reader" where
  "read_u1 f pos = (if pos < length f then Inr (f ! pos, pos + 1) else Inl Assert_Failed)"

definition read_u2 :: "u16 reader" where
  "read_u2 f pos =
     ebind (read_u1 f pos) (\<lambda>(hi, pos).
     ebind (read_u1 f pos) (\<lambda>(lo, pos).
       Inr (push_bit 8 (ucast hi) OR ucast lo, pos)))"

definition read_u4 :: "u32 reader" where
  "read_u4 f pos =
     ebind (read_u2 f pos) (\<lambda>(hi, pos).
     ebind (read_u2 f pos) (\<lambda>(lo, pos).
       Inr (push_bit 16 (ucast hi) OR ucast lo, pos)))"

text \<open>\<open>fread\<close> of \<open>n\<close> bytes whose result is asserted to be complete.\<close>

definition read_bytes :: "nat \<Rightarrow> bytes reader" where
  "read_bytes n f pos =
     (let bs = take n (drop pos f)
      in if length bs = n then Inr (bs, pos + n) else Inl Assert_Failed)"

fun read_many :: "'a reader \<Rightarrow> nat \<Rightarrow> ('a list) reader" where
  "read_many rd 0 f pos = Inr ([], pos)"
| "read_many rd (Suc n) f pos =
     ebind (rd f pos) (\<lambda>(x, pos).
     ebind (read_many rd n f pos) (\<lambda>(xs, pos). Inr (x # xs, pos)))"

section \<open>Looking up constants and methods\<close>

text \<open>\<open>constant_pool_size\<close> counts up to the \<open>NULL\<close> that ends the array: the length of the list.\<close>

definition constant_pool_size :: "cp_info list \<Rightarrow> nat" where
  "constant_pool_size pool = length pool"

definition get_constant :: "cp_info list \<Rightarrow> u16 \<Rightarrow> cp_info result" where
  "get_constant pool index =
     ebind (c_assert (0 < index \<and> unat index \<le> constant_pool_size pool))
       (\<lambda>_. Inr (pool ! (unat index - 1)))"

fun as_utf8 :: "cp_info \<Rightarrow> string result" where
  "as_utf8 (CONSTANT_Utf8 bs) = Inr (c_string bs)"
| "as_utf8 _ = Inl Assert_Failed"

fun name_and_type_index :: "cp_info \<Rightarrow> u16 result" where
  "name_and_type_index (CONSTANT_Methodref cls nt) = Inr nt"
| "name_and_type_index _ = Inl Assert_Failed"

fun as_name_and_type :: "cp_info \<Rightarrow> (u16 \<times> u16) result" where
  "as_name_and_type (CONSTANT_NameAndType n d) = Inr (n, d)"
| "as_name_and_type _ = Inl Assert_Failed"

definition get_method_name_and_type :: "cp_info list \<Rightarrow> u16 \<Rightarrow> (u16 \<times> u16) result" where
  "get_method_name_and_type pool index =
     ebind (get_constant pool index) (\<lambda>c.
     ebind (name_and_type_index c) (\<lambda>nt.
     ebind (get_constant pool nt) (\<lambda>c2. as_name_and_type c2)))"

text \<open>\<open>strchr\<close>: the index of the first occurrence.\<close>

fun index_of :: "char \<Rightarrow> string \<Rightarrow> nat option" where
  "index_of c [] = None"
| "index_of c (d # s) = (if d = c then Some 0 else map_option Suc (index_of c s))"

text \<open>The loop over the descriptor from \<open>start\<close> to \<open>end\<close>: a \<open>[\<close> is skipped together with the next character.\<close>

function count_params :: "string \<Rightarrow> nat \<Rightarrow> nat \<Rightarrow> u16 \<Rightarrow> u16" where
  "count_params d start end params =
     (if start < end then
        count_params d (if d ! start = CHR ''['' then start + 2 else start + 1) end (params + 1)
      else params)"
  by pat_completeness auto
termination by (relation "measure (\<lambda>(d, start, end, params). end - start)") (auto split: if_splits)

declare count_params.simps [simp del]

text \<open>Without a closing parenthesis \<open>end\<close> is \<open>NULL\<close>, below every \<open>start\<close>; without an opening one the
loop starts at \<open>NULL\<close>.\<close>

definition get_number_of_parameters :: "method_t \<Rightarrow> u16 result" where
  "get_number_of_parameters m =
     (case index_of (CHR ''('') (descriptor m) of
        None \<Rightarrow> Inl Undefined
      | Some start \<Rightarrow>
          (case index_of (CHR '')'') (descriptor m) of
             None \<Rightarrow> Inr 0
           | Some end \<Rightarrow> Inr (count_params (descriptor m) (start + 1) end 0)))"

fun find_method_in :: "method_t list \<Rightarrow> string \<Rightarrow> string \<Rightarrow> method_t option" where
  "find_method_in [] name desc = None"
| "find_method_in (m # ms) name desc =
     (if strcmp (method_name m) name = 0 \<and> strcmp (descriptor m) desc = 0 then Some m
      else find_method_in ms name desc)"

definition find_method :: "string \<Rightarrow> string \<Rightarrow> class_file_t \<Rightarrow> method_t option" where
  "find_method name desc cls = find_method_in (methods cls) name desc"

definition find_method_from_index :: "u16 \<Rightarrow> class_file_t \<Rightarrow> method_t option result" where
  "find_method_from_index index cls =
     ebind (get_method_name_and_type (constant_pool cls) index) (\<lambda>(ni, di).
     ebind (get_constant (constant_pool cls) ni) (\<lambda>nc.
     ebind (as_utf8 nc) (\<lambda>name.
     ebind (get_constant (constant_pool cls) di) (\<lambda>dc.
     ebind (as_utf8 dc) (\<lambda>desc. Inr (find_method name desc cls))))))"

section \<open>Reading a class\<close>

definition get_class_header :: "(u32 \<times> u16 \<times> u16) reader" where
  "get_class_header f pos =
     ebind (read_u4 f pos) (\<lambda>(magic, pos).
     ebind (c_assert (magic = CLASS_MAGIC)) (\<lambda>_.
     ebind (read_u2 f pos) (\<lambda>(major, pos).
     ebind (read_u2 f pos) (\<lambda>(minor, pos). Inr ((magic, major, minor), pos)))))"

text \<open>One turn of the loop in \<open>get_constant_pool\<close>.\<close>

definition read_constant :: "cp_info reader" where
  "read_constant f pos =
     ebind (read_u1 f pos) (\<lambda>(tag, pos).
       if tag = 1 then
         ebind (read_u2 f pos) (\<lambda>(n, pos).
         ebind (read_bytes (unat n) f pos) (\<lambda>(bs, pos). Inr (CONSTANT_Utf8 bs, pos)))
       else if tag = 3 then
         ebind (read_u4 f pos) (\<lambda>(v, pos). Inr (CONSTANT_Integer v, pos))
       else if tag = 7 then
         ebind (read_u2 f pos) (\<lambda>(i, pos). Inr (CONSTANT_Class i, pos))
       else if tag = 10 \<or> tag = 9 then
         ebind (read_u2 f pos) (\<lambda>(c, pos).
         ebind (read_u2 f pos) (\<lambda>(nt, pos).
           Inr (if tag = 10 then CONSTANT_Methodref c nt else CONSTANT_Fieldref c nt, pos)))
       else if tag = 12 then
         ebind (read_u2 f pos) (\<lambda>(n, pos).
         ebind (read_u2 f pos) (\<lambda>(d, pos). Inr (CONSTANT_NameAndType n d, pos)))
       else Inl Assert_Failed)"

text \<open>The count in the file includes the unused constant 0; \<open>u2\<close> arithmetic makes a count of 0 wrap.\<close>

definition get_constant_pool :: "cp_info list reader" where
  "get_constant_pool f pos =
     ebind (read_u2 f pos) (\<lambda>(count, pos). read_many read_constant (unat (count - 1)) f pos)"

definition get_class_info :: "(u16 \<times> u16 \<times> u16) reader" where
  "get_class_info f pos =
     ebind (read_u2 f pos) (\<lambda>(access_flags, pos).
     ebind (read_u2 f pos) (\<lambda>(this_class, pos).
     ebind (read_u2 f pos) (\<lambda>(super_class, pos).
     ebind (read_u2 f pos) (\<lambda>(interfaces, pos).
     ebind (c_assert (interfaces = 0)) (\<lambda>_.
     ebind (read_u2 f pos) (\<lambda>(fields, pos).
     ebind (c_assert (fields = 0)) (\<lambda>_. Inr ((access_flags, this_class, super_class), pos))))))))"

definition read_code :: "code_t reader" where
  "read_code f pos =
     ebind (read_u2 f pos) (\<lambda>(stack, pos).
     ebind (read_u2 f pos) (\<lambda>(locals, pos).
     ebind (read_u4 f pos) (\<lambda>(len, pos).
     ebind (read_bytes (unat len) f pos) (\<lambda>(bs, pos).
       Inr (\<lparr>max_stack = stack, max_locals = locals, code_length = len, code = bs\<rparr>, pos)))))"

text \<open>The loop over a method's attributes; \<open>found\<close> is \<open>found_code\<close> with the code. Whatever an attribute
holds, the stream is put behind it.\<close>

fun read_method_attributes :: "nat \<Rightarrow> cp_info list \<Rightarrow> code_t option \<Rightarrow> code_t reader" where
  "read_method_attributes 0 pool found f pos =
     (case found of None \<Rightarrow> Inl Assert_Failed | Some c \<Rightarrow> Inr (c, pos))"
| "read_method_attributes (Suc n) pool found f pos =
     ebind (read_u2 f pos) (\<lambda>(name_index, pos).
     ebind (read_u4 f pos) (\<lambda>(len, pos).
     ebind (get_constant pool name_index) (\<lambda>c.
     ebind (as_utf8 c) (\<lambda>name.
       if strcmp name ''Code'' = 0 then
         ebind (c_assert (found = None)) (\<lambda>_.
         ebind (read_code f pos) (\<lambda>(code, _).
           read_method_attributes n pool (Some code) f (pos + unat len)))
       else read_method_attributes n pool found f (pos + unat len)))))"

definition read_method :: "cp_info list \<Rightarrow> method_t reader" where
  "read_method pool f pos =
     ebind (read_u2 f pos) (\<lambda>(access_flags, pos).
     ebind (read_u2 f pos) (\<lambda>(name_index, pos).
     ebind (read_u2 f pos) (\<lambda>(descriptor_index, pos).
     ebind (read_u2 f pos) (\<lambda>(attributes, pos).
     ebind (get_constant pool name_index) (\<lambda>nc.
     ebind (as_utf8 nc) (\<lambda>name.
     ebind (get_constant pool descriptor_index) (\<lambda>dc.
     ebind (as_utf8 dc) (\<lambda>desc.
     ebind (c_assert (strcmp name ''<init>'' \<noteq> 0 \<longrightarrow> access_flags AND IS_STATIC \<noteq> 0)) (\<lambda>_.
     ebind (read_method_attributes (unat attributes) pool None f pos) (\<lambda>(code, pos).
       Inr (\<lparr>method_name = name, descriptor = desc, method_code = code\<rparr>, pos)))))))))))"

definition get_methods :: "cp_info list \<Rightarrow> method_t list reader" where
  "get_methods pool f pos =
     ebind (read_u2 f pos) (\<lambda>(count, pos). read_many (read_method pool) (unat count) f pos)"

definition get_class :: "bytes \<Rightarrow> class_file_t result" where
  "get_class f =
     ebind (get_class_header f 0) (\<lambda>(_, pos).
     ebind (get_constant_pool f pos) (\<lambda>(pool, pos).
     ebind (get_class_info f pos) (\<lambda>(_, pos).
     ebind (get_methods pool f pos) (\<lambda>(ms, pos).
       Inr \<lparr>constant_pool = pool, methods = ms\<rparr>))))"

text \<open>\<open>free_class\<close>: the blocks it frees, constants first.\<close>

datatype class_block = Constant_info nat | Pool_array | Method_bytes nat | Method_array | Class_struct

definition free_class :: "class_file_t \<Rightarrow> class_block list" where
  "free_class cls =
     map Constant_info [0..<length (constant_pool cls)] @ [Pool_array] @
     map Method_bytes [0..<length (methods cls)] @ [Method_array, Class_struct]"

section \<open>Encodings\<close>

text \<open>
  What a reader promises of a layout: from a position where the bytes of \<open>x\<close> stand it returns what
  \<open>x\<close> stands for and moves behind them. Repeating the reader then reads a list.
\<close>

locale codec =
  fixes enc :: "'a \<Rightarrow> bytes" and dec :: "'b reader" and view :: "'a \<Rightarrow> 'b" and ok :: "'a \<Rightarrow> bool"
  assumes dec_enc: "ok x \<Longrightarrow> drop pos f = enc x @ rest \<Longrightarrow> dec f pos = Inr (view x, pos + length (enc x))"
begin

lemma read_many_enc:
  "\<forall>x \<in> set xs. ok x \<Longrightarrow> drop pos f = concat (map enc xs) @ rest \<Longrightarrow>
   read_many dec (length xs) f pos = Inr (map view xs, pos + length (concat (map enc xs)))"
proof (induction xs arbitrary: pos)
  case (Cons x xs)
  have "dec f pos = Inr (view x, pos + length (enc x))"
    by (rule dec_enc) (use Cons.prems in simp_all)
  moreover have "drop (pos + length (enc x)) f = concat (map enc xs) @ rest"
    using Cons.prems(2) by (simp add: drop_drop [symmetric] add.commute [of pos])
  ultimately show ?case using Cons by (simp add: add.assoc)
qed simp

lemma dec_whole: "ok x \<Longrightarrow> dec (enc x) 0 = Inr (view x, length (enc x))"
  using dec_enc [of x 0 "enc x" "[]"] by simp

end

lemma drop_behind: "drop pos f = a @ b \<Longrightarrow> drop (pos + length a) f = b"
  by (simp add: drop_drop [symmetric] add.commute [of pos])

definition put_u2 :: "u16 \<Rightarrow> bytes" where
  "put_u2 w = [ucast (drop_bit 8 w), ucast w]"

definition put_u4 :: "u32 \<Rightarrow> bytes" where
  "put_u4 w = put_u2 (ucast (drop_bit 16 w)) @ put_u2 (ucast w)"

lemma length_put [simp]: "length (put_u2 v) = 2" "length (put_u4 w) = 4"
  by (simp_all add: put_u2_def put_u4_def)

lemma read_u1_at: "drop pos f = b # rest \<Longrightarrow> read_u1 f pos = Inr (b, pos + 1)"
proof -
  assume "drop pos f = b # rest"
  moreover from this have "pos < length f" by (metis drop_eq_Nil2 list.distinct(1) not_le)
  ultimately show ?thesis by (simp add: read_u1_def Cons_nth_drop_Suc [symmetric])
qed

lemma be2: "push_bit 8 (ucast (ucast (drop_bit 8 w) :: u8)) OR ucast (ucast w :: u8) = (w :: u16)"
  by (rule bit_word_eqI) (auto simp: bit_simps not_less dest: bit_imp_le_length)

lemma be4: "push_bit 16 (ucast (ucast (drop_bit 16 w) :: u16)) OR ucast (ucast w :: u16) = (w :: u32)"
  by (rule bit_word_eqI) (auto simp: bit_simps not_less dest: bit_imp_le_length)

interpretation u1: codec "\<lambda>b. [b]" read_u1 "\<lambda>b. b" "\<lambda>_. True"
  by unfold_locales (simp add: read_u1_at)

interpretation u2: codec put_u2 read_u2 "\<lambda>w. w" "\<lambda>_. True"
proof
  fix w pos f rest assume at: "drop pos f = put_u2 w @ rest"
  then have "drop (pos + 1) f = ucast w # rest"
    using drop_behind [of pos f "[ucast (drop_bit 8 w)]"] by (simp add: put_u2_def)
  with at show "read_u2 f pos = Inr (w, pos + length (put_u2 w))"
    by (simp add: read_u2_def put_u2_def read_u1_at be2)
qed

interpretation u4: codec put_u4 read_u4 "\<lambda>w. w" "\<lambda>_. True"
proof
  fix w pos f rest assume at: "drop pos f = put_u4 w @ rest"
  then have "drop (pos + 2) f = put_u2 (ucast w) @ rest"
    using drop_behind [of pos f "put_u2 (ucast (drop_bit 16 w))"] by (simp add: put_u4_def)
  with at show "read_u4 f pos = Inr (w, pos + length (put_u4 w))"
    using u2.dec_enc [of pos f "ucast (drop_bit 16 w)"] u2.dec_enc [of "pos + 2" f "ucast w"]
    by (simp add: read_u4_def put_u4_def be4)
qed

lemma read_u2_at: "drop pos f = put_u2 w @ rest \<Longrightarrow> read_u2 f pos = Inr (w, pos + 2)"
  using u2.dec_enc [of pos f w rest] by simp

lemma read_u4_at: "drop pos f = put_u4 w @ rest \<Longrightarrow> read_u4 f pos = Inr (w, pos + 4)"
  using u4.dec_enc [of pos f w rest] by simp

lemma read_bytes_at: "drop pos f = bs @ rest \<Longrightarrow> n = length bs \<Longrightarrow> read_bytes n f pos = Inr (bs, pos + n)"
  by (simp add: read_bytes_def)

fun put_constant :: "cp_info \<Rightarrow> bytes" where
  "put_constant (CONSTANT_Utf8 bs) = 1 # put_u2 (of_nat (length bs)) @ bs"
| "put_constant (CONSTANT_Integer v) = 3 # put_u4 v"
| "put_constant (CONSTANT_Class i) = 7 # put_u2 i"
| "put_constant (CONSTANT_Fieldref c n) = 9 # put_u2 c @ put_u2 n"
| "put_constant (CONSTANT_Methodref c n) = 10 # put_u2 c @ put_u2 n"
| "put_constant (CONSTANT_NameAndType n d) = 12 # put_u2 n @ put_u2 d"

fun ok_constant :: "cp_info \<Rightarrow> bool" where
  "ok_constant (CONSTANT_Utf8 bs) = (length bs < 65536)"
| "ok_constant _ = True"

lemma drop_Suc_behind: "drop pos f = b # rest \<Longrightarrow> drop (Suc pos) f = rest"
  using drop_behind [of pos f "[b]"] by simp

lemma unat_of_nat_u16: "n < 65536 \<Longrightarrow> unat (of_nat n :: u16) = n"
  by (simp add: unat_of_nat take_bit_nat_eq_self)

lemma unat_of_nat_u32: "n < 4294967296 \<Longrightarrow> unat (of_nat n :: u32) = n"
  by (simp add: unat_of_nat take_bit_nat_eq_self)

interpretation pool_entry: codec put_constant read_constant "\<lambda>c. c" ok_constant
proof
  fix c pos f rest assume ok: "ok_constant c" and at: "drop pos f = put_constant c @ rest"
  have two: "read_u2 f (Suc pos) = Inr (v, pos + 3) \<and> read_u2 f (pos + 3) = Inr (w, pos + 5)"
    if "drop pos f = t # put_u2 v @ put_u2 w @ rest" for t v w
  proof -
    have "drop (Suc pos) f = put_u2 v @ put_u2 w @ rest" by (rule drop_Suc_behind [OF that])
    moreover from drop_behind [OF this] have "drop (pos + 3) f = put_u2 w @ rest" by (simp add: numeral_eq_Suc)
    ultimately show ?thesis
      using read_u2_at [of "Suc pos" f v "put_u2 w @ rest"] read_u2_at [of "pos + 3" f w rest]
      by (simp add: numeral_eq_Suc)
  qed
  show "read_constant f pos = Inr (c, pos + length (put_constant c))"
  proof (cases c)
    case (CONSTANT_Utf8 bs)
    have d: "drop (Suc pos) f = put_u2 (of_nat (length bs)) @ bs @ rest"
      using drop_Suc_behind at CONSTANT_Utf8 by simp
    have "drop (pos + 3) f = bs @ rest" using drop_behind [OF d] by (simp add: numeral_eq_Suc)
    then have "read_bytes (length bs) f (pos + 3) = Inr (bs, pos + 3 + length bs)"
      by (rule read_bytes_at) simp
    moreover have "read_u2 f (Suc pos) = Inr (of_nat (length bs), pos + 3)"
      using read_u2_at [OF d] by (simp add: numeral_eq_Suc)
    ultimately show ?thesis using at ok CONSTANT_Utf8
      by (simp add: read_constant_def read_u1_at unat_of_nat_u16)
  next
    case (CONSTANT_Integer v)
    have "drop (Suc pos) f = put_u4 v @ rest" using drop_Suc_behind at CONSTANT_Integer by simp
    from read_u4_at [OF this] show ?thesis using at CONSTANT_Integer
      by (simp add: read_constant_def read_u1_at)
  next
    case (CONSTANT_Class i)
    have "drop (Suc pos) f = put_u2 i @ rest" using drop_Suc_behind at CONSTANT_Class by simp
    from read_u2_at [OF this] show ?thesis using at CONSTANT_Class
      by (simp add: read_constant_def read_u1_at)
  next
    case (CONSTANT_Fieldref v w)
    with two [of 9 v w] at show ?thesis by (simp add: read_constant_def read_u1_at)
  next
    case (CONSTANT_Methodref v w)
    with two [of 10 v w] at show ?thesis by (simp add: read_constant_def read_u1_at)
  next
    case (CONSTANT_NameAndType v w)
    with two [of 12 v w] at show ?thesis by (simp add: read_constant_def read_u1_at)
  qed
qed

section \<open>The layout of methods and classes\<close>

datatype attribute = Code_attribute u16 code_t bytes | Other_attribute u16 bytes

record method_entry =
  m_flags :: u16
  m_name :: u16
  m_descriptor :: u16
  m_attributes :: "attribute list"

definition put_code :: "code_t \<Rightarrow> bytes" where
  "put_code c = put_u2 (max_stack c) @ put_u2 (max_locals c) @ put_u4 (code_length c) @ code c"

fun put_attribute :: "attribute \<Rightarrow> bytes" where
  "put_attribute (Code_attribute i c extra) =
     put_u2 i @ put_u4 (of_nat (length (put_code c @ extra))) @ put_code c @ extra"
| "put_attribute (Other_attribute i bs) = put_u2 i @ put_u4 (of_nat (length bs)) @ bs"

definition put_method :: "method_entry \<Rightarrow> bytes" where
  "put_method m = put_u2 (m_flags m) @ put_u2 (m_name m) @ put_u2 (m_descriptor m) @
     put_u2 (of_nat (length (m_attributes m))) @ concat (map put_attribute (m_attributes m))"

text \<open>The string a pool index stands for.\<close>

definition utf8_at :: "cp_info list \<Rightarrow> u16 \<Rightarrow> string result" where
  "utf8_at pool i = ebind (get_constant pool i) as_utf8"

definition ok_code :: "code_t \<Rightarrow> bool" where
  "ok_code c = (unat (code_length c) = length (code c))"

fun ok_attribute :: "cp_info list \<Rightarrow> attribute \<Rightarrow> bool" where
  "ok_attribute pool (Code_attribute i c extra) =
     (utf8_at pool i = Inr ''Code'' \<and> ok_code c \<and> length (put_code c @ extra) < 4294967296)"
| "ok_attribute pool (Other_attribute i bs) =
     ((\<exists>s. utf8_at pool i = Inr s \<and> s \<noteq> ''Code'') \<and> length bs < 4294967296)"

fun codes :: "attribute list \<Rightarrow> code_t list" where
  "codes [] = []"
| "codes (Code_attribute i c extra # as) = c # codes as"
| "codes (Other_attribute i bs # as) = codes as"

definition the_string :: "string result \<Rightarrow> string" where
  "the_string r = (case r of Inl _ \<Rightarrow> [] | Inr s \<Rightarrow> s)"

definition ok_method :: "cp_info list \<Rightarrow> method_entry \<Rightarrow> bool" where
  "ok_method pool m =
     ((\<exists>s. utf8_at pool (m_name m) = Inr s \<and> (s \<noteq> ''<init>'' \<longrightarrow> m_flags m AND IS_STATIC \<noteq> 0)) \<and>
      (\<exists>s. utf8_at pool (m_descriptor m) = Inr s) \<and>
      length (m_attributes m) < 65536 \<and> (\<forall>a \<in> set (m_attributes m). ok_attribute pool a) \<and>
      length (codes (m_attributes m)) = 1)"

definition view_method :: "cp_info list \<Rightarrow> method_entry \<Rightarrow> method_t" where
  "view_method pool m =
     \<lparr>method_name = the_string (utf8_at pool (m_name m)),
      descriptor = the_string (utf8_at pool (m_descriptor m)),
      method_code = hd (codes (m_attributes m))\<rparr>"

lemma read_code_at:
  assumes "ok_code c" "drop pos f = put_code c @ rest"
  shows "read_code f pos = Inr (c, pos + length (put_code c))"
proof -
  have d: "drop pos f = put_u2 (max_stack c) @ put_u2 (max_locals c) @ put_u4 (code_length c) @ code c @ rest"
    using assms(2) by (simp add: put_code_def)
  note d2 = drop_behind [OF d, simplified] and d4 = drop_behind [OF drop_behind [OF d], simplified]
    and d8 = drop_behind [OF drop_behind [OF drop_behind [OF d]], simplified]
  from read_u2_at [OF d] read_u2_at [OF d2] read_u4_at [OF d4] read_bytes_at [OF d8, of "unat (code_length c)"]
  show ?thesis using assms(1) by (simp add: read_code_def put_code_def ok_code_def)
qed

lemma utf8_at_steps: "utf8_at pool i = Inr s \<Longrightarrow> \<exists>c. get_constant pool i = Inr c \<and> as_utf8 c = Inr s"
  by (simp add: utf8_at_def)

lemma attributes_at:
  assumes "\<forall>a \<in> set as. ok_attribute pool a" "drop pos f = concat (map put_attribute as) @ rest"
    "(case found of None \<Rightarrow> [] | Some c \<Rightarrow> [c]) @ codes as = [c]"
  shows "read_method_attributes (length as) pool found f pos =
    Inr (c, pos + length (concat (map put_attribute as)))"
  using assms
proof (induction as arbitrary: pos found)
  case Nil
  then show ?case by (auto split: option.splits)
next
  case (Cons a as)
  have step: "read_u2 f pos = Inr (i, pos + 2)" "read_u4 f (pos + 2) = Inr (of_nat (length body), pos + 6)"
    "drop (pos + 6) f = body @ concat (map put_attribute as) @ rest"
    "drop (pos + 6 + length body) f = concat (map put_attribute as) @ rest"
    if "put_attribute a = put_u2 i @ put_u4 (of_nat (length body)) @ body" for i body
  proof -
    have d: "drop pos f = put_u2 i @ put_u4 (of_nat (length body)) @ body @ concat (map put_attribute as) @ rest"
      using Cons.prems(2) that by simp
    note d2 = drop_behind [OF d, simplified]
    have d6: "drop (pos + 6) f = body @ concat (map put_attribute as) @ rest"
      using drop_behind [OF d2] by (simp add: add.commute)
    show "read_u2 f pos = Inr (i, pos + 2)" by (rule read_u2_at [OF d])
    show "read_u4 f (pos + 2) = Inr (of_nat (length body), pos + 6)" using read_u4_at [OF d2] by simp
    show "drop (pos + 6) f = body @ concat (map put_attribute as) @ rest" by (rule d6)
    show "drop (pos + 6 + length body) f = concat (map put_attribute as) @ rest"
      by (rule drop_behind [OF d6])
  qed
  show ?case
  proof (cases a)
    case (Code_attribute i cd extra)
    let ?body = "put_code cd @ extra"
    have put: "put_attribute a = put_u2 i @ put_u4 (of_nat (length ?body)) @ ?body"
      using Code_attribute by simp
    have ok: "utf8_at pool i = Inr ''Code''" "ok_code cd" "length ?body < 4294967296"
      using Cons.prems(1) Code_attribute by simp_all
    have found: "found = None" "cd = c" "codes as = []"
      using Cons.prems(3) Code_attribute by (auto split: option.splits)
    obtain k where k: "get_constant pool i = Inr k" "as_utf8 k = Inr ''Code''"
      using utf8_at_steps [OF ok(1)] by blast
    have "read_code f (pos + 6) = Inr (cd, pos + 6 + length (put_code cd))"
      by (rule read_code_at [OF ok(2)]) (use step(3) [OF put] in simp)
    moreover have "read_method_attributes (length as) pool (Some cd) f (pos + 6 + length ?body) =
        Inr (c, pos + 6 + length ?body + length (concat (map put_attribute as)))"
      by (rule Cons.IH) (use Cons.prems(1) step(4) [OF put] found in simp_all)
    moreover have "unat (of_nat (length ?body) :: u32) = length ?body" by (rule unat_of_nat_u32 [OF ok(3)])
    ultimately show ?thesis
      using step(1,2) [OF put] k found put by (simp add: strcmp_eq_0_iff add.assoc)
  next
    case (Other_attribute i bs)
    have put: "put_attribute a = put_u2 i @ put_u4 (of_nat (length bs)) @ bs"
      using Other_attribute by simp
    obtain s where ok: "utf8_at pool i = Inr s" "s \<noteq> ''Code''" "length bs < 4294967296"
      using Cons.prems(1) Other_attribute by auto
    obtain k where k: "get_constant pool i = Inr k" "as_utf8 k = Inr s"
      using utf8_at_steps [OF ok(1)] by blast
    have "read_method_attributes (length as) pool found f (pos + 6 + length bs) =
        Inr (c, pos + 6 + length bs + length (concat (map put_attribute as)))"
      by (rule Cons.IH) (use Cons.prems(1,3) step(4) [OF put] Other_attribute in simp_all)
    moreover have "unat (of_nat (length bs) :: u32) = length bs" by (rule unat_of_nat_u32 [OF ok(3)])
    ultimately show ?thesis
      using step(1,2) [OF put] k put ok(2) by (simp add: strcmp_eq_0_iff add.assoc)
  qed
qed

interpretation method_entry: codec put_method "read_method pool" "view_method pool" "ok_method pool" for pool
proof
  fix m pos f rest assume ok: "ok_method pool m" and at: "drop pos f = put_method m @ rest"
  let ?as = "m_attributes m"
  have d: "drop pos f = put_u2 (m_flags m) @ put_u2 (m_name m) @ put_u2 (m_descriptor m) @
      put_u2 (of_nat (length ?as)) @ concat (map put_attribute ?as) @ rest"
    using at by (simp add: put_method_def)
  note d2 = drop_behind [OF d, simplified]
  note d4 = drop_behind [OF d2, simplified]
  note d6 = drop_behind [OF d4, simplified]
  note d8 = drop_behind [OF d6, simplified]
  note reads = read_u2_at [OF d] read_u2_at [OF d2] read_u2_at [OF d4] read_u2_at [OF d6]
  obtain s t where names: "utf8_at pool (m_name m) = Inr s" "s \<noteq> ''<init>'' \<longrightarrow> m_flags m AND IS_STATIC \<noteq> 0"
    "utf8_at pool (m_descriptor m) = Inr t"
    using ok by (auto simp: ok_method_def)
  obtain c where n: "get_constant pool (m_name m) = Inr c" "as_utf8 c = Inr s"
    using utf8_at_steps [OF names(1)] by blast
  obtain e where t: "get_constant pool (m_descriptor m) = Inr e" "as_utf8 e = Inr t"
    using utf8_at_steps [OF names(3)] by blast
  obtain cd where cd: "codes ?as = [cd]" using ok by (auto simp: ok_method_def length_Suc_conv)
  have d8': "drop (pos + 8) f = concat (map put_attribute ?as) @ rest" using d8 by (simp add: numeral_eq_Suc)
  have "read_method_attributes (length ?as) pool None f (pos + 8) =
      Inr (cd, pos + 8 + length (concat (map put_attribute ?as)))"
    by (rule attributes_at [OF _ d8']) (use ok cd in \<open>simp_all add: ok_method_def\<close>)
  moreover have "unat (of_nat (length ?as) :: u16) = length ?as"
    by (rule unat_of_nat_u16) (use ok in \<open>simp add: ok_method_def\<close>)
  ultimately show "read_method pool f pos = Inr (view_method pool m, pos + length (put_method m))"
    using reads names n t cd
    by (simp add: read_method_def put_method_def view_method_def the_string_def strcmp_eq_0_iff numeral_eq_Suc)
qed

text \<open>A whole class file, up to the attributes of the class, which the reader does not look at.\<close>

definition put_class :: "u32 \<Rightarrow> cp_info list \<Rightarrow> u16 \<times> u16 \<times> u16 \<Rightarrow> method_entry list \<Rightarrow> bytes" where
  "put_class version pool info ms =
     put_u4 CLASS_MAGIC @ put_u4 version @ put_u2 (of_nat (length pool + 1)) @ concat (map put_constant pool) @
     (case info of (flags, this_class, super_class) \<Rightarrow> put_u2 flags @ put_u2 this_class @ put_u2 super_class)
       @ put_u2 0 @ put_u2 0 @
     put_u2 (of_nat (length ms)) @ concat (map put_method ms)"

definition ok_class :: "cp_info list \<Rightarrow> method_entry list \<Rightarrow> bool" where
  "ok_class pool ms =
     (length pool < 65535 \<and> (\<forall>c \<in> set pool. ok_constant c) \<and>
      length ms < 65536 \<and> (\<forall>m \<in> set ms. ok_method pool m))"

lemma header_at:
  assumes "drop pos f = put_u4 CLASS_MAGIC @ put_u4 v @ rest"
  shows "\<exists>h. get_class_header f pos = Inr (h, pos + 8)"
proof -
  note d4 = drop_behind [OF assms, simplified]
  have d4': "drop (pos + 4) f = put_u2 (ucast (drop_bit 16 v)) @ put_u2 (ucast v) @ rest"
    using d4 by (simp add: put_u4_def add.commute)
  have "drop (pos + 6) f = put_u2 (ucast v) @ rest" using drop_behind [OF d4'] by (simp add: add.commute)
  from read_u4_at [OF assms] read_u2_at [OF d4'] read_u2_at [OF this] show ?thesis
    by (simp add: get_class_header_def add.commute)
qed

lemma pool_at:
  assumes "length pool < 65535" "\<forall>c \<in> set pool. ok_constant c"
    "drop pos f = put_u2 (of_nat (length pool + 1)) @ concat (map put_constant pool) @ rest"
  shows "get_constant_pool f pos = Inr (pool, pos + 2 + length (concat (map put_constant pool)))"
proof -
  note d2 = drop_behind [OF assms(3), simplified]
  have "read_many read_constant (length pool) f (pos + 2) =
      Inr (map (\<lambda>c. c) pool, pos + 2 + length (concat (map put_constant pool)))"
    by (rule pool_entry.read_many_enc [OF assms(2)]) (use d2 in simp)
  moreover have "unat (of_nat (length pool + 1) - 1 :: u16) = length pool"
    using unat_of_nat_u16 [of "length pool"] assms(1) by simp
  ultimately show ?thesis using read_u2_at [OF assms(3)] by (simp add: get_constant_pool_def)
qed

lemma info_at:
  assumes "drop pos f = put_u2 a @ put_u2 b @ put_u2 c @ put_u2 0 @ put_u2 0 @ rest"
  shows "get_class_info f pos = Inr ((a, b, c), pos + 10)"
proof -
  note d2 = drop_behind [OF assms, simplified]
  note d4 = drop_behind [OF d2, simplified]
  note d6 = drop_behind [OF d4, simplified]
  note d8 = drop_behind [OF d6, simplified]
  from read_u2_at [OF assms] read_u2_at [OF d2] read_u2_at [OF d4] read_u2_at [OF d6] read_u2_at [OF d8]
  show ?thesis by (simp add: get_class_info_def add.commute)
qed

lemma methods_at:
  assumes "length ms < 65536" "\<forall>m \<in> set ms. ok_method pool m"
    "drop pos f = put_u2 (of_nat (length ms)) @ concat (map put_method ms) @ rest"
  shows "get_methods pool f pos = Inr (map (view_method pool) ms, pos + 2 + length (concat (map put_method ms)))"
proof -
  note d2 = drop_behind [OF assms(3), simplified]
  have "read_many (read_method pool) (length ms) f (pos + 2) =
      Inr (map (view_method pool) ms, pos + 2 + length (concat (map put_method ms)))"
    by (rule method_entry.read_many_enc [OF assms(2)]) (use d2 in simp)
  moreover have "unat (of_nat (length ms) :: u16) = length ms" by (rule unat_of_nat_u16 [OF assms(1)])
  ultimately show ?thesis using read_u2_at [OF assms(3)] by (simp add: get_methods_def)
qed

lemma class_at:
  assumes ok: "ok_class pool ms"
  shows "get_class (put_class version pool info ms @ rest) =
    Inr \<lparr>constant_pool = pool, methods = map (view_method pool) ms\<rparr>"
proof -
  obtain a b c where info: "info = (a, b, c)" by (cases info)
  let ?f = "put_class version pool info ms @ rest"
  let ?p = "8 + (2 + length (concat (map put_constant pool)))"
  let ?ms = "put_u2 (of_nat (length ms)) @ concat (map put_method ms) @ rest"
  let ?info = "put_u2 a @ put_u2 b @ put_u2 c @ put_u2 0 @ put_u2 0"
  let ?pool = "put_u2 (of_nat (length pool + 1)) @ concat (map put_constant pool)"
  have d: "drop 0 ?f = (put_u4 CLASS_MAGIC @ put_u4 version) @ ?pool @ ?info @ ?ms"
    by (simp add: put_class_def info)
  have d8: "drop 8 ?f = ?pool @ ?info @ ?ms" using drop_behind [OF d] by simp
  have dp: "drop ?p ?f = ?info @ ?ms" using drop_behind [OF d8] by (simp only: length_append length_put)
  have dm: "drop (?p + 10) ?f = ?ms" using drop_behind [OF dp] by simp
  obtain h where "get_class_header ?f 0 = Inr (h, 8)" using header_at [of 0 ?f version] d by auto
  moreover have "get_constant_pool ?f 8 = Inr (pool, ?p)"
    using pool_at [of pool 8 ?f "?info @ ?ms"] ok d8 by (simp add: ok_class_def)
  moreover have "get_class_info ?f ?p = Inr ((a, b, c), ?p + 10)"
    using info_at [of ?p ?f a b c ?ms] dp by simp
  moreover have "\<exists>q. get_methods pool ?f (?p + 10) = Inr (map (view_method pool) ms, q)"
    using methods_at [of ms pool "?p + 10" ?f rest] ok dm by (simp add: ok_class_def)
  ultimately show ?thesis by (auto simp: get_class_def)
qed

section \<open>Descriptors\<close>

text \<open>The parameter types TeenyJVM supports: a one-letter type or an array of it.\<close>

datatype param_type = Plain char | Array_of char

fun show_param :: "param_type \<Rightarrow> string" where
  "show_param (Plain c) = [c]"
| "show_param (Array_of c) = [CHR ''['', c]"

fun ok_param :: "param_type \<Rightarrow> bool" where
  "ok_param (Plain c) = (c \<noteq> CHR ''['' \<and> c \<noteq> CHR '')'')"
| "ok_param (Array_of c) = (c \<noteq> CHR '')'')"

definition show_descriptor :: "param_type list \<Rightarrow> string \<Rightarrow> string" where
  "show_descriptor ps ret = ''('' @ concat (map show_param ps) @ '')'' @ ret"

lemma index_of_append: "c \<notin> set s \<Longrightarrow> index_of c (s @ c # t) = Some (length s)"
  by (induction s) auto

lemma params_no_paren: "\<forall>p \<in> set ps. ok_param p \<Longrightarrow> CHR '')'' \<notin> set (concat (map show_param ps))"
proof (induction ps)
  case (Cons p ps)
  then show ?case by (cases p) auto
qed simp

lemma count_params_show:
  "\<forall>p \<in> set ps. ok_param p \<Longrightarrow>
   count_params (pre @ concat (map show_param ps) @ post) (length pre)
     (length pre + length (concat (map show_param ps))) k = k + of_nat (length ps)"
proof (induction ps arbitrary: pre k)
  case Nil
  then show ?case by (subst count_params.simps) simp
next
  case (Cons p ps)
  have IH: "count_params ((pre @ show_param p) @ concat (map show_param ps) @ post) (length (pre @ show_param p))
     (length (pre @ show_param p) + length (concat (map show_param ps))) (k + 1) = k + 1 + of_nat (length ps)"
    by (rule Cons.IH) (use Cons.prems in simp)
  show ?case
    using IH Cons.prems by (cases p; subst count_params.simps) (simp_all add: nth_append add.assoc)
qed

lemma number_of_parameters_show:
  assumes "\<forall>p \<in> set ps. ok_param p" "descriptor m = show_descriptor ps ret"
  shows "get_number_of_parameters m = Inr (of_nat (length ps))"
proof -
  let ?body = "concat (map show_param ps)"
  have "index_of (CHR '')'') (CHR ''('' # ?body @ CHR '')'' # ret) = Some (Suc (length ?body))"
    using index_of_append [of "CHR '')''" "CHR ''('' # ?body" ret] params_no_paren [OF assms(1)] by simp
  moreover have "count_params (CHR ''('' # ?body @ CHR '')'' # ret) 1 (Suc (length ?body)) 0 = of_nat (length ps)"
    using count_params_show [OF assms(1), of "''(''" "CHR '')'' # ret" 0] by simp
  ultimately show ?thesis using assms(2)
    by (simp add: get_number_of_parameters_def show_descriptor_def)
qed

section \<open>Properties\<close>

definition sample_code :: code_t where
  "sample_code = \<lparr>max_stack = 2, max_locals = 1, code_length = 3, code = [4, 0x3C, 0xB1]\<rparr>"

definition sample_pool :: "cp_info list" where
  "sample_pool = [CONSTANT_Utf8 [0x66], CONSTANT_Utf8 [0x28, 0x49, 0x29, 0x56],
     CONSTANT_Utf8 [0x43, 0x6F, 0x64, 0x65], CONSTANT_Integer 70000, CONSTANT_NameAndType 1 2]"

definition sample_methods :: "method_entry list" where
  "sample_methods = [\<lparr>m_flags = 8, m_name = 1, m_descriptor = 2,
     m_attributes = [Other_attribute 1 [7], Code_attribute 3 sample_code [0, 0]]\<rparr>]"

lemma sample_class_ok: "ok_class sample_pool sample_methods"
proof -
  have pool: "utf8_at sample_pool 1 = Inr ''f''" "utf8_at sample_pool 2 = Inr ''(I)V''"
    "utf8_at sample_pool 3 = Inr ''Code''" by code_simp+
  show ?thesis
    by (simp add: ok_class_def sample_methods_def ok_method_def pool ok_code_def sample_code_def put_code_def
        IS_STATIC_def) (simp add: sample_pool_def)
qed

text \<open>C3: reading a class file gives back what was written: the constants in order, and for every method
its name and descriptor from the pool and the code of its one \<open>Code\<close> attribute, whatever other
attributes and trailing bytes stand around it.\<close>

theorem class_file_roundtrip:
  assumes "ok_class pool ms"
  shows "get_class (put_class version pool info ms @ rest) =
    Inr \<lparr>constant_pool = pool, methods = map (view_method pool) ms\<rparr>"
  using class_at [OF assms] .

lemma class_file_roundtrip_witness:
  "get_class (put_class 52 sample_pool (33, 4, 4) sample_methods @ [1, 2]) =
    Inr \<lparr>constant_pool = sample_pool,
      methods = [\<lparr>method_name = ''f'', descriptor = ''(I)V'', method_code = sample_code\<rparr>]\<rparr>"
proof -
  have "map (view_method sample_pool) sample_methods =
      [\<lparr>method_name = ''f'', descriptor = ''(I)V'', method_code = sample_code\<rparr>]" by code_simp
  with class_file_roundtrip [OF sample_class_ok] show ?thesis by simp
qed

text \<open>A descriptor of one-letter types and arrays of them has as many parameters as the loop of
\<open>get_number_of_parameters\<close> counts, whatever the return type.\<close>

theorem number_of_parameters_exact:
  assumes "\<forall>p \<in> set ps. ok_param p" "descriptor m = show_descriptor ps ret"
  shows "get_number_of_parameters m = Inr (of_nat (length ps))"
  using number_of_parameters_show [OF assms] .

lemma number_of_parameters_exact_witness:
  "get_number_of_parameters \<lparr>method_name = ''f'', descriptor = ''(I[IZ)[I'', method_code = sample_code\<rparr> = Inr 3"
  using number_of_parameters_exact [of "[Plain (CHR ''I''), Array_of (CHR ''I''), Plain (CHR ''Z'')]"
      "\<lparr>method_name = ''f'', descriptor = ''(I[IZ)[I'', method_code = sample_code\<rparr>" "''[I''"]
  by (simp add: show_descriptor_def)

text \<open>A parameter that is an array of arrays is counted twice, so a call takes one value too many
from the stack.\<close>

theorem nested_array_counted_twice:
  "get_number_of_parameters \<lparr>method_name = f, descriptor = ''([[I)V'', method_code = c\<rparr> = Inr 2"
  by (simp add: get_number_of_parameters_def count_params.simps)

text \<open>\<open>find_method\<close> returns the first method of the class with that name and that descriptor, and
\<open>NULL\<close> exactly when there is none; overloads are told apart by their descriptor.\<close>

theorem find_method_first:
  "find_method name desc cls = find (\<lambda>m. method_name m = name \<and> descriptor m = desc) (methods cls)"
proof -
  have "find_method_in ms name desc = find (\<lambda>m. method_name m = name \<and> descriptor m = desc) ms" for ms
    by (induction ms) (simp_all add: strcmp_eq_0_iff)
  then show ?thesis by (simp add: find_method_def)
qed

end
