(* ===== verification/Jvm.thy ===== *)
theory Jvm
  imports ClassFile
begin

text \<open>
  TeenyJVM (\<open>project01-wduan/jvm.c\<close>, \<open>jvm.h\<close>, \<open>heap.c\<close>): the operand stack, the heap of integer arrays,
  the interpreter loop \<open>execute\<close> and the call of \<open>main\<close>. An \<open>int\<close> is a 32-bit word; additions,
  subtractions, products and left shifts wrap, as the instructions the interpreter is compiled to do
  (its build switches the integer checks off). A shift by a count outside 0 to 31 is undefined in C,
  and processors differ in it: it is the error \<open>Undefined\<close>.
  The build's address checks stop an access outside an array: \<open>Bad_Access\<close>. Reading a local nobody
  wrote is \<open>Indeterminate\<close>.
\<close>

unbundle bit_operations_syntax

section \<open>Instructions\<close>

datatype arith_op = Iadd | Isub | Imul | Idiv | Irem | Ishl | Ishr | Iushr | Iand | Ior | Ixor

datatype cmp = Eq | Ne | Lt | Ge | Gt | Le

datatype jvm_instruction =
    I_nop | I_iconst int | I_bipush | I_sipush | I_ldc
  | I_load | I_load_n nat | I_store | I_store_n nat
  | I_iaload | I_iastore | I_dup
  | I_arith arith_op | I_ineg | I_iinc
  | I_if cmp | I_if_icmp cmp | I_goto
  | I_value_return | I_return
  | I_getstatic | I_invokevirtual | I_invokestatic
  | I_newarray | I_arraylength

text \<open>
  The numbers of \<open>jvm_instruction_t\<close> with the cases of the interpreter's \<open>switch\<close> they select; the
  integer and the reference forms of loads, stores and returns do the same.
\<close>

definition decode :: "u8 \<Rightarrow> jvm_instruction option" where
  "decode b = (let n = unat b in
     if n = 0 then Some I_nop
     else if 0x2 \<le> n \<and> n \<le> 0x8 then Some (I_iconst (int n - 0x2 - 1))
     else if n = 0x10 then Some I_bipush
     else if n = 0x11 then Some I_sipush
     else if n = 0x12 then Some I_ldc
     else if n = 0x15 \<or> n = 0x19 then Some I_load
     else if 0x1a \<le> n \<and> n \<le> 0x1d then Some (I_load_n (n - 0x1a))
     else if 0x2a \<le> n \<and> n \<le> 0x2d then Some (I_load_n (n - 0x2a))
     else if n = 0x2e then Some I_iaload
     else if n = 0x36 \<or> n = 0x3a then Some I_store
     else if 0x3b \<le> n \<and> n \<le> 0x3e then Some (I_store_n (n - 0x3b))
     else if 0x4b \<le> n \<and> n \<le> 0x4e then Some (I_store_n (n - 0x4b))
     else if n = 0x4f then Some I_iastore
     else if n = 0x59 then Some I_dup
     else if n = 0x60 then Some (I_arith Iadd)
     else if n = 0x64 then Some (I_arith Isub)
     else if n = 0x68 then Some (I_arith Imul)
     else if n = 0x6c then Some (I_arith Idiv)
     else if n = 0x70 then Some (I_arith Irem)
     else if n = 0x74 then Some I_ineg
     else if n = 0x78 then Some (I_arith Ishl)
     else if n = 0x7a then Some (I_arith Ishr)
     else if n = 0x7c then Some (I_arith Iushr)
     else if n = 0x7e then Some (I_arith Iand)
     else if n = 0x80 then Some (I_arith Ior)
     else if n = 0x82 then Some (I_arith Ixor)
     else if n = 0x84 then Some I_iinc
     else if n = 0x99 then Some (I_if Eq)
     else if n = 0x9a then Some (I_if Ne)
     else if n = 0x9b then Some (I_if Lt)
     else if n = 0x9c then Some (I_if Ge)
     else if n = 0x9d then Some (I_if Gt)
     else if n = 0x9e then Some (I_if Le)
     else if n = 0x9f then Some (I_if_icmp Eq)
     else if n = 0xa0 then Some (I_if_icmp Ne)
     else if n = 0xa1 then Some (I_if_icmp Lt)
     else if n = 0xa2 then Some (I_if_icmp Ge)
     else if n = 0xa3 then Some (I_if_icmp Gt)
     else if n = 0xa4 then Some (I_if_icmp Le)
     else if n = 0xa7 then Some I_goto
     else if n = 0xac \<or> n = 0xb0 then Some I_value_return
     else if n = 0xb1 then Some I_return
     else if n = 0xb2 then Some I_getstatic
     else if n = 0xb6 then Some I_invokevirtual
     else if n = 0xb8 then Some I_invokestatic
     else if n = 0xbc then Some I_newarray
     else if n = 0xbe then Some I_arraylength
     else None)"

section \<open>The operand stack\<close>

text \<open>\<open>items[0..size)\<close>, the last item first; \<open>capacity\<close> is the method's \<open>max_stack\<close>.\<close>

record stack_t =
  items :: "u32 list"
  capacity :: nat

definition stack_init :: "nat \<Rightarrow> stack_t" where
  "stack_init cap = \<lparr>items = [], capacity = cap\<rparr>"

definition stack_push :: "stack_t \<Rightarrow> u32 \<Rightarrow> stack_t result" where
  "stack_push st item =
     (if length (items st) < capacity st then Inr (st\<lparr>items := item # items st\<rparr>) else Inl Assert_Failed)"

definition stack_pop :: "stack_t \<Rightarrow> (u32 \<times> stack_t) result" where
  "stack_pop st = (case items st of [] \<Rightarrow> Inl Assert_Failed | x # xs \<Rightarrow> Inr (x, st\<lparr>items := xs\<rparr>))"

section \<open>The heap\<close>

text \<open>Each pointer of the heap is an array of \<open>int\<close>s, its length first; a reference is an index.\<close>

type_synonym heap_t = "u32 list list"

definition heap_init :: heap_t where "heap_init = []"

definition heap_add :: "heap_t \<Rightarrow> u32 list \<Rightarrow> (u32 \<times> heap_t) result" where
  "heap_add heap array =
     (if int (length heap) < 2 ^ 31 - 1 then Inr (of_nat (length heap), heap @ [array]) else Inl Undefined)"

definition heap_get :: "heap_t \<Rightarrow> u32 \<Rightarrow> u32 list result" where
  "heap_get heap ref = (if 0 \<le> sint ref then aget heap (nat (sint ref)) else Inl Bad_Access)"

definition heap_free :: "heap_t \<Rightarrow> nat list" where
  "heap_free heap = [0..<length heap]"

text \<open>\<open>array[index + 1]\<close>, read and written.\<close>

definition array_get :: "heap_t \<Rightarrow> u32 \<Rightarrow> u32 \<Rightarrow> u32 result" where
  "array_get heap ref index =
     ebind (heap_get heap ref) (\<lambda>array.
       if 0 \<le> sint index + 1 then aget array (nat (sint index + 1)) else Inl Bad_Access)"

definition array_set :: "heap_t \<Rightarrow> u32 \<Rightarrow> u32 \<Rightarrow> u32 \<Rightarrow> heap_t result" where
  "array_set heap ref index v =
     ebind (heap_get heap ref) (\<lambda>array.
     ebind (if 0 \<le> sint index + 1 then aset array (nat (sint index + 1)) v else Inl Bad_Access) (\<lambda>array'.
       Inr (heap[nat (sint ref) := array'])))"

text \<open>\<open>malloc(sizeof(int32_t) * (count + 1))\<close> and the loop that clears it. A negative count makes the block
empty or its size absurd, and the first store then goes wrong; the largest count overflows.\<close>

definition new_array :: "heap_t \<Rightarrow> u32 \<Rightarrow> (u32 \<times> heap_t) result" where
  "new_array heap n =
     (if sint n < 0 then Inl Bad_Access
      else if sint n = 2 ^ 31 - 1 then Inl Undefined
      else heap_add heap (n # replicate (nat (sint n)) 0))"

section \<open>Frames\<close>

record frame_t =
  stack :: stack_t
  pc :: u64
  locals :: "u32 option list"

record vm_t =
  heap :: heap_t
  stdout :: string

definition fetch :: "method_t \<Rightarrow> frame_t \<Rightarrow> nat \<Rightarrow> u8 result" where
  "fetch m fr k = aget (code (method_code m)) (unat (pc fr) + k)"

definition local_get :: "frame_t \<Rightarrow> nat \<Rightarrow> u32 result" where
  "local_get fr i =
     ebind (aget (locals fr) i) (\<lambda>v. case v of None \<Rightarrow> Inl Indeterminate | Some x \<Rightarrow> Inr x)"

definition local_set :: "frame_t \<Rightarrow> nat \<Rightarrow> u32 \<Rightarrow> frame_t result" where
  "local_set fr i v = ebind (aset (locals fr) i (Some v)) (\<lambda>ls. Inr (fr\<lparr>locals := ls\<rparr>))"

definition push :: "frame_t \<Rightarrow> u32 \<Rightarrow> frame_t result" where
  "push fr v = ebind (stack_push (stack fr) v) (\<lambda>st. Inr (fr\<lparr>stack := st\<rparr>))"

definition pop :: "frame_t \<Rightarrow> (u32 \<times> frame_t) result" where
  "pop fr = ebind (stack_pop (stack fr)) (\<lambda>(v, st). Inr (v, fr\<lparr>stack := st\<rparr>))"

definition advance_pc :: "u64 \<Rightarrow> frame_t \<Rightarrow> frame_t" where
  "advance_pc n fr = fr\<lparr>pc := pc fr + n\<rparr>"

section \<open>Arithmetic\<close>

definition int_div :: "u32 \<Rightarrow> u32 \<Rightarrow> u32 result" where
  "int_div a b =
     (if b = 0 \<or> (sint a = - (2 ^ 31) \<and> sint b = -1) then Inl Arith_Trap
      else Inr (word_of_int (sgn (sint a) * sgn (sint b) * (\<bar>sint a\<bar> div \<bar>sint b\<bar>))))"

definition int_rem :: "u32 \<Rightarrow> u32 \<Rightarrow> u32 result" where
  "int_rem a b = ebind (int_div a b) (\<lambda>q. Inr (a - q * b))"

text \<open>The interpreter does not mask the count: \<open>b\<close> is the \<open>int\<close> from the stack.\<close>

definition shift_count :: "u32 \<Rightarrow> nat result" where
  "shift_count b = (if 0 \<le> sint b \<and> sint b < 32 then Inr (nat (sint b)) else Inl Undefined)"

definition compute :: "arith_op \<Rightarrow> u32 \<Rightarrow> u32 \<Rightarrow> u32 result" where
  "compute op a b = (case op of
       Iadd \<Rightarrow> Inr (b + a)
     | Isub \<Rightarrow> Inr (a - b)
     | Imul \<Rightarrow> Inr (a * b)
     | Idiv \<Rightarrow> int_div a b
     | Irem \<Rightarrow> int_rem a b
     | Ishl \<Rightarrow> ebind (shift_count b) (\<lambda>k. Inr (push_bit k a))
     | Ishr \<Rightarrow> ebind (shift_count b) (\<lambda>k. Inr (signed_drop_bit k a))
     | Iushr \<Rightarrow> ebind (shift_count b) (\<lambda>k. Inr (drop_bit k a))
     | Iand \<Rightarrow> Inr (a AND b)
     | Ior \<Rightarrow> Inr (a OR b)
     | Ixor \<Rightarrow> Inr (a XOR b))"

definition holds :: "cmp \<Rightarrow> u32 \<Rightarrow> u32 \<Rightarrow> bool" where
  "holds c a b = (case c of
       Eq \<Rightarrow> a = b | Ne \<Rightarrow> a \<noteq> b | Lt \<Rightarrow> sint a < sint b | Ge \<Rightarrow> sint b \<le> sint a
     | Gt \<Rightarrow> sint b < sint a | Le \<Rightarrow> sint a \<le> sint b)"

text \<open>\<open>(b1 << 8) | b2\<close> with both bytes read as \<open>int8_t\<close>, as an \<open>int\<close>, added to the \<open>size_t pc\<close>.\<close>

definition branch_offset :: "u8 \<Rightarrow> u8 \<Rightarrow> u32" where
  "branch_offset b1 b2 = push_bit 8 (scast b1) OR scast b2"

definition branch :: "u8 \<Rightarrow> u8 \<Rightarrow> bool \<Rightarrow> frame_t \<Rightarrow> frame_t" where
  "branch b1 b2 taken fr = (if taken then advance_pc (scast (branch_offset b1 b2)) fr else advance_pc 3 fr)"

section \<open>One turn of the loop\<close>

text \<open>What a turn leads to: the next turn, the end of the method, or a call, with the frame the caller
continues in.\<close>

datatype step_t =
    Running frame_t vm_t
  | Returned "u32 option"
  | Calling method_t "u32 option list" frame_t

definition exec_constant :: "class_file_t \<Rightarrow> method_t \<Rightarrow> jvm_instruction \<Rightarrow> frame_t \<Rightarrow> frame_t result" where
  "exec_constant cls m i fr = (case i of
       I_nop \<Rightarrow> Inr (advance_pc 1 fr)
     | I_iconst n \<Rightarrow> ebind (push fr (word_of_int n)) (\<lambda>fr. Inr (advance_pc 1 fr))
     | I_bipush \<Rightarrow>
         ebind (fetch m fr 1) (\<lambda>b. ebind (push fr (scast b)) (\<lambda>fr. Inr (advance_pc 2 fr)))
     | I_sipush \<Rightarrow>
         ebind (fetch m fr 1) (\<lambda>b1. ebind (fetch m fr 2) (\<lambda>b2.
         ebind (push fr (scast (push_bit 8 (ucast b1) OR ucast b2 :: u16))) (\<lambda>fr. Inr (advance_pc 3 fr))))
     | I_ldc \<Rightarrow>
         ebind (fetch m fr 1) (\<lambda>b.
         ebind (if b = 0 then Inl Bad_Access else aget (constant_pool cls) (unat b - 1)) (\<lambda>c.
         ebind (case c of CONSTANT_Integer v \<Rightarrow> Inr v | _ \<Rightarrow> Inl Undefined) (\<lambda>v.
         ebind (push fr v) (\<lambda>fr. Inr (advance_pc 2 fr)))))
     | I_dup \<Rightarrow>
         ebind (pop fr) (\<lambda>(a, fr). ebind (push fr a) (\<lambda>fr. ebind (push fr a) (\<lambda>fr. Inr (advance_pc 1 fr))))
     | I_getstatic \<Rightarrow> Inr (advance_pc 3 fr)
     | _ \<Rightarrow> Inl Undefined)"

definition exec_arith :: "jvm_instruction \<Rightarrow> frame_t \<Rightarrow> frame_t result" where
  "exec_arith i fr = (case i of
       I_arith op \<Rightarrow>
         ebind (pop fr) (\<lambda>(b, fr). ebind (pop fr) (\<lambda>(a, fr).
         ebind (compute op a b) (\<lambda>v. ebind (push fr v) (\<lambda>fr. Inr (advance_pc 1 fr)))))
     | I_ineg \<Rightarrow> ebind (pop fr) (\<lambda>(a, fr). ebind (push fr (- a)) (\<lambda>fr. Inr (advance_pc 1 fr)))
     | _ \<Rightarrow> Inl Undefined)"

definition exec_local :: "method_t \<Rightarrow> jvm_instruction \<Rightarrow> frame_t \<Rightarrow> frame_t result" where
  "exec_local m i fr = (case i of
       I_load \<Rightarrow>
         ebind (fetch m fr 1) (\<lambda>k. ebind (local_get fr (unat k)) (\<lambda>v.
         ebind (push fr v) (\<lambda>fr. Inr (advance_pc 2 fr))))
     | I_load_n k \<Rightarrow> ebind (local_get fr k) (\<lambda>v. ebind (push fr v) (\<lambda>fr. Inr (advance_pc 1 fr)))
     | I_store \<Rightarrow>
         ebind (fetch m fr 1) (\<lambda>k. ebind (pop fr) (\<lambda>(a, fr).
         ebind (local_set fr (unat k) a) (\<lambda>fr. Inr (advance_pc 2 fr))))
     | I_store_n k \<Rightarrow> ebind (pop fr) (\<lambda>(a, fr). ebind (local_set fr k a) (\<lambda>fr. Inr (advance_pc 1 fr)))
     | I_iinc \<Rightarrow>
         ebind (fetch m fr 1) (\<lambda>k. ebind (fetch m fr 2) (\<lambda>b.
         ebind (local_get fr (unat k)) (\<lambda>v.
         ebind (local_set fr (unat k) (v + scast b)) (\<lambda>fr. Inr (advance_pc 3 fr)))))
     | _ \<Rightarrow> Inl Undefined)"

definition exec_branch :: "method_t \<Rightarrow> jvm_instruction \<Rightarrow> frame_t \<Rightarrow> frame_t result" where
  "exec_branch m i fr =
     ebind (fetch m fr 1) (\<lambda>b1. ebind (fetch m fr 2) (\<lambda>b2.
       case i of
         I_if c \<Rightarrow> ebind (pop fr) (\<lambda>(a, fr). Inr (branch b1 b2 (holds c a 0) fr))
       | I_if_icmp c \<Rightarrow>
           ebind (pop fr) (\<lambda>(b, fr). ebind (pop fr) (\<lambda>(a, fr). Inr (branch b1 b2 (holds c a b) fr)))
       | I_goto \<Rightarrow> Inr (branch b1 b2 True fr)
       | _ \<Rightarrow> Inl Undefined))"

definition exec_array :: "method_t \<Rightarrow> jvm_instruction \<Rightarrow> frame_t \<Rightarrow> heap_t \<Rightarrow> (frame_t \<times> heap_t) result" where
  "exec_array m i fr h = (case i of
       I_newarray \<Rightarrow>
         ebind (fetch m fr 1) (\<lambda>_. ebind (pop fr) (\<lambda>(n, fr). ebind (new_array h n) (\<lambda>(ref, h).
         ebind (push fr ref) (\<lambda>fr. Inr (advance_pc 2 fr, h)))))
     | I_arraylength \<Rightarrow>
         ebind (pop fr) (\<lambda>(ref, fr). ebind (heap_get h ref) (\<lambda>array. ebind (aget array 0) (\<lambda>n.
         ebind (push fr n) (\<lambda>fr. Inr (advance_pc 1 fr, h)))))
     | I_iastore \<Rightarrow>
         ebind (pop fr) (\<lambda>(v, fr). ebind (pop fr) (\<lambda>(index, fr). ebind (pop fr) (\<lambda>(ref, fr).
         ebind (array_set h ref index v) (\<lambda>h. Inr (advance_pc 1 fr, h)))))
     | I_iaload \<Rightarrow>
         ebind (pop fr) (\<lambda>(index, fr). ebind (pop fr) (\<lambda>(ref, fr).
         ebind (array_get h ref index) (\<lambda>v. ebind (push fr v) (\<lambda>fr. Inr (advance_pc 1 fr, h)))))
     | _ \<Rightarrow> Inl Undefined)"

text \<open>\<open>locals2\<close> is not initialised; the arguments are popped into it from the last one to the first.\<close>

fun pop_arguments :: "nat \<Rightarrow> u32 option list \<Rightarrow> frame_t \<Rightarrow> (u32 option list \<times> frame_t) result" where
  "pop_arguments 0 ls fr = Inr (ls, fr)"
| "pop_arguments (Suc k) ls fr =
     ebind (pop fr) (\<lambda>(item, fr). ebind (aset ls k (Some item)) (\<lambda>ls. pop_arguments k ls fr))"

definition exec_call :: "class_file_t \<Rightarrow> method_t \<Rightarrow> frame_t \<Rightarrow> (method_t \<times> u32 option list \<times> frame_t) result" where
  "exec_call cls m fr =
     ebind (fetch m fr 1) (\<lambda>b1. ebind (fetch m fr 2) (\<lambda>b2.
     ebind (find_method_from_index (push_bit 8 (ucast b1) OR ucast b2) cls) (\<lambda>found.
     ebind (case found of None \<Rightarrow> Inl Bad_Access | Some m2 \<Rightarrow> Inr m2) (\<lambda>m2.
     ebind (get_number_of_parameters m2) (\<lambda>parameters.
     ebind (pop_arguments (unat parameters) (replicate (unat (max_locals (method_code m2))) None) fr)
       (\<lambda>(ls, fr). Inr (m2, ls, fr)))))))"

definition exec_print :: "frame_t \<Rightarrow> vm_t \<Rightarrow> (frame_t \<times> vm_t) result" where
  "exec_print fr vm =
     ebind (pop fr) (\<lambda>(item, fr).
       Inr (advance_pc 3 fr, vm\<lparr>stdout := stdout vm @ string_of_int (sint item) @ [CHR 0x0A]\<rparr>))"

definition EXIT_NUMBER :: nat where "EXIT_NUMBER = 99"

fun exec_instruction :: "class_file_t \<Rightarrow> method_t \<Rightarrow> jvm_instruction \<Rightarrow> frame_t \<Rightarrow> vm_t \<Rightarrow> step_t result" where
  "exec_instruction cls m (I_arith op) fr vm =
     ebind (exec_arith (I_arith op) fr) (\<lambda>fr. Inr (Running fr vm))"
| "exec_instruction cls m I_ineg fr vm = ebind (exec_arith I_ineg fr) (\<lambda>fr. Inr (Running fr vm))"
| "exec_instruction cls m I_load fr vm = ebind (exec_local m I_load fr) (\<lambda>fr. Inr (Running fr vm))"
| "exec_instruction cls m (I_load_n k) fr vm = ebind (exec_local m (I_load_n k) fr) (\<lambda>fr. Inr (Running fr vm))"
| "exec_instruction cls m I_store fr vm = ebind (exec_local m I_store fr) (\<lambda>fr. Inr (Running fr vm))"
| "exec_instruction cls m (I_store_n k) fr vm = ebind (exec_local m (I_store_n k) fr) (\<lambda>fr. Inr (Running fr vm))"
| "exec_instruction cls m I_iinc fr vm = ebind (exec_local m I_iinc fr) (\<lambda>fr. Inr (Running fr vm))"
| "exec_instruction cls m (I_if c) fr vm = ebind (exec_branch m (I_if c) fr) (\<lambda>fr. Inr (Running fr vm))"
| "exec_instruction cls m (I_if_icmp c) fr vm = ebind (exec_branch m (I_if_icmp c) fr) (\<lambda>fr. Inr (Running fr vm))"
| "exec_instruction cls m I_goto fr vm = ebind (exec_branch m I_goto fr) (\<lambda>fr. Inr (Running fr vm))"
| "exec_instruction cls m I_newarray fr vm =
     ebind (exec_array m I_newarray fr (heap vm)) (\<lambda>(fr, h). Inr (Running fr (vm\<lparr>heap := h\<rparr>)))"
| "exec_instruction cls m I_arraylength fr vm =
     ebind (exec_array m I_arraylength fr (heap vm)) (\<lambda>(fr, h). Inr (Running fr (vm\<lparr>heap := h\<rparr>)))"
| "exec_instruction cls m I_iastore fr vm =
     ebind (exec_array m I_iastore fr (heap vm)) (\<lambda>(fr, h). Inr (Running fr (vm\<lparr>heap := h\<rparr>)))"
| "exec_instruction cls m I_iaload fr vm =
     ebind (exec_array m I_iaload fr (heap vm)) (\<lambda>(fr, h). Inr (Running fr (vm\<lparr>heap := h\<rparr>)))"
| "exec_instruction cls m I_value_return fr vm = ebind (pop fr) (\<lambda>(a, fr). Inr (Returned (Some a)))"
| "exec_instruction cls m I_return fr vm = Inr (Returned None)"
| "exec_instruction cls m I_invokevirtual fr vm = ebind (exec_print fr vm) (\<lambda>(fr, vm). Inr (Running fr vm))"
| "exec_instruction cls m I_invokestatic fr vm =
     ebind (exec_call cls m fr) (\<lambda>(m2, ls, fr). Inr (Calling m2 ls fr))"
| "exec_instruction cls m i fr vm = ebind (exec_constant cls m i fr) (\<lambda>fr. Inr (Running fr vm))"

definition jvm_step :: "class_file_t \<Rightarrow> method_t \<Rightarrow> frame_t \<Rightarrow> vm_t \<Rightarrow> step_t result" where
  "jvm_step cls m fr vm =
     (if unat (pc fr) < unat (code_length (method_code m)) then
        ebind (fetch m fr 0) (\<lambda>b. case decode b of
            None \<Rightarrow> Inl (Exit_With EXIT_NUMBER)
          | Some i \<Rightarrow> exec_instruction cls m i fr vm)
      else Inr (Returned None))"

section \<open>The interpreter\<close>

definition init_frame :: "method_t \<Rightarrow> u32 option list \<Rightarrow> frame_t" where
  "init_frame m ls = \<lparr>stack = stack_init (unat (max_stack (method_code m))), pc = 0, locals = ls\<rparr>"

text \<open>The value a call returns is pushed; \<open>pc\<close> moves behind the call.\<close>

definition return_to :: "frame_t \<Rightarrow> u32 option \<Rightarrow> frame_t result" where
  "return_to fr v =
     ebind (case v of None \<Rightarrow> Inr fr | Some x \<Rightarrow> push fr x) (\<lambda>fr. Inr (advance_pc 3 fr))"

text \<open>Fuel bounds the turns of the loops and the depth of the calls together; \<open>None\<close> is no answer.\<close>

fun execute :: "nat \<Rightarrow> class_file_t \<Rightarrow> method_t \<Rightarrow> frame_t \<Rightarrow> vm_t \<Rightarrow> (u32 option \<times> vm_t) result option" where
  "execute 0 cls m fr vm = None"
| "execute (Suc n) cls m fr vm =
     (case jvm_step cls m fr vm of
        Inl e \<Rightarrow> Some (Inl e)
      | Inr (Running fr' vm') \<Rightarrow> execute n cls m fr' vm'
      | Inr (Returned v) \<Rightarrow> Some (Inr (v, vm))
      | Inr (Calling m2 ls fr') \<Rightarrow>
          (case execute n cls m2 (init_frame m2 ls) vm of
             None \<Rightarrow> None
           | Some (Inl e) \<Rightarrow> Some (Inl e)
           | Some (Inr (v, vm')) \<Rightarrow>
               (case return_to fr' v of
                  Inl e \<Rightarrow> Some (Inl e)
                | Inr fr'' \<Rightarrow> execute n cls m fr'' vm')))"

definition MAIN_METHOD :: string where "MAIN_METHOD = ''main''"
definition MAIN_DESCRIPTOR :: string where "MAIN_DESCRIPTOR = ''([Ljava/lang/String;)V''"

text \<open>\<open>main\<close>: the class is read, its \<open>main\<close> method runs with all locals 0, and must return void. The
result is the output and the exit status.\<close>

definition jvm_main :: "nat \<Rightarrow> string list \<Rightarrow> (string \<Rightarrow> bytes option) \<Rightarrow> (string \<times> nat) result option" where
  "jvm_main fuel argv fopen =
     (if length argv \<noteq> 2 then Some (Inr ([], 1))
      else (case fopen (argv ! 1) of
          None \<Rightarrow> Some (Inl Assert_Failed)
        | Some class_file \<Rightarrow>
            (case get_class class_file of
               Inl e \<Rightarrow> Some (Inl e)
             | Inr cls \<Rightarrow>
                 (case find_method MAIN_METHOD MAIN_DESCRIPTOR cls of
                    None \<Rightarrow> Some (Inl Assert_Failed)
                  | Some m \<Rightarrow>
                      (case execute fuel cls m
                              (init_frame m (replicate (unat (max_locals (method_code m))) (Some 0)))
                              \<lparr>heap = heap_init, stdout = []\<rparr> of
                         None \<Rightarrow> None
                       | Some (Inl e) \<Rightarrow> Some (Inl e)
                       | Some (Inr (v, vm)) \<Rightarrow>
                           if v = None then Some (Inr (stdout vm, 0)) else Some (Inl Assert_Failed))))))"

section \<open>What the machine keeps\<close>

text \<open>More fuel never changes an answer.\<close>

lemma execute_more_fuel: "execute n cls m fr vm = Some r \<Longrightarrow> n \<le> k \<Longrightarrow> execute k cls m fr vm = Some r"
proof (induction n cls m fr vm arbitrary: r k rule: execute.induct)
  case (2 n cls m fr vm)
  from "2.prems"(2) obtain j where k: "k = Suc j" "n \<le> j" by (cases k) auto
  show ?case
  proof (cases "jvm_step cls m fr vm")
    case (Inr s)
    show ?thesis
    proof (cases s)
      case (Running fr' vm')
      have "execute n cls m fr' vm' = Some r" using "2.prems"(1) Inr Running by simp
      from "2.IH"(1) [OF Inr Running this k(2)] Inr Running k(1) show ?thesis by simp
    next
      case (Calling m2 ls fr')
      from "2.prems"(1) obtain q where q: "execute n cls m2 (init_frame m2 ls) vm = Some q"
        by (auto simp: Inr Calling split: option.splits)
      note callee = "2.IH"(2) [OF Inr Calling this k(2)]
      show ?thesis
      proof (cases q)
        case (Inl e)
        with q "2.prems"(1) \<open>jvm_step cls m fr vm = Inr s\<close> Calling have "r = Inl e" by simp
        with Inl callee \<open>jvm_step cls m fr vm = Inr s\<close> Calling k show ?thesis by simp
      next
        case res: (Inr res)
        obtain v vm' where v: "res = (v, vm')" by (cases res)
        show ?thesis
        proof (cases "return_to fr' v")
          case (Inl e)
          with callee q res v "2.prems"(1) \<open>jvm_step cls m fr vm = Inr s\<close> Calling k show ?thesis by simp
        next
          case fr2: (Inr fr2)
          have "execute n cls m fr2 vm' = Some r"
            using "2.prems"(1) \<open>jvm_step cls m fr vm = Inr s\<close> Calling q res v fr2 by simp
          note rest = "2.IH"(3) [OF \<open>jvm_step cls m fr vm = Inr s\<close> Calling q res v [symmetric] fr2 this k(2)]
          with callee res v fr2 \<open>jvm_step cls m fr vm = Inr s\<close> Calling k show ?thesis by simp
        qed
      qed
    next
      case (Returned v)
      with "2.prems" Inr k show ?thesis by simp
    qed
  qed (use "2.prems" k in simp)
qed simp

text \<open>Arrays are never moved, dropped or resized, and nothing that was printed is taken back.\<close>

definition grows :: "vm_t \<Rightarrow> vm_t \<Rightarrow> bool" where
  "grows vm vm' = (length (heap vm) \<le> length (heap vm') \<and>
     (\<forall>i < length (heap vm). length (heap vm' ! i) = length (heap vm ! i)) \<and>
     (\<exists>s. stdout vm' = stdout vm @ s))"

lemma grows_refl [simp]: "grows vm vm"
  by (simp add: grows_def)

lemma grows_trans: "grows a b \<Longrightarrow> grows b c \<Longrightarrow> grows a c"
  by (fastforce simp: grows_def)

lemma heap_add_grows: "heap_add h a = Inr (r, h') \<Longrightarrow> h' = h @ [a]"
  by (auto simp: heap_add_def split: if_splits)

lemma new_array_grows: "new_array h n = Inr (r, h') \<Longrightarrow> \<exists>a. h' = h @ [a]"
  by (auto simp: new_array_def dest: heap_add_grows split: if_splits)

lemma array_set_shape: "array_set h ref i v = Inr h' \<Longrightarrow> map length h' = map length h"
proof -
  assume "array_set h ref i v = Inr h'"
  then obtain a a' where a: "heap_get h ref = Inr a" "h' = h[nat (sint ref) := a']" "length a' = length a"
    by (auto simp: array_set_def split: if_splits)
  then have "h ! nat (sint ref) = a" by (auto simp: heap_get_def split: if_splits)
  with a show ?thesis by (simp add: map_update list_update_same_conv [THEN iffD2] nth_map) (metis length_map list_update_beyond list_update_id map_update not_le nth_map)
qed

lemma shape_grows:
  assumes "map length h' = map length (heap vm)"
  shows "grows vm (vm\<lparr>heap := h'\<rparr>)"
proof -
  have l: "length h' = length (heap vm)" using arg_cong [OF assms, of length] by simp
  have "length (h' ! i) = length (heap vm ! i)" if "i < length (heap vm)" for i
    using arg_cong [OF assms, of "\<lambda>xs. xs ! i"] that l by simp
  with l show ?thesis by (simp add: grows_def)
qed

lemma append_grows: "grows vm (vm\<lparr>heap := heap vm @ [a]\<rparr>)"
  by (simp add: grows_def nth_append)

lemma exec_array_grows:
  assumes "exec_array m i fr (heap vm) = Inr (fr', h)"
  shows "grows vm (vm\<lparr>heap := h\<rparr>)"
proof -
  have "map length h = map length (heap vm) \<or> (\<exists>a. h = heap vm @ [a])"
    using assms by (auto simp: exec_array_def dest: new_array_grows array_set_shape split: jvm_instruction.splits)
  then show ?thesis using shape_grows append_grows by auto
qed

lemma instruction_grows: "exec_instruction cls m i fr vm = Inr (Running fr' vm') \<Longrightarrow> grows vm vm'"
  by (cases i) (auto dest: exec_array_grows simp: exec_print_def grows_def)

lemma step_grows: "jvm_step cls m fr vm = Inr (Running fr' vm') \<Longrightarrow> grows vm vm'"
  by (auto simp: jvm_step_def dest: instruction_grows split: if_splits option.splits)

lemma execute_grows: "execute n cls m fr vm = Some (Inr (v, vm')) \<Longrightarrow> grows vm vm'"
proof (induction n cls m fr vm arbitrary: v vm' rule: execute.induct)
  case (2 n cls m fr vm)
  then obtain s where s: "jvm_step cls m fr vm = Inr s" by (cases "jvm_step cls m fr vm") auto
  show ?case
  proof (cases s)
    case (Running fr1 vm1)
    with "2.IH"(1) [OF s Running, of v vm'] "2.prems" s step_grows [of cls m fr vm fr1 vm1] show ?thesis
      by (auto intro: grows_trans)
  next
    case (Returned w)
    with "2.prems" s show ?thesis by simp
  next
    case (Calling m2 ls fr1)
    with "2.prems" s obtain w vm1 fr2 where
      c: "execute n cls m2 (init_frame m2 ls) vm = Some (Inr (w, vm1))" "return_to fr1 w = Inr fr2"
        "execute n cls m fr2 vm1 = Some (Inr (v, vm'))"
      by (auto split: option.splits sum.splits)
    from "2.IH"(2) [OF s Calling c(1)] "2.IH"(3) [OF s Calling c(1) refl refl c(2,3)]
    show ?thesis by (rule grows_trans)
  qed
qed simp

section \<open>Java's arithmetic\<close>

text \<open>The values the Java instructions have, over the signed integers: truncating division, a remainder
with the sign of the dividend, shift distances modulo 32, and the unsigned shift of the 32-bit pattern.
\<open>None\<close> is an \<open>ArithmeticException\<close>; the result is then reduced to 32 bits.\<close>

definition trunc_div :: "int \<Rightarrow> int \<Rightarrow> int" where
  "trunc_div x y = sgn x * sgn y * (\<bar>x\<bar> div \<bar>y\<bar>)"

definition java_value :: "arith_op \<Rightarrow> int \<Rightarrow> int \<Rightarrow> int option" where
  "java_value op x y = (case op of
       Iadd \<Rightarrow> Some (x + y)
     | Isub \<Rightarrow> Some (x - y)
     | Imul \<Rightarrow> Some (x * y)
     | Idiv \<Rightarrow> if y = 0 then None else Some (trunc_div x y)
     | Irem \<Rightarrow> if y = 0 then None else Some (x - trunc_div x y * y)
     | Ishl \<Rightarrow> Some (x * 2 ^ nat (y mod 32))
     | Ishr \<Rightarrow> Some (x div 2 ^ nat (y mod 32))
     | Iushr \<Rightarrow> Some (x mod 2 ^ 32 div 2 ^ nat (y mod 32))
     | Iand \<Rightarrow> Some (x AND y)
     | Ior \<Rightarrow> Some (x OR y)
     | Ixor \<Rightarrow> Some (x XOR y))"

definition is_shift :: "arith_op \<Rightarrow> bool" where
  "is_shift op \<longleftrightarrow> op = Ishl \<or> op = Ishr \<or> op = Iushr"

lemma shift_count_java: "0 \<le> sint b \<Longrightarrow> sint b < 32 \<Longrightarrow> shift_count b = Inr (nat (sint b mod 32))"
  by (simp add: shift_count_def)

lemma word_of_int_sint_ops:
  "word_of_int (sint a AND sint b) = a AND (b :: u32)"
  "word_of_int (sint a OR sint b) = a OR (b :: u32)"
  "word_of_int (sint a XOR sint b) = a XOR (b :: u32)"
  by (rule bit_word_eqI; auto simp: bit_simps bit_sint_iff)+

lemma compute_java:
  "compute op a b =
    (if is_shift op \<and> \<not> (0 \<le> sint b \<and> sint b < 32) then Inl Undefined
     else case java_value op (sint a) (sint b) of
       None \<Rightarrow> Inl Arith_Trap
     | Some v \<Rightarrow>
         if (op = Idiv \<or> op = Irem) \<and> sint a = - (2 ^ 31) \<and> sint b = -1 then Inl Arith_Trap
         else Inr (word_of_int v))"
proof -
  have b0: "b = 0 \<longleftrightarrow> sint b = 0" by (metis signed_eq_0_iff)
  have mod: "(word_of_int (x mod 2 ^ 32) :: u32) = word_of_int x" for x by (simp add: word_of_int_eq_iff take_bit_eq_mod)
  have ushr: "drop_bit k a = word_of_int (sint a mod 2 ^ 32 div 2 ^ k)" for k
  proof -
    have "uint (drop_bit k a) = drop_bit k (uint a)"
      by (rule bit_eqI) (simp add: bit_unsigned_iff bit_simps)
    then have "uint (drop_bit k a) = uint a div 2 ^ k" by (simp only: drop_bit_eq_div)
    moreover have "sint a mod 2 ^ 32 = uint a" by (simp add: uint_sint take_bit_eq_mod)
    ultimately show ?thesis by (metis word_of_int_uint)
  qed
  have sshr: "signed_drop_bit k a = word_of_int (sint a div 2 ^ k)" for k
  proof -
    have "sint (signed_drop_bit k a) = sint a div 2 ^ k" by (simp add: sint_signed_drop_bit_eq drop_bit_eq_div)
    then have "word_of_int (sint (signed_drop_bit k a)) = (word_of_int (sint a div 2 ^ k) :: u32)"
      by (rule arg_cong)
    then show ?thesis by simp
  qed
  show ?thesis
  proof (cases op)
    case Idiv
    then show ?thesis using b0 by (auto simp: is_shift_def compute_def java_value_def int_div_def trunc_div_def)
  next
    case Irem
    then show ?thesis using b0 by (auto simp: is_shift_def compute_def java_value_def int_rem_def int_div_def trunc_div_def)
  next
    case Ishl
    then show ?thesis by (auto simp: compute_def java_value_def push_bit_eq_mult is_shift_def shift_count_def)
  next
    case Ishr
    then show ?thesis by (auto simp: compute_def java_value_def sshr is_shift_def shift_count_def)
  next
    case Iushr
    then show ?thesis by (auto simp: compute_def java_value_def ushr is_shift_def shift_count_def)
  qed (simp_all add: compute_def java_value_def word_of_int_sint_ops is_shift_def)
qed

section \<open>Branch offsets\<close>

text \<open>The JVM's offset: both bytes as one signed 16-bit number.\<close>

definition java_offset :: "u8 \<Rightarrow> u8 \<Rightarrow> u32" where
  "java_offset b1 b2 = scast (push_bit 8 (ucast b1) OR ucast b2 :: u16)"

lemma bit_java_offset:
  "bit (java_offset b1 b2) n \<longleftrightarrow> n < 32 \<and> (if n < 8 then bit b2 n else if n < 16 then bit b1 (n - 8) else bit b1 7)"
proof (cases "n < 32")
  case True
  then have "n < 15 \<or> n = 15 \<or> 16 \<le> n" by arith
  with True show ?thesis
    by (auto simp: java_offset_def bit_simps not_less min_def dest: bit_imp_le_length)
qed (auto dest: bit_imp_le_length)

lemma bit_branch_offset:
  "bit (branch_offset b1 b2) n \<longleftrightarrow>
     n < 32 \<and> (if n < 8 then bit b2 n else if n < 16 then bit b1 (n - 8) \<or> bit b2 7 else bit b1 7 \<or> bit b2 7)"
proof (cases "n < 32")
  case True
  then have "n < 7 \<or> n = 7 \<or> (8 \<le> n \<and> n < 15) \<or> n = 15 \<or> 16 \<le> n" by arith
  with True show ?thesis
    by (auto simp: branch_offset_def bit_simps not_less min_def dest: bit_imp_le_length)
qed (auto dest: bit_imp_le_length)

lemma offsets_agree: "branch_offset b1 b2 = java_offset b1 b2 \<longleftrightarrow> \<not> bit b2 7 \<or> b1 = -1"
proof
  assume eq: "branch_offset b1 b2 = java_offset b1 b2"
  show "\<not> bit b2 7 \<or> b1 = -1"
  proof (cases "bit b2 7")
    case True
    have "bit b1 k" if "k < 8" for k
      using that arg_cong [OF eq, of "\<lambda>w. bit w (k + 8)"] True by (simp add: bit_java_offset bit_branch_offset)
    then show ?thesis by (intro disjI2 bit_word_eqI) simp
  qed simp
next
  assume "\<not> bit b2 7 \<or> b1 = -1"
  then show "branch_offset b1 b2 = java_offset b1 b2"
    by (intro bit_word_eqI) (auto simp: bit_java_offset bit_branch_offset)
qed

section \<open>Properties\<close>

text \<open>A class with a recursive method (the sum of the numbers up to its argument) and a \<open>main\<close> that
prints its value at 5; and a method that stores before the start of an array.\<close>

definition sample_class :: class_file_t where
  "sample_class = \<lparr>constant_pool = [CONSTANT_Methodref 0 2, CONSTANT_NameAndType 3 4, CONSTANT_Utf8 [0x66],
       CONSTANT_Utf8 [0x28, 0x49, 0x29, 0x49]],
     methods = [
       \<lparr>method_name = ''f'', descriptor = ''(I)I'',
        method_code = \<lparr>max_stack = 3, max_locals = 1, code_length = 15,
          code = [0x1a, 0x9a, 0, 5, 3, 0xac, 0x1a, 0x1a, 4, 0x64, 0xb8, 0, 1, 0x60, 0xac]\<rparr>\<rparr>,
       \<lparr>method_name = ''main'', descriptor = ''([Ljava/lang/String;)V'',
        method_code = \<lparr>max_stack = 2, max_locals = 1, code_length = 12,
          code = [0xb2, 0, 0, 0x10, 5, 0xb8, 0, 1, 0xb6, 0, 0, 0xb1]\<rparr>\<rparr>]\<rparr>"

definition sample_main :: method_t where
  "sample_main = methods sample_class ! 1"

definition sample_vm :: vm_t where
  "sample_vm = \<lparr>heap = [], stdout = []\<rparr>"

lemma sample_runs:
  "execute 60 sample_class sample_main (init_frame sample_main [Some 0]) sample_vm =
     Some (Inr (None, \<lparr>heap = [], stdout = ''15'' @ [CHR 0x0A]\<rparr>))"
  by code_simp

definition store_before_array :: method_t where
  "store_before_array = \<lparr>method_name = ''main'', descriptor = ''([Ljava/lang/String;)V'',
     method_code = \<lparr>max_stack = 4, max_locals = 1, code_length = 12,
       code = [0x06, 0xbc, 10, 0x59, 0x02, 0x10, 50, 0x4f, 0xbe, 0xb6, 0, 0]\<rparr>\<rparr>"

text \<open>The interpreter's answer does not depend on the fuel: what a run returns with some fuel it
returns with any more, so \<open>execute\<close> defines one result for every program that stops.\<close>

theorem answer_independent_of_fuel:
  assumes "execute n cls m fr vm = Some r" "n \<le> k"
  shows "execute k cls m fr vm = Some r"
  using execute_more_fuel [OF assms] .

lemma answer_independent_of_fuel_witness:
  "execute 1000 sample_class sample_main (init_frame sample_main [Some 0]) sample_vm =
     Some (Inr (None, \<lparr>heap = [], stdout = ''15'' @ [CHR 0x0A]\<rparr>))"
  using answer_independent_of_fuel [OF sample_runs, of 1000] by simp

text \<open>Whatever a method does, calls included, the arrays of the heap stay where they are with the
length they were allocated with, new ones are added behind them, and output is only appended.\<close>

theorem execute_keeps_heap_and_output:
  assumes "execute n cls m fr vm = Some (Inr (v, vm'))"
  shows "length (heap vm) \<le> length (heap vm') \<and>
    map length (take (length (heap vm)) (heap vm')) = map length (heap vm) \<and>
    (\<exists>s. stdout vm' = stdout vm @ s)"
  using execute_grows [OF assms] by (auto simp: grows_def intro!: nth_equalityI)

lemma execute_keeps_heap_and_output_witness:
  "\<exists>s. stdout \<lparr>heap = [], stdout = ''15'' @ [CHR 0x0A]\<rparr> = stdout sample_vm @ s"
  using execute_keeps_heap_and_output [OF sample_runs] by blast

text \<open>C30: the binary integer instructions compute what the Java language defines, reduced to 32 bits (wrapping
sums and products, truncating division, a remainder with the sign of the dividend, the three shifts),
with two exceptions: a shift by a count outside 0 to 31, where Java takes the count modulo 32, is
undefined in the interpreter, and the smallest value divided by -1, which Java defines as the smallest
value, stops it as a zero divisor does.\<close>

theorem arithmetic_matches_java:
  "compute op a b =
    (if is_shift op \<and> \<not> (0 \<le> sint b \<and> sint b < 32) then Inl Undefined
     else case java_value op (sint a) (sint b) of
       None \<Rightarrow> Inl Arith_Trap
     | Some v \<Rightarrow>
         if (op = Idiv \<or> op = Irem) \<and> sint a = - (2 ^ 31) \<and> sint b = -1 then Inl Arith_Trap
         else Inr (word_of_int v))"
  by (rule compute_java)

text \<open>The offset of a branch is the JVM's 16-bit offset exactly when the low byte is below 128 or the
high byte is 255: the low byte is read as signed, so that for instance a jump 128 bytes forward goes
128 bytes back.\<close>

theorem branch_offset_exact:
  "(branch_offset b1 b2 \<noteq> java_offset b1 b2 \<longleftrightarrow> bit b2 7 \<and> b1 \<noteq> -1) \<and>
   sint (java_offset 0 128) = 128 \<and> sint (branch_offset 0 128) = -128"
proof -
  have "sint (java_offset 0 128) = 128" "sint (branch_offset 0 128) = -128" by code_simp+
  then show ?thesis using offsets_agree by blast
qed

text \<open>An array keeps its length in the cell before its first element and indices are only checked
against the block, so a store to index -1 changes the length: the program \<open>new int[3]\<close>, store 50 at
index -1, print the length prints 50.\<close>

theorem store_before_array_changes_length:
  "execute 20 sample_class store_before_array (init_frame store_before_array [Some 0]) sample_vm =
     Some (Inr (None, \<lparr>heap = [[50, 0, 0, 0]], stdout = ''50'' @ [CHR 0x0A]\<rparr>))"
  by code_simp

end
