(* ===== verification/JvmVerify.thy ===== *)
theory JvmVerify
  imports Jvm
begin

text \<open>
  A bytecode check for TeenyJVM and its soundness. The interpreter (\<open>project01-wduan/jvm.c\<close>) has no
  verifier and only asserts its stack bounds; a method that passes the check here (stack depths that
  agree along every jump, operands and locals in range, calls that resolve) runs without failing any
  of those assertions, without leaving its code or its locals, and without meeting an unknown
  instruction. What is left depends on data, and on the instructions the code contains.
\<close>

section \<open>The check\<close>

text \<open>How many bytes an instruction takes, how many values it pops and pushes.\<close>

fun instruction_length :: "jvm_instruction \<Rightarrow> nat" where
  "instruction_length I_bipush = 2"
| "instruction_length I_sipush = 3"
| "instruction_length I_ldc = 2"
| "instruction_length I_load = 2"
| "instruction_length I_store = 2"
| "instruction_length I_iinc = 3"
| "instruction_length (I_if c) = 3"
| "instruction_length (I_if_icmp c) = 3"
| "instruction_length I_goto = 3"
| "instruction_length I_getstatic = 3"
| "instruction_length I_invokevirtual = 3"
| "instruction_length I_invokestatic = 3"
| "instruction_length I_newarray = 2"
| "instruction_length _ = 1"

fun pops :: "jvm_instruction \<Rightarrow> nat" where
  "pops I_store = 1" | "pops (I_store_n k) = 1" | "pops I_iaload = 2" | "pops I_iastore = 3"
| "pops I_dup = 1" | "pops (I_arith op) = 2" | "pops I_ineg = 1" | "pops (I_if c) = 1"
| "pops (I_if_icmp c) = 2" | "pops I_value_return = 1" | "pops I_invokevirtual = 1"
| "pops I_newarray = 1" | "pops I_arraylength = 1" | "pops _ = 0"

fun pushes :: "jvm_instruction \<Rightarrow> nat" where
  "pushes (I_iconst n) = 1" | "pushes I_bipush = 1" | "pushes I_sipush = 1" | "pushes I_ldc = 1"
| "pushes I_load = 1" | "pushes (I_load_n k) = 1" | "pushes I_iaload = 1" | "pushes I_dup = 2"
| "pushes (I_arith op) = 1" | "pushes I_ineg = 1" | "pushes I_newarray = 1" | "pushes I_arraylength = 1"
| "pushes _ = 0"

text \<open>A method returns a value unless its descriptor ends in \<open>V\<close>.\<close>

definition returns_value :: "method_t \<Rightarrow> bool" where
  "returns_value m = (descriptor m \<noteq> [] \<and> last (descriptor m) \<noteq> CHR ''V'')"

text \<open>A stack depth for every position of the code that can be reached.\<close>

type_synonym depths = "nat option list"

definition code_of :: "method_t \<Rightarrow> bytes" where
  "code_of m = code (method_code m)"

definition jump_target :: "method_t \<Rightarrow> nat \<Rightarrow> nat" where
  "jump_target m p =
     unat (of_nat p + scast (branch_offset (code_of m ! (p + 1)) (code_of m ! (p + 2))) :: u64)"

definition flows :: "depths \<Rightarrow> nat \<Rightarrow> nat \<Rightarrow> bool" where
  "flows D p d = (p < length D \<and> D ! p = Some d)"

definition local_ok :: "method_t \<Rightarrow> nat \<Rightarrow> bool" where
  "local_ok m k = (k < unat (max_locals (method_code m)))"

definition operand :: "method_t \<Rightarrow> nat \<Rightarrow> nat" where
  "operand m p = unat (code_of m ! (p + 1))"

fun operands_ok :: "class_file_t \<Rightarrow> method_t \<Rightarrow> nat \<Rightarrow> jvm_instruction \<Rightarrow> bool" where
  "operands_ok cls m p I_load = local_ok m (operand m p)"
| "operands_ok cls m p I_store = local_ok m (operand m p)"
| "operands_ok cls m p I_iinc = local_ok m (operand m p)"
| "operands_ok cls m p (I_load_n k) = local_ok m k"
| "operands_ok cls m p (I_store_n k) = local_ok m k"
| "operands_ok cls m p I_ldc =
     (operand m p \<noteq> 0 \<and> operand m p \<le> length (constant_pool cls) \<and>
      (case constant_pool cls ! (operand m p - 1) of CONSTANT_Integer v \<Rightarrow> True | _ \<Rightarrow> False))"
| "operands_ok cls m p I_value_return = returns_value m"
| "operands_ok cls m p I_return = (\<not> returns_value m)"
| "operands_ok cls m p _ = True"

text \<open>The method a call names, with its number of parameters.\<close>

definition callee :: "class_file_t \<Rightarrow> method_t \<Rightarrow> nat \<Rightarrow> (method_t \<times> nat) option" where
  "callee cls m p =
     (case find_method_from_index (push_bit 8 (ucast (code_of m ! (p + 1))) OR ucast (code_of m ! (p + 2))) cls of
        Inr (Some m2) \<Rightarrow>
          (case get_number_of_parameters m2 of Inr n \<Rightarrow> Some (m2, unat n) | Inl e \<Rightarrow> None)
      | _ \<Rightarrow> None)"

definition call_ok :: "class_file_t \<Rightarrow> method_t \<Rightarrow> depths \<Rightarrow> nat \<Rightarrow> nat \<Rightarrow> bool" where
  "call_ok cls m D p d =
     (case callee cls m p of
        None \<Rightarrow> False
      | Some (m2, n) \<Rightarrow>
          n \<le> d \<and> n \<le> unat (max_locals (method_code m2)) \<and>
          (let d' = d - n + (if returns_value m2 then 1 else 0)
           in d' \<le> unat (max_stack (method_code m)) \<and> flows D (p + 3) d'))"

text \<open>Where control goes with the depth the instruction leaves.\<close>

fun successors_ok :: "class_file_t \<Rightarrow> method_t \<Rightarrow> depths \<Rightarrow> nat \<Rightarrow> nat \<Rightarrow> jvm_instruction \<Rightarrow> bool" where
  "successors_ok cls m D p d (I_if c) = (flows D (jump_target m p) d \<and> flows D (p + 3) d)"
| "successors_ok cls m D p d (I_if_icmp c) = (flows D (jump_target m p) d \<and> flows D (p + 3) d)"
| "successors_ok cls m D p d I_goto = flows D (jump_target m p) d"
| "successors_ok cls m D p d I_value_return = True"
| "successors_ok cls m D p d I_return = True"
| "successors_ok cls m D p d i = flows D (p + instruction_length i) d"

definition instruction_ok :: "class_file_t \<Rightarrow> method_t \<Rightarrow> depths \<Rightarrow> nat \<Rightarrow> nat \<Rightarrow> bool" where
  "instruction_ok cls m D p d =
     (case decode (code_of m ! p) of
        None \<Rightarrow> False
      | Some I_invokestatic \<Rightarrow> p + 3 \<le> length (code_of m) \<and> call_ok cls m D p d
      | Some i \<Rightarrow>
          p + instruction_length i \<le> length (code_of m) \<and> pops i \<le> d \<and>
          d - pops i + pushes i \<le> unat (max_stack (method_code m)) \<and>
          operands_ok cls m p i \<and> successors_ok cls m D p (d - pops i + pushes i) i)"

definition method_ok :: "class_file_t \<Rightarrow> depths \<Rightarrow> method_t \<Rightarrow> bool" where
  "method_ok cls D m =
     (unat (code_length (method_code m)) = length (code_of m) \<and> length D = length (code_of m) \<and>
      flows D 0 0 \<and>
      list_all (\<lambda>p. case D ! p of None \<Rightarrow> True | Some d \<Rightarrow> instruction_ok cls m D p d) [0..<length D])"

definition class_ok :: "class_file_t \<Rightarrow> (method_t \<Rightarrow> depths) \<Rightarrow> bool" where
  "class_ok cls types = list_all (\<lambda>m. method_ok cls (types m) m) (methods cls)"

text \<open>The ways an instruction can still stop the machine.\<close>

fun data_errors :: "jvm_instruction \<Rightarrow> c_error list" where
  "data_errors (I_arith Idiv) = [Arith_Trap]"
| "data_errors (I_arith Irem) = [Arith_Trap]"
| "data_errors (I_arith Ishl) = [Undefined]"
| "data_errors (I_arith Ishr) = [Undefined]"
| "data_errors (I_arith Iushr) = [Undefined]"
| "data_errors I_load = [Indeterminate]"
| "data_errors (I_load_n k) = [Indeterminate]"
| "data_errors I_iinc = [Indeterminate]"
| "data_errors I_iaload = [Bad_Access]"
| "data_errors I_iastore = [Bad_Access]"
| "data_errors I_arraylength = [Bad_Access]"
| "data_errors I_newarray = [Bad_Access, Undefined]"
| "data_errors _ = []"

definition method_errors :: "depths \<Rightarrow> method_t \<Rightarrow> c_error list" where
  "method_errors D m =
     concat (map (\<lambda>p. case D ! p of
         None \<Rightarrow> []
       | Some d \<Rightarrow> (case decode (code_of m ! p) of None \<Rightarrow> [] | Some i \<Rightarrow> data_errors i)) [0..<length D])"

definition class_errors :: "class_file_t \<Rightarrow> (method_t \<Rightarrow> depths) \<Rightarrow> c_error list" where
  "class_errors cls types = concat (map (\<lambda>m. method_errors (types m) m) (methods cls))"

section \<open>Soundness\<close>

definition frame_ok :: "method_t \<Rightarrow> depths \<Rightarrow> frame_t \<Rightarrow> bool" where
  "frame_ok m D fr =
     (flows D (unat (pc fr)) (length (items (stack fr))) \<and>
      capacity (stack fr) = unat (max_stack (method_code m)) \<and>
      length (locals fr) = unat (max_locals (method_code m)))"

text \<open>A frame between the pops and the pushes of an instruction at position \<open>p\<close>.\<close>

definition frame_at :: "method_t \<Rightarrow> nat \<Rightarrow> nat \<Rightarrow> frame_t \<Rightarrow> bool" where
  "frame_at m p d fr =
     (unat (pc fr) = p \<and> length (items (stack fr)) = d \<and>
      capacity (stack fr) = unat (max_stack (method_code m)) \<and>
      length (locals fr) = unat (max_locals (method_code m)))"

lemma pop_at: "frame_at m p (Suc d) fr \<Longrightarrow> \<exists>v fr'. pop fr = Inr (v, fr') \<and> frame_at m p d fr'"
  by (cases "items (stack fr)") (auto simp: pop_def stack_pop_def frame_at_def)

lemma push_at:
  "frame_at m p d fr \<Longrightarrow> d < unat (max_stack (method_code m)) \<Longrightarrow> \<exists>fr'. push fr v = Inr fr' \<and> frame_at m p (Suc d) fr'"
  by (auto simp: push_def stack_push_def frame_at_def)

lemma fetch_at: "frame_at m p d fr \<Longrightarrow> p + k < length (code_of m) \<Longrightarrow> fetch m fr k = Inr (code_of m ! (p + k))"
  by (simp add: fetch_def frame_at_def code_of_def aget_def)

lemma local_get_at:
  "frame_at m p d fr \<Longrightarrow> local_ok m k \<Longrightarrow> local_get fr k = Inl Indeterminate \<or> (\<exists>v. local_get fr k = Inr v)"
  by (cases "locals fr ! k") (auto simp: local_get_def frame_at_def local_ok_def aget_def)

lemma local_set_at:
  "frame_at m p d fr \<Longrightarrow> local_ok m k \<Longrightarrow> \<exists>fr'. local_set fr k v = Inr fr' \<and> frame_at m p d fr'"
  by (auto simp: local_set_def frame_at_def local_ok_def aset_def)

text \<open>What an instruction that stays in its method leads to.\<close>

definition continues :: "method_t \<Rightarrow> depths \<Rightarrow> c_error list \<Rightarrow> frame_t result \<Rightarrow> bool" where
  "continues m D errors r = (case r of Inl e \<Rightarrow> e \<in> set errors | Inr fr \<Rightarrow> frame_ok m D fr)"

lemma continues_Inl [simp]: "continues m D errors (Inl e) \<longleftrightarrow> e \<in> set errors"
  by (simp add: continues_def)

lemma continues_Inr [simp]: "continues m D errors (Inr fr) \<longleftrightarrow> frame_ok m D fr"
  by (simp add: continues_def)

definition small :: "method_t \<Rightarrow> bool" where
  "small m = (length (code_of m) < 2 ^ 32)"

lemma advance_ok:
  assumes "small m" "frame_at m p d fr" "flows D (p + n) d" "p + n \<le> length (code_of m)"
  shows "frame_ok m D (advance_pc (of_nat n) fr)"
proof -
  have "unat (of_nat n :: u64) = n" using assms(1,4) by (simp add: small_def unat_of_nat take_bit_nat_eq_self)
  then have "unat (pc fr + of_nat n) = p + n"
    using assms unat_plus_exact [of "pc fr" "of_nat n"] by (simp add: small_def frame_at_def)
  with assms show ?thesis by (simp add: frame_ok_def frame_at_def advance_pc_def)
qed

lemmas advance_123 = advance_ok [where n = 1, simplified] advance_ok [where n = 2, simplified]
  advance_ok [where n = 3, simplified]

lemma branch_ok:
  assumes "small m" "frame_at m p d fr" "flows D (jump_target m p) d" "flows D (p + 3) d"
    "p + 3 \<le> length (code_of m)"
  shows "frame_ok m D (branch (code_of m ! (p + 1)) (code_of m ! (p + 2)) taken fr)"
proof (cases taken)
  case True
  have "pc fr = of_nat p" using assms(2) by (auto simp: frame_at_def)
  then have "unat (pc fr + scast (branch_offset (code_of m ! (p + 1)) (code_of m ! (p + 2)))) = jump_target m p"
    by (simp add: jump_target_def)
  with True assms(2,3) show ?thesis by (simp add: branch_def frame_ok_def frame_at_def advance_pc_def)
next
  case False
  with advance_123(3) assms show ?thesis by (simp add: branch_def)
qed

lemma compute_errors: "compute op a b = Inl e \<Longrightarrow> e \<in> set (data_errors (I_arith op))"
  by (cases op) (auto simp: compute_def int_rem_def int_div_def shift_count_def split: if_splits)

lemma push_advance:
  assumes "small m" "frame_at m p d fr" "d < unat (max_stack (method_code m))" "flows D (p + n) (Suc d)"
    "p + n \<le> length (code_of m)"
  shows "continues m D es (ebind (push fr v) (\<lambda>fr. Inr (advance_pc (of_nat n) fr)))"
proof -
  obtain fr' where "push fr v = Inr fr'" "frame_at m p (Suc d) fr'" using push_at [OF assms(2,3)] by blast
  with advance_ok [OF assms(1) this(2) assms(4,5)] show ?thesis by simp
qed

lemmas push_advance_123 = push_advance [where n = 1, simplified] push_advance [where n = 2, simplified]
  push_advance [where n = 3, simplified]

lemma values_on_stack:
  "1 \<le> d \<Longrightarrow> \<exists>k. d = Suc k" "2 \<le> d \<Longrightarrow> \<exists>k. d = Suc (Suc k)" "3 \<le> d \<Longrightarrow> \<exists>k. d = Suc (Suc (Suc k))"
  for d :: nat
  by arith+

lemma arith_continues:
  assumes s: "small m" and fr: "frame_at m p d fr" and i: "i = I_arith op \<or> i = I_ineg"
    and ok: "p + 1 \<le> length (code_of m)" "pops i \<le> d" "d - pops i + pushes i \<le> unat (max_stack (method_code m))"
      "flows D (p + 1) (d - pops i + pushes i)"
  shows "continues m D (data_errors i) (exec_arith i fr)"
proof (cases "i = I_ineg")
  case True
  with ok obtain d0 where d: "d = Suc d0" by (cases d) auto
  obtain a fr1 where a: "pop fr = Inr (a, fr1)" "frame_at m p d0 fr1" using pop_at fr d by blast
  have "continues m D [] (ebind (push fr1 (- a)) (\<lambda>fr. Inr (advance_pc 1 fr)))"
    by (rule push_advance_123 [OF s a(2)]) (use ok d True in simp_all)
  with True a show ?thesis by (simp add: exec_arith_def)
next
  case False
  with i ok obtain d0 where iop: "i = I_arith op" and d: "d = Suc (Suc d0)"
    using values_on_stack(2) [of d] by auto
  obtain b fr1 where b: "pop fr = Inr (b, fr1)" "frame_at m p (Suc d0) fr1" using pop_at fr d by blast
  obtain a fr2 where a: "pop fr1 = Inr (a, fr2)" "frame_at m p d0 fr2" using pop_at b by blast
  have v: "continues m D (data_errors i) (ebind (push fr2 v) (\<lambda>fr. Inr (advance_pc 1 fr)))" for v
    by (rule push_advance_123 [OF s a(2)]) (use ok d iop in simp_all)
  show ?thesis
  proof (cases "compute op a b")
    case (Inl e)
    with compute_errors [OF Inl] iop a b show ?thesis by (auto simp: exec_arith_def)
  next
    case (Inr w)
    with v [of w] iop a b show ?thesis by (simp add: exec_arith_def)
  qed
qed

lemma continues_pushed:
  "continues m D [] (ebind (push fr v) (\<lambda>fr. Inr (advance_pc n fr))) \<Longrightarrow>
   \<exists>fr'. push fr v = Inr fr' \<and> frame_ok m D (advance_pc n fr')"
  by (cases "push fr v") (simp_all add: continues_def)

text \<open>The facts about an instruction the check has accepted.\<close>

definition accepted :: "class_file_t \<Rightarrow> method_t \<Rightarrow> depths \<Rightarrow> nat \<Rightarrow> nat \<Rightarrow> jvm_instruction \<Rightarrow> bool" where
  "accepted cls m D p d i =
     (small m \<and> p + instruction_length i \<le> length (code_of m) \<and> pops i \<le> d \<and>
      d - pops i + pushes i \<le> unat (max_stack (method_code m)) \<and>
      operands_ok cls m p i \<and> successors_ok cls m D p (d - pops i + pushes i) i)"

lemma local_continues:
  assumes acc: "accepted cls m D p d i" and fr: "frame_at m p d fr"
    and i: "i \<in> {I_load, I_store, I_iinc} \<or> (\<exists>k. i = I_load_n k) \<or> (\<exists>k. i = I_store_n k)"
  shows "continues m D (data_errors i) (exec_local m i fr)"
proof -
  have s: "small m" using acc by (simp add: accepted_def)
  have do_load: "continues m D [Indeterminate] (ebind (local_get fr k) (\<lambda>v. ebind (push fr v) (\<lambda>fr. Inr (advance_pc (of_nat n) fr))))"
    if "local_ok m k" "d < unat (max_stack (method_code m))" "flows D (p + n) (Suc d)" "p + n \<le> length (code_of m)" for k n
    using local_get_at [OF fr that(1)] push_advance [OF s fr that(2-4)] by auto
  have do_store: "continues m D es (ebind (pop fr) (\<lambda>(a, fr). ebind (local_set fr k a) (\<lambda>fr. Inr (advance_pc (of_nat n) fr))))"
    if k: "local_ok m k" and d: "d = Suc d0" and to: "flows D (p + n) d0" "p + n \<le> length (code_of m)" for k n d0 es
  proof -
    obtain a fr1 where a: "pop fr = Inr (a, fr1)" "frame_at m p d0 fr1" using pop_at fr d by blast
    obtain fr2 where "local_set fr1 k a = Inr fr2" "frame_at m p d0 fr2" using local_set_at [OF a(2) k] by blast
    with a advance_ok [OF s this(2) to] show ?thesis by simp
  qed
  have bytes: "fetch m fr 1 = Inr (code_of m ! (p + 1))" if "p + 1 < length (code_of m)"
    by (rule fetch_at [OF fr that])
  consider (load) "i = I_load" | (store) "i = I_store" | (inc) "i = I_iinc" | (load_n) k where "i = I_load_n k"
    | (store_n) k where "i = I_store_n k" using i by auto
  then show ?thesis
  proof cases
    case load_n
    with do_load [of k 1] acc show ?thesis by (simp add: accepted_def exec_local_def)
  next
    case load
    with do_load [of "operand m p" 2] acc bytes show ?thesis
      by (simp add: accepted_def exec_local_def operand_def)
  next
    case store_n
    with acc obtain d0 where "d = Suc d0" by (cases d) (auto simp: accepted_def)
    with store_n do_store [of k d0 1] acc show ?thesis by (simp add: accepted_def exec_local_def)
  next
    case store
    with acc obtain d0 where "d = Suc d0" by (cases d) (auto simp: accepted_def)
    with store do_store [of "operand m p" d0 2] acc bytes show ?thesis
      by (simp add: accepted_def exec_local_def operand_def)
  next
    case inc
    have ok: "local_ok m (operand m p)" "flows D (p + 3) d" "p + 3 \<le> length (code_of m)"
      using acc inc by (simp_all add: accepted_def)
    have b2: "fetch m fr 2 = Inr (code_of m ! (p + 2))" by (rule fetch_at [OF fr]) (use ok in simp)
    show ?thesis
      using local_get_at [OF fr ok(1)]
    proof
      assume "local_get fr (operand m p) = Inl Indeterminate"
      with inc bytes b2 ok show ?thesis by (simp add: exec_local_def operand_def)
    next
      assume "\<exists>v. local_get fr (operand m p) = Inr v"
      then obtain v where v: "local_get fr (operand m p) = Inr v" by blast
      obtain fr1 where "local_set fr (operand m p) (v + scast (code_of m ! (p + 2))) = Inr fr1" "frame_at m p d fr1"
        using local_set_at [OF fr ok(1)] by blast
      with v inc bytes b2 advance_123(3) [OF s this(2) ok(2,3)] ok(3) show ?thesis
        by (simp add: exec_local_def operand_def)
    qed
  qed
qed

lemma constant_continues:
  assumes acc: "accepted cls m D p d i" and fr: "frame_at m p d fr"
    and i: "i \<in> {I_nop, I_bipush, I_sipush, I_ldc, I_dup, I_getstatic} \<or> (\<exists>k. i = I_iconst k)"
  shows "continues m D (data_errors i) (exec_constant cls m i fr)"
proof -
  have s: "small m" using acc by (simp add: accepted_def)
  have b1: "fetch m fr 1 = Inr (code_of m ! (p + 1))" if "p + 1 < length (code_of m)"
    by (rule fetch_at [OF fr that])
  have b2: "fetch m fr 2 = Inr (code_of m ! (p + 2))" if "p + 2 < length (code_of m)"
    by (rule fetch_at [OF fr that])
  note push = push_advance_123 [OF s fr]
  from i consider "i = I_nop" | "i = I_getstatic" | k where "i = I_iconst k" | "i = I_bipush" | "i = I_sipush"
    | (ldc) "i = I_ldc" | (dup) "i = I_dup" by auto
  then show ?thesis
  proof cases
    case ldc
    with acc have op: "operand m p \<noteq> 0" "operand m p \<le> length (constant_pool cls)" "p + 1 < length (code_of m)"
      "case constant_pool cls ! (operand m p - 1) of CONSTANT_Integer v \<Rightarrow> True | _ \<Rightarrow> False"
      by (simp_all add: accepted_def)
    then obtain v where v: "constant_pool cls ! (operand m p - 1) = CONSTANT_Integer v"
      by (auto split: cp_info.splits)
    have "code_of m ! (p + 1) \<noteq> 0" using op(1) by (auto simp: operand_def)
    moreover have "constant_pool cls ! (unat (code_of m ! (p + 1)) - 1) = CONSTANT_Integer v"
      "unat (code_of m ! (p + 1)) - 1 < length (constant_pool cls)"
      using op v by (auto simp: operand_def)
    ultimately show ?thesis
      using acc ldc b1 [OF op(3)] push(2) [of D "data_errors I_ldc" v]
      by (simp add: accepted_def exec_constant_def aget_def)
  next
    case dup
    with acc obtain d0 where d: "d = Suc d0" by (cases d) (auto simp: accepted_def)
    obtain a fr1 where a: "pop fr = Inr (a, fr1)" "frame_at m p d0 fr1" using pop_at fr d by blast
    have "d0 < unat (max_stack (method_code m))" using acc dup d by (simp add: accepted_def)
    then obtain fr2 where "push fr1 a = Inr fr2" "frame_at m p (Suc d0) fr2" using push_at [OF a(2)] by blast
    with push_advance_123(1) [OF s this(2), of D "[]" a] acc dup d a show ?thesis
      by (simp add: accepted_def exec_constant_def)
  next
    case 1
    with acc advance_123(1) [OF s fr] show ?thesis by (simp add: accepted_def exec_constant_def)
  next
    case 2
    with acc advance_123(3) [OF s fr] show ?thesis by (simp add: accepted_def exec_constant_def)
  next
    case 3
    with acc push(1) show ?thesis by (simp add: accepted_def exec_constant_def)
  next
    case 4
    with acc b1 push(2) show ?thesis by (simp add: accepted_def exec_constant_def)
  next
    case 5
    with acc b1 b2 push(3) show ?thesis by (simp add: accepted_def exec_constant_def)
  qed
qed

lemma branch_continues:
  assumes acc: "accepted cls m D p d i" and fr: "frame_at m p d fr"
    and i: "i = I_goto \<or> (\<exists>c. i = I_if c) \<or> (\<exists>c. i = I_if_icmp c)"
  shows "continues m D (data_errors i) (exec_branch m i fr)"
proof -
  have s: "small m" and len: "p + 3 \<le> length (code_of m)" using acc i by (auto simp: accepted_def)
  have b: "fetch m fr 1 = Inr (code_of m ! (p + 1))" "fetch m fr 2 = Inr (code_of m ! (p + 2))"
    by (rule fetch_at [OF fr]; use len in simp)+
  from i consider (goto) "i = I_goto" | (one) c where "i = I_if c" | (two) c where "i = I_if_icmp c" by auto
  then show ?thesis
  proof cases
    case goto
    have "frame_ok m D (branch (code_of m ! (p + 1)) (code_of m ! (p + 2)) True fr)"
      using acc goto fr by (auto simp: accepted_def branch_def frame_ok_def frame_at_def advance_pc_def jump_target_def)
    with goto b show ?thesis by (simp add: exec_branch_def)
  next
    case one
    with acc obtain d0 where d: "d = Suc d0" by (cases d) (auto simp: accepted_def)
    obtain a fr1 where a: "pop fr = Inr (a, fr1)" "frame_at m p d0 fr1" using pop_at fr d by blast
    from branch_ok [OF s a(2)] acc one d len a b show ?thesis by (simp add: accepted_def exec_branch_def)
  next
    case two
    with acc obtain d0 where d: "d = Suc (Suc d0)" using values_on_stack(2) [of d] by (auto simp: accepted_def)
    obtain a fr1 where a: "pop fr = Inr (a, fr1)" "frame_at m p (Suc d0) fr1" using pop_at fr d by blast
    obtain a2 fr2 where a2: "pop fr1 = Inr (a2, fr2)" "frame_at m p d0 fr2" using pop_at a(2) by blast
    from branch_ok [OF s a2(2)] acc two d len a a2 b show ?thesis by (simp add: accepted_def exec_branch_def)
  qed
qed

lemma array_continues:
  assumes acc: "accepted cls m D p d i" and fr: "frame_at m p d fr"
    and i: "i \<in> {I_newarray, I_arraylength, I_iastore, I_iaload}"
  shows "case exec_array m i fr h of Inl e \<Rightarrow> e \<in> set (data_errors i) | Inr (fr', h') \<Rightarrow> frame_ok m D fr'"
proof -
  have s: "small m" using acc by (simp add: accepted_def)
  have heap_err: "heap_get h ref = Inl e \<Longrightarrow> e = Bad_Access" for ref e
    by (auto simp: heap_get_def aget_def split: if_splits)
  have new_err: "new_array h n = Inl e \<Longrightarrow> e = Bad_Access \<or> e = Undefined" for n e
    by (auto simp: new_array_def heap_add_def split: if_splits)
  have get_err: "array_get h ref k = Inl e \<Longrightarrow> e = Bad_Access" for ref k e
    by (auto simp: array_get_def ebind_eq_Inl aget_def dest: heap_err split: if_splits)
  have set_err: "array_set h ref k v = Inl e \<Longrightarrow> e = Bad_Access" for ref k v e
    by (auto simp: array_set_def ebind_eq_Inl aset_def dest: heap_err split: if_splits)
  from i consider (new) "i = I_newarray" | (len) "i = I_arraylength" | (set) "i = I_iastore" | (get) "i = I_iaload" by auto
  then show ?thesis
  proof cases
    case new
    with acc obtain d0 where d: "d = Suc d0" by (cases d) (auto simp: accepted_def)
    obtain n fr1 where a: "pop fr = Inr (n, fr1)" "frame_at m p d0 fr1" using pop_at fr d by blast
    have b: "fetch m fr 1 = Inr (code_of m ! (p + 1))"
      by (rule fetch_at [OF fr]) (use acc new in \<open>simp add: accepted_def\<close>)
    have "continues m D [] (ebind (push fr1 r) (\<lambda>fr. Inr (advance_pc 2 fr)))" for r
      by (rule push_advance_123 [OF s a(2)]) (use acc new d in \<open>simp_all add: accepted_def\<close>)
    then have pushed: "\<exists>fr2. push fr1 r = Inr fr2 \<and> frame_ok m D (advance_pc 2 fr2)" for r
      by (rule continues_pushed)
    show ?thesis
    proof (cases "new_array h n")
      case (Inr rh)
      then show ?thesis using new a b pushed [of "fst rh"] by (cases rh) (auto simp: exec_array_def)
    qed (use new a b new_err in \<open>auto simp: exec_array_def\<close>)
  next
    case len
    with acc obtain d0 where d: "d = Suc d0" by (cases d) (auto simp: accepted_def)
    obtain r fr1 where a: "pop fr = Inr (r, fr1)" "frame_at m p d0 fr1" using pop_at fr d by blast
    have "continues m D [] (ebind (push fr1 v) (\<lambda>fr. Inr (advance_pc 1 fr)))" for v
      by (rule push_advance_123 [OF s a(2)]) (use acc len d in \<open>simp_all add: accepted_def\<close>)
    then have pushed: "\<exists>fr2. push fr1 v = Inr fr2 \<and> frame_ok m D (advance_pc 1 fr2)" for v
      by (rule continues_pushed)
    show ?thesis
    proof (cases "heap_get h r")
      case (Inr array)
      then show ?thesis using len a pushed [of "array ! 0"] by (auto simp: exec_array_def aget_def)
    qed (use len a heap_err in \<open>auto simp: exec_array_def\<close>)
  next
    case set
    with acc obtain d0 where d: "d = Suc (Suc (Suc d0))" using values_on_stack(3) [of d] by (auto simp: accepted_def)
    obtain v fr1 where v: "pop fr = Inr (v, fr1)" "frame_at m p (Suc (Suc d0)) fr1" using pop_at fr d by blast
    obtain k fr2 where k: "pop fr1 = Inr (k, fr2)" "frame_at m p (Suc d0) fr2" using pop_at v(2) by blast
    obtain r fr3 where r: "pop fr2 = Inr (r, fr3)" "frame_at m p d0 fr3" using pop_at k(2) by blast
    have "frame_ok m D (advance_pc 1 fr3)"
      by (rule advance_123(1) [OF s r(2)]) (use acc set d in \<open>simp_all add: accepted_def\<close>)
    then show ?thesis using set v k r set_err by (cases "array_set h r k v") (auto simp: exec_array_def)
  next
    case get
    with acc obtain d0 where d: "d = Suc (Suc d0)" using values_on_stack(2) [of d] by (auto simp: accepted_def)
    obtain k fr1 where k: "pop fr = Inr (k, fr1)" "frame_at m p (Suc d0) fr1" using pop_at fr d by blast
    obtain r fr2 where r: "pop fr1 = Inr (r, fr2)" "frame_at m p d0 fr2" using pop_at k(2) by blast
    have "continues m D [] (ebind (push fr2 v) (\<lambda>fr. Inr (advance_pc 1 fr)))" for v
      by (rule push_advance_123 [OF s r(2)]) (use acc get d in \<open>simp_all add: accepted_def\<close>)
    then have pushed: "\<exists>fr3. push fr2 v = Inr fr3 \<and> frame_ok m D (advance_pc 1 fr3)" for v
      by (rule continues_pushed)
    show ?thesis
    proof (cases "array_get h r k")
      case (Inr v)
      then show ?thesis using get k r pushed [of v] by (auto simp: exec_array_def)
    qed (use get k r get_err in \<open>auto simp: exec_array_def\<close>)
  qed
qed

lemma pop_arguments_at:
  "k \<le> d \<Longrightarrow> k \<le> length ls \<Longrightarrow> frame_at m p d fr \<Longrightarrow>
   \<exists>ls' fr'. pop_arguments k ls fr = Inr (ls', fr') \<and> length ls' = length ls \<and> frame_at m p (d - k) fr'"
proof (induction k arbitrary: d ls fr)
  case (Suc k)
  then obtain d0 where d: "d = Suc d0" by (cases d) auto
  obtain v fr1 where v: "pop fr = Inr (v, fr1)" "frame_at m p d0 fr1" using pop_at Suc.prems(3) d by blast
  from Suc.IH [of d0 "ls[k := Some v]" fr1] Suc.prems d v show ?case by (auto simp: aset_def)
qed auto

lemma find_method_in_set: "find_method_in ms n ds = Some m \<Longrightarrow> m \<in> set ms"
  by (induction ms) (auto split: if_splits)

lemma find_method_from_index_in: "find_method_from_index k cls = Inr (Some m) \<Longrightarrow> m \<in> set (methods cls)"
  by (auto simp: find_method_from_index_def find_method_def dest: find_method_in_set)

text \<open>What a whole step may lead to.\<close>

definition step_ok :: "class_file_t \<Rightarrow> method_t \<Rightarrow> depths \<Rightarrow> c_error list \<Rightarrow> step_t result \<Rightarrow> bool" where
  "step_ok cls m D errors r = (case r of
       Inl e \<Rightarrow> e \<in> set errors
     | Inr (Running fr vm) \<Rightarrow> frame_ok m D fr
     | Inr (Returned v) \<Rightarrow> (v \<noteq> None \<longleftrightarrow> returns_value m)
     | Inr (Calling m2 ls fr) \<Rightarrow> m2 \<in> set (methods cls) \<and> length ls = unat (max_locals (method_code m2)) \<and>
         (\<forall>v. (v \<noteq> None \<longleftrightarrow> returns_value m2) \<longrightarrow> (\<exists>fr'. return_to fr v = Inr fr' \<and> frame_ok m D fr')))"

lemma call_step:
  assumes s: "small m" and len: "p + 3 \<le> length (code_of m)" and ok: "call_ok cls m D p d" and fr: "frame_at m p d fr"
  shows "step_ok cls m D [] (exec_instruction cls m I_invokestatic fr vm)"
proof -
  obtain m2 n where callee: "callee cls m p = Some (m2, n)" using ok by (auto simp: call_ok_def split: option.splits)
  let ?d = "d - n + (if returns_value m2 then 1 else 0)"
  have n: "n \<le> d" "n \<le> unat (max_locals (method_code m2))" "?d \<le> unat (max_stack (method_code m))" "flows D (p + 3) ?d"
    using ok unfolding call_ok_def callee option.case prod.case Let_def by blast+
  obtain k where k: "find_method_from_index (push_bit 8 (ucast (code_of m ! (p + 1))) OR ucast (code_of m ! (p + 2))) cls
      = Inr (Some m2)" "get_number_of_parameters m2 = Inr k" "n = unat k"
    using callee by (auto simp: callee_def split: sum.splits option.splits)
  have b: "fetch m fr 1 = Inr (code_of m ! (p + 1))" "fetch m fr 2 = Inr (code_of m ! (p + 2))"
    by (rule fetch_at [OF fr]; use len in simp)+
  obtain ls fr' where args: "pop_arguments n (replicate (unat (max_locals (method_code m2))) None) fr = Inr (ls, fr')"
    "length ls = unat (max_locals (method_code m2))" "frame_at m p (d - n) fr'"
    using pop_arguments_at [OF n(1) _ fr, of "replicate (unat (max_locals (method_code m2))) None"] n(2) by auto
  have step: "exec_instruction cls m I_invokestatic fr vm = Inr (Calling m2 ls fr')"
    using b k args by (simp add: exec_call_def)
  have "\<exists>fr''. return_to fr' v = Inr fr'' \<and> frame_ok m D fr''" if v: "v \<noteq> None \<longleftrightarrow> returns_value m2" for v
  proof (cases v)
    case None
    with advance_123(3) [OF s args(3)] n v len show ?thesis by (simp add: return_to_def)
  next
    case (Some x)
    with v n have "d - n < unat (max_stack (method_code m))" "flows D (p + 3) (Suc (d - n))" by simp_all
    then have "continues m D [] (ebind (push fr' x) (\<lambda>fr. Inr (advance_pc 3 fr)))"
      using push_advance_123(3) [OF s args(3)] len by blast
    from continues_pushed [OF this] Some show ?thesis by (auto simp: return_to_def)
  qed
  with step args find_method_from_index_in [OF k(1)] show ?thesis by (simp add: step_ok_def)
qed

lemma step_ok_running: "continues m D es r \<Longrightarrow> step_ok cls m D es (ebind r (\<lambda>fr. Inr (Running fr vm)))"
  by (cases r) (simp_all add: step_ok_def)

lemma step_ok_array:
  "case r of Inl e \<Rightarrow> e \<in> set es | Inr (fr, h) \<Rightarrow> frame_ok m D fr \<Longrightarrow>
   step_ok cls m D es (ebind r (\<lambda>(fr, h). Inr (Running fr (f h))))"
  by (cases r) (auto simp: step_ok_def)

lemma instruction_step:
  assumes acc: "accepted cls m D p d i" and fr: "frame_at m p d fr" and i: "i \<noteq> I_invokestatic"
  shows "step_ok cls m D (data_errors i) (exec_instruction cls m i fr vm)"
proof -
  have arr: "i \<in> {I_newarray, I_arraylength, I_iastore, I_iaload} \<Longrightarrow>
    step_ok cls m D (data_errors i) (ebind (exec_array m i fr (heap vm)) (\<lambda>(fr, h). Inr (Running fr (vm\<lparr>heap := h\<rparr>))))"
    by (rule step_ok_array [OF array_continues [OF acc fr]])
  show ?thesis
proof (cases i)
  case (I_arith op)
  have "continues m D (data_errors i) (exec_arith i fr)"
    by (rule arith_continues [OF _ fr]) (use acc I_arith in \<open>simp_all add: accepted_def\<close>)
  then show ?thesis unfolding I_arith by (simp add: step_ok_running)
next
  case I_ineg
  with acc obtain d0 where "d = Suc d0" by (cases d) (auto simp: accepted_def)
  then have "continues m D (data_errors i) (exec_arith i fr)"
    by (intro arith_continues [OF _ fr]) (use acc I_ineg in \<open>simp_all add: accepted_def\<close>)
  then show ?thesis unfolding I_ineg by (simp add: step_ok_running)
next
  case I_value_return
  with acc obtain d0 where d: "d = Suc d0" by (cases d) (auto simp: accepted_def)
  obtain v fr1 where "pop fr = Inr (v, fr1)" using pop_at fr d by blast
  with I_value_return acc show ?thesis by (simp add: step_ok_def accepted_def)
next
  case I_return
  with acc show ?thesis by (simp add: step_ok_def accepted_def)
next
  case I_invokevirtual
  with acc obtain d0 where d: "d = Suc d0" by (cases d) (auto simp: accepted_def)
  obtain v fr1 where v: "pop fr = Inr (v, fr1)" "frame_at m p d0 fr1" using pop_at fr d by blast
  have "frame_ok m D (advance_pc 3 fr1)"
    by (rule advance_123(3) [OF _ v(2)]) (use acc I_invokevirtual d in \<open>simp_all add: accepted_def\<close>)
  with I_invokevirtual v show ?thesis by (simp add: step_ok_def exec_print_def)
next
  case (I_if c)
  then show ?thesis using branch_continues [OF acc fr] by (simp add: step_ok_running)
next
  case (I_if_icmp c)
  then show ?thesis using branch_continues [OF acc fr] by (simp add: step_ok_running)
next
  case I_goto
  then show ?thesis using branch_continues [OF acc fr] by (simp add: step_ok_running)
qed (use i arr local_continues [OF acc fr] constant_continues [OF acc fr] in \<open>simp_all add: step_ok_running\<close>)
qed

lemma method_ok_small: "method_ok cls D m \<Longrightarrow> small m"
proof -
  assume "method_ok cls D m"
  then have "length (code_of m) = unat (code_length (method_code m))" by (simp add: method_ok_def)
  moreover have "unat (code_length (method_code m)) < 2 ^ LENGTH(32)" by (rule unsigned_less)
  ultimately show ?thesis by (simp add: small_def)
qed

lemma step_sound:
  assumes ok: "method_ok cls D m" and fr: "frame_ok m D fr"
  shows "step_ok cls m D (method_errors D m) (jvm_step cls m fr vm)"
proof -
  let ?p = "unat (pc fr)" and ?d = "length (items (stack fr))"
  have p: "?p < length D" "D ! ?p = Some ?d" using fr by (auto simp: frame_ok_def flows_def)
  have at: "frame_at m ?p ?d fr" using fr by (simp add: frame_at_def frame_ok_def)
  have len: "?p < length (code_of m)" "unat (code_length (method_code m)) = length (code_of m)"
    using ok p by (auto simp: method_ok_def)
  have "\<forall>q \<in> set [0..<length D]. case D ! q of None \<Rightarrow> True | Some d \<Rightarrow> instruction_ok cls m D q d"
    using ok unfolding method_ok_def list_all_iff by blast
  from bspec [OF this, of ?p] p have iok: "instruction_ok cls m D ?p ?d" by simp
  from iok obtain i where i: "decode (code_of m ! ?p) = Some i" by (auto simp: instruction_ok_def split: option.splits)
  have errs: "set (data_errors i) \<subseteq> set (method_errors D m)"
    using p i by (force simp: method_errors_def)
  have step: "jvm_step cls m fr vm = exec_instruction cls m i fr vm"
    using len fetch_at [OF at, of 0] i by (simp add: jvm_step_def)
  have weaken: "step_ok cls m D es r \<Longrightarrow> set es \<subseteq> set (method_errors D m) \<Longrightarrow>
      step_ok cls m D (method_errors D m) r" for es r
    by (auto simp: step_ok_def split: sum.splits)
  show ?thesis
  proof (cases "i = I_invokestatic")
    case True
    then have "?p + 3 \<le> length (code_of m)" "call_ok cls m D ?p ?d"
      using iok i by (simp_all add: instruction_ok_def)
    from weaken [OF call_step [OF method_ok_small [OF ok] this at]] step True show ?thesis by simp
  next
    case False
    then have "accepted cls m D ?p ?d i"
      using iok i method_ok_small [OF ok]
      by (cases i) (simp_all add: instruction_ok_def accepted_def)
    from weaken [OF instruction_step [OF this at False] errs] step show ?thesis by simp
  qed
qed

lemma method_errors_class: "m \<in> set (methods cls) \<Longrightarrow> set (method_errors (types m) m) \<subseteq> set (class_errors cls types)"
  by (auto simp: class_errors_def)

lemma init_frame_ok:
  "method_ok cls D m \<Longrightarrow> length ls = unat (max_locals (method_code m)) \<Longrightarrow> frame_ok m D (init_frame m ls)"
  by (simp add: method_ok_def frame_ok_def init_frame_def stack_init_def)

lemma execute_sound:
  assumes ok: "class_ok cls types"
  shows "execute n cls m fr vm = Some r \<Longrightarrow> m \<in> set (methods cls) \<Longrightarrow> frame_ok m (types m) fr \<Longrightarrow>
    (case r of Inl e \<Rightarrow> e \<in> set (class_errors cls types) | Inr (v, vm') \<Rightarrow> (v \<noteq> None \<longleftrightarrow> returns_value m))"
proof (induction n arbitrary: m fr vm r)
  case (Suc n)
  have m: "method_ok cls (types m) m" using ok Suc.prems(2) by (simp add: class_ok_def list_all_iff)
  note step = step_sound [OF m Suc.prems(3), of vm]
  show ?case
  proof (cases "jvm_step cls m fr vm")
    case (Inl e)
    with step have "e \<in> set (method_errors (types m) m)" by (simp add: step_ok_def)
    with Inl method_errors_class [OF Suc.prems(2), of types] Suc.prems(1) show ?thesis by auto
  next
    case (Inr s)
    show ?thesis
    proof (cases s)
      case (Running fr1 vm1)
      with Inr step have fr1: "frame_ok m (types m) fr1" by (simp add: step_ok_def)
      have "execute n cls m fr1 vm1 = Some r" using Suc.prems(1) Inr Running by simp
      then show ?thesis using fr1 Suc.prems(2) Suc.IH by blast
    next
      case (Returned v)
      with Inr step Suc.prems(1) show ?thesis by (auto simp: step_ok_def)
    next
      case (Calling m2 ls fr1)
      with Inr step have c: "m2 \<in> set (methods cls)" "length ls = unat (max_locals (method_code m2))"
        "\<And>v. (v \<noteq> None \<longleftrightarrow> returns_value m2) \<Longrightarrow> \<exists>fr'. return_to fr1 v = Inr fr' \<and> frame_ok m (types m) fr'"
        by (simp_all add: step_ok_def)
      have "frame_ok m2 (types m2) (init_frame m2 ls)"
        using ok c(1,2) init_frame_ok by (auto simp: class_ok_def list_all_iff)
      moreover obtain q where q: "execute n cls m2 (init_frame m2 ls) vm = Some q"
        using Suc.prems(1) Inr Calling by (auto split: option.splits)
      ultimately have IH: "case q of Inl e \<Rightarrow> e \<in> set (class_errors cls types)
          | Inr (v, vm') \<Rightarrow> (v \<noteq> None \<longleftrightarrow> returns_value m2)"
        using Suc.IH c(1) by blast
      show ?thesis
      proof (cases q)
        case (Inl e)
        with IH q Suc.prems(1) \<open>jvm_step cls m fr vm = Inr s\<close> Calling show ?thesis by auto
      next
        case res: (Inr res)
        obtain v vm1 where v: "res = (v, vm1)" by (cases res)
        with IH res obtain fr2 where fr2: "return_to fr1 v = Inr fr2" "frame_ok m (types m) fr2"
          using c(3) by auto
        have "execute n cls m fr2 vm1 = Some r"
          using Suc.prems(1) \<open>jvm_step cls m fr vm = Inr s\<close> Calling q res v fr2(1) by simp
        then show ?thesis using fr2(2) Suc.prems(2) Suc.IH by blast
      qed
    qed
  qed
qed simp

section \<open>Properties\<close>

lemma data_errors_kinds: "e \<in> set (data_errors i) \<Longrightarrow> e \<in> {Arith_Trap, Indeterminate, Bad_Access, Undefined}"
  by (cases i rule: data_errors.cases) auto

lemma class_errors_kinds:
  "e \<in> set (class_errors cls types) \<Longrightarrow> e \<in> {Arith_Trap, Indeterminate, Bad_Access, Undefined}"
  using data_errors_kinds by (fastforce simp: class_errors_def method_errors_def split: option.splits)

definition sample_depths :: "method_t \<Rightarrow> depths" where
  "sample_depths m = (if method_name m = ''f'' then
       [Some 0, Some 1, None, None, Some 0, Some 1, Some 0, Some 1, Some 2, Some 3, Some 2, None, None, Some 2, Some 1]
     else [Some 0, None, None, Some 0, None, Some 1, None, None, Some 1, None, None, Some 0])"

text \<open>C2: a class that passes the bytecode check runs safely. Whatever the arguments, no assertion of the
operand stack or of a constant look-up fails, no method leaves its code or its locals, no instruction is
unknown, a method returns a value exactly when its descriptor says so; the run can only be stopped by
an error that one of the class's own instructions can have (a division, a shift by a count outside 0 to 31, an unset local, an array).\<close>

theorem checked_class_is_safe:
  assumes "class_ok cls types" "m \<in> set (methods cls)"
    "length ls = unat (max_locals (method_code m))" "execute n cls m (init_frame m ls) vm = Some r"
  shows "case r of
      Inl e \<Rightarrow> e \<in> set (class_errors cls types) \<and> e \<in> {Arith_Trap, Indeterminate, Bad_Access, Undefined}
    | Inr (v, vm') \<Rightarrow> (v \<noteq> None \<longleftrightarrow> returns_value m)"
proof -
  have "method_ok cls (types m) m" using assms(1,2) by (simp add: class_ok_def list_all_iff)
  from execute_sound [OF assms(1,4,2) init_frame_ok [OF this assms(3)]] show ?thesis
    using class_errors_kinds by (auto split: sum.splits)
qed

lemma checked_class_is_safe_witness:
  "class_ok sample_class sample_depths \<and> class_errors sample_class sample_depths = [Indeterminate, Indeterminate, Indeterminate]
     \<and> \<not> returns_value sample_main"
proof -
  have ok: "class_ok sample_class sample_depths" by code_simp
  have m: "sample_main \<in> set (methods sample_class)" by (simp add: sample_main_def sample_class_def)
  have ls: "length [Some 0 :: u32 option] = unat (max_locals (method_code sample_main))" by code_simp
  have "class_errors sample_class sample_depths = [Indeterminate, Indeterminate, Indeterminate]" by code_simp
  with ok checked_class_is_safe [OF ok m ls sample_runs] show ?thesis by simp
qed

end
