(* ===== verification/Runs.thy ===== *)
theory Runs
  imports Prelude
begin

text \<open>
  Runs of code that may also not return: \<open>None\<close> is a run that goes on forever, \<open>Some\<close> a result, good
  or an error. Loops without an obvious bound are \<open>partial_function\<close>s over this type.
\<close>

type_synonym 'a run = "'a result option"

definition rbind :: "'a run \<Rightarrow> ('a \<Rightarrow> 'b run) \<Rightarrow> 'b run" where
  "rbind m f = Option.bind m (case_sum (\<lambda>e. Some (Inl e)) f)"

definition returns :: "'a \<Rightarrow> 'a run" where
  "returns x = Some (Inr x)"

definition fails :: "c_error \<Rightarrow> 'a run" where
  "fails e = Some (Inl e)"

lemma rbind_simps [simp]:
  "rbind None f = None"
  "rbind (Some (Inl e)) f = Some (Inl e)"
  "rbind (Some (Inr x)) f = f x"
  "rbind (returns x) f = f x"
  "rbind (fails e) f = fails e"
  by (simp_all add: rbind_def returns_def fails_def)

lemma returns_eq [simp]: "returns x = Some (Inr y) \<longleftrightarrow> x = y" "Some (Inr y) = returns x \<longleftrightarrow> x = y"
  "returns x = returns y \<longleftrightarrow> x = y" "returns x \<noteq> None" "returns x \<noteq> fails e" "fails e \<noteq> returns x"
  by (auto simp: returns_def fails_def)

lemma rbind_eq_Some_Inr:
  "rbind m f = Some (Inr y) \<longleftrightarrow> (\<exists>x. m = Some (Inr x) \<and> f x = Some (Inr y))"
  by (cases m) (auto simp: rbind_def split: sum.splits)

lemma rbind_eq_returns: "rbind m f = returns y \<longleftrightarrow> (\<exists>x. m = returns x \<and> f x = returns y)"
  by (simp add: returns_def rbind_eq_Some_Inr)

lemma rbind_assoc: "rbind (rbind m f) g = rbind m (\<lambda>x. rbind (f x) g)"
  by (cases m) (auto simp: rbind_def split: sum.splits)

lemma rbind_cong [fundef_cong]:
  "m = n \<Longrightarrow> (\<And>x. n = returns x \<Longrightarrow> f x = g x) \<Longrightarrow> rbind m f = rbind n g"
  by (cases n) (auto simp: rbind_def returns_def split: sum.splits)

lemma rbind_mono [partial_function_mono]:
  assumes "mono_option m" "\<And>x. mono_option (\<lambda>f. g f x)"
  shows "mono_option (\<lambda>f. rbind (m f) (g f))"
  unfolding rbind_def
proof (rule bind_mono)
  show "mono_option m" by (rule assms(1))
next
  fix r :: "'c result"
  show "mono_option (\<lambda>f. case_sum (\<lambda>e. Some (Inl e)) (g f) r)"
    by (cases r) (simp_all add: assms(2) option.const_mono)
qed

end
