(* ===== verification/Memlib.thy ===== *)
theory Memlib
  imports Runs
begin

text \<open>
  The simulated heap of the malloc project (\<open>project03-wduan/src/memlib.c\<close>): one mapped region of
  \<open>MAX_HEAP\<close> bytes and a break pointer that only grows. Pointers are byte addresses; an access that is
  not inside the region faults. Under it, what the allocators do to memory: little-endian 64-bit words,
  \<open>memcpy\<close> and \<open>memset\<close>.
\<close>

unbundle bit_operations_syntax

section \<open>State\<close>

record memlib =
  heap :: nat
  mem_brk :: nat
  mem :: "nat \<Rightarrow> u8"

definition MAX_HEAP :: nat where "MAX_HEAP = 100 * 2 ^ 20"

definition mem_reset_brk :: "bool \<Rightarrow> 'a memlib_scheme \<Rightarrow> 'a memlib_scheme" where
  "mem_reset_brk clear s =
     s\<lparr>mem_brk := heap s,
       mem := (if clear then (\<lambda>a. if heap s \<le> a \<and> a < heap s + MAX_HEAP then 0xCC else mem s a) else mem s)\<rparr>"

text \<open>\<open>region\<close> is the address \<open>mmap\<close> returns.\<close>

definition mem_init :: "nat \<Rightarrow> 'a memlib_scheme \<Rightarrow> 'a memlib_scheme" where
  "mem_init region s = mem_reset_brk True (s\<lparr>heap := region\<rparr>)"

text \<open>The result \<open>-1\<close> is \<open>None\<close>. The sum is a pointer: the region is too low for it to wrap.\<close>

definition mem_sbrk :: "u64 \<Rightarrow> 'a memlib_scheme \<Rightarrow> nat option \<times> 'a memlib_scheme" where
  "mem_sbrk incr s =
     (if sint incr < 0 \<or> mem_brk s + unat incr > heap s + MAX_HEAP then (None, s)
      else (Some (mem_brk s), s\<lparr>mem_brk := mem_brk s + unat incr\<rparr>))"

definition mem_heap_lo :: "'a memlib_scheme \<Rightarrow> nat" where "mem_heap_lo s = heap s"
definition mem_heap_hi :: "'a memlib_scheme \<Rightarrow> nat" where "mem_heap_hi s = mem_brk s - 1"
definition mem_heapsize :: "'a memlib_scheme \<Rightarrow> nat" where "mem_heapsize s = mem_brk s - heap s"

text \<open>Where the region lies: what \<open>mmap\<close> promises of the pages it returns.\<close>

definition region_ok :: "'a memlib_scheme \<Rightarrow> bool" where
  "region_ok s \<longleftrightarrow> 0 < heap s \<and> 16 dvd heap s \<and> heap s + MAX_HEAP < 2 ^ 63"

section \<open>Accesses\<close>

definition mapped :: "'a memlib_scheme \<Rightarrow> nat \<Rightarrow> nat \<Rightarrow> bool" where
  "mapped s a n \<longleftrightarrow> heap s \<le> a \<and> a + n \<le> heap s + MAX_HEAP"

text \<open>Little-endian numbers of \<open>n\<close> bytes.\<close>

fun number_at :: "(nat \<Rightarrow> u8) \<Rightarrow> nat \<Rightarrow> nat \<Rightarrow> nat" where
  "number_at m a 0 = 0"
| "number_at m a (Suc n) = unat (m a) + 256 * number_at m (a + 1) n"

definition word_at :: "(nat \<Rightarrow> u8) \<Rightarrow> nat \<Rightarrow> u64" where
  "word_at m a = of_nat (number_at m a 8)"

definition put_word :: "nat \<Rightarrow> u64 \<Rightarrow> (nat \<Rightarrow> u8) \<Rightarrow> nat \<Rightarrow> u8" where
  "put_word a v m = (\<lambda>x. if a \<le> x \<and> x < a + 8 then of_nat (unat v div 256 ^ (x - a)) else m x)"

definition read64 :: "'a memlib_scheme \<Rightarrow> nat \<Rightarrow> u64 result" where
  "read64 s a = (if mapped s a 8 then Inr (word_at (mem s) a) else Inl Bad_Access)"

definition write64 :: "nat \<Rightarrow> u64 \<Rightarrow> 'a memlib_scheme \<Rightarrow> 'a memlib_scheme result" where
  "write64 a v s = (if mapped s a 8 then Inr (s\<lparr>mem := put_word a v (mem s)\<rparr>) else Inl Bad_Access)"

definition read8 :: "'a memlib_scheme \<Rightarrow> nat \<Rightarrow> u8 result" where
  "read8 s a = (if mapped s a 1 then Inr (mem s a) else Inl Bad_Access)"

definition write8 :: "nat \<Rightarrow> u8 \<Rightarrow> 'a memlib_scheme \<Rightarrow> 'a memlib_scheme result" where
  "write8 a v s = (if mapped s a 1 then Inr (s\<lparr>mem := (mem s)(a := v)\<rparr>) else Inl Bad_Access)"

text \<open>\<open>memcpy\<close> of overlapping areas is undefined; copying or setting nothing touches nothing.\<close>

definition memcpy :: "nat \<Rightarrow> nat \<Rightarrow> nat \<Rightarrow> 'a memlib_scheme \<Rightarrow> 'a memlib_scheme result" where
  "memcpy dst src n s =
     (if n = 0 then Inr s
      else if \<not> mapped s dst n \<or> \<not> mapped s src n then Inl Bad_Access
      else if dst < src + n \<and> src < dst + n then Inl Undefined
      else Inr (s\<lparr>mem := (\<lambda>x. if dst \<le> x \<and> x < dst + n then mem s (src + (x - dst)) else mem s x)\<rparr>))"

definition memset :: "nat \<Rightarrow> u8 \<Rightarrow> nat \<Rightarrow> 'a memlib_scheme \<Rightarrow> 'a memlib_scheme result" where
  "memset dst v n s =
     (if n = 0 then Inr s
      else if \<not> mapped s dst n then Inl Bad_Access
      else Inr (s\<lparr>mem := (\<lambda>x. if dst \<le> x \<and> x < dst + n then v else mem s x)\<rparr>))"

section \<open>Facts about the break\<close>

text \<open>\<open>mem_sbrk\<close> fails exactly when the heap would not hold the new bytes.\<close>

lemma mem_sbrk_eq:
  assumes "heap s \<le> mem_brk s" "heap s + MAX_HEAP < 2 ^ 63"
  shows "mem_sbrk w s =
    (if mem_brk s + unat w \<le> heap s + MAX_HEAP
     then (Some (mem_brk s), s\<lparr>mem_brk := mem_brk s + unat w\<rparr>) else (None, s))"
  using assms by (auto simp: mem_sbrk_def negative_iff)

section \<open>Facts about words in memory\<close>

lemma number_at_cong: "(\<And>x. a \<le> x \<Longrightarrow> x < a + n \<Longrightarrow> m x = m' x) \<Longrightarrow> number_at m a n = number_at m' a n"
  by (induction n arbitrary: a) simp_all

lemma word_at_cong: "(\<And>x. a \<le> x \<Longrightarrow> x < a + 8 \<Longrightarrow> m x = m' x) \<Longrightarrow> word_at m a = word_at m' a"
  unfolding word_at_def by (rule arg_cong [OF number_at_cong]) 

lemma number_at_digits:
  "(\<And>i. i < n \<Longrightarrow> unat (m (a + i)) = v div 256 ^ i mod 256) \<Longrightarrow> number_at m a n = v mod 256 ^ n"
proof (induction n arbitrary: a v)
  case (Suc n)
  have "number_at m (a + 1) n = v div 256 mod 256 ^ n"
  proof (rule Suc.IH)
    fix i assume "i < n"
    then show "unat (m (a + 1 + i)) = v div 256 div 256 ^ i mod 256"
      using Suc.prems [of "Suc i"] by (simp add: div_mult2_eq)
  qed
  moreover have "unat (m a) = v mod 256" using Suc.prems [of 0] by simp
  ultimately show ?case by (simp add: mod_mult2_eq)
qed simp

lemma word_at_put [simp]: "word_at (put_word a v m) a = v"
proof -
  have "number_at (put_word a v m) a 8 = unat v mod 256 ^ 8"
    by (rule number_at_digits) (simp add: put_word_def unat_of_nat take_bit_eq_mod)
  also have "\<dots> = unat v"
  proof -
    have "unat v < 2 ^ LENGTH(64)" by (rule unsigned_less)
    then show ?thesis by simp
  qed
  finally show ?thesis by (simp add: word_at_def)
qed

lemma word_at_put_other: "a + 8 \<le> b \<or> b + 8 \<le> a \<Longrightarrow> word_at (put_word a v m) b = word_at m b"
  by (rule word_at_cong) (auto simp: put_word_def)

lemma put_word_other: "x < a \<or> a + 8 \<le> x \<Longrightarrow> put_word a v m x = m x"
  by (auto simp: put_word_def)

lemma mapped_sub: "mapped s a n \<Longrightarrow> a \<le> b \<Longrightarrow> b + k \<le> a + n \<Longrightarrow> mapped s b k"
  by (simp add: mapped_def)

lemma write64_eq: "mapped s a 8 \<Longrightarrow> write64 a v s = Inr (s\<lparr>mem := put_word a v (mem s)\<rparr>)"
  by (simp add: write64_def)

lemma read64_eq: "mapped s a 8 \<Longrightarrow> read64 s a = Inr (word_at (mem s) a)"
  by (simp add: read64_def)

end
