(* ===== verification/Blocks.thy ===== *)
theory Blocks
  imports Memlib
begin

text \<open>
  What the two allocators of \<open>project03-wduan\<close> share: the header word of a block (its size, with the
  allocation state in the low bit), rounding, and how a row of blocks lies in memory. The functions
  are those of \<open>mm-implicit.c\<close>; \<open>mm-explicit.c\<close> has them word for word.
\<close>

unbundle bit_operations_syntax

section \<open>Headers\<close>

definition ALIGNMENT :: u64 where "ALIGNMENT = 16"

definition round_up :: "u64 \<Rightarrow> u64 \<Rightarrow> u64" where
  "round_up sz n = (sz + (n - 1)) div n * n"

text \<open>\<open>size | is_allocated\<close>\<close>

definition header_word :: "u64 \<Rightarrow> bool \<Rightarrow> u64" where
  "header_word sz alloc = sz OR (if alloc then 1 else 0)"

definition size_bits :: "u64 \<Rightarrow> u64" where "size_bits h = h AND NOT 1"
definition alloc_bit :: "u64 \<Rightarrow> bool" where "alloc_bit h = (h AND 1 \<noteq> 0)"

definition get_size :: "'a memlib_scheme \<Rightarrow> nat \<Rightarrow> u64 result" where
  "get_size s block = ebind (read64 s block) (\<lambda>h. Inr (size_bits h))"

definition is_allocated :: "'a memlib_scheme \<Rightarrow> nat \<Rightarrow> bool result" where
  "is_allocated s block = ebind (read64 s block) (\<lambda>h. Inr (alloc_bit h))"

text \<open>\<open>offsetof(block_t, payload)\<close> is 8.\<close>

definition block_from_payload :: "nat \<Rightarrow> nat" where
  "block_from_payload ptr = ptr - 8"

lemma even_low_bit: "even (unat (w :: u64)) \<longleftrightarrow> \<not> bit w 0"
proof -
  have "bit (unat w) 0 = bit w 0" by (simp only: bit_unsigned_iff) simp
  then show ?thesis by (metis bit_0)
qed

lemma alloc_bit_eq: "alloc_bit h = bit h 0"
  by (simp add: alloc_bit_def and_one_eq bit_0 odd_iff_mod_2_eq_one)

lemma alloc_bit_header: "even (unat sz) \<Longrightarrow> alloc_bit (header_word sz a) = a"
  by (auto simp: even_low_bit alloc_bit_eq header_word_def bit_or_iff bit_1_iff)

lemma size_bits_header:
  assumes "even (unat sz)"
  shows "size_bits (header_word sz a) = sz"
proof (rule bit_word_eqI)
  fix n assume "n < LENGTH(64)"
  with assms show "bit (size_bits (header_word sz a)) n = bit sz n"
    by (cases "n = 0") (auto simp: even_low_bit size_bits_def header_word_def bit_simps bit_1_iff)
qed

lemma round_up_exact:
  assumes "unat sz + c + 15 < 2 ^ 64"
  shows "unat (round_up (of_nat c + sz) ALIGNMENT) = (c + unat sz + 15) div 16 * 16"
proof -
  have c: "unat (of_nat c :: u64) = c" using assms by (simp add: unat_of_nat take_bit_nat_eq_self)
  have "unat (of_nat c + sz) = c + unat sz" using assms c by (simp add: unat_plus_exact)
  then have "unat (of_nat c + sz + 15) = c + unat sz + 15" using assms by (subst unat_plus_exact) simp_all
  then have div: "unat ((of_nat c + sz + 15) div 16) = (c + unat sz + 15) div 16" by (simp add: unat_div_distrib)
  moreover have "(c + unat sz + 15) div 16 * 16 \<le> c + unat sz + 15" by simp
  ultimately have "unat ((of_nat c + sz + 15) div 16 * 16) = (c + unat sz + 15) div 16 * 16"
    using assms by (subst unat_times_exact) simp_all
  then show ?thesis by (simp add: round_up_def ALIGNMENT_def)
qed

section \<open>Rows of blocks\<close>

text \<open>A block is its size, header included, and whether it is allocated.\<close>

type_synonym block = "nat \<times> bool"

definition span :: "block list \<Rightarrow> nat" where
  "span bs = sum_list (map fst bs)"

text \<open>\<open>chain img a bs\<close>: from \<open>a\<close> on, the blocks \<open>bs\<close> follow each other; \<open>img\<close> says what a block at an
address has to be.\<close>

fun chain :: "(nat \<Rightarrow> block \<Rightarrow> bool) \<Rightarrow> nat \<Rightarrow> block list \<Rightarrow> bool" where
  "chain img a [] = True"
| "chain img a (b # bs) = (img a b \<and> chain img (a + fst b) bs)"

text \<open>The payloads of the allocated blocks, with their capacities; \<open>ov\<close> bytes of a block are not payload.\<close>

fun payloads :: "nat \<Rightarrow> nat \<Rightarrow> block list \<Rightarrow> (nat \<times> nat) list" where
  "payloads ov a [] = []"
| "payloads ov a ((n, used) # bs) =
     (if used then [(a + 8, n - ov)] else []) @ payloads ov (a + n) bs"

definition live :: "nat \<Rightarrow> nat \<Rightarrow> block list \<Rightarrow> nat \<rightharpoonup> nat" where
  "live ov a bs = map_of (payloads ov a bs)"

definition ok_sizes :: "nat \<Rightarrow> block list \<Rightarrow> bool" where
  "ok_sizes least bs \<longleftrightarrow> (\<forall>(n, _) \<in> set bs. 16 dvd n \<and> least \<le> n)"

lemma span_simps [simp]: "span [] = 0" "span (b # bs) = fst b + span bs" "span (bs @ cs) = span bs + span cs"
  by (simp_all add: span_def)

lemma ok_sizes_simps [simp]:
  "ok_sizes k []" "ok_sizes k ((n, u) # bs) \<longleftrightarrow> 16 dvd n \<and> k \<le> n \<and> ok_sizes k bs"
  "ok_sizes k (bs @ cs) \<longleftrightarrow> ok_sizes k bs \<and> ok_sizes k cs"
  by (auto simp: ok_sizes_def)

lemma ok_sizes_mono: "ok_sizes k bs \<Longrightarrow> j \<le> k \<Longrightarrow> ok_sizes j bs"
  by (induction bs) auto

lemma span_aligned: "ok_sizes k bs \<Longrightarrow> 16 dvd span bs"
  by (induction bs) auto

lemma chain_append [simp]: "chain img a (bs @ cs) \<longleftrightarrow> chain img a bs \<and> chain img (a + span bs) cs"
  by (induction bs arbitrary: a) (auto simp: add.assoc)

lemma chain_cong:
  assumes "\<And>b n u. a \<le> b \<Longrightarrow> b + n \<le> a + span bs \<Longrightarrow> (n, u) \<in> set bs \<Longrightarrow> img b (n, u) = img' b (n, u)"
  shows "chain img a bs = chain img' a bs"
  using assms
proof (induction bs arbitrary: a)
  case (Cons b bs)
  obtain n u where b: "b = (n, u)" by (cases b)
  have "chain img (a + n) bs = chain img' (a + n) bs"
    by (rule Cons.IH) (use Cons.prems b in simp)
  then show ?case using Cons.prems [of a n u] b by simp
qed simp

lemma payloads_append [simp]: "payloads ov a (bs @ cs) = payloads ov a bs @ payloads ov (a + span bs) cs"
  by (induction ov a bs rule: payloads.induct) (simp_all add: add.assoc)

text \<open>Two memories hold the same in every payload.\<close>

definition same_payloads :: "nat \<Rightarrow> nat \<Rightarrow> block list \<Rightarrow> (nat \<Rightarrow> u8) \<Rightarrow> (nat \<Rightarrow> u8) \<Rightarrow> bool" where
  "same_payloads ov a bs m m' \<longleftrightarrow> (\<forall>(p, c) \<in> set (payloads ov a bs). \<forall>x. p \<le> x \<and> x < p + c \<longrightarrow> m' x = m x)"

lemma same_payloads_eq: "payloads ov a bs = payloads ov a bs' \<Longrightarrow> same_payloads ov a bs = same_payloads ov a bs'"
  by (intro ext) (simp add: same_payloads_def)

lemma same_payloads_refl [simp]: "same_payloads ov a bs m m"
  by (simp add: same_payloads_def)

lemma same_payloads_Cons [simp]:
  "same_payloads ov a ((n, u) # bs) m m' \<longleftrightarrow>
     (u \<longrightarrow> (\<forall>x. a + 8 \<le> x \<and> x < a + 8 + (n - ov) \<longrightarrow> m' x = m x)) \<and> same_payloads ov (a + n) bs m m'"
  by (auto simp: same_payloads_def)

lemma same_payloads_append [simp]:
  "same_payloads ov a (bs @ cs) m m' \<longleftrightarrow>
     same_payloads ov a bs m m' \<and> same_payloads ov (a + span bs) cs m m'"
  by (auto simp: same_payloads_def)

lemma same_payloads_trans:
  "same_payloads ov a bs m m' \<Longrightarrow> same_payloads ov a bs m' m'' \<Longrightarrow> same_payloads ov a bs m m''"
  by (fastforce simp: same_payloads_def)

text \<open>Where a payload comes from.\<close>

lemma payloads_split:
  "(p, c) \<in> set (payloads ov a bs) \<longleftrightarrow>
     (\<exists>xs n ys. bs = xs @ (n, True) # ys \<and> p = a + span xs + 8 \<and> c = n - ov)"
proof (induction bs arbitrary: a)
  case (Cons b bs)
  obtain n u where b: "b = (n, u)" by (cases b)
  show ?case
  proof
    assume "(p, c) \<in> set (payloads ov a (b # bs))"
    then consider "u" "p = a + 8" "c = n - ov" | "(p, c) \<in> set (payloads ov (a + n) bs)"
      unfolding b payloads.simps by (cases u) auto
    then show "\<exists>xs n ys. b # bs = xs @ (n, True) # ys \<and> p = a + span xs + 8 \<and> c = n - ov"
    proof cases
      case 1
      then have "b # bs = [] @ (n, True) # bs \<and> p = a + span [] + 8 \<and> c = n - ov" by (simp add: b)
      then show ?thesis by blast
    next
      case 2
      then obtain xs k ys where "bs = xs @ (k, True) # ys" "p = a + n + span xs + 8" "c = k - ov"
        unfolding Cons.IH by blast
      then have "b # bs = (b # xs) @ (k, True) # ys \<and> p = a + span (b # xs) + 8 \<and> c = k - ov" by (simp add: b)
      then show ?thesis by blast
    qed
  next
    assume "\<exists>xs n ys. b # bs = xs @ (n, True) # ys \<and> p = a + span xs + 8 \<and> c = n - ov"
    then obtain xs k ys where at: "b # bs = xs @ (k, True) # ys" "p = a + span xs + 8" "c = k - ov" by blast
    show "(p, c) \<in> set (payloads ov a (b # bs))"
    proof (cases xs)
      case Nil
      with at b show ?thesis by simp
    next
      case (Cons x xs')
      with at b have "bs = xs' @ (k, True) # ys" "p = a + n + span xs' + 8" by auto
      with at(3) have "(p, c) \<in> set (payloads ov (a + n) bs)" by (subst Cons.IH) blast
      then show ?thesis by (simp add: b)
    qed
  qed
qed simp

lemma payloads_below:
  "(p, c) \<in> set (payloads ov a bs) \<Longrightarrow> ok_sizes (ov + 1) bs \<Longrightarrow> 8 \<le> ov \<Longrightarrow> a + 8 \<le> p \<and> p + c + (ov - 8) \<le> a + span bs \<and> 0 < c"
  by (auto simp: payloads_split)

lemma same_payloads_outside:
  assumes "\<And>x. m' x \<noteq> m x \<Longrightarrow> x < a + 8 \<or> a + span bs \<le> x" "ok_sizes (ov + 1) bs" "8 \<le> ov"
  shows "same_payloads ov a bs m m'"
proof -
  have "m' x = m x" if "(p, c) \<in> set (payloads ov a bs)" "p \<le> x" "x < p + c" for p c x
    using payloads_below [OF that(1) assms(2,3)] that(2,3) assms(1) [of x] by force
  then show ?thesis by (auto simp: same_payloads_def)
qed

lemma payloads_disjoint:
  "(p, c) \<in> set (payloads ov a bs) \<Longrightarrow> (q, d) \<in> set (payloads ov a bs) \<Longrightarrow> p \<noteq> q \<Longrightarrow>
   ok_sizes (ov + 1) bs \<Longrightarrow> 8 \<le> ov \<Longrightarrow> p + c \<le> q \<or> q + d \<le> p"
proof (induction ov a bs rule: payloads.induct)
  case (2 ov a n used bs)
  have rest: "ok_sizes (ov + 1) bs" "8 \<le> ov" using "2.prems" by simp_all
  note below = payloads_below [OF _ rest]
  show ?case
  proof (cases "(p, c) \<in> set (payloads ov (a + n) bs) \<and> (q, d) \<in> set (payloads ov (a + n) bs)")
    case True
    with "2.IH" "2.prems" rest show ?thesis by blast
  next
    case False
    with "2.prems" below [of p c "a + n"] below [of q d "a + n"] show ?thesis by (auto split: if_splits)
  qed
qed simp

lemma distinct_payloads: "ok_sizes 1 bs \<Longrightarrow> distinct (map fst (payloads ov a bs))"
proof (induction ov a bs rule: payloads.induct)
  case (2 ov a n used bs)
  have "a + 8 \<notin> fst ` set (payloads ov (a + n) bs)"
    using "2.prems" by (auto simp: payloads_split)
  then show ?case using 2 by simp
qed simp

lemma live_eq: "ok_sizes 1 bs \<Longrightarrow> live ov a bs p = Some c \<longleftrightarrow> (p, c) \<in> set (payloads ov a bs)"
  by (simp add: live_def distinct_payloads)

lemma live_split:
  "ok_sizes 1 bs \<Longrightarrow> live ov a bs p = Some c \<longleftrightarrow>
     (\<exists>xs n ys. bs = xs @ (n, True) # ys \<and> p = a + span xs + 8 \<and> c = n - ov)"
  by (simp add: live_eq payloads_split)

text \<open>Blocks whose payloads are those of others and one more.\<close>

lemma live_insert:
  assumes "ok_sizes 1 bs" "ok_sizes 1 bs'"
    "mset (payloads ov a bs') = add_mset (p, c) (mset (payloads ov a bs))"
  shows "live ov a bs' = (live ov a bs)(p \<mapsto> c) \<and> live ov a bs p = None"
proof -
  have "set (payloads ov a bs') = insert (p, c) (set (payloads ov a bs))"
    using arg_cong [OF assms(3), of set_mset] by simp
  moreover have "p \<notin> fst ` set (payloads ov a bs)"
  proof -
    have "mset (map fst (payloads ov a bs')) = add_mset p (mset (map fst (payloads ov a bs)))"
      using arg_cong [OF assms(3), of "image_mset fst"] by simp
    then have "distinct (p # map fst (payloads ov a bs))"
      using distinct_payloads [OF assms(2)] by (metis mset.simps(2) mset_eq_imp_distinct_iff)
    then show ?thesis by simp
  qed
  ultimately have "live ov a bs' x = Some d \<longleftrightarrow> ((live ov a bs)(p \<mapsto> c)) x = Some d" and
    "live ov a bs p \<noteq> Some d" for x d using assms(1,2) by (force simp: live_eq)+
  then show ?thesis by (metis ext not_None_eq)
qed

end
