(* ===== verification/Allocator.thy ===== *)
theory Allocator
  imports Blocks
begin

text \<open>
  What a program may expect of a \<open>malloc\<close> package (\<open>project03-wduan/include/mm.h\<close>): the interface both
  allocators provide and the trace driver uses. The state is seen through its live payloads, a map from
  the pointers handed out to the bytes that may be used there.
\<close>

text \<open>The bytes of every live payload are as before.\<close>

definition keeps :: "(nat \<rightharpoonup> nat) \<Rightarrow> (nat \<Rightarrow> u8) \<Rightarrow> (nat \<Rightarrow> u8) \<Rightarrow> bool" where
  "keeps L m m' \<longleftrightarrow> (\<forall>p c x. L p = Some c \<and> p \<le> x \<and> x < p + c \<longrightarrow> m' x = m x)"

lemma keepsD: "keeps L m m' \<Longrightarrow> L p = Some c \<Longrightarrow> p \<le> x \<Longrightarrow> x < p + c \<Longrightarrow> m' x = m x"
  by (auto simp: keeps_def)

lemma keeps_refl [simp]: "keeps L m m"
  by (simp add: keeps_def)

lemma keeps_trans: "keeps L m m' \<Longrightarrow> keeps L m' m'' \<Longrightarrow> keeps L m m''"
  by (fastforce simp: keeps_def)

lemma keeps_less: "keeps L m m' \<Longrightarrow> L' \<subseteq>\<^sub>m L \<Longrightarrow> keeps L' m m'"
  by (fastforce simp: keeps_def map_le_def dom_def)

lemma keeps_live: "ok_sizes 1 bs \<Longrightarrow> keeps (live ov a bs) m m' \<longleftrightarrow> same_payloads ov a bs m m'"
  by (auto simp: keeps_def same_payloads_def live_eq)

section \<open>malloc and free\<close>

locale allocator =
  fixes rep :: "'s memlib_scheme \<Rightarrow> (nat \<rightharpoonup> nat) \<Rightarrow> bool"
    and init :: "'s memlib_scheme \<Rightarrow> (bool \<times> 's memlib_scheme) run"
    and malloc :: "u64 \<Rightarrow> 's memlib_scheme \<Rightarrow> (nat \<times> 's memlib_scheme) run"
    and free :: "nat \<Rightarrow> 's memlib_scheme \<Rightarrow> 's memlib_scheme run"
    and overhead :: nat and least :: nat
  assumes init_ok: "region_ok s \<Longrightarrow> mem_brk s = heap s \<Longrightarrow>
      \<exists>s'. init s = returns (True, s') \<and> rep s' Map.empty \<and> heap s' = heap s"
    and rep_region: "rep s L \<Longrightarrow> region_ok s \<and> mem_brk s \<le> heap s + MAX_HEAP"
    and rep_payload: "rep s L \<Longrightarrow> L p = Some c \<Longrightarrow>
      16 dvd p \<and> heap s < p \<and> p + c \<le> mem_brk s \<and> 0 < c \<and> 16 dvd c + overhead"
    and rep_disjoint: "rep s L \<Longrightarrow> L p = Some c \<Longrightarrow> L q = Some d \<Longrightarrow> p \<noteq> q \<Longrightarrow> p + c \<le> q \<or> q + d \<le> p"
    and rep_write: "rep s L \<Longrightarrow> L p = Some c \<Longrightarrow>
      (\<And>x. m x \<noteq> mem s x \<Longrightarrow> p \<le> x \<and> x < p + c) \<Longrightarrow> rep (s\<lparr>mem := m\<rparr>) L"
    and malloc_ok: "rep s L \<Longrightarrow> least \<le> unat n \<Longrightarrow> unat n + overhead + 15 < 2 ^ 64 \<Longrightarrow>
      \<exists>p s'. malloc n s = returns (p, s') \<and> heap s' = heap s \<and> keeps L (mem s) (mem s') \<and>
        (if p = 0 then rep s' L
         else L p = None \<and> (\<exists>c. unat n \<le> c \<and> rep s' (L(p \<mapsto> c))))"
    and free_null: "free 0 s = returns s"
    and free_ok: "rep s L \<Longrightarrow> L p = Some c \<Longrightarrow>
      \<exists>s'. free p s = returns s' \<and> heap s' = heap s \<and> rep s' (L(p := None)) \<and>
        keeps (L(p := None)) (mem s) (mem s')"
begin

lemma null_not_live: "rep s L \<Longrightarrow> L 0 = None"
  using rep_payload [of s L 0] by (cases "L 0") auto

lemma payload_mapped: "rep s L \<Longrightarrow> L p = Some c \<Longrightarrow> mapped s p c"
  using rep_payload [of s L p c] rep_region [of s L] by (auto simp: mapped_def)

text \<open>A payload the allocator hands out is apart from all others.\<close>

lemma malloc_disjoint:
  assumes "rep s' (L(p \<mapsto> c))" "L p = None" "L q = Some d"
  shows "p + c \<le> q \<or> q + d \<le> p"
  using rep_disjoint [OF assms(1), of p c q d] assms(2,3) by (cases "p = q") auto

lemma write_keeps_others:
  assumes "rep s L" "L p = Some c" "\<And>x. m x \<noteq> mem s x \<Longrightarrow> p \<le> x \<and> x < p + c"
  shows "keeps (L(p := None)) (mem s) m"
proof -
  have "m x = mem s x" if "L q = Some d" "q \<noteq> p" "q \<le> x" "x < q + d" for q d x
    using rep_disjoint [OF assms(1,2) that(1)] that assms(3) [of x] by fastforce
  then show ?thesis by (auto simp: keeps_def split: if_splits)
qed

end

section \<open>realloc and calloc\<close>

text \<open>The two are built on \<open>malloc\<close> and \<open>free\<close> in the same way by both allocators; \<open>block_size\<close> is the size
in the header of a payload's block.\<close>

locale reallocator = allocator rep init malloc free overhead least
  for rep :: "'s memlib_scheme \<Rightarrow> (nat \<rightharpoonup> nat) \<Rightarrow> bool" and init malloc free overhead least +
  fixes block_size :: "'s memlib_scheme \<Rightarrow> nat \<Rightarrow> u64 result"
    and realloc :: "nat \<Rightarrow> u64 \<Rightarrow> 's memlib_scheme \<Rightarrow> (nat \<times> 's memlib_scheme) run"
    and calloc :: "u64 \<Rightarrow> u64 \<Rightarrow> 's memlib_scheme \<Rightarrow> (nat \<times> 's memlib_scheme) run"
  assumes small_overhead: "overhead \<le> 16" "least \<le> 1"
    and block_size_ok: "rep s L \<Longrightarrow> L p = Some c \<Longrightarrow> \<exists>w. block_size s p = Inr w \<and> unat w = c + overhead"
    and realloc_eq: "realloc p n s =
      (if p = 0 then malloc n s
       else if n = 0 then rbind (free p s) (\<lambda>s. returns (0, s))
       else rbind (Some (block_size s p)) (\<lambda>w.
         if round_up (of_nat overhead + n) ALIGNMENT \<le> w then returns (p, s)
         else rbind (malloc n s) (\<lambda>(q, s).
           if q = 0 then returns (0, s)
           else rbind (Some (block_size s p)) (\<lambda>w.
                rbind (Some (memcpy q p (unat (w - of_nat overhead)) s)) (\<lambda>s.
                rbind (free p s) (\<lambda>s. returns (q - 8 + 8, s)))))))"
    and calloc_eq: "calloc k n s =
      (if k * n = 0 then returns (0, s)
       else rbind (malloc (k * n) s) (\<lambda>(q, s).
            rbind (Some (memset q 0 (unat (k * n)) s)) (\<lambda>s. returns (q, s))))"
begin

text \<open>A block that is large enough stays; otherwise the old contents move to a new block.\<close>

lemma realloc_ok:
  assumes rep: "rep s L" and p: "L p = Some c" and n: "0 < unat n" "unat n + overhead + 15 < 2 ^ 64"
  shows "\<exists>q s'. realloc p n s = returns (q, s') \<and> heap s' = heap s \<and>
    (if q = 0 then rep s' L \<and> keeps L (mem s) (mem s')
     else (\<exists>d. unat n \<le> d \<and> rep s' (L(p := None, q \<mapsto> d)) \<and> (q = p \<or> L q = None) \<and>
       keeps (L(p := None)) (mem s) (mem s') \<and> (\<forall>i < min c (unat n). mem s' (q + i) = mem s (p + i))))"
proof -
  obtain w where w: "block_size s p = Inr w" "unat w = c + overhead" using block_size_ok [OF rep p] by blast
  let ?need = "(overhead + unat n + 15) div 16 * 16"
  have need: "unat (round_up (of_nat overhead + n) ALIGNMENT) = ?need"
    using round_up_exact [of n overhead] n(2) by simp
  have p0: "p \<noteq> 0" "n \<noteq> 0" using null_not_live [OF rep] p n(1) by (cases "p = 0"; auto)+
  show ?thesis
  proof (cases "?need \<le> c + overhead")
    case True
    then have "realloc p n s = returns (p, s)" using p0 w by (simp add: realloc_eq word_le_nat_alt need)
    moreover have "unat n \<le> c" using True by arith
    moreover have "L(p := None, p \<mapsto> c) = L" using p by auto
    ultimately show ?thesis using rep p0 p by (intro exI [of _ p] exI [of _ s]) auto
  next
    case False
    have "least \<le> unat n" using small_overhead n(1) by simp
    from malloc_ok [OF rep this n(2)] obtain q s1 where m: "malloc n s = returns (q, s1)" "heap s1 = heap s"
      "keeps L (mem s) (mem s1)"
      "if q = 0 then rep s1 L else L q = None \<and> (\<exists>c. unat n \<le> c \<and> rep s1 (L(q \<mapsto> c)))" by blast
    have run: "realloc p n s =
        (if q = 0 then returns (0, s1)
         else rbind (Some (block_size s1 p)) (\<lambda>w.
              rbind (Some (memcpy q p (unat (w - of_nat overhead)) s1)) (\<lambda>s.
              rbind (free p s) (\<lambda>s. returns (q - 8 + 8, s)))))"
      using p0 w False by (simp add: realloc_eq [of p] word_le_nat_alt need m(1))
    show ?thesis
    proof (cases "q = 0")
      case True
      with run m show ?thesis by (intro exI [of _ 0] exI [of _ s1]) simp
    next
      case q0: False
      then obtain d where d: "L q = None" "unat n \<le> d" "rep s1 (L(q \<mapsto> d))" using m(4) by auto
      let ?L = "L(q \<mapsto> d)"
      have pq: "p \<noteq> q" "?L p = Some c" using p d(1) by auto
      obtain w1 where w1: "block_size s1 p = Inr w1" "unat w1 = c + overhead"
        using block_size_ok [OF d(3) pq(2)] by blast
      have "16 dvd c + overhead" "16 dvd d + overhead" "0 < c" "heap s1 < q" "16 dvd q"
        using rep_payload [OF d(3) pq(2)] rep_payload [OF d(3), of q d] by simp_all
      moreover have "?need \<le> d + overhead"
        using \<open>16 dvd d + overhead\<close> d(2) by (auto elim!: dvdE)
      ultimately have sizes: "c < d" "0 < c" "16 \<le> q" using False by (auto elim!: dvdE)
      have len: "unat (w1 - of_nat overhead) = c"
        using w1(2) small_overhead by (simp add: unat_sub word_le_nat_alt unat_of_nat take_bit_nat_eq_self)
      have apart: "p + c \<le> q \<or> q + d \<le> p" using malloc_disjoint [OF d(3,1) p] by blast
      let ?m = "\<lambda>x. if q \<le> x \<and> x < q + c then mem s1 (p + (x - q)) else mem s1 x"
      have "mapped s1 q c" using payload_mapped [OF d(3), of q d] sizes(1) by (simp add: mapped_def)
      moreover have "mapped s1 p c" using payload_mapped [OF d(3) pq(2)] .
      ultimately have copy: "memcpy q p c s1 = Inr (s1\<lparr>mem := ?m\<rparr>)"
        using apart sizes by (auto simp: memcpy_def)
      have "rep (s1\<lparr>mem := ?m\<rparr>) ?L"
        by (rule rep_write [OF d(3), of q d]) (use sizes in \<open>auto split: if_splits\<close>)
      from free_ok [OF this pq(2)] obtain s2 where f: "free p (s1\<lparr>mem := ?m\<rparr>) = returns s2"
        "heap s2 = heap (s1\<lparr>mem := ?m\<rparr>)" "rep s2 (?L(p := None))"
        "keeps (?L(p := None)) (mem (s1\<lparr>mem := ?m\<rparr>)) (mem s2)" by blast
      have "realloc p n s = returns (q, s2)" using run q0 w1(1) len copy f(1) sizes(3) by simp
      moreover have "?L(p := None) = L(p := None, q \<mapsto> d)" using pq(1) by (simp add: fun_upd_twist)
      moreover have "keeps (L(p := None)) (mem s) (mem s2)"
      proof -
        have "keeps (L(p := None)) (mem s) (mem s1)" using m(3) by (rule keeps_less) (auto simp: map_le_def)
        moreover have "keeps (L(p := None)) (mem s1) ?m"
        proof -
          have "keeps (?L(q := None)) (mem s1) ?m"
            by (rule write_keeps_others [OF d(3), of q d]) (use sizes in \<open>auto split: if_splits\<close>)
          then show ?thesis by (rule keeps_less) (use d(1) in \<open>auto simp: map_le_def\<close>)
        qed
        moreover have "keeps (L(p := None)) ?m (mem s2)"
        proof -
          have "keeps (?L(p := None)) ?m (mem s2)" using f(4) by simp
          then show ?thesis by (rule keeps_less) (use d(1) in \<open>auto simp: map_le_def\<close>)
        qed
        ultimately show ?thesis by (blast intro: keeps_trans)
      qed
      moreover have "mem s2 (q + i) = mem s (p + i)" if "i < min c (unat n)" for i
        using keepsD [OF f(4), of q d "q + i"] keepsD [OF m(3) p, of "p + i"] that sizes pq(1) by simp
      ultimately show ?thesis using q0 d f m(2) by (intro exI [of _ q] exI [of _ s2]) auto
    qed
  qed
qed

text \<open>\<open>calloc\<close> clears what it allocates; when nothing can be allocated it writes through \<open>NULL\<close>.\<close>

lemma calloc_ok:
  assumes rep: "rep s L" and t: "0 < unat (k * n)" "unat (k * n) + overhead + 15 < 2 ^ 64"
  shows "\<exists>q s1. malloc (k * n) s = returns (q, s1) \<and>
    (if q = 0 then calloc k n s = fails Bad_Access
     else (\<exists>s' c. calloc k n s = returns (q, s') \<and> L q = None \<and> unat (k * n) \<le> c \<and>
       rep s' (L(q \<mapsto> c)) \<and> keeps L (mem s) (mem s') \<and> (\<forall>i < unat (k * n). mem s' (q + i) = 0)))"
proof -
  let ?t = "unat (k * n)"
  have "least \<le> ?t" using small_overhead t(1) by simp
  from malloc_ok [OF rep this t(2)] obtain q s1 where m: "malloc (k * n) s = returns (q, s1)" "heap s1 = heap s"
    "keeps L (mem s) (mem s1)"
    "if q = 0 then rep s1 L else L q = None \<and> (\<exists>c. ?t \<le> c \<and> rep s1 (L(q \<mapsto> c)))" by blast
  have nz: "k * n \<noteq> 0" using t(1) by auto
  show ?thesis
  proof (cases "q = 0")
    case True
    then have "heap s1 \<noteq> 0" using m(2) rep_region [OF rep] by (simp add: region_ok_def)
    then have "memset q 0 ?t s1 = Inl Bad_Access" using True t(1) by (simp add: memset_def mapped_def)
    then show ?thesis using m(1) nz True by (simp add: calloc_eq fails_def)
  next
    case False
    then obtain c where c: "L q = None" "?t \<le> c" "rep s1 (L(q \<mapsto> c))" using m(4) by auto
    let ?m = "\<lambda>x. if q \<le> x \<and> x < q + ?t then 0 else mem s1 x"
    have "mapped s1 q ?t" using payload_mapped [OF c(3), of q c] c(2) by (simp add: mapped_def)
    then have "memset q 0 ?t s1 = Inr (s1\<lparr>mem := ?m\<rparr>)" using t(1) by (simp add: memset_def)
    then have "calloc k n s = returns (q, s1\<lparr>mem := ?m\<rparr>)" using m(1) nz by (simp add: calloc_eq)
    moreover have "rep (s1\<lparr>mem := ?m\<rparr>) (L(q \<mapsto> c))"
      by (rule rep_write [OF c(3), of q c]) (use c(2) in \<open>auto split: if_splits\<close>)
    moreover have "keeps L (mem s) ?m"
    proof -
      have "keeps ((L(q \<mapsto> c))(q := None)) (mem s1) ?m"
        by (rule write_keeps_others [OF c(3), of q c]) (use c(2) in \<open>auto split: if_splits\<close>)
      then have "keeps L (mem s1) ?m" by (rule keeps_less) (use c(1) in \<open>auto simp: map_le_def\<close>)
      with m(3) show ?thesis by (rule keeps_trans)
    qed
    moreover have "(\<forall>i < ?t. ?m (q + i) = 0)" by simp
    ultimately have "\<exists>s' c. calloc k n s = returns (q, s') \<and> L q = None \<and> ?t \<le> c \<and>
        rep s' (L(q \<mapsto> c)) \<and> keeps L (mem s) (mem s') \<and> (\<forall>i < ?t. mem s' (q + i) = 0)"
      using c by (intro exI [of _ "s1\<lparr>mem := ?m\<rparr>"] exI [of _ c]) simp
    with m(1) False show ?thesis by (intro exI [of _ q] exI [of _ s1]) simp
  qed
qed

end

section \<open>The package\<close>

text \<open>All of \<open>mm.h\<close>: with the check of the heap, which finds nothing to report.\<close>

locale malloc_package = reallocator rep init malloc free overhead least block_size realloc calloc
  for rep :: "'s memlib_scheme \<Rightarrow> (nat \<rightharpoonup> nat) \<Rightarrow> bool"
    and init malloc free overhead least block_size realloc calloc +
  fixes checkheap :: "'s memlib_scheme \<Rightarrow> 's memlib_scheme run"
  assumes checkheap_ok: "rep s L \<Longrightarrow> checkheap s = returns s"
begin

text \<open>\<open>realloc\<close> to size 0 is \<open>free\<close>.\<close>

lemma realloc_zero:
  assumes "rep s L" "L p = Some c"
  shows "\<exists>s'. realloc p 0 s = returns (0, s') \<and> heap s' = heap s \<and> rep s' (L(p := None)) \<and>
    keeps (L(p := None)) (mem s) (mem s')"
proof -
  have "p \<noteq> 0" using null_not_live [OF assms(1)] assms(2) by (cases "p = 0") auto
  then have "realloc p 0 s = rbind (free p s) (\<lambda>s. returns (0, s))" using realloc_eq [of p 0 s] by simp
  with free_ok [OF assms] show ?thesis by auto
qed

end

end
