(* ===== verification/TraceDriver.thy ===== *)
theory TraceDriver
  imports Allocator
begin

text \<open>
  The trace driver of the malloc project (\<open>project03-wduan/driver/mdriver.c\<close>): the records it keeps of
  the payloads handed out, the random bytes it fills them with, and the runs of a trace against a malloc
  package. The package is the one linked in, here an argument; \<open>random\<close> is the C library's.
\<close>

section \<open>Data\<close>

record range_t =
  lo :: nat
  hi :: nat
  range_index :: int

datatype request = ALLOC | FREE | REALLOC

record traceop_t =
  op_type :: request
  op_index :: int
  op_size :: u64

record trace_t =
  ignore_ranges :: bool
  num_ids :: nat
  ops :: "traceop_t list"
  blocks :: "nat list"
  block_sizes :: "u64 list"
  block_rand_base :: "nat list"

datatype debug = DBG_NONE | DBG_CHEAP | DBG_EXPENSIVE

text \<open>The messages of \<open>malloc_error\<close>; \<open>errors\<close> is their number.\<close>

datatype complaint =
    Init_Failed | Malloc_Failed | Realloc_Failed | Realloc_Zero_Failed
  | Not_Aligned | Outside_Heap | Overlaps | Garbled

text \<open>The functions of \<open>mm.h\<close>.\<close>

record 's package =
  pkg_init :: "'s memlib_scheme \<Rightarrow> (bool \<times> 's memlib_scheme) run"
  pkg_malloc :: "u64 \<Rightarrow> 's memlib_scheme \<Rightarrow> (nat \<times> 's memlib_scheme) run"
  pkg_free :: "nat \<Rightarrow> 's memlib_scheme \<Rightarrow> 's memlib_scheme run"
  pkg_realloc :: "nat \<Rightarrow> u64 \<Rightarrow> 's memlib_scheme \<Rightarrow> (nat \<times> 's memlib_scheme) run"
  pkg_checkheap :: "'s memlib_scheme \<Rightarrow> 's memlib_scheme run"

text \<open>What does not change during a run: the debugging mode, the random bytes, and the numbers
\<open>random\<close> returns, one after the other.\<close>

record settings =
  debug_mode :: debug
  random_data :: bytes
  random :: "nat \<Rightarrow> nat"

record 's driver =
  machine :: "'s memlib_scheme"
  complaints :: "(nat \<times> complaint) list"
  ranges :: "range_t list"
  trace :: trace_t
  drawn :: nat

definition malloc_error :: "nat \<Rightarrow> complaint \<Rightarrow> 's driver \<Rightarrow> 's driver" where
  "malloc_error opnum c d = d\<lparr>complaints := complaints d @ [(opnum, c)]\<rparr>"

definition RANDOM_DATA_LEN :: nat where "RANDOM_DATA_LEN = 2 ^ 16"

section \<open>Ranges\<close>

definition IS_ALIGNED :: "nat \<Rightarrow> bool" where
  "IS_ALIGNED p = (p mod 16 = 0)"

definition overlaps :: "nat \<Rightarrow> nat \<Rightarrow> range_t \<Rightarrow> bool" where
  "overlaps l h p \<longleftrightarrow> (lo p \<le> l \<and> l \<le> hi p) \<or> (lo p \<le> h \<and> h \<le> hi p)"

text \<open>The size arrives as an \<open>int\<close>.\<close>

definition add_range :: "settings \<Rightarrow> nat \<Rightarrow> int \<Rightarrow> nat \<Rightarrow> int \<Rightarrow> 's driver \<Rightarrow> (bool \<times> 's driver) result" where
  "add_range cfg l sz opnum index d =
     ebind (c_assert (0 < sz)) (\<lambda>_.
     let h = l + nat sz - 1; m = machine d in
       if \<not> IS_ALIGNED l then Inr (False, malloc_error opnum Not_Aligned d)
       else if l < mem_heap_lo m \<or> mem_heap_hi m < l \<or> h < mem_heap_lo m \<or> mem_heap_hi m < h
         then Inr (False, malloc_error opnum Outside_Heap d)
       else if ignore_ranges (trace d) \<or> debug_mode cfg = DBG_NONE then Inr (True, d)
       else if \<exists>p \<in> set (ranges d). overlaps l h p then Inr (False, malloc_error opnum Overlaps d)
       else Inr (True, d\<lparr>ranges := \<lparr>lo = l, hi = h, range_index = index\<rparr> # ranges d\<rparr>))"

fun remove_from :: "nat \<Rightarrow> range_t list \<Rightarrow> range_t list" where
  "remove_from l [] = []"
| "remove_from l (p # ps) = (if lo p = l then ps else p # remove_from l ps)"

definition remove_range :: "nat \<Rightarrow> 's driver \<Rightarrow> 's driver" where
  "remove_range l d = d\<lparr>ranges := remove_from l (ranges d)\<rparr>"

definition clear_ranges :: "'s driver \<Rightarrow> 's driver" where
  "clear_ranges d = d\<lparr>ranges := []\<rparr>"

section \<open>Random data\<close>

text \<open>The bytes \<open>random_data\<close> is filled with; \<open>k\<close> numbers have been drawn before.\<close>

definition init_random_data :: "(nat \<Rightarrow> nat) \<Rightarrow> nat \<Rightarrow> bytes" where
  "init_random_data rnd k = map (\<lambda>len. of_nat (rnd (k + len))) [0..<RANDOM_DATA_LEN]"

definition random_byte :: "settings \<Rightarrow> nat \<Rightarrow> nat \<Rightarrow> u8 result" where
  "random_byte cfg base i = aget (random_data cfg) ((base + i) mod RANDOM_DATA_LEN)"

text \<open>An index of an array of \<open>num_ids\<close> entries.\<close>

definition entry :: "'a list \<Rightarrow> int \<Rightarrow> 'a result" where
  "entry xs index = (if index < 0 then Inl Bad_Access else aget xs (nat index))"

definition set_entry :: "'a list \<Rightarrow> int \<Rightarrow> 'a \<Rightarrow> 'a list result" where
  "set_entry xs index v = (if index < 0 then Inl Bad_Access else aset xs (nat index) v)"

fun fill :: "settings \<Rightarrow> nat \<Rightarrow> nat \<Rightarrow> nat \<Rightarrow> 's memlib_scheme \<Rightarrow> 's memlib_scheme result" where
  "fill cfg block base 0 m = Inr m"
| "fill cfg block base (Suc n) m =
     ebind (fill cfg block base n m) (\<lambda>m.
     ebind (random_byte cfg base n) (\<lambda>b. write8 (block + n) b m))"

definition randomize_block :: "settings \<Rightarrow> int \<Rightarrow> 's driver \<Rightarrow> 's driver result" where
  "randomize_block cfg index d =
     (if debug_mode cfg = DBG_NONE then Inr d
      else let t = trace d; base = random cfg (drawn d) in
        ebind (set_entry (block_rand_base t) index base) (\<lambda>bases.
        ebind (entry (blocks t) index) (\<lambda>block.
        ebind (entry (block_sizes t) index) (\<lambda>sz.
        ebind (fill cfg block base (unat sz) (machine d)) (\<lambda>m.
          Inr (d\<lparr>machine := m, trace := t\<lparr>block_rand_base := bases\<rparr>, drawn := drawn d + 1\<rparr>))))))"

text \<open>The number of bytes that differ.\<close>

fun count_garbled :: "settings \<Rightarrow> nat \<Rightarrow> nat \<Rightarrow> nat \<Rightarrow> 's memlib_scheme \<Rightarrow> nat result" where
  "count_garbled cfg block base 0 m = Inr 0"
| "count_garbled cfg block base (Suc n) m =
     ebind (count_garbled cfg block base n m) (\<lambda>k.
     ebind (read8 m (block + n)) (\<lambda>b.
     ebind (random_byte cfg base n) (\<lambda>r. Inr (if b \<noteq> r then k + 1 else k))))"

definition check_index :: "settings \<Rightarrow> nat \<Rightarrow> int \<Rightarrow> 's driver \<Rightarrow> 's driver result" where
  "check_index cfg opnum index d =
     (if index < 0 \<or> debug_mode cfg = DBG_NONE then Inr d
      else let t = trace d in
        ebind (entry (blocks t) index) (\<lambda>block.
        ebind (entry (block_sizes t) index) (\<lambda>sz.
        ebind (entry (block_rand_base t) index) (\<lambda>base.
        ebind (count_garbled cfg block base (unat sz) (machine d)) (\<lambda>ngarbled.
          Inr (if ngarbled \<noteq> 0 then malloc_error opnum Garbled d else d))))))"

fun check_ranges :: "settings \<Rightarrow> nat \<Rightarrow> range_t list \<Rightarrow> 's driver \<Rightarrow> 's driver result" where
  "check_ranges cfg opnum [] d = Inr d"
| "check_ranges cfg opnum (r # rs) d =
     ebind (check_index cfg opnum (range_index r) d) (\<lambda>d. check_ranges cfg opnum rs d)"

definition reinit_trace :: "trace_t \<Rightarrow> trace_t" where
  "reinit_trace t = t\<lparr>blocks := replicate (num_ids t) 0, block_sizes := replicate (num_ids t) 0\<rparr>"

section \<open>Checking a package\<close>

text \<open>One request of \<open>eval_mm_valid\<close>; \<open>False\<close> is its early return of 0. A size becomes an \<open>int\<close> on the way to
\<open>add_range\<close>.\<close>

definition int_of_size :: "u64 \<Rightarrow> int" where
  "int_of_size sz = sint (ucast sz :: u32)"

definition on_machine :: "('s memlib_scheme \<Rightarrow> ('a \<times> 's memlib_scheme) run) \<Rightarrow> 's driver \<Rightarrow> ('a \<times> 's driver) run" where
  "on_machine f d = rbind (f (machine d)) (\<lambda>(x, m). returns (x, d\<lparr>machine := m\<rparr>))"

definition remember :: "int \<Rightarrow> nat \<Rightarrow> u64 \<Rightarrow> 's driver \<Rightarrow> 's driver result" where
  "remember index p sz d =
     ebind (set_entry (blocks (trace d)) index p) (\<lambda>bs.
     ebind (set_entry (block_sizes (trace d)) index sz) (\<lambda>ss.
       Inr (d\<lparr>trace := (trace d)\<lparr>blocks := bs, block_sizes := ss\<rparr>\<rparr>)))"

definition alloc_step :: "'s package \<Rightarrow> settings \<Rightarrow> nat \<Rightarrow> int \<Rightarrow> u64 \<Rightarrow> 's driver \<Rightarrow> (bool \<times> 's driver) run" where
  "alloc_step pkg cfg i index sz d =
     rbind (on_machine (pkg_malloc pkg sz) d) (\<lambda>(p, d).
       if p = 0 then returns (False, malloc_error i Malloc_Failed d)
       else rbind (Some (add_range cfg p (int_of_size sz) i index d)) (\<lambda>(added, d).
         if \<not> added then returns (False, d)
         else rbind (Some (remember index p sz d)) (\<lambda>d.
              rbind (Some (randomize_block cfg index d)) (\<lambda>d. returns (True, d)))))"

definition realloc_step :: "'s package \<Rightarrow> settings \<Rightarrow> nat \<Rightarrow> int \<Rightarrow> u64 \<Rightarrow> 's driver \<Rightarrow> (bool \<times> 's driver) run" where
  "realloc_step pkg cfg i index sz d =
     rbind (Some (check_index cfg i index d)) (\<lambda>d.
     rbind (Some (entry (blocks (trace d)) index)) (\<lambda>oldp.
     rbind (on_machine (pkg_realloc pkg oldp sz) d) (\<lambda>(newp, d).
       if newp = 0 \<and> sz \<noteq> 0 then returns (False, malloc_error i Realloc_Failed d)
       else if newp \<noteq> 0 \<and> sz = 0 then returns (False, malloc_error i Realloc_Zero_Failed d)
       else let d = remove_range oldp d in
         rbind (if 0 < sz then Some (add_range cfg newp (int_of_size sz) i index d) else returns (True, d))
           (\<lambda>(added, d).
           if \<not> added then returns (False, d)
           else rbind (Some (entry (block_sizes (trace d)) index)) (\<lambda>oldsize.
                rbind (Some (remember index newp (if sz < oldsize then sz else oldsize) d)) (\<lambda>d.
                rbind (Some (check_index cfg i index d)) (\<lambda>d.
                rbind (Some (remember index newp sz d)) (\<lambda>d.
                rbind (Some (randomize_block cfg index d)) (\<lambda>d. returns (True, d)))))))))) "

definition free_step :: "'s package \<Rightarrow> settings \<Rightarrow> nat \<Rightarrow> int \<Rightarrow> 's driver \<Rightarrow> (bool \<times> 's driver) run" where
  "free_step pkg cfg i index d =
     rbind (Some (check_index cfg i index d)) (\<lambda>d.
     rbind (if index = -1 then returns (0, d)
            else rbind (Some (entry (blocks (trace d)) index)) (\<lambda>p. returns (p, remove_range p d))) (\<lambda>(p, d).
     rbind (pkg_free pkg p (machine d)) (\<lambda>m. returns (True, d\<lparr>machine := m\<rparr>))))"

definition valid_step :: "'s package \<Rightarrow> settings \<Rightarrow> nat \<Rightarrow> traceop_t \<Rightarrow> 's driver \<Rightarrow> (bool \<times> 's driver) run" where
  "valid_step pkg cfg i r d =
     rbind (if debug_mode cfg = DBG_EXPENSIVE then
              rbind (pkg_checkheap pkg (machine d)) (\<lambda>m.
                Some (check_ranges cfg i (ranges d) (d\<lparr>machine := m\<rparr>)))
            else returns d) (\<lambda>d.
     case op_type r of
       ALLOC \<Rightarrow> alloc_step pkg cfg i (op_index r) (op_size r) d
     | REALLOC \<Rightarrow> realloc_step pkg cfg i (op_index r) (op_size r) d
     | FREE \<Rightarrow> free_step pkg cfg i (op_index r) d)"

fun valid_loop :: "'s package \<Rightarrow> settings \<Rightarrow> nat \<Rightarrow> traceop_t list \<Rightarrow> 's driver \<Rightarrow> (bool \<times> 's driver) run" where
  "valid_loop pkg cfg i [] d = returns (True, d)"
| "valid_loop pkg cfg i (r # rs) d =
     rbind (valid_step pkg cfg i r d) (\<lambda>(go_on, d).
       if go_on then valid_loop pkg cfg (i + 1) rs d else returns (False, d))"

definition eval_mm_valid :: "'s package \<Rightarrow> settings \<Rightarrow> 's driver \<Rightarrow> (bool \<times> 's driver) run" where
  "eval_mm_valid pkg cfg d =
     (let d = d\<lparr>machine := mem_reset_brk True (machine d), trace := reinit_trace (trace d)\<rparr> in
      rbind (on_machine (pkg_init pkg) d) (\<lambda>(ok, d).
        if \<not> ok then returns (False, malloc_error 0 Init_Failed d)
        else valid_loop pkg cfg 0 (ops (trace d)) d))"

section \<open>Utilization and speed\<close>

text \<open>\<open>eval_mm_util\<close>: the high-water mark of the requested bytes; its result is divided by the size of the
heap. Its sizes are \<open>int\<close>s, widened again for the calls. \<open>app_error\<close> exits with status 1.\<close>

definition widen :: "u64 \<Rightarrow> u64" where
  "widen sz = scast (ucast sz :: u32)"

definition util_step :: "'s package \<Rightarrow> traceop_t \<Rightarrow> int \<Rightarrow> 's driver \<Rightarrow> (int \<times> 's driver) run" where
  "util_step pkg r total_size d = (case op_type r of
       ALLOC \<Rightarrow>
         rbind (on_machine (pkg_malloc pkg (widen (op_size r))) d) (\<lambda>(p, d).
           if p = 0 then fails (Exit_With 1)
           else rbind (Some (remember (op_index r) p (widen (op_size r)) d)) (\<lambda>d.
                returns (total_size + int_of_size (op_size r), d)))
     | REALLOC \<Rightarrow>
         rbind (Some (entry (block_sizes (trace d)) (op_index r))) (\<lambda>oldsize.
         rbind (Some (entry (blocks (trace d)) (op_index r))) (\<lambda>oldp.
         rbind (on_machine (pkg_realloc pkg oldp (widen (op_size r))) d) (\<lambda>(newp, d).
           if newp = 0 \<and> widen (op_size r) \<noteq> 0 then fails (Exit_With 1)
           else rbind (Some (remember (op_index r) newp (widen (op_size r)) d)) (\<lambda>d.
                returns (total_size + (int_of_size (op_size r) - int_of_size oldsize), d)))))
     | FREE \<Rightarrow>
         rbind (if op_index r < 0 then returns (0, 0)
                else rbind (Some (entry (block_sizes (trace d)) (op_index r))) (\<lambda>sz.
                     rbind (Some (entry (blocks (trace d)) (op_index r))) (\<lambda>p. returns (int_of_size sz, p))))
           (\<lambda>(sz, p).
         rbind (pkg_free pkg p (machine d)) (\<lambda>m. returns (total_size - sz, d\<lparr>machine := m\<rparr>))))"

fun util_loop :: "'s package \<Rightarrow> traceop_t list \<Rightarrow> int \<Rightarrow> int \<Rightarrow> 's driver \<Rightarrow> (int \<times> 's driver) run" where
  "util_loop pkg [] total_size max_total_size d = returns (max_total_size, d)"
| "util_loop pkg (r # rs) total_size max_total_size d =
     rbind (util_step pkg r total_size d) (\<lambda>(total_size, d).
       util_loop pkg rs total_size (max total_size max_total_size) d)"

definition eval_mm_util :: "'s package \<Rightarrow> 's driver \<Rightarrow> ((int \<times> nat) \<times> 's driver) run" where
  "eval_mm_util pkg d =
     (let d = d\<lparr>trace := reinit_trace (trace d), machine := mem_reset_brk False (machine d)\<rparr> in
      rbind (on_machine (pkg_init pkg) d) (\<lambda>(ok, d).
        if \<not> ok then fails (Exit_With 1)
        else rbind (util_loop pkg (ops (trace d)) 0 0 d) (\<lambda>(max_total_size, d).
             returns ((max_total_size, mem_heapsize (machine d)), d))))"

text \<open>\<open>eval_mm_speed\<close> makes the same requests and remembers only the pointers.\<close>

definition set_block :: "int \<Rightarrow> nat \<Rightarrow> 's driver \<Rightarrow> 's driver result" where
  "set_block index p d =
     ebind (set_entry (blocks (trace d)) index p) (\<lambda>bs. Inr (d\<lparr>trace := (trace d)\<lparr>blocks := bs\<rparr>\<rparr>))"

definition speed_step :: "'s package \<Rightarrow> traceop_t \<Rightarrow> 's driver \<Rightarrow> 's driver run" where
  "speed_step pkg r d = (case op_type r of
       ALLOC \<Rightarrow>
         rbind (on_machine (pkg_malloc pkg (widen (op_size r))) d) (\<lambda>(p, d).
           if p = 0 then fails (Exit_With 1) else Some (set_block (op_index r) p d))
     | REALLOC \<Rightarrow>
         rbind (Some (entry (blocks (trace d)) (op_index r))) (\<lambda>oldp.
         rbind (on_machine (pkg_realloc pkg oldp (widen (op_size r))) d) (\<lambda>(newp, d).
           if newp = 0 \<and> widen (op_size r) \<noteq> 0 then fails (Exit_With 1)
           else Some (set_block (op_index r) newp d)))
     | FREE \<Rightarrow>
         rbind (if op_index r < 0 then returns 0 else Some (entry (blocks (trace d)) (op_index r))) (\<lambda>block.
         rbind (pkg_free pkg block (machine d)) (\<lambda>m. returns (d\<lparr>machine := m\<rparr>))))"

fun speed_loop :: "'s package \<Rightarrow> traceop_t list \<Rightarrow> 's driver \<Rightarrow> 's driver run" where
  "speed_loop pkg [] d = returns d"
| "speed_loop pkg (r # rs) d = rbind (speed_step pkg r d) (speed_loop pkg rs)"

definition eval_mm_speed :: "'s package \<Rightarrow> 's driver \<Rightarrow> 's driver run" where
  "eval_mm_speed pkg d =
     (let d = d\<lparr>trace := reinit_trace (trace d), machine := mem_reset_brk False (machine d)\<rparr> in
      rbind (on_machine (pkg_init pkg) d) (\<lambda>(ok, d).
        if \<not> ok then fails (Exit_With 1) else speed_loop pkg (ops (trace d)) d))"

section \<open>What the driver knows\<close>

text \<open>Whether ranges are recorded.\<close>

definition recording :: "settings \<Rightarrow> trace_t \<Rightarrow> bool" where
  "recording cfg t \<longleftrightarrow> \<not> ignore_ranges t \<and> debug_mode cfg \<noteq> DBG_NONE"

definition random_bytes :: "settings \<Rightarrow> nat \<Rightarrow> nat \<Rightarrow> u8" where
  "random_bytes cfg base k = random_data cfg ! ((base + k) mod RANDOM_DATA_LEN)"

text \<open>The record of a live index.\<close>

definition range_of :: "trace_t \<Rightarrow> nat \<Rightarrow> range_t" where
  "range_of t i = \<lparr>lo = blocks t ! i, hi = blocks t ! i + unat (block_sizes t ! i) - 1, range_index = int i\<rparr>"

text \<open>The driver's tables agree with the live payloads \<open>L\<close> and the memory \<open>m\<close> for the indices \<open>A\<close> in use.\<close>

definition tracked ::
  "settings \<Rightarrow> (nat \<Rightarrow> u8) \<Rightarrow> trace_t \<Rightarrow> range_t list \<Rightarrow> (nat \<rightharpoonup> nat) \<Rightarrow> nat set \<Rightarrow> bool" where
  "tracked cfg m t rs L A \<longleftrightarrow>
     length (blocks t) = num_ids t \<and> length (block_sizes t) = num_ids t \<and>
     length (block_rand_base t) = num_ids t \<and>
     (\<forall>i \<in> A. i < num_ids t \<and> 0 < unat (block_sizes t ! i) \<and>
        (\<exists>c. L (blocks t ! i) = Some c \<and> unat (block_sizes t ! i) \<le> c) \<and>
        (debug_mode cfg \<noteq> DBG_NONE \<longrightarrow>
          (\<forall>k < unat (block_sizes t ! i). m (blocks t ! i + k) = random_bytes cfg (block_rand_base t ! i) k))) \<and>
     inj_on ((!) (blocks t)) A \<and>
     (if recording cfg t then set rs = range_of t ` A \<and> distinct (map lo rs) else rs = [])"

lemma tracked_entry:
  assumes "tracked cfg m t rs L A" "i \<in> A"
  obtains c where "i < num_ids t" "L (blocks t ! i) = Some c" "unat (block_sizes t ! i) \<le> c"
    "0 < unat (block_sizes t ! i)"
    "debug_mode cfg \<noteq> DBG_NONE \<Longrightarrow>
       \<forall>k < unat (block_sizes t ! i). m (blocks t ! i + k) = random_bytes cfg (block_rand_base t ! i) k"
  using assms by (auto simp: tracked_def)

lemma tracked_keeps:
  assumes "tracked cfg m t rs L A" "keeps L m m'"
  shows "tracked cfg m' t rs L A"
proof -
  have "m' (blocks t ! i + k) = m (blocks t ! i + k)" if i: "i \<in> A" "k < unat (block_sizes t ! i)" for i k
  proof -
    obtain c where "L (blocks t ! i) = Some c" "unat (block_sizes t ! i) \<le> c"
      using tracked_entry [OF assms(1) i(1)] by blast
    then show ?thesis using keepsD [OF assms(2)] i(2) by simp
  qed
  with assms(1) show ?thesis by (auto simp: tracked_def)
qed

lemma set_remove_from:
  "distinct (map lo rs) \<Longrightarrow> set (remove_from l rs) = {r \<in> set rs. lo r \<noteq> l} \<and> distinct (map lo (remove_from l rs))"
  by (induction rs) (auto simp: image_iff)

lemma tracked_remove:
  assumes "tracked cfg m t rs L A" "i \<in> A"
  shows "tracked cfg m t (remove_from (blocks t ! i) rs) (L(blocks t ! i := None)) (A - {i})"
proof -
  have inj: "blocks t ! j \<noteq> blocks t ! i" if "j \<in> A - {i}" for j
    using assms that by (auto simp: tracked_def dest: inj_onD)
  have "if recording cfg t
    then set (remove_from (blocks t ! i) rs) = range_of t ` (A - {i}) \<and> distinct (map lo (remove_from (blocks t ! i) rs))
    else remove_from (blocks t ! i) rs = []"
  proof (cases "recording cfg t")
    case True
    with assms(1) have rs: "set rs = range_of t ` A" "distinct (map lo rs)" by (auto simp: tracked_def)
    have "{r \<in> range_of t ` A. lo r \<noteq> blocks t ! i} = range_of t ` (A - {i})"
      using inj by (auto simp: range_of_def)
    with True rs set_remove_from [OF rs(2)] show ?thesis by simp
  qed (use assms(1) in \<open>simp add: tracked_def\<close>)
  moreover have "inj_on ((!) (blocks t)) (A - {i})" using assms(1) by (auto simp: tracked_def intro: inj_on_diff)
  ultimately show ?thesis using assms(1) inj unfolding tracked_def by auto
qed

lemma tracked_add:
  assumes "tracked cfg m t rs L A" "i \<notin> A" "i < num_ids t" "L p = None" "unat sz \<le> c" "0 < unat sz"
    and t': "t' = t\<lparr>blocks := (blocks t)[i := p], block_sizes := (block_sizes t)[i := sz],
      block_rand_base := bases\<rparr>" and bases: "length bases = num_ids t" "\<And>j. j \<in> A \<Longrightarrow> bases ! j = block_rand_base t ! j"
    and "debug_mode cfg \<noteq> DBG_NONE \<Longrightarrow> \<forall>k < unat sz. m (p + k) = random_bytes cfg (bases ! i) k"
  shows "tracked cfg m t' (if recording cfg t then \<lparr>lo = p, hi = p + unat sz - 1, range_index = int i\<rparr> # rs else rs)
    (L(p \<mapsto> c)) (insert i A)"
proof -
  have len: "length (blocks t) = num_ids t" "length (block_sizes t) = num_ids t" using assms(1) by (auto simp: tracked_def)
  have old: "blocks t' ! j = blocks t ! j" "block_sizes t' ! j = block_sizes t ! j" if "j \<in> A" for j
    using that assms(2) by (auto simp: t' intro!: nth_list_update_neq)
  have new: "blocks t' ! i = p" "block_sizes t' ! i = sz" "num_ids t' = num_ids t" "recording cfg t' = recording cfg t"
    using len assms(3) by (simp_all add: t' recording_def)
  have other: "blocks t ! j \<noteq> p" if "j \<in> A" for j
    using tracked_entry [OF assms(1) that] assms(4) by force
  have "range_of t' j = range_of t j" if "j \<in> A" for j using old [OF that] by (simp add: range_of_def)
  then have "range_of t' ` A = range_of t ` A" by (rule image_cong [OF refl])
  moreover have "range_of t' i = \<lparr>lo = p, hi = p + unat sz - 1, range_index = int i\<rparr>"
    using new by (simp add: range_of_def)
  ultimately
  have "range_of t' ` insert i A = insert \<lparr>lo = p, hi = p + unat sz - 1, range_index = int i\<rparr> (range_of t ` A)"
    by simp
  moreover have "p \<notin> lo ` range_of t ` A" using other by (force simp: range_of_def)
  moreover have "inj_on ((!) (blocks t')) (insert i A)"
  proof -
    have "inj_on ((!) (blocks t')) A" using assms(1) old(1) by (auto simp: tracked_def inj_on_def)
    moreover have "blocks t' ! i \<notin> (!) (blocks t') ` A" using new(1) old(1) other by force
    ultimately show ?thesis by (auto simp: inj_on_insert)
  qed
  moreover have "j < num_ids t' \<and> 0 < unat (block_sizes t' ! j) \<and>
      (\<exists>c'. (L(p \<mapsto> c)) (blocks t' ! j) = Some c' \<and> unat (block_sizes t' ! j) \<le> c') \<and>
      (debug_mode cfg \<noteq> DBG_NONE \<longrightarrow>
        (\<forall>k < unat (block_sizes t' ! j). m (blocks t' ! j + k) = random_bytes cfg (bases ! j) k))"
    if j: "j \<in> insert i A" for j
  proof (cases "j = i")
    case True
    with new assms(3,5,6,10) show ?thesis by auto
  next
    case False
    with j have A: "j \<in> A" by simp
    then show ?thesis using assms(1) unfolding tracked_def old(1) [OF A] old(2) [OF A] bases(2) [OF A] new(3)
      by (simp add: other)
  qed
  moreover have "if recording cfg t then set rs = range_of t ` A \<and> distinct (map lo rs) else rs = []"
    using assms(1) by (simp add: tracked_def)
  ultimately show ?thesis using len bases(1) new(4) unfolding tracked_def by (auto simp: t')
qed

lemma tracked_update:
  assumes "tracked cfg m t rs L A" "i \<notin> A"
    and t': "t' = t\<lparr>blocks := (blocks t)[i := p], block_sizes := (block_sizes t)[i := sz], block_rand_base := bases\<rparr>"
    and bases: "length bases = num_ids t" "\<And>j. j \<in> A \<Longrightarrow> bases ! j = block_rand_base t ! j"
  shows "tracked cfg m t' rs L A"
proof -
  have old: "blocks t' ! j = blocks t ! j" "block_sizes t' ! j = block_sizes t ! j" if "j \<in> A" for j
    using that assms(2) by (auto simp: t' intro!: nth_list_update_neq)
  have same: "num_ids t' = num_ids t" "recording cfg t' = recording cfg t" "block_rand_base t' = bases"
    by (simp_all add: t' recording_def)
  have "range_of t' ` A = range_of t ` A" using old by (intro image_cong) (simp_all add: range_of_def)
  moreover have "inj_on ((!) (blocks t')) A" using assms(1) old(1) by (auto simp: tracked_def inj_on_def)
  moreover have "length (blocks t') = num_ids t" "length (block_sizes t') = num_ids t"
    using assms(1) by (auto simp: t' tracked_def)
  ultimately show ?thesis using assms(1) bases unfolding tracked_def same by (simp add: old)
qed

section \<open>The byte loops\<close>

lemma random_byte_ok: "length (random_data cfg) = RANDOM_DATA_LEN \<Longrightarrow> random_byte cfg base k = Inr (random_bytes cfg base k)"
  by (simp add: random_byte_def random_bytes_def aget_def RANDOM_DATA_LEN_def)

lemma count_garbled_none:
  assumes "length (random_data cfg) = RANDOM_DATA_LEN" "mapped m block n"
    "\<forall>k < n. mem m (block + k) = random_bytes cfg base k"
  shows "count_garbled cfg block base n m = Inr 0"
  using assms(2,3)
proof (induction n)
  case (Suc n)
  then have "mapped m block n" "mapped m (block + n) 1" by (simp_all add: mapped_def)
  with Suc show ?case by (simp add: read8_def random_byte_ok [OF assms(1)])
qed simp

lemma fill_ok:
  assumes "length (random_data cfg) = RANDOM_DATA_LEN" "mapped m block n"
  shows "fill cfg block base n m = Inr (m\<lparr>mem :=
    (\<lambda>x. if block \<le> x \<and> x < block + n then random_bytes cfg base (x - block) else mem m x)\<rparr>)"
  using assms(2)
proof (induction n)
  case (Suc n)
  then have "mapped m block n" "mapped m (block + n) 1" by (simp_all add: mapped_def)
  moreover have "(\<lambda>x. if block \<le> x \<and> x < block + n then random_bytes cfg base (x - block) else mem m x)
      (block + n := random_bytes cfg base n) =
    (\<lambda>x. if block \<le> x \<and> x < block + Suc n then random_bytes cfg base (x - block) else mem m x)"
    by (auto simp: fun_eq_iff)
  ultimately show ?case using Suc.IH
    by (simp add: write8_def mapped_def random_byte_ok [OF assms(1)])
next
  case 0
  have "(\<lambda>x. if block \<le> x \<and> x < block + 0 then random_bytes cfg base (x - block) else mem m x) = mem m"
    by (auto simp: fun_eq_iff)
  then show ?case by simp
qed

lemma check_index_ok:
  assumes "length (random_data cfg) = RANDOM_DATA_LEN"
    "length (blocks (trace d)) = num_ids (trace d)" "length (block_sizes (trace d)) = num_ids (trace d)"
    "length (block_rand_base (trace d)) = num_ids (trace d)" "i < num_ids (trace d)"
    "mapped (machine d) (blocks (trace d) ! i) (unat (block_sizes (trace d) ! i))"
    "debug_mode cfg \<noteq> DBG_NONE \<Longrightarrow> \<forall>k < unat (block_sizes (trace d) ! i).
      mem (machine d) (blocks (trace d) ! i + k) = random_bytes cfg (block_rand_base (trace d) ! i) k"
  shows "check_index cfg opnum (int i) d = Inr d"
proof (cases "debug_mode cfg = DBG_NONE")
  case False
  with assms show ?thesis
    by (simp add: check_index_def Let_def entry_def aget_def count_garbled_none)
qed (simp add: check_index_def)

section \<open>A package that keeps its promises passes\<close>

text \<open>The traces the driver is meant for: an index is allocated before it is used and not again before it is
freed, and sizes fit an \<open>int\<close>.\<close>

fun wf_ops :: "nat \<Rightarrow> nat set \<Rightarrow> traceop_t list \<Rightarrow> bool" where
  "wf_ops n A [] = True"
| "wf_ops n A (r # rs) =
     (let i = nat (op_index r) in
      case op_type r of
        ALLOC \<Rightarrow> 0 \<le> op_index r \<and> i < n \<and> i \<notin> A \<and> 0 < unat (op_size r) \<and> unat (op_size r) < 2 ^ 31 \<and>
          wf_ops n (insert i A) rs
      | REALLOC \<Rightarrow> 0 \<le> op_index r \<and> i \<in> A \<and> unat (op_size r) < 2 ^ 31 \<and>
          wf_ops n (if op_size r = 0 then A - {i} else A) rs
      | FREE \<Rightarrow> op_index r = -1 \<and> wf_ops n A rs \<or> 0 \<le> op_index r \<and> i \<in> A \<and> wf_ops n (A - {i}) rs)"

lemma int_of_size_small:
  assumes "unat sz < 2 ^ 31"
  shows "int_of_size sz = int (unat sz)"
proof -
  have "unat (ucast sz :: u32) = unat sz"
    using assms by (simp add: unsigned_ucast_eq take_bit_nat_eq_self)
  then have "uint (ucast sz :: u32) = uint sz" by (metis uint_nat)
  moreover have "signed_take_bit 31 (uint sz) = uint sz"
  proof (rule signed_take_bit_int_eq_self)
    have "- (2 ^ 31) \<le> (0 :: int)" by simp
    also have "\<dots> \<le> uint sz" by (rule uint_ge_0)
    finally show "- (2 ^ 31) \<le> uint sz" .
    have "int (unat sz) < int (2 ^ 31)" using assms by (rule iffD2 [OF of_nat_less_iff])
    then show "uint sz < 2 ^ 31" by (simp only: uint_nat of_nat_power of_nat_numeral)
  qed
  moreover have "sint (ucast sz :: u32) = signed_take_bit 31 (uint (ucast sz :: u32))"
    by (subst sint_uint) simp
  ultimately show ?thesis by (simp only: int_of_size_def uint_nat)
qed

lemma remember_ok:
  "length (blocks (trace d)) = num_ids (trace d) \<Longrightarrow> length (block_sizes (trace d)) = num_ids (trace d) \<Longrightarrow>
   i < num_ids (trace d) \<Longrightarrow>
   remember (int i) p sz d = Inr (d\<lparr>trace := (trace d)\<lparr>blocks := (blocks (trace d))[i := p],
     block_sizes := (block_sizes (trace d))[i := sz]\<rparr>\<rparr>)"
  by (simp add: remember_def set_entry_def aset_def)

text \<open>A run that returns, and reports nothing but that the package is out of memory.\<close>

definition only_out_of_memory :: "'s driver \<Rightarrow> (bool \<times> 's driver) run \<Rightarrow> bool" where
  "only_out_of_memory d r \<longleftrightarrow> (\<exists>ok d'. r = returns (ok, d') \<and>
     (if ok then complaints d' = complaints d
      else \<exists>j. \<exists>c \<in> {Malloc_Failed, Realloc_Failed}. complaints d' = complaints d @ [(j, c)]))"

lemma only_out_of_memory_cong:
  "complaints d = complaints d1 \<Longrightarrow> only_out_of_memory d r \<longleftrightarrow> only_out_of_memory d1 r"
  by (simp add: only_out_of_memory_def)

context malloc_package
begin

definition pkg :: "'s package" where
  "pkg = \<lparr>pkg_init = init, pkg_malloc = malloc, pkg_free = free, pkg_realloc = realloc, pkg_checkheap = checkheap\<rparr>"

text \<open>The package's state and the driver's tables agree.\<close>

definition good :: "settings \<Rightarrow> 's driver \<Rightarrow> nat set \<Rightarrow> bool" where
  "good cfg d A \<longleftrightarrow> length (random_data cfg) = RANDOM_DATA_LEN \<and>
     (\<exists>L. rep (machine d) L \<and> tracked cfg (mem (machine d)) (trace d) (ranges d) L A)"

lemma check_live:
  assumes "good cfg d A" "i \<in> A"
  shows "check_index cfg opnum (int i) d = Inr d"
proof -
  obtain L where L: "rep (machine d) L" "tracked cfg (mem (machine d)) (trace d) (ranges d) L A"
    and len: "length (random_data cfg) = RANDOM_DATA_LEN" using assms(1) by (auto simp: good_def)
  obtain c where c: "i < num_ids (trace d)" "L (blocks (trace d) ! i) = Some c"
    "unat (block_sizes (trace d) ! i) \<le> c"
    "debug_mode cfg \<noteq> DBG_NONE \<Longrightarrow> \<forall>k < unat (block_sizes (trace d) ! i).
       mem (machine d) (blocks (trace d) ! i + k) = random_bytes cfg (block_rand_base (trace d) ! i) k"
    using tracked_entry [OF L(2) assms(2)] by blast
  have "mapped (machine d) (blocks (trace d) ! i) (unat (block_sizes (trace d) ! i))"
    by (rule mapped_sub [OF payload_mapped [OF L(1) c(2)]]) (use c(3) in simp_all)
  then show ?thesis using c(1,4) L(2) len by (intro check_index_ok) (auto simp: tracked_def)
qed

lemma check_ranges_ok:
  assumes "good cfg d A"
  shows "check_ranges cfg opnum (ranges d) d = Inr d"
proof -
  have "check_ranges cfg opnum rs d = Inr d" if "\<forall>r \<in> set rs. \<exists>i \<in> A. range_index r = int i" for rs
    using that by (induction rs) (auto simp: check_live [OF assms])
  moreover have "\<forall>r \<in> set (ranges d). \<exists>i \<in> A. range_index r = int i"
    using assms by (auto simp: good_def tracked_def range_of_def split: if_splits)
  ultimately show ?thesis by blast
qed

lemma add_range_ok:
  assumes "rep (machine d) (L(p \<mapsto> c))" "L p = None"
    "tracked cfg m (trace d) (ranges d) L A" "0 < n" "n \<le> c"
  shows "add_range cfg p (int n) opnum index d = Inr (True,
    d\<lparr>ranges := (if recording cfg (trace d)
      then \<lparr>lo = p, hi = p + n - 1, range_index = index\<rparr> # ranges d else ranges d)\<rparr>)"
proof -
  let ?m = "machine d"
  have p: "16 dvd p" "heap ?m < p" "p + c \<le> mem_brk ?m" using rep_payload [OF assms(1), of p c] by simp_all
  have apart: "\<not> overlaps p (p + n - 1) r" if r: "r \<in> set (ranges d)" for r
  proof (cases "recording cfg (trace d)")
    case True
    then obtain i where i: "i \<in> A" "r = range_of (trace d) i"
      using assms(3) r by (auto simp: tracked_def)
    obtain c' where c': "L (blocks (trace d) ! i) = Some c'" "unat (block_sizes (trace d) ! i) \<le> c'"
      "0 < unat (block_sizes (trace d) ! i)" using tracked_entry [OF assms(3) i(1)] by blast
    from malloc_disjoint [OF assms(1,2) c'(1)] c'(2,3) assms(4,5) show ?thesis
      by (auto simp: overlaps_def i(2) range_of_def)
  next
    case False
    then show ?thesis using assms(3) r by (simp add: tracked_def)
  qed
  have "IS_ALIGNED p" using p(1) by (simp add: IS_ALIGNED_def dvd_eq_mod_eq_0)
  moreover have "\<not> (p < mem_heap_lo ?m \<or> mem_heap_hi ?m < p \<or> p + n - 1 < mem_heap_lo ?m \<or> mem_heap_hi ?m < p + n - 1)"
    using p(2,3) assms(4,5) unfolding mem_heap_lo_def mem_heap_hi_def by arith
  ultimately show ?thesis using assms(4) apart
    by (auto simp: add_range_def Let_def recording_def)
qed

text \<open>A new payload, entered in the tables, is filled and tracked.\<close>

lemma randomize_ok:
  assumes "length (random_data cfg) = RANDOM_DATA_LEN"
    "rep (machine d) (L(p \<mapsto> c))" "L p = None" "tracked cfg (mem (machine d)) t rs L A"
    "i \<notin> A" "i < num_ids t" "0 < unat sz" "unat sz \<le> c"
    and t: "trace d = t\<lparr>blocks := (blocks t)[i := p], block_sizes := (block_sizes t)[i := sz]\<rparr>"
    and rs: "ranges d = (if recording cfg t
      then \<lparr>lo = p, hi = p + unat sz - 1, range_index = int i\<rparr> # rs else rs)"
  shows "\<exists>d'. randomize_block cfg (int i) d = Inr d' \<and> complaints d' = complaints d \<and>
    num_ids (trace d') = num_ids (trace d) \<and> good cfg d' (insert i A)"
proof (cases "debug_mode cfg = DBG_NONE")
  case True
  have "tracked cfg (mem (machine d)) (trace d) (ranges d) (L(p \<mapsto> c)) (insert i A)"
    unfolding rs by (rule tracked_add [OF assms(4,5,6,3,8,7), of _ "block_rand_base t"])
      (use assms(4) True in \<open>auto simp: t tracked_def\<close>)
  with True assms(1,2) show ?thesis by (auto simp: randomize_block_def good_def)
next
  case False
  let ?n = "unat sz" and ?base = "random cfg (drawn d)"
  let ?bases = "(block_rand_base t)[i := ?base]"
  let ?m = "\<lambda>x. if p \<le> x \<and> x < p + ?n then random_bytes cfg ?base (x - p) else mem (machine d) x"
  let ?d = "d\<lparr>machine := (machine d)\<lparr>mem := ?m\<rparr>, trace := (trace d)\<lparr>block_rand_base := ?bases\<rparr>, drawn := drawn d + 1\<rparr>"
  have len: "length (blocks t) = num_ids t" "length (block_sizes t) = num_ids t" "length (block_rand_base t) = num_ids t"
    using assms(4) by (auto simp: tracked_def)
  have "mapped (machine d) p ?n"
    by (rule mapped_sub [OF payload_mapped [OF assms(2), of p c]]) (use assms(8) in simp_all)
  then have "randomize_block cfg (int i) d = Inr ?d"
    using False len assms(6) fill_ok [OF assms(1), of "machine d" p ?n]
    by (simp add: randomize_block_def Let_def t set_entry_def entry_def aset_def aget_def)
  moreover have "rep (machine ?d) (L(p \<mapsto> c))"
  proof -
    have "rep ((machine d)\<lparr>mem := ?m\<rparr>) (L(p \<mapsto> c))"
      by (rule rep_write [OF assms(2), of p c]) (use assms(8) in \<open>auto split: if_splits\<close>)
    then show ?thesis by simp
  qed
  moreover have "tracked cfg (mem (machine ?d)) (trace ?d) (ranges ?d) (L(p \<mapsto> c)) (insert i A)"
  proof -
    have "keeps ((L(p \<mapsto> c))(p := None)) (mem (machine d)) ?m"
      by (rule write_keeps_others [OF assms(2), of p c]) (use assms(8) in \<open>auto split: if_splits\<close>)
    then have "keeps L (mem (machine d)) ?m" using assms(3) by (simp add: fun_upd_idem)
    note kept = tracked_keeps [OF assms(4) this]
    have bases: "?bases ! j = block_rand_base t ! j" if "j \<in> A" for j
      using that assms(5) by (metis nth_list_update_neq)
    have "tracked cfg ?m (trace ?d) (ranges d) (L(p \<mapsto> c)) (insert i A)"
      unfolding rs by (rule tracked_add [OF kept assms(5,6,3,8,7), of _ ?bases])
        (use len bases assms(6) in \<open>simp_all add: t\<close>)
    then show ?thesis by simp
  qed
  ultimately show ?thesis using assms(1) by (auto simp: good_def)
qed

text \<open>A request ends well, or the package is out of memory and the driver says so.\<close>

definition served :: "settings \<Rightarrow> nat \<Rightarrow> 's driver \<Rightarrow> nat set \<Rightarrow> (bool \<times> 's driver) run \<Rightarrow> bool" where
  "served cfg i d A r \<longleftrightarrow> (\<exists>ok d'. r = returns (ok, d') \<and> num_ids (trace d') = num_ids (trace d) \<and>
     (if ok then complaints d' = complaints d \<and> good cfg d' A
      else \<exists>c \<in> {Malloc_Failed, Realloc_Failed}. complaints d' = complaints d @ [(i, c)]))"

lemma served_ok:
  "r = returns (True, d') \<Longrightarrow> num_ids (trace d') = num_ids (trace d) \<Longrightarrow> complaints d' = complaints d \<Longrightarrow>
   good cfg d' A \<Longrightarrow> served cfg i d A r"
  unfolding served_def by (intro exI [of _ True] exI [of _ d']) simp

lemma served_failed:
  "r = returns (False, malloc_error i c d') \<Longrightarrow> c \<in> {Malloc_Failed, Realloc_Failed} \<Longrightarrow>
   trace d' = trace d \<Longrightarrow> complaints d' = complaints d \<Longrightarrow> served cfg i d A r"
  unfolding served_def by (intro exI [of _ False] exI [of _ "malloc_error i c d'"]) (simp add: malloc_error_def)

lemma alloc_served:
  assumes good: "good cfg d A" and i: "i \<notin> A" "i < num_ids (trace d)" and sz: "0 < unat sz" "unat sz < 2 ^ 31"
  shows "served cfg k d (insert i A) (alloc_step pkg cfg k (int i) sz d)"
proof -
  obtain L where L: "rep (machine d) L" "tracked cfg (mem (machine d)) (trace d) (ranges d) L A"
    and len: "length (random_data cfg) = RANDOM_DATA_LEN" using good by (auto simp: good_def)
  have "least \<le> unat sz" "unat sz + overhead + 15 < 2 ^ 64" using small_overhead sz by simp_all
  from malloc_ok [OF L(1) this] obtain p m where m: "malloc sz (machine d) = returns (p, m)"
    "keeps L (mem (machine d)) (mem m)"
    "if p = 0 then rep m L else L p = None \<and> (\<exists>c. unat sz \<le> c \<and> rep m (L(p \<mapsto> c)))" by blast
  have run: "on_machine (pkg_malloc pkg sz) d = returns (p, d\<lparr>machine := m\<rparr>)"
    by (simp add: on_machine_def pkg_def m(1))
  show ?thesis
  proof (cases "p = 0")
    case True
    then show ?thesis by (intro served_failed [of _ _ Malloc_Failed "d\<lparr>machine := m\<rparr>"]) (simp_all add: alloc_step_def run)
  next
    case False
    then obtain c where c: "L p = None" "unat sz \<le> c" "rep m (L(p \<mapsto> c))" using m(3) by auto
    let ?d1 = "d\<lparr>machine := m, ranges := (if recording cfg (trace d)
      then \<lparr>lo = p, hi = p + unat sz - 1, range_index = int i\<rparr> # ranges d else ranges d)\<rparr>"
    let ?d2 = "?d1\<lparr>trace := (trace d)\<lparr>blocks := (blocks (trace d))[i := p],
      block_sizes := (block_sizes (trace d))[i := sz]\<rparr>\<rparr>"
    have kept: "tracked cfg (mem m) (trace d) (ranges d) L A" by (rule tracked_keeps [OF L(2) m(2)])
    have add: "add_range cfg p (int_of_size sz) k (int i) (d\<lparr>machine := m\<rparr>) = Inr (True, ?d1)"
      using add_range_ok [of "d\<lparr>machine := m\<rparr>" L p c cfg "mem m" A "unat sz" k "int i"] c kept sz
      by (simp add: int_of_size_small)
    have rem: "remember (int i) p sz ?d1 = Inr ?d2"
      using remember_ok [of ?d1 i p sz] L(2) i(2) by (auto simp: tracked_def)
    have "\<exists>d'. randomize_block cfg (int i) ?d2 = Inr d' \<and> complaints d' = complaints ?d2 \<and>
        num_ids (trace d') = num_ids (trace ?d2) \<and> good cfg d' (insert i A)"
      by (rule randomize_ok [OF len, of ?d2 L p c "trace d" "ranges d" A i sz]) (use c kept i sz in simp_all)
    then obtain d' where "randomize_block cfg (int i) ?d2 = Inr d'" "complaints d' = complaints ?d2"
        "num_ids (trace d') = num_ids (trace ?d2)" "good cfg d' (insert i A)" by blast
    then show ?thesis using False add rem by (intro served_ok [of _ d']) (simp_all add: alloc_step_def run returns_def)
  qed
qed

lemma free_served:
  assumes "good cfg d A" "i \<in> A"
  shows "served cfg k d (A - {i}) (free_step pkg cfg k (int i) d)"
proof -
  obtain L where L: "rep (machine d) L" "tracked cfg (mem (machine d)) (trace d) (ranges d) L A"
    and len: "length (random_data cfg) = RANDOM_DATA_LEN" using assms(1) by (auto simp: good_def)
  let ?p = "blocks (trace d) ! i"
  obtain c where c: "i < num_ids (trace d)" "L ?p = Some c" using tracked_entry [OF L(2) assms(2)] by blast
  from free_ok [OF L(1) c(2)] obtain m where m: "free ?p (machine d) = returns m" "rep m (L(?p := None))"
    "keeps (L(?p := None)) (mem (machine d)) (mem m)" by blast
  have "entry (blocks (trace d)) (int i) = Inr ?p" using L(2) c(1) by (simp add: entry_def aget_def tracked_def)
  moreover have "tracked cfg (mem m) (trace d) (remove_from ?p (ranges d)) (L(?p := None)) (A - {i})"
    by (rule tracked_keeps [OF tracked_remove [OF L(2) assms(2)] m(3)])
  ultimately show ?thesis using check_live [OF assms, of k] m(1,2) len
    by (intro served_ok [of _ "d\<lparr>machine := m, ranges := remove_from ?p (ranges d)\<rparr>"])
      (auto simp: free_step_def remove_range_def pkg_def good_def returns_def)
qed

lemma free_null_served: "good cfg d A \<Longrightarrow> served cfg k d A (free_step pkg cfg k (-1) d)"
  by (rule served_ok [of _ d]) (simp_all add: free_step_def check_index_def pkg_def free_null)

lemma realloc_zero_served:
  assumes "good cfg d A" "i \<in> A"
  shows "served cfg k d (A - {i}) (realloc_step pkg cfg k (int i) 0 d)"
proof -
  obtain L where L: "rep (machine d) L" "tracked cfg (mem (machine d)) (trace d) (ranges d) L A"
    and len: "length (random_data cfg) = RANDOM_DATA_LEN" using assms(1) by (auto simp: good_def)
  let ?t = "trace d" let ?p = "blocks ?t ! i"
  obtain c where c: "i < num_ids ?t" "L ?p = Some c" "0 < unat (block_sizes ?t ! i)"
    using tracked_entry [OF L(2) assms(2)] by blast
  have lens: "length (blocks ?t) = num_ids ?t" "length (block_sizes ?t) = num_ids ?t" "length (block_rand_base ?t) = num_ids ?t"
    using L(2) by (auto simp: tracked_def)
  from realloc_zero [OF L(1) c(2)] obtain m where m: "realloc ?p 0 (machine d) = returns (0, m)"
    "rep m (L(?p := None))" "keeps (L(?p := None)) (mem (machine d)) (mem m)" by blast
  define d1 where "d1 = d\<lparr>machine := m, ranges := remove_from ?p (ranges d)\<rparr>"
  define d2 where "d2 = d1\<lparr>trace := ?t\<lparr>blocks := (blocks ?t)[i := 0], block_sizes := (block_sizes ?t)[i := 0]\<rparr>\<rparr>"
  define bases where "bases = (if debug_mode cfg = DBG_NONE then block_rand_base ?t
    else (block_rand_base ?t)[i := random cfg (drawn d)])"
  define d3 where "d3 = d2\<lparr>trace := (trace d2)\<lparr>block_rand_base := bases\<rparr>,
    drawn := (if debug_mode cfg = DBG_NONE then drawn d else drawn d + 1)\<rparr>"
  have entries: "entry (blocks ?t) (int i) = Inr ?p" "entry (block_sizes ?t) (int i) = Inr (block_sizes ?t ! i)"
    using lens c(1) by (simp_all add: entry_def aget_def)
  have small: "(0 :: u64) < block_sizes ?t ! i" using c(3) by (simp add: word_less_nat_alt)
  have rem: "remember (int i) 0 0 d1 = Inr d2" "remember (int i) 0 0 d2 = Inr d2"
    using remember_ok [of d1 i 0 0] remember_ok [of d2 i 0 0] lens c(1) by (simp_all add: d1_def d2_def)
  have check: "check_index cfg k (int i) d2 = Inr d2"
    using lens c(1) by (simp add: check_index_def Let_def entry_def aget_def d2_def)
  have rand: "randomize_block cfg (int i) d2 = Inr d3"
    using lens c(1) by (simp add: randomize_block_def Let_def entry_def aget_def set_entry_def aset_def d1_def d2_def d3_def bases_def)
  have run: "realloc_step pkg cfg k (int i) 0 d = returns (True, d3)"
    using check_live [OF assms, of k] entries m(1) small rem check rand
    by (simp add: realloc_step_def on_machine_def pkg_def remove_range_def Let_def d1_def)
  moreover have "tracked cfg (mem m) (trace d3) (ranges d3) (L(?p := None)) (A - {i})"
  proof -
    have "tracked cfg (mem m) ?t (remove_from ?p (ranges d)) (L(?p := None)) (A - {i})"
      by (rule tracked_keeps [OF tracked_remove [OF L(2) assms(2)] m(3)])
    then have "tracked cfg (mem m) (trace d3) (remove_from ?p (ranges d)) (L(?p := None)) (A - {i})"
      by (rule tracked_update [where i = i and p = 0 and sz = 0 and bases = bases])
        (use lens in \<open>auto simp: d1_def d2_def d3_def bases_def intro!: nth_list_update_neq\<close>)
    then show ?thesis by (simp add: d1_def d2_def d3_def)
  qed
  then have "good cfg d3 (A - {i})" using len m(2) by (auto simp: good_def d1_def d2_def d3_def)
  ultimately show ?thesis by (intro served_ok [of _ d3]) (simp_all add: d1_def d2_def d3_def)
qed

lemma realloc_served:
  assumes good: "good cfg d A" and i: "i \<in> A" and sz: "0 < unat sz" "unat sz < 2 ^ 31"
  shows "served cfg k d A (realloc_step pkg cfg k (int i) sz d)"
proof -
  obtain L where L: "rep (machine d) L" "tracked cfg (mem (machine d)) (trace d) (ranges d) L A"
    and len: "length (random_data cfg) = RANDOM_DATA_LEN" using good by (auto simp: good_def)
  let ?t = "trace d" let ?p = "blocks ?t ! i" and ?old = "block_sizes ?t ! i"
  obtain c where c: "i < num_ids ?t" "L ?p = Some c" "unat ?old \<le> c"
    "debug_mode cfg \<noteq> DBG_NONE \<Longrightarrow> \<forall>k < unat ?old. mem (machine d) (?p + k) = random_bytes cfg (block_rand_base ?t ! i) k"
    using tracked_entry [OF L(2) i] by blast
  have lens: "length (blocks ?t) = num_ids ?t" "length (block_sizes ?t) = num_ids ?t" "length (block_rand_base ?t) = num_ids ?t"
    using L(2) by (auto simp: tracked_def)
  have nz: "sz \<noteq> 0" using sz(1) by auto
  have "unat sz + overhead + 15 < 2 ^ 64" using small_overhead sz by simp
  from realloc_ok [OF L(1) c(2) sz(1) this] obtain q m where m: "realloc ?p sz (machine d) = returns (q, m)"
    "if q = 0 then rep m L \<and> keeps L (mem (machine d)) (mem m)
     else (\<exists>e. unat sz \<le> e \<and> rep m (L(?p := None, q \<mapsto> e)) \<and> (q = ?p \<or> L q = None) \<and>
       keeps (L(?p := None)) (mem (machine d)) (mem m) \<and>
       (\<forall>k < min c (unat sz). mem m (q + k) = mem (machine d) (?p + k)))" by blast
  have entries: "entry (blocks ?t) (int i) = Inr ?p" "entry (block_sizes ?t) (int i) = Inr ?old"
    using lens c(1) by (simp_all add: entry_def aget_def)
  have run: "on_machine (pkg_realloc pkg ?p sz) d = returns (q, d\<lparr>machine := m\<rparr>)"
    by (simp add: on_machine_def pkg_def m(1))
  show ?thesis
  proof (cases "q = 0")
    case True
    then show ?thesis using check_live [OF good i, of k] entries nz
      by (intro served_failed [of _ _ Realloc_Failed "d\<lparr>machine := m\<rparr>"]) (simp_all add: realloc_step_def run)
  next
    case False
    let ?L = "L(?p := None)" and ?rs = "remove_from ?p (ranges d)"
    obtain e where e: "unat sz \<le> e" "rep m (?L(q \<mapsto> e))" "?L q = None" "keeps ?L (mem (machine d)) (mem m)"
      "\<forall>k < min c (unat sz). mem m (q + k) = mem (machine d) (?p + k)" using False m(2) by auto
    have kept: "tracked cfg (mem m) ?t ?rs ?L (A - {i})"
      by (rule tracked_keeps [OF tracked_remove [OF L(2) i] e(4)])
    define rs1 where "rs1 = (if recording cfg ?t then \<lparr>lo = q, hi = q + unat sz - 1, range_index = int i\<rparr> # ?rs else ?rs)"
    define d1 where "d1 = d\<lparr>machine := m, ranges := rs1\<rparr>"
    define least_size where "least_size = (if sz < ?old then sz else ?old)"
    define d2 where "d2 = d1\<lparr>trace := ?t\<lparr>blocks := (blocks ?t)[i := q], block_sizes := (block_sizes ?t)[i := least_size]\<rparr>\<rparr>"
    define d3 where "d3 = d1\<lparr>trace := ?t\<lparr>blocks := (blocks ?t)[i := q], block_sizes := (block_sizes ?t)[i := sz]\<rparr>\<rparr>"
    have add: "add_range cfg q (int_of_size sz) k (int i) (d\<lparr>machine := m, ranges := ?rs\<rparr>) = Inr (True, d1)"
      using add_range_ok [of "d\<lparr>machine := m, ranges := ?rs\<rparr>" ?L q e cfg "mem m" "A - {i}" "unat sz" k "int i"] e kept sz
      by (simp add: int_of_size_small d1_def rs1_def)
    have rem: "remember (int i) q least_size d1 = Inr d2" "remember (int i) q sz d2 = Inr d3"
      using remember_ok [of d1 i q least_size] remember_ok [of d2 i q sz] lens c(1)
      by (simp_all add: d1_def d2_def d3_def)
    have least_le: "unat least_size \<le> min c (unat sz)" "unat least_size \<le> unat ?old"
      using c(3) by (auto simp: least_size_def word_less_nat_alt)
    have check: "check_index cfg k (int i) d2 = Inr d2"
    proof (rule check_index_ok [OF len])
      show "mapped (machine d2) (blocks (trace d2) ! i) (unat (block_sizes (trace d2) ! i))"
        using mapped_sub [OF payload_mapped [OF e(2), of q e], of q "unat least_size"] least_le e(1) lens c(1)
        by (simp add: d1_def d2_def)
      show "\<forall>k < unat (block_sizes (trace d2) ! i). mem (machine d2) (blocks (trace d2) ! i + k) =
          random_bytes cfg (block_rand_base (trace d2) ! i) k" if "debug_mode cfg \<noteq> DBG_NONE"
        using c(4) [OF that] e(5) least_le lens c(1) by (simp add: d1_def d2_def)
    qed (use lens c(1) in \<open>simp_all add: d2_def\<close>)
    have "\<exists>d'. randomize_block cfg (int i) d3 = Inr d' \<and> complaints d' = complaints d3 \<and>
        num_ids (trace d') = num_ids (trace d3) \<and> good cfg d' (insert i (A - {i}))"
      by (rule randomize_ok [OF len, of d3 ?L q e ?t ?rs "A - {i}" i sz])
        (use e kept c(1) sz in \<open>simp_all add: d1_def d3_def rs1_def\<close>)
    then obtain d' where d': "randomize_block cfg (int i) d3 = Inr d'" "complaints d' = complaints d3"
      "num_ids (trace d') = num_ids (trace d3)" "good cfg d' A" using i by (auto simp: insert_absorb)
    have "trace d1 = ?t" by (simp add: d1_def)
    then have "realloc_step pkg cfg k (int i) sz d = returns (True, d')"
      using check_live [OF good i, of k] entries False nz add rem check d'(1)
      by (simp add: realloc_step_def run remove_range_def Let_def word_neq_0_conv least_size_def [symmetric])
    then show ?thesis using d' by (intro served_ok [of _ d']) (simp_all add: d1_def d3_def)
  qed
qed

lemma valid_step_run:
  assumes "good cfg d A"
  shows "valid_step pkg cfg k r d = (case op_type r of
       ALLOC \<Rightarrow> alloc_step pkg cfg k (op_index r) (op_size r) d
     | REALLOC \<Rightarrow> realloc_step pkg cfg k (op_index r) (op_size r) d
     | FREE \<Rightarrow> free_step pkg cfg k (op_index r) d)"
proof -
  obtain L where "rep (machine d) L" using assms by (auto simp: good_def)
  then have "pkg_checkheap pkg (machine d) = returns (machine d)" by (simp add: pkg_def checkheap_ok)
  moreover have "d\<lparr>machine := machine d\<rparr> = d" by simp
  ultimately show ?thesis using check_ranges_ok [OF assms, of k]
    by (simp add: valid_step_def returns_def)
qed

lemma valid_loop_ok:
  "wf_ops (num_ids (trace d)) A rs \<Longrightarrow> good cfg d A \<Longrightarrow>
   only_out_of_memory d (valid_loop pkg cfg k rs d)"
proof (induction rs arbitrary: A d k)
  case (Cons r rs)
  let ?n = "num_ids (trace d)" and ?i = "nat (op_index r)"
  have "\<exists>B. served cfg k d B (valid_step pkg cfg k r d) \<and> wf_ops ?n B rs"
  proof (cases "op_type r")
    case ALLOC
    then have wf: "0 \<le> op_index r" "?i < ?n" "?i \<notin> A" "0 < unat (op_size r)" "unat (op_size r) < 2 ^ 31"
      "wf_ops ?n (insert ?i A) rs" using Cons.prems(1) by (simp_all add: Let_def)
    then show ?thesis using alloc_served [OF Cons.prems(2) wf(3,2,4,5), of k] ALLOC
      by (auto simp: valid_step_run [OF Cons.prems(2)])
  next
    case REALLOC
    then have wf: "0 \<le> op_index r" "?i \<in> A" "unat (op_size r) < 2 ^ 31"
      "wf_ops ?n (if op_size r = 0 then A - {?i} else A) rs" using Cons.prems(1) by (simp_all add: Let_def)
    show ?thesis
    proof (cases "op_size r = 0")
      case True
      then show ?thesis using realloc_zero_served [OF Cons.prems(2) wf(2), of k] REALLOC wf(1,4)
        by (auto simp: valid_step_run [OF Cons.prems(2)])
    next
      case False
      then have "0 < unat (op_size r)" by (simp add: unat_gt_0)
      from realloc_served [OF Cons.prems(2) wf(2) this wf(3), of k] False REALLOC wf(1,4) show ?thesis
        by (auto simp: valid_step_run [OF Cons.prems(2)])
    qed
  next
    case FREE
    then consider "op_index r = -1" "wf_ops ?n A rs" | "0 \<le> op_index r" "?i \<in> A" "wf_ops ?n (A - {?i}) rs"
      using Cons.prems(1) by (auto simp: Let_def)
    then show ?thesis
    proof cases
      case 1
      then show ?thesis using free_null_served [OF Cons.prems(2), of k] FREE
        by (auto simp: valid_step_run [OF Cons.prems(2)])
    next
      case 2
      then show ?thesis using free_served [OF Cons.prems(2) 2(2), of k] FREE
        by (auto simp: valid_step_run [OF Cons.prems(2)])
    qed
  qed
  then obtain B ok d1 where step: "valid_step pkg cfg k r d = returns (ok, d1)" "num_ids (trace d1) = ?n"
    "wf_ops ?n B rs" "if ok then complaints d1 = complaints d \<and> good cfg d1 B
      else \<exists>c \<in> {Malloc_Failed, Realloc_Failed}. complaints d1 = complaints d @ [(k, c)]"
    by (auto simp: served_def)
  show ?case
  proof (cases ok)
    case True
    with step have "wf_ops (num_ids (trace d1)) B rs" "good cfg d1 B" by simp_all
    note rest = Cons.IH [OF this, of "k + 1"]
    have "complaints d1 = complaints d" using True step(4) by simp
    note same = only_out_of_memory_cong [OF this]
    show ?thesis using rest True step(1) by (simp add: same)
  next
    case False
    with step show ?thesis unfolding only_out_of_memory_def by (intro exI [of _ False] exI [of _ d1]) auto
  qed
next
  case Nil
  then show ?case unfolding only_out_of_memory_def by (intro exI [of _ True] exI [of _ d]) simp
qed

text \<open>The whole run.\<close>

lemma eval_mm_valid_ok:
  assumes "region_ok (machine d)" "ranges d = []" "length (random_data cfg) = RANDOM_DATA_LEN"
    "length (block_rand_base (trace d)) = num_ids (trace d)" "wf_ops (num_ids (trace d)) {} (ops (trace d))"
  shows "only_out_of_memory d (eval_mm_valid pkg cfg d)"
proof -
  let ?m = "mem_reset_brk True (machine d)" and ?t = "reinit_trace (trace d)"
  have "region_ok ?m" "mem_brk ?m = heap ?m" using assms(1) by (simp_all add: mem_reset_brk_def region_ok_def)
  from init_ok [OF this] obtain m where m: "init ?m = returns (True, m)" "rep m Map.empty" by blast
  let ?d = "d\<lparr>trace := ?t, machine := m\<rparr>"
  have "tracked cfg (mem m) ?t [] Map.empty {}" using assms(4) by (simp add: tracked_def reinit_trace_def)
  then have "good cfg ?d {}" using m(2) assms(2,3) by (auto simp: good_def)
  moreover have "wf_ops (num_ids (trace ?d)) {} (ops ?t)" using assms(5) by (simp add: reinit_trace_def)
  ultimately have "only_out_of_memory ?d (valid_loop pkg cfg 0 (ops ?t) ?d)" using valid_loop_ok by blast
  moreover have "eval_mm_valid pkg cfg d = valid_loop pkg cfg 0 (ops ?t) ?d"
    by (simp add: eval_mm_valid_def on_machine_def m(1) Let_def) (simp add: pkg_def m(1))
  ultimately show ?thesis using only_out_of_memory_cong [of d ?d] by simp
qed

end

section \<open>Properties\<close>

definition sample_trace :: trace_t where
  "sample_trace = \<lparr>ignore_ranges = False, num_ids = 2,
     ops = [\<lparr>op_type = ALLOC, op_index = 0, op_size = 100\<rparr>, \<lparr>op_type = ALLOC, op_index = 1, op_size = 24\<rparr>,
       \<lparr>op_type = REALLOC, op_index = 0, op_size = 5000\<rparr>, \<lparr>op_type = FREE, op_index = 1, op_size = 0\<rparr>],
     blocks = [0, 0], block_sizes = [0, 0], block_rand_base = [0, 0]\<rparr>"

definition sample_settings :: settings where
  "sample_settings = \<lparr>debug_mode = DBG_EXPENSIVE, random_data = replicate RANDOM_DATA_LEN 7, random = (\<lambda>k. k * 31)\<rparr>"

definition driver_on :: "'s memlib_scheme \<Rightarrow> 's driver" where
  "driver_on m = \<lparr>machine = m, complaints = [], ranges = [], trace = sample_trace, drawn = 0\<rparr>"

text \<open>The test for overlaps only looks whether an end of the new payload lies in a recorded one: a payload
around a recorded one is accepted.\<close>

theorem enclosing_range_accepted:
  assumes "ranges d = [\<lparr>lo = p + 16, hi = p + 31, range_index = 0\<rparr>]" "16 dvd p" "0 < p"
    "heap (machine d) \<le> p" "p + 48 \<le> mem_brk (machine d)"
  shows "\<exists>d'. add_range cfg p 48 opnum 1 d = Inr (True, d') \<and> complaints d' = complaints d"
proof -
  have "IS_ALIGNED p" using assms(2) by (simp add: IS_ALIGNED_def dvd_eq_mod_eq_0)
  moreover have "\<not> (p < mem_heap_lo (machine d) \<or> mem_heap_hi (machine d) < p \<or> p + 47 < mem_heap_lo (machine d)
      \<or> mem_heap_hi (machine d) < p + 47)"
    using assms(4,5) unfolding mem_heap_lo_def mem_heap_hi_def by arith
  moreover have "p + nat 48 - 1 = p + 47" by simp
  ultimately show ?thesis using assms(1)
    by (simp add: add_range_def Let_def overlaps_def c_assert_def)
qed

lemma enclosing_range_accepted_witness:
  "\<exists>d'. add_range sample_settings 32 48 0 1
      (driver_on \<lparr>heap = 16, mem_brk = 200, mem = (\<lambda>_. 0)\<rparr> \<lparr>ranges := [\<lparr>lo = 48, hi = 63, range_index = 0\<rparr>]\<rparr>)
    = Inr (True, d')"
proof -
  let ?d = "driver_on \<lparr>heap = 16, mem_brk = 200, mem = (\<lambda>_. 0)\<rparr> \<lparr>ranges := [\<lparr>lo = 48, hi = 63, range_index = 0\<rparr>]\<rparr>"
  have "\<exists>d'. add_range sample_settings 32 48 0 1 ?d = Inr (True, d') \<and> complaints d' = complaints ?d"
    by (rule enclosing_range_accepted) (simp_all add: driver_on_def)
  then show ?thesis by blast
qed

end
