(* ===== verification/MmImplicit.thy ===== *)
theory MmImplicit
  imports TraceDriver
begin

text \<open>
  The implicit-list allocator (\<open>project03-wduan/src/mm-implicit.c\<close>): every function over the heap
  bytes and the two static pointers. Pointers are byte addresses, \<open>NULL\<close> is 0.
\<close>

section \<open>The allocator\<close>

record mm = memlib +
  mm_heap_first :: nat
  mm_heap_last :: nat

definition set_header :: "nat \<Rightarrow> u64 \<Rightarrow> bool \<Rightarrow> mm \<Rightarrow> mm result" where
  "set_header block sz alloc s = write64 block (header_word sz alloc) s"

text \<open>What \<open>find_fit\<close> does with the block it has found: the rest becomes a block if it can be one.\<close>

definition split_block :: "u64 \<Rightarrow> nat \<Rightarrow> mm \<Rightarrow> (nat \<times> mm) result" where
  "split_block sz cur s =
     ebind (get_size s cur) (\<lambda>original_size.
       if round_up 8 ALIGNMENT \<le> original_size - sz then
         ebind (set_header cur sz False s) (\<lambda>s.
         ebind (get_size s cur) (\<lambda>n.
         let nxt = cur + unat n in
         ebind (set_header nxt (original_size - sz) False s) (\<lambda>s.
           Inr (cur, if mm_heap_last s < nxt then s\<lparr>mm_heap_last := nxt\<rparr> else s))))
       else Inr (cur, s))"

partial_function (option) find_fit_loop :: "u64 \<Rightarrow> nat \<Rightarrow> mm \<Rightarrow> (nat \<times> mm) run" where
  "find_fit_loop sz cur s =
     (if mm_heap_last s \<noteq> 0 \<and> cur \<le> mm_heap_last s then
        rbind (Some (is_allocated s cur)) (\<lambda>used.
        rbind (Some (get_size s cur)) (\<lambda>n.
          if \<not> used \<and> sz \<le> n then Some (split_block sz cur s)
          else find_fit_loop sz (cur + unat n) s))
      else returns (0, s))"

definition find_fit :: "u64 \<Rightarrow> mm \<Rightarrow> (nat \<times> mm) run" where
  "find_fit sz s = find_fit_loop sz (mm_heap_first s) s"

text \<open>The inner loop of \<open>coalesce\<close>; it reads the header at \<open>nxt\<close> before it compares \<open>nxt\<close> with the
last block.\<close>

partial_function (option) merge_loop :: "nat \<Rightarrow> nat \<Rightarrow> mm \<Rightarrow> mm run" where
  "merge_loop cur nxt s =
     rbind (Some (is_allocated s nxt)) (\<lambda>used.
       if \<not> used \<and> nxt \<le> mm_heap_last s \<and> mm_heap_last s \<noteq> 0 then
         rbind (Some (get_size s cur)) (\<lambda>n.
         rbind (Some (get_size s nxt)) (\<lambda>k.
         rbind (Some (set_header cur (n + k) False s)) (\<lambda>s.
         rbind (Some (get_size s cur)) (\<lambda>n. merge_loop cur (cur + unat n) s))))
       else returns s)"

partial_function (option) coalesce_loop :: "nat \<Rightarrow> mm \<Rightarrow> mm run" where
  "coalesce_loop cur s =
     (if mm_heap_last s \<noteq> 0 \<and> cur \<le> mm_heap_last s then
        rbind (Some (is_allocated s cur)) (\<lambda>used.
        rbind (if used then returns s
               else rbind (Some (get_size s cur)) (\<lambda>n. merge_loop cur (cur + unat n) s)) (\<lambda>s.
        rbind (Some (get_size s cur)) (\<lambda>n. coalesce_loop (cur + unat n) s)))
      else returns s)"

definition coalesce :: "mm \<Rightarrow> mm run" where
  "coalesce s = coalesce_loop (mm_heap_first s) s"

definition mm_init :: "mm \<Rightarrow> (bool \<times> mm) run" where
  "mm_init s =
     (case mem_sbrk (ALIGNMENT - 8) s of
        (None, s) \<Rightarrow> returns (False, s)
      | (Some padding, s) \<Rightarrow> returns (True, s\<lparr>mm_heap_first := 0, mm_heap_last := 0\<rparr>))"

definition mm_malloc :: "u64 \<Rightarrow> mm \<Rightarrow> (nat \<times> mm) run" where
  "mm_malloc sz s =
     rbind (coalesce s) (\<lambda>s.
     let sz = round_up (8 + sz) ALIGNMENT in
     rbind (find_fit sz s) (\<lambda>(block, s).
       if block \<noteq> 0 then
         rbind (Some (get_size s block)) (\<lambda>n.
         rbind (Some (set_header block n True s)) (\<lambda>s. returns (block + 8, s)))
       else
         (case mem_sbrk sz s of
            (None, s) \<Rightarrow> returns (0, s)
          | (Some block, s) \<Rightarrow>
              (let s = s\<lparr>mm_heap_first := (if mm_heap_first s = 0 then block else mm_heap_first s),
                         mm_heap_last := block\<rparr> in
               rbind (Some (set_header block sz True s)) (\<lambda>s. returns (block + 8, s))))))"

definition mm_free :: "nat \<Rightarrow> mm \<Rightarrow> mm run" where
  "mm_free ptr s =
     (if ptr = 0 then returns s
      else let block = block_from_payload ptr in
        rbind (Some (get_size s block)) (\<lambda>n. Some (set_header block n False s)))"

definition mm_realloc :: "nat \<Rightarrow> u64 \<Rightarrow> mm \<Rightarrow> (nat \<times> mm) run" where
  "mm_realloc old_ptr sz s =
     (if old_ptr = 0 then mm_malloc sz s
      else if sz = 0 then rbind (mm_free old_ptr s) (\<lambda>s. returns (0, s))
      else let block = block_from_payload old_ptr in
        rbind (Some (get_size s block)) (\<lambda>n.
          if round_up (8 + sz) ALIGNMENT \<le> n then returns (old_ptr, s)
          else rbind (mm_malloc sz s) (\<lambda>(new_payload, s).
            if new_payload = 0 then returns (0, s)
            else rbind (Some (get_size s block)) (\<lambda>n.
                 rbind (Some (memcpy new_payload old_ptr (unat (n - 8)) s)) (\<lambda>s.
                 rbind (mm_free old_ptr s) (\<lambda>s.
                   returns (block_from_payload new_payload + 8, s)))))))"

definition mm_calloc :: "u64 \<Rightarrow> u64 \<Rightarrow> mm \<Rightarrow> (nat \<times> mm) run" where
  "mm_calloc nmemb sz s =
     (let total_size = nmemb * sz in
      if total_size = 0 then returns (0, s)
      else rbind (mm_malloc total_size s) (\<lambda>(payload, s).
           rbind (Some (memset payload 0 (unat total_size) s)) (\<lambda>s. returns (payload, s))))"

definition mm_checkheap :: "mm \<Rightarrow> mm run" where
  "mm_checkheap s = returns s"

section \<open>Blocks in the heap\<close>

text \<open>The header of a block is all the allocator keeps of it.\<close>

definition headed :: "(nat \<Rightarrow> u8) \<Rightarrow> nat \<Rightarrow> block \<Rightarrow> bool" where
  "headed m a b \<longleftrightarrow> word_at m a = header_word (of_nat (fst b)) (snd b)"

text \<open>The blocks from \<open>a\<close> on, and one word behind them, are mapped.\<close>

definition within :: "'a memlib_scheme \<Rightarrow> nat \<Rightarrow> block list \<Rightarrow> bool" where
  "within s a bs \<longleftrightarrow>
     0 < heap s \<and> heap s \<le> a \<and> a + span bs + 8 \<le> heap s + MAX_HEAP \<and> heap s + MAX_HEAP < 2 ^ 63"

text \<open>\<open>mm_heap_last\<close> lies in the last block, at its start or, after merging, behind it.\<close>

definition last_in :: "nat \<Rightarrow> nat \<Rightarrow> block list \<Rightarrow> bool" where
  "last_in l a bs \<longleftrightarrow> bs \<noteq> [] \<and> a + span (butlast bs) \<le> l \<and> l < a + span bs"

lemma last_in_Cons [simp]:
  "last_in l a (b # bs) \<longleftrightarrow> (if bs = [] then a \<le> l \<and> l < a + fst b else last_in l (a + fst b) bs)"
  by (auto simp: last_in_def)

lemma last_in_bounds: "last_in l a bs \<Longrightarrow> a \<le> l \<and> l < a + span bs"
  by (auto simp: last_in_def)

lemma size_exact:
  assumes "within s a bs" "n \<in> fst ` set bs"
  shows "unat (of_nat n :: u64) = n"
proof -
  have "n \<le> span bs" using assms(2) by (simp add: span_def member_le_sum_list)
  then have "n < 2 ^ 64" using assms(1) by (simp add: within_def)
  then show ?thesis by (simp add: unat_of_nat take_bit_nat_eq_self)
qed

lemma block_header_at:
  assumes "chain (headed (mem s)) a ((n, u) # bs)" "ok_sizes 16 ((n, u) # bs)" "within s a ((n, u) # bs)"
  shows "get_size s a = Inr (of_nat n)" "is_allocated s a = Inr u"
proof -
  have n: "unat (of_nat n :: u64) = n" by (rule size_exact [OF assms(3)]) simp
  have "even n" using assms(2) by (auto elim: dvd_trans [rotated])
  moreover have "read64 s a = Inr (header_word (of_nat n) u)"
    using assms(1,3) by (simp add: read64_eq mapped_def within_def headed_def)
  ultimately show "get_size s a = Inr (of_nat n)" "is_allocated s a = Inr u"
    by (simp_all add: get_size_def is_allocated_def size_bits_header alloc_bit_header n)
qed

lemma set_header_at:
  "within s a bs \<Longrightarrow> set_header a w u s = Inr (s\<lparr>mem := put_word a (header_word w u) (mem s)\<rparr>)"
  by (simp add: set_header_def write64_eq mapped_def within_def)

lemma chain_put_before:
  assumes "chain (headed m) b bs" "ok_sizes 16 bs" "a + 8 \<le> b"
  shows "chain (headed (put_word a w m)) b bs"
proof -
  have "chain (headed m) b bs = chain (headed (put_word a w m)) b bs"
    by (rule chain_cong) (use assms in \<open>auto simp: headed_def word_at_put_other\<close>)
  with assms(1) show ?thesis by simp
qed

lemma chain_put_behind:
  assumes "chain (headed m) b bs" "ok_sizes 16 bs" "b + span bs \<le> a"
  shows "chain (headed (put_word a w m)) b bs"
proof -
  have "headed m c (n, u) = headed (put_word a w m) c (n, u)"
    if "c + n \<le> b + span bs" "(n, u) \<in> set bs" for c n u
  proof -
    have "16 \<le> n" using that(2) assms(2) by (auto simp: ok_sizes_def)
    then show ?thesis using that(1) assms(3) by (simp add: headed_def word_at_put_other)
  qed
  then have "chain (headed m) b bs = chain (headed (put_word a w m)) b bs" by (intro chain_cong) blast
  with assms(1) show ?thesis by simp
qed

section \<open>Coalescing\<close>

abbreviation free_block :: "block \<Rightarrow> bool" where "free_block b \<equiv> \<not> snd b"

function merge :: "block list \<Rightarrow> block list" where
  "merge [] = []"
| "merge ((n, True) # bs) = (n, True) # merge bs"
| "merge ((n, False) # bs) = (n + span (takeWhile free_block bs), False) # merge (dropWhile free_block bs)"
  by pat_completeness auto
termination by (relation "measure length") (auto simp: le_imp_less_Suc length_dropWhile_le)

lemma merge_loop_ok:
  assumes "chain (headed (mem s)) a ((n, False) # bs)" "ok_sizes 16 ((n, False) # bs)"
    "within s a ((n, False) # bs)" "last_in (mm_heap_last s) a ((n, False) # bs)"
  shows "\<exists>m. merge_loop a (a + n) s = returns (s\<lparr>mem := m\<rparr>) \<and>
    (\<forall>x. x < a \<or> a + 8 \<le> x \<longrightarrow> m x = mem s x) \<and>
    chain (headed m) a ((n + span (takeWhile free_block bs), False) # dropWhile free_block bs)"
  using assms
proof (induction bs arbitrary: n s)
  case Nil
  have "mapped s (a + n) 8" using Nil.prems(3) by (simp add: mapped_def within_def)
  then have "merge_loop a (a + n) s = returns s"
    using Nil.prems(4) by (simp add: merge_loop.simps is_allocated_def read64_eq)
  with Nil.prems(1) show ?case by (intro exI [of _ "mem s"]) simp
next
  case (Cons b bs)
  obtain k u where b: "b = (k, u)" by (cases b)
  have tail: "chain (headed (mem s)) (a + n) ((k, u) # bs)" "ok_sizes 16 ((k, u) # bs)"
    "within s (a + n) ((k, u) # bs)"
    using Cons.prems by (simp_all add: b within_def)
  have nxt: "is_allocated s (a + n) = Inr u" "get_size s (a + n) = Inr (of_nat k)"
    using block_header_at [OF tail] by simp_all
  show ?case
  proof (cases u)
    case True
    then have "merge_loop a (a + n) s = returns s" by (simp add: merge_loop.simps nxt)
    with Cons.prems(1) True show ?thesis by (intro exI [of _ "mem s"]) (simp add: b)
  next
    case False
    define s1 where "s1 = s\<lparr>mem := put_word a (header_word (of_nat (n + k)) False) (mem s)\<rparr>"
    have last: "a + n \<le> mm_heap_last s" "mm_heap_last s \<noteq> 0"
      using Cons.prems(3,4) last_in_bounds [of "mm_heap_last s" "a + n" "b # bs"]
      by (auto simp: within_def split: if_splits)
    have pre: "chain (headed (mem s1)) a ((n + k, False) # bs)" "ok_sizes 16 ((n + k, False) # bs)"
      "within s1 a ((n + k, False) # bs)" "last_in (mm_heap_last s1) a ((n + k, False) # bs)"
    proof -
      show "chain (headed (mem s1)) a ((n + k, False) # bs)"
        using tail(1,2) Cons.prems(2) chain_put_before [of "mem s" "a + n + k" bs a]
        by (simp add: s1_def headed_def add.assoc)
      show "ok_sizes 16 ((n + k, False) # bs)" using Cons.prems(2) by (simp add: b)
      show "within s1 a ((n + k, False) # bs)" using Cons.prems(3) by (simp add: b s1_def within_def)
      show "last_in (mm_heap_last s1) a ((n + k, False) # bs)"
        using Cons.prems(4) by (auto simp: b s1_def add.assoc split: if_splits)
    qed
    have "merge_loop a (a + n) s = merge_loop a (a + (n + k)) s1"
    proof -
      have "get_size s a = Inr (of_nat n)" using block_header_at [OF Cons.prems(1-3)] by simp
      moreover have "set_header a (of_nat n + of_nat k) False s = Inr s1"
        using set_header_at [OF Cons.prems(3)] by (simp add: s1_def)
      moreover have "get_size s1 a = Inr (of_nat (n + k))" using block_header_at [OF pre(1-3)] by simp
      moreover have "unat (of_nat (n + k) :: u64) = n + k" by (rule size_exact [OF pre(3)]) simp
      ultimately show ?thesis using last False by (subst merge_loop.simps) (simp add: nxt)
    qed
    moreover from Cons.IH [OF pre] obtain m where
      "merge_loop a (a + (n + k)) s1 = returns (s1\<lparr>mem := m\<rparr>)"
      "\<forall>x. x < a \<or> a + 8 \<le> x \<longrightarrow> m x = mem s1 x"
      "chain (headed m) a ((n + k + span (takeWhile free_block bs), False) # dropWhile free_block bs)"
      by blast
    ultimately show ?thesis using False by (intro exI [of _ m]) (simp add: b s1_def put_word_other add.assoc)
  qed
qed

lemma run_split: "takeWhile free_block bs @ dropWhile free_block bs = bs"
  by simp

lemma merge_shape:
  "span (merge bs) = span bs"
  "ok_sizes k bs \<Longrightarrow> ok_sizes k (merge bs)"
  "payloads ov a (merge bs) = payloads ov a bs"
  "merge bs = [] \<longleftrightarrow> bs = []"
proof -
  show "span (merge bs) = span bs"
  proof (induction bs rule: merge.induct)
    case (3 n bs)
    have "span (takeWhile free_block bs) + span (dropWhile free_block bs) = span bs"
      by (metis run_split span_simps(3))
    with 3 show ?case by simp
  qed simp_all
  show "ok_sizes k bs \<Longrightarrow> ok_sizes k (merge bs)"
  proof (induction bs rule: merge.induct)
    case (3 n bs)
    have parts: "ok_sizes k (takeWhile free_block bs)" "ok_sizes k (dropWhile free_block bs)"
      using 3 by (metis ok_sizes_simps(2,3) run_split)+
    have "16 dvd span (takeWhile free_block bs)"
      using parts(1) by (rule span_aligned)
    with 3 parts show ?case by auto
  qed simp_all
  show "payloads ov a (merge bs) = payloads ov a bs"
  proof (induction bs arbitrary: a rule: merge.induct)
    case (3 n bs)
    have "payloads ov (a + n) (takeWhile free_block bs) = []"
    proof -
      have "(p, c) \<notin> set (payloads ov (a + n) (takeWhile free_block bs))" for p c
      proof
        assume "(p, c) \<in> set (payloads ov (a + n) (takeWhile free_block bs))"
        then obtain xs k ys where "takeWhile free_block bs = xs @ (k, True) # ys" unfolding payloads_split by blast
        then have "(k, True) \<in> set (takeWhile free_block bs)" by simp
        then show False by (auto dest: set_takeWhileD)
      qed
      then show ?thesis by (metis list.set_intros(1) neq_Nil_conv surj_pair)
    qed
    then have "payloads ov (a + n) bs = payloads ov (a + n + span (takeWhile free_block bs)) (dropWhile free_block bs)"
      by (metis append_Nil payloads_append run_split)
    with 3 show ?case by (simp add: add.assoc)
  qed simp_all
  show "merge bs = [] \<longleftrightarrow> bs = []" by (cases bs rule: merge.cases) simp_all
qed

lemma last_in_append: "ys \<noteq> [] \<Longrightarrow> last_in l a (xs @ ys) \<longleftrightarrow> last_in l (a + span xs) ys"
  by (simp add: last_in_def butlast_append add.assoc)

lemma last_in_dropWhile:
  "dropWhile P bs \<noteq> [] \<Longrightarrow> last_in l a bs \<longleftrightarrow> last_in l (a + span (takeWhile P bs)) (dropWhile P bs)"
  using last_in_append [of "dropWhile P bs" l a "takeWhile P bs"] by simp

lemma last_in_merge: "last_in l a bs \<Longrightarrow> last_in l a (merge bs)"
proof (induction bs arbitrary: a rule: merge.induct)
  case (3 n bs)
  let ?t = "takeWhile free_block bs" and ?d = "dropWhile free_block bs"
  show ?case
  proof (cases "?d = []")
    case True
    then have t: "?t = bs" by (metis append_Nil2 run_split)
    have "merge ((n, False) # bs) = [(n + span bs, False)]" unfolding merge.simps t True by simp
    moreover have "a \<le> l" "l < a + n + span bs"
      using 3(2) last_in_bounds [of l "a + n" bs] by (auto split: if_splits)
    ultimately show ?thesis by (simp add: add.assoc)
  next
    case False
    then have "last_in l (a + n + span ?t) ?d"
      using 3(2) last_in_dropWhile [OF False, of l "a + n"] by (auto split: if_splits)
    with 3 False show ?thesis by (auto simp: merge_shape add.assoc)
  qed
qed (auto simp: merge_shape)

text \<open>The loop over the blocks: it merges every run of free blocks and changes nothing but headers.\<close>

lemma coalesce_loop_ok:
  assumes "chain (headed (mem s)) a bs" "ok_sizes 16 bs" "within s a bs"
    "if bs = [] then mm_heap_last s < a else last_in (mm_heap_last s) a bs"
  shows "\<exists>m. coalesce_loop a s = returns (s\<lparr>mem := m\<rparr>) \<and> (\<forall>x < a. m x = mem s x) \<and>
    same_payloads 8 a bs (mem s) m \<and> chain (headed m) a (merge bs)"
  using assms
proof (induction bs arbitrary: a s rule: merge.induct)
  case 1
  then show ?case by (intro exI [of _ "mem s"]) (simp add: coalesce_loop.simps)
next
  case (2 n bs)
  have in_bs: "mm_heap_last s \<noteq> 0" "a \<le> mm_heap_last s"
    using "2.prems"(3,4) last_in_bounds [of "mm_heap_last s" a "(n, True) # bs"] unfolding within_def by force+
  have "unat (of_nat n :: u64) = n" by (rule size_exact [OF "2.prems"(3)]) simp
  then have step: "coalesce_loop a s = coalesce_loop (a + n) s"
    using block_header_at [OF "2.prems"(1-3)] in_bs by (subst coalesce_loop.simps) simp
  have "\<exists>m. coalesce_loop (a + n) s = returns (s\<lparr>mem := m\<rparr>) \<and> (\<forall>x < a + n. m x = mem s x) \<and>
    same_payloads 8 (a + n) bs (mem s) m \<and> chain (headed m) (a + n) (merge bs)"
    by (rule "2.IH") (use "2.prems" in \<open>auto simp: within_def split: if_splits\<close>)
  then obtain m where m: "coalesce_loop (a + n) s = returns (s\<lparr>mem := m\<rparr>)" "\<forall>x < a + n. m x = mem s x"
    "same_payloads 8 (a + n) bs (mem s) m" "chain (headed m) (a + n) (merge bs)" by blast
  have "16 \<le> n" using "2.prems"(2) by simp
  then have "word_at m a = word_at (mem s) a" using m(2) by (intro word_at_cong) simp
  then have "headed m a (n, True)" using "2.prems"(1) by (simp add: headed_def)
  with m step \<open>16 \<le> n\<close> show ?case by (intro exI [of _ m]) simp
next
  case (3 n bs)
  let ?t = "takeWhile free_block bs" and ?d = "dropWhile free_block bs"
  let ?k = "n + span ?t"
  have in_bs: "mm_heap_last s \<noteq> 0" "a \<le> mm_heap_last s"
    using "3.prems"(3,4) last_in_bounds [of "mm_heap_last s" a "(n, False) # bs"] unfolding within_def by force+
  have parts: "span ?t + span ?d = span bs" "ok_sizes 16 ?t" "ok_sizes 16 ?d"
    using "3.prems"(2) by (metis run_split span_simps(3) ok_sizes_simps(2,3))+
  have n: "unat (of_nat n :: u64) = n" by (rule size_exact [OF "3.prems"(3)]) simp
  have last: "last_in (mm_heap_last s) a ((n, False) # bs)" using "3.prems"(4) by simp
  obtain m where m: "merge_loop a (a + n) s = returns (s\<lparr>mem := m\<rparr>)"
    "\<forall>x. x < a \<or> a + 8 \<le> x \<longrightarrow> m x = mem s x" "chain (headed m) a ((?k, False) # ?d)"
    using merge_loop_ok [OF "3.prems"(1-3) last] by blast
  let ?s = "s\<lparr>mem := m\<rparr>"
  have merged: "chain (headed (mem ?s)) a ((?k, False) # ?d)" "ok_sizes 16 ((?k, False) # ?d)"
    "within ?s a ((?k, False) # ?d)"
    using m(3) "3.prems"(2,3) parts span_aligned [OF parts(2)] by (simp_all add: within_def add.assoc)
  have k: "unat (of_nat ?k :: u64) = ?k" by (rule size_exact [OF merged(3)]) simp
  have step: "coalesce_loop a s = coalesce_loop (a + ?k) ?s"
    using block_header_at [OF "3.prems"(1-3)] block_header_at [OF merged] in_bs k n m(1)
    by (subst coalesce_loop.simps) simp
  have "\<exists>m'. coalesce_loop (a + ?k) ?s = returns (?s\<lparr>mem := m'\<rparr>) \<and> (\<forall>x < a + ?k. m' x = mem ?s x) \<and>
    same_payloads 8 (a + ?k) ?d (mem ?s) m' \<and> chain (headed m') (a + ?k) (merge ?d)"
  proof (rule "3.IH")
    show "if ?d = [] then mm_heap_last ?s < a + ?k else last_in (mm_heap_last ?s) (a + ?k) ?d"
    proof (cases "?d = []")
      case True
      with last parts(1) last_in_bounds [OF last] show ?thesis by simp
    next
      case False
      have "last_in (mm_heap_last s) (a + n) bs" using last False by (auto split: if_splits)
      then have "last_in (mm_heap_last ?s) (a + n + span ?t) ?d" using last_in_dropWhile [OF False] by simp
      with False show ?thesis by (auto simp: add.assoc)
    qed
  qed (use merged in \<open>simp_all add: within_def add.assoc\<close>)
  then obtain m' where m': "coalesce_loop (a + ?k) ?s = returns (?s\<lparr>mem := m'\<rparr>)"
    "\<forall>x < a + ?k. m' x = m x" "same_payloads 8 (a + ?k) ?d m m'" "chain (headed m') (a + ?k) (merge ?d)"
    by auto
  have "16 \<le> n" using "3.prems"(2) by simp
  then have "word_at m' a = word_at m a" using m'(2) by (intro word_at_cong) simp
  then have "headed m' a (?k, False)" using m(3) by (simp add: headed_def)
  then have "chain (headed m') a (merge ((n, False) # bs))" using m'(4) by simp
  moreover have "same_payloads 8 a ((n, False) # bs) (mem s) m'"
  proof -
    have "payloads 8 a ((n, False) # bs) = payloads 8 a (merge ((n, False) # bs))" by (simp only: merge_shape)
    then have "same_payloads 8 a ((n, False) # bs) m m'" using m'(3)
      by (simp add: same_payloads_def) (simp add: merge_shape)
    moreover have "same_payloads 8 a ((n, False) # bs) (mem s) m"
    proof -
      have "same_payloads 8 (a + n) bs (mem s) m"
      proof (rule same_payloads_outside)
        fix x assume "m x \<noteq> mem s x"
        then have "\<not> (x < a \<or> a + 8 \<le> x)" using m(2) by blast
        then show "x < a + n + 8 \<or> a + n + span bs \<le> x" by simp
      qed (use "3.prems"(2) in \<open>auto simp: ok_sizes_def\<close>)
      then show ?thesis by simp
    qed
    ultimately show ?thesis by (rule same_payloads_trans [rotated])
  qed
  ultimately show ?case using m'(1,2) m(2) step by (intro exI [of _ m']) auto
qed

section \<open>Finding a block\<close>

text \<open>The first free block of at least \<open>k\<close> bytes, split if the rest can be a block, and allocated: its
offset and the new row.\<close>

fun first_fit :: "nat \<Rightarrow> block list \<Rightarrow> (nat \<times> block list) option" where
  "first_fit k [] = None"
| "first_fit k ((n, u) # bs) =
     (if \<not> u \<and> k \<le> n
      then Some (0, (if 16 \<le> n - k then [(k, True), (n - k, False)] else [(n, True)]) @ bs)
      else map_option (\<lambda>(off, bs'). (n + off, (n, u) # bs')) (first_fit k bs))"

text \<open>What a search that ends with \<open>r\<close> has done, once the block it found is marked.\<close>

definition found :: "mm \<Rightarrow> nat \<Rightarrow> block list \<Rightarrow> nat \<Rightarrow> block list \<Rightarrow> (nat \<times> mm) run \<Rightarrow> bool" where
  "found s a bs off bs' r \<longleftrightarrow>
     (\<exists>s1 n m l. r = returns (a + off, s1) \<and> get_size s1 (a + off) = Inr n \<and>
        set_header (a + off) n True s1 = Inr (s\<lparr>mem := m, mm_heap_last := l\<rparr>) \<and>
        chain (headed m) a bs' \<and> last_in l a bs' \<and> same_payloads 8 a bs (mem s) m \<and> (\<forall>x < a. m x = mem s x))"

lemma word_of_sizes:
  assumes "within s a ((n, u) # bs)" "k \<le> n"
  shows "unat (of_nat k :: u64) = k" "unat (of_nat n :: u64) = n"
    "(of_nat n :: u64) - of_nat k = of_nat (n - k)" "unat (of_nat (n - k) :: u64) = n - k"
    "(of_nat k :: u64) \<le> of_nat n"
proof -
  have exact: "unat (of_nat j :: u64) = j" if "j \<le> n" for j
    using that assms(1) by (simp add: unat_of_nat take_bit_nat_eq_self within_def)
  show "unat (of_nat k :: u64) = k" "unat (of_nat n :: u64) = n" "unat (of_nat (n - k) :: u64) = n - k"
    by (rule exact, use assms(2) in simp)+
  then show "(of_nat n :: u64) - of_nat k = of_nat (n - k)" "(of_nat k :: u64) \<le> of_nat n"
    using assms(2) by (simp_all add: of_nat_diff word_le_nat_alt)
qed

lemma smallest_block: "round_up 8 ALIGNMENT = 16"
  by (simp add: round_up_def ALIGNMENT_def)

lemma same_payloads_put:
  assumes "ok_sizes 16 bs" "c \<le> a"
  shows "same_payloads 8 a bs m (put_word c w m)"
proof (rule same_payloads_outside)
  show "ok_sizes (8 + 1) bs" using assms(1) by (rule ok_sizes_mono) simp
  show "x < a + 8 \<or> a + span bs \<le> x" if "put_word c w m x \<noteq> m x" for x
    using that assms(2) put_word_other [of x c w m] by force
qed simp

lemma found_from:
  assumes "found s2 a bs2 off bs' r" "s2 = s\<lparr>mem := m2, mm_heap_last := l2\<rparr>" "\<forall>x < a. m2 x = mem s x"
    "\<And>m. same_payloads 8 a bs2 m2 m \<Longrightarrow> same_payloads 8 a bs (mem s) m"
  shows "found s a bs off bs' r"
proof -
  obtain s1 n m l where m: "r = returns (a + off, s1)" "get_size s1 (a + off) = Inr n"
    "set_header (a + off) n True s1 = Inr (s2\<lparr>mem := m, mm_heap_last := l\<rparr>)" "chain (headed m) a bs'"
    "last_in l a bs'" "same_payloads 8 a bs2 m2 m" "\<forall>x < a. m x = m2 x"
    using assms(1) by (auto simp: found_def assms(2))
  then show ?thesis unfolding found_def using assms(2-4)
    by (intro exI [of _ s1] exI [of _ n] exI [of _ m] exI [of _ l]) simp
qed

lemma take_whole:
  assumes "chain (headed (mem s)) a ((n, False) # bs)" "ok_sizes 16 ((n, False) # bs)"
    "within s a ((n, False) # bs)" "last_in (mm_heap_last s) a ((n, False) # bs)"
  shows "found s a ((n, False) # bs) 0 ((n, True) # bs) (returns (a, s))"
proof -
  let ?m = "put_word a (header_word (of_nat n) True) (mem s)"
  have bs: "16 \<le> n" "ok_sizes 16 bs" "chain (headed (mem s)) (a + n) bs" using assms(1,2) by simp_all
  have "chain (headed ?m) a ((n, True) # bs)"
    using bs chain_put_before [of "mem s" "a + n" bs a] by (simp add: headed_def)
  moreover have "same_payloads 8 a ((n, False) # bs) (mem s) ?m"
    using bs same_payloads_put by simp
  moreover have "\<forall>x < a. ?m x = mem s x" by (simp add: put_word_other)
  moreover have "last_in (mm_heap_last s) a ((n, True) # bs)" using assms(4) by (auto split: if_splits)
  ultimately show ?thesis
    using block_header_at [OF assms(1-3)] set_header_at [OF assms(3), of "of_nat n" True]
    unfolding found_def by (intro exI [of _ s] exI [of _ "of_nat n"] exI [of _ ?m] exI [of _ "mm_heap_last s"]) simp
qed

lemma split_block_ok:
  assumes "chain (headed (mem s)) a ((n, False) # bs)" "ok_sizes 16 ((n, False) # bs)"
    "within s a ((n, False) # bs)" "last_in (mm_heap_last s) a ((n, False) # bs)"
    and k: "16 dvd k" "16 \<le> k" "k \<le> n"
  shows "found s a ((n, False) # bs) 0
    ((if 16 \<le> n - k then [(k, True), (n - k, False)] else [(n, True)]) @ bs)
    (Some (split_block (of_nat k) a s))"
proof -
  note words = word_of_sizes [OF assms(3) k(3)]
  have fits: "round_up 8 ALIGNMENT \<le> (of_nat n :: u64) - of_nat k \<longleftrightarrow> 16 \<le> n - k"
    by (simp add: smallest_block words word_le_nat_alt)
  have size: "get_size s a = Inr (of_nat n)" using block_header_at [OF assms(1-3)] by simp
  show ?thesis
  proof (cases "16 \<le> n - k")
    case False
    then show ?thesis using take_whole [OF assms(1-4)] fits
      by (simp add: split_block_def size returns_def)
  next
    case True
    let ?m1 = "put_word a (header_word (of_nat k) False) (mem s)"
    let ?m2 = "put_word (a + k) (header_word (of_nat (n - k)) False) ?m1"
    let ?l = "if mm_heap_last s < a + k then a + k else mm_heap_last s"
    let ?s2 = "s\<lparr>mem := ?m2, mm_heap_last := ?l\<rparr>"
    have bs: "ok_sizes 16 bs" "chain (headed (mem s)) (a + n) bs" "16 dvd n - k" using assms(1,2) k by simp_all
    have in1: "within (s\<lparr>mem := ?m1\<rparr>) a ((k, False) # bs)" "within (s\<lparr>mem := ?m1\<rparr>) (a + k) ((n - k, False) # bs)"
      using assms(3) k(3) by (simp_all add: within_def)
    have "chain (headed ?m1) (a + n) bs" using chain_put_before [OF bs(2,1), of a] True by simp
    then have "chain (headed ?m2) (a + n) bs" using chain_put_before [of ?m1 "a + n" bs "a + k"] bs(1) True by simp
    moreover have "word_at ?m2 a = header_word (of_nat k) False" using k(2) by (simp add: word_at_put_other)
    ultimately have split: "chain (headed ?m2) a ((k, False) # (n - k, False) # bs)"
      using k(3) by (simp add: headed_def)
    have last: "last_in ?l a ((k, False) # (n - k, False) # bs)"
      using assms(4) k(3) True last_in_bounds [of "mm_heap_last s" "a + n" bs] by (auto split: if_splits)
    have size1: "get_size (s\<lparr>mem := ?m1\<rparr>) a = Inr (of_nat k)"
    proof -
      have "mapped s a 8" using assms(3) by (simp add: mapped_def within_def)
      moreover have "even k" using k(1) by (auto elim: dvd_trans [rotated])
      ultimately show ?thesis by (simp add: get_size_def read64_def mapped_def size_bits_header words(1))
    qed
    have header2: "set_header (a + k) (of_nat n - of_nat k) False (s\<lparr>mem := ?m1\<rparr>) = Inr (s\<lparr>mem := ?m2\<rparr>)"
      unfolding words(3) using set_header_at [OF in1(2)] by simp
    have run: "split_block (of_nat k) a s = Inr (a, ?s2)"
      unfolding split_block_def size ebind.simps fits if_P [OF True] set_header_at [OF assms(3)]
        size1 Let_def words(1) header2
      by (cases "mm_heap_last s < a + k") simp_all
    have taken: "found ?s2 a ((k, False) # (n - k, False) # bs) 0 ((k, True) # (n - k, False) # bs) (returns (a, ?s2))"
    proof (rule take_whole)
      show "within ?s2 a ((k, False) # (n - k, False) # bs)" using assms(3) k(3) by (simp add: within_def)
    qed (use split last k bs True in simp_all)
    have "same_payloads 8 (a + n) bs (mem s) ?m1" using same_payloads_put [OF bs(1)] by simp
    moreover have "same_payloads 8 (a + n) bs ?m1 ?m2" using same_payloads_put [OF bs(1)] k(3) by simp
    ultimately have kept: "same_payloads 8 (a + n) bs (mem s) ?m2" by (rule same_payloads_trans)
    have "found s a ((n, False) # bs) 0 ((k, True) # (n - k, False) # bs) (returns (a, ?s2))"
    proof (rule found_from [OF taken refl])
      show "\<forall>x < a. ?m2 x = mem s x" by (simp add: put_word_other)
    qed (use k(3) same_payloads_trans [OF kept] in simp)
    then show ?thesis unfolding run returns_def using True by simp
  qed
qed

lemma found_Cons:
  assumes "found s (a + n) bs off bs' r" "headed (mem s) a (n, u)" "16 \<le> n" "bs' \<noteq> []"
  shows "found s a ((n, u) # bs) (n + off) ((n, u) # bs') r"
proof -
  obtain s1 w m l where m: "r = returns (a + n + off, s1)" "get_size s1 (a + n + off) = Inr w"
    "set_header (a + n + off) w True s1 = Inr (s\<lparr>mem := m, mm_heap_last := l\<rparr>)"
    "chain (headed m) (a + n) bs'" "last_in l (a + n) bs'" "same_payloads 8 (a + n) bs (mem s) m"
    "\<forall>x < a + n. m x = mem s x"
    using assms(1) unfolding found_def by blast
  have "word_at m a = word_at (mem s) a" using m(7) assms(3) by (intro word_at_cong) simp
  then have "headed m a (n, u)" using assms(2) by (simp add: headed_def)
  moreover have "same_payloads 8 a ((n, u) # bs) (mem s) m" using m(6,7) assms(3) by simp
  ultimately show ?thesis unfolding found_def using m assms(4)
    by (intro exI [of _ s1] exI [of _ w] exI [of _ m] exI [of _ l]) (simp add: add.assoc)
qed

lemma first_fit_shape:
  "first_fit k bs = Some (off, bs') \<Longrightarrow> ok_sizes 16 bs \<Longrightarrow> 16 dvd k \<Longrightarrow> 16 \<le> k \<Longrightarrow>
     bs' \<noteq> [] \<and> span bs' = span bs \<and> ok_sizes 16 bs' \<and> off < span bs \<and>
     (\<exists>c. k \<le> c + 8 \<and> (\<forall>a. mset (payloads 8 a bs') = add_mset (a + off + 8, c) (mset (payloads 8 a bs))))"
proof (induction bs arbitrary: off bs')
  case (Cons b bs)
  obtain n u where b: "b = (n, u)" by (cases b)
  show ?case
  proof (cases "\<not> u \<and> k \<le> n")
    case True
    with Cons.prems show ?thesis
      by (intro conjI exI [of _ "(if 16 \<le> n - k then k else n) - 8"]) (auto simp: b split: if_splits)
  next
    case False
    with Cons.prems(1) obtain off1 bs1 where r: "first_fit k bs = Some (off1, bs1)" "off = n + off1"
      "bs' = (n, u) # bs1" by (auto simp: b split: if_splits)
    from Cons.IH [OF r(1)] Cons.prems obtain c where "bs1 \<noteq> []" "span bs1 = span bs" "ok_sizes 16 bs1"
      "off1 < span bs" "k \<le> c + 8"
      "\<And>a. mset (payloads 8 a bs1) = add_mset (a + off1 + 8, c) (mset (payloads 8 a bs))"
      by (auto simp: b)
    with r Cons.prems(2) show ?thesis by (intro conjI exI [of _ c]) (simp_all add: b add.assoc)
  qed
qed simp

text \<open>The loop finds the block the specification names.\<close>

lemma find_fit_loop_ok:
  assumes "chain (headed (mem s)) a bs" "ok_sizes 16 bs" "within s a bs"
    "if bs = [] then mm_heap_last s < a else last_in (mm_heap_last s) a bs"
    "16 dvd unat w" "16 \<le> unat w"
  shows "case first_fit (unat w) bs of
      None \<Rightarrow> find_fit_loop w a s = returns (0, s)
    | Some (off, bs') \<Rightarrow> found s a bs off bs' (find_fit_loop w a s)"
  using assms(1-4)
proof (induction bs arbitrary: a)
  case Nil
  then show ?case by (simp add: find_fit_loop.simps)
next
  case (Cons b bs)
  obtain n u where b: "b = (n, u)" by (cases b)
  note at = block_header_at [OF Cons.prems(1-3) [unfolded b]]
  have n: "unat (of_nat n :: u64) = n" by (rule size_exact [OF Cons.prems(3) [unfolded b]]) simp
  have in_bs: "mm_heap_last s \<noteq> 0" "a \<le> mm_heap_last s"
    using Cons.prems(3,4) last_in_bounds [of "mm_heap_last s" a "b # bs"] unfolding within_def by force+
  have fits: "w \<le> of_nat n \<longleftrightarrow> unat w \<le> n" by (simp add: word_le_nat_alt n)
  show ?case
  proof (cases "\<not> u \<and> unat w \<le> n")
    case True
    have "found s a ((n, False) # bs) 0
        ((if 16 \<le> n - unat w then [(unat w, True), (n - unat w, False)] else [(n, True)]) @ bs)
        (Some (split_block (of_nat (unat w)) a s))"
      by (rule split_block_ok) (use Cons.prems True assms(5,6) in \<open>simp_all add: b\<close>)
    moreover have "find_fit_loop w a s = Some (split_block w a s)"
      using True in_bs at fits by (subst find_fit_loop.simps) simp
    ultimately show ?thesis using True by (simp add: b)
  next
    case False
    then have step: "find_fit_loop w a s = find_fit_loop w (a + n) s"
      using in_bs at fits n by (subst find_fit_loop.simps) auto
    have IH: "case first_fit (unat w) bs of None \<Rightarrow> find_fit_loop w (a + n) s = returns (0, s)
        | Some (off, bs') \<Rightarrow> found s (a + n) bs off bs' (find_fit_loop w (a + n) s)"
      by (rule Cons.IH) (use Cons.prems in \<open>auto simp: b within_def split: if_splits\<close>)
    show ?thesis
    proof (cases "first_fit (unat w) bs")
      case None
      with False IH step show ?thesis by (auto simp: b)
    next
      case (Some r)
      obtain off bs' where r: "r = (off, bs')" by (cases r)
      have "bs' \<noteq> []" using first_fit_shape [OF Some [unfolded r]] Cons.prems(2) assms(5,6) by (simp add: b)
      then have "found s a ((n, u) # bs) (n + off) ((n, u) # bs') (find_fit_loop w (a + n) s)"
        using IH Some r Cons.prems(1,2) by (intro found_Cons) (simp_all add: b)
      with Some r False step show ?thesis by (auto simp: b)
    qed
  qed
qed

section \<open>The state of the allocator\<close>

definition mm_ok :: "mm \<Rightarrow> block list \<Rightarrow> bool" where
  "mm_ok s bs \<longleftrightarrow>
     region_ok s \<and> mem_brk s = heap s + 8 + span bs \<and> mem_brk s \<le> heap s + MAX_HEAP \<and>
     ok_sizes 16 bs \<and> chain (headed (mem s)) (heap s + 8) bs \<and>
     (if bs = [] then mm_heap_first s = 0 \<and> mm_heap_last s = 0
      else mm_heap_first s = heap s + 8 \<and> last_in (mm_heap_last s) (heap s + 8) bs)"

lemma mm_ok_within:
  assumes "mm_ok s bs"
  shows "within s (heap s + 8) bs"
proof -
  have "16 dvd span bs" using assms span_aligned by (auto simp: mm_ok_def)
  moreover have "8 + span bs \<le> MAX_HEAP" using assms by (simp add: mm_ok_def)
  moreover have "(16 :: nat) dvd MAX_HEAP" by (simp add: MAX_HEAP_def)
  ultimately have "8 + span bs + 8 \<le> MAX_HEAP" by presburger
  with assms show ?thesis by (simp add: mm_ok_def region_ok_def within_def)
qed

lemma coalesce_ok:
  assumes "mm_ok s bs"
  shows "\<exists>m. coalesce s = returns (s\<lparr>mem := m\<rparr>) \<and> mm_ok (s\<lparr>mem := m\<rparr>) (merge bs) \<and>
    same_payloads 8 (heap s + 8) bs (mem s) m"
proof (cases "bs = []")
  case True
  with assms show ?thesis
    by (intro exI [of _ "mem s"]) (simp add: coalesce_def coalesce_loop.simps mm_ok_def)
next
  case False
  with assms have ok: "chain (headed (mem s)) (heap s + 8) bs" "ok_sizes 16 bs"
    "if bs = [] then mm_heap_last s < heap s + 8 else last_in (mm_heap_last s) (heap s + 8) bs"
    "mm_heap_first s = heap s + 8" by (simp_all add: mm_ok_def)
  from coalesce_loop_ok [OF ok(1,2) mm_ok_within [OF assms] ok(3)] obtain m where
    "coalesce_loop (heap s + 8) s = returns (s\<lparr>mem := m\<rparr>)" "same_payloads 8 (heap s + 8) bs (mem s) m"
    "chain (headed m) (heap s + 8) (merge bs)" by blast
  with assms ok False show ?thesis
    by (intro exI [of _ m]) (simp add: coalesce_def mm_ok_def region_ok_def merge_shape last_in_merge)
qed

lemma find_fit_ok:
  assumes "mm_ok s bs" "16 dvd unat w" "16 \<le> unat w"
  shows "case first_fit (unat w) bs of
      None \<Rightarrow> find_fit w s = returns (0, s)
    | Some (off, bs') \<Rightarrow> found s (heap s + 8) bs off bs' (find_fit w s)"
proof (cases "bs = []")
  case True
  with assms(1) show ?thesis by (simp add: find_fit_def find_fit_loop.simps mm_ok_def)
next
  case False
  with assms(1) have ok: "chain (headed (mem s)) (heap s + 8) bs" "ok_sizes 16 bs"
    "if bs = [] then mm_heap_last s < heap s + 8 else last_in (mm_heap_last s) (heap s + 8) bs"
    "mm_heap_first s = heap s + 8" by (simp_all add: mm_ok_def)
  show ?thesis unfolding find_fit_def ok(4)
    by (rule find_fit_loop_ok [OF ok(1,2) mm_ok_within [OF assms(1)] ok(3) assms(2,3)])
qed

section \<open>Allocation\<close>

text \<open>The size of the block for a request, and what allocating it makes of the blocks.\<close>

definition block_need :: "nat \<Rightarrow> nat" where
  "block_need r = (8 + r + 15) div 16 * 16"

definition malloc_blocks :: "nat \<Rightarrow> block list \<Rightarrow> nat \<times> block list" where
  "malloc_blocks k bs =
     (case first_fit k (merge bs) of Some r \<Rightarrow> r | None \<Rightarrow> (span bs, merge bs @ [(k, True)]))"

lemma block_need_ok: "16 dvd block_need r" "16 \<le> block_need r" "r + 8 \<le> block_need r"
  unfolding block_need_def by simp_all

text \<open>Extending the heap when nothing fits.\<close>

lemma extend_ok:
  assumes "mm_ok s bs" "16 dvd k" "16 \<le> k" "mem_brk s + k \<le> heap s + MAX_HEAP"
    and s1: "s1 = s\<lparr>mem_brk := mem_brk s + k,
      mm_heap_first := (if mm_heap_first s = 0 then mem_brk s else mm_heap_first s),
      mm_heap_last := mem_brk s\<rparr>"
  shows "\<exists>s2. set_header (mem_brk s) (of_nat k) True s1 = Inr s2 \<and> mm_ok s2 (bs @ [(k, True)]) \<and>
    heap s2 = heap s \<and> same_payloads 8 (heap s + 8) bs (mem s) (mem s2)"
proof -
  let ?a = "heap s + 8"
  let ?m = "put_word (mem_brk s) (header_word (of_nat k) True) (mem s)"
  let ?s2 = "s1\<lparr>mem := ?m\<rparr>"
  have ok: "region_ok s" "mem_brk s = ?a + span bs" "ok_sizes 16 bs" "chain (headed (mem s)) ?a bs"
    using assms(1) by (simp_all add: mm_ok_def)
  have "mapped s1 (mem_brk s) 8" using assms(3,4) ok(2) by (simp add: s1 mapped_def)
  then have run: "set_header (mem_brk s) (of_nat k) True s1 = Inr ?s2"
    by (simp add: set_header_def write64_eq s1)
  have "chain (headed ?m) ?a bs" by (rule chain_put_behind [OF ok(4,3)]) (simp add: ok(2))
  then have chain: "chain (headed ?m) ?a (bs @ [(k, True)])" by (simp add: headed_def ok(2))
  have "same_payloads 8 ?a bs (mem s) ?m"
  proof (rule same_payloads_outside)
    show "x < ?a + 8 \<or> ?a + span bs \<le> x" if "?m x \<noteq> mem s x" for x
      using that put_word_other [of x "mem_brk s"] ok(2) by force
    show "ok_sizes (8 + 1) bs" using ok(3) by (rule ok_sizes_mono) simp
  qed simp
  moreover have "mm_ok ?s2 (bs @ [(k, True)])"
    by (cases "bs = []") (use assms ok chain in \<open>auto simp: s1 mm_ok_def region_ok_def last_in_def\<close>)
  ultimately show ?thesis using run by (intro exI [of _ ?s2]) (simp add: s1)
qed

text \<open>\<open>mm_malloc\<close> does to the heap what \<open>malloc_blocks\<close> does to its blocks, or returns \<open>NULL\<close>.\<close>

lemma malloc_refines:
  assumes "mm_ok s bs" "unat sz + 23 < 2 ^ 64" and r: "malloc_blocks (block_need (unat sz)) bs = (off, bs')"
  shows "\<exists>s'. heap s' = heap s \<and> same_payloads 8 (heap s + 8) bs (mem s) (mem s') \<and>
    (if 8 + span bs' \<le> MAX_HEAP
     then mm_malloc sz s = returns (heap s + 8 + off + 8, s') \<and> mm_ok s' bs'
     else mm_malloc sz s = returns (0, s') \<and> mm_ok s' (merge bs))"
proof -
  let ?w = "round_up (8 + sz) ALIGNMENT" and ?a = "heap s + 8"
  have w: "unat ?w = block_need (unat sz)"
    using round_up_exact [of sz 8] assms(2) by (simp add: block_need_def)
  have need: "16 dvd unat ?w" "16 \<le> unat ?w" unfolding w by (rule block_need_ok)+
  obtain m where m: "coalesce s = returns (s\<lparr>mem := m\<rparr>)" "mm_ok (s\<lparr>mem := m\<rparr>) (merge bs)"
    "same_payloads 8 ?a bs (mem s) m" using coalesce_ok [OF assms(1)] by blast
  let ?s = "s\<lparr>mem := m\<rparr>"
  note fit = find_fit_ok [OF m(2) need]
  have kept: "same_payloads 8 ?a bs (mem s) m'" if "same_payloads 8 ?a (merge bs) m m'" for m'
    using same_payloads_trans [OF m(3)] that by (simp add: same_payloads_def merge_shape)
  have ok: "region_ok s" "mem_brk s = ?a + span bs" "mem_brk s \<le> heap s + MAX_HEAP" "ok_sizes 16 (merge bs)"
    using assms(1) m(2) by (simp_all add: mm_ok_def region_ok_def)
  show ?thesis
  proof (cases "first_fit (unat ?w) (merge bs)")
    case None
    then have r': "off = span bs" "bs' = merge bs @ [(unat ?w, True)]"
      using r by (simp_all add: malloc_blocks_def w)
    have "find_fit ?w ?s = returns (0, ?s)" using fit None by simp
    then have run: "mm_malloc sz s = (case mem_sbrk ?w ?s of (None, s) \<Rightarrow> returns (0, s)
        | (Some block, s) \<Rightarrow>
            (let s = s\<lparr>mm_heap_first := (if mm_heap_first s = 0 then block else mm_heap_first s),
                       mm_heap_last := block\<rparr> in
             rbind (Some (set_header block ?w True s)) (\<lambda>s. returns (block + 8, s))))"
      by (simp add: mm_malloc_def m(1) Let_def)
    have sbrk: "mem_sbrk ?w ?s = (if 8 + span bs' \<le> MAX_HEAP
        then (Some (mem_brk s), ?s\<lparr>mem_brk := mem_brk s + unat ?w\<rparr>) else (None, ?s))"
      using ok mem_sbrk_eq [of ?s ?w] by (simp add: r' region_ok_def merge_shape)
    show ?thesis
    proof (cases "8 + span bs' \<le> MAX_HEAP")
      case True
      then have "mem_brk ?s + unat ?w \<le> heap ?s + MAX_HEAP" using ok by (simp add: r' merge_shape)
      from extend_ok [OF m(2) need this refl] obtain s2 where
        "set_header (mem_brk s) ?w True (?s\<lparr>mem_brk := mem_brk s + unat ?w,
          mm_heap_first := (if mm_heap_first s = 0 then mem_brk s else mm_heap_first s),
          mm_heap_last := mem_brk s\<rparr>) = Inr s2"
        "mm_ok s2 bs'" "heap s2 = heap s" "same_payloads 8 ?a (merge bs) m (mem s2)"
        by (auto simp: r' cong: if_cong)
      with True kept show ?thesis unfolding run sbrk
        by (cases "mm_heap_first s = 0"; intro exI [of _ s2]) (simp_all add: Let_def r' ok(2) returns_def)
    next
      case False
      then show ?thesis unfolding run sbrk using m(2,3) by (intro exI [of _ ?s]) simp
    qed
  next
    case (Some p)
    with r have p: "p = (off, bs')" by (simp add: malloc_blocks_def w)
    note shape = first_fit_shape [OF Some [unfolded p] ok(4) need]
    obtain s1 n m' l where f: "find_fit ?w ?s = returns (?a + off, s1)" "get_size s1 (?a + off) = Inr n"
      "set_header (?a + off) n True s1 = Inr (?s\<lparr>mem := m', mm_heap_last := l\<rparr>)"
      "chain (headed m') ?a bs'" "last_in l ?a bs'" "same_payloads 8 ?a (merge bs) m m'"
      using fit unfolding Some p by (auto simp: found_def)
    have "mm_malloc sz s = returns (?a + off + 8, ?s\<lparr>mem := m', mm_heap_last := l\<rparr>)"
      using f(1-3) by (simp add: mm_malloc_def m(1) Let_def)
    moreover have "bs \<noteq> []" using shape by (auto simp: merge_shape)
    then have "mm_ok (?s\<lparr>mem := m', mm_heap_last := l\<rparr>) bs'"
      using m(2) f(4,5) shape by (simp add: mm_ok_def region_ok_def merge_shape)
    moreover have "8 + span bs' \<le> MAX_HEAP" using shape ok by (simp add: merge_shape)
    ultimately show ?thesis using kept [OF f(6)]
      by (intro exI [of _ "?s\<lparr>mem := m', mm_heap_last := l\<rparr>"]) simp
  qed
qed

section \<open>Freeing\<close>

lemma mm_ok_sizes: "mm_ok s bs \<Longrightarrow> k \<le> 16 \<Longrightarrow> ok_sizes k bs"
  using ok_sizes_mono by (auto simp: mm_ok_def)

text \<open>A change between the header of one block and the next header.\<close>

lemma chain_changed_inside:
  assumes "chain (headed m) a (xs @ (n, u) # ys)" "ok_sizes 16 (xs @ (n, u) # ys)"
    "\<And>x. m' x \<noteq> m x \<Longrightarrow> a + span xs + 8 \<le> x \<and> x < a + span xs + n"
  shows "chain (headed m') a (xs @ (n, u) # ys)"
proof -
  have same: "m' x = m x" if "x < a + span xs + 8 \<or> a + span xs + n \<le> x" for x
    using assms(3) [of x] that by force
  have "chain (headed m') a xs = chain (headed m) a xs"
  proof (rule chain_cong)
    fix b k v assume b: "b + k \<le> a + span xs" "(k, v) \<in> set xs"
    then have "16 \<le> k" using assms(2) by (auto simp: ok_sizes_def)
    then have "word_at m' b = word_at m b" using b(1) same by (intro word_at_cong) simp
    then show "headed m' b (k, v) = headed m b (k, v)" by (simp add: headed_def)
  qed
  moreover have "headed m' (a + span xs) (n, u) = headed m (a + span xs) (n, u)"
  proof -
    have "word_at m' (a + span xs) = word_at m (a + span xs)" using same by (intro word_at_cong) simp
    then show ?thesis by (simp add: headed_def)
  qed
  moreover have "chain (headed m') (a + span xs + n) ys = chain (headed m) (a + span xs + n) ys"
  proof (rule chain_cong)
    fix b k v assume "a + span xs + n \<le> b"
    then have "word_at m' b = word_at m b" using same by (intro word_at_cong) simp
    then show "headed m' b (k, v) = headed m b (k, v)" by (simp add: headed_def)
  qed
  ultimately show ?thesis using assms(1) by simp
qed

lemma free_run:
  assumes "chain (headed (mem s)) b ((n, u) # bs)" "ok_sizes 16 ((n, u) # bs)" "within s b ((n, u) # bs)"
  shows "mm_free (b + 8) s = returns (s\<lparr>mem := put_word b (header_word (of_nat n) False) (mem s)\<rparr>)"
  using block_header_at [OF assms] set_header_at [OF assms(3), of "of_nat n" False]
  by (simp add: mm_free_def block_from_payload_def returns_def)

lemma free_refines:
  assumes "mm_ok s (xs @ (n, True) # ys)"
  shows "\<exists>s'. mm_free (heap s + 8 + span xs + 8) s = returns s' \<and> heap s' = heap s \<and>
    mm_ok s' (xs @ (n, False) # ys) \<and> same_payloads 8 (heap s + 8) (xs @ (n, False) # ys) (mem s) (mem s')"
proof -
  let ?a = "heap s + 8" and ?b = "heap s + 8 + span xs"
  let ?m = "put_word ?b (header_word (of_nat n) False) (mem s)"
  have ok: "ok_sizes 16 (xs @ (n, True) # ys)" "chain (headed (mem s)) ?a (xs @ (n, True) # ys)"
    using assms by (simp_all add: mm_ok_def)
  have at: "within s ?b ((n, True) # ys)" using mm_ok_within [OF assms] by (simp add: within_def)
  have "mm_free (?b + 8) s = returns (s\<lparr>mem := ?m\<rparr>)"
    by (rule free_run [OF _ _ at]) (use ok in simp_all)
  moreover have "chain (headed ?m) ?a (xs @ (n, False) # ys)"
    using ok chain_put_behind [of "mem s" ?a xs ?b] chain_put_before [of "mem s" "?b + n" ys ?b]
    by (simp add: headed_def)
  then have "mm_ok (s\<lparr>mem := ?m\<rparr>) (xs @ (n, False) # ys)"
    using assms by (auto simp: mm_ok_def region_ok_def last_in_def butlast_append split: if_splits)
  moreover have "same_payloads 8 ?a (xs @ (n, False) # ys) (mem s) ?m"
  proof -
    have "same_payloads 8 ?a xs (mem s) ?m"
    proof (rule same_payloads_outside)
      show "x < ?a + 8 \<or> ?a + span xs \<le> x" if "?m x \<noteq> mem s x" for x
        using that put_word_other [of x ?b] by force
      show "ok_sizes (8 + 1) xs" using ok(1) by (auto intro: ok_sizes_mono)
    qed simp
    then show ?thesis using same_payloads_put [of ys ?b "?b + n"] ok(1) by simp
  qed
  ultimately show ?thesis by (intro exI [of _ "s\<lparr>mem := ?m\<rparr>"]) simp
qed

section \<open>The interface\<close>

definition mm_rep :: "mm \<Rightarrow> (nat \<rightharpoonup> nat) \<Rightarrow> bool" where
  "mm_rep s L \<longleftrightarrow> (\<exists>bs. mm_ok s bs \<and> L = live 8 (heap s + 8) bs)"

lemma mm_repE:
  assumes "mm_rep s L" "L p = Some c"
  obtains xs n ys where "mm_ok s (xs @ (n, True) # ys)" "p = heap s + 8 + span xs + 8" "c = n - 8"
    "L = live 8 (heap s + 8) (xs @ (n, True) # ys)" "16 \<le> n" "16 dvd n" "16 dvd span xs"
proof -
  obtain bs where bs: "mm_ok s bs" "L = live 8 (heap s + 8) bs" using assms(1) by (auto simp: mm_rep_def)
  have "ok_sizes 1 bs" using mm_ok_sizes [OF bs(1)] by simp
  then obtain xs n ys where "bs = xs @ (n, True) # ys" "p = heap s + 8 + span xs + 8" "c = n - 8"
    using assms(2) unfolding bs(2) by (auto simp: live_split)
  with bs that span_aligned show thesis by (auto simp: mm_ok_def)
qed

lemma rep_malloc:
  assumes "mm_rep s L" "unat n + 23 < 2 ^ 64"
  shows "\<exists>p s'. mm_malloc n s = returns (p, s') \<and> heap s' = heap s \<and> keeps L (mem s) (mem s') \<and>
    (if p = 0 then mm_rep s' L else L p = None \<and> (\<exists>c. unat n \<le> c \<and> mm_rep s' (L(p \<mapsto> c))))"
proof -
  obtain bs where bs: "mm_ok s bs" "L = live 8 (heap s + 8) bs" using assms(1) by (auto simp: mm_rep_def)
  let ?a = "heap s + 8" and ?k = "block_need (unat n)"
  obtain off bs' where r: "malloc_blocks ?k bs = (off, bs')" by (cases "malloc_blocks ?k bs")
  have sizes: "ok_sizes 1 bs" "ok_sizes 16 bs" "ok_sizes 16 (merge bs)"
    using mm_ok_sizes [OF bs(1)] merge_shape(2) by simp_all
  note k = block_need_ok [of "unat n"]
  from malloc_refines [OF bs(1) assms(2) r] obtain s' where s': "heap s' = heap s"
    "same_payloads 8 ?a bs (mem s) (mem s')"
    "if 8 + span bs' \<le> MAX_HEAP then mm_malloc n s = returns (?a + off + 8, s') \<and> mm_ok s' bs'
     else mm_malloc n s = returns (0, s') \<and> mm_ok s' (merge bs)" by blast
  have keep: "keeps L (mem s) (mem s')" using s'(2) sizes(1) by (simp add: bs(2) keeps_live)
  show ?thesis
  proof (cases "8 + span bs' \<le> MAX_HEAP")
    case False
    have "live 8 ?a (merge bs) = L" by (simp add: bs(2) live_def merge_shape)
    then have "mm_rep s' L" using False s' by (auto simp: mm_rep_def)
    with False s' keep show ?thesis by (intro exI [of _ 0] exI [of _ s']) simp
  next
    case True
    have "\<exists>c. unat n \<le> c \<and> mset (payloads 8 ?a bs') = add_mset (?a + off + 8, c) (mset (payloads 8 ?a bs))"
    proof (cases "first_fit ?k (merge bs)")
      case None
      with r have "off = span bs" "bs' = merge bs @ [(?k, True)]" by (simp_all add: malloc_blocks_def)
      then show ?thesis using k by (intro exI [of _ "?k - 8"]) (simp add: merge_shape)
    next
      case (Some p)
      with r have "p = (off, bs')" by (simp add: malloc_blocks_def)
      with Some first_fit_shape [OF _ sizes(3) k(1,2), of off bs'] obtain c where "?k \<le> c + 8"
        "\<And>a. mset (payloads 8 a bs') = add_mset (a + off + 8, c) (mset (payloads 8 a (merge bs)))" by blast
      with k(3) show ?thesis by (intro exI [of _ c]) (simp add: merge_shape)
    qed
    then obtain c where c: "unat n \<le> c"
      "mset (payloads 8 ?a bs') = add_mset (?a + off + 8, c) (mset (payloads 8 ?a bs))" by blast
    have "mm_ok s' bs'" using True s' by simp
    then have "ok_sizes 1 bs'" by (rule mm_ok_sizes) simp
    from live_insert [OF sizes(1) this c(2)]
    have "mm_rep s' (L(?a + off + 8 \<mapsto> c))" "L (?a + off + 8) = None"
      using \<open>mm_ok s' bs'\<close> s'(1) by (auto simp: mm_rep_def bs(2))
    with True s' keep c(1) show ?thesis
      by (intro exI [of _ "?a + off + 8"] exI [of _ s']) auto
  qed
qed

lemma rep_free:
  assumes "mm_rep s L" "L p = Some c"
  shows "\<exists>s'. mm_free p s = returns s' \<and> heap s' = heap s \<and> mm_rep s' (L(p := None)) \<and>
    keeps (L(p := None)) (mem s) (mem s')"
proof -
  from assms obtain xs n ys where x: "mm_ok s (xs @ (n, True) # ys)" "p = heap s + 8 + span xs + 8"
    "c = n - 8" "L = live 8 (heap s + 8) (xs @ (n, True) # ys)" by (rule mm_repE)
  let ?bs = "xs @ (n, True) # ys" and ?bs' = "xs @ (n, False) # ys" and ?a = "heap s + 8"
  obtain s' where s': "mm_free p s = returns s'" "heap s' = heap s" "mm_ok s' ?bs'"
    "same_payloads 8 ?a ?bs' (mem s) (mem s')" using free_refines [OF x(1)] x(2) by blast
  have "ok_sizes 1 ?bs" by (rule mm_ok_sizes [OF x(1)]) simp
  then have sizes: "ok_sizes 1 ?bs" "ok_sizes 1 ?bs'" by simp_all
  have "mset (payloads 8 ?a ?bs) = add_mset (p, c) (mset (payloads 8 ?a ?bs'))" by (simp add: x(2,3))
  from live_insert [OF sizes(2,1) this] have "L(p := None) = live 8 ?a ?bs'" by (auto simp: x(4))
  moreover from this have "keeps (L(p := None)) (mem s) (mem s')" using s'(4) sizes(2) by (simp add: keeps_live)
  ultimately show ?thesis using s' by (auto simp: mm_rep_def)
qed

lemma rep_write:
  assumes "mm_rep s L" "L p = Some c" "\<And>x. m x \<noteq> mem s x \<Longrightarrow> p \<le> x \<and> x < p + c"
  shows "mm_rep (s\<lparr>mem := m\<rparr>) L"
proof -
  from assms(1,2) obtain xs n ys where x: "mm_ok s (xs @ (n, True) # ys)" "p = heap s + 8 + span xs + 8"
    "c = n - 8" "L = live 8 (heap s + 8) (xs @ (n, True) # ys)" "16 \<le> n" by (rule mm_repE)
  have "chain (headed m) (heap s + 8) (xs @ (n, True) # ys)"
  proof (rule chain_changed_inside)
    show "heap s + 8 + span xs + 8 \<le> y \<and> y < heap s + 8 + span xs + n" if "m y \<noteq> mem s y" for y
      using assms(3) [OF that] x(2,3,5) by simp
  qed (use x(1) in \<open>simp_all add: mm_ok_def\<close>)
  then have "mm_ok (s\<lparr>mem := m\<rparr>) (xs @ (n, True) # ys)" using x(1) by (simp add: mm_ok_def region_ok_def)
  then show ?thesis using x(4) by (auto simp: mm_rep_def)
qed

lemma rep_payload:
  assumes "mm_rep s L" "L p = Some c"
  shows "16 dvd p \<and> heap s < p \<and> p + c \<le> mem_brk s \<and> 0 < c \<and> 16 dvd c + 8 \<and>
    get_size s (block_from_payload p) = Inr (of_nat (c + 8)) \<and> c + 8 < 2 ^ 64"
proof -
  from assms obtain xs n ys where x: "mm_ok s (xs @ (n, True) # ys)" "p = heap s + 8 + span xs + 8"
    "c = n - 8" "L = live 8 (heap s + 8) (xs @ (n, True) # ys)" "16 \<le> n" "16 dvd n" "16 dvd span xs"
    by (rule mm_repE)
  have at: "within s (heap s + 8 + span xs) ((n, True) # ys)" using mm_ok_within [OF x(1)] by (simp add: within_def)
  have "get_size s (heap s + 8 + span xs) = Inr (of_nat n)"
    by (rule block_header_at(1) [OF _ _ at]) (use x(1) in \<open>simp_all add: mm_ok_def\<close>)
  moreover have "16 dvd heap s + 16 + span xs" using x(1,7) by (simp add: mm_ok_def region_ok_def)
  moreover have "n < 2 ^ 64" using at by (simp add: within_def)
  moreover have "block_from_payload p = heap s + 8 + span xs" by (simp add: block_from_payload_def x(2))
  moreover have "mem_brk s = heap s + 8 + span xs + n + span ys" using x(1) by (simp add: mm_ok_def)
  ultimately show ?thesis using x(2,3,5,6) by (simp add: add.commute add.left_commute)
qed

lemma init_ok:
  assumes "region_ok s" "mem_brk s = heap s"
  shows "\<exists>s'. mm_init s = returns (True, s') \<and> mm_ok s' [] \<and> heap s' = heap s"
proof -
  have "unat (ALIGNMENT - 8) = 8" by (simp add: ALIGNMENT_def)
  then have "mem_sbrk (ALIGNMENT - 8) s = (Some (heap s), s\<lparr>mem_brk := heap s + 8\<rparr>)"
    using assms mem_sbrk_eq [of s "ALIGNMENT - 8"] by (simp add: region_ok_def MAX_HEAP_def)
  then show ?thesis using assms
    by (simp add: mm_init_def mm_ok_def region_ok_def MAX_HEAP_def)
qed

interpretation mmi: malloc_package mm_rep mm_init mm_malloc mm_free 8 0
  "\<lambda>s p. get_size s (block_from_payload p)" mm_realloc mm_calloc mm_checkheap
proof
  show "\<exists>s'. mm_init s = returns (True, s') \<and> mm_rep s' Map.empty \<and> heap s' = heap s"
    if "region_ok s" "mem_brk s = heap s" for s
    using init_ok [OF that] by (force simp: mm_rep_def live_def)
  show "region_ok s \<and> mem_brk s \<le> heap s + MAX_HEAP" if "mm_rep s L" for s L
    using that by (auto simp: mm_rep_def mm_ok_def)
  show "16 dvd p \<and> heap s < p \<and> p + c \<le> mem_brk s \<and> 0 < c \<and> 16 dvd c + 8"
    if "mm_rep s L" "L p = Some c" for s L p c using rep_payload [OF that] by simp
  show "p + c \<le> q \<or> q + d \<le> p"
    if A: "mm_rep s L" "L p = Some c" "L q = Some d" "p \<noteq> q" for s L p c q d
  proof -
    obtain bs where bs: "mm_ok s bs" "L = live 8 (heap s + 8) bs" using A(1) by (auto simp: mm_rep_def)
    have "ok_sizes 1 bs" "ok_sizes (8 + 1) bs" using mm_ok_sizes [OF bs(1)] by simp_all
    with A(2-4) payloads_disjoint [of p c 8 "heap s + 8" bs q d] show ?thesis by (simp add: bs(2) live_eq)
  qed
  show "mm_rep (s\<lparr>mem := m\<rparr>) L"
    if "mm_rep s L" "L p = Some c" "\<And>x. m x \<noteq> mem s x \<Longrightarrow> p \<le> x \<and> x < p + c" for s L p c m
    using rep_write [OF that] .
  show "\<exists>p s'. mm_malloc n s = returns (p, s') \<and> heap s' = heap s \<and> keeps L (mem s) (mem s') \<and>
      (if p = 0 then mm_rep s' L else L p = None \<and> (\<exists>c. unat n \<le> c \<and> mm_rep s' (L(p \<mapsto> c))))"
    if "mm_rep s L" "0 \<le> unat n" "unat n + 8 + 15 < 2 ^ 64" for s L n
    using rep_malloc that by simp
  show "mm_free 0 s = returns s" for s by (simp add: mm_free_def)
  show "\<exists>s'. mm_free p s = returns s' \<and> heap s' = heap s \<and> mm_rep s' (L(p := None)) \<and>
      keeps (L(p := None)) (mem s) (mem s')" if "mm_rep s L" "L p = Some c" for s L p c
    using rep_free [OF that] .
  show "\<exists>w. get_size s (block_from_payload p) = Inr w \<and> unat w = c + 8"
    if A: "mm_rep s L" "L p = Some c" for s L p c
  proof -
    have "c + 8 < 2 ^ LENGTH(64)" using rep_payload [OF A] by simp
    then have "unat (of_nat (c + 8) :: u64) = c + 8" by (simp only: unat_of_nat mod_less)
    then show ?thesis using rep_payload [OF A] by blast
  qed
  show "mm_realloc p n s =
      (if p = 0 then mm_malloc n s
       else if n = 0 then rbind (mm_free p s) (\<lambda>s. returns (0, s))
       else rbind (Some (get_size s (block_from_payload p))) (\<lambda>w.
         if round_up (of_nat 8 + n) ALIGNMENT \<le> w then returns (p, s)
         else rbind (mm_malloc n s) (\<lambda>(q, s).
           if q = 0 then returns (0, s)
           else rbind (Some (get_size s (block_from_payload p))) (\<lambda>w.
                rbind (Some (memcpy q p (unat (w - of_nat 8)) s)) (\<lambda>s.
                rbind (mm_free p s) (\<lambda>s. returns (q - 8 + 8, s)))))))" for p n s
    unfolding mm_realloc_def block_from_payload_def Let_def by (simp cong: if_cong)
  show "mm_checkheap s = returns s" for s :: mm by (simp add: mm_checkheap_def)
  show "mm_calloc k n s =
      (if k * n = 0 then returns (0, s)
       else rbind (mm_malloc (k * n) s) (\<lambda>(q, s).
            rbind (Some (memset q 0 (unat (k * n)) s)) (\<lambda>s. returns (q, s))))" for k n s
    by (simp add: mm_calloc_def Let_def)
qed simp_all

definition mm_package :: "unit mm_ext package" where
  "mm_package = \<lparr>pkg_init = mm_init, pkg_malloc = mm_malloc, pkg_free = mm_free, pkg_realloc = mm_realloc,
     pkg_checkheap = mm_checkheap\<rparr>"

section \<open>A block of size 0\<close>

text \<open>A walk that stands on an allocated block of size 0 never leaves it.\<close>

definition stuck_at :: "nat \<Rightarrow> mm \<Rightarrow> bool" where
  "stuck_at cur s \<longleftrightarrow> mm_heap_last s \<noteq> 0 \<and> cur \<le> mm_heap_last s \<and>
     is_allocated s cur = Inr True \<and> get_size s cur = Inr 0"

lemma stuck_walk: "coalesce_loop cur s = Some r \<Longrightarrow> \<not> stuck_at cur s"
proof (rule coalesce_loop.raw_induct [where P = "\<lambda>cur s r. \<not> stuck_at cur s"])
  fix loop cur s r
  assume IH: "\<And>cur s r. loop cur s = Some r \<Longrightarrow> \<not> stuck_at cur s"
    and body: "(if mm_heap_last s \<noteq> 0 \<and> cur \<le> mm_heap_last s then
        rbind (Some (is_allocated s cur)) (\<lambda>used.
        rbind (if used then returns s
               else rbind (Some (get_size s cur)) (\<lambda>n. merge_loop cur (cur + unat n) s)) (\<lambda>s.
        rbind (Some (get_size s cur)) (\<lambda>n. loop (cur + unat n) s)))
      else returns s) = Some r"
  show "\<not> stuck_at cur s"
  proof
    assume stuck: "stuck_at cur s"
    then have "loop cur s = Some r" using body by (simp add: stuck_at_def)
    from IH [OF this] stuck show False by simp
  qed
qed

lemma stuck_coalesce:
  assumes "stuck_at (mm_heap_first s) s"
  shows "mm_malloc n s = None"
proof -
  have "coalesce s = None"
    using assms stuck_walk [of "mm_heap_first s" s] by (cases "coalesce s") (auto simp: coalesce_def)
  then show ?thesis by (simp add: mm_malloc_def)
qed

lemma malloc_wraps:
  assumes "mm_ok s []"
  shows "\<exists>s'. mm_malloc (- 8) s = returns (heap s + 16, s') \<and> stuck_at (mm_heap_first s') s'"
proof -
  let ?b = "heap s + 8"
  let ?s = "s\<lparr>mm_heap_first := ?b, mm_heap_last := ?b, mem := put_word ?b 1 (mem s)\<rparr>"
  have ok: "mm_heap_first s = 0" "mm_heap_last s = 0" "mem_brk s = ?b" "region_ok s"
    using assms by (simp_all add: mm_ok_def)
  have mapped: "mapped s ?b 8" using mm_ok_within [OF assms] by (simp add: within_def mapped_def)
  have wrap: "round_up (8 + - 8) ALIGNMENT = 0" by (simp add: round_up_def ALIGNMENT_def)
  have head: "header_word 0 True = 1" by (simp add: header_word_def)
  have "mem_sbrk 0 s = (Some ?b, s)"
    using ok mem_sbrk_eq [of s 0] by (simp add: region_ok_def MAX_HEAP_def)
  moreover have "set_header ?b 0 True (s\<lparr>mm_heap_first := ?b, mm_heap_last := ?b\<rparr>) = Inr ?s"
    using mapped by (simp add: set_header_def head write64_def mapped_def)
  ultimately have "mm_malloc (- 8) s = returns (heap s + 16, ?s)"
    unfolding mm_malloc_def wrap Let_def
    by (simp add: coalesce_def coalesce_loop.simps find_fit_def find_fit_loop.simps ok)
  moreover have "stuck_at (mm_heap_first ?s) ?s"
    using mapped by (simp add: stuck_at_def is_allocated_def get_size_def read64_def mapped_def alloc_bit_def
        size_bits_def)
  ultimately show ?thesis by blast
qed

section \<open>Properties\<close>

definition fresh_heap :: mm where
  "fresh_heap = \<lparr>heap = 4096, mem_brk = 4104, mem = (\<lambda>_. 0xCC), mm_heap_first = 0, mm_heap_last = 0\<rparr>"

lemma fresh_heap_ok: "mm_ok fresh_heap []"
  by (simp add: fresh_heap_def mm_ok_def region_ok_def MAX_HEAP_def)

text \<open>C6: \<open>mm_malloc\<close> implements first fit. On the row of blocks that make up the heap it merges runs of
free blocks, takes the first free block that is large enough and splits it when the rest can be a block,
or else appends a block; it returns that block's payload, every live payload keeps its bytes, and the
result is \<open>NULL\<close> exactly when the heap would exceed its 100 MB. All loops end and no access faults.\<close>

theorem malloc_is_first_fit:
  assumes "mm_ok s bs" "unat sz + 23 < 2 ^ 64" "malloc_blocks (block_need (unat sz)) bs = (off, bs')"
  shows "\<exists>s'. heap s' = heap s \<and> same_payloads 8 (heap s + 8) bs (mem s) (mem s') \<and>
    (if 8 + span bs' \<le> MAX_HEAP
     then mm_malloc sz s = returns (heap s + 8 + off + 8, s') \<and> mm_ok s' bs'
     else mm_malloc sz s = returns (0, s') \<and> mm_ok s' (merge bs))"
  using malloc_refines [OF assms] .

lemma malloc_is_first_fit_witness:
  "\<exists>s'. mm_malloc 100 fresh_heap = returns (4112, s') \<and> mm_ok s' [(112, True)]"
proof -
  have "malloc_blocks (block_need (unat (100 :: u64))) [] = (0, [(112, True)])"
    by (simp add: malloc_blocks_def block_need_def)
  from malloc_is_first_fit [OF fresh_heap_ok _ this] show ?thesis
    by (auto simp: MAX_HEAP_def fresh_heap_def)
qed

text \<open>C15: \<open>mm_realloc\<close> of a live payload returns a payload of the requested size with the old contents up to
the smaller of the two sizes, and the old one is live no more, or \<open>NULL\<close> with everything as it was;
all other payloads keep their bytes and stay apart.\<close>

theorem realloc_keeps_contents:
  assumes "mm_rep s L" "L p = Some c" "0 < unat n" "unat n + 23 < 2 ^ 64"
  shows "\<exists>q s'. mm_realloc p n s = returns (q, s') \<and>
    (if q = 0 then mm_rep s' L \<and> keeps L (mem s) (mem s')
     else (\<exists>d. unat n \<le> d \<and> mm_rep s' (L(p := None, q \<mapsto> d)) \<and> (q = p \<or> L q = None) \<and>
       keeps (L(p := None)) (mem s) (mem s') \<and> (\<forall>i < min c (unat n). mem s' (q + i) = mem s (p + i))))"
proof -
  have "unat n + 8 + 15 < 2 ^ 64" using assms(4) by simp
  from mmi.realloc_ok [OF assms(1-3) this] show ?thesis by blast
qed

lemma realloc_keeps_contents_witness:
  "\<exists>s q s'. mm_realloc 4112 5000 s = returns (q, s') \<and> (\<forall>i < 104. q = 0 \<or> mem s' (q + i) = mem s (4112 + i))"
proof -
  obtain s where "mm_malloc 100 fresh_heap = returns (4112, s)" "mm_ok s [(112, True)]" "heap s = 4096"
  proof -
    have "malloc_blocks (block_need (unat (100 :: u64))) [] = (0, [(112, True)])"
      by (simp add: malloc_blocks_def block_need_def)
    from malloc_refines [OF fresh_heap_ok _ this] that show thesis by (auto simp: MAX_HEAP_def fresh_heap_def)
  qed
  then have rep: "mm_rep s (live 8 4104 [(112, True)])" by (auto simp: mm_rep_def)
  have "live 8 4104 [(112, True)] 4112 = Some 104" by (simp add: live_def)
  from realloc_keeps_contents [OF rep this, of 5000] obtain q s' where "mm_realloc 4112 5000 s = returns (q, s')"
    "q \<noteq> 0 \<Longrightarrow> \<forall>i < min 104 (unat (5000 :: u64)). mem s' (q + i) = mem s (4112 + i)" by (auto split: if_splits)
  then show ?thesis by (intro exI [of _ s] exI [of _ q] exI [of _ s']) auto
qed

text \<open>\<open>mm_calloc\<close> returns a zeroed payload of \<open>nmemb * size\<close> bytes apart from all others, but it does not
check the result of \<open>mm_malloc\<close>: when the heap is full it writes through \<open>NULL\<close>.\<close>

theorem calloc_clears_or_faults:
  assumes "mm_rep s L" "0 < unat (nmemb * sz)" "unat (nmemb * sz) + 23 < 2 ^ 64"
  shows "\<exists>q s1. mm_malloc (nmemb * sz) s = returns (q, s1) \<and>
    (if q = 0 then mm_calloc nmemb sz s = fails Bad_Access
     else (\<exists>s' c. mm_calloc nmemb sz s = returns (q, s') \<and> L q = None \<and> unat (nmemb * sz) \<le> c \<and>
       mm_rep s' (L(q \<mapsto> c)) \<and> keeps L (mem s) (mem s') \<and> (\<forall>i < unat (nmemb * sz). mem s' (q + i) = 0)))"
  using mmi.calloc_ok [OF assms(1,2)] assms(3) by simp

lemma calloc_clears_or_faults_witness:
  "mm_calloc (2 ^ 20) (2 ^ 20) fresh_heap = fails Bad_Access"
proof -
  have rep: "mm_rep fresh_heap Map.empty" using fresh_heap_ok by (force simp: mm_rep_def live_def)
  have "malloc_blocks (block_need (unat (2 ^ 20 * 2 ^ 20 :: u64))) [] = (0, [(2 ^ 40 + 16, True)])"
    by (simp add: malloc_blocks_def block_need_def)
  from malloc_refines [OF fresh_heap_ok _ this] obtain s1 where "mm_malloc (2 ^ 20 * 2 ^ 20) fresh_heap = returns (0, s1)"
    by (auto simp: MAX_HEAP_def)
  moreover have "0 < unat ((2 ^ 20 :: u64) * 2 ^ 20)" "unat ((2 ^ 20 :: u64) * 2 ^ 20) + 23 < 2 ^ 64" by simp_all
  from calloc_clears_or_faults [OF rep this] obtain q s2 where
    "mm_malloc (2 ^ 20 * 2 ^ 20) fresh_heap = returns (q, s2)"
    "q = 0 \<longrightarrow> mm_calloc (2 ^ 20) (2 ^ 20) fresh_heap = fails Bad_Access" by (auto split: if_splits)
  ultimately show ?thesis by (simp add: returns_def)
qed

text \<open>C5: the allocator passes the driver: on every trace that uses its indices properly, of sizes that fit
an \<open>int\<close>, \<open>eval_mm_valid\<close> with this package returns, finds no payload misaligned, outside the heap,
overlapping or with a changed byte, and complains at most once, about memory running out.\<close>

theorem implicit_passes_driver:
  assumes "region_ok (machine d)" "ranges d = []" "length (random_data cfg) = RANDOM_DATA_LEN"
    "length (block_rand_base (trace d)) = num_ids (trace d)" "wf_ops (num_ids (trace d)) {} (ops (trace d))"
  shows "only_out_of_memory d (eval_mm_valid mm_package cfg d)"
  using mmi.eval_mm_valid_ok [OF assms] by (simp add: mmi.pkg_def mm_package_def)

lemma implicit_passes_driver_witness:
  "\<exists>ok d'. eval_mm_valid mm_package sample_settings (driver_on fresh_heap) = returns (ok, d') \<and>
     (\<forall>(_, c) \<in> set (complaints d'). c \<noteq> Garbled \<and> c \<noteq> Overlaps)"
proof -
  have "only_out_of_memory (driver_on fresh_heap) (eval_mm_valid mm_package sample_settings (driver_on fresh_heap))"
    by (rule implicit_passes_driver)
      (simp_all add: driver_on_def fresh_heap_def region_ok_def MAX_HEAP_def sample_settings_def sample_trace_def)
  then show ?thesis by (fastforce simp: only_out_of_memory_def driver_on_def split: if_splits)
qed

text \<open>Rounding wraps for the last sizes: \<open>mm_malloc\<close> of \<open>2^64 - 8\<close> bytes on a new heap succeeds with a block of
size 0, and no later call of \<open>mm_malloc\<close> returns.\<close>

theorem huge_request_hangs:
  assumes "mm_ok s []"
  shows "\<exists>s'. mm_malloc (- 8) s = returns (heap s + 16, s') \<and> (\<forall>n. mm_malloc n s' = None)"
  using malloc_wraps [OF assms] stuck_coalesce by blast

lemma huge_request_hangs_witness:
  "\<exists>s'. mm_malloc (- 8) fresh_heap = returns (4112, s') \<and> mm_malloc 1 s' = None"
  using huge_request_hangs [OF fresh_heap_ok] by (auto simp: fresh_heap_def)

end
