(* ===== verification/MmExplicit.thy ===== *)
theory MmExplicit
  imports TraceDriver
begin

text \<open>
  The explicit-list allocator (\<open>project03-wduan/src/mm-explicit.c\<close>): blocks with a header and a footer,
  and a doubly linked list of the free blocks whose links are kept in the blocks themselves. The functions
  have the names of the source; \<open>mm-implicit.c\<close> has some of the same names, told apart by the theory.
\<close>

section \<open>The allocator\<close>

record xmm = memlib +
  heap_first :: nat
  heap_last :: nat
  free_list_first :: nat

text \<open>The fields of \<open>free_node_t\<close>.\<close>

definition get_left :: "xmm \<Rightarrow> nat \<Rightarrow> nat result" where
  "get_left s node = ebind (read64 s (node + 8)) (\<lambda>w. Inr (unat w))"

definition get_right :: "xmm \<Rightarrow> nat \<Rightarrow> nat result" where
  "get_right s node = ebind (read64 s (node + 16)) (\<lambda>w. Inr (unat w))"

definition set_left :: "nat \<Rightarrow> nat \<Rightarrow> xmm \<Rightarrow> xmm result" where
  "set_left node p s = write64 (node + 8) (of_nat p) s"

definition set_right :: "nat \<Rightarrow> nat \<Rightarrow> xmm \<Rightarrow> xmm result" where
  "set_right node p s = write64 (node + 16) (of_nat p) s"

definition add_free_node :: "nat \<Rightarrow> xmm \<Rightarrow> xmm result" where
  "add_free_node free_node s =
     (if free_list_first s = 0 then
        let s = s\<lparr>free_list_first := free_node\<rparr> in
        ebind (set_left (free_list_first s) 0 s) (\<lambda>s. set_right (free_list_first s) 0 s)
      else
        ebind (set_right free_node (free_list_first s) s) (\<lambda>s.
        ebind (set_left (free_list_first s) free_node s) (\<lambda>s.
        set_left free_node 0 (s\<lparr>free_list_first := free_node\<rparr>))))"

definition remove_free_node :: "nat \<Rightarrow> xmm \<Rightarrow> xmm result" where
  "remove_free_node free_node s =
     (if free_node = free_list_first s then
        ebind (get_right s (free_list_first s)) (\<lambda>r.
        let s = s\<lparr>free_list_first := r\<rparr> in
        if free_list_first s \<noteq> 0 then set_left (free_list_first s) 0 s else Inr s)
      else
        ebind (get_left s free_node) (\<lambda>l.
        ebind (if l \<noteq> 0 then ebind (get_right s free_node) (\<lambda>r. set_right l r s) else Inr s) (\<lambda>s.
        ebind (get_right s free_node) (\<lambda>r.
        if r \<noteq> 0 then ebind (get_left s free_node) (\<lambda>l. set_left r l s) else Inr s))))"

definition set_header :: "nat \<Rightarrow> u64 \<Rightarrow> bool \<Rightarrow> xmm \<Rightarrow> xmm result" where
  "set_header block sz alloc s =
     ebind (write64 block (header_word sz alloc) s) (\<lambda>s.
     write64 (block + unat sz - 8) (header_word sz alloc) s)"

text \<open>What \<open>find_fit\<close> does with the block it has found.\<close>

definition take_block :: "u64 \<Rightarrow> nat \<Rightarrow> xmm \<Rightarrow> (nat \<times> xmm) result" where
  "take_block sz block s =
     ebind (get_size s block) (\<lambda>original_size.
       if round_up (8 + 8 + ALIGNMENT) ALIGNMENT \<le> original_size - sz then
         ebind (set_header block sz False s) (\<lambda>s.
         let nxt = block + unat sz in
         ebind (set_header nxt (original_size - sz) False s) (\<lambda>s.
         let s = (if heap_last s < nxt then s\<lparr>heap_last := nxt\<rparr> else s) in
         ebind (remove_free_node block s) (\<lambda>s.
         ebind (add_free_node nxt s) (\<lambda>s. Inr (block, s)))))
       else if block = free_list_first s then
         ebind (get_right s block) (\<lambda>r. Inr (block, s\<lparr>free_list_first := r\<rparr>))
       else
         ebind (get_left s block) (\<lambda>l.
         ebind (get_right s block) (\<lambda>r.
         ebind (set_right l r s) (\<lambda>s.
         ebind (get_right s block) (\<lambda>r.
         ebind (if r \<noteq> 0 then ebind (get_left s block) (\<lambda>l. set_left r l s) else Inr s) (\<lambda>s.
           Inr (block, s)))))))"

partial_function (option) find_fit_loop :: "u64 \<Rightarrow> nat \<Rightarrow> xmm \<Rightarrow> (nat \<times> xmm) run" where
  "find_fit_loop sz cur s =
     (if cur \<noteq> 0 then
        rbind (Some (get_size s cur)) (\<lambda>n.
          if sz \<le> n then Some (take_block sz cur s)
          else rbind (Some (get_right s cur)) (\<lambda>r. find_fit_loop sz r s))
      else returns (0, s))"

definition find_fit :: "u64 \<Rightarrow> xmm \<Rightarrow> (nat \<times> xmm) run" where
  "find_fit sz s = find_fit_loop sz (free_list_first s) s"

text \<open>The two halves of \<open>coalesce\<close>; the first returns the block that now holds the freed one, and \<open>flag\<close>.\<close>

definition coalesce_left :: "nat \<Rightarrow> xmm \<Rightarrow> ((nat \<times> bool) \<times> xmm) result" where
  "coalesce_left block s =
     (if block \<noteq> heap_first s then
        ebind (read64 s (block - 8)) (\<lambda>left_footer.
        let left_block = block - unat (size_bits left_footer) in
        ebind (is_allocated s left_block) (\<lambda>used.
        if \<not> used then
          ebind (get_size s left_block) (\<lambda>n. ebind (get_size s block) (\<lambda>k.
          ebind (set_header left_block (n + k) False s) (\<lambda>s.
            Inr ((left_block, True), if block = heap_last s then s\<lparr>heap_last := left_block\<rparr> else s))))
        else Inr ((block, False), s)))
      else Inr ((block, False), s))"

definition coalesce_right :: "nat \<Rightarrow> xmm \<Rightarrow> xmm result" where
  "coalesce_right block s =
     (if block < heap_last s then
        ebind (get_size s block) (\<lambda>n.
        let right_block = block + unat n in
        ebind (is_allocated s right_block) (\<lambda>used.
        if \<not> used then
          ebind (remove_free_node right_block s) (\<lambda>s.
          ebind (get_size s block) (\<lambda>n. ebind (get_size s right_block) (\<lambda>k.
          ebind (set_header block (n + k) False s) (\<lambda>s.
            Inr (if right_block = heap_last s then s\<lparr>heap_last := block\<rparr> else s)))))
        else Inr s))
      else Inr s)"

definition coalesce :: "nat \<Rightarrow> xmm \<Rightarrow> xmm result" where
  "coalesce block s =
     ebind (coalesce_left block s) (\<lambda>((block, flag), s).
     ebind (coalesce_right block s) (\<lambda>s.
     if \<not> flag then add_free_node block s else Inr s))"

definition mm_init :: "xmm \<Rightarrow> (bool \<times> xmm) run" where
  "mm_init s =
     (case mem_sbrk (ALIGNMENT - 8) s of
        (None, s) \<Rightarrow> returns (False, s)
      | (Some padding, s) \<Rightarrow> returns (True, s\<lparr>heap_first := 0, heap_last := 0, free_list_first := 0\<rparr>))"

definition mm_malloc :: "u64 \<Rightarrow> xmm \<Rightarrow> (nat \<times> xmm) run" where
  "mm_malloc sz s =
     (let sz = round_up (8 + 8 + sz) ALIGNMENT in
      rbind (find_fit sz s) (\<lambda>(block, s).
        if block \<noteq> 0 then
          rbind (Some (get_size s block)) (\<lambda>n.
          rbind (Some (set_header block n True s)) (\<lambda>s. returns (block + 8, s)))
        else
          (case mem_sbrk sz s of
             (None, s) \<Rightarrow> returns (0, s)
           | (Some block, s) \<Rightarrow>
               (let s = s\<lparr>heap_first := (if heap_first s = 0 then block else heap_first s), heap_last := block\<rparr> in
                rbind (Some (set_header block sz True s)) (\<lambda>s. returns (block + 8, s))))))"

definition mm_free :: "nat \<Rightarrow> xmm \<Rightarrow> xmm run" where
  "mm_free ptr s =
     (if ptr = 0 then returns s
      else let block = block_from_payload ptr in
        rbind (Some (get_size s block)) (\<lambda>n.
        rbind (Some (set_header block n False s)) (\<lambda>s. Some (coalesce block s))))"

definition mm_realloc :: "nat \<Rightarrow> u64 \<Rightarrow> xmm \<Rightarrow> (nat \<times> xmm) run" where
  "mm_realloc old_ptr sz s =
     (if old_ptr = 0 then mm_malloc sz s
      else if sz = 0 then rbind (mm_free old_ptr s) (\<lambda>s. returns (0, s))
      else let block = block_from_payload old_ptr in
        rbind (Some (get_size s block)) (\<lambda>n.
          if round_up (8 + 8 + sz) ALIGNMENT \<le> n then returns (old_ptr, s)
          else rbind (mm_malloc sz s) (\<lambda>(new_payload, s).
            if new_payload = 0 then returns (0, s)
            else rbind (Some (get_size s block)) (\<lambda>n.
                 rbind (Some (memcpy new_payload old_ptr (unat (n - 8 - 8)) s)) (\<lambda>s.
                 rbind (mm_free old_ptr s) (\<lambda>s.
                   returns (block_from_payload new_payload + 8, s)))))))"

definition mm_calloc :: "u64 \<Rightarrow> u64 \<Rightarrow> xmm \<Rightarrow> (nat \<times> xmm) run" where
  "mm_calloc nmemb sz s =
     (let total_size = nmemb * sz in
      if total_size = 0 then returns (0, s)
      else rbind (mm_malloc total_size s) (\<lambda>(payload, s).
           rbind (Some (memset payload 0 (unat total_size) s)) (\<lambda>s. returns (payload, s))))"

text \<open>\<open>mm_checkheap\<close>: it exits, with status 0, when a footer differs from its header or the list does not
have as many nodes as there are free blocks.\<close>

partial_function (option) check_blocks :: "nat \<Rightarrow> nat \<Rightarrow> xmm \<Rightarrow> nat run" where
  "check_blocks cur free_blocks s =
     (if heap_last s \<noteq> 0 \<and> cur \<le> heap_last s then
        rbind (Some (get_size s cur)) (\<lambda>n.
        rbind (Some (read64 s (cur + unat n - 8))) (\<lambda>footer.
        rbind (Some (read64 s cur)) (\<lambda>header.
          if header \<noteq> footer then fails (Exit_With 0)
          else rbind (Some (is_allocated s cur)) (\<lambda>used.
               check_blocks (cur + unat n) (if used then free_blocks else free_blocks + 1) s))))
      else returns free_blocks)"

partial_function (option) list_length :: "nat \<Rightarrow> nat \<Rightarrow> xmm \<Rightarrow> nat run" where
  "list_length free_node len s =
     (if free_node \<noteq> 0 then rbind (Some (get_right s free_node)) (\<lambda>r. list_length r (len + 1) s)
      else returns len)"

definition mm_checkheap :: "xmm \<Rightarrow> xmm run" where
  "mm_checkheap s =
     rbind (check_blocks (heap_first s) 0 s) (\<lambda>free_blocks.
     rbind (list_length (free_list_first s) 0 s) (\<lambda>free_list_length.
       if free_list_length \<noteq> free_blocks then fails (Exit_With 0) else returns s))"

end
