(* ===== verification/FreeList.thy ===== *)
theory FreeList
  imports MmExplicit
begin

text \<open>
  The free list of \<open>mm-explicit.c\<close> in memory: what a block with header and footer looks like, the
  doubly linked list of the free blocks, and what \<open>add_free_node\<close> and \<open>remove_free_node\<close> do to it.
\<close>

section \<open>Blocks and links in memory\<close>

definition framed :: "(nat \<Rightarrow> u8) \<Rightarrow> nat \<Rightarrow> block \<Rightarrow> bool" where
  "framed m a b \<longleftrightarrow> word_at m a = header_word (of_nat (fst b)) (snd b) \<and>
     word_at m (a + fst b - 8) = header_word (of_nat (fst b)) (snd b)"

text \<open>Where the free blocks start.\<close>

fun free_at :: "nat \<Rightarrow> block list \<Rightarrow> nat list" where
  "free_at a [] = []"
| "free_at a ((n, used) # bs) = (if used then [] else [a]) @ free_at (a + n) bs"

lemma free_at_append [simp]: "free_at a (xs @ ys) = free_at a xs @ free_at (a + span xs) ys"
  by (induction a xs rule: free_at.induct) (simp_all add: add.assoc)

lemma free_at_bounds: "x \<in> set (free_at a bs) \<Longrightarrow> ok_sizes k bs \<Longrightarrow> a \<le> x \<and> x + k \<le> a + span bs"
  by (induction a bs rule: free_at.induct) (fastforce split: if_splits)+

lemma free_at_split: "x \<in> set (free_at a bs) \<Longrightarrow> \<exists>xs n ys. bs = xs @ (n, False) # ys \<and> x = a + span xs"
proof (induction a bs rule: free_at.induct)
  case (2 a n used bs)
  show ?case
  proof (cases "\<not> used \<and> x = a")
    case True
    then have "(n, used) # bs = [] @ (n, False) # bs \<and> x = a + span []" by simp
    then show ?thesis by blast
  next
    case False
    with 2 obtain xs k ys where "bs = xs @ (k, False) # ys" "x = a + n + span xs" by (auto split: if_splits)
    then have "(n, used) # bs = ((n, used) # xs) @ (k, False) # ys \<and> x = a + span ((n, used) # xs)" by simp
    then show ?thesis by blast
  qed
qed simp

lemma free_at_distinct: "ok_sizes 1 bs \<Longrightarrow> distinct (free_at a bs)"
  by (induction a bs rule: free_at.induct) (auto dest: free_at_bounds)

text \<open>Free blocks lie apart.\<close>

definition spaced :: "nat set \<Rightarrow> bool" where
  "spaced F \<longleftrightarrow> (\<forall>f \<in> F. \<forall>g \<in> F. f \<noteq> g \<longrightarrow> f + 32 \<le> g \<or> g + 32 \<le> f)"

lemma spaced_sub: "spaced F \<Longrightarrow> G \<subseteq> F \<Longrightarrow> spaced G"
  by (auto simp: spaced_def)

lemma free_at_spaced: "ok_sizes 32 bs \<Longrightarrow> spaced (set (free_at a bs))"
proof (induction a bs rule: free_at.induct)
  case (2 a n used bs)
  have "a + 32 \<le> f" if "f \<in> set (free_at (a + n) bs)" for f
    using free_at_bounds [OF that, of 32] "2.prems" by simp
  with 2 show ?case by (auto simp: spaced_def)
qed (simp add: spaced_def)

text \<open>The free list: from each node the right link leads to the next, the last one to \<open>e\<close>; the left links
lead back. The left link of the first node is never read.\<close>

definition next_of :: "nat list \<Rightarrow> nat \<Rightarrow> nat" where
  "next_of xs e = (case xs of [] \<Rightarrow> e | y # _ \<Rightarrow> y)"

fun linked :: "(nat \<Rightarrow> u8) \<Rightarrow> nat list \<Rightarrow> nat \<Rightarrow> bool" where
  "linked m [] e = True"
| "linked m (x # xs) e =
     (word_at m (x + 16) = of_nat (next_of xs e) \<and>
      (xs \<noteq> [] \<longrightarrow> word_at m (hd xs + 8) = of_nat x) \<and> linked m xs e)"

lemma next_of_simps [simp]: "next_of [] e = e" "next_of (y # ys) e = y" "next_of (xs @ ys) e = next_of xs (next_of ys e)"
  by (simp_all add: next_of_def split: list.splits)

lemma in_tl: "x \<in> set (tl xs) \<Longrightarrow> x \<in> set xs"
  by (cases xs) auto

lemma linked_append:
  "linked m (xs @ ys) e \<longleftrightarrow> linked m xs (next_of ys e) \<and>
     (xs \<noteq> [] \<and> ys \<noteq> [] \<longrightarrow> word_at m (hd ys + 8) = of_nat (last xs)) \<and> linked m ys e"
proof (induction xs)
  case (Cons x xs)
  then show ?case by (cases xs) auto
qed simp

lemma linked_cong:
  assumes "\<And>f. f \<in> set fl \<Longrightarrow> word_at m' (f + 16) = word_at m (f + 16)"
    "\<And>f. f \<in> set (tl fl) \<Longrightarrow> word_at m' (f + 8) = word_at m (f + 8)"
  shows "linked m' fl e = linked m fl e"
  using assms
proof (induction fl)
  case (Cons x fl)
  have "linked m' fl e = linked m fl e"
  proof (rule Cons.IH)
    fix f assume "f \<in> set (tl fl)"
    then show "word_at m' (f + 8) = word_at m (f + 8)" using Cons.prems(2) by (auto dest: in_tl)
  qed (use Cons.prems(1) in simp)
  moreover have "fl \<noteq> [] \<Longrightarrow> word_at m' (hd fl + 8) = word_at m (hd fl + 8)" using Cons.prems(2) by simp
  ultimately show ?case using Cons.prems(1) by simp
qed simp

text \<open>A change of the links of the nodes in \<open>F\<close> only.\<close>

definition links_only :: "nat set \<Rightarrow> (nat \<Rightarrow> u8) \<Rightarrow> (nat \<Rightarrow> u8) \<Rightarrow> bool" where
  "links_only F m m' \<longleftrightarrow> (\<forall>y. m' y \<noteq> m y \<longrightarrow> (\<exists>f \<in> F. f + 8 \<le> y \<and> y < f + 24))"

lemma links_only_refl [simp]: "links_only F m m"
  by (simp add: links_only_def)

lemma links_only_trans: "links_only F m m' \<Longrightarrow> links_only F m' m'' \<Longrightarrow> links_only F m m''"
  unfolding links_only_def by metis

lemma links_only_mono: "links_only F m m' \<Longrightarrow> F \<subseteq> G \<Longrightarrow> links_only G m m'"
  by (fastforce simp: links_only_def)

lemma links_only_put:
  assumes "f \<in> F"
  shows "links_only F m (put_word (f + 8) w m)" "links_only F m (put_word (f + 16) w m)"
proof -
  have "f + 8 \<le> y \<and> y < f + 24" if "put_word (f + 8) w m y \<noteq> m y \<or> put_word (f + 16) w m y \<noteq> m y" for y
    using that put_word_other [of y "f + 8" w m] put_word_other [of y "f + 16" w m] by force
  with assms show "links_only F m (put_word (f + 8) w m)" "links_only F m (put_word (f + 16) w m)"
    unfolding links_only_def by blast+
qed

text \<open>Changes of links leave headers, footers and payloads alone.\<close>

lemma chain_links:
  assumes "chain (framed m) a bs" "ok_sizes 32 bs"
    "\<And>y. a \<le> y \<Longrightarrow> m' y \<noteq> m y \<Longrightarrow> \<exists>f \<in> set (free_at a bs). f + 8 \<le> y \<and> y < f + 24"
  shows "chain (framed m') a bs \<and> same_payloads 16 a bs m m'"
  using assms
proof (induction a bs rule: free_at.induct)
  case (2 a n used bs)
  have n: "32 \<le> n" "ok_sizes 32 bs" using "2.prems"(2) by simp_all
  have later: "a + n \<le> f" if "f \<in> set (free_at (a + n) bs)" for f using free_at_bounds [OF that n(2)] by simp
  have same: "m' y = m y" if y: "a \<le> y" "y < a + n" "y < a + 8 \<or> a + 24 \<le> y \<or> used" for y
  proof (rule ccontr)
    assume "m' y \<noteq> m y"
    from "2.prems"(3) [OF y(1) this] obtain f where f: "f \<in> set (free_at a ((n, used) # bs))" "f + 8 \<le> y" "y < f + 24" by blast
    then consider "f = a" "\<not> used" | "a + n \<le> f" using later by (auto split: if_splits)
    then show False using f y by cases auto
  qed
  have "framed m' a (n, used)"
  proof -
    have "word_at m' a = word_at m a" using same n(1) by (intro word_at_cong) simp
    moreover have "word_at m' (a + n - 8) = word_at m (a + n - 8)"
    proof (rule word_at_cong)
      fix y assume "a + n - 8 \<le> y" "y < a + n - 8 + 8"
      then have "a \<le> y" "a + 24 \<le> y" "y < a + n" using n(1) by arith+
      then show "m' y = m y" using same by blast
    qed
    ultimately show ?thesis using "2.prems"(1) by (simp add: framed_def)
  qed
  moreover have "chain (framed m') (a + n) bs \<and> same_payloads 16 (a + n) bs m m'"
  proof (rule "2.IH")
    fix y assume y: "a + n \<le> y" "m' y \<noteq> m y"
    then have "a \<le> y" by simp
    from "2.prems"(3) [OF this y(2)] obtain f where "f \<in> set (free_at a ((n, used) # bs))" "f + 8 \<le> y" "y < f + 24" by blast
    with y(1) n(1) show "\<exists>f \<in> set (free_at (a + n) bs). f + 8 \<le> y \<and> y < f + 24" by (auto split: if_splits)
  qed (use "2.prems" in simp_all)
  moreover have "m' y = m y" if "used" "a + 8 \<le> y" "y < a + 8 + (n - 16)" for y
  proof -
    have "a \<le> y" "y < a + n" using that(2,3) n(1) by arith+
    then show ?thesis using that(1) same by blast
  qed
  ultimately show ?case by simp
qed (simp add: same_payloads_def)

section \<open>List operations\<close>

text \<open>The nodes are mapped, and their addresses fit a word.\<close>

definition nodes_ok :: "'a memlib_scheme \<Rightarrow> nat set \<Rightarrow> bool" where
  "nodes_ok s F \<longleftrightarrow> spaced F \<and> (\<forall>f \<in> F. 0 < f \<and> f < 2 ^ 63 \<and> mapped s f 32)"

lemma nodes_ok_sub: "nodes_ok s F \<Longrightarrow> G \<subseteq> F \<Longrightarrow> nodes_ok s G"
  by (auto simp: nodes_ok_def dest: spaced_sub)

lemma nodes_ok_mem [simp]:
  "nodes_ok (s\<lparr>mem := m\<rparr>) F = nodes_ok s F"
  "nodes_ok (t\<lparr>free_list_first := x\<rparr>) F = nodes_ok t F" "nodes_ok (t\<lparr>heap_last := x\<rparr>) F = nodes_ok t F"
  by (simp_all add: nodes_ok_def mapped_def)

lemma node_fields:
  assumes "nodes_ok s F" "f \<in> F"
  shows "mapped s (f + 8) 8" "mapped s (f + 16) 8" "unat (of_nat f :: u64) = f" "f \<noteq> 0"
proof -
  have f: "0 < f" "f < 2 ^ 63" "mapped s f 32" using assms by (auto simp: nodes_ok_def)
  then show "mapped s (f + 8) 8" "mapped s (f + 16) 8" "f \<noteq> 0" by (simp_all add: mapped_def)
  have "f < 2 ^ LENGTH(64)" using f(2) by simp
  then show "unat (of_nat f :: u64) = f" by (simp only: unat_of_nat mod_less)
qed

lemma node_apart: "nodes_ok s F \<Longrightarrow> f \<in> F \<Longrightarrow> g \<in> F \<Longrightarrow> f \<noteq> g \<Longrightarrow> f + 32 \<le> g \<or> g + 32 \<le> f"
  by (auto simp: nodes_ok_def spaced_def)

lemma set_fields:
  assumes "nodes_ok s F" "f \<in> F"
  shows "set_left f v s = Inr (s\<lparr>mem := put_word (f + 8) (of_nat v) (mem s)\<rparr>)"
    "set_right f v s = Inr (s\<lparr>mem := put_word (f + 16) (of_nat v) (mem s)\<rparr>)"
  using node_fields [OF assms] by (simp_all add: set_left_def set_right_def write64_eq)

lemma get_fields:
  assumes "nodes_ok s F" "f \<in> F"
  shows "get_left s f = Inr (unat (word_at (mem s) (f + 8)))" "get_right s f = Inr (unat (word_at (mem s) (f + 16)))"
  using node_fields [OF assms] by (simp_all add: get_left_def get_right_def read64_eq)

text \<open>What writing one field does to the others.\<close>

lemma put_left_fields:
  assumes "nodes_ok s F" "f \<in> F" "g \<in> F"
  shows "word_at (put_word (f + 8) w m) (g + 8) = (if g = f then w else word_at m (g + 8))"
    "word_at (put_word (f + 8) w m) (g + 16) = word_at m (g + 16)"
  using node_apart [OF assms(1,2,3)] by (cases "g = f"; force simp: word_at_put_other)+

lemma put_right_fields:
  assumes "nodes_ok s F" "f \<in> F" "g \<in> F"
  shows "word_at (put_word (f + 16) w m) (g + 16) = (if g = f then w else word_at m (g + 16))"
    "word_at (put_word (f + 16) w m) (g + 8) = word_at m (g + 8)"
  using node_apart [OF assms(1,2,3)] by (cases "g = f"; force simp: word_at_put_other)+

lemma add_free_node_ok:
  assumes "linked (mem s) fl 0" "free_list_first s = next_of fl 0" "nodes_ok s (insert x (set fl))" "x \<notin> set fl" "distinct fl"
  shows "\<exists>m. add_free_node x s = Inr (s\<lparr>mem := m, free_list_first := x\<rparr>) \<and> linked m (x # fl) 0 \<and>
    links_only (insert x (set fl)) (mem s) m"
proof (cases fl)
  case Nil
  let ?F = "{x}"
  have nodes: "nodes_ok s ?F" using assms(3) Nil by simp
  let ?m1 = "put_word (x + 8) 0 (mem s)"
  let ?m = "put_word (x + 16) 0 ?m1"
  have "add_free_node x s = Inr (s\<lparr>mem := ?m, free_list_first := x\<rparr>)"
    using assms(2) nodes set_fields(1) [of "s\<lparr>free_list_first := x\<rparr>" ?F x 0]
      set_fields(2) [of "s\<lparr>free_list_first := x, mem := ?m1\<rparr>" ?F x 0]
    by (simp add: add_free_node_def Nil Let_def)
  moreover have "linked ?m (x # fl) 0" by (simp add: Nil)
  moreover have "links_only ?F (mem s) ?m"
    using links_only_put [of x ?F] links_only_trans by blast
  ultimately show ?thesis unfolding Nil by (intro exI [of _ ?m]) simp
next
  case (Cons y ys)
  let ?F = "insert x (set fl)"
  let ?m1 = "put_word (x + 16) (of_nat y) (mem s)"
  let ?m2 = "put_word (y + 8) (of_nat x) ?m1"
  let ?m = "put_word (x + 8) 0 ?m2"
  have y: "y \<in> ?F" "x \<noteq> y" "x \<in> ?F" "y \<noteq> 0" using assms(4) Cons node_fields(4) [OF assms(3), of y] by auto
  have run: "add_free_node x s = Inr (s\<lparr>mem := ?m, free_list_first := x\<rparr>)"
    using assms(2) y set_fields(2) [OF assms(3), of x y] set_fields(1) [of "s\<lparr>mem := ?m1\<rparr>" ?F y x]
      set_fields(1) [of "s\<lparr>mem := ?m2, free_list_first := x\<rparr>" ?F x 0] assms(3)
    by (simp add: add_free_node_def Cons)
  have old: "linked ?m fl 0 = linked (mem s) fl 0"
  proof (rule linked_cong)
    fix f assume f: "f \<in> set fl"
    then have "f \<in> ?F" "f \<noteq> x" using assms(4) by auto
    then show "word_at ?m (f + 16) = word_at (mem s) (f + 16)"
      by (simp only: put_left_fields [OF assms(3)] put_right_fields [OF assms(3)] y) simp
  next
    fix f assume "f \<in> set (tl fl)"
    then have "f \<in> ?F" "f \<noteq> x" "f \<noteq> y" using assms(4,5) Cons by auto
    then show "word_at ?m (f + 8) = word_at (mem s) (f + 8)"
      by (simp only: put_left_fields [OF assms(3)] put_right_fields [OF assms(3)] y) simp
  qed
  have "word_at ?m (x + 16) = of_nat y" "word_at ?m (y + 8) = of_nat x"
    by (simp_all only: put_left_fields [OF assms(3)] put_right_fields [OF assms(3)] y) (simp_all add: y(2) y(2) [symmetric])
  then have "linked ?m (x # fl) 0" using old assms(1) by (simp add: Cons)
  moreover have "links_only ?F (mem s) ?m"
    using links_only_put [OF y(1)] links_only_put [OF y(3)] links_only_trans by metis
  ultimately show ?thesis using run by blast
qed

text \<open>Taking a node out of the list: what remains is linked again. The first node needs no change of links.\<close>

lemma linked_middle:
  assumes "linked m (l1 @ x # l2) 0" "l1 \<noteq> []"
  shows "word_at m (x + 8) = of_nat (last l1)" "word_at m (x + 16) = of_nat (next_of l2 0)"
  using assms by (simp_all add: linked_append)

lemma unlink_middle:
  assumes linked: "linked m (l1 @ x # l2) 0" and nodes: "nodes_ok s (set (l1 @ x # l2))"
    and distinct: "distinct (l1 @ x # l2)" and l1: "l1 \<noteq> []"
    and m': "m' = (let m1 = put_word (last l1 + 16) (of_nat (next_of l2 0)) m
      in if l2 = [] then m1 else put_word (hd l2 + 8) (of_nat (last l1)) m1)"
  shows "linked m' (l1 @ l2) 0"
proof -
  let ?F = "set (l1 @ x # l2)"
  obtain k p where p: "l1 = k @ [p]" using l1 by (cases l1 rule: rev_cases) auto
  let ?m1 = "put_word (p + 16) (of_nat (next_of l2 0)) m"
  have pF: "p \<in> ?F" by (simp add: p)
  note right = put_right_fields [OF nodes pF]
  have k: "linked m k p" "k \<noteq> [] \<longrightarrow> word_at m (p + 8) = of_nat (last k)" and l2: "linked m l2 0"
    using linked by (simp_all add: p linked_append)
  have "linked ?m1 k p = linked m k p"
  proof (rule linked_cong)
    fix f assume "f \<in> set k"
    then have "f \<in> ?F" "f \<noteq> p" using distinct by (auto simp: p)
    then show "word_at ?m1 (f + 16) = word_at m (f + 16)" using right by simp
  next
    fix f assume "f \<in> set (tl k)"
    then have "f \<in> set k" by (rule in_tl)
    then have "f \<in> ?F" by (simp add: p)
    then show "word_at ?m1 (f + 8) = word_at m (f + 8)" using right by simp
  qed
  moreover have "linked ?m1 l2 0 = linked m l2 0"
  proof (rule linked_cong)
    fix f assume "f \<in> set l2"
    then have "f \<in> ?F" "f \<noteq> p" using distinct by (auto simp: p)
    then show "word_at ?m1 (f + 16) = word_at m (f + 16)" using right by simp
  next
    fix f assume "f \<in> set (tl l2)"
    then have "f \<in> ?F" by (cases l2) auto
    then show "word_at ?m1 (f + 8) = word_at m (f + 8)" using right by simp
  qed
  moreover have "word_at ?m1 (p + 16) = of_nat (next_of l2 0)" "word_at ?m1 (p + 8) = word_at m (p + 8)"
    using right(1) [OF pF] right(2) [OF pF] by simp_all
  ultimately have m1: "linked ?m1 l1 (next_of l2 0)" "linked ?m1 l2 0" using k l2 by (simp_all add: p linked_append)
  show ?thesis
  proof (cases l2)
    case Nil
    with m1 m' show ?thesis by (simp add: p)
  next
    case (Cons y ys)
    let ?m2 = "put_word (y + 8) (of_nat p) ?m1"
    have yF: "y \<in> ?F" by (simp add: Cons)
    note left = put_left_fields [OF nodes yF]
    have "linked ?m2 l1 (next_of l2 0) = linked ?m1 l1 (next_of l2 0)"
    proof (rule linked_cong)
      fix f assume "f \<in> set l1"
      then have "f \<in> ?F" by simp
      then show "word_at ?m2 (f + 16) = word_at ?m1 (f + 16)" using left by simp
    next
      fix f assume "f \<in> set (tl l1)"
      then have "f \<in> set l1" by (rule in_tl)
      then have "f \<in> ?F" "f \<noteq> y" using distinct by (auto simp: Cons)
      then show "word_at ?m2 (f + 8) = word_at ?m1 (f + 8)" using left by simp
    qed
    moreover have "linked ?m2 l2 0 = linked ?m1 l2 0"
    proof (rule linked_cong)
      fix f assume "f \<in> set l2"
      then have "f \<in> ?F" by simp
      then show "word_at ?m2 (f + 16) = word_at ?m1 (f + 16)" using left by simp
    next
      fix f assume "f \<in> set (tl l2)"
      then have "f \<in> ?F" "f \<noteq> y" using distinct by (auto simp: Cons)
      then show "word_at ?m2 (f + 8) = word_at ?m1 (f + 8)" using left by simp
    qed
    moreover have "m' = ?m2" using m' by (simp add: p Cons Let_def)
    ultimately show ?thesis using m1 by (simp add: linked_append Cons p)
  qed
qed

text \<open>Reading the links of a node, in a memory where only other fields changed.\<close>

lemma links_at:
  assumes "linked (mem s) (l1 @ x # l2) 0" "nodes_ok s (set (l1 @ x # l2))"
  shows "get_right s x = Inr (next_of l2 0)" "l1 \<noteq> [] \<Longrightarrow> get_left s x = Inr (last l1)"
proof -
  have x: "x \<in> set (l1 @ x # l2)" by simp
  have "unat (of_nat (next_of l2 0) :: u64) = next_of l2 0"
    using node_fields(3) [OF assms(2), of "hd l2"] by (cases l2) simp_all
  then show "get_right s x = Inr (next_of l2 0)"
    using get_fields(2) [OF assms(2) x] assms(1) by (simp add: linked_append)
  show "get_left s x = Inr (last l1)" if "l1 \<noteq> []"
    using get_fields(1) [OF assms(2) x] linked_middle(1) [OF assms(1) that]
      node_fields(3) [OF assms(2), of "last l1"] that by simp
qed

lemma remove_free_node_ok:
  assumes linked: "linked (mem s) (l1 @ x # l2) 0" and first: "free_list_first s = next_of (l1 @ [x]) 0"
    and nodes: "nodes_ok s (set (l1 @ x # l2))" and distinct: "distinct (l1 @ x # l2)"
  shows "\<exists>m. remove_free_node x s = Inr (s\<lparr>mem := m, free_list_first := next_of (l1 @ l2) 0\<rparr>) \<and>
    linked m (l1 @ l2) 0 \<and> links_only (set (l1 @ l2)) (mem s) m"
proof (cases "l1 = []")
  case True
  then have head: "x = free_list_first s" using first by simp
  have r: "get_right s x = Inr (next_of l2 0)" using links_at(1) [OF linked nodes] .
  show ?thesis
  proof (cases l2)
    case Nil
    with True head r show ?thesis by (intro exI [of _ "mem s"]) (simp add: remove_free_node_def)
  next
    case (Cons y ys)
    let ?m = "put_word (y + 8) 0 (mem s)"
    have y: "y \<in> set (l1 @ x # l2)" by (simp add: Cons)
    have "remove_free_node x s = Inr (s\<lparr>mem := ?m, free_list_first := next_of (l1 @ l2) 0\<rparr>)"
      using head r True Cons node_fields(4) [OF nodes y] set_fields(1) [of "s\<lparr>free_list_first := y\<rparr>" _ y 0] nodes y
      by (simp add: remove_free_node_def)
    moreover have "linked ?m l2 0 = linked (mem s) l2 0"
    proof (rule linked_cong)
      fix f assume "f \<in> set l2"
      then show "word_at ?m (f + 16) = word_at (mem s) (f + 16)" using put_left_fields(2) [OF nodes y] by simp
    next
      fix f assume "f \<in> set (tl l2)"
      then have "f \<in> set (l1 @ x # l2)" "f \<noteq> y" using distinct by (auto simp: Cons)
      then show "word_at ?m (f + 8) = word_at (mem s) (f + 8)" using put_left_fields(1) [OF nodes y] by simp
    qed
    moreover have "links_only (set (l1 @ l2)) (mem s) ?m" by (rule links_only_put) (simp add: Cons)
    ultimately show ?thesis using linked True by (intro exI [of _ ?m]) (simp add: linked_append)
  qed
next
  case False
  let ?p = "last l1"
  let ?m1 = "put_word (?p + 16) (of_nat (next_of l2 0)) (mem s)"
  define m where "m = (let m1 = ?m1 in if l2 = [] then m1 else put_word (hd l2 + 8) (of_nat ?p) m1)"
  have "?p \<in> set l1" using False by simp
  then have "?p \<in> set (l1 @ x # l2)" "?p \<noteq> x" "x \<in> set (l1 @ x # l2)" using distinct by auto
  moreover from this(1) have "?p \<noteq> 0" by (rule node_fields(4) [OF nodes])
  ultimately have p: "?p \<in> set (l1 @ x # l2)" "?p \<noteq> 0" "?p \<noteq> x" "x \<in> set (l1 @ x # l2)" by blast+
  have "x \<noteq> free_list_first s" using first False distinct by (cases l1) auto
  moreover note at = links_at(1) [OF linked nodes] links_at(2) [OF linked nodes False]
  moreover have "nodes_ok (s\<lparr>mem := ?m1\<rparr>) (set (l1 @ x # l2))" using nodes by simp
  then have "get_right (s\<lparr>mem := ?m1\<rparr>) x = Inr (next_of l2 0)" "get_left (s\<lparr>mem := ?m1\<rparr>) x = Inr ?p"
    using at get_fields [OF nodes p(4)] put_right_fields [OF nodes p(1,4)] p(3)
    by (simp_all add: get_fields [OF _ p(4)])
  ultimately have run: "remove_free_node x s = Inr (s\<lparr>mem := m\<rparr>)"
    using p set_fields(2) [OF nodes p(1)] set_fields(1) [of "s\<lparr>mem := ?m1\<rparr>" "set (l1 @ x # l2)" "hd l2" ?p] nodes
      node_fields(4) [OF nodes, of "hd l2"]
    by (cases l2) (simp_all add: remove_free_node_def m_def Let_def)
  have "next_of (l1 @ l2) 0 = free_list_first s" using first False by (cases l1) simp_all
  with run have "remove_free_node x s = Inr (s\<lparr>mem := m, free_list_first := next_of (l1 @ l2) 0\<rparr>)" by simp
  moreover have "linked m (l1 @ l2) 0" by (rule unlink_middle [OF linked nodes distinct False m_def])
  moreover have "links_only (set (l1 @ l2)) (mem s) m"
  proof -
    have pl: "?p \<in> set (l1 @ l2)" using False by simp
    have "links_only (set (l1 @ l2)) (mem s) ?m1" by (rule links_only_put [OF pl])
    moreover have "links_only (set (l1 @ l2)) ?m1 m"
      by (cases l2) (simp_all add: m_def Let_def links_only_put)
    ultimately show ?thesis by (rule links_only_trans)
  qed
  ultimately show ?thesis by blast
qed

end
