(* ===== verification/ExplicitHeap.thy ===== *)
theory ExplicitHeap
  imports FreeList
begin

text \<open>
  The heap of \<open>mm-explicit.c\<close> as a list of blocks and a list of free blocks, and what the functions
  that split, merge, take and release blocks do to the two.
\<close>

section \<open>The invariant\<close>

text \<open>\<open>bs\<close> are the blocks of the heap, \<open>fl\<close> is the free list; \<open>X\<close> holds blocks that are free but, in the middle of
an operation, not in the list.\<close>

definition heap_ok :: "xmm \<Rightarrow> block list \<Rightarrow> nat list \<Rightarrow> nat set \<Rightarrow> bool" where
  "heap_ok s bs fl X \<longleftrightarrow>
     region_ok s \<and> mem_brk s = heap s + 8 + span bs \<and> 8 + span bs \<le> MAX_HEAP \<and> ok_sizes 32 bs \<and>
     chain (framed (mem s)) (heap s + 8) bs \<and>
     heap_first s = (if bs = [] then 0 else heap s + 8) \<and>
     heap_last s = (if bs = [] then 0 else heap s + 8 + span (butlast bs)) \<and>
     distinct fl \<and> linked (mem s) fl 0 \<and> free_list_first s = next_of fl 0 \<and>
     set fl = set (free_at (heap s + 8) bs) - X"

lemma heap_okD:
  assumes "heap_ok s bs fl X"
  shows "region_ok s" "mem_brk s = heap s + 8 + span bs" "8 + span bs \<le> MAX_HEAP" "ok_sizes 32 bs"
    "chain (framed (mem s)) (heap s + 8) bs" "distinct fl" "linked (mem s) fl 0"
    "free_list_first s = next_of fl 0" "set fl = set (free_at (heap s + 8) bs) - X"
  using assms by (simp_all add: heap_ok_def)

lemma heap_ok_last: "heap_ok s (xs @ [b]) fl X \<Longrightarrow> heap_last s = heap s + 8 + span xs"
  by (simp add: heap_ok_def)

lemma heap_ok_sizes: "heap_ok s bs fl X \<Longrightarrow> k \<le> 32 \<Longrightarrow> ok_sizes k bs"
  by (rule ok_sizes_mono [OF heap_okD(4)])

lemma heap_ok_nodes:
  assumes "heap_ok s bs fl X"
  shows "nodes_ok s (set (free_at (heap s + 8) bs))"
proof -
  have "0 < f \<and> f < 2 ^ 63 \<and> mapped s f 32" if "f \<in> set (free_at (heap s + 8) bs)" for f
    using free_at_bounds [OF that heap_okD(4) [OF assms]] heap_okD(1-3) [OF assms]
    by (auto simp: mapped_def region_ok_def)
  then show ?thesis using free_at_spaced [OF heap_okD(4) [OF assms]] by (auto simp: nodes_ok_def)
qed

lemma block_at:
  assumes ok: "heap_ok s (xs @ (n, u) # ys) fl X" and b: "b = heap s + 8 + span xs"
  shows "get_size s b = Inr (of_nat n)" "is_allocated s b = Inr u"
    "read64 s (b + n - 8) = Inr (header_word (of_nat n) u)" "unat (of_nat n :: u64) = n"
    "mapped s b n" "32 \<le> n" "16 dvd n" "b \<noteq> 0" "n < 2 ^ 63"
proof -
  note D = heap_okD [OF ok]
  show n: "mapped s b n" "32 \<le> n" "16 dvd n" "b \<noteq> 0" using D(3,4) by (auto simp: mapped_def b)
  show small: "n < 2 ^ 63" using D(1,3) by (simp add: region_ok_def)
  then have "n < 2 ^ LENGTH(64)" by simp
  then show exact: "unat (of_nat n :: u64) = n" by (simp only: unat_of_nat mod_less)
  have f: "framed (mem s) b (n, u)" using D(5) by (simp add: b)
  have even: "even (unat (of_nat n :: u64))" unfolding exact using n(3) by (auto elim: dvd_trans [rotated])
  have "mapped s b 8" "mapped s (b + n - 8) 8" using n(1,2) by (auto simp: mapped_def)
  with f show "get_size s b = Inr (of_nat n)" "is_allocated s b = Inr u"
    "read64 s (b + n - 8) = Inr (header_word (of_nat n) u)"
    by (simp_all add: get_size_def is_allocated_def read64_eq framed_def size_bits_header alloc_bit_header even)
qed

section \<open>Writing headers\<close>

definition put_header :: "nat \<Rightarrow> nat \<Rightarrow> bool \<Rightarrow> (nat \<Rightarrow> u8) \<Rightarrow> nat \<Rightarrow> u8" where
  "put_header b n u m =
     put_word (b + n - 8) (header_word (of_nat n) u) (put_word b (header_word (of_nat n) u) m)"

lemma set_header_eq:
  assumes "mapped s b n" "32 \<le> n" "unat w = n"
  shows "set_header b w u s = Inr (s\<lparr>mem := put_header b n u (mem s)\<rparr>)"
proof -
  have w: "of_nat n = w" using assms(3) by auto
  have "mapped s b 8" "mapped (s\<lparr>mem := m\<rparr>) (b + n - 8) 8" for m
    using assms(1,2) by (auto simp: mapped_def)
  then show ?thesis by (simp add: set_header_def put_header_def write64_eq assms(3) w)
qed

lemma put_header_framed: "32 \<le> n \<Longrightarrow> framed (put_header b n u m) b (n, u)"
  by (auto simp: framed_def put_header_def word_at_put_other)

lemma put_header_other:
  "32 \<le> n \<Longrightarrow> put_header b n u m y \<noteq> m y \<Longrightarrow> (b \<le> y \<and> y < b + 8) \<or> (b + n - 8 \<le> y \<and> y < b + n)"
  by (auto simp: put_header_def put_word_def split: if_splits)

text \<open>Replacing blocks by others of the same total size.\<close>

lemma retile_memory:
  assumes old: "chain (framed m) a xs" "chain (framed m) (a + span xs + k) ys" "ok_sizes 32 (xs @ ys)"
    and new: "chain (framed m') (a + span xs) new" "span new = k"
    and change: "\<And>y. m' y \<noteq> m y \<Longrightarrow> a + span xs \<le> y \<and> y < a + span xs + k"
  shows "chain (framed m') a (xs @ new @ ys)"
    "same_payloads 16 a xs m m'" "same_payloads 16 (a + span xs + k) ys m m'"
proof -
  have same: "framed m' b (n, v) = framed m b (n, v)"
    if "32 \<le> n" "b + n \<le> a + span xs \<or> a + span xs + k \<le> b" for b n v
  proof -
    have "m' y = m y" if "b \<le> y" "y < b + n" for y using change [of y] that \<open>b + n \<le> _ \<or> _\<close> by fastforce
    then have "word_at m' b = word_at m b" "word_at m' (b + n - 8) = word_at m (b + n - 8)"
      using that(1) by (auto intro!: word_at_cong)
    then show ?thesis by (simp add: framed_def)
  qed
  have least: "32 \<le> n" if "(n, v) \<in> set xs \<or> (n, v) \<in> set ys" for n v
    using that old(3) by (auto simp: ok_sizes_def)
  have "chain (framed m') a xs = chain (framed m) a xs"
    by (rule chain_cong) (use same least in blast)
  moreover have "chain (framed m') (a + span xs + k) ys = chain (framed m) (a + span xs + k) ys"
    by (rule chain_cong) (use same least in blast)
  ultimately show "chain (framed m') a (xs @ new @ ys)" using old(1,2) new by (simp add: add.assoc)
  have sizes: "ok_sizes (16 + 1) xs" "ok_sizes (16 + 1) ys" using old(3) by (auto intro: ok_sizes_mono)
  show "same_payloads 16 a xs m m'"
    by (rule same_payloads_outside [OF _ sizes(1)]) (use change in force)+
  show "same_payloads 16 (a + span xs + k) ys m m'"
    by (rule same_payloads_outside [OF _ sizes(2)]) (use change in force)+
qed

lemma retile_links:
  assumes "linked m fl 0" "\<And>f. f \<in> set fl \<Longrightarrow> f = b \<or> f + 32 \<le> b \<or> b + n \<le> f"
    "\<And>y. m' y \<noteq> m y \<Longrightarrow> b \<le> y \<and> y < b + n \<and> (y < b + 8 \<or> b + 24 \<le> y)"
  shows "linked m' fl 0"
proof -
  have same: "word_at m' (f + 8) = word_at m (f + 8)" "word_at m' (f + 16) = word_at m (f + 16)"
    if "f \<in> set fl" for f
    using assms(2) [OF that] assms(3) by (auto intro!: word_at_cong, (fastforce)+)
  have "linked m' fl 0 = linked m fl 0"
    by (rule linked_cong) (auto simp: same dest: in_tl)
  with assms(1) show ?thesis by simp
qed

text \<open>The whole invariant: the blocks \<open>old\<close> become the blocks \<open>new\<close>.\<close>

lemma heap_retile:
  assumes ok: "heap_ok s (xs @ old @ ys) fl X" and b: "b = heap s + 8 + span xs"
    and new: "new \<noteq> []" "old \<noteq> []" "span new = span old" "ok_sizes 32 new" "chain (framed m) b new"
    and change: "\<And>y. m y \<noteq> mem s y \<Longrightarrow> b \<le> y \<and> y < b + span old \<and> (y < b + 8 \<or> b + 24 \<le> y)"
    and apart: "\<And>f. f \<in> set fl \<Longrightarrow> f = b \<or> f + 32 \<le> b \<or> b + span old \<le> f"
    and last: "l = (if ys = [] then b + span (butlast new) else heap_last s)"
    and free: "set fl = set (free_at (heap s + 8) (xs @ new @ ys)) - Y"
  shows "heap_ok (s\<lparr>mem := m, heap_last := l\<rparr>) (xs @ new @ ys) fl Y"
    "same_payloads 16 (heap s + 8) xs (mem s) m" "same_payloads 16 (b + span old) ys (mem s) m"
proof -
  note D = heap_okD [OF ok]
  have change': "heap s + 8 + span xs \<le> y \<and> y < heap s + 8 + span xs + span old" if "m y \<noteq> mem s y" for y
    using change [OF that] by (simp add: b)
  have "chain (framed (mem s)) (heap s + 8) xs" "chain (framed (mem s)) (heap s + 8 + span xs + span old) ys"
    "ok_sizes 32 (xs @ ys)" using D(4,5) by (simp_all add: add.assoc)
  note mem = retile_memory [OF this new(5) [unfolded b] new(3) change']
  have "linked m fl 0" by (rule retile_links [OF D(7) apart change]) simp_all
  moreover have "heap_last s = heap s + 8 + span (butlast (xs @ new @ ys))" if "ys \<noteq> []"
    using ok that new(3) by (simp add: heap_ok_def butlast_append)
  moreover have "heap_first s = heap s + 8" using ok new(2) by (simp add: heap_ok_def)
  moreover have "region_ok (s\<lparr>mem := m, heap_last := l\<rparr>)" using D(1) by (simp add: region_ok_def)
  ultimately show "heap_ok (s\<lparr>mem := m, heap_last := l\<rparr>) (xs @ new @ ys) fl Y"
    using D(2,3,4,6,8) new mem(1) last free by (simp add: heap_ok_def b butlast_append)
  show "same_payloads 16 (heap s + 8) xs (mem s) m" by (rule mem(2))
  show "same_payloads 16 (b + span old) ys (mem s) m" using mem(3) by (simp add: b)
qed

text \<open>One block, of the size of \<open>old\<close>, in place of the blocks \<open>old\<close>.\<close>

lemma heap_one_block:
  assumes ok: "heap_ok s (xs @ old @ ys) fl X" and b: "b = heap s + 8 + span xs" and n: "n = span old" "32 \<le> n" "old \<noteq> []"
    and apart: "\<And>f. f \<in> set fl \<Longrightarrow> f = b \<or> f + 32 \<le> b \<or> b + n \<le> f"
    and free: "set fl = set (free_at (heap s + 8) (xs @ (n, u) # ys)) - Y"
  defines "m \<equiv> put_header b n u (mem s)"
  shows "heap_ok (s\<lparr>mem := m, heap_last := (if ys = [] then b else heap_last s)\<rparr>) (xs @ (n, u) # ys) fl Y"
    "same_payloads 16 (heap s + 8) xs (mem s) m" "same_payloads 16 (b + n) ys (mem s) m"
proof -
  have "16 dvd span old" using heap_okD(4) [OF ok] by (auto intro: span_aligned)
  then have new: "span [(n, u)] = span old" "ok_sizes 32 [(n, u)]" using n by simp_all
  have f: "chain (framed m) b [(n, u)]" using put_header_framed [OF n(2)] by (simp add: m_def)
  have c: "b \<le> y \<and> y < b + span old \<and> (y < b + 8 \<or> b + 24 \<le> y)" if "m y \<noteq> mem s y" for y
    using put_header_other [OF n(2) that [unfolded m_def]] n(1,2) by auto
  have apart': "f = b \<or> f + 32 \<le> b \<or> b + span old \<le> f" if "f \<in> set fl" for f using apart [OF that] n(1) by simp
  have last: "(if ys = [] then b else heap_last s) = (if ys = [] then b + span (butlast [(n, u)]) else heap_last s)" by simp
  have free': "set fl = set (free_at (heap s + 8) (xs @ [(n, u)] @ ys)) - Y" using free by simp
  note r = heap_retile [OF ok b _ n(3) new f c apart' last free', simplified]
  show "heap_ok (s\<lparr>mem := m, heap_last := (if ys = [] then b else heap_last s)\<rparr>) (xs @ (n, u) # ys) fl Y"
    "same_payloads 16 (heap s + 8) xs (mem s) m" "same_payloads 16 (b + n) ys (mem s) m"
    using r n(1) by simp_all
qed

section \<open>Merging\<close>

lemma last_block_iff:
  assumes ok: "heap_ok s (xs @ (n, u) # ys) fl X" and b: "b = heap s + 8 + span xs"
  shows "heap_last s = b \<longleftrightarrow> ys = []" "b < heap_last s \<longleftrightarrow> ys \<noteq> []" "b \<le> heap_last s"
proof -
  have "32 \<le> n" using heap_okD(4) [OF ok] by simp
  then show "heap_last s = b \<longleftrightarrow> ys = []" "b < heap_last s \<longleftrightarrow> ys \<noteq> []" "b \<le> heap_last s"
    using ok by (auto simp: heap_ok_def b butlast_append)
qed

text \<open>Where the free blocks around a place lie.\<close>

lemma free_around:
  assumes "ok_sizes 32 (xs @ old @ ys)" "b = a + span xs"
  shows "f \<in> set (free_at a xs) \<Longrightarrow> f + 32 \<le> b" "f \<in> set (free_at (b + span old) ys) \<Longrightarrow> b + span old \<le> f"
  using free_at_bounds [of f a xs 32] free_at_bounds [of f "b + span old" ys 32] assms by auto

text \<open>The block at \<open>b\<close> and the one behind it become one; \<open>X\<close> is the one that is not in the list.\<close>

lemma merge_ok:
  assumes ok: "heap_ok s (xs @ (j, False) # (n, False) # ys) fl X" and b: "b = heap s + 8 + span xs"
    and X: "b + j \<in> X" "X \<subseteq> {b, b + j}"
  defines "m \<equiv> put_header b (j + n) False (mem s)"
  defines "s' \<equiv> s\<lparr>mem := m, heap_last := (if ys = [] then b else heap_last s)\<rparr>"
  shows "set_header b (of_nat j + of_nat n) False s = Inr (s\<lparr>mem := m\<rparr>)"
    "heap_ok s' (xs @ (j + n, False) # ys) fl (X - {b + j})"
    "same_payloads 16 (heap s + 8) (xs @ (j + n, False) # ys) (mem s) m"
proof -
  let ?old = "[(j, False), (n, False)]"
  have ok': "heap_ok s (xs @ ?old @ ys) fl X" using ok by simp
  note D = heap_okD [OF ok']
  have j: "32 \<le> j" "32 \<le> n" using D(4) by simp_all
  have size: "unat (of_nat (j + n) :: u64) = j + n"
  proof -
    have "j + n < 2 ^ LENGTH(64)" using D(1,3) by (simp add: region_ok_def)
    then show ?thesis by (simp only: unat_of_nat mod_less)
  qed
  have "mapped s b (j + n)" using D(3) by (simp add: mapped_def b)
  then show "set_header b (of_nat j + of_nat n) False s = Inr (s\<lparr>mem := m\<rparr>)"
    using set_header_eq [of s b "j + n" "of_nat (j + n)"] size j by (simp add: m_def)
  note around = free_around [OF D(4) b]
  have "b + j \<notin> set (free_at (heap s + 8) xs)" "b + j \<notin> set (free_at (b + (j + n)) ys)"
    using around(1) [of "b + j"] around(2) [of "b + j"] j by auto
  moreover have "set (free_at (heap s + 8) (xs @ ?old @ ys)) =
      set (free_at (heap s + 8) xs) \<union> {b, b + j} \<union> set (free_at (b + (j + n)) ys)"
    by (simp add: b add.assoc insert_commute)
  ultimately have fl: "set fl = (set (free_at (heap s + 8) xs) \<union> {b} \<union> set (free_at (b + (j + n)) ys)) - (X - {b + j})"
    using X j unfolding D(9) by auto
  have apart: "f = b \<or> f + 32 \<le> b \<or> b + (j + n) \<le> f" if "f \<in> set fl" for f
    using that around(1) [of f] around(2) [of f] by (auto simp: fl)
  have free: "set fl = set (free_at (heap s + 8) (xs @ (j + n, False) # ys)) - (X - {b + j})"
    unfolding fl by (simp add: b)
  have "j + n = span ?old" "32 \<le> j + n" "?old \<noteq> []" using j by simp_all
  note r = heap_one_block [OF ok' b this apart free, folded m_def]
  show "heap_ok s' (xs @ (j + n, False) # ys) fl (X - {b + j})" unfolding s'_def by (rule r(1))
  show "same_payloads 16 (heap s + 8) (xs @ (j + n, False) # ys) (mem s) m" using r(2,3) by (simp add: b)
qed

text \<open>Changes of the free list.\<close>

lemma heap_relink:
  assumes ok: "heap_ok s bs fl X" and links: "linked m fl' 0" "links_only (set (free_at (heap s + 8) bs)) (mem s) m"
    and fl': "distinct fl'" "set fl' = set (free_at (heap s + 8) bs) - Y"
  shows "heap_ok (s\<lparr>mem := m, free_list_first := next_of fl' 0\<rparr>) bs fl' Y"
    "same_payloads 16 (heap s + 8) bs (mem s) m"
proof -
  note D = heap_okD [OF ok]
  have "\<exists>f \<in> set (free_at (heap s + 8) bs). f + 8 \<le> y \<and> y < f + 24" if "m y \<noteq> mem s y" for y
    using links(2) that by (simp add: links_only_def)
  then have "chain (framed m) (heap s + 8) bs \<and> same_payloads 16 (heap s + 8) bs (mem s) m"
    by (intro chain_links [OF D(5,4)]) blast
  then show "heap_ok (s\<lparr>mem := m, free_list_first := next_of fl' 0\<rparr>) bs fl' Y"
    "same_payloads 16 (heap s + 8) bs (mem s) m"
    using ok links(1) fl' by (simp_all add: heap_ok_def region_ok_def)
qed

lemma heap_unlink:
  assumes ok: "heap_ok s bs (l1 @ x # l2) X"
  shows "\<exists>m. remove_free_node x s = Inr (s\<lparr>mem := m, free_list_first := next_of (l1 @ l2) 0\<rparr>) \<and>
    heap_ok (s\<lparr>mem := m, free_list_first := next_of (l1 @ l2) 0\<rparr>) bs (l1 @ l2) (insert x X) \<and>
    same_payloads 16 (heap s + 8) bs (mem s) m"
proof -
  note D = heap_okD [OF ok]
  have sub: "set (l1 @ x # l2) \<subseteq> set (free_at (heap s + 8) bs)" using D(9) by auto
  from remove_free_node_ok [OF D(7) _ nodes_ok_sub [OF heap_ok_nodes [OF ok] sub] D(6)] D(8)
  obtain m where m: "remove_free_node x s = Inr (s\<lparr>mem := m, free_list_first := next_of (l1 @ l2) 0\<rparr>)"
    "linked m (l1 @ l2) 0" "links_only (set (l1 @ l2)) (mem s) m" by auto
  have "links_only (set (free_at (heap s + 8) bs)) (mem s) m" by (rule links_only_mono [OF m(3)]) (use sub in auto)
  moreover have "set (l1 @ l2) = set (free_at (heap s + 8) bs) - insert x X" using D(6,9) by auto
  moreover have "distinct (l1 @ l2)" using D(6) by auto
  ultimately show ?thesis using heap_relink [OF ok m(2)] m(1) by blast
qed

lemma heap_link:
  assumes ok: "heap_ok s bs fl X" and x: "x \<in> X" "x \<in> set (free_at (heap s + 8) bs)"
  shows "\<exists>m. add_free_node x s = Inr (s\<lparr>mem := m, free_list_first := x\<rparr>) \<and>
    heap_ok (s\<lparr>mem := m, free_list_first := x\<rparr>) bs (x # fl) (X - {x}) \<and>
    same_payloads 16 (heap s + 8) bs (mem s) m"
proof -
  note D = heap_okD [OF ok]
  have sub: "insert x (set fl) \<subseteq> set (free_at (heap s + 8) bs)" using D(9) x(2) by auto
  have x': "x \<notin> set fl" using D(9) x(1) by auto
  from add_free_node_ok [OF D(7,8) nodes_ok_sub [OF heap_ok_nodes [OF ok] sub] x' D(6)]
  obtain m where m: "add_free_node x s = Inr (s\<lparr>mem := m, free_list_first := x\<rparr>)" "linked m (x # fl) 0"
    "links_only (insert x (set fl)) (mem s) m" by blast
  have "links_only (set (free_at (heap s + 8) bs)) (mem s) m" by (rule links_only_mono [OF m(3) sub])
  moreover have "set (x # fl) = set (free_at (heap s + 8) bs) - (X - {x})" using D(9) x by auto
  moreover have "distinct (x # fl)" using D(6) x' by simp
  ultimately show ?thesis using heap_relink [OF ok m(2)] m(1) by (metis next_of_simps(2))
qed

section \<open>coalesce\<close>

text \<open>What the two halves do to the blocks.\<close>

definition merge_left :: "block list \<Rightarrow> nat \<Rightarrow> block list \<times> nat \<times> bool" where
  "merge_left xs n = (if xs \<noteq> [] \<and> \<not> snd (last xs) then (butlast xs, fst (last xs) + n, True) else (xs, n, False))"

definition merge_right :: "nat \<Rightarrow> block list \<Rightarrow> nat \<times> block list" where
  "merge_right n ys = (if ys \<noteq> [] \<and> \<not> snd (hd ys) then (n + fst (hd ys), tl ys) else (n, ys))"

lemma coalesce_left_ok:
  assumes ok: "heap_ok s (xs @ (n, False) # ys) fl {b}" and b: "b = heap s + 8 + span xs"
    and m: "merge_left xs n = (xs', n', flag)"
  defines "b' \<equiv> heap s + 8 + span xs'"
  shows "\<exists>s'. coalesce_left b s = Inr ((b', flag), s') \<and> heap s' = heap s \<and>
    heap_ok s' (xs' @ (n', False) # ys) fl (if flag then {} else {b'}) \<and>
    same_payloads 16 (heap s + 8) (xs' @ (n', False) # ys) (mem s) (mem s')"
proof (cases xs rule: rev_cases)
  case Nil
  with m have r: "xs' = []" "n' = n" "\<not> flag" by (simp_all add: merge_left_def)
  have "heap_first s = b" using ok by (simp add: heap_ok_def b Nil)
  then show ?thesis using ok r by (intro exI [of _ s]) (simp add: coalesce_left_def b b'_def Nil)
next
  case (snoc k e)
  obtain j u where e: "e = (j, u)" by (cases e)
  let ?l = "heap s + 8 + span k"
  have ok1: "heap_ok s (k @ (j, u) # (n, False) # ys) fl {b}" using ok by (simp add: snoc e)
  note L = block_at [OF ok1 refl]
  have N: "get_size s b = Inr (of_nat n)" by (rule block_at(1) [OF ok b])
  have bl: "b = ?l + j" "j \<le> b" by (simp_all add: b snoc e)
  have first: "b \<noteq> heap_first s" using ok L(6) by (simp add: heap_ok_def b snoc e)
  have even: "even j" using L(7) by (auto elim: dvd_trans [rotated])
  have foot: "read64 s (b - 8) = Inr (header_word (of_nat j) u)" using L(3) by (simp add: bl)
  have left: "b - unat (size_bits (header_word (of_nat j) u)) = ?l" using even by (simp add: size_bits_header L(4) bl)
  show ?thesis
  proof (cases u)
    case True
    then have r: "xs' = xs" "n' = n" "\<not> flag" using m by (auto simp: merge_left_def snoc e)
    then show ?thesis using ok first foot left L(2) True
      by (intro exI [of _ s]) (simp add: coalesce_left_def b b'_def Let_def)
  next
    case False
    then have r: "xs' = k" "n' = j + n" "flag" using m by (auto simp: merge_left_def snoc e)
    have ok2: "heap_ok s (k @ (j, False) # (n, False) # ys) fl {b}" using ok1 False by simp
    note M = merge_ok [OF ok2 refl, folded bl(1), simplified]
    have last: "b = heap_last s \<longleftrightarrow> ys = []" using last_block_iff(1) [OF ok b] by auto
    let ?s' = "s\<lparr>mem := put_header ?l (j + n) False (mem s), heap_last := (if ys = [] then ?l else heap_last s)\<rparr>"
    have "coalesce_left b s = Inr ((?l, True), ?s')"
      using first foot left L(1,2) N M(1) last False by (simp add: coalesce_left_def Let_def)
    then show ?thesis using M(2,3) r by (intro exI [of _ ?s']) (simp add: b'_def)
  qed
qed

lemma coalesce_right_ok:
  assumes ok: "heap_ok s (xs @ (n, False) # ys) fl X" and b: "b = heap s + 8 + span xs" and X: "X \<subseteq> {b}"
    and m: "merge_right n ys = (n', ys')"
  defines "fl' \<equiv> (if ys \<noteq> [] \<and> \<not> snd (hd ys) then remove1 (b + n) fl else fl)"
  shows "\<exists>s'. coalesce_right b s = Inr s' \<and> heap s' = heap s \<and> heap_ok s' (xs @ (n', False) # ys') fl' X \<and>
    same_payloads 16 (heap s + 8) (xs @ (n', False) # ys') (mem s) (mem s')"
proof -
  note B = block_at [OF ok b]
  note last = last_block_iff [OF ok b]
  show ?thesis
  proof (cases ys)
    case Nil
    with m have r: "n' = n" "ys' = []" by (simp_all add: merge_right_def)
    have "coalesce_right b s = Inr s" using last(2) by (simp add: coalesce_right_def Nil)
    then show ?thesis using ok r by (intro exI [of _ s]) (simp add: Nil fl'_def)
  next
    case (Cons e zs)
    obtain k u where e: "e = (k, u)" by (cases e)
    have ok1: "heap_ok s ((xs @ [(n, False)]) @ (k, u) # zs) fl X" using ok by (simp add: Cons e)
    have r: "b + n = heap s + 8 + span (xs @ [(n, False)])" by (simp add: b)
    have R: "is_allocated s (b + n) = Inr u" by (rule block_at(2) [OF ok1 r])
    show ?thesis
    proof (cases u)
      case True
      with m have r: "n' = n" "ys' = ys" by (simp_all add: merge_right_def Cons e)
      have "coalesce_right b s = Inr s" using B(1,4) R True by (simp add: coalesce_right_def Let_def)
      then show ?thesis using ok r True by (intro exI [of _ s]) (simp add: fl'_def Cons e)
    next
      case False
      with m have n': "n' = n + k" "ys' = zs" by (simp_all add: merge_right_def Cons e)
      have "b + n \<in> set fl" using heap_okD(9) [OF ok] X B(6) False by (auto simp: Cons e b)
      then obtain l1 l2 where fl: "fl = l1 @ (b + n) # l2" by (auto dest: split_list)
      then have fl': "fl' = l1 @ l2" using heap_okD(6) [OF ok] False by (simp add: fl'_def Cons e remove1_append)
      from heap_unlink [OF ok [unfolded fl]] obtain m1 s1 where u1: "remove_free_node (b + n) s = Inr s1"
        "s1 = s\<lparr>mem := m1, free_list_first := next_of (l1 @ l2) 0\<rparr>"
        "heap_ok s1 (xs @ (n, False) # ys) (l1 @ l2) (insert (b + n) X)"
        "same_payloads 16 (heap s + 8) (xs @ (n, False) # ys) (mem s) m1" by blast
      have s1: "heap s1 = heap s" "heap_last s1 = heap_last s" "mem s1 = m1" by (simp_all add: u1(2))
      have ok2: "heap_ok s1 (xs @ (n, False) # (k, False) # zs) (l1 @ l2) (insert (b + n) X)"
        using u1(3) False by (simp add: Cons e)
      have b1: "b = heap s1 + 8 + span xs" by (simp add: b s1)
      have sizes: "get_size s1 b = Inr (of_nat n)" "get_size s1 (b + n) = Inr (of_nat k)"
        using block_at(1) [OF ok2 b1] block_at(1) [of s1 "xs @ [(n, False)]" k False zs "l1 @ l2" _ "b + n"] ok2 b1 by simp_all
      have X': "insert (b + n) X - {b + n} = X" "insert (b + n) X \<subseteq> {b, b + n}" using X B(6) by auto
      note M = merge_ok [OF ok2 b1 insertI1 X'(2), unfolded s1]
      let ?s' = "s1\<lparr>mem := put_header b (n + k) False m1, heap_last := (if zs = [] then b else heap_last s)\<rparr>"
      have "heap_last s = b + n \<longleftrightarrow> zs = []" using last_block_iff(1) [OF ok1 r] .
      then have "coalesce_right b s = Inr ?s'"
        using B(1,4) R False u1(1) sizes M(1) s1 last(2) Cons by (auto simp: coalesce_right_def Let_def)
      moreover have "heap_ok ?s' (xs @ (n', False) # ys') (l1 @ l2) X"
        using M(2) X'(1) by (simp add: n')
      moreover have "same_payloads 16 (heap s + 8) (xs @ (n', False) # ys') (mem s) (mem ?s')"
      proof (rule same_payloads_trans)
        show "same_payloads 16 (heap s + 8) (xs @ (n', False) # ys') (mem s) m1"
          using u1(4) False by (simp add: Cons e n' add.assoc)
        show "same_payloads 16 (heap s + 8) (xs @ (n', False) # ys') m1 (mem ?s')"
          using M(3) by (simp add: n')
      qed
      ultimately show ?thesis using s1(1) by (intro exI [of _ ?s']) (simp add: fl')
    qed
  qed
qed

text \<open>The blocks after a block of size \<open>n\<close> between \<open>xs\<close> and \<open>ys\<close> has been released.\<close>

definition release :: "block list \<Rightarrow> nat \<Rightarrow> block list \<Rightarrow> block list" where
  "release xs n ys =
     (let (xs', n', flag) = merge_left xs n; (n'', ys') = merge_right n' ys in xs' @ (n'', False) # ys')"

lemma payloads_release: "payloads ov a (release xs n ys) = payloads ov a (xs @ (n, False) # ys)"
proof (cases xs rule: rev_cases)
  case Nil
  then show ?thesis
    by (cases ys) (auto simp: release_def merge_left_def merge_right_def add.assoc)
next
  case (snoc k e)
  then show ?thesis
    by (cases ys; cases e) (auto simp: release_def merge_left_def merge_right_def add.assoc)
qed

text \<open>And the free list; \<open>b\<close> is the address of the block.\<close>

definition release_list :: "nat \<Rightarrow> block list \<Rightarrow> nat \<Rightarrow> block list \<Rightarrow> nat list \<Rightarrow> nat list" where
  "release_list b xs n ys fl =
     (let fl = (if ys \<noteq> [] \<and> \<not> snd (hd ys) then remove1 (b + n) fl else fl) in
      if xs \<noteq> [] \<and> \<not> snd (last xs) then fl else b # fl)"

lemma xcoalesce_ok:
  assumes ok: "heap_ok s (xs @ (n, False) # ys) fl {b}" and b: "b = heap s + 8 + span xs"
  shows "\<exists>s'. coalesce b s = Inr s' \<and> heap s' = heap s \<and>
    heap_ok s' (release xs n ys) (release_list b xs n ys fl) {} \<and>
    same_payloads 16 (heap s + 8) (xs @ (n, False) # ys) (mem s) (mem s')"
proof -
  obtain xs' n1 flag where l: "merge_left xs n = (xs', n1, flag)" by (cases "merge_left xs n")
  obtain n2 ys' where r: "merge_right n1 ys = (n2, ys')" by (cases "merge_right n1 ys")
  let ?bs = "xs' @ (n2, False) # ys'" and ?b = "heap s + 8 + span xs'"
  have bs: "release xs n ys = ?bs" by (simp add: release_def l r)
  from coalesce_left_ok [OF ok b l] obtain s1 where s1: "coalesce_left b s = Inr ((?b, flag), s1)"
    "heap s1 = heap s" "heap_ok s1 (xs' @ (n1, False) # ys) fl (if flag then {} else {?b})"
    "same_payloads 16 (heap s + 8) (xs' @ (n1, False) # ys) (mem s) (mem s1)" by blast
  have at: "?b = heap s1 + 8 + span xs'" "(if flag then {} else {?b}) \<subseteq> {?b}" by (simp_all add: s1(2))
  define fl2 where "fl2 = (if ys \<noteq> [] \<and> \<not> snd (hd ys) then remove1 (b + n) fl else fl)"
  have rb: "?b + n1 = b + n" "release_list b xs n ys fl = (if flag then fl2 else ?b # fl2)"
    using l by (cases xs rule: rev_cases; auto simp: merge_left_def release_list_def fl2_def b split: if_splits)+
  obtain s2 where s2: "coalesce_right ?b s1 = Inr s2"
    "heap s2 = heap s1" "heap_ok s2 ?bs fl2 (if flag then {} else {?b})"
    "same_payloads 16 (heap s1 + 8) ?bs (mem s1) (mem s2)"    using coalesce_right_ok [OF s1(3) at r, unfolded rb(1), folded fl2_def] by blast
  have same: "same_payloads 16 a (release xs n ys) = same_payloads 16 a (xs @ (n, False) # ys)" for a
    by (rule same_payloads_eq [OF payloads_release])
  have "payloads 16 (heap s + 8) (xs' @ (n1, False) # ys) = payloads 16 (heap s + 8) ?bs"
    using r by (cases ys) (auto simp: merge_right_def add.assoc)
  from same_payloads_eq [OF this] have keep: "same_payloads 16 (heap s + 8) ?bs (mem s) (mem s2)"
    using s1(4) s2(4) unfolding s1(2) by (metis same_payloads_trans)
  show ?thesis
  proof (cases flag)
    case True
    with s1 s2 keep bs show ?thesis
      by (intro exI [of _ s2]) (simp add: coalesce_def same [symmetric] rb)
  next
    case False
    then have "heap_ok s2 ?bs fl2 {?b}" "?b \<in> set (free_at (heap s2 + 8) ?bs)" using s1(2) s2(2,3) by simp_all
    from heap_link [OF this(1) _ this(2)] obtain m where m:
      "add_free_node ?b s2 = Inr (s2\<lparr>mem := m, free_list_first := ?b\<rparr>)"
      "heap_ok (s2\<lparr>mem := m, free_list_first := ?b\<rparr>) ?bs (?b # fl2) ({?b} - {?b})"
      "same_payloads 16 (heap s2 + 8) ?bs (mem s2) m" by blast
    have "same_payloads 16 (heap s + 8) ?bs (mem s) m"
      using keep m(3) s1(2) s2(2) by (auto intro: same_payloads_trans)
    then show ?thesis using s1 s2 m bs False
      by (intro exI [of _ "s2\<lparr>mem := m, free_list_first := ?b\<rparr>"])
        (simp add: coalesce_def same [symmetric] rb)
  qed
qed

section \<open>Taking a block\<close>

text \<open>A free block of size \<open>n\<close> is cut when the rest is at least 32 bytes.\<close>

definition carve :: "nat \<Rightarrow> nat \<Rightarrow> bool \<Rightarrow> block list" where
  "carve k n u = (if 32 \<le> n - k then [(k, u), (n - k, False)] else [(n, u)])"

lemma span_carve: "k \<le> n \<Longrightarrow> span (carve k n u) = n"
  by (simp add: carve_def)

lemma split_memory_ok:
  assumes ok: "heap_ok s (xs @ (n, False) # ys) fl {}" and b: "b = heap s + 8 + span xs"
    and k: "32 \<le> k" "16 dvd k" "32 \<le> n - k"
  defines "m \<equiv> put_header (b + k) (n - k) False (put_header b k False (mem s))"
  shows "heap_ok (s\<lparr>mem := m, heap_last := (if ys = [] then b + k else heap_last s)\<rparr>)
      (xs @ [(k, False), (n - k, False)] @ ys) fl {b + k}"
    "same_payloads 16 (heap s + 8) (xs @ [(k, False), (n - k, False)] @ ys) (mem s) m"
proof -
  let ?old = "[(n, False)]" and ?new = "[(k, False), (n - k, False)]"
  have ok': "heap_ok s (xs @ ?old @ ys) fl {}" using ok by simp
  note D = heap_okD [OF ok']
  have new: "?new \<noteq> []" "?old \<noteq> []" "span ?new = span ?old" "ok_sizes 32 ?new"
    using k D(4) by (auto intro: dvd_diff_nat)
  have outside: "b \<le> y \<and> y < b + span ?old \<and> (y < b + 8 \<or> b + 24 \<le> y)" if "m y \<noteq> mem s y" for y
  proof -
    consider "m y \<noteq> put_header b k False (mem s) y" | "put_header b k False (mem s) y \<noteq> mem s y"
      using \<open>m y \<noteq> mem s y\<close> by metis
    then show ?thesis
    proof cases
      case 1
      from put_header_other [OF k(3) 1 [unfolded m_def]] k show ?thesis by auto
    next
      case 2
      from put_header_other [OF k(1) 2] k show ?thesis by auto
    qed
  qed
  have "framed m b (k, False)"
  proof -
    have same: "m y = put_header b k False (mem s) y" if "y < b + k" for y
    proof (rule ccontr)
      assume "m y \<noteq> put_header b k False (mem s) y"
      from put_header_other [OF k(3) this [unfolded m_def]] that k(3) show False by auto
    qed
    have "word_at m b = word_at (put_header b k False (mem s)) b"
      "word_at m (b + k - 8) = word_at (put_header b k False (mem s)) (b + k - 8)"
      using k(1) by (auto intro!: word_at_cong same)
    then show ?thesis using put_header_framed [OF k(1), of b False "mem s"] by (simp add: framed_def)
  qed
  then have frame: "chain (framed m) b ?new" using put_header_framed [OF k(3)] by (simp add: m_def)
  note around = free_around [OF D(4) b]
  have fl: "set fl = set (free_at (heap s + 8) xs) \<union> {b} \<union> set (free_at (b + n) ys)"
    using D(9) by (auto simp: b)
  have apart: "f = b \<or> f + 32 \<le> b \<or> b + span ?old \<le> f" if "f \<in> set fl" for f
    using that around [of f] by (auto simp: fl)
  have "b + k \<notin> set (free_at (heap s + 8) xs)" "b + k \<notin> set (free_at (b + n) ys)"
    using around(1) [of "b + k"] around(2) [of "b + k"] k by auto
  moreover have "set (free_at (heap s + 8) (xs @ ?new @ ys)) =
      set (free_at (heap s + 8) xs) \<union> {b, b + k} \<union> set (free_at (b + n) ys)"
    using k by (auto simp: b add.assoc)
  ultimately have free: "set fl = set (free_at (heap s + 8) (xs @ ?new @ ys)) - {b + k}"
    using k(1) unfolding fl by auto
  have last: "(if ys = [] then b + k else heap_last s) = (if ys = [] then b + span (butlast ?new) else heap_last s)" by simp
  note r = heap_retile [OF ok' b new frame outside apart last free]
  show "heap_ok (s\<lparr>mem := m, heap_last := (if ys = [] then b + k else heap_last s)\<rparr>) (xs @ ?new @ ys) fl {b + k}"
    by (rule r(1))
  show "same_payloads 16 (heap s + 8) (xs @ ?new @ ys) (mem s) m" using r(2,3) k by (simp add: b add.assoc)
qed

lemma least_block: "round_up (16 + ALIGNMENT) ALIGNMENT = 32"
proof -
  have "16 + ALIGNMENT = of_nat 32 + 0" by (simp add: ALIGNMENT_def)
  moreover have "unat (round_up (of_nat 32 + 0) ALIGNMENT) = unat (32 :: u64)" by (subst round_up_exact) simp_all
  then have "round_up (of_nat 32 + 0) ALIGNMENT = (32 :: u64)" by (rule word_unat_eq_iff [THEN iffD2])
  ultimately show ?thesis by (simp only:)
qed

lemma take_block_ok:
  assumes ok: "heap_ok s (xs @ (n, False) # ys) (l1 @ b # l2) {}" and b: "b = heap s + 8 + span xs"
    and k: "32 \<le> unat w" "16 dvd unat w" "unat w \<le> n"
  shows "\<exists>s'. take_block w b s = Inr (b, s') \<and> heap s' = heap s \<and>
    heap_ok s' (xs @ carve (unat w) n False @ ys) ((if 32 \<le> n - unat w then [b + unat w] else []) @ l1 @ l2) {b} \<and>
    same_payloads 16 (heap s + 8) (xs @ carve (unat w) n False @ ys) (mem s) (mem s')"
proof -
  let ?k = "unat w" and ?bs = "xs @ (n, False) # ys"
  note B = block_at [OF ok b]
  have rest: "unat (of_nat n - w) = n - ?k" using k(3) B(4) by (simp add: unat_sub word_le_nat_alt)
  have cut: "(32 :: u64) \<le> of_nat n - w \<longleftrightarrow> 32 \<le> n - ?k" by (simp add: word_le_nat_alt rest)
  note D = heap_okD [OF ok]
  show ?thesis
  proof (cases "32 \<le> n - ?k")
    case True
    let ?h = "put_header b ?k False (mem s)"
    let ?m = "put_header (b + ?k) (n - ?k) False ?h" and ?l = "if ys = [] then b + ?k else heap_last s"
    let ?s1 = "s\<lparr>mem := ?m, heap_last := ?l\<rparr>" and ?bs' = "xs @ [(?k, False), (n - ?k, False)] @ ys"
    note S = split_memory_ok [OF ok b k(1,2) True]
    have "mapped s b ?k" "mapped (s\<lparr>mem := ?h\<rparr>) (b + ?k) (n - ?k)"
      using B(5) k(3) by (auto simp: mapped_def)
    then have h: "set_header b w False s = Inr (s\<lparr>mem := ?h\<rparr>)"
      "set_header (b + ?k) (of_nat n - w) False (s\<lparr>mem := ?h\<rparr>) = Inr (s\<lparr>mem := ?m\<rparr>)"
      using set_header_eq [of s b ?k w] set_header_eq [of "s\<lparr>mem := ?h\<rparr>" "b + ?k" "n - ?k" "of_nat n - w"] k(1) True rest
      by simp_all
    have after: "heap_last s < b + ?k \<longleftrightarrow> ys = []"
      using last_block_iff [OF ok b] k True ok by (cases ys) (auto simp: heap_ok_def b butlast_append split: if_splits)
    have last: "(if heap_last s < b + ?k then s\<lparr>mem := ?m, heap_last := b + ?k\<rparr> else s\<lparr>mem := ?m\<rparr>) = ?s1"
      unfolding after by simp
    from heap_unlink [OF S(1)] obtain m2 s2 where u: "remove_free_node b ?s1 = Inr s2"
      "s2 = ?s1\<lparr>mem := m2, free_list_first := next_of (l1 @ l2) 0\<rparr>" "heap_ok s2 ?bs' (l1 @ l2) (insert b {b + ?k})"
      "same_payloads 16 (heap ?s1 + 8) ?bs' (mem ?s1) m2" by blast
    have "b + ?k \<in> set (free_at (heap s2 + 8) ?bs')" by (simp add: u(2) b)
    from heap_link [OF u(3) _ this] obtain m3 s3 where a: "add_free_node (b + ?k) s2 = Inr s3"
      "s3 = s2\<lparr>mem := m3, free_list_first := b + ?k\<rparr>" "heap_ok s3 ?bs' ((b + ?k) # l1 @ l2) (insert b {b + ?k} - {b + ?k})"
      "same_payloads 16 (heap s2 + 8) ?bs' (mem s2) m3" by blast
    have "take_block w b s = Inr (b, s3)"
      using B(1) h last u(1) a(1) True by (simp add: take_block_def least_block cut Let_def)
    moreover have "insert b {b + ?k} - {b + ?k} = {b}" using k(1) by auto
    moreover have "same_payloads 16 (heap s + 8) ?bs' (mem s) (mem s3)"
      using same_payloads_trans [OF same_payloads_trans [OF S(2)]] u(2,4) a(2,4) by simp
    ultimately show ?thesis using a(2,3) u(2) True by (intro exI [of _ s3]) (simp add: carve_def)
  next
    case False
    have bs: "xs @ carve ?k n False @ ys = ?bs" using False by (simp add: carve_def)
    show ?thesis
    proof (cases "l1 = []")
      case True
      have sub: "set (l1 @ b # l2) \<subseteq> set (free_at (heap s + 8) ?bs)" using D(9) by simp
      have r: "get_right s b = Inr (next_of l2 0)"
        by (rule links_at(1) [OF D(7) nodes_ok_sub [OF heap_ok_nodes [OF ok] sub]])
      have "linked (mem s) l2 0" "distinct l2" "set l2 = set (free_at (heap s + 8) ?bs) - {b}"
        using D(6,7,9) True by (auto simp: linked_append)
      from heap_relink [OF ok this(1) _ this(2,3)] have "heap_ok (s\<lparr>free_list_first := next_of l2 0\<rparr>) ?bs l2 {b}" by simp
      moreover have "take_block w b s = Inr (b, s\<lparr>free_list_first := next_of l2 0\<rparr>)"
        using B(1) r D(8) True False by (simp add: take_block_def least_block cut Let_def)
      ultimately show ?thesis using True False unfolding bs by (intro exI [of _ "s\<lparr>free_list_first := next_of l2 0\<rparr>"]) simp
    next
      case l1: False
      have sub: "set (l1 @ b # l2) \<subseteq> set (free_at (heap s + 8) ?bs)" using D(9) by simp
      note nodes = nodes_ok_sub [OF heap_ok_nodes [OF ok] sub]
      have "get_left s b = Inr (last l1)" by (rule links_at(2) [OF D(7) nodes l1])
      moreover have "last l1 \<noteq> 0" by (rule node_fields(4) [OF nodes]) (use l1 in simp)
      moreover have "b \<noteq> free_list_first s" using D(6,8) l1 by (cases l1) auto
      ultimately have "take_block w b s = ebind (remove_free_node b s) (\<lambda>s. Inr (b, s))"
        using B(1) False by (simp add: take_block_def remove_free_node_def least_block cut Let_def ebind_assoc)
      with heap_unlink [OF ok] obtain s' where "take_block w b s = Inr (b, s')" "heap s' = heap s"
        "heap_ok s' ?bs (l1 @ l2) {b}" "same_payloads 16 (heap s + 8) ?bs (mem s) (mem s')" by fastforce
      then show ?thesis using False unfolding bs by (intro exI [of _ s']) simp
    qed
  qed
qed

end
