(* ===== verification/ExplicitMalloc.thy ===== *)
theory ExplicitMalloc
  imports ExplicitHeap
begin

text \<open>
  \<open>mm_malloc\<close>, \<open>mm_free\<close> and \<open>mm_checkheap\<close> of \<open>mm-explicit.c\<close> refine functions on the list of blocks and
  the free list; the package satisfies the contract of \<open>mm.h\<close> and passes the trace driver.
\<close>

section \<open>Searching the free list\<close>

fun size_at :: "nat \<Rightarrow> block list \<Rightarrow> nat \<Rightarrow> nat" where
  "size_at a [] f = 0"
| "size_at a ((n, u) # bs) f = (if f = a then n else size_at (a + n) bs f)"

lemma size_at_split: "ok_sizes 1 xs \<Longrightarrow> size_at a (xs @ (n, u) # ys) (a + span xs) = n"
  by (induction xs arbitrary: a) (auto, (metis add.assoc)?)

lemma free_block_at:
  assumes ok: "heap_ok s bs fl X" and f: "f \<in> set fl"
  obtains xs n ys where "bs = xs @ (n, False) # ys" "f = heap s + 8 + span xs" "size_at (heap s + 8) bs f = n"
proof -
  from f heap_okD(9) [OF ok] have "f \<in> set (free_at (heap s + 8) bs)" by simp
  from free_at_split [OF this] obtain xs n ys where bs: "bs = xs @ (n, False) # ys" "f = heap s + 8 + span xs" by blast
  have "ok_sizes 1 xs" using heap_ok_sizes [OF ok, of 1] by (simp add: bs)
  then have "size_at (heap s + 8) bs f = n" unfolding bs by (rule size_at_split)
  with that [OF bs] show thesis .
qed

lemma search_ok:
  assumes ok: "heap_ok s bs fl {}" and fl: "fl = l0 @ l"
  shows "find_fit_loop w (next_of l 0) s =
    (case find (\<lambda>f. unat w \<le> size_at (heap s + 8) bs f) l of
       None \<Rightarrow> returns (0, s) | Some f \<Rightarrow> Some (take_block w f s))"
  using fl
proof (induction l arbitrary: l0)
  case Nil
  show ?case by (subst find_fit_loop.simps) simp
next
  case (Cons f l)
  have "f \<in> set fl" using Cons.prems by simp
  from free_block_at [OF ok this] obtain xs n ys where bs:
    "bs = xs @ (n, False) # ys" "f = heap s + 8 + span xs" "size_at (heap s + 8) bs f = n" .
  note B = block_at [OF ok [unfolded bs(1)] bs(2)]
  note D = heap_okD [OF ok]
  have fit: "w \<le> of_nat n \<longleftrightarrow> unat w \<le> n" by (simp add: word_le_nat_alt B(4))
  have "set (l0 @ f # l) \<subseteq> set (free_at (heap s + 8) bs)" using D(9) Cons.prems by simp
  from links_at(1) [OF D(7) [unfolded Cons.prems] nodes_ok_sub [OF heap_ok_nodes [OF ok] this]]
  have r: "get_right s f = Inr (next_of l 0)" .
  have "fl = (l0 @ [f]) @ l" using Cons.prems by simp
  from Cons.IH [OF this] show ?case
    by (subst find_fit_loop.simps) (simp add: B(1,8) bs(3) fit r)
qed

section \<open>mm_malloc\<close>

text \<open>A block that is not in the list changes its state.\<close>

lemma mark_ok:
  assumes ok: "heap_ok s (xs @ (n, u) # ys) fl (if u then {} else {b})" and b: "b = heap s + 8 + span xs"
  shows "\<exists>m. set_header b (of_nat n) (\<not> u) s = Inr (s\<lparr>mem := m\<rparr>) \<and>
    heap_ok (s\<lparr>mem := m\<rparr>) (xs @ (n, \<not> u) # ys) fl (if u then {b} else {}) \<and>
    same_payloads 16 (heap s + 8) (xs @ (n, False) # ys) (mem s) m"
proof -
  note B = block_at [OF ok b]
  have ok': "heap_ok s (xs @ [(n, u)] @ ys) fl (if u then {} else {b})" using ok by simp
  note D = heap_okD [OF ok'] and around = free_around [OF heap_okD(4) [OF ok'] b]
  have "b \<notin> set (free_at (heap s + 8) xs)" "b \<notin> set (free_at (b + n) ys)"
    using around [of b] B(6) by auto
  then have fl: "set fl = set (free_at (heap s + 8) xs) \<union> set (free_at (b + n) ys)"
    and free: "set fl = set (free_at (heap s + 8) (xs @ (n, \<not> u) # ys)) - (if u then {b} else {})"
    using D(9) by (auto simp: b split: if_splits)
  have apart: "f = b \<or> f + 32 \<le> b \<or> b + n \<le> f" if "f \<in> set fl" for f
    using that around [of f] by (auto simp: fl)
  have "n = span [(n, u)]" "32 \<le> n" "[(n, u)] \<noteq> []" using B(6) by simp_all
  note r = heap_one_block [OF ok' b this apart free]
  have "(if ys = [] then b else heap_last s) = heap_last s" using last_block_iff(1) [OF ok b] by auto
  then have "s\<lparr>mem := put_header b n (\<not> u) (mem s), heap_last := (if ys = [] then b else heap_last s)\<rparr> =
      s\<lparr>mem := put_header b n (\<not> u) (mem s)\<rparr>" by (simp only:) simp
  moreover have "set_header b (of_nat n) (\<not> u) s = Inr (s\<lparr>mem := put_header b n (\<not> u) (mem s)\<rparr>)"
    by (rule set_header_eq [OF B(5,6,4)])
  ultimately show ?thesis using r by (intro exI [of _ "put_header b n (\<not> u) (mem s)"]) (simp add: b)
qed

lemmas mark_used = mark_ok [where u = False, unfolded if_False not_False_eq_True]
lemmas mark_free = mark_ok [where u = True, unfolded if_True not_True_eq_False]

text \<open>A new block at the end of the heap.\<close>

lemma xextend_ok:
  assumes ok: "heap_ok s bs fl {}" and k: "32 \<le> k" "16 dvd k" "8 + span (bs @ [(k, True)]) \<le> MAX_HEAP" "unat w = k"
  defines "b \<equiv> heap s + 8 + span bs"
  defines "s' \<equiv> s\<lparr>mem_brk := b + k, heap_first := (if heap_first s = 0 then b else heap_first s), heap_last := b\<rparr>"
  shows "\<exists>m. set_header b w True s' = Inr (s'\<lparr>mem := m\<rparr>) \<and> heap_ok (s'\<lparr>mem := m\<rparr>) (bs @ [(k, True)]) fl {} \<and>
    same_payloads 16 (heap s + 8) bs (mem s) m"
proof -
  note D = heap_okD [OF ok]
  let ?m = "put_header b k True (mem s)"
  have other: "b \<le> y \<and> y < b + k" if "?m y \<noteq> mem s y" for y
    using put_header_other [OF k(1) that] k(1) by auto
  have new: "chain (framed ?m) b [(k, True)]" "span [(k, True)] = k" using put_header_framed [OF k(1)] by simp_all
  have old: "chain (framed (mem s)) (heap s + 8) bs" "chain (framed (mem s)) (heap s + 8 + span bs + k) []"
    "ok_sizes 32 (bs @ [])" using D(4,5) by simp_all
  note mem = retile_memory [OF old new [unfolded b_def] other [unfolded b_def], folded b_def]
  have apart: "f = b \<or> f + 32 \<le> b \<or> b + k \<le> f" if "f \<in> set fl" for f
    using that D(9) free_at_bounds [of f "heap s + 8" bs 32] D(4) by (simp add: b_def)
  have "b \<le> y \<and> y < b + k \<and> (y < b + 8 \<or> b + 24 \<le> y)" if "?m y \<noteq> mem s y" for y
    using put_header_other [OF k(1) that] k(1) by auto
  from retile_links [OF D(7) apart this] have "linked ?m fl 0" by blast
  moreover have "heap_first s = (if bs = [] then 0 else heap s + 8)" using ok by (simp add: heap_ok_def)
  moreover have "region_ok (s'\<lparr>mem := ?m\<rparr>)" using D(1) by (simp add: region_ok_def s'_def)
  ultimately have "heap_ok (s'\<lparr>mem := ?m\<rparr>) (bs @ [(k, True)]) fl {}"
    using D k mem(1) unfolding heap_ok_def by (simp add: s'_def b_def)
  moreover have "mapped s' b k" using k(3) by (simp add: mapped_def s'_def b_def)
  then have "set_header b w True s' = Inr (s'\<lparr>mem := ?m\<rparr>)"
    using set_header_eq [OF _ k(1,4), of s' b True] by (simp add: s'_def)
  ultimately show ?thesis using mem(2) by blast
qed

text \<open>What \<open>mm_malloc\<close> of a block of \<open>k\<close> bytes does to the blocks, the first of which is at \<open>a\<close>, and to the free
list: the first block of the list that is large enough is taken and cut.\<close>

fun carve_at :: "nat \<Rightarrow> nat \<Rightarrow> nat \<Rightarrow> block list \<Rightarrow> block list" where
  "carve_at k f a [] = []"
| "carve_at k f a ((n, u) # bs) = (if f = a then carve k n True @ bs else (n, u) # carve_at k f (a + n) bs)"

definition place :: "nat \<Rightarrow> nat \<Rightarrow> block list \<Rightarrow> nat list \<Rightarrow> nat \<times> block list \<times> nat list" where
  "place a k bs fl =
     (case find (\<lambda>f. k \<le> size_at a bs f) fl of
        None \<Rightarrow> (a + span bs, bs @ [(k, True)], fl)
      | Some f \<Rightarrow> (f, carve_at k f a bs, (if 32 \<le> size_at a bs f - k then [f + k] else []) @ remove1 f fl))"

lemma carve_at_split:
  "ok_sizes 1 xs \<Longrightarrow> carve_at k (a + span xs) a (xs @ (n, u) # ys) = xs @ carve k n True @ ys"
  by (induction xs arbitrary: a) (auto, (metis add.assoc)?)

lemma malloc_takes:
  assumes ok: "heap_ok s (xs @ (n, False) # ys) (l1 @ b # l2) {}" and b: "b = heap s + 8 + span xs"
    and k: "32 \<le> unat w" "16 dvd unat w" "unat w \<le> n"
  shows "\<exists>s1 s'. take_block w b s = Inr (b, s1) \<and>
    rbind (Some (get_size s1 b)) (\<lambda>n. rbind (Some (set_header b n True s1)) (\<lambda>s. returns (b + 8, s))) =
      returns (b + 8, s') \<and> heap s' = heap s \<and>
    heap_ok s' (xs @ carve (unat w) n True @ ys) ((if 32 \<le> n - unat w then [b + unat w] else []) @ l1 @ l2) {} \<and>
    same_payloads 16 (heap s + 8) (xs @ (n, False) # ys) (mem s) (mem s')"
proof -
  let ?fl = "(if 32 \<le> n - unat w then [b + unat w] else []) @ l1 @ l2"
  define k' zs where "k' = (if 32 \<le> n - unat w then unat w else n)"
    and "zs = (if 32 \<le> n - unat w then [(n - unat w, False)] else [])"
  have carve: "carve (unat w) n u = (k', u) # zs" for u by (simp add: carve_def k'_def zs_def)
  from take_block_ok [OF ok b k] obtain s1 where s1: "take_block w b s = Inr (b, s1)" "heap s1 = heap s"
    "heap_ok s1 (xs @ (k', False) # zs @ ys) ?fl {b}"
    "same_payloads 16 (heap s + 8) (xs @ (k', False) # zs @ ys) (mem s) (mem s1)" unfolding carve append_Cons by blast
  have b1: "b = heap s1 + 8 + span xs" by (simp add: b s1(2))
  from mark_used [OF s1(3) b1] obtain m where m: "set_header b (of_nat k') True s1 = Inr (s1\<lparr>mem := m\<rparr>)"
    "heap_ok (s1\<lparr>mem := m\<rparr>) (xs @ (k', True) # zs @ ys) ?fl {}"
    "same_payloads 16 (heap s1 + 8) (xs @ (k', False) # zs @ ys) (mem s1) m" by blast
  have "same_payloads 16 (heap s + 8) (xs @ (k', False) # zs @ ys) (mem s) m"
    using s1(2,4) m(3) by (auto intro: same_payloads_trans)
  moreover have "payloads 16 (heap s + 8) (xs @ (k', False) # zs @ ys) = payloads 16 (heap s + 8) (xs @ (n, False) # ys)"
    using k(3) by (simp add: k'_def zs_def add.assoc)
  ultimately have "same_payloads 16 (heap s + 8) (xs @ (n, False) # ys) (mem s) m" using same_payloads_eq by metis
  then show ?thesis using s1(1,2) m(1,2) block_at(1) [OF s1(3) b1]
    by (intro exI [of _ s1] exI [of _ "s1\<lparr>mem := m\<rparr>"]) (simp add: carve)
qed

definition xblock_need :: "nat \<Rightarrow> nat" where
  "xblock_need n = (16 + n + 15) div 16 * 16"

lemma xblock_need_ok: "1 \<le> n \<Longrightarrow> 32 \<le> xblock_need n" "16 dvd xblock_need n" "n \<le> xblock_need n - 16"
  by (simp_all add: xblock_need_def, arith?)

lemma malloc_refined:
  assumes ok: "heap_ok s bs fl {}" and n: "1 \<le> unat n" "unat n + 31 < 2 ^ 64"
    and p: "place (heap s + 8) (xblock_need (unat n)) bs fl = (b, bs', fl')"
  shows "if 8 + span bs' \<le> MAX_HEAP
    then \<exists>s'. mm_malloc n s = returns (b + 8, s') \<and> heap s' = heap s \<and> heap_ok s' bs' fl' {} \<and>
      same_payloads 16 (heap s + 8) bs (mem s) (mem s')
    else mm_malloc n s = returns (0, s)"
proof -
  define w where "w = round_up (16 + n) ALIGNMENT"
  have w: "unat w = xblock_need (unat n)"
    using round_up_exact [of n 16] n(2) by (simp add: w_def xblock_need_def)
  have k: "32 \<le> unat w" "16 dvd unat w" using xblock_need_ok n(1) by (simp_all add: w)
  note D = heap_okD [OF ok]
  let ?a = "heap s + 8"
  have fit: "find_fit w s =
      (case find (\<lambda>f. unat w \<le> size_at ?a bs f) fl of None \<Rightarrow> returns (0, s) | Some f \<Rightarrow> Some (take_block w f s))"
    using search_ok [OF ok, of "[]" fl w] D(8) by (simp add: find_fit_def)
  show ?thesis
  proof (cases "find (\<lambda>f. unat w \<le> size_at ?a bs f) fl")
    case None
    then have r: "b = ?a + span bs" "bs' = bs @ [(unat w, True)]" "fl' = fl" using p by (simp_all add: place_def w)
    have brk: "mem_sbrk w s = (if mem_brk s + unat w \<le> heap s + MAX_HEAP
        then (Some b, s\<lparr>mem_brk := b + unat w\<rparr>) else (None, s))"
      using mem_sbrk_eq [of s w] D(1,2) r(1) by (simp add: region_ok_def)
    show ?thesis
    proof (cases "8 + span bs' \<le> MAX_HEAP")
      case True
      from xextend_ok [OF ok k True [unfolded r(2)] refl] r(1) obtain s1 m where
        s1: "s1 = s\<lparr>mem_brk := b + unat w, heap_first := (if heap_first s = 0 then b else heap_first s), heap_last := b\<rparr>"
        "set_header b w True s1 = Inr (s1\<lparr>mem := m\<rparr>)" "heap_ok (s1\<lparr>mem := m\<rparr>) bs' fl' {}"
        "same_payloads 16 ?a bs (mem s) m" by (auto simp: r(2,3))
      have brk': "mem_sbrk w s = (Some b, s\<lparr>mem_brk := b + unat w\<rparr>)" using brk True D(2) r(2) by simp
      have "find_fit w s = returns (0, s)" using fit None by simp
      then have "mm_malloc n s = returns (b + 8, s1\<lparr>mem := m\<rparr>)"
        using s1(2) by (cases "heap_first s = 0") (simp_all add: mm_malloc_def w_def [symmetric] brk' s1(1) Let_def)
      then show ?thesis using s1 True by auto
    next
      case False
      then show ?thesis using fit None brk D(2) r(2) by (simp add: mm_malloc_def w_def [symmetric] Let_def)
    qed
  next
    case (Some f)
    then obtain l1 l2 where fl: "fl = l1 @ f # l2" and large: "unat w \<le> size_at ?a bs f"
      by (auto simp: find_Some_iff dest: id_take_nth_drop)
    from free_block_at [OF ok, of f] fl obtain xs j ys where bs: "bs = xs @ (j, False) # ys" "f = ?a + span xs"
      "size_at ?a bs f = j" by auto
    have "ok_sizes 1 xs" using heap_ok_sizes [OF ok, of 1] by (simp add: bs(1))
    from carve_at_split [OF this, of "unat w" ?a j False ys]
    have r: "b = f" "bs' = xs @ carve (unat w) j True @ ys"
      "fl' = (if 32 \<le> j - unat w then [f + unat w] else []) @ l1 @ l2"
      using p Some D(6) bs by (auto simp: place_def w fl remove1_append)
    from malloc_takes [OF ok [unfolded bs(1) fl] bs(2) k large [unfolded bs(3)]] obtain s1 s' where
      t: "take_block w b s = Inr (b, s1)"
        "rbind (Some (get_size s1 b)) (\<lambda>n. rbind (Some (set_header b n True s1)) (\<lambda>s. returns (b + 8, s))) = returns (b + 8, s')"
      and s': "heap s' = heap s" "heap_ok s' bs' fl' {}" "same_payloads 16 ?a bs (mem s) (mem s')"
      using bs(3) unfolding r bs(1) by auto
    have "find_fit w s = returns (b, s1)" using fit Some t(1) r(1) by (simp add: returns_def)
    moreover have "b \<noteq> 0" using bs(2) r(1) by simp
    ultimately have "mm_malloc n s = returns (b + 8, s')"
      using t(2) by (simp add: mm_malloc_def w_def [symmetric] Let_def)
    moreover have "8 + span bs' \<le> MAX_HEAP" using heap_okD(3) [OF s'(2)] s'(1) by simp
    ultimately show ?thesis using s' by auto
  qed
qed

section \<open>mm_free and mm_checkheap\<close>

lemma free_refined:
  assumes ok: "heap_ok s (xs @ (n, True) # ys) fl {}" and b: "b = heap s + 8 + span xs"
  shows "\<exists>s'. mm_free (b + 8) s = returns s' \<and> heap s' = heap s \<and>
    heap_ok s' (release xs n ys) (release_list b xs n ys fl) {} \<and>
    same_payloads 16 (heap s + 8) (xs @ (n, False) # ys) (mem s) (mem s')"
proof -
  from mark_free [OF ok b] obtain m where m: "set_header b (of_nat n) False s = Inr (s\<lparr>mem := m\<rparr>)"
    "heap_ok (s\<lparr>mem := m\<rparr>) (xs @ (n, False) # ys) fl {b}"
    "same_payloads 16 (heap s + 8) (xs @ (n, False) # ys) (mem s) m" by blast
  from xcoalesce_ok [OF m(2)] b obtain s' where "coalesce b (s\<lparr>mem := m\<rparr>) = Inr s'" "heap s' = heap s"
    "heap_ok s' (release xs n ys) (release_list b xs n ys fl) {}"
    "same_payloads 16 (heap s + 8) (xs @ (n, False) # ys) m (mem s')" by auto
  with m(1,3) block_at(1) [OF ok b] show ?thesis
    by (intro exI [of _ s']) (auto simp: mm_free_def block_from_payload_def Let_def returns_def intro: same_payloads_trans)
qed

lemma check_blocks_ok:
  assumes ok: "heap_ok s (xs @ ys) fl {}" and ys: "xs @ ys \<noteq> []"
  shows "check_blocks (heap s + 8 + span xs) k s = returns (k + length (free_at (heap s + 8 + span xs) ys))"
  using ok ys
proof (induction ys arbitrary: xs k)
  case Nil
  then have "xs @ [] \<noteq> []" "ok_sizes 32 xs" using heap_okD(4) by auto
  then have "heap_last s < heap s + 8 + span xs" using Nil.prems(1)
    by (cases xs rule: rev_cases) (auto simp: heap_ok_def split: prod.splits)
  then show ?case by (subst check_blocks.simps) simp
next
  case (Cons e ys)
  obtain n u where e: "e = (n, u)" by (cases e)
  define b where "b = heap s + 8 + span xs"
  have ok: "heap_ok s (xs @ (n, u) # ys) fl {}" using Cons.prems(1) by (simp add: e)
  note B = block_at [OF ok b_def]
  have head: "read64 s b = Inr (header_word (of_nat n) u)"
    using heap_okD(5) [OF ok] mapped_sub [OF B(5), of b 8] B(6) by (simp add: framed_def read64_eq b_def)
  have "b \<le> heap_last s" "heap_last s \<noteq> 0" using last_block_iff(3) [OF ok b_def] B(8) by auto
  moreover have "check_blocks (b + n) (if u then k else k + 1) s =
      returns ((if u then k else k + 1) + length (free_at (b + n) ys))"
    using Cons.IH [of "xs @ [(n, u)]" "if u then k else k + 1"] ok by (simp add: b_def add.assoc)
  ultimately show ?case unfolding b_def [symmetric] e
    by (subst check_blocks.simps) (simp add: B(1-4) head cong: if_cong)
qed

lemma list_length_ok:
  assumes ok: "heap_ok s bs (l0 @ l) {}"
  shows "list_length (next_of l 0) k s = returns (k + length l)"
  using ok
proof (induction l arbitrary: l0 k)
  case Nil
  show ?case by (subst list_length.simps) simp
next
  case (Cons f l)
  note D = heap_okD [OF Cons.prems]
  have sub: "set (l0 @ f # l) \<subseteq> set (free_at (heap s + 8) bs)" using D(9) by simp
  note nodes = nodes_ok_sub [OF heap_ok_nodes [OF Cons.prems] sub]
  have "get_right s f = Inr (next_of l 0)" by (rule links_at(1) [OF D(7) nodes])
  moreover have "f \<noteq> 0" by (rule node_fields(4) [OF nodes]) simp
  moreover have "list_length (next_of l 0) (k + 1) s = returns (k + 1 + length l)"
    using Cons.IH [of "l0 @ [f]" "k + 1"] Cons.prems by simp
  ultimately show ?case by (subst list_length.simps) simp
qed

lemma checkheap_passes:
  assumes ok: "heap_ok s bs fl {}"
  shows "mm_checkheap s = returns s"
proof -
  note D = heap_okD [OF ok]
  have "check_blocks (heap_first s) 0 s = returns (length (free_at (heap s + 8) bs))"
  proof (cases "bs = []")
    case True
    then have "heap_last s = 0" using ok by (simp add: heap_ok_def)
    then show ?thesis using True by (subst check_blocks.simps) simp
  next
    case False
    then show ?thesis using check_blocks_ok [of s "[]" bs fl 0] ok by (simp add: heap_ok_def)
  qed
  moreover have "list_length (free_list_first s) 0 s = returns (length fl)"
    using list_length_ok [of s bs "[]" fl 0] ok D(8) by simp
  moreover have "length (free_at (heap s + 8) bs) = length fl"
    using D(6,9) free_at_distinct [OF heap_ok_sizes [OF ok, of 1]] by (metis Diff_empty distinct_card one_le_numeral)
  ultimately show ?thesis by (simp add: mm_checkheap_def)
qed

section \<open>The interface\<close>

definition xmm_rep :: "xmm \<Rightarrow> (nat \<rightharpoonup> nat) \<Rightarrow> bool" where
  "xmm_rep s L \<longleftrightarrow> (\<exists>bs fl. heap_ok s bs fl {} \<and> L = live 16 (heap s + 8) bs)"

lemma xmm_repE:
  assumes "xmm_rep s L" "L p = Some c"
  obtains xs n ys fl where "heap_ok s (xs @ (n, True) # ys) fl {}" "p = heap s + 8 + span xs + 8" "c = n - 16"
    "L = live 16 (heap s + 8) (xs @ (n, True) # ys)" "16 dvd span xs"
proof -
  obtain bs fl where bs: "heap_ok s bs fl {}" "L = live 16 (heap s + 8) bs" using assms(1) by (auto simp: xmm_rep_def)
  have "ok_sizes 1 bs" by (rule heap_ok_sizes [OF bs(1)]) simp
  then obtain xs n ys where x: "bs = xs @ (n, True) # ys" "p = heap s + 8 + span xs + 8" "c = n - 16"
    using assms(2) unfolding bs(2) by (auto simp: live_split)
  moreover have "16 dvd span xs" using heap_okD(4) [OF bs(1)] by (auto simp: x(1) intro: span_aligned)
  ultimately show thesis using bs that by blast
qed

lemma payloads_carve:
  assumes "k \<le> n"
  shows "\<exists>c. k \<le> c + 16 \<and> mset (payloads 16 a (xs @ carve k n True @ ys)) =
    add_mset (a + span xs + 8, c) (mset (payloads 16 a (xs @ (n, False) # ys)))"
  using assms by (intro exI [of _ "if 32 \<le> n - k then k - 16 else n - 16"]) (auto simp: carve_def add.assoc)

text \<open>The payloads after \<open>place\<close>.\<close>

lemma place_payloads:
  assumes ok: "heap_ok s bs fl {}" and p: "place (heap s + 8) k bs fl = (b, bs', fl')"
  shows "\<exists>c. k \<le> c + 16 \<and>
    mset (payloads 16 (heap s + 8) bs') = add_mset (b + 8, c) (mset (payloads 16 (heap s + 8) bs))"
proof (cases "find (\<lambda>f. k \<le> size_at (heap s + 8) bs f) fl")
  case None
  then show ?thesis using p by (intro exI [of _ "k - 16"]) (auto simp: place_def)
next
  case (Some f)
  then have f: "f \<in> set fl" "k \<le> size_at (heap s + 8) bs f" by (auto simp: find_Some_iff)
  from free_block_at [OF ok f(1)] obtain xs j ys where bs: "bs = xs @ (j, False) # ys" "f = heap s + 8 + span xs"
    "size_at (heap s + 8) bs f = j" .
  have "ok_sizes 1 xs" using heap_ok_sizes [OF ok, of 1] by (simp add: bs(1))
  from carve_at_split [OF this, of k "heap s + 8" j False ys] have "b = f" "bs' = xs @ carve k j True @ ys"
    using p Some bs by (auto simp: place_def)
  then show ?thesis using payloads_carve [of k j "heap s + 8" xs ys] f(2) bs by simp
qed

lemma xmm_malloc:
  assumes rep: "xmm_rep s L" and n: "1 \<le> unat n" "unat n + 31 < 2 ^ 64"
  shows "\<exists>p s'. mm_malloc n s = returns (p, s') \<and> heap s' = heap s \<and> keeps L (mem s) (mem s') \<and>
    (if p = 0 then xmm_rep s' L else L p = None \<and> (\<exists>c. unat n \<le> c \<and> xmm_rep s' (L(p \<mapsto> c))))"
proof -
  obtain bs fl where bs: "heap_ok s bs fl {}" "L = live 16 (heap s + 8) bs" using rep by (auto simp: xmm_rep_def)
  let ?k = "xblock_need (unat n)"
  obtain b bs' fl' where p: "place (heap s + 8) ?k bs fl = (b, bs', fl')" by (cases "place (heap s + 8) ?k bs fl") auto
  note M = malloc_refined [OF bs(1) n p]
  show ?thesis
  proof (cases "8 + span bs' \<le> MAX_HEAP")
    case False
    then show ?thesis using M rep by (intro exI [of _ 0] exI [of _ s]) simp
  next
    case True
    then obtain s' where s': "mm_malloc n s = returns (b + 8, s')" "heap s' = heap s" "heap_ok s' bs' fl' {}"
      "same_payloads 16 (heap s + 8) bs (mem s) (mem s')" using M by auto
    from place_payloads [OF bs(1) p] obtain c where c: "?k \<le> c + 16"
      "mset (payloads 16 (heap s + 8) bs') = add_mset (b + 8, c) (mset (payloads 16 (heap s + 8) bs))" by blast
    have sizes: "ok_sizes 1 bs" "ok_sizes 1 bs'" using heap_ok_sizes [OF bs(1)] heap_ok_sizes [OF s'(3)] by simp_all
    have "unat n \<le> c" using c(1) xblock_need_ok(3) [of "unat n"] by simp
    moreover from live_insert [OF sizes c(2)] have "xmm_rep s' (L(b + 8 \<mapsto> c))" "L (b + 8) = None"
      using s'(2,3) by (auto simp: xmm_rep_def bs(2))
    moreover have "keeps L (mem s) (mem s')" using s'(4) sizes(1) by (simp add: bs(2) keeps_live)
    ultimately show ?thesis using s'(1,2) by (intro exI [of _ "b + 8"] exI [of _ s']) auto
  qed
qed

lemma xmm_free:
  assumes rep: "xmm_rep s L" "L p = Some c"
  shows "\<exists>s'. mm_free p s = returns s' \<and> heap s' = heap s \<and> xmm_rep s' (L(p := None)) \<and>
    keeps (L(p := None)) (mem s) (mem s')"
proof -
  from rep obtain xs n ys fl where x: "heap_ok s (xs @ (n, True) # ys) fl {}" "p = heap s + 8 + span xs + 8"
    "c = n - 16" "L = live 16 (heap s + 8) (xs @ (n, True) # ys)" "16 dvd span xs" by (rule xmm_repE)
  let ?bs = "xs @ (n, True) # ys" and ?bs1 = "xs @ (n, False) # ys" and ?a = "heap s + 8"
  from free_refined [OF x(1) refl] x(2) obtain s' where s': "mm_free p s = returns s'" "heap s' = heap s"
    "heap_ok s' (release xs n ys) (release_list (?a + span xs) xs n ys fl) {}" "same_payloads 16 ?a ?bs1 (mem s) (mem s')"
    by auto
  have "ok_sizes 1 ?bs" by (rule heap_ok_sizes [OF x(1)]) simp
  then have sizes: "ok_sizes 1 ?bs1" "ok_sizes 1 ?bs" by simp_all
  have "mset (payloads 16 ?a ?bs) = add_mset (p, c) (mset (payloads 16 ?a ?bs1))" by (simp add: x(2,3))
  from live_insert [OF sizes this] have L: "L(p := None) = live 16 ?a ?bs1" by (auto simp: x(4))
  also have "\<dots> = live 16 ?a (release xs n ys)" by (simp only: live_def payloads_release)
  finally have "xmm_rep s' (L(p := None))" using s'(2,3) by (auto simp: xmm_rep_def)
  moreover have "keeps (L(p := None)) (mem s) (mem s')" using s'(4) sizes(1) by (simp add: L keeps_live)
  ultimately show ?thesis using s'(1,2) by blast
qed

text \<open>Writing inside a payload.\<close>

lemma heap_write:
  assumes ok: "heap_ok s (xs @ (n, True) # ys) fl {}"
    and change: "\<And>y. m y \<noteq> mem s y \<Longrightarrow> heap s + 8 + span xs + 8 \<le> y \<and> y < heap s + 8 + span xs + 8 + (n - 16)"
  shows "heap_ok (s\<lparr>mem := m\<rparr>) (xs @ (n, True) # ys) fl {}"
proof -
  let ?b = "heap s + 8 + span xs"
  note D = heap_okD [OF ok] and B = block_at [OF ok refl]
  have inside: "?b \<le> y \<and> y < ?b + n" if "m y \<noteq> mem s y" for y using change [OF that] B(6) by auto
  have same: "word_at m ?b = word_at (mem s) ?b" "word_at m (?b + n - 8) = word_at (mem s) (?b + n - 8)"
    using change B(6) by (auto intro!: word_at_cong, (fastforce)+)
  have new: "chain (framed m) ?b [(n, True)]" "span [(n, True)] = n" using D(5) same by (simp_all add: framed_def)
  have old: "chain (framed (mem s)) (heap s + 8) xs" "chain (framed (mem s)) (?b + n) ys" "ok_sizes 32 (xs @ ys)"
    using D(4,5) by simp_all
  note mem = retile_memory [OF old new inside]
  have fl: "set fl = set (free_at (heap s + 8) xs) \<union> set (free_at (?b + n) ys)" using D(9) by (simp add: add.assoc)
  have "ok_sizes 32 (xs @ [(n, True)] @ ys)" using D(4) by simp
  note around = free_around [OF this, of ?b "heap s + 8", OF refl]
  have "word_at m (f + 8) = word_at (mem s) (f + 8)" "word_at m (f + 16) = word_at (mem s) (f + 16)" if "f \<in> set fl" for f
  proof -
    have "f + 32 \<le> ?b \<or> ?b + n \<le> f" using that around [of f] by (auto simp: fl)
    then show "word_at m (f + 8) = word_at (mem s) (f + 8)" "word_at m (f + 16) = word_at (mem s) (f + 16)"
      using inside by (auto intro!: word_at_cong, (fastforce)+)
  qed
  then have "linked m fl 0 = linked (mem s) fl 0" by (intro linked_cong) (auto dest: in_tl)
  then show ?thesis using ok mem(1) D(7) by (simp add: heap_ok_def region_ok_def)
qed

lemma xmm_write:
  assumes "xmm_rep s L" "L p = Some c" "\<And>x. m x \<noteq> mem s x \<Longrightarrow> p \<le> x \<and> x < p + c"
  shows "xmm_rep (s\<lparr>mem := m\<rparr>) L"
proof -
  from assms(1,2) obtain xs n ys fl where x: "heap_ok s (xs @ (n, True) # ys) fl {}" "p = heap s + 8 + span xs + 8"
    "c = n - 16" "L = live 16 (heap s + 8) (xs @ (n, True) # ys)" "16 dvd span xs" by (rule xmm_repE)
  have "heap_ok (s\<lparr>mem := m\<rparr>) (xs @ (n, True) # ys) fl {}"
    by (rule heap_write [OF x(1)]) (use assms(3) x(2,3) in simp)
  then show ?thesis using x(4) by (auto simp: xmm_rep_def)
qed

lemma xmm_payload:
  assumes "xmm_rep s L" "L p = Some c"
  shows "16 dvd p \<and> heap s < p \<and> p + c \<le> mem_brk s \<and> 0 < c \<and> 16 dvd c + 16"
    "\<exists>w. get_size s (block_from_payload p) = Inr w \<and> unat w = c + 16"
proof -
  from assms obtain xs n ys fl where x: "heap_ok s (xs @ (n, True) # ys) fl {}" "p = heap s + 8 + span xs + 8"
    "c = n - 16" "L = live 16 (heap s + 8) (xs @ (n, True) # ys)" "16 dvd span xs" by (rule xmm_repE)
  note B = block_at [OF x(1) refl]
  have "16 dvd heap s + 16 + span xs" using heap_okD(1) [OF x(1)] x(5) by (simp add: region_ok_def)
  moreover have "mem_brk s = heap s + 8 + span xs + n + span ys" using heap_okD(2) [OF x(1)] by simp
  ultimately show "16 dvd p \<and> heap s < p \<and> p + c \<le> mem_brk s \<and> 0 < c \<and> 16 dvd c + 16"
    using x(2,3) B(6,7) by (simp add: add.commute add.left_commute)
  have "block_from_payload p = heap s + 8 + span xs" by (simp add: block_from_payload_def x(2))
  then show "\<exists>w. get_size s (block_from_payload p) = Inr w \<and> unat w = c + 16"
    using B(1,4,6) x(3) by simp
qed

lemma xmm_init:
  assumes "region_ok s" "mem_brk s = heap s"
  shows "\<exists>s'. mm_init s = returns (True, s') \<and> heap_ok s' [] [] {} \<and> heap s' = heap s"
proof -
  have "unat (ALIGNMENT - 8) = 8" by (simp add: ALIGNMENT_def)
  then have "mem_sbrk (ALIGNMENT - 8) s = (Some (heap s), s\<lparr>mem_brk := heap s + 8\<rparr>)"
    using assms mem_sbrk_eq [of s "ALIGNMENT - 8"] by (simp add: region_ok_def MAX_HEAP_def)
  then show ?thesis using assms by (simp add: mm_init_def heap_ok_def region_ok_def MAX_HEAP_def)
qed

interpretation mmx: malloc_package xmm_rep mm_init mm_malloc mm_free 16 1
  "\<lambda>s p. get_size s (block_from_payload p)" mm_realloc mm_calloc mm_checkheap
proof
  show "\<exists>s'. mm_init s = returns (True, s') \<and> xmm_rep s' Map.empty \<and> heap s' = heap s"
    if "region_ok s" "mem_brk s = heap s" for s
    using xmm_init [OF that] by (force simp: xmm_rep_def live_def)
  show "region_ok s \<and> mem_brk s \<le> heap s + MAX_HEAP" if "xmm_rep s L" for s L
    using that by (auto simp: xmm_rep_def heap_ok_def)
  show "16 dvd p \<and> heap s < p \<and> p + c \<le> mem_brk s \<and> 0 < c \<and> 16 dvd c + 16"
    if "xmm_rep s L" "L p = Some c" for s L p c using xmm_payload(1) [OF that] .
  show "p + c \<le> q \<or> q + d \<le> p"
    if A: "xmm_rep s L" "L p = Some c" "L q = Some d" "p \<noteq> q" for s L p c q d
  proof -
    obtain bs fl where bs: "heap_ok s bs fl {}" "L = live 16 (heap s + 8) bs" using A(1) by (auto simp: xmm_rep_def)
    have "ok_sizes 1 bs" "ok_sizes (16 + 1) bs" using heap_ok_sizes [OF bs(1)] by simp_all
    with A(2-4) payloads_disjoint [of p c 16 "heap s + 8" bs q d] show ?thesis by (simp add: bs(2) live_eq)
  qed
  show "xmm_rep (s\<lparr>mem := m\<rparr>) L"
    if "xmm_rep s L" "L p = Some c" "\<And>x. m x \<noteq> mem s x \<Longrightarrow> p \<le> x \<and> x < p + c" for s L p c m
    using xmm_write [OF that] .
  show "\<exists>p s'. mm_malloc n s = returns (p, s') \<and> heap s' = heap s \<and> keeps L (mem s) (mem s') \<and>
      (if p = 0 then xmm_rep s' L else L p = None \<and> (\<exists>c. unat n \<le> c \<and> xmm_rep s' (L(p \<mapsto> c))))"
    if "xmm_rep s L" "1 \<le> unat n" "unat n + 16 + 15 < 2 ^ 64" for s L n
    using xmm_malloc [OF that(1,2)] that(3) by simp
  show "mm_free 0 s = returns s" for s by (simp add: mm_free_def)
  show "\<exists>s'. mm_free p s = returns s' \<and> heap s' = heap s \<and> xmm_rep s' (L(p := None)) \<and>
      keeps (L(p := None)) (mem s) (mem s')" if "xmm_rep s L" "L p = Some c" for s L p c
    using xmm_free [OF that] .
  show "\<exists>w. get_size s (block_from_payload p) = Inr w \<and> unat w = c + 16"
    if "xmm_rep s L" "L p = Some c" for s L p c using xmm_payload(2) [OF that] .
  show "mm_realloc p n s =
      (if p = 0 then mm_malloc n s
       else if n = 0 then rbind (mm_free p s) (\<lambda>s. returns (0, s))
       else rbind (Some (get_size s (block_from_payload p))) (\<lambda>w.
         if round_up (of_nat 16 + n) ALIGNMENT \<le> w then returns (p, s)
         else rbind (mm_malloc n s) (\<lambda>(q, s).
           if q = 0 then returns (0, s)
           else rbind (Some (get_size s (block_from_payload p))) (\<lambda>w.
                rbind (Some (memcpy q p (unat (w - of_nat 16)) s)) (\<lambda>s.
                rbind (mm_free p s) (\<lambda>s. returns (q - 8 + 8, s)))))))" for p n s
    unfolding mm_realloc_def block_from_payload_def Let_def by (simp cong: if_cong)
  show "mm_checkheap s = returns s" if "xmm_rep s L" for s L
    using that checkheap_passes by (auto simp: xmm_rep_def)
  show "mm_calloc k n s =
      (if k * n = 0 then returns (0, s)
       else rbind (mm_malloc (k * n) s) (\<lambda>(q, s).
            rbind (Some (memset q 0 (unat (k * n)) s)) (\<lambda>s. returns (q, s))))" for k n s
    by (simp add: mm_calloc_def Let_def)
qed simp_all

definition xmm_package :: "unit xmm_ext package" where
  "xmm_package = \<lparr>pkg_init = mm_init, pkg_malloc = mm_malloc, pkg_free = mm_free, pkg_realloc = mm_realloc,
     pkg_checkheap = mm_checkheap\<rparr>"

end
