(* ===== verification/ExplicitRuns.thy ===== *)
theory ExplicitRuns
  imports ExplicitMalloc
begin

text \<open>
  The properties of \<open>mm-explicit.c\<close>: what \<open>mm_malloc\<close> and \<open>mm_free\<close> do to the heap, the invariant of every
  client's run, the trace driver, and the request that breaks the heap.
\<close>

section \<open>No free neighbours\<close>

fun separated :: "block list \<Rightarrow> bool" where
  "separated [] = True"
| "separated [x] = True"
| "separated (x # y # bs) = ((snd x \<or> snd y) \<and> separated (y # bs))"

lemma separated_append:
  "separated (xs @ ys) \<longleftrightarrow>
     separated xs \<and> separated ys \<and> (xs \<noteq> [] \<and> ys \<noteq> [] \<longrightarrow> snd (last xs) \<or> snd (hd ys))"
proof (induction xs rule: separated.induct)
  case (2 x)
  then show ?case by (cases ys) auto
qed auto

lemma separated_Cons: "separated (x # ys) \<longleftrightarrow> separated ys \<and> (ys \<noteq> [] \<longrightarrow> snd x \<or> snd (hd ys))"
  by (cases ys) auto

lemma separated_release:
  assumes "separated (xs @ (n, True) # ys)"
  shows "separated (release xs n ys)"
proof -
  obtain xs' n1 flag where l: "merge_left xs n = (xs', n1, flag)" by (cases "merge_left xs n")
  obtain n2 ys' where r: "merge_right n1 ys = (n2, ys')" by (cases "merge_right n1 ys")
  have xs: "separated xs'" "xs' \<noteq> [] \<Longrightarrow> snd (last xs')"
    using assms l by (cases xs rule: rev_cases; auto simp: merge_left_def separated_append split: if_splits)+
  have ys: "separated ys'" "ys' \<noteq> [] \<Longrightarrow> snd (hd ys')"
    using assms r by (cases ys; auto simp: merge_right_def separated_append separated_Cons split: if_splits)+
  show ?thesis using xs ys by (auto simp: release_def l r separated_append separated_Cons)
qed

lemma separated_place:
  assumes ok: "heap_ok s bs fl {}" and sep: "separated bs" and p: "place (heap s + 8) k bs fl = (b, bs', fl')"
  shows "separated bs'"
proof (cases "find (\<lambda>f. k \<le> size_at (heap s + 8) bs f) fl")
  case None
  then show ?thesis using p sep by (auto simp: place_def separated_append)
next
  case (Some f)
  then have "f \<in> set fl" by (auto simp: find_Some_iff)
  from free_block_at [OF ok this] obtain xs j ys where bs: "bs = xs @ (j, False) # ys" "f = heap s + 8 + span xs" .
  have "ok_sizes 1 xs" using heap_ok_sizes [OF ok, of 1] by (simp add: bs(1))
  from carve_at_split [OF this, of k "heap s + 8" j False ys] have "bs' = xs @ carve k j True @ ys"
    using p Some bs by (auto simp: place_def)
  then show ?thesis using sep by (auto simp: bs(1) separated_append separated_Cons carve_def)
qed

section \<open>Every run\<close>

text \<open>The heap of a client that keeps to blocks with a payload is an instance of the interface with one more
fact about it: no two free blocks are neighbours.\<close>

definition xmm_tidy :: "xmm \<Rightarrow> (nat \<rightharpoonup> nat) \<Rightarrow> bool" where
  "xmm_tidy s L \<longleftrightarrow> (\<exists>bs fl. heap_ok s bs fl {} \<and> separated bs \<and> L = live 16 (heap s + 8) bs)"

lemma xmm_tidy_rep: "xmm_tidy s L \<Longrightarrow> xmm_rep s L"
  by (auto simp: xmm_tidy_def xmm_rep_def)

lemma xmm_tidyE:
  assumes "xmm_tidy s L" "L p = Some c"
  obtains xs k ys fl where "heap_ok s (xs @ (k, True) # ys) fl {}" "separated (xs @ (k, True) # ys)"
    "p = heap s + 8 + span xs + 8" "c = k - 16" "L = live 16 (heap s + 8) (xs @ (k, True) # ys)"
proof -
  from assms obtain bs fl where bs: "heap_ok s bs fl {}" "separated bs" "L = live 16 (heap s + 8) bs"
    unfolding xmm_tidy_def by metis
  have "ok_sizes 1 bs" by (rule heap_ok_sizes [OF bs(1)]) simp
  with assms(2) bs(3) obtain xs k ys where "bs = xs @ (k, True) # ys" "p = heap s + 8 + span xs + 8" "c = k - 16"
    by (auto simp: live_split)
  with bs that show thesis by blast
qed

lemma tidy_malloc:
  assumes ok: "xmm_tidy s L" and n: "1 \<le> unat n" "unat n + 31 < 2 ^ 64"
  shows "\<exists>p s'. mm_malloc n s = returns (p, s') \<and> heap s' = heap s \<and> keeps L (mem s) (mem s') \<and>
    (if p = 0 then xmm_tidy s' L else L p = None \<and> (\<exists>c. unat n \<le> c \<and> xmm_tidy s' (L(p \<mapsto> c))))"
proof -
  from ok obtain bs fl where bs: "heap_ok s bs fl {}" "separated bs" "L = live 16 (heap s + 8) bs"
    unfolding xmm_tidy_def by metis
  let ?k = "xblock_need (unat n)" and ?a = "heap s + 8"
  obtain b bs' fl' where pl: "place ?a ?k bs fl = (b, bs', fl')" by (cases "place ?a ?k bs fl") auto
  note M = malloc_refined [OF bs(1) n pl]
  show ?thesis
  proof (cases "8 + span bs' \<le> MAX_HEAP")
    case False
    then show ?thesis using M ok by auto
  next
    case True
    with M obtain s' where s': "mm_malloc n s = returns (b + 8, s')" "heap s' = heap s" "heap_ok s' bs' fl' {}"
      "same_payloads 16 ?a bs (mem s) (mem s')" by auto
    from place_payloads [OF bs(1) pl] obtain c where c: "?k \<le> c + 16"
      "mset (payloads 16 ?a bs') = add_mset (b + 8, c) (mset (payloads 16 ?a bs))" by blast
    have sizes: "ok_sizes 1 bs" "ok_sizes 1 bs'" using heap_ok_sizes [OF bs(1)] heap_ok_sizes [OF s'(3)] by simp_all
    from live_insert [OF this c(2)] have "L (b + 8) = None" "xmm_tidy s' (L(b + 8 \<mapsto> c))"
      using s'(2,3) separated_place [OF bs(1,2) pl] by (auto simp: xmm_tidy_def bs(3))
    moreover have "unat n \<le> c" using c(1) xblock_need_ok(3) [of "unat n"] by simp
    moreover have "keeps L (mem s) (mem s')" using s'(4) sizes(1) by (simp add: bs(3) keeps_live)
    ultimately show ?thesis using s'(1,2) by (intro exI [of _ "b + 8"] exI [of _ s']) auto
  qed
qed

lemma tidy_free:
  assumes ok: "xmm_tidy s L" and p: "L p = Some c"
  shows "\<exists>s'. mm_free p s = returns s' \<and> heap s' = heap s \<and> xmm_tidy s' (L(p := None)) \<and>
    keeps (L(p := None)) (mem s) (mem s')"
proof -
  from ok p obtain xs k ys fl where x: "heap_ok s (xs @ (k, True) # ys) fl {}" "separated (xs @ (k, True) # ys)"
    "p = heap s + 8 + span xs + 8" "c = k - 16" "L = live 16 (heap s + 8) (xs @ (k, True) # ys)" by (rule xmm_tidyE)
  let ?a = "heap s + 8" and ?bs = "xs @ (k, True) # ys" and ?bs1 = "xs @ (k, False) # ys"
  from free_refined [OF x(1) refl] x(3) obtain s' where s': "mm_free p s = returns s'" "heap s' = heap s"
    "heap_ok s' (release xs k ys) (release_list (?a + span xs) xs k ys fl) {}"
    "same_payloads 16 ?a ?bs1 (mem s) (mem s')" by auto
  have "ok_sizes 1 ?bs" by (rule heap_ok_sizes [OF x(1)]) simp
  then have sizes: "ok_sizes 1 ?bs1" "ok_sizes 1 ?bs" by simp_all
  have "mset (payloads 16 ?a ?bs) = add_mset (p, c) (mset (payloads 16 ?a ?bs1))" by (simp add: x(3,4))
  from live_insert [OF sizes this] have L: "L(p := None) = live 16 ?a ?bs1" by (auto simp: x(5))
  also have "\<dots> = live 16 ?a (release xs k ys)" by (simp only: live_def payloads_release)
  finally have "xmm_tidy s' (L(p := None))"
    using s'(2,3) separated_release [OF x(2)] by (auto simp: xmm_tidy_def)
  moreover have "keeps (L(p := None)) (mem s) (mem s')" using s'(4) sizes(1) by (simp add: L keeps_live)
  ultimately show ?thesis using s'(1,2) by blast
qed

lemma tidy_write:
  assumes ok: "xmm_tidy s L" and p: "L p = Some c" and m: "\<And>x. m x \<noteq> mem s x \<Longrightarrow> p \<le> x \<and> x < p + c"
  shows "xmm_tidy (s\<lparr>mem := m\<rparr>) L"
proof -
  from ok p obtain xs k ys fl where x: "heap_ok s (xs @ (k, True) # ys) fl {}" "separated (xs @ (k, True) # ys)"
    "p = heap s + 8 + span xs + 8" "c = k - 16" "L = live 16 (heap s + 8) (xs @ (k, True) # ys)" by (rule xmm_tidyE)
  have "heap_ok (s\<lparr>mem := m\<rparr>) (xs @ (k, True) # ys) fl {}"
    by (rule heap_write [OF x(1)]) (use m x(3,4) in fastforce)
  then show ?thesis using x(2,5) by (auto simp: xmm_tidy_def)
qed

interpretation mmt: malloc_package xmm_tidy mm_init mm_malloc mm_free 16 1
  "\<lambda>s p. get_size s (block_from_payload p)" mm_realloc mm_calloc mm_checkheap
proof
  show "\<exists>s'. mm_init s = returns (True, s') \<and> xmm_tidy s' Map.empty \<and> heap s' = heap s"
    if i: "region_ok s" "mem_brk s = heap s" for s
  proof -
    from xmm_init [OF i] obtain s' where s': "mm_init s = returns (True, s')" "heap_ok s' [] [] {}" "heap s' = heap s"
      by blast
    have "live 16 (heap s' + 8) [] = Map.empty" by (simp add: live_def)
    with s'(2) have "xmm_tidy s' Map.empty" unfolding xmm_tidy_def by (intro exI [of _ "[]"]) auto
    with s' show ?thesis by blast
  qed
  show "\<exists>p s'. mm_malloc n s = returns (p, s') \<and> heap s' = heap s \<and> keeps L (mem s) (mem s') \<and>
      (if p = 0 then xmm_tidy s' L else L p = None \<and> (\<exists>c. unat n \<le> c \<and> xmm_tidy s' (L(p \<mapsto> c))))"
    if "xmm_tidy s L" "1 \<le> unat n" "unat n + 16 + 15 < 2 ^ 64" for s L n
    using tidy_malloc [OF that(1,2)] that(3) by simp
qed (rule tidy_write tidy_free xmm_tidy_rep [THEN mmx.rep_region] xmm_tidy_rep [THEN mmx.rep_payload]
  xmm_tidy_rep [THEN mmx.rep_disjoint] mmx.free_null mmx.small_overhead xmm_tidy_rep [THEN mmx.block_size_ok]
  mmx.realloc_eq mmx.calloc_eq xmm_tidy_rep [THEN mmx.checkheap_ok]; assumption)+

text \<open>What a client can do: it knows the payloads it got and the sizes it asked for, writes only inside
them, and releases or reallocates each at most once. It never asks \<open>mm_malloc\<close> for a block of 0 bytes, see
below, nor for a size whose sum with the header and footer overflows.\<close>

definition proper_size :: "nat \<Rightarrow> bool" where
  "proper_size n \<longleftrightarrow> 1 \<le> n \<and> n + 31 < 2 ^ 64"

definition got :: "(nat \<rightharpoonup> nat) \<Rightarrow> nat \<Rightarrow> nat \<Rightarrow> (nat \<rightharpoonup> nat)" where
  "got L p n = (if p = 0 then L else L(p \<mapsto> n))"

inductive client_run :: "xmm \<Rightarrow> (nat \<rightharpoonup> nat) \<Rightarrow> bool" where
  run_init: "region_ok s \<Longrightarrow> mem_brk s = heap s \<Longrightarrow> mm_init s = returns (True, s') \<Longrightarrow> client_run s' Map.empty"
| run_malloc: "client_run s L \<Longrightarrow> proper_size (unat n) \<Longrightarrow> mm_malloc n s = returns (p, s') \<Longrightarrow>
    client_run s' (got L p (unat n))"
| run_calloc: "client_run s L \<Longrightarrow> unat k * unat n + 31 < 2 ^ 64 \<Longrightarrow> mm_calloc k n s = returns (p, s') \<Longrightarrow>
    client_run s' (got L p (unat k * unat n))"
| run_realloc: "client_run s L \<Longrightarrow> p \<in> dom L \<Longrightarrow> proper_size (unat n) \<Longrightarrow> mm_realloc p n s = returns (q, s') \<Longrightarrow>
    client_run s' (if q = 0 then L else L(p := None, q \<mapsto> unat n))"
| run_realloc_null: "client_run s L \<Longrightarrow> proper_size (unat n) \<Longrightarrow> mm_realloc 0 n s = returns (p, s') \<Longrightarrow>
    client_run s' (got L p (unat n))"
| run_realloc_zero: "client_run s L \<Longrightarrow> p \<in> dom L \<Longrightarrow> mm_realloc p 0 s = returns (q, s') \<Longrightarrow>
    client_run s' (L(p := None))"
| run_write: "client_run s L \<Longrightarrow> L p = Some n \<Longrightarrow> (\<And>x. m x \<noteq> mem s x \<Longrightarrow> p \<le> x \<and> x < p + n) \<Longrightarrow>
    client_run (s\<lparr>mem := m\<rparr>) L"
| run_free: "client_run s L \<Longrightarrow> p = 0 \<or> p \<in> dom L \<Longrightarrow> mm_free p s = returns s' \<Longrightarrow> client_run s' (L(p := None))"

text \<open>Every payload of the client is one of the heap, and as large as asked for.\<close>

definition covers :: "(nat \<rightharpoonup> nat) \<Rightarrow> (nat \<rightharpoonup> nat) \<Rightarrow> bool" where
  "covers C L \<longleftrightarrow> (\<forall>p n. L p = Some n \<longrightarrow> (\<exists>c \<ge> n. C p = Some c))"

lemma coversD: "covers C L \<Longrightarrow> p \<in> dom L \<Longrightarrow> \<exists>n c. L p = Some n \<and> n \<le> c \<and> C p = Some c"
  by (fastforce simp: covers_def)

lemma covers_update:
  assumes "covers C L"
  shows "n \<le> c \<Longrightarrow> covers (C(p \<mapsto> c)) (L(p \<mapsto> n))" "covers (C(p := None)) (L(p := None))"
  using assms by (auto simp: covers_def)

definition run_ok :: "xmm \<Rightarrow> (nat \<rightharpoonup> nat) \<Rightarrow> bool" where
  "run_ok s L \<longleftrightarrow> (\<exists>C. xmm_tidy s C \<and> covers C L)"

lemma run_ok_malloc:
  assumes ok: "run_ok s L" and n: "proper_size (unat n)" and m: "mm_malloc n s = returns (p, s')"
  shows "run_ok s' (got L p (unat n))"
proof -
  from ok obtain C where C: "xmm_tidy s C" "covers C L" by (auto simp: run_ok_def)
  from mmt.malloc_ok [OF C(1), of n] n m have "if p = 0 then xmm_tidy s' C else (\<exists>c. unat n \<le> c \<and> xmm_tidy s' (C(p \<mapsto> c)))"
    by (auto simp: proper_size_def returns_def)
  then show ?thesis using C(2) covers_update(1) [OF C(2)] by (auto simp: run_ok_def got_def split: if_splits)
qed

lemma run_ok_free:
  assumes ok: "run_ok s L" and p: "p \<in> dom L" and m: "mm_free p s = returns s'"
  shows "run_ok s' (L(p := None))"
proof -
  from ok obtain C where C: "xmm_tidy s C" "covers C L" by (auto simp: run_ok_def)
  from coversD [OF C(2) p] obtain c where "C p = Some c" by blast
  from mmt.free_ok [OF C(1) this] m have "xmm_tidy s' (C(p := None))" by (auto simp: returns_def)
  then show ?thesis using covers_update(2) [OF C(2)] unfolding run_ok_def by blast
qed

lemma run_ok_realloc:
  assumes ok: "run_ok s L" and p: "p \<in> dom L" and n: "proper_size (unat n)" and m: "mm_realloc p n s = returns (q, s')"
  shows "run_ok s' (if q = 0 then L else L(p := None, q \<mapsto> unat n))"
proof -
  from ok obtain C where C: "xmm_tidy s C" "covers C L" by (auto simp: run_ok_def)
  from coversD [OF C(2) p] obtain c where "C p = Some c" by blast
  from mmt.realloc_ok [OF C(1) this, of n] n m
  have "if q = 0 then xmm_tidy s' C else (\<exists>d. unat n \<le> d \<and> xmm_tidy s' (C(p := None, q \<mapsto> d)))"
    by (auto simp: proper_size_def returns_def split: if_splits)
  then show ?thesis using C(2) covers_update(1) [OF covers_update(2) [OF C(2), of p]]
    by (auto simp: run_ok_def split: if_splits)
qed

lemma run_ok_calloc:
  assumes ok: "run_ok s L" and n: "unat k * unat n + 31 < 2 ^ 64" and m: "mm_calloc k n s = returns (p, s')"
  shows "run_ok s' (got L p (unat k * unat n))"
proof -
  from ok obtain C where C: "xmm_tidy s C" "covers C L" by (auto simp: run_ok_def)
  have t: "unat (k * n) = unat k * unat n" using n by (simp add: unat_word_ariths)
  show ?thesis
  proof (cases "k * n = 0")
    case True
    then show ?thesis using m ok by (simp add: mm_calloc_def got_def returns_def)
  next
    case False
    then have "0 < unat (k * n)" by (simp add: unat_gt_0)
    from mmt.calloc_ok [OF C(1) this] n m obtain c where "p \<noteq> 0" "unat k * unat n \<le> c" "xmm_tidy s' (C(p \<mapsto> c))"
      by (auto simp: t returns_def fails_def split: if_splits)
    then show ?thesis using covers_update(1) [OF C(2)] by (auto simp: run_ok_def got_def)
  qed
qed

lemma client_run_ok: "client_run s L \<Longrightarrow> run_ok s L"
proof (induction rule: client_run.induct)
  case (run_init s s')
  from mmt.init_ok [OF run_init(1,2)] run_init(3) have "xmm_tidy s' Map.empty" by (auto simp: returns_def)
  then show ?case by (auto simp: run_ok_def covers_def)
next
  case (run_malloc s L n p s')
  then show ?case by (intro run_ok_malloc)
next
  case (run_calloc s L k n p s')
  then show ?case by (intro run_ok_calloc)
next
  case (run_realloc s L p n q s')
  then show ?case by (intro run_ok_realloc)
next
  case (run_realloc_null s L n p s')
  then show ?case by (intro run_ok_malloc [of s L n]) (simp_all add: mm_realloc_def)
next
  case (run_realloc_zero s L p q s')
  then obtain C where C: "xmm_tidy s C" "covers C L" by (auto simp: run_ok_def)
  from coversD [OF C(2) run_realloc_zero(2)] obtain c where "C p = Some c" by blast
  from mmt.realloc_zero [OF C(1) this] run_realloc_zero(3) have "xmm_tidy s' (C(p := None))" by (auto simp: returns_def)
  then show ?case using covers_update(2) [OF C(2)] unfolding run_ok_def by blast
next
  case (run_write s L p n m)
  then obtain C where C: "xmm_tidy s C" "covers C L" by (auto simp: run_ok_def)
  with run_write(2) obtain c where c: "C p = Some c" "n \<le> c" by (auto simp: covers_def)
  have "xmm_tidy (s\<lparr>mem := m\<rparr>) C" by (rule mmt.rep_write [OF C(1) c(1)]) (use run_write(3) c(2) in fastforce)
  then show ?case using C(2) by (auto simp: run_ok_def)
next
  case (run_free s L p s')
  show ?case
  proof (cases "p \<in> dom L")
    case True
    then show ?thesis using run_free by (intro run_ok_free)
  next
    case False
    then have "p = 0" "L(p := None) = L" using run_free(2) by (auto simp: domIff)
    then show ?thesis using run_free(3,4) mmt.free_null by (simp add: returns_def)
  qed
qed

section \<open>Properties\<close>

definition fresh_xheap :: xmm where
  "fresh_xheap = \<lparr>heap = 4096, mem_brk = 4104, mem = (\<lambda>_. 0xCC), heap_first = 0, heap_last = 0, free_list_first = 0\<rparr>"

lemma fresh_xheap_ok: "heap_ok fresh_xheap [] [] {}"
  by (simp add: fresh_xheap_def heap_ok_def region_ok_def MAX_HEAP_def)

lemma first_xmalloc:
  obtains s where "mm_malloc 100 fresh_xheap = returns (4112, s)" "heap_ok s [(128, True)] [] {}" "heap s = 4096"
proof -
  have "place (heap fresh_xheap + 8) (xblock_need (unat (100 :: u64))) [] [] = (4104, [(128, True)], [])"
    by (simp add: place_def xblock_need_def fresh_xheap_def)
  from malloc_refined [OF fresh_xheap_ok _ _ this] that show thesis
    by (auto simp: MAX_HEAP_def fresh_xheap_def)
qed

text \<open>C16: \<open>mm_malloc\<close> of the explicit allocator takes the first block of the free list that is large enough, and cuts
it when at least 32 bytes are left, the rest becoming the head of the list; with no such block the heap
grows by a block, or, when it would exceed 100 MB, \<open>NULL\<close> is returned and nothing has changed.
Headers, footers and both links of every listed block are right again afterwards, and no payload has
changed.\<close>

theorem explicit_malloc_refines:
  assumes "heap_ok s bs fl {}" "1 \<le> unat n" "unat n + 31 < 2 ^ 64"
    "place (heap s + 8) (xblock_need (unat n)) bs fl = (b, bs', fl')"
  shows "if 8 + span bs' \<le> MAX_HEAP
    then \<exists>s'. mm_malloc n s = returns (b + 8, s') \<and> heap s' = heap s \<and> heap_ok s' bs' fl' {} \<and>
      same_payloads 16 (heap s + 8) bs (mem s) (mem s')
    else mm_malloc n s = returns (0, s)"
  by (rule malloc_refined [OF assms])

lemma explicit_malloc_refines_witness:
  "\<exists>s'. mm_malloc 100 fresh_xheap = returns (4112, s') \<and> heap_ok s' [(128, True)] [] {}"
proof -
  have "place (heap fresh_xheap + 8) (xblock_need (unat (100 :: u64))) [] [] = (4104, [(128, True)], [])"
    by (simp add: place_def xblock_need_def fresh_xheap_def)
  from explicit_malloc_refines [OF fresh_xheap_ok _ _ this] show ?thesis
    by (auto simp: MAX_HEAP_def fresh_xheap_def)
qed

text \<open>C17: \<open>mm_free\<close> of the explicit allocator joins the block with its free neighbours: a free block before it
grows and keeps its place in the list, a free block behind it leaves the list, and a block without a free
block before it becomes the head of the list. No other payload changes.\<close>

theorem explicit_free_coalesces:
  assumes "heap_ok s (xs @ (n, True) # ys) fl {}" "b = heap s + 8 + span xs"
  shows "\<exists>s'. mm_free (b + 8) s = returns s' \<and> heap s' = heap s \<and>
    heap_ok s' (release xs n ys) (release_list b xs n ys fl) {} \<and>
    same_payloads 16 (heap s + 8) (xs @ (n, False) # ys) (mem s) (mem s')"
  by (rule free_refined [OF assms])

lemma explicit_free_coalesces_witness:
  "\<exists>s s'. mm_malloc 100 fresh_xheap = returns (4112, s) \<and> mm_free 4112 s = returns s' \<and>
     heap_ok s' [(128, False)] [4104] {}"
proof -
  obtain s where s: "mm_malloc 100 fresh_xheap = returns (4112, s)" "heap_ok s ([] @ (128, True) # []) [] {}" "heap s = 4096"
    by (rule first_xmalloc) simp
  from explicit_free_coalesces [OF s(2) refl] s(1,3) show ?thesis
    by (auto simp: release_def release_list_def merge_left_def merge_right_def)
qed

text \<open>C7: in every run of a client that calls \<open>mm_malloc\<close>, \<open>mm_calloc\<close>, \<open>mm_realloc\<close> and \<open>mm_free\<close> in any order, writes
only inside its payloads, releases each at most once, never asks for an empty block (\<open>mm_malloc\<close> or
\<open>mm_realloc\<close> of \<open>NULL\<close> with size 0, see below) and asks for no size that overflows with the header and
footer: the heap of the explicit allocator stays a row of blocks with equal headers and footers, the list
holds exactly its free blocks and is linked in both directions, no two free blocks are neighbours, every
payload is as large as asked for, and \<open>mm_checkheap\<close> finds nothing.\<close>

theorem explicit_heap_invariant:
  assumes "client_run s L"
  shows "\<exists>bs fl. heap_ok s bs fl {} \<and> separated bs \<and> mm_checkheap s = returns s \<and>
    (\<forall>p n. L p = Some n \<longrightarrow> (\<exists>c \<ge> n. live 16 (heap s + 8) bs p = Some c))"
proof -
  from client_run_ok [OF assms] obtain bs fl where "heap_ok s bs fl {}" "separated bs"
    "covers (live 16 (heap s + 8) bs) L" unfolding run_ok_def xmm_tidy_def by blast
  with checkheap_passes show ?thesis unfolding covers_def by blast
qed

lemma explicit_heap_invariant_witness:
  "\<exists>s. mm_malloc 100 fresh_xheap = returns (4112, s) \<and> mm_checkheap s = returns s"
proof -
  let ?s = "fresh_xheap\<lparr>mem_brk := 4096\<rparr>"
  obtain s where s: "mm_malloc 100 fresh_xheap = returns (4112, s)" using first_xmalloc by metis
  have "mem_sbrk (ALIGNMENT - 8) ?s = (Some 4096, fresh_xheap)"
    using mem_sbrk_eq [of ?s "ALIGNMENT - 8"] by (simp add: fresh_xheap_def ALIGNMENT_def MAX_HEAP_def)
  then have "mm_init ?s = returns (True, fresh_xheap)" by (simp add: mm_init_def) (simp add: fresh_xheap_def)
  then have "client_run fresh_xheap Map.empty"
    by (intro run_init) (simp_all add: fresh_xheap_def region_ok_def MAX_HEAP_def)
  from run_malloc [OF this _ s] have "client_run s [4112 \<mapsto> 100]" by (simp add: got_def proper_size_def)
  from explicit_heap_invariant [OF this] s show ?thesis by blast
qed

text \<open>C18: the explicit allocator passes the driver, with the checks of \<open>mm_checkheap\<close> switched on as well.\<close>

theorem explicit_passes_driver:
  assumes "region_ok (machine d)" "ranges d = []" "length (random_data cfg) = RANDOM_DATA_LEN"
    "length (block_rand_base (trace d)) = num_ids (trace d)" "wf_ops (num_ids (trace d)) {} (ops (trace d))"
  shows "only_out_of_memory d (eval_mm_valid xmm_package cfg d)"
  using mmx.eval_mm_valid_ok [OF assms] by (simp add: mmx.pkg_def xmm_package_def)

lemma explicit_passes_driver_witness:
  "\<exists>ok d'. eval_mm_valid xmm_package sample_settings (driver_on fresh_xheap) = returns (ok, d') \<and>
     (\<forall>(_, c) \<in> set (complaints d'). c \<noteq> Garbled \<and> c \<noteq> Overlaps)"
proof -
  have "only_out_of_memory (driver_on fresh_xheap) (eval_mm_valid xmm_package sample_settings (driver_on fresh_xheap))"
    by (rule explicit_passes_driver)
      (simp_all add: driver_on_def fresh_xheap_def region_ok_def MAX_HEAP_def sample_settings_def sample_trace_def)
  then show ?thesis by (fastforce simp: only_out_of_memory_def driver_on_def split: if_splits)
qed

section \<open>A block without room for its links\<close>

text \<open>The header of a block that lies between others: what the word at its address says.\<close>

lemma word_header:
  assumes "mapped s a 8" "word_at (mem s) a = header_word w u" "even (unat w)"
  shows "get_size s a = Inr w" "is_allocated s a = Inr u"
  using assms by (simp_all add: get_size_def is_allocated_def read64_eq size_bits_header alloc_bit_header)

lemma put_header_at:
  "16 \<le> n \<Longrightarrow> word_at (put_header b n u m) b = header_word (of_nat n) u"
  by (auto simp: put_header_def word_at_put_other)

lemma put_header_apart:
  "16 \<le> n \<Longrightarrow> a + 8 \<le> b \<or> b + n \<le> a \<Longrightarrow> word_at (put_header b n u m) a = word_at m a"
  by (auto simp: put_header_def word_at_put_other)

lemma set_header_run:
  assumes "mapped s b n" "16 \<le> n" "unat w = n"
  shows "set_header b w u s = Inr (s\<lparr>mem := put_header b n u (mem s)\<rparr>)"
proof -
  have w: "of_nat n = w" using assms(3) by auto
  have "mapped s b 8" "mapped (s\<lparr>mem := m\<rparr>) (b + n - 8) 8" for m
    using assms(1,2) by (auto simp: mapped_def)
  then show ?thesis by (simp add: set_header_def put_header_def write64_eq assms(3) w)
qed

lemma coalesce_first:
  assumes "heap_first s = b" "b < heap_last s" "free_list_first s = 0" "mapped s b 32"
    "word_at (mem s) b = header_word 16 False" "word_at (mem s) (b + 16) = header_word 32 True"
  shows "coalesce b s = Inr (s\<lparr>mem := put_word (b + 16) 0 (put_word (b + 8) 0 (mem s)), free_list_first := b\<rparr>)"
proof -
  have at: "mapped s b 8" "mapped s (b + 8) 8" "mapped s (b + 16) 8" using assms(4) by (auto simp: mapped_def)
  have "coalesce_left b s = Inr ((b, False), s)" using assms(1) by (simp add: coalesce_left_def)
  moreover have "coalesce_right b s = Inr s"
    using word_header [OF at(1) assms(5)] word_header [OF at(3) assms(6)] assms(2)
    by (simp add: coalesce_right_def Let_def)
  moreover have "add_free_node b s =
      Inr (s\<lparr>free_list_first := b, mem := put_word (b + 16) 0 (put_word (b + 8) 0 (mem s))\<rparr>)"
    using assms(3) at by (simp add: add_free_node_def set_left_def set_right_def Let_def write64_def mapped_def)
  ultimately show ?thesis by (simp add: coalesce_def)
qed

lemma append_block:
  assumes "region_ok s" "free_list_first s = 0" "mem_brk s = b" "heap s \<le> b" "b + n \<le> heap s + MAX_HEAP"
    "16 \<le> n" "unat (round_up (16 + w) ALIGNMENT) = n"
  shows "mm_malloc w s = returns (b + 8, s\<lparr>mem_brk := b + n,
    heap_first := (if heap_first s = 0 then b else heap_first s), heap_last := b, mem := put_header b n True (mem s)\<rparr>)"
proof -
  let ?w = "round_up (16 + w) ALIGNMENT"
  let ?s = "s\<lparr>mem_brk := b + n, heap_first := (if heap_first s = 0 then b else heap_first s), heap_last := b\<rparr>"
  have "find_fit ?w s = returns (0, s)" using assms(2) by (simp add: find_fit_def find_fit_loop.simps)
  moreover have "mem_sbrk ?w s = (Some b, s\<lparr>mem_brk := b + n\<rparr>)"
    using mem_sbrk_eq [of s ?w] assms by (simp add: region_ok_def)
  moreover have "set_header b ?w True ?s = Inr (?s\<lparr>mem := put_header b n True (mem s)\<rparr>)"
    using set_header_run [OF _ assms(6,7), of ?s b True] assms(4,5) by (simp add: mapped_def)
  ultimately show ?thesis by (cases "heap_first s = 0") (simp_all add: mm_malloc_def Let_def)
qed

text \<open>C32: a request of 0 bytes gets a block of 16 bytes, which has no room for the right link: releasing it
overwrites the header of the block behind it, here with 0.\<close>

theorem empty_block_breaks_neighbour:
  assumes "heap_ok s [] [] {}"
  shows "\<exists>p s1 q s2 s3. mm_malloc 0 s = returns (p, s1) \<and> mm_malloc 16 s1 = returns (q, s2) \<and>
    get_size s2 (block_from_payload q) = Inr 32 \<and>
    mm_free p s2 = returns s3 \<and> get_size s3 (block_from_payload q) = Inr 0"
proof -
  define b where "b = heap s + 8"
  have D: "region_ok s" "mem_brk s = b" "free_list_first s = 0" "heap_first s = 0"
    using assms by (simp_all add: heap_ok_def b_def)
  have b: "b + 48 \<le> heap s + MAX_HEAP" "heap s \<le> b" "b \<noteq> 0" by (simp_all add: MAX_HEAP_def b_def)
  have sizes: "unat (round_up (16 + 0) ALIGNMENT) = 16" "unat (round_up (16 + 16) ALIGNMENT) = 32"
    using round_up_exact [of 0 16] round_up_exact [of 16 16] by simp_all
  define s1 where "s1 = s\<lparr>mem_brk := b + 16, heap_first := b, heap_last := b, mem := put_header b 16 True (mem s)\<rparr>"
  have m1: "mm_malloc 0 s = returns (b + 8, s1)"
    using append_block [OF D(1,3,2) _ _ _ sizes(1)] b D(4) by (simp add: s1_def)
  define s2 where "s2 = s1\<lparr>mem_brk := b + 48, heap_last := b + 16, mem := put_header (b + 16) 32 True (mem s1)\<rparr>"
  have "region_ok s1" using D(1) by (simp add: s1_def region_ok_def)
  from append_block [OF this _ _ _ _ _ sizes(2), of "b + 16"] have m2: "mm_malloc 16 s1 = returns (b + 24, s2)"
    using b D(3) by (simp add: s1_def s2_def)
  let ?m = "put_header b 16 False (mem s2)"
  have at: "mapped s2 b 32" "mapped s2 b 8" "mapped s2 (b + 16) 8" "mapped s2 b 16"
    using b by (auto simp: mapped_def s1_def s2_def)
  have words: "word_at (mem s2) b = header_word 16 True" "word_at (mem s2) (b + 16) = header_word 32 True"
    using put_header_at [of 32 "b + 16" True "mem s1"] put_header_at [of 16 b True "mem s"]
      put_header_apart [of 32 b "b + 16" True "mem s1"] by (simp_all add: s1_def s2_def)
  have n16: "get_size s2 b = Inr 16" by (rule word_header(1) [OF at(2) words(1)]) simp
  have n32: "get_size s2 (b + 16) = Inr 32" by (rule word_header(1) [OF at(3) words(2)]) simp
  have mark: "set_header b 16 False s2 = Inr (s2\<lparr>mem := ?m\<rparr>)" by (rule set_header_run [OF at(4)]) simp_all
  let ?s3 = "s2\<lparr>mem := put_word (b + 16) 0 (put_word (b + 8) 0 ?m), free_list_first := b\<rparr>"
  have "coalesce b (s2\<lparr>mem := ?m\<rparr>) = Inr ?s3"
    using coalesce_first [of "s2\<lparr>mem := ?m\<rparr>" b] at(1) words(2) D(3)
      put_header_at [of 16 b False "mem s2"] put_header_apart [of 16 "b + 16" b False "mem s2"]
    by (simp add: s1_def s2_def mapped_def)
  then have "mm_free (b + 8) s2 = returns ?s3"
    using n16 mark by (simp add: mm_free_def block_from_payload_def Let_def returns_def)
  moreover have "get_size ?s3 (b + 16) = Inr 0"
    using at(3) by (simp add: get_size_def read64_def mapped_def size_bits_def)
  moreover have "block_from_payload (b + 24) = b + 16" by (simp add: block_from_payload_def)
  ultimately show ?thesis using m1 m2 n32 by metis
qed

lemma empty_block_breaks_neighbour_witness:
  "\<exists>p s1. mm_malloc 0 fresh_xheap = returns (p, s1)"
  using empty_block_breaks_neighbour [OF fresh_xheap_ok] by blast

end
