(* ===== verification/Queue.thy ===== *)
theory Queue
  imports Prelude
begin

text \<open>
  The queue of \<open>project05-wduan/src/queue.c\<close>: a doubly linked list of nodes. The critical sections of
  \<open>queue_enqueue\<close> and \<open>queue_dequeue\<close> are functions on the queue; \<open>ThreadPool\<close> has the mutex, the condition
  variable and the threads. Pointers are numbers, \<open>NULL\<close> is 0; \<open>malloc\<close> is taken to succeed, and the
  address it returns is an argument.
\<close>

section \<open>The queue\<close>

record qnode =
  node_value :: nat
  left :: nat
  right :: nat

text \<open>\<open>nodes\<close> holds the allocated nodes by address.\<close>

record queue_t =
  head :: nat
  tail :: nat
  queue_size :: nat
  nodes :: "nat \<rightharpoonup> qnode"

definition node_init :: "nat \<Rightarrow> nat \<Rightarrow> queue_t \<Rightarrow> queue_t" where
  "node_init node v q = q\<lparr>nodes := (nodes q)(node \<mapsto> \<lparr>node_value = v, left = 0, right = 0\<rparr>)\<rparr>"

definition queue_init :: queue_t where
  "queue_init = \<lparr>head = 0, tail = 0, queue_size = 0, nodes = Map.empty\<rparr>"

text \<open>Reading and changing a node; one that is not allocated is an error.\<close>

definition get_node :: "queue_t \<Rightarrow> nat \<Rightarrow> qnode result" where
  "get_node q a = (case nodes q a of None \<Rightarrow> Inl Bad_Access | Some n \<Rightarrow> Inr n)"

definition upd_node :: "nat \<Rightarrow> (qnode \<Rightarrow> qnode) \<Rightarrow> queue_t \<Rightarrow> queue_t result" where
  "upd_node a f q = ebind (get_node q a) (\<lambda>n. Inr (q\<lparr>nodes := (nodes q)(a \<mapsto> f n)\<rparr>))"

definition free_node :: "nat \<Rightarrow> queue_t \<Rightarrow> queue_t result" where
  "free_node a q = ebind (get_node q a) (\<lambda>_. Inr (q\<lparr>nodes := (nodes q)(a := None)\<rparr>))"

text \<open>\<open>queue_enqueue\<close> between locking and signalling; the new node gets the address \<open>node\<close>.\<close>

definition queue_enqueue :: "nat \<Rightarrow> nat \<Rightarrow> queue_t \<Rightarrow> queue_t result" where
  "queue_enqueue node v q =
     (let q = node_init node v q in
      if head q = 0 then Inr (q\<lparr>head := node, tail := node, queue_size := 1\<rparr>)
      else
        let t = tail q in
        ebind (upd_node t (\<lambda>n. n\<lparr>right := node\<rparr>) q) (\<lambda>q.
        ebind (upd_node node (\<lambda>n. n\<lparr>left := t\<rparr>) q) (\<lambda>q.
          Inr (q\<lparr>tail := node, queue_size := queue_size q + 1\<rparr>))))"

text \<open>\<open>queue_dequeue\<close> once the loop has found the queue not empty.\<close>

definition queue_dequeue :: "queue_t \<Rightarrow> (nat \<times> queue_t) result" where
  "queue_dequeue q =
     (if queue_size q = 1 then
        ebind (get_node q (head q)) (\<lambda>h.
        ebind (free_node (head q) q) (\<lambda>q.
          Inr (node_value h, q\<lparr>head := 0, tail := 0, queue_size := 0\<rparr>)))
      else
        ebind (get_node q (head q)) (\<lambda>h.
        ebind (upd_node (right h) (\<lambda>n. n\<lparr>left := 0\<rparr>) q) (\<lambda>q.
        ebind (free_node (head q) q) (\<lambda>q.
          Inr (node_value h, q\<lparr>head := right h, queue_size := queue_size q - 1\<rparr>)))))"

section \<open>The interface\<close>

text \<open>What a client may rely on: \<open>rep q xs\<close> says that \<open>q\<close> holds the values \<open>xs\<close>, oldest first. An address is
free in \<open>q\<close> when \<open>malloc\<close> can return it.\<close>

locale fifo_queue =
  fixes rep :: "'q \<Rightarrow> nat list \<Rightarrow> bool"
    and empty :: 'q
    and avail :: "'q \<Rightarrow> nat \<Rightarrow> bool"
    and enq :: "nat \<Rightarrow> nat \<Rightarrow> 'q \<Rightarrow> 'q result"
    and deq :: "'q \<Rightarrow> (nat \<times> 'q) result"
    and len :: "'q \<Rightarrow> nat"
  assumes rep_empty: "rep empty []"
    and rep_len: "rep q xs \<Longrightarrow> len q = length xs"
    and rep_unique: "rep q xs \<Longrightarrow> rep q ys \<Longrightarrow> xs = ys"
    and enq_ok: "rep q xs \<Longrightarrow> avail q a \<Longrightarrow> \<exists>q'. enq a v q = Inr q' \<and> rep q' (xs @ [v])"
    and deq_ok: "rep q (x # xs) \<Longrightarrow> \<exists>q'. deq q = Inr (x, q') \<and> rep q' xs"
begin

text \<open>Any sequence of operations: \<open>Some v\<close> puts \<open>v\<close> in, \<open>None\<close> takes a value out of a queue that is not empty. The
values that come out, followed by those still inside, are the ones that went in, in their order.\<close>

inductive transfers :: "'q \<Rightarrow> nat list \<Rightarrow> nat list \<Rightarrow> bool" where
  transfer_none: "transfers empty [] []"
| transfer_in: "transfers q ins outs \<Longrightarrow> avail q a \<Longrightarrow> enq a v q = Inr q' \<Longrightarrow> transfers q' (ins @ [v]) outs"
| transfer_out: "transfers q ins outs \<Longrightarrow> len q \<noteq> 0 \<Longrightarrow> deq q = Inr (v, q') \<Longrightarrow> transfers q' ins (outs @ [v])"

lemma transfers_fifo: "transfers q ins outs \<Longrightarrow> \<exists>xs. rep q xs \<and> ins = outs @ xs"
proof (induction rule: transfers.induct)
  case transfer_none
  then show ?case using rep_empty by auto
next
  case (transfer_in q ins outs a v q')
  then obtain xs where xs: "rep q xs" "ins = outs @ xs" by blast
  from enq_ok [OF this(1) transfer_in(2), of v] transfer_in(3) have "rep q' (xs @ [v])" by auto
  with xs(2) show ?case by auto
next
  case (transfer_out q ins outs v q')
  then obtain xs where xs: "rep q xs" "ins = outs @ xs" by blast
  with rep_len transfer_out(2) obtain y ys where "xs = y # ys" by (cases xs) auto
  with xs deq_ok transfer_out(3) show ?case by fastforce
qed

end

section \<open>The linked list is a queue\<close>

text \<open>The nodes at \<open>as\<close> hold \<open>xs\<close>; \<open>p\<close> is the left neighbour of the first.\<close>

fun linked_nodes :: "(nat \<rightharpoonup> qnode) \<Rightarrow> nat \<Rightarrow> nat list \<Rightarrow> nat list \<Rightarrow> bool" where
  "linked_nodes ns p (a # as) (x # xs) =
     (ns a = Some \<lparr>node_value = x, left = p, right = (case as of [] \<Rightarrow> 0 | b # _ \<Rightarrow> b)\<rparr> \<and> linked_nodes ns a as xs)"
| "linked_nodes ns p [] [] = True"
| "linked_nodes ns p _ _ = False"

definition queue_rep :: "queue_t \<Rightarrow> nat list \<Rightarrow> bool" where
  "queue_rep q xs \<longleftrightarrow> (\<exists>as. linked_nodes (nodes q) 0 as xs \<and> distinct as \<and> 0 \<notin> set as \<and>
     dom (nodes q) = set as \<and> queue_size q = length xs \<and>
     head q = (if as = [] then 0 else hd as) \<and> (as \<noteq> [] \<longrightarrow> tail q = last as))"

definition fresh_node :: "queue_t \<Rightarrow> nat \<Rightarrow> bool" where
  "fresh_node q a \<longleftrightarrow> a \<noteq> 0 \<and> a \<notin> dom (nodes q)"

lemma linked_nodes_length: "linked_nodes ns p as xs \<Longrightarrow> length as = length xs"
  by (induction ns p as xs rule: linked_nodes.induct) auto

lemma linked_nodes_cong:
  "(\<And>a. a \<in> set as \<Longrightarrow> ns' a = ns a) \<Longrightarrow> linked_nodes ns' p as xs = linked_nodes ns p as xs"
  by (induction ns p as xs rule: linked_nodes.induct) auto

lemma linked_nodes_unique: "linked_nodes ns p as xs \<Longrightarrow> linked_nodes ns p as ys \<Longrightarrow> xs = ys"
proof (induction ns p as xs arbitrary: ys rule: linked_nodes.induct)
  case (1 ns p a as x xs)
  then show ?case by (cases ys) auto
next
  case (2 ns p)
  then show ?case by (cases ys) auto
qed auto

text \<open>The addresses are found by following the right links from the head, so they are unique.\<close>

lemma linked_nodes_same_length:
  "linked_nodes ns p as xs \<Longrightarrow> linked_nodes ns r bs ys \<Longrightarrow> length as = length bs \<Longrightarrow>
   (as \<noteq> [] \<Longrightarrow> hd as = hd bs) \<Longrightarrow> as = bs"
proof (induction ns p as xs arbitrary: r bs ys rule: linked_nodes.induct)
  case (1 ns p a as x xs)
  then obtain bs' y ys' where b: "bs = a # bs'" "ys = y # ys'" by (cases bs; cases ys) auto
  have "as \<noteq> [] \<Longrightarrow> hd as = hd bs'" using 1(2-4) by (cases as; cases bs') (auto simp: b)
  then have "as = bs'" using "1.IH" [of a bs' ys'] 1(2-4) by (simp add: b)
  then show ?case by (simp add: b)
qed auto

lemma queue_rep_unique:
  assumes "queue_rep q xs" "queue_rep q ys"
  shows "xs = ys"
proof -
  from assms(1) obtain as where a: "linked_nodes (nodes q) 0 as xs" "queue_size q = length xs"
    "head q = (if as = [] then 0 else hd as)" unfolding queue_rep_def by blast
  from assms(2) obtain bs where b: "linked_nodes (nodes q) 0 bs ys" "queue_size q = length ys"
    "head q = (if bs = [] then 0 else hd bs)" unfolding queue_rep_def by blast
  note len = linked_nodes_length [OF a(1)] linked_nodes_length [OF b(1)]
  have "as = bs"
    by (rule linked_nodes_same_length [OF a(1) b(1)]) (use a(2,3) b(2,3) len in \<open>auto split: if_splits\<close>)
  then show ?thesis using linked_nodes_unique a(1) b(1) by blast
qed

text \<open>A new node behind the last one.\<close>

lemma linked_nodes_append:
  assumes "linked_nodes ns p as xs" "as \<noteq> []" "distinct as" "b \<notin> set as"
  shows "\<exists>n. ns (last as) = Some n \<and>
    linked_nodes (ns(last as \<mapsto> n\<lparr>right := b\<rparr>, b \<mapsto> \<lparr>node_value = v, left = last as, right = 0\<rparr>)) p (as @ [b]) (xs @ [v])"
  using assms
proof (induction ns p as xs rule: linked_nodes.induct)
  case (1 ns p a as x xs)
  show ?case
  proof (cases as)
    case Nil
    then have "xs = []" using 1(2) by (cases xs) auto
    with 1(2,5) Nil show ?thesis by auto
  next
    case (Cons c cs)
    have "linked_nodes ns a as xs" "as \<noteq> []" "distinct as" "b \<notin> set as" using 1 Cons by auto
    from "1.IH" [OF this] obtain n where n: "ns (last as) = Some n"
      "linked_nodes (ns(last as \<mapsto> n\<lparr>right := b\<rparr>, b \<mapsto> \<lparr>node_value = v, left = last as, right = 0\<rparr>)) a (as @ [b]) (xs @ [v])"
      by blast
    define l where "l = last as"
    have l: "last (a # as) = l" "l \<noteq> a" "b \<noteq> a" using 1(4,5) Cons by (auto simp: l_def)
    let ?ns = "ns(l \<mapsto> n\<lparr>right := b\<rparr>, b \<mapsto> \<lparr>node_value = v, left = l, right = 0\<rparr>)"
    have "?ns a = ns a" "(case as @ [b] of [] \<Rightarrow> 0 | b # _ \<Rightarrow> b) = (case as of [] \<Rightarrow> 0 | b # _ \<Rightarrow> b)"
      using l(2,3) by (simp_all add: Cons)
    moreover have "linked_nodes ns p (a # as) (x # xs)" by (rule 1(2))
    ultimately have "linked_nodes ?ns p (a # as @ [b]) (x # xs @ [v])"
      using n(2) unfolding l_def [symmetric] linked_nodes.simps by metis
    then show ?thesis using n(1) unfolding l append_Cons l_def [symmetric] by blast
  qed
qed auto

lemma queue_enqueue_ok:
  assumes rep: "queue_rep q xs" and a: "fresh_node q a"
  shows "\<exists>q'. queue_enqueue a v q = Inr q' \<and> queue_rep q' (xs @ [v])"
proof -
  obtain as where as: "linked_nodes (nodes q) 0 as xs" "distinct as" "0 \<notin> set as" "dom (nodes q) = set as"
    "queue_size q = length xs" "head q = (if as = [] then 0 else hd as)" "as \<noteq> [] \<longrightarrow> tail q = last as"
    using rep unfolding queue_rep_def by blast
  have new: "a \<notin> set as" "a \<noteq> 0" using a as(4) by (auto simp: fresh_node_def)
  show ?thesis
  proof (cases "as = []")
    case True
    then have "xs = []" using linked_nodes_length [OF as(1)] by simp
    have "queue_enqueue a v q = Inr ((node_init a v q)\<lparr>head := a, tail := a, queue_size := 1\<rparr>)"
      using True as(6) by (simp add: queue_enqueue_def Let_def node_init_def)
    moreover have "queue_rep ((node_init a v q)\<lparr>head := a, tail := a, queue_size := 1\<rparr>) (xs @ [v])"
      unfolding queue_rep_def
      by (rule exI [of _ "[a]"]) (use True as(4) new \<open>xs = []\<close> in \<open>simp add: node_init_def\<close>)
    ultimately show ?thesis by blast
  next
    case False
    have "linked_nodes (nodes (node_init a v q)) 0 as xs = linked_nodes (nodes q) 0 as xs"
      by (rule linked_nodes_cong) (use new(1) in \<open>auto simp: node_init_def\<close>)
    then have old: "linked_nodes (nodes (node_init a v q)) 0 as xs" using as(1) by simp
    from linked_nodes_append [OF old False as(2) new(1), of v] obtain n where n:
      "nodes (node_init a v q) (last as) = Some n"
      "linked_nodes ((nodes (node_init a v q))(last as \<mapsto> n\<lparr>right := a\<rparr>,
         a \<mapsto> \<lparr>node_value = v, left = last as, right = 0\<rparr>)) 0 (as @ [a]) (xs @ [v])" by blast
    let ?q = "(node_init a v q)\<lparr>nodes := (nodes (node_init a v q))(last as \<mapsto> n\<lparr>right := a\<rparr>,
       a \<mapsto> \<lparr>node_value = v, left = last as, right = 0\<rparr>), tail := a, queue_size := queue_size q + 1\<rparr>"
    have "hd as \<in> set as" "last as \<in> set as" using False by simp_all
    then have "hd as \<noteq> 0" "last as \<noteq> a" using as(3) new(1) by metis+
    moreover have "head q = hd as" "tail q = last as" using False as(6,7) by simp_all
    ultimately have ends: "hd as \<noteq> 0" "last as \<noteq> a" "head q = hd as" "tail q = last as" by blast+
    then have "queue_enqueue a v q = Inr ?q"
      using n(1) by (simp add: queue_enqueue_def Let_def node_init_def upd_node_def get_node_def)
    moreover have "queue_rep ?q (xs @ [v])"
      unfolding queue_rep_def
    proof (rule exI [of _ "as @ [a]"], intro conjI)
      show "dom (nodes ?q) = set (as @ [a])" using as(4) False by (auto simp: node_init_def)
    qed (use n(2) as False new ends in \<open>auto simp: node_init_def\<close>)
    ultimately show ?thesis by blast
  qed
qed

lemma queue_dequeue_ok:
  assumes rep: "queue_rep q (x # xs)"
  shows "\<exists>q'. queue_dequeue q = Inr (x, q') \<and> queue_rep q' xs"
proof -
  obtain as where as: "linked_nodes (nodes q) 0 as (x # xs)" "distinct as" "0 \<notin> set as" "dom (nodes q) = set as"
    "queue_size q = length (x # xs)" "head q = (if as = [] then 0 else hd as)" "as \<noteq> [] \<longrightarrow> tail q = last as"
    using rep unfolding queue_rep_def by blast
  then obtain a as' where a: "as = a # as'" by (cases as) auto
  let ?r = "case as' of [] \<Rightarrow> 0 | b # _ \<Rightarrow> b"
  have node: "nodes q a = Some \<lparr>node_value = x, left = 0, right = ?r\<rparr>" and rest: "linked_nodes (nodes q) a as' xs"
    using as(1) by (simp_all add: a)
  have h: "head q = a" using as(6) by (simp add: a)
  note len = linked_nodes_length [OF rest]
  show ?thesis
  proof (cases as')
    case Nil
    let ?q = "q\<lparr>nodes := (nodes q)(a := None), head := 0, tail := 0, queue_size := 0\<rparr>"
    have "xs = []" "queue_size q = 1" using len Nil as(5) by simp_all
    then have "queue_dequeue q = Inr (x, ?q)"
      using node h by (simp add: queue_dequeue_def get_node_def free_node_def)
    moreover have "queue_rep ?q xs" unfolding queue_rep_def
      by (rule exI [of _ "[]"]) (use as(4) \<open>xs = []\<close> in \<open>auto simp: a Nil\<close>)
    ultimately show ?thesis by blast
  next
    case (Cons b bs)
    then obtain y ys where xs: "xs = y # ys" using len by (cases xs) auto
    let ?n = "\<lparr>node_value = y, left = 0, right = (case bs of [] \<Rightarrow> 0 | c # _ \<Rightarrow> c)\<rparr>"
    let ?q = "q\<lparr>nodes := ((nodes q)(b \<mapsto> ?n))(a := None), head := b, queue_size := queue_size q - 1\<rparr>"
    have b: "nodes q b = Some (?n\<lparr>left := a\<rparr>)" and bs: "linked_nodes (nodes q) b bs ys"
      using rest by (simp_all add: Cons xs)
    have diff: "a \<noteq> b" "a \<notin> set bs" "b \<notin> set bs" using as(2) by (auto simp: a Cons)
    have "queue_size q \<noteq> 1" using as(5) xs by simp
    then have "queue_dequeue q = Inr (x, ?q)"
      using node h b diff(1) by (simp add: queue_dequeue_def get_node_def free_node_def upd_node_def Cons)
    moreover have "linked_nodes (nodes ?q) b bs ys = linked_nodes (nodes q) b bs ys"
      by (rule linked_nodes_cong) (use diff in auto)
    then have "queue_rep ?q xs" unfolding queue_rep_def
      by (intro exI [of _ as'] conjI) (use bs as diff in \<open>auto simp: a Cons xs\<close>)
    ultimately show ?thesis by blast
  qed
qed

lemma queue_rep_init: "queue_rep queue_init []"
  unfolding queue_rep_def by (rule exI [of _ "[]"]) (simp add: queue_init_def)

lemma queue_rep_size: "queue_rep q xs \<Longrightarrow> queue_size q = length xs"
  by (auto simp: queue_rep_def)

lemma queue_rep_empty_nodes: "queue_rep q [] \<Longrightarrow> nodes q = Map.empty"
  by (auto simp: queue_rep_def dest: linked_nodes_length)

lemma queue_rep_finite: "queue_rep q xs \<Longrightarrow> finite (dom (nodes q))"
  by (auto simp: queue_rep_def)

interpretation lq: fifo_queue queue_rep queue_init fresh_node queue_enqueue queue_dequeue queue_size
proof
  show "\<exists>q'. queue_enqueue a v q = Inr q' \<and> queue_rep q' (xs @ [v])" if "queue_rep q xs" "fresh_node q a" for q xs a v
    using queue_enqueue_ok [OF that] .
  show "\<exists>q'. queue_dequeue q = Inr (x, q') \<and> queue_rep q' xs" if "queue_rep q (x # xs)" for q x xs
    using queue_dequeue_ok [OF that] .
  show "xs = ys" if "queue_rep q xs" "queue_rep q ys" for q xs ys using queue_rep_unique [OF that] .
qed (simp_all add: queue_rep_init queue_rep_size)

section \<open>Properties\<close>

text \<open>C28: the linked list is a first-in first-out queue: through any sequence of calls of \<open>queue_enqueue\<close> and
\<open>queue_dequeue\<close> (of a queue that is not empty) no access goes to a node that is not allocated, every
value comes out once and in the order in which it went in, and every node still allocated holds a value
still inside.\<close>

theorem queue_is_fifo:
  assumes "lq.transfers q ins outs"
  shows "\<exists>xs. ins = outs @ xs \<and> queue_size q = length xs \<and> card (dom (nodes q)) = length xs \<and>
    (\<forall>a v. fresh_node q a \<longrightarrow> (\<exists>q'. queue_enqueue a v q = Inr q')) \<and>
    (xs \<noteq> [] \<longrightarrow> (\<exists>q'. queue_dequeue q = Inr (hd xs, q')))"
proof -
  from lq.transfers_fifo [OF assms] obtain xs where xs: "queue_rep q xs" "ins = outs @ xs" by blast
  have "card (dom (nodes q)) = length xs"
    using xs(1) by (auto simp: queue_rep_def distinct_card dest: linked_nodes_length)
  moreover have "\<exists>q'. queue_dequeue q = Inr (hd xs, q')" if "xs \<noteq> []"
    using that queue_dequeue_ok [of q "hd xs" "tl xs"] xs(1) by auto
  ultimately show ?thesis using xs queue_enqueue_ok [OF xs(1)] queue_rep_size [OF xs(1)] by blast
qed

lemma queue_is_fifo_witness:
  "\<exists>q q'. queue_enqueue 8 41 queue_init = Inr q \<and> queue_enqueue 16 42 q = Inr q' \<and>
     (\<exists>q''. queue_dequeue q' = Inr (41, q''))"
proof -
  obtain q where q: "queue_enqueue 8 41 queue_init = Inr q" "dom (nodes q) = {8}"
    by (auto simp: queue_enqueue_def queue_init_def node_init_def Let_def)
  have one: "lq.transfers q [41] []"
    using lq.transfer_in [OF lq.transfer_none _ q(1)] by (simp add: fresh_node_def queue_init_def)
  have fresh: "fresh_node q 16" using q(2) by (simp add: fresh_node_def)
  then obtain q' where q': "queue_enqueue 16 42 q = Inr q'" using queue_is_fifo [OF one] by blast
  have "lq.transfers q' [41, 42] []" using lq.transfer_in [OF one fresh q'] by simp
  from queue_is_fifo [OF this] q(1) q' show ?thesis by auto
qed

end
