(* ===== verification/ThreadPool.thy ===== *)
theory ThreadPool
  imports Queue
begin

text \<open>
  The thread pool of \<open>project05-wduan/src/thread_pool.c\<close> over the queue of \<open>queue.c\<close>: the main thread, which
  makes the pool, adds work and finishes, and the worker threads, as steps of a relation. A step is what a
  thread does between two points where another may run: taking the mutex, a critical section with
  the signal or wait that ends it, or work outside of one. Which thread runs next, which waiting
  thread a signal wakes, the addresses \<open>malloc\<close> returns and spurious wake-ups are left open.
\<close>

section \<open>Threads\<close>

datatype thread = Main | Worker nat

text \<open>Where a worker is: before locking in \<open>queue_dequeue\<close>, in \<open>pthread_cond_wait\<close>, signalled but without the
mutex, at the test of the loop with the mutex, back in \<open>execute_work\<close> with a pointer, running a work
function, at its end.\<close>

datatype worker_pc = At_dequeue | Waiting | Woken | Checking | Got nat | Running nat | Exited

text \<open>Where the main thread is: in the loop of \<open>thread_pool_init\<close>, with work left to add, in the two loops of
\<open>thread_pool_finish\<close>, at each of the three releases that follow them, at its end; in \<open>queue_enqueue\<close> before and with the mutex, and where it goes on then.\<close>

datatype 'w main_pc =
    Creating nat
  | Adding "'w list"
  | Finishing nat
  | Joining nat
  | Freeing_queue
  | Freeing_threads
  | Freeing_pool
  | Returned
  | Enqueueing nat "'w main_pc"
  | In_enqueue nat "'w main_pc"

text \<open>What \<open>thread_pool_init\<close> and \<open>queue_init\<close> allocate: the \<open>thread_pool_t\<close>, its array of threads, the \<open>queue_t\<close> with
its mutex and condition variable.\<close>

datatype chunk = Pool_struct | Threads_array | Queue_struct

text \<open>\<open>works\<close> are the allocated \<open>work_t\<close>, each a function with its argument; \<open>taken\<close> and \<open>completed\<close> record the work
that left the queue and the work that was done; \<open>allocated\<close> holds those of the three chunks that are not freed.\<close>

record 'w pool =
  queue :: queue_t
  mutex :: "thread option"
  works :: "nat \<rightharpoonup> 'w"
  workers :: "nat \<rightharpoonup> worker_pc"
  main_at :: "'w main_pc"
  taken :: "'w list"
  completed :: "'w list"
  allocated :: "chunk set"

definition thread_pool_init :: "'w pool" where
  "thread_pool_init = \<lparr>queue = queue_init, mutex = None, works = Map.empty, workers = Map.empty,
     main_at = Creating 0, taken = [], completed = [], allocated = {Pool_struct, Threads_array, Queue_struct}\<rparr>"

text \<open>\<open>pthread_cond_signal\<close> wakes one of the waiting threads, if there is one.\<close>

definition cond_signal :: "(nat \<rightharpoonup> worker_pc) \<Rightarrow> (nat \<rightharpoonup> worker_pc) \<Rightarrow> bool" where
  "cond_signal W W' \<longleftrightarrow>
     (if \<exists>i. W i = Some Waiting then \<exists>i. W i = Some Waiting \<and> W' = W(i \<mapsto> Woken) else W' = W)"

text \<open>The work a pointer from the queue stands for.\<close>

definition work_at :: "'w pool \<Rightarrow> nat \<Rightarrow> 'w list" where
  "work_at s a = (case works s a of None \<Rightarrow> [] | Some w \<Rightarrow> [w])"

section \<open>Steps\<close>

text \<open>\<open>num\<close> is the number of worker threads, \<open>jobs\<close> the work the program adds. A step that reads or writes the
pool, the array of threads or the queue needs it allocated.\<close>

inductive main_step :: "nat \<Rightarrow> 'w list \<Rightarrow> 'w pool \<Rightarrow> 'w pool \<Rightarrow> bool" for num jobs where
  create: "main_at s = Creating i \<Longrightarrow> i < num \<Longrightarrow> {Pool_struct, Threads_array} \<subseteq> allocated s \<Longrightarrow>
    main_step num jobs s (s\<lparr>workers := (workers s)(i \<mapsto> At_dequeue), main_at := Creating (i + 1)\<rparr>)"
| created: "main_at s = Creating num \<Longrightarrow> main_step num jobs s (s\<lparr>main_at := Adding jobs\<rparr>)"
| add_work: "main_at s = Adding (w # ws) \<Longrightarrow> a \<noteq> 0 \<Longrightarrow> works s a = None \<Longrightarrow> Pool_struct \<in> allocated s \<Longrightarrow>
    main_step num jobs s (s\<lparr>works := (works s)(a \<mapsto> w), main_at := Enqueueing a (Adding ws)\<rparr>)"
| finish: "main_at s = Adding [] \<Longrightarrow> main_step num jobs s (s\<lparr>main_at := Finishing 0\<rparr>)"
| finish_work: "main_at s = Finishing i \<Longrightarrow> i < num \<Longrightarrow> Pool_struct \<in> allocated s \<Longrightarrow>
    main_step num jobs s (s\<lparr>main_at := Enqueueing 0 (Finishing (i + 1))\<rparr>)"
| finished: "main_at s = Finishing num \<Longrightarrow> Pool_struct \<in> allocated s \<Longrightarrow>
    main_step num jobs s (s\<lparr>main_at := Joining 0\<rparr>)"
| join: "main_at s = Joining i \<Longrightarrow> i < num \<Longrightarrow> {Pool_struct, Threads_array} \<subseteq> allocated s \<Longrightarrow>
    workers s i = Some Exited \<Longrightarrow> main_step num jobs s (s\<lparr>main_at := Joining (i + 1)\<rparr>)"
| joined: "main_at s = Joining num \<Longrightarrow> Pool_struct \<in> allocated s \<Longrightarrow>
    main_step num jobs s (s\<lparr>main_at := Freeing_queue\<rparr>)"
| free_queue: "main_at s = Freeing_queue \<Longrightarrow> {Pool_struct, Queue_struct} \<subseteq> allocated s \<Longrightarrow>
    main_step num jobs s (s\<lparr>allocated := allocated s - {Queue_struct}, main_at := Freeing_threads\<rparr>)"
| free_threads: "main_at s = Freeing_threads \<Longrightarrow> {Pool_struct, Threads_array} \<subseteq> allocated s \<Longrightarrow>
    main_step num jobs s (s\<lparr>allocated := allocated s - {Threads_array}, main_at := Freeing_pool\<rparr>)"
| free_pool: "main_at s = Freeing_pool \<Longrightarrow> Pool_struct \<in> allocated s \<Longrightarrow>
    main_step num jobs s (s\<lparr>allocated := allocated s - {Pool_struct}, main_at := Returned\<rparr>)"
| enqueue_lock: "main_at s = Enqueueing v k \<Longrightarrow> mutex s = None \<Longrightarrow> Queue_struct \<in> allocated s \<Longrightarrow>
    main_step num jobs s (s\<lparr>mutex := Some Main, main_at := In_enqueue v k\<rparr>)"
| enqueue: "main_at s = In_enqueue v k \<Longrightarrow> Queue_struct \<in> allocated s \<Longrightarrow> fresh_node (queue s) a \<Longrightarrow>
    queue_enqueue a v (queue s) = Inr q \<Longrightarrow> cond_signal (workers s) W \<Longrightarrow>
    main_step num jobs s (s\<lparr>queue := q, workers := W, mutex := None, main_at := k\<rparr>)"

inductive worker_step :: "nat \<Rightarrow> 'w pool \<Rightarrow> 'w pool \<Rightarrow> bool" where
  dequeue_lock: "workers s i = Some At_dequeue \<or> workers s i = Some Woken \<Longrightarrow> mutex s = None \<Longrightarrow>
    Queue_struct \<in> allocated s \<Longrightarrow>
    worker_step i s (s\<lparr>mutex := Some (Worker i), workers := (workers s)(i \<mapsto> Checking)\<rparr>)"
| dequeue_wait: "workers s i = Some Checking \<Longrightarrow> Queue_struct \<in> allocated s \<Longrightarrow> queue_size (queue s) = 0 \<Longrightarrow>
    worker_step i s (s\<lparr>mutex := None, workers := (workers s)(i \<mapsto> Waiting)\<rparr>)"
| dequeue: "workers s i = Some Checking \<Longrightarrow> Queue_struct \<in> allocated s \<Longrightarrow> queue_size (queue s) \<noteq> 0 \<Longrightarrow>
    queue_dequeue (queue s) = Inr (a, q) \<Longrightarrow>
    worker_step i s (s\<lparr>queue := q, mutex := None, workers := (workers s)(i \<mapsto> Got a), taken := taken s @ work_at s a\<rparr>)"
| exit_worker: "workers s i = Some (Got 0) \<Longrightarrow> worker_step i s (s\<lparr>workers := (workers s)(i \<mapsto> Exited)\<rparr>)"
| run_work: "workers s i = Some (Got a) \<Longrightarrow> a \<noteq> 0 \<Longrightarrow> works s a = Some w \<Longrightarrow>
    worker_step i s (s\<lparr>workers := (workers s)(i \<mapsto> Running a)\<rparr>)"
| work_done: "workers s i = Some (Running a) \<Longrightarrow> works s a = Some w \<Longrightarrow>
    worker_step i s (s\<lparr>works := (works s)(a := None), workers := (workers s)(i \<mapsto> At_dequeue), completed := completed s @ [w]\<rparr>)"

text \<open>\<open>pthread_cond_wait\<close> may return without a signal.\<close>

inductive spurious_wakeup :: "'w pool \<Rightarrow> 'w pool \<Rightarrow> bool" where
  spurious: "workers s i = Some Waiting \<Longrightarrow> spurious_wakeup s (s\<lparr>workers := (workers s)(i \<mapsto> Woken)\<rparr>)"

text \<open>A step of some thread.\<close>

definition pool_step :: "nat \<Rightarrow> 'w list \<Rightarrow> 'w pool \<Rightarrow> 'w pool \<Rightarrow> bool" where
  "pool_step num jobs s s' \<longleftrightarrow> main_step num jobs s s' \<or> (\<exists>i. worker_step i s s')"

text \<open>The states after \<open>k\<close> steps of threads and \<open>j\<close> spurious wake-ups, in any order.\<close>

inductive pool_run :: "nat \<Rightarrow> 'w list \<Rightarrow> nat \<Rightarrow> nat \<Rightarrow> 'w pool \<Rightarrow> bool" for num jobs where
  run_start: "pool_run num jobs 0 0 thread_pool_init"
| run_step: "pool_run num jobs k j s \<Longrightarrow> pool_step num jobs s s' \<Longrightarrow> pool_run num jobs (k + 1) j s'"
| run_spurious: "pool_run num jobs k j s \<Longrightarrow> spurious_wakeup s s' \<Longrightarrow> pool_run num jobs k (j + 1) s'"

section \<open>The invariant\<close>

text \<open>Sums over all workers.\<close>

lemma sum_upd:
  fixes f :: "worker_pc option \<Rightarrow> 'a :: comm_monoid_add" and num :: nat
  assumes "i < num"
  shows "(\<Sum>j<num. f ((W(i := x)) j)) + f (W i) = (\<Sum>j<num. f (W j)) + f x"
proof -
  have "(\<Sum>j<num. f ((W(i := x)) j)) = f x + (\<Sum>j\<in>{..<num} - {i}. f ((W(i := x)) j))"
    using assms by (subst sum.remove [of _ i]) auto
  moreover have "(\<Sum>j<num. f (W j)) = f (W i) + (\<Sum>j\<in>{..<num} - {i}. f (W j))"
    using assms by (subst sum.remove [of _ i]) auto
  moreover have "(\<Sum>j\<in>{..<num} - {i}. f ((W(i := x)) j)) = (\<Sum>j\<in>{..<num} - {i}. f (W j))"
    by (rule sum.cong) auto
  ultimately show ?thesis by (simp add: ac_simps)
qed

text \<open>The pointers a worker holds; whether it has seen a \<open>NULL\<close>; whether it will look at the queue again.\<close>

fun held :: "worker_pc option \<Rightarrow> nat multiset" where
  "held (Some (Got a)) = (if a = 0 then {#} else {#a#})"
| "held (Some (Running a)) = {#a#}"
| "held _ = {#}"

fun stopped :: "worker_pc option \<Rightarrow> nat" where
  "stopped (Some (Got a)) = (if a = 0 then 1 else 0)"
| "stopped (Some Exited) = 1"
| "stopped _ = 0"

fun busy :: "worker_pc option \<Rightarrow> nat" where
  "busy (Some Waiting) = 0"
| "busy None = 0"
| "busy x = 1 - stopped x"

text \<open>The same for the main thread: the pointer it is about to put in, the work that is not in the queue yet,
the number of \<open>NULL\<close>s it has put in.\<close>

fun pending :: "'w main_pc \<Rightarrow> nat multiset" where
  "pending (Enqueueing v k) = (if v = 0 then {#} else {#v#})"
| "pending (In_enqueue v k) = (if v = 0 then {#} else {#v#})"
| "pending _ = {#}"

fun rest :: "'w list \<Rightarrow> (nat \<rightharpoonup> 'w) \<Rightarrow> 'w main_pc \<Rightarrow> 'w list" where
  "rest jobs wk (Creating i) = jobs"
| "rest jobs wk (Adding ws) = ws"
| "rest jobs wk (Enqueueing v k) = (if v = 0 then [] else [the (wk v)]) @ rest jobs wk k"
| "rest jobs wk (In_enqueue v k) = (if v = 0 then [] else [the (wk v)]) @ rest jobs wk k"
| "rest jobs wk _ = []"

fun nulls :: "nat \<Rightarrow> 'w main_pc \<Rightarrow> nat" where
  "nulls num (Finishing i) = i"
| "nulls num (Joining i) = num"
| "nulls num Freeing_queue = num"
| "nulls num Freeing_threads = num"
| "nulls num Freeing_pool = num"
| "nulls num Returned = num"
| "nulls num (Enqueueing v k) = nulls num k - (if v = 0 then 1 else 0)"
| "nulls num (In_enqueue v k) = nulls num k - (if v = 0 then 1 else 0)"
| "nulls num _ = 0"

fun main_ok :: "nat \<Rightarrow> 'w main_pc \<Rightarrow> bool" where
  "main_ok num (Creating i) = (i \<le> num)"
| "main_ok num (Finishing i) = (i \<le> num)"
| "main_ok num (Joining i) = (i \<le> num)"
| "main_ok num (Enqueueing v k) = (if v = 0 then \<exists>i<num. k = Finishing (i + 1) else \<exists>ws. k = Adding ws)"
| "main_ok num (In_enqueue v k) = (if v = 0 then \<exists>i<num. k = Finishing (i + 1) else \<exists>ws. k = Adding ws)"
| "main_ok num _ = True"

fun created_by :: "nat \<Rightarrow> 'w main_pc \<Rightarrow> nat" where
  "created_by num (Creating i) = i"
| "created_by num _ = num"

text \<open>What is left when the main thread is there, and whether it has joined all workers.\<close>

fun unfreed :: "'w main_pc \<Rightarrow> chunk set" where
  "unfreed Freeing_threads = {Pool_struct, Threads_array}"
| "unfreed Freeing_pool = {Pool_struct}"
| "unfreed Returned = {}"
| "unfreed _ = {Pool_struct, Threads_array, Queue_struct}"

definition past_joins :: "'w main_pc \<Rightarrow> bool" where
  "past_joins m \<longleftrightarrow> m \<in> {Freeing_queue, Freeing_threads, Freeing_pool, Returned}"

lemma past_joins_simps [simp]:
  "past_joins Freeing_queue" "past_joins Freeing_threads" "past_joins Freeing_pool" "past_joins Returned"
  "\<not> past_joins (Creating i)" "\<not> past_joins (Adding ws)" "\<not> past_joins (Finishing i)" "\<not> past_joins (Joining i)"
  "\<not> past_joins (Enqueueing v k)" "\<not> past_joins (In_enqueue v k)"
  by (simp_all add: past_joins_def)

abbreviation "held_all num s \<equiv> (\<Sum>i<num. held (workers s i))"

text \<open>The queue holds the pointers \<open>xs\<close>: work in the order in which it was added, then \<open>NULL\<close>s.\<close>

fun works_first :: "nat list \<Rightarrow> bool" where
  "works_first [] = True"
| "works_first (x # xs) = (if x = 0 then set xs \<subseteq> {0} else works_first xs)"

definition queue_inv :: "nat \<Rightarrow> 'w list \<Rightarrow> nat list \<Rightarrow> 'w pool \<Rightarrow> bool" where
  "queue_inv num jobs xs s \<longleftrightarrow> queue_rep (queue s) xs \<and> works_first xs \<and>
     ((\<Sum>i<num. stopped (workers s i)) \<noteq> 0 \<longrightarrow> filter (\<lambda>a. a \<noteq> 0) xs = []) \<and>
     jobs = taken s @ map (the \<circ> works s) (filter (\<lambda>a. a \<noteq> 0) xs) @ rest jobs (works s) (main_at s) \<and>
     (\<Sum>i<num. stopped (workers s i)) + count_list xs 0 = nulls num (main_at s)"

text \<open>Every allocated \<open>work_t\<close> has one owner: a worker, the queue or the main thread.\<close>

definition works_inv :: "nat \<Rightarrow> nat list \<Rightarrow> 'w pool \<Rightarrow> bool" where
  "works_inv num xs s \<longleftrightarrow> finite (dom (works s)) \<and> 0 \<notin> dom (works s) \<and>
     mset_set (dom (works s)) = held_all num s + mset (filter (\<lambda>a. a \<noteq> 0) xs) + pending (main_at s) \<and>
     mset (taken s) = mset (completed s) + image_mset (the \<circ> works s) (held_all num s)"

definition lock_inv :: "'w pool \<Rightarrow> bool" where
  "lock_inv s \<longleftrightarrow> (mutex s = Some Main \<longleftrightarrow> (\<exists>v k. main_at s = In_enqueue v k)) \<and>
     (\<forall>i. mutex s = Some (Worker i) \<longleftrightarrow> workers s i = Some Checking)"

definition main_inv :: "nat \<Rightarrow> 'w pool \<Rightarrow> bool" where
  "main_inv num s \<longleftrightarrow> main_ok num (main_at s) \<and> dom (workers s) = {..<created_by num (main_at s)} \<and>
     (\<forall>i j. main_at s = Joining i \<longrightarrow> j < i \<longrightarrow> workers s j = Some Exited) \<and>
     (past_joins (main_at s) \<longrightarrow> (\<forall>j<num. workers s j = Some Exited)) \<and> allocated s = unfreed (main_at s)"

text \<open>While a worker waits, for every value in the queue some worker will look at the queue.\<close>

definition wake_inv :: "nat \<Rightarrow> nat list \<Rightarrow> 'w pool \<Rightarrow> bool" where
  "wake_inv num xs s \<longleftrightarrow> (\<exists>i. workers s i = Some Waiting) \<longrightarrow> length xs \<le> (\<Sum>i<num. busy (workers s i))"

definition pool_inv :: "nat \<Rightarrow> 'w list \<Rightarrow> 'w pool \<Rightarrow> bool" where
  "pool_inv num jobs s \<longleftrightarrow> lock_inv s \<and> main_inv num s \<and>
     (\<exists>xs. queue_inv num jobs xs s \<and> works_inv num xs s \<and> wake_inv num xs s)"

text \<open>Sums that count: the change of one worker.\<close>

lemma sum_upd_nat:
  fixes f :: "worker_pc option \<Rightarrow> nat" and num :: nat
  assumes "i < num" "W i = y" "f y \<le> f x"
  shows "(\<Sum>j<num. f ((W(i := x)) j)) = (\<Sum>j<num. f (W j)) + (f x - f y)"
  using sum_upd [OF assms(1), of f W x] assms(2,3) by simp

lemma worker_index:
  assumes "main_inv num s" "workers s i = Some pc"
  shows "i < num"
proof -
  have "i \<in> {..<created_by num (main_at s)}" using assms by (auto simp: main_inv_def)
  moreover have "created_by num (main_at s) \<le> num"
    using assms(1) by (cases "main_at s") (auto simp: main_inv_def)
  ultimately show ?thesis by simp
qed

lemma pool_inv_init: "pool_inv num jobs thread_pool_init"
proof -
  have "queue_inv num jobs [] thread_pool_init \<and> works_inv num [] thread_pool_init \<and> wake_inv num [] thread_pool_init"
    by (simp add: queue_inv_def works_inv_def wake_inv_def thread_pool_init_def queue_rep_init)
  moreover have "lock_inv thread_pool_init" "main_inv num thread_pool_init"
    by (simp_all add: lock_inv_def main_inv_def thread_pool_init_def)
  ultimately show ?thesis unfolding pool_inv_def by blast
qed

lemma lock_holder: "lock_inv s \<Longrightarrow> workers s i = Some Checking \<Longrightarrow> workers s j = Some Checking \<Longrightarrow> i = j"
  unfolding lock_inv_def by (metis option.inject thread.inject)

text \<open>A step of a worker that leaves queue, works and the main thread alone.\<close>

definition lock_ok :: "'w pool \<Rightarrow> thread option \<Rightarrow> nat \<Rightarrow> worker_pc \<Rightarrow> bool" where
  "lock_ok s m i pc \<longleftrightarrow>
     (if pc = Checking then mutex s = None \<and> m = Some (Worker i)
      else if workers s i = Some Checking then m = None else m = mutex s)"

lemma worker_moves:
  assumes inv: "pool_inv num jobs s" and w: "workers s i = Some old"
    and same: "held (Some pc) = held (Some old)" "stopped (Some pc) = stopped (Some old)" "pc \<noteq> Waiting" "old \<noteq> Exited"
    and lock: "lock_ok s m i pc"
  shows "pool_inv num jobs (s\<lparr>mutex := m, workers := (workers s)(i \<mapsto> pc)\<rparr>)"
proof -
  let ?W = "(workers s)(i \<mapsto> pc)" and ?s = "s\<lparr>mutex := m, workers := (workers s)(i \<mapsto> pc)\<rparr>"
  from inv obtain xs where xs: "lock_inv s" "main_inv num s" "queue_inv num jobs xs s" "works_inv num xs s"
    "wake_inv num xs s" unfolding pool_inv_def by blast
  have i: "i < num" by (rule worker_index [OF xs(2) w])
  have held: "(\<Sum>j<num. held (?W j)) = (\<Sum>j<num. held (workers s j))"
    using sum_upd [OF i, of held "workers s" "Some pc"] same(1) w by simp
  have stop: "(\<Sum>j<num. stopped (?W j)) = (\<Sum>j<num. stopped (workers s j))"
    using sum_upd [OF i, of stopped "workers s" "Some pc"] same(2) w by simp
  have busy: "busy (workers s i) \<le> busy (Some pc)" using same(2,3) w by (cases old; cases pc) auto
  have "(\<Sum>j<num. busy (workers s j)) \<le> (\<Sum>j<num. busy (?W j))"
    using sum_upd [OF i, of busy "workers s" "Some pc"] busy by simp
  then have "wake_inv num xs ?s"
    using xs(5) same(3) by (auto simp: wake_inv_def split: if_splits)
  moreover have "lock_inv ?s"
    using xs(1) lock lock_holder [OF xs(1)] unfolding lock_inv_def lock_ok_def by (auto split: if_splits)
  moreover have "main_inv num ?s"
  proof -
    have "i \<in> dom (workers s)" using w by blast
    then show ?thesis using xs(2) same(4) w by (auto simp: main_inv_def)
  qed
  moreover have "queue_inv num jobs xs ?s" "works_inv num xs ?s"
    using xs(3,4) held stop by (simp_all add: queue_inv_def works_inv_def del: fun_upd_apply)
  ultimately show ?thesis unfolding pool_inv_def by blast
qed

section \<open>The steps keep the invariant\<close>

lemma queue_inv_nonnull:
  assumes "works_inv num xs s" "a \<in> set xs" "a \<noteq> 0"
  shows "\<exists>w. works s a = Some w"
proof -
  have "a \<in># held_all num s + mset (filter (\<lambda>a. a \<noteq> 0) xs) + pending (main_at s)" using assms(2,3) by simp
  then have "a \<in># mset_set (dom (works s))" using assms(1) by (simp add: works_inv_def)
  moreover have "finite (dom (works s))" using assms(1) by (simp add: works_inv_def)
  ultimately show ?thesis by auto
qed

lemma wait_ok:
  assumes inv: "pool_inv num jobs s" and w: "workers s i = Some Checking" and e: "queue_size (queue s) = 0"
  shows "pool_inv num jobs (s\<lparr>mutex := None, workers := (workers s)(i \<mapsto> Waiting)\<rparr>)"
proof -
  let ?W = "(workers s)(i \<mapsto> Waiting)" and ?s = "s\<lparr>mutex := None, workers := (workers s)(i \<mapsto> Waiting)\<rparr>"
  from inv obtain xs where xs: "lock_inv s" "main_inv num s" "queue_inv num jobs xs s" "works_inv num xs s"
    unfolding pool_inv_def by blast
  have i: "i < num" by (rule worker_index [OF xs(2) w])
  have sums: "(\<Sum>j<num. held (?W j)) = (\<Sum>j<num. held (workers s j))"
    "(\<Sum>j<num. stopped (?W j)) = (\<Sum>j<num. stopped (workers s j))"
    using sum_upd [OF i, of held "workers s" "Some Waiting"] sum_upd [OF i, of stopped "workers s" "Some Waiting"] w
    by simp_all
  have "xs = []" using xs(3) e by (auto simp: queue_inv_def dest: queue_rep_size)
  then have "wake_inv num xs ?s" by (simp add: wake_inv_def)
  moreover have "lock_inv ?s"
    using xs(1) w lock_holder [OF xs(1)] unfolding lock_inv_def by (auto split: if_splits)
  moreover have "main_inv num ?s"
  proof -
    have "i \<in> dom (workers s)" using w by blast
    then show ?thesis using xs(2) w by (auto simp: main_inv_def)
  qed
  moreover have "queue_inv num jobs xs ?s" "works_inv num xs ?s"
    using xs(3,4) sums by (simp_all add: queue_inv_def works_inv_def del: fun_upd_apply)
  ultimately show ?thesis unfolding pool_inv_def by blast
qed

lemma works_first_nulls: "works_first (0 # xs) \<Longrightarrow> filter (\<lambda>a. a \<noteq> 0) xs = []"
  by (auto simp: filter_empty_conv)

lemma works_first_tl: "works_first (x # xs) \<Longrightarrow> works_first xs"
proof (induction xs)
  case (Cons y ys)
  then show ?case by (cases "x = 0") auto
qed simp

lemma works_first_append: "works_first xs \<Longrightarrow> v = 0 \<or> count_list xs 0 = 0 \<Longrightarrow> works_first (xs @ [v])"
  by (induction xs) (auto split: if_splits)

lemma dequeue_ok:
  assumes inv: "pool_inv num jobs s" and w: "workers s i = Some Checking" and d: "queue_dequeue (queue s) = Inr (a, q)"
    and ne: "queue_size (queue s) \<noteq> 0"
  shows "pool_inv num jobs (s\<lparr>queue := q, mutex := None, workers := (workers s)(i \<mapsto> Got a), taken := taken s @ work_at s a\<rparr>)"
    (is "pool_inv num jobs ?s")
proof -
  let ?W = "(workers s)(i \<mapsto> Got a)"
  from inv obtain xs0 where xs: "lock_inv s" "main_inv num s" "queue_inv num jobs xs0 s" "works_inv num xs0 s"
    "wake_inv num xs0 s" unfolding pool_inv_def by blast
  then obtain x xs' where x: "xs0 = x # xs'" using ne by (cases xs0) (auto simp: queue_inv_def dest: queue_rep_size)
  then have "\<exists>q'. queue_dequeue (queue s) = Inr (x, q') \<and> queue_rep q' xs'"
    using xs(3) by (intro queue_dequeue_ok) (simp add: queue_inv_def)
  with d have q: "x = a" "queue_rep q xs'" by auto
  have i: "i < num" by (rule worker_index [OF xs(2) w])
  note up = sum_upd [OF i, of held "workers s" "Some (Got a)"] sum_upd [OF i, of stopped "workers s" "Some (Got a)"]
    sum_upd [OF i, of busy "workers s" "Some (Got a)"]
  have "(\<Sum>j<num. busy (workers s j)) \<le> (\<Sum>j<num. busy (?W j)) + 1" using up(3) w by (auto split: if_splits)
  moreover have "\<exists>k. workers s k = Some Waiting" if "\<exists>k. ?W k = Some Waiting" using that by (auto split: if_splits)
  ultimately have wake: "wake_inv num xs' ?s"
    using xs(5) x unfolding wake_inv_def by (clarsimp simp del: fun_upd_apply) fastforce
  have "lock_inv ?s"
    using xs(1) w lock_holder [OF xs(1)] unfolding lock_inv_def by (auto split: if_splits)
  moreover have "main_inv num ?s"
  proof -
    have "i \<in> dom (workers s)" using w by blast
    then show ?thesis using xs(2) w by (auto simp: main_inv_def)
  qed
  moreover have "queue_inv num jobs xs' ?s \<and> works_inv num xs' ?s"
  proof (cases "a = 0")
    case True
    have work: "work_at s a = []" using xs(4) True by (auto simp: work_at_def works_inv_def split: option.splits)
    have sums: "(\<Sum>j<num. held (?W j)) = (\<Sum>j<num. held (workers s j))"
      "(\<Sum>j<num. stopped (?W j)) = (\<Sum>j<num. stopped (workers s j)) + 1"
      using up w True by simp_all
    have nulls: "filter (\<lambda>a. a \<noteq> 0) xs' = []"
      using xs(3) x q(1) True works_first_nulls by (simp add: queue_inv_def)
    show ?thesis using xs(3,4) x q True sums nulls work works_first_tl [of x xs']
      unfolding queue_inv_def works_inv_def by (auto simp del: fun_upd_apply)
  next
    case False
    obtain v where v: "works s a = Some v" using queue_inv_nonnull [OF xs(4)] x q(1) False by auto
    have sums: "(\<Sum>j<num. held (?W j)) = (\<Sum>j<num. held (workers s j)) + {#a#}"
      "(\<Sum>j<num. stopped (?W j)) = (\<Sum>j<num. stopped (workers s j))"
      using up w False by simp_all
    show ?thesis using xs(3,4) x q False sums v works_first_tl [of x xs']
      unfolding queue_inv_def works_inv_def work_at_def by (auto simp del: fun_upd_apply)
  qed
  ultimately show ?thesis using wake unfolding pool_inv_def by blast
qed

lemma rest_upd: "main_ok num m \<Longrightarrow> a \<notin># pending m \<Longrightarrow> rest jobs (wk(a := x)) m = rest jobs wk m"
  by (cases m) (auto split: if_splits)

text \<open>Changing what is at an address nobody else owns.\<close>

lemma unowned_upd:
  assumes "main_ok num m" "a \<notin># H + mset (filter (\<lambda>a. a \<noteq> 0) xs) + pending m"
  shows "rest jobs (wk(a := x)) m = rest jobs wk m"
    "map (the \<circ> wk(a := x)) (filter (\<lambda>a. a \<noteq> 0) xs) = map (the \<circ> wk) (filter (\<lambda>a. a \<noteq> 0) xs)"
    "image_mset (the \<circ> wk(a := x)) H = image_mset (the \<circ> wk) H"
proof -
  show "rest jobs (wk(a := x)) m = rest jobs wk m" using assms by (intro rest_upd) auto
  show "map (the \<circ> wk(a := x)) (filter (\<lambda>a. a \<noteq> 0) xs) = map (the \<circ> wk) (filter (\<lambda>a. a \<noteq> 0) xs)"
    using assms(2) by auto
  have "a \<notin># H" using assms(2) by simp
  then show "image_mset (the \<circ> wk(a := x)) H = image_mset (the \<circ> wk) H"
    by (intro image_mset_cong) auto
qed

lemma mset_set_once: "mset_set D = add_mset a M \<Longrightarrow> a \<notin># M"
  by (metis count_add_mset count_mset_set' le_zero_eq not_in_iff not_less_eq_eq order_refl One_nat_def zero_le_one)

lemma work_done_ok:
  assumes inv: "pool_inv num jobs s" and w: "workers s i = Some (Running a)" and v: "works s a = Some v"
  shows "pool_inv num jobs (s\<lparr>works := (works s)(a := None), workers := (workers s)(i \<mapsto> At_dequeue),
    completed := completed s @ [v]\<rparr>)" (is "pool_inv num jobs ?s")
proof -
  let ?W = "(workers s)(i \<mapsto> At_dequeue)" and ?H = "\<lambda>W. \<Sum>j<num. held (W j)"
  from inv obtain xs where xs: "lock_inv s" "main_inv num s" "queue_inv num jobs xs s" "works_inv num xs s"
    "wake_inv num xs s" unfolding pool_inv_def by blast
  let ?others = "?H ?W + mset (filter (\<lambda>a. a \<noteq> 0) xs) + pending (main_at s)"
  have i: "i < num" by (rule worker_index [OF xs(2) w])
  have held: "?H (workers s) = add_mset a (?H ?W)"
    using sum_upd [OF i, of held "workers s" "Some At_dequeue"] w by simp
  have stop: "(\<Sum>j<num. stopped (?W j)) = (\<Sum>j<num. stopped (workers s j))"
    using sum_upd [OF i, of stopped "workers s" "Some At_dequeue"] w by simp
  have busy: "(\<Sum>j<num. busy (?W j)) = (\<Sum>j<num. busy (workers s j))"
    using sum_upd [OF i, of busy "workers s" "Some At_dequeue"] w by simp
  have fin: "finite (dom (works s))" using xs(4) by (simp add: works_inv_def)
  have dom: "mset_set (dom (works s)) = add_mset a ?others" using xs(4) held by (simp add: works_inv_def)
  have only: "a \<notin># ?others" by (rule mset_set_once [OF dom])
  have "main_ok num (main_at s)" using xs(2) by (simp add: main_inv_def)
  note same = unowned_upd [OF this only]
  have "mset_set (dom (works s) - {a}) = ?others" using dom fin v by (subst mset_set_Diff) auto
  then have "works_inv num xs ?s"
    using xs(4) held same(3) v fin by (auto simp: works_inv_def simp del: fun_upd_apply)
  moreover have "queue_inv num jobs xs ?s"
    using xs(3) same(1,2) stop by (simp add: queue_inv_def del: fun_upd_apply map_eq_conv)
  moreover have "wake_inv num xs ?s"
    using xs(5) busy by (auto simp: wake_inv_def split: if_splits)
  moreover have "lock_inv ?s" using xs(1) w unfolding lock_inv_def by auto
  moreover have "main_inv num ?s"
  proof -
    have "i \<in> dom (workers s)" using w by blast
    then show ?thesis using xs(2) w by (auto simp: main_inv_def)
  qed
  ultimately show ?thesis unfolding pool_inv_def by blast
qed

text \<open>Every step of a worker.\<close>

lemma worker_step_ok: "worker_step i s s' \<Longrightarrow> pool_inv num jobs s \<Longrightarrow> pool_inv num jobs s'"
proof (induction rule: worker_step.induct)
  case (dequeue_lock s i)
  from dequeue_lock(1) obtain old where "workers s i = Some old" "old = At_dequeue \<or> old = Woken" by blast
  then show ?case using worker_moves [OF dequeue_lock(4), of i old Checking "Some (Worker i)"] dequeue_lock(2)
    by (auto simp: lock_ok_def)
next
  case (exit_worker s i)
  then show ?case using worker_moves [OF exit_worker(2,1), of Exited "mutex s"] by (simp add: lock_ok_def)
next
  case (run_work s i a w)
  then show ?case using worker_moves [OF run_work(4,1), of "Running a" "mutex s"] by (simp add: lock_ok_def)
qed (fast intro: wait_ok dequeue_ok work_done_ok)+

lemma spurious_ok: "spurious_wakeup s s' \<Longrightarrow> pool_inv num jobs s \<Longrightarrow> pool_inv num jobs s'"
proof (induction rule: spurious_wakeup.induct)
  case (spurious s i)
  then show ?case using worker_moves [OF spurious(2,1), of Woken "mutex s"] by (simp add: lock_ok_def)
qed

text \<open>A step of the main thread that leaves queue, works and workers alone.\<close>

lemma main_moves:
  assumes inv: "pool_inv num jobs s"
    and same: "pending m = pending (main_at s)" "rest jobs (works s) m = rest jobs (works s) (main_at s)"
      "nulls num m = nulls num (main_at s)" "created_by num m = created_by num (main_at s)"
    and ok: "main_ok num m" "\<And>i j. m = Joining i \<Longrightarrow> j < i \<Longrightarrow> workers s j = Some Exited"
      "\<And>j. past_joins m \<Longrightarrow> j < num \<Longrightarrow> workers s j = Some Exited" "unfreed m = unfreed (main_at s)"
    and lock: "if \<exists>v k. m = In_enqueue v k then mutex s = None \<and> mu = Some Main
      else mu = mutex s \<and> mutex s \<noteq> Some Main"
  shows "pool_inv num jobs (s\<lparr>mutex := mu, main_at := m\<rparr>)"
proof -
  from inv obtain xs where xs: "lock_inv s" "main_inv num s" "queue_inv num jobs xs s" "works_inv num xs s"
    "wake_inv num xs s" unfolding pool_inv_def by blast
  have "lock_inv (s\<lparr>mutex := mu, main_at := m\<rparr>)"
    using xs(1) lock unfolding lock_inv_def by (auto split: if_splits)
  moreover have "main_inv num (s\<lparr>mutex := mu, main_at := m\<rparr>)"
    using xs(2) same(4) ok unfolding main_inv_def by simp
  ultimately show ?thesis using xs(3-5) same(1-3)
    unfolding pool_inv_def queue_inv_def works_inv_def wake_inv_def by auto
qed

text \<open>A release leaves everything else alone.\<close>

lemma main_frees:
  assumes inv: "pool_inv num jobs s" and m: "past_joins (main_at s)" "past_joins m"
  shows "pool_inv num jobs (s\<lparr>allocated := unfreed m, main_at := m\<rparr>)"
proof -
  from inv obtain xs where xs: "lock_inv s" "main_inv num s" "queue_inv num jobs xs s" "works_inv num xs s"
    "wake_inv num xs s" unfolding pool_inv_def by blast
  have same: "rest jobs (works s) m = rest jobs (works s) (main_at s)" "pending m = pending (main_at s)"
    "nulls num m = nulls num (main_at s)" "created_by num m = created_by num (main_at s)" "main_ok num m"
    "m \<noteq> Joining i" for i using m by (auto simp: past_joins_def)
  have outside: "m \<noteq> In_enqueue v k" "main_at s \<noteq> In_enqueue v k" for v k using m by (auto simp: past_joins_def)
  from same have "queue_inv num jobs xs (s\<lparr>allocated := unfreed m, main_at := m\<rparr>)"
    "works_inv num xs (s\<lparr>allocated := unfreed m, main_at := m\<rparr>)"
    using xs(3,4) by (simp_all add: queue_inv_def works_inv_def)
  moreover have "lock_inv (s\<lparr>allocated := unfreed m, main_at := m\<rparr>)"
    "main_inv num (s\<lparr>allocated := unfreed m, main_at := m\<rparr>)"
    using xs(1,2) outside same(4-6) m unfolding lock_inv_def main_inv_def by simp_all
  ultimately show ?thesis using xs(5) unfolding pool_inv_def wake_inv_def by auto
qed

text \<open>The queue is there for every worker that has not ended, and everything is there for a main thread that
has not joined all workers.\<close>

lemma unfreed_all: "\<not> past_joins m \<Longrightarrow> unfreed m = {Pool_struct, Threads_array, Queue_struct}"
  by (cases m) (auto simp: past_joins_def)

lemma queue_left: "pool_inv num jobs s \<Longrightarrow> allocated s = unfreed (main_at s)"
  by (simp add: pool_inv_def main_inv_def)

lemma main_allocated:
  "pool_inv num jobs s \<Longrightarrow> \<not> past_joins (main_at s) \<Longrightarrow> allocated s = {Pool_struct, Threads_array, Queue_struct}"
  by (simp add: pool_inv_def main_inv_def unfreed_all)

lemma queue_allocated:
  assumes "pool_inv num jobs s" "workers s i = Some pc" "pc \<noteq> Exited"
  shows "Queue_struct \<in> allocated s"
proof -
  have "main_inv num s" using assms(1) by (simp add: pool_inv_def)
  from worker_index [OF this assms(2)] this assms(2,3) have "\<not> past_joins (main_at s)" by (auto simp: main_inv_def)
  from main_allocated [OF assms(1) this] show ?thesis by simp
qed

lemma main_outside: "pool_inv num jobs s \<Longrightarrow> (\<nexists>v k. main_at s = In_enqueue v k) \<Longrightarrow> mutex s \<noteq> Some Main"
  by (auto simp: pool_inv_def lock_inv_def)

lemma create_ok:
  assumes inv: "pool_inv num jobs s" and m: "main_at s = Creating i" "i < num"
  shows "pool_inv num jobs (s\<lparr>workers := (workers s)(i \<mapsto> At_dequeue), main_at := Creating (i + 1)\<rparr>)"
    (is "pool_inv num jobs ?s")
proof -
  let ?W = "(workers s)(i \<mapsto> At_dequeue)"
  from inv obtain xs where xs: "lock_inv s" "main_inv num s" "queue_inv num jobs xs s" "works_inv num xs s"
    "wake_inv num xs s" unfolding pool_inv_def by blast
  have dom: "dom (workers s) = {..<i}" using xs(2) m(1) by (simp add: main_inv_def)
  then have "i \<notin> dom (workers s)" by simp
  then have new: "workers s i = None" by blast
  have sums: "(\<Sum>j<num. held (?W j)) = (\<Sum>j<num. held (workers s j))"
    "(\<Sum>j<num. stopped (?W j)) = (\<Sum>j<num. stopped (workers s j))"
    "(\<Sum>j<num. busy (?W j)) = (\<Sum>j<num. busy (workers s j)) + 1"
    using sum_upd [OF m(2), of held "workers s" "Some At_dequeue"] sum_upd [OF m(2), of stopped "workers s" "Some At_dequeue"]
      sum_upd [OF m(2), of busy "workers s" "Some At_dequeue"] new by simp_all
  have "main_inv num ?s" using xs(2) dom m by (auto simp: main_inv_def)
  moreover have "lock_inv ?s" using xs(1) m new unfolding lock_inv_def by auto
  moreover have "wake_inv num xs ?s" using xs(5) sums(3) by (auto simp: wake_inv_def split: if_splits)
  moreover have "queue_inv num jobs xs ?s" "works_inv num xs ?s"
    using xs(3,4) sums(1,2) m by (simp_all add: queue_inv_def works_inv_def del: fun_upd_apply)
  ultimately show ?thesis unfolding pool_inv_def by blast
qed

lemma add_work_ok:
  assumes inv: "pool_inv num jobs s" and m: "main_at s = Adding (w # ws)" and a: "a \<noteq> 0" "works s a = None"
  shows "pool_inv num jobs (s\<lparr>works := (works s)(a \<mapsto> w), main_at := Enqueueing a (Adding ws)\<rparr>)"
    (is "pool_inv num jobs ?s")
proof -
  from inv obtain xs where xs: "lock_inv s" "main_inv num s" "queue_inv num jobs xs s" "works_inv num xs s"
    "wake_inv num xs s" unfolding pool_inv_def by blast
  let ?owned = "held_all num s + mset (filter (\<lambda>a. a \<noteq> 0) xs) + pending (main_at s)"
  have owned: "mset_set (dom (works s)) = ?owned" "finite (dom (works s))" using xs(4) by (simp_all add: works_inv_def)
  have "a \<notin># mset_set (dom (works s))" using a(2) owned(2) by auto
  then have only: "a \<notin># ?owned" unfolding owned(1) .
  have "main_ok num (main_at s)" using xs(2) by (simp add: main_inv_def)
  note same = unowned_upd [OF this only]
  have "mset_set (insert a (dom (works s))) = ?owned + {#a#}"
    using owned a(2) by (subst mset_set.insert) auto
  then have "works_inv num xs ?s"
    using xs(4) same(3) a(1) m by (simp add: works_inv_def)
  moreover have "queue_inv num jobs xs ?s" using xs(3) same(2) m a(1)
    by (simp add: queue_inv_def del: map_eq_conv)
  moreover have "lock_inv ?s" "main_inv num ?s" "wake_inv num xs ?s"
    using xs(1,2,5) m a(1) unfolding lock_inv_def main_inv_def wake_inv_def by auto
  ultimately show ?thesis unfolding pool_inv_def by blast
qed

text \<open>A signal moves one worker, or none when nobody waits.\<close>

lemma cond_signal_cases:
  assumes "cond_signal W W'"
  obtains (wakes) i where "W i = Some Waiting" "W' = W(i \<mapsto> Woken)" | (nobody) "\<And>i. W i \<noteq> Some Waiting" "W' = W"
  using assms unfolding cond_signal_def by (auto split: if_splits)

lemma cond_signal_sums:
  fixes num :: nat
  assumes "cond_signal W W'" "\<And>i pc. W i = Some pc \<Longrightarrow> i < num"
  shows "(\<Sum>j<num. held (W' j)) = (\<Sum>j<num. held (W j))" (is ?held)
    "(\<Sum>j<num. stopped (W' j)) = (\<Sum>j<num. stopped (W j))" (is ?stopped)
    "(\<exists>i. W' i = Some Waiting) \<longrightarrow> (\<exists>i. W i = Some Waiting) \<and> (\<Sum>j<num. busy (W' j)) = (\<Sum>j<num. busy (W j)) + 1"
    (is ?busy)
proof -
  from assms(1) have "?held \<and> ?stopped \<and> ?busy"
  proof (cases rule: cond_signal_cases)
    case (wakes i)
    then have "i < num" using assms(2) by blast
    note up = sum_upd [OF this, of held W "Some Woken"] sum_upd [OF this, of stopped W "Some Woken"]
      sum_upd [OF this, of busy W "Some Woken"]
    show ?thesis using up wakes(1) unfolding wakes(2) by (auto simp del: fun_upd_apply)
  qed auto
  then show ?held ?stopped ?busy by blast+
qed

lemma cond_signal_same:
  assumes "cond_signal W W'"
  shows "dom W' = dom W" "W' j = Some Checking \<longleftrightarrow> W j = Some Checking" "W' j = Some Exited \<longleftrightarrow> W j = Some Exited"
proof -
  from assms have "dom W' = dom W \<and> (W' j = Some Checking \<longleftrightarrow> W j = Some Checking) \<and> (W' j = Some Exited \<longleftrightarrow> W j = Some Exited)"
  proof (cases rule: cond_signal_cases)
    case (wakes i)
    then have "insert i (dom W) = dom W" by blast
    then show ?thesis using wakes by auto
  qed auto
  then show "dom W' = dom W" "W' j = Some Checking \<longleftrightarrow> W j = Some Checking" "W' j = Some Exited \<longleftrightarrow> W j = Some Exited"
    by blast+
qed

lemma enqueue_ok:
  assumes inv: "pool_inv num jobs s" and m: "main_at s = In_enqueue v k" and a: "fresh_node (queue s) a"
    and q: "queue_enqueue a v (queue s) = Inr q" and W: "cond_signal (workers s) W"
  shows "pool_inv num jobs (s\<lparr>queue := q, workers := W, mutex := None, main_at := k\<rparr>)" (is "pool_inv num jobs ?s")
proof -
  from inv obtain xs where xs: "lock_inv s" "main_inv num s" "queue_inv num jobs xs s" "works_inv num xs s"
    "wake_inv num xs s" unfolding pool_inv_def by blast
  note sums = cond_signal_sums [OF W worker_index [OF xs(2)]] and same = cond_signal_same [OF W]
  have "main_ok num (In_enqueue v k)" using xs(2) unfolding main_inv_def m [symmetric] by blast
  then have k: "if v = 0 then \<exists>i<num. k = Finishing (i + 1) else \<exists>ws. k = Adding ws" by (simp only: main_ok.simps)
  have "queue_rep (queue s) xs" using xs(3) by (simp add: queue_inv_def)
  from queue_enqueue_ok [OF this a, of v] q have rep: "queue_rep q (xs @ [v])" by auto
  have "works_first (xs @ [v])"
  proof (rule works_first_append)
    show "works_first xs" using xs(3) by (simp add: queue_inv_def)
    show "v = 0 \<or> count_list xs 0 = 0" using xs(3) m k by (cases "v = 0") (auto simp: queue_inv_def)
  qed
  moreover have "jobs = taken s @ map (the \<circ> works s) (filter (\<lambda>a. a \<noteq> 0) (xs @ [v])) @ rest jobs (works s) k"
    using xs(3) m by (cases "v = 0") (simp_all add: queue_inv_def)
  moreover have "(\<Sum>i<num. stopped (workers s i)) \<noteq> 0 \<longrightarrow> filter (\<lambda>a. a \<noteq> 0) (xs @ [v]) = []"
    using xs(3) m k by (cases "v = 0") (auto simp: queue_inv_def)
  moreover have "(\<Sum>i<num. stopped (workers s i)) + count_list (xs @ [v]) 0 = nulls num k"
    using xs(3) m k by (auto simp: queue_inv_def split: if_splits)
  ultimately have "queue_inv num jobs (xs @ [v]) ?s" using rep sums(2) by (simp add: queue_inv_def)
  moreover have "pending k = {#}" using k by (auto split: if_splits)
  then have "works_inv num (xs @ [v]) ?s" using xs(4) m sums(1) by (simp add: works_inv_def)
  moreover have "wake_inv num (xs @ [v]) ?s" using xs(5) sums(3) by (auto simp: wake_inv_def)
  moreover have "lock_inv ?s"
    using xs(1) m k same(2) unfolding lock_inv_def by (auto split: if_splits)
  moreover have "main_inv num ?s"
    using xs(2) m k same(1,3) unfolding main_inv_def by (auto split: if_splits)
  ultimately show ?thesis unfolding pool_inv_def by blast
qed

lemma main_step_ok: "main_step num jobs s s' \<Longrightarrow> pool_inv num jobs s \<Longrightarrow> pool_inv num jobs s'"
proof (induction rule: main_step.induct)
  case (created s)
  then show ?case using main_moves [OF created(2), of "Adding jobs" "mutex s"] main_outside [OF created(2)] by simp
next
  case (finish s)
  then show ?case using main_moves [OF finish(2), of "Finishing 0" "mutex s"] main_outside [OF finish(2)] by simp
next
  case (finish_work s i)
  then show ?case using main_moves [OF finish_work(4), of "Enqueueing 0 (Finishing (i + 1))" "mutex s"]
    main_outside [OF finish_work(4)] by simp
next
  case (finished s)
  then show ?case using main_moves [OF finished(3), of "Joining 0" "mutex s"] main_outside [OF finished(3)] by simp
next
  case (join s i)
  have "j < i + 1 \<Longrightarrow> workers s j = Some Exited" for j
    using join(1,4,5) unfolding pool_inv_def main_inv_def by (metis Suc_eq_plus1 less_Suc_eq)
  then show ?case using join main_moves [OF join(5), of "Joining (i + 1)" "mutex s"] main_outside [OF join(5)] by simp
next
  case (joined s)
  have "j < num \<Longrightarrow> workers s j = Some Exited" for j using joined unfolding pool_inv_def main_inv_def by blast
  then show ?case using joined main_moves [OF joined(3), of Freeing_queue "mutex s"] main_outside [OF joined(3)] by simp
next
  case (free_queue s)
  then show ?case using main_frees [OF free_queue(3), of Freeing_threads] queue_left [OF free_queue(3)] by (simp add: insert_Diff_if)
next
  case (free_threads s)
  then show ?case using main_frees [OF free_threads(3), of Freeing_pool] queue_left [OF free_threads(3)] by (simp add: insert_Diff_if)
next
  case (free_pool s)
  then show ?case using main_frees [OF free_pool(3), of Returned] queue_left [OF free_pool(3)] by (simp add: insert_Diff_if)
next
  case (enqueue_lock s v k)
  have "main_ok num (Enqueueing v k)"
    using enqueue_lock(4) unfolding pool_inv_def main_inv_def enqueue_lock(1) [symmetric] by blast
  then have "main_ok num (In_enqueue v k)" by (simp only: main_ok.simps)
  then show ?case using enqueue_lock main_moves [OF enqueue_lock(4), of "In_enqueue v k" "Some Main"] by simp
qed (fast intro: create_ok add_work_ok enqueue_ok)+

lemma pool_run_inv: "pool_run num jobs k j s \<Longrightarrow> pool_inv num jobs s"
proof (induction rule: pool_run.induct)
  case run_start
  show ?case by (rule pool_inv_init)
next
  case (run_step k j s s')
  then show ?case unfolding pool_step_def by (blast intro: main_step_ok worker_step_ok)
qed (rule spurious_ok)

section \<open>The pool always goes on\<close>

lemma held_owned:
  assumes "works_inv num xs s" "i < num" "a \<in># held (workers s i)"
  shows "\<exists>w. works s a = Some w"
proof -
  have "held_all num s = held (workers s i) + (\<Sum>j\<in>{..<num} - {i}. held (workers s j))"
    using assms(2) by (subst sum.remove [of _ i]) auto
  then have "a \<in># mset_set (dom (works s))" using assms(1,3) by (simp add: works_inv_def)
  moreover have "finite (dom (works s))" using assms(1) by (simp add: works_inv_def)
  ultimately show ?thesis by auto
qed

lemma busy_worker_steps:
  assumes "pool_inv num jobs s" "mutex s = None" "busy (workers s i) \<noteq> 0"
  shows "\<exists>s'. worker_step i s s'"
proof -
  from assms(1) obtain xs where xs: "lock_inv s" "main_inv num s" "works_inv num xs s" unfolding pool_inv_def by blast
  obtain pc where w: "workers s i = Some pc" using assms(3) by (cases "workers s i") auto
  note own = held_owned [OF xs(3) worker_index [OF xs(2) w], unfolded w]
  have "pc \<noteq> Checking" using xs(1) w assms(2) unfolding lock_inv_def by (metis option.distinct(1))
  then show ?thesis
  proof (cases pc)
    case (Got a)
    then have "a \<noteq> 0" using assms(3) w by (cases "a = 0") auto
    moreover from this Got own [of a] obtain v where "works s a = Some v" by auto
    ultimately show ?thesis using run_work [of s i a v] w Got by blast
  next
    case (Running a)
    from this own [of a] obtain v where "works s a = Some v" by auto
    then show ?thesis using work_done [of s i a v] w Running by blast
  qed (use w assms dequeue_lock [of s i] queue_allocated [OF assms(1) w] in auto)
qed

lemma checking_worker_steps:
  assumes "pool_inv num jobs s" "workers s i = Some Checking"
  shows "\<exists>s'. worker_step i s s'"
proof (cases "queue_size (queue s) = 0")
  case True
  then show ?thesis using assms(2) queue_allocated [OF assms] dequeue_wait by blast
next
  case False
  from assms(1) obtain xs where rep: "queue_rep (queue s) xs" unfolding pool_inv_def queue_inv_def by blast
  then obtain x xs' where "xs = x # xs'" using False by (cases xs) (auto dest: queue_rep_size)
  with rep queue_dequeue_ok obtain q where "queue_dequeue (queue s) = Inr (x, q)" by blast
  then show ?thesis using assms(2) False queue_allocated [OF assms] dequeue by blast
qed

lemma cond_signal_ex: "\<exists>W'. cond_signal W W'"
  unfolding cond_signal_def by auto

lemma enqueue_possible:
  assumes "pool_inv num jobs s" "main_at s = In_enqueue v k"
  shows "\<exists>s'. main_step num jobs s s'"
proof -
  from assms(1) obtain xs where rep: "queue_rep (queue s) xs" unfolding pool_inv_def queue_inv_def by blast
  then have "finite (insert 0 (dom (nodes (queue s))))" by (simp add: queue_rep_finite)
  then obtain a where "a \<notin> insert 0 (dom (nodes (queue s)))" using ex_new_if_finite infinite_UNIV_nat by metis
  then have a: "fresh_node (queue s) a" by (simp add: fresh_node_def)
  with queue_enqueue_ok [OF rep] obtain q where "queue_enqueue a v (queue s) = Inr q" by blast
  moreover have "Queue_struct \<in> allocated s" using main_allocated [OF assms(1)] assms(2) by simp
  ultimately show ?thesis using enqueue [OF assms(2) _ a] cond_signal_ex by blast
qed

text \<open>While main joins, a worker that waits is not alone: the \<open>NULL\<close> meant for it is in the queue and some
worker is on its way there.\<close>

lemma waiting_not_alone:
  assumes "pool_inv num jobs s" "main_at s = Joining i" "workers s j = Some Waiting"
  shows "\<exists>l. busy (workers s l) \<noteq> 0"
proof -
  from assms(1) obtain xs where xs: "main_inv num s" "queue_inv num jobs xs s" "wake_inv num xs s"
    unfolding pool_inv_def by blast
  have j: "j < num" by (rule worker_index [OF xs(1) assms(3)])
  have one: "stopped w \<le> 1" for w by (cases w rule: stopped.cases) auto
  have "(\<Sum>l<num. stopped (workers s l)) < (\<Sum>l<num. 1)"
    by (rule sum_strict_mono_ex1) (use j one assms(3) in \<open>auto intro!: bexI [of _ j]\<close>)
  then have "count_list xs 0 \<noteq> 0" using xs(2) assms(2) by (auto simp: queue_inv_def)
  then have "0 < length xs" by auto
  moreover have "length xs \<le> (\<Sum>l<num. busy (workers s l))" using xs(3) assms(3) unfolding wake_inv_def by blast
  ultimately have "(\<Sum>l<num. busy (workers s l)) \<noteq> 0" by linarith
  then show ?thesis by auto
qed

lemma join_goes_on:
  assumes inv: "pool_inv num jobs s" and m: "main_at s = Joining i" and free: "mutex s = None"
  shows "\<exists>s'. pool_step num jobs s s'"
proof (cases "i < num")
  case False
  have all: "allocated s = {Pool_struct, Threads_array, Queue_struct}" using main_allocated [OF inv] m by simp
  from False have "i = num" using inv m unfolding pool_inv_def main_inv_def by auto
  then have "main_step num jobs s (s\<lparr>main_at := Freeing_queue\<rparr>)" using m all by (intro joined) simp_all
  then show ?thesis unfolding pool_step_def by blast
next
  case True
  have all: "allocated s = {Pool_struct, Threads_array, Queue_struct}" using main_allocated [OF inv] m by simp
  from inv have dom: "dom (workers s) = {..<num}" using m unfolding pool_inv_def main_inv_def by simp
  then have "i \<in> dom (workers s)" using True by simp
  then obtain pc where pc: "workers s i = Some pc" by blast
  show ?thesis
  proof (cases "busy (workers s i) = 0")
    case False
    then show ?thesis using busy_worker_steps [OF inv free] unfolding pool_step_def by blast
  next
    case True
    then consider "pc = Waiting" | "pc = Exited" | "pc = Got 0"
      using pc by (cases pc) (auto split: if_splits)
    then show ?thesis
    proof cases
      case 1
      then show ?thesis using waiting_not_alone [OF inv m] pc busy_worker_steps [OF inv free]
        unfolding pool_step_def by blast
    next
      case 2
      then have "main_step num jobs s (s\<lparr>main_at := Joining (i + 1)\<rparr>)"
        using pc m \<open>i < num\<close> all by (intro join) simp_all
      then show ?thesis unfolding pool_step_def by blast
    next
      case 3
      then show ?thesis using pc exit_worker unfolding pool_step_def by blast
    qed
  qed
qed

lemma pool_goes_on:
  assumes inv: "pool_inv num jobs s" and m: "main_at s \<noteq> Returned"
  shows "\<exists>s'. pool_step num jobs s s'"
proof (cases "mutex s")
  case (Some t)
  show ?thesis
  proof (cases t)
    case Main
    then obtain v k where "main_at s = In_enqueue v k" using Some inv unfolding pool_inv_def lock_inv_def by blast
    then show ?thesis using enqueue_possible [OF inv] unfolding pool_step_def by blast
  next
    case (Worker i)
    then have "workers s i = Some Checking" using Some inv unfolding pool_inv_def lock_inv_def by blast
    then show ?thesis using checking_worker_steps [OF inv] unfolding pool_step_def by blast
  qed
next
  case None
  have ok: "main_ok num (main_at s)" using inv unfolding pool_inv_def main_inv_def by blast
  have fin: "finite (insert 0 (dom (works s)))" using inv unfolding pool_inv_def works_inv_def by auto
  have all: "allocated s = {Pool_struct, Threads_array, Queue_struct}" if "\<not> past_joins (main_at s)"
    using main_allocated [OF inv that] .
  note left = queue_left [OF inv]
  have "\<exists>s'. main_step num jobs s s'" if "\<nexists>i. main_at s = Joining i"
  proof (cases "main_at s")
    case (Creating i)
    then have "i < num \<or> main_at s = Creating num" using ok by auto
    then show ?thesis using create [OF Creating, of num jobs] created [of s num jobs] all Creating by auto
  next
    case (Adding ws)
    obtain a where "a \<notin> insert 0 (dom (works s))" using fin ex_new_if_finite infinite_UNIV_nat by metis
    then have "a \<noteq> 0" "works s a = None" by auto
    then show ?thesis using Adding add_work [of s _ _ a] finish all by (cases ws) auto
  next
    case (Finishing i)
    then have "i < num \<or> main_at s = Finishing num" using ok by auto
    then show ?thesis using finish_work [OF Finishing, of num jobs] finished [of s num jobs] all Finishing by auto
  next
    case (Enqueueing v k)
    then show ?thesis using None enqueue_lock [OF Enqueueing] all by auto
  next
    case Freeing_queue
    then show ?thesis using free_queue [OF Freeing_queue] left by auto
  next
    case Freeing_threads
    then show ?thesis using free_threads [OF Freeing_threads] left by auto
  next
    case Freeing_pool
    then show ?thesis using free_pool [OF Freeing_pool] left by auto
  next
    case (In_enqueue v k)
    then show ?thesis using enqueue_possible [OF inv] by blast
  qed (use m that in auto)
  then show ?thesis using join_goes_on [OF inv _ None] unfolding pool_step_def by blast
qed

section \<open>The pool stops\<close>

text \<open>How many steps the threads can still take: every step of a thread makes the sum of these weights smaller, a
spurious wake-up makes it larger by 3. An element of the queue counts 6.\<close>

fun main_weight :: "nat \<Rightarrow> nat \<Rightarrow> 'w main_pc \<Rightarrow> nat" where
  "main_weight num l (Creating i) = 20 * (l + num) + num + 8 + 4 * (num - i)"
| "main_weight num l (Adding ws) = 20 * (length ws + num) + num + 7"
| "main_weight num l (Finishing i) = 20 * (num - i) + num + 6"
| "main_weight num l (Joining i) = num - i + 5"
| "main_weight num l Freeing_queue = 3"
| "main_weight num l Freeing_threads = 2"
| "main_weight num l Freeing_pool = 1"
| "main_weight num l Returned = 0"
| "main_weight num l (Enqueueing v k) = main_weight num l k + 12"
| "main_weight num l (In_enqueue v k) = main_weight num l k + 11"

fun worker_weight :: "worker_pc option \<Rightarrow> nat" where
  "worker_weight (Some At_dequeue) = 3"
| "worker_weight (Some Woken) = 3"
| "worker_weight (Some Checking) = 2"
| "worker_weight (Some (Got a)) = 7"
| "worker_weight (Some (Running a)) = 6"
| "worker_weight _ = 0"

definition pool_weight :: "nat \<Rightarrow> 'w list \<Rightarrow> 'w pool \<Rightarrow> nat" where
  "pool_weight num jobs s = main_weight num (length jobs) (main_at s) +
     (\<Sum>i<num. worker_weight (workers s i)) + 6 * queue_size (queue s)"

lemma worker_weight_upd:
  assumes "pool_inv num jobs s" "workers s i = Some old"
  shows "(\<Sum>j<num. worker_weight (((workers s)(i \<mapsto> pc)) j)) + worker_weight (Some old) =
    (\<Sum>j<num. worker_weight (workers s j)) + worker_weight (Some pc)"
proof -
  have "i < num" using assms worker_index unfolding pool_inv_def by blast
  from sum_upd [OF this, of worker_weight "workers s" "Some pc"] show ?thesis using assms(2) by simp
qed

lemma queue_size_dequeue:
  assumes "pool_inv num jobs s" "queue_size (queue s) \<noteq> 0" "queue_dequeue (queue s) = Inr (a, q)"
  shows "queue_size q + 1 = queue_size (queue s)"
proof -
  from assms(1) obtain xs where rep: "queue_rep (queue s) xs" unfolding pool_inv_def queue_inv_def by blast
  then obtain x xs' where xs: "xs = x # xs'" using assms(2) by (cases xs) (auto dest: queue_rep_size)
  with rep queue_dequeue_ok assms(3) have "queue_rep q xs'" by fastforce
  then show ?thesis using rep xs by (simp add: queue_rep_size)
qed

lemma queue_size_enqueue:
  assumes "pool_inv num jobs s" "fresh_node (queue s) a" "queue_enqueue a v (queue s) = Inr q"
  shows "queue_size q = queue_size (queue s) + 1"
proof -
  from assms(1) obtain xs where rep: "queue_rep (queue s) xs" unfolding pool_inv_def queue_inv_def by blast
  with queue_enqueue_ok [OF rep assms(2), of v] assms(3) have "queue_rep q (xs @ [v])" by auto
  then show ?thesis using rep by (simp add: queue_rep_size)
qed

lemma worker_step_weight:
  assumes "worker_step i s s'" "pool_inv num jobs s"
  shows "pool_weight num jobs s' < pool_weight num jobs s"
  using assms(1)
proof cases
  case dequeue_lock
  then obtain old where "workers s i = Some old" "worker_weight (Some old) = 3" by auto
  then show ?thesis using worker_weight_upd [OF assms(2), of i old Checking] dequeue_lock(1)
    by (simp add: pool_weight_def del: fun_upd_apply)
next
  case (dequeue a q)
  then show ?thesis using worker_weight_upd [OF assms(2), of i Checking "Got a"] queue_size_dequeue [OF assms(2)]
    by (fastforce simp: pool_weight_def simp del: fun_upd_apply)
next
  case dequeue_wait
  then show ?thesis using worker_weight_upd [OF assms(2), of i Checking Waiting]
    by (simp add: pool_weight_def del: fun_upd_apply)
next
  case exit_worker
  then show ?thesis using worker_weight_upd [OF assms(2), of i "Got 0" Exited]
    by (simp add: pool_weight_def del: fun_upd_apply)
next
  case (run_work a w)
  then show ?thesis using worker_weight_upd [OF assms(2), of i "Got a" "Running a"]
    by (simp add: pool_weight_def del: fun_upd_apply)
next
  case (work_done a w)
  then show ?thesis using worker_weight_upd [OF assms(2), of i "Running a" At_dequeue]
    by (simp add: pool_weight_def del: fun_upd_apply)
qed

lemma cond_signal_weight:
  assumes "pool_inv num jobs s" "cond_signal (workers s) W"
  shows "(\<Sum>j<num. worker_weight (W j)) \<le> (\<Sum>j<num. worker_weight (workers s j)) + 3"
  using assms(2)
proof (cases rule: cond_signal_cases)
  case (wakes i)
  then show ?thesis using worker_weight_upd [OF assms(1) wakes(1), of Woken] by (simp del: fun_upd_apply)
qed simp

lemma main_step_weight:
  assumes "main_step num jobs s s'" "pool_inv num jobs s"
  shows "pool_weight num jobs s' < pool_weight num jobs s"
  using assms(1)
proof cases
  case (create i)
  have "dom (workers s) = {..<i}" using assms(2) create unfolding pool_inv_def main_inv_def by simp
  then have "i \<notin> dom (workers s)" by simp
  then have "workers s i = None" by blast
  then show ?thesis using create sum_upd [OF create(3), of worker_weight "workers s" "Some At_dequeue"]
    by (simp add: pool_weight_def del: fun_upd_apply)
next
  case (enqueue v k a q W)
  then show ?thesis using cond_signal_weight [OF assms(2), of W] queue_size_enqueue [OF assms(2), of a v q]
    by (simp add: pool_weight_def)
qed (simp_all add: pool_weight_def)

lemma spurious_weight:
  assumes "spurious_wakeup s s'" "pool_inv num jobs s"
  shows "pool_weight num jobs s' = pool_weight num jobs s + 3"
  using assms(1)
proof cases
  case (spurious i)
  then show ?thesis using worker_weight_upd [OF assms(2), of i Waiting Woken]
    by (simp add: pool_weight_def del: fun_upd_apply)
qed

lemma pool_run_weight: "pool_run num jobs k j s \<Longrightarrow>
  k + pool_weight num jobs s \<le> 20 * length jobs + 25 * num + 8 + 3 * j"
proof (induction rule: pool_run.induct)
  case run_start
  show ?case by (simp add: pool_weight_def thread_pool_init_def queue_init_def)
next
  case (run_step k j s s')
  have "pool_weight num jobs s' < pool_weight num jobs s"
    using run_step(2) pool_run_inv [OF run_step(1)] main_step_weight worker_step_weight
    unfolding pool_step_def by blast
  then show ?case using run_step(3) by simp
next
  case (run_spurious k j s s')
  then show ?case using spurious_weight [OF run_spurious(2) pool_run_inv [OF run_spurious(1)]] by simp
qed

lemma returned_state:
  assumes inv: "pool_inv num jobs s" and m: "main_at s = Returned" and num: "0 < num"
  shows "taken s = jobs \<and> mset (completed s) = mset jobs \<and> works s = Map.empty \<and> nodes (queue s) = Map.empty \<and>
    (\<forall>i<num. workers s i = Some Exited) \<and> allocated s = {}"
proof -
  from inv obtain xs where xs: "main_inv num s" "queue_inv num jobs xs s" "works_inv num xs s"
    unfolding pool_inv_def by blast
  have ex: "\<forall>i<num. workers s i = Some Exited" using xs(1) m by (simp add: main_inv_def)
  then have held: "held_all num s = {#}" and stop: "(\<Sum>i<num. stopped (workers s i)) = num" by simp_all
  have none: "filter (\<lambda>a. a \<noteq> 0) xs = []" "count_list xs 0 = 0"
    using xs(2) m stop num unfolding queue_inv_def by auto
  have "xs = []"
  proof (cases xs)
    case (Cons x ys)
    then show ?thesis using none by (cases "x = 0") auto
  qed simp
  then show ?thesis using xs(2,3) m held ex queue_left [OF inv]
    by (auto simp: queue_inv_def works_inv_def queue_rep_empty_nodes mset_set_empty_iff)
qed

lemma owner_unique:
  assumes "works_inv num xs s" "i < num" "j < num" "i \<noteq> j" "a \<in># held (workers s i)" "a \<in># held (workers s j)"
  shows False
proof -
  have "held_all num s = held (workers s i) + (held (workers s j) + (\<Sum>l\<in>{..<num} - {i} - {j}. held (workers s l)))"
    using assms(2-4) by (subst sum.remove [of _ i]; simp; subst sum.remove [of _ j]; simp)
  then have "2 \<le> count (held_all num s) a" using assms(5,6) by (simp add: not_in_iff Suc_le_eq flip: count_greater_zero_iff)
  moreover have "count (held_all num s) a \<le> count (mset_set (dom (works s))) a" using assms(1) by (simp add: works_inv_def)
  moreover have "count (mset_set (dom (works s))) a \<le> 1" by (simp add: count_mset_set')
  ultimately show False by simp
qed

lemma runs_to_the_end:
  "pool_run num jobs k j s \<Longrightarrow> \<exists>k' s'. pool_run num jobs k' j s' \<and> main_at s' = Returned"
proof (induction "20 * length jobs + 25 * num + 8 + 3 * j - k" arbitrary: k s rule: less_induct)
  case less
  show ?case
  proof (cases "main_at s = Returned")
    case True
    then show ?thesis using less(2) by blast
  next
    case False
    then obtain s' where "pool_step num jobs s s'" using pool_goes_on [OF pool_run_inv [OF less(2)]] by blast
    then have nxt: "pool_run num jobs (k + 1) j s'" by (rule run_step [OF less(2)])
    then show ?thesis using less(1) [OF _ nxt] pool_run_weight [OF nxt] by simp
  qed
qed

section \<open>Properties\<close>

definition has_work :: "'w pool \<Rightarrow> nat \<Rightarrow> nat \<Rightarrow> bool" where
  "has_work s i a \<longleftrightarrow> a \<noteq> 0 \<and> (workers s i = Some (Got a) \<or> workers s i = Some (Running a))"

text \<open>C10: the pool never gets stuck: after any steps of the threads, spurious wake-ups included, either
\<open>thread_pool_finish\<close> has returned or some thread can take a step. So no wake-up is lost
and no deadlock is reached, though \<open>queue_enqueue\<close> signals a single worker.\<close>

theorem pool_never_stuck:
  assumes "pool_run num jobs k j s"
  shows "main_at s = Returned \<or> (\<exists>s'. pool_step num jobs s s')"
  using pool_goes_on [OF pool_run_inv [OF assms]] by blast

lemma pool_never_stuck_witness:
  "\<exists>s' :: int pool. pool_step 2 [7, 8] thread_pool_init s'"
  using pool_never_stuck [OF run_start [of 2 "[7, 8 :: int]"]] by (simp add: thread_pool_init_def)

text \<open>C20: the pool ends: with \<open>n\<close> workers and \<open>l\<close> pieces of work the threads together take at most \<open>20 l + 25 n + 8\<close>
steps, and 3 more for every spurious wake-up.\<close>

theorem pool_ends:
  assumes "pool_run num jobs k j s"
  shows "k \<le> 20 * length jobs + 25 * num + 8 + 3 * j"
  using pool_run_weight [OF assms] by simp

lemma pool_ends_witness:
  "\<exists>k s. pool_run 2 [7, 8 :: int] k 0 s \<and> main_at s = Returned \<and> k \<le> 98"
proof -
  obtain k s where "pool_run 2 [7, 8 :: int] k 0 s" "main_at s = Returned"
    using runs_to_the_end [OF run_start] by blast
  with pool_ends [OF this(1)] show ?thesis by (intro exI [of _ k] exI [of _ s]) simp
qed

text \<open>C9: when \<open>thread_pool_finish\<close> of a pool with at least one worker returns, every piece of work that was added has
been taken in the order in which it was added and has been done exactly once, every worker has ended, and everything
the pool allocated is freed: every \<open>work_t\<close>, every node of the queue, the queue, the array of threads and the
pool. (With no worker, nothing takes the work out of the queue.)\<close>

theorem finished_pool_did_all_work:
  assumes "pool_run num jobs k j s" "main_at s = Returned" "0 < num"
  shows "taken s = jobs \<and> mset (completed s) = mset jobs \<and> works s = Map.empty \<and> nodes (queue s) = Map.empty \<and>
    (\<forall>i<num. workers s i = Some Exited) \<and> allocated s = {}"
  by (rule returned_state [OF pool_run_inv [OF assms(1)] assms(2,3)])

lemma finished_pool_did_all_work_witness:
  "\<exists>k s. pool_run 2 [7, 8 :: int] k 0 s \<and> main_at s = Returned \<and> taken s = [7, 8] \<and> mset (completed s) = {#7, 8#}"
proof -
  obtain k s where "pool_run 2 [7, 8 :: int] k 0 s" "main_at s = Returned"
    using runs_to_the_end [OF run_start] by blast
  with finished_pool_did_all_work [OF this] show ?thesis by (intro exI [of _ k] exI [of _ s]) simp
qed

text \<open>C19: at every moment the \<open>work_t\<close> a worker has taken is allocated and no other worker has it, at most one worker is in
the critical section of \<open>queue_dequeue\<close>, the work taken so far is a prefix of the work to be added, and the queue is
not freed while a worker can still use it.\<close>

theorem pool_shares_safely:
  assumes "pool_run num jobs k j s"
  shows "(\<forall>i a. has_work s i a \<longrightarrow> works s a \<noteq> None \<and> (\<forall>i'. has_work s i' a \<longrightarrow> i' = i)) \<and>
    (\<forall>i i'. workers s i = Some Checking \<longrightarrow> workers s i' = Some Checking \<longrightarrow> i' = i) \<and>
    (\<exists>later. jobs = taken s @ later) \<and>
    (\<forall>i pc. workers s i = Some pc \<longrightarrow> pc \<noteq> Exited \<longrightarrow> Queue_struct \<in> allocated s)"
proof -
  from pool_run_inv [OF assms] obtain xs where xs: "lock_inv s" "main_inv num s" "queue_inv num jobs xs s"
    "works_inv num xs s" unfolding pool_inv_def by blast
  have held: "i < num \<and> a \<in># held (workers s i)" if "has_work s i a" for i a
    using that worker_index [OF xs(2)] by (auto simp: has_work_def)
  have "works s a \<noteq> None \<and> (\<forall>i'. has_work s i' a \<longrightarrow> i' = i)" if "has_work s i a" for i a
    using held [OF that] held [of _ a] held_owned [OF xs(4)] owner_unique [OF xs(4)] by blast
  moreover have "\<exists>later. jobs = taken s @ later" using xs(3) unfolding queue_inv_def by blast
  moreover have "\<forall>i pc. workers s i = Some pc \<longrightarrow> pc \<noteq> Exited \<longrightarrow> Queue_struct \<in> allocated s"
    using queue_allocated [OF pool_run_inv [OF assms]] by blast
  ultimately show ?thesis using lock_holder [OF xs(1)] by blast
qed

text \<open>One worker takes the first of two pieces of work while main adds the second.\<close>

lemma pool_shares_safely_witness:
  "\<exists>s. pool_run 1 [7, 8 :: int] 8 0 s \<and> has_work s 0 5 \<and> works s 5 \<noteq> None \<and> (\<exists>later. [7, 8] = taken s @ later)"
proof -
  let ?W = "\<lambda>pc. [0 \<mapsto> pc] :: nat \<rightharpoonup> worker_pc"
  let ?q = "\<lparr>head = 3, tail = 3, queue_size = 1, nodes = [3 \<mapsto> \<lparr>node_value = 5, left = 0, right = 0\<rparr>]\<rparr>"
  let ?s = "\<lambda>q m wk pc at tk. \<lparr>queue = q, mutex = m, works = wk, workers = ?W pc, main_at = at, taken = tk, completed = [],
    allocated = {Pool_struct, Threads_array, Queue_struct}\<rparr> :: int pool"
  let ?run = "\<lambda>k s. pool_run 1 [7, 8 :: int] k 0 s"
  note defs = thread_pool_init_def queue_init_def queue_enqueue_def queue_dequeue_def node_init_def fresh_node_def
    cond_signal_def get_node_def free_node_def work_at_def
  note by_main = run_step [OF _ iffD2 [OF pool_step_def disjI1]]
    and by_worker = run_step [OF _ iffD2 [OF pool_step_def disjI2 [OF exI]]]
  have "?run 1 (?s queue_init None Map.empty At_dequeue (Creating 1) [])"
    using by_main [OF run_start create [of thread_pool_init 0 1 "[7, 8 :: int]"]] by (simp add: defs)
  from by_main [OF this created] have "?run 2 (?s queue_init None Map.empty At_dequeue (Adding [7, 8]) [])" by (simp add: eval_nat_numeral)
  from by_main [OF this add_work [of _ _ _ 5]]
  have "?run 3 (?s queue_init None [5 \<mapsto> 7] At_dequeue (Enqueueing 5 (Adding [8])) [])" by (simp add: eval_nat_numeral)
  from by_main [OF this enqueue_lock]
  have "?run 4 (?s queue_init (Some Main) [5 \<mapsto> 7] At_dequeue (In_enqueue 5 (Adding [8])) [])" by (simp add: eval_nat_numeral)
  from by_main [OF this enqueue [where a = 3 and q = ?q]]
  have "?run 5 (?s ?q None [5 \<mapsto> 7] At_dequeue (Adding [8]) [])" by (simp add: defs eval_nat_numeral)
  from by_worker [OF this dequeue_lock [where i = 0]]
  have "?run 6 (?s ?q (Some (Worker 0)) [5 \<mapsto> 7] Checking (Adding [8]) [])" by (simp add: eval_nat_numeral)
  from by_worker [OF this dequeue [where i = 0 and a = 5 and q = queue_init]]
  have "?run 7 (?s queue_init None [5 \<mapsto> 7] (Got 5) (Adding [8]) [7])" by (simp add: defs eval_nat_numeral)
  from by_main [OF this add_work [of _ _ _ 6]]
  have "?run 8 (?s queue_init None [5 \<mapsto> 7, 6 \<mapsto> 8] (Got 5) (Enqueueing 6 (Adding [])) [7])" by (simp add: eval_nat_numeral)
  with pool_shares_safely [OF this] show ?thesis
    by (intro exI [of _ "?s queue_init None [5 \<mapsto> 7, 6 \<mapsto> 8] (Got 5) (Enqueueing 6 (Adding [])) [7]"])
      (simp add: has_work_def)
qed

end
