(* ===== verification/PasswordCracker.thy ===== *)
theory PasswordCracker
  imports ThreadPool
begin

text \<open>
  The program of \<open>project05-wduan/src/password_cracker.c\<close> on the thread pool: the hashes are read from the
  standard input, each word of the dictionary becomes a piece of work, and that work prints the first
  variant of the word (one digit inserted) that has one of the hashes. \<open>crypt_r\<close> is not part of the
  sources; it is the argument \<open>crypt\<close>, from a password and a salt to a hash or \<open>None\<close> for \<open>NULL\<close>. The
  dictionary is an argument too. Strings are lists of characters without the final zero; \<open>malloc\<close> is
  taken to succeed.
\<close>

type_synonym crypt = "string \<Rightarrow> string \<Rightarrow> string option"

definition HASH_START :: string where "HASH_START = ''$6$''"
definition SALT_LENGTH :: nat where "SALT_LENGTH = 20"
definition HASH_LENGTH :: nat where "HASH_LENGTH = 106"
definition NUM_THREADS :: nat where "NUM_THREADS = 16"

section \<open>The C library\<close>

definition c_nul :: char where "c_nul = CHR 0x00"
definition c_newline :: char where "c_newline = CHR 0x0A"

definition c_strlen :: "string \<Rightarrow> nat" where
  "c_strlen s = length (takeWhile (\<lambda>c. c \<noteq> c_nul) s)"

text \<open>Whether \<open>memcmp\<close> finds the first \<open>n\<close> bytes at \<open>i\<close> in two arrays equal.\<close>

definition memcmp_eq :: "string \<Rightarrow> string \<Rightarrow> nat \<Rightarrow> nat \<Rightarrow> bool result" where
  "memcmp_eq xs ys i n =
     (if length xs < i + n \<or> length ys < i + n then Inl Bad_Access
      else Inr (take n (drop i xs) = take n (drop i ys)))"

text \<open>\<open>strncpy(buf + off, src + from, n)\<close>, \<open>src\<close> without its final zero, and a store \<open>buf[i] = c\<close>.\<close>

definition strncpy_at :: "string \<Rightarrow> nat \<Rightarrow> string \<Rightarrow> nat \<Rightarrow> string result" where
  "strncpy_at buf off src n =
     (if length buf < off + n then Inl Bad_Access
      else Inr (take off buf @ take n (take n src @ replicate n c_nul) @ drop (off + n) buf))"

definition store_at :: "string \<Rightarrow> nat \<Rightarrow> char \<Rightarrow> string result" where
  "store_at buf i c = (if i < length buf then Inr (buf[i := c]) else Inl Bad_Access)"

text \<open>\<open>getline\<close>: the line with its newline, and what is left of the input.\<close>

definition c_getline :: "string \<Rightarrow> string \<times> string" where
  "c_getline inp =
     (let l = takeWhile (\<lambda>c. c \<noteq> c_newline) inp; r = dropWhile (\<lambda>c. c \<noteq> c_newline) inp in
      (l @ take 1 r, drop 1 r))"

section \<open>The work of a thread\<close>

text \<open>A hash has \<open>HASH_LENGTH\<close> characters, with a zero after them.\<close>

definition hashes_match :: "crypt \<Rightarrow> string \<Rightarrow> string \<Rightarrow> bool result" where
  "hashes_match crypt password hash =
     (let salt = take SALT_LENGTH hash in
      case crypt password salt of
        None \<Rightarrow> Inl Bad_Access
      | Some hashed \<Rightarrow> memcmp_eq (hashed @ [c_nul]) (hash @ [c_nul]) SALT_LENGTH (HASH_LENGTH - SALT_LENGTH))"

text \<open>The variant of the word with the digit \<open>k\<close> at \<open>j\<close>; \<open>junk\<close> is the memory \<open>malloc\<close> returned.\<close>

definition make_variant :: "(nat \<Rightarrow> char) \<Rightarrow> string \<Rightarrow> nat \<Rightarrow> nat \<Rightarrow> string result" where
  "make_variant junk password j k =
     ebind (strncpy_at (map junk [0..<length password + 2]) 0 password j) (\<lambda>v.
     ebind (store_at v j (char_of (k + 48))) (\<lambda>v.
     ebind (strncpy_at v (j + 1) (drop j password) (length password - j)) (\<lambda>v.
     store_at v (length password + 1) c_nul)))"

text \<open>The loop over the hashes.\<close>

fun any_match :: "crypt \<Rightarrow> string list \<Rightarrow> string \<Rightarrow> bool result" where
  "any_match crypt [] variant = Inr False"
| "any_match crypt (hash # hashes) variant =
     ebind (hashes_match crypt variant hash) (\<lambda>b. if b then Inr True else any_match crypt hashes variant)"

text \<open>The loops over the digits and over the places; the result is the line printed, if there is one. \<open>junk\<close> gives the
contents of the buffer of each variant.\<close>

function digit_loop :: "crypt \<Rightarrow> string list \<Rightarrow> (nat \<Rightarrow> nat \<Rightarrow> nat \<Rightarrow> char) \<Rightarrow> string \<Rightarrow> nat \<Rightarrow> nat \<Rightarrow> string option result" where
  "digit_loop crypt hashes junk password j k =
     (if 9 < k then Inr None
      else
        ebind (make_variant (junk j k) password j k) (\<lambda>buf.
        let variant = take (c_strlen buf) buf in
        ebind (any_match crypt hashes variant) (\<lambda>b.
        if b then Inr (Some variant) else digit_loop crypt hashes junk password j (k + 1))))"
  by auto
termination by (relation "measure (\<lambda>(_, _, _, _, _, k). 10 - k)") auto

function place_loop :: "crypt \<Rightarrow> string list \<Rightarrow> (nat \<Rightarrow> nat \<Rightarrow> nat \<Rightarrow> char) \<Rightarrow> string \<Rightarrow> nat \<Rightarrow> string option result" where
  "place_loop crypt hashes junk password j =
     (if length password < j then Inr None
      else
        ebind (digit_loop crypt hashes junk password j 0) (\<lambda>r.
        case r of Some variant \<Rightarrow> Inr (Some variant) | None \<Rightarrow> place_loop crypt hashes junk password (j + 1)))"
  by auto
termination by (relation "measure (\<lambda>(_, _, _, password, j). Suc (length password) - j)") auto

declare digit_loop.simps [simp del] place_loop.simps [simp del]

definition is_password :: "crypt \<Rightarrow> string list \<Rightarrow> (nat \<Rightarrow> nat \<Rightarrow> nat \<Rightarrow> char) \<Rightarrow> string \<Rightarrow> string option result" where
  "is_password crypt hashes junk password = place_loop crypt hashes junk password 0"

section \<open>Reading the hashes\<close>

text \<open>One turn of the loop of \<open>main\<close>: the checks on the line, and the hash it holds.\<close>

definition read_hash :: "string \<Rightarrow> string result" where
  "read_hash line =
     (let line_length = c_strlen line in
      ebind (c_assert (line_length = HASH_LENGTH \<or> line_length = HASH_LENGTH + 1 \<and> line ! HASH_LENGTH = c_newline)) (\<lambda>_.
      ebind (memcmp_eq line HASH_START 0 (length HASH_START)) (\<lambda>eq.
      ebind (c_assert eq) (\<lambda>_. Inr (take HASH_LENGTH line)))))"

lemma getline_splits: "c_getline inp = (line, input) \<Longrightarrow> inp = line @ input"
  by (auto simp: c_getline_def Let_def)

function read_hashes :: "string \<Rightarrow> string list \<Rightarrow> string list result" where
  "read_hashes inp hashes =
     (let (line, input) = c_getline inp in
      if line = [] \<or> hd line = c_newline then Inr hashes
      else ebind (read_hash line) (\<lambda>hash. read_hashes input (hashes @ [hash])))"
  by auto
termination
proof (relation "measure (\<lambda>(inp, _). length inp)", goal_cases)
  case (2 inp hashes p line input hash)
  then show ?case using getline_splits [of inp line input] by auto
qed simp

declare read_hashes.simps [simp del]

section \<open>The program\<close>

text \<open>The lines printed by the work that was done, in the order in which it was done; an access outside the buffers in any
of the work is an error of the program.\<close>

primrec printed_by :: "crypt \<Rightarrow> string list \<Rightarrow> (nat \<Rightarrow> nat \<Rightarrow> nat \<Rightarrow> char) \<Rightarrow> string list \<Rightarrow> string list result" where
  "printed_by crypt hashes junk [] = Inr []"
| "printed_by crypt hashes junk (w # ws) =
     ebind (is_password crypt hashes junk w) (\<lambda>r.
     ebind (printed_by crypt hashes junk ws) (\<lambda>out. Inr (case r of None \<Rightarrow> out | Some line \<Rightarrow> line # out)))"

definition printed :: "crypt \<Rightarrow> string list \<Rightarrow> (nat \<Rightarrow> nat \<Rightarrow> nat \<Rightarrow> char) \<Rightarrow> string pool \<Rightarrow> string list result" where
  "printed crypt hashes junk s = printed_by crypt hashes junk (completed s)"

text \<open>\<open>main\<close>: \<open>cracker_ends inp words s\<close> says that with the input \<open>inp\<close> and the dictionary \<open>words\<close>, \<open>main\<close> has read the hashes
\<open>hashes\<close> and its pool has ended in the state \<open>s\<close>.\<close>

definition cracker_ends :: "string \<Rightarrow> string list \<Rightarrow> string list \<Rightarrow> string pool \<Rightarrow> bool" where
  "cracker_ends inp words hashes s \<longleftrightarrow> read_hashes inp [] = Inr hashes \<and>
     (\<exists>k j. pool_run NUM_THREADS words k j s) \<and> main_at s = Returned"

section \<open>What the program prints\<close>

text \<open>The variants of a word in the order of the loops, and whether a variant has one of the hashes.\<close>

definition insert_digit :: "string \<Rightarrow> nat \<Rightarrow> nat \<Rightarrow> string" where
  "insert_digit password j k = take j password @ char_of (k + 48) # drop j password"

definition variants :: "string \<Rightarrow> string list" where
  "variants password =
     concat (map (\<lambda>j. map (insert_digit password j) [0..<10]) [0..<length password + 1])"

definition has_hash :: "crypt \<Rightarrow> string list \<Rightarrow> string \<Rightarrow> bool" where
  "has_hash crypt hashes v \<longleftrightarrow> (\<exists>h\<in>set hashes. crypt v (take SALT_LENGTH h) = Some h)"

text \<open>What \<open>crypt_r\<close> does for the hashes' salts: it returns a string of the length of a hash that starts with the salt.\<close>

definition crypt_ok :: "crypt \<Rightarrow> string list \<Rightarrow> bool" where
  "crypt_ok crypt hashes \<longleftrightarrow> (\<forall>h\<in>set hashes. \<forall>pw. \<exists>r.
     crypt pw (take SALT_LENGTH h) = Some r \<and> length r = HASH_LENGTH \<and> take SALT_LENGTH r = take SALT_LENGTH h)"

lemma make_variant_inserts:
  assumes "j \<le> length password"
  shows "make_variant junk password j k = Inr (insert_digit password j k @ [c_nul])"
proof -
  define buf where "buf = map junk [0..<length password + 2]"
  have len: "length buf = length password + 2" by (simp add: buf_def)
  let ?d = "char_of (k + 48) :: char"
  have 1: "strncpy_at buf 0 password j = Inr (take j password @ drop j buf)"
    using assms len by (simp add: strncpy_at_def)
  have 2: "store_at (take j password @ drop j buf) j ?d = Inr (take j password @ ?d # drop (j + 1) buf)"
  proof -
    have "drop j buf \<noteq> []" using assms len by simp
    then obtain b bs where "drop j buf = b # bs" by (cases "drop j buf") auto
    moreover from this have "drop (j + 1) buf = bs" by (metis drop_Suc_Cons drop_0 drop_drop One_nat_def add.commute)
    ultimately show ?thesis using assms by (simp add: store_at_def list_update_append)
  qed
  let ?v = "take j password @ ?d # drop (j + 1) buf" and ?n = "length password - j"
  have "take (j + 1) ?v = take j password @ [?d]" using assms by simp
  moreover have "drop (j + 1 + ?n) ?v = drop (length password + 1) buf" using assms by (simp add: drop_Cons')
  ultimately have 3: "strncpy_at ?v (j + 1) (drop j password) ?n =
    Inr (insert_digit password j k @ drop (length password + 1) buf)"
    using assms len by (simp add: strncpy_at_def insert_digit_def)
  have "length (drop (length password + 1) buf) = 1" using len by simp
  then obtain b where "drop (length password + 1) buf = [b]" by (metis length_0_conv length_Suc_conv One_nat_def)
  moreover have "length (insert_digit password j k) = length password + 1"
    using assms by (simp add: insert_digit_def)
  ultimately have "store_at (insert_digit password j k @ drop (length password + 1) buf) (length password + 1) c_nul =
    Inr (insert_digit password j k @ [c_nul])"
    by (simp add: store_at_def list_update_append)
  with 1 2 3 show ?thesis unfolding make_variant_def buf_def by simp
qed

lemma hashes_match_decides:
  assumes "crypt_ok crypt hashes" "h \<in> set hashes" "length h = HASH_LENGTH"
  shows "hashes_match crypt v h = Inr (crypt v (take SALT_LENGTH h) = Some h)"
proof -
  from assms(1,2) obtain r where r: "crypt v (take SALT_LENGTH h) = Some r" "length r = HASH_LENGTH"
    "take SALT_LENGTH r = take SALT_LENGTH h" unfolding crypt_ok_def by blast
  have "drop SALT_LENGTH r = drop SALT_LENGTH h \<longleftrightarrow> r = h" using r(3) by (metis append_take_drop_id)
  moreover have "take (HASH_LENGTH - SALT_LENGTH) (drop SALT_LENGTH (x @ [c_nul])) = drop SALT_LENGTH x"
    if "length x = HASH_LENGTH" for x using that by (simp add: HASH_LENGTH_def SALT_LENGTH_def)
  ultimately show ?thesis using r(1,2) assms(3)
    by (simp add: hashes_match_def memcmp_eq_def HASH_LENGTH_def SALT_LENGTH_def)
qed

lemma any_match_decides:
  assumes "crypt_ok crypt hashes" "\<forall>h\<in>set hashes. length h = HASH_LENGTH" "set hs \<subseteq> set hashes"
  shows "any_match crypt hs v = Inr (has_hash crypt hs v)"
  using assms(3)
proof (induction hs)
  case (Cons h hs)
  then show ?case using hashes_match_decides [OF assms(1), of h v] assms(2)
    by (auto simp: has_hash_def)
qed (simp add: has_hash_def)

lemma digit_not_nul:
  fixes k :: nat
  shows "k \<le> 9 \<Longrightarrow> char_of (k + 48) \<noteq> c_nul"
proof
  assume k: "k \<le> 9" and "char_of (k + 48) = c_nul"
  then have "of_char (char_of (k + 48) :: char) = (0 :: nat)" by (simp add: c_nul_def)
  then show False using k by simp
qed

lemma variant_string:
  assumes "c_nul \<notin> set password" "k \<le> 9"
  shows "take (c_strlen (insert_digit password j k @ [c_nul])) (insert_digit password j k @ [c_nul]) =
    insert_digit password j k"
proof -
  have "c_nul \<notin> set (insert_digit password j k)"
    using assms digit_not_nul [OF assms(2)] by (auto simp: insert_digit_def dest: in_set_takeD in_set_dropD)
  then have "takeWhile (\<lambda>c. c \<noteq> c_nul) (insert_digit password j k @ [c_nul]) = insert_digit password j k"
    by (subst takeWhile_append2) auto
  then show ?thesis by (simp add: c_strlen_def)
qed

lemma find_append: "find P (xs @ ys) = (case find P xs of None \<Rightarrow> find P ys | Some x \<Rightarrow> Some x)"
  by (induction xs) auto

lemma digit_loop_finds:
  assumes ok: "crypt_ok crypt hashes" "\<forall>h\<in>set hashes. length h = HASH_LENGTH"
    and pw: "c_nul \<notin> set password" "j \<le> length password"
  shows "digit_loop crypt hashes junk password j k =
    Inr (find (has_hash crypt hashes) (map (insert_digit password j) [k..<10]))"
proof (induction "10 - k" arbitrary: k)
  case 0
  then show ?case by (simp add: digit_loop.simps)
next
  case (Suc d)
  then have k: "k \<le> 9" "[k..<10] = k # [k + 1..<10]" by (simp_all add: upt_rec)
  have "digit_loop crypt hashes junk password j (k + 1) =
    Inr (find (has_hash crypt hashes) (map (insert_digit password j) [k + 1..<10]))"
    using Suc(2) by (intro Suc(1)) simp
  then show ?case
    unfolding digit_loop.simps [of _ _ _ _ _ k] make_variant_inserts [OF pw(2)] k(2)
    using k(1) by (simp add: variant_string [OF pw(1) k(1)] any_match_decides [OF ok order_refl] Let_def not_less
      del: take_append)
qed

lemma place_loop_finds:
  assumes ok: "crypt_ok crypt hashes" "\<forall>h\<in>set hashes. length h = HASH_LENGTH"
    and pw: "c_nul \<notin> set password"
  shows "place_loop crypt hashes junk password j = Inr (find (has_hash crypt hashes)
    (concat (map (\<lambda>j. map (insert_digit password j) [0..<10]) [j..<length password + 1])))"
proof (induction "length password + 1 - j" arbitrary: j)
  case 0
  then show ?case by (simp add: place_loop.simps)
next
  case (Suc d)
  then have j: "j \<le> length password" "[j..<length password + 1] = j # [j + 1..<length password + 1]"
    by (simp_all add: upt_rec)
  have "place_loop crypt hashes junk password (j + 1) = Inr (find (has_hash crypt hashes)
    (concat (map (\<lambda>j. map (insert_digit password j) [0..<10]) [j + 1..<length password + 1])))"
    using Suc(2) by (intro Suc(1)) simp
  then show ?case
    unfolding place_loop.simps [of _ _ _ _ j] digit_loop_finds [OF ok pw j(1)] j(2)
    using j(1) by (simp add: find_append not_less split: option.split)
qed

lemma is_password_finds:
  assumes "crypt_ok crypt hashes" "\<forall>h\<in>set hashes. length h = HASH_LENGTH" "c_nul \<notin> set password"
  shows "is_password crypt hashes junk password = Inr (find (has_hash crypt hashes) (variants password))"
  unfolding is_password_def variants_def by (rule place_loop_finds [OF assms])

text \<open>The hashes read look like hashes, and hashes written one per line are read back.\<close>

lemma read_hash_ok:
  "read_hash line = Inr hash \<Longrightarrow> length hash = HASH_LENGTH \<and> take (length HASH_START) hash = HASH_START"
proof -
  assume "read_hash line = Inr hash"
  then have len: "HASH_LENGTH \<le> c_strlen line" and eq: "take (length HASH_START) line = HASH_START"
    and hash: "hash = take HASH_LENGTH line"
    by (auto simp: read_hash_def Let_def memcmp_eq_def split: if_splits)
  have "c_strlen line \<le> length line" by (simp add: c_strlen_def length_takeWhile_le)
  then show ?thesis using len eq hash by (simp add: HASH_LENGTH_def HASH_START_def min_def)
qed

lemma read_hashes_ok:
  "read_hashes inp hashes = Inr hs \<Longrightarrow> \<forall>h\<in>set hashes. length h = HASH_LENGTH \<and> take (length HASH_START) h = HASH_START \<Longrightarrow>
    \<forall>h\<in>set hs. length h = HASH_LENGTH \<and> take (length HASH_START) h = HASH_START"
proof (induction inp hashes rule: read_hashes.induct)
  case (1 inp hashes)
  obtain line input where gl: "c_getline inp = (line, input)" by (cases "c_getline inp")
  show ?case
  proof (cases "line = [] \<or> hd line = c_newline")
    case True
    then show ?thesis using 1(2,3) gl by (simp add: read_hashes.simps [of inp])
  next
    case False
    with 1(2) gl obtain hash where h: "read_hash line = Inr hash" "read_hashes input (hashes @ [hash]) = Inr hs"
      by (auto simp: read_hashes.simps [of inp])
    show ?thesis using 1(1) [OF gl [symmetric] refl False h] 1(3) read_hash_ok [OF h(1)] by simp
  qed
qed

lemma getline_line: "c_newline \<notin> set l \<Longrightarrow> c_getline (l @ c_newline # inp) = (l @ [c_newline], inp)"
  by (auto simp: c_getline_def Let_def takeWhile_append dropWhile_append)

lemma read_hash_line:
  assumes "length h = HASH_LENGTH" "take (length HASH_START) h = HASH_START" "c_nul \<notin> set h"
  shows "read_hash (h @ [c_newline]) = Inr h"
proof -
  have "takeWhile (\<lambda>c. c \<noteq> c_nul) (h @ [c_newline]) = h @ [c_newline]"
    using assms(3) by (subst takeWhile_eq_all_conv) (auto simp: c_nul_def c_newline_def)
  then have "c_strlen (h @ [c_newline]) = HASH_LENGTH + 1" using assms(1) by (simp add: c_strlen_def)
  moreover have "memcmp_eq (h @ [c_newline]) HASH_START 0 (length HASH_START) = Inr True"
    using assms(1,2) by (simp add: memcmp_eq_def HASH_LENGTH_def HASH_START_def)
  moreover have "(h @ [c_newline]) ! HASH_LENGTH = c_newline" using assms(1) by (metis nth_append_length)
  ultimately show ?thesis using assms(1) by (simp add: read_hash_def c_assert_def)
qed

lemma printed_by_finds:
  assumes "crypt_ok crypt hashes" "\<forall>h\<in>set hashes. length h = HASH_LENGTH" "\<forall>w\<in>set ws. c_nul \<notin> set w"
  shows "printed_by crypt hashes junk ws = Inr (List.map_filter (\<lambda>w. find (has_hash crypt hashes) (variants w)) ws)"
  using assms(3)
proof (induction ws)
  case (Cons w ws)
  then show ?case using is_password_finds [OF assms(1,2), of w junk]
    by (auto simp: List.map_filter_def split: option.splits)
qed (simp add: List.map_filter_def)

section \<open>Properties\<close>

text \<open>\<open>is_password\<close>, with its buffers and its three loops, is a linear search: it prints the first variant
of the word, in the order of the places and then of the digits, that has one of the hashes, and nothing when
no variant has one. It does not access memory outside its buffers, whatever they held before.\<close>

theorem is_password_is_search:
  assumes "crypt_ok crypt hashes" "\<forall>h\<in>set hashes. length h = HASH_LENGTH" "c_nul \<notin> set password"
  shows "is_password crypt hashes junk password = Inr (find (has_hash crypt hashes) (variants password))"
  by (rule is_password_finds [OF assms])

text \<open>An example of a hash function, and of a hash it gives.\<close>

definition sample_crypt :: crypt where
  "sample_crypt pw salt = Some (salt @ take 86 (pw @ replicate 86 (CHR ''.'')))"

definition sample_hash :: string where
  "sample_hash = ''$6$'' @ replicate 16 (CHR ''x'') @ ''$a7'' @ replicate 84 (CHR ''.'')"

lemma sample_crypt_ok: "crypt_ok sample_crypt [sample_hash]"
  by (simp add: crypt_ok_def sample_crypt_def sample_hash_def SALT_LENGTH_def HASH_LENGTH_def min_def)

lemma sample_hash_length: "length sample_hash = HASH_LENGTH"
  by (simp add: sample_hash_def HASH_LENGTH_def)

lemma is_password_is_search_witness:
  "is_password sample_crypt [sample_hash] (\<lambda>_ _ _. CHR ''?'') ''a'' = Inr (Some ''a7'')"
proof -
  have "find (has_hash sample_crypt [sample_hash]) (variants ''a'') = Some ''a7''" by code_simp
  then show ?thesis
    using is_password_is_search [OF sample_crypt_ok, of "''a''" "\<lambda>_ _ _. CHR ''?''"] sample_hash_length
    by (simp add: c_nul_def)
qed

text \<open>C8: whatever way the threads were scheduled, when \<open>main\<close> ends it has printed, for every word of the dictionary that has
a variant with one of the hashes of the input, the first such variant, each exactly once, and nothing else, and no
worker has left its buffers; only the order of the lines depends on the schedule.\<close>

theorem cracker_prints_passwords:
  assumes "cracker_ends inp words hashes s" "crypt_ok crypt hashes" "\<forall>w\<in>set words. c_nul \<notin> set w"
  shows "\<exists>out. printed crypt hashes junk s = Inr out \<and>
    mset out = mset (List.map_filter (\<lambda>w. find (has_hash crypt hashes) (variants w)) words)"
proof -
  from assms(1) obtain k j where run: "pool_run NUM_THREADS words k j s" "main_at s = Returned"
    and read: "read_hashes inp [] = Inr hashes" unfolding cracker_ends_def by blast
  have len: "\<forall>h\<in>set hashes. length h = HASH_LENGTH" using read_hashes_ok [OF read] by simp
  have all: "mset (completed s) = mset words"
    using returned_state [OF pool_run_inv [OF run(1)] run(2)] by (simp add: NUM_THREADS_def)
  have "\<forall>w\<in>set (completed s). c_nul \<notin> set w" using assms(3) mset_eq_setD [OF all] by simp
  from printed_by_finds [OF assms(2) len this] show ?thesis unfolding printed_def
    by (intro exI conjI) (assumption, simp add: List.map_filter_def all)
qed

lemma cracker_prints_passwords_witness:
  "\<exists>s. cracker_ends (sample_hash @ [c_newline]) [''b'', ''a''] [sample_hash] s \<and>
    printed sample_crypt [sample_hash] (\<lambda>_ _ _. CHR ''?'') s = Inr [''a7'']"
proof -
  obtain k s where "pool_run NUM_THREADS [''b'', ''a''] k 0 s" "main_at s = Returned"
    using runs_to_the_end [OF run_start] by blast
  moreover have "read_hashes (sample_hash @ [c_newline]) [] = Inr [sample_hash]" by code_simp
  ultimately have ends: "cracker_ends (sample_hash @ [c_newline]) [''b'', ''a''] [sample_hash] s"
    unfolding cracker_ends_def by blast
  have "find (has_hash sample_crypt [sample_hash]) (variants ''a'') = Some ''a7''"
    "find (has_hash sample_crypt [sample_hash]) (variants ''b'') = None" by code_simp+
  then show ?thesis
    using cracker_prints_passwords [OF ends sample_crypt_ok, of "\<lambda>_ _ _. CHR ''?''"] ends
    by (intro exI [of _ s]) (auto simp: c_nul_def List.map_filter_def)
qed

text \<open>Hashes written one per line, with or without more input after an empty line, are read back as they are.\<close>

theorem hashes_read_back:
  assumes "\<forall>h\<in>set hs. length h = HASH_LENGTH \<and> take (length HASH_START) h = HASH_START \<and> c_nul \<notin> set h \<and> c_newline \<notin> set h"
    and "left_over = [] \<or> hd left_over = c_newline"
  shows "read_hashes (concat (map (\<lambda>h. h @ [c_newline]) hs) @ left_over) acc = Inr (acc @ hs)"
  using assms(1)
proof (induction hs arbitrary: acc)
  case Nil
  obtain line input where "c_getline left_over = (line, input)" by (cases "c_getline left_over")
  then have "line = [] \<or> hd line = c_newline" using assms(2) by (cases left_over) (auto simp: c_getline_def Let_def)
  then show ?case using \<open>c_getline left_over = (line, input)\<close> by (simp add: read_hashes.simps)
next
  case (Cons h hs)
  let ?inp = "concat (map (\<lambda>h. h @ [c_newline]) hs) @ left_over"
  have h: "length h = HASH_LENGTH" "c_newline \<notin> set h" "read_hash (h @ [c_newline]) = Inr h"
    using Cons(2) read_hash_line by auto
  have gl: "c_getline (h @ c_newline # ?inp) = (h @ [c_newline], ?inp)" by (rule getline_line [OF h(2)])
  have "h \<noteq> []" using h(1) by (auto simp: HASH_LENGTH_def)
  then have "hd h \<noteq> c_newline" using h(2) by (cases h) auto
  then have "read_hashes (h @ c_newline # ?inp) acc = read_hashes ?inp (acc @ [h])"
    using gl h(3) \<open>h \<noteq> []\<close> by (subst read_hashes.simps) simp
  then show ?case using Cons by simp
qed

lemma hashes_read_back_witness:
  "read_hashes (sample_hash @ [c_newline] @ sample_hash @ [c_newline, c_newline, CHR ''x'']) [] = Inr [sample_hash, sample_hash]"
proof -
  have "c_nul \<notin> set sample_hash \<and> c_newline \<notin> set sample_hash \<and> take (length HASH_START) sample_hash = HASH_START"
    by code_simp
  then show ?thesis
    using hashes_read_back [of "[sample_hash, sample_hash]" "[c_newline, CHR ''x'']" "[]"] sample_hash_length by simp
qed

end
