(* ===== verification/PageTable.thy ===== *)
theory PageTable
  imports Runs
begin

unbundle bit_operations_syntax

text \<open>
  Page tables as the hardware reads them: the constants of \<open>project04a-wduan/x86-64.h\<close>, and the walk of
  the four levels that turns a virtual address into a physical one with its permissions. Memory is
  seen as 8-byte words at the addresses that are multiples of 8; the kernel runs with the identity
  mapping, so its pointers are physical addresses.
\<close>

section \<open>The constants of x86-64.h\<close>

type_synonym memory = "u64 \<Rightarrow> u64"

definition PAGESIZE :: u64 where "PAGESIZE = 4096"
definition PTE_P :: u64 where "PTE_P = 1"
definition PTE_W :: u64 where "PTE_W = 2"
definition PTE_U :: u64 where "PTE_U = 4"
definition PTE_PWU :: u64 where "PTE_PWU = 7"
definition PTE_PS :: u64 where "PTE_PS = 0x80"
definition PTE_PAMASK :: u64 where "PTE_PAMASK = 0x000FFFFFFFFFF000"
definition VA_LOWMAX :: u64 where "VA_LOWMAX = 0x00007FFFFFFFFFFF"
definition VA_HIGHMIN :: u64 where "VA_HIGHMIN = 0xFFFF800000000000"

lemmas pte_defs = PTE_P_def PTE_W_def PTE_U_def PTE_PWU_def PTE_PS_def PTE_PAMASK_def

text \<open>The levels go from 3, the root, to 0.\<close>

definition pageindex :: "u64 \<Rightarrow> nat \<Rightarrow> u64" where
  "pageindex addr level = drop_bit (12 + level * 9) addr AND 0x1FF"

definition pageoffmask :: "nat \<Rightarrow> u64" where
  "pageoffmask level = push_bit (12 + level * 9) 1 - 1"

definition va_is_canonical :: "u64 \<Rightarrow> bool" where
  "va_is_canonical va \<longleftrightarrow> va \<le> VA_LOWMAX \<or> VA_HIGHMIN \<le> va"

section \<open>The walk of the hardware\<close>

text \<open>The entry for an address in the table at \<open>t\<close>.\<close>

definition slot :: "u64 \<Rightarrow> u64 \<Rightarrow> nat \<Rightarrow> u64" where
  "slot t va level = t + 8 * pageindex va level"

text \<open>An entry that is present and, above level 0, not a large page leads to the next table; the permissions \<open>q\<close>
allowed so far are cut down by each entry on the way. The last entry gives the page and its permissions. The base of a
large page is taken without the bit 12 only, as \<open>vmiter::pa\<close> takes it: the other bits below its size are reserved, and the
processor faults where one of them, or the large page bit of a top-level entry, is set; the tables of this kernel set none of
them.\<close>

definition descends :: "nat \<Rightarrow> u64 \<Rightarrow> bool" where
  "descends level e \<longleftrightarrow> level > 0 \<and> e AND (PTE_P OR PTE_PS) = PTE_P"

definition below :: "u64 \<Rightarrow> u64 \<Rightarrow> u64" where
  "below q e = q AND (e OR NOT (PTE_P OR PTE_W OR PTE_U))"

definition frame_base :: "nat \<Rightarrow> u64 \<Rightarrow> u64" where
  "frame_base level e = (if level > 0 then e AND PTE_PAMASK AND NOT 0x1000 else e AND PTE_PAMASK)"

fun mmu_from :: "memory \<Rightarrow> u64 \<Rightarrow> nat \<Rightarrow> u64 \<Rightarrow> u64 \<Rightarrow> (u64 \<times> u64) option" where
  "mmu_from m t 0 q va =
     (let e = m (slot t va 0) in
      if e AND PTE_P = 0 then None else Some (frame_base 0 e + (va AND pageoffmask 0), e AND q))"
| "mmu_from m t (Suc l) q va =
     (let e = m (slot t va (Suc l)) in
      if e AND PTE_P = 0 then None
      else if e AND PTE_PS \<noteq> 0 then Some (frame_base (Suc l) e + (va AND pageoffmask (Suc l)), e AND q)
      else mmu_from m (e AND PTE_PAMASK) l (below q e) va)"

definition mmu :: "memory \<Rightarrow> u64 \<Rightarrow> u64 \<Rightarrow> (u64 \<times> u64) option" where
  "mmu m root va = (if va_is_canonical va then mmu_from m root 3 0xFFF va else None)"

section \<open>Pages and slots\<close>

definition page_aligned :: "u64 \<Rightarrow> bool" where
  "page_aligned t \<longleftrightarrow> t mod PAGESIZE = 0"

definition in_page :: "u64 \<Rightarrow> u64 \<Rightarrow> bool" where
  "in_page t a \<longleftrightarrow> drop_bit 12 a = drop_bit 12 t"

lemma unat_drop: "unat (drop_bit n (x :: u64)) = unat x div 2 ^ n"
  unfolding unat_drop_bit_eq by (rule drop_bit_eq_div)

lemma unat_mask9: "unat (x AND 0x1FF :: u64) = unat x mod 512"
proof -
  have "x AND 0x1FF = take_bit 9 x" by (simp add: take_bit_eq_mask mask_numeral)
  then have "unat (x AND 0x1FF) = take_bit 9 (unat x)" by (simp only: unsigned_take_bit_eq)
  then show ?thesis by (simp add: take_bit_eq_mod)
qed

lemma unat_pageindex: "unat (pageindex va l) = unat va div 2 ^ (12 + l * 9) mod 512"
  by (simp only: pageindex_def unat_mask9 unat_drop)

lemma pageindex_nat: "unat (pageindex va l) < 512"
  by (simp add: unat_pageindex)

lemma page_aligned_nat: "page_aligned t \<longleftrightarrow> 4096 dvd unat t"
proof -
  have "unat (t mod 4096) = unat t mod 4096" by (simp add: unat_mod_distrib)
  then show ?thesis by (metis PAGESIZE_def dvd_eq_mod_eq_0 page_aligned_def unat_eq_zero)
qed

lemma page_aligned_room:
  assumes "page_aligned t"
  shows "unat t + 4096 \<le> 2 ^ 64"
proof -
  obtain k where k: "unat t = 4096 * k" using assms by (auto simp: page_aligned_nat)
  have "unat t < 2 ^ 64" using unsigned_less [of t] by simp
  then show ?thesis using k by simp
qed

lemma unat_slot:
  assumes "page_aligned t"
  shows "unat (slot t va l) = unat t + 8 * unat (pageindex va l)"
proof -
  have i: "unat (8 * pageindex va l) = 8 * unat (pageindex va l)"
    using pageindex_nat [of va l] by (subst unat_times_exact) simp_all
  then show ?thesis unfolding slot_def
    using pageindex_nat [of va l] page_aligned_room [OF assms] by (subst unat_plus_exact) simp_all
qed

lemma in_page_nat: "in_page t a \<longleftrightarrow> unat a div 4096 = unat t div 4096"
  using unat_drop [of 12 a] unat_drop [of 12 t] by (simp only: in_page_def word_unat_eq_iff) simp

lemma slot_in_page: "page_aligned t \<Longrightarrow> in_page t (slot t va l)"
  using pageindex_nat [of va l] by (auto simp: in_page_nat unat_slot page_aligned_nat)

lemma in_page_unique: "page_aligned t \<Longrightarrow> page_aligned t' \<Longrightarrow> in_page t a \<Longrightarrow> in_page t' a \<Longrightarrow> t = t'"
  by (auto simp: in_page_nat page_aligned_nat word_unat_eq_iff elim!: dvdE)

lemma slot_eq_iff:
  assumes "page_aligned t" "page_aligned t'"
  shows "slot t va l = slot t' va' l' \<longleftrightarrow> t = t' \<and> pageindex va l = pageindex va' l'"
proof
  assume eq: "slot t va l = slot t' va' l'"
  then have "t = t'" using assms slot_in_page in_page_unique by metis
  moreover from this eq have "unat (pageindex va l) = unat (pageindex va' l')"
    using assms unat_slot [of t va l] unat_slot [of t va' l'] by simp
  ultimately show "t = t' \<and> pageindex va l = pageindex va' l'" by (simp add: word_unat_eq_iff)
qed (simp add: slot_def)

lemma slot_offset: "page_aligned t \<Longrightarrow> drop_bit 3 (slot t va l mod PAGESIZE) = pageindex va l"
proof -
  assume t: "page_aligned t"
  have "unat (slot t va l mod PAGESIZE) = unat (slot t va l) mod 4096"
    by (simp only: PAGESIZE_def unat_mod_distrib) simp
  also have "\<dots> = 8 * unat (pageindex va l)"
    using t pageindex_nat [of va l] by (auto simp: unat_slot page_aligned_nat elim!: dvdE)
  finally show ?thesis by (simp only: word_unat_eq_iff unat_drop) simp
qed

section \<open>Entries\<close>

lemma aligned_PAMASK: "page_aligned (e AND PTE_PAMASK)"
proof -
  have "take_bit 12 (e AND PTE_PAMASK) = take_bit 12 e AND take_bit 12 PTE_PAMASK" by simp
  also have "take_bit 12 PTE_PAMASK = 0" by (simp add: PTE_PAMASK_def take_bit_eq_mask mask_numeral)
  finally have "(e AND PTE_PAMASK) mod 2 ^ 12 = 0" by (simp add: take_bit_eq_mod)
  then show ?thesis by (simp add: page_aligned_def PAGESIZE_def)
qed

text \<open>An entry made of an address that fits the mask and of flags: a table with all permissions leads on to it, a
leaf gives it back.\<close>

lemma PAMASK_flags: "PTE_PWU AND PTE_PAMASK = 0" "PTE_PAMASK AND (PTE_P OR PTE_PS) = 0" "PTE_PAMASK AND PTE_P = 0"
  by (simp_all add: pte_defs)

lemma PAMASK_and_flags:
  assumes "p AND PTE_PAMASK = p"
  shows "p AND (PTE_P OR PTE_PS) = 0" "p AND PTE_P = 0"
proof -
  have *: "p AND x = p AND (PTE_PAMASK AND x)" for x using assms by (simp only: and.assoc [symmetric])
  show "p AND (PTE_P OR PTE_PS) = 0" using * [of "PTE_P OR PTE_PS"] by (simp only: PAMASK_flags(2) and_zero_eq)
  show "p AND PTE_P = 0" using * [of PTE_P] by (simp only: PAMASK_flags(3) and_zero_eq)
qed

lemma table_entry:
  assumes "p AND PTE_PAMASK = p"
  shows "(p OR PTE_PWU) AND PTE_PAMASK = p" "0 < l \<Longrightarrow> descends l (p OR PTE_PWU)" "below q (p OR PTE_PWU) = q"
proof -
  show "(p OR PTE_PWU) AND PTE_PAMASK = p"
    using assms PAMASK_flags(1) by (simp add: bit.conj_disj_distrib2)
  have "PTE_PWU AND (PTE_P OR PTE_PS) = PTE_P" by (simp add: pte_defs)
  then have "(p OR PTE_PWU) AND (PTE_P OR PTE_PS) = PTE_P"
    using PAMASK_and_flags(1) [OF assms] by (simp only: bit.conj_disj_distrib2) simp
  then show "descends l (p OR PTE_PWU)" if "0 < l" using that by (simp add: descends_def)
  have "PTE_PWU OR NOT (PTE_P OR PTE_W OR PTE_U) = -1" by (simp add: pte_defs)
  then have "(p OR PTE_PWU) OR NOT (PTE_P OR PTE_W OR PTE_U) = -1" by (simp only: or.assoc) simp
  then show "below q (p OR PTE_PWU) = q" by (simp add: below_def)
qed

lemma leaf_entry:
  assumes "pa AND PTE_PAMASK = pa" "perm AND PTE_PAMASK = 0"
  shows "(pa OR perm) AND PTE_PAMASK = pa" "(pa OR perm) AND PTE_P = perm AND PTE_P"
  using assms PAMASK_and_flags(2) [OF assms(1)] by (simp_all add: bit.conj_disj_distrib2)

lemma PAMASK_page: "p AND PTE_PAMASK = p \<Longrightarrow> page_aligned p"
  using aligned_PAMASK [of p] by simp

lemma descends_present: "descends l e \<Longrightarrow> e AND PTE_P = PTE_P \<and> e AND PTE_PS = 0"
proof -
  assume d: "descends l e"
  have e: "e AND (PTE_P OR PTE_PS) = PTE_P" using d by (simp add: descends_def)
  have "e AND PTE_P = (e AND (PTE_P OR PTE_PS)) AND PTE_P" "e AND PTE_PS = (e AND (PTE_P OR PTE_PS)) AND PTE_PS"
    by (simp_all add: pte_defs and.assoc)
  then show ?thesis unfolding e by (simp add: pte_defs)
qed

lemma not_descends:
  assumes "\<not> descends (Suc l) e"
  shows "e AND PTE_P = 0 \<or> e AND PTE_PS \<noteq> 0"
proof (rule ccontr)
  assume "\<not> ?thesis"
  then have "e AND PTE_P = PTE_P" "e AND PTE_PS = 0" by (simp_all add: pte_defs and_one_eq one_and_eq split: if_splits)
  then have "e AND (PTE_P OR PTE_PS) = PTE_P" by (simp only: bit.conj_disj_distrib) simp
  then show False using assms by (simp add: descends_def)
qed

section \<open>The stages of a walk\<close>

text \<open>\<open>stage m root va d\<close>: the table reached after \<open>d\<close> descents, with the permissions allowed there.\<close>

fun stage :: "memory \<Rightarrow> u64 \<Rightarrow> u64 \<Rightarrow> nat \<Rightarrow> (u64 \<times> u64) option" where
  "stage m root va 0 = Some (root, 0xFFF)"
| "stage m root va (Suc d) =
     (case stage m root va d of
        None \<Rightarrow> None
      | Some (t, q) \<Rightarrow>
          let e = m (slot t va (3 - d)) in
          if descends (3 - d) e then Some (e AND PTE_PAMASK, below q e) else None)"

lemma stage_upto3: "stage m root va d = Some tq \<Longrightarrow> d \<le> 3"
proof (cases d)
  case (Suc n)
  assume "stage m root va d = Some tq"
  then show ?thesis using Suc by (auto simp: descends_def Let_def split: option.splits if_splits)
qed simp

lemma stage_earlier: "stage m root va d = Some tq \<Longrightarrow> d' \<le> d \<Longrightarrow> \<exists>tq'. stage m root va d' = Some tq'"
proof (induction d arbitrary: tq)
  case (Suc d)
  then show ?case
    by (cases "d' = Suc d") (auto split: option.splits elim: le_SucE)
qed simp

lemma stage_aligned: "page_aligned root \<Longrightarrow> stage m root va d = Some (t, q) \<Longrightarrow> page_aligned t"
  by (cases d) (auto simp: Let_def aligned_PAMASK split: option.splits if_splits)

text \<open>The indices of the first \<open>d\<close> levels.\<close>

definition same_path :: "nat \<Rightarrow> u64 \<Rightarrow> u64 \<Rightarrow> bool" where
  "same_path d va va' \<longleftrightarrow> (\<forall>i<d. pageindex va (3 - i) = pageindex va' (3 - i))"

lemma same_path_stage: "same_path d va va' \<Longrightarrow> stage m root va d = stage m root va' d"
proof (induction d)
  case (Suc d)
  then have "same_path d va va'" "pageindex va (3 - d) = pageindex va' (3 - d)" by (simp_all add: same_path_def)
  with Suc.IH show ?case by (simp add: slot_def split: option.split)
qed simp

text \<open>A walk from the root is a walk from each stage.\<close>

lemma mmu_from_stage: "stage m root va d = Some (t, q) \<Longrightarrow> mmu_from m root 3 0xFFF va = mmu_from m t (3 - d) q va"
proof (induction d arbitrary: t q)
  case (Suc d)
  from Suc(2) obtain t' q' where s: "stage m root va d = Some (t', q')"
    and e: "descends (3 - d) (m (slot t' va (3 - d)))" "t = m (slot t' va (3 - d)) AND PTE_PAMASK"
      "q = below q' (m (slot t' va (3 - d)))"
    by (auto simp: Let_def split: option.splits if_splits)
  obtain l where l: "3 - d = Suc l" "3 - Suc d = l" using e(1) by (cases "3 - d") (auto simp: descends_def)
  have "m (slot t' va (Suc l)) AND PTE_P \<noteq> 0 \<and> m (slot t' va (Suc l)) AND PTE_PS = 0"
    using descends_present [OF e(1)] l by (simp add: PTE_P_def)
  then show ?case using Suc.IH [OF s] e(2,3) unfolding l by (simp add: Let_def)
qed simp

text \<open>Where the walk ends, the entry is a leaf.\<close>

lemma mmu_from_end:
  assumes "\<not> descends l (m (slot t va l))"
  shows "mmu_from m t l q va = (let e = m (slot t va l) in
    if e AND PTE_P = 0 then None else Some (frame_base l e + (va AND pageoffmask l), e AND q))"
proof (cases l)
  case (Suc n)
  then show ?thesis using not_descends [of n "m (slot t va l)"] assms by (auto simp: Let_def)
qed (simp add: Let_def)

end
