(* ===== verification/Vmiter.thy ===== *)
theory Vmiter
  imports PageTable
begin

text \<open>
  The iterator of \<open>project04a-wduan/k-vmiter.cc\<close> and \<open>k-vmiter.hh\<close> over a page table: finding an address,
  moving on, and what it reports. An iterator moves within the table it is in when it can; that it then
  reports what a walk from the root reports is shown here. \<open>range_perm\<close> is in \<open>RangePerm\<close>.
\<close>

section \<open>The iterator\<close>

text \<open>\<open>it_pep\<close> is the address of the current entry, \<open>None\<close> that of \<open>zero_pe\<close>. The permissions are an \<open>int\<close> in the code
that stays between 0 and \<open>0xFFF\<close>.\<close>

record vmiter =
  it_pt :: u64
  it_pep :: "u64 option"
  it_level :: nat
  it_perm :: u64
  it_va :: u64

definition initial_perm :: u64 where "initial_perm = 0xFFF"

fun entry_at :: "memory \<Rightarrow> u64 option \<Rightarrow> u64" where
  "entry_at m None = 0"
| "entry_at m (Some a) = m a"

text \<open>The loop of \<open>down\<close>, then its check.\<close>

function down_loop :: "memory \<Rightarrow> vmiter \<Rightarrow> vmiter" where
  "down_loop m it =
     (let e = entry_at m (it_pep it) in
      if it_level it > 0 \<and> e AND (PTE_P OR PTE_PS) = PTE_P then
        let level = it_level it - 1; pa = e AND PTE_PAMASK in
        down_loop m (it\<lparr>it_perm := it_perm it AND (e OR NOT (PTE_P OR PTE_W OR PTE_U)), it_level := level,
          it_pep := Some (pa + 8 * pageindex (it_va it) level)\<rparr>)
      else it)"
  by auto
termination by (relation "measure (\<lambda>(_, it). it_level it)") auto

declare down_loop.simps [simp del]

definition down :: "memory \<Rightarrow> vmiter \<Rightarrow> vmiter result" where
  "down m it =
     (let it = down_loop m it in
      if entry_at m (it_pep it) AND PTE_PAMASK \<ge> 0x100000000 then Inl Abort else Inr it)"

definition real_find :: "memory \<Rightarrow> u64 \<Rightarrow> vmiter \<Rightarrow> vmiter result" where
  "real_find m va it =
     (let it =
        (if it_level it = 3 \<or> (it_va it XOR va) AND NOT (pageoffmask (it_level it + 1)) \<noteq> 0 then
           (if va_is_canonical va then
              it\<lparr>it_level := 3, it_perm := initial_perm, it_pep := Some (it_pt it + 8 * pageindex va 3)\<rparr>
            else it\<lparr>it_level := 3, it_perm := 0, it_pep := None\<rparr>)
         else
           (case it_pep it of
              None \<Rightarrow> it
            | Some pep \<Rightarrow>
                let curidx = drop_bit 3 (pep mod PAGESIZE) in
                it\<lparr>it_pep := Some (pep + 8 * (pageindex va (it_level it) - curidx))\<rparr>))
      in down m (it\<lparr>it_va := va\<rparr>))"

text \<open>The constructor, \<open>find\<close>, \<open>+=\<close>, \<open>-=\<close>, \<open>next_range\<close> and \<open>next\<close>.\<close>

definition vmiter_start :: "u64 \<Rightarrow> vmiter" where
  "vmiter_start pt = \<lparr>it_pt = pt, it_pep = Some pt, it_level = 3, it_perm = initial_perm, it_va = 0\<rparr>"

definition vmiter_at :: "memory \<Rightarrow> u64 \<Rightarrow> u64 \<Rightarrow> vmiter result" where
  "vmiter_at m pt va = real_find m va (vmiter_start pt)"

definition it_find :: "memory \<Rightarrow> u64 \<Rightarrow> vmiter \<Rightarrow> vmiter result" where
  "it_find m va it = real_find m va it"

definition it_add :: "memory \<Rightarrow> u64 \<Rightarrow> vmiter \<Rightarrow> vmiter result" where
  "it_add m delta it = it_find m (it_va it + delta) it"

definition it_sub :: "memory \<Rightarrow> u64 \<Rightarrow> vmiter \<Rightarrow> vmiter result" where
  "it_sub m delta it = it_find m (it_va it - delta) it"

definition last_va :: "vmiter \<Rightarrow> u64" where
  "last_va it = (it_va it OR pageoffmask (it_level it)) + 1"

definition next_range :: "memory \<Rightarrow> vmiter \<Rightarrow> vmiter result" where
  "next_range m it = real_find m (last_va it) it"

definition vm_pa :: "memory \<Rightarrow> vmiter \<Rightarrow> u64" where
  "vm_pa m it =
     (let e = entry_at m (it_pep it) in
      if e AND PTE_P \<noteq> 0 then
        let pa = e AND PTE_PAMASK;
            pa = (if it_level it > 0 then pa AND NOT 0x1000 else pa)
        in pa + (it_va it AND pageoffmask (it_level it))
      else -1)"

definition vm_perm :: "memory \<Rightarrow> vmiter \<Rightarrow> u64" where
  "vm_perm m it = (let ph = entry_at m (it_pep it) AND it_perm it in ph AND - (ph AND PTE_P))"

definition vm_has :: "memory \<Rightarrow> u64 \<Rightarrow> vmiter \<Rightarrow> bool" where
  "vm_has m desired_perm it \<longleftrightarrow> vm_perm m it AND desired_perm = desired_perm"

definition vm_present :: "memory \<Rightarrow> vmiter \<Rightarrow> bool" where
  "vm_present m it = vm_has m PTE_P it"

definition vm_writable :: "memory \<Rightarrow> vmiter \<Rightarrow> bool" where
  "vm_writable m it = vm_has m (PTE_P OR PTE_W) it"

definition vm_user :: "memory \<Rightarrow> vmiter \<Rightarrow> bool" where
  "vm_user m it = vm_has m (PTE_P OR PTE_U) it"

definition it_next :: "memory \<Rightarrow> vmiter \<Rightarrow> vmiter result" where
  "it_next m it =
     (let level = (if it_level it > 0 \<and> vm_perm m it = 0 then it_level it else 0) in
      real_find m ((it_va it OR pageoffmask level) + 1) it)"

section \<open>Iterators on a walk\<close>

text \<open>The iterator after \<open>d\<close> descents of the walk for \<open>va\<close>.\<close>

definition it_of :: "u64 \<Rightarrow> u64 \<Rightarrow> nat \<Rightarrow> u64 \<Rightarrow> u64 \<Rightarrow> vmiter" where
  "it_of root va d t q = \<lparr>it_pt = root, it_pep = Some (slot t va (3 - d)), it_level = 3 - d, it_perm = q, it_va = va\<rparr>"

text \<open>An iterator somewhere on the walk for its address, not necessarily at the end.\<close>

definition on_walk :: "memory \<Rightarrow> u64 \<Rightarrow> vmiter \<Rightarrow> bool" where
  "on_walk m root it \<longleftrightarrow>
     (\<exists>d t q. stage m root (it_va it) d = Some (t, q) \<and> va_is_canonical (it_va it) \<and> it = it_of root (it_va it) d t q) \<or>
     \<not> va_is_canonical (it_va it) \<and> it = \<lparr>it_pt = root, it_pep = None, it_level = 3, it_perm = 0, it_va = it_va it\<rparr>"

lemma down_loop_step:
  assumes "stage m root va d = Some (t, q)"
  shows "down_loop m (it_of root va d t q) =
    (case stage m root va (Suc d) of None \<Rightarrow> it_of root va d t q
     | Some (t', q') \<Rightarrow> down_loop m (it_of root va (Suc d) t' q'))"
  using assms by (subst down_loop.simps) (simp add: it_of_def descends_def Let_def below_def slot_def)

text \<open>\<open>down_loop\<close> goes to the end of the walk.\<close>

lemma down_loop_end:
  assumes "stage m root va d = Some (t, q)"
  shows "\<exists>d' t' q'. d \<le> d' \<and> stage m root va d' = Some (t', q') \<and> stage m root va (Suc d') = None \<and>
    down_loop m (it_of root va d t q) = it_of root va d' t' q'"
  using assms
proof (induction "3 - d" arbitrary: d t q rule: less_induct)
  case less
  show ?case
  proof (cases "stage m root va (Suc d)")
    case None
    then show ?thesis using less(2) down_loop_step [OF less(2)] by auto
  next
    case (Some tq)
    obtain t' q' where tq: "tq = (t', q')" by fastforce
    have "3 - Suc d < 3 - d" using stage_upto3 [OF Some] by simp
    from less(1) [OF this Some [unfolded tq]] show ?thesis
      using down_loop_step [OF less(2)] Some tq by (auto intro: Suc_leD)
  qed
qed

lemma down_loop_anywhere:
  assumes "stage m root va d = Some (t, q)" "stage m root va d' = Some (t', q')"
  shows "down_loop m (it_of root va d t q) = down_loop m (it_of root va d' t' q')"
proof -
  obtain a ta qa where a: "stage m root va a = Some (ta, qa)" "stage m root va (Suc a) = None"
    "down_loop m (it_of root va d t q) = it_of root va a ta qa" using down_loop_end [OF assms(1)] by blast
  obtain b tb qb where b: "stage m root va b = Some (tb, qb)" "stage m root va (Suc b) = None"
    "down_loop m (it_of root va d' t' q') = it_of root va b tb qb" using down_loop_end [OF assms(2)] by blast
  have "\<not> a < b" using stage_earlier [OF b(1), of "Suc a"] a(2) by auto
  moreover have "\<not> b < a" using stage_earlier [OF a(1), of "Suc b"] b(2) by auto
  ultimately have "a = b" by simp
  then show ?thesis using a b by simp
qed

section \<open>Finding\<close>

lemma pageoffmask_mask: "pageoffmask l = mask (12 + l * 9)"
  by (simp add: pageoffmask_def mask_eq_exp_minus_1 push_bit_eq_mult)

lemma xor_zero: "a XOR b = 0 \<longleftrightarrow> a = b" for a b :: u64
proof
  assume z: "a XOR b = 0"
  have "a = (a XOR b) XOR b" by (simp only: xor.assoc xor_self_eq xor.right_neutral)
  then show "a = b" unfolding z by simp
qed simp

lemma agree_iff: "(x XOR y) AND NOT (pageoffmask l) = 0 \<longleftrightarrow> drop_bit (12 + l * 9) x = drop_bit (12 + l * 9) y"
proof -
  have "z AND NOT (mask n) = 0 \<longleftrightarrow> drop_bit n z = 0" for z :: u64 and n
  proof
    assume z: "z AND NOT (mask n) = 0"
    have "drop_bit n z = drop_bit n (z AND NOT (mask n))"
      by (rule bit_eqI) (auto simp: bit_simps dest: bit_imp_le_length)
    then show "drop_bit n z = 0" unfolding z by simp
  next
    assume z: "drop_bit n z = 0"
    have "z AND NOT (mask n) = push_bit n (drop_bit n z)" by (rule bit_eqI) (auto simp: bit_simps)
    then show "z AND NOT (mask n) = 0" unfolding z by simp
  qed
  then have "(x XOR y) AND NOT (pageoffmask l) = 0 \<longleftrightarrow> drop_bit (12 + l * 9) (x XOR y) = 0"
    by (simp only: pageoffmask_mask)
  also have "\<dots> \<longleftrightarrow> drop_bit (12 + l * 9) x XOR drop_bit (12 + l * 9) y = 0" by (simp only: drop_bit_xor)
  also have "\<dots> \<longleftrightarrow> drop_bit (12 + l * 9) x = drop_bit (12 + l * 9) y" by (rule xor_zero)
  finally show ?thesis .
qed

lemma agree_same_path:
  assumes "drop_bit (12 + l * 9) x = drop_bit (12 + l * 9) y"
  shows "same_path (4 - l) x y"
  unfolding same_path_def
proof (intro allI impI)
  fix i
  assume "i < 4 - l"
  then have n: "12 + (3 - i) * 9 = (3 - i - l) * 9 + (12 + l * 9)" by (simp add: algebra_simps diff_mult_distrib)
  have "drop_bit (12 + (3 - i) * 9) z = drop_bit ((3 - i - l) * 9) (drop_bit (12 + l * 9) z)" for z :: u64
    unfolding n by (simp only: drop_bit_drop_bit)
  then show "pageindex x (3 - i) = pageindex y (3 - i)" unfolding pageindex_def using assms by metis
qed

lemma canonical_nat: "va_is_canonical va \<longleftrightarrow> unat va div 2 ^ 47 = 0 \<or> 2 ^ 17 - 1 \<le> unat va div 2 ^ 47"
  by (simp add: va_is_canonical_def VA_LOWMAX_def VA_HIGHMIN_def word_le_nat_alt) linarith

lemma canonical_agree:
  assumes "drop_bit (12 + l * 9) x = drop_bit (12 + l * 9) y" "l \<le> 3"
  shows "va_is_canonical x \<longleftrightarrow> va_is_canonical y"
proof -
  have n: "47 = (35 - l * 9) + (12 + l * 9)" using assms(2) by simp
  have "drop_bit 47 z = drop_bit (35 - l * 9) (drop_bit (12 + l * 9) z)" for z :: u64
    by (subst n) (simp only: drop_bit_drop_bit)
  then have "unat (drop_bit 47 x) = unat (drop_bit 47 y)" using assms(1) by metis
  then show ?thesis by (simp only: unat_drop canonical_nat)
qed

lemma vmiter_at_start:
  "vmiter_at m root va = (if va_is_canonical va then down m (it_of root va 0 root initial_perm)
     else down m \<lparr>it_pt = root, it_pep = None, it_level = 3, it_perm = 0, it_va = va\<rparr>)"
  by (simp add: vmiter_at_def real_find_def vmiter_start_def it_of_def slot_def)

lemma real_find_fresh:
  assumes "on_walk m root it" "page_aligned root"
  shows "real_find m va it = vmiter_at m root va"
proof (cases "it_level it = 3 \<or> (it_va it XOR va) AND NOT (pageoffmask (it_level it + 1)) \<noteq> 0")
  case True
  have "it_pt it = root" using assms(1) by (auto simp: on_walk_def it_of_def dest: arg_cong [where f = it_pt])
  then show ?thesis using True
    by (cases it) (auto simp: vmiter_at_start real_find_def it_of_def slot_def Let_def)
next
  case False
  then obtain d t q where s: "stage m root (it_va it) d = Some (t, q)" "va_is_canonical (it_va it)"
    and it: "it = it_of root (it_va it) d t q"
    using assms(1) by (auto simp: on_walk_def dest: arg_cong [where f = it_level])
  have d: "d \<le> 3" "it_level it = 3 - d" using stage_upto3 [OF s(1)] arg_cong [OF it, of it_level] by (simp_all add: it_of_def)
  have agree: "drop_bit (12 + (it_level it + 1) * 9) (it_va it) = drop_bit (12 + (it_level it + 1) * 9) va"
    using False agree_iff by blast
  have "same_path d (it_va it) va" using agree_same_path [OF agree] d by simp
  then have s': "stage m root va d = Some (t, q)" using same_path_stage s(1) by simp
  have "pep + 8 * (pageindex va (3 - d) - drop_bit 3 (pep mod PAGESIZE)) = slot t va (3 - d)"
    if "pep = slot t (it_va it) (3 - d)" for pep
    using slot_offset [OF stage_aligned [OF assms(2) s(1)], of "it_va it" "3 - d"] that
    by (simp add: slot_def algebra_simps)
  then have "real_find m va it = down m (it_of root va d t q)"
    using False by (subst real_find_def, subst (1 2 3 4) it) (simp add: it_of_def Let_def it [symmetric])
  also have "\<dots> = down m (it_of root va 0 root initial_perm)"
    using down_loop_anywhere [OF s', of 0 root initial_perm] by (simp add: down_def initial_perm_def)
  finally have "real_find m va it = down m (it_of root va 0 root initial_perm)" .
  moreover have "it_level it + 1 \<le> 3" using False d by (cases d) auto
  then have "va_is_canonical va" using canonical_agree [OF agree] s(2) by simp
  ultimately show ?thesis by (simp add: vmiter_at_start)
qed

section \<open>What an iterator reports\<close>

lemma stage_perm_P: "stage m root va d = Some (t, q) \<Longrightarrow> q AND PTE_P = PTE_P"
proof (induction d arbitrary: t q)
  case (Suc d)
  then obtain t' q' where s: "stage m root va d = Some (t', q')"
    and e: "descends (3 - d) (m (slot t' va (3 - d)))" "q = below q' (m (slot t' va (3 - d)))"
    by (auto simp: Let_def split: option.splits if_splits)
  define x where "x = m (slot t' va (3 - d))"
  have "q AND PTE_P = (q' AND PTE_P) AND ((x AND PTE_P) OR (NOT (PTE_P OR PTE_W OR PTE_U) AND PTE_P))"
    unfolding e(2) below_def x_def [symmetric]
    by (simp only: bit.conj_disj_distrib2 [symmetric]) (simp only: ac_simps and.left_idem)
  also have "\<dots> = PTE_P"
    using Suc.IH [OF s] descends_present [OF e(1)] unfolding x_def [symmetric] by (simp add: pte_defs)
  finally show ?case .
qed (simp add: pte_defs)

text \<open>The iterator at the end of a walk.\<close>

definition at_end :: "memory \<Rightarrow> u64 \<Rightarrow> vmiter \<Rightarrow> bool" where
  "at_end m root it \<longleftrightarrow>
     (\<exists>d t q. stage m root (it_va it) d = Some (t, q) \<and> stage m root (it_va it) (Suc d) = None \<and>
       va_is_canonical (it_va it) \<and> it = it_of root (it_va it) d t q) \<or>
     \<not> va_is_canonical (it_va it) \<and> it = \<lparr>it_pt = root, it_pep = None, it_level = 3, it_perm = 0, it_va = it_va it\<rparr>"

lemma at_end_on_walk: "at_end m root it \<Longrightarrow> on_walk m root it"
  unfolding at_end_def on_walk_def by blast

lemma vmiter_at_end: "vmiter_at m root va = Inr it \<Longrightarrow> at_end m root it \<and> it_va it = va"
proof -
  assume it: "vmiter_at m root va = Inr it"
  show ?thesis
  proof (cases "va_is_canonical va")
    case True
    have s: "stage m root va 0 = Some (root, initial_perm)" by (simp add: initial_perm_def)
    obtain d t q where "stage m root va d = Some (t, q)" "stage m root va (Suc d) = None"
      "down_loop m (it_of root va 0 root initial_perm) = it_of root va d t q" using down_loop_end [OF s] by blast
    moreover from this it True have "it = it_of root va d t q"
      by (simp add: vmiter_at_start down_def Let_def split: if_splits)
    moreover from this have "it_va it = va" by (simp add: it_of_def)
    ultimately show ?thesis using True unfolding at_end_def by metis
  next
    case False
    then have "it = \<lparr>it_pt = root, it_pep = None, it_level = 3, it_perm = 0, it_va = va\<rparr>"
      using it by (simp add: vmiter_at_start down_def down_loop.simps Let_def PTE_P_def split: if_splits)
    then show ?thesis using False unfolding at_end_def by simp
  qed
qed

lemma mmu_at_stage:
  assumes "stage m root va d = Some (t, q)" "stage m root va (Suc d) = None" "va_is_canonical va"
  shows "mmu m root va = (let e = m (slot t va (3 - d)) in
    if e AND PTE_P = 0 then None else Some (frame_base (3 - d) e + (va AND pageoffmask (3 - d)), e AND q))"
proof -
  have "\<not> descends (3 - d) (m (slot t va (3 - d)))" using assms(1,2) by (auto simp: Let_def split: if_splits)
  with assms(3) mmu_from_stage [OF assms(1)] show ?thesis unfolding mmu_def by (simp add: mmu_from_end)
qed

lemma one_bit: "x AND PTE_P \<noteq> 0 \<Longrightarrow> x AND PTE_P = PTE_P"
  by (simp add: PTE_P_def and_one_eq split: if_splits)

lemma at_end_mmu:
  assumes "at_end m root it"
  shows "vm_pa m it = (case mmu m root (it_va it) of None \<Rightarrow> -1 | Some (pa, _) \<Rightarrow> pa) \<and>
    vm_perm m it = (case mmu m root (it_va it) of None \<Rightarrow> 0 | Some (_, perm) \<Rightarrow> perm)"
proof (cases "va_is_canonical (it_va it)")
  case True
  then obtain d t q where s: "stage m root (it_va it) d = Some (t, q)" "stage m root (it_va it) (Suc d) = None"
    and it: "it = it_of root (it_va it) d t q" using assms unfolding at_end_def by blast
  define e where "e = m (slot t (it_va it) (3 - d))"
  have at: "entry_at m (it_pep it) = e" "it_level it = 3 - d" "it_perm it = q"
    by (subst it, simp add: it_of_def e_def)+
  have mmu: "mmu m root (it_va it) = (if e AND PTE_P = 0 then None
    else Some (frame_base (3 - d) e + (it_va it AND pageoffmask (3 - d)), e AND q))"
    using mmu_at_stage [OF s True] by (simp add: e_def Let_def)
  have ph: "(e AND q) AND PTE_P = e AND PTE_P"
    using stage_perm_P [OF s(1)] by (simp add: and.assoc)
  show ?thesis
  proof (cases "e AND PTE_P = 0")
    case True
    then show ?thesis using ph unfolding mmu vm_pa_def vm_perm_def at Let_def by simp
  next
    case False
    then have "(e AND q) AND PTE_P = 1" using ph one_bit [OF False] by (simp add: PTE_P_def)
    then show ?thesis using False unfolding mmu vm_pa_def vm_perm_def at Let_def frame_base_def
      by (simp add: and.assoc)
  qed
next
  case False
  then have "it = \<lparr>it_pt = root, it_pep = None, it_level = 3, it_perm = 0, it_va = it_va it\<rparr>"
    using assms unfolding at_end_def by blast
  then have "it_pep it = None" "it_perm it = 0" by (metis vmiter.simps)+
  then show ?thesis using False by (simp add: vm_pa_def vm_perm_def mmu_def)
qed

text \<open>The iterators a kernel that does not change the tables can have.\<close>

inductive moved :: "memory \<Rightarrow> u64 \<Rightarrow> vmiter \<Rightarrow> bool" for m root where
  moved_start: "vmiter_at m root va = Inr it \<Longrightarrow> moved m root it"
| moved_find: "moved m root it \<Longrightarrow> it_find m va it = Inr it' \<Longrightarrow> moved m root it'"
| moved_add: "moved m root it \<Longrightarrow> it_add m delta it = Inr it' \<Longrightarrow> moved m root it'"
| moved_sub: "moved m root it \<Longrightarrow> it_sub m delta it = Inr it' \<Longrightarrow> moved m root it'"
| moved_next: "moved m root it \<Longrightarrow> it_next m it = Inr it' \<Longrightarrow> moved m root it'"
| moved_range: "moved m root it \<Longrightarrow> next_range m it = Inr it' \<Longrightarrow> moved m root it'"

lemma real_find_end:
  assumes "at_end m root it" "page_aligned root" "real_find m va it = Inr it'"
  shows "at_end m root it'"
  using assms vmiter_at_end real_find_fresh [OF at_end_on_walk] by metis

lemma moved_end: "moved m root it \<Longrightarrow> page_aligned root \<Longrightarrow> at_end m root it"
proof (induction rule: moved.induct)
  case (moved_start va it)
  then show ?case using vmiter_at_end by blast
qed (unfold it_find_def it_add_def it_sub_def it_next_def next_range_def Let_def, (blast intro: real_find_end)+)

text \<open>Every address in the region of an entry that is not present is unmapped.\<close>

lemma region_unmapped:
  assumes "at_end m root it" "vm_perm m it = 0" "drop_bit (12 + it_level it * 9) va = drop_bit (12 + it_level it * 9) (it_va it)"
  shows "mmu m root va = None"
proof (cases "va_is_canonical (it_va it)")
  case False
  then have "it_level it = 3" using assms(1) unfolding at_end_def by (metis vmiter.simps(3))
  then have "\<not> va_is_canonical va" using canonical_agree [of 3 va "it_va it"] assms(3) False by simp
  then show ?thesis by (simp add: mmu_def)
next
  case True
  then obtain d t q where s: "stage m root (it_va it) d = Some (t, q)" "stage m root (it_va it) (Suc d) = None"
    and it: "it = it_of root (it_va it) d t q" using assms(1) unfolding at_end_def by blast
  have d: "d \<le> 3" "it_level it = 3 - d" using stage_upto3 [OF s(1)] arg_cong [OF it, of it_level] by (simp_all add: it_of_def)
  then have "4 - it_level it = Suc d" by simp
  with agree_same_path [OF assms(3)] have p: "same_path (Suc d) (it_va it) va" by (simp add: same_path_def)
  then have p': "same_path d (it_va it) va" "slot t (it_va it) (3 - d) = slot t va (3 - d)"
    by (auto simp: same_path_def slot_def)
  have "stage m root va d = Some (t, q)" "stage m root va (Suc d) = None"
    using s same_path_stage [OF p'(1)] same_path_stage [OF p] by metis+
  moreover have "(e AND q) AND PTE_P = e AND PTE_P" for e using stage_perm_P [OF s(1)] by (simp add: and.assoc)
  then have "e AND PTE_P \<noteq> 0 \<Longrightarrow> e AND q \<noteq> 0" for e by (metis and_zero_eq and.commute)
  ultimately show ?thesis using mmu_at_stage [of m root va d t q] mmu_at_stage [OF s True] at_end_mmu [OF assms(1)] assms(2) p'(2)
    by (auto simp: mmu_def Let_def split: if_splits)
qed

lemma or_mask_range:
  assumes "x \<le> y" "y \<le> x OR mask n"
  shows "drop_bit n y = drop_bit n (x :: u64)"
proof -
  have "unat (drop_bit n (x OR mask n)) = unat (drop_bit n x)"
    by (rule arg_cong [where f = unat], rule bit_eqI) (auto simp: bit_simps)
  moreover have "unat (drop_bit n x) \<le> unat (drop_bit n y)" "unat (drop_bit n y) \<le> unat (drop_bit n (x OR mask n))"
    using assms by (simp_all only: unat_drop word_le_nat_alt div_le_mono)
  ultimately show ?thesis by (simp add: word_unat_eq_iff)
qed

section \<open>Properties\<close>

text \<open>C12: after any moves an iterator reports, for the address it is at, the physical address and the permissions of the
hardware's walk from the root, though it starts from the table it was in when that holds the new address.\<close>

theorem vmiter_reports_mmu:
  assumes "moved m root it" "page_aligned root"
  shows "vm_pa m it = (case mmu m root (it_va it) of None \<Rightarrow> -1 | Some (pa, _) \<Rightarrow> pa) \<and>
    vm_perm m it = (case mmu m root (it_va it) of None \<Rightarrow> 0 | Some (_, perm) \<Rightarrow> perm)"
  by (rule at_end_mmu [OF moved_end [OF assms]])

text \<open>Four tables that map the page \<open>0x5000\<close> for the user and the page \<open>0x6000\<close> for the kernel.\<close>

definition sample_tables :: memory where
  "sample_tables a =
     (if a = 0x1000 then 0x2007 else if a = 0x2000 then 0x3007 else if a = 0x3000 then 0x4007
      else if a = 0x4028 then 0x9007 else if a = 0x4030 then 0xA003 else 0)"

lemma vmiter_reports_mmu_witness:
  "\<exists>it it'. vmiter_at sample_tables 0x1000 0x5000 = Inr it \<and> it_add sample_tables 0x1008 it = Inr it' \<and>
    vm_pa sample_tables it' = 0xA008 \<and> vm_perm sample_tables it' = 3"
proof -
  obtain it it' where it: "vmiter_at sample_tables 0x1000 0x5000 = Inr it" "it_add sample_tables 0x1008 it = Inr it'"
    "it_va it' = 0x6008"
  proof
    show "vmiter_at sample_tables 0x1000 0x5000 =
      Inr \<lparr>it_pt = 0x1000, it_pep = Some 0x4028, it_level = 0, it_perm = 0xFFF, it_va = 0x5000\<rparr>" by code_simp
    show "it_add sample_tables 0x1008 \<lparr>it_pt = 0x1000, it_pep = Some 0x4028, it_level = 0, it_perm = 0xFFF, it_va = 0x5000\<rparr> =
      Inr \<lparr>it_pt = 0x1000, it_pep = Some 0x4030, it_level = 0, it_perm = 0xFFF, it_va = 0x6008\<rparr>" by code_simp
  qed simp
  have "moved sample_tables 0x1000 it'" by (rule moved_add [OF moved_start [OF it(1)] it(2)])
  moreover have "page_aligned 0x1000" by (simp add: page_aligned_def PAGESIZE_def)
  moreover have "mmu sample_tables 0x1000 0x6008 = Some (0xA008, 3)" by code_simp
  ultimately show ?thesis using vmiter_reports_mmu [of sample_tables "0x1000" it'] it by auto
qed

text \<open>\<open>next\<close> moves to a page boundary further on and passes over no mapped address outside the current page.\<close>

theorem next_skips_unmapped:
  assumes "moved m root it" "page_aligned root" "it_next m it = Inr it'" "it_va it < it_va it'"
    and "it_va it \<le> va" "va < it_va it'"
  shows "mmu m root va = None \<or> drop_bit 12 va = drop_bit 12 (it_va it)"
proof -
  define level where "level = (if it_level it > 0 \<and> vm_perm m it = 0 then it_level it else 0)"
  have "real_find m ((it_va it OR pageoffmask level) + 1) it = Inr it'"
    using assms(3) unfolding it_next_def level_def Let_def .
  then have va': "it_va it' = (it_va it OR pageoffmask level) + 1"
    using real_find_fresh [OF at_end_on_walk [OF moved_end [OF assms(1,2)]] assms(2)] vmiter_at_end by metis
  have "va \<le> it_va it OR pageoffmask level"
    using assms(6) unfolding va' by unat_arith
  then have near: "drop_bit (12 + level * 9) va = drop_bit (12 + level * 9) (it_va it)"
    using or_mask_range [OF assms(5)] by (simp only: pageoffmask_mask)
  show ?thesis
  proof (cases "it_level it > 0 \<and> vm_perm m it = 0")
    case True
    then show ?thesis using region_unmapped [OF moved_end [OF assms(1,2)]] near by (simp add: level_def)
  next
    case False
    then have "level = 0" by (simp add: level_def del: drop_bit_eq_div)
    then show ?thesis using near by simp
  qed
qed

lemma next_skips_unmapped_witness:
  "\<exists>it it'. vmiter_at sample_tables 0x1000 0x200000 = Inr it \<and> it_next sample_tables it = Inr it' \<and>
    it_va it' = 0x400000 \<and> mmu sample_tables 0x1000 0x312345 = None"
proof -
  obtain it it' where it: "vmiter_at sample_tables 0x1000 0x200000 = Inr it" "it_next sample_tables it = Inr it'"
    "it_va it = 0x200000" "it_va it' = 0x400000"
  proof
    show "vmiter_at sample_tables 0x1000 0x200000 =
      Inr \<lparr>it_pt = 0x1000, it_pep = Some 0x3008, it_level = 1, it_perm = 0xFFF, it_va = 0x200000\<rparr>" by code_simp
    show "it_next sample_tables \<lparr>it_pt = 0x1000, it_pep = Some 0x3008, it_level = 1, it_perm = 0xFFF, it_va = 0x200000\<rparr> =
      Inr \<lparr>it_pt = 0x1000, it_pep = Some 0x3010, it_level = 1, it_perm = 0xFFF, it_va = 0x400000\<rparr>" by code_simp
  qed simp_all
  have "page_aligned 0x1000" by (simp add: page_aligned_def PAGESIZE_def)
  from next_skips_unmapped [OF moved_start [OF it(1)] this it(2), of "0x312345"] it show ?thesis by simp
qed

end
