(* ===== verification/TableUpdate.thy ===== *)
theory TableUpdate
  imports PageTable
begin

text \<open>
  What a store does to the walks through page tables: which walks see a store into a table, and what the two stores
  of \<open>try_map\<close> do, the one that adds an empty table and the one that fills in a leaf.
\<close>

section \<open>The tables of a root\<close>

definition tables :: "memory \<Rightarrow> u64 \<Rightarrow> u64 set" where
  "tables m root = {t. \<exists>va d q. stage m root va d = Some (t, q)}"

text \<open>Every table is reached in one way only: at one level and by one choice of indices above it.\<close>

definition wf_tables :: "memory \<Rightarrow> u64 \<Rightarrow> bool" where
  "wf_tables m root \<longleftrightarrow> page_aligned root \<and>
     (\<forall>va va' d d' t q q'. stage m root va d = Some (t, q) \<longrightarrow> stage m root va' d' = Some (t, q') \<longrightarrow>
        d = d' \<and> same_path d va va')"

lemma tablesI: "stage m root va d = Some (t, q) \<Longrightarrow> t \<in> tables m root"
  unfolding tables_def by blast

lemma root_in_tables: "root \<in> tables m root"
  by (rule tablesI [of _ _ 0 0]) simp

lemma tables_aligned: "page_aligned root \<Longrightarrow> t \<in> tables m root \<Longrightarrow> page_aligned t"
  unfolding tables_def using stage_aligned by blast

lemma wf_tablesD:
  assumes "wf_tables m root" "stage m root va d = Some (t, q)" "stage m root va' d' = Some (t, q')"
  shows "d = d'" "same_path d va va'"
  using assms unfolding wf_tables_def by blast+

lemma wf_slot:
  assumes "wf_tables m root" "stage m root va d = Some (t, q)" "stage m root va' d' = Some (t', q')"
    and "slot t va (3 - d) = slot t' va' (3 - d')"
  shows "d = d' \<and> t = t' \<and> same_path (Suc d) va va'"
proof -
  have root: "page_aligned root" using assms(1) by (simp add: wf_tables_def)
  have t: "t = t'" and i: "pageindex va (3 - d) = pageindex va' (3 - d')"
    using slot_eq_iff [OF stage_aligned [OF root assms(2)] stage_aligned [OF root assms(3)]] assms(4) by blast+
  note w = wf_tablesD [OF assms(1,2) assms(3) [folded t]]
  then show ?thesis using t i by (auto simp: same_path_def less_Suc_eq)
qed

text \<open>A walk that does not read what changes is the same.\<close>

lemma stage_frame:
  assumes "\<And>e t q. e < d \<Longrightarrow> e < 3 \<Longrightarrow> stage m root va e = Some (t, q) \<Longrightarrow> m' (slot t va (3 - e)) = m (slot t va (3 - e))"
  shows "stage m' root va d = stage m root va d"
  using assms
proof (induction d)
  case (Suc d)
  have "stage m' root va d = stage m root va d" by (rule Suc.IH) (simp add: Suc.prems)
  moreover have "descends (3 - d) (m' (slot t va (3 - d))) = descends (3 - d) (m (slot t va (3 - d))) \<and>
    (d < 3 \<longrightarrow> m' (slot t va (3 - d)) = m (slot t va (3 - d)))" if "stage m root va d = Some (t, q)" for t q
    using Suc.prems [of d t q] that by (cases "d < 3") (simp_all add: descends_def)
  moreover have "d < 3" if "descends (3 - d) x" for x using that by (simp add: descends_def)
  ultimately show ?case by (auto simp: Let_def split: option.split)
qed simp

lemma stage_end: "\<exists>d t q. stage m root va d = Some (t, q) \<and> stage m root va (Suc d) = None"
proof (rule ccontr)
  assume "\<not> ?thesis"
  then have step: "\<exists>tq. stage m root va (Suc d) = Some tq" if "\<exists>tq. stage m root va d = Some tq" for d
    using that by (metis not_None_eq surj_pair)
  have "\<exists>tq. stage m root va d = Some tq" for d
  proof (induction d)
    case (Suc d)
    then show ?case by (rule step)
  qed simp
  then obtain tq where "stage m root va 4 = Some tq" by blast
  then show False using stage_upto3 by fastforce
qed

lemma mmu_end:
  assumes "stage m root va d = Some (t, q)" "stage m root va (Suc d) = None" "va_is_canonical va"
  shows "mmu m root va = (let e = m (slot t va (3 - d)) in
    if e AND PTE_P = 0 then None else Some (frame_base (3 - d) e + (va AND pageoffmask (3 - d)), e AND q))"
proof -
  have "\<not> descends (3 - d) (m (slot t va (3 - d)))" using assms(1,2) by (auto simp: Let_def split: if_splits)
  with assms(3) mmu_from_stage [OF assms(1)] show ?thesis unfolding mmu_def by (simp add: mmu_from_end)
qed

lemma mmu_frame:
  assumes "\<And>d t q. stage m root va d = Some (t, q) \<Longrightarrow> m' (slot t va (3 - d)) = m (slot t va (3 - d))"
  shows "mmu m' root va = mmu m root va"
proof (cases "va_is_canonical va")
  case True
  obtain d t q where s: "stage m root va d = Some (t, q)" "stage m root va (Suc d) = None" using stage_end by metis
  have "stage m' root va n = stage m root va n" for n by (rule stage_frame) (rule assms)
  then have s': "stage m' root va d = Some (t, q)" "stage m' root va (Suc d) = None" using s by (simp_all only:)
  show ?thesis unfolding mmu_end [OF s True] mmu_end [OF s' True] using assms [OF s(1)] by simp
qed (simp add: mmu_def)

text \<open>A store outside the tables changes nothing.\<close>

definition same_tables :: "memory \<Rightarrow> memory \<Rightarrow> u64 \<Rightarrow> bool" where
  "same_tables m m' root \<longleftrightarrow> (\<forall>t a. t \<in> tables m root \<longrightarrow> in_page t a \<longrightarrow> m' a = m a)"

lemma same_tables_frame:
  assumes "same_tables m m' root" "page_aligned root"
  shows "stage m' root va d = stage m root va d" "mmu m' root va = mmu m root va"
    "tables m' root = tables m root" "wf_tables m' root = wf_tables m root"
proof -
  have s: "stage m' root va d = stage m root va d" for va d
    using assms slot_in_page [OF stage_aligned [OF assms(2)]] tablesI
    by (intro stage_frame) (metis same_tables_def)
  show "stage m' root va d = stage m root va d" by (rule s)
  show "mmu m' root va = mmu m root va"
    using assms slot_in_page [OF stage_aligned [OF assms(2)]] tablesI by (intro mmu_frame) (metis same_tables_def)
  show "tables m' root = tables m root" "wf_tables m' root = wf_tables m root"
    by (simp_all only: tables_def wf_tables_def s)
qed

section \<open>Filling in a leaf\<close>

lemma leaf_store:
  assumes wf: "wf_tables m root" and s: "stage m root va 3 = Some (t, q)"
  shows "stage (m(slot t va 0 := e)) root va' d = stage m root va' d"
    and "tables (m(slot t va 0 := e)) root = tables m root"
    and "wf_tables (m(slot t va 0 := e)) root"
    and "\<not> same_path 4 va va' \<Longrightarrow> mmu (m(slot t va 0 := e)) root va' = mmu m root va'"
    and "same_path 4 va va' \<Longrightarrow> va_is_canonical va' \<Longrightarrow> mmu (m(slot t va 0 := e)) root va' =
      (if e AND PTE_P = 0 then None else Some ((e AND PTE_PAMASK) + (va' AND pageoffmask 0), e AND q))"
proof -
  let ?m = "m(slot t va 0 := e)"
  have hit: "d' = 3 \<and> same_path 4 va va'" if "stage m root va' d' = Some (t', q')" "slot t va 0 = slot t' va' (3 - d')"
    for va' d' t' q'
    using wf_slot [OF wf s that(1)] that(2) by simp
  have st: "stage ?m root va' d = stage m root va' d" for va' d
    by (rule stage_frame) (use hit in fastforce)
  show "stage ?m root va' d = stage m root va' d" by (rule st)
  show "tables ?m root = tables m root" by (simp only: tables_def st)
  show "wf_tables ?m root" using wf unfolding wf_tables_def st .
  show "mmu ?m root va' = mmu m root va'" if "\<not> same_path 4 va va'"
    by (rule mmu_frame) (use hit that in fastforce)
  show "mmu ?m root va' = (if e AND PTE_P = 0 then None else Some ((e AND PTE_PAMASK) + (va' AND pageoffmask 0), e AND q))"
    if "same_path 4 va va'" "va_is_canonical va'"
  proof -
    have "pageindex va (3 - 3) = pageindex va' (3 - 3)" using that(1) unfolding same_path_def by (elim allE [of _ 3]) simp
    then have "same_path 3 va va'" "slot t va 0 = slot t va' 0"
      using that(1) by (simp_all add: same_path_def slot_def)
    then have s3: "stage ?m root va' 3 = Some (t, q)" unfolding st using s same_path_stage by metis
    have s4: "stage ?m root va' (Suc 3) = None"
      using stage_upto3 [of ?m root va' "Suc 3"] by (cases "stage ?m root va' (Suc 3)") auto
    show ?thesis using mmu_end [OF s3 s4 that(2)] \<open>slot t va 0 = slot t va' 0\<close> by (simp add: frame_base_def Let_def)
  qed
qed

section \<open>Adding a table\<close>

text \<open>The memory after an empty table at \<open>p\<close> is put into the entry for \<open>va\<close> of the table \<open>t\<close>, \<open>l\<close> levels above the leaves.\<close>

definition with_table :: "u64 \<Rightarrow> u64 \<Rightarrow> u64 \<Rightarrow> nat \<Rightarrow> memory \<Rightarrow> memory" where
  "with_table p t va l m = (\<lambda>a. if a = slot t va l then p OR PTE_PWU else if in_page p a then 0 else m a)"

lemma with_table_reads:
  assumes wf: "wf_tables m root" and s: "stage m root va d = Some (t, q)"
    and p: "p AND PTE_PAMASK = p" "p \<notin> tables m root"
  shows "stage m root va' d' = Some (t', q') \<Longrightarrow> with_table p t va (3 - d) m (slot t' va' (3 - d')) =
      (if d' = d \<and> t' = t \<and> same_path (Suc d) va va' then p OR PTE_PWU else m (slot t' va' (3 - d')))"
    and "with_table p t va (3 - d) m (slot p va' l) = 0"
proof -
  have al: "page_aligned root" "page_aligned p" using wf p(1) PAMASK_page by (simp_all add: wf_tables_def)
  have apart: "\<not> in_page p (slot t' va' l)" if "t' \<in> tables m root" for t' va' l
  proof
    have t': "page_aligned t'" by (rule tables_aligned [OF al(1) that])
    assume "in_page p (slot t' va' l)"
    with in_page_unique [OF al(2) t' this slot_in_page [OF t']] p(2) that show False by simp
  qed
  have t: "t \<in> tables m root" by (rule tablesI [OF s])
  show "with_table p t va (3 - d) m (slot p va' l) = 0"
    using apart [OF t, of va "3 - d"] slot_in_page [OF al(2), of va' l]
    by (cases "slot p va' l = slot t va (3 - d)") (simp_all add: with_table_def)
  assume s': "stage m root va' d' = Some (t', q')"
  have "slot t' va' (3 - d') = slot t va (3 - d) \<longleftrightarrow> d' = d \<and> t' = t \<and> same_path (Suc d) va va'"
    using wf_slot [OF wf s s'] by (auto simp: slot_def same_path_def)
  then show "with_table p t va (3 - d) m (slot t' va' (3 - d')) =
      (if d' = d \<and> t' = t \<and> same_path (Suc d) va va' then p OR PTE_PWU else m (slot t' va' (3 - d')))"
    using apart [OF tablesI [OF s']] by (simp add: with_table_def)
qed

lemma with_table_stage:
  assumes wf: "wf_tables m root" and s: "stage m root va d = Some (t, q)" and d: "d < 3"
    and e: "m (slot t va (3 - d)) AND PTE_P = 0" and p: "p AND PTE_PAMASK = p" "p \<notin> tables m root"
  shows "stage (with_table p t va (3 - d) m) root va' d' =
    (if d' = Suc d \<and> same_path (Suc d) va va' then Some (p, q) else stage m root va' d')"
proof (induction d')
  case (Suc n)
  let ?m = "with_table p t va (3 - d) m"
  have at_d: "stage m root va' d = Some (t, q)" if "same_path (Suc d) va va'"
  proof -
    have "same_path d va va'" using that by (simp add: same_path_def)
    from same_path_stage [OF this, of m root] show ?thesis using s by simp
  qed
  have end_of_m: "stage m root va' (Suc d) = None" if "same_path (Suc d) va va'"
  proof -
    have "\<not> descends (3 - d) (m (slot t va (3 - d)))" using e descends_present by (auto simp: PTE_P_def)
    then have "stage m root va (Suc d) = None" using s by (simp add: Let_def)
    then show ?thesis using same_path_stage [OF that, of m root] by simp
  qed
  show ?case
  proof (cases "n = Suc d \<and> same_path (Suc d) va va'")
    case True
    then have "stage ?m root va' n = Some (p, q)" using Suc by simp
    then have "stage ?m root va' (Suc n) = None"
      using with_table_reads(2) [OF wf s p] by (simp add: descends_def Let_def PTE_P_def)
    moreover have "stage m root va' (Suc n) = None" using end_of_m True by simp
    ultimately show ?thesis using True by simp
  next
    case False
    then have n: "stage ?m root va' n = stage m root va' n" using Suc by (simp only: if_False)
    show ?thesis
    proof (cases "stage m root va' n")
      case None
      then show ?thesis using n at_d by auto
    next
      case (Some tq)
      obtain t' q' where tq: "tq = (t', q')" by fastforce
      note r = with_table_reads(1) [OF wf s p Some [unfolded tq]]
      show ?thesis
      proof (cases "n = d \<and> t' = t \<and> same_path (Suc d) va va'")
        case True
        then have "q' = q" using Some tq at_d by simp
        then show ?thesis using True n Some tq r table_entry [OF p(1)] d by (simp add: Let_def)
      next
        case False
        then have "\<not> (Suc n = Suc d \<and> same_path (Suc d) va va')"
          using Some tq at_d by auto
        then show ?thesis using False n Some tq r by (auto simp: Let_def)
      qed
    qed
  qed
qed simp

lemma with_table_wf:
  assumes wf: "wf_tables m root" and s: "stage m root va d = Some (t, q)" and d: "d < 3"
    and e: "m (slot t va (3 - d)) AND PTE_P = 0" and p: "p AND PTE_PAMASK = p" "p \<notin> tables m root"
  shows "tables (with_table p t va (3 - d) m) root = insert p (tables m root)"
    and "wf_tables (with_table p t va (3 - d) m) root"
    and "mmu (with_table p t va (3 - d) m) root va' = mmu m root va'"
proof -
  let ?m = "with_table p t va (3 - d) m"
  note st = with_table_stage [OF wf s d e p]
  have new: "stage m root va' (Suc d) = None" if "same_path (Suc d) va va'" for va'
  proof -
    have "\<not> descends (3 - d) (m (slot t va (3 - d)))" using e descends_present by (auto simp: PTE_P_def)
    then have "stage m root va (Suc d) = None" using s by (simp add: Let_def)
    then show ?thesis using same_path_stage [OF that, of m root] by simp
  qed
  show "tables ?m root = insert p (tables m root)"
  proof (intro equalityI subsetI)
    fix x
    assume "x \<in> tables ?m root"
    then show "x \<in> insert p (tables m root)" unfolding tables_def st by (auto split: if_splits)
  next
    fix x
    assume x: "x \<in> insert p (tables m root)"
    show "x \<in> tables ?m root"
    proof (cases "x = p")
      case True
      have "stage ?m root va (Suc d) = Some (p, q)" unfolding st by (simp add: same_path_def)
      then show ?thesis using True tablesI by metis
    next
      case False
      then obtain va' d' q' where s': "stage m root va' d' = Some (x, q')" using x unfolding tables_def by blast
      then have "stage ?m root va' d' = Some (x, q')" unfolding st using new by auto
      then show ?thesis by (rule tablesI)
    qed
  qed
  have "d1 = d2 \<and> same_path d1 va1 va2"
    if 1: "stage ?m root va1 d1 = Some (t', q1)" and 2: "stage ?m root va2 d2 = Some (t', q2)" for va1 va2 d1 d2 t' q1 q2
  proof -
    show ?thesis
    proof (cases "t' = p")
      case True
      then have "d1 = Suc d \<and> same_path (Suc d) va va1" "d2 = Suc d \<and> same_path (Suc d) va va2"
        using 1 2 p(2) tablesI unfolding st by (metis option.inject prod.inject)+
      then show ?thesis by (simp add: same_path_def)
    next
      case False
      then have "stage m root va1 d1 = Some (t', q1)" "stage m root va2 d2 = Some (t', q2)"
        using 1 2 unfolding st by (auto split: if_splits)
      then show ?thesis using wf unfolding wf_tables_def by blast
    qed
  qed
  then show "wf_tables ?m root" using wf unfolding wf_tables_def by blast
  show "mmu ?m root va' = mmu m root va'"
  proof (cases "same_path (Suc d) va va' \<and> va_is_canonical va'")
    case True
    have s1: "stage ?m root va' (Suc d) = Some (p, q)" unfolding st using True by simp
    have s2: "stage ?m root va' (Suc (Suc d)) = None"
      unfolding stage.simps(2) [of ?m root va' "Suc d"] s1
      using with_table_reads(2) [OF wf s p] by (simp add: descends_def Let_def PTE_P_def)
    have "mmu ?m root va' = None"
      using mmu_end [OF s1 s2] True with_table_reads(2) [OF wf s p] by (simp add: Let_def)
    moreover have "same_path d va va'" "slot t va (3 - d) = slot t va' (3 - d)"
      using True by (auto simp: same_path_def slot_def)
    then have "mmu m root va' = None"
      using mmu_end [of m root va' d t q] new [of va'] s same_path_stage [of d va va' m root] True e by (simp add: Let_def)
    ultimately show ?thesis by simp
  next
    case False
    show ?thesis
    proof (cases "va_is_canonical va'")
      case True
      then have "\<not> same_path (Suc d) va va'" using False by simp
      then show ?thesis using with_table_reads(1) [OF wf s p] by (intro mmu_frame) simp
    qed (simp add: mmu_def)
  qed
qed

end
