(* ===== verification/PageMap.thy ===== *)
theory PageMap
  imports Vmiter TableUpdate
begin

text \<open>
  Changing page tables: the kernel's page allocator \<open>kalloc\<close> (\<open>project04a-wduan/kernel.c\<close>), \<open>try_map\<close> of the iterator
  (\<open>k-vmiter.cc\<close>), which allocates the tables that are missing on the way, and the functions of \<open>util.c\<close> on top
  of them. The end of the kernel, a symbol of the linker, is the argument \<open>kernel_end\<close>.
\<close>

section \<open>The state of memory\<close>

text \<open>The words of physical memory, and the reference counts of its pages.\<close>

record kernel =
  kmem :: memory
  pages :: "u8 list"

definition MEMSIZE_PHYSICAL :: u64 where "MEMSIZE_PHYSICAL = 0x200000"
definition NPAGES :: nat where "NPAGES = 512"
definition KERNEL_START_ADDR :: u64 where "KERNEL_START_ADDR = 0x40000"
definition KERNEL_STACK_TOP :: u64 where "KERNEL_STACK_TOP = 0x80000"
definition PROC_START_ADDR :: u64 where "PROC_START_ADDR = 0x100000"

definition round_down :: "u64 \<Rightarrow> u64 \<Rightarrow> u64" where
  "round_down x m = x - x mod m"

definition round_up :: "u64 \<Rightarrow> u64 \<Rightarrow> u64" where
  "round_up x m = round_down (x + m - 1) m"

definition reserved_physical_address :: "u64 \<Rightarrow> bool" where
  "reserved_physical_address pa \<longleftrightarrow> pa < PAGESIZE \<or> pa \<ge> 0xA0000 \<and> pa < 0x100000"

definition allocatable_physical_address :: "u64 \<Rightarrow> u64 \<Rightarrow> bool" where
  "allocatable_physical_address kernel_end pa \<longleftrightarrow> \<not> reserved_physical_address pa \<and>
     (pa < KERNEL_START_ADDR \<or> pa \<ge> round_up kernel_end PAGESIZE) \<and>
     (pa < KERNEL_STACK_TOP - PAGESIZE \<or> pa \<ge> KERNEL_STACK_TOP) \<and> pa < MEMSIZE_PHYSICAL"

text \<open>\<open>memset\<close> of a whole page with a byte, here 8 of them.\<close>

definition set_page :: "u64 \<Rightarrow> u64 \<Rightarrow> memory \<Rightarrow> memory" where
  "set_page pa w m = (\<lambda>a. if in_page pa a then w else m a)"

definition page_used :: "kernel \<Rightarrow> nat \<Rightarrow> bool" where
  "page_used k i \<longleftrightarrow> pages k ! i \<noteq> 0"

section \<open>Allocation\<close>

text \<open>The loop of \<open>kalloc\<close> at the page \<open>i\<close>; 0 is \<open>nullptr\<close>.\<close>

function kalloc_loop :: "u64 \<Rightarrow> nat \<Rightarrow> kernel \<Rightarrow> u64 \<times> kernel" where
  "kalloc_loop kernel_end i k =
     (if i < NPAGES then
        let pa = of_nat i * PAGESIZE in
        if allocatable_physical_address kernel_end pa \<and> \<not> page_used k i then
          (pa, k\<lparr>pages := (pages k)[i := pages k ! i + 1], kmem := set_page pa 0xCCCCCCCCCCCCCCCC (kmem k)\<rparr>)
        else kalloc_loop kernel_end (i + 1) k
      else (0, k))"
  by auto
termination by (relation "measure (\<lambda>(_, i, _). NPAGES - i)") auto

declare kalloc_loop.simps [simp del]

definition kalloc :: "u64 \<Rightarrow> u64 \<Rightarrow> kernel \<Rightarrow> u64 \<times> kernel" where
  "kalloc kernel_end sz k = (if sz > PAGESIZE then (0, k) else kalloc_loop kernel_end 0 k)"

text \<open>What \<open>kalloc\<close> returns: the first page that can be allocated and is free.\<close>

definition free_page :: "u64 \<Rightarrow> kernel \<Rightarrow> nat \<Rightarrow> bool" where
  "free_page kernel_end k i \<longleftrightarrow> i < NPAGES \<and> allocatable_physical_address kernel_end (of_nat i * PAGESIZE) \<and> \<not> page_used k i"

lemma kalloc_loop_result:
  "kalloc_loop kernel_end i k = (case find (free_page kernel_end k) [i..<NPAGES] of
     None \<Rightarrow> (0, k)
   | Some j \<Rightarrow> (of_nat j * PAGESIZE, k\<lparr>pages := (pages k)[j := pages k ! j + 1],
       kmem := set_page (of_nat j * PAGESIZE) 0xCCCCCCCCCCCCCCCC (kmem k)\<rparr>))"
proof (induction "NPAGES - i" arbitrary: i)
  case 0
  then show ?case by (simp add: kalloc_loop.simps)
next
  case (Suc d)
  then have i: "i < NPAGES" "[i..<NPAGES] = i # [i + 1..<NPAGES]" by (simp_all add: upt_rec)
  show ?case
  proof (cases "free_page kernel_end k i")
    case True
    then show ?thesis using i by (subst kalloc_loop.simps) (simp add: free_page_def Let_def)
  next
    case False
    then have "kalloc_loop kernel_end i k = kalloc_loop kernel_end (i + 1) k"
      using i(1) by (subst kalloc_loop.simps) (auto simp: free_page_def Let_def)
    then show ?thesis using Suc.hyps(1) [of "i + 1"] Suc.hyps(2) False i(2) by simp
  qed
qed

text \<open>The address of a page below 2 MB is a multiple of the page size that an entry can hold.\<close>

lemma page_address:
  assumes "i < NPAGES"
  shows "unat (of_nat i * PAGESIZE) = i * 4096" "of_nat i * PAGESIZE AND PTE_PAMASK = of_nat i * PAGESIZE"
proof -
  have i: "unat (of_nat i :: u64) = i" using assms by (simp add: unat_of_nat NPAGES_def)
  show n: "unat (of_nat i * PAGESIZE) = i * 4096"
    unfolding PAGESIZE_def using assms i by (subst unat_times_exact) (simp_all add: NPAGES_def)
  have "of_nat i * PAGESIZE = push_bit 12 (of_nat i :: u64)" by (simp add: PAGESIZE_def push_bit_eq_mult)
  moreover have "take_bit 40 (of_nat i :: u64) = of_nat i"
    using assms by (simp only: word_unat_eq_iff unsigned_take_bit_eq i) (simp add: take_bit_nat_eq_self NPAGES_def)
  moreover have "PTE_PAMASK = push_bit 12 (mask 40)" by (simp add: PTE_PAMASK_def mask_numeral)
  ultimately show "of_nat i * PAGESIZE AND PTE_PAMASK = of_nat i * PAGESIZE"
    by (metis push_bit_and take_bit_eq_mask)
qed

lemma kalloc_result:
  assumes "kalloc kernel_end PAGESIZE k = (p, k')" "p \<noteq> 0"
  obtains i where "free_page kernel_end k i" "p = of_nat i * PAGESIZE"
    "k' = k\<lparr>pages := (pages k)[i := pages k ! i + 1], kmem := set_page p 0xCCCCCCCCCCCCCCCC (kmem k)\<rparr>"
proof -
  have "kalloc_loop kernel_end 0 k = (p, k')" using assms(1) by (simp add: kalloc_def)
  then obtain i where "find (free_page kernel_end k) [0..<NPAGES] = Some i" "p = of_nat i * PAGESIZE"
    "k' = k\<lparr>pages := (pages k)[i := pages k ! i + 1], kmem := set_page p 0xCCCCCCCCCCCCCCCC (kmem k)\<rparr>"
    using assms(2) by (auto simp: kalloc_loop_result split: option.splits)
  moreover from this(1) have "free_page kernel_end k i" by (auto simp: find_Some_iff)
  ultimately show ?thesis using that by blast
qed

lemma kalloc_PAMASK: "kalloc kernel_end PAGESIZE k = (p, k') \<Longrightarrow> p AND PTE_PAMASK = p"
proof (cases "p = 0")
  case False
  assume "kalloc kernel_end PAGESIZE k = (p, k')"
  then show ?thesis using False by (elim kalloc_result) (auto simp: free_page_def page_address(2))
qed simp

section \<open>Mapping\<close>

lemma down_loop_level: "it_level (down_loop m it) \<le> it_level it"
proof (induction m it rule: down_loop.induct)
  case (1 m it)
  then show ?case by (subst down_loop.simps) (auto simp: Let_def intro: le_trans [OF _ diff_le_self])
qed

lemma down_new_table:
  assumes "p AND PTE_PAMASK = p" "entry_at m (it_pep it) = p OR PTE_PWU" "it_level it > 0" "down m it = Inr it'"
  shows "it_level it' < it_level it"
proof -
  have "descends (it_level it) (p OR PTE_PWU)" by (rule table_entry(2) [OF assms(1,3)])
  then have "\<exists>it2. down_loop m it = down_loop m it2 \<and> it_level it2 < it_level it"
    using assms(2) by (subst down_loop.simps) (auto simp: Let_def descends_def)
  then have "it_level (down_loop m it) < it_level it" using down_loop_level le_less_trans by metis
  then show ?thesis using assms(4) by (simp add: down_def Let_def split: if_splits)
qed

text \<open>The loop of \<open>try_map\<close>, which adds the missing tables; \<open>False\<close> when it runs out of pages.\<close>

function map_loop :: "u64 \<Rightarrow> u64 \<Rightarrow> vmiter \<Rightarrow> kernel \<Rightarrow> (bool \<times> vmiter \<times> kernel) result" where
  "map_loop kernel_end perm it k =
     (if it_level it > 0 \<and> perm \<noteq> 0 then
        ebind (c_assert (entry_at (kmem k) (it_pep it) AND PTE_P = 0)) (\<lambda>_.
        case kalloc kernel_end PAGESIZE k of (pt, k) \<Rightarrow>
          if pt = 0 then Inr (False, it, k)
          else
            case it_pep it of
              None \<Rightarrow> Inl Bad_Access
            | Some pep \<Rightarrow>
                let k = k\<lparr>kmem := (set_page pt 0 (kmem k))(pep := pt OR PTE_PWU)\<rparr> in
                ebind (down (kmem k) it) (\<lambda>it. map_loop kernel_end perm it k))
      else Inr (True, it, k))"
  by auto
termination
proof (relation "measure (\<lambda>(_, _, it, _). it_level it)", goal_cases)
  case (2 kernel_end perm it k u pt k1 pep k2 it')
  have "pt AND PTE_PAMASK = pt" using 2(3) kalloc_PAMASK by metis
  then have "it_level it' < it_level it" using 2 by (intro down_new_table [of pt "kmem k2" it it']) auto
  then show ?case by simp
qed simp

declare map_loop.simps [simp del]

definition try_map :: "u64 \<Rightarrow> u64 \<Rightarrow> u64 \<Rightarrow> vmiter \<Rightarrow> kernel \<Rightarrow> (int \<times> vmiter \<times> kernel) result" where
  "try_map kernel_end pa perm it k =
     (let pa = (if pa = -1 \<and> perm = 0 then 0 else pa) in
      ebind (c_assert (it_va it mod PAGESIZE = 0)) (\<lambda>_.
      ebind (if perm AND PTE_P \<noteq> 0 then
          ebind (c_assert (pa \<noteq> -1)) (\<lambda>_. c_assert (pa AND PTE_PAMASK = pa))
        else c_assert (pa AND PTE_P = 0)) (\<lambda>_.
      ebind (c_assert (perm AND NOT (it_perm it) AND (PTE_P OR PTE_W OR PTE_U) = 0)) (\<lambda>_.
      ebind (map_loop kernel_end perm it k) (\<lambda>(ok, it, k).
      if \<not> ok then Inr (-1, it, k)
      else if it_level it = 0 then
        (case it_pep it of
           None \<Rightarrow> Inl Bad_Access
         | Some pep \<Rightarrow> Inr (0, it, k\<lparr>kmem := (kmem k)(pep := pa OR perm)\<rparr>))
      else Inr (0, it, k))))))"

section \<open>The functions of util.c\<close>

definition memory_map :: "u64 \<Rightarrow> u64 \<Rightarrow> u64 \<Rightarrow> u64 \<Rightarrow> u64 \<Rightarrow> kernel \<Rightarrow> (int \<times> kernel) result" where
  "memory_map kernel_end table virtual_address physical_address permissions k =
     ebind (vmiter_at (kmem k) table virtual_address) (\<lambda>it.
     ebind (try_map kernel_end physical_address permissions it k) (\<lambda>(r, _, k). Inr (r, k)))"

definition memory_virtual_to_physical :: "u64 \<Rightarrow> u64 \<Rightarrow> kernel \<Rightarrow> u64 result" where
  "memory_virtual_to_physical table virtual_address k =
     ebind (vmiter_at (kmem k) table virtual_address) (\<lambda>it. Inr (vm_pa (kmem k) it))"

definition memory_permissions :: "u64 \<Rightarrow> u64 \<Rightarrow> kernel \<Rightarrow> u64 result" where
  "memory_permissions table virtual_address k =
     ebind (vmiter_at (kmem k) table virtual_address) (\<lambda>it. Inr (vm_perm (kmem k) it))"

text \<open>The functions passed to \<open>memory_foreach\<close>; they ignore the result of \<open>memory_map\<close>.\<close>

type_synonym iteration_func = "u64 \<Rightarrow> u64 \<Rightarrow> kernel \<Rightarrow> (bool \<times> kernel) result"

definition map_to_nobody :: "u64 \<Rightarrow> iteration_func" where
  "map_to_nobody kernel_end table va k = ebind (memory_map kernel_end table va va 0 k) (\<lambda>(_, k). Inr (True, k))"

definition map_to_kernel_space :: "u64 \<Rightarrow> iteration_func" where
  "map_to_kernel_space kernel_end table va k =
     ebind (memory_map kernel_end table va va (PTE_P OR PTE_W) k) (\<lambda>(_, k). Inr (True, k))"

definition map_to_user_space :: "u64 \<Rightarrow> iteration_func" where
  "map_to_user_space kernel_end table va k =
     ebind (memory_map kernel_end table va va (PTE_P OR PTE_W OR PTE_U) k) (\<lambda>(_, k). Inr (True, k))"

text \<open>The iterator of \<open>memory_foreach\<close> stays where it is while the function changes the tables.\<close>

partial_function (option) foreach_loop :: "u64 \<Rightarrow> u64 \<Rightarrow> iteration_func \<Rightarrow> vmiter \<Rightarrow> kernel \<Rightarrow> kernel run" where
  "foreach_loop table upper_bound iter it k =
     (if it_va it < upper_bound then
        rbind (Some (iter table (it_va it) k)) (\<lambda>(ret, k).
        if \<not> ret then returns k
        else rbind (Some (it_add (kmem k) PAGESIZE it)) (\<lambda>it. foreach_loop table upper_bound iter it k))
      else returns k)"

definition memory_foreach :: "u64 \<Rightarrow> u64 \<Rightarrow> iteration_func \<Rightarrow> kernel \<Rightarrow> kernel run" where
  "memory_foreach table upper_bound iter k =
     rbind (Some (vmiter_at (kmem k) table 0)) (\<lambda>it. foreach_loop table upper_bound iter it k)"

section \<open>Pages that can be allocated\<close>

definition avail :: "u64 \<Rightarrow> kernel \<Rightarrow> u64 set" where
  "avail kernel_end k = {p. \<exists>i. free_page kernel_end k i \<and> p = of_nat i * PAGESIZE}"

definition pages_ok :: "kernel \<Rightarrow> bool" where
  "pages_ok k \<longleftrightarrow> length (pages k) = NPAGES"

text \<open>A set of pages whose first \<open>n\<close> follow each other, from \<open>lo\<close> on.\<close>

definition page_run :: "u64 \<Rightarrow> nat \<Rightarrow> u64 set \<Rightarrow> bool" where
  "page_run lo n A \<longleftrightarrow> (\<forall>i<n. lo + of_nat i * PAGESIZE \<in> A) \<and> (\<forall>p\<in>A. lo \<le> p)"

definition low_page :: "u64 \<Rightarrow> bool" where
  "low_page p \<longleftrightarrow> page_aligned p \<and> p < 0x100000000"

lemma low_page_next:
  assumes "low_page p" "low_page q" "p \<le> q" "p \<noteq> q"
  shows "p + PAGESIZE \<le> q"
proof -
  obtain i j where n: "unat p = 4096 * i" "unat q = 4096 * j"
    using assms(1,2) unfolding low_page_def page_aligned_nat dvd_def by blast
  have "unat p < 2 ^ 32" using assms(1) by (simp add: low_page_def word_less_nat_alt)
  then have "unat (p + PAGESIZE) = unat p + 4096" by (subst unat_plus_exact) (simp_all add: PAGESIZE_def)
  moreover have "unat p < unat q" using assms(3,4) by (simp add: word_le_nat_alt word_unat_eq_iff)
  ultimately show ?thesis using n by (simp add: word_le_nat_alt)
qed

lemma page_run_nat:
  assumes "page_run lo n A" "\<And>p. p \<in> A \<Longrightarrow> low_page p" "i < n"
  shows "unat (lo + of_nat i * PAGESIZE) = unat lo + 4096 * i"
  using assms(3)
proof (induction i)
  case (Suc i)
  then have "lo + of_nat i * PAGESIZE \<in> A" using assms(1) by (simp add: page_run_def)
  from assms(2) [OF this] have "unat (lo + of_nat i * PAGESIZE) < 2 ^ 32" by (simp add: low_page_def word_less_nat_alt)
  then have "unat (lo + of_nat i * PAGESIZE + PAGESIZE) = unat (lo + of_nat i * PAGESIZE) + 4096"
    by (subst unat_plus_exact) (simp_all add: PAGESIZE_def)
  then show ?case using Suc by (simp add: algebra_simps)
qed simp

lemma page_run_next:
  assumes "page_run lo (Suc n) A" "\<And>p. p \<in> A \<Longrightarrow> low_page p"
  shows "lo \<in> A" "page_run (lo + PAGESIZE) n (A - {lo})"
proof -
  show lo: "lo \<in> A" using assms(1) unfolding page_run_def by (elim conjE allE [of _ 0]) simp
  have "lo + PAGESIZE \<le> p" if "p \<in> A - {lo}" for p
    using that assms lo by (intro low_page_next) (auto simp: page_run_def)
  moreover have "lo + PAGESIZE + of_nat i * PAGESIZE \<in> A - {lo}" if "i < n" for i
  proof -
    have i: "lo + PAGESIZE + of_nat i * PAGESIZE = lo + of_nat (Suc i) * PAGESIZE" by (simp add: algebra_simps)
    have "unat (lo + of_nat (Suc i) * PAGESIZE) = unat lo + 4096 * Suc i" using that by (intro page_run_nat [OF assms]) simp_all
    then have "lo + of_nat (Suc i) * PAGESIZE \<noteq> lo" by auto
    moreover have "lo + of_nat (Suc i) * PAGESIZE \<in> A" using assms(1) that unfolding page_run_def by blast
    ultimately show ?thesis unfolding i by blast
  qed
  ultimately show "page_run (lo + PAGESIZE) n (A - {lo})" by (simp add: page_run_def)
qed

text \<open>Taking the first few pages leaves the rest of the run.\<close>

lemma page_run_initial:
  assumes "page_run lo (c + n) A" "\<And>p. p \<in> A \<Longrightarrow> low_page p" "finite N" "N \<subseteq> A" "card N \<le> c"
    and "\<And>p q. p \<in> N \<Longrightarrow> q \<in> A - N \<Longrightarrow> p < q"
  shows "\<exists>lo'. page_run lo' n (A - N)"
  using assms
proof (induction c arbitrary: lo A N)
  case 0
  then show ?case by (intro exI [of _ lo]) simp
next
  case (Suc c)
  show ?case
  proof (cases "N = {}")
    case True
    then show ?thesis using Suc.prems(1) by (intro exI [of _ lo]) (simp add: page_run_def)
  next
    case False
    have run: "page_run lo (Suc (c + n)) A" using Suc.prems(1) by simp
    note nxt = page_run_next [OF run Suc.prems(2)]
    have lo: "lo \<in> N"
    proof (rule ccontr)
      assume "lo \<notin> N"
      moreover obtain p where p: "p \<in> N" using False by blast
      ultimately have "p < lo" using Suc.prems(6) nxt(1) by blast
      moreover have "lo \<le> p" using run p Suc.prems(4) unfolding page_run_def by blast
      ultimately show False by simp
    qed
    have "A - {lo} - (N - {lo}) = A - N" using lo by blast
    moreover have "\<exists>lo'. page_run lo' n (A - {lo} - (N - {lo}))"
    proof (rule Suc.IH [OF nxt(2)])
      show "card (N - {lo}) \<le> c" using Suc.prems(3,5) lo by simp
    qed (use Suc.prems in \<open>auto simp: lo\<close>)
    ultimately show ?thesis by simp
  qed
qed

text \<open>What a client of a page allocator relies on: a page that was available is handed out and then is not, the first
one first, and only an allocator with nothing left returns 0.\<close>

locale page_source =
  fixes alloc :: "'s \<Rightarrow> u64 \<times> 's"
    and left :: "'s \<Rightarrow> u64 set"
    and ok :: "'s \<Rightarrow> bool"
  assumes alloc_ok: "ok s \<Longrightarrow> alloc s = (p, s') \<Longrightarrow> ok s'"
    and alloc_page: "ok s \<Longrightarrow> alloc s = (p, s') \<Longrightarrow> p \<noteq> 0 \<Longrightarrow> p \<in> left s \<and> left s' = left s - {p}"
    and alloc_first: "ok s \<Longrightarrow> alloc s = (p, s') \<Longrightarrow> p \<noteq> 0 \<Longrightarrow> q \<in> left s \<Longrightarrow> p \<le> q"
    and alloc_none: "ok s \<Longrightarrow> alloc s = (0, s') \<Longrightarrow> left s = {} \<and> s' = s"
    and left_finite: "ok s \<Longrightarrow> finite (left s)"
    and left_pages: "ok s \<Longrightarrow> p \<in> left s \<Longrightarrow> low_page p"
begin

lemma alloc_run:
  assumes "ok s" "page_run lo (Suc n) (left s)"
  shows "\<exists>s'. alloc s = (lo, s') \<and> page_run (lo + PAGESIZE) n (left s')"
proof -
  obtain p s' where a: "alloc s = (p, s')" by fastforce
  note run = page_run_next [OF assms(2) left_pages [OF assms(1)]]
  have "p \<noteq> 0" using alloc_none [OF assms(1)] a run(1) by (cases "p = 0") auto
  note p = alloc_page [OF assms(1) a this] alloc_first [OF assms(1) a this run(1)]
  then have "p = lo" using assms(2) unfolding page_run_def by (auto intro: order_antisym)
  then show ?thesis using a p run(2) by simp
qed

fun allocs :: "nat \<Rightarrow> 's \<Rightarrow> u64 list" where
  "allocs 0 s = []"
| "allocs (Suc n) s = (case alloc s of (p, s') \<Rightarrow> p # allocs n s')"

lemma allocs_distinct:
  "ok s \<Longrightarrow> n \<le> card (left s) \<Longrightarrow> distinct (allocs n s) \<and> set (allocs n s) \<subseteq> left s"
proof (induction n arbitrary: s)
  case (Suc n)
  obtain p s' where a: "alloc s = (p, s')" by fastforce
  have "p \<noteq> 0" using Suc.prems alloc_none [OF Suc.prems(1)] a by (cases "p = 0") auto
  with alloc_page [OF Suc.prems(1) a] have p: "p \<in> left s" "left s' = left s - {p}" by auto
  then have "n \<le> card (left s')" using Suc.prems left_finite by simp
  from Suc.IH [OF alloc_ok [OF Suc.prems(1) a] this] show ?case using a p by auto
qed simp

end

lemma page_address_inj: "i < NPAGES \<Longrightarrow> j < NPAGES \<Longrightarrow> of_nat i * PAGESIZE = of_nat j * PAGESIZE \<Longrightarrow> i = j"
  using page_address(1) by (metis mult_cancel2 numeral_neq_zero)

lemma kalloc_avail:
  assumes ok: "pages_ok k" and a: "kalloc kernel_end PAGESIZE k = (p, k')" and p: "p \<noteq> 0"
  shows "p \<in> avail kernel_end k" "avail kernel_end k' = avail kernel_end k - {p}" "pages_ok k'"
    "kmem k' = set_page p 0xCCCCCCCCCCCCCCCC (kmem k)"
proof -
  obtain i where i: "free_page kernel_end k i" "p = of_nat i * PAGESIZE"
    and k': "k' = k\<lparr>pages := (pages k)[i := pages k ! i + 1], kmem := set_page p 0xCCCCCCCCCCCCCCCC (kmem k)\<rparr>"
    by (rule kalloc_result [OF a p])
  show "p \<in> avail kernel_end k" using i unfolding avail_def by blast
  show "pages_ok k'" "kmem k' = set_page p 0xCCCCCCCCCCCCCCCC (kmem k)" using ok by (simp_all add: k' pages_ok_def)
  have used: "page_used k' j \<longleftrightarrow> page_used k j \<or> j = i" if "j < NPAGES" for j
    using i(1) ok that by (auto simp: page_used_def free_page_def k' pages_ok_def nth_list_update)
  then have "free_page kernel_end k' j \<longleftrightarrow> free_page kernel_end k j \<and> j \<noteq> i" for j
    by (auto simp: free_page_def)
  then show "avail kernel_end k' = avail kernel_end k - {p}"
    using i page_address_inj unfolding avail_def by (auto simp: free_page_def)
qed

lemma kalloc_none: "kalloc kernel_end PAGESIZE k = (0, k') \<Longrightarrow> avail kernel_end k = {} \<and> k' = k"
proof -
  assume a: "kalloc kernel_end PAGESIZE k = (0, k')"
  have nz: "of_nat i * PAGESIZE \<noteq> 0" if "free_page kernel_end k i" for i
    using that by (auto simp: free_page_def allocatable_physical_address_def reserved_physical_address_def PAGESIZE_def)
  have l: "kalloc_loop kernel_end 0 k = (0, k')" using a by (simp add: kalloc_def)
  have none: "find (free_page kernel_end k) [0..<NPAGES] = None"
  proof (rule ccontr)
    assume "find (free_page kernel_end k) [0..<NPAGES] \<noteq> None"
    then obtain i where i: "find (free_page kernel_end k) [0..<NPAGES] = Some i" by blast
    then have "free_page kernel_end k i" by (auto simp: find_Some_iff)
    then show False using nz l i by (simp add: kalloc_loop_result)
  qed
  then have "\<not> free_page kernel_end k i" for i by (auto simp: find_None_iff free_page_def)
  then show ?thesis using l none by (simp add: avail_def kalloc_loop_result)
qed

lemma avail_PAMASK: "p \<in> avail ke k \<Longrightarrow> p AND PTE_PAMASK = p"
  by (auto simp: avail_def free_page_def page_address(2))

lemma avail_low: "p \<in> avail ke k \<Longrightarrow> p < MEMSIZE_PHYSICAL \<and> PAGESIZE \<le> p"
  by (auto simp: avail_def free_page_def allocatable_physical_address_def reserved_physical_address_def)

lemma avail_low_page: "p \<in> avail ke k \<Longrightarrow> low_page p"
proof -
  assume p: "p \<in> avail ke k"
  have "p < 0x100000000" using avail_low [OF p] unfolding MEMSIZE_PHYSICAL_def by unat_arith
  then show ?thesis using PAMASK_page [OF avail_PAMASK [OF p]] by (simp add: low_page_def)
qed

text \<open>The search starts at the lowest page.\<close>

lemma kalloc_first:
  assumes "kalloc ke PAGESIZE k = (p, k')" "p \<noteq> 0" "q \<in> avail ke k"
  shows "p \<le> q"
proof -
  obtain j where j: "free_page ke k j" "q = of_nat j * PAGESIZE" using assms(3) by (auto simp: avail_def)
  have "kalloc_loop ke 0 k = (p, k')" using assms(1) by (simp add: kalloc_def)
  then obtain i where i: "find (free_page ke k) [0..<NPAGES] = Some i" "p = of_nat i * PAGESIZE"
    using assms(2) by (auto simp: kalloc_loop_result split: option.splits)
  have "i < NPAGES" "j < NPAGES" using i(1) j(1) by (auto simp: find_Some_iff free_page_def)
  moreover have "i \<le> j"
  proof (rule ccontr)
    assume "\<not> i \<le> j"
    then show False using i(1) j(1) by (fastforce simp: find_Some_iff)
  qed
  ultimately show ?thesis using page_address(1) i(2) j(2) by (simp add: word_le_nat_alt)
qed

lemma avail_finite: "finite (avail kernel_end k)"
proof -
  have "avail kernel_end k \<subseteq> (\<lambda>i. of_nat i * PAGESIZE) ` {..<NPAGES}" by (auto simp: avail_def free_page_def)
  then show ?thesis by (rule finite_subset) simp
qed

interpretation kernel_pages: page_source "kalloc kernel_end PAGESIZE" "avail kernel_end" pages_ok
proof
  fix k k' :: kernel and p
  assume ok: "pages_ok k"
  show "pages_ok k'" if a: "kalloc kernel_end PAGESIZE k = (p, k')"
  proof (cases "p = 0")
    case True
    then show ?thesis using kalloc_none [OF a [unfolded True]] ok by simp
  next
    case False
    show ?thesis by (rule kalloc_avail(3) [OF ok a False])
  qed
  show "p \<in> avail kernel_end k \<and> avail kernel_end k' = avail kernel_end k - {p}"
    if "kalloc kernel_end PAGESIZE k = (p, k')" "p \<noteq> 0"
    using kalloc_avail(1,2) [OF ok that] by simp
  show "p \<le> q" if "kalloc kernel_end PAGESIZE k = (p, k')" "p \<noteq> 0" "q \<in> avail kernel_end k" for q
    by (rule kalloc_first [OF that])
  show "low_page p" if "p \<in> avail kernel_end k" for p by (rule avail_low_page [OF that])
  show "avail kernel_end k = {} \<and> k' = k" if "kalloc kernel_end PAGESIZE k = (0, k')"
    by (rule kalloc_none [OF that])
  show "finite (avail kernel_end k)" by (rule avail_finite)
qed

section \<open>Adding the missing tables\<close>

text \<open>A page table whose pages cannot be handed out again.\<close>

definition table_ok :: "u64 \<Rightarrow> kernel \<Rightarrow> u64 \<Rightarrow> bool" where
  "table_ok kernel_end k root \<longleftrightarrow> pages_ok k \<and> wf_tables (kmem k) root \<and>
     tables (kmem k) root \<inter> avail kernel_end k = {}"

text \<open>The changes \<open>try_map\<close> makes: the table takes the available pages \<open>N\<close>, the first ones, and memory changes in the pages of the table
only.\<close>

definition grown :: "u64 \<Rightarrow> u64 \<Rightarrow> u64 set \<Rightarrow> kernel \<Rightarrow> kernel \<Rightarrow> bool" where
  "grown kernel_end root N k k' \<longleftrightarrow> N \<subseteq> avail kernel_end k \<and> avail kernel_end k' = avail kernel_end k - N \<and>
     (\<forall>p \<in> N. \<forall>q \<in> avail kernel_end k'. p < q) \<and> tables (kmem k') root = tables (kmem k) root \<union> N \<and>
     (\<forall>a. (\<forall>t \<in> tables (kmem k') root. \<not> in_page t a) \<longrightarrow> kmem k' a = kmem k a)"

lemma grown_trans: "grown ke root N k k1 \<Longrightarrow> grown ke root M k1 k2 \<Longrightarrow> grown ke root (N \<union> M) k k2"
  unfolding grown_def by (elim conjE, intro conjI) (simp_all, blast+)

lemma grown_refl: "grown ke root {} k k"
  by (simp add: grown_def)

text \<open>One turn of the loop.\<close>

lemma add_table:
  assumes ok: "table_ok ke k root" and s: "stage (kmem k) root va d = Some (t, q)" and d: "d < 3"
    and e: "kmem k (slot t va (3 - d)) AND PTE_P = 0" and a: "kalloc ke PAGESIZE k = (p, k1)" "p \<noteq> 0"
    and k2: "k2 = k1\<lparr>kmem := (set_page p 0 (kmem k1))(slot t va (3 - d) := p OR PTE_PWU)\<rparr>"
  shows "table_ok ke k2 root" "grown ke root {p} k k2" "mmu (kmem k2) root va' = mmu (kmem k) root va'"
    "stage (kmem k2) root va (Suc d) = Some (p, q)" "kmem k2 (slot p va l) = 0"
    "down (kmem k2) (it_of root va d t q) = Inr (it_of root va (Suc d) p q)"
proof -
  have pok: "pages_ok k" and wf: "wf_tables (kmem k) root" and apart: "tables (kmem k) root \<inter> avail ke k = {}"
    using ok by (simp_all add: table_ok_def)
  note av = kalloc_avail [OF pok a]
  have p: "p AND PTE_PAMASK = p" "p \<notin> tables (kmem k) root"
    using av(1) avail_PAMASK apart by blast+
  have m: "kmem k2 = with_table p t va (3 - d) (kmem k)"
    by (rule ext) (simp add: k2 av(4) with_table_def set_page_def)
  have av2: "avail ke k2 = avail ke k - {p}" "pages_ok k2"
    using av(2,3) by (simp_all add: k2 avail_def free_page_def page_used_def pages_ok_def)
  note w = with_table_wf [OF wf s d e p, folded m]
  show "table_ok ke k2 root" using av2 w(1,2) apart by (auto simp: table_ok_def)
  have "in_page t (slot t va (3 - d))"
    using wf stage_aligned [OF _ s] by (simp add: wf_tables_def slot_in_page)
  then show "grown ke root {p} k k2"
    using av(1) av2(1) w(1) tablesI [OF s] kalloc_first [OF a] by (auto simp: grown_def m with_table_def le_less)
  show "mmu (kmem k2) root va' = mmu (kmem k) root va'" by (rule w(3))
  show zero: "kmem k2 (slot p va l) = 0" for l unfolding m by (rule with_table_reads(2) [OF wf s p])
  show s2: "stage (kmem k2) root va (Suc d) = Some (p, q)"
    unfolding m with_table_stage [OF wf s d e p] by (simp add: same_path_def)
  have s1: "stage (kmem k2) root va d = Some (t, q)"
    unfolding m with_table_stage [OF wf s d e p] by (simp add: s)
  have s3: "stage (kmem k2) root va (Suc (Suc d)) = None"
    unfolding stage.simps(2) [of _ _ _ "Suc d"] s2 by (simp add: zero descends_def Let_def PTE_P_def)
  have "down_loop (kmem k2) (it_of root va d t q) = it_of root va (Suc d) p q"
    unfolding down_loop_step [OF s1] s2 by (simp only: option.case prod.case down_loop_step [OF s2] s3)
  then show "down (kmem k2) (it_of root va d t q) = Inr (it_of root va (Suc d) p q)"
    by (simp add: down_def it_of_def zero del: diff_Suc_1)
qed

text \<open>The walk for \<open>va\<close> meets no large page, no restriction of permissions above the leaf, and no entry beyond 4 GB.\<close>

definition plain_at :: "memory \<Rightarrow> u64 \<Rightarrow> u64 \<Rightarrow> bool" where
  "plain_at m root va \<longleftrightarrow> (\<forall>d t q. stage m root va d = Some (t, q) \<longrightarrow>
     q AND PTE_PWU = PTE_PWU \<and> m (slot t va (3 - d)) AND PTE_PAMASK < 0x100000000 \<and>
     (d < 3 \<longrightarrow> descends (3 - d) (m (slot t va (3 - d))) \<or> m (slot t va (3 - d)) AND PTE_P = 0))"

lemma plain_atD:
  assumes "plain_at m root va" "stage m root va d = Some (t, q)"
  shows "q AND PTE_PWU = PTE_PWU" "m (slot t va (3 - d)) AND PTE_PAMASK < 0x100000000"
    "d < 3 \<Longrightarrow> descends (3 - d) (m (slot t va (3 - d))) \<or> m (slot t va (3 - d)) AND PTE_P = 0"
  using assms unfolding plain_at_def by blast+

lemma add_table_plain:
  assumes ok: "table_ok ke k root" and s: "stage (kmem k) root va d = Some (t, q)" and d: "d < 3"
    and e: "kmem k (slot t va (3 - d)) AND PTE_P = 0" and a: "kalloc ke PAGESIZE k = (p, k1)" "p \<noteq> 0"
    and k2: "k2 = k1\<lparr>kmem := (set_page p 0 (kmem k1))(slot t va (3 - d) := p OR PTE_PWU)\<rparr>"
    and plain: "plain_at (kmem k) root va'"
  shows "plain_at (kmem k2) root va'"
proof -
  have pok: "pages_ok k" and wf: "wf_tables (kmem k) root" and apart: "tables (kmem k) root \<inter> avail ke k = {}"
    using ok by (simp_all add: table_ok_def)
  note av = kalloc_avail [OF pok a]
  have p: "p AND PTE_PAMASK = p" "p \<notin> tables (kmem k) root" using av(1) avail_PAMASK apart by blast+
  have low: "p < 0x100000000" using avail_low [OF av(1)] unfolding MEMSIZE_PHYSICAL_def by unat_arith
  have m: "kmem k2 = with_table p t va (3 - d) (kmem k)"
    by (rule ext) (simp add: k2 av(4) with_table_def set_page_def)
  show ?thesis
    unfolding plain_at_def
  proof (intro allI impI)
    fix d' t' q'
    assume s': "stage (kmem k2) root va' d' = Some (t', q')"
    show "q' AND PTE_PWU = PTE_PWU \<and> kmem k2 (slot t' va' (3 - d')) AND PTE_PAMASK < 0x100000000 \<and>
      (d' < 3 \<longrightarrow> descends (3 - d') (kmem k2 (slot t' va' (3 - d'))) \<or> kmem k2 (slot t' va' (3 - d')) AND PTE_P = 0)"
    proof (cases "d' = Suc d \<and> same_path (Suc d) va va'")
      case True
      then have t': "t' = p" "q' = q" using s' unfolding m with_table_stage [OF wf s d e p] by auto
      have "same_path d va va'" using True by (simp add: same_path_def)
      then have "stage (kmem k) root va' d = Some (t, q)" using s same_path_stage [of d va va'] by simp
      then have "q AND PTE_PWU = PTE_PWU" by (rule plain_atD(1) [OF plain])
      moreover have "kmem k2 (slot t' va' (3 - d')) = 0" unfolding m t' by (rule with_table_reads(2) [OF wf s p])
      ultimately show ?thesis using t' by simp
    next
      case False
      then have s0: "stage (kmem k) root va' d' = Some (t', q')"
        using s' unfolding m with_table_stage [OF wf s d e p] by (auto split: if_splits)
      note r = with_table_reads(1) [OF wf s p s0, folded m]
      show ?thesis using plain_atD [OF plain s0] r table_entry(1,2) [OF p(1)] low by auto
    qed
  qed
qed

text \<open>Tables that were there stay where they are, and plain walks stay plain.\<close>

definition extends :: "u64 \<Rightarrow> memory \<Rightarrow> memory \<Rightarrow> bool" where
  "extends root m m' \<longleftrightarrow> (\<forall>va d x. stage m root va d = Some x \<longrightarrow> stage m' root va d = Some x) \<and>
     (\<forall>va. plain_at m root va \<longrightarrow> plain_at m' root va)"

lemma extends_refl: "extends root m m"
  by (simp add: extends_def)

lemma extends_trans: "extends root m m1 \<Longrightarrow> extends root m1 m2 \<Longrightarrow> extends root m m2"
  by (simp add: extends_def)

lemma extends_plain: "extends root m m' \<Longrightarrow> plain_at m root va \<Longrightarrow> plain_at m' root va"
  by (simp add: extends_def)

lemma add_table_extends:
  assumes ok: "table_ok ke k root" and s: "stage (kmem k) root va d = Some (t, q)" and d: "d < 3"
    and e: "kmem k (slot t va (3 - d)) AND PTE_P = 0" and a: "kalloc ke PAGESIZE k = (p, k1)" "p \<noteq> 0"
    and k2: "k2 = k1\<lparr>kmem := (set_page p 0 (kmem k1))(slot t va (3 - d) := p OR PTE_PWU)\<rparr>"
  shows "extends root (kmem k) (kmem k2)"
  unfolding extends_def
proof (intro conjI allI impI)
  have pok: "pages_ok k" and wf: "wf_tables (kmem k) root" and apart: "tables (kmem k) root \<inter> avail ke k = {}"
    using ok by (simp_all add: table_ok_def)
  note av = kalloc_avail [OF pok a]
  have p: "p AND PTE_PAMASK = p" "p \<notin> tables (kmem k) root" using av(1) avail_PAMASK apart by blast+
  have m: "kmem k2 = with_table p t va (3 - d) (kmem k)"
    by (rule ext) (simp add: k2 av(4) with_table_def set_page_def)
  fix va' d' x
  assume s': "stage (kmem k) root va' d' = Some x"
  have "stage (kmem k) root va' (Suc d) = None" if "same_path (Suc d) va va'"
  proof -
    have "\<not> descends (3 - d) (kmem k (slot t va (3 - d)))" using e descends_present by (auto simp: PTE_P_def)
    then have "stage (kmem k) root va (Suc d) = None" using s by (simp add: Let_def)
    then show ?thesis using same_path_stage [OF that, of "kmem k" root] by simp
  qed
  then show "stage (kmem k2) root va' d' = Some x"
    unfolding m with_table_stage [OF wf s d e p] using s' by auto
next
  fix va'
  assume "plain_at (kmem k) root va'"
  then show "plain_at (kmem k2) root va'" by (rule add_table_plain [OF ok s d e a k2])
qed

lemma map_loop_ok:
  assumes "table_ok ke k root" "stage (kmem k) root va d = Some (t, q)" "stage (kmem k) root va (Suc d) = None"
    and "plain_at (kmem k) root va" "perm \<noteq> 0"
  shows "\<exists>ok it' k' N. map_loop ke perm (it_of root va d t q) k = Inr (ok, it', k') \<and> table_ok ke k' root \<and>
    grown ke root N k k' \<and> (\<forall>va'. mmu (kmem k') root va' = mmu (kmem k) root va') \<and>
    extends root (kmem k) (kmem k') \<and> card N \<le> 3 - d \<and>
    (if ok then \<exists>t'. stage (kmem k') root va 3 = Some (t', q) \<and> it' = it_of root va 3 t' q else avail ke k' = {})"
  using assms
proof (induction "3 - d" arbitrary: d t k rule: less_induct)
  case less
  let ?it = "it_of root va d t q"
  have at: "it_level ?it = 3 - d" "it_pep ?it = Some (slot t va (3 - d))" by (simp_all add: it_of_def)
  show ?case
  proof (cases "d < 3")
    case False
    then have "d = 3" using stage_upto3 [OF less(3)] by simp
    then have "map_loop ke perm ?it k = Inr (True, ?it, k)" by (subst map_loop.simps) (simp add: it_of_def)
    then show ?thesis using less(2,3) \<open>d = 3\<close> grown_refl extends_refl by auto
  next
    case True
    have "\<not> descends (3 - d) (kmem k (slot t va (3 - d)))" using less(3,4) by (auto simp: Let_def split: if_splits)
    then have e: "kmem k (slot t va (3 - d)) AND PTE_P = 0" using plain_atD(3) [OF less(5,3) True] by blast
    obtain p k1 where a: "kalloc ke PAGESIZE k = (p, k1)" by fastforce
    show ?thesis
    proof (cases "p = 0")
      case True
      then have "avail ke k = {}" "k1 = k" using kalloc_none a by auto
      moreover have "map_loop ke perm ?it k = Inr (False, ?it, k1)"
        using e a True less(6) \<open>d < 3\<close> by (subst map_loop.simps) (simp add: at c_assert_def)
      ultimately show ?thesis using less(2) grown_refl [of ke root k] extends_refl [of root "kmem k"]
        by (intro exI [of _ False] exI [of _ ?it] exI [of _ k] exI [of _ "{}"]) simp
    next
      case False
      define k2 where "k2 = k1\<lparr>kmem := (set_page p 0 (kmem k1))(slot t va (3 - d) := p OR PTE_PWU)\<rparr>"
      note add = add_table [OF less(2,3) True e a False k2_def]
        and ext = add_table_extends [OF less(2,3) True e a False k2_def]
      have loop: "map_loop ke perm ?it k = map_loop ke perm (it_of root va (Suc d) p q) k2"
        using e a False less(6) \<open>d < 3\<close> add(6) by (subst map_loop.simps) (simp add: at c_assert_def k2_def)
      have s2: "stage (kmem k2) root va (Suc (Suc d)) = None"
        unfolding stage.simps(2) [of _ _ _ "Suc d"] add(4) by (simp add: add(5) descends_def Let_def PTE_P_def)
      have "3 - Suc d < 3 - d" using True by simp
      from less(1) [OF this add(1,4) s2 extends_plain [OF ext less(5)] less(6)] obtain ok it' k' N
        where r: "map_loop ke perm (it_of root va (Suc d) p q) k2 = Inr (ok, it', k')" "table_ok ke k' root"
          "grown ke root N k2 k'" "\<forall>va'. mmu (kmem k') root va' = mmu (kmem k2) root va'"
          "extends root (kmem k2) (kmem k')"
          "if ok then \<exists>t'. stage (kmem k') root va 3 = Some (t', q) \<and> it' = it_of root va 3 t' q else avail ke k' = {}"
          "card N \<le> 3 - Suc d"
        by blast
      have mmu: "\<forall>va'. mmu (kmem k') root va' = mmu (kmem k) root va'" using r(4) add(3) by simp
      have card: "card ({p} \<union> N) \<le> 3 - d" using card_insert_le_m1 [of "3 - d" N p] r(7) True by simp
      show ?thesis unfolding loop
        by (rule exI [of _ ok], rule exI [of _ it'], rule exI [of _ k'], rule exI [of _ "{p} \<union> N"])
          (intro conjI r(1,2,6) mmu card extends_trans [OF ext r(5)] grown_trans [OF add(2) r(3)])
    qed
  qed
qed

section \<open>Mapping a page\<close>

lemma vmiter_at_plain:
  assumes "plain_at m root va" "va_is_canonical va"
  shows "\<exists>d t q. stage m root va d = Some (t, q) \<and> stage m root va (Suc d) = None \<and>
    vmiter_at m root va = Inr (it_of root va d t q)"
proof -
  have s: "stage m root va 0 = Some (root, initial_perm)" by (simp add: initial_perm_def)
  obtain d t q where e: "stage m root va d = Some (t, q)" "stage m root va (Suc d) = None"
    "down_loop m (it_of root va 0 root initial_perm) = it_of root va d t q" using down_loop_end [OF s] by blast
  have "entry_at m (it_pep (it_of root va d t q)) AND PTE_PAMASK < 0x100000000"
    using plain_atD(2) [OF assms(1) e(1)] by (simp add: it_of_def)
  then have "vmiter_at m root va = Inr (it_of root va d t q)"
    using assms(2) e(3) by (simp add: vmiter_at_start down_def Let_def not_le [symmetric])
  then show ?thesis using e(1,2) by blast
qed

lemma stage_perm_low: "stage m root va d = Some (t, q) \<Longrightarrow> q AND 0xFFF = q"
proof (induction d arbitrary: t q)
  case (Suc d)
  then obtain t' q' where s: "stage m root va d = Some (t', q')" and q: "q = below q' (m (slot t' va (3 - d)))"
    by (auto simp: Let_def split: option.splits if_splits)
  have "q AND 0xFFF = below (q' AND 0xFFF) (m (slot t' va (3 - d)))"
    unfolding q below_def by (simp only: ac_simps)
  then show ?case using Suc.IH [OF s] q by simp
qed simp

lemma leaf_perm:
  assumes "pa AND PTE_PAMASK = pa" "perm AND PTE_PWU = perm" "q AND 0xFFF = q" "q AND PTE_PWU = PTE_PWU"
  shows "(pa OR perm) AND q = perm" "perm AND PTE_PAMASK = 0"
proof -
  have "pa AND q = (pa AND q) AND (PTE_PAMASK AND 0xFFF)"
    by (subst assms(1) [symmetric], subst assms(3) [symmetric]) (simp only: ac_simps)
  moreover have "PTE_PAMASK AND 0xFFF = 0" by (simp add: PTE_PAMASK_def)
  ultimately have 1: "pa AND q = 0" by simp
  have "perm AND q = perm AND (q AND PTE_PWU)" by (subst assms(2) [symmetric]) (simp only: ac_simps)
  then have "perm AND q = perm" unfolding assms(4) assms(2) .
  with 1 show "(pa OR perm) AND q = perm" by (simp add: bit.conj_disj_distrib2)
  have "perm AND PTE_PAMASK = perm AND (PTE_PWU AND PTE_PAMASK)" by (subst assms(2) [symmetric]) (simp only: ac_simps)
  then show "perm AND PTE_PAMASK = 0" unfolding PAMASK_flags(1) by simp
qed

text \<open>Canonical addresses with the same four indices are in the same page.\<close>

lemma high_bits: "va_is_canonical va \<Longrightarrow> 47 \<le> n \<Longrightarrow> n < 64 \<Longrightarrow> bit va n = bit va 47"
proof -
  assume c: "va_is_canonical va" and n: "47 \<le> n" "n < 64"
  have "drop_bit 47 va = 0 \<or> drop_bit 47 va = mask 17"
  proof -
    have "unat va < 2 ^ 64" using unsigned_less [of va] by simp
    then have "unat va div 2 ^ 47 < 2 ^ 17" by (simp add: div_less_iff_less_mult)
    then have "unat (drop_bit 47 va) = 0 \<or> unat (drop_bit 47 va) = unat (mask 17 :: u64)"
      using c unfolding canonical_nat unat_drop by (auto simp: mask_numeral)
    then show ?thesis by (simp only: word_unat_eq_iff) simp
  qed
  moreover have "bit (mask 17 :: u64) (n - 47)" "bit (mask 17 :: u64) 0" using n by (simp_all add: bit_mask_iff, arith)
  ultimately have "bit (drop_bit 47 va) (n - 47) = bit (drop_bit 47 va) 0" by (elim disjE) (simp_all only: bit_0_eq bot_apply)
  then show ?thesis using n by (simp add: bit_simps)
qed

lemma same_page_iff:
  assumes "va_is_canonical va" "va_is_canonical va'"
  shows "same_path 4 va va' \<longleftrightarrow> drop_bit 12 va' = drop_bit 12 va"
proof
  assume "drop_bit 12 va' = drop_bit 12 va"
  then show "same_path 4 va va'" using agree_same_path [of 0 va va'] by simp
next
  assume p: "same_path 4 va va'"
  have low: "bit va n = bit va' n" if "12 \<le> n" "n < 48" for n
  proof -
    define l where "l = (n - 12) div 9"
    have l: "l \<le> 3" "n = 12 + l * 9 + (n - 12) mod 9" using that by (simp_all add: l_def)
    have "pageindex va (3 - (3 - l)) = pageindex va' (3 - (3 - l))" using p unfolding same_path_def by (elim allE [of _ "3 - l"]) simp
    then have "pageindex va l = pageindex va' l" using l by simp
    then have "bit (pageindex va l) ((n - 12) mod 9) = bit (pageindex va' l) ((n - 12) mod 9)" by simp
    moreover have "bit (pageindex x l) ((n - 12) mod 9) = bit x n" for x
    proof -
      have "pageindex x l = take_bit 9 (drop_bit (12 + l * 9) x)" by (simp add: pageindex_def take_bit_eq_mask mask_numeral del: drop_bit_eq_div)
      then show ?thesis using l(2) by (simp add: bit_take_bit_iff bit_drop_bit_eq add.commute del: take_bit_eq_mod drop_bit_eq_div) 
    qed
    ultimately show ?thesis by simp
  qed
  show "drop_bit 12 va' = drop_bit 12 va"
  proof (rule bit_word_eqI)
    fix n assume n: "n < LENGTH(64)"
    show "bit (drop_bit 12 va') n = bit (drop_bit 12 va) n"
    proof (cases "12 + n < 48")
      case True
      then show ?thesis using low [of "12 + n"] by (simp add: bit_simps)
    next
      case False
      show ?thesis
      proof (cases "12 + n < 64")
        case True
        then show ?thesis using False high_bits [OF assms(1), of "12 + n"] high_bits [OF assms(2), of "12 + n"] low [of 47]
          by (simp add: bit_simps)
      qed (auto simp: bit_simps dest: bit_imp_le_length)
    qed
  qed
qed

lemma try_map_present:
  assumes "it_va it mod PAGESIZE = 0" "pa AND PTE_PAMASK = pa" "perm AND PTE_PWU = perm" "perm AND PTE_P \<noteq> 0"
    and "it_perm it AND PTE_PWU = PTE_PWU"
  shows "try_map ke pa perm it k = ebind (map_loop ke perm it k) (\<lambda>(ok, it, k).
      if \<not> ok then Inr (-1, it, k)
      else if it_level it = 0 then
        (case it_pep it of
           None \<Rightarrow> Inl Bad_Access
         | Some pep \<Rightarrow> Inr (0, it, k\<lparr>kmem := (kmem k)(pep := pa OR perm)\<rparr>))
      else Inr (0, it, k))"
proof -
  have "pa \<noteq> -1" using assms(2) by (auto simp: PTE_PAMASK_def)
  moreover have "perm AND NOT (it_perm it) AND (PTE_P OR PTE_W OR PTE_U) = 0"
  proof -
    have pwu: "PTE_P OR PTE_W OR PTE_U = PTE_PWU" by (simp add: pte_defs)
    have "NOT (it_perm it) AND PTE_PWU = NOT (it_perm it) AND (it_perm it AND PTE_PWU)" unfolding assms(5) ..
    also have "\<dots> = 0" by (simp add: and.assoc [symmetric])
    finally show ?thesis unfolding pwu by (simp add: and.assoc)
  qed
  ultimately show ?thesis using assms(1,2,4) by (simp add: try_map_def c_assert_def Let_def)
qed

lemma leaf_plain:
  assumes "wf_tables m root" "stage m root va 3 = Some (t, q)" "plain_at m root va'" "e AND PTE_PAMASK < 0x100000000"
  shows "plain_at (m(slot t va 0 := e)) root va'"
  unfolding plain_at_def
proof (intro allI impI)
  fix d t' q'
  assume "stage (m(slot t va 0 := e)) root va' d = Some (t', q')"
  then have s: "stage m root va' d = Some (t', q')" unfolding leaf_store(1) [OF assms(1,2)] .
  have "d = 3" if "slot t' va' (3 - d) = slot t va 0" using wf_slot [OF assms(1,2) s] that by simp
  then show "q' AND PTE_PWU = PTE_PWU \<and> (m(slot t va 0 := e)) (slot t' va' (3 - d)) AND PTE_PAMASK < 0x100000000 \<and>
    (d < 3 \<longrightarrow> descends (3 - d) ((m(slot t va 0 := e)) (slot t' va' (3 - d))) \<or>
      (m(slot t va 0 := e)) (slot t' va' (3 - d)) AND PTE_P = 0)"
    using plain_atD [OF assms(3) s] assms(4) by auto
qed

text \<open>The last store of \<open>try_map\<close>.\<close>

lemma map_leaf_ok:
  assumes ok: "table_ok ke k root" and s: "stage (kmem k) root va 3 = Some (t, q)" and e: "e AND PTE_PAMASK < 0x100000000"
    and k': "k' = k\<lparr>kmem := (kmem k)(slot t va 0 := e)\<rparr>"
  shows "table_ok ke k' root" "grown ke root {} k k'" "avail ke k' = avail ke k"
    "extends root (kmem k) (kmem k')"
proof -
  have wf: "wf_tables (kmem k) root" using ok by (simp add: table_ok_def)
  note leaf = leaf_store [OF wf s, of e]
  have av: "avail ke k' = avail ke k" "pages_ok k' = pages_ok k"
    by (simp_all add: avail_def free_page_def page_used_def pages_ok_def k')
  show "avail ke k' = avail ke k" by (rule av(1))
  show "table_ok ke k' root" using ok leaf(2,3) av unfolding table_ok_def by (simp add: k')
  have "page_aligned root" using wf by (simp add: wf_tables_def)
  from slot_in_page [OF stage_aligned [OF this s], of va 0] show "grown ke root {} k k'"
    using leaf(2) tablesI [OF s] av by (auto simp: grown_def k')
  show "extends root (kmem k) (kmem k')"
    using leaf_plain [OF wf s _ e] leaf(1) by (simp add: extends_def k')
qed

lemma memory_map_ok:
  assumes ok: "table_ok ke k root" and plain: "plain_at (kmem k) root va"
    and va: "va_is_canonical va" "page_aligned va" and pa: "pa AND PTE_PAMASK = pa" "pa < 0x100000000"
    and perm: "perm AND PTE_PWU = perm" "perm AND PTE_P \<noteq> 0"
  shows "\<exists>r k' N. memory_map ke root va pa perm k = Inr (r, k') \<and> table_ok ke k' root \<and> grown ke root N k k' \<and>
    extends root (kmem k) (kmem k') \<and> card N \<le> 3 \<and> (stage (kmem k) root va 3 \<noteq> None \<longrightarrow> N = {}) \<and>
    (if r = 0 then
       (\<forall>va'. mmu (kmem k') root va' =
         (if drop_bit 12 va' = drop_bit 12 va then Some (pa + (va' AND 0xFFF), perm) else mmu (kmem k) root va'))
     else r = -1 \<and> avail ke k' = {} \<and> (\<forall>va'. mmu (kmem k') root va' = mmu (kmem k) root va'))"
proof -
  obtain d t q where s: "stage (kmem k) root va d = Some (t, q)" "stage (kmem k) root va (Suc d) = None"
    and it: "vmiter_at (kmem k) root va = Inr (it_of root va d t q)"
    using vmiter_at_plain [OF plain va(1)] by blast
  have q: "q AND PTE_PWU = PTE_PWU" "q AND 0xFFF = q" using plain_atD(1) [OF plain s(1)] stage_perm_low [OF s(1)] .
  have "perm \<noteq> 0" using perm(2) by auto
  from map_loop_ok [OF ok s plain this] obtain r it' k1 N where loop:
    "map_loop ke perm (it_of root va d t q) k = Inr (r, it', k1)" and k1: "table_ok ke k1 root" "grown ke root N k k1"
    "\<forall>va'. mmu (kmem k1) root va' = mmu (kmem k) root va'"
    "extends root (kmem k) (kmem k1)"
    "if r then \<exists>t'. stage (kmem k1) root va 3 = Some (t', q) \<and> it' = it_of root va 3 t' q else avail ke k1 = {}"
    and card: "card N \<le> 3 - d"
    by blast
  have N: "card N \<le> 3" using card by simp
  have N': "N = {}" if three: "stage (kmem k) root va 3 \<noteq> None"
  proof -
    have "\<not> Suc d \<le> 3" using three stage_earlier [of "kmem k" root va 3 _ "Suc d"] s(2) by auto
    moreover have "finite N" using k1(2) avail_finite finite_subset unfolding grown_def by blast
    ultimately show ?thesis using card by simp
  qed
  have tm: "try_map ke pa perm (it_of root va d t q) k = ebind (Inr (r, it', k1)) (\<lambda>(ok, it, k).
      if \<not> ok then Inr (-1, it, k)
      else if it_level it = 0 then
        (case it_pep it of
           None \<Rightarrow> Inl Bad_Access
         | Some pep \<Rightarrow> Inr (0, it, k\<lparr>kmem := (kmem k)(pep := pa OR perm)\<rparr>))
      else Inr (0, it, k))"
    using try_map_present [of "it_of root va d t q" pa perm ke k] va(2) pa(1) perm q(1) loop
    by (simp add: it_of_def page_aligned_def)
  show ?thesis
  proof (cases r)
    case False
    then have "memory_map ke root va pa perm k = Inr (-1, k1)"
      using it tm by (simp add: memory_map_def)
    then show ?thesis using k1 False N N' by (intro exI [of _ "-1"] exI [of _ k1] exI [of _ N]) simp
  next
    case True
    then obtain t' where t': "stage (kmem k1) root va 3 = Some (t', q)" "it' = it_of root va 3 t' q" using k1(5) by auto
    define k2 where "k2 = k1\<lparr>kmem := (kmem k1)(slot t' va 0 := pa OR perm)\<rparr>"
    have map: "memory_map ke root va pa perm k = Inr (0, k2)"
      using it tm True t'(2) by (simp add: memory_map_def it_of_def k2_def)
    have wf: "wf_tables (kmem k1) root" using k1(1) by (simp add: table_ok_def)
    note leaf = leaf_store(4,5) [OF wf t'(1), of _ "pa OR perm"]
    note e = leaf_perm [OF pa(1) perm(1) q(2,1)]
    note e' = leaf_entry [OF pa(1) e(2)]
    have mem2: "kmem k2 = (kmem k1)(slot t' va 0 := pa OR perm)" by (simp add: k2_def)
    note k2 = map_leaf_ok [OF k1(1) t'(1) _ k2_def, unfolded e'(1), OF pa(2)]
    have "mmu (kmem k2) root va' =
      (if drop_bit 12 va' = drop_bit 12 va then Some (pa + (va' AND 0xFFF), perm) else mmu (kmem k) root va')" for va'
    proof (cases "va_is_canonical va'")
      case True
      have "pageoffmask 0 = 0xFFF" by (simp add: pageoffmask_mask mask_numeral)
      then show ?thesis
        using same_page_iff [OF va(1) True] leaf [of va'] True perm(2) e e' k1(3) unfolding mem2 by auto
    next
      case False
      then have "drop_bit 12 va' \<noteq> drop_bit 12 va" using canonical_agree [of 0 va' va] va(1) by auto
      then show ?thesis using False by (simp add: mmu_def)
    qed
    moreover have "grown ke root N k k2" using grown_trans [OF k1(2) k2(2)] by simp
    ultimately show ?thesis using map k2(1) extends_trans [OF k1(4) k2(4)] N N' by (intro exI [of _ 0] exI [of _ k2] exI [of _ N]) simp
  qed
qed

text \<open>A mapped address on a plain walk is mapped by a leaf of the lowest level.\<close>

lemma mapped_stage:
  assumes plain: "plain_at m root va" and mapped: "mmu m root va \<noteq> None"
  shows "stage m root va 3 \<noteq> None"
proof -
  have c: "va_is_canonical va" using mapped by (auto simp: mmu_def split: if_splits)
  obtain d t q where s: "stage m root va d = Some (t, q)" "stage m root va (Suc d) = None"
    using vmiter_at_plain [OF plain c] by blast
  have "d = 3"
  proof (rule ccontr)
    assume "d \<noteq> 3"
    then have d: "d < 3" using stage_upto3 [OF s(1)] by simp
    have "\<not> descends (3 - d) (m (slot t va (3 - d)))" using s by (auto simp: Let_def split: if_splits)
    then have "m (slot t va (3 - d)) AND PTE_P = 0" using plain_atD(3) [OF plain s(1) d] by blast
    then show False using mmu_end [OF s c] mapped by (simp add: Let_def)
  qed
  then show ?thesis using s(1) by simp
qed

end
