(* ===== verification/AddressSpace.thy ===== *)
theory AddressSpace
  imports PageMap
begin

text \<open>
  Building an address space with the functions of \<open>project04a-wduan/util.c\<close>: the loop of \<open>memory_foreach\<close>, whose
  iterator stays in place while the function it calls changes the tables, and taking a mapping away.
\<close>

section \<open>Taking a mapping away\<close>

lemma memory_unmap_ok:
  assumes ok: "table_ok ke k root" and plain: "plain_at (kmem k) root va"
    and va: "va_is_canonical va" "page_aligned va" and pa: "pa AND PTE_P = 0" "pa AND PTE_PAMASK < 0x100000000" "pa \<noteq> -1"
  shows "\<exists>k'. memory_map ke root va pa 0 k = Inr (0, k') \<and> table_ok ke k' root \<and> grown ke root {} k k' \<and>
    extends root (kmem k) (kmem k') \<and>
    (\<forall>va'. mmu (kmem k') root va' = (if drop_bit 12 va' = drop_bit 12 va then None else mmu (kmem k) root va'))"
proof -
  obtain d t q where s: "stage (kmem k) root va d = Some (t, q)" "stage (kmem k) root va (Suc d) = None"
    and it: "vmiter_at (kmem k) root va = Inr (it_of root va d t q)"
    using vmiter_at_plain [OF plain va(1)] by blast
  have loop: "map_loop ke 0 (it_of root va d t q) k = Inr (True, it_of root va d t q, k)"
    by (subst map_loop.simps) simp
  define k' where "k' = (if d = 3 then k\<lparr>kmem := (kmem k)(slot t va 0 := pa)\<rparr> else k)"
  have "try_map ke pa 0 (it_of root va d t q) k = Inr (0, it_of root va d t q, k')"
    using va(2) pa(1,3) loop stage_upto3 [OF s(1)]
    by (auto simp: try_map_def c_assert_def Let_def it_of_def page_aligned_def k'_def)
  then have map: "memory_map ke root va pa 0 k = Inr (0, k')" using it by (simp add: memory_map_def)
  have page: "drop_bit 12 va' \<noteq> drop_bit 12 va" if "\<not> va_is_canonical va'" for va'
    using canonical_agree [of 0 va' va] va(1) that by auto
  show ?thesis
  proof (cases "d = 3")
    case True
    have wf: "wf_tables (kmem k) root" using ok by (simp add: table_ok_def)
    have s3: "stage (kmem k) root va 3 = Some (t, q)" and k': "k' = k\<lparr>kmem := (kmem k)(slot t va 0 := pa)\<rparr>"
      using s(1) True by (simp_all add: k'_def)
    note leaf = leaf_store(4,5) [OF wf s3, of _ pa]
    have "mmu (kmem k') root va' = (if drop_bit 12 va' = drop_bit 12 va then None else mmu (kmem k) root va')" for va'
      using same_page_iff [OF va(1), of va'] leaf [of va'] pa(1) page [of va']
      by (cases "va_is_canonical va'") (auto simp: k' mmu_def)
    then show ?thesis using map map_leaf_ok(1,2,4) [OF ok s3 pa(2) k'] by blast
  next
    case False
    then have d: "d < 3" "k' = k" using stage_upto3 [OF s(1)] by (simp_all add: k'_def)
    have "\<not> descends (3 - d) (kmem k (slot t va (3 - d)))" using s by (auto simp: Let_def split: if_splits)
    then have e: "kmem k (slot t va (3 - d)) AND PTE_P = 0" using plain_atD(3) [OF plain s(1) d(1)] by blast
    have "mmu (kmem k) root va' = None" if "drop_bit 12 va' = drop_bit 12 va" for va'
    proof -
      have c: "va_is_canonical va'" using page that by blast
      have "same_path 4 va va'" using same_page_iff [OF va(1) c] that by blast
      then have p: "same_path d va va'" "same_path (Suc d) va va'" using d(1) by (simp_all add: same_path_def)
      then have "slot t va (3 - d) = slot t va' (3 - d)" by (simp add: same_path_def slot_def)
      then have e': "kmem k (slot t va' (3 - d)) AND PTE_P = 0" using e by simp
      have s': "stage (kmem k) root va' d = Some (t, q)" "stage (kmem k) root va' (Suc d) = None"
        using s same_path_stage [OF p(1), of "kmem k" root] same_path_stage [OF p(2), of "kmem k" root] by (simp_all only:)
      show ?thesis unfolding mmu_end [OF s' c] using e' by (simp add: Let_def)
    qed
    then show ?thesis using map ok grown_refl extends_refl d(2) by (intro exI [of _ k]) auto
  qed
qed

section \<open>The identity mapping\<close>

text \<open>The address space in which the addresses below \<open>upper\<close> mean themselves, with the permissions \<open>perm\<close>.\<close>

definition identity_below :: "u64 \<Rightarrow> u64 \<Rightarrow> (u64 \<Rightarrow> (u64 \<times> u64) option) \<Rightarrow> u64 \<Rightarrow> (u64 \<times> u64) option" where
  "identity_below upper perm f va = (if va < upper then Some (va, perm) else f va)"

lemma page_split:
  assumes "page_aligned va" "va < 0x100000000"
  shows "drop_bit 12 va' = drop_bit 12 va \<longleftrightarrow> va \<le> va' \<and> va' < va + PAGESIZE"
    and "drop_bit 12 va' = drop_bit 12 va \<Longrightarrow> va + (va' AND 0xFFF) = va'"
proof -
  obtain n where n: "unat va = 4096 * n" using assms(1) by (auto simp: page_aligned_nat)
  have low: "unat va < 2 ^ 32" using assms(2) by (simp add: word_less_nat_alt)
  have next_page: "unat (va + PAGESIZE) = unat va + 4096"
    using low by (subst unat_plus_exact) (simp_all add: PAGESIZE_def)
  have div: "drop_bit 12 va' = drop_bit 12 va \<longleftrightarrow> unat va' div 4096 = n"
    using n unat_drop [of 12 va'] unat_drop [of 12 va] by (simp only: word_unat_eq_iff) simp
  also have "\<dots> \<longleftrightarrow> 4096 * n \<le> unat va' \<and> unat va' < 4096 * n + 4096" by (auto simp: div_nat_eqI)
  finally show "drop_bit 12 va' = drop_bit 12 va \<longleftrightarrow> va \<le> va' \<and> va' < va + PAGESIZE"
    using n next_page by (simp only: word_le_nat_alt word_less_nat_alt)
  have m: "unat (va' AND 0xFFF) = unat va' mod 4096"
  proof -
    have "va' AND 0xFFF = take_bit 12 va'" by (simp add: take_bit_eq_mask mask_numeral)
    then have "unat (va' AND 0xFFF) = take_bit 12 (unat va')" by (simp only: unsigned_take_bit_eq)
    then show ?thesis by (simp add: take_bit_eq_mod)
  qed
  show "va + (va' AND 0xFFF) = va'" if "drop_bit 12 va' = drop_bit 12 va"
  proof -
    have "unat va' = 4096 * n + unat va' mod 4096" using that unfolding div by (metis mult_div_mod_eq)
    then show ?thesis using n low m by (simp only: word_unat_eq_iff) (subst unat_plus_exact, simp_all)
  qed
qed

text \<open>An iterator that waits while tables are added is still on its walk.\<close>

lemma on_walk_extends: "on_walk m root it \<Longrightarrow> extends root m m' \<Longrightarrow> on_walk m' root it"
  unfolding on_walk_def extends_def by blast

lemma low_canonical: "va < 0x100000000 \<Longrightarrow> va_is_canonical va"
  unfolding va_is_canonical_def VA_LOWMAX_def by unat_arith

lemma low_PAMASK: "page_aligned va \<Longrightarrow> va < 0x100000000 \<Longrightarrow> va AND PTE_PAMASK = va"
proof -
  assume va: "page_aligned va" "va < 0x100000000"
  obtain n where n: "unat va = 4096 * n" using va(1) by (auto simp: page_aligned_nat)
  have "va = push_bit 12 (drop_bit 12 va)"
    by (simp only: word_unat_eq_iff push_bit_eq_mult)
      (use n va(2) in \<open>subst unat_times_exact; simp only: unat_drop; simp add: word_less_nat_alt\<close>)
  moreover have "drop_bit 12 va AND mask 40 = drop_bit 12 va"
  proof -
    have "unat (drop_bit 12 va) < 2 ^ 40" using va(2) by (simp only: unat_drop) (simp add: word_less_nat_alt)
    then have "take_bit 40 (drop_bit 12 va) = drop_bit 12 va"
      by (simp only: word_unat_eq_iff unsigned_take_bit_eq take_bit_nat_eq_self)
    then show ?thesis by (simp only: take_bit_eq_mask)
  qed
  moreover have "PTE_PAMASK = push_bit 12 (mask 40)" by (simp add: PTE_PAMASK_def mask_numeral)
  ultimately show ?thesis by (metis push_bit_and)
qed

lemma map_to_kernel_space_ok:
  assumes ok: "table_ok ke k root" and plain: "plain_at (kmem k) root va"
    and va: "page_aligned va" "va < 0x100000000"
  shows "\<exists>k' N. map_to_kernel_space ke root va k = Inr (True, k') \<and> table_ok ke k' root \<and> grown ke root N k k' \<and>
    extends root (kmem k) (kmem k') \<and> card N \<le> 3 \<and> (stage (kmem k) root va 3 \<noteq> None \<longrightarrow> N = {}) \<and>
    (avail ke k' \<noteq> {} \<longrightarrow> stage (kmem k') root va 3 \<noteq> None) \<and>
    (avail ke k' \<noteq> {} \<longrightarrow> (\<forall>va'. mmu (kmem k') root va' =
       (if va \<le> va' \<and> va' < va + PAGESIZE then Some (va', PTE_P OR PTE_W) else mmu (kmem k) root va')))"
proof -
  have perm: "(PTE_P OR PTE_W) AND PTE_PWU = PTE_P OR PTE_W" "(PTE_P OR PTE_W) AND PTE_P \<noteq> 0" by (simp_all add: pte_defs)
  from memory_map_ok [OF ok plain low_canonical [OF va(2)] va(1) low_PAMASK [OF va] va(2) perm]
  obtain r k' N where r: "memory_map ke root va va (PTE_P OR PTE_W) k = Inr (r, k')" "table_ok ke k' root" "grown ke root N k k'"
    "extends root (kmem k) (kmem k')" and N: "card N \<le> 3" "stage (kmem k) root va 3 \<noteq> None \<longrightarrow> N = {}"
    and r': "if r = 0 then
       (\<forall>va'. mmu (kmem k') root va' =
         (if drop_bit 12 va' = drop_bit 12 va then Some (va + (va' AND 0xFFF), PTE_P OR PTE_W) else mmu (kmem k) root va'))
     else r = -1 \<and> avail ke k' = {} \<and> (\<forall>va'. mmu (kmem k') root va' = mmu (kmem k) root va')" by blast
  have r'_at: "mmu (kmem k') root va = Some (va + (va AND 0xFFF), PTE_P OR PTE_W)" if "avail ke k' \<noteq> {}"
    using r' that by (metis (full_types))
  have "map_to_kernel_space ke root va k = Inr (True, k')" using r(1) by (simp add: map_to_kernel_space_def)
  moreover have "mmu (kmem k') root va' =
       (if va \<le> va' \<and> va' < va + PAGESIZE then Some (va', PTE_P OR PTE_W) else mmu (kmem k) root va')"
    if "avail ke k' \<noteq> {}" for va'
  proof -
    have "r = 0" using that r' by (metis (full_types))
    then show ?thesis using r' page_split [OF va, of va'] by auto
  qed
  moreover have "stage (kmem k') root va 3 \<noteq> None" if "avail ke k' \<noteq> {}"
  proof (rule mapped_stage)
    show "plain_at (kmem k') root va" using extends_plain [OF r(4) plain] .
    show "mmu (kmem k') root va \<noteq> None" unfolding r'_at [OF that] by simp
  qed
  ultimately show ?thesis using r(2,3,4) N by blast
qed

lemma next_page:
  assumes "page_aligned va" "page_aligned upper" "va < upper" "upper < 0x100000000"
  shows "va < va + PAGESIZE" "va + PAGESIZE \<le> upper" "page_aligned (va + PAGESIZE)"
    "unat (va + PAGESIZE) = unat va + 4096"
proof -
  have low: "unat va < 2 ^ 32" using assms(3,4) by (simp add: word_less_nat_alt)
  show n: "unat (va + PAGESIZE) = unat va + 4096"
    using low by (subst unat_plus_exact) (simp_all add: PAGESIZE_def)
  obtain i j where "unat va = 4096 * i" "unat upper = 4096 * j"
    using assms(1,2) unfolding page_aligned_nat dvd_def by blast
  then show "va < va + PAGESIZE" "va + PAGESIZE \<le> upper" "page_aligned (va + PAGESIZE)"
    using n assms(3) by (simp_all add: word_less_nat_alt word_le_nat_alt page_aligned_nat)
qed

text \<open>Addresses below 2 MB share one table of the lowest level.\<close>

lemma low_same_table:
  assumes "va < 0x200000" "i < 3"
  shows "pageindex va (3 - i) = 0"
proof -
  have "unat va < 2 ^ 21" using assms(1) by (simp add: word_less_nat_alt)
  moreover have "(2::nat) ^ 21 \<le> 2 ^ (12 + (3 - i) * 9)" using assms(2) by (intro power_increasing) simp_all
  ultimately have "unat va div 2 ^ (12 + (3 - i) * 9) = 0" by simp
  then have "unat (pageindex va (3 - i)) = 0" by (simp add: unat_pageindex)
  then show ?thesis by (simp only: unat_eq_zero)
qed

text \<open>The loop: what is mapped when the iterator stands at \<open>va\<close>.\<close>

lemma foreach_identity:
  assumes "table_ok ke k root" "\<forall>va\<le>upper. plain_at (kmem k) root va" "on_walk (kmem k) root it"
    and "page_aligned (it_va it)" "it_va it \<le> upper" "page_aligned upper" "upper \<le> 0x200000"
  shows "\<exists>k' N. foreach_loop root upper (map_to_kernel_space ke) it k = returns k' \<and> table_ok ke k' root \<and>
    grown ke root N k k' \<and> extends root (kmem k) (kmem k') \<and>
    card N \<le> 3 \<and> (stage (kmem k) root (it_va it) 3 \<noteq> None \<longrightarrow> N = {}) \<and>
    (avail ke k' \<noteq> {} \<longrightarrow> (\<forall>va'. mmu (kmem k') root va' =
       (if it_va it \<le> va' \<and> va' < upper then Some (va', PTE_P OR PTE_W) else mmu (kmem k) root va')))"
  using assms
proof (induction "unat upper - unat (it_va it)" arbitrary: k it rule: less_induct)
  case less
  show ?case
  proof (cases "it_va it < upper")
    case False
    then have "it_va it = upper" using less(6) by simp
    then show ?thesis using less(2) grown_refl [of ke root k] extends_refl [of root "kmem k"]
      by (subst foreach_loop.simps) (auto simp: returns_def intro!: exI [of _ k] exI [of _ "{}"])
  next
    case True
    let ?va = "it_va it"
    have up: "upper < 0x100000000" using less(8) by unat_arith
    have low: "?va < 0x100000000" using True up by simp
    obtain k1 N where k1: "map_to_kernel_space ke root ?va k = Inr (True, k1)" "table_ok ke k1 root" "grown ke root N k k1"
      "extends root (kmem k) (kmem k1)" and card: "card N \<le> 3" "stage (kmem k) root ?va 3 \<noteq> None \<Longrightarrow> N = {}"
      and there: "avail ke k1 \<noteq> {} \<Longrightarrow> stage (kmem k1) root ?va 3 \<noteq> None"
      and map1: "avail ke k1 \<noteq> {} \<Longrightarrow> mmu (kmem k1) root va' =
       (if ?va \<le> va' \<and> va' < ?va + PAGESIZE then Some (va', PTE_P OR PTE_W) else mmu (kmem k) root va')" for va'
      using map_to_kernel_space_ok [OF less(2) _ less(5) low] less(3) True by (metis less_imp_le)
    have plain1: "\<forall>va\<le>upper. plain_at (kmem k1) root va" using less(3) extends_plain [OF k1(4)] by blast
    note step = next_page [OF less(5,7) True up]
    have root: "page_aligned root" using less(2) by (simp add: table_ok_def wf_tables_def)
    have "it_add (kmem k1) PAGESIZE it = vmiter_at (kmem k1) root (?va + PAGESIZE)"
      using real_find_fresh [OF on_walk_extends [OF less(4) k1(4)] root] by (simp add: it_add_def it_find_def)
    moreover have "va_is_canonical (?va + PAGESIZE)" by (rule low_canonical) (use step(2) up in simp)
    from vmiter_at_plain [OF _ this, of "kmem k1" root] plain1 step(2) obtain it' where
      "vmiter_at (kmem k1) root (?va + PAGESIZE) = Inr it'" by blast
    ultimately have it': "it_add (kmem k1) PAGESIZE it = Inr it'" "on_walk (kmem k1) root it'" "it_va it' = ?va + PAGESIZE"
      using vmiter_at_end at_end_on_walk by auto
    have "unat upper - unat (it_va it') < unat upper - unat ?va" using it'(3) step(4) True by (simp add: word_less_nat_alt)
    from less(1) [OF this k1(2) plain1 it'(2)] it'(3) step(2,3) less(7,8) obtain k' M where
      k': "foreach_loop root upper (map_to_kernel_space ke) it' k1 = returns k'" "table_ok ke k' root" "grown ke root M k1 k'"
      "extends root (kmem k1) (kmem k')" and card': "card M \<le> 3" "stage (kmem k1) root (?va + PAGESIZE) 3 \<noteq> None \<Longrightarrow> M = {}"
      and map': "avail ke k' \<noteq> {} \<Longrightarrow> mmu (kmem k') root va' =
       (if ?va + PAGESIZE \<le> va' \<and> va' < upper then Some (va', PTE_P OR PTE_W) else mmu (kmem k1) root va')" for va'
      by auto
    have loop: "foreach_loop root upper (map_to_kernel_space ke) it k = returns k'"
      using True k1(1) it'(1) k'(1) by (subst foreach_loop.simps) simp
    have "mmu (kmem k') root va' = (if ?va \<le> va' \<and> va' < upper then Some (va', PTE_P OR PTE_W) else mmu (kmem k) root va')"
      if "avail ke k' \<noteq> {}" for va'
    proof -
      have "avail ke k1 \<noteq> {}" using that k'(3) by (auto simp: grown_def)
      from map1 [OF this, of va'] map' [OF that, of va'] show ?thesis using step(1,2) by auto
    qed
    moreover have "M = {}"
    proof (cases "avail ke k1 = {}")
      case True
      then show ?thesis using k'(3) by (simp add: grown_def)
    next
      case False
      show ?thesis
      proof (cases "?va + PAGESIZE < upper")
        case True
        then have "same_path 3 ?va (?va + PAGESIZE)" using low_same_table [of ?va] low_same_table [of "?va + PAGESIZE"] step(1) less(8)
          by (simp add: same_path_def)
        then show ?thesis using card'(2) there [OF False] same_path_stage by metis
      next
        case False
        then have "it_va it' = upper" using step(2) it'(3) by simp
        then have "k' = k1" using k'(1) by (simp add: foreach_loop.simps)
        then show ?thesis using k'(3) by (auto simp: grown_def)
      qed
    qed
    ultimately show ?thesis using loop k'(2) grown_trans [OF k1(3) k'(3)] extends_trans [OF k1(4) k'(4)] card
      by (intro exI [of _ k'] exI [of _ N]) simp
  qed
qed

end
