(* ===== verification/ProgramImage.thy ===== *)
theory ProgramImage
  imports Runs
begin

text \<open>
  The program images that the build links into the kernel (\<open>project04a-wduan/k-hardware.cc\<close>, \<open>elf.h\<close>): looking an image
  up by name, and the iterator over its loadable segments. The images themselves, with the headers and the bytes of their
  ELF files, are an argument.
\<close>

section \<open>ELF files\<close>

record elf_program =
  p_type :: u32
  p_flags :: u32
  p_offset :: u64
  p_va :: u64
  p_filesz :: u64
  p_memsz :: u64

text \<open>An image: what the kernel reads of its header, the program headers at \<open>e_phoff\<close>, and the byte at each offset.\<close>

record elf_image =
  e_magic :: u32
  e_entry :: u64
  e_programs :: "elf_program list"
  e_byte :: "u64 \<Rightarrow> u8"

record ramimage =
  ram_name :: string
  ram_elf :: elf_image

definition ELF_MAGIC :: u32 where "ELF_MAGIC = 0x464C457F"
definition ELF_PTYPE_LOAD :: u32 where "ELF_PTYPE_LOAD = 1"

section \<open>Finding an image\<close>

fun program_number_from :: "nat \<Rightarrow> ramimage list \<Rightarrow> string \<Rightarrow> int" where
  "program_number_from i [] program_name = -1"
| "program_number_from i (r # rs) program_name =
     (if strcmp program_name (ram_name r) = 0 then int i else program_number_from (i + 1) rs program_name)"

definition program_number :: "ramimage list \<Rightarrow> string \<Rightarrow> int" where
  "program_number ramimages program_name = program_number_from 0 ramimages program_name"

text \<open>The pointer \<open>elf_\<close> of a \<open>program_image\<close>; \<open>None\<close> is \<open>nullptr\<close>.\<close>

definition numbered_image :: "ramimage list \<Rightarrow> int \<Rightarrow> elf_image option result" where
  "numbered_image ramimages number =
     (if 0 \<le> number \<and> nat number < length ramimages then
        let elf = ram_elf (ramimages ! nat number) in
        ebind (c_assert (e_magic elf = ELF_MAGIC)) (\<lambda>_. Inr (Some elf))
      else Inr None)"

definition program_image :: "ramimage list \<Rightarrow> string \<Rightarrow> elf_image option result" where
  "program_image ramimages program_name = numbered_image ramimages (program_number ramimages program_name)"

definition image_entry :: "elf_image option \<Rightarrow> u64" where
  "image_entry elf = (case elf of None \<Rightarrow> 0 | Some elf \<Rightarrow> e_entry elf)"

definition image_empty :: "elf_image option \<Rightarrow> bool" where
  "image_empty elf = (case elf of None \<Rightarrow> True | Some elf \<Rightarrow> e_programs elf = [])"

section \<open>The loadable segments\<close>

text \<open>The iterator is an index of the program headers.\<close>

function segment_fix :: "elf_program list \<Rightarrow> nat \<Rightarrow> nat" where
  "segment_fix phs i = (if i < length phs \<and> p_type (phs ! i) \<noteq> ELF_PTYPE_LOAD then segment_fix phs (i + 1) else i)"
  by auto
termination by (relation "measure (\<lambda>(phs, i). length phs - i)") auto

declare segment_fix.simps [simp del]

definition programs_of :: "elf_image option \<Rightarrow> elf_program list" where
  "programs_of elf = (case elf of None \<Rightarrow> [] | Some elf \<Rightarrow> e_programs elf)"

definition segment_begin :: "elf_image option \<Rightarrow> nat" where
  "segment_begin elf = segment_fix (programs_of elf) 0"

definition segment_end :: "elf_image option \<Rightarrow> nat" where
  "segment_end elf = length (programs_of elf)"

definition segment_next :: "elf_image option \<Rightarrow> nat \<Rightarrow> nat result" where
  "segment_next elf i = ebind (c_assert (i \<noteq> segment_end elf)) (\<lambda>_. Inr (segment_fix (programs_of elf) (i + 1)))"

text \<open>What the kernel sees of a segment: its address and size, and the bytes of its data.\<close>

record segment =
  seg_va :: u64
  seg_size :: u64
  seg_data :: "u8 list"

definition segment_at :: "elf_image option \<Rightarrow> nat \<Rightarrow> segment" where
  "segment_at elf i =
     (let ph = programs_of elf ! i in
      \<lparr>seg_va = p_va ph, seg_size = p_memsz ph,
       seg_data = map (\<lambda>j. e_byte (the elf) (p_offset ph + of_nat j)) [0..<unat (p_filesz ph)]\<rparr>)"

text \<open>The segments that a loop from \<open>begin()\<close> to \<open>end()\<close> visits.\<close>

lemma segment_fix_bounds: "i \<le> length phs \<Longrightarrow> i \<le> segment_fix phs i \<and> segment_fix phs i \<le> length phs"
proof (induction phs i rule: segment_fix.induct)
  case (1 phs i)
  then show ?case by (subst (1 2) segment_fix.simps) auto
qed

function segments_from :: "elf_image option \<Rightarrow> nat \<Rightarrow> segment list result" where
  "segments_from elf i =
     (if i = segment_end elf then Inr []
      else if i < segment_end elf then
        ebind (segment_next elf i) (\<lambda>j. ebind (segments_from elf j) (\<lambda>segs. Inr (segment_at elf i # segs)))
      else Inl Bad_Access)"
  by auto
termination
proof (relation "measure (\<lambda>(elf, i). segment_end elf - i)", goal_cases)
  case (2 elf i j)
  then have "j = segment_fix (programs_of elf) (i + 1)" by (simp add: segment_next_def c_assert_def)
  then show ?case using 2 segment_fix_bounds [of "i + 1" "programs_of elf"] by (auto simp: segment_end_def)
qed simp

declare segments_from.simps [simp del]

record program =
  segments :: "segment list"
  prog_entry :: u64

definition load_image :: "elf_image option \<Rightarrow> program result" where
  "load_image elf = ebind (segments_from elf (segment_begin elf)) (\<lambda>segs. Inr \<lparr>segments = segs, prog_entry = image_entry elf\<rparr>)"

section \<open>Properties\<close>

lemma program_number_first: "r \<in> set rs \<Longrightarrow> ram_name r = nm \<Longrightarrow>
    program_number_from i rs nm = int (i + length (takeWhile (\<lambda>r. ram_name r \<noteq> nm) rs))"
  by (induction i rs nm rule: program_number_from.induct) (auto simp: strcmp_eq_0_iff)

lemma program_image_named:
  assumes "r \<in> set ramimages" "ram_name r = nm" "distinct (map ram_name ramimages)" "e_magic (ram_elf r) = ELF_MAGIC"
  shows "program_image ramimages nm = Inr (Some (ram_elf r))"
proof -
  let ?n = "length (takeWhile (\<lambda>r. ram_name r \<noteq> nm) ramimages)"
  have "program_number ramimages nm = int ?n"
    using program_number_first [OF assms(1,2)] by (simp add: program_number_def)
  moreover have n: "?n < length ramimages"
  proof -
    have "0 < length (dropWhile (\<lambda>r. ram_name r \<noteq> nm) ramimages)"
      unfolding length_greater_0_conv using assms(1,2) by auto
    then show ?thesis
      using arg_cong [OF takeWhile_dropWhile_id, of length "\<lambda>r. ram_name r \<noteq> nm" ramimages] unfolding length_append by linarith
  qed
  moreover have "ram_name (ramimages ! ?n) = nm" using nth_length_takeWhile [OF n] by simp
  moreover from this have "ramimages ! ?n = r"
    using n assms(1-3) by (metis (mono_tags, lifting) distinct_map inj_onD nth_mem)
  ultimately show ?thesis using assms(4) by (simp add: program_image_def numbered_image_def c_assert_def)
qed

text \<open>The iteration visits the loadable program headers in their order.\<close>

lemma fix_finds:
  "i \<le> length phs \<Longrightarrow> filter (\<lambda>j. p_type (phs ! j) = ELF_PTYPE_LOAD) [i..<length phs] =
    (let j = segment_fix phs i in if j = length phs then []
     else j # filter (\<lambda>j. p_type (phs ! j) = ELF_PTYPE_LOAD) [Suc j..<length phs])"
proof (induction phs i rule: segment_fix.induct)
  case (1 phs i)
  show ?case
  proof (cases "i < length phs")
    case True
    then have "[i..<length phs] = i # [Suc i..<length phs]" by (simp add: upt_rec)
    then show ?thesis using 1 True by (subst segment_fix.simps) (auto simp: Let_def)
  next
    case False
    then show ?thesis using "1.prems" by (subst segment_fix.simps) simp
  qed
qed

lemma segments_are_loadable:
  "segments_from elf (segment_fix (programs_of elf) i) =
     Inr (map (segment_at elf) (filter (\<lambda>j. p_type (programs_of elf ! j) = ELF_PTYPE_LOAD) [i..<length (programs_of elf)]))"
  if "i \<le> length (programs_of elf)"
  using that
proof (induction "length (programs_of elf) - i" arbitrary: i rule: less_induct)
  case less
  let ?phs = "programs_of elf"
  let ?j = "segment_fix ?phs i"
  have j: "i \<le> ?j" "?j \<le> length ?phs" using segment_fix_bounds less.prems by auto
  show ?case
  proof (cases "?j = length ?phs")
    case True
    then show ?thesis using fix_finds [OF less.prems] by (subst segments_from.simps) (simp add: segment_end_def)
  next
    case False
    then have "segments_from elf ?j = ebind (segments_from elf (segment_fix ?phs (?j + 1))) (\<lambda>segs. Inr (segment_at elf ?j # segs))"
      using j by (subst segments_from.simps) (simp add: segment_end_def segment_next_def c_assert_def)
    moreover have "length ?phs - (?j + 1) < length ?phs - i" "?j + 1 \<le> length ?phs" using j False by auto
    note less.hyps [OF this]
    ultimately show ?thesis using fix_finds [OF less.prems] False by (simp add: Let_def)
  qed
qed

lemma load_image_loadable: "load_image elf = Inr \<lparr>segments = map (segment_at elf)
    (filter (\<lambda>j. p_type (programs_of elf ! j) = ELF_PTYPE_LOAD) [0..<length (programs_of elf)]), prog_entry = image_entry elf\<rparr>"
  using segments_are_loadable [of 0 elf] by (simp add: load_image_def segment_begin_def)

end
