(* ===== verification/Kernel.thy ===== *)
theory Kernel
  imports AddressSpace ProgramImage
begin

text \<open>
  The kernel of \<open>project04a-wduan/kernel.c\<close>: process descriptors, system calls, exceptions, scheduling, and the
  checks of page tables of \<open>k-hardware.cc\<close>. The addresses the linker chooses are arguments (\<open>layout\<close>). Left out are
  the console, the keyboard, the log and the memory viewer; \<open>TICK_LIMIT\<close> is 0, the default of the Makefile.
\<close>

section \<open>Processes\<close>

datatype proc_state = P_FREE | P_RUNNABLE | P_BLOCKED | P_BROKEN

record regstate =
  reg_rax :: u64
  reg_rcx :: u64
  reg_rdx :: u64
  reg_rbx :: u64
  reg_rbp :: u64
  reg_rsi :: u64
  reg_rdi :: u64
  reg_r8 :: u64
  reg_r9 :: u64
  reg_r10 :: u64
  reg_r11 :: u64
  reg_r12 :: u64
  reg_r13 :: u64
  reg_r14 :: u64
  reg_r15 :: u64
  reg_fs :: u64
  reg_gs :: u64
  reg_intno :: u32
  reg_swapgs :: u32
  reg_errcode :: u64
  reg_rip :: u64
  reg_cs :: u64
  reg_rflags :: u64
  reg_rsp :: u64
  reg_ss :: u64

record proc =
  pagetable :: u64
  pid :: nat
  pstate :: proc_state
  regs :: regstate

definition NPROC :: nat where "NPROC = 16"

text \<open>\<open>current\<close> is an index of \<open>ptable\<close>.\<close>

record os =
  kern :: kernel
  ptable :: "proc list"
  current :: nat
  ticks :: u64

record layout =
  kernel_end :: u64
  kernel_pagetable :: u64
  exception_entry :: u64

definition CONSOLE_ADDR :: u64 where "CONSOLE_ADDR = 0xB8000"
definition MEMSIZE_VIRTUAL :: u64 where "MEMSIZE_VIRTUAL = 0x300000"
definition SYSCALL_GETPID :: u64 where "SYSCALL_GETPID = 1"
definition SYSCALL_YIELD :: u64 where "SYSCALL_YIELD = 2"
definition SYSCALL_PANIC :: u64 where "SYSCALL_PANIC = 3"
definition SYSCALL_PAGE_ALLOC :: u64 where "SYSCALL_PAGE_ALLOC = 4"
definition INT_IRQ :: u32 where "INT_IRQ = 32"
definition IRQ_TIMER :: u32 where "IRQ_TIMER = 0"
definition INT_PF :: u32 where "INT_PF = 14"
definition PFERR_USER :: u64 where "PFERR_USER = 4"

definition proc_at :: "os \<Rightarrow> nat \<Rightarrow> proc" where
  "proc_at s i = ptable s ! i"

definition upd_proc :: "nat \<Rightarrow> (proc \<Rightarrow> proc) \<Rightarrow> os \<Rightarrow> os" where
  "upd_proc i f s = s\<lparr>ptable := (ptable s)[i := f (ptable s ! i)]\<rparr>"

section \<open>Running and scheduling\<close>

definition check_pagetable :: "layout \<Rightarrow> u64 \<Rightarrow> kernel \<Rightarrow> unit result" where
  "check_pagetable L pt k =
     ebind (c_assert (pt mod PAGESIZE = 0)) (\<lambda>_.
     ebind (vmiter_at (kmem k) pt (exception_entry L)) (\<lambda>it.
     ebind (c_assert (vm_pa (kmem k) it = exception_entry L)) (\<lambda>_.
     ebind (vmiter_at (kmem k) (kernel_pagetable L) pt) (\<lambda>it.
     ebind (c_assert (vm_pa (kmem k) it = pt)) (\<lambda>_.
     ebind (vmiter_at (kmem k) pt (kernel_pagetable L)) (\<lambda>it.
     c_assert (vm_pa (kmem k) it = kernel_pagetable L)))))))"

text \<open>\<open>run\<close> ends with \<open>exception_return\<close>, which resumes the process from its saved registers.\<close>

definition run_proc :: "layout \<Rightarrow> nat \<Rightarrow> os \<Rightarrow> os result" where
  "run_proc L p s =
     ebind (c_assert (pstate (proc_at s p) = P_RUNNABLE)) (\<lambda>_.
     let s = s\<lparr>current := p\<rparr> in
     ebind (check_pagetable L (pagetable (proc_at s p)) (kern s)) (\<lambda>_. Inr s))"

partial_function (option) sched_loop :: "layout \<Rightarrow> nat \<Rightarrow> os \<Rightarrow> os run" where
  "sched_loop L p s =
     (let p = (p + 1) mod NPROC in
      if pstate (proc_at s p) = P_RUNNABLE then Some (run_proc L p s) else sched_loop L p s)"

definition schedule :: "layout \<Rightarrow> os \<Rightarrow> os run" where
  "schedule L s = sched_loop L (current s) s"

section \<open>System calls\<close>

text \<open>\<open>memset\<close> of the page at a pointer, which the kernel uses as an address of its own: it faults outside physical memory, which is
all the kernel maps. The only pointer here that is not the start of a page is the \<open>-1\<close> of an unmapped address.\<close>

definition memset_page :: "u64 \<Rightarrow> u64 \<Rightarrow> kernel \<Rightarrow> kernel result" where
  "memset_page ptr w k = (if page_aligned ptr \<and> ptr < MEMSIZE_PHYSICAL then Inr (k\<lparr>kmem := set_page ptr w (kmem k)\<rparr>) else Inl Bad_Access)"

definition syscall_page_alloc :: "layout \<Rightarrow> u64 \<Rightarrow> os \<Rightarrow> (int \<times> os) result" where
  "syscall_page_alloc L addr s =
     (case kalloc (kernel_end L) PAGESIZE (kern s) of (ptr, k) \<Rightarrow>
      if ptr = 0 then Inr (-1, s\<lparr>kern := k\<rparr>)
      else
        let pt = pagetable (proc_at s (current s)) in
        ebind (memory_map (kernel_end L) pt addr ptr PTE_PWU k) (\<lambda>(_, k).
        ebind (memory_virtual_to_physical pt addr k) (\<lambda>ptr.
        ebind (memset_page ptr 0 k) (\<lambda>k. Inr (0, s\<lparr>kern := k\<rparr>)))))"

text \<open>How the kernel goes back to user mode: with a value for the process that made the system call, or by
\<open>exception_return\<close> to the current process.\<close>

datatype resume = Sysret u64 | Exception_Return

definition resumed :: "os run \<Rightarrow> (resume \<times> os) run" where
  "resumed r = rbind r (\<lambda>s. returns (Exception_Return, s))"

definition syscall :: "layout \<Rightarrow> regstate \<Rightarrow> os \<Rightarrow> (resume \<times> os) run" where
  "syscall L r s =
     (let s = upd_proc (current s) (\<lambda>p. p\<lparr>regs := r\<rparr>) s in
      if reg_rax r = SYSCALL_PANIC then fails Abort
      else if reg_rax r = SYSCALL_GETPID then returns (Sysret (of_nat (pid (proc_at s (current s)))), s)
      else if reg_rax r = SYSCALL_YIELD then
        let s = upd_proc (current s) (\<lambda>p. p\<lparr>regs := (regs p)\<lparr>reg_rax := 0\<rparr>\<rparr>) s in
        resumed (schedule L s)
      else if reg_rax r = SYSCALL_PAGE_ALLOC then
        rbind (Some (syscall_page_alloc L (reg_rdi r) s)) (\<lambda>(v, s). returns (Sysret (of_int v), s))
      else fails Abort)"

section \<open>Exceptions\<close>

definition exception :: "layout \<Rightarrow> regstate \<Rightarrow> os \<Rightarrow> (resume \<times> os) run" where
  "exception L r s =
     (let s = upd_proc (current s) (\<lambda>p. p\<lparr>regs := r\<rparr>) s in
      if reg_intno r = INT_IRQ + IRQ_TIMER then resumed (schedule L (s\<lparr>ticks := ticks s + 1\<rparr>))
      else if reg_intno r = INT_PF then
        if reg_errcode r AND PFERR_USER = 0 then fails Abort
        else
          let s = upd_proc (current s) (\<lambda>p. p\<lparr>pstate := P_BROKEN\<rparr>) s in
          if pstate (proc_at s (current s)) = P_RUNNABLE then resumed (Some (run_proc L (current s) s))
          else resumed (schedule L s)
      else fails Abort)"

section \<open>Setting up a process\<close>

definition kalloc_pagetable :: "u64 \<Rightarrow> kernel \<Rightarrow> u64 \<times> kernel" where
  "kalloc_pagetable ke k =
     (case kalloc ke PAGESIZE k of (pt, k) \<Rightarrow> (pt, if pt \<noteq> 0 then k\<lparr>kmem := set_page pt 0 (kmem k)\<rparr> else k))"

text \<open>The registers of a new process: selectors of the application segments, interrupts enabled.\<close>

definition zero_regs :: regstate where
  "zero_regs = \<lparr>reg_rax = 0, reg_rcx = 0, reg_rdx = 0, reg_rbx = 0, reg_rbp = 0, reg_rsi = 0, reg_rdi = 0, reg_r8 = 0,
     reg_r9 = 0, reg_r10 = 0, reg_r11 = 0, reg_r12 = 0, reg_r13 = 0, reg_r14 = 0, reg_r15 = 0, reg_fs = 0, reg_gs = 0,
     reg_intno = 0, reg_swapgs = 0, reg_errcode = 0, reg_rip = 0, reg_cs = 0, reg_rflags = 0, reg_rsp = 0, reg_ss = 0\<rparr>"

definition SEGSEL_APP_CODE :: u64 where "SEGSEL_APP_CODE = 0x18"
definition SEGSEL_APP_DATA :: u64 where "SEGSEL_APP_DATA = 0x20"
definition EFLAGS_IF :: u64 where "EFLAGS_IF = 0x200"
definition EFLAGS_IOPL_3 :: u64 where "EFLAGS_IOPL_3 = 0x3000"

definition init_process :: "nat \<Rightarrow> proc \<Rightarrow> proc" where
  "init_process flags p =
     (let r = zero_regs\<lparr>reg_cs := SEGSEL_APP_CODE OR 3, reg_fs := SEGSEL_APP_DATA OR 3, reg_gs := SEGSEL_APP_DATA OR 3,
            reg_ss := SEGSEL_APP_DATA OR 3, reg_rflags := EFLAGS_IF\<rparr>;
          r = (if flags AND 1 \<noteq> 0 then r\<lparr>reg_rflags := reg_rflags r OR EFLAGS_IOPL_3\<rparr> else r);
          r = (if flags AND 2 \<noteq> 0 then r\<lparr>reg_rflags := reg_rflags r AND NOT EFLAGS_IF\<rparr> else r)
      in p\<lparr>regs := r\<rparr>)"

text \<open>Stores of bytes into the words of memory.\<close>

definition put_byte :: "u64 \<Rightarrow> u8 \<Rightarrow> memory \<Rightarrow> memory" where
  "put_byte a b m =
     (let w = a AND NOT 7; n = 8 * unat (a AND 7) in
      m(w := (m w AND NOT (push_bit n 0xFF)) OR push_bit n (ucast b)))"

fun put_bytes :: "u64 \<Rightarrow> u8 list \<Rightarrow> memory \<Rightarrow> memory" where
  "put_bytes a [] m = m"
| "put_bytes a (b # bs) m = put_bytes (a + 1) bs (put_byte a b m)"

text \<open>The kernel can store where its own page table maps memory: from the second page on to the end of physical memory.\<close>

definition store_bytes :: "u64 \<Rightarrow> u8 list \<Rightarrow> kernel \<Rightarrow> kernel result" where
  "store_bytes ptr bs k =
     (if bs = [] \<or> PAGESIZE \<le> ptr \<and> unat ptr + length bs \<le> unat MEMSIZE_PHYSICAL
      then Inr (k\<lparr>kmem := put_bytes ptr bs (kmem k)\<rparr>) else Inl Bad_Access)"

definition setup_tables :: "u64 \<Rightarrow> u64 \<Rightarrow> kernel \<Rightarrow> kernel run" where
  "setup_tables ke table k =
     rbind (memory_foreach table PROC_START_ADDR (map_to_kernel_space ke) k) (\<lambda>k.
     rbind (Some (map_to_nobody ke table 0 k)) (\<lambda>(_, k).
     rbind (Some (map_to_user_space ke table CONSOLE_ADDR k)) (\<lambda>(_, k). returns k)))"

text \<open>The loop over the pages of a segment; the results of \<open>kalloc\<close> and \<open>memory_map\<close> are not checked.\<close>

partial_function (option) segment_loop :: "u64 \<Rightarrow> u64 \<Rightarrow> u64 \<Rightarrow> u64 \<Rightarrow> kernel \<Rightarrow> kernel run" where
  "segment_loop ke table limit a k =
     (if a < limit then
        (case kalloc ke PAGESIZE k of (ptr, k) \<Rightarrow>
         rbind (Some (memory_map ke table a ptr PTE_PWU k)) (\<lambda>(_, k).
         segment_loop ke table limit (a + PAGESIZE) k))
      else returns k)"

fun map_segments :: "u64 \<Rightarrow> u64 \<Rightarrow> segment list \<Rightarrow> kernel \<Rightarrow> kernel run" where
  "map_segments ke table [] k = returns k"
| "map_segments ke table (seg # segs) k =
     rbind (segment_loop ke table (seg_va seg + seg_size seg) (round_down (seg_va seg) PAGESIZE) k) (\<lambda>k.
     map_segments ke table segs k)"

fun load_segments :: "u64 \<Rightarrow> segment list \<Rightarrow> kernel \<Rightarrow> kernel result" where
  "load_segments table [] k = Inr k"
| "load_segments table (seg # segs) k =
     ebind (memory_virtual_to_physical table (seg_va seg) k) (\<lambda>ptr.
     ebind (store_bytes ptr (replicate (unat (seg_size seg)) 0) k) (\<lambda>k.
     ebind (store_bytes ptr (seg_data seg) k) (\<lambda>k. load_segments table segs k)))"

text \<open>The kernel does not check the new table either, but no address of the first page is mapped for it to walk.\<close>

definition process_setup :: "layout \<Rightarrow> ramimage list \<Rightarrow> nat \<Rightarrow> string \<Rightarrow> os \<Rightarrow> os run" where
  "process_setup L images i program_name s =
     (let ke = kernel_end L; s = upd_proc i (init_process 0) s in
      case kalloc_pagetable ke (kern s) of (pt, k) \<Rightarrow>
        let s = upd_proc i (\<lambda>p. p\<lparr>pagetable := pt\<rparr>) s in
        rbind (Some (if pt = 0 then Inl Bad_Access else Inr ())) (\<lambda>_.
        rbind (setup_tables ke pt k) (\<lambda>k.
        rbind (Some (program_image images program_name)) (\<lambda>elf.
        rbind (Some (load_image elf)) (\<lambda>pgm.
        rbind (map_segments ke pt (segments pgm) k) (\<lambda>k.
        rbind (Some (load_segments pt (segments pgm) k)) (\<lambda>k.
        let stack_addr = MEMSIZE_VIRTUAL - PAGESIZE in
        case kalloc ke PAGESIZE k of (ptr, k) \<Rightarrow>
        rbind (Some (memory_map ke pt stack_addr ptr PTE_PWU k)) (\<lambda>(_, k).
        returns (upd_proc i (\<lambda>p. p\<lparr>regs := (regs p)\<lparr>reg_rip := prog_entry pgm, reg_rsp := stack_addr + PAGESIZE\<rparr>,
          pstate := P_RUNNABLE\<rparr>) (s\<lparr>kern := k\<rparr>))))))))))"

section \<open>Scheduling\<close>

lemma sched_loop_finds:
  assumes "\<forall>e. 1 \<le> e \<and> e < d \<longrightarrow> pstate (proc_at s ((p + e) mod NPROC)) \<noteq> P_RUNNABLE"
    and "1 \<le> d" "pstate (proc_at s ((p + d) mod NPROC)) = P_RUNNABLE"
  shows "sched_loop L p s = Some (run_proc L ((p + d) mod NPROC) s)"
  using assms
proof (induction d arbitrary: p)
  case (Suc d)
  show ?case
  proof (cases "d = 0")
    case True
    then show ?thesis using Suc.prems by (subst sched_loop.simps) (simp add: Let_def)
  next
    case False
    let ?q = "(p + 1) mod NPROC"
    have shift: "(?q + e) mod NPROC = (p + Suc e) mod NPROC" for e by (simp add: mod_simps)
    have "pstate (proc_at s ?q) \<noteq> P_RUNNABLE" using Suc.prems(1) [rule_format, of 1] False by simp
    then have "sched_loop L p s = sched_loop L ?q s" by (subst sched_loop.simps) (simp add: Let_def)
    also have "\<dots> = Some (run_proc L ((?q + d) mod NPROC) s)"
    proof (rule Suc.IH)
      show "\<forall>e. 1 \<le> e \<and> e < d \<longrightarrow> pstate (proc_at s ((?q + e) mod NPROC)) \<noteq> P_RUNNABLE"
        unfolding shift using Suc.prems(1) by auto
      show "pstate (proc_at s ((?q + d) mod NPROC)) = P_RUNNABLE" unfolding shift by (rule Suc.prems(3))
    qed (use False in simp)
    finally show ?thesis unfolding shift .
  qed
qed simp

lemma sched_loop_returns: "sched_loop L p s = Some r \<Longrightarrow> \<exists>i<NPROC. pstate (proc_at s i) = P_RUNNABLE"
proof (rule sched_loop.raw_induct [where P = "\<lambda>L p s r. \<exists>i<NPROC. pstate (proc_at s i) = P_RUNNABLE"])
  fix loop :: "layout \<Rightarrow> nat \<Rightarrow> os \<Rightarrow> os run" and L p s r
  assume IH: "\<And>L p s r. loop L p s = Some r \<Longrightarrow> \<exists>i<NPROC. pstate (proc_at s i) = P_RUNNABLE"
    and body: "(let p = (p + 1) mod NPROC in
      if pstate (proc_at s p) = P_RUNNABLE then Some (run_proc L p s) else loop L p s) = Some r"
  have "(p + 1) mod NPROC < NPROC" by (simp add: NPROC_def)
  then show "\<exists>i<NPROC. pstate (proc_at s i) = P_RUNNABLE"
    using body IH by (auto simp: Let_def split: if_splits)
qed

section \<open>Properties\<close>

text \<open>C29: \<open>schedule\<close> is round robin: it runs the next runnable process after the current one, the current one last, and it
spins for ever exactly when no process is runnable.\<close>

theorem schedule_is_round_robin:
  assumes "current s < NPROC"
  shows "if \<exists>i<NPROC. pstate (proc_at s i) = P_RUNNABLE then
      \<exists>d\<in>{1..NPROC}. schedule L s = Some (run_proc L ((current s + d) mod NPROC) s) \<and>
        pstate (proc_at s ((current s + d) mod NPROC)) = P_RUNNABLE \<and>
        (\<forall>e\<in>{1..<d}. pstate (proc_at s ((current s + e) mod NPROC)) \<noteq> P_RUNNABLE)
    else schedule L s = None"
proof (cases "\<exists>i<NPROC. pstate (proc_at s i) = P_RUNNABLE")
  case True
  let ?runs = "\<lambda>d. 1 \<le> d \<and> pstate (proc_at s ((current s + d) mod NPROC)) = P_RUNNABLE"
  from True obtain i where i: "i < NPROC" "pstate (proc_at s i) = P_RUNNABLE" by blast
  define d0 where "d0 = (if current s < i then i - current s else i + NPROC - current s)"
  have "(current s + d0) mod NPROC = i" "1 \<le> d0" "d0 \<le> NPROC" using i(1) assms by (auto simp: d0_def)
  then have d0: "?runs d0" "d0 \<le> NPROC" using i(2) by simp_all
  define d where "d = (LEAST d. ?runs d)"
  have d: "?runs d" "d \<le> NPROC" using LeastI [of ?runs, OF d0(1)] Least_le [of ?runs, OF d0(1)] d0(2)
    unfolding d_def by auto
  have least: "\<not> ?runs e" if "e < d" for e using not_less_Least that unfolding d_def by blast
  have "schedule L s = Some (run_proc L ((current s + d) mod NPROC) s)"
    unfolding schedule_def by (rule sched_loop_finds) (use d least in auto)
  then have "\<exists>d\<in>{1..NPROC}. schedule L s = Some (run_proc L ((current s + d) mod NPROC) s) \<and>
        pstate (proc_at s ((current s + d) mod NPROC)) = P_RUNNABLE \<and>
        (\<forall>e\<in>{1..<d}. pstate (proc_at s ((current s + e) mod NPROC)) \<noteq> P_RUNNABLE)"
    using d least by (intro bexI [of _ d]) auto
  then show ?thesis using True by (simp only: if_True)
next
  case False
  then have "schedule L s = None" unfolding schedule_def using sched_loop_returns by (cases "sched_loop L (current s) s") blast+
  then show ?thesis using False by (simp only: if_False)
qed

text \<open>A process table in which only the process 3 can run.\<close>

definition sample_procs :: "proc list" where
  "sample_procs = (replicate 16 \<lparr>pagetable = 0x1000, pid = 0, pstate = P_FREE, regs = zero_regs\<rparr>)
     [1 := \<lparr>pagetable = 0x1000, pid = 1, pstate = P_BROKEN, regs = zero_regs\<rparr>,
      3 := \<lparr>pagetable = 0x2000, pid = 3, pstate = P_RUNNABLE, regs = zero_regs\<rparr>]"

lemma schedule_is_round_robin_witness:
  "\<forall>L k. schedule L \<lparr>kern = k, ptable = sample_procs, current = 1, ticks = 0\<rparr> =
     Some (run_proc L 3 \<lparr>kern = k, ptable = sample_procs, current = 1, ticks = 0\<rparr>)"
proof (intro allI)
  fix L k
  let ?s = "\<lparr>kern = k, ptable = sample_procs, current = 1, ticks = 0\<rparr>"
  have only: "pstate (proc_at ?s i) = P_RUNNABLE \<longleftrightarrow> i = 3" if "i < NPROC" for i
    using that by (auto simp: proc_at_def sample_procs_def NPROC_def nth_list_update)
  have "\<exists>i<NPROC. pstate (proc_at ?s i) = P_RUNNABLE" using only [of 3] by (intro exI [of _ 3]) (simp add: NPROC_def)
  then obtain d where d: "schedule L ?s = Some (run_proc L ((1 + d) mod NPROC) ?s)"
    "pstate (proc_at ?s ((1 + d) mod NPROC)) = P_RUNNABLE"
    using schedule_is_round_robin [of ?s L] by (auto simp: NPROC_def)
  have "(1 + d) mod NPROC = 3" using only [of "(1 + d) mod NPROC"] d(2) by (simp add: NPROC_def)
  then show "schedule L ?s = Some (run_proc L 3 ?s)" using d(1) by simp
qed

end
