(* ===== verification/Isolation.thy ===== *)
theory Isolation
  imports Kernel
begin

text \<open>
  What the page tables of \<open>project04a-wduan\<close> protect: every process has its own tables and its own pages, the system
  calls keep it so, and therefore a process can neither change the memory of another nor the page tables nor the
  kernel. The model of a running process is that it makes system calls with any registers, is interrupted, and stores
  through any mapping the hardware lets it store through.
\<close>

section \<open>What a process owns\<close>

text \<open>The pages mapped for the user, without the console, which all processes share.\<close>

definition frames :: "memory \<Rightarrow> u64 \<Rightarrow> u64 set" where
  "frames m root = {f. page_aligned f \<and> f \<noteq> CONSOLE_ADDR \<and>
     (\<exists>va pa perm. mmu m root va = Some (pa, perm) \<and> perm AND PTE_U \<noteq> 0 \<and> in_page f pa)}"

definition owned :: "memory \<Rightarrow> u64 \<Rightarrow> u64 set" where
  "owned m root = tables m root \<union> frames m root"

definition allocatable :: "u64 \<Rightarrow> u64 set" where
  "allocatable ke = {p. page_aligned p \<and> allocatable_physical_address ke p}"

definition space_ok :: "u64 \<Rightarrow> kernel \<Rightarrow> u64 \<Rightarrow> bool" where
  "space_ok ke k root \<longleftrightarrow> table_ok ke k root \<and> (\<forall>va. plain_at (kmem k) root va) \<and>
     owned (kmem k) root \<subseteq> allocatable ke \<and> frames (kmem k) root \<inter> avail ke k = {} \<and>
     tables (kmem k) root \<inter> frames (kmem k) root = {}"

text \<open>A change of memory elsewhere.\<close>

lemma plain_same:
  assumes "same_tables m m' root" "page_aligned root" "plain_at m root va"
  shows "plain_at m' root va"
proof -
  have "m' (slot t va (3 - d)) = m (slot t va (3 - d))" if "stage m root va d = Some (t, q)" for d t q
    using assms(1) slot_in_page [OF stage_aligned [OF assms(2) that]] tablesI [OF that] unfolding same_tables_def by blast
  then show ?thesis using assms(3) same_tables_frame(1) [OF assms(1,2)] unfolding plain_at_def by simp
qed

lemma space_elsewhere:
  assumes ok: "space_ok ke k root" and same: "same_tables (kmem k) (kmem k') root"
    and av: "avail ke k' \<subseteq> avail ke k" "pages_ok k'"
  shows "space_ok ke k' root" "owned (kmem k') root = owned (kmem k) root" "mmu (kmem k') root va = mmu (kmem k) root va"
proof -
  have root: "page_aligned root" using ok by (simp add: space_ok_def table_ok_def wf_tables_def)
  note f = same_tables_frame [OF same root]
  have fr: "frames (kmem k') root = frames (kmem k) root" unfolding frames_def f(2) ..
  show "mmu (kmem k') root va = mmu (kmem k) root va" by (rule f(2))
  show own: "owned (kmem k') root = owned (kmem k) root" by (simp add: owned_def fr f(3))
  show "space_ok ke k' root"
    unfolding space_ok_def own unfolding table_ok_def fr f(3,4)
  proof (intro conjI allI)
    show "plain_at (kmem k') root va" for va using plain_same [OF same root] ok by (simp add: space_ok_def)
  qed (use ok av in \<open>auto simp: space_ok_def table_ok_def\<close>)
qed

lemma avail_allocatable: "avail ke k \<subseteq> allocatable ke"
  by (auto simp: avail_def allocatable_def free_page_def page_address(2) PAMASK_page)

lemma avail_nonzero: "0 \<notin> avail ke k"
  using avail_low [of 0 ke k] by (auto simp: PAGESIZE_def)

lemma console_not_allocatable: "CONSOLE_ADDR \<notin> allocatable ke"
  by (simp add: allocatable_def allocatable_physical_address_def reserved_physical_address_def CONSOLE_ADDR_def PAGESIZE_def)

section \<open>Allocating a page\<close>

lemma memory_map_mapped:
  assumes plain: "plain_at (kmem k) root va" and va: "page_aligned va" and mapped: "mmu (kmem k) root va \<noteq> None"
    and pa: "pa AND PTE_PAMASK = pa" and perm: "perm AND PTE_PWU = perm" "perm AND PTE_P \<noteq> 0"
  shows "\<exists>k'. memory_map ke root va pa perm k = Inr (0, k')"
proof -
  have c: "va_is_canonical va" using mapped by (auto simp: mmu_def split: if_splits)
  obtain d t q where s: "stage (kmem k) root va d = Some (t, q)" "stage (kmem k) root va (Suc d) = None"
    and it: "vmiter_at (kmem k) root va = Inr (it_of root va d t q)"
    using vmiter_at_plain [OF plain c] by blast
  have "d = 3"
  proof (rule ccontr)
    assume "d \<noteq> 3"
    then have d: "d < 3" using stage_upto3 [OF s(1)] by simp
    have "\<not> descends (3 - d) (kmem k (slot t va (3 - d)))" using s by (auto simp: Let_def split: if_splits)
    then have "kmem k (slot t va (3 - d)) AND PTE_P = 0" using plain_atD(3) [OF plain s(1) d] by blast
    then show False using mmu_end [OF s c] mapped by (simp add: Let_def)
  qed
  then have "map_loop ke perm (it_of root va d t q) k = Inr (True, it_of root va d t q, k)"
    by (subst map_loop.simps) (simp add: it_of_def)
  moreover have "try_map ke pa perm (it_of root va d t q) k = ebind (map_loop ke perm (it_of root va d t q) k) (\<lambda>(ok, it, k).
      if \<not> ok then Inr (-1, it, k)
      else if it_level it = 0 then
        (case it_pep it of
           None \<Rightarrow> Inl Bad_Access
         | Some pep \<Rightarrow> Inr (0, it, k\<lparr>kmem := (kmem k)(pep := pa OR perm)\<rparr>))
      else Inr (0, it, k))"
    by (rule try_map_present)
      (use va pa perm plain_atD(1) [OF plain s(1)] in \<open>simp_all add: it_of_def page_aligned_def\<close>)
  ultimately show ?thesis using it \<open>d = 3\<close> by (simp add: memory_map_def it_of_def)
qed

text \<open>The pointer behind an address.\<close>

lemma virtual_to_physical_mmu:
  assumes "plain_at (kmem k) root va" "va_is_canonical va"
  shows "memory_virtual_to_physical root va k = Inr (case mmu (kmem k) root va of None \<Rightarrow> -1 | Some (pa, _) \<Rightarrow> pa)"
proof -
  obtain it where it: "vmiter_at (kmem k) root va = Inr it" using vmiter_at_plain [OF assms] by blast
  then show ?thesis using at_end_mmu [of "kmem k" root it] vmiter_at_end [OF it] by (simp add: memory_virtual_to_physical_def)
qed

definition page_alloc :: "u64 \<Rightarrow> u64 \<Rightarrow> u64 \<Rightarrow> u64 \<Rightarrow> kernel \<Rightarrow> kernel result" where
  "page_alloc ke root addr p k =
     ebind (memory_map ke root addr p PTE_PWU k) (\<lambda>(_, k).
     ebind (memory_virtual_to_physical root addr k) (\<lambda>ptr. memset_page ptr 0 k))"

lemma syscall_page_alloc_split:
  "syscall_page_alloc L addr s =
     (case kalloc (kernel_end L) PAGESIZE (kern s) of (p, k) \<Rightarrow>
      if p = 0 then Inr (-1, s\<lparr>kern := k\<rparr>)
      else ebind (page_alloc (kernel_end L) (pagetable (proc_at s (current s))) addr p k) (\<lambda>k. Inr (0, s\<lparr>kern := k\<rparr>)))"
  by (simp add: syscall_page_alloc_def page_alloc_def ebind_assoc split_def Let_def)

text \<open>A change of memory in the pages \<open>S\<close> only.\<close>

definition touches :: "u64 set \<Rightarrow> kernel \<Rightarrow> kernel \<Rightarrow> bool" where
  "touches S k k' \<longleftrightarrow> (\<forall>a. (\<forall>f \<in> S. \<not> in_page f a) \<longrightarrow> kmem k' a = kmem k a)"

lemma touches_trans: "touches S k k1 \<Longrightarrow> touches T k1 k2 \<Longrightarrow> S \<subseteq> U \<Longrightarrow> T \<subseteq> U \<Longrightarrow> touches U k k2"
  unfolding touches_def by (metis subsetD)

lemma touches_mono: "touches S k k1 \<Longrightarrow> S \<subseteq> U \<Longrightarrow> touches U k k1"
  unfolding touches_def by blast

text \<open>The page \<open>p\<close> has been taken and mapped at \<open>addr\<close> for the user, with the new tables \<open>N\<close>.\<close>

definition mapped_page :: "u64 \<Rightarrow> u64 \<Rightarrow> u64 \<Rightarrow> u64 \<Rightarrow> u64 set \<Rightarrow> kernel \<Rightarrow> kernel \<Rightarrow> bool" where
  "mapped_page ke root addr p N k k' \<longleftrightarrow>
     table_ok ke k' root \<and> (\<forall>va. plain_at (kmem k') root va) \<and>
     p \<in> avail ke k \<and> N \<subseteq> avail ke k - {p} \<and> avail ke k' = avail ke k - {p} - N \<and>
     (\<forall>x \<in> insert p N. \<forall>q \<in> avail ke k'. x < q) \<and>
     tables (kmem k') root = tables (kmem k) root \<union> N \<and>
     (\<forall>va. mmu (kmem k') root va =
       (if drop_bit 12 va = drop_bit 12 addr then Some (p + (va AND 0xFFF), PTE_PWU) else mmu (kmem k) root va)) \<and>
     touches (insert p (tables (kmem k') root)) k k'"

text \<open>The memory after a successful allocation: the page is filled with zeros, too.\<close>

definition allocated :: "u64 \<Rightarrow> u64 \<Rightarrow> u64 \<Rightarrow> u64 \<Rightarrow> u64 set \<Rightarrow> kernel \<Rightarrow> kernel \<Rightarrow> bool" where
  "allocated ke root addr p N k k' \<longleftrightarrow> mapped_page ke root addr p N k k' \<and> (\<forall>a. in_page p a \<longrightarrow> kmem k' a = 0)"

text \<open>After \<open>kalloc\<close> nothing a process owns has changed.\<close>

lemma kalloc_elsewhere:
  assumes ok: "space_ok ke k root" and a: "kalloc ke PAGESIZE k = (p, k1)" "p \<noteq> 0"
  shows "same_tables (kmem k) (kmem k1) root" "space_ok ke k1 root" "owned (kmem k1) root = owned (kmem k) root"
    "mmu (kmem k1) root va = mmu (kmem k) root va" "p \<notin> owned (kmem k) root"
proof -
  have pok: "pages_ok k" and root: "page_aligned root" and apart: "tables (kmem k) root \<inter> avail ke k = {}"
    "frames (kmem k) root \<inter> avail ke k = {}"
    using ok by (simp_all add: space_ok_def table_ok_def wf_tables_def)
  note av = kalloc_avail [OF pok a]
  have al: "page_aligned p" by (rule PAMASK_page [OF avail_PAMASK [OF av(1)]])
  show "p \<notin> owned (kmem k) root" using av(1) apart by (auto simp: owned_def)
  show same: "same_tables (kmem k) (kmem k1) root"
    unfolding same_tables_def av(4) set_page_def
    using in_page_unique [OF al tables_aligned [OF root]] av(1) apart(1) by auto
  show "space_ok ke k1 root" "owned (kmem k1) root = owned (kmem k) root" "mmu (kmem k1) root va = mmu (kmem k) root va"
    using space_elsewhere [OF ok same] av(2,3) by auto
qed

lemma in_page_self: "page_aligned p \<Longrightarrow> in_page p (p + (va AND 0xFFF))"
proof -
  assume p: "page_aligned p"
  have "va AND 0xFFF = take_bit 12 va" by (simp add: take_bit_eq_mask mask_numeral)
  then have low: "unat (va AND 0xFFF) < 4096"
    by (simp only: unsigned_take_bit_eq) (simp add: take_bit_eq_mod)
  then have "unat (p + (va AND 0xFFF)) = unat p + unat (va AND 0xFFF)"
    using page_aligned_room [OF p] by (subst unat_plus_exact) simp_all
  then show ?thesis using p low by (auto simp: in_page_nat page_aligned_nat)
qed

lemma page_offset: "page_aligned va \<Longrightarrow> va AND 0xFFF = 0"
proof -
  assume "page_aligned va"
  then have "take_bit 12 va = 0" by (simp add: page_aligned_def PAGESIZE_def take_bit_eq_mod)
  then show ?thesis by (simp add: take_bit_eq_mask mask_numeral)
qed

text \<open>A change in the page that was mapped.\<close>

lemma mapped_page_frame:
  assumes m: "mapped_page ke root addr p N k k2" and same: "same_tables (kmem k2) (kmem k3) root" and root: "page_aligned root"
    and k3: "pages k3 = pages k2" "touches {p} k2 k3"
  shows "mapped_page ke root addr p N k k3"
proof -
  note f = same_tables_frame [OF same root]
  have av: "avail ke k3 = avail ke k2" "pages_ok k3 = pages_ok k2"
    using k3(1) by (simp_all add: avail_def free_page_def page_used_def pages_ok_def)
  have "\<forall>va. plain_at (kmem k3) root va" using m plain_same [OF same root] by (simp add: mapped_page_def)
  moreover have "touches (insert p (tables (kmem k2) root)) k k3"
    using m by (intro touches_trans [OF _ k3(2)]) (auto simp: mapped_page_def)
  moreover have "table_ok ke k3 root" using m f(3,4) av unfolding mapped_page_def table_ok_def by metis
  ultimately show ?thesis using m f(2,3) av(1) by (simp add: mapped_page_def)
qed

text \<open>Mapping a page that \<open>kalloc\<close> returned.\<close>

lemma map_new_page:
  assumes ok: "space_ok ke k root" and a: "kalloc ke PAGESIZE k = (p, k1)" "p \<noteq> 0"
    and addr: "page_aligned addr" "va_is_canonical addr"
  shows "\<exists>r k2 N. memory_map ke root addr p PTE_PWU k1 = Inr (r, k2) \<and> card N \<le> 3 \<and>
    extends root (kmem k) (kmem k2) \<and> (stage (kmem k) root addr 3 \<noteq> None \<longrightarrow> N = {}) \<and>
    N \<subseteq> avail ke k - {p} \<and> avail ke k2 = avail ke k - {p} - N \<and> (\<forall>x \<in> N. \<forall>q \<in> avail ke k2. x < q) \<and>
    (if r = 0 then mapped_page ke root addr p N k k2
     else r = -1 \<and> avail ke k2 = {} \<and> (\<forall>va. plain_at (kmem k2) root va) \<and>
       (\<forall>va. mmu (kmem k2) root va = mmu (kmem k) root va))"
proof -
  note el = kalloc_elsewhere [OF ok a]
  have pok: "pages_ok k" and root: "page_aligned root" using ok by (simp_all add: space_ok_def table_ok_def wf_tables_def)
  note av = kalloc_avail [OF pok a] and st = same_tables_frame [OF el(1) root]
  have p: "p AND PTE_PAMASK = p" "p < 0x100000000"
    using avail_PAMASK [OF av(1)] avail_low_page [OF av(1)] by (simp_all add: low_page_def)
  have perm: "PTE_PWU AND PTE_PWU = PTE_PWU" "PTE_PWU AND PTE_P \<noteq> 0" by (simp_all add: pte_defs)
  have k1: "table_ok ke k1 root" "\<forall>va. plain_at (kmem k1) root va" using el(2) by (simp_all add: space_ok_def)
  from memory_map_ok [OF k1(1) _ addr(2,1) p perm] k1(2) obtain r k2 N where
    map: "memory_map ke root addr p PTE_PWU k1 = Inr (r, k2)" and k2: "table_ok ke k2 root" "grown ke root N k1 k2"
      "extends root (kmem k1) (kmem k2)" "card N \<le> 3" "stage (kmem k1) root addr 3 \<noteq> None \<longrightarrow> N = {}"
    and r: "if r = 0 then
       (\<forall>va'. mmu (kmem k2) root va' =
         (if drop_bit 12 va' = drop_bit 12 addr then Some (p + (va' AND 0xFFF), PTE_PWU) else mmu (kmem k1) root va'))
     else r = -1 \<and> avail ke k2 = {} \<and> (\<forall>va'. mmu (kmem k2) root va' = mmu (kmem k1) root va')" by blast
  have plain2: "\<forall>va. plain_at (kmem k2) root va" using k1(2) extends_plain [OF k2(3)] by blast
  have "plain_at (kmem k1) root va = plain_at (kmem k) root va" for va
    using k1(2) ok by (simp add: space_ok_def)
  then have ext: "extends root (kmem k) (kmem k2)" using k2(3) st(1) by (simp add: extends_def)
  have N: "N \<subseteq> avail ke k - {p}" "avail ke k2 = avail ke k - {p} - N" "\<forall>x \<in> N. \<forall>q \<in> avail ke k2. x < q"
    "tables (kmem k2) root = tables (kmem k) root \<union> N" "touches (tables (kmem k2) root) k1 k2"
    using k2(2) av(2) st(3) by (simp_all add: grown_def touches_def)
  have first: "\<forall>q \<in> avail ke k2. p < q" using kalloc_first [OF a] N(2) by (auto simp: le_less)
  have "touches {p} k k1" by (simp add: touches_def av(4) set_page_def)
  then have touch: "touches (insert p (tables (kmem k2) root)) k k2" by (rule touches_trans [OF _ N(5)]) auto
  have "if r = 0 then mapped_page ke root addr p N k k2
     else r = -1 \<and> avail ke k2 = {} \<and> (\<forall>va. plain_at (kmem k2) root va) \<and>
       (\<forall>va. mmu (kmem k2) root va = mmu (kmem k) root va)"
  proof (cases "r = 0")
    case True
    then show ?thesis using r N(1-4) first touch k2(1) plain2 av(1) el(4) by (simp add: mapped_page_def)
  next
    case False
    then show ?thesis using r plain2 el(4) by simp
  qed
  then show ?thesis using map k2(4,5) ext st(1) N(1-3) by metis
qed

lemma page_alloc_ok:
  assumes ok: "space_ok ke k root" and a: "kalloc ke PAGESIZE k = (p, k1)" "p \<noteq> 0"
    and addr: "page_aligned addr" "va_is_canonical addr"
  shows "(\<exists>k' N. page_alloc ke root addr p k1 = Inr k' \<and> allocated ke root addr p N k k') \<or>
    page_alloc ke root addr p k1 = Inl Bad_Access \<and> mmu (kmem k) root addr = None"
proof -
  note el = kalloc_elsewhere [OF ok a]
  have pok: "pages_ok k" and root: "page_aligned root" using ok by (simp_all add: space_ok_def table_ok_def wf_tables_def)
  note av = kalloc_avail [OF pok a]
  have p: "p AND PTE_PAMASK = p" "page_aligned p" "p < MEMSIZE_PHYSICAL"
    using avail_PAMASK [OF av(1)] avail_low_page [OF av(1)] subsetD [OF avail_allocatable av(1)]
    by (simp_all add: low_page_def allocatable_def allocatable_physical_address_def)
  from map_new_page [OF ok a addr] obtain r k2 N where map: "memory_map ke root addr p PTE_PWU k1 = Inr (r, k2)"
    and r: "if r = 0 then mapped_page ke root addr p N k k2
     else r = -1 \<and> avail ke k2 = {} \<and> (\<forall>va. plain_at (kmem k2) root va) \<and>
       (\<forall>va. mmu (kmem k2) root va = mmu (kmem k) root va)" by blast
  have "plain_at (kmem k2) root addr" using r by (auto simp: mapped_page_def split: if_splits)
  note ptr = virtual_to_physical_mmu [OF this addr(2)]
  show ?thesis
  proof (cases "r = 0")
    case True
    then have m: "mapped_page ke root addr p N k k2" using r by simp
    then have "memory_virtual_to_physical root addr k2 = Inr p"
      using ptr page_offset [OF addr(1)] by (simp add: mapped_page_def)
    then have res: "page_alloc ke root addr p k1 = Inr (k2\<lparr>kmem := set_page p 0 (kmem k2)\<rparr>)"
      using map p(2,3) by (simp add: page_alloc_def memset_page_def)
    define k3 where "k3 = k2\<lparr>kmem := set_page p 0 (kmem k2)\<rparr>"
    have "p \<notin> tables (kmem k2) root" using m el(5) by (auto simp: owned_def mapped_page_def)
    then have same: "same_tables (kmem k2) (kmem k3) root"
      unfolding same_tables_def k3_def set_page_def
      using in_page_unique [OF p(2) tables_aligned [OF root]] by auto
    have "mapped_page ke root addr p N k k3" "\<forall>a. in_page p a \<longrightarrow> kmem k3 a = 0"
      using mapped_page_frame [OF m same root] by (auto simp: k3_def touches_def set_page_def)
    then show ?thesis using res k3_def by (auto simp: allocated_def)
  next
    case False
    have none: "mmu (kmem k) root addr = None"
    proof (rule ccontr)
      assume "mmu (kmem k) root addr \<noteq> None"
      then have "mmu (kmem k1) root addr \<noteq> None" using el(4) by simp
      moreover have "plain_at (kmem k1) root addr" using el(2) by (simp add: space_ok_def)
      moreover have "PTE_PWU AND PTE_PWU = PTE_PWU" "PTE_PWU AND PTE_P \<noteq> 0" by (simp_all add: pte_defs)
      ultimately show False using memory_map_mapped [of k1 root addr p PTE_PWU ke] addr(1) p(1) map False by auto
    qed
    then have "memory_virtual_to_physical root addr k2 = Inr (-1)" using ptr r False by simp
    moreover have "\<not> page_aligned (-1)" by (simp add: page_aligned_def PAGESIZE_def)
    ultimately have "page_alloc ke root addr p k1 = Inl Bad_Access" using map by (simp add: page_alloc_def memset_page_def)
    then show ?thesis using none by blast
  qed
qed

section \<open>Processes that stay apart\<close>

definition live :: "os \<Rightarrow> nat \<Rightarrow> bool" where
  "live s i \<longleftrightarrow> i < NPROC \<and> pstate (proc_at s i) \<noteq> P_FREE"

definition root_of :: "os \<Rightarrow> nat \<Rightarrow> u64" where
  "root_of s i = pagetable (proc_at s i)"

definition isolated :: "layout \<Rightarrow> os \<Rightarrow> bool" where
  "isolated L s \<longleftrightarrow> length (ptable s) = NPROC \<and> live s (current s) \<and>
     (\<forall>i. live s i \<longrightarrow> space_ok (kernel_end L) (kern s) (root_of s i)) \<and>
     (\<forall>i j. live s i \<longrightarrow> live s j \<longrightarrow> i \<noteq> j \<longrightarrow>
        owned (kmem (kern s)) (root_of s i) \<inter> owned (kmem (kern s)) (root_of s j) = {})"

text \<open>What one process does to the others: nothing.\<close>

definition spares :: "os \<Rightarrow> os \<Rightarrow> bool" where
  "spares s s' \<longleftrightarrow> (\<forall>i. live s i \<longrightarrow> i \<noteq> current s \<longrightarrow>
     live s' i \<and> root_of s' i = root_of s i \<and>
     (\<forall>va. mmu (kmem (kern s')) (root_of s i) va = mmu (kmem (kern s)) (root_of s i) va) \<and>
     (\<forall>f \<in> owned (kmem (kern s)) (root_of s i). \<forall>a. in_page f a \<longrightarrow> kmem (kern s') a = kmem (kern s) a))"

lemma isolatedD:
  assumes "isolated L s" "live s i"
  shows "space_ok (kernel_end L) (kern s) (root_of s i)" "page_aligned (root_of s i)"
  using assms by (simp_all add: isolated_def space_ok_def table_ok_def wf_tables_def)

lemma owned_aligned: "space_ok ke k root \<Longrightarrow> f \<in> owned (kmem k) root \<Longrightarrow> page_aligned f"
  by (auto simp: space_ok_def allocatable_def)

text \<open>A change that only touches processes' descriptors.\<close>

lemma isolated_same_kernel:
  assumes "isolated L s" "kern s' = kern s" "length (ptable s') = NPROC" "live s' (current s')"
    and "\<And>i. live s' i \<longleftrightarrow> live s i" "\<And>i. root_of s' i = root_of s i"
  shows "isolated L s' \<and> spares s s'"
  using assms by (simp add: isolated_def spares_def)

lemma upd_proc_simps [simp]:
  "kern (upd_proc i f s) = kern s" "current (upd_proc i f s) = current s" "length (ptable (upd_proc i f s)) = length (ptable s)"
  by (simp_all add: upd_proc_def)

lemma proc_at_upd: "length (ptable s) = NPROC \<Longrightarrow> i < NPROC \<Longrightarrow>
    proc_at (upd_proc i f s) j = (if i = j then f (proc_at s j) else proc_at s j)"
  by (auto simp: proc_at_def upd_proc_def)

lemma isolated_upd_proc:
  assumes iso: "isolated L s" and f: "\<And>p. pagetable (f p) = pagetable p" "\<And>p. pstate (f p) = P_FREE \<longleftrightarrow> pstate p = P_FREE"
  shows "isolated L (upd_proc (current s) f s) \<and> spares s (upd_proc (current s) f s)"
proof -
  have c: "length (ptable s) = NPROC" "current s < NPROC" "live s (current s)" using iso by (simp_all add: isolated_def live_def)
  have l: "live (upd_proc (current s) f s) i \<longleftrightarrow> live s i" for i
    using f(2) by (simp add: live_def proc_at_upd [OF c(1,2)])
  have "root_of (upd_proc (current s) f s) i = root_of s i" for i
    using f(1) by (simp add: root_of_def proc_at_upd [OF c(1,2)])
  then show ?thesis using l c by (intro isolated_same_kernel [OF iso]) simp_all
qed

lemma run_proc_result: "run_proc L p s = Inr s' \<Longrightarrow> s' = s\<lparr>current := p\<rparr> \<and> pstate (proc_at s p) = P_RUNNABLE"
  by (auto simp: run_proc_def Let_def)

lemma schedule_result:
  assumes "schedule L s = Some (Inr s')" "current s < NPROC"
  shows "\<exists>p<NPROC. s' = s\<lparr>current := p\<rparr> \<and> pstate (proc_at s p) = P_RUNNABLE"
proof -
  have "\<exists>i<NPROC. pstate (proc_at s i) = P_RUNNABLE"
    using assms(1) unfolding schedule_def by (rule sched_loop_returns)
  then obtain i where i: "i < NPROC" "pstate (proc_at s i) = P_RUNNABLE" by blast
  let ?runs = "\<lambda>d. 1 \<le> d \<and> pstate (proc_at s ((current s + d) mod NPROC)) = P_RUNNABLE"
  have "?runs (if current s < i then i - current s else i + NPROC - current s)"
    using i assms(2) by auto
  then have d: "?runs (LEAST d. ?runs d)" by (rule LeastI)
  then have "sched_loop L (current s) s = Some (run_proc L ((current s + (LEAST d. ?runs d)) mod NPROC) s)"
    using not_less_Least [of _ ?runs] by (intro sched_loop_finds) auto
  then have "run_proc L ((current s + (LEAST d. ?runs d)) mod NPROC) s = Inr s'"
    using assms(1) by (simp add: schedule_def)
  moreover have "(current s + (LEAST d. ?runs d)) mod NPROC < NPROC" by (simp add: NPROC_def)
  ultimately show ?thesis using run_proc_result by blast
qed

lemma isolated_current:
  assumes "isolated L s" "p < NPROC" "pstate (proc_at s p) = P_RUNNABLE"
  shows "isolated L (s\<lparr>current := p\<rparr>) \<and> spares s (s\<lparr>current := p\<rparr>)"
proof -
  have "live (s\<lparr>current := p\<rparr>) i \<longleftrightarrow> live s i" "root_of (s\<lparr>current := p\<rparr>) i = root_of s i" for i
    by (simp_all add: live_def root_of_def proc_at_def)
  moreover have "live (s\<lparr>current := p\<rparr>) p" using assms(2,3) by (simp add: live_def proc_at_def)
  ultimately show ?thesis using assms(1) by (intro isolated_same_kernel) (simp_all add: isolated_def)
qed

lemma spares_trans:
  assumes "spares s s1" "spares s1 s2" "current s1 = current s"
    and "\<And>i. live s i \<Longrightarrow> owned (kmem (kern s1)) (root_of s i) = owned (kmem (kern s)) (root_of s i)"
  shows "spares s s2"
  using assms unfolding spares_def by (metis (no_types, lifting))

text \<open>Pages that become the current process's own come from the available ones.\<close>

lemma mapped_frames:
  assumes "mapped_page ke root addr p N k k'" "page_aligned p"
  shows "frames (kmem k') root \<subseteq> insert p (frames (kmem k) root)"
proof
  fix f
  assume "f \<in> frames (kmem k') root"
  then obtain va pa perm where f: "page_aligned f" "f \<noteq> CONSOLE_ADDR" "mmu (kmem k') root va = Some (pa, perm)"
    "perm AND PTE_U \<noteq> 0" "in_page f pa" unfolding frames_def by blast
  show "f \<in> insert p (frames (kmem k) root)"
  proof (cases "drop_bit 12 va = drop_bit 12 addr")
    case True
    then have "pa = p + (va AND 0xFFF)" using assms(1) f(3) by (simp add: mapped_page_def)
    then have "in_page p pa" using in_page_self [OF assms(2)] by simp
    then have "f = p" using in_page_unique f(1,5) assms(2) by blast
    then show ?thesis by simp
  next
    case False
    then have "mmu (kmem k) root va = Some (pa, perm)" using assms(1) f(3) by (simp add: mapped_page_def)
    then show ?thesis using f unfolding frames_def by blast
  qed
qed

lemma mapped_space:
  assumes ok: "space_ok ke k root" and al: "mapped_page ke root addr p N k k'"
  shows "space_ok ke k' root" "owned (kmem k') root \<subseteq> owned (kmem k) root \<union> insert p N"
proof -
  have p: "p \<in> avail ke k" "N \<subseteq> avail ke k - {p}" "avail ke k' = avail ke k - {p} - N"
    "tables (kmem k') root = tables (kmem k) root \<union> N" using al by (simp_all add: mapped_page_def)
  note fr = mapped_frames [OF al PAMASK_page [OF avail_PAMASK [OF p(1)]]]
  have k: "tables (kmem k) root \<inter> avail ke k = {}" "frames (kmem k) root \<inter> avail ke k = {}"
    "tables (kmem k) root \<inter> frames (kmem k) root = {}" "owned (kmem k) root \<subseteq> allocatable ke"
    using ok by (simp_all add: space_ok_def table_ok_def)
  show own: "owned (kmem k') root \<subseteq> owned (kmem k) root \<union> insert p N" using fr p(4) by (auto simp: owned_def)
  show "space_ok ke k' root"
    unfolding space_ok_def
  proof (intro conjI)
    show "table_ok ke k' root" "\<forall>va. plain_at (kmem k') root va" using al by (simp_all add: mapped_page_def)
    show "owned (kmem k') root \<subseteq> allocatable ke" using own p(1,2) k(4) avail_allocatable by blast
    show "frames (kmem k') root \<inter> avail ke k' = {}" using fr p(3) k(2) by blast
    show "tables (kmem k') root \<inter> frames (kmem k') root = {}" using fr p(1,2,4) k(1-3) by blast
  qed
qed

lemma other_space:
  assumes ok: "space_ok ke k root'" and touch: "touches S k k'" and S: "\<And>f. f \<in> S \<Longrightarrow> page_aligned f" "S \<inter> owned (kmem k) root' = {}"
    and av: "avail ke k' \<subseteq> avail ke k" "pages_ok k'"
  shows "space_ok ke k' root'" "owned (kmem k') root' = owned (kmem k) root'"
    "mmu (kmem k') root' va = mmu (kmem k) root' va"
    "f \<in> owned (kmem k) root' \<Longrightarrow> in_page f a \<Longrightarrow> kmem k' a = kmem k a"
proof -
  have same: "kmem k' a = kmem k a" if f: "f \<in> owned (kmem k) root'" "in_page f a" for f a
  proof -
    have "\<not> in_page t a" if t: "t \<in> S" for t
      using in_page_unique [OF owned_aligned [OF ok f(1)] S(1) [OF t] f(2)] S(2) t f(1) by blast
    then show ?thesis using touch by (simp add: touches_def)
  qed
  then show "f \<in> owned (kmem k) root' \<Longrightarrow> in_page f a \<Longrightarrow> kmem k' a = kmem k a" .
  have "same_tables (kmem k) (kmem k') root'" using same unfolding same_tables_def owned_def by blast
  from space_elsewhere [OF ok this av] show "space_ok ke k' root'" "owned (kmem k') root' = owned (kmem k) root'"
    "mmu (kmem k') root' va = mmu (kmem k) root' va" by simp_all
qed

lemma mapped_isolated:
  assumes iso: "isolated L s" and al: "mapped_page (kernel_end L) (root_of s (current s)) addr p N (kern s) k'"
  shows "isolated L (s\<lparr>kern := k'\<rparr>) \<and> spares s (s\<lparr>kern := k'\<rparr>)"
proof -
  let ?own = "\<lambda>i. owned (kmem (kern s)) (root_of s i)" and ?own' = "\<lambda>i. owned (kmem k') (root_of s i)"
  have cur: "live s (current s)" using iso by (simp add: isolated_def)
  note c = isolatedD(1) [OF iso cur]
  have apart: "?own i \<inter> ?own j = {}" if "live s i" "live s j" "i \<noteq> j" for i j using iso that by (simp add: isolated_def)
  have "page_aligned p" "page_aligned (root_of s (current s))"
    using al PAMASK_page [OF avail_PAMASK, of p] by (auto simp: mapped_page_def table_ok_def wf_tables_def)
  then have S: "page_aligned f" if "f \<in> insert p (tables (kmem k') (root_of s (current s)))" for f
    using that tables_aligned by blast
  have free: "?own i \<inter> avail (kernel_end L) (kern s) = {}" if i: "live s i" for i
    using isolatedD(1) [OF iso i] by (auto simp: space_ok_def table_ok_def owned_def)
  have away: "insert p (tables (kmem k') (root_of s (current s))) \<inter> ?own i = {}" if i: "live s i" "i \<noteq> current s" for i
    using free [OF i(1)] apart [OF cur i(1)] i(2) al by (auto simp: mapped_page_def owned_def)
  have av: "avail (kernel_end L) k' \<subseteq> avail (kernel_end L) (kern s)" "pages_ok k'"
    "touches (insert p (tables (kmem k') (root_of s (current s)))) (kern s) k'"
    using al by (auto simp: mapped_page_def table_ok_def)
  have other: "space_ok (kernel_end L) k' (root_of s i)" "?own' i = ?own i"
    "\<forall>va. mmu (kmem k') (root_of s i) va = mmu (kmem (kern s)) (root_of s i) va"
    "\<forall>f \<in> ?own i. \<forall>a. in_page f a \<longrightarrow> kmem k' a = kmem (kern s) a" if i: "live s i" "i \<noteq> current s" for i
    using other_space [OF isolatedD(1) [OF iso i(1)] av(3) S away [OF i] av(1,2)] by blast+
  have "?own' (current s) \<inter> ?own i = {}" if i: "live s i" "i \<noteq> current s" for i
  proof -
    have "insert p N \<subseteq> avail (kernel_end L) (kern s)" using al by (auto simp: mapped_page_def)
    then show ?thesis using free [OF i(1)] mapped_space(2) [OF c al] apart [OF cur i(1)] i(2) by blast
  qed
  then have "?own' i \<inter> ?own' j = {}" if "live s i" "live s j" "i \<noteq> j" for i j
    using other(2) apart that by (cases "i = current s"; cases "j = current s") (auto simp: Int_commute)
  moreover have "space_ok (kernel_end L) k' (root_of s i)" if "live s i" for i
    using other(1) mapped_space(1) [OF c al] that by (cases "i = current s") auto
  ultimately have "isolated L (s\<lparr>kern := k'\<rparr>)"
    using iso by (simp add: isolated_def live_def root_of_def proc_at_def)
  moreover have "spares s (s\<lparr>kern := k'\<rparr>)"
    using other(3,4) by (simp add: spares_def live_def root_of_def proc_at_def)
  ultimately show ?thesis by simp
qed

section \<open>Steps\<close>

lemma memory_map_checks:
  assumes "memory_map ke root addr p PTE_PWU k = Inr r"
  shows "page_aligned addr" "va_is_canonical addr"
proof -
  from assms obtain it x where it: "vmiter_at (kmem k) root addr = Inr it" "try_map ke p PTE_PWU it k = Inr x"
    by (auto simp: memory_map_def)
  note e = vmiter_at_end [OF it(1)]
  have t: "it_va it mod PAGESIZE = 0" "PTE_PWU AND NOT (it_perm it) AND (PTE_P OR PTE_W OR PTE_U) = 0"
    using it(2) by (simp_all add: try_map_def Let_def)
  then show "page_aligned addr" using e by (simp add: page_aligned_def)
  show "va_is_canonical addr"
  proof (rule ccontr)
    assume "\<not> va_is_canonical addr"
    then have "it_perm it = 0" using e unfolding at_end_def by (metis vmiter.select_convs(4))
    then show False using t(2) by (simp add: pte_defs)
  qed
qed

lemma page_alloc_isolated:
  assumes iso: "isolated L s" and r: "syscall_page_alloc L addr s = Inr (v, s')"
  shows "isolated L s' \<and> spares s s'"
proof -
  let ?ke = "kernel_end L" and ?root = "root_of s (current s)"
  obtain p k where a: "kalloc ?ke PAGESIZE (kern s) = (p, k)" by fastforce
  have cur: "live s (current s)" using iso by (simp add: isolated_def)
  show ?thesis
  proof (cases "p = 0")
    case True
    then have "k = kern s" using kalloc_none a by blast
    then have "s' = s" using r a True by (simp add: syscall_page_alloc_split)
    then show ?thesis using iso by (simp add: spares_def)
  next
    case False
    then obtain k' where k': "page_alloc ?ke ?root addr p k = Inr k'" "s' = s\<lparr>kern := k'\<rparr>"
      using r a by (auto simp: syscall_page_alloc_split root_of_def)
    then obtain x where "memory_map ?ke ?root addr p PTE_PWU k = Inr x" by (auto simp: page_alloc_def)
    note va = memory_map_checks [OF this]
    from page_alloc_ok [OF isolatedD(1) [OF iso cur] a False va] k'(1) obtain N
      where "allocated ?ke ?root addr p N (kern s) k'" by auto
    then show ?thesis unfolding k'(2) allocated_def by (blast intro: mapped_isolated [OF iso, THEN conjunct1] mapped_isolated [OF iso, THEN conjunct2])
  qed
qed

text \<open>A store of the current process: the hardware lets it change the word at \<open>va\<close> when the page is present, writable
and open to the user.\<close>

inductive user_store :: "os \<Rightarrow> os \<Rightarrow> bool" where
  user_store: "mmu (kmem (kern s)) (root_of s (current s)) va = Some (pa, perm) \<Longrightarrow> perm AND PTE_PWU = PTE_PWU \<Longrightarrow>
    in_page pa a \<Longrightarrow> user_store s (s\<lparr>kern := (kern s)\<lparr>kmem := (kmem (kern s))(a := w)\<rparr>\<rparr>)"

text \<open>The steps of the system: a system call, an interrupt or fault, a store.\<close>

inductive os_step :: "layout \<Rightarrow> os \<Rightarrow> os \<Rightarrow> bool" for L where
  step_syscall: "syscall L r s = Some (Inr (res, s')) \<Longrightarrow> os_step L s s'"
| step_exception: "exception L r s = Some (Inr (res, s')) \<Longrightarrow> os_step L s s'"
| step_store: "user_store s s' \<Longrightarrow> os_step L s s'"

inductive_cases os_stepE: "os_step L s s'"

lemma page_exists: "\<exists>f. page_aligned f \<and> in_page f a"
proof
  have "4096 dvd unat (push_bit 12 (drop_bit 12 a))" "unat a div 4096 = unat (push_bit 12 (drop_bit 12 a)) div 4096"
  proof -
    have "unat (push_bit 12 (drop_bit 12 a)) = unat (drop_bit 12 a) * 4096"
    proof (simp only: push_bit_eq_mult, subst unat_times_exact)
      have "unat a < 2 ^ 64" using unsigned_less [of a] by simp
      then show "unat (drop_bit 12 a) * unat (2 ^ 12 :: u64) < 2 ^ LENGTH(64)" by (simp only: unat_drop) simp
    qed simp
    then show "4096 dvd unat (push_bit 12 (drop_bit 12 a))" "unat a div 4096 = unat (push_bit 12 (drop_bit 12 a)) div 4096"
      by (simp_all only: unat_drop) simp_all
  qed
  then show "page_aligned (push_bit 12 (drop_bit 12 a)) \<and> in_page (push_bit 12 (drop_bit 12 a)) a"
    by (simp only: page_aligned_nat in_page_nat)
qed

lemma user_store_isolated:
  assumes iso: "isolated L s" and st: "user_store s s'"
  shows "isolated L s' \<and> spares s s'"
  using st
proof cases
  case (user_store va pa perm a w)
  let ?k = "kern s" and ?k' = "(kern s)\<lparr>kmem := (kmem (kern s))(a := w)\<rparr>"
  have cur: "live s (current s)" using iso by (simp add: isolated_def)
  note c = isolatedD(1) [OF iso cur]
  obtain f where f: "page_aligned f" "in_page f a" using page_exists by blast
  then have "in_page f pa" using user_store(4) by (simp add: in_page_def)
  moreover have "perm AND PTE_U \<noteq> 0"
  proof -
    have "perm AND PTE_U = (perm AND PTE_PWU) AND PTE_U" by (simp add: pte_defs and.assoc)
    then show ?thesis unfolding user_store(3) by (simp add: pte_defs)
  qed
  ultimately have own: "f \<in> frames (kmem ?k) (root_of s (current s)) \<or> f = CONSOLE_ADDR"
    using f(1) user_store(2) unfolding frames_def by blast
  have elsewhere: "\<not> in_page t a" if "live s i" "t \<in> owned (kmem ?k) (root_of s i)" "i \<noteq> current s \<or> t \<in> tables (kmem ?k) (root_of s i)" for i t
  proof
    assume "in_page t a"
    then have "t = f" using in_page_unique f owned_aligned [OF isolatedD(1) [OF iso that(1)] that(2)] by blast
    moreover have "t \<in> allocatable (kernel_end L)" using isolatedD(1) [OF iso that(1)] that(2) by (auto simp: space_ok_def)
    ultimately have "t \<in> frames (kmem ?k) (root_of s (current s))" using own console_not_allocatable by auto
    moreover have "t \<notin> frames (kmem ?k) (root_of s (current s))"
    proof (cases "i = current s")
      case True
      then show ?thesis using that(3) c by (auto simp: space_ok_def)
    next
      case False
      then show ?thesis using that(1,2) iso cur by (auto simp: isolated_def owned_def)
    qed
    ultimately show False by simp
  qed
  have same: "same_tables (kmem ?k) (kmem ?k') (root_of s i)" if "live s i" for i
    using elsewhere [OF that] by (auto simp: same_tables_def owned_def)
  have pages: "avail (kernel_end L) ?k' = avail (kernel_end L) ?k" "pages_ok ?k' = pages_ok ?k"
    by (simp_all add: avail_def free_page_def page_used_def pages_ok_def)
  have ok: "pages_ok ?k" using c by (simp add: space_ok_def table_ok_def)
  note sp = space_elsewhere [OF isolatedD(1) [OF iso] same, unfolded pages, OF _ _ order_refl ok]
  have "isolated L s'" using iso sp(1,2) unfolding user_store(1)
    by (simp add: isolated_def live_def root_of_def proc_at_def)
  moreover have "spares s s'" using sp(3) elsewhere unfolding user_store(1)
    by (auto simp: spares_def live_def root_of_def proc_at_def)
  ultimately show ?thesis by simp
qed

text \<open>Steps that go on from a changed descriptor.\<close>

lemma after_upd_proc:
  assumes iso: "isolated L s" and f: "\<And>p. pagetable (f p) = pagetable p" "\<And>p. pstate (f p) = P_FREE \<longleftrightarrow> pstate p = P_FREE"
    and go: "isolated L (upd_proc (current s) f s) \<Longrightarrow> isolated L s' \<and> spares (upd_proc (current s) f s) s'"
  shows "isolated L s' \<and> spares s s'"
proof -
  note u = isolated_upd_proc [OF iso f]
  with go have "isolated L s'" "spares (upd_proc (current s) f s) s'" by simp_all
  moreover from this(2) u have "spares s s'" by (intro spares_trans [of s "upd_proc (current s) f s" s']) simp_all
  ultimately show ?thesis by simp
qed

lemma resumed_result: "resumed r = Some (Inr (res, s')) \<longleftrightarrow> r = Some (Inr s') \<and> res = Exception_Return"
  by (auto simp: resumed_def rbind_eq_Some_Inr)

lemma schedule_isolated:
  assumes iso: "isolated L s" and r: "schedule L s = Some (Inr s')"
  shows "isolated L s' \<and> spares s s'"
proof -
  have "current s < NPROC" using iso by (simp add: isolated_def live_def)
  from schedule_result [OF r this] show ?thesis using isolated_current [OF iso] by blast
qed

lemma syscall_isolated:
  assumes iso: "isolated L s" and r: "syscall L rg s = Some (Inr (res, s'))"
  shows "isolated L s' \<and> spares s s'"
proof (rule after_upd_proc [OF iso, of "\<lambda>p. p\<lparr>regs := rg\<rparr>"])
  let ?s = "upd_proc (current s) (\<lambda>p. p\<lparr>regs := rg\<rparr>) s"
  assume iso1: "isolated L ?s"
  consider (getpid) "s' = ?s" | (yield) "schedule L (upd_proc (current ?s) (\<lambda>p. p\<lparr>regs := (regs p)\<lparr>reg_rax := 0\<rparr>\<rparr>) ?s) = Some (Inr s')"
    | (alloc) v where "syscall_page_alloc L (reg_rdi rg) ?s = Inr (v, s')"
    using r by (auto simp: syscall_def Let_def resumed_result rbind_eq_Some_Inr fails_def split: if_splits)
  then show "isolated L s' \<and> spares ?s s'"
  proof cases
    case getpid
    then show ?thesis using iso1 by (simp add: spares_def)
  next
    case yield
    show ?thesis
      by (rule after_upd_proc [OF iso1, of "\<lambda>p. p\<lparr>regs := (regs p)\<lparr>reg_rax := 0\<rparr>\<rparr>"])
        (use schedule_isolated [OF _ yield] in simp_all)
  next
    case alloc
    then show ?thesis by (rule page_alloc_isolated [OF iso1])
  qed
qed simp_all

lemma isolated_broken:
  assumes iso: "isolated L s"
  shows "isolated L (upd_proc (current s) (\<lambda>p. p\<lparr>pstate := P_BROKEN\<rparr>) s) \<and>
    spares s (upd_proc (current s) (\<lambda>p. p\<lparr>pstate := P_BROKEN\<rparr>) s)"
proof -
  let ?s = "upd_proc (current s) (\<lambda>p. p\<lparr>pstate := P_BROKEN\<rparr>) s"
  have c: "length (ptable s) = NPROC" "current s < NPROC" "live s (current s)" using iso by (simp_all add: isolated_def live_def)
  have "live ?s i \<longleftrightarrow> live s i" "root_of ?s i = root_of s i" for i
    using c(3) by (auto simp: live_def root_of_def proc_at_upd [OF c(1,2)])
  then show ?thesis using c by (intro isolated_same_kernel [OF iso]) simp_all
qed

lemma exception_isolated:
  assumes iso: "isolated L s" and r: "exception L rg s = Some (Inr (res, s'))"
  shows "isolated L s' \<and> spares s s'"
proof (rule after_upd_proc [OF iso, of "\<lambda>p. p\<lparr>regs := rg\<rparr>"])
  let ?s = "upd_proc (current s) (\<lambda>p. p\<lparr>regs := rg\<rparr>) s"
  assume iso1: "isolated L ?s"
  have c: "length (ptable ?s) = NPROC" "current ?s < NPROC" using iso1 by (simp_all add: isolated_def live_def)
  consider (timer) "schedule L (?s\<lparr>ticks := ticks ?s + 1\<rparr>) = Some (Inr s')"
    | (fault) "schedule L (upd_proc (current ?s) (\<lambda>p. p\<lparr>pstate := P_BROKEN\<rparr>) ?s) = Some (Inr s')"
    | (unreached) "pstate (proc_at (upd_proc (current ?s) (\<lambda>p. p\<lparr>pstate := P_BROKEN\<rparr>) ?s) (current ?s)) = P_RUNNABLE"
    using r by (auto simp: exception_def Let_def resumed_result fails_def split: if_splits)
  then show "isolated L s' \<and> spares ?s s'"
  proof cases
    case timer
    have "isolated L (?s\<lparr>ticks := ticks ?s + 1\<rparr>)" using iso1 by (simp add: isolated_def live_def root_of_def proc_at_def)
    from schedule_isolated [OF this timer] show ?thesis by (simp add: spares_def live_def root_of_def proc_at_def)
  next
    case fault
    let ?f = "\<lambda>p. p\<lparr>pstate := P_BROKEN\<rparr> :: proc"
    note u = isolated_broken [OF iso1]
    with schedule_isolated [OF _ fault] have "isolated L s' \<and> spares (upd_proc (current ?s) ?f ?s) s'" by blast
    then show ?thesis using u by (intro conjI spares_trans [of ?s "upd_proc (current ?s) ?f ?s" s']) simp_all
  next
    case unreached
    then show ?thesis using c by (simp add: proc_at_upd)
  qed
qed simp_all

lemma os_step_isolated: "os_step L s s' \<Longrightarrow> isolated L s \<Longrightarrow> isolated L s' \<and> spares s s'"
  by (erule os_stepE) (use syscall_isolated exception_isolated user_store_isolated in blast)+

lemma os_run_isolated: "(os_step L)\<^sup>*\<^sup>* s s' \<Longrightarrow> isolated L s \<Longrightarrow> isolated L s'"
  by (induction rule: rtranclp_induct) (use os_step_isolated in blast)+

section \<open>A system with two processes\<close>

text \<open>The tables of both are still empty.\<close>

lemma empty_root:
  assumes "page_aligned root" "\<And>a. in_page root a \<Longrightarrow> m a = 0"
  shows "stage m root va d = (if d = 0 then Some (root, 0xFFF) else None)" "tables m root = {root}" "wf_tables m root"
    "plain_at m root va" "mmu m root va = None" "frames m root = {}"
proof -
  have z: "m (slot root va l) = 0" for va l using assms slot_in_page by blast
  have s1: "stage m root va (Suc 0) = None" for va by (simp add: z descends_def Let_def PTE_P_def)
  have s: "stage m root va d = (if d = 0 then Some (root, 0xFFF) else None)" for va d
  proof (cases d)
    case (Suc n)
    have "stage m root va d = None"
    proof (rule ccontr)
      assume "stage m root va d \<noteq> None"
      then obtain tq where "stage m root va d = Some tq" by blast
      then show False using stage_earlier [of m root va d tq "Suc 0"] s1 Suc by auto
    qed
    then show ?thesis using Suc by simp
  qed simp
  show "stage m root va d = (if d = 0 then Some (root, 0xFFF) else None)" by (rule s)
  show "tables m root = {root}" by (auto simp: tables_def s split: if_splits)
  show "wf_tables m root" using assms(1) by (auto simp: wf_tables_def s same_path_def split: if_splits)
  show "plain_at m root va" by (auto simp: plain_at_def s z pte_defs split: if_splits)
  have n: "mmu m root va = None" for va
  proof (cases "va_is_canonical va")
    case True
    have "stage m root va 0 = Some (root, 0xFFF)" by simp
    from mmu_end [OF this s1 True] show ?thesis by (simp add: z)
  qed (simp add: mmu_def)
  show "mmu m root va = None" by (rule n)
  show "frames m root = {}" by (simp add: frames_def n)
qed

definition sample_layout :: layout where
  "sample_layout = \<lparr>kernel_end = 0x60000, kernel_pagetable = 0x50000, exception_entry = 0x40100\<rparr>"

definition os_with :: "u8 list \<Rightarrow> os" where
  "os_with counts = \<lparr>kern = \<lparr>kmem = (\<lambda>_. 0), pages = counts\<rparr>,
     ptable = (replicate 16 \<lparr>pagetable = 0, pid = 0, pstate = P_FREE, regs = zero_regs\<rparr>)
       [1 := \<lparr>pagetable = 0x1000, pid = 1, pstate = P_RUNNABLE, regs = zero_regs\<rparr>,
        2 := \<lparr>pagetable = 0x2000, pid = 2, pstate = P_RUNNABLE, regs = zero_regs\<rparr>],
     current = 1, ticks = 0\<rparr>"

definition sample_os :: os where
  "sample_os = os_with ((replicate 512 0)[1 := 1, 2 := 1])"

text \<open>The same with one page left.\<close>

definition full_os :: os where
  "full_os = os_with ((replicate 512 1)[10 := 0])"

lemma os_with_simps:
  "root_of (os_with c) 1 = 0x1000" "root_of (os_with c) (Suc 0) = 0x1000" "root_of (os_with c) 2 = 0x2000" "current (os_with c) = 1"
  "length (ptable (os_with c)) = NPROC" "kmem (kern (os_with c)) = (\<lambda>_. 0)" "pages (kern (os_with c)) = c"
  "live (os_with c) i \<longleftrightarrow> i = 1 \<or> i = 2"
  by (auto simp: root_of_def proc_at_def os_with_def NPROC_def live_def nth_list_update)

lemma os_with_isolated:
  assumes "length c = NPAGES" "c ! 1 \<noteq> 0" "c ! 2 \<noteq> 0"
  shows "isolated sample_layout (os_with c)"
proof -
  have al: "page_aligned 0x1000" "page_aligned 0x2000" by (simp_all add: page_aligned_def PAGESIZE_def)
  have z: "in_page r a \<Longrightarrow> kmem (kern (os_with c)) a = 0" for r a by (simp add: os_with_simps)
  note e1 = empty_root [OF al(1) z] and e2 = empty_root [OF al(2) z]
  have pk: "pages_ok (kern (os_with c))" using assms(1) by (simp add: pages_ok_def os_with_simps)
  have free: "free_page ke (kern (os_with c)) i \<Longrightarrow> i \<noteq> 1 \<and> i \<noteq> 2 \<and> i < NPAGES" for ke i
    using assms(2,3) by (auto simp: free_page_def page_used_def os_with_simps)
  have "of_nat i * PAGESIZE = 0x1000 \<Longrightarrow> i = 1" "of_nat i * PAGESIZE = 0x2000 \<Longrightarrow> i = 2" if "i < NPAGES" for i
    using page_address_inj [OF that, of 1] page_address_inj [OF that, of 2] by (simp_all add: NPAGES_def PAGESIZE_def)
  then have "0x1000 \<notin> avail ke (kern (os_with c))" "0x2000 \<notin> avail ke (kern (os_with c))" for ke
    using free by (auto simp: avail_def)
  then have "space_ok 0x60000 (kern (os_with c)) 0x1000" "space_ok 0x60000 (kern (os_with c)) 0x2000"
    using al pk e1(2-4,6) e2(2-4,6)
    by (simp_all add: space_ok_def table_ok_def owned_def allocatable_def allocatable_physical_address_def
        reserved_physical_address_def PAGESIZE_def KERNEL_START_ADDR_def KERNEL_STACK_TOP_def MEMSIZE_PHYSICAL_def)
  moreover have "kernel_end sample_layout = 0x60000" by (simp add: sample_layout_def)
  moreover have "owned (kmem (kern (os_with c))) 0x1000 = {0x1000}" "owned (kmem (kern (os_with c))) 0x2000 = {0x2000}"
    using e1(2,6) e2(2,6) by (simp_all add: owned_def)
  ultimately show ?thesis by (auto simp: isolated_def os_with_simps)
qed

lemma sample_isolated: "isolated sample_layout sample_os" "isolated sample_layout full_os"
  unfolding sample_os_def full_os_def by (rule os_with_isolated; simp add: NPAGES_def)+

text \<open>The first process allocates a page.\<close>

lemma sample_alloc: "case syscall_page_alloc sample_layout 0x100000 sample_os of Inl _ \<Rightarrow> False | Inr (v, _) \<Rightarrow> v = 0"
  by code_simp

section \<open>Properties\<close>

text \<open>C11: processes stay isolated. From a state in which no page belongs to two processes, whatever system calls, interrupts,
faults and stores follow, this stays so, and a step of one process leaves the page tables, the mappings and the
memory of every other process as they were.\<close>

theorem processes_stay_isolated:
  assumes "isolated L s0" "(os_step L)\<^sup>*\<^sup>* s0 s" "os_step L s s'"
  shows "isolated L s' \<and> spares s s'"
  using os_step_isolated [OF assms(3) os_run_isolated [OF assms(2,1)]] .

lemma processes_stay_isolated_witness:
  "\<exists>s'. os_step sample_layout sample_os s' \<and> isolated sample_layout s' \<and> spares sample_os s' \<and>
    kmem (kern s') \<noteq> kmem (kern sample_os)"
proof -
  let ?r = "zero_regs\<lparr>reg_rax := SYSCALL_PAGE_ALLOC, reg_rdi := 0x100000\<rparr>"
  have c: "case syscall sample_layout ?r sample_os of Some (Inr (res, s')) \<Rightarrow> kmem (kern s') 0x1000 \<noteq> 0 | _ \<Rightarrow> False"
    by code_simp
  then obtain res s' where s': "syscall sample_layout ?r sample_os = Some (Inr (res, s'))" "kmem (kern s') 0x1000 \<noteq> 0"
    by (auto split: option.splits sum.splits)
  have "os_step sample_layout sample_os s'" by (rule step_syscall [OF s'(1)])
  moreover from processes_stay_isolated [OF sample_isolated(1) _ this]
  have "isolated sample_layout s' \<and> spares sample_os s'" by blast
  moreover have "kmem (kern sample_os) 0x1000 = 0" by (simp add: sample_os_def os_with_simps)
  then have "kmem (kern s') \<noteq> kmem (kern sample_os)" using s'(2) by metis
  ultimately show ?thesis by blast
qed

text \<open>C21: \<open>syscall_page_alloc\<close> at a page-aligned canonical address has three outcomes: it returns -1 and changes nothing, and no
page is left; or it returns 0, and the address maps to a page that was free, filled with zeros and open to the user,
every other mapping is as before, and the pages taken are that page and new tables; or the kernel faults, and the
address was not mapped (no page is left for a table: see C33). The address is any page-aligned canonical one: the kernel does not refuse
those outside the process's part of memory, as \<open>u-lib.hh\<close> says (see C34). The page that was mapped before is not
released.\<close>

theorem page_alloc_outcomes:
  assumes "isolated L s" "page_aligned addr" "va_is_canonical addr"
  shows "syscall_page_alloc L addr s = Inr (-1, s) \<and> avail (kernel_end L) (kern s) = {} \<or>
    (\<exists>p N k'. syscall_page_alloc L addr s = Inr (0, s\<lparr>kern := k'\<rparr>) \<and>
       allocated (kernel_end L) (root_of s (current s)) addr p N (kern s) k') \<or>
    syscall_page_alloc L addr s = Inl Bad_Access \<and> mmu (kmem (kern s)) (root_of s (current s)) addr = None"
proof -
  let ?ke = "kernel_end L"
  have cur: "live s (current s)" using assms(1) by (simp add: isolated_def)
  obtain p k where a: "kalloc ?ke PAGESIZE (kern s) = (p, k)" by fastforce
  show ?thesis
  proof (cases "p = 0")
    case True
    with kalloc_none a show ?thesis by (auto simp: syscall_page_alloc_split)
  next
    case False
    from page_alloc_ok [OF isolatedD(1) [OF assms(1) cur] a False assms(2,3)] show ?thesis
      using a False by (auto simp: syscall_page_alloc_split root_of_def)
  qed
qed

lemma page_alloc_outcomes_witness:
  "\<exists>p N k'. syscall_page_alloc sample_layout 0x100000 sample_os = Inr (0, sample_os\<lparr>kern := k'\<rparr>) \<and>
     allocated 0x60000 0x1000 0x100000 p N (kern sample_os) k'"
proof -
  have "page_aligned 0x100000" "va_is_canonical 0x100000"
    by (simp_all add: page_aligned_def PAGESIZE_def va_is_canonical_def VA_LOWMAX_def)
  moreover have "root_of sample_os (current sample_os) = 0x1000" "kernel_end sample_layout = 0x60000"
    by (simp_all add: sample_os_def os_with_simps sample_layout_def)
  ultimately show ?thesis using page_alloc_outcomes [OF sample_isolated(1), of "0x100000"] sample_alloc by auto
qed

text \<open>C33: the result of \<open>memory_map\<close> is not checked: when one page is left and the address needs a new table, the page goes
to the process in vain and the kernel stores through the pointer \<open>-1\<close>.\<close>

theorem page_alloc_faults:
  assumes "isolated L s" "page_aligned addr" "va_is_canonical addr"
    and "avail (kernel_end L) (kern s) = {p}" "stage (kmem (kern s)) (root_of s (current s)) addr 3 = None"
  shows "syscall_page_alloc L addr s = Inl Bad_Access"
proof -
  let ?ke = "kernel_end L" and ?root = "root_of s (current s)"
  have cur: "live s (current s)" using assms(1) by (simp add: isolated_def)
  note ok = isolatedD(1) [OF assms(1) cur]
  have pok: "pages_ok (kern s)" using ok by (simp add: space_ok_def table_ok_def)
  obtain p' k where a: "kalloc ?ke PAGESIZE (kern s) = (p', k)" by fastforce
  have p': "p' \<noteq> 0" using a kalloc_none [of ?ke "kern s" k] assms(4) by auto
  have none: "avail ?ke k = {}" using kalloc_avail(1,2) [OF pok a p'] assms(4) by auto
  have kk: "kalloc ?ke PAGESIZE k = (0, k)"
  proof -
    obtain q k2 where b: "kalloc ?ke PAGESIZE k = (q, k2)" by fastforce
    then have "q = 0" using kalloc_avail(1) [OF kalloc_avail(3) [OF pok a p'] b] none by auto
    then show ?thesis using b kalloc_none by blast
  qed
  note el = kalloc_elsewhere [OF ok a p']
  have plain: "plain_at (kmem k) ?root addr" using el(2) by (simp add: space_ok_def)
  obtain d t q where s: "stage (kmem k) ?root addr d = Some (t, q)" "stage (kmem k) ?root addr (Suc d) = None"
    and it: "vmiter_at (kmem k) ?root addr = Inr (it_of ?root addr d t q)" using vmiter_at_plain [OF plain assms(3)] by blast
  have "d < 3" using stage_upto3 [OF s(1)] s(1) same_tables_frame(1) [OF el(1) isolatedD(2) [OF assms(1) cur]] assms(5)
    by (cases "d = 3") auto
  have e: "kmem k (slot t addr (3 - d)) AND PTE_P = 0"
    using plain_atD(3) [OF plain s(1) \<open>d < 3\<close>] s by (auto simp: Let_def split: if_splits)
  have loop: "map_loop ?ke PTE_PWU (it_of ?root addr d t q) k = Inr (False, it_of ?root addr d t q, k)"
    using e kk \<open>d < 3\<close> by (subst map_loop.simps) (simp add: it_of_def c_assert_def PTE_PWU_def)
  have "p' AND PTE_PAMASK = p'" by (rule avail_PAMASK [OF kalloc_avail(1) [OF pok a p']])
  then have "memory_map ?ke ?root addr p' PTE_PWU k = Inr (-1, k)"
    using it loop assms(2) plain_atD(1) [OF plain s(1)]
    by (simp add: memory_map_def try_map_present it_of_def page_aligned_def pte_defs)
  moreover have "mmu (kmem k) ?root addr = None" using mmu_end [OF s assms(3)] e by (simp add: Let_def)
  then have "memory_virtual_to_physical ?root addr k = Inr (-1)" using virtual_to_physical_mmu [OF plain assms(3)] by simp
  moreover have "\<not> page_aligned (-1)" by (simp add: page_aligned_def PAGESIZE_def)
  ultimately show ?thesis using a p' by (simp add: syscall_page_alloc_split page_alloc_def memset_page_def root_of_def)
qed

lemma page_alloc_faults_witness:
  "syscall_page_alloc sample_layout 0x100000 full_os = Inl Bad_Access"
proof (rule page_alloc_faults [OF sample_isolated(2)])
  show "page_aligned 0x100000" "va_is_canonical 0x100000"
    by (simp_all add: page_aligned_def PAGESIZE_def va_is_canonical_def VA_LOWMAX_def)
  have "free_page 0x60000 (kern full_os) i \<longleftrightarrow> i = 10" for i
    by (auto simp: free_page_def page_used_def full_os_def os_with_simps nth_list_update NPAGES_def PAGESIZE_def
        allocatable_physical_address_def reserved_physical_address_def KERNEL_START_ADDR_def KERNEL_STACK_TOP_def
        MEMSIZE_PHYSICAL_def)
  then show "avail (kernel_end sample_layout) (kern full_os) = {0xA000}"
    by (simp add: avail_def sample_layout_def PAGESIZE_def)
  have "page_aligned 0x1000" by (simp add: page_aligned_def PAGESIZE_def)
  from empty_root(1) [OF this, of "kmem (kern full_os)" "0x100000" 3]
  show "stage (kmem (kern full_os)) (root_of full_os (current full_os)) 0x100000 3 = None"
    unfolding full_os_def os_with_simps by simp
qed

end
