(* ===== verification/ProcessSetup.thy ===== *)
theory ProcessSetup
  imports Isolation
begin

text \<open>
  The address space that \<open>process_setup\<close> of \<open>project04a-wduan/kernel.c\<close> gives a new process before its program is loaded: a
  new table, the identity mapping of low memory for the kernel, nothing at \<open>NULL\<close>, the console for everybody.
\<close>

section \<open>A new page table\<close>

lemma kalloc_pagetable_ok:
  assumes ok: "pages_ok k" and a: "kalloc_pagetable ke k = (pt, k1)" "pt \<noteq> 0"
  shows "table_ok ke k1 pt" "\<forall>va. plain_at (kmem k1) pt va" "\<forall>va. mmu (kmem k1) pt va = None"
    "tables (kmem k1) pt = {pt}" "pt \<in> avail ke k" "avail ke k1 = avail ke k - {pt}"
    "touches {pt} k k1" "\<forall>q \<in> avail ke k1. pt < q"
proof -
  obtain k0 where k0: "kalloc ke PAGESIZE k = (pt, k0)" "k1 = k0\<lparr>kmem := set_page pt 0 (kmem k0)\<rparr>"
    using a by (auto simp: kalloc_pagetable_def split: prod.splits)
  note av = kalloc_avail [OF ok k0(1) a(2)]
  have al: "page_aligned pt" by (rule PAMASK_page [OF avail_PAMASK [OF av(1)]])
  have z: "in_page pt x \<Longrightarrow> kmem k1 x = 0" for x by (simp add: k0(2) set_page_def)
  note e = empty_root [OF al z]
  show "pt \<in> avail ke k" by (rule av(1))
  show av1: "avail ke k1 = avail ke k - {pt}" using av(2) by (simp add: k0(2) avail_def free_page_def page_used_def)
  show "tables (kmem k1) pt = {pt}" "\<forall>va. plain_at (kmem k1) pt va" "\<forall>va. mmu (kmem k1) pt va = None"
    using e(2,4,5) by simp_all
  show "touches {pt} k k1" by (simp add: touches_def k0(2) set_page_def av(4))
  show "\<forall>q \<in> avail ke k1. pt < q" using kalloc_first [OF k0(1) a(2)] av1 by (auto simp: le_less)
  show "table_ok ke k1 pt" using e(2,3) av1 av(3) by (simp add: table_ok_def k0(2) pages_ok_def)
qed

lemma memory_foreach_ok:
  assumes ok: "table_ok ke k root" and plain: "\<forall>va\<le>upper. plain_at (kmem k) root va"
    and upper: "page_aligned upper" "upper \<le> 0x200000"
  shows "\<exists>k' N. memory_foreach root upper (map_to_kernel_space ke) k = returns k' \<and> table_ok ke k' root \<and>
    grown ke root N k k' \<and> extends root (kmem k) (kmem k') \<and> card N \<le> 3 \<and> (stage (kmem k) root 0 3 \<noteq> None \<longrightarrow> N = {}) \<and>
    (avail ke k' \<noteq> {} \<longrightarrow> (\<forall>va. mmu (kmem k') root va = identity_below upper (PTE_P OR PTE_W) (mmu (kmem k) root) va))"
proof -
  have c: "va_is_canonical 0" by (simp add: va_is_canonical_def)
  have "plain_at (kmem k) root 0" using plain by simp
  from vmiter_at_plain [OF this c] obtain it where it: "vmiter_at (kmem k) root 0 = Inr it" by blast
  note e = vmiter_at_end [OF it]
  have al: "page_aligned (it_va it)" using e by (simp add: page_aligned_def)
  have "it_va it \<le> upper" using e by simp
  from foreach_identity [OF ok plain at_end_on_walk [OF conjunct1 [OF e]] al this upper] obtain k' N where
    "foreach_loop root upper (map_to_kernel_space ke) it k = returns k'" "table_ok ke k' root" "grown ke root N k k'"
    "extends root (kmem k) (kmem k')" "card N \<le> 3" "stage (kmem k) root (it_va it) 3 \<noteq> None \<longrightarrow> N = {}"
    "avail ke k' \<noteq> {} \<longrightarrow> (\<forall>va'. mmu (kmem k') root va' =
       (if it_va it \<le> va' \<and> va' < upper then Some (va', PTE_P OR PTE_W) else mmu (kmem k) root va'))" by blast
  then show ?thesis using it e by (intro exI [of _ k'] exI [of _ N]) (simp add: memory_foreach_def identity_below_def)
qed

text \<open>The mapping that \<open>setup_tables\<close> makes of an address space \<open>f\<close>.\<close>

definition low_space :: "(u64 \<Rightarrow> (u64 \<times> u64) option) \<Rightarrow> u64 \<Rightarrow> (u64 \<times> u64) option" where
  "low_space f va =
     (if va < PAGESIZE then None
      else if CONSOLE_ADDR \<le> va \<and> va < CONSOLE_ADDR + PAGESIZE then Some (va, PTE_PWU)
      else if va < PROC_START_ADDR then Some (va, PTE_P OR PTE_W)
      else f va)"

definition setup_map :: "u64 \<Rightarrow> (u64 \<times> u64) option" where
  "setup_map = low_space (\<lambda>_. None)"

lemma low_space_pages:
  assumes "m3 = (if drop_bit 12 va = drop_bit 12 CONSOLE_ADDR then Some (CONSOLE_ADDR + (va AND 0xFFF), PTE_PWU)
      else if drop_bit 12 va = drop_bit 12 (0 :: u64) then None
      else if va < PROC_START_ADDR then Some (va, PTE_P OR PTE_W) else f va)"
    and "drop_bit 12 va = drop_bit 12 CONSOLE_ADDR \<Longrightarrow> CONSOLE_ADDR + (va AND 0xFFF) = va"
  shows "m3 = low_space f va"
proof -
  have p2: "page_aligned CONSOLE_ADDR" "CONSOLE_ADDR < 0x100000000" and p3: "page_aligned 0" "(0::u64) < 0x100000000"
    by (simp_all add: page_aligned_def CONSOLE_ADDR_def PAGESIZE_def)
  have "\<not> (va < 0x1000 \<and> 0xB8000 \<le> va)" by unat_arith
  then show ?thesis using assms(2) unfolding assms(1) page_split(1) [OF p2] page_split(1) [OF p3]
    by (auto simp: low_space_def CONSOLE_ADDR_def PROC_START_ADDR_def PAGESIZE_def)
qed

text \<open>Only the console is open to the user.\<close>

lemma low_space_frames:
  assumes "low_space f va = Some (pa, perm)" "perm AND PTE_U \<noteq> 0" "page_aligned p" "in_page p pa"
  shows "p = CONSOLE_ADDR \<or> PROC_START_ADDR \<le> va \<and> f va = Some (pa, perm)"
proof -
  have c: "page_aligned CONSOLE_ADDR" "CONSOLE_ADDR < 0x100000000"
    by (simp_all add: page_aligned_def CONSOLE_ADDR_def PAGESIZE_def)
  have "(PTE_P OR PTE_W) AND PTE_U = 0" by (simp add: pte_defs)
  then have "CONSOLE_ADDR \<le> pa \<and> pa < CONSOLE_ADDR + PAGESIZE \<or> PROC_START_ADDR \<le> va \<and> f va = Some (pa, perm)"
    using assms(1,2) by (auto simp: low_space_def split: if_splits)
  then have "in_page CONSOLE_ADDR pa \<or> PROC_START_ADDR \<le> va \<and> f va = Some (pa, perm)"
    using page_split(1) [OF c, of pa] by (simp only: in_page_def)
  then show ?thesis using in_page_unique [OF assms(3) c(1) assms(4)] by blast
qed

text \<open>The three steps: low memory, \<open>NULL\<close>, the console. Tables are needed for the first only.\<close>

lemma setup_console:
  assumes ok: "table_ok ke k root" and plain: "plain_at (kmem k) root CONSOLE_ADDR" and av: "avail ke k \<noteq> {}"
    and three: "stage (kmem k) root CONSOLE_ADDR 3 \<noteq> None"
  shows "\<exists>k'. map_to_user_space ke root CONSOLE_ADDR k = Inr (True, k') \<and> table_ok ke k' root \<and> grown ke root {} k k' \<and>
    extends root (kmem k) (kmem k') \<and> (\<forall>va. mmu (kmem k') root va =
      (if drop_bit 12 va = drop_bit 12 CONSOLE_ADDR then Some (CONSOLE_ADDR + (va AND 0xFFF), PTE_PWU) else mmu (kmem k) root va))"
proof -
  have p: "page_aligned CONSOLE_ADDR" "CONSOLE_ADDR < 0x100000000" by (simp_all add: page_aligned_def CONSOLE_ADDR_def PAGESIZE_def)
  have perm: "PTE_PWU AND PTE_PWU = PTE_PWU" "PTE_PWU AND PTE_P \<noteq> 0" and pwu: "PTE_P OR PTE_W OR PTE_U = PTE_PWU"
    by (simp_all add: pte_defs)
  from memory_map_ok [OF ok plain low_canonical [OF p(2)] p(1) low_PAMASK [OF p] p(2) perm] three
  obtain r k' where k': "memory_map ke root CONSOLE_ADDR CONSOLE_ADDR PTE_PWU k = Inr (r, k')" "table_ok ke k' root"
    "grown ke root {} k k'" "extends root (kmem k) (kmem k')"
    and r: "if r = 0 then
       (\<forall>va'. mmu (kmem k') root va' =
         (if drop_bit 12 va' = drop_bit 12 CONSOLE_ADDR then Some (CONSOLE_ADDR + (va' AND 0xFFF), PTE_PWU) else mmu (kmem k) root va'))
     else r = -1 \<and> avail ke k' = {} \<and> (\<forall>va'. mmu (kmem k') root va' = mmu (kmem k) root va')" by metis
  have "r = 0" using r av k'(3) by (auto simp: grown_def split: if_splits)
  then show ?thesis using k' r by (auto simp: map_to_user_space_def pwu)
qed

lemma setup_tables_ok:
  assumes ok: "table_ok ke k root" and plain: "\<forall>va\<le>PROC_START_ADDR. plain_at (kmem k) root va" and room: "4 \<le> card (avail ke k)"
  shows "\<exists>k' N. setup_tables ke root k = returns k' \<and> table_ok ke k' root \<and> grown ke root N k k' \<and> card N \<le> 3 \<and>
    (stage (kmem k) root 0 3 \<noteq> None \<longrightarrow> N = {}) \<and> extends root (kmem k) (kmem k') \<and> stage (kmem k') root CONSOLE_ADDR 3 \<noteq> None \<and>
    (\<forall>va. mmu (kmem k') root va = low_space (mmu (kmem k) root) va)"
proof -
  have p1: "page_aligned PROC_START_ADDR" "PROC_START_ADDR \<le> 0x200000" "CONSOLE_ADDR \<le> PROC_START_ADDR" "0 \<le> PROC_START_ADDR"
    and p2: "page_aligned CONSOLE_ADDR" "CONSOLE_ADDR < 0x100000000" and p3: "page_aligned 0" "(0::u64) < 0x100000000"
    by (simp_all add: page_aligned_def PROC_START_ADDR_def CONSOLE_ADDR_def PAGESIZE_def)
  from memory_foreach_ok [OF ok plain p1(1,2)] obtain k1 N where k1:
    "memory_foreach root PROC_START_ADDR (map_to_kernel_space ke) k = returns k1" "table_ok ke k1 root" "grown ke root N k k1"
    "extends root (kmem k) (kmem k1)" "card N \<le> 3" "stage (kmem k) root 0 3 \<noteq> None \<longrightarrow> N = {}"
    "avail ke k1 \<noteq> {} \<Longrightarrow> mmu (kmem k1) root va = identity_below PROC_START_ADDR (PTE_P OR PTE_W) (mmu (kmem k) root) va" for va
    by blast
  have av1: "avail ke k1 \<noteq> {}"
  proof
    assume "avail ke k1 = {}"
    then have "avail ke k \<subseteq> N" using k1(3) by (auto simp: grown_def)
    moreover have "finite N" using k1(3) avail_finite finite_subset unfolding grown_def by blast
    ultimately show False using room k1(5) card_mono [of N "avail ke k"] by simp
  qed
  note map1 = k1(7) [OF av1, unfolded identity_below_def]
  have plain1: "plain_at (kmem k1) root 0" "plain_at (kmem k1) root CONSOLE_ADDR"
    using plain extends_plain [OF k1(4)] p1(3,4) by blast+
  from memory_unmap_ok [OF k1(2) plain1(1) low_canonical [OF p3(2)] p3(1), of 0] obtain k2 where k2:
    "memory_map ke root 0 0 0 k1 = Inr (0, k2)" "table_ok ke k2 root" "grown ke root {} k1 k2"
    "extends root (kmem k1) (kmem k2)"
    "mmu (kmem k2) root va = (if drop_bit 12 va = drop_bit 12 (0 :: u64) then None else mmu (kmem k1) root va)" for va by auto
  have "mmu (kmem k1) root CONSOLE_ADDR \<noteq> None" by (simp add: map1 CONSOLE_ADDR_def PROC_START_ADDR_def)
  then have "stage (kmem k1) root CONSOLE_ADDR 3 \<noteq> None" by (rule mapped_stage [OF plain1(2)])
  then have three: "stage (kmem k2) root CONSOLE_ADDR 3 \<noteq> None" using k2(4) by (auto simp: extends_def)
  have av2: "avail ke k2 \<noteq> {}" using av1 k2(3) by (simp add: grown_def)
  from setup_console [OF k2(2) extends_plain [OF k2(4) plain1(2)] av2 three] obtain k3 where k3:
    "map_to_user_space ke root CONSOLE_ADDR k2 = Inr (True, k3)" "table_ok ke k3 root" "grown ke root {} k2 k3"
    "extends root (kmem k2) (kmem k3)" "mmu (kmem k3) root va =
      (if drop_bit 12 va = drop_bit 12 CONSOLE_ADDR then Some (CONSOLE_ADDR + (va AND 0xFFF), PTE_PWU) else mmu (kmem k2) root va)"
    for va by blast
  have run: "setup_tables ke root k = returns k3"
    using k1(1) k2(1) k3(1) by (simp add: setup_tables_def map_to_nobody_def)
  have "mmu (kmem k3) root va = low_space (mmu (kmem k) root) va" for va
    using k3(5) [of va] page_split(2) [OF p2, of va] unfolding k2(5) map1 by (rule low_space_pages)
  moreover have "stage (kmem k3) root CONSOLE_ADDR 3 \<noteq> None" using three k3(4) by (auto simp: extends_def)
  ultimately show ?thesis
    using run k3(2) k1(5,6) grown_trans [OF k1(3) grown_trans [OF k2(3) k3(3)]] extends_trans [OF k1(4) extends_trans [OF k2(4) k3(4)]]
    by (intro exI [of _ k3] exI [of _ N]) simp
qed

text \<open>The address space of a new process before its program is loaded.\<close>

lemma new_space_ok:
  assumes "pages_ok k" "kalloc_pagetable ke k = (pt, k1)" "5 \<le> card (avail ke k)"
  shows "\<exists>k' N. setup_tables ke pt k1 = returns k' \<and> pt \<noteq> 0 \<and> (\<forall>va. mmu (kmem k') pt va = setup_map va) \<and> space_ok ke k' pt \<and>
    owned (kmem k') pt = insert pt N \<and> insert pt N \<subseteq> avail ke k \<and> avail ke k' = avail ke k - insert pt N \<and>
    card (insert pt N) \<le> 4 \<and> (\<forall>x \<in> insert pt N. \<forall>q \<in> avail ke k'. x < q) \<and> touches (insert pt N) k k' \<and>
    stage (kmem k') pt CONSOLE_ADDR 3 \<noteq> None"
proof -
  have pt: "pt \<noteq> 0"
  proof
    assume "pt = 0"
    then have "avail ke k = {}"
      using assms(2) kalloc_none [of ke k] by (auto simp: kalloc_pagetable_def split: prod.splits)
    then show False using assms(3) by simp
  qed
  note new = kalloc_pagetable_ok [OF assms(1,2) pt]
  have "4 \<le> card (avail ke k1)" using assms(3) new(5,6) avail_finite by simp
  from setup_tables_ok [OF new(1) _ this] new(2) obtain k' N where k': "setup_tables ke pt k1 = returns k'" "table_ok ke k' pt"
    "grown ke pt N k1 k'" "card N \<le> 3" "extends pt (kmem k1) (kmem k')" "stage (kmem k') pt CONSOLE_ADDR 3 \<noteq> None"
    "\<forall>va. mmu (kmem k') pt va = low_space (mmu (kmem k1) pt) va" by blast
  have plain: "\<forall>va. plain_at (kmem k') pt va" using new(2) extends_plain [OF k'(5)] by blast
  have "mmu (kmem k1) pt = (\<lambda>_. None)" using new(3) by blast
  then have map: "\<forall>va. mmu (kmem k') pt va = setup_map va" using k'(7) by (simp add: setup_map_def)
  then have fr: "frames (kmem k') pt = {}" unfolding frames_def setup_map_def using low_space_frames by fastforce
  have tab: "tables (kmem k') pt = insert pt N" "insert pt N \<subseteq> avail ke k" "card (insert pt N) \<le> 4"
    "avail ke k' = avail ke k - insert pt N" "\<forall>x \<in> insert pt N. \<forall>q \<in> avail ke k'. x < q"
    using k'(3,4) new(4-6,8) card_insert_le_m1 [of 4 N pt] by (auto simp: grown_def)
  have "touches (tables (kmem k') pt) k1 k'" using k'(3) unfolding grown_def touches_def by blast
  then have "touches (insert pt N) k1 k'" by (simp only: tab(1))
  then have "touches (insert pt N) k k'" by (rule touches_trans [OF new(7)]) auto
  moreover have "insert pt N \<subseteq> allocatable ke" using tab(2) avail_allocatable by (rule subset_trans)
  then have "space_ok ke k' pt" using k'(2) plain fr tab(1) by (auto simp: space_ok_def owned_def)
  ultimately show ?thesis using k'(1,6) map fr tab pt
    by (intro exI [of _ k'] exI [of _ N]) (simp add: owned_def)
qed

section \<open>Properties\<close>

text \<open>\<open>process_setup\<close> starts from an address space of its own: with five pages left, the new table maps the addresses
below \<open>PROC_START_ADDR\<close> to themselves for the kernel only, except that \<open>NULL\<close> is not mapped and the console is open
to the user; nothing else is mapped, and the tables are at most four pages that were free.\<close>

theorem new_address_space:
  assumes "pages_ok k" "kalloc_pagetable ke k = (pt, k1)" "5 \<le> card (avail ke k)"
  shows "\<exists>k'. setup_tables ke pt k1 = returns k' \<and> (\<forall>va. mmu (kmem k') pt va = setup_map va) \<and> space_ok ke k' pt \<and>
    owned (kmem k') pt \<subseteq> avail ke k \<and> card (owned (kmem k') pt) \<le> 4"
  using new_space_ok [OF assms] by metis

lemma sample_room: "5 \<le> card (avail 0x60000 (kern sample_os))"
proof -
  have "free_page 0x60000 (kern sample_os) i" if "i \<in> {0x60, 0x61, 0x62, 0x63, 0x64}" for i
    using that by (auto simp: free_page_def page_used_def sample_os_def os_with_simps NPAGES_def allocatable_physical_address_def
      reserved_physical_address_def round_up_def round_down_def PAGESIZE_def KERNEL_STACK_TOP_def MEMSIZE_PHYSICAL_def)
  then have "(\<lambda>i. of_nat i * PAGESIZE) ` {0x60, 0x61, 0x62, 0x63, 0x64} \<subseteq> avail 0x60000 (kern sample_os)"
    by (auto simp only: avail_def)
  then have "{0x60000, 0x61000, 0x62000, 0x63000, 0x64000} \<subseteq> avail 0x60000 (kern sample_os)" by (simp add: PAGESIZE_def)
  then have "card {0x60000, 0x61000, 0x62000, 0x63000, 0x64000 :: u64} \<le> card (avail 0x60000 (kern sample_os))"
    by (rule card_mono [OF avail_finite])
  then show ?thesis by simp
qed

theorem new_address_space_witness:
  "\<exists>pt k1 k'. kalloc_pagetable 0x60000 (kern sample_os) = (pt, k1) \<and> setup_tables 0x60000 pt k1 = returns k' \<and>
     mmu (kmem k') pt 0 = None \<and> mmu (kmem k') pt CONSOLE_ADDR = Some (CONSOLE_ADDR, PTE_PWU) \<and>
     space_ok 0x60000 k' pt"
proof -
  have ok: "pages_ok (kern sample_os)" by (simp add: pages_ok_def sample_os_def os_with_simps NPAGES_def)
  obtain pt k1 where k1: "kalloc_pagetable 0x60000 (kern sample_os) = (pt, k1)" by (rule prod.exhaust)
  from new_address_space [OF ok k1 sample_room] obtain k' where "setup_tables 0x60000 pt k1 = returns k'"
    "\<forall>va. mmu (kmem k') pt va = setup_map va" "space_ok 0x60000 k' pt" by blast
  then show ?thesis using k1
    by (intro exI [of _ pt] exI [of _ k1] exI [of _ k']) (simp add: setup_map_def low_space_def CONSOLE_ADDR_def PAGESIZE_def)
qed

end
