(* ===== verification/ProgramLoad.thy ===== *)
theory ProgramLoad
  imports ProcessSetup
begin

text \<open>
  Loading a program with \<open>process_setup\<close> of \<open>project04a-wduan/kernel.c\<close>: the pages of its segments are mapped, its bytes
  are stored at consecutive physical addresses, and it gets a stack. As \<open>kalloc\<close> takes the first free page, the pages of
  a segment follow each other when the first free pages do.
\<close>

section \<open>Bytes in words\<close>

definition byte_at :: "memory \<Rightarrow> u64 \<Rightarrow> u8" where
  "byte_at m a = ucast (drop_bit (8 * unat (a AND 7)) (m (a AND NOT 7)))"

lemma low_three: "unat (a AND 7 :: u64) = unat a mod 8" "unat (a AND 7 :: u64) < 8"
proof -
  have "a AND 7 = take_bit 3 a" by (simp add: take_bit_eq_mask mask_numeral)
  then have "unat (a AND 7) = take_bit 3 (unat a)" by (simp only: unsigned_take_bit_eq)
  then show "unat (a AND 7) = unat a mod 8" by (simp add: take_bit_eq_mod)
  then show "unat (a AND 7) < 8" by simp
qed

lemma same_byte: "a AND NOT 7 = b AND NOT 7 \<Longrightarrow> a AND 7 = b AND 7 \<Longrightarrow> a = (b :: u64)"
  by (metis bit.conj_disj_distrib bit.disj_cancel_right and.right_neutral or.commute)

lemma bit_255: "bit (0xFF :: u64) j \<longleftrightarrow> j < 8"
proof -
  have m: "(0xFF :: u64) = mask 8" by (simp add: mask_numeral)
  show ?thesis unfolding m by (auto simp: bit_simps)
qed

lemma put_get_byte:
  fixes W :: u64 and b :: u8
  assumes "n \<le> 56"
  shows "ucast (drop_bit n ((W AND NOT (push_bit n 0xFF)) OR push_bit n (ucast b))) = b"
proof (rule bit_word_eqI)
  fix j
  assume "j < LENGTH(8)"
  then show "bit (ucast (drop_bit n ((W AND NOT (push_bit n 0xFF)) OR push_bit n (ucast b))) :: u8) j = bit b j"
    using assms bit_255 [of j] by (auto simp: bit_simps)
qed

lemma put_get_other:
  fixes W :: u64 and b :: u8
  assumes "n \<le> 56" "k \<le> 56" "k + 8 \<le> n \<or> n + 8 \<le> k"
  shows "ucast (drop_bit k ((W AND NOT (push_bit n 0xFF)) OR push_bit n (ucast b))) = (ucast (drop_bit k W) :: u8)"
proof (rule bit_word_eqI)
  fix j
  assume "j < LENGTH(8)"
  then have j: "j < 8" "k + j < n \<or> n + 8 \<le> k + j" using assms(3) by auto
  define B :: u64 where "B = push_bit n 0xFF"
  have B: "\<not> bit B (k + j)" using j(2) bit_255 [of "k + j - n"] unfolding B_def by (auto simp: bit_push_bit_iff)
  have "\<not> bit b (k + j - n)" if "n \<le> k + j" using that j by (auto dest: bit_imp_le_length)
  then show "bit (ucast (drop_bit k ((W AND NOT (push_bit n 0xFF)) OR push_bit n (ucast b))) :: u8) j =
      bit (ucast (drop_bit k W) :: u8) j"
    unfolding B_def [symmetric] using assms(1,2) j B by (auto simp: bit_simps)
qed

lemma byte_at_put:
  "byte_at (put_byte a b m) x = (if x = a then b else byte_at m x)"
proof (cases "x AND NOT 7 = a AND NOT 7")
  case True
  let ?n = "8 * unat (a AND 7)" and ?k = "8 * unat (x AND 7)"
  define W where "W = m (a AND NOT 7)"
  have w: "byte_at (put_byte a b m) x = ucast (drop_bit ?k ((W AND NOT (push_bit ?n 0xFF)) OR push_bit ?n (ucast b)))"
    and w': "byte_at m x = ucast (drop_bit ?k W)"
    by (simp_all only: byte_at_def put_byte_def Let_def True W_def fun_upd_same)
  have n: "?n \<le> 56" "?k \<le> 56" using low_three(2) [of a] low_three(2) [of x] by simp_all
  show ?thesis
  proof (cases "x = a")
    case eq: True
    then have k: "?k = ?n" by (simp only:)
    show ?thesis unfolding w k put_get_byte [OF n(1)] using eq by (metis (full_types))
  next
    case False
    then have "x AND 7 \<noteq> a AND 7" using same_byte [OF True] by blast
    then have "unat (x AND 7) \<noteq> unat (a AND 7)" by (simp only: word_unat_eq_iff) simp
    then have "?k + 8 \<le> ?n \<or> ?n + 8 \<le> ?k" by linarith
    then show ?thesis unfolding w w' using put_get_other n False by simp
  qed
next
  case False
  then show ?thesis by (auto simp: byte_at_def put_byte_def Let_def)
qed

lemma byte_at_put_bytes:
  assumes "unat a + length bs < 2 ^ 64"
  shows "byte_at (put_bytes a bs m) x =
    (if unat a \<le> unat x \<and> unat x < unat a + length bs then bs ! (unat x - unat a) else byte_at m x)"
  using assms
proof (induction bs arbitrary: a m)
  case (Cons b bs)
  have n: "unat (a + 1) = unat a + 1" using Cons.prems by (subst unat_plus_exact) simp_all
  show ?case
    using Cons.IH [of "a + 1" "put_byte a b m"] Cons.prems n
    by (auto simp: byte_at_put nth_Cons' word_unat_eq_iff Suc_le_eq)
qed auto

text \<open>The words that change are in the pages of the bytes.\<close>

lemma word_of_byte_page: "in_page f (a AND NOT 7) \<longleftrightarrow> in_page f a"
proof -
  have "drop_bit 12 (a AND NOT 7) = drop_bit 12 a"
  proof -
    have m: "(7 :: u64) = mask 3" by (simp add: mask_numeral)
    show ?thesis unfolding m by (intro bit_eqI) (auto simp: bit_simps dest: bit_imp_le_length)
  qed
  then show ?thesis by (simp only: in_page_def)
qed

lemma put_bytes_elsewhere:
  assumes "\<And>i. i < length bs \<Longrightarrow> \<exists>f \<in> F. in_page f (a + of_nat i)" "\<forall>f \<in> F. \<not> in_page f x"
  shows "put_bytes a bs m x = m x"
  using assms(1)
proof (induction bs arbitrary: a m)
  case (Cons b bs)
  have "\<exists>f \<in> F. in_page f a" using Cons.prems [of 0] by simp
  then have "x \<noteq> a AND NOT 7" using assms(2) word_of_byte_page by blast
  moreover have "put_bytes (a + 1) bs (put_byte a b m) x = put_byte a b m x"
  proof (rule Cons.IH)
    fix i
    assume "i < length bs"
    then show "\<exists>f\<in>F. in_page f (a + 1 + of_nat i)" using Cons.prems [of "Suc i"] by (simp add: algebra_simps)
  qed
  ultimately show ?case by (simp add: put_byte_def Let_def)
qed simp

section \<open>Mapping the next page\<close>

text \<open>The pages a new process may take: its own and the free ones.\<close>

definition territory :: "u64 \<Rightarrow> u64 \<Rightarrow> kernel \<Rightarrow> u64 set" where
  "territory ke root k = owned (kmem k) root \<union> avail ke k"

text \<open>The address space has changed from \<open>k\<close> to \<open>k'\<close> within its territory.\<close>

definition settled :: "u64 \<Rightarrow> u64 \<Rightarrow> kernel \<Rightarrow> kernel \<Rightarrow> bool" where
  "settled ke root k k' \<longleftrightarrow> space_ok ke k' root \<and> extends root (kmem k) (kmem k') \<and>
     territory ke root k' \<subseteq> territory ke root k \<and> avail ke k' \<subseteq> avail ke k \<and> touches (territory ke root k) k k'"

lemma settled_refl: "space_ok ke k root \<Longrightarrow> settled ke root k k"
  by (simp add: settled_def extends_refl touches_def)

lemma settled_trans:
  assumes "settled ke root k k1" "settled ke root k1 k2"
  shows "settled ke root k k2"
proof -
  have "touches (territory ke root k) k k2"
    using assms by (auto simp: settled_def intro: touches_trans [of "territory ke root k" k k1 "territory ke root k1"])
  then show ?thesis using assms extends_trans unfolding settled_def by blast
qed

lemma map_next_page:
  assumes ok: "space_ok ke k root" and addr: "page_aligned addr" "va_is_canonical addr"
    and run: "page_run lo (Suc (c + Suc m)) (avail ke k)" and c: "c = 3 \<or> stage (kmem k) root addr 3 \<noteq> None"
  shows "\<exists>k1 k2 lo'. kalloc ke PAGESIZE k = (lo, k1) \<and> memory_map ke root addr lo PTE_PWU k1 = Inr (0, k2) \<and>
    settled ke root k k2 \<and> page_run lo' (Suc m) (avail ke k2) \<and>
    touches (insert lo (tables (kmem k2) root)) k k2 \<and> tables (kmem k2) root \<subseteq> tables (kmem k) root \<union> avail ke k \<and>
    (c = 0 \<longrightarrow> lo' = lo + PAGESIZE) \<and> (\<forall>va. mmu (kmem k2) root va =
       (if drop_bit 12 va = drop_bit 12 addr then Some (lo + (va AND 0xFFF), PTE_PWU) else mmu (kmem k) root va))"
proof -
  have pok: "pages_ok k" using ok by (simp add: space_ok_def table_ok_def)
  obtain k1 where a: "kalloc ke PAGESIZE k = (lo, k1)" using kernel_pages.alloc_run [OF pok run] by blast
  have pg: "\<And>p. p \<in> avail ke k \<Longrightarrow> low_page p" by (rule avail_low_page)
  note nxt = page_run_next [OF run pg]
  then have lo: "lo \<noteq> 0" using avail_nonzero by metis
  from map_new_page [OF ok a lo addr] obtain r k2 N where map: "memory_map ke root addr lo PTE_PWU k1 = Inr (r, k2)"
    and N: "card N \<le> 3" "stage (kmem k) root addr 3 \<noteq> None \<longrightarrow> N = {}" "N \<subseteq> avail ke k - {lo}"
      "avail ke k2 = avail ke k - {lo} - N" "\<forall>x \<in> N. \<forall>q \<in> avail ke k2. x < q"
    and ext: "extends root (kmem k) (kmem k2)"
    and r: "if r = 0 then mapped_page ke root addr lo N k k2
     else r = -1 \<and> avail ke k2 = {} \<and> (\<forall>va. plain_at (kmem k2) root va) \<and>
       (\<forall>va. mmu (kmem k2) root va = mmu (kmem k) root va)" by blast
  have "finite N" using N(3) avail_finite finite_subset by blast
  moreover have "card N \<le> c" using N(1,2) c by auto
  ultimately obtain lo' where "page_run lo' (Suc m) (avail ke k - {lo} - N)"
    using page_run_initial [OF nxt(2), of N] N(3-5) pg by auto
  then have run': "\<exists>lo'. page_run lo' (Suc m) (avail ke k2) \<and> (c = 0 \<longrightarrow> lo' = lo + PAGESIZE)"
    using nxt(2) N(2,4) c by (cases "c = 0") auto
  then obtain lo' where lo': "page_run lo' (Suc m) (avail ke k2)" "c = 0 \<longrightarrow> lo' = lo + PAGESIZE" by blast
  have "avail ke k2 \<noteq> {}" using page_run_next(1) [OF lo'(1)] pg N(4) by blast
  then have "r = 0" using r by (auto split: if_splits)
  then have m: "mapped_page ke root addr lo N k k2" using r by simp
  note sp = mapped_space [OF ok m]
  have "insert lo N \<subseteq> avail ke k" using N(3) nxt(1) by blast
  then have "settled ke root k k2"
    using sp ext m N(4) unfolding settled_def territory_def
    by (auto simp: mapped_page_def owned_def intro: touches_mono)
  moreover have "tables (kmem k2) root \<subseteq> tables (kmem k) root \<union> avail ke k" "touches (insert lo (tables (kmem k2) root)) k k2"
    using m N(3) by (auto simp: mapped_page_def)
  ultimately show ?thesis using a map \<open>r = 0\<close> lo' m by (auto simp: mapped_page_def)
qed

section \<open>Mapping segments\<close>

text \<open>The addresses below 2 MB share the table of the console.\<close>

definition low_tables :: "kernel \<Rightarrow> u64 \<Rightarrow> bool" where
  "low_tables k root \<longleftrightarrow> stage (kmem k) root CONSOLE_ADDR 3 \<noteq> None"

lemma low_tables_at: "low_tables k root \<Longrightarrow> va < 0x200000 \<Longrightarrow> stage (kmem k) root va 3 \<noteq> None"
proof -
  assume l: "low_tables k root" and va: "va < 0x200000"
  have "CONSOLE_ADDR < 0x200000" by (simp add: CONSOLE_ADDR_def)
  then have "same_path 3 va CONSOLE_ADDR" using low_same_table va by (simp add: same_path_def)
  then show ?thesis using l same_path_stage by (metis low_tables_def)
qed

lemma settled_low_tables: "settled ke root k k' \<Longrightarrow> low_tables k root \<Longrightarrow> low_tables k' root"
  by (auto simp: settled_def extends_def low_tables_def)

text \<open>\<open>n\<close> pages from \<open>a\<close> on, mapped to \<open>n\<close> pages from \<open>p\<close> on.\<close>

definition pages_at :: "u64 \<Rightarrow> nat \<Rightarrow> u64 \<Rightarrow> (u64 \<Rightarrow> (u64 \<times> u64) option) \<Rightarrow> u64 \<Rightarrow> (u64 \<times> u64) option" where
  "pages_at a n p f va =
     (if unat a \<le> unat va \<and> unat va < unat a + 4096 * n then Some (p + (va - a), PTE_PWU) else f va)"

lemma pages_at_0 [simp]: "pages_at a 0 p f = f"
  by (rule ext) (auto simp: pages_at_def)

lemma pages_at_Suc:
  assumes "page_aligned a" "a < 0x200000"
  shows "pages_at (a + PAGESIZE) n (p + PAGESIZE)
      (\<lambda>va. if drop_bit 12 va = drop_bit 12 a then Some (p + (va AND 0xFFF), PTE_PWU) else f va) = pages_at a (Suc n) p f"
proof
  fix va
  have a: "a < 0x100000000" using assms(2) by unat_arith
  have "unat a < 2 ^ 32" using a by (simp add: word_less_nat_alt)
  then have n: "unat (a + PAGESIZE) = unat a + 4096" by (subst unat_plus_exact) (simp_all add: PAGESIZE_def)
  have "p + (va AND 0xFFF) = p + (va - a)" if "drop_bit 12 va = drop_bit 12 a"
    using page_split(2) [OF assms(1) a that] by (simp add: algebra_simps)
  then show "pages_at (a + PAGESIZE) n (p + PAGESIZE)
      (\<lambda>va. if drop_bit 12 va = drop_bit 12 a then Some (p + (va AND 0xFFF), PTE_PWU) else f va) va = pages_at a (Suc n) p f va"
    using page_split(1) [OF assms(1) a, of va] n by (auto simp: pages_at_def word_le_nat_alt word_less_nat_alt)
qed

lemma segment_loop_ok:
  assumes "space_ok ke k root" "low_tables k root" "page_aligned a" "a \<le> 0x200000" "limit \<le> 0x200000"
    and "page_run lo (n + Suc m) (avail ke k)" "unat limit \<le> unat a + 4096 * n" "n \<noteq> 0 \<Longrightarrow> unat a + 4096 * (n - 1) < unat limit"
  shows "\<exists>k'. segment_loop ke root limit a k = returns k' \<and> settled ke root k k' \<and>
    page_run (lo + of_nat n * PAGESIZE) (Suc m) (avail ke k') \<and>
    mmu (kmem k') root = pages_at a n lo (mmu (kmem k) root)"
  using assms
proof (induction n arbitrary: a lo k)
  case 0
  then have "\<not> a < limit" by (simp add: word_less_nat_alt)
  then have "segment_loop ke root limit a k = returns k" by (subst segment_loop.simps) simp
  then show ?case using 0 settled_refl by simp
next
  case (Suc n)
  have a: "a < limit" "a < 0x200000" using Suc.prems(5,8) by (auto simp: word_less_nat_alt word_le_nat_alt)
  have c: "va_is_canonical a" by (rule low_canonical) (use a(2) in unat_arith)
  have "page_run lo (Suc (0 + Suc (n + m))) (avail ke k)" using Suc.prems(6) by simp
  from map_next_page [OF Suc.prems(1,3) c this] low_tables_at [OF Suc.prems(2) a(2)] obtain k1 k2 where
    k2: "kalloc ke PAGESIZE k = (lo, k1)" "memory_map ke root a lo PTE_PWU k1 = Inr (0, k2)" "settled ke root k k2"
    "page_run (lo + PAGESIZE) (Suc (n + m)) (avail ke k2)"
    and mmu: "\<forall>va. mmu (kmem k2) root va =
       (if drop_bit 12 va = drop_bit 12 a then Some (lo + (va AND 0xFFF), PTE_PWU) else mmu (kmem k) root va)" by blast
  have up: "page_aligned 0x200000" "(0x200000 :: u64) < 0x100000000" by (simp_all add: page_aligned_def PAGESIZE_def)
  note nxt = next_page [OF Suc.prems(3) up(1) a(2) up(2)]
  have sp: "space_ok ke k2 root" using k2(3) by (simp add: settled_def)
  have "n \<noteq> 0 \<Longrightarrow> unat (a + PAGESIZE) + 4096 * (n - 1) < unat limit" using Suc.prems(8) nxt(4) by (cases n) auto
  then obtain k' where k': "segment_loop ke root limit (a + PAGESIZE) k2 = returns k'" "settled ke root k2 k'"
    "page_run (lo + PAGESIZE + of_nat n * PAGESIZE) (Suc m) (avail ke k')"
    "mmu (kmem k') root = pages_at (a + PAGESIZE) n (lo + PAGESIZE) (mmu (kmem k2) root)"
    using Suc.IH [OF sp settled_low_tables [OF k2(3) Suc.prems(2)] nxt(3,2) Suc.prems(5), of "lo + PAGESIZE"]
      k2(4) Suc.prems(7) nxt(4) by auto
  have "segment_loop ke root limit a k = returns k'"
    using a(1) k2(1,2) k'(1) by (subst segment_loop.simps) simp
  moreover have "mmu (kmem k2) root =
      (\<lambda>va. if drop_bit 12 va = drop_bit 12 a then Some (lo + (va AND 0xFFF), PTE_PWU) else mmu (kmem k) root va)"
    using mmu by blast
  then have "mmu (kmem k') root = pages_at a (Suc n) lo (mmu (kmem k) root)"
    unfolding k'(4) by (simp only: pages_at_Suc [OF Suc.prems(3) a(2)])
  ultimately show ?case using settled_trans [OF k2(3) k'(2)] k'(3) by (simp add: algebra_simps)
qed

text \<open>The pages of a segment, and where its memory begins.\<close>

definition seg_base :: "segment \<Rightarrow> u64" where
  "seg_base seg = round_down (seg_va seg) PAGESIZE"

definition seg_pages :: "segment \<Rightarrow> nat" where
  "seg_pages seg = (unat (seg_va seg) mod 4096 + unat (seg_size seg) + 4095) div 4096"

definition page_count :: "segment list \<Rightarrow> nat" where
  "page_count segs = sum_list (map seg_pages segs)"

definition seg_ok :: "segment \<Rightarrow> bool" where
  "seg_ok seg \<longleftrightarrow> seg_size seg \<noteq> 0 \<and> unat (seg_va seg) + unat (seg_size seg) \<le> 0x200000 \<and>
     length (seg_data seg) \<le> unat (seg_size seg)"

text \<open>Segments in the order of their addresses, no two in one page, from the address \<open>lower\<close> on.\<close>

fun segs_ok :: "nat \<Rightarrow> segment list \<Rightarrow> bool" where
  "segs_ok lower [] \<longleftrightarrow> True"
| "segs_ok lower (seg # segs) \<longleftrightarrow> lower \<le> unat (seg_base seg) \<and> seg_ok seg \<and>
     segs_ok (unat (seg_base seg) + 4096 * seg_pages seg) segs"

fun placed :: "u64 \<Rightarrow> segment list \<Rightarrow> (segment \<times> u64) list" where
  "placed lo [] = []"
| "placed lo (seg # segs) = (seg, lo) # placed (lo + of_nat (seg_pages seg) * PAGESIZE) segs"

fun segs_map :: "(segment \<times> u64) list \<Rightarrow> (u64 \<Rightarrow> (u64 \<times> u64) option) \<Rightarrow> u64 \<Rightarrow> (u64 \<times> u64) option" where
  "segs_map [] f = f"
| "segs_map ((seg, p) # sps) f = segs_map sps (pages_at (seg_base seg) (seg_pages seg) p f)"

lemma seg_base_nat: "unat (seg_base seg) = unat (seg_va seg) - unat (seg_va seg) mod 4096" "page_aligned (seg_base seg)"
  "seg_base seg \<le> seg_va seg" "unat (seg_va seg - seg_base seg) = unat (seg_va seg) mod 4096"
proof -
  have m: "unat (seg_va seg mod PAGESIZE) = unat (seg_va seg) mod 4096" by (simp add: PAGESIZE_def unat_mod_distrib)
  have le: "seg_va seg mod PAGESIZE \<le> seg_va seg" using m by (simp add: word_le_nat_alt)
  show n: "unat (seg_base seg) = unat (seg_va seg) - unat (seg_va seg) mod 4096"
    unfolding seg_base_def round_down_def using m le by (simp add: unat_sub)
  then show "page_aligned (seg_base seg)" by (simp add: page_aligned_nat)
  show "seg_base seg \<le> seg_va seg" using n by (simp add: word_le_nat_alt)
  show "unat (seg_va seg - seg_base seg) = unat (seg_va seg) mod 4096"
    unfolding seg_base_def round_down_def using m by simp
qed

lemma seg_pages_bounds:
  assumes "seg_ok seg"
  shows "seg_pages seg \<noteq> 0" "unat (seg_va seg + seg_size seg) = unat (seg_va seg) + unat (seg_size seg)"
    "unat (seg_va seg + seg_size seg) \<le> unat (seg_base seg) + 4096 * seg_pages seg"
    "unat (seg_base seg) + 4096 * (seg_pages seg - 1) < unat (seg_va seg + seg_size seg)"
    "unat (seg_va seg) mod 4096 + unat (seg_size seg) \<le> 4096 * seg_pages seg"
proof -
  let ?x = "unat (seg_va seg) mod 4096 + unat (seg_size seg)"
  have s: "0 < unat (seg_size seg)" using assms by (simp add: seg_ok_def unat_gt_0)
  show e: "unat (seg_va seg + seg_size seg) = unat (seg_va seg) + unat (seg_size seg)"
    using assms by (intro unat_plus_exact) (simp add: seg_ok_def)
  have b: "unat (seg_base seg) + unat (seg_va seg) mod 4096 = unat (seg_va seg)" by (simp add: seg_base_nat(1))
  have n: "seg_pages seg = (?x + 4095) div 4096" by (simp add: seg_pages_def add.assoc)
  have "?x \<le> 4096 * ((?x + 4095) div 4096)" "4096 * ((?x + 4095) div 4096 - 1) < ?x" "(?x + 4095) div 4096 \<noteq> 0"
    using s by linarith+
  then show "seg_pages seg \<noteq> 0" "unat (seg_va seg + seg_size seg) \<le> unat (seg_base seg) + 4096 * seg_pages seg"
    "unat (seg_base seg) + 4096 * (seg_pages seg - 1) < unat (seg_va seg + seg_size seg)"
    "unat (seg_va seg) mod 4096 + unat (seg_size seg) \<le> 4096 * seg_pages seg"
    unfolding n [symmetric] e using b by linarith+
qed

lemma map_segments_ok:
  assumes "space_ok ke k root" "low_tables k root" "segs_ok lower segs" "page_run lo (page_count segs + Suc m) (avail ke k)"
  shows "\<exists>k'. map_segments ke root segs k = returns k' \<and> settled ke root k k' \<and>
    page_run (lo + of_nat (page_count segs) * PAGESIZE) (Suc m) (avail ke k') \<and>
    mmu (kmem k') root = segs_map (placed lo segs) (mmu (kmem k) root)"
  using assms
proof (induction segs arbitrary: lower lo k)
  case Nil
  then show ?case using settled_refl by (simp add: page_count_def)
next
  case (Cons seg segs)
  let ?limit = "seg_va seg + seg_size seg"
  have seg: "seg_ok seg" and segs: "segs_ok (unat (seg_base seg) + 4096 * seg_pages seg) segs" using Cons.prems(3) by simp_all
  note b = seg_pages_bounds [OF seg]
  have "?limit \<le> 0x200000" "seg_base seg \<le> 0x200000"
    using seg b(2) seg_base_nat(3) [of seg] by (auto simp: seg_ok_def word_le_nat_alt)
  moreover have "page_run lo (seg_pages seg + Suc (page_count segs + m)) (avail ke k)"
    using Cons.prems(4) by (simp add: page_count_def add.assoc)
  ultimately obtain k1 where k1: "segment_loop ke root ?limit (seg_base seg) k = returns k1" "settled ke root k k1"
    "page_run (lo + of_nat (seg_pages seg) * PAGESIZE) (Suc (page_count segs + m)) (avail ke k1)"
    "mmu (kmem k1) root = pages_at (seg_base seg) (seg_pages seg) lo (mmu (kmem k) root)"
    using segment_loop_ok [OF Cons.prems(1,2) seg_base_nat(2) _ _ _ b(3,4)] by blast
  have sp: "space_ok ke k1 root" using k1(2) by (simp add: settled_def)
  from Cons.IH [OF sp settled_low_tables [OF k1(2) Cons.prems(2)] segs, of "lo + of_nat (seg_pages seg) * PAGESIZE"] k1(3)
  obtain k' where k': "map_segments ke root segs k1 = returns k'" "settled ke root k1 k'"
    "page_run (lo + of_nat (seg_pages seg) * PAGESIZE + of_nat (page_count segs) * PAGESIZE) (Suc m) (avail ke k')"
    "mmu (kmem k') root = segs_map (placed (lo + of_nat (seg_pages seg) * PAGESIZE) segs) (mmu (kmem k1) root)" by auto
  have "map_segments ke root (seg # segs) k = returns k'" using k1(1) k'(1) by (simp add: seg_base_def)
  moreover have "lo + of_nat (seg_pages seg) * PAGESIZE + of_nat (page_count segs) * PAGESIZE =
      lo + of_nat (page_count (seg # segs)) * PAGESIZE" by (simp add: page_count_def algebra_simps)
  then have "page_run (lo + of_nat (page_count (seg # segs)) * PAGESIZE) (Suc m) (avail ke k')" using k'(3) by (simp only:)
  moreover have "mmu (kmem k') root = segs_map (placed lo (seg # segs)) (mmu (kmem k) root)" using k'(4) k1(4) by simp
  ultimately show ?case using settled_trans [OF k1(2) k'(2)] by blast
qed

text \<open>What the mapping of the segments is.\<close>

lemma segs_map_below: "segs_ok lower segs \<Longrightarrow> unat va < lower \<Longrightarrow> segs_map (placed lo segs) f va = f va"
proof (induction segs arbitrary: lower lo f)
  case (Cons seg segs)
  have "segs_map (placed (lo + of_nat (seg_pages seg) * PAGESIZE) segs) g va = g va" for g
    using Cons.prems by (intro Cons.IH [of "unat (seg_base seg) + 4096 * seg_pages seg"]) simp_all
  then show ?case using Cons.prems by (simp add: pages_at_def)
qed simp

lemma segs_map_at:
  assumes "segs_ok lower segs" "(seg, p) \<in> set (placed lo segs)"
    and "unat (seg_base seg) \<le> unat va" "unat va < unat (seg_base seg) + 4096 * seg_pages seg"
  shows "segs_map (placed lo segs) f va = Some (p + (va - seg_base seg), PTE_PWU)"
  using assms
proof (induction segs arbitrary: lower lo f)
  case (Cons s segs)
  show ?case
  proof (cases "(seg, p) = (s, lo)")
    case True
    then show ?thesis using Cons.prems segs_map_below [of "unat (seg_base s) + 4096 * seg_pages s" segs va]
      by (simp add: pages_at_def)
  next
    case False
    then show ?thesis using Cons.prems Cons.IH by auto
  qed
qed simp

section \<open>Loading segments\<close>

text \<open>Where the bytes of a segment go when its pages are mapped to the pages from \<open>p\<close> on.\<close>

definition seg_ptr :: "segment \<Rightarrow> u64 \<Rightarrow> u64" where
  "seg_ptr seg p = p + (seg_va seg - seg_base seg)"

definition seg_loaded :: "memory \<Rightarrow> segment \<Rightarrow> u64 \<Rightarrow> bool" where
  "seg_loaded m seg p \<longleftrightarrow> (\<forall>j < unat (seg_size seg). byte_at m (seg_ptr seg p + of_nat j) =
     (if j < length (seg_data seg) then seg_data seg ! j else 0))"

text \<open>A segment whose pages are among \<open>F\<close>.\<close>

definition seg_fits :: "u64 set \<Rightarrow> segment \<Rightarrow> u64 \<Rightarrow> bool" where
  "seg_fits F seg p \<longleftrightarrow> seg_ok seg \<and> PAGESIZE \<le> p \<and> unat p + 4096 * seg_pages seg \<le> 0x200000 \<and>
     (\<forall>i < seg_pages seg. p + of_nat i * PAGESIZE \<in> F)"

lemma seg_ptr_nat:
  assumes "seg_fits F seg p"
  shows "unat (seg_ptr seg p) = unat p + unat (seg_va seg) mod 4096"
    "unat (seg_ptr seg p) + unat (seg_size seg) \<le> unat p + 4096 * seg_pages seg"
    "j \<le> unat (seg_size seg) \<Longrightarrow> unat (seg_ptr seg p + of_nat j) = unat (seg_ptr seg p) + j"
proof -
  have ok: "seg_ok seg" and p: "unat p + 4096 * seg_pages seg \<le> 0x200000" using assms by (simp_all add: seg_fits_def)
  note b = seg_pages_bounds(5) [OF ok]
  show n: "unat (seg_ptr seg p) = unat p + unat (seg_va seg) mod 4096"
    unfolding seg_ptr_def using b p by (subst unat_plus_exact) (simp_all add: seg_base_nat(4))
  then show e: "unat (seg_ptr seg p) + unat (seg_size seg) \<le> unat p + 4096 * seg_pages seg" using b by simp
  assume j: "j \<le> unat (seg_size seg)"
  then have "unat (of_nat j :: u64) = j" using e p by (simp add: unat_of_nat)
  then show "unat (seg_ptr seg p + of_nat j) = unat (seg_ptr seg p) + j"
    using e p j by (subst unat_plus_exact) simp_all
qed

lemma seg_byte_page:
  assumes fits: "seg_fits F seg p" and p: "page_aligned p" and j: "j < unat (seg_size seg)"
  shows "\<exists>f\<in>F. in_page f (seg_ptr seg p + of_nat j)"
proof -
  let ?x = "unat (seg_va seg) mod 4096 + j"
  have low: "unat p + 4096 * seg_pages seg \<le> 0x200000" using fits by (simp add: seg_fits_def)
  have x: "unat (seg_ptr seg p + of_nat j) = unat p + ?x" "?x < 4096 * seg_pages seg"
    using seg_ptr_nat(1,2) [OF fits] seg_ptr_nat(3) [OF fits, of j] j by simp_all
  let ?i = "?x div 4096"
  have i: "?i < seg_pages seg" using x(2) by (simp add: less_mult_imp_div_less mult.commute)
  have "unat (of_nat ?i * PAGESIZE :: u64) = ?i * 4096"
    unfolding PAGESIZE_def using i low by (subst unat_times_exact) (simp_all add: unat_of_nat)
  then have "unat (p + of_nat ?i * PAGESIZE) = unat p + ?i * 4096"
    using i low by (subst unat_plus_exact) simp_all
  moreover obtain q where "unat p = 4096 * q" using p by (auto simp: page_aligned_nat)
  ultimately have "in_page (p + of_nat ?i * PAGESIZE) (seg_ptr seg p + of_nat j)"
    unfolding in_page_nat x(1) by simp
  then show ?thesis using fits i unfolding seg_fits_def by blast
qed

text \<open>The two stores of one segment.\<close>

lemma store_segment:
  assumes fits: "seg_fits F seg p" and p: "page_aligned p"
  shows "\<exists>k'. ebind (store_bytes (seg_ptr seg p) (replicate (unat (seg_size seg)) 0) k) (\<lambda>k.
      store_bytes (seg_ptr seg p) (seg_data seg) k) = Inr k' \<and>
    pages k' = pages k \<and> touches F k k' \<and> seg_loaded (kmem k') seg p \<and>
    (\<forall>x. unat x < unat p \<or> unat p + 4096 * seg_pages seg \<le> unat x \<longrightarrow> byte_at (kmem k') x = byte_at (kmem k) x)"
proof -
  let ?a = "seg_ptr seg p" and ?n = "unat (seg_size seg)"
  have f: "length (seg_data seg) \<le> ?n" "PAGESIZE \<le> p" "unat p + 4096 * seg_pages seg \<le> 0x200000"
    using fits by (simp_all add: seg_fits_def seg_ok_def)
  note n = seg_ptr_nat [OF fits]
  have a: "PAGESIZE \<le> ?a" "unat ?a + ?n \<le> unat MEMSIZE_PHYSICAL" "unat ?a + ?n < 2 ^ 64"
    using f n(1,2) by (simp_all add: word_le_nat_alt MEMSIZE_PHYSICAL_def)
  define k1 where "k1 = k\<lparr>kmem := put_bytes ?a (replicate ?n 0) (kmem k)\<rparr>"
  define k2 where "k2 = k1\<lparr>kmem := put_bytes ?a (seg_data seg) (kmem k1)\<rparr>"
  have run: "ebind (store_bytes ?a (replicate ?n 0) k) (\<lambda>k. store_bytes ?a (seg_data seg) k) = Inr k2"
    using a(1,2) f(1) by (simp add: store_bytes_def k1_def k2_def)
  have "put_bytes ?a bs m x = m x" if "length bs \<le> ?n" "\<forall>f\<in>F. \<not> in_page f x" for bs m x
    by (rule put_bytes_elsewhere [OF seg_byte_page [OF fits p] that(2)]) (use that(1) in simp)
  then have "touches F k k1" "touches F k1 k2" using f(1) by (simp_all add: touches_def k1_def k2_def)
  then have touch: "touches F k k2" by (rule touches_trans) auto
  have bytes: "byte_at (kmem k2) x =
      (if unat ?a \<le> unat x \<and> unat x < unat ?a + length (seg_data seg) then seg_data seg ! (unat x - unat ?a)
       else if unat ?a \<le> unat x \<and> unat x < unat ?a + ?n then 0 else byte_at (kmem k) x)" for x
    using a(3) f(1) by (auto simp: k2_def k1_def byte_at_put_bytes)
  have "seg_loaded (kmem k2) seg p" unfolding seg_loaded_def bytes using n(3) by auto
  moreover have "byte_at (kmem k2) x = byte_at (kmem k) x" if "unat x < unat p \<or> unat p + 4096 * seg_pages seg \<le> unat x" for x
    unfolding bytes using n(1,2) that f(1) by auto
  ultimately show ?thesis using run touch by (intro exI [of _ k2]) (simp add: k1_def k2_def)
qed

definition before :: "segment \<times> u64 \<Rightarrow> segment \<times> u64 \<Rightarrow> bool" where
  "before sp sp' \<longleftrightarrow> unat (snd sp) + 4096 * seg_pages (fst sp) \<le> unat (snd sp')"

lemma load_segments_ok:
  assumes "page_aligned root" "\<forall>va. plain_at (kmem k) root va" "F \<inter> tables (kmem k) root = {}" "\<forall>f \<in> F. page_aligned f"
    and "\<forall>(seg, p) \<in> set sps. seg_fits F seg p \<and> page_aligned p \<and> mmu (kmem k) root (seg_va seg) = Some (seg_ptr seg p, PTE_PWU)"
    and "sorted_wrt before sps"
  shows "\<exists>k'. load_segments root (map fst sps) k = Inr k' \<and> pages k' = pages k \<and> touches F k k' \<and>
    (\<forall>(seg, p) \<in> set sps. seg_loaded (kmem k') seg p) \<and>
    (\<forall>x. (\<forall>sp \<in> set sps. unat x < unat (snd sp)) \<longrightarrow> byte_at (kmem k') x = byte_at (kmem k) x)"
  using assms
proof (induction sps arbitrary: k)
  case Nil
  then show ?case by (simp add: touches_def)
next
  case (Cons sp sps)
  obtain seg p where sp: "sp = (seg, p)" by fastforce
  have fits: "seg_fits F seg p" and p: "page_aligned p" and mmu: "mmu (kmem k) root (seg_va seg) = Some (seg_ptr seg p, PTE_PWU)"
    using Cons.prems(5) sp by auto
  have "va_is_canonical (seg_va seg)" using mmu by (auto simp: mmu_def split: if_splits)
  from virtual_to_physical_mmu [OF spec [OF Cons.prems(2)] this]
  have ptr: "memory_virtual_to_physical root (seg_va seg) k = Inr (seg_ptr seg p)" using mmu by simp
  from store_segment [OF fits p] obtain k1 where k1:
    "ebind (store_bytes (seg_ptr seg p) (replicate (unat (seg_size seg)) 0) k) (\<lambda>k.
      store_bytes (seg_ptr seg p) (seg_data seg) k) = Inr k1"
    "pages k1 = pages k" "touches F k k1" "seg_loaded (kmem k1) seg p"
    "\<And>x. unat x < unat p \<or> unat p + 4096 * seg_pages seg \<le> unat x \<Longrightarrow> byte_at (kmem k1) x = byte_at (kmem k) x" by blast
  have same: "same_tables (kmem k) (kmem k1) root"
    using k1(3) Cons.prems(1,3,4) in_page_unique tables_aligned unfolding same_tables_def touches_def by (metis disjoint_iff)
  note st = same_tables_frame [OF same Cons.prems(1)]
  have "\<forall>va. plain_at (kmem k1) root va" using Cons.prems(2) plain_same [OF same Cons.prems(1)] by blast
  from Cons.IH [OF Cons.prems(1) this _ Cons.prems(4)] Cons.prems(3,5,6) obtain k' where k':
    "load_segments root (map fst sps) k1 = Inr k'" "pages k' = pages k1" "touches F k1 k'"
    "\<forall>(seg, p) \<in> set sps. seg_loaded (kmem k') seg p"
    "\<And>x. \<forall>sp \<in> set sps. unat x < unat (snd sp) \<Longrightarrow> byte_at (kmem k') x = byte_at (kmem k1) x"
    by (auto simp: st)
  have "load_segments root (map fst (sp # sps)) k = Inr k'"
    using k1(1) k'(1) ptr by (auto simp: sp ebind_eq_Inr)
  moreover have "touches F k k'" using k1(3) k'(3) by (rule touches_trans) auto
  moreover have "seg_loaded (kmem k') seg p"
    unfolding seg_loaded_def
  proof (intro allI impI)
    fix j
    assume j: "j < unat (seg_size seg)"
    note n = seg_ptr_nat(2) [OF fits] seg_ptr_nat(3) [OF fits, of j]
    have "\<forall>sp' \<in> set sps. unat (seg_ptr seg p + of_nat j) < unat (snd sp')"
      using Cons.prems(6) n j by (fastforce simp: sp before_def)
    from k'(5) [OF this] show "byte_at (kmem k') (seg_ptr seg p + of_nat j) =
        (if j < length (seg_data seg) then seg_data seg ! j else 0)"
      using k1(4) j by (simp add: seg_loaded_def)
  qed
  ultimately show ?case using k'(2,4,5) k1(2,5) by (intro exI [of _ k']) (auto simp: sp)
qed

text \<open>Where the segments are placed in a run of pages.\<close>

lemma placed_fst [simp]: "map fst (placed lo segs) = segs"
  by (induction lo segs rule: placed.induct) simp_all

lemma placed_mem: "seg \<in> set segs \<Longrightarrow> \<exists>p. (seg, p) \<in> set (placed lo segs)"
  by (induction lo segs rule: placed.induct) auto

lemma placed_index: "(seg, p) \<in> set (placed (lo + of_nat i * PAGESIZE) segs) \<Longrightarrow>
    \<exists>j\<ge>i. p = lo + of_nat j * PAGESIZE \<and> j + seg_pages seg \<le> i + page_count segs"
proof (induction segs arbitrary: i)
  case (Cons s segs)
  have e: "lo + of_nat i * PAGESIZE + of_nat (seg_pages s) * PAGESIZE = lo + of_nat (i + seg_pages s) * PAGESIZE"
    by (simp add: algebra_simps)
  from Cons.prems consider "seg = s" "p = lo + of_nat i * PAGESIZE" |
    "(seg, p) \<in> set (placed (lo + of_nat (i + seg_pages s) * PAGESIZE) segs)" by (auto simp: e)
  then show ?case
  proof cases
    case 1
    then show ?thesis by (intro exI [of _ i]) (simp add: page_count_def)
  next
    case 2
    from Cons.IH [OF this] obtain j where "i + seg_pages s \<le> j" "p = lo + of_nat j * PAGESIZE"
      "j + seg_pages seg \<le> i + seg_pages s + page_count segs" by blast
    then show ?thesis by (intro exI [of _ j]) (simp add: page_count_def)
  qed
qed simp

lemma placed_sorted:
  assumes "\<And>j. j < n \<Longrightarrow> unat (lo + of_nat j * PAGESIZE) = unat lo + 4096 * j" "i + page_count segs < n"
  shows "sorted_wrt before (placed (lo + of_nat i * PAGESIZE) segs)"
  using assms(2)
proof (induction segs arbitrary: i)
  case (Cons s segs)
  have e: "lo + of_nat i * PAGESIZE + of_nat (seg_pages s) * PAGESIZE = lo + of_nat (i + seg_pages s) * PAGESIZE"
    by (simp add: algebra_simps)
  have "before (s, lo + of_nat i * PAGESIZE) sp" if sp: "sp \<in> set (placed (lo + of_nat (i + seg_pages s) * PAGESIZE) segs)" for sp
  proof -
    obtain seg p where p: "sp = (seg, p)" by fastforce
    from placed_index sp [unfolded p] obtain j where "i + seg_pages s \<le> j" "p = lo + of_nat j * PAGESIZE"
      "j + seg_pages seg \<le> i + seg_pages s + page_count segs" by blast
    then show ?thesis using assms(1) [of i] assms(1) [of j] Cons.prems by (simp add: before_def p page_count_def)
  qed
  moreover have "sorted_wrt before (placed (lo + of_nat (i + seg_pages s) * PAGESIZE) segs)"
    using Cons.prems by (intro Cons.IH) (simp add: page_count_def)
  ultimately show ?case by (simp add: e)
qed simp

section \<open>Loading a program\<close>

text \<open>Stores into the pages of the process change no mapping.\<close>

lemma settled_stores:
  assumes ok: "space_ok ke k root" and touch: "touches (frames (kmem k) root) k k'" and pages: "pages k' = pages k"
  shows "settled ke root k k'" "mmu (kmem k') root = mmu (kmem k) root" "avail ke k' = avail ke k"
proof -
  have root: "page_aligned root" and pok: "pages_ok k" and plain: "\<forall>va. plain_at (kmem k) root va"
    and apart: "tables (kmem k) root \<inter> frames (kmem k) root = {}"
    using ok by (simp_all add: space_ok_def table_ok_def wf_tables_def)
  have fr: "page_aligned f" if "f \<in> frames (kmem k) root" for f using that by (simp add: frames_def)
  have same: "same_tables (kmem k) (kmem k') root"
    using touch apart fr in_page_unique tables_aligned [OF root] unfolding same_tables_def touches_def by (metis disjoint_iff)
  show av: "avail ke k' = avail ke k" by (simp add: avail_def free_page_def page_used_def pages)
  have "pages_ok k'" using pok by (simp add: pages_ok_def pages)
  note sp = space_elsewhere [OF ok same _ this]
  show "mmu (kmem k') root = mmu (kmem k) root" using sp(3) av by auto
  have "extends root (kmem k) (kmem k')"
    using same_tables_frame(1) [OF same root] plain_same [OF same root] by (simp add: extends_def)
  then show "settled ke root k k'"
    using sp(1,2) av touch by (auto simp: settled_def territory_def owned_def intro: touches_mono)
qed

text \<open>The pages that hold a segment are mapped for the user.\<close>

lemma segment_frames:
  assumes segs: "segs_ok lower segs" "(seg, p) \<in> set (placed lo segs)" and map: "mmu m root = segs_map (placed lo segs) f"
    and i: "i < seg_pages seg" and pg: "p + of_nat i * PAGESIZE \<in> avail ke k" and ok: "seg_ok seg"
  shows "p + of_nat i * PAGESIZE \<in> frames m root"
proof -
  let ?va = "seg_base seg + of_nat i * PAGESIZE"
  obtain n where n: "seg_pages seg = Suc n" using not0_implies_Suc [OF seg_pages_bounds(1) [OF ok]] by blast
  have "unat (seg_va seg) + unat (seg_size seg) \<le> 0x200000" using ok by (simp add: seg_ok_def)
  then have top: "unat (seg_base seg) + 4096 * n < 0x200000"
    using seg_pages_bounds(4) [OF ok] unfolding seg_pages_bounds(2) [OF ok] n diff_Suc_1 by linarith
  then have "4096 * seg_pages seg < 2 ^ 32" unfolding n by simp
  then have i': "unat (of_nat i * PAGESIZE :: u64) = i * 4096"
    unfolding PAGESIZE_def using i by (subst unat_times_exact) (simp_all add: unat_of_nat)
  have "unat ?va = unat (seg_base seg) + i * 4096" using i [unfolded n] i' top by (subst unat_plus_exact) simp_all
  then have "mmu m root ?va = Some (p + (?va - seg_base seg), PTE_PWU)"
    unfolding map using i by (intro segs_map_at [OF segs]) simp_all
  then have "mmu m root ?va = Some (p + of_nat i * PAGESIZE, PTE_PWU)" by simp
  moreover have "page_aligned (p + of_nat i * PAGESIZE)" "p + of_nat i * PAGESIZE \<noteq> CONSOLE_ADDR"
    using avail_low_page [OF pg] subsetD [OF avail_allocatable pg] console_not_allocatable [of ke] by (auto simp: low_page_def)
  moreover have "PTE_PWU AND PTE_U \<noteq> 0" by (simp add: pte_defs)
  ultimately show ?thesis unfolding frames_def by (auto simp: in_page_def)
qed

lemma segs_ok_in: "segs_ok lower segs \<Longrightarrow> seg \<in> set segs \<Longrightarrow> seg_ok seg \<and> lower \<le> unat (seg_base seg)"
  by (induction lower segs rule: segs_ok.induct) auto

lemma placed_in: "(seg, p) \<in> set (placed lo segs) \<Longrightarrow> seg \<in> set segs"
  by (metis fst_conv image_eqI list.set_map placed_fst)

lemma program_loaded:
  assumes ok: "space_ok ke k root" "low_tables k root" and segs: "segs_ok lower segs"
    and run: "page_run lo (page_count segs + Suc m) (avail ke k)"
  shows "\<exists>k1 k2. map_segments ke root segs k = returns k1 \<and> load_segments root segs k1 = Inr k2 \<and> settled ke root k k2 \<and>
    page_run (lo + of_nat (page_count segs) * PAGESIZE) (Suc m) (avail ke k2) \<and>
    mmu (kmem k2) root = segs_map (placed lo segs) (mmu (kmem k) root) \<and>
    (\<forall>(seg, p) \<in> set (placed lo segs). seg_fits (frames (kmem k2) root) seg p \<and> page_aligned p \<and> seg_loaded (kmem k2) seg p)"
proof -
  from map_segments_ok [OF ok segs run] obtain k1 where k1: "map_segments ke root segs k = returns k1" "settled ke root k k1"
    "page_run (lo + of_nat (page_count segs) * PAGESIZE) (Suc m) (avail ke k1)"
    "mmu (kmem k1) root = segs_map (placed lo segs) (mmu (kmem k) root)" by blast
  let ?F = "frames (kmem k1) root"
  have sp: "space_ok ke k1 root" using k1(2) by (simp add: settled_def)
  have pg: "\<And>p. p \<in> avail ke k \<Longrightarrow> low_page p" by (rule avail_low_page)
  have nat: "\<And>j. j < page_count segs + Suc m \<Longrightarrow> unat (lo + of_nat j * PAGESIZE) = unat lo + 4096 * j"
    using page_run_nat [OF run] pg by blast
  have here: "\<And>j. j < page_count segs + Suc m \<Longrightarrow> lo + of_nat j * PAGESIZE \<in> avail ke k" using run by (simp add: page_run_def)
  have fits: "seg_fits ?F seg p \<and> page_aligned p \<and> mmu (kmem k1) root (seg_va seg) = Some (seg_ptr seg p, PTE_PWU)"
    if sg: "(seg, p) \<in> set (placed lo segs)" for seg p
  proof -
    have seg: "seg_ok seg" using segs_ok_in [OF segs] placed_in [OF sg] by blast
    from placed_index [of seg p lo 0] sg obtain j where j: "p = lo + of_nat j * PAGESIZE" "j + seg_pages seg \<le> page_count segs" by auto
    have n: "j + i < page_count segs + Suc m" if "i \<le> seg_pages seg" for i using that j(2) by simp
    have e: "p + of_nat i * PAGESIZE = lo + of_nat (j + i) * PAGESIZE" for i by (simp add: j(1) algebra_simps)
    have pi: "p + of_nat i * PAGESIZE \<in> avail ke k" if "i \<le> seg_pages seg" for i unfolding e using here n that by blast
    have "p + of_nat i * PAGESIZE \<in> ?F" if "i < seg_pages seg" for i
      by (rule segment_frames [OF segs sg k1(4) that pi seg]) (use that in simp)
    moreover have "unat p + 4096 * seg_pages seg \<le> 0x200000"
    proof -
      have "unat (p + of_nat (seg_pages seg) * PAGESIZE) = unat p + 4096 * seg_pages seg"
        using nat [OF n [of "seg_pages seg"]] nat [OF n [of 0]] unfolding e by (simp add: j(1))
      then show ?thesis using avail_low [OF pi [of "seg_pages seg"]] by (simp add: word_less_nat_alt MEMSIZE_PHYSICAL_def)
    qed
    moreover have "PAGESIZE \<le> p" "page_aligned p" using avail_low [OF pi [of 0]] pg [OF pi [of 0]] by (simp_all add: low_page_def)
    moreover have "unat (seg_va seg) < unat (seg_base seg) + 4096 * seg_pages seg"
      using seg_pages_bounds(2,3) [OF seg] seg unat_gt_0 [of "seg_size seg"] by (simp add: seg_ok_def)
    then have "mmu (kmem k1) root (seg_va seg) = Some (seg_ptr seg p, PTE_PWU)"
      unfolding k1(4) seg_ptr_def using seg_base_nat(3) [of seg] by (intro segs_map_at [OF segs sg]) (simp_all add: word_le_nat_alt)
    ultimately show ?thesis using seg by (simp add: seg_fits_def)
  qed
  have ball_fits: "\<forall>(seg, p) \<in> set (placed lo segs). seg_fits ?F seg p \<and> page_aligned p \<and>
      mmu (kmem k1) root (seg_va seg) = Some (seg_ptr seg p, PTE_PWU)" using fits by blast
  have "sorted_wrt before (placed lo segs)" using placed_sorted [of "page_count segs + Suc m" lo 0 segs] nat by simp
  moreover have "page_aligned root" "\<forall>va. plain_at (kmem k1) root va" "?F \<inter> tables (kmem k1) root = {}" "\<forall>f \<in> ?F. page_aligned f"
    using sp by (simp_all add: space_ok_def table_ok_def wf_tables_def Int_commute) (simp add: frames_def)
  ultimately obtain k2 where k2: "load_segments root segs k1 = Inr k2" "pages k2 = pages k1" "touches ?F k1 k2"
    "\<forall>(seg, p) \<in> set (placed lo segs). seg_loaded (kmem k2) seg p"
    using load_segments_ok [OF _ _ _ _ ball_fits, unfolded placed_fst] by blast
  note st = settled_stores [OF sp k2(3,2)]
  have "frames (kmem k2) root = ?F" by (simp add: frames_def st(2))
  then have "\<forall>(seg, p) \<in> set (placed lo segs). seg_fits (frames (kmem k2) root) seg p \<and> page_aligned p \<and> seg_loaded (kmem k2) seg p"
    using k2(4) ball_fits by auto
  then show ?thesis using k1 k2(1) st settled_trans [OF k1(2) st(1)] by (intro exI [of _ k1] exI [of _ k2]) simp
qed

end
