(* ===== verification/NewProcess.thy ===== *)
theory NewProcess
  imports ProgramLoad
begin

text \<open>
  What \<open>process_setup\<close> of \<open>project04a-wduan/kernel.c\<close> as a whole does: the new process has an address space of its own
  that holds its program and a stack, and every other process stays as it is.
\<close>

section \<open>The memory of a new process\<close>

text \<open>What a process finds in its address space when it starts: the bytes of its program where the image wants them, a stack,
and below \<open>PROC_START_ADDR\<close> the console and nothing else of its own.\<close>

definition holds_segment :: "memory \<Rightarrow> u64 \<Rightarrow> segment \<Rightarrow> bool" where
  "holds_segment m root seg \<longleftrightarrow> (\<forall>j < unat (seg_size seg). \<exists>f \<in> frames m root. \<exists>pa. in_page f pa \<and>
     mmu m root (seg_va seg + of_nat j) = Some (pa, PTE_PWU) \<and>
     byte_at m pa = (if j < length (seg_data seg) then seg_data seg ! j else 0))"

definition STACK_PAGE :: u64 where
  "STACK_PAGE = MEMSIZE_VIRTUAL - PAGESIZE"

definition process_space :: "memory \<Rightarrow> u64 \<Rightarrow> segment list \<Rightarrow> bool" where
  "process_space m root segs \<longleftrightarrow> (\<forall>va < PROC_START_ADDR. mmu m root va = setup_map va) \<and>
     (\<forall>seg \<in> set segs. holds_segment m root seg) \<and>
     (\<exists>p. \<forall>va. STACK_PAGE \<le> va \<and> va < MEMSIZE_VIRTUAL \<longrightarrow> mmu m root va = Some (p + (va AND 0xFFF), PTE_PWU))"

lemma page_run_card:
  assumes "page_run lo n A" "\<And>p. p \<in> A \<Longrightarrow> low_page p" "finite A"
  shows "n \<le> card A"
proof -
  have "inj_on (\<lambda>i. lo + of_nat i * PAGESIZE) {..<n}"
    using page_run_nat [OF assms(1,2)] by (intro inj_onI) (metis add_left_cancel lessThan_iff mult_cancel1 zero_neq_numeral)
  then have "card ((\<lambda>i. lo + of_nat i * PAGESIZE) ` {..<n}) = n" by (simp add: card_image)
  moreover have "(\<lambda>i. lo + of_nat i * PAGESIZE) ` {..<n} \<subseteq> A" using assms(1) by (auto simp: page_run_def)
  ultimately show ?thesis using card_mono [OF assms(3)] by metis
qed

lemma segment_held:
  assumes segs: "segs_ok lower segs" "(seg, p) \<in> set (placed lo segs)" and loaded: "seg_loaded m seg p"
    and fits: "seg_fits (frames m0 root) seg p" "page_aligned p"
    and map: "\<And>va. va < 0x200000 \<Longrightarrow> mmu m root va = segs_map (placed lo segs) f va"
  shows "holds_segment m root seg"
  unfolding holds_segment_def
proof (intro allI impI)
  fix j
  assume j: "j < unat (seg_size seg)"
  have seg: "seg_ok seg" using segs_ok_in [OF segs(1)] placed_in [OF segs(2)] by blast
  then have top: "unat (seg_va seg) + unat (seg_size seg) \<le> 0x200000" by (simp add: seg_ok_def)
  then have "unat (of_nat j :: u64) = j" using j by (simp add: unat_of_nat)
  then have va: "unat (seg_va seg + of_nat j) = unat (seg_va seg) + j" using j top by (subst unat_plus_exact) simp_all
  have "seg_va seg + of_nat j < 0x200000" using va j top by (simp add: word_less_nat_alt)
  moreover have "unat (seg_base seg) \<le> unat (seg_va seg + of_nat j)"
    using va seg_base_nat(3) [of seg] by (simp add: word_le_nat_alt)
  moreover have "unat (seg_va seg + of_nat j) < unat (seg_base seg) + 4096 * seg_pages seg"
    using va j seg_pages_bounds(2,3) [OF seg] by simp
  ultimately have "mmu m root (seg_va seg + of_nat j) = Some (p + (seg_va seg + of_nat j - seg_base seg), PTE_PWU)"
    using map segs_map_at [OF segs, of "seg_va seg + of_nat j" f] by metis
  moreover have "p + (seg_va seg + of_nat j - seg_base seg) = seg_ptr seg p + of_nat j" by (simp add: seg_ptr_def)
  ultimately have mapped: "mmu m root (seg_va seg + of_nat j) = Some (seg_ptr seg p + of_nat j, PTE_PWU)" by simp
  obtain f where f: "f \<in> frames m0 root" "in_page f (seg_ptr seg p + of_nat j)" using seg_byte_page [OF fits j] by blast
  have "PTE_PWU AND PTE_U \<noteq> 0" by (simp add: pte_defs)
  then have "f \<in> frames m root" using f mapped unfolding frames_def by blast
  then show "\<exists>f \<in> frames m root. \<exists>pa. in_page f pa \<and> mmu m root (seg_va seg + of_nat j) = Some (pa, PTE_PWU) \<and>
     byte_at m pa = (if j < length (seg_data seg) then seg_data seg ! j else 0)"
    using mapped f(2) loaded j by (intro bexI [of _ f] exI [of _ "seg_ptr seg p + of_nat j"]) (simp_all add: seg_loaded_def)
qed

text \<open>Mapping the stack leaves the segments as they are.\<close>

lemma loaded_elsewhere:
  assumes "seg_fits F seg p" "page_aligned p" "seg_loaded m seg p" "\<And>f a. f \<in> F \<Longrightarrow> in_page f a \<Longrightarrow> m' a = m a"
  shows "seg_loaded m' seg p"
proof -
  have "byte_at m' (seg_ptr seg p + of_nat j) = byte_at m (seg_ptr seg p + of_nat j)" if "j < unat (seg_size seg)" for j
    using seg_byte_page [OF assms(1,2) that] assms(4) word_of_byte_page unfolding byte_at_def by metis
  then show ?thesis using assms(3) by (simp add: seg_loaded_def)
qed

lemma stack_page: "page_aligned STACK_PAGE" "va_is_canonical STACK_PAGE" "STACK_PAGE < 0x100000000"
  "drop_bit 12 va = drop_bit 12 STACK_PAGE \<longleftrightarrow> STACK_PAGE \<le> va \<and> va < MEMSIZE_VIRTUAL"
proof -
  show p: "page_aligned STACK_PAGE" "STACK_PAGE < 0x100000000"
    by (simp_all add: STACK_PAGE_def MEMSIZE_VIRTUAL_def PAGESIZE_def page_aligned_def)
  show "va_is_canonical STACK_PAGE" by (rule low_canonical [OF p(2)])
  have "STACK_PAGE + PAGESIZE = MEMSIZE_VIRTUAL" by (simp add: STACK_PAGE_def)
  then show "drop_bit 12 va = drop_bit 12 STACK_PAGE \<longleftrightarrow> STACK_PAGE \<le> va \<and> va < MEMSIZE_VIRTUAL"
    using page_split(1) [OF p] by simp
qed

lemma stack_ok:
  assumes sp: "space_ok ke k root" and run: "page_run lo (5 + m) (avail ke k)"
    and segs: "segs_ok (unat PROC_START_ADDR) segs" and map: "mmu (kmem k) root = segs_map (placed plo segs) setup_map"
    and loaded: "\<forall>(seg, p) \<in> set (placed plo segs). seg_fits (frames (kmem k) root) seg p \<and> page_aligned p \<and> seg_loaded (kmem k) seg p"
  shows "\<exists>k1 k2 lo'. kalloc ke PAGESIZE k = (lo, k1) \<and> memory_map ke root STACK_PAGE lo PTE_PWU k1 = Inr (0, k2) \<and>
    settled ke root k k2 \<and> page_run lo' (Suc m) (avail ke k2) \<and> process_space (kmem k2) root segs"
proof -
  have "page_run lo (Suc (3 + Suc m)) (avail ke k)" using run by simp
  from map_next_page [OF sp stack_page(1,2) this] obtain k1 k2 lo' where
    k2: "kalloc ke PAGESIZE k = (lo, k1)" "memory_map ke root STACK_PAGE lo PTE_PWU k1 = Inr (0, k2)"
    "settled ke root k k2" "page_run lo' (Suc m) (avail ke k2)"
    and touch: "touches (insert lo (tables (kmem k2) root)) k k2" "tables (kmem k2) root \<subseteq> tables (kmem k) root \<union> avail ke k"
    and mmu: "\<And>va. mmu (kmem k2) root va =
       (if drop_bit 12 va = drop_bit 12 STACK_PAGE then Some (lo + (va AND 0xFFF), PTE_PWU) else mmu (kmem k) root va)" by blast
  have lo: "lo \<in> avail ke k" using run by (auto simp: page_run_def dest: spec [of _ 0])
  have apart: "tables (kmem k) root \<inter> frames (kmem k) root = {}" "frames (kmem k) root \<inter> avail ke k = {}"
    using sp by (simp_all add: space_ok_def)
  have root: "page_aligned root" using sp by (simp add: space_ok_def table_ok_def wf_tables_def)
  have same: "kmem k2 a = kmem k a" if f: "f \<in> frames (kmem k) root" "in_page f a" for f a
  proof -
    have "\<not> in_page t a" if t: "t \<in> insert lo (tables (kmem k2) root)" for t
    proof
      assume i: "in_page t a"
      have "page_aligned t" "page_aligned f"
        using t tables_aligned [OF root] avail_low_page [OF lo] f(1) by (auto simp: low_page_def frames_def)
      then have "t = f" using in_page_unique i f(2) by blast
      then show False using t f(1) apart touch(2) lo by blast
    qed
    then show ?thesis using touch(1) by (simp add: touches_def)
  qed
  have low: "mmu (kmem k2) root va = segs_map (placed plo segs) setup_map va" if va: "va < 0x200000" for va
  proof -
    have "\<not> STACK_PAGE \<le> va" using va unfolding STACK_PAGE_def MEMSIZE_VIRTUAL_def PAGESIZE_def by unat_arith
    then show ?thesis using mmu stack_page(4) map by simp
  qed
  have "holds_segment (kmem k2) root seg" if "seg \<in> set segs" for seg
  proof -
    from placed_mem [OF that] obtain p where p: "(seg, p) \<in> set (placed plo segs)" by blast
    with loaded have l: "seg_fits (frames (kmem k) root) seg p" "page_aligned p" "seg_loaded (kmem k) seg p" by auto
    from loaded_elsewhere [OF l same] show ?thesis by (rule segment_held [OF segs p _ l(1,2) low])
  qed
  moreover have "mmu (kmem k2) root va = setup_map va" if va: "va < PROC_START_ADDR" for va
  proof -
    have "va < 0x200000" using va unfolding PROC_START_ADDR_def by unat_arith
    then show ?thesis using low segs_map_below [OF segs] va by (simp add: word_less_nat_alt)
  qed
  ultimately have "process_space (kmem k2) root segs"
    using mmu stack_page(4) by (auto simp: process_space_def)
  then show ?thesis using k2 by blast
qed

text \<open>A process keeps its program and stack when its mappings and its pages stay as they are.\<close>

lemma process_space_kept:
  assumes mmu: "\<And>va. mmu m' root va = mmu m root va" and mem: "\<And>f a. f \<in> owned m root \<Longrightarrow> in_page f a \<Longrightarrow> m' a = m a"
    and "process_space m root segs"
  shows "process_space m' root segs"
proof -
  have frames: "frames m' root = frames m root" by (simp add: frames_def mmu)
  have "byte_at m' pa = byte_at m pa" if "f \<in> frames m root" "in_page f pa" for f pa
    using mem [of f "pa AND NOT 7"] that word_of_byte_page by (simp add: byte_at_def owned_def)
  then show ?thesis using assms(3) unfolding process_space_def holds_segment_def frames mmu by metis
qed

text \<open>All the steps on memory.\<close>

lemma process_memory:
  assumes ok: "pages_ok k" and segs: "segs_ok (unat PROC_START_ADDR) segs"
    and run: "page_run lo (page_count segs + 9 + m) (avail ke k)" and pt: "kalloc_pagetable ke k = (pt, k1)"
  shows "\<exists>k2 k3 k4 p k5 k6 lo'. pt \<noteq> 0 \<and> setup_tables ke pt k1 = returns k2 \<and> map_segments ke pt segs k2 = returns k3 \<and>
    load_segments pt segs k3 = Inr k4 \<and> kalloc ke PAGESIZE k4 = (p, k5) \<and> memory_map ke pt STACK_PAGE p PTE_PWU k5 = Inr (0, k6) \<and>
    space_ok ke k6 pt \<and> owned (kmem k6) pt \<subseteq> avail ke k \<and> avail ke k6 \<subseteq> avail ke k \<and> touches (avail ke k) k k6 \<and>
    page_run lo' (Suc m) (avail ke k6) \<and> process_space (kmem k6) pt segs"
proof -
  have pg: "\<And>p. p \<in> avail ke k \<Longrightarrow> low_page p" by (rule avail_low_page)
  have "5 \<le> card (avail ke k)" using page_run_card [OF run pg avail_finite] by simp
  from new_space_ok [OF ok pt this] obtain k2 N where k2: "setup_tables ke pt k1 = returns k2" "pt \<noteq> 0"
    "\<forall>va. mmu (kmem k2) pt va = setup_map va" "space_ok ke k2 pt" "owned (kmem k2) pt = insert pt N"
    "insert pt N \<subseteq> avail ke k" "avail ke k2 = avail ke k - insert pt N" "card (insert pt N) \<le> 4"
    "\<forall>x \<in> insert pt N. \<forall>q \<in> avail ke k2. x < q" "touches (insert pt N) k k2" "stage (kmem k2) pt CONSOLE_ADDR 3 \<noteq> None"
    by (elim exE conjE) (rule that)
  have fin: "finite (insert pt N)" using k2(6) avail_finite by (rule finite_subset)
  have first: "\<And>p q. p \<in> insert pt N \<Longrightarrow> q \<in> avail ke k - insert pt N \<Longrightarrow> p < q" using k2(9) unfolding k2(7) by blast
  have run4: "page_run lo (4 + (page_count segs + (5 + m))) (avail ke k)" using run by (simp add: add.commute add.left_commute)
  obtain lo1 where run1: "page_run lo1 (page_count segs + (5 + m)) (avail ke k2)"
    using page_run_initial [OF run4 pg fin k2(6,8) first] unfolding k2(7) by blast
  have "low_tables k2 pt" using k2(11) by (simp add: low_tables_def)
  moreover have "page_run lo1 (page_count segs + Suc (4 + m)) (avail ke k2)" using run1 by simp
  ultimately obtain k3 k4 where k4: "map_segments ke pt segs k2 = returns k3" "load_segments pt segs k3 = Inr k4" "settled ke pt k2 k4"
    "page_run (lo1 + of_nat (page_count segs) * PAGESIZE) (Suc (4 + m)) (avail ke k4)"
    "mmu (kmem k4) pt = segs_map (placed lo1 segs) (mmu (kmem k2) pt)"
    "\<forall>(seg, p) \<in> set (placed lo1 segs). seg_fits (frames (kmem k4) pt) seg p \<and> page_aligned p \<and> seg_loaded (kmem k4) seg p"
    using program_loaded [OF k2(4) _ segs] by blast
  have sp4: "space_ok ke k4 pt" using k4(3) by (simp add: settled_def)
  have map4: "mmu (kmem k4) pt = segs_map (placed lo1 segs) setup_map"
    using k4(5) k2(3) by (metis (no_types) ext)
  have "page_run (lo1 + of_nat (page_count segs) * PAGESIZE) (5 + m) (avail ke k4)" using k4(4) by simp
  from stack_ok [OF sp4 this segs map4 k4(6)] obtain p k5 k6 lo' where k6: "kalloc ke PAGESIZE k4 = (p, k5)"
    "memory_map ke pt STACK_PAGE p PTE_PWU k5 = Inr (0, k6)" "settled ke pt k4 k6" "page_run lo' (Suc m) (avail ke k6)"
    "process_space (kmem k6) pt segs" by blast
  have s: "settled ke pt k2 k6" by (rule settled_trans [OF k4(3) k6(3)])
  have terr: "territory ke pt k2 \<subseteq> avail ke k" using k2(5-7) by (auto simp: territory_def)
  then have "touches (avail ke k) k k6" using s k2(6,10) by (auto simp: settled_def intro: touches_trans)
  moreover have "owned (kmem k6) pt \<subseteq> avail ke k" "avail ke k6 \<subseteq> avail ke k"
    using s terr by (auto simp: settled_def territory_def)
  ultimately show ?thesis using k2(1,2) k4(1,2) k6 s by (auto simp: settled_def)
qed

section \<open>Processes that are apart\<close>

text \<open>The state between processes, when none may be running.\<close>

definition separate :: "layout \<Rightarrow> os \<Rightarrow> bool" where
  "separate L s \<longleftrightarrow> length (ptable s) = NPROC \<and> pages_ok (kern s) \<and>
     (\<forall>i. live s i \<longrightarrow> space_ok (kernel_end L) (kern s) (root_of s i)) \<and>
     (\<forall>i j. live s i \<longrightarrow> live s j \<longrightarrow> i \<noteq> j \<longrightarrow>
        owned (kmem (kern s)) (root_of s i) \<inter> owned (kmem (kern s)) (root_of s j) = {})"

lemma isolated_separate: "isolated L s \<longleftrightarrow> separate L s \<and> live s (current s)"
  by (auto simp: isolated_def separate_def space_ok_def table_ok_def)

text \<open>What the setup of the process \<open>i\<close> leaves alone: the other processes.\<close>

definition unharmed :: "nat \<Rightarrow> os \<Rightarrow> os \<Rightarrow> bool" where
  "unharmed i s s' \<longleftrightarrow> (\<forall>j. j \<noteq> i \<longrightarrow> proc_at s' j = proc_at s j) \<and>
     (\<forall>j. live s j \<longrightarrow> (\<forall>va. mmu (kmem (kern s')) (root_of s j) va = mmu (kmem (kern s)) (root_of s j) va) \<and>
       (\<forall>f \<in> owned (kmem (kern s)) (root_of s j). \<forall>a. in_page f a \<longrightarrow> kmem (kern s') a = kmem (kern s) a))"

lemma separate_new:
  assumes sep: "separate L s" and i: "i < NPROC" "\<not> live s i"
    and s': "length (ptable s') = NPROC" "\<And>j. j \<noteq> i \<Longrightarrow> proc_at s' j = proc_at s j" "pstate (proc_at s' i) \<noteq> P_FREE"
    and new: "space_ok (kernel_end L) (kern s') (root_of s' i)" "owned (kmem (kern s')) (root_of s' i) \<subseteq> avail (kernel_end L) (kern s)"
    and av: "avail (kernel_end L) (kern s') \<subseteq> avail (kernel_end L) (kern s)"
    and touch: "touches (avail (kernel_end L) (kern s)) (kern s) (kern s')"
  shows "separate L s' \<and> unharmed i s s' \<and> (\<forall>j. live s' j \<longleftrightarrow> live s j \<or> j = i)"
proof -
  let ?A = "avail (kernel_end L) (kern s)"
  have live: "live s' j \<longleftrightarrow> live s j \<or> j = i" for j using i(1) s'(2,3) by (cases "j = i") (auto simp: live_def)
  have root: "root_of s' j = root_of s j" if "j \<noteq> i" for j using s'(2) [OF that] by (simp add: root_of_def)
  have pok: "pages_ok (kern s')" using new(1) by (simp add: space_ok_def table_ok_def)
  have al: "page_aligned f" if "f \<in> ?A" for f using avail_low_page [OF that] by (simp add: low_page_def)
  have old: "space_ok (kernel_end L) (kern s) (root_of s j)" "?A \<inter> owned (kmem (kern s)) (root_of s j) = {}" if "live s j" for j
    using sep that by (auto simp: separate_def space_ok_def table_ok_def owned_def)
  note other = other_space [OF old(1) touch al old(2) av pok]
  have ne: "j \<noteq> i" if "live s j" for j using that i(2) by blast
  have "unharmed i s s'" unfolding unharmed_def using s'(2) other(3,4) by blast
  moreover have "space_ok (kernel_end L) (kern s') (root_of s' j)" if "live s' j" for j
    using that live new(1) other(1) root ne by metis
  moreover have "owned (kmem (kern s')) (root_of s' j) \<inter> owned (kmem (kern s')) (root_of s' l) = {}"
    if jl: "live s' j" "live s' l" "j \<noteq> l" for j l
  proof -
    have o: "owned (kmem (kern s')) (root_of s' j) = owned (kmem (kern s)) (root_of s j)" if "live s j" for j
      unfolding root [OF ne [OF that]] by (rule other(2) [OF that _ that])
    consider "live s j" "live s l" | "live s j" "l = i" | "j = i" "live s l" using jl unfolding live by blast
    then show ?thesis
    proof cases
      case 1
      then show ?thesis using sep o jl(3) by (simp add: separate_def)
    qed (use o old(2) new(2) in blast)+
  qed
  ultimately show ?thesis using s'(1) pok live by (simp add: separate_def)
qed

lemma process_setup_ok:
  assumes sep: "separate L s" and i: "i < NPROC" "\<not> live s i" and image: "program_image images nm = Inr elf" "load_image elf = Inr pgm"
    and segs: "segs_ok (unat PROC_START_ADDR) (segments pgm)" and run: "page_run lo (page_count (segments pgm) + 9 + m) (avail (kernel_end L) (kern s))"
  shows "\<exists>s' lo'. process_setup L images i nm s = returns s' \<and> separate L s' \<and> unharmed i s s' \<and>
    (\<forall>j. live s' j \<longleftrightarrow> live s j \<or> j = i) \<and> current s' = current s \<and> pid (proc_at s' i) = pid (proc_at s i) \<and>
    pstate (proc_at s' i) = P_RUNNABLE \<and> reg_rip (regs (proc_at s' i)) = prog_entry pgm \<and>
    reg_rsp (regs (proc_at s' i)) = MEMSIZE_VIRTUAL \<and> process_space (kmem (kern s')) (root_of s' i) (segments pgm) \<and>
    page_run lo' (Suc m) (avail (kernel_end L) (kern s')) \<and>
    avail (kernel_end L) (kern s') \<subseteq> avail (kernel_end L) (kern s) \<and> touches (avail (kernel_end L) (kern s)) (kern s) (kern s')"
proof -
  let ?ke = "kernel_end L"
  have ok: "pages_ok (kern s)" and len: "length (ptable s) = NPROC" using sep by (simp_all add: separate_def)
  obtain pt k1 where pt: "kalloc_pagetable ?ke (kern s) = (pt, k1)" by (rule prod.exhaust)
  from process_memory [OF ok segs run pt] obtain k2 k3 k4 p k5 k6 lo' where
    steps: "pt \<noteq> 0" "setup_tables ?ke pt k1 = returns k2" "map_segments ?ke pt (segments pgm) k2 = returns k3"
      "load_segments pt (segments pgm) k3 = Inr k4" "kalloc ?ke PAGESIZE k4 = (p, k5)"
      "memory_map ?ke pt STACK_PAGE p PTE_PWU k5 = Inr (0, k6)"
    and end_: "space_ok ?ke k6 pt" "owned (kmem k6) pt \<subseteq> avail ?ke (kern s)" "avail ?ke k6 \<subseteq> avail ?ke (kern s)"
      "touches (avail ?ke (kern s)) (kern s) k6" "page_run lo' (Suc m) (avail ?ke k6)"
      "process_space (kmem k6) pt (segments pgm)" by blast
  define f where "f = (\<lambda>q :: proc. q\<lparr>regs := (regs q)\<lparr>reg_rip := prog_entry pgm, reg_rsp := STACK_PAGE + PAGESIZE\<rparr>,
    pstate := P_RUNNABLE\<rparr>)"
  define s' where "s' = upd_proc i f ((upd_proc i (\<lambda>q. q\<lparr>pagetable := pt\<rparr>) (upd_proc i (init_process 0) s))\<lparr>kern := k6\<rparr>)"
  have run': "process_setup L images i nm s = returns s'"
    using steps pt image by (simp add: process_setup_def Let_def s'_def f_def STACK_PAGE_def returns_def)
  have at: "proc_at s' j = (if j = i then f ((init_process 0 (proc_at s i))\<lparr>pagetable := pt\<rparr>) else proc_at s j)" for j
  proof -
    have mem: "proc_at (x\<lparr>kern := k\<rparr>) n = proc_at x n" for x :: os and k n by (simp add: proc_at_def)
    show ?thesis using len i(1) by (simp add: s'_def proc_at_upd mem)
  qed
  have k: "kern s' = k6" "current s' = current s" "length (ptable s') = NPROC" using len by (simp_all add: s'_def)
  have root: "root_of s' i = pt" by (simp add: root_of_def at f_def)
  have "separate L s' \<and> unharmed i s s' \<and> (\<forall>j. live s' j \<longleftrightarrow> live s j \<or> j = i)"
    using end_ by (intro separate_new [OF sep i k(3)]) (simp_all add: at f_def k root)
  then show ?thesis using run' end_ k root
    by (intro exI [of _ s'] exI [of _ lo']) (simp add: at f_def init_process_def STACK_PAGE_def)
qed

section \<open>Properties\<close>

text \<open>C13: \<open>process_setup\<close> makes a process. When the first free pages follow each other and are enough, and the
segments of the image lie in their order, in pages of their own, below 2 MB, it returns with the process runnable at the entry
point, with its program and a stack in its address space; the process shares no page with the others, and the
others and their memory are untouched.\<close>

theorem process_setup_makes_process:
  assumes "separate L s" "i < NPROC" "\<not> live s i" "program_image images nm = Inr elf" "load_image elf = Inr pgm" "segs_ok (unat PROC_START_ADDR) (segments pgm)"
    and "page_run lo (page_count (segments pgm) + 9 + m) (avail (kernel_end L) (kern s))"
  shows "\<exists>s' lo'. process_setup L images i nm s = returns s' \<and> separate L s' \<and> unharmed i s s' \<and>
    (\<forall>j. live s' j \<longleftrightarrow> live s j \<or> j = i) \<and> current s' = current s \<and> pid (proc_at s' i) = pid (proc_at s i) \<and>
    pstate (proc_at s' i) = P_RUNNABLE \<and> reg_rip (regs (proc_at s' i)) = prog_entry pgm \<and>
    reg_rsp (regs (proc_at s' i)) = MEMSIZE_VIRTUAL \<and> process_space (kmem (kern s')) (root_of s' i) (segments pgm) \<and>
    page_run lo' (Suc m) (avail (kernel_end L) (kern s'))"
  using process_setup_ok [OF assms] by blast

text \<open>The image of a program of one endless loop, with a note that is not loaded.\<close>

definition loop_image :: elf_image where
  "loop_image = \<lparr>e_magic = ELF_MAGIC, e_entry = 0x100000,
     e_programs = [\<lparr>p_type = 4, p_flags = 4, p_offset = 0x200, p_va = 0, p_filesz = 0x20, p_memsz = 0x20\<rparr>,
       \<lparr>p_type = ELF_PTYPE_LOAD, p_flags = 5, p_offset = 0x1000, p_va = 0x100000, p_filesz = 2, p_memsz = 2\<rparr>],
     e_byte = (\<lambda>a. if a = 0x1000 then 0xEB else if a = 0x1001 then 0xFE else 0)\<rparr>"

definition loop_program :: program where
  "loop_program = \<lparr>segments = [\<lparr>seg_va = 0x100000, seg_size = 2, seg_data = [0xEB, 0xFE]\<rparr>], prog_entry = 0x100000\<rparr>"

definition sample_images :: "ramimage list" where
  "sample_images = [\<lparr>ram_name = ''other'', ram_elf = loop_image\<lparr>e_entry := 0\<rparr>\<rparr>, \<lparr>ram_name = ''loop'', ram_elf = loop_image\<rparr>]"

lemma loop_loaded: "program_image sample_images ''loop'' = Inr (Some loop_image)" "load_image (Some loop_image) = Inr loop_program"
proof -
  show "program_image sample_images ''loop'' = Inr (Some loop_image)"
    using program_image_named [of "\<lparr>ram_name = ''loop'', ram_elf = loop_image\<rparr>" sample_images]
    by (simp add: sample_images_def loop_image_def)
  show "load_image (Some loop_image) = Inr loop_program" unfolding load_image_loadable
    by (simp add: programs_of_def loop_image_def loop_program_def segment_at_def image_entry_def upt_rec ELF_PTYPE_LOAD_def)
qed

text \<open>Free pages below the kernel follow each other.\<close>

lemma low_run:
  assumes used: "\<And>i. 0 < i \<Longrightarrow> i < i0 \<Longrightarrow> page_used k i" and free: "\<And>i. i0 \<le> i \<Longrightarrow> i < i0 + n \<Longrightarrow> \<not> page_used k i"
    and bounds: "0 < i0" "i0 + n \<le> 64"
  shows "page_run (of_nat i0 * PAGESIZE) n (avail ke k)"
proof -
  have nat: "unat (of_nat i * PAGESIZE) = i * 4096" if "i < NPAGES" for i by (rule page_address(1) [OF that])
  have "of_nat i0 * PAGESIZE + of_nat i * PAGESIZE \<in> avail ke k" if i: "i < n" for i
  proof -
    have j: "i0 + i < 64" "0 < i0 + i" "4096 \<le> (i0 + i) * 4096" using i bounds by simp_all
    then have u: "unat (of_nat (i0 + i) * PAGESIZE :: u64) = (i0 + i) * 4096" by (intro nat) (simp add: NPAGES_def)
    then have "allocatable_physical_address ke (of_nat (i0 + i) * PAGESIZE)"
      using j by (simp add: allocatable_physical_address_def reserved_physical_address_def KERNEL_START_ADDR_def KERNEL_STACK_TOP_def
          MEMSIZE_PHYSICAL_def PAGESIZE_def word_less_nat_alt word_le_nat_alt del: of_nat_add)
    moreover have "i0 + i < NPAGES" "\<not> page_used k (i0 + i)" using j free [of "i0 + i"] i by (simp_all add: NPAGES_def)
    ultimately have "free_page ke k (i0 + i)" by (simp add: free_page_def)
    moreover have "(of_nat i0 * PAGESIZE + of_nat i * PAGESIZE :: u64) = of_nat (i0 + i) * PAGESIZE" by (simp add: algebra_simps)
    ultimately show ?thesis unfolding avail_def by blast
  qed
  moreover have "of_nat i0 * PAGESIZE \<le> p" if "p \<in> avail ke k" for p
  proof -
    from that obtain i where i: "p = of_nat i * PAGESIZE" "free_page ke k i" by (auto simp: avail_def)
    have "i \<noteq> 0" using i(2) by (intro notI) (simp add: free_page_def allocatable_physical_address_def reserved_physical_address_def PAGESIZE_def)
    then have "i0 \<le> i" "i < NPAGES" using i(2) used [of i] by (auto simp: free_page_def not_less [symmetric])
    then show ?thesis using nat [of i] nat [of i0] by (simp add: i(1) word_le_nat_alt)
  qed
  ultimately show ?thesis by (simp add: page_run_def)
qed

lemma loop_program_ok: "segs_ok (unat PROC_START_ADDR) (segments loop_program)" "page_count (segments loop_program) = 1"
  by (simp_all add: loop_program_def seg_ok_def seg_base_def seg_pages_def page_count_def round_down_def PAGESIZE_def
      PROC_START_ADDR_def)

theorem process_setup_makes_process_witness:
  "\<exists>s'. process_setup sample_layout sample_images 3 ''loop'' sample_os = returns s' \<and> separate sample_layout s' \<and>
    unharmed 3 sample_os s' \<and> live s' 1 \<and> live s' 2 \<and> live s' 3 \<and> process_space (kmem (kern s')) (root_of s' 3) (segments loop_program)"
proof -
  have sep: "separate sample_layout sample_os" using sample_isolated(1) by (simp add: isolated_separate)
  have l: "live sample_os j \<longleftrightarrow> j = 1 \<or> j = 2" for j by (simp add: sample_os_def os_with_simps)
  have i: "3 < NPROC" "\<not> live sample_os 3" by (simp_all add: NPROC_def l)
  have "page_run 0x3000 (page_count (segments loop_program) + 9 + 1) (avail (kernel_end sample_layout) (kern sample_os))"
  proof -
    have u: "page_used (kern sample_os) i \<longleftrightarrow> i = 1 \<or> i = 2" if "i < 64" for i
      using that by (auto simp: page_used_def sample_os_def os_with_simps nth_list_update)
    have "page_run (of_nat 3 * PAGESIZE) 11 (avail 0x60000 (kern sample_os))" by (rule low_run) (auto simp: u)
    then show ?thesis by (simp add: loop_program_ok sample_layout_def PAGESIZE_def)
  qed
  from process_setup_makes_process [OF sep i loop_loaded loop_program_ok(1) this] show ?thesis using l by auto
qed

end
