(* ===== verification/KernelTables.thy ===== *)
theory KernelTables
  imports ProcessSetup
begin

text \<open>
  The page table of the kernel, as \<open>init_kernel_memory\<close> of \<open>project04a-wduan/k-hardware.cc\<close> makes it: five tables in the
  kernel's own memory, large pages from 1 GB to 4 GB, and the pages of physical memory mapped one by one.
\<close>

section \<open>init_kernel_memory\<close>

definition kernel_table :: "u64 \<Rightarrow> nat \<Rightarrow> u64" where
  "kernel_table kp i = kp + of_nat i * PAGESIZE"

text \<open>The stores into the array \<open>kernel_pagetable\<close> at \<open>kp\<close>.\<close>

definition first_tables :: "u64 \<Rightarrow> memory \<Rightarrow> memory" where
  "first_tables kp m =
     (let T = kernel_table kp in
      (fold (\<lambda>i. set_page (T i) 0) [0..<5] m)
        (T 0 := T 1 OR (PTE_P OR PTE_W OR PTE_U),
         T 1 := T 2 OR (PTE_P OR PTE_W OR PTE_U),
         T 2 := T 3 OR (PTE_P OR PTE_W OR PTE_U),
         T 2 + 8 := T 4 OR (PTE_P OR PTE_W OR PTE_U),
         T 1 + 8 := push_bit 30 1 OR (PTE_P OR PTE_W OR PTE_PS),
         T 1 + 16 := push_bit 30 2 OR (PTE_P OR PTE_W OR PTE_PS),
         T 1 + 24 := push_bit 30 3 OR (PTE_P OR PTE_W OR PTE_PS)))"

partial_function (option) kernel_map_loop :: "u64 \<Rightarrow> vmiter \<Rightarrow> kernel \<Rightarrow> kernel run" where
  "kernel_map_loop ke it k =
     (if it_va it < MEMSIZE_PHYSICAL then
        rbind (Some
          (if it_va it \<noteq> 0 then
             ebind (try_map ke (it_va it) (PTE_P OR PTE_W OR PTE_U) it k) (\<lambda>(r, it, k).
             ebind (c_assert (r = 0)) (\<lambda>_. Inr (it, k)))
           else Inr (it, k))) (\<lambda>(it, k).
        rbind (Some (it_add (kmem k) PAGESIZE it)) (\<lambda>it. kernel_map_loop ke it k))
      else returns k)"

definition init_kernel_memory :: "layout \<Rightarrow> kernel \<Rightarrow> kernel run" where
  "init_kernel_memory L k =
     (let k = k\<lparr>kmem := first_tables (kernel_pagetable L) (kmem k)\<rparr> in
      rbind (Some (vmiter_at (kmem k) (kernel_pagetable L) 0)) (\<lambda>it. kernel_map_loop (kernel_end L) it k))"

section \<open>The five tables\<close>

text \<open>Where the linker puts the kernel: between its start address and its stack, the page table page-aligned.\<close>

definition layout_ok :: "layout \<Rightarrow> bool" where
  "layout_ok L \<longleftrightarrow> page_aligned (kernel_pagetable L) \<and> unat KERNEL_START_ADDR \<le> unat (kernel_pagetable L) \<and>
     unat (kernel_pagetable L) + 5 * 4096 \<le> unat (kernel_end L) \<and> kernel_end L \<le> KERNEL_STACK_TOP - PAGESIZE \<and>
     KERNEL_START_ADDR \<le> exception_entry L \<and> exception_entry L < kernel_end L"

lemma index_eq:
  assumes "page_aligned t" "page_aligned t'" "unat x < 512" "unat y < 512"
  shows "t + 8 * x = t' + 8 * y \<longleftrightarrow> t = t' \<and> x = y"
proof -
  have n: "unat (s + 8 * z) = unat s + 8 * unat z" if "page_aligned s" "unat z < 512" for s z :: u64
  proof -
    have "unat (8 * z) = 8 * unat z" using that(2) by (subst unat_times_exact) simp_all
    then show ?thesis using that(2) page_aligned_room [OF that(1)] by (subst unat_plus_exact) simp_all
  qed
  have split: "4096 * a + 8 * i = 4096 * b + 8 * j \<longleftrightarrow> a = b \<and> i = j" if "i < 512" "j < 512" for a b i j :: nat
  proof
    assume "4096 * a + 8 * i = 4096 * b + 8 * j"
    then have e: "512 * a + i = 512 * b + j" by simp
    have "(512 * a + i) div 512 = a" "(512 * b + j) div 512 = b" using that by simp_all
    then show "a = b \<and> i = j" using e by simp
  qed simp
  obtain a b where "unat t = 4096 * a" "unat t' = 4096 * b" using assms(1,2) unfolding page_aligned_nat dvd_def by blast
  then have "unat t + 8 * unat x = unat t' + 8 * unat y \<longleftrightarrow> unat t = unat t' \<and> unat x = unat y"
    using split [OF assms(3,4)] by simp
  then show ?thesis using n assms by (simp only: word_unat_eq_iff)
qed

definition kernel_at :: "u64 \<Rightarrow> bool" where
  "kernel_at kp \<longleftrightarrow> page_aligned kp \<and> unat kp + 5 * 4096 \<le> 0x80000"

lemma kernel_table_nat: "kernel_at kp \<Longrightarrow> i < 5 \<Longrightarrow> unat (kernel_table kp i) = unat kp + 4096 * i"
proof -
  assume kp: "kernel_at kp" and i: "i < 5"
  then have n: "unat (of_nat i * PAGESIZE :: u64) = i * 4096"
    unfolding PAGESIZE_def by (subst unat_times_exact) (simp_all add: unat_of_nat)
  show ?thesis unfolding kernel_table_def using kp i by (subst unat_plus_exact) (simp_all add: n kernel_at_def)
qed

lemma kernel_table_page:
  assumes kp: "kernel_at kp" and i: "i < 5"
  shows "page_aligned (kernel_table kp i)" "kernel_table kp i < 0x100000000" "kernel_table kp i AND PTE_PAMASK = kernel_table kp i"
proof -
  show p: "page_aligned (kernel_table kp i)" using assms by (simp add: page_aligned_nat kernel_table_nat kernel_at_def)
  show l: "kernel_table kp i < 0x100000000" using assms by (simp add: word_less_nat_alt kernel_table_nat kernel_at_def)
  show "kernel_table kp i AND PTE_PAMASK = kernel_table kp i" by (rule low_PAMASK [OF p l])
qed

lemma kernel_table_inj: "kernel_at kp \<Longrightarrow> i < 5 \<Longrightarrow> j < 5 \<Longrightarrow> kernel_table kp i = kernel_table kp j \<longleftrightarrow> i = j"
  by (simp add: word_unat_eq_iff kernel_table_nat)

lemma fold_set_page: "fold (\<lambda>i. set_page (f i) w) xs m a = (if \<exists>i \<in> set xs. in_page (f i) a then w else m a)"
  by (induction xs arbitrary: m) (auto simp: set_page_def)

lemma first_tables_read:
  assumes kp: "kernel_at kp" and "i < 5" "unat x < 512"
  shows "first_tables kp m (kernel_table kp i + 8 * x) =
    (if i = 1 \<and> x = 3 then push_bit 30 3 OR (PTE_P OR PTE_W OR PTE_PS)
     else if i = 1 \<and> x = 2 then push_bit 30 2 OR (PTE_P OR PTE_W OR PTE_PS)
     else if i = 1 \<and> x = 1 then push_bit 30 1 OR (PTE_P OR PTE_W OR PTE_PS)
     else if i = 2 \<and> x = 1 then kernel_table kp 4 OR PTE_PWU
     else if i = 2 \<and> x = 0 then kernel_table kp 3 OR PTE_PWU
     else if i = 1 \<and> x = 0 then kernel_table kp 2 OR PTE_PWU
     else if i = 0 \<and> x = 0 then kernel_table kp 1 OR PTE_PWU else 0)"
proof -
  define T where "T = kernel_table kp"
  note al = kernel_table_page(1) [OF kp, folded T_def]
  have pwu: "PTE_P OR PTE_W OR PTE_U = PTE_PWU" by (simp add: pte_defs)
  have eq: "T i + 8 * x = T j + 8 * y \<longleftrightarrow> i = j \<and> x = y" if "j < 5" "unat y < 512" for j y
    using index_eq [OF al [OF assms(2)] al [OF that(1)] assms(3) that(2)] kernel_table_inj [OF kp assms(2) that(1)] by (simp add: T_def)
  have at: "T i + 8 * x = T j \<longleftrightarrow> i = j \<and> x = 0" "T i + 8 * x = T j + 8 \<longleftrightarrow> i = j \<and> x = 1"
    "T i + 8 * x = T j + 16 \<longleftrightarrow> i = j \<and> x = 2" "T i + 8 * x = T j + 24 \<longleftrightarrow> i = j \<and> x = 3" if "j < 5" for j
    using eq [OF that, of 0] eq [OF that, of 1] eq [OF that, of 2] eq [OF that, of 3] by simp_all
  have page: "in_page (T i) (T i + 8 * x)"
  proof -
    have "unat (T i + 8 * x) = unat (T i) + 8 * unat x"
    proof -
      have "unat (8 * x) = 8 * unat x" using assms(3) by (subst unat_times_exact) simp_all
      then show ?thesis using assms(3) page_aligned_room [OF al [OF assms(2)]] by (subst unat_plus_exact) simp_all
    qed
    then show ?thesis using assms(3) al [OF assms(2)] by (auto simp: in_page_nat page_aligned_nat elim!: dvdE)
  qed
  define F where "F = fold (\<lambda>i. set_page (T i) 0) [0..<5] m"
  have F: "F (T i + 8 * x) = 0" using page assms(2) unfolding F_def fold_set_page by auto
  have first: "first_tables kp m = F(T 0 := T 1 OR PTE_PWU, T 1 := T 2 OR PTE_PWU, T 2 := T 3 OR PTE_PWU, T 2 + 8 := T 4 OR PTE_PWU,
     T 1 + 8 := push_bit 30 1 OR (PTE_P OR PTE_W OR PTE_PS), T 1 + 16 := push_bit 30 2 OR (PTE_P OR PTE_W OR PTE_PS),
     T 1 + 24 := push_bit 30 3 OR (PTE_P OR PTE_W OR PTE_PS))"
    unfolding first_tables_def Let_def pwu F_def T_def ..
  have j: "(0 :: nat) < 5" "(1 :: nat) < 5" "(2 :: nat) < 5" by simp_all
  show ?thesis unfolding T_def [symmetric] first by (simp only: fun_upd_apply at [OF j(1)] at [OF j(2)] at [OF j(3)] F)
qed

lemma first_entries:
  assumes kp: "kernel_at kp"
  shows "first_tables kp m (slot (kernel_table kp 0) va l) = (if pageindex va l = 0 then kernel_table kp 1 OR PTE_PWU else 0)"
    and "pageindex va l = 0 \<Longrightarrow> first_tables kp m (slot (kernel_table kp 1) va l) = kernel_table kp 2 OR PTE_PWU"
    and "pageindex va l \<noteq> 0 \<Longrightarrow> first_tables kp m (slot (kernel_table kp 1) va l) = 0 \<or>
      (\<exists>x. first_tables kp m (slot (kernel_table kp 1) va l) = x OR (PTE_P OR PTE_W OR PTE_PS))"
    and "first_tables kp m (slot (kernel_table kp 2) va l) =
      (if pageindex va l = 0 then kernel_table kp 3 OR PTE_PWU else if pageindex va l = 1 then kernel_table kp 4 OR PTE_PWU else 0)"
    and "i = 3 \<or> i = 4 \<Longrightarrow> first_tables kp m (slot (kernel_table kp i) va l) = 0"
proof -
  note read = first_tables_read [OF kp _ pageindex_nat [of va l], folded slot_def, of _ m]
  show "first_tables kp m (slot (kernel_table kp 0) va l) = (if pageindex va l = 0 then kernel_table kp 1 OR PTE_PWU else 0)"
    by (subst read) simp_all
  show "first_tables kp m (slot (kernel_table kp 1) va l) = kernel_table kp 2 OR PTE_PWU" if "pageindex va l = 0"
    using that by (subst read) simp_all
  show "first_tables kp m (slot (kernel_table kp 1) va l) = 0 \<or>
      (\<exists>x. first_tables kp m (slot (kernel_table kp 1) va l) = x OR (PTE_P OR PTE_W OR PTE_PS))" if "pageindex va l \<noteq> 0"
  proof -
    have "first_tables kp m (slot (kernel_table kp 1) va l) \<in> {0, push_bit 30 3 OR (PTE_P OR PTE_W OR PTE_PS),
        push_bit 30 2 OR (PTE_P OR PTE_W OR PTE_PS), push_bit 30 1 OR (PTE_P OR PTE_W OR PTE_PS)}"
      using that by (subst read) simp_all
    then show ?thesis by blast
  qed
  show "first_tables kp m (slot (kernel_table kp 2) va l) =
      (if pageindex va l = 0 then kernel_table kp 3 OR PTE_PWU else if pageindex va l = 1 then kernel_table kp 4 OR PTE_PWU else 0)"
    by (subst read) simp_all
  show "first_tables kp m (slot (kernel_table kp i) va l) = 0" if "i = 3 \<or> i = 4"
    using that by (subst read) auto
qed

text \<open>What \<open>first_tables\<close> fixes of the walks: which tables they go through.\<close>

definition kernel_walk :: "u64 \<Rightarrow> memory \<Rightarrow> bool" where
  "kernel_walk kp m \<longleftrightarrow> (\<forall>va.
     stage m kp va 1 = (if pageindex va 3 = 0 then Some (kernel_table kp 1, 0xFFF) else None) \<and>
     stage m kp va 2 = (if pageindex va 3 = 0 \<and> pageindex va 2 = 0 then Some (kernel_table kp 2, 0xFFF) else None) \<and>
     stage m kp va 3 = (if pageindex va 3 = 0 \<and> pageindex va 2 = 0 \<and> pageindex va 1 \<in> {0, 1}
       then Some (kernel_table kp (if pageindex va 1 = 0 then 3 else 4), 0xFFF) else None))"

lemma first_tables_walk:
  assumes kp: "kernel_at kp"
  shows "kernel_walk kp (first_tables kp m)"
proof -
  let ?m = "first_tables kp m"
  have entry: "0 < l \<Longrightarrow> descends l (kernel_table kp i OR PTE_PWU)" "(kernel_table kp i OR PTE_PWU) AND PTE_PAMASK = kernel_table kp i"
    "below q (kernel_table kp i OR PTE_PWU) = q" if "i < 5" for i l q
    using table_entry [OF kernel_table_page(3) [OF kp that]] by blast+
  have large: "\<not> descends l (x OR (PTE_P OR PTE_W OR PTE_PS))" for l x
  proof
    assume "descends l (x OR (PTE_P OR PTE_W OR PTE_PS))"
    then have "(x OR (PTE_P OR PTE_W OR PTE_PS)) AND PTE_PS = 0" by (simp add: descends_present)
    moreover have "bit ((x OR (PTE_P OR PTE_W OR PTE_PS)) AND PTE_PS) 7" by (simp add: bit_simps pte_defs)
    ultimately show False by simp
  qed
  have none: "\<not> descends l 0" for l by (simp add: descends_def PTE_P_def)
  have step: "stage ?m kp va (Suc d) = (if descends (3 - d) e then Some (e AND PTE_PAMASK, below q e) else None)"
    if "stage ?m kp va d = Some (t, q)" "?m (slot t va (3 - d)) = e" for va d t q e
    using that by (simp add: Let_def)
  have stop: "stage ?m kp va (Suc d) = None" if "stage ?m kp va d = None" for va d using that by simp
  have s0: "stage ?m kp va 0 = Some (kernel_table kp 0, 0xFFF)" for va by (simp add: kernel_table_def)
  have s1: "stage ?m kp va (Suc 0) = (if pageindex va 3 = 0 then Some (kernel_table kp 1, 0xFFF) else None)" for va
    using step [OF s0 first_entries(1) [OF kp]] by (simp add: entry none)
  have s2: "stage ?m kp va (Suc (Suc 0)) =
      (if pageindex va 3 = 0 \<and> pageindex va 2 = 0 then Some (kernel_table kp 2, 0xFFF) else None)" for va
  proof (cases "pageindex va 3 = 0")
    case True
    then have s: "stage ?m kp va (Suc 0) = Some (kernel_table kp 1, 0xFFF)" using s1 by simp
    have "\<not> descends 2 (?m (slot (kernel_table kp 1) va 2))" if "pageindex va 2 \<noteq> 0"
      using first_entries(3) [OF kp that, of m] none large by metis
    then show ?thesis using step [OF s refl] first_entries(2) [OF kp, of va 2 m] True
      by (cases "pageindex va 2 = 0") (simp_all add: entry numeral_2_eq_2 [symmetric])
  qed (use stop s1 in simp)
  have s3: "stage ?m kp va (Suc (Suc (Suc 0))) = (if pageindex va 3 = 0 \<and> pageindex va 2 = 0 \<and> pageindex va 1 \<in> {0, 1}
       then Some (kernel_table kp (if pageindex va 1 = 0 then 3 else 4), 0xFFF) else None)" for va
  proof (cases "pageindex va 3 = 0 \<and> pageindex va 2 = 0")
    case True
    then have s: "stage ?m kp va (Suc (Suc 0)) = Some (kernel_table kp 2, 0xFFF)" using s2 by simp
    then show ?thesis using step [OF s refl] first_entries(4) [OF kp, of m va 1] True
      by (simp add: entry none)
  qed (use stop s2 in auto)
  show ?thesis unfolding kernel_walk_def using s1 s2 s3 by (simp only: One_nat_def numeral_2_eq_2 numeral_3_eq_3) blast
qed

lemma kernel_walk_stage:
  assumes "kernel_walk kp m" "stage m kp va d = Some (t, q)"
  shows "q = 0xFFF \<and> (\<exists>i<5. t = kernel_table kp i \<and> d = (if i = 4 then 3 else i) \<and>
    (\<forall>j<d. pageindex va (3 - j) = (if i = 4 \<and> j = 2 then 1 else 0)))"
proof -
  have s: "stage m kp va 1 = (if pageindex va 3 = 0 then Some (kernel_table kp 1, 0xFFF) else None)"
     "stage m kp va 2 = (if pageindex va 3 = 0 \<and> pageindex va 2 = 0 then Some (kernel_table kp 2, 0xFFF) else None)"
     "stage m kp va 3 = (if pageindex va 3 = 0 \<and> pageindex va 2 = 0 \<and> pageindex va 1 \<in> {0, 1}
       then Some (kernel_table kp (if pageindex va 1 = 0 then 3 else 4), 0xFFF) else None)"
    using assms(1) unfolding kernel_walk_def by blast+
  have "d = 0 \<or> d = 1 \<or> d = 2 \<or> d = 3" using stage_upto3 [OF assms(2)] by presburger
  then consider "d = 0" | "d = 1" | "d = 2" | "d = 3" by blast
  then show ?thesis
  proof cases
    case 1
    then show ?thesis using assms(2) by (intro conjI exI [of _ 0]) (simp_all add: kernel_table_def)
  next
    case 2
    then show ?thesis using assms(2) s(1) by (intro conjI exI [of _ 1]) (auto split: if_splits)
  next
    case 3
    then show ?thesis using assms(2) s(2) by (intro conjI exI [of _ 2]) (auto simp: less_Suc_eq numeral_eq_Suc split: if_splits)
  next
    case 4
    then have "stage m kp va 3 = Some (t, q)" using assms(2) by simp
    then have c: "pageindex va 3 = 0" "pageindex va 2 = 0" "pageindex va 1 \<in> {0, 1}"
      "t = kernel_table kp (if pageindex va 1 = 0 then 3 else 4)" "q = 0xFFF" unfolding s(3) by (auto split: if_splits)
    have j: "j = 0 \<or> j = 1 \<or> j = 2" if "j < 3" for j :: nat using that by presburger
    show ?thesis using c 4 by (intro conjI exI [of _ "if pageindex va 1 = 0 then 3 else 4"]) (auto dest!: j)
  qed
qed

lemma kernel_walk_tables:
  assumes kp: "kernel_at kp" and w: "kernel_walk kp m"
  shows "wf_tables m kp" "tables m kp \<subseteq> kernel_table kp ` {..<5}"
proof -
  show "tables m kp \<subseteq> kernel_table kp ` {..<5}" unfolding tables_def using kernel_walk_stage [OF w] by blast
  have "d = d' \<and> same_path d va va'" if s: "stage m kp va d = Some (t, q)" "stage m kp va' d' = Some (t, q')" for va va' d d' t q q'
  proof -
    obtain i where i: "i < 5" "t = kernel_table kp i" "d = (if i = 4 then 3 else i)"
      "\<forall>j<d. pageindex va (3 - j) = (if i = 4 \<and> j = 2 then 1 else 0)" using kernel_walk_stage [OF w s(1)] by blast
    obtain i' where i': "i' < 5" "t = kernel_table kp i'" "d' = (if i' = 4 then 3 else i')"
      "\<forall>j<d'. pageindex va' (3 - j) = (if i' = 4 \<and> j = 2 then 1 else 0)" using kernel_walk_stage [OF w s(2)] by blast
    have "i = i'" using i(1,2) i'(1,2) kernel_table_inj [OF kp] by metis
    then show ?thesis using i(3,4) i'(3,4) by (simp add: same_path_def)
  qed
  then show "wf_tables m kp" using kp unfolding wf_tables_def kernel_at_def by blast
qed

text \<open>Below 4 MB every walk reaches a table of the lowest level.\<close>

lemma kernel_walk_low:
  assumes "kernel_walk kp m" "va < 0x400000"
  shows "\<exists>i. (i = 3 \<or> i = 4) \<and> stage m kp va 3 = Some (kernel_table kp i, 0xFFF)"
proof -
  have n: "unat va < 0x400000" using assms(2) by (simp add: word_less_nat_alt)
  have "unat (pageindex va 3) = 0" "unat (pageindex va 2) = 0" using n by (simp_all add: unat_pageindex)
  then have z: "pageindex va 3 = 0" "pageindex va 2 = 0" by (simp_all only: unat_eq_zero)
  have "unat (pageindex va 1) < 2" using n by (simp add: unat_pageindex)
  then have "pageindex va 1 = 0 \<or> pageindex va 1 = 1" by unat_arith
  moreover have "stage m kp va 3 = (if pageindex va 3 = 0 \<and> pageindex va 2 = 0 \<and> pageindex va 1 \<in> {0, 1}
       then Some (kernel_table kp (if pageindex va 1 = 0 then 3 else 4), 0xFFF) else None)"
    using assms(1) unfolding kernel_walk_def by blast
  ultimately show ?thesis using z by (intro exI [of _ "if pageindex va 1 = 0 then 3 else 4"]) auto
qed

lemma kernel_walk_plain:
  assumes kp: "kernel_at kp" and w: "kernel_walk kp m" and va: "va < 0x400000"
    and leaf: "\<And>t q. stage m kp va 3 = Some (t, q) \<Longrightarrow> m (slot t va 0) AND PTE_PAMASK < 0x100000000"
  shows "plain_at m kp va"
  unfolding plain_at_def
proof (intro allI impI)
  fix d t q
  assume s: "stage m kp va d = Some (t, q)"
  have q: "q AND PTE_PWU = PTE_PWU" using kernel_walk_stage [OF w s] by (simp add: pte_defs)
  show "q AND PTE_PWU = PTE_PWU \<and> m (slot t va (3 - d)) AND PTE_PAMASK < 0x100000000 \<and>
     (d < 3 \<longrightarrow> descends (3 - d) (m (slot t va (3 - d))) \<or> m (slot t va (3 - d)) AND PTE_P = 0)"
  proof (cases "d < 3")
    case True
    obtain tq where "stage m kp va 3 = Some tq" using kernel_walk_low [OF w va] by blast
    then obtain t' q' where s': "stage m kp va (Suc d) = Some (t', q')" using stage_earlier [of m kp va 3 tq "Suc d"] True by fastforce
    then have "descends (3 - d) (m (slot t va (3 - d)))" "m (slot t va (3 - d)) AND PTE_PAMASK = t'"
      using s by (auto simp: Let_def split: if_splits)
    then show ?thesis using q kernel_walk_stage [OF w s'] kernel_table_page(2) [OF kp] by auto
  next
    case False
    then have "d = 3" using stage_upto3 [OF s] by simp
    then show ?thesis using q leaf s by simp
  qed
qed

section \<open>The loop over the pages\<close>

text \<open>An iterator at a leaf stays there when it maps its page.\<close>

lemma map_at_leaf:
  assumes ok: "table_ok ke k root" and plain: "plain_at (kmem k) root va" and s: "stage (kmem k) root va 3 \<noteq> None"
    and it: "vmiter_at (kmem k) root va = Inr it" and va: "page_aligned va" "va < 0x100000000"
  shows "\<exists>k'. try_map ke va PTE_PWU it k = Inr (0, it, k') \<and> table_ok ke k' root \<and> grown ke root {} k k' \<and>
    extends root (kmem k) (kmem k') \<and> (\<forall>va'. mmu (kmem k') root va' =
      (if va \<le> va' \<and> va' < va + PAGESIZE then Some (va', PTE_PWU) else mmu (kmem k) root va'))"
proof -
  obtain t q where tq: "stage (kmem k) root va 3 = Some (t, q)" using s by auto
  have q: "q AND PTE_PWU = PTE_PWU" by (rule plain_atD(1) [OF plain tq])
  have perm: "PTE_PWU AND PTE_PWU = PTE_PWU" "PTE_PWU AND PTE_P \<noteq> 0" by (simp_all add: pte_defs)
  note e = vmiter_at_end [OF it]
  have none: "stage (kmem k) root va (Suc 3) = None" using stage_upto3 [of "kmem k" root va "Suc 3"] by (cases "stage (kmem k) root va (Suc 3)") auto
  have "it = it_of root va 3 t q"
  proof -
    obtain d t' q' where d: "stage (kmem k) root va d = Some (t', q')" "stage (kmem k) root va (Suc d) = None" "it = it_of root va d t' q'"
      using e low_canonical [OF va(2)] unfolding at_end_def by auto
    have "d = 3"
    proof (rule ccontr)
      assume "d \<noteq> 3"
      then have "Suc d \<le> 3" using stage_upto3 [OF d(1)] by simp
      from stage_earlier [OF tq this] d(2) show False by simp
    qed
    then show ?thesis using d tq by simp
  qed
  then have f: "it_level it = 0" "it_pep it = Some (slot t va 0)" "it_perm it = q" "it_va it = va" by (simp_all add: it_of_def)
  let ?k = "k\<lparr>kmem := (kmem k)(slot t va 0 := va OR PTE_PWU)\<rparr>"
  have "it_va it mod PAGESIZE = 0" using va(1) f by (simp add: page_aligned_def)
  from try_map_present [OF this low_PAMASK [OF va] perm] q f
  have tried: "try_map ke va PTE_PWU it k = Inr (0, it, ?k)" by (simp add: map_loop.simps)
  then have m: "memory_map ke root va va PTE_PWU k = Inr (0, ?k)" using it by (simp add: memory_map_def)
  from memory_map_ok [OF ok plain low_canonical [OF va(2)] va(1) low_PAMASK [OF va] va(2) perm] m tq
  have "table_ok ke ?k root \<and> grown ke root {} k ?k \<and> extends root (kmem k) (kmem ?k) \<and> (\<forall>va'. mmu (kmem ?k) root va' =
      (if drop_bit 12 va' = drop_bit 12 va then Some (va + (va' AND 0xFFF), PTE_PWU) else mmu (kmem k) root va'))"
    by (elim exE conjE) simp
  moreover have "(if drop_bit 12 va' = drop_bit 12 va then Some (va + (va' AND 0xFFF), PTE_PWU) else x) =
      (if va \<le> va' \<and> va' < va + PAGESIZE then Some (va', PTE_PWU) else x)" for va' and x :: "(u64 \<times> u64) option"
    using page_split [OF va, of va'] by simp
  ultimately show ?thesis using tried by (intro exI [of _ ?k]) simp
qed

lemma kernel_map_ok:
  assumes "table_ok ke k root" "\<forall>va\<le>MEMSIZE_PHYSICAL. plain_at (kmem k) root va \<and> stage (kmem k) root va 3 \<noteq> None"
    and "vmiter_at (kmem k) root (it_va it) = Inr it" "page_aligned (it_va it)" "it_va it \<le> MEMSIZE_PHYSICAL"
  shows "\<exists>k'. kernel_map_loop ke it k = returns k' \<and> table_ok ke k' root \<and> grown ke root {} k k' \<and>
    extends root (kmem k) (kmem k') \<and> (\<forall>va. mmu (kmem k') root va =
      (if it_va it \<le> va \<and> va < MEMSIZE_PHYSICAL \<and> PAGESIZE \<le> va then Some (va, PTE_PWU) else mmu (kmem k) root va))"
  using assms
proof (induction "unat MEMSIZE_PHYSICAL - unat (it_va it)" arbitrary: k it rule: less_induct)
  case less
  have top: "page_aligned MEMSIZE_PHYSICAL" "MEMSIZE_PHYSICAL < 0x100000000"
    by (simp_all add: MEMSIZE_PHYSICAL_def page_aligned_def PAGESIZE_def)
  show ?case
  proof (cases "it_va it < MEMSIZE_PHYSICAL")
    case False
    then show ?thesis using less.prems(1) grown_refl [of ke root k] extends_refl [of root "kmem k"]
      by (subst kernel_map_loop.simps) (auto simp: returns_def intro!: exI [of _ k])
  next
    case True
    let ?va = "it_va it"
    have low: "?va < 0x100000000" using True top(2) by simp
    note step = next_page [OF less.prems(4) top(1) True top(2)]
    have here: "plain_at (kmem k) root ?va" "stage (kmem k) root ?va 3 \<noteq> None" using less.prems(2,5) by auto
    have root: "page_aligned root" using less.prems(1) by (simp add: table_ok_def wf_tables_def)
    have pwu: "PTE_P OR PTE_W OR PTE_U = PTE_PWU" by (simp add: pte_defs)
    obtain k1 where k1: "(if ?va \<noteq> 0 then ebind (try_map ke ?va PTE_PWU it k) (\<lambda>(r, it, k). ebind (c_assert (r = 0)) (\<lambda>_. Inr (it, k)))
          else Inr (it, k)) = Inr (it, k1)"
      "table_ok ke k1 root" "grown ke root {} k k1" "extends root (kmem k) (kmem k1)"
      "\<And>va'. mmu (kmem k1) root va' =
        (if ?va \<noteq> 0 \<and> ?va \<le> va' \<and> va' < ?va + PAGESIZE then Some (va', PTE_PWU) else mmu (kmem k) root va')"
    proof (cases "?va = 0")
      case True
      then show ?thesis using that [of k] less.prems(1) grown_refl [of ke root k] extends_refl [of root "kmem k"] by simp
    next
      case False
      from map_at_leaf [OF less.prems(1) here less.prems(3,4) low] obtain k1 where
        "try_map ke ?va PTE_PWU it k = Inr (0, it, k1)" "table_ok ke k1 root" "grown ke root {} k k1"
        "extends root (kmem k) (kmem k1)" "\<And>va'. mmu (kmem k1) root va' =
          (if ?va \<le> va' \<and> va' < ?va + PAGESIZE then Some (va', PTE_PWU) else mmu (kmem k) root va')" by blast
      then show ?thesis using that [of k1] False by (simp add: c_assert_def)
    qed
    have all1: "\<forall>va\<le>MEMSIZE_PHYSICAL. plain_at (kmem k1) root va \<and> stage (kmem k1) root va 3 \<noteq> None"
      using less.prems(2) extends_plain [OF k1(4)] k1(4) unfolding extends_def by (metis not_None_eq surj_pair)
    have "on_walk (kmem k) root it" using vmiter_at_end [OF less.prems(3)] at_end_on_walk by blast
    then have "it_add (kmem k1) PAGESIZE it = vmiter_at (kmem k1) root (?va + PAGESIZE)"
      using real_find_fresh [OF on_walk_extends [OF _ k1(4)] root] by (simp add: it_add_def it_find_def)
    moreover have "va_is_canonical (?va + PAGESIZE)" by (rule low_canonical) (use step(2) top(2) in simp)
    from vmiter_at_plain [OF _ this, of "kmem k1" root] all1 step(2) obtain it' where
      "vmiter_at (kmem k1) root (?va + PAGESIZE) = Inr it'" by blast
    ultimately have it': "it_add (kmem k1) PAGESIZE it = Inr it'" "vmiter_at (kmem k1) root (it_va it') = Inr it'"
      "it_va it' = ?va + PAGESIZE" using vmiter_at_end by auto
    have "unat MEMSIZE_PHYSICAL - unat (it_va it') < unat MEMSIZE_PHYSICAL - unat ?va"
      using it'(3) step(4) True by (simp add: word_less_nat_alt)
    from less.hyps [OF this k1(2) all1 it'(2)] it'(3) step(2,3) obtain k' where
      k': "kernel_map_loop ke it' k1 = returns k'" "table_ok ke k' root" "grown ke root {} k1 k'" "extends root (kmem k1) (kmem k')"
      "\<And>va. mmu (kmem k') root va = (if ?va + PAGESIZE \<le> va \<and> va < MEMSIZE_PHYSICAL \<and> PAGESIZE \<le> va
        then Some (va, PTE_PWU) else mmu (kmem k1) root va)" by auto
    have loop: "kernel_map_loop ke it k = returns k'"
      using True k1(1) it'(1) k'(1) unfolding pwu [symmetric] by (subst kernel_map_loop.simps) simp
    have "mmu (kmem k') root va = (if ?va \<le> va \<and> va < MEMSIZE_PHYSICAL \<and> PAGESIZE \<le> va then Some (va, PTE_PWU)
      else mmu (kmem k) root va)" for va
    proof -
      have "PAGESIZE \<le> va" if "?va \<noteq> 0" "?va \<le> va"
      proof -
        have "4096 dvd unat ?va" using less.prems(4) by (simp add: page_aligned_nat)
        moreover have "unat ?va \<noteq> 0" using that(1) by (simp add: unat_eq_zero)
        ultimately have "4096 \<le> unat ?va" using dvd_imp_le by blast
        then show ?thesis using that(2) by (simp add: PAGESIZE_def word_le_nat_alt)
      qed
      moreover have "PAGESIZE \<le> va" if "?va = 0" "?va + PAGESIZE \<le> va" using that by simp
      ultimately show ?thesis unfolding k'(5) k1(5) using step(1,2) by (auto simp: not_le)
    qed
    then show ?thesis using loop k'(2) grown_trans [OF k1(3) k'(3)] extends_trans [OF k1(4) k'(4)] by auto
  qed
qed

text \<open>The kernel's own table after \<open>init_kernel_memory\<close>. It lies in pages that \<open>kalloc\<close> never gives out.\<close>

lemma kernel_end_round_up:
  assumes "layout_ok L"
  shows "kernel_end L \<le> round_up (kernel_end L) PAGESIZE"
proof -
  define x where "x = kernel_end L + PAGESIZE - 1"
  have L: "unat (kernel_end L) \<le> 0x7F000"
    using assms by (simp add: layout_ok_def word_le_nat_alt KERNEL_STACK_TOP_def PAGESIZE_def)
  have "x = kernel_end L + 4095" by (simp add: x_def PAGESIZE_def)
  then have x: "unat x = unat (kernel_end L) + 4095" using L by (simp only:) (subst unat_plus_exact; simp)
  have m: "unat (x mod PAGESIZE) = unat x mod 4096" by (simp only: PAGESIZE_def unat_mod_distrib) simp
  have "round_up (kernel_end L) PAGESIZE = x - x mod PAGESIZE" by (simp only: round_up_def round_down_def x_def)
  then have "unat (round_up (kernel_end L) PAGESIZE) = unat x - unat x mod 4096"
    using m by (simp add: unat_minus_exact word_le_nat_alt)
  moreover have "unat x mod 4096 < 4096" by simp
  ultimately show ?thesis using x by (simp add: word_le_nat_alt)
qed

lemma kernel_pages:
  assumes "layout_ok L" "i < 5"
  shows "kernel_table (kernel_pagetable L) i \<notin> avail (kernel_end L) k"
proof
  assume "kernel_table (kernel_pagetable L) i \<in> avail (kernel_end L) k"
  then have a: "allocatable_physical_address (kernel_end L) (kernel_table (kernel_pagetable L) i)"
    by (auto simp: avail_def free_page_def)
  have L: "unat KERNEL_START_ADDR \<le> unat (kernel_pagetable L)" "unat (kernel_pagetable L) + 5 * 4096 \<le> unat (kernel_end L)"
    "unat (kernel_end L) \<le> 0x7F000" "kernel_at (kernel_pagetable L)"
    using assms(1) by (simp_all add: layout_ok_def kernel_at_def word_le_nat_alt KERNEL_STACK_TOP_def PAGESIZE_def)
  note n = kernel_table_nat [OF L(4) assms(2)]
  have "unat (kernel_table (kernel_pagetable L) i) < unat (kernel_end L)" using n L(2) assms(2) by simp
  moreover have "unat (kernel_end L) \<le> unat (round_up (kernel_end L) PAGESIZE)"
    using kernel_end_round_up [OF assms(1)] by (simp add: word_le_nat_alt)
  ultimately show False using a L n by (simp add: allocatable_physical_address_def word_less_nat_alt word_le_nat_alt)
qed


lemma init_kernel_memory_ok:
  assumes L: "layout_ok L" and ok: "pages_ok k"
  shows "\<exists>k'. init_kernel_memory L k = returns k' \<and> table_ok (kernel_end L) k' (kernel_pagetable L) \<and>
    (\<forall>va\<le>MEMSIZE_PHYSICAL. plain_at (kmem k') (kernel_pagetable L) va) \<and> stage (kmem k') (kernel_pagetable L) 0 3 \<noteq> None \<and>
    tables (kmem k') (kernel_pagetable L) \<inter> avail (kernel_end L) k = {} \<and> avail (kernel_end L) k' = avail (kernel_end L) k \<and>
    (\<forall>va. PAGESIZE \<le> va \<longrightarrow> va < MEMSIZE_PHYSICAL \<longrightarrow> mmu (kmem k') (kernel_pagetable L) va = Some (va, PTE_PWU))"
proof -
  let ?kp = "kernel_pagetable L" and ?ke = "kernel_end L"
  let ?k = "k\<lparr>kmem := first_tables ?kp (kmem k)\<rparr>"
  have "unat (kernel_end L) \<le> 0x7F000" using L by (simp add: layout_ok_def word_le_nat_alt KERNEL_STACK_TOP_def PAGESIZE_def)
  then have kp: "kernel_at ?kp" using L by (simp add: layout_ok_def kernel_at_def)
  note walk = first_tables_walk [OF kp, of "kmem k"]
  have av: "avail ?ke ?k = avail ?ke k" by (simp add: avail_def free_page_def page_used_def)
  have out: "tables (kmem ?k) ?kp \<inter> avail ?ke k = {}" using kernel_walk_tables(2) [OF kp walk] kernel_pages [OF L] by auto
  have tok: "table_ok ?ke ?k ?kp"
    using kernel_walk_tables(1) [OF kp walk] ok out av by (simp add: table_ok_def pages_ok_def)
  have all: "plain_at (kmem ?k) ?kp va \<and> stage (kmem ?k) ?kp va 3 \<noteq> None" if "va \<le> MEMSIZE_PHYSICAL" for va
  proof -
    have va: "va < 0x400000" using that unfolding MEMSIZE_PHYSICAL_def by unat_arith
    obtain i where i: "i = 3 \<or> i = 4" "stage (kmem ?k) ?kp va 3 = Some (kernel_table ?kp i, 0xFFF)"
      using kernel_walk_low [OF walk va] by auto
    then show ?thesis using kernel_walk_plain [OF kp walk va] first_entries(5) [OF kp i(1)] by simp
  qed
  have c: "va_is_canonical 0" by (simp add: va_is_canonical_def)
  have p0: "plain_at (kmem ?k) ?kp 0" "stage (kmem ?k) ?kp 0 3 \<noteq> None" using all [of 0] by simp_all
  from vmiter_at_plain [OF p0(1) c] obtain it where it: "vmiter_at (kmem ?k) ?kp 0 = Inr it" by blast
  have e: "it_va it = 0" using vmiter_at_end [OF it] by blast
  have "vmiter_at (kmem ?k) ?kp (it_va it) = Inr it" "page_aligned (it_va it)" "it_va it \<le> MEMSIZE_PHYSICAL"
    using it by (simp_all add: e page_aligned_def)
  from kernel_map_ok [OF tok _ this] all obtain k' where k': "kernel_map_loop ?ke it ?k = returns k'" "table_ok ?ke k' ?kp"
    "grown ?ke ?kp {} ?k k'" "extends ?kp (kmem ?k) (kmem k')" "\<And>va. mmu (kmem k') ?kp va =
      (if it_va it \<le> va \<and> va < MEMSIZE_PHYSICAL \<and> PAGESIZE \<le> va then Some (va, PTE_PWU) else mmu (kmem ?k) ?kp va)" by blast
  have "init_kernel_memory L k = returns k'" using it k'(1) by (simp add: init_kernel_memory_def Let_def)
  moreover have "stage (kmem k') ?kp 0 3 \<noteq> None" using p0(2) k'(4) by (auto simp: extends_def)
  moreover have "\<forall>va\<le>MEMSIZE_PHYSICAL. plain_at (kmem k') ?kp va" using all extends_plain [OF k'(4)] by blast
  moreover have "tables (kmem k') ?kp \<inter> avail ?ke k = {}" "avail ?ke k' = avail ?ke k" using k'(3) out av by (simp_all add: grown_def)
  ultimately show ?thesis using k'(2,5) e by (intro exI [of _ k']) simp
qed

end
