(* ===== verification/Boot.thy ===== *)
theory Boot
  imports NewProcess KernelTables
begin

text \<open>
  The start of the kernel (\<open>kernel_start\<close> of \<open>project04a-wduan/kernel.c\<close>) after the devices are set up: the kernel's own page
  table, the process table, the first processes and the first \<open>run\<close>; and what \<open>sys_page_alloc\<close> can do to the mappings of the kernel.
\<close>

section \<open>kernel_start\<close>

text \<open>\<open>command\<close> is the string from the boot loader, if there is one.\<close>

definition kernel_start :: "layout \<Rightarrow> ramimage list \<Rightarrow> string option \<Rightarrow> os \<Rightarrow> os run" where
  "kernel_start L images command s =
     rbind (init_kernel_memory L (kern s)) (\<lambda>k.
     rbind (setup_tables (kernel_end L) (kernel_pagetable L) k) (\<lambda>k.
     let s = s\<lparr>kern := k, ticks := 1, ptable := map (\<lambda>i. (ptable s ! i)\<lparr>pid := i, pstate := P_FREE\<rparr>) [0..<NPROC]\<rparr> in
     rbind (Some (case command of None \<Rightarrow> Inr True
                  | Some c \<Rightarrow> ebind (program_image images c) (\<lambda>elf. Inr (image_empty elf)))) (\<lambda>none.
     rbind
       (if \<not> none then process_setup L images 1 (the command) s
        else
          rbind (process_setup L images 1 ''allocator'' s) (\<lambda>s.
          rbind (process_setup L images 2 ''allocator2'' s) (\<lambda>s.
          rbind (process_setup L images 3 ''allocator3'' s) (\<lambda>s.
          process_setup L images 4 ''allocator4'' s)))) (\<lambda>s.
     Some (run_proc L 1 s)))))"

section \<open>Setting up processes one after the other\<close>

fun setup_each :: "layout \<Rightarrow> ramimage list \<Rightarrow> nat \<Rightarrow> string list \<Rightarrow> os \<Rightarrow> os run" where
  "setup_each L images i [] s = returns s"
| "setup_each L images i (name # names) s = rbind (process_setup L images i name s) (setup_each L images (i + 1) names)"

definition boot_names :: "ramimage list \<Rightarrow> string option \<Rightarrow> string list result" where
  "boot_names images command =
     ebind (case command of None \<Rightarrow> Inr True | Some c \<Rightarrow> ebind (program_image images c) (\<lambda>elf. Inr (image_empty elf))) (\<lambda>none.
     Inr (if \<not> none then [the command] else [''allocator'', ''allocator2'', ''allocator3'', ''allocator4'']))"

lemma rbind_returns: "rbind m returns = m"
  by (cases m) (auto simp: rbind_def returns_def split: sum.splits)

lemma setup_each_fun: "setup_each L images i [] = returns"
  "setup_each L images i (name # names) = (\<lambda>s. rbind (process_setup L images i name s) (setup_each L images (i + 1) names))"
  by (intro ext; simp)+

lemma kernel_start_each:
  assumes "boot_names images command = Inr names"
  shows "kernel_start L images command s =
     rbind (init_kernel_memory L (kern s)) (\<lambda>k.
     rbind (setup_tables (kernel_end L) (kernel_pagetable L) k) (\<lambda>k.
     rbind (setup_each L images 1 names
       (s\<lparr>kern := k, ticks := 1, ptable := map (\<lambda>i. (ptable s ! i)\<lparr>pid := i, pstate := P_FREE\<rparr>) [0..<NPROC]\<rparr>)) (\<lambda>s.
     Some (run_proc L 1 s))))"
proof -
  obtain none where none: "(case command of None \<Rightarrow> Inr True
      | Some c \<Rightarrow> ebind (program_image images c) (\<lambda>elf. Inr (image_empty elf))) = (Inr none :: bool result)"
    and names: "names = (if \<not> none then [the command] else [''allocator'', ''allocator2'', ''allocator3'', ''allocator4''])"
    using assms by (auto simp: boot_names_def ebind_eq_Inr)
  show ?thesis unfolding kernel_start_def none names Let_def by (cases none) (simp_all add: setup_each_fun rbind_returns numeral_eq_Suc)
qed

text \<open>A process that is ready for its first instruction.\<close>

definition ready :: "os \<Rightarrow> nat \<Rightarrow> program \<Rightarrow> bool" where
  "ready s i pgm \<longleftrightarrow> live s i \<and> pid (proc_at s i) = i \<and> pstate (proc_at s i) = P_RUNNABLE \<and>
     reg_rip (regs (proc_at s i)) = prog_entry pgm \<and> reg_rsp (regs (proc_at s i)) = MEMSIZE_VIRTUAL \<and>
     process_space (kmem (kern s)) (root_of s i) (segments pgm)"

lemma ready_kept:
  assumes "unharmed i s s'" "j \<noteq> i" "\<And>j. live s' j \<longleftrightarrow> live s j \<or> j = i" "ready s j pgm"
  shows "ready s' j pgm"
proof -
  have same: "proc_at s' j = proc_at s j" "root_of s' j = root_of s j" using assms(1,2) by (simp_all add: unharmed_def root_of_def)
  have live: "live s j" using assms(4) by (simp add: ready_def)
  have "process_space (kmem (kern s')) (root_of s j) (segments pgm)"
    using process_space_kept [of "kmem (kern s')" "root_of s j" "kmem (kern s)" "segments pgm"] assms(1,4) live
    unfolding unharmed_def ready_def by blast
  then show ?thesis using assms(3,4) live by (simp add: ready_def same)
qed

text \<open>The image of a program can be loaded.\<close>

definition loadable :: "ramimage list \<Rightarrow> string \<Rightarrow> program \<Rightarrow> bool" where
  "loadable images name pgm \<longleftrightarrow> (\<exists>elf. program_image images name = Inr elf \<and> load_image elf = Inr pgm) \<and>
     segs_ok (unat PROC_START_ADDR) (segments pgm)"

definition pages_needed :: "program \<Rightarrow> nat" where
  "pages_needed pgm = page_count (segments pgm) + 8"

definition same_pids :: "os \<Rightarrow> bool" where
  "same_pids s \<longleftrightarrow> (\<forall>j<NPROC. pid (proc_at s j) = j)"

lemma setup_each_ok:
  assumes "separate L s" "i + length names \<le> NPROC" "\<And>j. live s j \<Longrightarrow> j < i" "same_pids s" "list_all2 (loadable images) names pgms"
    and "page_run lo (sum_list (map pages_needed pgms) + Suc m) (avail (kernel_end L) (kern s))"
  shows "\<exists>s' lo'. setup_each L images i names s = returns s' \<and> separate L s' \<and>
    (\<forall>j. live s' j \<longleftrightarrow> live s j \<or> i \<le> j \<and> j < i + length names) \<and>
    (\<forall>j<length names. ready s' (i + j) (pgms ! j)) \<and> (\<forall>j pgm. j < i \<longrightarrow> ready s j pgm \<longrightarrow> ready s' j pgm) \<and>
    avail (kernel_end L) (kern s') \<subseteq> avail (kernel_end L) (kern s) \<and> touches (avail (kernel_end L) (kern s)) (kern s) (kern s') \<and>
    page_run lo' (Suc m) (avail (kernel_end L) (kern s'))"
  using assms
proof (induction names arbitrary: i s pgms lo)
  case Nil
  then show ?case by (auto simp: touches_def)
next
  case (Cons name names)
  obtain pgm rest where pgms: "pgms = pgm # rest" "loadable images name pgm" "list_all2 (loadable images) names rest"
    using Cons.prems(5) by (auto simp: list_all2_Cons1)
  let ?m = "sum_list (map pages_needed rest) + m"
  from pgms(2) obtain elf where image: "program_image images name = Inr elf" "load_image elf = Inr pgm"
    "segs_ok (unat PROC_START_ADDR) (segments pgm)" by (auto simp: loadable_def)
  have i: "i < NPROC" "\<not> live s i" using Cons.prems(2,3) by auto
  have "page_run lo (page_count (segments pgm) + 9 + ?m) (avail (kernel_end L) (kern s))"
    using Cons.prems(6) by (simp add: pgms(1) pages_needed_def [of pgm] algebra_simps)
  from process_setup_ok [OF Cons.prems(1) i image this] obtain s1 lo1 where
    s1: "process_setup L images i name s = returns s1" "separate L s1" "unharmed i s s1" "\<And>j. live s1 j \<longleftrightarrow> live s j \<or> j = i"
    "pid (proc_at s1 i) = pid (proc_at s i)" "pstate (proc_at s1 i) = P_RUNNABLE" "reg_rip (regs (proc_at s1 i)) = prog_entry pgm"
    "reg_rsp (regs (proc_at s1 i)) = MEMSIZE_VIRTUAL" "process_space (kmem (kern s1)) (root_of s1 i) (segments pgm)"
    "page_run lo1 (Suc ?m) (avail (kernel_end L) (kern s1))" "avail (kernel_end L) (kern s1) \<subseteq> avail (kernel_end L) (kern s)"
    "touches (avail (kernel_end L) (kern s)) (kern s) (kern s1)" by blast
  have ready1: "ready s1 i pgm" using s1 Cons.prems(4) i(1) by (simp add: ready_def same_pids_def)
  have live1: "j < i + 1" if "live s1 j" for j using that Cons.prems(3) [of j] s1(4) by auto
  have pids1: "same_pids s1" unfolding same_pids_def
  proof (intro allI impI)
    fix j
    assume "j < NPROC"
    then show "pid (proc_at s1 j) = j" using Cons.prems(4) s1(3,5) by (cases "j = i") (simp_all add: same_pids_def unharmed_def)
  qed
  have len1: "i + 1 + length names \<le> NPROC" using Cons.prems(2) by simp
  have run1: "page_run lo1 (sum_list (map pages_needed rest) + Suc m) (avail (kernel_end L) (kern s1))" using s1(10) by simp
  from Cons.IH [OF s1(2) len1 live1 pids1 pgms(3) run1] obtain s' lo' where
    s': "setup_each L images (i + 1) names s1 = returns s'" "separate L s'"
    "\<And>j. live s' j \<longleftrightarrow> live s1 j \<or> i + 1 \<le> j \<and> j < i + 1 + length names" "\<And>j. j < length names \<Longrightarrow> ready s' (i + 1 + j) (rest ! j)"
    "\<And>j pgm. j < i + 1 \<Longrightarrow> ready s1 j pgm \<Longrightarrow> ready s' j pgm" "avail (kernel_end L) (kern s') \<subseteq> avail (kernel_end L) (kern s1)"
    "touches (avail (kernel_end L) (kern s1)) (kern s1) (kern s')" "page_run lo' (Suc m) (avail (kernel_end L) (kern s'))" by blast
  have "ready s' (i + j) (pgms ! j)" if "j < length (name # names)" for j
  proof (cases j)
    case 0
    then show ?thesis using s'(5) [OF _ ready1] pgms(1) by simp
  next
    case (Suc n)
    then show ?thesis using s'(4) [of n] that pgms(1) by simp
  qed
  moreover have "ready s' j p" if "j < i" "ready s j p" for j p
    using s'(5) [OF _ ready_kept [OF s1(3) _ s1(4) that(2)]] that(1) by simp
  moreover have "live s' j \<longleftrightarrow> live s j \<or> i \<le> j \<and> j < i + length (name # names)" for j unfolding s'(3) s1(4) by auto
  moreover have "touches (avail (kernel_end L) (kern s)) (kern s) (kern s')"
    using touches_trans [OF s1(12) s'(7) subset_refl s1(11)] .
  ultimately show ?case using s1(1,11) s'(1,2,6,8) by (intro exI [of _ s'] exI [of _ lo']) simp
qed

section \<open>The first run\<close>

text \<open>The table of the kernel maps physical memory to itself, and does not lie in free pages.\<close>

definition kernel_space :: "layout \<Rightarrow> kernel \<Rightarrow> bool" where
  "kernel_space L k \<longleftrightarrow> tables (kmem k) (kernel_pagetable L) \<inter> avail (kernel_end L) k = {} \<and>
     (\<forall>va\<le>MEMSIZE_PHYSICAL. plain_at (kmem k) (kernel_pagetable L) va) \<and>
     (\<forall>va. PAGESIZE \<le> va \<longrightarrow> va < MEMSIZE_PHYSICAL \<longrightarrow> (\<exists>perm. mmu (kmem k) (kernel_pagetable L) va = Some (va, perm)))"

lemma kernel_space_kept:
  assumes L: "page_aligned (kernel_pagetable L)" and k: "kernel_space L k"
    and touch: "touches (avail (kernel_end L) k) k k'" and av: "avail (kernel_end L) k' \<subseteq> avail (kernel_end L) k"
  shows "kernel_space L k'"
proof -
  let ?kp = "kernel_pagetable L"
  have "kmem k' a = kmem k a" if t: "t \<in> tables (kmem k) ?kp" "in_page t a" for t a
  proof -
    have "\<not> in_page f a" if f: "f \<in> avail (kernel_end L) k" for f
    proof
      assume "in_page f a"
      then have "f = t" using in_page_unique [OF _ tables_aligned [OF L t(1)] _ t(2)] avail_low_page [OF f] by (simp add: low_page_def)
      then show False using k t(1) f by (auto simp: kernel_space_def)
    qed
    then show ?thesis using touch by (simp add: touches_def)
  qed
  then have same: "same_tables (kmem k) (kmem k') ?kp" by (auto simp: same_tables_def)
  note f = same_tables_frame [OF same L]
  show ?thesis using k av plain_same [OF same L] unfolding kernel_space_def f(2,3) by blast
qed

lemma kernel_space_start:
  assumes L: "layout_ok L" and ok: "pages_ok k" and room: "4 \<le> card (avail (kernel_end L) k)"
  shows "\<exists>k1 k2. init_kernel_memory L k = returns k1 \<and> setup_tables (kernel_end L) (kernel_pagetable L) k1 = returns k2 \<and>
    kernel_space L k2 \<and> pages_ok k2 \<and> avail (kernel_end L) k2 = avail (kernel_end L) k"
proof -
  let ?ke = "kernel_end L" and ?kp = "kernel_pagetable L"
  have m: "PROC_START_ADDR \<le> MEMSIZE_PHYSICAL" by (simp add: PROC_START_ADDR_def MEMSIZE_PHYSICAL_def)
  from init_kernel_memory_ok [OF L ok] obtain k1 where k1: "init_kernel_memory L k = returns k1" "table_ok ?ke k1 ?kp"
    "\<forall>va\<le>MEMSIZE_PHYSICAL. plain_at (kmem k1) ?kp va" "stage (kmem k1) ?kp 0 3 \<noteq> None"
    "tables (kmem k1) ?kp \<inter> avail ?ke k = {}" "avail ?ke k1 = avail ?ke k"
    "\<forall>va. PAGESIZE \<le> va \<longrightarrow> va < MEMSIZE_PHYSICAL \<longrightarrow> mmu (kmem k1) ?kp va = Some (va, PTE_PWU)" by blast
  have "\<forall>va\<le>PROC_START_ADDR. plain_at (kmem k1) ?kp va" using k1(3) m by auto
  from setup_tables_ok [OF k1(2) this] room k1(4,6) obtain k2 where k2: "setup_tables ?ke ?kp k1 = returns k2" "table_ok ?ke k2 ?kp"
    "grown ?ke ?kp {} k1 k2" "extends ?kp (kmem k1) (kmem k2)" "\<forall>va. mmu (kmem k2) ?kp va = low_space (mmu (kmem k1) ?kp) va"
    by auto
  have "\<exists>perm. mmu (kmem k2) ?kp va = Some (va, perm)" if "PAGESIZE \<le> va" "va < MEMSIZE_PHYSICAL" for va
    using that k1(7) k2(5) by (auto simp: low_space_def not_less [symmetric])
  then have "kernel_space L k2" unfolding kernel_space_def
    using k1(3,5,6) k2(3) extends_plain [OF k2(4)] by (auto simp: grown_def)
  then show ?thesis using k1(1,6) k2(1,2,3) by (auto simp: table_ok_def grown_def)
qed

text \<open>The checks of \<open>check_pagetable\<close> succeed for a new process.\<close>

lemma check_identity:
  assumes "plain_at m root va" "va < MEMSIZE_PHYSICAL" "mmu m root va = Some (va, perm)"
  shows "\<exists>it. vmiter_at m root va = Inr it \<and> vm_pa m it = va"
proof -
  have "va_is_canonical va" using assms(2) by (intro low_canonical) (simp add: MEMSIZE_PHYSICAL_def word_less_nat_alt)
  from vmiter_at_plain [OF assms(1) this] obtain it where it: "vmiter_at m root va = Inr it" by blast
  then have "at_end m root it" "it_va it = va" using vmiter_at_end by blast+
  then show ?thesis using it at_end_mmu [of m root it] assms(3) by simp
qed

lemma check_pagetable_ready:
  assumes L: "layout_ok L" and sep: "separate L s" and kspace: "kernel_space L (kern s)" and ready: "ready s i pgm"
  shows "check_pagetable L (root_of s i) (kern s) = Inr ()"
proof -
  let ?m = "kmem (kern s)" and ?kp = "kernel_pagetable L" and ?root = "root_of s i"
  have ok: "space_ok (kernel_end L) (kern s) ?root" using sep ready by (simp add: separate_def ready_def)
  have root: "page_aligned ?root" using ok by (simp add: space_ok_def table_ok_def wf_tables_def)
  have alloc: "allocatable_physical_address (kernel_end L) ?root"
    using ok root_in_tables [of ?root ?m] by (auto simp: space_ok_def owned_def allocatable_def)
  then have low: "PAGESIZE \<le> ?root" "?root < MEMSIZE_PHYSICAL"
    by (auto simp: allocatable_physical_address_def reserved_physical_address_def)
  have exc: "PAGESIZE \<le> exception_entry L" "exception_entry L < PROC_START_ADDR" "exception_entry L < MEMSIZE_PHYSICAL"
    using L by (simp_all add: layout_ok_def word_le_nat_alt word_less_nat_alt KERNEL_START_ADDR_def KERNEL_STACK_TOP_def PAGESIZE_def
        PROC_START_ADDR_def MEMSIZE_PHYSICAL_def)
  have kp: "PAGESIZE \<le> ?kp" "?kp < PROC_START_ADDR" "?kp < MEMSIZE_PHYSICAL"
    using L by (simp_all add: layout_ok_def word_le_nat_alt word_less_nat_alt KERNEL_START_ADDR_def KERNEL_STACK_TOP_def PAGESIZE_def
        PROC_START_ADDR_def MEMSIZE_PHYSICAL_def)
  have user: "\<exists>perm. mmu ?m ?root va = Some (va, perm)" if "PAGESIZE \<le> va" "va < PROC_START_ADDR" for va
    using that ready by (auto simp: ready_def process_space_def setup_map_def low_space_def not_less [symmetric])
  have plain: "plain_at ?m ?root va" for va using ok by (simp add: space_ok_def)
  obtain it1 where it1: "vmiter_at ?m ?root (exception_entry L) = Inr it1" "vm_pa ?m it1 = exception_entry L"
    using check_identity [OF plain exc(3)] user [OF exc(1,2)] by blast
  obtain it2 where it2: "vmiter_at ?m ?kp ?root = Inr it2" "vm_pa ?m it2 = ?root"
    using check_identity [of ?m ?kp ?root] kspace low unfolding kernel_space_def by (metis less_imp_le)
  obtain it3 where it3: "vmiter_at ?m ?root ?kp = Inr it3" "vm_pa ?m it3 = ?kp"
    using check_identity [OF plain kp(3)] user [OF kp(1,2)] by blast
  show ?thesis using it1 it2 it3 root by (simp add: check_pagetable_def c_assert_def page_aligned_def)
qed

lemma kernel_start_ok:
  assumes L: "layout_ok L" and s: "length (ptable s) = NPROC" "pages_ok (kern s)"
    and names: "boot_names images command = Inr names" "list_all2 (loadable images) names pgms"
    and run: "page_run lo (sum_list (map pages_needed pgms) + Suc m) (avail (kernel_end L) (kern s))"
  shows "\<exists>s'. kernel_start L images command s = returns s' \<and> isolated L s' \<and> current s' = 1 \<and>
    (\<forall>j. live s' j \<longleftrightarrow> 1 \<le> j \<and> j \<le> length names) \<and> (\<forall>j<length names. ready s' (Suc j) (pgms ! j)) \<and>
    run_proc L 1 s' = Inr s' \<and> avail (kernel_end L) (kern s') \<noteq> {}"
proof -
  have n: "1 \<le> length names" "length names \<le> 4" using names(1) by (auto simp: boot_names_def ebind_eq_Inr)
  obtain pgm rest where pgms: "pgms = pgm # rest" using names(2) n(1) by (cases pgms; cases names) auto
  have pg: "\<And>p. p \<in> avail (kernel_end L) (kern s) \<Longrightarrow> low_page p" by (rule avail_low_page)
  have "4 \<le> card (avail (kernel_end L) (kern s))" using page_run_card [OF run pg avail_finite] by (simp add: pgms pages_needed_def)
  from kernel_space_start [OF L s(2) this] obtain k1 k2 where k: "init_kernel_memory L (kern s) = returns k1"
    "setup_tables (kernel_end L) (kernel_pagetable L) k1 = returns k2" "kernel_space L k2" "pages_ok k2"
    "avail (kernel_end L) k2 = avail (kernel_end L) (kern s)" by blast
  define s1 where "s1 = s\<lparr>kern := k2, ticks := 1, ptable := map (\<lambda>i. (ptable s ! i)\<lparr>pid := i, pstate := P_FREE\<rparr>) [0..<NPROC]\<rparr>"
  have at: "proc_at s1 j = (ptable s ! j)\<lparr>pid := j, pstate := P_FREE\<rparr>" if "j < NPROC" for j
    using that by (simp add: s1_def proc_at_def)
  have none: "\<not> live s1 j" for j using at [of j] by (auto simp: live_def)
  have sep: "separate L s1" using none k(4) by (simp add: separate_def s1_def)
  have pids: "same_pids s1" by (simp add: same_pids_def at)
  have "1 + length names \<le> NPROC" using n(2) by (simp add: NPROC_def)
  moreover have "page_run lo (sum_list (map pages_needed pgms) + Suc m) (avail (kernel_end L) (kern s1))"
    using run k(5) by (simp add: s1_def)
  ultimately obtain s2 where s2: "setup_each L images 1 names s1 = returns s2" "separate L s2"
    "\<And>j. live s2 j \<longleftrightarrow> live s1 j \<or> 1 \<le> j \<and> j < 1 + length names" "\<And>j. j < length names \<Longrightarrow> ready s2 (1 + j) (pgms ! j)"
    "avail (kernel_end L) (kern s2) \<subseteq> avail (kernel_end L) (kern s1)" "touches (avail (kernel_end L) (kern s1)) (kern s1) (kern s2)"
    "\<exists>lo. page_run lo (Suc m) (avail (kernel_end L) (kern s2))"
    using setup_each_ok [OF sep _ _ pids names(2)] none by metis
  have kspace: "kernel_space L (kern s2)"
    using kernel_space_kept [OF _ _ s2(6,5)] k(3) L by (simp add: s1_def layout_ok_def)
  have ready1: "ready s2 1 pgm" using s2(4) [of 0] n(1) pgms by (cases names) simp_all
  have "check_pagetable L (pagetable (proc_at s2 1)) (kern s2) = Inr ()"
    using check_pagetable_ready [OF L s2(2) kspace ready1] by (simp add: root_of_def)
  then have run1: "run_proc L 1 s2 = Inr (s2\<lparr>current := 1\<rparr>)"
    using ready1 by (simp add: run_proc_def ready_def c_assert_def proc_at_def Let_def)
  let ?s = "s2\<lparr>current := 1\<rparr>"
  have same: "live ?s j = live s2 j" "ready ?s j p = ready s2 j p" "separate L ?s = separate L s2" for j p
    by (simp_all add: live_def ready_def separate_def root_of_def proc_at_def)
  have "kernel_start L images command s = returns ?s"
    unfolding kernel_start_each [OF names(1)] using k(1,2) s2(1) run1 by (simp add: s1_def returns_def)
  moreover have "isolated L ?s" using ready1 same s2(2) by (simp add: isolated_separate ready_def)
  moreover have "run_proc L 1 ?s = Inr ?s" using run1 by (simp add: run_proc_def Let_def proc_at_def ebind_eq_Inr)
  moreover have "avail (kernel_end L) (kern ?s) \<noteq> {}" using s2(7) by (auto simp: page_run_def)
  ultimately show ?thesis using s2(3,4) none same by (intro exI [of _ ?s]) (simp add: less_Suc_eq_le)
qed

section \<open>The page of the kernel\<close>

lemma mmu_same_page:
  assumes "drop_bit 12 a = drop_bit 12 b" "mmu m root a \<noteq> None"
  shows "mmu m root b \<noteq> None"
proof -
  have c: "va_is_canonical a" "va_is_canonical b"
    using assms canonical_agree [of 0 a b] by (auto simp: mmu_def split: if_splits)
  have p: "same_path 4 a b" using agree_same_path [of 0 a b] assms(1) by simp
  obtain d t q where s: "stage m root a d = Some (t, q)" "stage m root a (Suc d) = None"
    using down_loop_end [of m root a 0] by auto
  have d: "d \<le> 3" by (rule stage_upto3 [OF s(1)])
  then have "same_path d a b" "same_path (Suc d) a b" "slot t a (3 - d) = slot t b (3 - d)"
    using p by (auto simp: same_path_def slot_def)
  then have "stage m root b d = Some (t, q)" "stage m root b (Suc d) = None" "slot t a (3 - d) = slot t b (3 - d)"
    using s same_path_stage by metis+
  then show ?thesis using mmu_at_stage [OF s c(1)] mmu_at_stage [of m root b d t q] c(2) assms(2)
    by (auto simp: Let_def split: if_splits)
qed

text \<open>A process that resumes has the kernel mapped at its own addresses, and no page the kernel hands out is the kernel's.\<close>

lemma exception_entry_low:
  assumes "layout_ok L"
  shows "PAGESIZE \<le> exception_entry L" "exception_entry L < PROC_START_ADDR" "exception_entry L < MEMSIZE_PHYSICAL"
  using assms by (simp_all add: layout_ok_def word_le_nat_alt word_less_nat_alt KERNEL_START_ADDR_def KERNEL_STACK_TOP_def
      PAGESIZE_def PROC_START_ADDR_def MEMSIZE_PHYSICAL_def)

lemma resumed_maps_kernel:
  assumes "layout_ok L" "run_proc L (current s) s = Inr s"
  shows "mmu (kmem (kern s)) (root_of s (current s)) (exception_entry L) \<noteq> None"
proof -
  let ?e = "exception_entry L" and ?root = "root_of s (current s)"
  from assms(2) obtain it where it: "vmiter_at (kmem (kern s)) ?root ?e = Inr it" "vm_pa (kmem (kern s)) it = ?e"
    by (auto simp: run_proc_def check_pagetable_def c_assert_def root_of_def proc_at_def Let_def ebind_eq_Inr split: if_splits)
  have "?e \<noteq> -1" using exception_entry_low(3) [OF assms(1)] by (auto simp: MEMSIZE_PHYSICAL_def)
  moreover have "at_end (kmem (kern s)) ?root it" "it_va it = ?e" using vmiter_at_end [OF it(1)] by auto
  ultimately show ?thesis using at_end_mmu [of "kmem (kern s)" ?root it] it(2)
    by (cases "mmu (kmem (kern s)) ?root ?e") simp_all
qed

lemma kernel_page_kept:
  assumes "layout_ok L" "p \<in> allocatable (kernel_end L)"
  shows "\<not> in_page p (exception_entry L)"
proof
  let ?e = "exception_entry L"
  assume "in_page p ?e"
  then have e: "unat p \<le> unat ?e" "unat ?e < unat p + 4096"
    using assms(2) by (auto simp: in_page_nat allocatable_def page_aligned_nat elim!: dvdE)
  have al: "4096 dvd unat p" using assms(2) by (simp add: allocatable_def page_aligned_nat)
  have L: "unat KERNEL_START_ADDR \<le> unat ?e" "unat ?e < unat (kernel_end L)"
    using assms(1) by (simp_all add: layout_ok_def word_le_nat_alt word_less_nat_alt)
  have "unat (kernel_end L) \<le> unat (round_up (kernel_end L) PAGESIZE)"
    using kernel_end_round_up [OF assms(1)] by (simp add: word_le_nat_alt)
  then have "unat p < unat KERNEL_START_ADDR"
    using assms(2) e L by (auto simp: allocatable_def allocatable_physical_address_def word_le_nat_alt word_less_nat_alt)
  then show False using al e L(1) by (auto simp: KERNEL_START_ADDR_def elim!: dvdE)
qed

section \<open>Properties\<close>

text \<open>C14: the kernel boots into isolated processes. Whatever memory holds at the start, if the images that \<open>kernel_start\<close> asks for
can be loaded and the first free pages follow each other and are enough, it ends with the first process running; the processes it
has set up are ready for their first instruction, with their programs and stacks, and no sequence of steps after that
makes them share a page.\<close>

theorem kernel_boots_isolated:
  assumes "layout_ok L" "length (ptable s) = NPROC" "pages_ok (kern s)"
    and "boot_names images command = Inr names" "list_all2 (loadable images) names pgms"
    and "page_run lo (sum_list (map pages_needed pgms) + Suc m) (avail (kernel_end L) (kern s))"
  shows "\<exists>s'. kernel_start L images command s = returns s' \<and> current s' = 1 \<and>
    (\<forall>j. live s' j \<longleftrightarrow> 1 \<le> j \<and> j \<le> length names) \<and> (\<forall>j<length names. ready s' (Suc j) (pgms ! j)) \<and>
    (\<forall>s''. (os_step L)\<^sup>*\<^sup>* s' s'' \<longrightarrow> isolated L s'')"
  using kernel_start_ok [OF assms] os_run_isolated by blast

text \<open>A machine that has just been switched on, and a kernel told to run one program.\<close>

definition powered_on :: os where
  "powered_on = \<lparr>kern = \<lparr>kmem = (\<lambda>a. a), pages = replicate NPAGES 0\<rparr>,
     ptable = replicate NPROC \<lparr>pagetable = 0, pid = 0, pstate = P_FREE, regs = zero_regs\<rparr>, current = 0, ticks = 0\<rparr>"

lemma boot_sample:
  "layout_ok sample_layout" "length (ptable powered_on) = NPROC" "pages_ok (kern powered_on)"
  "boot_names sample_images (Some ''loop'') = Inr [''loop'']" "list_all2 (loadable sample_images) [''loop''] [loop_program]"
  "page_run PAGESIZE (sum_list (map pages_needed [loop_program]) + Suc 0) (avail (kernel_end sample_layout) (kern powered_on))"
proof -
  show "layout_ok sample_layout"
    by (simp add: layout_ok_def sample_layout_def page_aligned_def PAGESIZE_def KERNEL_START_ADDR_def KERNEL_STACK_TOP_def)
  show "length (ptable powered_on) = NPROC" "pages_ok (kern powered_on)" by (simp_all add: powered_on_def pages_ok_def)
  show "boot_names sample_images (Some ''loop'') = Inr [''loop'']"
    by (simp add: boot_names_def loop_loaded image_empty_def loop_image_def)
  show "list_all2 (loadable sample_images) [''loop''] [loop_program]"
    using loop_loaded loop_program_ok(1) by (auto simp: loadable_def)
  have "\<not> page_used (kern powered_on) i" if "i < 64" for i
    using that by (simp add: page_used_def powered_on_def NPAGES_def)
  then have "page_run (of_nat 1 * PAGESIZE) 10 (avail 0x60000 (kern powered_on))" by (intro low_run) auto
  then show "page_run PAGESIZE (sum_list (map pages_needed [loop_program]) + Suc 0) (avail (kernel_end sample_layout) (kern powered_on))"
    by (simp add: pages_needed_def loop_program_ok sample_layout_def)
qed

theorem kernel_boots_isolated_witness:
  "\<exists>s'. kernel_start sample_layout sample_images (Some ''loop'') powered_on = returns s' \<and> current s' = 1 \<and>
     (\<forall>j. live s' j \<longleftrightarrow> j = 1) \<and> ready s' 1 loop_program \<and> (\<forall>s''. (os_step sample_layout)\<^sup>*\<^sup>* s' s'' \<longrightarrow> isolated sample_layout s'')"
  using kernel_boots_isolated [OF boot_sample] by (auto simp: le_antisym)

text \<open>C34: \<open>u-lib.hh\<close> says that a page allocation below \<open>PROC_START_ADDR\<close> is refused; the kernel does not look at the address.
Whenever a process runs whose table has passed the kernel's check, and a page is free, the system call for the page of
\<open>exception_entry\<close>, which lies below \<open>PROC_START_ADDR\<close>, returns 0 and maps another page there, open to the user; the next check of
the table fails, and the system stops.\<close>

theorem page_alloc_breaks_kernel_mapping:
  assumes "layout_ok L" "isolated L s" "run_proc L (current s) s = Inr s" "avail (kernel_end L) (kern s) \<noteq> {}"
    and "page_aligned addr" "in_page addr (exception_entry L)"
  shows "addr < PROC_START_ADDR \<and> (\<exists>s' p. syscall_page_alloc L addr s = Inr (0, s') \<and> p \<in> avail (kernel_end L) (kern s) \<and>
    mmu (kmem (kern s')) (root_of s (current s)) addr = Some (p, PTE_PWU) \<and> run_proc L (current s) s' = Inl Assert_Failed)"
proof -
  let ?ke = "kernel_end L" and ?root = "root_of s (current s)" and ?e = "exception_entry L"
  have cur: "live s (current s)" using assms(2) by (simp add: isolated_def)
  have same: "drop_bit 12 ?e = drop_bit 12 addr" using assms(6) by (simp only: in_page_def)
  have mapped: "mmu (kmem (kern s)) ?root addr \<noteq> None"
    by (rule mmu_same_page [OF same resumed_maps_kernel [OF assms(1,3)]])
  then have c: "va_is_canonical addr" by (auto simp: mmu_def split: if_splits)
  obtain p k where a: "kalloc ?ke PAGESIZE (kern s) = (p, k)" by fastforce
  have p: "p \<noteq> 0" using kalloc_none a assms(4) by blast
  from page_alloc_ok [OF isolatedD(1) [OF assms(2) cur] a p assms(5) c] mapped obtain k' N
    where k': "page_alloc ?ke ?root addr p k = Inr k'" "allocated ?ke ?root addr p N (kern s) k'" by auto
  then have sys: "syscall_page_alloc L addr s = Inr (0, s\<lparr>kern := k'\<rparr>)"
    using a p by (simp add: syscall_page_alloc_split root_of_def)
  have av: "p \<in> avail ?ke (kern s)" using k'(2) by (auto simp: allocated_def mapped_page_def)
  have pal: "p \<in> allocatable ?ke" "page_aligned p" using av avail_allocatable by (auto simp: allocatable_def)
  have mmu: "mmu (kmem k') ?root ?e = Some (p + (?e AND 0xFFF), PTE_PWU)"
    using same k'(2) by (simp add: allocated_def mapped_page_def)
  then have ce: "va_is_canonical ?e" by (auto simp: mmu_def split: if_splits)
  have "\<forall>va. plain_at (kmem k') ?root va" using k'(2) by (simp add: allocated_def mapped_page_def)
  from vmiter_at_plain [OF spec [OF this] ce] obtain it where it: "vmiter_at (kmem k') ?root ?e = Inr it" by blast
  have "vm_pa (kmem k') it = p + (?e AND 0xFFF)"
    using at_end_mmu [of "kmem k'" ?root it] vmiter_at_end [OF it] mmu by simp
  moreover have "p + (?e AND 0xFFF) \<noteq> ?e" using in_page_self [OF pal(2), of ?e] kernel_page_kept [OF assms(1) pal(1)] by metis
  ultimately have "check_pagetable L ?root k' = Inl Assert_Failed"
    using it by (simp add: check_pagetable_def c_assert_def)
  moreover have "pstate (proc_at s (current s)) = P_RUNNABLE"
    using assms(3) by (auto simp: run_proc_def c_assert_def split: if_splits)
  ultimately have "run_proc L (current s) (s\<lparr>kern := k'\<rparr>) = Inl Assert_Failed"
    by (simp add: run_proc_def proc_at_def root_of_def Let_def c_assert_def)
  moreover have "mmu (kmem k') ?root addr = Some (p, PTE_PWU)"
    using k'(2) page_offset [OF assms(5)] by (simp add: allocated_def mapped_page_def)
  moreover have "unat addr \<le> unat ?e" using assms(5,6) by (auto simp: in_page_nat page_aligned_nat elim!: dvdE)
  then have "addr < PROC_START_ADDR" using exception_entry_low(2) [OF assms(1)] by (simp add: word_less_nat_alt)
  ultimately show ?thesis using sys av by auto
qed

text \<open>The first program of a machine that has just booted stops it.\<close>

lemma page_alloc_breaks_kernel_mapping_witness:
  "\<exists>s s'. kernel_start sample_layout sample_images (Some ''loop'') powered_on = returns s \<and> run_proc sample_layout 1 s = Inr s \<and>
     syscall_page_alloc sample_layout 0x40000 s = Inr (0, s') \<and> run_proc sample_layout 1 s' = Inl Assert_Failed"
proof -
  from kernel_start_ok [OF boot_sample] obtain s where s: "kernel_start sample_layout sample_images (Some ''loop'') powered_on = returns s"
    "isolated sample_layout s" "current s = 1" "run_proc sample_layout 1 s = Inr s" "avail (kernel_end sample_layout) (kern s) \<noteq> {}"
    by blast
  have "page_aligned 0x40000" "in_page 0x40000 (exception_entry sample_layout)"
    by (simp_all add: page_aligned_def PAGESIZE_def in_page_nat sample_layout_def)
  from page_alloc_breaks_kernel_mapping [OF boot_sample(1) s(2) _ s(5) this] s(1,3,4) show ?thesis by auto
qed

end
