(* ===== verification/CMemory.thy ===== *)
theory CMemory
  imports Runs
begin

text \<open>
  The memory and string functions of the C library of WeensyOS (\<open>project04a-wduan/lib.cc\<close>), on a memory of bytes. A loop
  over a string that has no end does not return; a pointer to one past the byte \<open>a\<close> is \<open>a + 1\<close>.
\<close>

section \<open>Functions on blocks of memory\<close>

type_synonym byte_memory = "nat \<Rightarrow> u8"

text \<open>The loops that copy upwards and downwards.\<close>

fun copy_up :: "nat \<Rightarrow> nat \<Rightarrow> nat \<Rightarrow> byte_memory \<Rightarrow> byte_memory" where
  "copy_up d s 0 m = m"
| "copy_up d s (Suc n) m = copy_up (d + 1) (s + 1) n (m(d := m s))"

fun copy_down :: "nat \<Rightarrow> nat \<Rightarrow> nat \<Rightarrow> byte_memory \<Rightarrow> byte_memory" where
  "copy_down d s 0 m = m"
| "copy_down d s (Suc n) m = copy_down (d - 1) (s - 1) n (m(d - 1 := m (s - 1)))"

definition memcpy :: "nat \<Rightarrow> nat \<Rightarrow> nat \<Rightarrow> byte_memory \<Rightarrow> byte_memory" where
  "memcpy dst src n m = copy_up dst src n m"

definition memmove :: "nat \<Rightarrow> nat \<Rightarrow> nat \<Rightarrow> byte_memory \<Rightarrow> byte_memory" where
  "memmove dst src n m =
     (if src < dst \<and> dst < src + n then copy_down (dst + n) (src + n) n m else copy_up dst src n m)"

fun memset :: "nat \<Rightarrow> u8 \<Rightarrow> nat \<Rightarrow> byte_memory \<Rightarrow> byte_memory" where
  "memset p c 0 m = m"
| "memset p c (Suc n) m = memset (p + 1) c n (m(p := c))"

definition byte_sign :: "u8 \<Rightarrow> u8 \<Rightarrow> int" where
  "byte_sign a b = (if a > b then 1 else 0) - (if a < b then 1 else 0)"

fun memcmp :: "nat \<Rightarrow> nat \<Rightarrow> nat \<Rightarrow> byte_memory \<Rightarrow> int" where
  "memcmp a b 0 m = 0"
| "memcmp a b (Suc n) m = (if m a \<noteq> m b then byte_sign (m a) (m b) else memcmp (a + 1) (b + 1) n m)"

fun memchr :: "nat \<Rightarrow> u8 \<Rightarrow> nat \<Rightarrow> byte_memory \<Rightarrow> nat option" where
  "memchr s c 0 m = None"
| "memchr s c (Suc n) m = (if m s = c then Some s else memchr (s + 1) c n m)"

section \<open>Functions on strings\<close>

partial_function (option) strlen_loop :: "byte_memory \<Rightarrow> nat \<Rightarrow> nat \<Rightarrow> nat option" where
  "strlen_loop m s n = (if m s \<noteq> 0 then strlen_loop m (s + 1) (n + 1) else Some n)"

definition strlen :: "byte_memory \<Rightarrow> nat \<Rightarrow> nat option" where
  "strlen m s = strlen_loop m s 0"

fun strnlen_loop :: "byte_memory \<Rightarrow> nat \<Rightarrow> nat \<Rightarrow> nat \<Rightarrow> nat" where
  "strnlen_loop m s n 0 = n"
| "strnlen_loop m s n (Suc left) = (if m s \<noteq> 0 then strnlen_loop m (s + 1) (n + 1) left else n)"

definition strnlen :: "byte_memory \<Rightarrow> nat \<Rightarrow> nat \<Rightarrow> nat" where
  "strnlen m s maxlen = strnlen_loop m s 0 maxlen"

partial_function (option) strcpy :: "nat \<Rightarrow> nat \<Rightarrow> byte_memory \<Rightarrow> byte_memory option" where
  "strcpy d src m = (let c = m src; m = m(d := c) in if c \<noteq> 0 then strcpy (d + 1) (src + 1) m else Some m)"

fun strncpy :: "nat \<Rightarrow> nat \<Rightarrow> nat \<Rightarrow> byte_memory \<Rightarrow> byte_memory" where
  "strncpy d src 0 m = m"
| "strncpy d src (Suc maxlen) m =
     (if m src \<noteq> 0 then strncpy (d + 1) (src + 1) maxlen (m(d := m src)) else memset d 0 (Suc maxlen) m)"

partial_function (option) strcmp :: "byte_memory \<Rightarrow> nat \<Rightarrow> nat \<Rightarrow> int option" where
  "strcmp m a b =
     (let ac = m a; bc = m b in
      if ac = 0 \<or> bc = 0 \<or> ac \<noteq> bc then Some (byte_sign ac bc) else strcmp m (a + 1) (b + 1))"

fun strncmp :: "byte_memory \<Rightarrow> nat \<Rightarrow> nat \<Rightarrow> nat \<Rightarrow> int" where
  "strncmp m a b 0 = byte_sign 0 0"
| "strncmp m a b (Suc n) =
     (let ac = m a; bc = m b in
      if ac = 0 \<or> bc = 0 \<or> ac \<noteq> bc then byte_sign ac bc else strncmp m (a + 1) (b + 1) n)"

definition isupper :: "u8 \<Rightarrow> bool" where
  "isupper c \<longleftrightarrow> (ucast c :: u32) - 0x41 < 26"

definition tolower :: "u8 \<Rightarrow> u8" where
  "tolower c = (if isupper c then c + 0x61 - 0x41 else c)"

partial_function (option) strcasecmp :: "byte_memory \<Rightarrow> nat \<Rightarrow> nat \<Rightarrow> int option" where
  "strcasecmp m a b =
     (let ac = tolower (m a); bc = tolower (m b) in
      if ac = 0 \<or> bc = 0 \<or> ac \<noteq> bc then Some (byte_sign ac bc) else strcasecmp m (a + 1) (b + 1))"

fun strncasecmp :: "byte_memory \<Rightarrow> nat \<Rightarrow> nat \<Rightarrow> nat \<Rightarrow> int" where
  "strncasecmp m a b 0 = byte_sign 0 0"
| "strncasecmp m a b (Suc n) =
     (let ac = tolower (m a); bc = tolower (m b) in
      if ac = 0 \<or> bc = 0 \<or> ac \<noteq> bc then byte_sign ac bc else strncasecmp m (a + 1) (b + 1) n)"

text \<open>The result is the address of the byte, or \<open>None\<close> for \<open>nullptr\<close>.\<close>

partial_function (option) strchr :: "byte_memory \<Rightarrow> nat \<Rightarrow> u8 \<Rightarrow> nat option option" where
  "strchr m s c =
     (if m s \<noteq> 0 \<and> m s \<noteq> c then strchr m (s + 1) c
      else if m s = c then Some (Some s) else Some None)"

section \<open>Blocks\<close>

text \<open>What a copy should do: the bytes from \<open>src\<close> on as they were before, at \<open>dst\<close>.\<close>

definition moved_block :: "nat \<Rightarrow> nat \<Rightarrow> nat \<Rightarrow> byte_memory \<Rightarrow> byte_memory" where
  "moved_block dst src n m = (\<lambda>a. if dst \<le> a \<and> a < dst + n then m (src + (a - dst)) else m a)"

lemma moved_nothing: "moved_block dst src 0 m = m"
  by (rule ext) (auto simp: moved_block_def)

lemma copy_up_moves: "dst \<le> src \<or> src + n \<le> dst \<Longrightarrow> copy_up dst src n m = moved_block dst src n m"
proof (induction n arbitrary: dst src m)
  case (Suc n)
  have "moved_block (dst + 1) (src + 1) n (m(dst := m src)) = moved_block dst src (Suc n) m"
  proof (rule ext)
    fix a
    show "moved_block (dst + 1) (src + 1) n (m(dst := m src)) a = moved_block dst src (Suc n) m a"
      using Suc.prems by (cases "a = dst") (auto simp: moved_block_def Suc_diff_le less_Suc_eq_le intro!: arg_cong [where f = m])
  qed
  moreover have "dst + 1 \<le> src + 1 \<or> src + 1 + n \<le> dst + 1" using Suc.prems by auto
  note Suc.IH [OF this]
  ultimately show ?case by (simp only: copy_up.simps)
qed (simp add: moved_nothing)

lemma copy_down_moves: "src \<le> dst \<Longrightarrow> copy_down (dst + n) (src + n) n m = moved_block dst src n m"
proof (induction n arbitrary: m)
  case (Suc n)
  have "moved_block dst src n (m(dst + n := m (src + n))) = moved_block dst src (Suc n) m"
  proof (rule ext)
    fix a
    show "moved_block dst src n (m(dst + n := m (src + n))) a = moved_block dst src (Suc n) m a"
      using Suc.prems by (cases "a = dst + n") (auto simp: moved_block_def)
  qed
  then show ?case using Suc.IH [OF Suc.prems] by (simp only: copy_down.simps add_Suc_right diff_Suc_1)
qed (simp add: moved_nothing)

lemma memset_fills: "memset p c n m = (\<lambda>a. if p \<le> a \<and> a < p + n then c else m a)"
proof (induction n arbitrary: p m)
  case 0
  show ?case by (rule ext) auto
next
  case (Suc n)
  show ?case by (rule ext) (simp only: memset.simps Suc.IH, auto)
qed

lemma memcmp_compares:
  "memcmp a b n m = (let xs = map m [a..<a + n]; ys = map m [b..<b + n] in
     (if xs > ys then 1 else 0) - (if xs < ys then 1 else 0))"
proof (induction a b n m rule: memcmp.induct)
  case (2 a b n m)
  have "[x..<x + Suc n] = x # [Suc x..<Suc x + n]" for x by (simp add: upt_rec)
  then show ?case using 2 by (auto simp: Let_def byte_sign_def not_less_iff_gr_or_eq)
qed simp

lemma memchr_finds: "memchr s c n m = find (\<lambda>a. m a = c) [s..<s + n]"
proof (induction s c n m rule: memchr.induct)
  case (2 s c n m)
  have "[s..<s + Suc n] = s # [Suc s..<Suc s + n]" by (simp add: upt_rec)
  then show ?case using 2 by simp
qed simp

section \<open>Strings\<close>

text \<open>The string at an address: its bytes up to the first NUL.\<close>

fun string_at :: "byte_memory \<Rightarrow> nat \<Rightarrow> bytes \<Rightarrow> bool" where
  "string_at m s [] \<longleftrightarrow> m s = 0"
| "string_at m s (x # xs) \<longleftrightarrow> m s = x \<and> x \<noteq> 0 \<and> string_at m (s + 1) xs"

text \<open>How two strings compare, as a C function reports it.\<close>

definition order_sign :: "bytes \<Rightarrow> bytes \<Rightarrow> int" where
  "order_sign xs ys = (if xs > ys then 1 else 0) - (if xs < ys then 1 else 0)"

lemma order_sign_simps [simp]:
  "order_sign [] [] = 0" "order_sign [] (y # ys) = -1" "order_sign (x # xs) [] = 1"
  "order_sign (x # xs) (y # ys) = (if x = y then order_sign xs ys else byte_sign x y)"
  by (auto simp: order_sign_def byte_sign_def not_less_iff_gr_or_eq)

lemma byte_sign_ends: "byte_sign 0 0 = 0" "y \<noteq> 0 \<Longrightarrow> byte_sign 0 y = -1" "x \<noteq> 0 \<Longrightarrow> byte_sign x 0 = 1"
  by (auto simp: byte_sign_def word_neq_0_conv)

lemma strlen_counts: "string_at m s xs \<Longrightarrow> strlen_loop m s n = Some (n + length xs)"
  by (induction m s xs arbitrary: n rule: string_at.induct) (subst strlen_loop.simps; simp)+

lemma strnlen_counts: "string_at m s xs \<Longrightarrow> strnlen_loop m s n k = n + min k (length xs)"
proof (induction m s xs arbitrary: n k rule: string_at.induct)
  case (1 m s)
  then show ?case by (cases k) simp_all
next
  case (2 m s x xs)
  then show ?case by (cases k) simp_all
qed

lemma strcmp_compares: "string_at m a xs \<Longrightarrow> string_at m b ys \<Longrightarrow> strcmp m a b = Some (order_sign xs ys)"
proof (induction xs arbitrary: a b ys)
  case Nil
  then show ?case by (cases ys) (subst strcmp.simps; simp add: Let_def byte_sign_ends)+
next
  case (Cons x xs)
  then show ?case by (cases ys) (subst strcmp.simps; simp add: Let_def byte_sign_ends)+
qed

lemma strncmp_compares: "string_at m a xs \<Longrightarrow> string_at m b ys \<Longrightarrow> strncmp m a b n = order_sign (take n xs) (take n ys)"
proof (induction n arbitrary: a b xs ys)
  case (Suc n)
  then show ?case by (cases xs; cases ys) (auto simp: Let_def byte_sign_ends)
qed (simp add: byte_sign_ends)

lemma tolower_0 [simp]: "tolower 0 = 0" "tolower c = 0 \<longleftrightarrow> c = 0"
proof -
  show z: "tolower 0 = 0" by (simp add: tolower_def isupper_def)
  have "c = 0" if c: "tolower c = 0"
  proof (cases "isupper c")
    case True
    have "c = (c + 0x61 - 0x41) + 0xE0" by simp
    moreover have "c + 0x61 - 0x41 = 0" using c True unfolding tolower_def by (simp only: if_True)
    ultimately have "c = 0 + 0xE0" by (simp only:)
    with True show ?thesis by (simp add: isupper_def)
  qed (use c in \<open>simp add: tolower_def\<close>)
  then show "tolower c = 0 \<longleftrightarrow> c = 0" using z by blast
qed

lemma strcasecmp_compares:
  "string_at m a xs \<Longrightarrow> string_at m b ys \<Longrightarrow> strcasecmp m a b = Some (order_sign (map tolower xs) (map tolower ys))"
proof (induction xs arbitrary: a b ys)
  case Nil
  then show ?case by (cases ys) (subst strcasecmp.simps; simp add: Let_def byte_sign_ends)+
next
  case (Cons x xs)
  then show ?case by (cases ys) (subst strcasecmp.simps; simp add: Let_def byte_sign_ends)+
qed

lemma strncasecmp_compares:
  "string_at m a xs \<Longrightarrow> string_at m b ys \<Longrightarrow>
    strncasecmp m a b n = order_sign (map tolower (take n xs)) (map tolower (take n ys))"
proof (induction n arbitrary: a b xs ys)
  case (Suc n)
  then show ?case by (cases xs; cases ys) (auto simp: Let_def byte_sign_ends)
qed (simp add: byte_sign_ends)

lemma strchr_finds:
  "string_at m s xs \<Longrightarrow> strchr m s c = Some (if c = 0 then Some (s + length xs)
     else if c \<in> set xs then Some (s + length (takeWhile (\<lambda>x. x \<noteq> c) xs)) else None)"
  by (induction m s xs rule: string_at.induct) (subst strchr.simps; auto)+

lemma string_at_update: "string_at m s xs \<Longrightarrow> d < s \<or> s + length xs < d \<Longrightarrow> string_at (m(d := c)) s xs"
  by (induction m s xs rule: string_at.induct) auto

lemma string_end: "string_at m s xs \<Longrightarrow> m (s + length xs) = 0"
  by (induction m s xs rule: string_at.induct) auto

lemma string_index: "string_at m s xs \<Longrightarrow> i < length xs \<Longrightarrow> m (s + i) = xs ! i"
proof (induction m s xs arbitrary: i rule: string_at.induct)
  case (2 m s x xs)
  then show ?case by (cases i) auto
qed simp

text \<open>A copy of a string, when it does not write into the string itself.\<close>

lemma strcpy_copies:
  "string_at m s xs \<Longrightarrow> d + length xs < s \<or> s + length xs < d \<Longrightarrow> strcpy d s m = Some (moved_block d s (length xs + 1) m)"
proof (induction xs arbitrary: d s m)
  case Nil
  have "m(d := 0) = moved_block d s 1 m" using Nil by (intro ext) (auto simp: moved_block_def)
  then show ?case using Nil by (subst strcpy.simps) (simp add: Let_def)
next
  case (Cons x xs)
  have s: "m s = x" "x \<noteq> 0" "string_at (m(d := x)) (s + 1) xs" using Cons.prems by (auto intro!: string_at_update)
  have "strcpy d s m = strcpy (d + 1) (s + 1) (m(d := x))" using s by (subst strcpy.simps) (simp add: Let_def)
  also have "\<dots> = Some (moved_block (d + 1) (s + 1) (length xs + 1) (m(d := x)))" by (rule Cons.IH [OF s(3)]) (use Cons.prems(2) in auto)
  also have "moved_block (d + 1) (s + 1) (length xs + 1) (m(d := x)) = moved_block d s (length (x # xs) + 1) m"
  proof (rule ext)
    fix a
    show "moved_block (d + 1) (s + 1) (length xs + 1) (m(d := x)) a = moved_block d s (length (x # xs) + 1) m a"
      using Cons.prems s(1) by (cases "a = d") (auto simp: moved_block_def Suc_diff_le less_Suc_eq_le intro!: arg_cong [where f = m])
  qed
  finally show ?case .
qed

lemma strncpy_copies:
  "string_at m s xs \<Longrightarrow> d + n \<le> s \<or> s + length xs < d \<Longrightarrow>
    strncpy d s n m = (\<lambda>a. if d \<le> a \<and> a < d + n then (if a - d < length xs then xs ! (a - d) else 0) else m a)"
proof (induction n arbitrary: d s m xs)
  case 0
  show ?case by (rule ext) auto
next
  case (Suc n)
  show ?case
  proof (cases xs)
    case Nil
    then show ?thesis using Suc.prems by (simp add: memset_fills fun_eq_iff)
  next
    case (Cons x ys)
    have s: "m s = x" "x \<noteq> 0" "string_at (m(d := x)) (s + 1) ys" using Suc.prems Cons by (auto intro!: string_at_update)
    have "strncpy d s (Suc n) m = strncpy (d + 1) (s + 1) n (m(d := x))" using s(1,2) by simp
    also have "\<dots> = (\<lambda>a. if d + 1 \<le> a \<and> a < d + 1 + n then (if a - (d + 1) < length ys then ys ! (a - (d + 1)) else 0) else (m(d := x)) a)"
      by (rule Suc.IH [OF s(3)]) (use Suc.prems(2) Cons in auto)
    also have "\<dots> = (\<lambda>a. if d \<le> a \<and> a < d + Suc n then (if a - d < length xs then xs ! (a - d) else 0) else m a)"
    proof (rule ext)
      fix a
      obtain i where "d \<le> a \<Longrightarrow> a = d + i" using le_iff_add by auto
      then show "(if d + 1 \<le> a \<and> a < d + 1 + n then (if a - (d + 1) < length ys then ys ! (a - (d + 1)) else 0) else (m(d := x)) a) =
        (if d \<le> a \<and> a < d + Suc n then (if a - d < length xs then xs ! (a - d) else 0) else m a)"
        using Cons by (cases "d \<le> a"; cases i) auto
    qed
    finally show ?thesis .
  qed
qed

section \<open>Properties\<close>

text \<open>\<open>memmove\<close> copies the block as it was, however the two blocks overlap, and changes nothing else.\<close>

theorem memmove_moves_block: "memmove dst src n m = moved_block dst src n m"
  using copy_up_moves [of dst src n m] copy_down_moves [of src dst n m] by (cases "src < dst \<and> dst < src + n") (auto simp: memmove_def)

text \<open>The string functions on two strings of memory: lengths, comparisons as unsigned bytes, with a limit and without
regard to case, and the first place of a byte.\<close>

lemma string_functions:
  assumes "string_at m a xs" "string_at m b ys"
  shows "strlen m a = Some (length xs)" "strnlen m a n = min n (length xs)" "strcmp m a b = Some (order_sign xs ys)"
    "strncmp m a b n = order_sign (take n xs) (take n ys)"
    "strcasecmp m a b = Some (order_sign (map tolower xs) (map tolower ys))"
    "strncasecmp m a b n = order_sign (map tolower (take n xs)) (map tolower (take n ys))"
  using strlen_counts [OF assms(1)] strnlen_counts [OF assms(1)] strcmp_compares [OF assms] strncmp_compares [OF assms]
    strcasecmp_compares [OF assms] strncasecmp_compares [OF assms] by (simp_all add: strlen_def strnlen_def)

end
