(* ===== verification/CNumbers.thy ===== *)
theory CNumbers
  imports Runs
begin

text \<open>
  Numbers in the C library of WeensyOS (\<open>project04a-wduan/lib.cc\<close>): \<open>strtoul\<close> and \<open>strtol\<close>, the digits that
  \<open>vprintf\<close> writes, and \<open>rand\<close>. A string argument is the list of its bytes before the NUL.
\<close>

unbundle bit_operations_syntax

section \<open>Reading numbers\<close>

definition peek :: "bytes \<Rightarrow> u8" where
  "peek s = (case s of [] \<Rightarrow> 0 | c # _ \<Rightarrow> c)"

definition isspace :: "u8 \<Rightarrow> bool" where
  "isspace c \<longleftrightarrow> 0x9 \<le> sint c \<and> sint c \<le> 0xD \<or> sint c = 0x20"

text \<open>A \<open>char\<close> is signed.\<close>

definition digit_value :: "int \<Rightarrow> u8 \<Rightarrow> nat option" where
  "digit_value base ch =
     (let c = sint ch in
      if 0x30 \<le> c \<and> c < 0x30 + base then Some (nat (c - 0x30))
      else if base > 10 \<and> 0x61 \<le> c \<and> c < 0x61 + base - 10 then Some (nat (c - 0x61 + 10))
      else if base > 10 \<and> 0x41 \<le> c \<and> c < 0x41 + base - 10 then Some (nat (c - 0x41 + 10))
      else None)"

fun strtoul_loop :: "int \<Rightarrow> bytes \<Rightarrow> u64 \<Rightarrow> bool \<Rightarrow> u64 \<times> bool \<times> bytes" where
  "strtoul_loop base [] x overflow = (x, overflow, [])"
| "strtoul_loop base (c # s) x overflow =
     (case digit_value base c of
        None \<Rightarrow> (x, overflow, c # s)
      | Some digit \<Rightarrow>
          if x > (-1 - of_nat digit) div of_int base then strtoul_loop base s x True
          else strtoul_loop base s (x * of_int base + of_nat digit) overflow)"

definition hex_prefix :: "bytes \<Rightarrow> bool" where
  "hex_prefix s \<longleftrightarrow> peek s = 0x30 \<and> (peek (tl s) = 0x78 \<or> peek (tl s) = 0x58)"

definition base_and_rest :: "int \<Rightarrow> bytes \<Rightarrow> int \<times> bytes" where
  "base_and_rest base s =
     (if base = 0 then
        if hex_prefix s then (16, drop 2 s)
        else if peek s = 0x30 then (8, s)
        else (10, s)
      else if base = 16 \<and> hex_prefix s then (base, drop 2 s)
      else (base, s))"

text \<open>The number and where it ends.\<close>

definition strtoul :: "bytes \<Rightarrow> int \<Rightarrow> u64 \<times> bytes" where
  "strtoul s base =
     (let s = dropWhile isspace s;
          negative = (peek s = 0x2D);
          s = (if negative \<or> peek s = 0x2B then tl s else s) in
      case base_and_rest base s of (base, s) \<Rightarrow>
      case strtoul_loop base s 0 False of (x, overflow, s) \<Rightarrow>
        let x = (if overflow then -1 else x);
            x = (if negative then - x else x)
        in (x, s))"

definition strtol :: "bytes \<Rightarrow> int \<Rightarrow> int \<times> bytes" where
  "strtol s base =
     (let s = dropWhile isspace s;
          negative = (peek s = 0x2D);
          s = (if negative then tl s else s) in
      case strtoul s base of (u, s) \<Rightarrow>
        let bound = push_bit 63 1 - (if negative then 0 else 1);
            u = (if u > bound then bound else u);
            u = (if negative then - u else u)
        in (sint u, s))"

section \<open>Writing numbers\<close>

definition upper_digits :: bytes where
  "upper_digits = [0x30, 0x31, 0x32, 0x33, 0x34, 0x35, 0x36, 0x37, 0x38, 0x39, 0x41, 0x42, 0x43, 0x44, 0x45, 0x46]"

definition lower_digits :: bytes where
  "lower_digits = [0x30, 0x31, 0x32, 0x33, 0x34, 0x35, 0x36, 0x37, 0x38, 0x39, 0x61, 0x62, 0x63, 0x64, 0x65, 0x66]"

definition NUMBUFSIZ :: nat where "NUMBUFSIZ = 24"

text \<open>The loop writes downwards in a buffer that has \<open>room\<close> bytes left.\<close>

fun fill_digits :: "bytes \<Rightarrow> u64 \<Rightarrow> nat \<Rightarrow> u64 \<Rightarrow> bytes \<Rightarrow> bytes result" where
  "fill_digits ds base 0 val buf = Inl Bad_Access"
| "fill_digits ds base (Suc room) val buf =
     (let buf = ds ! unat (val mod base) # buf; val = val div base in
      if val \<noteq> 0 then fill_digits ds base room val buf else Inr buf)"

definition fill_numbuf :: "u64 \<Rightarrow> int \<Rightarrow> bytes result" where
  "fill_numbuf val base =
     (if base < 0 then fill_digits lower_digits (of_int (- base)) (NUMBUFSIZ - 1) val []
      else fill_digits upper_digits (of_int base) (NUMBUFSIZ - 1) val [])"

section \<open>rand\<close>

record rand_state =
  rand_seed_set :: bool
  rand_seed :: u64

definition RAND_MAX :: int where "RAND_MAX = 0x7FFFFFFF"

definition srand :: "u32 \<Rightarrow> rand_state" where
  "srand seed = \<lparr>rand_seed_set = True, rand_seed = push_bit 32 (ucast seed) OR ucast seed\<rparr>"

definition rand :: "rand_state \<Rightarrow> int \<times> rand_state" where
  "rand st =
     (let st = (if \<not> rand_seed_set st then srand 819234718 else st);
          seed = rand_seed st * 6364136223846793005 + 1
      in (sint (ucast (drop_bit 32 seed AND of_int RAND_MAX) :: u32), st\<lparr>rand_seed := seed\<rparr>))"

text \<open>Arithmetic on \<open>int\<close> is undefined when it overflows.\<close>

definition c_int :: "int \<Rightarrow> int result" where
  "c_int i = (if - (2 ^ 31) \<le> i \<and> i < 2 ^ 31 then Inr i else Inl Undefined)"

definition rand_between :: "int \<Rightarrow> int \<Rightarrow> rand_state \<Rightarrow> (int \<times> rand_state) result" where
  "rand_between lo hi st =
     ebind (c_assert (lo \<le> hi)) (\<lambda>_.
     ebind (c_int (hi - lo)) (\<lambda>d.
     ebind (c_assert (d \<le> RAND_MAX)) (\<lambda>_.
     case rand st of (r, st) \<Rightarrow>
     ebind (c_int (hi - lo)) (\<lambda>d.
     ebind (c_int (d + 1)) (\<lambda>span.
     Inr (sint (ucast (of_int lo + (of_int r * of_int span) div (of_int RAND_MAX + 1) :: u64) :: u32), st))))))"

section \<open>Digits\<close>

text \<open>The digits of a number, most significant first.\<close>

fun digits_of :: "nat \<Rightarrow> nat \<Rightarrow> nat list" where
  "digits_of b n = (if n < b \<or> b < 2 then [n] else digits_of b (n div b) @ [n mod b])"

declare digits_of.simps [simp del]

definition numeral_value :: "nat \<Rightarrow> nat list \<Rightarrow> nat" where
  "numeral_value b ds = foldl (\<lambda>x d. x * b + d) 0 ds"

lemma numeral_value_append: "numeral_value b (ds @ [d]) = numeral_value b ds * b + d"
  by (simp add: numeral_value_def)

lemma digits_of_value: "2 \<le> b \<Longrightarrow> numeral_value b (digits_of b n) = n"
proof (induction b n rule: digits_of.induct)
  case (1 b n)
  then show ?case by (subst digits_of.simps) (auto simp: numeral_value_append, simp add: numeral_value_def)
qed

lemma digits_of_small: "2 \<le> b \<Longrightarrow> d \<in> set (digits_of b n) \<Longrightarrow> d < b"
proof (induction b n rule: digits_of.induct)
  case (1 b n)
  then show ?case by (subst (asm) (2) digits_of.simps) (auto split: if_splits)
qed

lemma digits_of_ne: "digits_of b n \<noteq> []"
  by (subst digits_of.simps) simp

lemma digits_of_length: "2 \<le> b \<Longrightarrow> n < b ^ k \<Longrightarrow> 0 < k \<Longrightarrow> length (digits_of b n) \<le> k"
proof (induction k arbitrary: n)
  case (Suc k)
  show ?case
  proof (cases "n < b")
    case True
    then show ?thesis by (subst digits_of.simps) simp
  next
    case False
    then have k: "0 < k" using Suc.prems by (cases k) auto
    have "n div b < b ^ k" using Suc.prems(1,2) by (simp add: less_mult_imp_div_less mult.commute)
    then show ?thesis using Suc.IH [OF Suc.prems(1) _ k] False Suc.prems(1) by (subst digits_of.simps) simp
  qed
qed simp

text \<open>What the digits that are written read as.\<close>

lemma fill_digits_ok:
  assumes "2 \<le> b" "b \<le> length ds" "b < 2 ^ 64" "length (digits_of b (unat val)) \<le> room"
  shows "fill_digits ds (of_nat b) room val buf = Inr (map ((!) ds) (digits_of b (unat val)) @ buf)"
  using assms(4)
proof (induction room arbitrary: val buf)
  case 0
  then show ?case using digits_of_ne by simp
next
  case (Suc room)
  have b: "unat (of_nat b :: u64) = b" using assms(3) by (simp add: unat_of_nat)
  have m: "unat (val mod of_nat b) = unat val mod b" "unat (val div of_nat b) = unat val div b"
    by (simp_all only: unat_mod_distrib unat_div_distrib b)
  have z: "val div of_nat b = 0 \<longleftrightarrow> unat val < b"
    unfolding unat_eq_zero [symmetric] m(2) using assms(1) by (simp add: div_eq_0_iff)
  show ?case
  proof (cases "unat val < b")
    case True
    then show ?thesis using z m(1) by (subst digits_of.simps) (simp add: Let_def)
  next
    case False
    have d: "digits_of b (unat val) = digits_of b (unat (val div of_nat b)) @ [unat val mod b]"
      using False assms(1) m(2) by (subst digits_of.simps) simp
    then have "length (digits_of b (unat (val div of_nat b))) \<le> room" using Suc.prems by simp
    from Suc.IH [OF this] show ?thesis using False z m(1) by (simp add: Let_def d)
  qed
qed

definition digit_table :: "int \<Rightarrow> bytes" where
  "digit_table base = (if base < 0 then lower_digits else upper_digits)"

lemma fill_numbuf_ok:
  assumes "base \<in> {10, 16, -16}"
  shows "fill_numbuf val base = Inr (map ((!) (digit_table base)) (digits_of (nat \<bar>base\<bar>) (unat val)))"
proof -
  have v: "unat val < 2 ^ 64" using unsigned_less [of val] by simp
  have "length (digits_of 10 (unat val)) \<le> 20" by (rule digits_of_length) (use v in simp_all)
  moreover have "length (digits_of 16 (unat val)) \<le> 16" by (rule digits_of_length) (use v in simp_all)
  ultimately show ?thesis
    using assms fill_digits_ok [of 10 upper_digits val 23 "[]"] fill_digits_ok [of 16 upper_digits val 23 "[]"]
      fill_digits_ok [of 16 lower_digits val 23 "[]"]
    by (auto simp: fill_numbuf_def NUMBUFSIZ_def digit_table_def upper_digits_def lower_digits_def)
qed

section \<open>What strtoul reads\<close>

lemma digit_value_small: "digit_value base c = Some d \<Longrightarrow> 0 < base \<and> int d < base"
  by (auto simp: digit_value_def Let_def split: if_splits)

lemma overflow_check:
  fixes x :: u64
  assumes "0 < b" "b < 2 ^ 64" "d < b"
  shows "x > (-1 - of_nat d) div of_nat b \<longleftrightarrow> 2 ^ 64 \<le> unat x * b + d"
proof -
  have n: "unat (of_nat b :: u64) = b" "unat (of_nat d :: u64) = d" using assms by (simp_all add: unat_of_nat)
  have top: "unat (-1 :: u64) = 2 ^ 64 - 1" by (simp add: unsigned_minus_1_eq_mask mask_eq_exp_minus_1)
  have "(of_nat d :: u64) \<le> -1" by (rule word_n1_ge)
  from unat_minus_exact [OF this] have "unat (-1 - of_nat d :: u64) = 2 ^ 64 - 1 - d" unfolding top n .
  then have "unat ((-1 - of_nat d) div of_nat b :: u64) = (2 ^ 64 - 1 - d) div b" by (simp only: unat_div_distrib n)
  then have "x > (-1 - of_nat d) div of_nat b \<longleftrightarrow> (2 ^ 64 - 1 - d) div b < unat x" by (simp only: word_less_nat_alt)
  also have "\<dots> \<longleftrightarrow> 2 ^ 64 - 1 - d < unat x * b" using assms(1) by (rule div_less_iff_less_mult)
  also have "\<dots> \<longleftrightarrow> 2 ^ 64 \<le> unat x * b + d" using assms by auto
  finally show ?thesis .
qed

definition ends_number :: "int \<Rightarrow> bytes \<Rightarrow> bool" where
  "ends_number base s \<longleftrightarrow> s = [] \<or> digit_value base (hd s) = None"

lemma strtoul_loop_reads:
  assumes "list_all2 (\<lambda>c d. digit_value (int b) c = Some d) cs ds" "ends_number (int b) s" "b < 2 ^ 64"
  shows "\<exists>x'. strtoul_loop (int b) (cs @ s) x overflow =
    (x', overflow \<or> 2 ^ 64 \<le> foldl (\<lambda>x d. x * b + d) (unat x) ds, s) \<and>
    (foldl (\<lambda>x d. x * b + d) (unat x) ds < 2 ^ 64 \<longrightarrow> unat x' = foldl (\<lambda>x d. x * b + d) (unat x) ds)"
  using assms(1)
proof (induction cs ds arbitrary: x overflow rule: list_all2_induct)
  case Nil
  have "unat x < 2 ^ 64" using unsigned_less [of x] by simp
  then show ?case using assms(2) by (cases s) (simp_all add: ends_number_def)
next
  case (Cons c cs d ds)
  have b: "0 < b" "d < b" using digit_value_small [OF Cons(1)] by simp_all
  have grow: "y \<le> foldl (\<lambda>x d. x * b + d) y es" for y es
  proof (induction es arbitrary: y)
    case (Cons e es)
    have "y \<le> y * b + e" using b(1) by (simp add: trans_le_add1)
    then show ?case using Cons.IH [of "y * b + e"] by simp
  qed simp
  show ?case
  proof (cases "2 ^ 64 \<le> unat x * b + d")
    case True
    then have "(2::nat) ^ 64 \<le> foldl (\<lambda>x d. x * b + d) (unat x * b + d) ds" using grow le_trans by blast
    moreover have "x > (-1 - of_nat d) div of_nat b" using True overflow_check [OF b(1) assms(3) b(2)] by blast
    ultimately show ?thesis using Cons(1) Cons.IH [of x True] by auto
  next
    case False
    have n: "unat (of_nat b :: u64) = b" "unat (of_nat d :: u64) = d" using b assms(3) by (simp_all add: unat_of_nat)
    have m: "unat (x * of_nat b) = unat x * b" using False by (subst unat_times_exact) (simp_all add: n)
    have e: "unat (x * of_nat b + of_nat d) = unat x * b + d" using False by (subst unat_plus_exact) (simp_all add: n m)
    have "\<not> x > (-1 - of_nat d) div of_nat b" using False overflow_check [OF b(1) assms(3) b(2)] by blast
    then show ?thesis using Cons(1) Cons.IH [of "x * of_nat b + of_nat d" overflow] by (simp add: e)
  qed
qed

text \<open>Blanks, a sign and digits.\<close>

lemma digit_not_blank: "digit_value base c = Some d \<Longrightarrow> \<not> isspace c \<and> c \<noteq> 0x2B \<and> c \<noteq> 0x2D"
  by (auto simp: digit_value_def isspace_def Let_def split: if_splits)

lemma blanks_dropped:
  assumes "\<forall>c \<in> set sp. isspace c" "sg \<in> {[], [0x2B], [0x2D]}" "digit_value base (hd cs) = Some d" "cs \<noteq> []"
  shows "dropWhile isspace (sp @ sg @ cs @ s) = sg @ cs @ s"
proof -
  have "\<not> isspace 0x2B" "\<not> isspace 0x2D" by (simp_all add: isspace_def)
  moreover have "dropWhile isspace (sp @ xs) = dropWhile isspace xs" for xs using assms(1) by (simp add: dropWhile_append)
  ultimately show ?thesis using assms(2-4) digit_not_blank [OF assms(3)] by (cases cs) auto
qed

section \<open>What rand returns\<close>

lemma narrow: "- (2 ^ 31) \<le> i \<Longrightarrow> i < 2 ^ 31 \<Longrightarrow> sint (ucast (of_int i :: u64) :: u32) = i"
proof -
  assume "- (2 ^ 31) \<le> i" "i < 2 ^ 31"
  moreover have "(ucast (of_int i :: u64) :: u32) = of_int i" by transfer simp
  moreover have "sint (of_int i :: u32) = signed_take_bit 31 i" by (simp add: sint_sbintrunc')
  ultimately show ?thesis by (simp add: signed_take_bit_int_eq_self)
qed

lemma uint_exact: "0 \<le> k \<Longrightarrow> k < 2 ^ 64 \<Longrightarrow> uint (of_int k :: u64) = k"
  by (simp add: uint_word_of_int_eq take_bit_int_eq_self)

lemma rand_bounds: "rand st = (r, st') \<Longrightarrow> 0 \<le> r \<and> r \<le> RAND_MAX"
proof -
  assume r: "rand st = (r, st')"
  define seed where "seed = rand_seed (if \<not> rand_seed_set st then srand 819234718 else st) * 6364136223846793005 + 1"
  define x where "x = take_bit 31 (drop_bit 32 seed)"
  have m: "(of_int RAND_MAX :: u64) = mask 31" by (simp add: RAND_MAX_def mask_numeral)
  have "r = fst (rand st)" using r by simp
  also have "\<dots> = sint (ucast (drop_bit 32 seed AND of_int RAND_MAX) :: u32)" unfolding rand_def Let_def seed_def fst_conv ..
  also have "\<dots> = sint (ucast x :: u32)" unfolding x_def take_bit_eq_mask m ..
  finally have rx: "r = sint (ucast x :: u32)" .
  have "unat x < 2 ^ 31" unfolding x_def by (simp only: unsigned_take_bit_eq) (rule take_bit_nat_less_exp)
  then have "int (unat x) < int (2 ^ 31)" by (simp only: of_nat_less_iff)
  then have n: "uint x < 2 ^ 31" by (simp only: uint_nat of_nat_power of_nat_numeral)
  have "- (2 ^ 31) \<le> uint x" by (rule order_trans [OF _ uint_ge_0]) simp
  from narrow [OF this n] have "sint (ucast (of_int (uint x) :: u64) :: u32) = uint x" .
  then have "r = uint x" unfolding rx by (simp only: word_of_int_uint)
  then show ?thesis using n by (simp add: RAND_MAX_def)
qed

lemma rand_scaled:
  assumes "0 \<le> r" "r \<le> RAND_MAX" "lo \<le> hi" "hi - lo < RAND_MAX" "- (2 ^ 31) \<le> lo" "hi < 2 ^ 31"
  shows "\<exists>v. sint (ucast (of_int lo + (of_int r * of_int (hi - lo + 1)) div (of_int RAND_MAX + 1) :: u64) :: u32) = v \<and>
    lo \<le> v \<and> v \<le> hi"
proof -
  let ?span = "hi - lo + 1" and ?q = "r * (hi - lo + 1) div 2 ^ 31"
  have span: "0 < ?span" "?span \<le> RAND_MAX" using assms(3,4) by simp_all
  have "r * ?span \<le> RAND_MAX * RAND_MAX" using assms(1,2) span by (intro mult_mono) simp_all
  then have top: "r * ?span < 2 ^ 64" by (simp add: RAND_MAX_def)
  have "r * ?span < 2 ^ 31 * ?span" using assms(2) span(1) by (intro mult_strict_right_mono) (simp_all add: RAND_MAX_def)
  then have q: "0 \<le> ?q" "?q < ?span" using assms(1) span(1) by (simp_all add: pos_imp_zdiv_nonneg_iff div_less_iff_less_mult mult.commute)
  have "uint (of_int (r * ?span) :: u64) = r * ?span"
    using top assms(1) span(1) by (intro uint_exact) simp_all
  moreover have "uint (of_int RAND_MAX + 1 :: u64) = 2 ^ 31" by (simp add: RAND_MAX_def)
  ultimately have "uint ((of_int (r * ?span) :: u64) div (of_int RAND_MAX + 1)) = ?q" by (simp only: uint_div_distrib)
  moreover have "uint (of_int ?q :: u64) = ?q"
    using q span(2) unfolding RAND_MAX_def by (intro uint_exact) simp_all
  ultimately have "(of_int (r * ?span) :: u64) div (of_int RAND_MAX + 1) = of_int ?q" by (simp only: word_uint_eq_iff)
  then have "(of_int lo + (of_int r * of_int ?span) div (of_int RAND_MAX + 1) :: u64) = of_int (lo + ?q)" by simp
  moreover have "sint (ucast (of_int (lo + ?q) :: u64) :: u32) = lo + ?q"
    using q assms(5,6) by (intro narrow) simp_all
  moreover have "lo \<le> lo + ?q" "lo + ?q \<le> hi" using q by simp_all
  ultimately show ?thesis by (intro exI [of _ "lo + ?q"]) simp
qed

lemma strtoul_exact:
  assumes "\<forall>c \<in> set sp. isspace c" "sg \<in> {[], [0x2B], [0x2D]}" "2 \<le> b" "b \<le> 36" "cs \<noteq> []"
    and "list_all2 (\<lambda>c d. digit_value (int b) c = Some d) cs ds" "ends_number (int b) s" "b = 16 \<longrightarrow> \<not> hex_prefix (cs @ s)"
  shows "strtoul (sp @ sg @ cs @ s) (int b) =
    (let v = numeral_value b ds; x = (if v < 2 ^ 64 then of_nat v else -1) in (if sg = [0x2D] then - x else x, s))"
proof -
  obtain c cs' d where c: "cs = c # cs'" "digit_value (int b) c = Some d" using assms(5,6) by (cases cs) (auto simp: list_all2_Cons1)
  have drop: "dropWhile isspace (sp @ sg @ cs @ s) = sg @ cs @ s"
    using blanks_dropped [OF assms(1,2) _ assms(5), of "int b" d s] c by simp
  have sign: "peek (sg @ cs @ s) = 0x2D \<longleftrightarrow> sg = [0x2D]" "peek (sg @ cs @ s) = 0x2B \<longleftrightarrow> sg = [0x2B]"
    using assms(2) digit_not_blank [OF c(2)] by (auto simp: c(1) peek_def)
  have rest: "(if sg = [0x2D] \<or> sg = [0x2B] then tl (sg @ cs @ s) else sg @ cs @ s) = cs @ s" using assms(2) by auto
  have base: "base_and_rest (int b) (cs @ s) = (int b, cs @ s)" using assms(3,8) by (auto simp: base_and_rest_def)
  obtain x where x: "strtoul_loop (int b) (cs @ s) 0 False = (x, 2 ^ 64 \<le> numeral_value b ds, s)"
    "numeral_value b ds < 2 ^ 64 \<longrightarrow> unat x = numeral_value b ds"
    using strtoul_loop_reads [OF assms(6,7), of 0 False] assms(4) by (auto simp: numeral_value_def)
  have "(if 2 ^ 64 \<le> numeral_value b ds then -1 else x) = (if numeral_value b ds < 2 ^ 64 then of_nat (numeral_value b ds) else -1)"
    using x(2) by (cases "numeral_value b ds < 2 ^ 64") (simp_all flip: x(2))
  then show ?thesis by (simp add: strtoul_def drop sign rest base x(1) Let_def)
qed

section \<open>Properties\<close>

text \<open>\<open>strtoul\<close> reads blanks, a sign and digits of its base up to the first other byte, and gives the number, or
\<open>ULONG_MAX\<close> when that is too large, negated after a minus sign.\<close>

theorem strtoul_reads:
  assumes "\<forall>c \<in> set sp. isspace c" "sg \<in> {[], [0x2B], [0x2D]}" "2 \<le> b" "b \<le> 36" "cs \<noteq> []"
    and "list_all2 (\<lambda>c d. digit_value (int b) c = Some d) cs ds" "ends_number (int b) s" "b = 16 \<longrightarrow> \<not> hex_prefix (cs @ s)"
  shows "strtoul (sp @ sg @ cs @ s) (int b) =
    (let v = numeral_value b ds; x = (if v < 2 ^ 64 then of_nat v else -1) in (if sg = [0x2D] then - x else x, s))"
  by (rule strtoul_exact [OF assms])

theorem strtoul_reads_witness:
  "strtoul [0x20, 0x9, 0x2D, 0x32, 0x61, 0x5A, 0x21] 36 = (- (2 * 36 * 36 + 10 * 36 + 35), [0x21])"
  using strtoul_reads [of "[0x20, 0x9]" "[0x2D]" 36 "[0x32, 0x61, 0x5A]" "[2, 10, 35]" "[0x21]"]
  by (simp add: isspace_def digit_value_def Let_def ends_number_def numeral_value_def)

text \<open>C36: the digits that \<open>vprintf\<close> writes for a number, in decimal or in hexadecimal of either case, are read back by \<open>strtoul\<close>
as the same number, and they fit in the buffer.\<close>

theorem written_numbers_read_back:
  assumes "base \<in> {10, 16, -16}"
  shows "\<exists>s. fill_numbuf val base = Inr s \<and> length s < NUMBUFSIZ \<and> strtoul s \<bar>base\<bar> = (val, [])"
proof -
  define b where "b = nat \<bar>base\<bar>"
  define s where "s = map ((!) (digit_table base)) (digits_of b (unat val))"
  have b: "b = 10 \<or> b = 16" "int b = \<bar>base\<bar>" "2 \<le> b" "b \<le> 36" using assms by (auto simp: b_def)
  have v: "unat val < 2 ^ 64" using unsigned_less [of val] by simp
  have digit: "digit_value (int b) (digit_table base ! d) = Some d \<and> digit_table base ! d \<noteq> 0x78 \<and> digit_table base ! d \<noteq> 0x58"
    if "d < b" for d
  proof -
    have "\<forall>d<10. digit_value 10 (upper_digits ! d) = Some d \<and> upper_digits ! d \<noteq> 0x78 \<and> upper_digits ! d \<noteq> 0x58"
      "\<forall>d<16. digit_value 16 (upper_digits ! d) = Some d \<and> upper_digits ! d \<noteq> 0x78 \<and> upper_digits ! d \<noteq> 0x58"
      "\<forall>d<16. digit_value 16 (lower_digits ! d) = Some d \<and> lower_digits ! d \<noteq> 0x78 \<and> lower_digits ! d \<noteq> 0x58"
      by code_simp+
    then show ?thesis using assms that by (auto simp: b_def digit_table_def)
  qed
  have small: "\<forall>d \<in> set (digits_of b (unat val)). d < b" using digits_of_small [OF b(3)] by blast
  have all: "list_all2 (\<lambda>c d. digit_value (int b) c = Some d) s (digits_of b (unat val))"
    using small digit by (auto simp: s_def list_all2_conv_all_nth)
  have "\<not> hex_prefix (s @ [])"
  proof -
    have "c \<noteq> 0x78 \<and> c \<noteq> 0x58" if "c \<in> set s" for c using that small digit by (auto simp: s_def)
    moreover have "peek xs \<in> set xs \<or> peek xs = 0" for xs by (cases xs) (simp_all add: peek_def)
    moreover have "set (tl s) \<subseteq> set s" by (cases s) auto
    ultimately show ?thesis unfolding hex_prefix_def by fastforce
  qed
  moreover have "s \<noteq> []" using digits_of_ne by (simp add: s_def)
  ultimately have "strtoul s (int b) = (val, [])"
    using strtoul_exact [of "[]" "[]" b s "digits_of b (unat val)" "[]"] all b digits_of_value [OF b(3), of "unat val"] v
    by (simp add: ends_number_def)
  moreover have "length s < NUMBUFSIZ"
  proof -
    have "length (digits_of 10 (unat val)) \<le> 20" "length (digits_of 16 (unat val)) \<le> 16"
      by (rule digits_of_length; use v in simp)+
    then show ?thesis using b(1) by (auto simp: s_def NUMBUFSIZ_def)
  qed
  ultimately show ?thesis using fill_numbuf_ok [OF assms] b(2) by (simp add: s_def b_def)
qed

theorem written_numbers_read_back_witness:
  "\<exists>s. fill_numbuf 0xFFFFFFFFFFFFFFFF (-16) = Inr s \<and> length s < NUMBUFSIZ \<and> strtoul s 16 = (0xFFFFFFFFFFFFFFFF, [])"
  using written_numbers_read_back [of "-16" "0xFFFFFFFFFFFFFFFF"] by simp

text \<open>\<open>rand(min, max)\<close> returns a number of the range, if the range is smaller than the documented one; for \<open>RAND_MAX + 1\<close>
numbers, \<open>max - min + 1\<close> overflows.\<close>

lemma rand_overflows: "lo + RAND_MAX < 2 ^ 31 \<Longrightarrow> rand_between lo (lo + RAND_MAX) st = Inl Undefined"
  by (simp add: rand_between_def c_int_def c_assert_def RAND_MAX_def split: prod.split)

text \<open>\<open>rand(min, max)\<close> returns a number of the range, from any seed.\<close>

theorem rand_in_range:
  assumes "lo \<le> hi" "hi - lo < RAND_MAX" "- (2 ^ 31) \<le> lo" "hi < 2 ^ 31"
  shows "\<exists>v st'. rand_between lo hi st = Inr (v, st') \<and> lo \<le> v \<and> v \<le> hi"
proof -
  obtain r st' where r: "rand st = (r, st')" by (rule prod.exhaust)
  note b = rand_bounds [OF r]
  obtain v where "sint (ucast (of_int lo + (of_int r * of_int (hi - lo + 1)) div (of_int RAND_MAX + 1) :: u64) :: u32) = v"
    "lo \<le> v" "v \<le> hi" using rand_scaled [OF _ _ assms] b by blast
  moreover have "c_int (hi - lo) = Inr (hi - lo)" "c_int (hi - lo + 1) = Inr (hi - lo + 1)"
    using assms(1,2) by (simp_all add: c_int_def RAND_MAX_def)
  ultimately show ?thesis using assms(1,2) r by (simp add: rand_between_def c_assert_def)
qed

theorem rand_in_range_witness:
  "\<exists>v st'. rand_between (-6) 6 \<lparr>rand_seed_set = False, rand_seed = 0\<rparr> = Inr (v, st') \<and> -6 \<le> v \<and> v \<le> 6"
  by (rule rand_in_range) (simp_all add: RAND_MAX_def)

text \<open>Three inputs on which \<open>strtoul\<close> and \<open>strtol\<close> are wrong: \<open>strtoul\<close> takes the bytes after \<open>9\<close> for digits in bases above 10,
gives 1 for a negative number that is too large, and \<open>strtol\<close> takes two signs and gives the least number.\<close>

theorem strtoul_faults:
  "strtoul [0x31, 0x3A] 16 = (0x1A, []) \<and> strtoul (0x2D # replicate 20 0x39) 10 = (1, []) \<and>
   strtol [0x2D, 0x2D, 0x35] 10 = (- (2 ^ 63), [])"
  by code_simp

end
