(* ===== verification/CPrintf.thy ===== *)
theory CPrintf
  imports CNumbers
begin

text \<open>
  The formatted printer of WeensyOS (\<open>printer::vprintf\<close> and \<open>vsnprintf\<close> of \<open>project04a-wduan/lib.cc\<close>). A printer is its method
  \<open>putc\<close> on a state; a format is the list of its bytes before the NUL.
\<close>

section \<open>Arguments\<close>

datatype vararg = Word_Arg u64 | String_Arg bytes

fun va_word :: "vararg list \<Rightarrow> (u64 \<times> vararg list) result" where
  "va_word (Word_Arg w # args) = Inr (w, args)"
| "va_word args = Inl Undefined"

fun va_string :: "vararg list \<Rightarrow> (bytes \<times> vararg list) result" where
  "va_string (String_Arg s # args) = Inr (s, args)"
| "va_string args = Inl Undefined"

definition va_int :: "vararg list \<Rightarrow> (int \<times> vararg list) result" where
  "va_int args = ebind (va_word args) (\<lambda>(w, args). Inr (sint (ucast w :: u32), args))"

definition va_unsigned :: "bool \<Rightarrow> vararg list \<Rightarrow> (u64 \<times> vararg list) result" where
  "va_unsigned long args = ebind (va_word args) (\<lambda>(w, args). Inr (if long then w else ucast (ucast w :: u32), args))"

section \<open>Parts of a conversion\<close>

definition FLAG_ALT :: u32 where "FLAG_ALT = push_bit 0 1"
definition FLAG_ZERO :: u32 where "FLAG_ZERO = push_bit 1 1"
definition FLAG_LEFTJUSTIFY :: u32 where "FLAG_LEFTJUSTIFY = push_bit 2 1"
definition FLAG_SPACEPOSITIVE :: u32 where "FLAG_SPACEPOSITIVE = push_bit 3 1"
definition FLAG_PLUSPOSITIVE :: u32 where "FLAG_PLUSPOSITIVE = push_bit 4 1"
definition FLAG_NUMERIC :: u32 where "FLAG_NUMERIC = push_bit 5 1"
definition FLAG_SIGNED :: u32 where "FLAG_SIGNED = push_bit 6 1"
definition FLAG_NEGATIVE :: u32 where "FLAG_NEGATIVE = push_bit 7 1"
definition FLAG_ALT2 :: u32 where "FLAG_ALT2 = push_bit 8 1"

lemmas flag_defs = FLAG_ALT_def FLAG_ZERO_def FLAG_LEFTJUSTIFY_def FLAG_SPACEPOSITIVE_def FLAG_PLUSPOSITIVE_def
  FLAG_NUMERIC_def FLAG_SIGNED_def FLAG_NEGATIVE_def FLAG_ALT2_def

definition flag_chars :: bytes where
  "flag_chars = [0x23, 0x30, 0x2D, 0x20, 0x2B]"

fun flag_index :: "bytes \<Rightarrow> u8 \<Rightarrow> nat option" where
  "flag_index [] c = None"
| "flag_index (x # xs) c = (if x = c then Some 0 else map_option Suc (flag_index xs c))"

fun parse_flags :: "u32 \<Rightarrow> bytes \<Rightarrow> u32 \<times> bytes" where
  "parse_flags flags [] = (flags, [])"
| "parse_flags flags (c # fmt) =
     (case flag_index flag_chars c of
        Some i \<Rightarrow> parse_flags (flags OR push_bit i 1) fmt
      | None \<Rightarrow> (flags, c # fmt))"

definition is_digit :: "u8 \<Rightarrow> bool" where
  "is_digit c \<longleftrightarrow> 0x30 \<le> sint c \<and> sint c \<le> 0x39"

fun parse_digits :: "int \<Rightarrow> bytes \<Rightarrow> (int \<times> bytes) result" where
  "parse_digits n [] = Inr (n, [])"
| "parse_digits n (c # fmt) =
     (if is_digit c then
        ebind (c_int (10 * n)) (\<lambda>m. ebind (c_int (m + sint c)) (\<lambda>m. parse_digits (m - 0x30) fmt))
      else Inr (n, c # fmt))"

definition parse_width :: "bytes \<Rightarrow> vararg list \<Rightarrow> (int \<times> bytes \<times> vararg list) result" where
  "parse_width fmt args =
     (if 0x31 \<le> sint (peek fmt) \<and> sint (peek fmt) \<le> 0x39 then ebind (parse_digits 0 fmt) (\<lambda>(width, fmt). Inr (width, fmt, args))
      else if peek fmt = 0x2A then ebind (va_int args) (\<lambda>(width, args). Inr (width, tl fmt, args))
      else Inr (-1, fmt, args))"

definition parse_precision :: "bytes \<Rightarrow> vararg list \<Rightarrow> (int \<times> bytes \<times> vararg list) result" where
  "parse_precision fmt args =
     (if peek fmt = 0x2E then
        let fmt = tl fmt in
        ebind
          (if is_digit (peek fmt) then ebind (parse_digits 0 fmt) (\<lambda>(precision, fmt). Inr (precision, fmt, args))
           else if peek fmt = 0x2A then ebind (va_int args) (\<lambda>(precision, args). Inr (precision, tl fmt, args))
           else Inr (-1, fmt, args))
          (\<lambda>(precision, fmt, args). Inr (if precision < 0 then 0 else precision, fmt, args))
      else Inr (-1, fmt, args))"

definition parse_length :: "bytes \<Rightarrow> bool \<times> bytes" where
  "parse_length fmt =
     (if peek fmt = 0x6C \<or> peek fmt = 0x74 \<or> peek fmt = 0x7A then (True, tl fmt)
      else if peek fmt = 0x68 then (False, tl fmt)
      else (False, fmt))"

text \<open>What the conversion character asks for: a number with its flags and base, a text, or another color.\<close>

datatype converted = Number u32 u64 int | Text u32 bytes | Color u32

definition convert :: "u32 \<Rightarrow> bool \<Rightarrow> bytes \<Rightarrow> vararg list \<Rightarrow> (converted \<times> bytes \<times> vararg list) result" where
  "convert flags long fmt args =
     (let c = peek fmt; fmt = tl fmt in
      if c = 0x64 \<or> c = 0x69 then
        ebind (va_word args) (\<lambda>(w, args).
        let x = (if long then sint w else sint (ucast w :: u32)) in
        ebind (if x < 0 then (if x = - (2 ^ 63) then Inl Undefined else Inr (FLAG_NEGATIVE, of_int (- x)))
               else Inr (0, of_int x)) (\<lambda>(negative, num).
        Inr (Number (flags OR (FLAG_NUMERIC OR FLAG_SIGNED OR negative)) num 10, fmt, args)))
      else if c = 0x75 then
        ebind (va_unsigned long args) (\<lambda>(num, args). Inr (Number (flags OR FLAG_NUMERIC) num 10, fmt, args))
      else if c = 0x78 then
        ebind (va_unsigned long args) (\<lambda>(num, args). Inr (Number (flags OR FLAG_NUMERIC) num (-16), fmt, args))
      else if c = 0x58 then
        ebind (va_unsigned long args) (\<lambda>(num, args). Inr (Number (flags OR FLAG_NUMERIC) num 16, fmt, args))
      else if c = 0x70 then
        ebind (va_word args) (\<lambda>(num, args). Inr (Number (flags OR (FLAG_ALT OR FLAG_ALT2 OR FLAG_NUMERIC)) num (-16), fmt, args))
      else if c = 0x73 then ebind (va_string args) (\<lambda>(s, args). Inr (Text flags s, fmt, args))
      else if c = 0x43 then ebind (va_word args) (\<lambda>(w, args). Inr (Color (ucast w), fmt, args))
      else if c = 0x63 then
        ebind (va_word args) (\<lambda>(w, args). Inr (Text flags (takeWhile (\<lambda>x. x \<noteq> 0) [ucast w]), fmt, args))
      else Inr (Text flags [if c \<noteq> 0 then c else 0x25], fmt, args))"

definition conversion :: "bytes \<Rightarrow> vararg list \<Rightarrow> (int \<times> int \<times> converted \<times> bytes \<times> vararg list) result" where
  "conversion fmt args =
     (case parse_flags 0 fmt of (flags, fmt) \<Rightarrow>
      ebind (parse_width fmt args) (\<lambda>(width, fmt, args).
      ebind (parse_precision fmt args) (\<lambda>(precision, fmt, args).
      case parse_length fmt of (long, fmt) \<Rightarrow>
      ebind (convert flags long fmt args) (\<lambda>(conv, fmt, args). Inr (width, precision, conv, fmt, args)))))"

section \<open>Output\<close>

definition number_prefix :: "u32 \<Rightarrow> u64 \<Rightarrow> int \<Rightarrow> bytes" where
  "number_prefix flags num base =
     (if flags AND FLAG_SIGNED \<noteq> 0 then
        if flags AND FLAG_NEGATIVE \<noteq> 0 then [0x2D]
        else if flags AND FLAG_PLUSPOSITIVE \<noteq> 0 then [0x2B]
        else if flags AND FLAG_SPACEPOSITIVE \<noteq> 0 then [0x20]
        else []
      else if flags AND FLAG_ALT \<noteq> 0 \<and> (base = 16 \<or> base = -16) \<and> (num \<noteq> 0 \<or> flags AND FLAG_ALT2 \<noteq> 0) then
        if base = -16 then [0x30, 0x78] else [0x30, 0x58]
      else [])"

text \<open>The conversion to \<open>int\<close> of a wider number.\<close>

definition to_int :: "int \<Rightarrow> int" where
  "to_int i = sint (of_int i :: u32)"

definition laid_out :: "u32 \<Rightarrow> int \<Rightarrow> int \<Rightarrow> bytes \<Rightarrow> bytes \<Rightarrow> bytes" where
  "laid_out flags width precision prefix data =
     (let numeric = (flags AND FLAG_NUMERIC \<noteq> 0);
          leftjustify = (flags AND FLAG_LEFTJUSTIFY \<noteq> 0);
          datalen = to_int (if 0 \<le> precision \<and> \<not> numeric then int (length (take (nat precision) data)) else int (length data));
          prefixlen = int (length prefix);
          zeros = (if numeric \<and> 0 \<le> precision then (if precision > datalen then precision - datalen else 0)
                   else if numeric \<and> flags AND FLAG_ZERO \<noteq> 0 \<and> \<not> leftjustify \<and> datalen + prefixlen < width
                     then to_int (width - datalen - prefixlen)
                   else 0);
          width = to_int (width - (datalen + zeros + prefixlen));
          left = (if leftjustify then 0 else nat width)
      in replicate left 0x20 @ prefix @ replicate (nat zeros) 0x30 @ take (nat datalen) data @ replicate (nat width - left) 0x20)"

fun emit :: "(u8 \<Rightarrow> u32 \<Rightarrow> 's \<Rightarrow> 's result) \<Rightarrow> u32 \<Rightarrow> bytes \<Rightarrow> 's \<Rightarrow> 's result" where
  "emit putc color [] s = Inr s"
| "emit putc color (c # cs) s = ebind (putc c color s) (emit putc color cs)"

lemma parse_flags_length: "parse_flags flags fmt = (flags', fmt') \<Longrightarrow> length fmt' \<le> length fmt"
  by (induction flags fmt rule: parse_flags.induct) (auto split: option.splits)

lemma parse_digits_length: "parse_digits n fmt = Inr (n', fmt') \<Longrightarrow> length fmt' \<le> length fmt"
proof (induction fmt arbitrary: n)
  case (Cons c fmt)
  then show ?case by (auto simp: ebind_eq_Inr split: if_splits) (meson Cons.IH le_SucI)
qed simp

lemma parse_width_length: "parse_width fmt args = Inr (w, fmt', args') \<Longrightarrow> length fmt' \<le> length fmt"
  by (auto simp: parse_width_def va_int_def ebind_eq_Inr dest: parse_digits_length split: if_splits)

lemma parse_precision_length: "parse_precision fmt args = Inr (p, fmt', args') \<Longrightarrow> length fmt' \<le> length fmt"
  by (auto simp: parse_precision_def va_int_def ebind_eq_Inr Let_def dest!: parse_digits_length split: if_splits)

lemma parse_length_length: "parse_length fmt = (long, fmt') \<Longrightarrow> length fmt' \<le> length fmt"
  by (auto simp: parse_length_def split: if_splits)

lemma convert_length: "convert flags long fmt args = Inr (conv, fmt', args') \<Longrightarrow> length fmt' \<le> length fmt"
  by (auto simp: convert_def ebind_eq_Inr Let_def split: if_splits)

lemma conversion_length: "conversion fmt args = Inr (w, p, conv, fmt', args') \<Longrightarrow> length fmt' \<le> length fmt"
proof -
  assume r: "conversion fmt args = Inr (w, p, conv, fmt', args')"
  obtain flags f1 where f1: "parse_flags 0 fmt = (flags, f1)" by (rule prod.exhaust)
  from r [unfolded conversion_def f1 prod.case ebind_eq_Inr] obtain w2 f2 args2 where f2: "parse_width f1 args = Inr (w2, f2, args2)"
    and r2: "ebind (parse_precision f2 args2) (\<lambda>(p', f, args). case parse_length f of (long, f) \<Rightarrow>
      ebind (convert flags long f args) (\<lambda>(conv, fmt, args). Inr (w2, p', conv, fmt, args))) = Inr (w, p, conv, fmt', args')"
    by (auto simp only: prod.case split_paired_Ex)
  from r2 [unfolded ebind_eq_Inr] obtain p3 f3 args3 where f3: "parse_precision f2 args2 = Inr (p3, f3, args3)"
    and r3: "(case parse_length f3 of (long, f) \<Rightarrow>
      ebind (convert flags long f args3) (\<lambda>(conv, fmt, args). Inr (w2, p3, conv, fmt, args))) = Inr (w, p, conv, fmt', args')"
    by (auto simp only: prod.case split_paired_Ex)
  obtain long f4 where f4: "parse_length f3 = (long, f4)" by (rule prod.exhaust)
  from r3 [unfolded f4 prod.case ebind_eq_Inr] have "convert flags long f4 args3 = Inr (conv, fmt', args')"
    by (auto simp only: prod.case split_paired_Ex sum.inject prod.inject)
  note convert_length [OF this]
  also note parse_length_length [OF f4]
  also note parse_precision_length [OF f3]
  also note parse_width_length [OF f2]
  also note parse_flags_length [OF f1]
  finally show ?thesis .
qed

function vprintf :: "(u8 \<Rightarrow> u32 \<Rightarrow> 's \<Rightarrow> 's result) \<Rightarrow> u32 \<Rightarrow> bytes \<Rightarrow> vararg list \<Rightarrow> 's \<Rightarrow> 's result" where
  "vprintf putc color [] args s = Inr s"
| "vprintf putc color (c # fmt) args s =
     (if c \<noteq> 0x25 then ebind (putc c color s) (\<lambda>s. vprintf putc color fmt args s)
      else
        ebind (conversion fmt args) (\<lambda>(width, precision, conv, fmt, args).
        case conv of
          Color color \<Rightarrow> vprintf putc color fmt args s
        | Text flags data \<Rightarrow>
            ebind (emit putc color (laid_out flags width precision [] data) s) (\<lambda>s. vprintf putc color fmt args s)
        | Number flags num base \<Rightarrow>
            ebind (fill_numbuf num base) (\<lambda>data.
            ebind (emit putc color (laid_out flags width precision (number_prefix flags num base) data) s) (\<lambda>s.
            vprintf putc color fmt args s))))"
  by pat_completeness auto
termination
  by (relation "measure (\<lambda>(_, _, fmt, _, _). length fmt)") (auto dest: conversion_length)

declare vprintf.simps(2) [simp del]

section \<open>vsnprintf\<close>

record string_printer =
  sp_buf :: bytes
  sp_pos :: nat
  sp_n :: nat

definition string_putc :: "u8 \<Rightarrow> u32 \<Rightarrow> string_printer \<Rightarrow> string_printer result" where
  "string_putc c color sp =
     (let sp = (if sp_pos sp < length (sp_buf sp)
                then sp\<lparr>sp_buf := (sp_buf sp)[sp_pos sp := c], sp_pos := sp_pos sp + 1\<rparr> else sp)
      in Inr (sp\<lparr>sp_n := sp_n sp + 1\<rparr>))"

text \<open>\<open>size\<close> is the length of the buffer.\<close>

definition vsnprintf :: "bytes \<Rightarrow> bytes \<Rightarrow> vararg list \<Rightarrow> (bytes \<times> nat) result" where
  "vsnprintf buf fmt args =
     ebind (vprintf string_putc 0 fmt args \<lparr>sp_buf = buf, sp_pos = 0, sp_n = 0\<rparr>) (\<lambda>sp.
     let buf = sp_buf sp; size = length buf in
     Inr (if size \<noteq> 0 \<and> sp_pos sp < size then buf[sp_pos sp := 0]
          else if size \<noteq> 0 then buf[size - 1 := 0] else buf, sp_n sp))"

section \<open>What is printed\<close>

text \<open>The bytes a format prints, each with its color, for any printer.\<close>

function printed :: "u32 \<Rightarrow> bytes \<Rightarrow> vararg list \<Rightarrow> (u8 \<times> u32) list result" where
  "printed color [] args = Inr []"
| "printed color (c # fmt) args =
     (if c \<noteq> 0x25 then ebind (printed color fmt args) (\<lambda>out. Inr ((c, color) # out))
      else
        ebind (conversion fmt args) (\<lambda>(width, precision, conv, fmt, args).
        case conv of
          Color color \<Rightarrow> printed color fmt args
        | Text flags data \<Rightarrow>
            ebind (printed color fmt args) (\<lambda>out. Inr (map (\<lambda>c. (c, color)) (laid_out flags width precision [] data) @ out))
        | Number flags num base \<Rightarrow>
            ebind (fill_numbuf num base) (\<lambda>data.
            ebind (printed color fmt args) (\<lambda>out.
            Inr (map (\<lambda>c. (c, color)) (laid_out flags width precision (number_prefix flags num base) data) @ out)))))"
  by pat_completeness auto
termination
  by (relation "measure (\<lambda>(_, fmt, _). length fmt)") (auto dest: conversion_length)

declare printed.simps(2) [simp del]

text \<open>A printer whose \<open>putc\<close> always succeeds where it is used.\<close>

locale total_printer =
  fixes putc :: "u8 \<Rightarrow> u32 \<Rightarrow> 's \<Rightarrow> 's result" and put :: "u8 \<times> u32 \<Rightarrow> 's \<Rightarrow> 's" and ok :: "'s \<Rightarrow> bool"
  assumes putc: "ok s \<Longrightarrow> putc c color s = Inr (put (c, color) s)" and put_ok: "ok s \<Longrightarrow> ok (put x s)"
begin

lemma fold_ok: "ok s \<Longrightarrow> ok (fold put xs s)"
  by (induction xs arbitrary: s) (auto intro: put_ok)

lemma emit_fold: "ok s \<Longrightarrow> emit putc color cs s = Inr (fold put (map (\<lambda>c. (c, color)) cs) s)"
  by (induction cs arbitrary: s) (simp_all add: putc put_ok)

lemma vprintf_fold: "ok s \<Longrightarrow> vprintf putc color fmt args s = ebind (printed color fmt args) (\<lambda>out. Inr (fold put out s))"
proof (induction color fmt args arbitrary: s rule: printed.induct)
  case (2 color c fmt args)
  show ?case
  proof (cases "c = 0x25")
    case False
    then have "vprintf putc color (c # fmt) args s = vprintf putc color fmt args (put (c, color) s)"
      using 2(5) by (simp add: vprintf.simps(2) putc)
    also have "\<dots> = ebind (printed color fmt args) (\<lambda>out. Inr (fold put out (put (c, color) s)))"
      using 2(1) [of "put (c, color) s"] False put_ok [OF 2(5)] by simp
    finally show ?thesis using False by (cases "printed color fmt args") (simp_all add: printed.simps(2))
  next
    case True
    show ?thesis
    proof (cases "conversion fmt args")
      case (Inl e)
      then show ?thesis using True by (simp add: vprintf.simps(2) printed.simps(2))
    next
      case (Inr r)
      obtain width precision conv fmt' args' where r: "r = (width, precision, conv, fmt', args')" by (cases r)
      note eqs = vprintf.simps(2) printed.simps(2) True Inr r
      show ?thesis
      proof (cases conv)
        case (Color color')
        then show ?thesis using 2(4) [OF _ Inr r [symmetric] refl refl refl Color, of s] 2(5) True by (simp add: eqs)
      next
        case (Text flags data)
        have "ok (fold put (map (\<lambda>c. (c, color)) (laid_out flags width precision [] data)) s)" by (rule fold_ok [OF 2(5)])
        from 2(3) [OF _ Inr r [symmetric] refl refl refl Text this] True show ?thesis
          by (cases "printed color fmt' args'") (simp_all add: eqs Text emit_fold [OF 2(5)])
      next
        case (Number flags num base)
        show ?thesis
        proof (cases "fill_numbuf num base")
          case (Inl e)
          then show ?thesis by (simp add: eqs Number)
        next
          case data: (Inr data)
          have "ok (fold put (map (\<lambda>c. (c, color)) (laid_out flags width precision (number_prefix flags num base) data)) s)"
            by (rule fold_ok [OF 2(5)])
          from 2(2) [OF _ Inr r [symmetric] refl refl refl Number data this] True show ?thesis
            by (cases "printed color fmt' args'") (simp_all add: eqs Number data emit_fold [OF 2(5)])
        qed
      qed
    qed
  qed
qed simp

end

text \<open>The printer of \<open>vsnprintf\<close>.\<close>

definition string_put :: "u8 \<times> u32 \<Rightarrow> string_printer \<Rightarrow> string_printer" where
  "string_put x sp =
     (if sp_pos sp < length (sp_buf sp)
      then sp\<lparr>sp_buf := (sp_buf sp)[sp_pos sp := fst x], sp_pos := sp_pos sp + 1, sp_n := sp_n sp + 1\<rparr>
      else sp\<lparr>sp_n := sp_n sp + 1\<rparr>)"

interpretation sprinter: total_printer string_putc string_put "\<lambda>_. True"
  by unfold_locales (simp_all add: string_putc_def string_put_def Let_def)

lemma string_put_fold:
  "pos \<le> length buf \<Longrightarrow> fold string_put out \<lparr>sp_buf = buf, sp_pos = pos, sp_n = n\<rparr> =
    (let k = min (length out) (length buf - pos) in
     \<lparr>sp_buf = take pos buf @ take k (map fst out) @ drop (pos + k) buf, sp_pos = pos + k, sp_n = n + length out\<rparr>)"
proof (induction out arbitrary: buf pos n)
  case (Cons x out)
  show ?case
  proof (cases "pos < length buf")
    case True
    have "fold string_put (x # out) \<lparr>sp_buf = buf, sp_pos = pos, sp_n = n\<rparr> =
        fold string_put out \<lparr>sp_buf = buf[pos := fst x], sp_pos = pos + 1, sp_n = n + 1\<rparr>"
      using True by (simp add: string_put_def)
    moreover have "take (Suc pos) (buf[pos := fst x]) = take pos buf @ [fst x]" using True by (simp add: take_Suc_conv_app_nth)
    moreover have "min (length (x # out)) (length buf - pos) = Suc (min (length out) (length buf - Suc pos))" using True by simp
    ultimately show ?thesis using True Cons.IH [of "pos + 1" "buf[pos := fst x]" "n + 1"] by (simp add: Let_def drop_update_cancel)
  next
    case False
    then have "fold string_put (x # out) \<lparr>sp_buf = buf, sp_pos = pos, sp_n = n\<rparr> =
        fold string_put out \<lparr>sp_buf = buf, sp_pos = pos, sp_n = n + 1\<rparr>" by (simp add: string_put_def)
    then show ?thesis using False Cons.IH [OF Cons.prems, of "n + 1"] Cons.prems by (simp add: Let_def)
  qed
qed (simp add: Let_def)

text \<open>A decimal number as text.\<close>

definition decimal :: "int \<Rightarrow> bytes" where
  "decimal x = (if x < 0 then [0x2D] else []) @ map ((!) upper_digits) (digits_of 10 (nat \<bar>x\<bar>))"

lemma to_int_exact: "- (2 ^ 31) \<le> i \<Longrightarrow> i < 2 ^ 31 \<Longrightarrow> to_int i = i"
proof -
  assume "- (2 ^ 31) \<le> i" "i < 2 ^ 31"
  moreover have "sint (of_int i :: u32) = signed_take_bit 31 i" by (simp add: sint_sbintrunc')
  ultimately show ?thesis by (simp add: to_int_def signed_take_bit_int_eq_self)
qed

lemma decimal_conversion:
  assumes "0 \<le> w" "w < 2 ^ 31" "- (2 ^ 31) \<le> x" "x < 2 ^ 31"
  shows "conversion [0x2A, 0x64] [Word_Arg (of_int w), Word_Arg (of_int x)] =
    Inr (w, -1, Number (FLAG_NUMERIC OR FLAG_SIGNED OR (if x < 0 then FLAG_NEGATIVE else 0)) (of_int \<bar>x\<bar>) 10, [], [])"
proof -
  have w: "sint (ucast (of_int w :: u64) :: u32) = w" using assms(1,2) by (intro narrow) simp_all
  have x: "sint (ucast (of_int x :: u64) :: u32) = x" using assms(3,4) by (intro narrow)
  have "x \<noteq> - (2 ^ 63)" using assms(3) by auto
  then show ?thesis
    by (simp add: conversion_def flag_chars_def parse_width_def peek_def va_int_def w x parse_precision_def parse_length_def convert_def Let_def
        del: of_int_minus)
qed

lemma laid_out_decimal:
  assumes w: "0 \<le> w" "w < 2 ^ 31" and data: "length data \<le> 20" and x: "prefix = (if neg then [0x2D] else [])"
  shows "laid_out (FLAG_NUMERIC OR FLAG_SIGNED OR (if neg then FLAG_NEGATIVE else 0)) w (-1) prefix data =
    replicate (nat w - length (prefix @ data)) 0x20 @ prefix @ data"
proof -
  have d: "to_int (int (length data)) = int (length data)" using data by (intro to_int_exact) simp_all
  have "to_int (w - (int (length data) + int (length prefix))) = w - (int (length data) + int (length prefix))"
    using w data x by (intro to_int_exact) simp_all
  moreover have "nat (w - (int (length data) + int (length prefix))) = nat w - length (prefix @ data)" using w by (simp add: nat_diff_distrib')
  ultimately show ?thesis unfolding laid_out_def Let_def by (simp add: d flag_defs)
qed

lemma vsnprintf_printed:
  "vsnprintf buf fmt args = ebind (printed 0 fmt args) (\<lambda>out.
     let k = min (length out) (length buf - 1) in
     Inr (if buf = [] then [] else take k (map fst out) @ 0 # drop (k + 1) buf, length out))"
proof (cases "printed 0 fmt args")
  case (Inr out)
  let ?k = "min (length out) (length buf)"
  have "vprintf string_putc 0 fmt args \<lparr>sp_buf = buf, sp_pos = 0, sp_n = 0\<rparr> =
      Inr \<lparr>sp_buf = take ?k (map fst out) @ drop ?k buf, sp_pos = ?k, sp_n = length out\<rparr>"
    using sprinter.vprintf_fold string_put_fold [of 0 buf out 0] Inr by (simp add: Let_def)
  then show ?thesis using Inr by (cases "length out < length buf")
     (auto simp: vsnprintf_def Let_def list_update_append upd_conv_take_nth_drop min_def Cons_nth_drop_Suc [symmetric])
qed (simp add: vsnprintf_def sprinter.vprintf_fold)

section \<open>Properties\<close>

text \<open>\<open>%*d\<close> prints a number in decimal, with a minus sign when it is negative, filled up with blanks on the left to the
width.\<close>

theorem prints_decimal:
  assumes "0 \<le> w" "w < 2 ^ 31" "- (2 ^ 31) \<le> x" "x < 2 ^ 31"
  shows "printed color [0x25, 0x2A, 0x64] [Word_Arg (of_int w), Word_Arg (of_int x)] =
    Inr (map (\<lambda>c. (c, color)) (replicate (nat w - length (decimal x)) 0x20 @ decimal x))"
proof -
  define data where "data = map ((!) upper_digits) (digits_of 10 (nat \<bar>x\<bar>))"
  define prefix :: bytes where "prefix = (if x < 0 then [0x2D] else [])"
  let ?flags = "FLAG_NUMERIC OR FLAG_SIGNED OR (if x < 0 then FLAG_NEGATIVE else 0)"
  have n: "unat (of_int \<bar>x\<bar> :: u64) = nat \<bar>x\<bar>"
    using uint_exact [of "\<bar>x\<bar>"] assms(3,4) by (simp add: unat_eq_nat_uint)
  have num: "fill_numbuf (of_int \<bar>x\<bar>) 10 = Inr data"
    using fill_numbuf_ok [of 10 "of_int \<bar>x\<bar>"] by (simp add: n data_def digit_table_def)
  have pre: "number_prefix ?flags (of_int \<bar>x\<bar>) 10 = prefix" by (simp add: number_prefix_def prefix_def flag_defs)
  have "nat \<bar>x\<bar> < 10 ^ 20" using assms(3,4) by (simp add: nat_less_iff abs_less_iff)
  then have "length data \<le> 20" unfolding data_def by (simp add: digits_of_length)
  note lay = laid_out_decimal [OF assms(1,2) this prefix_def]
  show ?thesis
    by (simp add: printed.simps(2) decimal_conversion [OF assms] num pre lay decimal_def flip: data_def prefix_def)
qed

theorem prints_decimal_witness:
  "printed 0x700 [0x25, 0x2A, 0x64] [Word_Arg (of_int 6), Word_Arg (of_int (- 105))] =
    Inr (map (\<lambda>c. (c, 0x700)) [0x20, 0x20, 0x2D, 0x31, 0x30, 0x35])"
proof -
  have "decimal (- 105) = [0x2D, 0x31, 0x30, 0x35]" by code_simp
  then show ?thesis using prints_decimal [of 6 "- 105" "0x700"] by (simp add: numeral_eq_Suc)
qed


text \<open>C35: \<open>vsnprintf\<close> prints what the format says as far as the buffer has room for it and the NUL, writes nothing behind that, and
returns the length of the whole output.\<close>

theorem vsnprintf_truncates:
  "vsnprintf buf fmt args = ebind (printed 0 fmt args) (\<lambda>out.
     let k = min (length out) (length buf - 1) in
     Inr (if buf = [] then [] else take k (map fst out) @ 0 # drop (k + 1) buf, length out))"
  by (rule vsnprintf_printed)

end
