(* ===== verification/Console.thy ===== *)
theory Console
  imports CPrintf
begin

text \<open>
  The console of WeensyOS (\<open>console_printer\<close>, \<open>console_puts\<close>, \<open>console_vprintf\<close> and \<open>console_clear\<close> of
  \<open>project04a-wduan/lib.cc\<close>): 25 rows of 80 cells, each a byte with its color, and the position of the cursor. Showing the cursor is
  left to the hardware.
\<close>

section \<open>Printing to the console\<close>

definition CONSOLE_COLUMNS :: nat where "CONSOLE_COLUMNS = 80"
definition CONSOLE_ROWS :: nat where "CONSOLE_ROWS = 25"

abbreviation CONSOLE_SIZE :: nat where "CONSOLE_SIZE \<equiv> CONSOLE_ROWS * CONSOLE_COLUMNS"

record console =
  con_cells :: "u16 list"
  cursorpos :: int

record console_printer =
  cp_cells :: "u16 list"
  cp_cell :: nat
  cp_scroll :: bool

definition console_clear :: "console \<Rightarrow> console" where
  "console_clear con = con\<lparr>con_cells := map (\<lambda>_. 0x20 OR 0x0700) [0..<CONSOLE_SIZE], cursorpos := 0\<rparr>"

text \<open>The constructor of a \<open>console_printer\<close>; a cell before the first one is no cell.\<close>

definition console_printer :: "int \<Rightarrow> bool \<Rightarrow> console \<Rightarrow> console_printer result" where
  "console_printer cpos scroll con =
     (let cell = (if cpos < 0 then cursorpos con else if cpos \<le> int CONSOLE_SIZE then cpos else 0) in
      if cell < 0 then Inl Bad_Access
      else Inr \<lparr>cp_cells = con_cells con, cp_cell = nat cell, cp_scroll = scroll\<rparr>)"

definition console_scroll :: "console_printer \<Rightarrow> console_printer result" where
  "console_scroll p =
     ebind (c_assert (CONSOLE_SIZE \<le> cp_cell p)) (\<lambda>_.
     Inr (if cp_scroll p
          then p\<lparr>cp_cells := take ((CONSOLE_ROWS - 1) * CONSOLE_COLUMNS) (drop CONSOLE_COLUMNS (cp_cells p)) @
              replicate CONSOLE_COLUMNS 0 @ drop CONSOLE_SIZE (cp_cells p),
            cp_cell := cp_cell p - CONSOLE_COLUMNS\<rparr>
          else p\<lparr>cp_cell := 0\<rparr>))"

function scroll_loop :: "console_printer \<Rightarrow> console_printer result" where
  "scroll_loop p = (if CONSOLE_SIZE \<le> cp_cell p then ebind (console_scroll p) scroll_loop else Inr p)"
  by auto
termination
  by (relation "measure cp_cell") (auto simp: console_scroll_def c_assert_def CONSOLE_ROWS_def CONSOLE_COLUMNS_def split: if_splits)

declare scroll_loop.simps [simp del]

text \<open>\<open>*cell_++ = v\<close>.\<close>

definition put_cell :: "u16 \<Rightarrow> console_printer \<Rightarrow> console_printer result" where
  "put_cell v p =
     (if cp_cell p < length (cp_cells p)
      then Inr (p\<lparr>cp_cells := (cp_cells p)[cp_cell p := v], cp_cell := cp_cell p + 1\<rparr>) else Inl Bad_Access)"

fun fill_line :: "nat \<Rightarrow> u16 \<Rightarrow> console_printer \<Rightarrow> console_printer result" where
  "fill_line 0 v p = Inr p"
| "fill_line (Suc left) v p = ebind (put_cell v p) (fill_line left v)"

definition console_putc :: "u8 \<Rightarrow> u32 \<Rightarrow> console_printer \<Rightarrow> console_printer result" where
  "console_putc c color p =
     ebind (scroll_loop p) (\<lambda>p.
     if c = 0x0A then fill_line (80 - cp_cell p mod 80) (ucast (0x20 OR color)) p
     else put_cell (ucast (ucast c OR color)) p)"

text \<open>What \<open>console_puts\<close> and \<open>console_vprintf\<close> do after printing: the cursor moves when they printed at the cursor.\<close>

definition console_finish :: "int \<Rightarrow> console \<Rightarrow> console_printer \<Rightarrow> int \<times> console" where
  "console_finish cpos con p =
     (int (cp_cell p),
      con\<lparr>con_cells := cp_cells p, cursorpos := (if cpos < 0 then int (cp_cell p) else cursorpos con)\<rparr>)"

definition console_puts :: "int \<Rightarrow> u32 \<Rightarrow> bytes \<Rightarrow> console \<Rightarrow> (int \<times> console) result" where
  "console_puts cpos color s con =
     ebind (console_printer cpos (cpos < 0) con) (\<lambda>p.
     ebind (emit console_putc color s p) (\<lambda>p. Inr (console_finish cpos con p)))"

definition console_vprintf :: "int \<Rightarrow> u32 \<Rightarrow> bytes \<Rightarrow> vararg list \<Rightarrow> console \<Rightarrow> (int \<times> console) result" where
  "console_vprintf cpos color fmt args con =
     ebind (console_printer cpos (cpos < 0) con) (\<lambda>p.
     ebind (vprintf console_putc color fmt args p) (\<lambda>p. Inr (console_finish cpos con p)))"

section \<open>Printing stays on the console\<close>

lemmas console_size = CONSOLE_ROWS_def CONSOLE_COLUMNS_def

definition printer_ok :: "console_printer \<Rightarrow> bool" where
  "printer_ok p \<longleftrightarrow> length (cp_cells p) = 2000 \<and> cp_cell p \<le> 2000"

definition console_ok :: "console \<Rightarrow> bool" where
  "console_ok con \<longleftrightarrow> length (con_cells con) = 2000 \<and> 0 \<le> cursorpos con \<and> cursorpos con \<le> 2000"

lemma scroll_loop_end: "cp_cell p < 2000 \<Longrightarrow> scroll_loop p = Inr p"
  by (subst scroll_loop.simps) (simp add: console_size)

text \<open>A full console: the lines move up by one, or printing goes on at the top.\<close>

lemma scroll_loop_full:
  assumes "cp_cell p = 2000"
  shows "scroll_loop p = Inr
    (if cp_scroll p then p\<lparr>cp_cells := take 1920 (drop 80 (cp_cells p)) @ replicate 80 0 @ drop 2000 (cp_cells p), cp_cell := 1920\<rparr>
     else p\<lparr>cp_cell := 0\<rparr>)"
  using assms by (subst scroll_loop.simps) (simp add: console_scroll_def console_size c_assert_def scroll_loop_end)

lemma scroll_loop_ok: "printer_ok p \<Longrightarrow> \<exists>p'. scroll_loop p = Inr p' \<and> length (cp_cells p') = 2000 \<and> cp_cell p' < 2000"
  by (cases "cp_cell p = 2000") (simp_all add: scroll_loop_full scroll_loop_end printer_ok_def)

lemma fill_line_ok:
  "length (cp_cells p) = 2000 \<Longrightarrow> cp_cell p + n \<le> 2000 \<Longrightarrow>
    \<exists>p'. fill_line n v p = Inr p' \<and> length (cp_cells p') = 2000 \<and> cp_cell p' = cp_cell p + n"
proof (induction n arbitrary: p)
  case (Suc n)
  let ?p = "p\<lparr>cp_cells := (cp_cells p)[cp_cell p := v], cp_cell := cp_cell p + 1\<rparr>"
  have "put_cell v p = Inr ?p" using Suc.prems by (simp add: put_cell_def)
  then show ?case using Suc.IH [of ?p] Suc.prems by simp
qed simp

lemma console_putc_ok:
  assumes "printer_ok p"
  shows "\<exists>p'. console_putc c color p = Inr p' \<and> printer_ok p'"
proof -
  obtain q where q: "scroll_loop p = Inr q" "length (cp_cells q) = 2000" "cp_cell q < 2000" using scroll_loop_ok [OF assms] by blast
  have "cp_cell q + (80 - cp_cell q mod 80) \<le> 2000"
  proof -
    have "cp_cell q div 80 < 25" using q(3) by (simp add: div_less_iff_less_mult)
    moreover have "cp_cell q = 80 * (cp_cell q div 80) + cp_cell q mod 80" by simp
    moreover have "cp_cell q mod 80 < 80" by simp
    ultimately show ?thesis by linarith
  qed
  note line = fill_line_ok [OF q(2) this, of "ucast (0x20 OR color)"] this
  show ?thesis
  proof (cases "c = 0x0A")
    case True
    then show ?thesis using line q(1) by (auto simp: console_putc_def printer_ok_def)
  next
    case False
    then show ?thesis using q by (simp add: console_putc_def put_cell_def printer_ok_def)
  qed
qed

definition console_put :: "u8 \<times> u32 \<Rightarrow> console_printer \<Rightarrow> console_printer" where
  "console_put x p = projr (console_putc (fst x) (snd x) p)"

interpretation cprinter: total_printer console_putc console_put printer_ok
proof unfold_locales
  show "printer_ok p \<Longrightarrow> console_putc c color p = Inr (console_put (c, color) p)" for p c color
    using console_putc_ok [of p c color] by (auto simp: console_put_def)
  show "printer_ok p \<Longrightarrow> printer_ok (console_put x p)" for p x
    using console_putc_ok [of p "fst x" "snd x"] by (auto simp: console_put_def)
qed

lemma console_printer_ok:
  assumes "console_ok con"
  shows "\<exists>p. console_printer cpos scroll con = Inr p \<and> printer_ok p \<and> cp_cells p = con_cells con \<and>
    cp_cell p = nat (if cpos < 0 then cursorpos con else if cpos \<le> 2000 then cpos else 0)"
  using assms by (simp add: console_printer_def console_size printer_ok_def console_ok_def Let_def nat_le_iff)

lemma console_finish_ok:
  "console_ok con \<Longrightarrow> printer_ok p \<Longrightarrow> console_finish cpos con p = (pos, con') \<Longrightarrow> console_ok con' \<and> 0 \<le> pos \<and> pos \<le> 2000"
  by (auto simp: console_finish_def console_ok_def printer_ok_def)

text \<open>Text without line breaks that fits.\<close>

lemma console_put_text:
  "\<forall>x \<in> set out. fst x \<noteq> 0x0A \<Longrightarrow> length (cp_cells p) = 2000 \<Longrightarrow> cp_cell p + length out \<le> 2000 \<Longrightarrow>
    fold console_put out p = p\<lparr>cp_cells := take (cp_cell p) (cp_cells p) @ map (\<lambda>(c, color). ucast (ucast c OR color)) out @
      drop (cp_cell p + length out) (cp_cells p), cp_cell := cp_cell p + length out\<rparr>"
proof (induction out arbitrary: p)
  case (Cons x out)
  let ?v = "ucast (ucast (fst x) OR snd x) :: u16"
  let ?p = "p\<lparr>cp_cells := (cp_cells p)[cp_cell p := ?v], cp_cell := cp_cell p + 1\<rparr>"
  have cell: "cp_cell p < 2000" "cp_cell p < length (cp_cells p)" using Cons.prems by simp_all
  then have "console_put x p = ?p"
    using Cons.prems(1,2) by (simp add: console_put_def console_putc_def scroll_loop_end put_cell_def)
  moreover have "take (Suc (cp_cell p)) ((cp_cells p)[cp_cell p := ?v]) = take (cp_cell p) (cp_cells p) @ [?v]"
    using cell by (simp add: take_Suc_conv_app_nth)
  ultimately show ?case using Cons.IH [of ?p] Cons.prems by (simp add: drop_update_cancel case_prod_unfold)
qed simp

section \<open>Properties\<close>

text \<open>C37: printing on the console, at any position, with any format and arguments, stores only to the cells of the console and leaves
the cursor on it; it fails only where the format and its arguments do not fit.\<close>

theorem console_stays_in_bounds:
  assumes "console_ok con"
  shows "case console_vprintf cpos color fmt args con of Inl e \<Rightarrow> printed color fmt args = Inl e
    | Inr (pos, con') \<Rightarrow> console_ok con' \<and> 0 \<le> pos \<and> pos \<le> 2000"
proof -
  obtain p where p: "console_printer cpos (cpos < 0) con = Inr p" "printer_ok p" using console_printer_ok [OF assms] by blast
  show ?thesis
  proof (cases "printed color fmt args")
    case (Inl e)
    then show ?thesis using p by (simp add: console_vprintf_def cprinter.vprintf_fold)
  next
    case (Inr out)
    obtain pos con' where f: "console_finish cpos con (fold console_put out p) = (pos, con')" by (rule prod.exhaust)
    from console_finish_ok [OF assms cprinter.fold_ok [OF p(2)] this] show ?thesis
      using p Inr f by (simp add: console_vprintf_def cprinter.vprintf_fold)
  qed
qed

definition blank_console :: console where
  "blank_console = console_clear \<lparr>con_cells = replicate 2000 0, cursorpos = 1999\<rparr>"

lemma blank_console_ok: "console_ok blank_console"
  by (simp add: console_ok_def blank_console_def console_clear_def console_size)

theorem console_stays_in_bounds_witness:
  "case console_vprintf 1999 0x700 [0x41, 0x42, 0x0A, 0x25, 0x64] [Word_Arg 7] blank_console of
     Inl e \<Rightarrow> printed 0x700 [0x41, 0x42, 0x0A, 0x25, 0x64] [Word_Arg 7] = Inl e
   | Inr (pos, con') \<Rightarrow> console_ok con' \<and> 0 \<le> pos \<and> pos \<le> 2000"
  by (rule console_stays_in_bounds [OF blank_console_ok])

text \<open>What a format prints appears on the console from the position on, each byte with its color, and nothing else
changes, if it has no line break and fits on the console.\<close>

theorem console_shows_text:
  assumes "console_ok con" "0 \<le> cpos" "printed color fmt args = Inr out" "\<forall>x \<in> set out. fst x \<noteq> 0x0A" "nat cpos + length out \<le> 2000"
  shows "console_vprintf cpos color fmt args con = Inr (cpos + int (length out),
    con\<lparr>con_cells := take (nat cpos) (con_cells con) @ map (\<lambda>(c, color). ucast (ucast c OR color)) out @
      drop (nat cpos + length out) (con_cells con)\<rparr>)"
proof -
  obtain p where p: "console_printer cpos (cpos < 0) con = Inr p" "printer_ok p" "cp_cells p = con_cells con"
    "cp_cell p = nat (if cpos < 0 then cursorpos con else if cpos \<le> 2000 then cpos else 0)"
    using console_printer_ok [OF assms(1)] by blast
  have cell: "cp_cell p = nat cpos" using p(4) assms(2,5) by simp
  then have "fold console_put out p = p\<lparr>cp_cells := take (nat cpos) (con_cells con) @ map (\<lambda>(c, color). ucast (ucast c OR color)) out @
      drop (nat cpos + length out) (con_cells con), cp_cell := nat cpos + length out\<rparr>"
    using console_put_text [OF assms(4), of p] assms(5) p(2,3) by (simp add: printer_ok_def)
  then show ?thesis using p(1) assms(2,3) cprinter.vprintf_fold [OF p(2)] by (simp add: console_vprintf_def console_finish_def)
qed

theorem console_shows_text_witness:
  "\<exists>con'. console_vprintf 81 0x700 [0x25, 0x64] [Word_Arg 7] blank_console = Inr (82, con') \<and> con_cells con' ! 81 = 0x737 \<and>
     con_cells con' ! 82 = 0x720"
proof -
  have out: "printed 0x700 [0x25, 0x64] [Word_Arg 7] = Inr [(0x37, 0x700)]" by code_simp
  note console_shows_text [OF blank_console_ok _ out, of 81]
  moreover have "con_cells blank_console = replicate 2000 0x720"
    by (simp add: blank_console_def console_clear_def console_size map_replicate_const)
  ultimately show ?thesis by (simp add: nth_append)
qed

end
