(* ===== verification/SymTab.thy ===== *)
theory SymTab
  imports KernelTables
begin

text \<open>
  The kernel's debugging symbols (\<open>lookup_symbol\<close> of \<open>project04a-wduan/k-hardware.cc\<close>, the records of \<open>elf.h\<close>): a table sorted by
  address, searched for the symbol an address belongs to.
\<close>

section \<open>The table and its search\<close>

record elf_symbol =
  st_name :: u32
  st_info :: u8
  st_other :: u8
  st_shndx :: u16
  st_value :: u64
  st_size :: u64

text \<open>The array \<open>sym\<close> has \<open>nsym\<close> entries, the names lie in \<open>strtab\<close>.\<close>

record elf_symtabref =
  sym :: "elf_symbol list"
  strtab :: bytes

definition SYMTAB_ADDR :: u64 where "SYMTAB_ADDR = 0x1000000"

text \<open>The condition of the search: entry \<open>i\<close> is the last one up to the address, and the address is not behind its end.\<close>

definition symbol_matches :: "elf_symbol list \<Rightarrow> u64 \<Rightarrow> nat \<Rightarrow> bool" where
  "symbol_matches t addr i \<longleftrightarrow>
     st_value (t ! i) \<le> addr \<and> (i + 1 = length t \<or> addr < st_value (t ! (i + 1))) \<and>
     (st_size (t ! i) = 0 \<or> addr \<le> st_value (t ! i) + st_size (t ! i))"

function symbol_search :: "elf_symbol list \<Rightarrow> u64 \<Rightarrow> nat \<Rightarrow> nat \<Rightarrow> elf_symbol option" where
  "symbol_search t addr l r =
     (if l < r then
        let m = l + (r - l) div 2; s = t ! m in
        if symbol_matches t addr m then (if st_value s = 0 then None else Some s)
        else if st_value s < addr then symbol_search t addr (m + 1) r
        else symbol_search t addr l m
      else None)"
  by auto
termination by (relation "measure (\<lambda>(_, _, l, r). r - l)") (auto simp: Let_def)

declare symbol_search.simps [simp del]

text \<open>The name, a pointer into \<open>strtab\<close>, is what lies there from its start on. Before the search the kernel maps the table, if it is not
mapped.\<close>

definition lookup_symbol :: "u64 \<Rightarrow> elf_symtabref \<Rightarrow> u64 \<Rightarrow> memory \<Rightarrow> memory \<times> (bytes \<times> u64) option" where
  "lookup_symbol kp symtab addr m =
     (let entry = kernel_table kp 2 + 8 * (SYMTAB_ADDR div 0x200000);
          m = (if m entry = 0 then m(entry := SYMTAB_ADDR OR PTE_P OR PTE_W OR PTE_PS) else m)
      in (m, map_option (\<lambda>s. (drop (unat (st_name s)) (strtab symtab), st_value s))
           (symbol_search (sym symtab) addr 0 (length (sym symtab)))))"

section \<open>What is found\<close>

text \<open>The symbol an address belongs to, without a search: the last one that does not start behind the address.\<close>

definition symbol_of :: "elf_symbol list \<Rightarrow> u64 \<Rightarrow> elf_symbol option" where
  "symbol_of t addr =
     (case filter (\<lambda>s. st_value s \<le> addr) t of
        [] \<Rightarrow> None
      | ss \<Rightarrow> let s = last ss in
          if st_value s \<noteq> 0 \<and> (st_size s = 0 \<or> addr \<le> st_value s + st_size s) then Some s else None)"

text \<open>In a sorted table the symbols up to an address are a prefix of it; \<open>k\<close> counts them.\<close>

lemma filter_sorted:
  assumes "\<And>i. i < length t \<Longrightarrow> st_value (t ! i) \<le> addr \<longleftrightarrow> i < k"
  shows "filter (\<lambda>s. st_value s \<le> addr) t = take k t"
proof -
  have "filter (\<lambda>s. st_value s \<le> addr) (take k t) = take k t" using assms by (auto simp: filter_id_conv in_set_conv_nth)
  moreover have "filter (\<lambda>s. st_value s \<le> addr) (drop k t) = []" using assms by (auto simp: filter_empty_conv in_set_conv_nth)
  moreover have "filter (\<lambda>s. st_value s \<le> addr) t =
      filter (\<lambda>s. st_value s \<le> addr) (take k t) @ filter (\<lambda>s. st_value s \<le> addr) (drop k t)"
    by (metis append_take_drop_id filter_append)
  ultimately show ?thesis by simp
qed

lemma last_take: "0 < k \<Longrightarrow> k \<le> length t \<Longrightarrow> take k t \<noteq> [] \<and> last (take k t) = t ! (k - 1)"
proof -
  assume "0 < k" "k \<le> length t"
  then have "take k t = take (k - 1) t @ [t ! (k - 1)]" using take_Suc_conv_app_nth [of "k - 1" t] by simp
  then show ?thesis by simp
qed

lemma prefix_exists:
  assumes "sorted_wrt (\<lambda>a b. st_value a < st_value b) t"
  shows "\<exists>k \<le> length t. \<forall>i < length t. st_value (t ! i) \<le> addr \<longleftrightarrow> i < k"
  using assms
proof (induction t)
  case (Cons s t)
  then obtain k where k: "k \<le> length t" "\<forall>i < length t. st_value (t ! i) \<le> addr \<longleftrightarrow> i < k" by auto
  show ?case
  proof (cases "st_value s \<le> addr")
    case True
    then show ?thesis using k by (intro exI [of _ "Suc k"]) (auto simp: nth_Cons split: nat.splits)
  next
    case False
    then have "\<not> st_value (t ! i) \<le> addr" if "i < length t" for i
      using Cons.prems nth_mem [OF that] by (fastforce simp: not_le)
    then show ?thesis using False by (intro exI [of _ 0]) (auto simp: nth_Cons split: nat.splits)
  qed
qed simp

lemma search_nothing:
  assumes "\<And>i. l \<le> i \<Longrightarrow> i < r \<Longrightarrow> \<not> symbol_matches t addr i"
  shows "symbol_search t addr l r = None"
  using assms
proof (induction t addr l r rule: symbol_search.induct)
  case (1 t addr l r)
  show ?case
  proof (cases "l < r")
    case True
    then have "\<not> symbol_matches t addr (l + (r - l) div 2)" using "1.prems" by simp
    then show ?thesis using "1.IH" [OF True refl refl] "1.prems" by (subst symbol_search.simps) (auto simp: Let_def)
  qed (simp add: symbol_search.simps)
qed

lemma search_finds:
  assumes "sorted_wrt (\<lambda>a b. st_value a < st_value b) t" "symbol_matches t addr k" "l \<le> k" "k < r" "r \<le> length t"
  shows "symbol_search t addr l r = (if st_value (t ! k) = 0 then None else Some (t ! k))"
  using assms
proof (induction t addr l r rule: symbol_search.induct)
  case (1 t addr l r)
  let ?m = "l + (r - l) div 2"
  have lr: "l < r" using "1.prems" by simp
  have m: "l \<le> ?m" "?m < r" using lr by linarith+
  have less: "st_value (t ! i) < st_value (t ! j)" if "i < j" "j < length t" for i j
    using sorted_wrt_nth_less [OF "1.prems"(1)] that by blast
  consider "?m = k" | "?m < k" | "k < ?m" by linarith
  then show ?case
  proof cases
    case 1
    then show ?thesis using lr "1.prems"(2) by (subst symbol_search.simps) (simp add: Let_def)
  next
    case 2
    have "st_value (t ! ?m) < addr" using less [OF 2] "1.prems" by (auto simp: symbol_matches_def intro: less_le_trans)
    moreover have "\<not> symbol_matches t addr ?m"
    proof -
      have "st_value (t ! (?m + 1)) \<le> st_value (t ! k)"
        using less [of "?m + 1" k] 2 "1.prems"(4,5) by (cases "?m + 1 = k") auto
      also have "\<dots> \<le> addr" using "1.prems"(2) by (simp add: symbol_matches_def)
      finally show ?thesis using 2 "1.prems"(4,5) by (auto simp: symbol_matches_def)
    qed
    ultimately show ?thesis using "1.IH"(1) [OF lr refl refl] "1.prems" lr 2 by (subst symbol_search.simps) (auto simp: Let_def)
  next
    case 3
    have "st_value (t ! (k + 1)) \<le> st_value (t ! ?m)" using less [of "k + 1" ?m] 3 m "1.prems"(5) by (cases "k + 1 = ?m") auto
    moreover have "addr < st_value (t ! (k + 1))" using "1.prems"(2,5) 3 m by (auto simp: symbol_matches_def)
    ultimately have "addr < st_value (t ! ?m)" by (rule less_le_trans [rotated])
    then have "\<not> symbol_matches t addr ?m" "\<not> st_value (t ! ?m) < addr" by (auto simp: symbol_matches_def)
    then show ?thesis using "1.IH"(2) [OF lr refl refl] "1.prems" lr 3 m by (subst symbol_search.simps) (auto simp: Let_def)
  qed
qed

section \<open>Properties\<close>

text \<open>C39: in a table whose addresses strictly increase, that is sorted and without two symbols at one address, the binary search finds the symbol that
the address belongs to, the last one that does not start behind it, and none when that one ends before the address; the only change to
memory is the entry that maps the table.\<close>

theorem lookup_symbol_correct:
  assumes "sorted_wrt (\<lambda>a b. st_value a < st_value b) (sym symtab)"
  shows "snd (lookup_symbol kp symtab addr m) =
      map_option (\<lambda>s. (drop (unat (st_name s)) (strtab symtab), st_value s)) (symbol_of (sym symtab) addr) \<and>
    (\<forall>a. a \<noteq> kernel_table kp 2 + 64 \<longrightarrow> fst (lookup_symbol kp symtab addr m) a = m a)"
proof -
  let ?t = "sym symtab"
  obtain k where k: "k \<le> length ?t" "\<And>i. i < length ?t \<Longrightarrow> st_value (?t ! i) \<le> addr \<longleftrightarrow> i < k"
    using prefix_exists [OF assms, of addr] by blast
  have only: "i = k - 1 \<and> 0 < k" if "symbol_matches ?t addr i" "i < length ?t" for i
  proof -
    have "i < k" using that k(2) [of i] by (simp add: symbol_matches_def)
    moreover have "\<not> i + 1 < k"
    proof
      assume "i + 1 < k"
      then have "i + 1 < length ?t" "st_value (?t ! (i + 1)) \<le> addr" using k(1) k(2) [of "i + 1"] by simp_all
      then show False using that by (auto simp: symbol_matches_def)
    qed
    ultimately show ?thesis by simp
  qed
  have "symbol_search ?t addr 0 (length ?t) = symbol_of ?t addr"
  proof (cases "0 < k \<and> symbol_matches ?t addr (k - 1)")
    case True
    then have "symbol_search ?t addr 0 (length ?t) = (if st_value (?t ! (k - 1)) = 0 then None else Some (?t ! (k - 1)))"
      using k(1) by (intro search_finds [OF assms]) auto
    moreover have "take k ?t \<noteq> []" "last (take k ?t) = ?t ! (k - 1)" using last_take [OF _ k(1)] True by auto
    ultimately show ?thesis using True
      by (auto simp: symbol_of_def filter_sorted [OF k(2)] symbol_matches_def Let_def split: list.splits)
  next
    case False
    have "symbol_search ?t addr 0 (length ?t) = None" using False only by (intro search_nothing) blast
    moreover have "symbol_of ?t addr = None"
    proof (cases "0 < k")
      case True
      then have t: "take k ?t \<noteq> []" "last (take k ?t) = ?t ! (k - 1)" using last_take [OF True k(1)] by auto
      have "\<not> symbol_matches ?t addr (k - 1)" using False True by simp
      moreover have "st_value (?t ! (k - 1)) \<le> addr" using k True by simp
      moreover have "k - 1 + 1 = length ?t \<or> addr < st_value (?t ! (k - 1 + 1))" using k(1) k(2) [of k] True
        by (cases "k = length ?t") (simp_all add: not_le)
      ultimately show ?thesis using t
        by (auto simp: symbol_of_def filter_sorted [OF k(2)] symbol_matches_def Let_def split: list.splits)
    qed (simp add: symbol_of_def filter_sorted [OF k(2)])
    ultimately show ?thesis by simp
  qed
  then show ?thesis by (simp add: lookup_symbol_def Let_def SYMTAB_ADDR_def)
qed

definition sample_symbol :: "u64 \<Rightarrow> u64 \<Rightarrow> elf_symbol" where
  "sample_symbol v n = \<lparr>st_name = 0, st_info = 2, st_other = 0, st_shndx = 1, st_value = v, st_size = n\<rparr>"

definition sample_symtab :: elf_symtabref where
  "sample_symtab = \<lparr>sym = [sample_symbol 0 0, sample_symbol 0x40000 0x20, sample_symbol 0x40080 0], strtab = [0x66, 0]\<rparr>"

theorem lookup_symbol_correct_witness:
  "snd (lookup_symbol 0x50000 sample_symtab 0x40010 (\<lambda>_. 0)) = Some ([0x66, 0], 0x40000)"
proof -
  have "sorted_wrt (\<lambda>a b. st_value a < st_value b) (sym sample_symtab)" by (simp add: sample_symtab_def sample_symbol_def)
  from lookup_symbol_correct [OF this, of "0x50000" "0x40010" "\<lambda>_. 0"] show ?thesis
    by (simp add: sample_symtab_def sample_symbol_def symbol_of_def)
qed

text \<open>Two symbols at one address, in the order of \<open>mkchickadeesymtab\<close>: neither is found, although the address belongs to both.\<close>

lemma lookup_symbol_misses:
  "symbol_search [sample_symbol 0 0, sample_symbol 5 0, sample_symbol 5 4] 5 0 3 = None"
  "symbol_of [sample_symbol 0 0, sample_symbol 5 0, sample_symbol 5 4] 5 = Some (sample_symbol 5 4)"
  by (simp_all add: symbol_search.simps symbol_matches_def symbol_of_def sample_symbol_def)

end
