(* ===== verification/RangePerm.thy ===== *)
theory RangePerm
  imports Vmiter
begin

text \<open>
  \<open>vmiter::range_perm\<close> of \<open>project04a-wduan/k-vmiter.cc\<close>: the permissions that all addresses of a range have, entry by entry. The result is
  exact for a range that stays in the entry of its first address or is longer than that entry covers; others can be too generous.
\<close>

section \<open>The loop\<close>

definition VA_LOWEND :: u64 where "VA_LOWEND = 0x0000800000000000"

text \<open>\<open>rsz\<close> is the size of what the current entry covers.\<close>

definition entry_size :: "vmiter \<Rightarrow> u64" where
  "entry_size it = pageoffmask (it_level it) + 1"

partial_function (option) range_loop :: "memory \<Rightarrow> vmiter \<Rightarrow> u64 \<Rightarrow> u64 \<Rightarrow> u64 run" where
  "range_loop m it sz p =
     (let sz = sz - entry_size it in
      rbind (Some (next_range m it)) (\<lambda>it.
      let p = p AND vm_perm m it in
      if p AND PTE_P \<noteq> 0 \<and> entry_size it < sz then range_loop m it sz p else returns p))"

definition range_perm :: "memory \<Rightarrow> u64 \<Rightarrow> vmiter \<Rightarrow> u64 run" where
  "range_perm m sz it =
     (let p = vm_perm m it; rsz = entry_size it in
      if p AND PTE_P \<noteq> 0 \<and> rsz < sz then
        if (if sint (it_va it) < 0 then 0 else VA_LOWEND) - it_va it < sz then returns 0
        else rbind (range_loop m it (sz + (it_va it AND (rsz - 1))) p) (\<lambda>p. returns (if p AND PTE_P \<noteq> 0 then p else 0))
      else returns (if p AND PTE_P \<noteq> 0 then p else 0))"

section \<open>What an entry covers\<close>

text \<open>The permission bit \<open>k\<close> at an address.\<close>

definition allows :: "memory \<Rightarrow> u64 \<Rightarrow> u64 \<Rightarrow> nat \<Rightarrow> bool" where
  "allows m root a k \<longleftrightarrow> (case mmu m root a of None \<Rightarrow> False | Some (_, perm) \<Rightarrow> bit perm k)"

definition start_of :: "nat \<Rightarrow> u64 \<Rightarrow> nat" where
  "start_of l va = unat va div 2 ^ (12 + l * 9) * 2 ^ (12 + l * 9)"

lemma bit_P: "x AND PTE_P \<noteq> 0 \<longleftrightarrow> bit x 0" for x :: u64
  by (simp add: PTE_P_def and_one_eq bit_0 odd_iff_mod_2_eq_one)

lemma allows_iterator: "at_end m root it \<Longrightarrow> allows m root (it_va it) k \<longleftrightarrow> bit (vm_perm m it) k"
  using at_end_mmu [of m root it] by (auto simp: allows_def split: option.splits)

text \<open>All addresses of an entry have the same permissions.\<close>

lemma at_end_level: "at_end m root it \<Longrightarrow> it_level it \<le> 3"
  unfolding at_end_def by (auto simp: it_of_def dest: arg_cong [where f = it_level])

lemma region_same:
  assumes "at_end m root it" "drop_bit (12 + it_level it * 9) va = drop_bit (12 + it_level it * 9) (it_va it)"
  shows "allows m root va k \<longleftrightarrow> allows m root (it_va it) k"
proof (cases "va_is_canonical (it_va it)")
  case False
  then have "\<not> va_is_canonical va" using canonical_agree [OF assms(2) at_end_level [OF assms(1)]] by simp
  then show ?thesis using False by (simp add: allows_def mmu_def)
next
  case True
  then obtain d t q where s: "stage m root (it_va it) d = Some (t, q)" "stage m root (it_va it) (Suc d) = None"
    and it: "it = it_of root (it_va it) d t q" using assms(1) unfolding at_end_def by blast
  have d: "d \<le> 3" "it_level it = 3 - d" using stage_upto3 [OF s(1)] arg_cong [OF it, of it_level] by (simp_all add: it_of_def)
  then have "4 - it_level it = Suc d" by simp
  with agree_same_path [OF assms(2)] have p: "same_path (Suc d) va (it_va it)" by simp
  then have p': "same_path d va (it_va it)" "slot t va (3 - d) = slot t (it_va it) (3 - d)" by (auto simp: same_path_def slot_def)
  have "va_is_canonical va" using canonical_agree [OF assms(2) at_end_level [OF assms(1)]] True by simp
  moreover have "stage m root va d = Some (t, q)" "stage m root va (Suc d) = None"
    using s same_path_stage [OF p'(1)] same_path_stage [OF p] by metis+
  ultimately show ?thesis using mmu_at_stage [of m root va d t q] mmu_at_stage [OF s True] p'(2)
    by (simp add: allows_def Let_def)
qed

lemma drop_bit_nat: "drop_bit n x = drop_bit n y \<longleftrightarrow> unat x div 2 ^ n = unat y div 2 ^ n" for x y :: u64
  by (simp only: word_unat_eq_iff unat_drop)

lemma region_allows:
  assumes "at_end m root it" "start_of (it_level it) (it_va it) \<le> unat a"
    and "unat a < start_of (it_level it) (it_va it) + 2 ^ (12 + it_level it * 9)"
  shows "allows m root a k \<longleftrightarrow> bit (vm_perm m it) k"
proof -
  let ?n = "2 ^ (12 + it_level it * 9) :: nat"
  have "unat a div ?n = unat (it_va it) div ?n"
    using assms(2,3) by (intro div_nat_eqI) (simp_all add: start_of_def algebra_simps)
  then show ?thesis using region_same [OF assms(1)] allows_iterator [OF assms(1)] drop_bit_nat by blast
qed

lemma unat_entry_size: "it_level it \<le> 3 \<Longrightarrow> unat (entry_size it) = 2 ^ (12 + it_level it * 9)"
proof -
  assume l: "it_level it \<le> 3"
  then consider "it_level it = 0" | "it_level it = 1" | "it_level it = 2" | "it_level it = 3" by linarith
  then show ?thesis by cases (simp_all add: entry_size_def pageoffmask_def)
qed

lemma unsigned_mask_bit: "n < 64 \<Longrightarrow> unat (mask n :: u64) = 2 ^ n - 1"
  by (simp only: unat_eq_nat_uint uint_mask_eq) (simp add: mask_eq_exp_minus_1 nat_diff_distrib nat_power_eq)

lemma unat_or_mask: "unat (x OR mask n) = unat x div 2 ^ n * 2 ^ n + (2 ^ n - 1)" if "n < 64" for x :: u64
proof -
  have "take_bit n (x OR mask n) = mask n" "drop_bit n (x OR mask n) = drop_bit n x"
    by (rule bit_eqI; auto simp: bit_simps)+
  then have "unat (take_bit n (x OR mask n)) = 2 ^ n - 1" "unat (drop_bit n (x OR mask n)) = unat x div 2 ^ n"
    using that by (simp_all only: unat_drop unsigned_mask_bit)
  moreover have "unat (x OR mask n) = unat (drop_bit n (x OR mask n)) * 2 ^ n + unat (take_bit n (x OR mask n))"
    by (simp only: unat_drop unsigned_take_bit_eq) (simp only: take_bit_eq_mod div_mult_mod_eq)
  ultimately show ?thesis by simp
qed

text \<open>An entry further up covers none of the addresses that the walk leads further down.\<close>

lemma at_end_stage:
  assumes "at_end m root it" "va_is_canonical (it_va it)"
  shows "(\<exists>tq. stage m root (it_va it) (3 - it_level it) = Some tq) \<and> stage m root (it_va it) (4 - it_level it) = None"
proof -
  obtain d t q where s: "stage m root (it_va it) d = Some (t, q)" "stage m root (it_va it) (Suc d) = None"
    and it: "it = it_of root (it_va it) d t q" using assms unfolding at_end_def by blast
  have "d \<le> 3" "it_level it = 3 - d" using stage_upto3 [OF s(1)] arg_cong [OF it, of it_level] by (simp_all add: it_of_def)
  then have "3 - it_level it = d" "4 - it_level it = Suc d" by simp_all
  then show ?thesis using s by metis
qed

lemma higher_entry:
  assumes "at_end m root it" "at_end m root it'" "it_level it < it_level it'"
  shows "drop_bit (12 + it_level it' * 9) (it_va it) \<noteq> drop_bit (12 + it_level it' * 9) (it_va it')"
proof
  assume same: "drop_bit (12 + it_level it' * 9) (it_va it) = drop_bit (12 + it_level it' * 9) (it_va it')"
  have l': "it_level it' \<le> 3" by (rule at_end_level [OF assms(2)])
  have "va_is_canonical (it_va it)"
  proof (rule ccontr)
    assume "\<not> ?thesis"
    then have "it_level it = 3" using assms(1) unfolding at_end_def by (metis vmiter.simps(3))
    then show False using assms(3) l' by simp
  qed
  moreover from this have "va_is_canonical (it_va it')" using canonical_agree [OF same l'] by simp
  ultimately have "\<exists>tq. stage m root (it_va it) (3 - it_level it) = Some tq" "stage m root (it_va it') (4 - it_level it') = None"
    using at_end_stage assms(1,2) by blast+
  moreover have "stage m root (it_va it') (4 - it_level it') = stage m root (it_va it) (4 - it_level it')"
    by (rule same_path_stage) (rule agree_same_path [OF same [symmetric]])
  moreover have "4 - it_level it' \<le> 3 - it_level it" using assms(3) l' by simp
  ultimately show False using stage_earlier [of m root "it_va it"] by (metis option.distinct(1))
qed

text \<open>Where \<open>next_range\<close> goes: to the start of the next entry, which may cover more or less.\<close>

lemma next_start:
  assumes "at_end m root it" "page_aligned root" "next_range m it = Inr it'"
    and room: "start_of (it_level it) (it_va it) + 2 ^ (12 + it_level it * 9) < 2 ^ 64"
  shows "at_end m root it'" "start_of (it_level it') (it_va it') = start_of (it_level it) (it_va it) + 2 ^ (12 + it_level it * 9)"
    "unat (it_va it') = start_of (it_level it) (it_va it) + 2 ^ (12 + it_level it * 9)"
proof -
  let ?n = "12 + it_level it * 9" let ?B = "start_of (it_level it) (it_va it)"
  have l: "it_level it \<le> 3" by (rule at_end_level [OF assms(1)])
  have "real_find m (last_va it) it = Inr it'" using assms(3) by (simp add: next_range_def)
  then have at: "vmiter_at m root (last_va it) = Inr it'"
    using real_find_fresh [OF at_end_on_walk [OF assms(1)] assms(2)] by simp
  then show end': "at_end m root it'" using vmiter_at_end by blast
  have va': "it_va it' = last_va it" using vmiter_at_end [OF at] by simp
  have "unat (it_va it OR mask ?n) = ?B + (2 ^ ?n - 1)" using l by (simp only: start_of_def) (rule unat_or_mask, simp)
  then show nat': "unat (it_va it') = ?B + 2 ^ ?n"
    using room by (simp add: va' last_va_def pageoffmask_mask unat_plus_exact)
  let ?n' = "12 + it_level it' * 9"
  have l': "it_level it' \<le> 3" by (rule at_end_level [OF end'])
  have "2 ^ ?n' dvd unat (it_va it')"
  proof (cases "it_level it' \<le> it_level it")
    case True
    then have "(2 :: nat) ^ ?n' dvd 2 ^ ?n" by (intro le_imp_power_dvd) simp
    moreover have "2 ^ ?n dvd unat (it_va it')" unfolding nat' start_of_def by simp
    ultimately show ?thesis by (rule dvd_trans)
  next
    case False
    obtain c :: nat where c: "(2 :: nat) ^ ?n' = 2 ^ ?n * c" using False le_imp_power_dvd [of ?n ?n' 2] by (auto elim: dvdE)
    have "unat (it_va it) div 2 ^ ?n' \<noteq> unat (it_va it') div 2 ^ ?n'"
      using higher_entry [OF assms(1) end'] False by (simp add: drop_bit_nat)
    moreover have "unat (it_va it) div 2 ^ ?n' = unat (it_va it) div 2 ^ ?n div c" by (simp add: c div_mult2_eq)
    moreover have "unat (it_va it') div 2 ^ ?n' = Suc (unat (it_va it) div 2 ^ ?n) div c"
      by (simp add: nat' start_of_def c div_mult2_eq)
    ultimately have "c dvd Suc (unat (it_va it) div 2 ^ ?n)" by (simp add: div_Suc dvd_eq_mod_eq_0 split: if_splits)
    then have "2 ^ ?n * c dvd 2 ^ ?n * Suc (unat (it_va it) div 2 ^ ?n)" by (rule mult_dvd_mono [OF dvd_refl])
    then show ?thesis by (simp only: c nat' start_of_def mult_Suc_right add.commute mult.commute)
  qed
  then show "start_of (it_level it') (it_va it') = ?B + 2 ^ ?n" using nat' by (simp add: start_of_def)
qed

text \<open>The loop: what is left of the permissions when it ends. Here \<open>E\<close> is the end of the range, and the loop is at an entry that the
range reaches over.\<close>

lemma range_loop_exact:
  assumes "at_end m root it" "page_aligned root" "2 ^ (12 + it_level it * 9) < unat sz"
    and "start_of (it_level it) (it_va it) + unat sz = E" "E \<le> 2 ^ 64"
  shows "\<exists>r. range_loop m it sz p = Some r \<and> (\<forall>p'. r = Inr p' \<longrightarrow> (\<forall>k. bit p' k \<and> bit p' 0 \<longleftrightarrow>
    bit p k \<and> bit p 0 \<and> (\<forall>a. start_of (it_level it) (it_va it) + 2 ^ (12 + it_level it * 9) \<le> unat a \<and> unat a < E \<longrightarrow>
      allows m root a k \<and> allows m root a 0)))"
  using assms
proof (induction "unat sz" arbitrary: it sz p rule: less_induct)
  case less
  let ?R = "2 ^ (12 + it_level it * 9) :: nat" let ?B = "start_of (it_level it) (it_va it)"
  show ?case
  proof (cases "next_range m it")
    case (Inl e)
    then show ?thesis by (subst range_loop.simps) (simp add: Let_def)
  next
    case (Inr it')
    let ?R' = "2 ^ (12 + it_level it' * 9) :: nat" let ?B' = "start_of (it_level it') (it_va it')"
    let ?sz = "sz - entry_size it" let ?p = "p AND vm_perm m it'"
    have "?B + ?R < 2 ^ 64" using less.prems by linarith
    note nxt = next_start [OF less.prems(1,2) Inr this]
    have R: "unat (entry_size it) = ?R" by (rule unat_entry_size [OF at_end_level [OF less.prems(1)]])
    have R': "unat (entry_size it') = ?R'" by (rule unat_entry_size [OF at_end_level [OF nxt(1)]])
    have sz: "unat ?sz = unat sz - ?R" using less.prems(3) R by (subst unat_minus_exact) (simp_all add: word_le_nat_alt)
    have E: "?B' + unat ?sz = E" using nxt(2) sz less.prems(3,4) by linarith
    have here: "allows m root a k \<longleftrightarrow> bit (vm_perm m it') k" if "?B' \<le> unat a" "unat a < ?B' + ?R'" for a k
      by (rule region_allows [OF nxt(1) that])
    have at: "?B' = unat (it_va it')" "?B' < ?B' + ?R'" "?B' < E" "?B + ?R = ?B'"
      using nxt(2,3) E less.prems(3) sz by simp_all
    have first: "(\<forall>a. ?B' \<le> unat a \<and> unat a < ?B' + ?R' \<and> unat a < E \<longrightarrow> allows m root a k \<and> allows m root a 0) \<longleftrightarrow>
        bit (vm_perm m it') k \<and> bit (vm_perm m it') 0" for k
      using here at(1-3) by (metis order_refl)
    show ?thesis
    proof (cases "?p AND PTE_P \<noteq> 0 \<and> entry_size it' < ?sz")
      case True
      have "unat ?sz < unat sz" using sz less.prems(3) by simp
      moreover have "?R' < unat ?sz" using True R' by (simp add: word_less_nat_alt)
      ultimately obtain r where r: "range_loop m it' ?sz ?p = Some r" "\<forall>p'. r = Inr p' \<longrightarrow> (\<forall>k. bit p' k \<and> bit p' 0 \<longleftrightarrow>
          bit ?p k \<and> bit ?p 0 \<and> (\<forall>a. ?B' + ?R' \<le> unat a \<and> unat a < E \<longrightarrow> allows m root a k \<and> allows m root a 0))"
        using less.hyps [of ?sz it' ?p] nxt(1) less.prems(2,5) E by blast
      have "(\<forall>a. ?B + ?R \<le> unat a \<and> unat a < E \<longrightarrow> X a) \<longleftrightarrow> (\<forall>a. ?B' \<le> unat a \<and> unat a < ?B' + ?R' \<and> unat a < E \<longrightarrow> X a) \<and>
          (\<forall>a. ?B' + ?R' \<le> unat a \<and> unat a < E \<longrightarrow> X a)" for X :: "u64 \<Rightarrow> bool"
        using at(2,4) by (auto simp: at(4)) (metis linorder_not_less)
      note split = this [of "\<lambda>a. allows m root a _ \<and> allows m root a 0"]
      have "range_loop m it sz p = Some r" using True Inr r(1) by (subst range_loop.simps) (simp add: Let_def)
      then show ?thesis using r(2) unfolding split first by (auto simp: bit_and_iff)
    next
      case False
      then have loop: "range_loop m it sz p = Some (Inr ?p)"
        using Inr by (subst range_loop.simps) (auto simp: Let_def returns_def)
      define A where "A k \<longleftrightarrow> (\<forall>a. ?B + ?R \<le> unat a \<and> unat a < E \<longrightarrow> allows m root a k \<and> allows m root a 0)" for k
      have "A k \<longleftrightarrow> bit (vm_perm m it') k \<and> bit (vm_perm m it') 0" if "bit ?p 0" for k
      proof -
        have "\<not> entry_size it' < ?sz" using False that by (simp add: bit_P)
        then have "E \<le> ?B' + ?R'" using E R' by (simp add: word_less_nat_alt)
        then have "?B' \<le> n \<and> n < ?B' + ?R' \<and> n < E \<longleftrightarrow> ?B + ?R \<le> n \<and> n < E" for n using at(4) by linarith
        then show ?thesis using first [of k] by (simp add: A_def)
      qed
      moreover have "\<not> A k" if "bit p 0" "\<not> bit ?p 0" for k
      proof -
        have "\<not> allows m root (it_va it') 0" using that here [of "it_va it'" 0] at(1,2) by (simp add: bit_and_iff)
        then show ?thesis using at by (auto simp: A_def)
      qed
      ultimately have "bit ?p k \<and> bit ?p 0 \<longleftrightarrow> bit p k \<and> bit p 0 \<and> A k" for k unfolding bit_and_iff by blast
      then show ?thesis using loop by (simp add: A_def)
    qed
  qed
qed

section \<open>Properties\<close>

lemma minus_one_word: "unat (-1 :: u64) = 2 ^ 64 - 1"
  by (simp only: unsigned_minus_1_eq_mask) (simp add: mask_eq_exp_minus_1)

lemma unat_minus_top: "2 ^ 63 \<le> unat x \<Longrightarrow> unat (- x) = 2 ^ 64 - unat x" for x :: u64
proof -
  assume x: "2 ^ 63 \<le> unat x"
  have "unat (-1 - x) = 2 ^ 64 - 1 - unat x" by (subst unat_minus_exact) (simp_all add: minus_one_word)
  moreover have "- x = (-1 - x) + 1" by simp
  moreover have "unat ((-1 - x) + 1) = unat (-1 - x) + 1" using x calculation(1) by (subst unat_plus_exact) simp_all
  moreover have "unat x < 2 ^ LENGTH(64)" by (rule unsigned_less)
  ultimately show ?thesis using x by simp
qed

lemma allows_present: "allows m root a k \<Longrightarrow> allows m root a 0"
proof -
  assume a: "allows m root a k"
  then have c: "va_is_canonical a" by (auto simp: allows_def mmu_def split: option.splits if_splits)
  have "stage m root a 0 = Some (root, initial_perm)" by (simp add: initial_perm_def)
  from down_loop_end [OF this] obtain d t q where s: "stage m root a d = Some (t, q)" "stage m root a (Suc d) = None" by blast
  have "bit q 0" using stage_perm_P [OF s(1)] bit_P [of q] by (simp add: PTE_P_def)
  then show ?thesis using a mmu_at_stage [OF s c] bit_P by (auto simp: allows_def Let_def bit_and_iff split: if_splits)
qed

text \<open>C22: \<open>range_perm\<close> returns, and its result is the intersection of the permissions of all addresses of the range, as the hardware's walk
gives them, when the range stays in the entry of its first address or is longer than that.\<close>

theorem range_perm_exact:
  assumes "moved m root it" "page_aligned root" "0 < sz" "unat (it_va it) + unat sz \<le> 2 ^ 64"
    and "entry_size it < sz \<or> unat (it_va it AND (entry_size it - 1)) + unat sz \<le> unat (entry_size it)"
  shows "\<exists>r. range_perm m sz it = Some r \<and> (\<forall>p. r = Inr p \<longrightarrow> (\<forall>k. bit p k \<longleftrightarrow>
    (\<forall>a. unat (it_va it) \<le> unat a \<and> unat a < unat (it_va it) + unat sz \<longrightarrow> allows m root a k)))"
proof -
  let ?va = "unat (it_va it)" let ?n = "12 + it_level it * 9" let ?B = "start_of (it_level it) (it_va it)" let ?p = "vm_perm m it"
  have end': "at_end m root it" by (rule moved_end [OF assms(1,2)])
  have l: "it_level it \<le> 3" by (rule at_end_level [OF end'])
  have R: "unat (entry_size it) = 2 ^ ?n" by (rule unat_entry_size [OF l])
  have "entry_size it - 1 = mask ?n" by (simp add: entry_size_def pageoffmask_mask)
  then have off: "unat (it_va it AND (entry_size it - 1)) = ?va mod 2 ^ ?n"
    by (simp only: take_bit_eq_mask [symmetric] unsigned_take_bit_eq) (simp only: take_bit_eq_mod)
  have B: "?B + ?va mod 2 ^ ?n = ?va" "?va < ?B + 2 ^ ?n" "?B = 0 \<or> 2 ^ ?n \<le> ?B"
    using mod_less_divisor [of "2 ^ ?n" ?va] div_mult_mod_eq [of ?va "2 ^ ?n"] by (simp_all add: start_of_def del: mod_less_divisor) linarith+
  have here: "allows m root a k \<longleftrightarrow> bit ?p k" if "?va \<le> unat a" "unat a < ?B + 2 ^ ?n" for a k
    using region_allows [OF end', of a k] that B(1) by simp
  consider "\<not> bit ?p 0" | "bit ?p 0" "\<not> entry_size it < sz" | "bit ?p 0" "entry_size it < sz" by blast
  then show ?thesis
  proof cases
    case 1
    then have "range_perm m sz it = Some (Inr 0)" by (simp add: range_perm_def Let_def returns_def bit_P)
    moreover have "\<not> allows m root (it_va it) k" for k using 1 allows_present here [of "it_va it"] B(2) by blast
    ultimately show ?thesis using assms(3) by (auto simp: word_less_nat_alt)
  next
    case 2
    then have "range_perm m sz it = Some (Inr ?p)" by (simp add: range_perm_def Let_def returns_def bit_P)
    moreover have "?va + unat sz \<le> ?B + 2 ^ ?n" using assms(5) 2 off R B(1) by simp
    moreover have "0 < unat sz" using assms(3) by (simp add: word_less_nat_alt)
    moreover have "allows m root a k \<longleftrightarrow> bit ?p k" if "?va \<le> unat a" "unat a < ?va + unat sz" for a k
      using here [of a k] that calculation(2) by simp
    then have "(\<forall>a. ?va \<le> unat a \<and> unat a < ?va + unat sz \<longrightarrow> allows m root a k) \<longleftrightarrow> bit ?p k" for k
      using calculation(3) by (metis less_add_same_cancel1 order_refl)
    ultimately show ?thesis by simp
  next
    case 3
    have canonical: "va_is_canonical (it_va it)"
      using here [of "it_va it" 0] B(2) 3(1) by (auto simp: allows_def mmu_def split: if_splits)
    define limit where "limit = (if sint (it_va it) < 0 then 0 else VA_LOWEND) - it_va it"
    have limit: "unat limit = (if 2 ^ 63 \<le> ?va then 2 ^ 64 - ?va else 2 ^ 47 - ?va) \<and> (2 ^ 63 \<le> ?va \<or> ?va < 2 ^ 47)"
    proof (cases "2 ^ 63 \<le> ?va")
      case True
      then have "unat (0 - it_va it) = 2 ^ 64 - ?va" by (simp add: unat_minus_top)
      then show ?thesis using True by (simp add: limit_def negative_iff)
    next
      case False
      then have "?va div 2 ^ 47 < 2 ^ 16" by (intro less_mult_imp_div_less) simp
      then have "?va div 2 ^ 47 = 0" using canonical unfolding canonical_nat by auto
      then have low: "?va < 2 ^ 47" by (simp add: div_eq_0_iff)
      then have "unat (VA_LOWEND - it_va it) = 2 ^ 47 - ?va" by (subst unat_minus_exact) (simp_all add: VA_LOWEND_def word_le_nat_alt)
      then show ?thesis using False low by (simp add: limit_def negative_iff)
    qed
    show ?thesis
    proof (cases "limit < sz")
      case True
      then have "range_perm m sz it = Some (Inr 0)" using 3 by (simp add: range_perm_def Let_def returns_def bit_P limit_def)
      moreover have "\<not> allows m root VA_LOWEND k" for k
        by (simp add: allows_def mmu_def va_is_canonical_def VA_LOWEND_def VA_LOWMAX_def VA_HIGHMIN_def)
      moreover have "?va \<le> unat VA_LOWEND" "unat VA_LOWEND < ?va + unat sz"
        using True limit assms(4) by (auto simp: word_less_nat_alt VA_LOWEND_def split: if_splits)
      ultimately show ?thesis by (auto intro!: exI [of _ VA_LOWEND])
    next
      case False
      let ?sz = "sz + (it_va it AND (entry_size it - 1))"
      have fits: "?va + unat sz \<le> 2 ^ 47 \<or> 2 ^ 63 \<le> ?va" using False limit by (auto simp: word_less_nat_alt split: if_splits)
      have "unat sz + ?va mod 2 ^ ?n < 2 ^ 64"
        using B assms(4) fits power_increasing [of ?n 39 "2 :: nat"] l by auto
      then have sz: "unat ?sz = unat sz + ?va mod 2 ^ ?n" using off by (subst unat_plus_exact) simp_all
      have "2 ^ ?n < unat ?sz" using 3(2) R sz by (simp add: word_less_nat_alt)
      moreover have "?B + unat ?sz = ?va + unat sz" using sz B(1) by simp
      ultimately obtain r where r: "range_loop m it ?sz ?p = Some r" "\<forall>p'. r = Inr p' \<longrightarrow> (\<forall>k. bit p' k \<and> bit p' 0 \<longleftrightarrow>
          bit ?p k \<and> bit ?p 0 \<and> (\<forall>a. ?B + 2 ^ ?n \<le> unat a \<and> unat a < ?va + unat sz \<longrightarrow> allows m root a k \<and> allows m root a 0))"
        using range_loop_exact [OF end' assms(2), of ?sz "?va + unat sz" ?p] assms(4) by auto
      have loop: "range_perm m sz it = rbind (Some r) (\<lambda>p. returns (if p AND PTE_P \<noteq> 0 then p else 0))"
        using 3 False r(1) by (simp add: range_perm_def Let_def bit_P limit_def)
      show ?thesis
      proof (cases r)
        case (Inr p')
        have "bit (if p' AND PTE_P \<noteq> 0 then p' else 0) k \<longleftrightarrow> bit p' k \<and> bit p' 0" for k by (simp add: bit_P)
        also have "\<dots> k \<longleftrightarrow> (\<forall>a. ?va \<le> unat a \<and> unat a < ?va + unat sz \<longrightarrow> allows m root a k)" for k
        proof -
          have "bit ?p k \<longleftrightarrow> (\<forall>a. ?va \<le> unat a \<and> unat a < ?B + 2 ^ ?n \<longrightarrow> allows m root a k)" using here B(2) by (metis order_refl)
          moreover have "bit ?p 0" by (rule 3(1))
          moreover have "?B + 2 ^ ?n < ?va + unat sz" using 3(2) R B(1) by (simp add: word_less_nat_alt)
          then have "(\<forall>a. ?va \<le> unat a \<and> unat a < ?va + unat sz \<longrightarrow> X a) \<longleftrightarrow>
              (\<forall>a. ?va \<le> unat a \<and> unat a < ?B + 2 ^ ?n \<longrightarrow> X a) \<and>
              (\<forall>a. ?B + 2 ^ ?n \<le> unat a \<and> unat a < ?va + unat sz \<longrightarrow> X a)" for X :: "u64 \<Rightarrow> bool"
            using B(2) by (meson le_trans less_or_eq_imp_le less_trans not_less)
          moreover have "allows m root a k \<and> allows m root a 0 \<longleftrightarrow> allows m root a k" for a using allows_present by blast
          moreover have "bit p' k \<and> bit p' 0 \<longleftrightarrow> bit ?p k \<and> bit ?p 0 \<and>
              (\<forall>a. ?B + 2 ^ ?n \<le> unat a \<and> unat a < ?va + unat sz \<longrightarrow> allows m root a k \<and> allows m root a 0)"
            using r(2) Inr by blast
          ultimately show ?thesis by simp
        qed
        finally show ?thesis using loop Inr by (simp add: returns_def)
      qed (use loop in simp)
    qed
  qed
qed

text \<open>A range over the three pages from \<open>0x5000\<close> on, of which the last is not mapped.\<close>

lemma range_perm_exact_witness:
  "range_perm sample_tables 0x2000 \<lparr>it_pt = 0x1000, it_pep = Some 0x4028, it_level = 0, it_perm = 0xFFF, it_va = 0x5000\<rparr> = Some (Inr 3) \<and>
   allows sample_tables 0x1000 0x6FFF 1"
proof -
  let ?it = "\<lparr>it_pt = 0x1000, it_pep = Some 0x4028, it_level = 0, it_perm = 0xFFF, it_va = 0x5000\<rparr>"
  have "vmiter_at sample_tables 0x1000 0x5000 = Inr ?it" by code_simp
  then have "moved sample_tables 0x1000 ?it" by (rule moved_start)
  moreover have "page_aligned 0x1000" by (simp add: page_aligned_def PAGESIZE_def)
  moreover have size: "entry_size ?it = 0x1000" by (simp add: entry_size_def pageoffmask_def)
  ultimately obtain r where r: "range_perm sample_tables 0x2000 ?it = Some r" "\<forall>p. r = Inr p \<longrightarrow>
      (\<forall>k. bit p k \<longleftrightarrow> (\<forall>a. unat (it_va ?it) \<le> unat a \<and> unat a < unat (it_va ?it) + unat (0x2000 :: u64) \<longrightarrow>
        allows sample_tables 0x1000 a k))"
    using range_perm_exact [of sample_tables "0x1000" ?it "0x2000"] by auto
  let ?it' = "\<lparr>it_pt = 0x1000, it_pep = Some 0x4030, it_level = 0, it_perm = 0xFFF, it_va = 0x6000\<rparr>"
  have step: "next_range sample_tables ?it = Inr ?it'" "vm_perm sample_tables ?it = 7" "vm_perm sample_tables ?it' = 3" by code_simp+
  have "entry_size ?it' = 0x1000" by (simp add: entry_size_def pageoffmask_def)
  then have "range_loop sample_tables ?it 0x2000 7 = Some (Inr 3)"
    using step size by (subst range_loop.simps) (simp add: Let_def returns_def)
  then have perm: "range_perm sample_tables 0x2000 ?it = Some (Inr 3)"
    using step size by (simp add: range_perm_def Let_def returns_def PTE_P_def VA_LOWEND_def)
  with r(1) have "r = Inr 3" by simp
  with r(2) have "bit (3 :: u64) 1 \<longleftrightarrow> (\<forall>a. unat (it_va ?it) \<le> unat a \<and> unat a < unat (it_va ?it) + unat (0x2000 :: u64) \<longrightarrow>
      allows sample_tables 0x1000 a 1)" by blast
  moreover have "bit (3 :: u64) 1" by simp
  ultimately have "unat (it_va ?it) \<le> unat (0x6FFF :: u64) \<and> unat (0x6FFF :: u64) < unat (it_va ?it) + unat (0x2000 :: u64) \<longrightarrow>
      allows sample_tables 0x1000 0x6FFF 1" by blast
  then show ?thesis using perm by simp
qed

text \<open>C38: a range no longer than what the entry of its first address covers: \<open>range_perm\<close> looks at that entry only. When the range
reaches over the end of the entry to an address \<open>a\<close> without a permission that the first address has, the result has it all the same,
though it is meant for the whole range.\<close>

theorem range_perm_misses_page:
  assumes "moved m root it" "page_aligned root" "sz \<le> entry_size it"
    and "unat (it_va it) \<le> unat a" "unat a < unat (it_va it) + unat sz"
    and "allows m root (it_va it) k" "\<not> allows m root a k"
  shows "\<exists>p. range_perm m sz it = Some (Inr p) \<and> bit p k \<and> (\<forall>j. bit p j \<longleftrightarrow> allows m root (it_va it) j) \<and>
    unat (entry_size it) < unat (it_va it AND (entry_size it - 1)) + unat sz"
proof -
  let ?va = "unat (it_va it)" let ?n = "12 + it_level it * 9" let ?B = "start_of (it_level it) (it_va it)"
  have end': "at_end m root it" by (rule moved_end [OF assms(1,2)])
  have R: "unat (entry_size it) = 2 ^ ?n" by (rule unat_entry_size [OF at_end_level [OF end']])
  have "entry_size it - 1 = mask ?n" by (simp add: entry_size_def pageoffmask_mask)
  then have off: "unat (it_va it AND (entry_size it - 1)) = ?va mod 2 ^ ?n"
    by (simp only: take_bit_eq_mask [symmetric] unsigned_take_bit_eq) (simp only: take_bit_eq_mod)
  have B: "?B + ?va mod 2 ^ ?n = ?va" using div_mult_mod_eq [of ?va "2 ^ ?n"] by (simp only: start_of_def)
  have "?B + 2 ^ ?n \<le> unat a"
  proof (rule ccontr)
    assume "\<not> ?B + 2 ^ ?n \<le> unat a"
    then have "allows m root a k" using region_allows [OF end', of a k] allows_iterator [OF end', of k] assms(4,6) B by simp
    with assms(7) show False ..
  qed
  then have "2 ^ ?n < ?va mod 2 ^ ?n + unat sz" using assms(5) B by linarith
  moreover have bit: "bit (vm_perm m it) 0" using allows_iterator [OF end'] allows_present [OF assms(6)] by simp
  have "\<not> entry_size it < sz" using assms(3) by simp
  then have "range_perm m sz it = Some (Inr (vm_perm m it))" using bit by (simp add: range_perm_def Let_def returns_def bit_P)
  ultimately show ?thesis using allows_iterator [OF end'] assms(6) off R by auto
qed

text \<open>The 16 bytes from \<open>0x6FF8\<close> on: the last 8 of them are not mapped, and \<open>range_perm\<close> reports that they can be written.\<close>

lemma range_perm_misses_page_witness:
  "\<exists>it p. vmiter_at sample_tables 0x1000 0x6FF8 = Inr it \<and> range_perm sample_tables 16 it = Some (Inr p) \<and> bit p 1 \<and>
    mmu sample_tables 0x1000 0x7000 = None"
proof -
  let ?it = "\<lparr>it_pt = 0x1000, it_pep = Some 0x4030, it_level = 0, it_perm = 0xFFF, it_va = 0x6FF8\<rparr>"
  have at: "vmiter_at sample_tables 0x1000 0x6FF8 = Inr ?it" by code_simp
  have none: "mmu sample_tables 0x1000 0x7000 = None" by code_simp
  have some: "allows sample_tables 0x1000 0x6FF8 1" by code_simp
  have "moved sample_tables 0x1000 ?it" using at by (rule moved_start)
  moreover have "page_aligned 0x1000" by (simp add: page_aligned_def PAGESIZE_def)
  moreover have "(16 :: u64) \<le> entry_size ?it" by (simp add: entry_size_def pageoffmask_def)
  moreover have "allows sample_tables 0x1000 (it_va ?it) 1" using some by simp
  moreover have "\<not> allows sample_tables 0x1000 0x7000 1" using none by (simp add: allows_def)
  ultimately obtain p where "range_perm sample_tables 16 ?it = Some (Inr p)" "bit p 1"
    using range_perm_misses_page [of sample_tables "0x1000" ?it 16 "0x7000" 1] by auto
  with at none show ?thesis by blast
qed

end
