(* ===== verification/PtIter.thy ===== *)
theory PtIter
  imports RangePerm TableUpdate
begin

text \<open>
  \<open>ptiter\<close> of \<open>project04a-wduan/k-vmiter.cc\<close> and \<open>k-vmiter.hh\<close>: an iterator over the pages that hold a page table. It keeps no stack: when
  it leaves a table it walks down again from the root to the entry that led there. It visits every table once, each after the
  tables below it.
\<close>

section \<open>The iterator\<close>

definition VA_NONCANONMAX :: u64 where "VA_NONCANONMAX = 0x0000FFFFFFFFFFFF"

record ptiter =
  pi_pt :: u64
  pi_pep :: u64
  pi_level :: nat
  pi_va :: u64

text \<open>The loop of \<open>ptiter::down\<close>.\<close>

partial_function (option) pt_down :: "memory \<Rightarrow> nat \<Rightarrow> bool \<Rightarrow> ptiter \<Rightarrow> ptiter option" where
  "pt_down m stop_level skip it =
     (let e = m (pi_pep it) in
      if e AND (PTE_P OR PTE_PS) = PTE_P \<and> \<not> skip then
        if pi_level it = stop_level then Some it
        else
          let level = pi_level it - 1 in
          pt_down m stop_level skip
            (it\<lparr>pi_level := level, pi_pep := (e AND PTE_PAMASK) + 8 * pageindex (pi_va it) level\<rparr>)
      else
        let va = (pi_va it OR pageoffmask (pi_level it)) + 1 in
        if (va XOR pi_va it) AND NOT (pageoffmask (pi_level it + 1)) \<noteq> 0 then
          if pi_level it = 3 then Some (it\<lparr>pi_va := VA_NONCANONMAX + 1\<rparr>)
          else pt_down m (pi_level it + 1) False (it\<lparr>pi_level := 3, pi_pep := pi_pt it + 8 * pageindex (pi_va it) 3\<rparr>)
        else pt_down m stop_level False (it\<lparr>pi_pep := pi_pep it + 8, pi_va := va\<rparr>))"

definition ptiter_at :: "memory \<Rightarrow> u64 \<Rightarrow> ptiter option" where
  "ptiter_at m pt = pt_down m 1 False \<lparr>pi_pt = pt, pi_pep = pt + 8 * pageindex 0 3, pi_level = 3, pi_va = 0\<rparr>"

definition pt_next :: "memory \<Rightarrow> ptiter \<Rightarrow> ptiter option" where
  "pt_next m it = pt_down m 1 True it"

definition pt_done :: "ptiter \<Rightarrow> bool" where
  "pt_done it \<longleftrightarrow> pi_va it > VA_NONCANONMAX"

definition pt_va :: "ptiter \<Rightarrow> u64" where
  "pt_va it = pi_va it AND NOT (pageoffmask (pi_level it))"

definition pt_level :: "ptiter \<Rightarrow> nat" where
  "pt_level it = pi_level it - 1"

definition pt_pa :: "memory \<Rightarrow> ptiter \<Rightarrow> u64" where
  "pt_pa m it = m (pi_pep it) AND PTE_PAMASK"

text \<open>What a loop over an iterator sees: \<open>for (ptiter it(pt); !it.done(); it.next())\<close>, from a given iterator on.\<close>

partial_function (option) pt_visits :: "memory \<Rightarrow> ptiter \<Rightarrow> (u64 \<times> nat \<times> u64) list option" where
  "pt_visits m it =
     (if pt_done it then Some []
      else Option.bind (pt_next m it) (\<lambda>it'.
        Option.bind (pt_visits m it') (\<lambda>xs. Some ((pt_va it, pt_level it, pt_pa m it) # xs))))"

section \<open>The tables below a table\<close>

text \<open>Entry \<open>i\<close> of the table number \<open>j\<close> of its level covers the addresses from \<open>entry_va\<close> on. The tables below a table at \<open>t\<close>, each with
the address from which it is used, its level and where it is, after those below it.\<close>

definition entry_va :: "nat \<Rightarrow> nat \<Rightarrow> u64" where
  "entry_va l k = of_nat (k * 2 ^ (12 + l * 9))"

fun page_tables :: "memory \<Rightarrow> nat \<Rightarrow> u64 \<Rightarrow> nat \<Rightarrow> (u64 \<times> nat \<times> u64) list" where
  "page_tables m 0 t j = []"
| "page_tables m (Suc l) t j =
     concat (map (\<lambda>i.
       let e = m (t + 8 * of_nat i); k = 512 * j + i in
       if descends (Suc l) e then page_tables m l (e AND PTE_PAMASK) k @ [(entry_va (Suc l) k, l, e AND PTE_PAMASK)]
       else []) [0..<512])"

text \<open>What one entry contributes.\<close>

definition entry_tables :: "memory \<Rightarrow> nat \<Rightarrow> u64 \<Rightarrow> nat \<Rightarrow> nat \<Rightarrow> (u64 \<times> nat \<times> u64) list" where
  "entry_tables m l t j i =
     (let e = m (t + 8 * of_nat i); k = 512 * j + i in
      if descends l e then page_tables m (l - 1) (e AND PTE_PAMASK) k @ [(entry_va l k, l - 1, e AND PTE_PAMASK)] else [])"

lemma page_tables_entries: "0 < l \<Longrightarrow> page_tables m l t j = concat (map (entry_tables m l t j) [0..<512])"
proof (cases l)
  case (Suc n)
  show ?thesis unfolding Suc page_tables.simps entry_tables_def diff_Suc_1 ..
qed simp

section \<open>Steps of the iterator\<close>

text \<open>The iterator at the entry for \<open>va\<close> of the table \<open>t\<close> at level \<open>l\<close>, and what is visited when it moves on from there.\<close>

abbreviation pi_at :: "u64 \<Rightarrow> nat \<Rightarrow> u64 \<Rightarrow> u64 \<Rightarrow> ptiter" where
  "pi_at root l t va \<equiv> \<lparr>pi_pt = root, pi_pep = slot t va l, pi_level = l, pi_va = va\<rparr>"

definition visits_from :: "memory \<Rightarrow> nat \<Rightarrow> bool \<Rightarrow> ptiter \<Rightarrow> (u64 \<times> nat \<times> u64) list option" where
  "visits_from m stop skip it = Option.bind (pt_down m stop skip it) (pt_visits m)"

text \<open>The number of the entry that covers an address, and the addresses that can come up.\<close>

abbreviation entry_no :: "nat \<Rightarrow> u64 \<Rightarrow> nat" where
  "entry_no l va \<equiv> unat va div 2 ^ (12 + l * 9)"

lemma unat_entry_va: "k * 2 ^ (12 + l * 9) < 2 ^ 64 \<Longrightarrow> unat (entry_va l k) = k * 2 ^ (12 + l * 9)"
  unfolding entry_va_def by (simp only: unat_of_nat) simp

lemma entry_no_lt: "unat va < 2 ^ 48 \<Longrightarrow> l \<le> 3 \<Longrightarrow> entry_no l va * 2 ^ (12 + l * 9) < 2 ^ 48"
  using le_less_trans [OF div_times_less_eq_dividend] by blast

lemma entry_no_up: "entry_no (l + 1) va = entry_no l va div 512"
  by (simp add: div_mult2_eq [symmetric] power_add)

lemma next_entry:
  assumes "l \<le> 3" "unat va < 2 ^ 48"
  shows "(va OR pageoffmask l) + 1 = entry_va l (entry_no l va + 1)"
    "unat (entry_va l (entry_no l va + 1)) = (entry_no l va + 1) * 2 ^ (12 + l * 9)"
proof -
  let ?n = "12 + l * 9"
  have small: "(entry_no l va + 1) * 2 ^ ?n < 2 ^ 64"
    using entry_no_lt [OF assms(2,1)] power_increasing [of ?n 39 "2 :: nat"] assms(1) by simp
  show u: "unat (entry_va l (entry_no l va + 1)) = (entry_no l va + 1) * 2 ^ ?n" by (rule unat_entry_va [OF small])
  have "unat (va OR mask ?n) = entry_no l va * 2 ^ ?n + (2 ^ ?n - 1)" using assms(1) by (intro unat_or_mask) simp
  then have "unat ((va OR mask ?n) + 1) = (entry_no l va + 1) * 2 ^ ?n" using small by (subst unat_plus_exact) simp_all
  then show "(va OR pageoffmask l) + 1 = entry_va l (entry_no l va + 1)" using u by (simp add: word_unat_eq_iff pageoffmask_mask)
qed

lemma crosses_iff:
  assumes "l \<le> 3" "unat va < 2 ^ 48"
  shows "(((va OR pageoffmask l) + 1) XOR va) AND NOT (pageoffmask (l + 1)) \<noteq> 0 \<longleftrightarrow> entry_no l va mod 512 = 511"
proof -
  have "entry_no (l + 1) (entry_va l (entry_no l va + 1)) = (entry_no l va + 1) div 512"
    unfolding entry_no_up unfolding next_entry(2) [OF assms] by simp
  moreover have "(entry_no l va + 1) div 512 = entry_no l va div 512 \<longleftrightarrow> entry_no l va mod 512 \<noteq> 511"
    by (simp add: div_Suc mod_Suc) 
  ultimately show ?thesis
    by (simp only: next_entry(1) [OF assms] agree_iff drop_bit_nat entry_no_up [of va l]) blast
qed

text \<open>Down to the next table; a visit; on to the next entry; the end of a table.\<close>

lemma visits_down:
  assumes "descends l (m (slot t va l))" "l \<noteq> stop"
  shows "visits_from m stop False (pi_at root l t va) =
    visits_from m stop False (pi_at root (l - 1) (m (slot t va l) AND PTE_PAMASK) va)"
  using assms unfolding visits_from_def
  by (subst (1) pt_down.simps) (simp add: descends_def slot_def Let_def)

lemma not_done: "unat va < 2 ^ 48 \<Longrightarrow> \<not> pt_done (pi_at root l t va)"
  by (simp add: pt_done_def VA_NONCANONMAX_def word_less_nat_alt)

lemma va_of_entry:
  assumes "l \<le> 3"
  shows "va AND NOT (pageoffmask l) = entry_va l (entry_no l va)"
proof -
  have "va AND NOT (pageoffmask l) = push_bit (12 + l * 9) (drop_bit (12 + l * 9) va)"
    unfolding pageoffmask_mask by (rule bit_eqI) (auto simp: bit_simps)
  also have "\<dots> = of_nat (unat (drop_bit (12 + l * 9) va)) * 2 ^ (12 + l * 9)" by (simp add: push_bit_eq_mult)
  finally show ?thesis by (simp only: unat_drop entry_va_def of_nat_mult of_nat_power of_nat_numeral)
qed

lemma visits_visit:
  assumes "descends l (m (slot t va l))" "l \<le> 3" "unat va < 2 ^ 48"
  shows "visits_from m l False (pi_at root l t va) =
    map_option (Cons (entry_va l (entry_no l va), l - 1, m (slot t va l) AND PTE_PAMASK)) (visits_from m 1 True (pi_at root l t va))"
proof -
  have "visits_from m l False (pi_at root l t va) = pt_visits m (pi_at root l t va)"
    using assms(1) unfolding visits_from_def by (subst pt_down.simps) (simp add: descends_def Let_def)
  also have "\<dots> = Option.bind (visits_from m 1 True (pi_at root l t va))
      (\<lambda>xs. Some ((entry_va l (entry_no l va), l - 1, m (slot t va l) AND PTE_PAMASK) # xs))"
    using not_done [OF assms(3)] va_of_entry [OF assms(2)]
    by (subst pt_visits.simps) (simp add: pt_next_def visits_from_def pt_va_def pt_level_def pt_pa_def)
  finally show ?thesis by (simp add: map_option_case split: bind_splits)
qed

lemma visits_on:
  assumes "skip \<or> \<not> descends l (m (slot t va l))" "0 < l" "l \<le> 3" "unat va < 2 ^ 48" "entry_no l va mod 512 \<noteq> 511"
  shows "visits_from m stop skip (pi_at root l t va) = visits_from m stop False (pi_at root l t (entry_va l (entry_no l va + 1)))"
proof -
  have "unat (pageindex (entry_va l (entry_no l va + 1)) l) = unat (pageindex va l) + 1"
    unfolding unat_pageindex next_entry(2) [OF assms(3,4)] using assms(5) by (simp add: mod_Suc)
  then have "pageindex (entry_va l (entry_no l va + 1)) l = pageindex va l + 1"
    using pageindex_nat [of va l] by (simp add: word_unat_eq_iff unat_plus_exact)
  then have "slot t (entry_va l (entry_no l va + 1)) l = slot t va l + 8" by (simp add: slot_def algebra_simps)
  moreover have "\<not> (((va OR pageoffmask l) + 1) XOR va) AND NOT (pageoffmask (l + 1)) \<noteq> 0"
    using assms(5) by (simp only: crosses_iff [OF assms(3,4)] not_False_eq_True)
  ultimately show ?thesis using assms(1,2) next_entry(1) [OF assms(3,4)] unfolding visits_from_def
    by (subst pt_down.simps) (auto simp: descends_def Let_def)
qed

text \<open>After the last entry of a table: the end, or down from the root again, to the entry for the table.\<close>

definition visits_after :: "memory \<Rightarrow> u64 \<Rightarrow> nat \<Rightarrow> u64 \<Rightarrow> (u64 \<times> nat \<times> u64) list option" where
  "visits_after m root l va = (if l = 3 then Some [] else visits_from m (l + 1) False (pi_at root 3 root va))"

lemma visits_end:
  assumes "skip \<or> \<not> descends l (m (slot t va l))" "0 < l" "l \<le> 3" "unat va < 2 ^ 48" "entry_no l va mod 512 = 511"
  shows "visits_from m stop skip (pi_at root l t va) = visits_after m root l va"
proof -
  have "(((va OR pageoffmask l) + 1) XOR va) AND NOT (pageoffmask (l + 1)) \<noteq> 0"
    using assms(5) by (simp only: crosses_iff [OF assms(3,4)])
  moreover have "pt_visits m it = Some []" if "pi_va it = VA_NONCANONMAX + 1" for it
    using that by (subst pt_visits.simps) (simp add: pt_done_def VA_NONCANONMAX_def)
  ultimately show ?thesis using assms(1,2) unfolding visits_from_def visits_after_def
    by (subst pt_down.simps) (auto simp: descends_def Let_def slot_def)
qed

text \<open>Down from the root again.\<close>

lemma visits_again:
  assumes "stage m root va d = Some (t, q)" "d + stop \<le> 3"
  shows "visits_from m stop False (pi_at root 3 root va) = visits_from m stop False (pi_at root (3 - d) t va)"
  using assms
proof (induction d arbitrary: t q)
  case (Suc d)
  then obtain t' q' where s: "stage m root va d = Some (t', q')" and e: "descends (3 - d) (m (slot t' va (3 - d)))"
    "t = m (slot t' va (3 - d)) AND PTE_PAMASK" by (auto simp: Let_def split: option.splits if_splits)
  have "3 - d \<noteq> stop" "3 - d - 1 = 3 - Suc d" using Suc.prems(2) by simp_all
  then show ?case using Suc.IH [OF s] Suc.prems(2) visits_down [of "3 - d" m t' va, OF e(1)] e(2) by simp
qed simp

section \<open>Scanning a table\<close>

text \<open>The walk to a table depends on the number of the table in its level only.\<close>

lemma stage_number:
  assumes "entry_no (l + 1) va = entry_no (l + 1) va'" "l \<le> 3"
  shows "stage m root va (3 - l) = stage m root va' (3 - l)"
proof -
  have "drop_bit (12 + (l + 1) * 9) va = drop_bit (12 + (l + 1) * 9) va'" using assms(1) by (simp only: drop_bit_nat)
  from agree_same_path [OF this] show ?thesis using assms(2) by (intro same_path_stage) simp
qed

lemma slot_number: "entry_no l va mod 512 = i \<Longrightarrow> slot t va l = t + 8 * of_nat i"
proof -
  assume "entry_no l va mod 512 = i"
  then have "unat (pageindex va l) = i" by (simp add: unat_pageindex)
  then have "pageindex va l = of_nat i" by auto
  then show ?thesis by (simp add: slot_def)
qed

lemma append_visits:
  "map_option ((@) []) x = x" "map_option ((@) ys) (map_option ((@) zs) x) = map_option ((@) (ys @ zs)) x"
  "map_option (Cons y) x = map_option ((@) [y]) x"
  by (cases x; simp)+

text \<open>What is visited from the entry \<open>i\<close> of the table number \<open>j\<close> on: the tables of the entries that are left, then what comes after the table.\<close>

definition scans :: "memory \<Rightarrow> u64 \<Rightarrow> nat \<Rightarrow> bool" where
  "scans m root l \<longleftrightarrow> (\<forall>t q j i. stage m root (entry_va l (512 * j + i)) (3 - l) = Some (t, q) \<longrightarrow> i < 512 \<longrightarrow> j < 512 ^ (3 - l) \<longrightarrow>
     (\<exists>v. entry_no (l + 1) v = j \<and> unat v < 2 ^ 48 \<and>
       visits_from m 1 False (pi_at root l t (entry_va l (512 * j + i))) =
         map_option ((@) (concat (map (entry_tables m l t j) [i..<512]))) (visits_after m root l v)))"

lemma entry_room:
  fixes i j :: nat
  assumes "j < 512 ^ (3 - l)" "i < 512" "l \<le> 3"
  shows "(512 * j + i) * 2 ^ (12 + l * 9) < 2 ^ 48" "512 * j + i < 512 ^ (4 - l)"
proof -
  have "l = 0 \<or> l = 1 \<or> l = 2 \<or> l = 3" using assms(3) by linarith
  then have "(512 * j + i) * 2 ^ (12 + l * 9) < 2 ^ 48 \<and> 512 * j + i < 512 ^ (4 - l)"
    using assms(1,2) by (elim disjE) simp_all
  then show "(512 * j + i) * 2 ^ (12 + l * 9) < 2 ^ 48" "512 * j + i < 512 ^ (4 - l)" by blast+
qed

text \<open>The visit of one entry, with everything below it.\<close>

lemma entry_visit:
  assumes below: "1 < l \<Longrightarrow> scans m root (l - 1)" and l: "0 < l" "l \<le> 3"
    and s: "stage m root (entry_va l (512 * j + i)) (3 - l) = Some (t, q)" and i: "i < 512" and j: "j < 512 ^ (3 - l)"
  shows "\<exists>v skip. entry_no l v = 512 * j + i \<and> unat v < 2 ^ 48 \<and> (skip \<or> \<not> descends l (m (slot t v l))) \<and>
    visits_from m 1 False (pi_at root l t (entry_va l (512 * j + i))) =
      map_option ((@) (entry_tables m l t j i)) (visits_from m 1 skip (pi_at root l t v))"
proof -
  let ?k = "512 * j + i" let ?va = "entry_va l ?k"
  note room = entry_room [OF j i l(2)]
  have va: "unat ?va = ?k * 2 ^ (12 + l * 9)" using room(1) by (intro unat_entry_va) simp
  have no: "entry_no l ?va = ?k" "unat ?va < 2 ^ 48" using va room(1) by simp_all
  have slot: "slot t v l = t + 8 * of_nat i" if "entry_no l v = ?k" for v using that i by (intro slot_number) simp
  show ?thesis
  proof (cases "descends l (m (slot t ?va l))")
    case False
    then have "entry_tables m l t j i = []" using slot [OF no(1)] by (simp add: entry_tables_def)
    then show ?thesis using False no by (intro exI [of _ ?va] exI [of _ False]) (simp add: append_visits)
  next
    case True
    let ?e = "m (slot t ?va l)"
    show ?thesis
    proof (cases "l = 1")
      case True
      with \<open>descends l ?e\<close> show ?thesis
        using visits_visit [of l m t ?va root] no slot [OF no(1)]
        by (intro exI [of _ ?va] exI [of _ True]) (simp add: entry_tables_def Let_def append_visits(3))
    next
      case False
      then have l2: "1 < l" using l(1) by simp
      let ?t = "?e AND PTE_PAMASK"
      have l': "3 - (l - 1) = Suc (3 - l)" "3 - (3 - l) = l" "l - 1 + 1 = l" "4 - l = 3 - (l - 1)" using l l2 by simp_all
      have va': "entry_va (l - 1) (512 * ?k + 0) = ?va"
      proof -
        have "(2 :: nat) ^ (12 + l * 9) = 512 * 2 ^ (12 + (l - 1) * 9)" using l2 by (cases l) (simp_all add: power_add)
        then have "(512 * ?k + 0) * 2 ^ (12 + (l - 1) * 9) = ?k * 2 ^ (12 + l * 9)" by simp
        then show "entry_va (l - 1) (512 * ?k + 0) = ?va" by (simp only: entry_va_def)
      qed
      have st: "stage m root ?va (3 - (l - 1)) = Some (?t, below q ?e)" unfolding l'(1) using s True l'(2) by (simp add: Let_def)
      have pt: "page_tables m (l - 1) ?t ?k = concat (map (entry_tables m (l - 1) ?t ?k) [0..<512])"
        using l2 by (intro page_tables_entries) simp
      from below [OF l2, unfolded scans_def, rule_format, of ?k 0 ?t "below q ?e", unfolded va' l'(3), OF st zero_less_numeral
          room(2) [unfolded l'(4)]]
      obtain v where v: "entry_no l v = ?k" "unat v < 2 ^ 48" and scan: "visits_from m 1 False (pi_at root (l - 1) ?t ?va) =
          map_option ((@) (page_tables m (l - 1) ?t ?k)) (visits_after m root (l - 1) v)"
        unfolding pt by blast
      have up: "entry_no (l + 1) v = entry_no (l + 1) ?va" unfolding entry_no_up v(1) no(1) ..
      have sv: "stage m root v (3 - l) = Some (t, q)" using stage_number [OF up l(2), of m root] s by (simp only:)
      have e: "m (slot t v l) = ?e" using slot [OF v(1)] slot [OF no(1)] by simp
      have "visits_after m root (l - 1) v = visits_from m l False (pi_at root 3 root v)" using l l'(3) by (simp add: visits_after_def)
      also have "\<dots> = visits_from m l False (pi_at root l t v)" using visits_again [OF sv, of l] l l'(2) by simp
      also have "\<dots> = map_option (Cons (entry_va l ?k, l - 1, ?t)) (visits_from m 1 True (pi_at root l t v))"
        using visits_visit [of l m t v root] True l(2) v e by simp
      finally have "visits_from m 1 False (pi_at root l t ?va) =
          map_option ((@) (page_tables m (l - 1) ?t ?k @ [(entry_va l ?k, l - 1, ?t)])) (visits_from m 1 True (pi_at root l t v))"
        using visits_down [of l m t ?va 1 root] True False scan by (simp add: append_visits)
      then show ?thesis using v True slot [OF no(1)] by (intro exI [of _ v] exI [of _ True]) (simp add: entry_tables_def Let_def)
    qed
  qed
qed

lemma scan_table:
  assumes below: "1 < l \<Longrightarrow> scans m root (l - 1)" and l: "0 < l" "l \<le> 3"
  shows "scans m root l"
  unfolding scans_def
proof (intro allI impI)
  fix t q j i
  assume "stage m root (entry_va l (512 * j + i)) (3 - l) = Some (t, q)" "i < 512" "j < 512 ^ (3 - l)"
  then show "\<exists>v. entry_no (l + 1) v = j \<and> unat v < 2 ^ 48 \<and>
      visits_from m 1 False (pi_at root l t (entry_va l (512 * j + i))) =
        map_option ((@) (concat (map (entry_tables m l t j) [i..<512]))) (visits_after m root l v)"
  proof (induction "511 - i" arbitrary: i)
    case 0
    then have i: "i = 511" by simp
    from entry_visit [OF below l 0(2-4)] obtain v skip where v: "entry_no l v = 512 * j + i" "unat v < 2 ^ 48"
      "skip \<or> \<not> descends l (m (slot t v l))" "visits_from m 1 False (pi_at root l t (entry_va l (512 * j + i))) =
        map_option ((@) (entry_tables m l t j i)) (visits_from m 1 skip (pi_at root l t v))" by blast
    have "entry_no (l + 1) v = j" using v(1) i by (simp only: entry_no_up)
    then show ?case using visits_end [of skip l m t v, OF v(3) l v(2)] v i by (intro exI [of _ v]) simp
  next
    case (Suc n)
    then have i: "Suc i < 512" "n = 511 - Suc i" "[i..<512] = i # [Suc i..<512]" by (simp_all add: upt_conv_Cons)
    from entry_visit [OF below l Suc(3-5)] obtain v skip where v: "entry_no l v = 512 * j + i" "unat v < 2 ^ 48"
      "skip \<or> \<not> descends l (m (slot t v l))" "visits_from m 1 False (pi_at root l t (entry_va l (512 * j + i))) =
        map_option ((@) (entry_tables m l t j i)) (visits_from m 1 skip (pi_at root l t v))" by blast
    have "entry_no l v mod 512 = i" using v(1) Suc(4) by simp
    then have on: "visits_from m 1 skip (pi_at root l t v) = visits_from m 1 False (pi_at root l t (entry_va l (512 * j + Suc i)))"
      using visits_on [of skip l m t v, OF v(3) l v(2)] v(1) i(1) by simp
    have "entry_no l (entry_va l (512 * j + i')) = 512 * j + i'" if "i' < 512" for i'
      using entry_room(1) [OF Suc(5) that l(2)] by (subst unat_entry_va) simp_all
    then have "entry_no (l + 1) (entry_va l (512 * j + Suc i)) = entry_no (l + 1) (entry_va l (512 * j + i))"
      using i(1) by (simp only: entry_no_up) simp
    from stage_number [OF this l(2)] Suc(3) have "stage m root (entry_va l (512 * j + Suc i)) (3 - l) = Some (t, q)" by simp
    from Suc(1) [OF i(2) this i(1) Suc(5)] on v(4) i(3) show ?case by (auto simp: append_visits(2))
  qed
qed

lemma scan_all: "0 < l \<Longrightarrow> l \<le> 3 \<Longrightarrow> scans m root l"
proof (induction l)
  case (Suc l)
  then show ?case by (cases l) (rule scan_table, simp_all)+
qed simp

text \<open>What is visited are tables that walks lead to.\<close>

lemma page_tables_reached:
  assumes "x \<in> set (page_tables m l t j)" "l \<le> 3" "j < 512 ^ (3 - l)"
    and "\<And>i. i < 512 \<Longrightarrow> \<exists>q. stage m root (entry_va l (512 * j + i)) (3 - l) = Some (t, q)"
  shows "snd (snd x) \<in> tables m root"
  using assms
proof (induction l arbitrary: t j)
  case (Suc l)
  then obtain i where i: "i < 512" "x \<in> set (entry_tables m (Suc l) t j i)" by (auto simp only: page_tables_entries zero_less_Suc set_concat set_map set_upt) auto
  let ?k = "512 * j + i" let ?e = "m (t + 8 * of_nat i)"
  obtain q where s: "stage m root (entry_va (Suc l) ?k) (3 - Suc l) = Some (t, q)" using Suc.prems(4) [OF i(1)] by blast
  note room = entry_room [OF Suc.prems(3) i(1) Suc.prems(2)]
  have no: "entry_no (Suc l) (entry_va (Suc l) ?k) = ?k" using room(1) by (subst unat_entry_va) simp_all
  then have slot: "slot t (entry_va (Suc l) ?k) (Suc l) = t + 8 * of_nat i" using i(1) by (intro slot_number) simp
  have l: "3 - l = Suc (3 - Suc l)" "3 - (3 - Suc l) = Suc l" "4 - Suc l = 3 - l" using Suc.prems(2) by simp_all
  have e: "descends (Suc l) ?e" using i(2) by (simp add: entry_tables_def Let_def split: if_splits)
  have st: "stage m root (entry_va (Suc l) ?k) (3 - l) = Some (?e AND PTE_PAMASK, below q ?e)"
    unfolding l(1) using s e slot l(2) by (simp add: Let_def)
  have down: "\<exists>q. stage m root (entry_va l (512 * ?k + i')) (3 - l) = Some (?e AND PTE_PAMASK, q)" if "i' < 512" for i'
  proof -
    have "?k < 512 ^ (3 - l)" using room(2) by (simp only: l(3))
    from entry_room(1) [OF this that] Suc.prems(2) have "entry_no l (entry_va l (512 * ?k + i')) = 512 * ?k + i'"
      by (subst unat_entry_va) simp_all
    then have "entry_no (l + 1) (entry_va l (512 * ?k + i')) = ?k" using that by (simp only: entry_no_up) simp
    also have "?k = entry_no (l + 1) (entry_va (Suc l) ?k)" using no by simp
    finally have "stage m root (entry_va l (512 * ?k + i')) (3 - l) = stage m root (entry_va (Suc l) ?k) (3 - l)"
      using Suc.prems(2) by (intro stage_number) simp_all
    then show ?thesis using st by simp
  qed
  from i(2) e consider "x \<in> set (page_tables m l (?e AND PTE_PAMASK) ?k)" | "snd (snd x) = ?e AND PTE_PAMASK"
    by (auto simp: entry_tables_def Let_def simp del: page_tables.simps)
  then show ?case
  proof cases
    case 1
    have "l \<le> 3" "?k < 512 ^ (3 - l)" using Suc.prems(2) room(2) by (simp_all only: l(3))
    from Suc.IH [OF 1 this down] show ?thesis .
  next
    case 2
    then show ?thesis using tablesI [OF st] by simp
  qed
qed simp

lemma visited_tables: "x \<in> set (page_tables m 3 root 0) \<Longrightarrow> snd (snd x) \<in> tables m root"
proof (rule page_tables_reached [where l = 3 and t = root and j = 0])
  show "\<exists>q. stage m root (entry_va 3 (512 * 0 + i)) (3 - 3) = Some (root, q)" for i by simp
qed simp_all

lemma ptiter_visits:
  "Option.bind (ptiter_at m root) (pt_visits m) = Some (page_tables m 3 root 0)"
proof -
  have "stage m root (entry_va 3 (512 * 0 + 0)) (3 - 3) = Some (root, 0xFFF)" by simp
  from scan_all [of 3 m root, unfolded scans_def, rule_format, OF _ _ this] obtain v where
    "visits_from m 1 False (pi_at root 3 root (entry_va 3 0)) =
       map_option ((@) (concat (map (entry_tables m 3 root 0) [0..<512]))) (visits_after m root 3 v)" by auto
  then show ?thesis
    by (simp add: visits_from_def ptiter_at_def visits_after_def page_tables_entries [of 3, symmetric] entry_va_def slot_def del: page_tables.simps)
qed

section \<open>Properties\<close>

text \<open>C23: a loop over a \<open>ptiter\<close> ends and visits the pages that hold the page table, all but the root, each entry that leads to a table
once and every table after the tables below it.\<close>

theorem ptiter_visits_tables:
  "Option.bind (ptiter_at m root) (pt_visits m) = Some (page_tables m 3 root 0)"
  by (rule ptiter_visits)

end
