(* ===== verification/MemViewer.thy ===== *)
theory MemViewer
  imports PtIter Isolation
begin

text \<open>
  The memory viewer of WeensyOS (\<open>project04a-wduan/k-memviewer.cc\<close>, \<open>memshow\<close> of \<open>kernel.c\<close>): \<open>refresh\<close> walks all page tables and
  marks each physical page with who uses it, \<open>symbol_at\<close> turns the marks of a page into a character and reports pages that are mapped
  where they must not be. In an isolated system it reports nothing and shows no shared page. The array of marks is kept outside
  \<open>kmem\<close>: it is a page of its own.
\<close>

section \<open>Marks\<close>

definition maxpa :: u64 where "maxpa = 1024 * PAGESIZE"
definition f_kernel :: u32 where "f_kernel = 1"
definition f_user :: u32 where "f_user = 2"

definition f_process :: "int \<Rightarrow> u32" where
  "f_process i = (if 30 \<le> i then push_bit 31 2 else if 1 \<le> i then push_bit (nat i) 2 else 0)"

text \<open>\<open>vpage\<close> is the page of \<open>v_\<close>, 0 before the first \<open>refresh\<close>, \<open>marks\<close> its contents.\<close>

record memusage =
  vpage :: u64
  marks :: "u32 list"

definition mark :: "u64 \<Rightarrow> u32 \<Rightarrow> u32 list \<Rightarrow> u32 list" where
  "mark pa flags v = (if pa < maxpa then let i = unat (pa div PAGESIZE) in v[i := v ! i OR flags] else v)"

definition lsb :: "u32 \<Rightarrow> nat" where
  "lsb x = (case find (bit x) [0..<32] of None \<Rightarrow> 0 | Some i \<Rightarrow> i + 1)"

definition marked_pid :: "u32 \<Rightarrow> nat" where
  "marked_pid v = lsb (drop_bit 2 v)"

section \<open>refresh\<close>

text \<open>The loop over a \<open>ptiter\<close>, as long as \<open>cond\<close> holds of it.\<close>

partial_function (option) mark_tables :: "(ptiter \<Rightarrow> bool) \<Rightarrow> u32 \<Rightarrow> memory \<Rightarrow> ptiter \<Rightarrow> u32 list \<Rightarrow> u32 list option" where
  "mark_tables cond flags m it v =
     (if cond it then Option.bind (pt_next m it) (\<lambda>it'. mark_tables cond flags m it' (mark (pt_pa m it) flags v)) else Some v)"

text \<open>The loop over a \<open>vmiter\<close>: \<open>flags\<close> gives the marks of an address that the user may access, if it is to be marked.\<close>

partial_function (option) mark_pages :: "(u64 \<Rightarrow> u32 option) \<Rightarrow> memory \<Rightarrow> vmiter \<Rightarrow> u32 list \<Rightarrow> u32 list run" where
  "mark_pages flags m it v =
     (if it_va it < VA_LOWEND then
        case (if vm_user m it then flags (vm_pa m it) else None) of
          Some f \<Rightarrow> rbind (Some (it_next m it)) (\<lambda>it'. mark_pages flags m it' (mark (vm_pa m it) f v))
        | None \<Rightarrow> rbind (Some (next_range m it)) (\<lambda>it'. mark_pages flags m it' v)
      else returns v)"

definition run_of :: "'a option \<Rightarrow> 'a run" where
  "run_of x = map_option Inr x"

definition mark_process :: "memory \<Rightarrow> proc \<Rightarrow> int \<Rightarrow> u32 list \<Rightarrow> u32 list run" where
  "mark_process m p i v =
     (let tables = f_kernel OR f_process i in
      rbind (run_of (ptiter_at m (pagetable p))) (\<lambda>it.
      rbind (run_of (mark_tables (\<lambda>it. pt_va it < VA_LOWEND) tables m it v)) (\<lambda>v.
      let v = mark (pagetable p) tables v in
      rbind (Some (vmiter_at m (pagetable p) 0)) (\<lambda>it. mark_pages (\<lambda>_. Some (f_user OR f_process i)) m it v))))"

definition shown :: "layout \<Rightarrow> proc \<Rightarrow> bool" where
  "shown L p \<longleftrightarrow> pstate p \<noteq> P_FREE \<and> pagetable p \<noteq> 0 \<and> pagetable p \<noteq> kernel_pagetable L"

fun mark_processes :: "layout \<Rightarrow> os \<Rightarrow> nat list \<Rightarrow> bool \<times> u32 list \<Rightarrow> (bool \<times> u32 list) run" where
  "mark_processes L s [] av = returns av"
| "mark_processes L s (i # js) (any, v) =
     (if shown L (proc_at s i) then
        rbind (mark_process (kmem (kern s)) (proc_at s i) (int i) v) (\<lambda>v. mark_processes L s js (True, v))
      else mark_processes L s js (any, v))"

text \<open>Without a page table of a process, physical memory: the owner is computed from the address.\<close>

definition physical_owner :: "os \<Rightarrow> u64 \<Rightarrow> u32 option" where
  "physical_owner s pa =
     (if pa < MEMSIZE_PHYSICAL \<and> page_used (kern s) (unat (pa div PAGESIZE)) then
        let owner = ucast ((pa - PROC_START_ADDR) div 0x40000) :: u32
        in Some (f_user OR f_process (sint (owner + 1)))
      else None)"

definition no_marks :: "u32 list" where
  "no_marks = replicate 1024 0"

definition refresh :: "layout \<Rightarrow> os \<Rightarrow> memusage \<Rightarrow> (memusage \<times> os) run" where
  "refresh L s mu =
     (case (if vpage mu = 0 then kalloc (kernel_end L) PAGESIZE (kern s) else (vpage mu, kern s)) of (page, k) \<Rightarrow>
      let s = s\<lparr>kern := k\<rparr>; m = kmem k; kp = kernel_pagetable L in
      rbind (Some (c_assert (page \<noteq> 0))) (\<lambda>_.
      let v = no_marks in
      rbind (run_of (ptiter_at m kp)) (\<lambda>it.
      rbind (run_of (mark_tables (\<lambda>it. \<not> pt_done it) f_kernel m it v)) (\<lambda>v.
      let v = mark kp f_kernel v in
      rbind (mark_processes L s [1..<NPROC] (False, v)) (\<lambda>(any, v).
      rbind (if any then returns v
             else rbind (Some (vmiter_at m kp 0)) (\<lambda>it. mark_pages (physical_owner s) m it v)) (\<lambda>v.
      let v = (if any then mark page f_kernel v else v) in
      returns (\<lparr>vpage = page, marks = v\<rparr>, s)))))))"

section \<open>symbol_at\<close>

text \<open>The page table errors the viewer reports, with the process.\<close>

datatype page_error = Reserved_Mapped nat | Kernel_Mapped nat | Allocated_Mapped nat

definition color_of :: "nat \<Rightarrow> u16" where
  "color_of i = push_bit 8 ([0xF, 0xC, 0xA, 0x9, 0xE] ! (i mod 5))"

definition name_of :: "nat \<Rightarrow> u16" where
  "name_of i = of_char (''K123456789ABCDEFGHIJKLMNOPQRST??'' ! i)"

definition symbol_at :: "layout \<Rightarrow> memusage \<Rightarrow> u64 \<Rightarrow> u16 \<times> page_error option" where
  "symbol_at L mu pa =
     (let reserved = reserved_physical_address pa;
          kernel = (\<not> reserved \<and> \<not> allocatable_physical_address (kernel_end L) pa) in
      if maxpa \<le> pa then
        (if kernel then 0x4B OR 0x4000 else if reserved then 0x3F OR 0x4000 else 0x3F OR 0xF000, None)
      else
        let v = marks mu ! unat (pa div PAGESIZE) in
        if CONSOLE_ADDR \<le> pa \<and> pa < CONSOLE_ADDR + PAGESIZE then (0x43 OR 0x0700, None)
        else if reserved \<and> v > (f_kernel OR f_user) then (0x52 OR 0x0C00, Some (Reserved_Mapped (marked_pid v)))
        else if reserved then (0x52 OR 0x0700, None)
        else if kernel \<and> v > (f_kernel OR f_user) then (0x4B OR 0xCD00, Some (Kernel_Mapped (marked_pid v)))
        else if kernel then (0x4B OR 0x0D00, None)
        else if MEMSIZE_PHYSICAL \<le> pa then (0x20 OR 0x0700, None)
        else if v = 0 then (0x2E OR 0x0700, None)
        else if v = f_kernel then (0x4B OR 0x0D00, None)
        else if v = f_user then (0x2E OR 0x0700, None)
        else if v AND f_kernel \<noteq> 0 \<and> v AND f_user \<noteq> 0 then (0x2A OR 0xF400, Some (Allocated_Mapped (marked_pid v)))
        else
          let i = marked_pid v; ch = color_of i; ch = (if v AND f_kernel \<noteq> 0 then ch OR 0x4000 else ch) in
          (if v > (f_process (int i) OR f_kernel OR f_user) then 0x0F00 OR 0x53 else ch OR name_of i, None))"

section \<open>Marks that are justified\<close>

text \<open>\<open>P i b\<close> says that bit \<open>b\<close> of the marks of page \<open>i\<close> may be set.\<close>

definition justified :: "(nat \<Rightarrow> nat \<Rightarrow> bool) \<Rightarrow> u32 list \<Rightarrow> bool" where
  "justified P v \<longleftrightarrow> length v = 1024 \<and> (\<forall>i < 1024. \<forall>b. bit (v ! i) b \<longrightarrow> P i b)"

definition page_no :: "u64 \<Rightarrow> nat" where
  "page_no pa = unat (pa div PAGESIZE)"

definition allowed :: "(nat \<Rightarrow> nat \<Rightarrow> bool) \<Rightarrow> u64 \<Rightarrow> u32 \<Rightarrow> bool" where
  "allowed P pa flags \<longleftrightarrow> (pa < maxpa \<longrightarrow> (\<forall>b. bit flags b \<longrightarrow> P (page_no pa) b))"

lemma page_no_nat: "page_no pa = unat pa div 4096"
  by (simp add: page_no_def PAGESIZE_def unat_div)

lemma mark_justified: "justified P v \<Longrightarrow> allowed P pa flags \<Longrightarrow> justified P (mark pa flags v)"
proof -
  assume v: "justified P v" and f: "allowed P pa flags"
  have "bit (mark pa flags v ! i) b \<Longrightarrow> P i b" if "i < 1024" for i b
  proof (cases "pa < maxpa \<and> i = page_no pa")
    case True
    assume "bit (mark pa flags v ! i) b"
    then have "bit (v ! i) b \<or> bit flags b" using True that v by (simp add: mark_def Let_def page_no_def justified_def bit_or_iff)
    then show "P i b" using True that v f by (auto simp: justified_def allowed_def)
  next
    case False
    assume "bit (mark pa flags v ! i) b"
    then have "bit (v ! i) b" using False by (auto simp: mark_def page_no_def Let_def split: if_splits)
    then show "P i b" using that v by (simp add: justified_def)
  qed
  then show ?thesis using v by (simp add: justified_def mark_def Let_def)
qed

text \<open>The page of an address.\<close>

lemma page_of:
  "page_aligned (of_nat (page_no pa) * PAGESIZE)" "in_page (of_nat (page_no pa) * PAGESIZE) pa"
  "page_aligned pa \<Longrightarrow> of_nat (page_no pa) * PAGESIZE = pa"
proof -
  have "unat (of_nat (page_no pa) * PAGESIZE :: u64) = unat pa div 4096 * 4096"
  proof -
    have "unat pa div 4096 * 4096 \<le> unat pa" by simp
    also have "unat pa < 2 ^ LENGTH(64)" by (rule unsigned_less)
    finally have "unat (of_nat (unat pa div 4096 * 4096) :: u64) = unat pa div 4096 * 4096" by (simp only: unat_of_nat) simp
    then show ?thesis by (simp add: page_no_nat PAGESIZE_def)
  qed
  then show "page_aligned (of_nat (page_no pa) * PAGESIZE)" "in_page (of_nat (page_no pa) * PAGESIZE) pa"
    "page_aligned pa \<Longrightarrow> of_nat (page_no pa) * PAGESIZE = pa"
    by (auto simp: page_aligned_nat in_page_nat word_unat_eq_iff)
qed

text \<open>The loop over the tables.\<close>

lemma pt_down_level: "pt_down m stop skip it = Some it' \<Longrightarrow> pi_level it \<le> 3 \<Longrightarrow> pi_level it' \<le> 3"
proof -
  assume "pt_down m stop skip it = Some it'"
  then have "pi_level it \<le> 3 \<longrightarrow> pi_level it' \<le> 3"
    by (rule pt_down.raw_induct [where P = "\<lambda>m stop skip it it'. pi_level it \<le> 3 \<longrightarrow> pi_level it' \<le> 3", rotated])
      (fastforce simp: Let_def split: if_splits)
  then show "pi_level it \<le> 3 \<Longrightarrow> pi_level it' \<le> 3" ..
qed

lemma mark_tables_justified:
  assumes "pt_visits m it = Some xs" "\<And>it. pt_done it \<Longrightarrow> pi_level it \<le> 3 \<Longrightarrow> \<not> cond it" "justified P v" "pi_level it \<le> 3"
    and "\<And>va l pa. (va, l, pa) \<in> set xs \<Longrightarrow> allowed P pa flags"
  shows "\<exists>v'. mark_tables cond flags m it v = Some v' \<and> justified P v'"
  using assms
proof (induction xs arbitrary: it v)
  case Nil
  from Nil(1) have "pt_done it" by (subst (asm) pt_visits.simps) (auto split: if_splits bind_splits)
  then have "\<not> cond it" using Nil(2,4) by blast
  then show ?case using Nil(3) by (subst mark_tables.simps) simp
next
  case (Cons x xs)
  show ?case
  proof (cases "cond it")
    case False
    then show ?thesis using Cons.prems(3) by (subst mark_tables.simps) simp
  next
    case True
    then have "\<not> pt_done it" using Cons.prems(2,4) by blast
    with Cons.prems(1) obtain it' where it': "pt_next m it = Some it'" "pt_visits m it' = Some xs" "x = (pt_va it, pt_level it, pt_pa m it)"
      by (subst (asm) pt_visits.simps) (auto split: bind_splits)
    have "justified P (mark (pt_pa m it) flags v)"
      by (rule mark_justified [OF Cons.prems(3)]) (rule Cons.prems(5) [of "pt_va it" "pt_level it"], simp add: it'(3))
    moreover have "pi_level it' \<le> 3" using pt_down_level it'(1) Cons.prems(4) unfolding pt_next_def by blast
    ultimately obtain v' where
      "mark_tables cond flags m it' (mark (pt_pa m it) flags v) = Some v'" "justified P v'"
      using Cons.IH [OF it'(2) Cons.prems(2)] Cons.prems(5) by (metis list.set_intros(2))
    then show ?thesis using True it'(1) by (subst mark_tables.simps) simp
  qed
qed

text \<open>The loop over the pages: it ends, since every step moves up to the next page at least.\<close>

lemma find_plain:
  assumes "at_end m root it" "page_aligned root" "\<And>va. plain_at m root va"
  shows "\<exists>it'. real_find m va it = Inr it' \<and> at_end m root it' \<and> it_va it' = va"
proof -
  have "\<exists>it'. vmiter_at m root va = Inr it'"
  proof (cases "va_is_canonical va")
    case True
    then show ?thesis using vmiter_at_plain [OF assms(3)] by blast
  next
    case False
    then show ?thesis by (simp add: vmiter_at_start down_def down_loop.simps Let_def PTE_P_def)
  qed
  then show ?thesis using real_find_fresh [OF at_end_on_walk [OF assms(1)] assms(2)] vmiter_at_end by metis
qed

lemma or_mask_above:
  assumes "unat va < 2 ^ 48" "l \<le> 3"
  shows "unat va < unat ((va OR pageoffmask l) + 1)"
proof -
  have "unat va < (entry_no l va + 1) * 2 ^ (12 + l * 9)"
    using mod_less_divisor [of "2 ^ (12 + l * 9)" "unat va"] div_mult_mod_eq [of "unat va" "2 ^ (12 + l * 9)"]
    by (simp del: mod_less_divisor)
  then show ?thesis by (simp only: next_entry [OF assms(2,1)])
qed

lemma user_mapping:
  assumes "at_end m root it" "vm_user m it"
  shows "\<exists>perm. mmu m root (it_va it) = Some (vm_pa m it, perm) \<and> perm AND PTE_U \<noteq> 0"
proof -
  have "vm_perm m it AND PTE_U \<noteq> 0"
  proof
    assume "vm_perm m it AND PTE_U = 0"
    then have "(vm_perm m it AND (PTE_P OR PTE_U)) AND PTE_U = 0" by (simp add: and.assoc pte_defs)
    then show False using assms(2) by (simp add: vm_user_def vm_has_def pte_defs)
  qed
  then show ?thesis using at_end_mmu [OF assms(1)] by (auto split: option.splits)
qed

lemma mark_pages_justified:
  assumes "at_end m root it" "page_aligned root" "\<And>va. plain_at m root va" "justified P v"
    and "\<And>va pa perm f. mmu m root va = Some (pa, perm) \<Longrightarrow> perm AND PTE_U \<noteq> 0 \<Longrightarrow> flags pa = Some f \<Longrightarrow> allowed P pa f"
  shows "\<exists>v'. mark_pages flags m it v = returns v' \<and> justified P v'"
  using assms
proof (induction "2 ^ 48 - unat (it_va it)" arbitrary: it v rule: less_induct)
  case less
  show ?case
  proof (cases "it_va it < VA_LOWEND")
    case False
    then show ?thesis using less.prems(4) by (subst mark_pages.simps) simp
  next
    case True
    then have low: "unat (it_va it) < 2 ^ 48" by (simp add: word_less_nat_alt VA_LOWEND_def)
    have lev: "it_level it \<le> 3" by (rule at_end_level [OF less.prems(1)])
    have step: "\<exists>it'. real_find m ((it_va it OR pageoffmask l) + 1) it = Inr it' \<and> at_end m root it' \<and>
        2 ^ 48 - unat (it_va it') < 2 ^ 48 - unat (it_va it)" if "l \<le> 3" for l
      using find_plain [OF less.prems(1-3), of "(it_va it OR pageoffmask l) + 1"] or_mask_above [OF low that] low
      by (metis diff_less_mono2)
    show ?thesis
    proof (cases "if vm_user m it then flags (vm_pa m it) else None")
      case None
      from step [OF lev] obtain it' where it': "next_range m it = Inr it'" "at_end m root it'"
        "2 ^ 48 - unat (it_va it') < 2 ^ 48 - unat (it_va it)" by (auto simp: next_range_def last_va_def)
      from less.hyps [OF it'(3,2) less.prems(2-5)] show ?thesis using True None it'(1) by (subst mark_pages.simps) simp
    next
      case (Some f)
      have "(if it_level it > 0 \<and> vm_perm m it = 0 then it_level it else 0) \<le> 3" using lev by simp
      from step [OF this] obtain it' where it': "it_next m it = Inr it'" "at_end m root it'"
        "2 ^ 48 - unat (it_va it') < 2 ^ 48 - unat (it_va it)" by (auto simp only: it_next_def Let_def)
      have "allowed P (vm_pa m it) f" using Some user_mapping [OF less.prems(1)] less.prems(5) by (auto split: if_splits)
      from less.hyps [OF it'(3,2) less.prems(2,3) mark_justified [OF less.prems(4) this] less.prems(5)]
      show ?thesis using True Some it'(1) by (subst mark_pages.simps) simp
    qed
  qed
qed

section \<open>Who may be marked where\<close>

text \<open>Tables of the kernel and the viewer's page with the kernel's bit, tables of a process with that and its own, its user pages
with the user's bit and its own.\<close>

definition may_mark :: "layout \<Rightarrow> os \<Rightarrow> u64 \<Rightarrow> nat \<Rightarrow> nat \<Rightarrow> bool" where
  "may_mark L s page i b \<longleftrightarrow>
     (let p = of_nat i * PAGESIZE; m = kmem (kern s); proc = (\<lambda>n. 1 \<le> n \<and> live s n) in
      b = 0 \<and> (p = page \<or> p \<in> tables m (kernel_pagetable L) \<or> (\<exists>n. proc n \<and> p \<in> tables m (root_of s n))) \<or>
      b = 1 \<and> (p = CONSOLE_ADDR \<or> (\<exists>n. proc n \<and> p \<in> frames m (root_of s n))) \<or>
      (\<exists>n. proc n \<and> b = n + 1 \<and> (p = CONSOLE_ADDR \<or> p \<in> owned m (root_of s n))))"

lemma f_process_bit: "1 \<le> n \<Longrightarrow> n < 16 \<Longrightarrow> bit (f_process (int n)) b \<longleftrightarrow> b = n + 1"
proof -
  assume n: "1 \<le> n" "n < 16"
  have "f_process (int n) = 2 ^ (n + 1)" using n by (simp add: f_process_def push_bit_eq_mult)
  then show ?thesis using n by (simp only: bit_exp_iff) auto
qed

lemma table_mark:
  assumes "pa \<in> tables (kmem (kern s)) (root_of s n)" "page_aligned (root_of s n)" "live s n" "1 \<le> n"
  shows "allowed (may_mark L s page) pa (f_kernel OR f_process (int n))"
proof -
  have "of_nat (page_no pa) * PAGESIZE = pa" by (rule page_of(3)) (rule tables_aligned [OF assms(2,1)])
  moreover have "n < 16" using assms(3) by (simp add: live_def NPROC_def)
  ultimately show ?thesis using assms f_process_bit [of n]
    by (auto simp: allowed_def may_mark_def Let_def owned_def bit_or_iff f_kernel_def bit_1_iff)
qed

lemma page_mark:
  assumes "mmu (kmem (kern s)) (root_of s n) va = Some (pa, perm)" "perm AND PTE_U \<noteq> 0" "live s n" "1 \<le> n"
  shows "allowed (may_mark L s page) pa (f_user OR f_process (int n))"
proof -
  let ?p = "of_nat (page_no pa) * PAGESIZE"
  have "?p = CONSOLE_ADDR \<or> ?p \<in> frames (kmem (kern s)) (root_of s n)"
    unfolding frames_def using assms(1,2) page_of(1,2) by blast
  moreover have "n < 16" using assms(3) by (simp add: live_def NPROC_def)
  moreover have "bit f_user b \<longleftrightarrow> b = 1" for b
    using bit_exp_iff [where 'a = "32 word", of 1 b] by (auto simp: f_user_def)
  ultimately show ?thesis using assms(3,4) f_process_bit [of n]
    by (auto simp: allowed_def may_mark_def Let_def owned_def bit_or_iff)
qed

lemma done_high: "pt_done it \<Longrightarrow> pi_level it \<le> 3 \<Longrightarrow> \<not> pt_va it < VA_LOWEND"
proof -
  assume it: "pt_done it" "pi_level it \<le> 3"
  let ?n = "12 + pi_level it * 9" let ?k = "unat (pi_va it) div 2 ^ ?n"
  have n: "2 ^ (48 - ?n) * 2 ^ ?n = (2 :: nat) ^ 48" using it(2) by (simp only: power_add [symmetric]) simp
  have "2 ^ 48 \<le> unat (pi_va it)" using it(1) by (simp add: pt_done_def VA_NONCANONMAX_def word_less_nat_alt)
  then have "2 ^ (48 - ?n) * 2 ^ ?n div 2 ^ ?n \<le> ?k" unfolding n by (rule div_le_mono)
  then have "2 ^ (48 - ?n) \<le> ?k" by simp
  then have high: "2 ^ 48 \<le> ?k * 2 ^ ?n" unfolding n [symmetric] by (rule mult_le_mono1)
  have "?k * 2 ^ ?n \<le> unat (pi_va it)" by (rule div_times_less_eq_dividend)
  also have "\<dots> < 2 ^ LENGTH(64)" by (rule unsigned_less)
  finally have "unat (pt_va it) = ?k * 2 ^ ?n" unfolding pt_va_def va_of_entry [OF it(2)] by (intro unat_entry_va) simp
  then show ?thesis using high by (simp add: VA_LOWEND_def word_less_nat_alt)
qed

lemma root_facts:
  assumes "isolated L s" "live s n"
  shows "page_aligned (root_of s n)" "plain_at (kmem (kern s)) (root_of s n) va" "root_of s n \<in> allocatable (kernel_end L)" "root_of s n \<noteq> 0"
proof -
  have sp: "space_ok (kernel_end L) (kern s) (root_of s n)" by (rule isolatedD(1) [OF assms])
  then show "page_aligned (root_of s n)" "plain_at (kmem (kern s)) (root_of s n) va" by (simp_all add: space_ok_def table_ok_def wf_tables_def)
  show al: "root_of s n \<in> allocatable (kernel_end L)" using sp root_in_tables by (auto simp: space_ok_def owned_def)
  then show "root_of s n \<noteq> 0"
    by (auto simp: allocatable_def allocatable_physical_address_def reserved_physical_address_def PAGESIZE_def)
qed

lemma mark_process_justified:
  assumes iso: "isolated L s" and n: "live s n" "1 \<le> n" and v: "justified (may_mark L s page) v"
  shows "\<exists>v'. mark_process (kmem (kern s)) (proc_at s n) (int n) v = returns v' \<and> justified (may_mark L s page) v'"
proof -
  let ?m = "kmem (kern s)" let ?root = "root_of s n" let ?P = "may_mark L s page"
  note rf = root_facts [OF iso n(1)]
  obtain it where it: "ptiter_at ?m ?root = Some it" "pt_visits ?m it = Some (page_tables ?m 3 ?root 0)"
    using ptiter_visits [of ?m ?root] by (auto split: bind_splits)
  have lev: "pi_level it \<le> 3" using pt_down_level it(1) unfolding ptiter_at_def by fastforce
  from mark_tables_justified [OF it(2) done_high v lev, where flags = "f_kernel OR f_process (int n)"]
  obtain v1 where v1: "mark_tables (\<lambda>it. pt_va it < VA_LOWEND) (f_kernel OR f_process (int n)) ?m it v = Some v1" "justified ?P v1"
    using visited_tables [of _ ?m ?root] table_mark [OF _ rf(1) n] by fastforce
  have v2: "justified ?P (mark ?root (f_kernel OR f_process (int n)) v1)"
    by (rule mark_justified [OF v1(2) table_mark [OF root_in_tables rf(1) n]])
  have "va_is_canonical 0" by (simp add: va_is_canonical_def)
  then obtain vi where vi: "vmiter_at ?m ?root 0 = Inr vi" using vmiter_at_plain [OF rf(2)] by blast
  then have "at_end ?m ?root vi" using vmiter_at_end by blast
  from mark_pages_justified [OF this rf(1,2) v2, where flags = "\<lambda>_. Some (f_user OR f_process (int n))"] page_mark [OF _ _ n]
  obtain v' where "mark_pages (\<lambda>_. Some (f_user OR f_process (int n))) ?m vi (mark ?root (f_kernel OR f_process (int n)) v1) = returns v'"
    "justified ?P v'" by fastforce
  then show ?thesis using it(1) v1(1) vi by (simp add: mark_process_def run_of_def root_of_def [symmetric])
qed

lemma mark_processes_justified:
  assumes iso: "isolated L s" and v: "justified (may_mark L s page) v" and range: "set js \<subseteq> {1..<16}"
  shows "\<exists>any' v'. mark_processes L s js (any, v) = returns (any', v') \<and> justified (may_mark L s page) v' \<and>
    (any' \<longleftrightarrow> any \<or> (\<exists>i \<in> set js. shown L (proc_at s i)))"
  using v range
proof (induction js arbitrary: any v)
  case (Cons i js)
  show ?case
  proof (cases "shown L (proc_at s i)")
    case True
    then have i: "live s i" "1 \<le> i" using Cons.prems(2) by (simp_all add: shown_def live_def NPROC_def)
    obtain v' where v': "mark_process (kmem (kern s)) (proc_at s i) (int i) v = returns v'" "justified (may_mark L s page) v'"
      using mark_process_justified [OF iso i Cons.prems(1)] by blast
    from Cons.IH [OF v'(2), of True] Cons.prems(2) True v'(1) show ?thesis by auto
  next
    case False
    then show ?thesis using Cons.IH [OF Cons.prems(1), of any] Cons.prems(2) by auto
  qed
qed simp

section \<open>What is shown\<close>

text \<open>Words with at most two bits.\<close>

lemma two_bits:
  fixes v :: u32
  assumes "\<And>b. bit v b \<Longrightarrow> b = a \<or> b = c"
  shows "v \<in> {0, 2 ^ a, 2 ^ c, 2 ^ a OR 2 ^ c}"
proof -
  have "v = (if bit v a then 2 ^ a else 0) OR (if bit v c then 2 ^ c else 0)"
    by (rule bit_eqI) (use assms in \<open>auto simp: bit_simps\<close>)
  then show ?thesis by (cases "bit v a"; cases "bit v c") simp_all
qed

text \<open>The marks of a page of process \<open>i\<close>, and what is shown for them.\<close>

lemma process_marks:
  "\<forall>i \<in> set [1..<16]. \<forall>v \<in> {2 ^ (i + 1), 2 ^ 0 OR 2 ^ (i + 1), 2 ^ 1 OR 2 ^ (i + 1)}.
     marked_pid v = i \<and> \<not> v > (f_process (int i) OR f_kernel OR f_user) \<and> \<not> (v AND f_kernel \<noteq> 0 \<and> v AND f_user \<noteq> 0)"
  by code_simp

lemma process_letters:
  "\<forall>i \<in> set [1..<16]. \<forall>ch \<in> {color_of i, color_of i OR 0x4000}. (ch OR name_of i) AND 0xFF \<noteq> 0x53"
  by code_simp

text \<open>A symbol without an error that is not the \<open>S\<close> of a shared page.\<close>

definition clean :: "u16 \<times> page_error option \<Rightarrow> bool" where
  "clean x \<longleftrightarrow> snd x = None \<and> fst x AND 0xFF \<noteq> 0x53"

lemma symbol_clean:
  assumes "pa < maxpa \<Longrightarrow> allocatable_physical_address (kernel_end L) pa \<Longrightarrow>
      \<exists>i \<in> set [1..<16]. marks mu ! page_no pa \<in> {0, 2 ^ 0, 2 ^ 1, 2 ^ (i + 1), 2 ^ 0 OR 2 ^ (i + 1), 2 ^ 1 OR 2 ^ (i + 1)}"
    and "pa < maxpa \<Longrightarrow> \<not> allocatable_physical_address (kernel_end L) pa \<Longrightarrow>
      \<not> (CONSOLE_ADDR \<le> pa \<and> pa < CONSOLE_ADDR + PAGESIZE) \<Longrightarrow> marks mu ! page_no pa \<le> 3"
  shows "clean (symbol_at L mu pa)"
proof (cases "maxpa \<le> pa")
  case True
  then show ?thesis by (simp add: symbol_at_def clean_def Let_def)
next
  case False
  let ?v = "marks mu ! page_no pa"
  have flags: "f_kernel OR f_user = 3" by (simp add: f_kernel_def f_user_def)
  show ?thesis
  proof (cases "CONSOLE_ADDR \<le> pa \<and> pa < CONSOLE_ADDR + PAGESIZE")
    case True
    then show ?thesis using False by (simp add: symbol_at_def clean_def Let_def)
  next
    case con: False
    show ?thesis
    proof (cases "allocatable_physical_address (kernel_end L) pa")
      case no: False
      then have "\<not> ?v > 3" using assms(2) False con by (simp add: not_less)
      then show ?thesis using False con no
        by (auto simp: symbol_at_def clean_def Let_def page_no_def [symmetric] flags)
    next
      case True
      then have al: "\<not> reserved_physical_address pa" "pa < MEMSIZE_PHYSICAL" by (simp_all add: allocatable_physical_address_def)
      from assms(1) False True obtain i where i: "i \<in> set [1..<16]"
        "?v \<in> {0, 2 ^ 0, 2 ^ 1, 2 ^ (i + 1), 2 ^ 0 OR 2 ^ (i + 1), 2 ^ 1 OR 2 ^ (i + 1)}" by (auto simp: not_le)
      show ?thesis
      proof (cases "?v \<in> {0, f_kernel, f_user}")
        case low: True
        then show ?thesis using False con True al
          by (auto simp: symbol_at_def clean_def Let_def page_no_def [symmetric] not_le)
      next
        case high: False
        then have "?v \<in> {2 ^ (i + 1), 2 ^ 0 OR 2 ^ (i + 1), 2 ^ 1 OR 2 ^ (i + 1)}" using i(2) by (auto simp: f_kernel_def f_user_def)
        with process_marks i(1) have v: "marked_pid ?v = i" "\<not> ?v > (f_process (int i) OR f_kernel OR f_user)"
          "\<not> (?v AND f_kernel \<noteq> 0 \<and> ?v AND f_user \<noteq> 0)" by blast+
        have "symbol_at L mu pa = ((if ?v AND f_kernel \<noteq> 0 then color_of i OR 0x4000 else color_of i) OR name_of i, None)"
          using False con True al high v
          by (auto simp: symbol_at_def Let_def page_no_def [symmetric] not_le)
        then show ?thesis using process_letters i(1) by (auto simp: clean_def)
      qed
    qed
  qed
qed

text \<open>Whether a page can be allocated does not depend on the address in it.\<close>

lemma below_page:
  assumes "page_aligned c"
  shows "of_nat (page_no pa) * PAGESIZE < c \<longleftrightarrow> pa < c"
proof -
  let ?p = "of_nat (page_no pa) * PAGESIZE"
  have p: "unat ?p = unat pa div 4096 * 4096"
    using page_of(1,2) [of pa] by (auto simp: page_aligned_nat in_page_nat elim!: dvdE)
  obtain k where k: "unat c = 4096 * k" using assms by (auto simp: page_aligned_nat)
  have "unat pa div 4096 * 4096 < 4096 * k \<longleftrightarrow> unat pa < 4096 * k"
    using div_less_iff_less_mult [of 4096 "unat pa" k] by (simp add: mult.commute)
  then show ?thesis by (simp add: word_less_nat_alt p k)
qed

lemma round_up_aligned: "page_aligned (round_up x PAGESIZE)"
proof -
  have "4096 dvd unat (y - y mod 4096)" for y :: u64
  proof -
    have "unat (y - y mod 4096) = unat y - unat y mod 4096"
      by (subst unat_minus_exact) (simp_all add: word_le_nat_alt unat_mod_distrib)
    then show ?thesis by (metis dvd_minus_mod)
  qed
  then show ?thesis by (simp add: page_aligned_nat round_up_def round_down_def PAGESIZE_def)
qed

lemma allocatable_page:
  "of_nat (page_no pa) * PAGESIZE \<in> allocatable ke \<longleftrightarrow> allocatable_physical_address ke pa"
proof -
  have c: "page_aligned PAGESIZE" "page_aligned 0xA0000" "page_aligned 0x100000" "page_aligned KERNEL_START_ADDR"
    "page_aligned (KERNEL_STACK_TOP - PAGESIZE)" "page_aligned KERNEL_STACK_TOP" "page_aligned MEMSIZE_PHYSICAL"
    by (simp_all add: page_aligned_def PAGESIZE_def KERNEL_START_ADDR_def KERNEL_STACK_TOP_def MEMSIZE_PHYSICAL_def)
  note b = c [THEN below_page, of pa] round_up_aligned [THEN below_page, of pa ke]
  show ?thesis using page_of(1) [of pa]
    by (simp only: allocatable_def mem_Collect_eq allocatable_physical_address_def reserved_physical_address_def linorder_not_less [symmetric] b
        simp_thms)
qed

lemma console_page:
  assumes "of_nat (page_no pa) * PAGESIZE = CONSOLE_ADDR"
  shows "CONSOLE_ADDR \<le> pa \<and> pa < CONSOLE_ADDR + PAGESIZE"
proof -
  have "unat pa div 4096 = 0xB8" using page_of(2) [of pa] by (simp add: assms in_page_nat CONSOLE_ADDR_def)
  then have "0xB8000 \<le> unat pa" "unat pa < 0xB9000" by linarith+
  then show ?thesis by (simp add: word_less_nat_alt word_le_nat_alt CONSOLE_ADDR_def PAGESIZE_def)
qed

text \<open>What justified marks show in an isolated system.\<close>

lemma justified_clean:
  assumes iso: "isolated L s" and just: "justified (may_mark L s page) (marks mu)"
    and kt: "tables (kmem (kern s)) (kernel_pagetable L) \<inter> allocatable (kernel_end L) = {}"
    and page: "\<And>i. live s i \<Longrightarrow> page \<notin> owned (kmem (kern s)) (root_of s i)"
  shows "clean (symbol_at L mu pa)"
proof (rule symbol_clean)
  let ?p = "of_nat (page_no pa) * PAGESIZE" let ?v = "marks mu ! page_no pa" let ?m = "kmem (kern s)" let ?al = "allocatable (kernel_end L)"
  assume "pa < maxpa"
  then have "page_no pa < 1024" by (simp add: page_no_nat maxpa_def PAGESIZE_def word_less_nat_alt)
  then have bits: "may_mark L s page (page_no pa) b" if "bit ?v b" for b using just that by (auto simp: justified_def)
  have own: "owned ?m (root_of s n) \<subseteq> ?al" "frames ?m (root_of s n) \<subseteq> owned ?m (root_of s n)"
    "tables ?m (root_of s n) \<subseteq> owned ?m (root_of s n)" "tables ?m (root_of s n) \<inter> frames ?m (root_of s n) = {}" if "live s n" for n
    using isolatedD(1) [OF iso that] by (auto simp: space_ok_def owned_def)
  {
    assume no: "\<not> allocatable_physical_address (kernel_end L) pa" and con: "\<not> (CONSOLE_ADDR \<le> pa \<and> pa < CONSOLE_ADDR + PAGESIZE)"
    then have "?p \<notin> ?al" "?p \<noteq> CONSOLE_ADDR" using allocatable_page console_page by blast+
    then have "b = 0" if "bit ?v b" for b using bits [OF that] own unfolding may_mark_def Let_def by blast
    then have "?v \<in> {0, 2 ^ 0, 2 ^ 0, 2 ^ 0 OR 2 ^ 0}" by (intro two_bits) blast
    then show "?v \<le> 3" by auto
  next
    assume al: "allocatable_physical_address (kernel_end L) pa"
    then have "?p \<in> ?al" by (simp only: allocatable_page)
    then have p: "?p \<in> ?al" "?p \<noteq> CONSOLE_ADDR" "?p \<notin> tables ?m (kernel_pagetable L)"
      using console_not_allocatable [of "kernel_end L"] kt by (metis, metis, blast)
    show "\<exists>i \<in> set [1..<16]. ?v \<in> {0, 2 ^ 0, 2 ^ 1, 2 ^ (i + 1), 2 ^ 0 OR 2 ^ (i + 1), 2 ^ 1 OR 2 ^ (i + 1)}"
    proof (cases "\<exists>n. 1 \<le> n \<and> live s n \<and> ?p \<in> owned ?m (root_of s n)")
      case False
      then have "b = 0" if "bit ?v b" for b using bits [OF that] p own unfolding may_mark_def Let_def by blast
      then have "?v \<in> {0, 2 ^ 0, 2 ^ 0, 2 ^ 0 OR 2 ^ 0}" by (intro two_bits) blast
      then show ?thesis by (auto intro!: bexI [of _ 1])
    next
      case True
      then obtain n where n: "1 \<le> n" "live s n" "?p \<in> owned ?m (root_of s n)" by blast
      then have only: "n' = n" if "live s n'" "?p \<in> owned ?m (root_of s n')" for n' using that iso unfolding isolated_def by blast
      have i: "n \<in> set [1..<16]" using n by (simp add: live_def NPROC_def)
      have "?p \<noteq> page" using n page by blast
      then have cases: "b = 0 \<and> ?p \<in> tables ?m (root_of s n) \<or> b = 1 \<and> ?p \<in> frames ?m (root_of s n) \<or> b = n + 1" if "bit ?v b" for b
        using bits [OF that] p own only unfolding may_mark_def Let_def by blast
      show ?thesis
      proof (cases "?p \<in> tables ?m (root_of s n)")
        case True
        then have "b = 0 \<or> b = n + 1" if "bit ?v b" for b using cases [OF that] own(4) [OF n(2)] by blast
        from two_bits [OF this] i show ?thesis by blast
      next
        case False
        then have "b = 1 \<or> b = n + 1" if "bit ?v b" for b using cases [OF that] by blast
        from two_bits [OF this] i show ?thesis by blast
      qed
    qed
  }
qed

section \<open>Properties\<close>

lemma refresh_marks:
  assumes iso: "isolated L s" and i: "1 \<le> i" "live s i" and kp: "page_aligned (kernel_pagetable L)"
    and kt: "tables (kmem (kern s)) (kernel_pagetable L) \<inter> allocatable (kernel_end L) = {}" and page: "vpage mu \<noteq> 0" "page_aligned (vpage mu)"
  shows "\<exists>v. refresh L s mu = returns (\<lparr>vpage = vpage mu, marks = v\<rparr>, s) \<and> justified (may_mark L s (vpage mu)) v"
proof -
  let ?m = "kmem (kern s)" let ?kp = "kernel_pagetable L" let ?P = "may_mark L s (vpage mu)"
  obtain it where it: "ptiter_at ?m ?kp = Some it" "pt_visits ?m it = Some (page_tables ?m 3 ?kp 0)"
    using ptiter_visits [of ?m ?kp] by (auto split: bind_splits)
  have lev: "pi_level it \<le> 3" using pt_down_level it(1) unfolding ptiter_at_def by fastforce
  have v0: "justified ?P no_marks" by (simp add: justified_def no_marks_def)
  have table: "allowed ?P pa f_kernel" if "pa \<in> tables ?m ?kp" for pa
  proof -
    have "of_nat (page_no pa) * PAGESIZE = pa" by (rule page_of(3)) (rule tables_aligned [OF kp that])
    then show ?thesis using that by (auto simp: allowed_def may_mark_def Let_def f_kernel_def bit_1_iff)
  qed
  from mark_tables_justified [OF it(2) _ v0 lev, where flags = f_kernel and cond = "\<lambda>it. \<not> pt_done it"] visited_tables [of _ ?m ?kp] table
  obtain v1 where v1: "mark_tables (\<lambda>it. \<not> pt_done it) f_kernel ?m it no_marks = Some v1" "justified ?P v1" by fastforce
  have v2: "justified ?P (mark ?kp f_kernel v1)" by (rule mark_justified [OF v1(2) table [OF root_in_tables]])
  have "set [1..<NPROC] \<subseteq> {1..<16}" by (simp add: NPROC_def)
  from mark_processes_justified [OF iso v2 this, of False] obtain any' v3 where v3: "mark_processes L s [1..<NPROC] (False, mark ?kp f_kernel v1) = returns (any', v3)" "justified ?P v3"
    and some: "any' \<longleftrightarrow> False \<or> (\<exists>i \<in> set [1..<NPROC]. shown L (proc_at s i))"
    by blast
  have "root_of s i \<noteq> ?kp" using root_facts(3) [OF iso i(2)] kt root_in_tables [of ?kp ?m] by auto
  then have "shown L (proc_at s i)" using i(2) root_facts(4) [OF iso i(2)] by (simp add: shown_def live_def root_of_def)
  moreover have "i \<in> set [1..<NPROC]" using i by (simp add: live_def)
  ultimately have any': "any'" using some by blast
  have "allowed ?P (vpage mu) f_kernel"
    using page_of(3) [OF page(2)] by (auto simp: allowed_def may_mark_def Let_def f_kernel_def bit_1_iff)
  then have "justified ?P (mark (vpage mu) f_kernel v3)" by (rule mark_justified [OF v3(2)])
  moreover have "refresh L s mu = returns (\<lparr>vpage = vpage mu, marks = mark (vpage mu) f_kernel v3\<rparr>, s)"
    using page(1) it(1) v1(1) v3(1) any' by (simp add: refresh_def Let_def run_of_def c_assert_def)
  ultimately show ?thesis by blast
qed

text \<open>The page of the marks, taken by the first \<open>refresh\<close>.\<close>

lemma refresh_first:
  assumes "vpage mu = 0" "kalloc (kernel_end L) PAGESIZE (kern s) = (p, k)" "p \<noteq> 0"
  shows "refresh L s mu = refresh L (s\<lparr>kern := k\<rparr>) (mu\<lparr>vpage := p\<rparr>)"
  using assms by (simp add: refresh_def)

text \<open>C24: in an isolated system with a process besides process 0, whose kernel tables lie in the kernel's memory, \<open>refresh\<close> ends, if
there is a page for its marks, and then the viewer reports no page table error for any address and shows no page as shared. The system is
isolated as before, and the page of the marks belongs to nobody, so that the next \<open>refresh\<close> ends in the same way.\<close>

theorem viewer_reports_nothing:
  assumes "isolated L s" "1 \<le> i" "live s i" "page_aligned (kernel_pagetable L)"
    and "tables (kmem (kern s)) (kernel_pagetable L) \<inter> allocatable (kernel_end L) = {}"
    and "if vpage mu = 0 then avail (kernel_end L) (kern s) \<noteq> {}
      else page_aligned (vpage mu) \<and> (\<forall>i. live s i \<longrightarrow> vpage mu \<notin> owned (kmem (kern s)) (root_of s i))"
  shows "\<exists>mu' s'. refresh L s mu = returns (mu', s') \<and> isolated L s' \<and> ptable s' = ptable s \<and>
    vpage mu' \<noteq> 0 \<and> page_aligned (vpage mu') \<and> (\<forall>i. live s' i \<longrightarrow> vpage mu' \<notin> owned (kmem (kern s')) (root_of s' i)) \<and>
    (\<forall>pa. clean (symbol_at L mu' pa))"
proof -
  have main: "\<exists>mu'. refresh L s mu = returns (mu', s) \<and> vpage mu' = vpage mu \<and> (\<forall>pa. clean (symbol_at L mu' pa))"
    if "isolated L s" "live s i" "tables (kmem (kern s)) (kernel_pagetable L) \<inter> allocatable (kernel_end L) = {}"
      "vpage mu \<noteq> 0" "page_aligned (vpage mu)" "\<And>i. live s i \<Longrightarrow> vpage mu \<notin> owned (kmem (kern s)) (root_of s i)" for s and mu :: memusage
  proof -
    from refresh_marks [OF that(1) assms(2) that(2) assms(4) that(3-5)] obtain v where
      v: "refresh L s mu = returns (\<lparr>vpage = vpage mu, marks = v\<rparr>, s)" "justified (may_mark L s (vpage mu)) v" by blast
    then show ?thesis using v(1) justified_clean [OF that(1) _ that(3,6), where mu = "\<lparr>vpage = vpage mu, marks = v\<rparr>"] v(2) by auto
  qed
  show ?thesis
  proof (cases "vpage mu = 0")
    case False
    then show ?thesis using main [OF assms(1,3,5), of mu] assms(1,6) by auto
  next
    case True
    obtain p k where a: "kalloc (kernel_end L) PAGESIZE (kern s) = (p, k)" by fastforce
    have p: "p \<noteq> 0" using kalloc_none a assms(6) True by fastforce
    have ok: "space_ok (kernel_end L) (kern s) (root_of s n)" if "live s n" for n by (rule isolatedD(1) [OF assms(1) that])
    then have av: "p \<in> avail (kernel_end L) (kern s)" "kmem k = set_page p 0xCCCCCCCCCCCCCCCC (kmem (kern s))"
      using kalloc_avail [OF _ a p] assms(3) by (auto simp: space_ok_def table_ok_def)
    have al: "page_aligned p" by (rule PAMASK_page [OF avail_PAMASK [OF av(1)]])
    let ?s = "s\<lparr>kern := k\<rparr>"
    have "p \<notin> tables (kmem (kern s)) (kernel_pagetable L)" using av(1) avail_allocatable [of "kernel_end L" "kern s"] assms(5) by blast
    then have same: "same_tables (kmem (kern s)) (kmem k) (kernel_pagetable L)"
      unfolding same_tables_def av(2) set_page_def using in_page_unique [OF al tables_aligned [OF assms(4)]] by auto
    have state: "live ?s = live s" "root_of ?s = root_of s" by (simp_all add: fun_eq_iff live_def root_of_def proc_at_def)
    note el = kalloc_elsewhere [OF ok a p]
    have iso: "isolated L ?s" using assms(1) el(2,3) unfolding isolated_def state by simp
    have "tables (kmem k) (kernel_pagetable L) \<inter> allocatable (kernel_end L) = {}"
      using assms(5) same_tables_frame(3) [OF same assms(4)] by simp
    from main [OF iso _ _ _ _ _, of "mu\<lparr>vpage := p\<rparr>"] this assms(3) p al el(3,5) obtain mu' where
      "refresh L ?s (mu\<lparr>vpage := p\<rparr>) = returns (mu', ?s)" "vpage mu' = p" "\<forall>pa. clean (symbol_at L mu' pa)"
      unfolding state by auto
    then show ?thesis using refresh_first [OF True a p] iso p al el(3,5) by (auto simp: state)
  qed
qed

text \<open>Two processes with empty page tables; the viewer takes a page and shows that of the first process.\<close>

lemma viewer_reports_nothing_witness:
  "\<exists>mu s. refresh sample_layout sample_os \<lparr>vpage = 0, marks = []\<rparr> = returns (mu, s) \<and> vpage mu \<noteq> 0 \<and>
    clean (symbol_at sample_layout mu 0x1000)"
proof -
  have al: "page_aligned 0x50000" by (simp add: page_aligned_def PAGESIZE_def)
  have L: "kernel_pagetable sample_layout = 0x50000" "kernel_end sample_layout = 0x60000" by (simp_all add: sample_layout_def)
  have m: "kmem (kern sample_os) = (\<lambda>_. 0)" by (simp add: sample_os_def os_with_simps)
  have "tables (kmem (kern sample_os)) 0x50000 = {0x50000}" using empty_root(2) [OF al, of "\<lambda>_. 0"] m by simp
  then have kt: "tables (kmem (kern sample_os)) (kernel_pagetable sample_layout) \<inter> allocatable (kernel_end sample_layout) = {}"
    by (auto simp: L allocatable_def allocatable_physical_address_def round_up_def round_down_def PAGESIZE_def KERNEL_START_ADDR_def)
  have "free_page 0x60000 (kern sample_os) 3"
    by (simp add: free_page_def NPAGES_def page_used_def sample_os_def os_with_simps allocatable_physical_address_def
        reserved_physical_address_def PAGESIZE_def KERNEL_START_ADDR_def KERNEL_STACK_TOP_def MEMSIZE_PHYSICAL_def)
  then have "avail (kernel_end sample_layout) (kern sample_os) \<noteq> {}" by (auto simp: L avail_def)
  moreover have "live sample_os 1" by (simp add: sample_os_def os_with_simps)
  ultimately show ?thesis
    using viewer_reports_nothing [OF sample_isolated(1) order_refl _ _ kt, of "\<lparr>vpage = 0, marks = []\<rparr>"] al by (auto simp: L)
qed

end
