(* ===== verification/UserLib.thy ===== *)
theory UserLib
  imports Console Kernel
begin

text \<open>
  How user programs of WeensyOS fail (\<open>project04a-wduan/u-lib.cc\<close>, \<open>error_printf\<close> of \<open>lib.cc\<close>): \<open>panic\<close>, which formats its message into a
  buffer on the stack, and \<open>assert_fail\<close>. Both end in the system call \<open>SYSCALL_PANIC\<close>; they return the console and the registers of the
  call.
\<close>

section \<open>panic\<close>

definition COLOR_ERROR :: u32 where "COLOR_ERROR = 0xC000"

definition CPOS :: "int \<Rightarrow> int \<Rightarrow> int" where "CPOS row col = row * 80 + col"

definition panic_text :: bytes where
  "panic_text = map of_char ''PANIC: ''"

text \<open>\<open>strcpy\<close> of the string that is a line break.\<close>

definition put_newline :: "nat \<Rightarrow> bytes \<Rightarrow> bytes result" where
  "put_newline i buf = ebind (aset buf i 0x0A) (\<lambda>buf. aset buf (i + 1) 0)"

text \<open>The buffer that \<open>panic\<close> prints; \<open>buf\<close> is the array as it is found on the stack.\<close>

definition panic_buffer :: "bytes \<Rightarrow> bytes \<Rightarrow> vararg list \<Rightarrow> bytes result" where
  "panic_buffer buf fmt args =
     ebind (vsnprintf (drop 7 buf) fmt args) (\<lambda>(rest, n).
     let buf = panic_text @ rest; len = to_int (int n + 7) in
     if len > 0 then
       ebind (aget buf (nat (len - 1))) (\<lambda>c.
       if c \<noteq> 0x0A then put_newline (nat (len - (if len = int (length buf) - 1 then 1 else 0))) buf else Inr buf)
     else Inr buf)"

definition sys_panic :: "console \<Rightarrow> console \<times> regstate" where
  "sys_panic con = (con, zero_regs\<lparr>reg_rax := SYSCALL_PANIC, reg_rdi := 0\<rparr>)"

definition c_str :: "bytes \<Rightarrow> bytes" where
  "c_str buf = takeWhile (\<lambda>c. c \<noteq> 0) buf"

definition panic :: "bytes \<Rightarrow> bytes \<Rightarrow> vararg list \<Rightarrow> console \<Rightarrow> (console \<times> regstate) result" where
  "panic buf fmt args con =
     ebind (panic_buffer buf fmt args) (\<lambda>buf.
     ebind (console_vprintf (CPOS 23 0) 0xC000 (map of_char ''%s'') [String_Arg (c_str buf)] con) (\<lambda>(_, con).
     Inr (sys_panic con)))"

section \<open>assert_fail\<close>

definition error_vprintf :: "int \<Rightarrow> u32 \<Rightarrow> bytes \<Rightarrow> vararg list \<Rightarrow> console \<Rightarrow> (int \<times> console) result" where
  "error_vprintf cpos color fmt args con = console_vprintf cpos color fmt args con"

definition error_printf :: "bytes \<Rightarrow> vararg list \<Rightarrow> console \<Rightarrow> console result" where
  "error_printf fmt args con = ebind (error_vprintf (-1) COLOR_ERROR fmt args con) (\<lambda>(_, con). Inr con)"

definition assert_fail :: "bytes \<Rightarrow> int \<Rightarrow> bytes \<Rightarrow> bytes option \<Rightarrow> console \<Rightarrow> (console \<times> regstate) result" where
  "assert_fail file line msg description con =
     (let con = con\<lparr>cursorpos := CPOS 23 0\<rparr> in
      ebind (case description of
          None \<Rightarrow> Inr con
        | Some d \<Rightarrow> error_printf (map of_char ''%s:%d: %s'' @ [0x0A]) [String_Arg file, Word_Arg (of_int line), String_Arg d] con) (\<lambda>con.
      ebind (error_printf (map of_char ''%s:%d: user assertion '' @ 0x27 # map of_char ''%s'' @ 0x27 # map of_char '' failed'' @ [0x0A])
          [String_Arg file, Word_Arg (of_int line), String_Arg msg] con) (\<lambda>con.
      Inr (sys_panic con))))"

section \<open>What panic prints\<close>

text \<open>The line of a message: a line break is added, or replaces what does not fit.\<close>

definition panic_line :: "bytes \<Rightarrow> bytes" where
  "panic_line msg = (if msg \<noteq> [] \<and> last msg = 0x0A then msg else take 151 msg @ [0x0A])"

lemma panic_buffer_line:
  assumes "length buf = 160" "printed 0 fmt args = Inr out" "length out < 2 ^ 31 - 7"
  shows "if length out \<le> 152 then \<exists>rest. panic_buffer buf fmt args = Inr (panic_text @ panic_line (map fst out) @ 0 # rest)
    else panic_buffer buf fmt args = Inl Bad_Access"
proof -
  let ?n = "length out" let ?msg = "map fst out"
  have ptext: "length panic_text = 7" "panic_text ! 6 = 0x20" by (simp_all add: panic_text_def)
  have len: "to_int (int ?n + 7) = int ?n + 7" using assms(3) by (intro to_int_exact) simp_all
  define rest where "rest = take (min ?n 152) ?msg @ 0 # drop (min ?n 152 + 1) (drop 7 buf)"
  have rest: "length rest = 153" using assms(1) by (simp add: rest_def)
  have v: "vsnprintf (drop 7 buf) fmt args = Inr (rest, ?n)"
    using assms(1,2) by (auto simp: vsnprintf_printed Let_def rest_def)
  have buffer: "panic_buffer buf fmt args = ebind (aget (panic_text @ rest) (?n + 6)) (\<lambda>c.
      if c \<noteq> 0x0A then put_newline (if ?n = 152 then ?n + 6 else ?n + 7) (panic_text @ rest) else Inr (panic_text @ rest))"
  proof -
    have "int (length (panic_text @ rest)) - 1 = 159" using rest ptext(1) by simp
    then have "nat (int ?n + 7 - (if int ?n + 7 = int (length (panic_text @ rest)) - 1 then 1 else 0)) = (if ?n = 152 then ?n + 6 else ?n + 7)"
      by (auto simp: nat_add_distrib)
    moreover have "nat (int ?n + 7 - 1) = ?n + 6" "0 < int ?n + 7" by simp_all
    ultimately show ?thesis using v by (simp only: panic_buffer_def ebind.simps prod.case Let_def len if_True)
  qed
  show ?thesis
  proof (cases "?n \<le> 152")
    case False
    show ?thesis
    proof (cases "?n = 153")
      case True
      then have "rest ! 152 = 0" by (simp add: rest_def nth_append)
      then show ?thesis using buffer True rest ptext(1) by (simp add: aget_def nth_append put_newline_def aset_def)
    next
      case F: False
      then show ?thesis using buffer False rest ptext(1) by (simp add: aget_def)
    qed
  next
    case True
    define i where "i = (if ?n = 152 then 151 else ?n)"
    have i: "i + 1 < 153" "i = min ?n 151" "(if ?n = 152 then ?n + 6 else ?n + 7) = 7 + i" using True by (auto simp: i_def)
    have at: "aget (panic_text @ rest) (?n + 6) = Inr (if ?msg = [] then 0x20 else last ?msg)"
    proof (cases "?msg = []")
      case True
      then show ?thesis using ptext by (simp add: aget_def nth_append)
    next
      case False
      then have "rest ! (?n - 1) = last ?msg" using True by (simp add: rest_def nth_append last_conv_nth)
      moreover have "(panic_text @ rest) ! (?n + 6) = rest ! (?n - 1)" using False ptext(1) by (cases out) (simp_all add: nth_append)
      ultimately show ?thesis using False True rest ptext(1) by (simp add: aget_def)
    qed
    have fill: "put_newline (7 + i) (panic_text @ rest) = Inr (panic_text @ (rest[i := 0x0A])[i + 1 := 0])"
      using i(1) rest ptext(1) by (simp add: put_newline_def aset_def list_update_append)
    have "take i rest = take 151 ?msg" using i(2) True by (auto simp: rest_def min_def)
    moreover have "rest[i := 0x0A] = take i rest @ 0x0A # rest ! (i + 1) # drop (i + 2) rest"
      using i(1) rest by (simp add: upd_conv_take_nth_drop Cons_nth_drop_Suc)
    ultimately have line: "(rest[i := 0x0A])[i + 1 := 0] = take 151 ?msg @ 0x0A # 0 # drop (i + 2) rest"
      using i(2) True by (simp add: list_update_append min_def)
    have nul: "rest = ?msg @ 0 # drop (?n + 1) (drop 7 buf)" using True by (simp add: rest_def)
    show ?thesis
    proof (cases "?msg \<noteq> [] \<and> last ?msg = 0x0A")
      case l: True
      then show ?thesis using buffer at True nul by (auto simp: panic_line_def)
    next
      case False
      then have "(if ?msg = [] then 0x20 else last ?msg) \<noteq> 0x0A" by auto
      then have "panic_buffer buf fmt args = Inr (panic_text @ take 151 ?msg @ 0x0A # 0 # drop (i + 2) rest)"
        unfolding buffer at i(3) using fill line by simp
      then show ?thesis using True False by (auto simp: panic_line_def)
    qed
  qed
qed

text \<open>A line on the console: its characters and blanks up to the end of the row, a whole row of them when the
characters fill theirs.\<close>

definition line_cells :: "u32 \<Rightarrow> bytes \<Rightarrow> u16 list" where
  "line_cells color text = map (\<lambda>c. ucast (ucast c OR color)) text @
     replicate (80 - length text mod 80) (ucast (0x20 OR color))"

lemma fill_line_cells:
  "cp_cell p + n \<le> length (cp_cells p) \<Longrightarrow> fill_line n v p = Inr (p\<lparr>cp_cells := take (cp_cell p) (cp_cells p) @ replicate n v @
     drop (cp_cell p + n) (cp_cells p), cp_cell := cp_cell p + n\<rparr>)"
proof (induction n arbitrary: p)
  case (Suc n)
  let ?p = "p\<lparr>cp_cells := (cp_cells p)[cp_cell p := v], cp_cell := cp_cell p + 1\<rparr>"
  have "take (Suc (cp_cell p)) ((cp_cells p)[cp_cell p := v]) = take (cp_cell p) (cp_cells p) @ [v]"
    using Suc.prems by (simp add: take_Suc_conv_app_nth)
  then show ?case using Suc.IH [of ?p] Suc.prems by (simp add: put_cell_def drop_update_cancel)
qed simp

text \<open>A line printed in the row \<open>row\<close>, with room below.\<close>

lemma line_printed:
  assumes p: "length (cp_cells p) = 2000" "cp_cell p mod 80 = 0" "cp_cell p + length (line_cells color text) \<le> 2000"
    and no_break: "0x0A \<notin> set text"
  shows "fold console_put (map (\<lambda>c. (c, color)) (text @ [0x0A])) p = p\<lparr>cp_cells := take (cp_cell p) (cp_cells p) @
    line_cells color text @ drop (cp_cell p + length (line_cells color text)) (cp_cells p),
    cp_cell := cp_cell p + length (line_cells color text)\<rparr>"
proof -
  let ?cells = "map (\<lambda>c. ucast (ucast c OR color)) text :: u16 list" and ?n = "80 - length text mod 80"
  let ?q = "p\<lparr>cp_cells := take (cp_cell p) (cp_cells p) @ ?cells @ drop (cp_cell p + length text) (cp_cells p),
    cp_cell := cp_cell p + length text\<rparr>"
  have len: "length (line_cells color text) = length text + ?n" "0 < ?n" by (simp_all add: line_cells_def)
  have room: "cp_cell p + length text \<le> 2000" using p(3) len by linarith
  have "\<forall>x \<in> set (map (\<lambda>c. (c, color)) text). fst x \<noteq> 0x0A" using no_break by auto
  from console_put_text [OF this p(1)] room have "fold console_put (map (\<lambda>c. (c, color)) text) p = ?q"
    by (simp add: comp_def)
  then have f: "fold console_put (map (\<lambda>c. (c, color)) (text @ [0x0A])) p = console_put (0x0A, color) ?q"
    by (simp only: map_append fold_append list.map o_apply fold_simps)
  have "(cp_cell p + length text) mod 80 = length text mod 80" using p(2) by (metis add_0 mod_add_left_eq)
  then have put: "console_put (0x0A, color) ?q = projr (fill_line ?n (ucast (0x20 OR color)) ?q)"
    using p(3) len by (simp add: console_put_def console_putc_def scroll_loop_end)
  have "cp_cell ?q + ?n \<le> length (cp_cells ?q)" using p(1,3) len(2) room by (simp add: len(1))
  note fill = fill_line_cells [OF this, of "ucast (0x20 OR color)"]
  show ?thesis unfolding f put fill using p(1) room by (simp add: len(1) line_cells_def ac_simps)
qed

lemma printed_string:
  assumes "length text < 2 ^ 31 - 1"
  shows "printed color (map of_char ''%s'') [String_Arg text] = Inr (map (\<lambda>c. (c, color)) text)"
proof -
  have to: "to_int (int (length text)) = int (length text)" using assms by (intro to_int_exact) simp_all
  have parts: "parse_flags 0 [0x73] = (0, [0x73])" "sint (0x73 :: u8) = 115" "parse_length [0x73] = (False, [0x73])" by code_simp+
  have "parse_width [0x73] [String_Arg text] = Inr (-1, [0x73], [String_Arg text])"
    "parse_precision [0x73] [String_Arg text] = Inr (-1, [0x73], [String_Arg text])"
    "convert 0 False [0x73] [String_Arg text] = Inr (Text 0 text, [], [])"
    by (simp_all add: parse_width_def parse_precision_def convert_def peek_def parts(2))
  note parsed = parts this
  then have "conversion [0x73] [String_Arg text] = Inr (-1, -1, Text 0 text, [], [])" by (simp only: conversion_def parsed prod.case ebind.simps)
  moreover have "laid_out 0 (-1) (-1) [] text = text"
  proof -
    have "to_int (- 1 - int (length text)) = - 1 - int (length text)" using assms by (intro to_int_exact) simp_all
    then show ?thesis using to by (simp add: laid_out_def Let_def)
  qed
  ultimately show ?thesis by (simp add: printed.simps(2))
qed

text \<open>The characters of the line that is shown, without the line break; a line in the rows from 23 on.\<close>

definition panic_shown :: "bytes \<Rightarrow> bytes" where
  "panic_shown msg = panic_text @ (if msg \<noteq> [] \<and> last msg = 0x0A then butlast msg else take 151 msg)"

definition shows_row23 :: "u16 list \<Rightarrow> console \<Rightarrow> console" where
  "shows_row23 line con =
     con\<lparr>con_cells := take (23 * 80) (con_cells con) @ line @ drop (23 * 80 + length line) (con_cells con)\<rparr>"

lemma panic_shown_line: "panic_text @ panic_line msg = panic_shown msg @ [0x0A]"
proof (cases "msg \<noteq> [] \<and> last msg = 0x0A")
  case True
  then have "butlast msg @ [0x0A] = msg" by (metis append_butlast_last_id)
  then show ?thesis using True by (simp add: panic_line_def panic_shown_def)
qed (auto simp: panic_line_def panic_shown_def)

lemma panic_shown_ok:
  assumes "0 \<notin> set msg" "0x0A \<notin> set (butlast msg)" "length msg \<le> 152"
  shows "0 \<notin> set (panic_shown msg)" "0x0A \<notin> set (panic_shown msg)" "length (panic_shown msg) \<le> 158"
proof -
  have ptext: "length panic_text = 7" "0 \<notin> set panic_text" "0x0A \<notin> set panic_text" by (simp_all add: panic_text_def)
  show "0 \<notin> set (panic_shown msg)"
    using assms(1) ptext(2) by (auto simp: panic_shown_def dest: in_set_butlastD in_set_takeD)
  show "length (panic_shown msg) \<le> 158" using assms(3) ptext(1) by (auto simp: panic_shown_def)
  show "0x0A \<notin> set (panic_shown msg)"
  proof (cases "msg \<noteq> [] \<and> last msg = 0x0A")
    case True
    then show ?thesis using assms(2) ptext(3) by (simp add: panic_shown_def)
  next
    case False
    then have "0x0A \<notin> set msg" using assms(2) append_butlast_last_id [of msg]
      by (cases "msg = []") (simp, metis Un_iff list.set(1,2) insert_iff set_append singletonD)
    then show ?thesis using False ptext(3) by (auto simp: panic_shown_def dest: in_set_takeD)
  qed
qed

section \<open>Properties\<close>

text \<open>C40: \<open>panic\<close> of a user program formats its message into a buffer of 160 bytes behind \<open>PANIC: \<close>. With a message of up to 152 bytes
it prints one line in the row 23 of the console, red, changes nothing else there and makes the system call; the line has the whole
message, but of a message of 152 bytes without a line break at its end the last byte is lost. With a longer message it reads or
writes outside its buffer: \<open>vsnprintf\<close> returns the length the message has, not what it has written. The message has no byte 0 and
no line break before its end.\<close>

theorem panic_message:
  assumes "length buf = 160" "console_ok con" "printed 0 fmt args = Inr out" "length out < 2 ^ 31 - 7"
    and "0 \<notin> fst ` set out" "0x0A \<notin> fst ` set (butlast out)"
  shows "panic buf fmt args con =
    (if length out \<le> 152 then
       Inr (shows_row23 (line_cells 0xC000 (panic_shown (map fst out))) con, zero_regs\<lparr>reg_rax := SYSCALL_PANIC, reg_rdi := 0\<rparr>)
     else Inl Bad_Access)"
proof (cases "length out \<le> 152")
  case False
  then show ?thesis using panic_buffer_line [OF assms(1,3,4)] by (simp add: panic_def)
next
  case True
  define shown where "shown = panic_shown (map fst out)"
  obtain rest where buffer: "panic_buffer buf fmt args = Inr (panic_text @ panic_line (map fst out) @ 0 # rest)"
    using True panic_buffer_line [OF assms(1,3,4)] by auto
  have "0 \<notin> set (map fst out)" "0x0A \<notin> set (butlast (map fst out))" using assms(5,6) by (simp_all add: map_butlast [symmetric])
  note shown = panic_shown_ok [OF this, folded shown_def]
  have len: "length shown \<le> 158" using shown(3) True by simp
  have cstr: "c_str (panic_text @ panic_line (map fst out) @ 0 # rest) = shown @ [0x0A]"
  proof -
    have "panic_text @ panic_line (map fst out) @ 0 # rest = (shown @ [0x0A]) @ 0 # rest"
      using panic_shown_line [of "map fst out"] unfolding shown_def by (metis append_assoc)
    moreover have "\<forall>c \<in> set (shown @ [0x0A]). c \<noteq> 0" using shown(1) True by auto
    ultimately show ?thesis unfolding c_str_def by (simp only: takeWhile_append2 takeWhile.simps) simp
  qed
  have size: "1840 + length (line_cells 0xC000 shown) \<le> 2000"
  proof -
    have "length shown < 80 \<or> 80 \<le> length shown \<and> length shown mod 80 = length shown - 80"
      using len by (auto simp: mod_if)
    then show ?thesis using len by (auto simp: line_cells_def)
  qed
  obtain p where p: "console_printer 1840 False con = Inr p" "printer_ok p" "cp_cells p = con_cells con" "cp_cell p = 1840"
    using console_printer_ok [OF assms(2), of 1840 False] by auto
  have "console_vprintf (CPOS 23 0) 0xC000 (map of_char ''%s'') [String_Arg (shown @ [0x0A])] con =
      Inr (console_finish 1840 con (p\<lparr>cp_cells := take 1840 (con_cells con) @ line_cells 0xC000 shown @
        drop (1840 + length (line_cells 0xC000 shown)) (con_cells con), cp_cell := 1840 + length (line_cells 0xC000 shown)\<rparr>))"
    using p line_printed [of p "0xC000" shown] shown(2) True size printed_string [of "shown @ [0x0A]" "0xC000"] len
      cprinter.vprintf_fold [OF p(2)]
    by (simp add: console_vprintf_def CPOS_def printer_ok_def)
  then show ?thesis using True buffer cstr
    by (simp add: panic_def sys_panic_def console_finish_def shows_row23_def shown_def)
qed

text \<open>A short message and a long one.\<close>

lemma panic_message_witness:
  "\<exists>con. panic (replicate 160 0) (map of_char ''no'') [] blank_console = Inr (con, zero_regs\<lparr>reg_rax := SYSCALL_PANIC, reg_rdi := 0\<rparr>) \<and>
     con_cells con ! 1840 = 0xC050 \<and> con_cells con ! 1848 = 0xC06F \<and> con_cells con ! 1849 = 0xC020 \<and>
   panic (replicate 160 0) (replicate 154 0x41) [] blank_console = Inl Bad_Access"
proof -
  have out: "printed color (replicate n 0x41) [] = Inr (replicate n (0x41, color))" for n color
    by (induction n) (simp_all add: printed.simps(2))
  have a: "0x0A \<notin> fst ` set (butlast (replicate n (0x41 :: u8, 0 :: u32)))" for n by (auto dest: in_set_butlastD)
  have "panic (replicate 160 0) (replicate 154 0x41) [] blank_console = Inl Bad_Access"
    using panic_message [OF length_replicate blank_console_ok out _ _ a] by simp
  moreover have no: "printed 0 (map of_char ''no'') [] = Inr [(0x6E, 0), (0x6F, 0)]" by code_simp
  moreover have "length (con_cells blank_console) = 2000" using blank_console_ok by (simp add: console_ok_def)
  ultimately show ?thesis
    using panic_message [OF length_replicate blank_console_ok no, of 0] by (simp add: panic_text_def panic_shown_def shows_row23_def line_cells_def nth_append)
qed

end
