(* ===== verification/Spec2Isabelle.thy ===== *)
theory Spec2Isabelle
  imports Prelude DirTree TestTree Fat16 Recover BasicAst BasicCompile X86 BasicSem BasicCorrect
    BasicProgram BasicParser BasicMain ClassFile Jvm JvmVerify Runs Memlib Blocks
    Allocator TraceDriver MmImplicit MmExplicit FreeList ExplicitHeap ExplicitMalloc
    ExplicitRuns Queue ThreadPool PasswordCracker PageTable Vmiter TableUpdate PageMap
    AddressSpace ProgramImage Kernel Isolation ProcessSetup ProgramLoad NewProcess KernelTables
    Boot CMemory CNumbers CPrintf Console SymTab RangePerm PtIter
    MemViewer UserLib
begin

text \<open>
  The C and C++ programs of a systems course, verified one by one: a tool that recovers files from a FAT16 image
  (\<open>pretest-wduan\<close>), a virtual machine for a subset of Java (\<open>project01-wduan\<close>), a compiler from TeenyBASIC to x86-64
  assembly (\<open>project02b-wduan\<close>), two memory allocators and their test driver (\<open>project03-wduan\<close>), the kernel of
  WeensyOS (\<open>project04a-wduan\<close>), and a thread pool with a password cracker on top of it (\<open>project05-wduan\<close>). The programs
  do not share code; \<open>Prelude\<close> and \<open>Runs\<close> hold what their models share. A step that can fail has the type \<open>result\<close>
  (a \<open>c_error\<close> or a value, sequenced by \<open>ebind\<close>), a run that may also go on for ever has the type \<open>run\<close>
  (\<open>None\<close> for ever, sequenced by \<open>rbind\<close>). Every \<open>assert\<close>, access outside an array, trap, exit and early return of the code
  is a branch of the model. Integers have the width the code gives them, wherever it matters.

  FAT16 recovery. \<open>DirTree\<close> is \<open>directory_tree.c\<close> (nodes, the insertion that keeps children sorted, the printed
  form, the tree written to disk as a sequence of file system calls on a file system that resolves paths), \<open>TestTree\<close> is \<open>test_tree.c\<close> (binary search for
  a child, insertion at a path), \<open>Fat16\<close> is \<open>fat16.c\<close> (the records on disk and the functions that read them), \<open>Recover\<close> is
  \<open>recover.c\<close> (the walk over the image). The lemmas show that the children stay sorted, that the binary search is a
  linear search (the locale \<open>name_table\<close>, interpreted on the children of a directory), that records read back as
  written, and that the walk lists a directory and those below it exactly, by a specification of what the bytes of the disk hold
  that is independent of the functions of the code. The walk follows the image, so it has fuel; \<open>follow_returns\<close> gives an amount that is
  enough on every image without cycles.

  TeenyJVM. \<open>ClassFile\<close> is \<open>read_class.c\<close>, a reader on a stream of bytes; the locale \<open>codec\<close> is a writer and a reader
  that undo each other, interpreted for every record of the format. \<open>Jvm\<close> is \<open>jvm.c\<close> and \<open>heap.c\<close>: one function per
  group of instructions, the loop \<open>execute\<close> with fuel, which only bounds the number of instructions
  (\<open>answer_independent_of_fuel\<close>). The interpreter's shifts use the count as it is, so that one outside 0 to 31 is an error of
  the model. \<open>JvmVerify\<close> is a bytecode check that is not in the sources, with the proof that a
  class that passes it makes none of the errors the interpreter asserts against.

  TeenyBASIC. \<open>BasicAst\<close> and \<open>BasicParser\<close> are \<open>ast.c\<close> and \<open>parser.c\<close> (the parser's fuel is the length of the input,
  shown to be enough), \<open>BasicCompile\<close> is \<open>compile.c\<close> and \<open>compiler.c\<close>, \<open>BasicMain\<close> the program's \<open>main\<close>. \<open>BasicSem\<close> is
  the meaning of a program, \<open>X86\<close> the instructions that the compiler emits together with \<open>runtime/print_int.s\<close>;
  \<open>BasicCorrect\<close> and \<open>BasicProgram\<close> prove the compiler correct, traps included (the locale \<open>det_machine\<close> has the facts on
  runs that need only that steps are deterministic).

  malloc. \<open>Memlib\<close> is \<open>memlib.c\<close>, \<open>Blocks\<close> and \<open>MmImplicit\<close> are \<open>mm-implicit.c\<close>, \<open>MmExplicit\<close> is \<open>mm-explicit.c\<close>, \<open>TraceDriver\<close>
  is the part of \<open>mdriver.c\<close> that runs a trace and checks the allocator. \<open>Allocator\<close> states the contract of \<open>mm.h\<close> as
  three locales, each extending the one before; the driver's theorem is proved in them, and both allocators
  interpret them, so that each passes the driver on every trace. \<open>FreeList\<close>, \<open>ExplicitHeap\<close>, \<open>ExplicitMalloc\<close> and
  \<open>ExplicitRuns\<close> relate the memory of the explicit allocator to a list of blocks and a list of free blocks; the invariant holds for clients that request
  no empty block, and \<open>empty_block_breaks_neighbour\<close> shows why they must not.

  Thread pool. \<open>Queue\<close> is \<open>queue.c\<close>, a linked list with the locale \<open>fifo_queue\<close> as its contract, \<open>ThreadPool\<close> is
  \<open>thread_pool.c\<close> with its threads, mutex and condition variable as a step relation, \<open>PasswordCracker\<close> is the program on
  it. The invariant of \<open>ThreadPool\<close> is proved for every interleaving; from it come safety, the absence of deadlocks, a
  bound on the number of steps, and the output of the program. The model goes on to the end of \<open>thread_pool_finish\<close> and has what is allocated, so the theorems say
  that everything is freed and that nothing is used after that. Work functions that add work themselves are not modelled.

  WeensyOS. \<open>PageTable\<close> is the page-table format of \<open>x86-64.h\<close>, with the processor's page walk as a reference, \<open>Vmiter\<close>
  the iterator of \<open>k-vmiter.cc\<close>, \<open>TableUpdate\<close> the effect of stores into tables, \<open>PageMap\<close> the page allocator of
  \<open>kernel.c\<close>, \<open>try_map\<close> and \<open>util.c\<close>, with the locale \<open>page_source\<close> as the contract of the page allocator, \<open>AddressSpace\<close>
  the loops that map many pages, \<open>Kernel\<close> the system calls, exceptions and scheduler of \<open>kernel.c\<close>, \<open>Isolation\<close> the proof
  that processes are isolated. \<open>ProgramImage\<close> is the part of \<open>k-hardware.cc\<close> that finds a program image and its segments;
  \<open>ProcessSetup\<close>, \<open>ProgramLoad\<close> and \<open>NewProcess\<close> prove that \<open>process_setup\<close> makes a process with its program and its stack in
  an address space of its own: the low memory, the segments page by page and byte by byte, and the whole. \<open>KernelTables\<close> is the
  kernel's page table of \<open>init_kernel_memory\<close>, \<open>Boot\<close> is \<open>kernel_start\<close>, with the proof that the system starts in a state that
  \<open>Isolation\<close> speaks of, and that \<open>sys_page_alloc\<close> lets a process replace a mapping of the kernel.

  \<open>RangePerm\<close> is \<open>vmiter::range_perm\<close>, \<open>PtIter\<close> the iterator over the pages of a page table, shown to visit each once after those
  below it (its loops have no fuel: they are partial functions, and the theorems show that they end), and \<open>SymTab\<close> the search for
  a kernel symbol. \<open>MemViewer\<close> is the part of \<open>k-memviewer.cc\<close> that finds out who uses a page, with the proof that it finds nothing wrong in
  an isolated system; \<open>UserLib\<close> is how user programs fail, \<open>u-lib.cc\<close>, up to what is on the console.

  The C library of WeensyOS, \<open>lib.cc\<close>, works on bytes: \<open>CMemory\<close> is its memory and string functions, \<open>CNumbers\<close> the functions
  that read and write numbers and its random numbers, \<open>CPrintf\<close> is \<open>vprintf\<close> with \<open>vsnprintf\<close>. A printer of the code is a class with a
  virtual \<open>putc\<close>; in the model it is an argument, and the locale \<open>total_printer\<close> has the lemmas on printers that never fail and keep
  an invariant of theirs. \<open>sprinter\<close> is its interpretation for buffers, and \<open>cprinter\<close> the one for the console of \<open>Console\<close>.

  Not modelled. The hardware set-up, the keyboard, the log and the drawing of the memory viewer of WeensyOS act on devices or only show
  the state, and the console is its array of cells, without the ports that move the cursor on the screen; its boot loader and the
  build's tools run outside the kernel; its user programs only make system calls, which the
  model has with any arguments. The programs of \<open>project04b-wduan\<close> guess secrets from the time memory accesses take, which
  no semantics of C determines. The timers of the malloc driver and of TeenyBASIC measure the machine. The reading of trace
  files and the command line of the malloc driver, and the test programs of the thread pool, are left out.
\<close>

end
